(* ===== verification/VL_Prelude.thy ===== *)
theory VL_Prelude
  imports Main "HOL-Library.Word" "HOL-Library.Monad_Syntax" "HOL-Library.Multiset"
begin

text \<open>
  Shared ground of the development: the widths of the library's machine integers, the
  arithmetic of its 32-bit counters, the padding macro of \<^verbatim>\<open>vl_memory.h\<close>, and the generic
  lemmas on lists and options that the component theories use.

  Throughout, an operation of the library that may run into undefined behaviour (a null or
  dangling pointer, an index outside an allocation, a read of memory that was never
  written) or that may not return is a function into an \<^typ>\<open>'a option\<close>: \<^const>\<open>None\<close> stands
  for that behaviour. A theorem that such an operation is \<^const>\<open>Some\<close> of a state is thus a
  theorem of memory safety and of termination as well.
\<close>

unbundle bit_operations_syntax

named_theorems vl_simps \<open>rewrite rules shared by the component proofs\<close>

section \<open>Integers of the library\<close>

text \<open>
  The configuration modelled is the 64-bit one of \<^verbatim>\<open>cmake/PrimitiveTypes.cmake\<close>:
  \<^verbatim>\<open>vl_memsize_t\<close>, \<^verbatim>\<open>vl_ularge_t\<close>, \<^verbatim>\<open>vl_dsoffs_t\<close> and \<^verbatim>\<open>vl_uintptr_t\<close> have 64 bits,
  \<^verbatim>\<open>vl_dsidx_t\<close>, \<^verbatim>\<open>vl_uint_t\<close> and \<^verbatim>\<open>vl_int_t\<close> have 32.
\<close>

type_synonym u8 = "8 word"
type_synonym u16 = "16 word"
type_synonym u32 = "32 word"
type_synonym u64 = "64 word"

text \<open>Truncation to an unsigned width, on natural numbers.\<close>

definition u16_of :: "nat \<Rightarrow> nat" where
  "u16_of n = n mod 2 ^ 16"

definition u32_of :: "nat \<Rightarrow> nat" where
  "u32_of n = n mod 2 ^ 32"

definition u64_of :: "nat \<Rightarrow> nat" where
  "u64_of n = n mod 2 ^ 64"

text \<open>Increment and decrement of a 32-bit counter, with the wrap-around of C.\<close>

definition inc32 :: "nat \<Rightarrow> nat" where
  "inc32 n = u32_of (n + 1)"

definition dec32 :: "nat \<Rightarrow> nat" where
  "dec32 n = u32_of (n + (2 ^ 32 - 1))"

lemma u16_of_id [vl_simps]: "n < 2 ^ 16 \<Longrightarrow> u16_of n = n"
  by (simp add: u16_of_def)

lemma u32_of_id [vl_simps]: "n < 2 ^ 32 \<Longrightarrow> u32_of n = n"
  by (simp add: u32_of_def)

lemma u64_of_id [vl_simps]: "n < 2 ^ 64 \<Longrightarrow> u64_of n = n"
  by (simp add: u64_of_def)

lemma u32_of_less [simp]: "u32_of n < 4294967296"
  by (simp add: u32_of_def)

lemma inc32_id [vl_simps]: "n < 2 ^ 32 - 1 \<Longrightarrow> inc32 n = Suc n"
  by (simp add: inc32_def u32_of_def)

lemma dec32_id [vl_simps]:
  assumes "0 < n" and "n < 2 ^ 32"
  shows "dec32 n = n - 1"
proof -
  from assms have "n + (2 ^ 32 - 1) = (n - 1) + 2 ^ 32" by simp
  moreover from assms have "n - 1 < 2 ^ 32" by linarith
  ultimately show ?thesis
    by (simp only: dec32_def u32_of_def mod_add_self2 mod_less)
qed

lemma inc32_mod: "inc32 (u32_of n) = u32_of (Suc n)"
  by (simp add: inc32_def u32_of_def mod_Suc_eq)

lemma dec32_mod: "dec32 (u32_of (Suc n)) = u32_of n"
proof -
  have "(Suc n mod 2 ^ 32 + (2 ^ 32 - 1)) mod 2 ^ 32 = (Suc n + (2 ^ 32 - 1)) mod (2 ^ 32 :: nat)"
    by (rule mod_add_left_eq)
  also have "\<dots> = (n + 2 ^ 32) mod 2 ^ 32" by simp
  also have "\<dots> = n mod 2 ^ 32" by (rule mod_add_self2)
  finally show ?thesis by (simp only: dec32_def u32_of_def)
qed

section \<open>The padding macro\<close>

text \<open>
  \<^verbatim>\<open>VL_MEMORY_PAD_UP(len, pad)\<close> of \<^verbatim>\<open>vl_memory.h\<close>: \<^verbatim>\<open>((len) + (pad) - 1) & ~((pad) - 1)\<close>,
  on 64-bit words.
\<close>

definition VL_MEMORY_PAD_UP :: "u64 \<Rightarrow> u64 \<Rightarrow> u64" where
  "VL_MEMORY_PAD_UP len pad = (len + pad - 1) AND NOT (pad - 1)"

definition padUp :: "nat \<Rightarrow> nat \<Rightarrow> nat" where
  "padUp len pad = unat (VL_MEMORY_PAD_UP (of_nat len) (of_nat pad))"

lemma and_not_mask_nat:
  fixes x :: "'a::len word"
  shows "unat (x AND NOT (mask k)) = unat x div 2 ^ k * 2 ^ k"
proof -
  have "x AND NOT (mask k) = push_bit k (drop_bit k x)"
    by (rule bit_word_eqI) (auto simp: bit_simps)
  then have "unat (x AND NOT (mask k)) = take_bit LENGTH('a) (push_bit k (drop_bit k (unat x)))"
    by (simp add: unsigned_push_bit_eq unsigned_drop_bit_eq take_bit_nat_eq_self [OF unsigned_less])
  also have "push_bit k (drop_bit k (unat x)) \<le> unat x"
    by (simp add: push_bit_eq_mult drop_bit_eq_div)
  then have "push_bit k (drop_bit k (unat x)) < 2 ^ LENGTH('a)"
    using unsigned_less [of x] by (rule le_less_trans)
  then have "take_bit LENGTH('a) (push_bit k (drop_bit k (unat x))) = push_bit k (drop_bit k (unat x))"
    by (rule take_bit_nat_eq_self)
  finally show ?thesis
    by (simp add: push_bit_eq_mult drop_bit_eq_div)
qed

lemma unat_of_nat_u64 [vl_simps]: "n < 2 ^ 64 \<Longrightarrow> unat (of_nat n :: u64) = n"
  by (simp add: unat_of_nat)

lemma padUp_pow2:
  assumes "k < 64" and "len + 2 ^ k \<le> 2 ^ 64"
  shows "padUp len (2 ^ k) = (len + 2 ^ k - 1) div 2 ^ k * 2 ^ k"
proof -
  have pos: "(0::nat) < 2 ^ k" by simp
  have pk: "(of_nat (2 ^ k) :: u64) - 1 = mask k"
    by (simp add: mask_eq_exp_minus_1)
  have sum: "of_nat len + of_nat (2 ^ k) - 1 = (of_nat (len + 2 ^ k - 1) :: u64)"
  proof -
    have "of_nat (len + 2 ^ k - 1) = (of_nat (len + 2 ^ k) :: u64) - of_nat 1"
      by (rule of_nat_diff) (use pos in linarith)
    then show ?thesis by simp
  qed
  have "unat (of_nat (len + 2 ^ k - 1) :: u64) = len + 2 ^ k - 1"
    by (rule unat_of_nat_u64) (use assms pos in linarith)
  then show ?thesis
    by (simp only: padUp_def VL_MEMORY_PAD_UP_def pk sum and_not_mask_nat)
qed

lemma padUp_props:
  assumes "k < 64" and "len + 2 ^ k \<le> 2 ^ 64"
  shows padUp_ge: "len \<le> padUp len (2 ^ k)"
    and padUp_less: "padUp len (2 ^ k) < len + 2 ^ k"
    and padUp_dvd: "2 ^ k dvd padUp len (2 ^ k)"
proof -
  let ?p = "2 ^ k :: nat"
  have pos: "0 < ?p" by simp
  have eq: "padUp len ?p = (len + ?p - 1) div ?p * ?p"
    using assms by (rule padUp_pow2)
  have "(len + ?p - 1) div ?p * ?p + (len + ?p - 1) mod ?p = len + ?p - 1"
    by (rule div_mult_mod_eq)
  moreover have "(len + ?p - 1) mod ?p < ?p" by (rule mod_less_divisor) (rule pos)
  ultimately show "len \<le> padUp len ?p" and "padUp len ?p < len + ?p"
    using pos unfolding eq by linarith+
  show "?p dvd padUp len ?p" unfolding eq by simp
qed

section \<open>Lists of cells\<close>

text \<open>
  \<^term>\<open>hd_or xs d\<close> and \<^term>\<open>last_or xs d\<close> are the ends of a chain of iterators, or the
  sentinel \<^term>\<open>d\<close> when the chain is empty.
\<close>

definition hd_or :: "'a list \<Rightarrow> 'a \<Rightarrow> 'a" where
  "hd_or xs d = (case xs of [] \<Rightarrow> d | x # _ \<Rightarrow> x)"

definition last_or :: "'a list \<Rightarrow> 'a \<Rightarrow> 'a" where
  "last_or xs d = (if xs = [] then d else last xs)"

lemma hd_or_simps [simp]:
  "hd_or [] d = d" "hd_or (x # xs) d = x"
  by (simp_all add: hd_or_def)

lemma last_or_simps [simp]:
  "last_or [] d = d" "last_or (x # xs) d = last_or xs x"
  by (simp_all add: last_or_def)

lemma hd_or_append [simp]: "hd_or (xs @ ys) d = hd_or xs (hd_or ys d)"
  by (cases xs) simp_all

lemma last_or_append [simp]: "last_or (xs @ ys) d = last_or ys (last_or xs d)"
  by (simp add: last_or_def)

lemma hd_or_in: "xs \<noteq> [] \<Longrightarrow> hd_or xs d \<in> set xs"
  by (cases xs) simp_all

lemma last_or_in: "xs \<noteq> [] \<Longrightarrow> last_or xs d \<in> set xs"
  by (simp add: last_or_def)

lemma last_or_cases: "last_or xs d = d \<or> last_or xs d \<in> set xs"
  by (cases "xs = []") (simp_all add: last_or_in)

lemma card_less_nat_set:
  assumes "A \<subseteq> {..<n :: nat}" and "e \<notin> A" and "e < n"
  shows "card A < n"
proof -
  have "A \<subset> {..<n}" using assms by auto
  then have "card A < card {..<n}" by (rule psubset_card_mono [rotated]) simp
  then show ?thesis by simp
qed

end
