(* ===== verification/VL_Compare.thy ===== *)
theory VL_Compare
  imports VL_Prelude
begin

text \<open>
  The comparison functions of \<^verbatim>\<open>src/core/vl_compare.c\<close> and the contract they keep.
  \<^verbatim>\<open>VL_COMPARE_FUNC\<close> generates, for each integer type, the three-way comparison of two
  values and its reverse; the signed instances read their operands with \<^const>\<open>sint\<close>, the
  unsigned ones with \<^const>\<open>uint\<close>, at any width. The locale \<open>comparator\<close> is what the
  sorting routines ask of a \<^verbatim>\<open>vl_compare_function\<close>, and \<open>ordering_comparator\<close> what the
  ordered set asks.
\<close>

section \<open>The generated comparison functions\<close>

definition vlCompareInt :: "'a::len word \<Rightarrow> 'a word \<Rightarrow> int" where
  "vlCompareInt dataA dataB =
     of_bool (sint dataA > sint dataB) - of_bool (sint dataA < sint dataB)"

definition vlCompareIntReverse :: "'a::len word \<Rightarrow> 'a word \<Rightarrow> int" where
  "vlCompareIntReverse dataA dataB =
     of_bool (sint dataB > sint dataA) - of_bool (sint dataB < sint dataA)"

definition vlCompareUInt :: "'a::len word \<Rightarrow> 'a word \<Rightarrow> int" where
  "vlCompareUInt dataA dataB =
     of_bool (uint dataA > uint dataB) - of_bool (uint dataA < uint dataB)"

definition vlCompareUIntReverse :: "'a::len word \<Rightarrow> 'a word \<Rightarrow> int" where
  "vlCompareUIntReverse dataA dataB =
     of_bool (uint dataB > uint dataA) - of_bool (uint dataB < uint dataA)"

lemmas compare_defs =
  vlCompareInt_def vlCompareIntReverse_def vlCompareUInt_def vlCompareUIntReverse_def

section \<open>What the clients ask of a comparison function\<close>

locale comparator =
  fixes cmp :: "'a \<Rightarrow> 'a \<Rightarrow> int"
  assumes cmp_total: "cmp a b \<le> 0 \<or> cmp b a \<le> 0"
    and cmp_trans: "cmp a b \<le> 0 \<Longrightarrow> cmp b c \<le> 0 \<Longrightarrow> cmp a c \<le> 0"
begin

lemma cmp_refl: "cmp a a \<le> 0"
  using cmp_total [of a a] by simp

lemma not_le_flip: "\<not> cmp a b \<le> 0 \<Longrightarrow> cmp b a \<le> 0"
  using cmp_total [of a b] by simp

end

text \<open>
  A three-way comparison whose sign flips with its operands: the equivalence it defines is
  that of result 0, and the strict order that of a negative result.
\<close>

locale ordering_comparator = comparator +
  assumes cmp_sign: "0 < cmp a b \<longleftrightarrow> cmp b a < 0"
begin

lemma cmp_self: "cmp a a = 0"
  using cmp_sign [of a a] by linarith

lemma cmp_zero_sym: "cmp a b = 0 \<longleftrightarrow> cmp b a = 0"
  using cmp_sign [of a b] cmp_sign [of b a] by linarith

lemma cmp_less_le_trans: "cmp a b < 0 \<Longrightarrow> cmp b c \<le> 0 \<Longrightarrow> cmp a c < 0"
proof -
  assume ab: "cmp a b < 0" and bc: "cmp b c \<le> 0"
  then have "cmp a c \<le> 0" using cmp_trans [of a b c] by simp
  moreover have "cmp a c \<noteq> 0"
  proof
    assume "cmp a c = 0"
    then have "cmp c a \<le> 0" using cmp_zero_sym [of a c] by simp
    with bc have "cmp b a \<le> 0" by (rule cmp_trans)
    with ab cmp_sign [of b a] show False by simp
  qed
  ultimately show ?thesis by simp
qed

lemma cmp_le_less_trans: "cmp a b \<le> 0 \<Longrightarrow> cmp b c < 0 \<Longrightarrow> cmp a c < 0"
proof -
  assume ab: "cmp a b \<le> 0" and bc: "cmp b c < 0"
  then have "cmp a c \<le> 0" using cmp_trans [of a b c] by simp
  moreover have "cmp a c \<noteq> 0"
  proof
    assume "cmp a c = 0"
    then have "cmp c a \<le> 0" using cmp_zero_sym [of a c] by simp
    from this ab have "cmp c b \<le> 0" by (rule cmp_trans)
    with bc cmp_sign [of c b] show False by simp
  qed
  ultimately show ?thesis by simp
qed

lemma cmp_less_trans: "cmp a b < 0 \<Longrightarrow> cmp b c < 0 \<Longrightarrow> cmp a c < 0"
  by (erule cmp_less_le_trans) simp

lemma cmp_less_eq_trans: "cmp a b < 0 \<Longrightarrow> cmp b c = 0 \<Longrightarrow> cmp a c < 0"
  by (erule cmp_less_le_trans) simp

lemma cmp_eq_less_trans: "cmp a b = 0 \<Longrightarrow> cmp b c < 0 \<Longrightarrow> cmp a c < 0"
  by (rule cmp_le_less_trans) simp_all

end

interpretation cmp_int: ordering_comparator vlCompareInt
  by unfold_locales (auto simp: compare_defs of_bool_def split: if_splits)

interpretation cmp_int_rev: ordering_comparator vlCompareIntReverse
  by unfold_locales (auto simp: compare_defs of_bool_def split: if_splits)

interpretation cmp_uint: ordering_comparator vlCompareUInt
  by unfold_locales (auto simp: compare_defs of_bool_def split: if_splits)

interpretation cmp_uint_rev: ordering_comparator vlCompareUIntReverse
  by unfold_locales (auto simp: compare_defs of_bool_def split: if_splits)

end
