(* ===== verification/VL_Pool.thy ===== *)
theory VL_Pool
  imports VL_Prelude
begin

text \<open>
  The fixed-size pool of \<^verbatim>\<open>src/core/vl_pool.c\<close>: blocks of slots that are handed out one
  slot at a time, a table from block ordinals to blocks, and a stack of returned slots.

  A slot holds one value of the client's node type (\<^const>\<open>None\<close> while it was never
  written). A pointer to a block is its ordinal: the table holds the block with ordinal
  \<open>k\<close> at position \<open>k\<close>, and \<^const>\<open>None\<close> is the null pointer. The live part of the free
  stack, from \<^verbatim>\<open>freeStack\<close> up to \<^verbatim>\<open>freeTop\<close>, is a list whose last element is the top. The
  field \<open>mallocOk\<close> is the environment: whether an allocation of that many bytes succeeds.
\<close>

section \<open>Slot indices\<close>

text \<open>The union \<^verbatim>\<open>vl_pool_ordinal\<close>: a 64-bit index is a block ordinal and an element ordinal.\<close>

type_synonym vl_pool_idx = u64

definition nodeIndex :: "vl_pool_idx \<Rightarrow> nat" where
  "nodeIndex idx = unat idx mod 2 ^ 32"

definition elementIndex :: "vl_pool_idx \<Rightarrow> nat" where
  "elementIndex idx = unat idx div 2 ^ 32"

definition vl_pool_ordinal :: "nat \<Rightarrow> nat \<Rightarrow> vl_pool_idx" where
  "vl_pool_ordinal n e = of_nat (u32_of n + u32_of e * 2 ^ 32)"

definition VL_POOL_INVALID_IDX :: vl_pool_idx where
  "VL_POOL_INVALID_IDX = 0xFFFFFFFFFFFFFFFF"

definition VL_POOL_DEFAULT_SIZE :: nat where
  "VL_POOL_DEFAULT_SIZE = 16"

section \<open>State\<close>

record 'a vl_pool_node =
  totalTaken :: nat
  blockSize :: nat
  blockOrdinal :: nat
  nextLookup :: "nat option"
  elements :: "'a option list"

record 'a vl_pool =
  elementSize :: nat
  elementAlign :: nat
  growthIncrement :: nat
  lookupTotal :: nat
  lookupCapacity :: nat
  lookupTable :: "'a vl_pool_node option list"
  lookupHead :: "nat option"
  freeCapacity :: nat
  freeStack :: "vl_pool_idx list"
  mallocOk :: "nat \<Rightarrow> bool"

text \<open>Dereferencing \<^verbatim>\<open>pool->lookupTable[k]\<close>: out of the table, and through a null entry, is
  undefined.\<close>

definition node_at :: "'a vl_pool \<Rightarrow> nat \<Rightarrow> 'a vl_pool_node option" where
  "node_at pool k = (if k < length (lookupTable pool) then lookupTable pool ! k else None)"

definition set_node :: "'a vl_pool \<Rightarrow> nat \<Rightarrow> 'a vl_pool_node option \<Rightarrow> 'a vl_pool option" where
  "set_node pool k n =
     (if k < length (lookupTable pool)
      then Some (pool\<lparr>lookupTable := (lookupTable pool)[k := n]\<rparr>) else None)"

definition modify_node ::
  "'a vl_pool \<Rightarrow> nat \<Rightarrow> ('a vl_pool_node \<Rightarrow> 'a vl_pool_node) \<Rightarrow> 'a vl_pool option" where
  "modify_node pool k f =
     do { n \<leftarrow> node_at pool k; set_node pool k (Some (f n)) }"

text \<open>Reallocating an array of pointers to \<open>n\<close> entries: the common prefix is kept.\<close>

definition resize :: "nat \<Rightarrow> 'b option list \<Rightarrow> 'b option list" where
  "resize n xs = take n xs @ replicate (n - length xs) None"

section \<open>Operations\<close>

text \<open>
  \<^verbatim>\<open>vl_PoolNodeNew\<close>. \<^verbatim>\<open>sizeof(vl_pool_node)\<close> is 32. The size of the allocation is computed
  in 32 bits, since \<^verbatim>\<open>VL_POOL_ORDINAL_T\<close> is; the slots of the block are those that lie
  inside it. The result is the null pointer (\<^const>\<open>None\<close>) when the allocation fails, or
  the ordinal of the new block. Growing the table dereferences the reallocation unchecked.
\<close>

definition poolHeaderSize :: "'a vl_pool \<Rightarrow> nat" where
  "poolHeaderSize pool = u16_of (padUp 32 (elementAlign pool))"

definition poolBlockBytes :: "'a vl_pool \<Rightarrow> nat" where
  "poolBlockBytes pool =
     u32_of (poolHeaderSize pool + elementSize pool * u32_of (growthIncrement pool))"

definition poolBlockSlots :: "'a vl_pool \<Rightarrow> nat" where
  "poolBlockSlots pool =
     min (u32_of (growthIncrement pool)) ((poolBlockBytes pool - poolHeaderSize pool) div elementSize pool)"

definition vl_PoolNodeNew :: "'a vl_pool \<Rightarrow> (nat option \<times> 'a vl_pool) option" where
  "vl_PoolNodeNew pool =
     (if \<not> mallocOk pool (poolBlockBytes pool) then Some (None, pool)
      else
        let node = \<lparr>totalTaken = 0, blockSize = u32_of (growthIncrement pool),
                    blockOrdinal = lookupTotal pool, nextLookup = lookupHead pool,
                    elements = replicate (poolBlockSlots pool) None\<rparr>;
            pool = pool\<lparr>lookupHead := Some (blockOrdinal node),
                        growthIncrement := u64_of (growthIncrement pool * 2)\<rparr>
        in do {
          pool \<leftarrow>
            (if lookupTotal pool \<ge> lookupCapacity pool then
               let cap = u32_of (lookupCapacity pool * 2)
               in if \<not> mallocOk pool (8 * cap) then None
                  else Some (pool\<lparr>lookupCapacity := cap,
                                  lookupTable := resize cap (lookupTable pool)\<rparr>)
             else Some pool);
          pool \<leftarrow> set_node pool (blockOrdinal node) (Some node);
          Some (Some (blockOrdinal node), pool\<lparr>lookupTotal := inc32 (lookupTotal pool)\<rparr>)
        })"

text \<open>
  \<^verbatim>\<open>vlPoolInitAligned\<close>: the pool with its first block, or \<^const>\<open>None\<close> where an allocation
  fails and the function returns with the pool's fields unset. The first assignment of the
  result to \<^verbatim>\<open>*pool->lookupTable\<close> repeats the one inside \<^const>\<open>vl_PoolNodeNew\<close>. The stack
  of a pool whose fields are all unset is described by the record argument \<open>ok\<close> only.
\<close>

definition vlPoolInitAligned :: "(nat \<Rightarrow> bool) \<Rightarrow> nat \<Rightarrow> nat \<Rightarrow> 'a vl_pool option" where
  "vlPoolInitAligned ok esize alignment =
     (let pool = \<lparr>elementSize = u16_of (padUp esize alignment), elementAlign = alignment,
                  growthIncrement = VL_POOL_DEFAULT_SIZE, lookupTotal = 0,
                  lookupCapacity = VL_POOL_DEFAULT_SIZE,
                  lookupTable = replicate VL_POOL_DEFAULT_SIZE None, lookupHead = None,
                  freeCapacity = VL_POOL_DEFAULT_SIZE, freeStack = [], mallocOk = ok\<rparr>
      in if \<not> ok (8 * VL_POOL_DEFAULT_SIZE) then None
         else do {
           (node, pool) \<leftarrow> vl_PoolNodeNew pool;
           case node of
             None \<Rightarrow> None
           | Some k \<Rightarrow> Some (pool\<lparr>growthIncrement := VL_POOL_DEFAULT_SIZE\<rparr>)
         })"

text \<open>\<^verbatim>\<open>vlPoolInit\<close>: the default alignment, that of \<^verbatim>\<open>vl_ularge_t\<close>.\<close>

definition VL_DEFAULT_MEMORY_ALIGN :: nat where
  "VL_DEFAULT_MEMORY_ALIGN = 8"

definition vlPoolInit :: "(nat \<Rightarrow> bool) \<Rightarrow> nat \<Rightarrow> 'a vl_pool option" where
  "vlPoolInit ok esize = vlPoolInitAligned ok esize VL_DEFAULT_MEMORY_ALIGN"

text \<open>The search of \<^verbatim>\<open>vlPoolTake\<close> along \<^verbatim>\<open>nextLookup\<close> for a block with unused slots.\<close>

partial_function (option) take_search :: "'a vl_pool \<Rightarrow> nat option \<Rightarrow> nat option option" where
  [code]: "take_search pool cur =
     (case cur of
        None \<Rightarrow> Some None
      | Some k \<Rightarrow> do {
          n \<leftarrow> node_at pool k;
          if totalTaken n \<ge> blockSize n then take_search pool (nextLookup n)
          else Some (Some k)
        })"

definition vlPoolTake :: "'a vl_pool \<Rightarrow> (vl_pool_idx \<times> 'a vl_pool) option" where
  "vlPoolTake pool =
     (if freeStack pool \<noteq> [] then
        let idx = last (freeStack pool);
            pool = pool\<lparr>freeStack := butlast (freeStack pool)\<rparr>
        in do {
          pool \<leftarrow> modify_node pool (nodeIndex idx) (\<lambda>n. n\<lparr>totalTaken := inc32 (totalTaken n)\<rparr>);
          Some (idx, pool)
        }
      else do {
        cur \<leftarrow> take_search pool (lookupHead pool);
        case cur of
          Some k \<Rightarrow> do {
            n \<leftarrow> node_at pool k;
            pool \<leftarrow> modify_node pool k (\<lambda>n. n\<lparr>totalTaken := inc32 (totalTaken n)\<rparr>);
            Some (vl_pool_ordinal (blockOrdinal n) (totalTaken n), pool)
          }
        | None \<Rightarrow> do {
            (node, pool) \<leftarrow> vl_PoolNodeNew pool;
            case node of
              None \<Rightarrow> Some (VL_POOL_INVALID_IDX, pool)
            | Some k \<Rightarrow> do {
                n \<leftarrow> node_at pool k;
                pool \<leftarrow> modify_node pool k (\<lambda>n. n\<lparr>totalTaken := inc32 (totalTaken n)\<rparr>);
                Some (vl_pool_ordinal (blockOrdinal n) 0, pool)
              }
          }
      })"

definition vlPoolReturn :: "'a vl_pool \<Rightarrow> vl_pool_idx \<Rightarrow> 'a vl_pool option" where
  "vlPoolReturn pool idx =
     do {
       pool \<leftarrow> modify_node pool (nodeIndex idx) (\<lambda>n. n\<lparr>totalTaken := dec32 (totalTaken n)\<rparr>);
       let distance = length (freeStack pool);
       pool \<leftarrow>
         (if distance \<ge> freeCapacity pool then
            let cap = u32_of (freeCapacity pool * 2)
            in if \<not> mallocOk pool (cap * 8) \<or> cap \<le> distance then None
               else Some (pool\<lparr>freeCapacity := cap\<rparr>)
          else Some pool);
       Some (pool\<lparr>freeStack := freeStack pool @ [idx]\<rparr>)
     }"

text \<open>
  \<^verbatim>\<open>vlPoolSample\<close> returns the address of a slot; a client reads or writes through it.
  \<^term>\<open>vlPoolSample pool idx\<close> is the value read there, \<^term>\<open>vlPoolStore pool idx v\<close> the
  pool after a write.
\<close>

definition vlPoolSample :: "'a vl_pool \<Rightarrow> vl_pool_idx \<Rightarrow> 'a option" where
  "vlPoolSample pool idx =
     do {
       n \<leftarrow> node_at pool (nodeIndex idx);
       if elementIndex idx < length (elements n) then elements n ! elementIndex idx else None
     }"

definition vlPoolStore :: "'a vl_pool \<Rightarrow> vl_pool_idx \<Rightarrow> 'a \<Rightarrow> 'a vl_pool option" where
  "vlPoolStore pool idx v =
     do {
       n \<leftarrow> node_at pool (nodeIndex idx);
       if elementIndex idx < length (elements n)
       then set_node pool (nodeIndex idx) (Some (n\<lparr>elements := (elements n)[elementIndex idx := Some v]\<rparr>))
       else None
     }"

text \<open>A write to some fields of the node in a slot.\<close>

definition vlPoolModify :: "'a vl_pool \<Rightarrow> vl_pool_idx \<Rightarrow> ('a \<Rightarrow> 'a) \<Rightarrow> 'a vl_pool option" where
  "vlPoolModify pool idx f = do { v \<leftarrow> vlPoolSample pool idx; vlPoolStore pool idx (f v) }"

partial_function (option) clear_loop :: "'a vl_pool \<Rightarrow> nat option \<Rightarrow> 'a vl_pool option" where
  [code]: "clear_loop pool cur =
     (case cur of
        None \<Rightarrow> Some pool
      | Some k \<Rightarrow> do {
          n \<leftarrow> node_at pool k;
          pool \<leftarrow> set_node pool k (Some (n\<lparr>totalTaken := 0\<rparr>));
          clear_loop pool (nextLookup n)
        })"

definition vlPoolClear :: "'a vl_pool \<Rightarrow> 'a vl_pool option" where
  "vlPoolClear pool =
     do { pool \<leftarrow> clear_loop pool (lookupHead pool); Some (pool\<lparr>freeStack := []\<rparr>) }"

text \<open>
  \<^verbatim>\<open>vlPoolFree\<close>: every block is freed along \<^verbatim>\<open>nextLookup\<close> (a block freed twice or reached
  through a dangling pointer is undefined), then the arrays.
\<close>

partial_function (option) free_loop :: "'a vl_pool \<Rightarrow> nat option \<Rightarrow> 'a vl_pool option" where
  [code]: "free_loop pool cur =
     (case cur of
        None \<Rightarrow> Some pool
      | Some k \<Rightarrow> do {
          n \<leftarrow> node_at pool k;
          pool \<leftarrow> set_node pool k None;
          free_loop pool (nextLookup n)
        })"

definition vlPoolFree :: "'a vl_pool \<Rightarrow> 'a vl_pool option" where
  "vlPoolFree pool =
     do {
       pool \<leftarrow> free_loop pool (lookupHead pool);
       Some (pool\<lparr>elementSize := 0, growthIncrement := 0, lookupTotal := 0, lookupCapacity := 0,
                  lookupTable := [], lookupHead := None, freeStack := []\<rparr>)
     }"

text \<open>\<^verbatim>\<open>vlPoolReset\<close>: every block but the last of the chain is freed. The ordinal of the block
  that is kept is the second result.\<close>

partial_function (option) reset_loop :: "'a vl_pool \<Rightarrow> nat option \<Rightarrow> (nat option \<times> 'a vl_pool) option" where
  [code]: "reset_loop pool cur =
     (case cur of
        None \<Rightarrow> Some (None, pool)
      | Some k \<Rightarrow> do {
          n \<leftarrow> node_at pool k;
          pool \<leftarrow> set_node pool k (Some (n\<lparr>totalTaken := 0\<rparr>));
          (case nextLookup n of
             None \<Rightarrow> Some (Some k, pool)
           | Some k' \<Rightarrow> do {
               pool \<leftarrow> set_node pool (blockOrdinal n) None;
               reset_loop (pool\<lparr>lookupTotal := dec32 (lookupTotal pool)\<rparr>) (Some k')
             })
        })"

definition vlPoolReset :: "'a vl_pool \<Rightarrow> 'a vl_pool option" where
  "vlPoolReset pool =
     do {
       (cur, pool) \<leftarrow> reset_loop pool (lookupHead pool);
       k \<leftarrow> cur;
       n \<leftarrow> node_at pool k;
       Some (pool\<lparr>growthIncrement := blockSize n, lookupHead := Some k, freeStack := []\<rparr>)
     }"


text \<open>
  \<^verbatim>\<open>vlPoolReserve\<close>: the unused slots of all blocks are counted, then blocks are added
  until there are \<open>n\<close>. The result of \<^const>\<open>vl_PoolNodeNew\<close> is dereferenced unchecked.
\<close>

primrec count_available :: "'a vl_pool \<Rightarrow> nat \<Rightarrow> nat option" where
  "count_available pool 0 = Some 0"
| "count_available pool (Suc i) =
     do {
       available \<leftarrow> count_available pool i;
       if i < length (lookupTable pool) then
         Some (case lookupTable pool ! i of
                 None \<Rightarrow> available
               | Some n \<Rightarrow> u32_of (available + u32_of (blockSize n + 2 ^ 32 - totalTaken n)))
       else None
     }"

partial_function (option) reserve_loop :: "'a vl_pool \<Rightarrow> nat \<Rightarrow> nat \<Rightarrow> 'a vl_pool option" where
  [code]: "reserve_loop pool available n =
     (if available < n then do {
        (new, pool) \<leftarrow> vl_PoolNodeNew pool;
        k \<leftarrow> new;
        nd \<leftarrow> node_at pool k;
        reserve_loop pool (u32_of (available + blockSize nd)) n
      } else Some pool)"

definition vlPoolReserve :: "'a vl_pool \<Rightarrow> nat \<Rightarrow> 'a vl_pool option" where
  "vlPoolReserve pool n =
     (if n = 0 then Some pool
      else do {
        available \<leftarrow> count_available pool (lookupTotal pool);
        reserve_loop pool available n
      })"

text \<open>The struct has 72 bytes. \<^verbatim>\<open>vlPoolDelete\<close> leaves nothing but that it succeeded.\<close>

definition vlPoolNewAligned :: "(nat \<Rightarrow> bool) \<Rightarrow> nat \<Rightarrow> nat \<Rightarrow> 'a vl_pool option" where
  "vlPoolNewAligned ok esize alignment =
     (if ok 72 then vlPoolInitAligned ok esize alignment else None)"

definition vlPoolDelete :: "'a vl_pool \<Rightarrow> unit option" where
  "vlPoolDelete pool = do { _ \<leftarrow> vlPoolFree pool; Some () }"

text \<open>
  \<^verbatim>\<open>vlPoolClone\<close>. The capacity of the destination is overwritten before it is compared, so
  its table is never reallocated here. \<^verbatim>\<open>vlMemClone\<close> of a null block and of a block whose
  allocation fails give the null pointer, which is then dereferenced.
\<close>

primrec clone_blocks :: "'a vl_pool \<Rightarrow> 'a vl_pool \<Rightarrow> nat list \<Rightarrow> 'a vl_pool option" where
  "clone_blocks src dest [] = Some dest"
| "clone_blocks src dest (i # is) =
     do {
       srcNode \<leftarrow> node_at src i;
       dest \<leftarrow> set_node dest i None;
       (if \<not> mallocOk dest (u32_of (poolHeaderSize src + elementSize src * blockSize srcNode)) then None
        else do {
          let destNode = srcNode\<lparr>nextLookup := lookupHead dest\<rparr>;
          dest \<leftarrow> set_node dest (blockOrdinal destNode) (Some destNode);
          clone_blocks src (dest\<lparr>lookupHead := Some (blockOrdinal destNode)\<rparr>) is
        })
     }"

definition vlPoolClone :: "(nat \<Rightarrow> bool) \<Rightarrow> 'a vl_pool \<Rightarrow> 'a vl_pool option \<Rightarrow> 'a vl_pool option" where
  "vlPoolClone ok src dest =
     do {
       dest \<leftarrow> (case dest of
                 None \<Rightarrow> vlPoolNewAligned ok (elementSize src) (elementAlign src)
               | Some d \<Rightarrow> vlPoolReset d);
       let dest = dest\<lparr>growthIncrement := growthIncrement src, elementSize := elementSize src,
                       elementAlign := elementAlign src, lookupTotal := lookupTotal src,
                       lookupCapacity := lookupCapacity src\<rparr>;
       dest \<leftarrow>
         (if freeCapacity dest < freeCapacity src then
            if \<not> mallocOk dest (freeCapacity src * 8) then None
            else Some (dest\<lparr>freeCapacity := freeCapacity src\<rparr>)
          else Some dest);
       let dest = dest\<lparr>freeStack := freeStack src, lookupHead := None\<rparr>;
       h \<leftarrow> lookupHead src;
       head \<leftarrow> node_at src h;
       clone_blocks src dest [0..<Suc (blockOrdinal head)]
     }"

section \<open>Slot indices: the two halves of the union\<close>

lemma unat_pool_ordinal: "unat (vl_pool_ordinal n e) = u32_of n + u32_of e * 2 ^ 32"
proof -
  have "u32_of n + u32_of e * 2 ^ 32 < 2 ^ 64"
    using u32_of_less [of n] u32_of_less [of e] by (simp del: u32_of_less)
  then show ?thesis
    unfolding vl_pool_ordinal_def by (rule unat_of_nat_u64)
qed

lemma nodeIndex_ordinal [simp]: "nodeIndex (vl_pool_ordinal n e) = u32_of n"
  by (simp add: nodeIndex_def unat_pool_ordinal u32_of_def)

lemma elementIndex_ordinal [simp]: "elementIndex (vl_pool_ordinal n e) = u32_of e"
  by (simp add: elementIndex_def unat_pool_ordinal u32_of_def)

lemma idx_eqI: "nodeIndex i = nodeIndex j \<Longrightarrow> elementIndex i = elementIndex j \<Longrightarrow> i = j"
proof -
  assume n: "nodeIndex i = nodeIndex j" and e: "elementIndex i = elementIndex j"
  have "unat i = elementIndex i * 2 ^ 32 + nodeIndex i" for i :: vl_pool_idx
    unfolding nodeIndex_def elementIndex_def by (rule div_mult_mod_eq [symmetric])
  then have "unat i = unat j" using n e by metis
  then show "i = j" by (rule word_unat_eq_iff [THEN iffD2])
qed

lemma nodeIndex_less: "nodeIndex i < 2 ^ 32"
  by (simp add: nodeIndex_def)

lemma elementIndex_invalid: "elementIndex VL_POOL_INVALID_IDX = 2 ^ 32 - 1"
  by (simp add: elementIndex_def VL_POOL_INVALID_IDX_def)

section \<open>Blocks of the table\<close>

lemma node_at_upd [simp]:
  "k < length (lookupTable p) \<Longrightarrow>
   node_at (p\<lparr>lookupTable := (lookupTable p)[k := x]\<rparr>) j = (if j = k then x else node_at p j)"
  by (auto simp: node_at_def)

lemma node_at_frame [simp]:
  "node_at (p\<lparr>freeStack := s\<rparr>) j = node_at p j"
  "node_at (p\<lparr>freeCapacity := c\<rparr>) j = node_at p j"
  "node_at (p\<lparr>growthIncrement := g\<rparr>) j = node_at p j"
  "node_at (p\<lparr>lookupTotal := t\<rparr>) j = node_at p j"
  "node_at (p\<lparr>lookupHead := h\<rparr>) j = node_at p j"
  "node_at (p\<lparr>lookupCapacity := c\<rparr>) j = node_at p j"
  by (simp_all add: node_at_def)

lemma node_at_lookup_cong:
  "lookupTable p = lookupTable q \<Longrightarrow> node_at p k = node_at q k"
  by (simp add: node_at_def)

lemma node_at_length: "node_at p k = Some n \<Longrightarrow> k < length (lookupTable p)"
  by (simp add: node_at_def split: if_splits)

lemma modify_node_eq:
  "node_at p k = Some n \<Longrightarrow>
   modify_node p k f = Some (p\<lparr>lookupTable := (lookupTable p)[k := Some (f n)]\<rparr>)"
  by (simp add: modify_node_def set_node_def node_at_length)

lemma length_resize [simp]: "length (resize n xs) = n"
  by (simp add: resize_def)

lemma nth_resize: "k < n \<Longrightarrow> resize n xs ! k = (if k < length xs then xs ! k else None)"
  by (simp add: resize_def nth_append)

section \<open>The invariant of a pool\<close>

text \<open>
  The slots of a block are handed out from the bottom up; \<^term>\<open>used p k\<close> is the height
  reached in block \<open>k\<close>, and it counts the slots that are out and those that came back to
  the free stack. The live indices are those below that height and not on the stack.
\<close>

definition free_in :: "'a vl_pool \<Rightarrow> nat \<Rightarrow> nat" where
  "free_in p k = length (filter (\<lambda>i. nodeIndex i = k) (freeStack p))"

definition used :: "'a vl_pool \<Rightarrow> nat \<Rightarrow> nat" where
  "used p k = (case node_at p k of None \<Rightarrow> 0 | Some n \<Rightarrow> totalTaken n + free_in p k)"

definition pool_live :: "'a vl_pool \<Rightarrow> vl_pool_idx set" where
  "pool_live p = {i. elementIndex i < used p (nodeIndex i)} - set (freeStack p)"

definition block_ok :: "nat \<Rightarrow> 'a vl_pool_node \<Rightarrow> bool" where
  "block_ok k n \<longleftrightarrow>
     blockOrdinal n = k \<and> nextLookup n = (if k = 0 then None else Some (k - 1)) \<and>
     blockSize n = length (elements n) \<and> blockSize n < 2 ^ 32"

definition pool_inv :: "'a vl_pool \<Rightarrow> bool" where
  "pool_inv p \<longleftrightarrow>
     0 < elementSize p \<and> 0 < growthIncrement p \<and> 0 < lookupTotal p \<and> lookupTotal p < 2 ^ 32 \<and>
     lookupTotal p \<le> lookupCapacity p \<and> length (lookupTable p) = lookupCapacity p \<and>
     lookupHead p = Some (lookupTotal p - 1) \<and>
     (\<forall>k < lookupTotal p. \<exists>n. node_at p k = Some n \<and> block_ok k n \<and> used p k \<le> blockSize n) \<and>
     (\<forall>k \<ge> lookupTotal p. node_at p k = None) \<and>
     distinct (freeStack p) \<and> (\<forall>i \<in> set (freeStack p). elementIndex i < used p (nodeIndex i)) \<and>
     0 < freeCapacity p \<and> length (freeStack p) \<le> freeCapacity p"

text \<open>
  \<^term>\<open>pool_room p\<close> counts the slots that can be taken without a new block. A pool is
  ready when it has such a slot, or when the next block can be allocated and its size
  does not overflow 32 bits.
\<close>

definition pool_room :: "'a vl_pool \<Rightarrow> nat" where
  "pool_room p =
     (\<Sum>k < lookupTotal p. case node_at p k of None \<Rightarrow> 0 | Some n \<Rightarrow> blockSize n - totalTaken n)"

definition pool_growable :: "'a vl_pool \<Rightarrow> bool" where
  "pool_growable p \<longleftrightarrow>
     growthIncrement p < 2 ^ 32 \<and>
     poolHeaderSize p + elementSize p * growthIncrement p < 2 ^ 32 \<and>
     mallocOk p (poolHeaderSize p + elementSize p * growthIncrement p) \<and>
     lookupTotal p + 1 < 2 ^ 32 \<and>
     (lookupTotal p < lookupCapacity p \<or>
      lookupCapacity p * 2 < 2 ^ 32 \<and> mallocOk p (8 * (lookupCapacity p * 2)))"

definition pool_ready :: "'a vl_pool \<Rightarrow> bool" where
  "pool_ready p \<longleftrightarrow> 0 < pool_room p \<or> pool_growable p"

text \<open>
  Whether \<open>n\<close> more slots can be returned: they fit the free stack, or the stack can grow
  and its capacity stays within 32 bits.
\<close>

definition pool_can_return :: "'a vl_pool \<Rightarrow> nat \<Rightarrow> bool" where
  "pool_can_return p n \<longleftrightarrow>
     length (freeStack p) + n \<le> freeCapacity p \<or>
     (\<forall>b. mallocOk p b) \<and> length (freeStack p) + n \<le> 2 ^ 31"

text \<open>What a reservation of \<open>n\<close> slots needs: memory, and block sizes within 32 bits.\<close>

definition pool_can_reserve :: "'a vl_pool \<Rightarrow> nat \<Rightarrow> bool" where
  "pool_can_reserve p n \<longleftrightarrow>
     (\<forall>b. mallocOk p b) \<and> n + n + growthIncrement p < 2 ^ 32 \<and>
     poolHeaderSize p + elementSize p * (n + growthIncrement p) < 2 ^ 32 \<and>
     lookupTotal p + n < 2 ^ 31"

lemma pool_inv_block:
  assumes "pool_inv p" and "node_at p k = Some n"
  shows "k < lookupTotal p" and "block_ok k n" and "used p k \<le> blockSize n"
    and "used p k = totalTaken n + free_in p k"
proof -
  show k: "k < lookupTotal p"
    using assms by (metis option.distinct(1) pool_inv_def not_le)
  then obtain n' where "node_at p k = Some n'" "block_ok k n'" "used p k \<le> blockSize n'"
    using assms(1) unfolding pool_inv_def by blast
  with assms(2) show "block_ok k n" "used p k \<le> blockSize n" by simp_all
  show "used p k = totalTaken n + free_in p k" using assms(2) by (simp add: used_def)
qed

lemma pool_inv_lookup:
  assumes "pool_inv p" and "k < lookupTotal p"
  obtains n where "node_at p k = Some n" "block_ok k n"
  using assms unfolding pool_inv_def by blast

lemma used_node: "elementIndex i < used p (nodeIndex i) \<Longrightarrow> \<exists>n. node_at p (nodeIndex i) = Some n"
  by (auto simp: used_def split: option.splits)

lemma pool_live_node:
  assumes "pool_inv p" and "elementIndex i < used p (nodeIndex i)"
  obtains n where "node_at p (nodeIndex i) = Some n" and "elementIndex i < length (elements n)"
proof -
  obtain n where n: "node_at p (nodeIndex i) = Some n" using used_node assms(2) by blast
  then have "elementIndex i < length (elements n)"
    using assms pool_inv_block [OF assms(1) n] by (auto simp: block_ok_def)
  with n show thesis by (rule that)
qed

lemma INVALID_not_live: "pool_inv p \<Longrightarrow> VL_POOL_INVALID_IDX \<notin> pool_live p"
proof
  assume inv: "pool_inv p" and "VL_POOL_INVALID_IDX \<in> pool_live p"
  then have lt: "elementIndex VL_POOL_INVALID_IDX < used p (nodeIndex VL_POOL_INVALID_IDX)"
    by (simp add: pool_live_def)
  then obtain n where n: "node_at p (nodeIndex VL_POOL_INVALID_IDX) = Some n"
    using used_node by blast
  from lt pool_inv_block [OF inv n] show False
    by (simp add: elementIndex_invalid block_ok_def)
qed

section \<open>Replacing one block and the free stack\<close>

text \<open>
  Every operation but the growth of the table replaces one block and, at most, pushes or
  pops the free stack. The lemmas of this section say once what such a step keeps.
\<close>

definition replace_block ::
  "'a vl_pool \<Rightarrow> nat \<Rightarrow> 'a vl_pool_node \<Rightarrow> vl_pool_idx list \<Rightarrow> nat \<Rightarrow> 'a vl_pool" where
  "replace_block p k n fs c =
     p\<lparr>lookupTable := (lookupTable p)[k := Some n], freeStack := fs, freeCapacity := c\<rparr>"

lemma replace_block_fields [simp]:
  "elementSize (replace_block p k n fs c) = elementSize p"
  "elementAlign (replace_block p k n fs c) = elementAlign p"
  "growthIncrement (replace_block p k n fs c) = growthIncrement p"
  "lookupTotal (replace_block p k n fs c) = lookupTotal p"
  "lookupCapacity (replace_block p k n fs c) = lookupCapacity p"
  "lookupHead (replace_block p k n fs c) = lookupHead p"
  "mallocOk (replace_block p k n fs c) = mallocOk p"
  "freeStack (replace_block p k n fs c) = fs"
  "freeCapacity (replace_block p k n fs c) = c"
  "length (lookupTable (replace_block p k n fs c)) = length (lookupTable p)"
  by (simp_all add: replace_block_def)

lemma node_at_replace:
  "node_at p k = Some m \<Longrightarrow>
   node_at (replace_block p k n fs c) j = (if j = k then Some n else node_at p j)"
  by (auto simp: replace_block_def node_at_def split: if_splits)

lemma used_replace:
  assumes "node_at p k = Some m"
    and "\<And>j. j \<noteq> k \<Longrightarrow> length (filter (\<lambda>i. nodeIndex i = j) fs) = free_in p j"
  shows "used (replace_block p k n fs c) j =
    (if j = k then totalTaken n + length (filter (\<lambda>i. nodeIndex i = k) fs) else used p j)"
  using assms by (auto simp: used_def free_in_def node_at_replace split: option.splits)

lemma pool_inv_replace:
  assumes inv: "pool_inv p" and m: "node_at p k = Some m"
    and fr: "\<And>j. j \<noteq> k \<Longrightarrow> length (filter (\<lambda>i. nodeIndex i = j) fs) = free_in p j"
    and n: "block_ok k n" "totalTaken n + length (filter (\<lambda>i. nodeIndex i = k) fs) \<le> blockSize n"
      "used p k \<le> totalTaken n + length (filter (\<lambda>i. nodeIndex i = k) fs)"
    and fs: "distinct fs" "\<And>i. i \<in> set fs \<Longrightarrow> elementIndex i < used p (nodeIndex i)"
      "length fs \<le> c" "0 < c"
  shows "pool_inv (replace_block p k n fs c)"
proof -
  let ?q = "replace_block p k n fs c"
  have u: "used ?q j = (if j = k then totalTaken n + length (filter (\<lambda>i. nodeIndex i = k) fs)
      else used p j)" for j
    using m fr by (rule used_replace)
  have "\<exists>n'. node_at ?q j = Some n' \<and> block_ok j n' \<and> used ?q j \<le> blockSize n'"
    if "j < lookupTotal p" for j
    using that inv n(1,2) by (auto simp: node_at_replace [OF m] u pool_inv_def)
  moreover have "node_at ?q j = None" if "j \<ge> lookupTotal p" for j
    using that inv pool_inv_block(1) [OF inv m] by (auto simp: node_at_replace [OF m] pool_inv_def)
  moreover have "elementIndex i < used ?q (nodeIndex i)" if "i \<in> set fs" for i
    using fs(2) [OF that] n(3) by (auto simp: u)
  ultimately show ?thesis
    using inv fs unfolding pool_inv_def by simp
qed

lemma vlPoolSample_replace:
  assumes "node_at p k = Some m"
  shows "vlPoolSample (replace_block p k n fs c) i =
    (if nodeIndex i = k
     then if elementIndex i < length (elements n) then elements n ! elementIndex i else None
     else vlPoolSample p i)"
  by (simp add: vlPoolSample_def node_at_replace [OF assms])

lemma pool_room_replace:
  assumes inv: "pool_inv p" and m: "node_at p k = Some m"
  shows "pool_room (replace_block p k n fs c) + (blockSize m - totalTaken m) =
    pool_room p + (blockSize n - totalTaken n)"
proof -
  let ?q = "replace_block p k n fs c"
  let ?f = "\<lambda>p j. case node_at p j of None \<Rightarrow> 0 | Some n \<Rightarrow> blockSize n - totalTaken n"
  have k: "k \<in> {..<lookupTotal p}" using pool_inv_block(1) [OF inv m] by simp
  have "(\<Sum>j \<in> {..<lookupTotal p} - {k}. ?f ?q j) = (\<Sum>j \<in> {..<lookupTotal p} - {k}. ?f p j)"
    by (rule sum.cong) (auto simp: node_at_replace [OF m])
  then show ?thesis
    using m by (simp add: pool_room_def sum.remove [OF _ k] node_at_replace [OF m])
qed

lemma pool_growable_replace [simp]: "pool_growable (replace_block p k n fs c) = pool_growable p"
  by (simp add: pool_growable_def poolHeaderSize_def)

section \<open>Reading and writing a slot\<close>

lemma vlPoolStore_live:
  assumes inv: "pool_inv p" and i: "i \<in> pool_live p"
  obtains p' where "vlPoolStore p i v = Some p'" "pool_inv p'" "pool_live p' = pool_live p"
    "\<And>j. vlPoolSample p' j = (if j = i then Some v else vlPoolSample p j)"
    "pool_room p' = pool_room p" "pool_growable p' = pool_growable p"
    "\<And>n. pool_can_return p' n = pool_can_return p n"
proof -
  have lt: "elementIndex i < used p (nodeIndex i)" using i by (simp add: pool_live_def)
  obtain n where n: "node_at p (nodeIndex i) = Some n" and len: "elementIndex i < length (elements n)"
    using inv lt by (rule pool_live_node)
  let ?n = "n\<lparr>elements := (elements n)[elementIndex i := Some v]\<rparr>"
  let ?p = "replace_block p (nodeIndex i) ?n (freeStack p) (freeCapacity p)"
  note b = pool_inv_block [OF inv n]
  have st: "vlPoolStore p i v = Some ?p"
    using n len by (simp add: vlPoolStore_def set_node_def node_at_length replace_block_def)
  have u: "used ?p j = used p j" for j
    by (subst used_replace [OF n]) (simp_all add: free_in_def b(4))
  have "pool_inv ?p"
    using inv b by (intro pool_inv_replace [OF inv n])
      (auto simp: block_ok_def pool_inv_def free_in_def)
  moreover have "pool_live ?p = pool_live p" by (simp add: pool_live_def u)
  moreover have "vlPoolSample ?p j = (if j = i then Some v else vlPoolSample p j)" for j
    using n len by (auto simp: vlPoolSample_def node_at_replace [OF n] nth_list_update
        dest: idx_eqI)
  moreover have "pool_room ?p = pool_room p"
    using pool_room_replace [OF inv n, of ?n "freeStack p" "freeCapacity p"] by simp
  moreover have "pool_can_return ?p n = pool_can_return p n" for n by (simp add: pool_can_return_def)
  ultimately show thesis using that [OF st] by simp
qed

section \<open>A new block\<close>

lemma poolBlockSlots_exact:
  assumes "pool_growable p" and "0 < elementSize p"
  shows "poolBlockSlots p = growthIncrement p"
    and "poolBlockBytes p = poolHeaderSize p + elementSize p * growthIncrement p"
  using assms by (simp_all add: pool_growable_def poolBlockSlots_def poolBlockBytes_def vl_simps)

lemma vl_PoolNodeNew_ready:
  assumes inv: "pool_inv p" and grow: "pool_growable p"
  obtains p' n where
    "vl_PoolNodeNew p = Some (Some (lookupTotal p), p')" "pool_inv p'"
    "node_at p' (lookupTotal p) = Some n" "totalTaken n = 0" "blockSize n = growthIncrement p"
    "blockOrdinal n = lookupTotal p"
    "\<And>k. k \<noteq> lookupTotal p \<Longrightarrow> node_at p' k = node_at p k"
    "freeStack p' = freeStack p" "freeCapacity p' = freeCapacity p" "mallocOk p' = mallocOk p"
    "pool_room p' = pool_room p + growthIncrement p" "elementSize p' = elementSize p"
    "elementAlign p' = elementAlign p" "growthIncrement p' = 2 * growthIncrement p"
    "lookupTotal p' = lookupTotal p + 1" "pool_live p' = pool_live p"
    "\<And>j. j \<in> pool_live p \<Longrightarrow> vlPoolSample p' j = vlPoolSample p j"
proof -
  let ?t = "lookupTotal p"
  let ?n = "\<lparr>totalTaken = 0, blockSize = growthIncrement p, blockOrdinal = ?t,
    nextLookup = lookupHead p, elements = replicate (growthIncrement p) None\<rparr> :: 'a vl_pool_node"
  let ?cap = "if ?t < lookupCapacity p then lookupCapacity p else lookupCapacity p * 2"
  let ?tab = "(if ?t < lookupCapacity p then lookupTable p
    else resize (lookupCapacity p * 2) (lookupTable p))[?t := Some ?n]"
  let ?p = "p\<lparr>lookupHead := Some ?t, growthIncrement := 2 * growthIncrement p,
    lookupCapacity := ?cap, lookupTable := ?tab, lookupTotal := ?t + 1\<rparr>"
  have es: "0 < elementSize p" and g: "growthIncrement p < 2 ^ 32" "0 < growthIncrement p"
    and t: "?t + 1 < 2 ^ 32" "?t \<le> lookupCapacity p" "length (lookupTable p) = lookupCapacity p"
    and tp: "0 < ?t" "lookupHead p = Some (?t - 1)"
    using inv grow by (auto simp: pool_inv_def pool_growable_def)
  have new: "vl_PoolNodeNew p = Some (Some ?t, ?p)"
  proof -
    have ok: "mallocOk p (poolBlockBytes p)"
      using grow poolBlockSlots_exact(2) [OF grow es] by (simp add: pool_growable_def)
    have w: "u32_of (growthIncrement p) = growthIncrement p"
      "u64_of (growthIncrement p * 2) = 2 * growthIncrement p" "inc32 ?t = ?t + 1"
      using g t by (simp_all add: u32_of_def u64_of_def inc32_def)
    show ?thesis
    proof (cases "?t < lookupCapacity p")
      case True
      then show ?thesis
        using ok t(3) by (simp add: vl_PoolNodeNew_def w poolBlockSlots_exact(1) [OF grow es] set_node_def)
    next
      case False
      then have c: "u32_of (lookupCapacity p * 2) = lookupCapacity p * 2"
        "mallocOk p (8 * (lookupCapacity p * 2))" "?t = lookupCapacity p" "0 < lookupCapacity p"
        using grow t tp by (auto simp: pool_growable_def u32_of_def)
      from c(3) w(3) have "inc32 (lookupCapacity p) = Suc (lookupCapacity p)" by simp
      then show ?thesis
        using ok c(2,4) False
        by (simp add: vl_PoolNodeNew_def Let_def w(1,2) c(1,3) poolBlockSlots_exact(1) [OF grow es]
            set_node_def)
    qed
  qed
  define q where "q = ?p"
  have cap: "?t < ?cap" using t tp by auto
  have len: "length ?tab = ?cap" using t by simp
  have q [simp]: "elementSize q = elementSize p" "growthIncrement q = 2 * growthIncrement p"
    "lookupTotal q = ?t + 1" "lookupCapacity q = ?cap" "length (lookupTable q) = ?cap"
    "lookupHead q = Some ?t" "freeStack q = freeStack p" "freeCapacity q = freeCapacity p"
    "mallocOk q = mallocOk p" "elementAlign q = elementAlign p"
    using len by (simp_all add: q_def)
  have at: "node_at q k = (if k = ?t then Some ?n else node_at p k)" for k
    using t tp inv by (auto simp: q_def node_at_def nth_resize pool_inv_def)
  have fr: "free_in q k = free_in p k" for k by (simp add: free_in_def)
  have "node_at p ?t = None" using inv by (simp add: pool_inv_def)
  then have ut: "used p ?t = 0" by (simp add: used_def)
  have "\<forall>i \<in> set (freeStack p). nodeIndex i \<noteq> ?t"
    using inv ut unfolding pool_inv_def by (metis less_nat_zero_code)
  then have ft: "free_in p ?t = 0" by (simp add: free_in_def filter_empty_conv)
  have u: "used q k = used p k" for k
    using ut ft by (cases "k = ?t"; cases "node_at p k") (simp_all add: used_def at fr)
  have inv': "pool_inv q"
    unfolding pool_inv_def
  proof (intro conjI allI impI)
    fix k assume k: "k < lookupTotal q"
    show "\<exists>n. node_at q k = Some n \<and> block_ok k n \<and> used q k \<le> blockSize n"
    proof (cases "k = ?t")
      case True
      then show ?thesis using g tp ut by (simp add: at u block_ok_def)
    next
      case False
      with k have "k < ?t" by simp
      then show ?thesis using inv False unfolding at u by (auto simp: pool_inv_def)
    qed
  next
    fix k assume "lookupTotal q \<le> k"
    then show "node_at q k = None" using inv unfolding at by (auto simp: pool_inv_def)
  next
    show "\<forall>i\<in>set (freeStack q). elementIndex i < used q (nodeIndex i)"
      using inv unfolding u by (simp add: pool_inv_def)
  qed (use inv t g cap len in \<open>simp_all add: pool_inv_def\<close>)
  have "pool_room q = pool_room p + growthIncrement p"
  proof -
    have "(\<Sum>k<?t. case node_at q k of None \<Rightarrow> 0 | Some n \<Rightarrow> blockSize n - totalTaken n) = pool_room p"
      unfolding pool_room_def by (rule sum.cong) (auto simp: at)
    then show ?thesis by (simp add: pool_room_def at)
  qed
  moreover have "pool_live q = pool_live p" by (simp add: pool_live_def u)
  moreover have "vlPoolSample q j = vlPoolSample p j" if "j \<in> pool_live p" for j
  proof -
    have "nodeIndex j \<noteq> ?t" using that ut by (auto simp: pool_live_def)
    then show ?thesis by (simp add: vlPoolSample_def at)
  qed
  ultimately show thesis
    using that [OF new [folded q_def] inv', of ?n] by (simp add: at)
qed

section \<open>Taking a slot\<close>

lemma take_search_found:
  assumes inv: "pool_inv p"
  shows "k < lookupTotal p \<Longrightarrow>
    (\<exists>j n. take_search p (Some k) = Some (Some j) \<and> node_at p j = Some n \<and> totalTaken n < blockSize n) \<or>
    take_search p (Some k) = Some None \<and>
    (\<forall>j \<le> k. \<exists>n. node_at p j = Some n \<and> blockSize n \<le> totalTaken n)"
proof (induction k)
  case 0
  then obtain n where n: "node_at p 0 = Some n" "block_ok 0 n"
    using inv unfolding pool_inv_def by blast
  then show ?case
    by (subst (1 2) take_search.simps) (auto simp: block_ok_def take_search.simps [of p None])
next
  case (Suc k)
  then obtain n where n: "node_at p (Suc k) = Some n" "block_ok (Suc k) n"
    using inv unfolding pool_inv_def by blast
  show ?case
  proof (cases "totalTaken n < blockSize n")
    case True
    with n show ?thesis by (subst (1 2) take_search.simps) auto
  next
    case False
    with n have "take_search p (Some (Suc k)) = take_search p (Some k)"
      by (subst take_search.simps) (simp add: block_ok_def)
    then show ?thesis using Suc n False by (auto simp: le_Suc_eq)
  qed
qed

lemma pool_room_pos:
  assumes inv: "pool_inv p"
  shows "0 < pool_room p \<longleftrightarrow> (\<exists>k n. node_at p k = Some n \<and> totalTaken n < blockSize n)"
proof -
  let ?f = "\<lambda>k. case node_at p k of None \<Rightarrow> 0 | Some n \<Rightarrow> blockSize n - totalTaken n"
  have z: "pool_room p = 0 \<longleftrightarrow> (\<forall>k < lookupTotal p. ?f k = 0)"
    unfolding pool_room_def by (subst sum_eq_0_iff) auto
  have "?f k \<noteq> 0 \<longleftrightarrow> (\<exists>n. node_at p k = Some n \<and> totalTaken n < blockSize n)" for k
    by (cases "node_at p k") auto
  then have "(\<exists>k < lookupTotal p. ?f k \<noteq> 0) \<longleftrightarrow>
      (\<exists>k n. node_at p k = Some n \<and> totalTaken n < blockSize n)"
    using pool_inv_block(1) [OF inv] by metis
  then show ?thesis using z by auto
qed

text \<open>Handing out slot \<open>e\<close> of block \<open>k\<close>, above the height of the block.\<close>

lemma take_from_block:
  assumes inv: "pool_inv p" and fs: "freeStack p = []" and n: "node_at p k = Some n"
    and lt: "totalTaken n < blockSize n"
  defines "q \<equiv> replace_block p k (n\<lparr>totalTaken := Suc (totalTaken n)\<rparr>) (freeStack p) (freeCapacity p)"
    and "i \<equiv> vl_pool_ordinal k (totalTaken n)"
  shows "modify_node p k (\<lambda>n. n\<lparr>totalTaken := inc32 (totalTaken n)\<rparr>) = Some q"
    and "pool_inv q" and "i \<notin> pool_live p" and "pool_live q = insert i (pool_live p)"
    and "vlPoolSample q = vlPoolSample p" and "pool_room q = pool_room p - 1"
    and "pool_can_return q m = pool_can_return p m"
proof -
  note b = pool_inv_block [OF inv n]
  have t: "u32_of (totalTaken n) = totalTaken n" "u32_of k = k" "inc32 (totalTaken n) = Suc (totalTaken n)"
    using lt b inv by (simp_all add: block_ok_def pool_inv_def u32_of_def inc32_def)
  show "modify_node p k (\<lambda>n. n\<lparr>totalTaken := inc32 (totalTaken n)\<rparr>) = Some q"
    by (simp add: modify_node_eq [OF n] q_def replace_block_def t)
  have fr: "free_in p j = 0" for j by (simp add: free_in_def fs)
  have ni: "nodeIndex i = k" "elementIndex i = totalTaken n" by (simp_all add: i_def t)
  have uk: "used p k = totalTaken n" using b(4) fr by simp
  have u: "used q j = (if j = k then Suc (used p k) else used p j)" for j
    unfolding q_def by (subst used_replace [OF n]) (simp_all add: free_in_def fs uk)
  show "pool_inv q"
    unfolding q_def using b lt inv fs
    by (intro pool_inv_replace [OF inv n]) (auto simp: block_ok_def pool_inv_def free_in_def)
  show "i \<notin> pool_live p" by (simp add: pool_live_def ni uk)
  have fq: "freeStack q = []" by (simp add: q_def fs)
  have "j \<in> pool_live q \<longleftrightarrow> j \<in> insert i (pool_live p)" for j
  proof (cases "nodeIndex j = k \<and> elementIndex j = totalTaken n")
    case True
    then have "j = i" using ni by (auto intro: idx_eqI)
    then show ?thesis by (simp add: pool_live_def u fq ni uk)
  next
    case False
    then have "j \<noteq> i" using ni by auto
    with False show ?thesis by (auto simp: pool_live_def u fq fs uk less_Suc_eq)
  qed
  then show "pool_live q = insert i (pool_live p)" by blast
  show "vlPoolSample q = vlPoolSample p"
    by (rule ext) (simp add: q_def vlPoolSample_def node_at_replace [OF n] n)
  show "pool_room q = pool_room p - 1"
    using pool_room_replace [OF inv n, of "n\<lparr>totalTaken := Suc (totalTaken n)\<rparr>" "freeStack p" "freeCapacity p"] lt
    unfolding q_def by simp
  show "pool_can_return q m = pool_can_return p m" by (simp add: pool_can_return_def q_def)
qed

lemma vlPoolTake_free:
  assumes inv: "pool_inv p" and fs: "freeStack p \<noteq> []"
  obtains i p' where "vlPoolTake p = Some (i, p')" "pool_inv p'" "i \<notin> pool_live p"
    "pool_live p' = insert i (pool_live p)" "vlPoolSample p' = vlPoolSample p"
    "pool_room p' = pool_room p - 1" "0 < pool_room p" "i = last (freeStack p)"
    "\<And>n. pool_can_return p n \<Longrightarrow> pool_can_return p' n"
proof -
  define i where "i = last (freeStack p)"
  define fs' where "fs' = butlast (freeStack p)"
  have split: "freeStack p = fs' @ [i]" using fs by (simp add: i_def fs'_def)
  let ?k = "nodeIndex i"
  have d: "distinct (freeStack p)" and below: "elementIndex i < used p ?k"
    using inv split by (auto simp: pool_inv_def)
  then obtain n where n: "node_at p ?k = Some n" using used_node by blast
  note b = pool_inv_block [OF inv n]
  have cnt: "free_in p ?k = Suc (length (filter (\<lambda>j. nodeIndex j = ?k) fs'))"
    by (simp add: free_in_def split)
  let ?n = "n\<lparr>totalTaken := Suc (totalTaken n)\<rparr>"
  let ?q = "replace_block p ?k ?n fs' (freeCapacity p)"
  have inc: "inc32 (totalTaken n) = Suc (totalTaken n)"
    using b cnt by (simp add: block_ok_def inc32_def u32_of_def)
  have tk: "vlPoolTake p = Some (i, ?q)"
    using fs n by (simp add: vlPoolTake_def Let_def modify_node_def set_node_def node_at_length
        replace_block_def inc flip: i_def fs'_def)
  have oth: "length (filter (\<lambda>i. nodeIndex i = j) fs') = free_in p j" if "j \<noteq> ?k" for j
    using that by (simp add: free_in_def split)
  have u: "used ?q j = used p j" for j
    using b(4) cnt by (subst used_replace [OF n oth]) auto
  have "pool_inv ?q"
    using b cnt d inv split
    by (intro pool_inv_replace [OF inv n oth]) (auto simp: block_ok_def pool_inv_def)
  moreover have "i \<notin> pool_live p" by (simp add: pool_live_def split)
  moreover have "pool_live ?q = insert i (pool_live p)"
    using d below by (auto simp: pool_live_def u split)
  moreover have "vlPoolSample ?q = vlPoolSample p"
    by (rule ext) (simp add: vlPoolSample_def node_at_replace [OF n] n)
  moreover have lt: "totalTaken n < blockSize n" using b cnt by simp
  moreover have "pool_room ?q = pool_room p - 1"
    using pool_room_replace [OF inv n, of ?n fs' "freeCapacity p"] lt by simp
  moreover have "0 < pool_room p" using lt n pool_room_pos [OF inv] by blast
  moreover have "pool_can_return p n \<Longrightarrow> pool_can_return ?q n" for n
    by (auto simp: pool_can_return_def split)
  ultimately show thesis using that [OF tk] i_def by blast
qed

lemma vlPoolTake_ready:
  assumes inv: "pool_inv p" and ready: "pool_ready p"
  obtains i p' where "vlPoolTake p = Some (i, p')" "pool_inv p'" "i \<notin> pool_live p"
    "pool_live p' = insert i (pool_live p)"
    "\<And>j. j \<in> pool_live p \<Longrightarrow> vlPoolSample p' j = vlPoolSample p j"
    "pool_room p - 1 \<le> pool_room p'" "\<And>n. pool_can_return p n \<Longrightarrow> pool_can_return p' n"
proof (cases "freeStack p = []")
  case False
  obtain i p' where tk: "vlPoolTake p = Some (i, p')" and "pool_inv p'" "i \<notin> pool_live p"
    "pool_live p' = insert i (pool_live p)" "vlPoolSample p' = vlPoolSample p"
    "pool_room p' = pool_room p - 1" "\<forall>n. pool_can_return p n \<longrightarrow> pool_can_return p' n"
    by (rule vlPoolTake_free [OF inv False]) blast
  then show thesis by (intro that [OF tk]) simp_all
next
  case fs: True
  have head: "lookupHead p = Some (lookupTotal p - 1)" "lookupTotal p - 1 < lookupTotal p"
    using inv by (auto simp: pool_inv_def)
  consider (found) j n where "take_search p (lookupHead p) = Some (Some j)" "node_at p j = Some n"
      "totalTaken n < blockSize n"
    | (full) "take_search p (lookupHead p) = Some None"
      "\<forall>j \<le> lookupTotal p - 1. \<exists>n. node_at p j = Some n \<and> blockSize n \<le> totalTaken n"
    using take_search_found [OF inv head(2)] head(1) by auto
  then show thesis
  proof cases
    case found
    note tb = take_from_block [OF inv fs found(2,3)]
    have "blockOrdinal n = j" using pool_inv_block(2) [OF inv found(2)] by (simp add: block_ok_def)
    then have tk: "vlPoolTake p = Some (vl_pool_ordinal j (totalTaken n),
        replace_block p j (n\<lparr>totalTaken := Suc (totalTaken n)\<rparr>) (freeStack p) (freeCapacity p))"
      using fs found(1,2) tb(1) by (simp add: vlPoolTake_def)
    show thesis by (rule that [OF tk tb(2-4)]) (use tb(5-7) in simp_all)
  next
    case full
    have "\<not> 0 < pool_room p"
    proof
      assume "0 < pool_room p"
      then obtain k n where kn: "node_at p k = Some n" "totalTaken n < blockSize n"
        using pool_room_pos [OF inv] by blast
      then have "k \<le> lookupTotal p - 1" using pool_inv_block(1) [OF inv kn(1)] by simp
      with full kn show False by fastforce
    qed
    with ready have grow: "pool_growable p" by (simp add: pool_ready_def)
    obtain p1 n where new: "vl_PoolNodeNew p = Some (Some (lookupTotal p), p1)"
      and p1: "pool_inv p1" and n: "node_at p1 (lookupTotal p) = Some n" "totalTaken n = 0"
        "blockSize n = growthIncrement p" "blockOrdinal n = lookupTotal p"
      and fs1: "freeStack p1 = freeStack p" "freeCapacity p1 = freeCapacity p" "mallocOk p1 = mallocOk p"
      and live: "pool_live p1 = pool_live p"
      and smp: "\<And>j. j \<in> pool_live p \<Longrightarrow> vlPoolSample p1 j = vlPoolSample p j"
      by (rule vl_PoolNodeNew_ready [OF inv grow]) blast
    have lt: "totalTaken n < blockSize n" using n inv by (simp add: pool_inv_def)
    have fs1': "freeStack p1 = []" using fs fs1 by simp
    have can: "pool_can_return p1 m = pool_can_return p m" for m
      by (simp add: pool_can_return_def fs1)
    note tb = take_from_block [OF p1 fs1' n(1) lt]
    have tk: "vlPoolTake p = Some (vl_pool_ordinal (lookupTotal p) (totalTaken n),
        replace_block p1 (lookupTotal p) (n\<lparr>totalTaken := Suc (totalTaken n)\<rparr>) (freeStack p1) (freeCapacity p1))"
      using fs full(1) new n tb(1) by (simp add: vlPoolTake_def)
    show thesis
      by (rule that [OF tk tb(2)]) (use tb(3-5,7) live smp can \<open>\<not> 0 < pool_room p\<close> in simp_all)
  qed
qed

lemma vlPoolTake_room:
  assumes inv: "pool_inv p" and room: "0 < pool_room p"
  obtains i p' where "vlPoolTake p = Some (i, p')" "pool_room p' = pool_room p - 1"
proof (cases "freeStack p = []")
  case False
  obtain i p' where tk: "vlPoolTake p = Some (i, p')" and "pool_room p' = pool_room p - 1"
    using inv False by (rule vlPoolTake_free)
  then show thesis by (rule that)
next
  case fs: True
  have head: "lookupHead p = Some (lookupTotal p - 1)" "lookupTotal p - 1 < lookupTotal p"
    using inv by (auto simp: pool_inv_def)
  obtain k n where "node_at p k = Some n" "totalTaken n < blockSize n" "k \<le> lookupTotal p - 1"
    using room pool_room_pos [OF inv] pool_inv_block(1) [OF inv] by fastforce
  then obtain j m where j: "take_search p (lookupHead p) = Some (Some j)" "node_at p j = Some m"
      "totalTaken m < blockSize m"
    using take_search_found [OF inv head(2)] head(1) by fastforce
  note tb = take_from_block [OF inv fs j(2,3)]
  have "blockOrdinal m = j" using pool_inv_block(2) [OF inv j(2)] by (simp add: block_ok_def)
  then have "vlPoolTake p = Some (vl_pool_ordinal j (totalTaken m),
      replace_block p j (m\<lparr>totalTaken := Suc (totalTaken m)\<rparr>) (freeStack p) (freeCapacity p))"
    using fs j(1,2) tb(1) by (simp add: vlPoolTake_def)
  then show thesis using tb(6) by (rule that)
qed

section \<open>Returning a slot\<close>

lemma vlPoolReturn_live:
  assumes inv: "pool_inv p" and i: "i \<in> pool_live p" and can: "pool_can_return p (Suc m)"
  obtains p' where "vlPoolReturn p i = Some p'" "pool_inv p'" "pool_live p' = pool_live p - {i}"
    "vlPoolSample p' = vlPoolSample p" "pool_room p' = pool_room p + 1"
    "freeStack p' = freeStack p @ [i]" "pool_can_return p' m"
proof -
  let ?k = "nodeIndex i"
  have lt: "elementIndex i < used p ?k" and nf: "i \<notin> set (freeStack p)"
    using i by (auto simp: pool_live_def)
  then obtain n where n: "node_at p ?k = Some n" using used_node by blast
  note b = pool_inv_block [OF inv n]
  let ?F = "filter (\<lambda>j. nodeIndex j = ?k) (freeStack p)"
  have "inj_on elementIndex (set ?F)" by (rule inj_onI) (auto intro: idx_eqI)
  then have "card (elementIndex ` set ?F) = card (set ?F)" by (rule card_image)
  also have "\<dots> = length ?F"
    by (rule distinct_card) (use inv in \<open>simp add: pool_inv_def\<close>)
  finally have "card (elementIndex ` set ?F) = length ?F" .
  moreover have "elementIndex ` set ?F \<subseteq> {..<used p ?k}"
    using inv by (auto simp: pool_inv_def)
  moreover have "elementIndex i \<notin> elementIndex ` set ?F"
    using nf by (auto dest: idx_eqI)
  ultimately have "free_in p ?k < used p ?k"
    using card_less_nat_set [of "elementIndex ` set ?F" "used p ?k" "elementIndex i"] lt
    by (simp add: free_in_def)
  then have pos: "0 < totalTaken n" using b(4) by simp
  have dec: "dec32 (totalTaken n) = totalTaken n - 1"
    using pos b by (intro dec32_id) (simp_all add: block_ok_def)
  define c where "c = (if length (freeStack p) < freeCapacity p then freeCapacity p else freeCapacity p * 2)"
  define n' where "n' = n\<lparr>totalTaken := totalTaken n - 1\<rparr>"
  let ?q = "replace_block p ?k n' (freeStack p @ [i]) c"
  have cap: "length (freeStack p) < c"
    using inv can by (auto simp: pool_can_return_def pool_inv_def c_def)
  have rt: "vlPoolReturn p i = Some ?q"
  proof (cases "length (freeStack p) < freeCapacity p")
    case True
    then show ?thesis
      by (simp add: vlPoolReturn_def modify_node_eq [OF n] Let_def replace_block_def dec c_def n'_def)
  next
    case False
    then have c: "u32_of (freeCapacity p * 2) = freeCapacity p * 2" "mallocOk p (freeCapacity p * 2 * 8)"
      using can by (auto simp: pool_can_return_def u32_of_def)
    then show ?thesis
      using False cap
      by (simp add: vlPoolReturn_def modify_node_eq [OF n] Let_def replace_block_def dec c(1) c_def n'_def)
  qed
  have oth: "length (filter (\<lambda>i. nodeIndex i = j) (freeStack p @ [i])) = free_in p j" if "j \<noteq> ?k" for j
    using that by (simp add: free_in_def)
  have u: "used ?q j = used p j" for j
    using b(4) pos by (subst used_replace [OF n oth]) (auto simp: free_in_def n'_def)
  have "pool_inv ?q"
    using b pos inv nf lt cap
    by (intro pool_inv_replace [OF inv n oth]) (auto simp: block_ok_def pool_inv_def free_in_def n'_def)
  moreover have "pool_live ?q = pool_live p - {i}" by (auto simp: pool_live_def u)
  moreover have "vlPoolSample ?q = vlPoolSample p"
    by (rule ext) (simp add: vlPoolSample_def node_at_replace [OF n] n n'_def)
  moreover have "pool_room ?q = pool_room p + 1"
    using pool_room_replace [OF inv n, of n' "freeStack p @ [i]" c] pos b by (simp add: n'_def)
  moreover have "pool_can_return ?q m" using can cap by (auto simp: pool_can_return_def c_def)
  ultimately show thesis by (intro that [OF rt]) simp_all
qed

section \<open>The interface the containers use\<close>

text \<open>
  What a container asks of its slots: a slot that is taken was not live, a write is read
  back and changes no other slot, a slot that is given back is no longer live, and none of
  the three changes the contents of the other live slots.
\<close>

locale slot_pool =
  fixes take :: "'s \<Rightarrow> ('i \<times> 's) option"
    and give :: "'s \<Rightarrow> 'i \<Rightarrow> 's option"
    and smp :: "'s \<Rightarrow> 'i \<Rightarrow> 'a option"
    and sto :: "'s \<Rightarrow> 'i \<Rightarrow> 'a \<Rightarrow> 's option"
    and live :: "'s \<Rightarrow> 'i set"
    and inv :: "'s \<Rightarrow> bool"
    and ready :: "'s \<Rightarrow> bool"
    and can_give :: "'s \<Rightarrow> nat \<Rightarrow> bool"
    and room :: "'s \<Rightarrow> nat"
    and nil :: 'i
  assumes take_ready: "inv s \<Longrightarrow> ready s \<Longrightarrow>
      \<exists>i s'. take s = Some (i, s') \<and> inv s' \<and> i \<notin> live s \<and> live s' = insert i (live s) \<and>
        (\<forall>j \<in> live s. smp s' j = smp s j) \<and> room s - 1 \<le> room s' \<and>
        (\<forall>n. can_give s n \<longrightarrow> can_give s' n)"
    and room_ready: "0 < room s \<Longrightarrow> ready s"
    and sto_live: "inv s \<Longrightarrow> i \<in> live s \<Longrightarrow>
      \<exists>s'. sto s i v = Some s' \<and> inv s' \<and> live s' = live s \<and> smp s' = (smp s)(i := Some v) \<and>
        room s' = room s \<and> ready s' = ready s \<and> can_give s' = can_give s"
    and give_live: "inv s \<Longrightarrow> i \<in> live s \<Longrightarrow> can_give s (Suc n) \<Longrightarrow>
      \<exists>s'. give s i = Some s' \<and> inv s' \<and> live s' = live s - {i} \<and>
        (\<forall>j \<in> live s'. smp s' j = smp s j) \<and> room s' = room s + 1 \<and> can_give s' n"
    and nil_not_live: "inv s \<Longrightarrow> nil \<notin> live s"
begin

text \<open>A node is allocated and filled in; what it holds may depend on its index.\<close>

lemma take_store:
  assumes "inv s" and "ready s"
  obtains i s1 s2 where "take s = Some (i, s1)" "sto s1 i (v i) = Some s2" "inv s2" "i \<notin> live s"
    "i \<noteq> nil" "live s2 = insert i (live s)" "smp s2 i = Some (v i)"
    "\<And>j. j \<in> live s \<Longrightarrow> smp s2 j = smp s j" "room s - 1 \<le> room s2"
    "\<And>n. can_give s n \<Longrightarrow> can_give s2 n"
proof -
  obtain i s1 where t: "take s = Some (i, s1)" "inv s1" "i \<notin> live s" "live s1 = insert i (live s)"
    "\<forall>j \<in> live s. smp s1 j = smp s j" "room s - 1 \<le> room s1"
    "\<forall>n. can_give s n \<longrightarrow> can_give s1 n"
    using take_ready [OF assms] by blast
  then obtain s2 where st: "sto s1 i (v i) = Some s2" "inv s2" "live s2 = live s1"
    "smp s2 = (smp s1)(i := Some (v i))" "room s2 = room s1" "can_give s2 = can_give s1"
    using sto_live [of s1 i "v i"] by auto
  have "i \<noteq> nil" using nil_not_live [OF t(2)] t(4) by auto
  moreover have "smp s2 j = smp s j" if "j \<in> live s" for j
    using that t(3,5) st(4) by auto
  ultimately show thesis using t st by (intro that [OF t(1) st(1,2)]) simp_all
qed

text \<open>A node that is linked already is modified.\<close>

lemma modify:
  assumes "inv s" and "i \<in> live s" and "smp s i = Some v"
  obtains s' where "Option.bind (smp s i) (\<lambda>v. sto s i (f v)) = Some s'" "inv s'"
    "live s' = live s" "smp s' = (smp s)(i := Some (f v))" "room s' = room s"
    "ready s' = ready s" "can_give s' = can_give s"
  using sto_live [OF assms(1,2), of "f v"] assms(3) by auto

lemma give_back:
  assumes "inv s" and "i \<in> live s" and "can_give s (Suc n)"
  obtains s' where "give s i = Some s'" "inv s'" "live s' = live s - {i}"
    "\<And>j. j \<in> live s \<Longrightarrow> j \<noteq> i \<Longrightarrow> smp s' j = smp s j" "room s' = room s + 1"
    "can_give s' n"
  using give_live [OF assms] by auto

end

interpretation slots: slot_pool vlPoolTake vlPoolReturn vlPoolSample vlPoolStore pool_live pool_inv
  pool_ready pool_can_return pool_room VL_POOL_INVALID_IDX
proof
  fix s :: "'a vl_pool" and i :: vl_pool_idx and v :: 'a and n :: nat
  show "\<exists>i s'. vlPoolTake s = Some (i, s') \<and> pool_inv s' \<and> i \<notin> pool_live s \<and>
      pool_live s' = insert i (pool_live s) \<and>
      (\<forall>j\<in>pool_live s. vlPoolSample s' j = vlPoolSample s j) \<and> pool_room s - 1 \<le> pool_room s' \<and>
      (\<forall>n. pool_can_return s n \<longrightarrow> pool_can_return s' n)"
    if "pool_inv s" "pool_ready s"
    using that by (rule vlPoolTake_ready) blast
  show "pool_ready s" if "0 < pool_room s"
    using that by (simp add: pool_ready_def)
  show "\<exists>s'. vlPoolStore s i v = Some s' \<and> pool_inv s' \<and> pool_live s' = pool_live s \<and>
      vlPoolSample s' = (vlPoolSample s)(i := Some v) \<and> pool_room s' = pool_room s \<and>
      pool_ready s' = pool_ready s \<and> pool_can_return s' = pool_can_return s"
    if inv: "pool_inv s" and i: "i \<in> pool_live s"
  proof -
    obtain s' where "vlPoolStore s i v = Some s'" "pool_inv s'" "pool_live s' = pool_live s"
      and smp: "\<And>j. vlPoolSample s' j = (if j = i then Some v else vlPoolSample s j)"
      and "pool_room s' = pool_room s" "pool_growable s' = pool_growable s"
        and can: "\<And>n. pool_can_return s' n = pool_can_return s n"
      using inv i by (rule vlPoolStore_live [where v = v]) blast
    moreover have "pool_can_return s' = pool_can_return s" by (rule ext) (rule can)
    moreover have "vlPoolSample s' = (vlPoolSample s)(i := Some v)"
      by (rule ext) (simp add: smp)
    ultimately show ?thesis by (simp add: pool_ready_def)
  qed
  show "\<exists>s'. vlPoolReturn s i = Some s' \<and> pool_inv s' \<and> pool_live s' = pool_live s - {i} \<and>
      (\<forall>j\<in>pool_live s'. vlPoolSample s' j = vlPoolSample s j) \<and> pool_room s' = pool_room s + 1 \<and>
      pool_can_return s' n"
    if "pool_inv s" "i \<in> pool_live s" "pool_can_return s (Suc n)"
    using that by (rule vlPoolReturn_live) simp
  show "VL_POOL_INVALID_IDX \<notin> pool_live s" if "pool_inv s"
    using that by (rule INVALID_not_live)
qed

lemma vlPoolModify_live:
  assumes "pool_inv p" and "i \<in> pool_live p" and "vlPoolSample p i = Some v"
  obtains p' where "vlPoolModify p i f = Some p'" "pool_inv p'" "pool_live p' = pool_live p"
    "vlPoolSample p' = (vlPoolSample p)(i := Some (f v))" "pool_room p' = pool_room p"
    "pool_ready p' = pool_ready p" "pool_can_return p' = pool_can_return p"
  using slots.modify [OF assms, of f] unfolding vlPoolModify_def by blast

section \<open>Initialising, clearing and growing a pool\<close>

text \<open>The pool that \<^const>\<open>vlPoolInitAligned\<close> sets up when its allocations succeed.\<close>

definition fresh_pool :: "(nat \<Rightarrow> bool) \<Rightarrow> nat \<Rightarrow> nat \<Rightarrow> 'a vl_pool" where
  "fresh_pool ok esize alignment =
     \<lparr>elementSize = esize, elementAlign = alignment, growthIncrement = 16, lookupTotal = 1,
      lookupCapacity = 16,
      lookupTable = Some \<lparr>totalTaken = 0, blockSize = 16, blockOrdinal = 0, nextLookup = None,
                          elements = replicate 16 None\<rparr> # replicate 15 None,
      lookupHead = Some 0, freeCapacity = 16, freeStack = [], mallocOk = ok\<rparr>"

lemma vlPoolInitAligned_eq:
  fixes ok :: "nat \<Rightarrow> bool" and esize alignment :: nat
  defines "E \<equiv> u16_of (padUp esize alignment)" and "H \<equiv> u16_of (padUp 32 alignment)"
  assumes "0 < E" and "H + E * 16 < 2 ^ 32" and "ok 128" and "ok (H + E * 16)"
  shows "vlPoolInitAligned ok esize alignment = Some (fresh_pool ok E alignment)"
proof -
  have c: "(H + E * 16 - H) div E = 16" "(E * 16) div E = 16" using assms(3) by simp_all
  have r: "replicate 16 (None :: 'b option) = None # replicate 15 None"
    by (simp add: numeral_eq_Suc)
  show ?thesis
    using assms(3-6)
    by (simp add: vlPoolInitAligned_def vl_PoolNodeNew_def fresh_pool_def VL_POOL_DEFAULT_SIZE_def
        Let_def poolBlockBytes_def poolBlockSlots_def poolHeaderSize_def set_node_def vl_simps
        u64_of_def inc32_def u32_of_def r c flip: E_def H_def)
qed

lemma fresh_pool_props:
  assumes "0 < esize"
  shows "pool_inv (fresh_pool ok esize alignment :: 'a vl_pool)"
    and "pool_live (fresh_pool ok esize alignment :: 'a vl_pool) = {}"
    and "pool_room (fresh_pool ok esize alignment :: 'a vl_pool) = 16"
proof -
  let ?p = "fresh_pool ok esize alignment :: 'a vl_pool"
  let ?n = "\<lparr>totalTaken = 0, blockSize = 16, blockOrdinal = 0, nextLookup = None,
    elements = replicate 16 None\<rparr> :: 'a vl_pool_node"
  have at: "node_at ?p k = (if k = 0 then Some ?n else None)" for k
    by (auto simp: fresh_pool_def node_at_def nth_Cons split: nat.splits)
  have fs: "freeStack ?p = []" by (simp add: fresh_pool_def)
  have u: "used ?p k = 0" for k
    by (cases "k = 0") (simp_all add: used_def at free_in_def fs)
  show "pool_inv ?p"
    unfolding pool_inv_def using assms
    by (simp add: at u block_ok_def) (simp add: fresh_pool_def)
  show "pool_live ?p = {}" by (simp add: pool_live_def u)
  show "pool_room ?p = 16"
    unfolding pool_room_def by (simp add: at) (simp add: fresh_pool_def)
qed

lemma node_at_nth: "k < length (lookupTable p) \<Longrightarrow> node_at p k = lookupTable p ! k"
  by (simp add: node_at_def)

definition cleared :: "nat \<Rightarrow> 'a vl_pool \<Rightarrow> 'a vl_pool" where
  "cleared k p = p\<lparr>lookupTable := map (\<lambda>j.
     if j \<le> k then map_option (\<lambda>n. n\<lparr>totalTaken := 0\<rparr>) (lookupTable p ! j) else lookupTable p ! j)
       [0..<length (lookupTable p)]\<rparr>"

lemma node_at_cleared:
  "node_at (cleared k p) j =
     (if j \<le> k then map_option (\<lambda>n. n\<lparr>totalTaken := 0\<rparr>) (node_at p j) else node_at p j)"
  by (auto simp: cleared_def node_at_def)

lemma vlPoolInit_ok:
  assumes ok: "\<forall>b < 2 ^ 20. ok b" and n: "0 < n" "n < 2 ^ 15"
  obtains E where "vlPoolInit ok n = Some (fresh_pool ok E 8 :: 'a vl_pool)" "0 < E" "E < 2 ^ 16"
proof -
  let ?E = "padUp n 8"
  have "n \<le> ?E" "?E < n + 8"
    using padUp_ge [of 3 n] padUp_less [of 3 n] n by simp_all
  then have E: "u16_of ?E = ?E" "0 < ?E" "?E < 2 ^ 16" using n by (simp_all add: u16_of_def)
  have H: "u16_of (padUp 32 8) < 2 ^ 16" by (simp add: u16_of_def)
  then have "u16_of (padUp 32 8) + ?E * 16 < 2 ^ 20" using n \<open>?E < n + 8\<close> by simp
  then have "vlPoolInitAligned ok n 8 = Some (fresh_pool ok ?E 8 :: 'a vl_pool)"
    using E H ok vlPoolInitAligned_eq [of n 8 ok] by simp
  then show thesis
    using E by (intro that [of ?E]) (simp_all add: vlPoolInit_def VL_DEFAULT_MEMORY_ALIGN_def)
qed

lemma fresh_pool_can:
  assumes "\<forall>b. ok b" and "E < 2 ^ 16"
  shows "n \<le> 16 \<Longrightarrow> pool_can_return (fresh_pool ok E 8) n"
    and "n \<le> 10000 \<Longrightarrow> pool_can_reserve (fresh_pool ok E 8) n"
proof -
  show "pool_can_return (fresh_pool ok E 8) n" if "n \<le> 16"
    using that by (simp add: pool_can_return_def fresh_pool_def)
  show "pool_can_reserve (fresh_pool ok E 8) n" if "n \<le> 10000"
  proof -
    have "poolHeaderSize (fresh_pool ok E 8) < 2 ^ 16" by (simp add: poolHeaderSize_def u16_of_def)
    moreover have "E * (n + 16) \<le> 2 ^ 16 * 10016"
      using assms(2) that by (intro mult_le_mono) simp_all
    ultimately have "poolHeaderSize (fresh_pool ok E 8) + E * (n + 16) < 2 ^ 16 + 2 ^ 16 * 10016"
      by (rule add_less_le_mono)
    also have "\<dots> < 2 ^ 32" by simp
    finally have "poolHeaderSize (fresh_pool ok E 8) + E * (n + 16) < 2 ^ 32" .
    then show ?thesis
      using assms(1) that by (simp add: pool_can_reserve_def fresh_pool_def poolHeaderSize_def)
  qed
qed

lemma clear_loop_eq:
  "\<forall>j \<le> k. \<exists>n. node_at p j = Some n \<and> block_ok j n \<Longrightarrow> clear_loop p (Some k) = Some (cleared k p)"
proof (induction k arbitrary: p)
  case 0
  then obtain n where n: "node_at p 0 = Some n" "nextLookup n = None" by (auto simp: block_ok_def)
  then have "(lookupTable p)[0 := Some (n\<lparr>totalTaken := 0\<rparr>)] = lookupTable (cleared 0 p)"
    by (intro nth_equalityI) (auto simp: cleared_def nth_list_update node_at_def split: if_splits)
  with n node_at_length [OF n(1)] show ?case
    by (subst clear_loop.simps)
      (simp add: set_node_def clear_loop.simps [of _ None], simp add: cleared_def)
next
  case (Suc k)
  then obtain n where n: "node_at p (Suc k) = Some n" "nextLookup n = Some k"
    by (auto simp: block_ok_def)
  let ?q = "p\<lparr>lookupTable := (lookupTable p)[Suc k := Some (n\<lparr>totalTaken := 0\<rparr>)]\<rparr>"
  have "clear_loop p (Some (Suc k)) = clear_loop ?q (Some k)"
    using n by (subst clear_loop.simps) (simp add: set_node_def node_at_length)
  also have "\<dots> = Some (cleared k ?q)"
    using Suc.prems n by (intro Suc.IH) (auto simp: node_at_length)
  also have "lookupTable (cleared k ?q) = lookupTable (cleared (Suc k) p)"
    using n by (intro nth_equalityI)
      (auto simp: cleared_def nth_list_update node_at_def le_Suc_eq split: if_splits)
  then have "cleared k ?q = cleared (Suc k) p" by (simp add: cleared_def)
  finally show ?case .
qed

text \<open>The slots of all blocks; none is ever lost: each is live or has room.\<close>

definition pool_capacity :: "'a vl_pool \<Rightarrow> nat" where
  "pool_capacity p =
     (\<Sum>k < lookupTotal p. case node_at p k of None \<Rightarrow> 0 | Some n \<Rightarrow> blockSize n)"

lemma card_live_block:
  assumes inv: "pool_inv p" and n: "node_at p k = Some n"
  shows "card {i \<in> pool_live p. nodeIndex i = k} = totalTaken n"
proof -
  note b = pool_inv_block [OF inv n]
  let ?F = "{i \<in> set (freeStack p). nodeIndex i = k}"
  let ?A = "vl_pool_ordinal k ` {..<used p k}"
  have k: "k < 2 ^ 32" and lt: "e < 2 ^ 32" if "e < used p k" for e
    using b inv that by (simp_all add: pool_inv_def block_ok_def)
  have ord: "vl_pool_ordinal k e = i" if "nodeIndex i = k" "elementIndex i = e" "e < used p k" for i e
    using that k lt by (intro idx_eqI) (simp_all add: u32_of_id)
  have inj: "inj_on (vl_pool_ordinal k) {..<used p k}"
  proof (rule inj_onI)
    fix x y assume "x \<in> {..<used p k}" "y \<in> {..<used p k}" "vl_pool_ordinal k x = vl_pool_ordinal k y"
    then have "u32_of x = u32_of y" by (metis elementIndex_ordinal)
    then show "x = y" using \<open>x \<in> _\<close> \<open>y \<in> _\<close> lt by (simp add: u32_of_id)
  qed
  have F: "?F \<subseteq> ?A"
    using inv ord by (auto simp: pool_inv_def) (metis image_eqI lessThan_iff)
  have "{i \<in> pool_live p. nodeIndex i = k} = ?A - ?F"
  proof (intro set_eqI iffI)
    fix i assume "i \<in> {i \<in> pool_live p. nodeIndex i = k}"
    then show "i \<in> ?A - ?F" using ord [of i "elementIndex i"]
      by (auto simp: pool_live_def) (metis image_eqI lessThan_iff)
  next
    fix i assume "i \<in> ?A - ?F"
    then show "i \<in> {i \<in> pool_live p. nodeIndex i = k}"
      using k lt by (auto simp: pool_live_def u32_of_id)
  qed
  then have "card {i \<in> pool_live p. nodeIndex i = k} = card ?A - card ?F"
    using F by (simp add: card_Diff_subset)
  also have "card ?A = used p k" using inj by (simp add: card_image)
  also have "card ?F = free_in p k"
    using inv distinct_card [of "filter (\<lambda>i. nodeIndex i = k) (freeStack p)"]
    by (simp add: free_in_def pool_inv_def)
  finally show ?thesis using b(4) by simp
qed

lemma pool_conservation:
  assumes inv: "pool_inv p"
  shows "finite (pool_live p)" and "card (pool_live p) + pool_room p = pool_capacity p"
proof -
  let ?B = "\<lambda>k. {i \<in> pool_live p. nodeIndex i = k}"
  have blk: "\<exists>n. node_at p k = Some n \<and> totalTaken n \<le> blockSize n" if "k < lookupTotal p" for k
  proof -
    obtain n where "node_at p k = Some n" using inv \<open>k < lookupTotal p\<close> by (rule pool_inv_lookup)
    with pool_inv_block [OF inv this] show ?thesis by auto
  qed
  have fin: "finite (?B k)" for k
  proof -
    have "?B k \<subseteq> vl_pool_ordinal k ` {..<used p k}"
    proof
      fix i assume i: "i \<in> ?B k"
      then have lt: "elementIndex i < used p k" by (auto simp: pool_live_def)
      obtain n where n: "node_at p k = Some n" using i used_node [of i p] by (auto simp: pool_live_def)
      have "elementIndex i < 2 ^ 32" using lt pool_inv_block [OF inv n] by (simp add: block_ok_def)
      then have "i = vl_pool_ordinal k (elementIndex i)"
        using i nodeIndex_less [of i] by (intro idx_eqI) (simp_all add: u32_of_id)
      with lt show "i \<in> vl_pool_ordinal k ` {..<used p k}" by blast
    qed
    then show ?thesis by (rule finite_subset) simp
  qed
  have "nodeIndex i < lookupTotal p" if "i \<in> pool_live p" for i
    using that used_node [of i p] pool_inv_block(1) [OF inv] by (auto simp: pool_live_def)
  then have un: "pool_live p = (\<Union>k < lookupTotal p. ?B k)" by blast
  show "finite (pool_live p)" by (subst un) (simp add: fin)
  have "card (pool_live p) = (\<Sum>k < lookupTotal p. card (?B k))"
    by (subst un, rule card_UN_disjoint) (auto simp: fin)
  also have "\<dots> = (\<Sum>k < lookupTotal p. case node_at p k of None \<Rightarrow> 0 | Some n \<Rightarrow> totalTaken n)"
    by (rule sum.cong) (use blk card_live_block [OF inv] in \<open>force split: option.splits\<close>)+
  finally show "card (pool_live p) + pool_room p = pool_capacity p"
    unfolding pool_room_def pool_capacity_def
    by (simp flip: sum.distrib) (rule sum.cong, simp, drule blk [OF lessThan_iff [THEN iffD1]], auto)
qed

text \<open>\<^const>\<open>vlPoolClear\<close> gives every slot back at once.\<close>

lemma vlPoolClear_ok:
  assumes inv: "pool_inv p"
  obtains q where "vlPoolClear p = Some q" "pool_inv q" "pool_live q = {}"
    "pool_room q = pool_capacity p" "elementSize q = elementSize p" "mallocOk q = mallocOk p"
    "freeCapacity q = freeCapacity p" "growthIncrement q = growthIncrement p"
proof -
  define k where "k = lookupTotal p - 1"
  define q where "q = (cleared k p)\<lparr>freeStack := []\<rparr>"
  have k: "lookupHead p = Some k" "lookupTotal p = Suc k"
    using inv by (simp_all add: pool_inv_def k_def)
  have "\<forall>j \<le> k. \<exists>n. node_at p j = Some n \<and> block_ok j n"
    using k(2) pool_inv_lookup [OF inv] by (metis less_Suc_eq_le)
  then have cl: "vlPoolClear p = Some q"
    by (simp add: vlPoolClear_def k q_def clear_loop_eq)
  have fields [simp]: "elementSize q = elementSize p" "growthIncrement q = growthIncrement p"
    "lookupTotal q = lookupTotal p" "lookupCapacity q = lookupCapacity p"
    "length (lookupTable q) = length (lookupTable p)" "lookupHead q = lookupHead p"
    "freeCapacity q = freeCapacity p" "freeStack q = []" "mallocOk q = mallocOk p"
    by (simp_all add: q_def cleared_def)
  have at: "node_at q j = map_option (\<lambda>n. n\<lparr>totalTaken := 0\<rparr>) (node_at p j)" for j
    using inv k(2) by (auto simp: q_def node_at_cleared pool_inv_def)
  have u: "used q j = 0" for j
    by (cases "node_at p j") (simp_all add: used_def at free_in_def)
  have "\<exists>n. node_at q j = Some n \<and> block_ok j n" if "j < lookupTotal p" for j
    using inv that by (auto simp: pool_inv_def at block_ok_def)
  then have "pool_inv q"
    using inv unfolding pool_inv_def u by (simp add: at)
  moreover have "pool_live q = {}" by (simp add: pool_live_def u)
  moreover have "pool_capacity q = pool_capacity p"
    unfolding pool_capacity_def by (rule sum.cong) (auto simp: at split: option.splits)
  ultimately show thesis using that [OF cl] pool_conservation(2) [of q] by simp
qed

text \<open>
  The loop of \<^const>\<open>vlPoolReserve\<close>. \<open>g\<close> is the growth increment before the loop: the
  next block is never larger than the slots counted so far and \<open>g\<close>, so that the sizes
  stay below 32 bits when \<open>n + g\<close> slots do.
\<close>

lemma count_available_eq:
  assumes inv: "pool_inv p"
  shows "t \<le> lookupTotal p \<Longrightarrow> count_available p t =
    Some (u32_of (\<Sum>k < t. case node_at p k of None \<Rightarrow> 0 | Some n \<Rightarrow> blockSize n - totalTaken n))"
proof (induction t)
  case 0
  then show ?case by (simp add: u32_of_def)
next
  case (Suc t)
  then have "t < lookupTotal p" by simp
  with inv obtain n where n: "node_at p t = Some n" by (rule pool_inv_lookup)
  note b = pool_inv_block [OF inv n]
  have "lookupTable p ! t = Some n" "t < length (lookupTable p)"
    using n by (simp_all add: node_at_def split: if_splits)
  moreover have "blockSize n + 2 ^ 32 - totalTaken n = (blockSize n - totalTaken n) + 2 ^ 32"
    using b by simp
  then have "u32_of (blockSize n + 2 ^ 32 - totalTaken n) = u32_of (blockSize n - totalTaken n)"
    by (simp only: u32_of_def mod_add_self2)
  ultimately show ?case
    using Suc n by (simp add: u32_of_def mod_simps add.commute)
qed

lemma reserve_loop_ok:
  assumes "pool_inv p" and "\<forall>b. mallocOk p b" and "a \<le> pool_room p"
    and "growthIncrement p \<le> a + g" and "n + n + g < 2 ^ 32"
    and "poolHeaderSize p + elementSize p * (n + g) < 2 ^ 32"
    and "lookupTotal p + (n - a) < 2 ^ 31"
  shows "\<exists>q. reserve_loop p a n = Some q \<and> pool_inv q \<and> pool_live q = pool_live p \<and>
    (\<forall>j \<in> pool_live p. vlPoolSample q j = vlPoolSample p j) \<and> n \<le> pool_room q \<and>
    (\<forall>m. pool_can_return p m \<longrightarrow> pool_can_return q m)"
  using assms
proof (induction "n - a" arbitrary: p a rule: less_induct)
  case less
  show ?case
  proof (cases "a < n")
    case False
    then show ?thesis using less.prems by (subst reserve_loop.simps) auto
  next
    case True
    have g: "growthIncrement p \<le> n + g" "0 < growthIncrement p"
      using True less.prems by (simp_all add: pool_inv_def)
    then have "elementSize p * growthIncrement p \<le> elementSize p * (n + g)" by simp
    then have bytes: "poolHeaderSize p + elementSize p * growthIncrement p < 2 ^ 32"
      using less.prems(6) by linarith
    have cap: "lookupTotal p < lookupCapacity p \<or> lookupCapacity p * 2 < 2 ^ 32"
      using less.prems(1,7) by (auto simp: pool_inv_def)
    have grow: "pool_growable p"
      unfolding pool_growable_def using g bytes cap less.prems True by simp
    obtain p1 nd where p1: "vl_PoolNodeNew p = Some (Some (lookupTotal p), p1)" "pool_inv p1"
      "node_at p1 (lookupTotal p) = Some nd" "blockSize nd = growthIncrement p"
      "freeStack p1 = freeStack p" "freeCapacity p1 = freeCapacity p"
      "mallocOk p1 = mallocOk p" "pool_room p1 = pool_room p + growthIncrement p"
      "elementSize p1 = elementSize p" "elementAlign p1 = elementAlign p"
      "growthIncrement p1 = 2 * growthIncrement p" "lookupTotal p1 = lookupTotal p + 1"
      "pool_live p1 = pool_live p" "\<forall>j\<in>pool_live p. vlPoolSample p1 j = vlPoolSample p j"
      by (rule vl_PoolNodeNew_ready [OF less.prems(1) grow]) blast
    let ?a = "a + growthIncrement p"
    have a: "u32_of ?a = ?a" using g True less.prems(5) by (simp add: u32_of_def)
    have "\<exists>q. reserve_loop p1 ?a n = Some q \<and> pool_inv q \<and> pool_live q = pool_live p1 \<and>
        (\<forall>j \<in> pool_live p1. vlPoolSample q j = vlPoolSample p1 j) \<and> n \<le> pool_room q \<and>
        (\<forall>m. pool_can_return p1 m \<longrightarrow> pool_can_return q m)"
    proof (rule less.hyps)
      show "n - ?a < n - a" using True g by simp
      show "poolHeaderSize p1 + elementSize p1 * (n + g) < 2 ^ 32"
        using less.prems(6) p1 by (simp add: poolHeaderSize_def)
    qed (use p1 less.prems True g in simp_all)
    moreover have "reserve_loop p a n = reserve_loop p1 ?a n"
      using True p1 a by (subst reserve_loop.simps) simp
    moreover have "pool_can_return p1 = pool_can_return p"
      using p1 by (intro ext) (simp add: pool_can_return_def)
    ultimately show ?thesis using p1 by auto
  qed
qed

lemma vlPoolReserve_ok:
  assumes "pool_inv p" and "pool_can_reserve p n"
  shows "\<exists>q. vlPoolReserve p n = Some q \<and> pool_inv q \<and> pool_live q = pool_live p \<and>
    (\<forall>j \<in> pool_live p. vlPoolSample q j = vlPoolSample p j) \<and> n \<le> pool_room q \<and>
    (\<forall>m. pool_can_return p m \<longrightarrow> pool_can_return q m)"
proof (cases "n = 0")
  case True
  then show ?thesis using assms(1) by (simp add: vlPoolReserve_def)
next
  case False
  have c: "count_available p (lookupTotal p) = Some (u32_of (pool_room p))"
    using count_available_eq [OF assms(1), of "lookupTotal p"] by (simp add: pool_room_def)
  have "u32_of (pool_room p) \<le> pool_room p" by (simp add: u32_of_def)
  moreover have "lookupTotal p + (n - u32_of (pool_room p)) < 2 ^ 31"
    using assms(2) unfolding pool_can_reserve_def by linarith
  ultimately show ?thesis
    using reserve_loop_ok [OF assms(1), of "u32_of (pool_room p)" "growthIncrement p" n]
      assms(2) False c
    by (simp add: vlPoolReserve_def pool_can_reserve_def)
qed

section \<open>Resetting and cloning\<close>

lemma set_node_eq:
  "k < length (lookupTable p) \<Longrightarrow>
   set_node p k x = Some (p\<lparr>lookupTable := (lookupTable p)[k := x]\<rparr>)"
  by (simp add: set_node_def)

lemma reset_loop_eq:
  "k < 2 ^ 32 - 1 \<Longrightarrow> lookupTotal p = Suc k \<Longrightarrow>
   \<forall>j \<le> k. \<exists>n. node_at p j = Some n \<and> block_ok j n \<Longrightarrow>
   \<exists>q. reset_loop p (Some k) = Some (Some 0, q) \<and>
     q = p\<lparr>lookupTotal := 1, lookupTable := lookupTable q\<rparr> \<and>
     length (lookupTable q) = length (lookupTable p) \<and>
     (\<forall>j. node_at q j = (if j = 0 then map_option (\<lambda>n. n\<lparr>totalTaken := 0\<rparr>) (node_at p 0)
       else if j \<le> k then None else node_at p j))"
proof (induction k arbitrary: p)
  case 0
  then obtain n where n: "node_at p 0 = Some n" "nextLookup n = None" by (auto simp: block_ok_def)
  let ?q = "p\<lparr>lookupTable := (lookupTable p)[0 := Some (n\<lparr>totalTaken := 0\<rparr>)]\<rparr>"
  have "reset_loop p (Some 0) = Some (Some 0, ?q)"
    using n node_at_length [OF n(1)] by (subst reset_loop.simps) (simp add: set_node_eq)
  then show ?case
    using n 0 node_at_length [OF n(1)] by (intro exI [of _ ?q]) auto
next
  case (Suc k)
  then obtain n where n: "node_at p (Suc k) = Some n" "nextLookup n = Some k" "blockOrdinal n = Suc k"
    by (auto simp: block_ok_def)
  note len = node_at_length [OF n(1)]
  define p1 where "p1 = p\<lparr>lookupTable := (lookupTable p)[Suc k := None], lookupTotal := Suc k\<rparr>"
  have dec: "dec32 (Suc (Suc k)) = Suc k" using Suc.prems(1) by (subst dec32_id) auto
  have at1: "node_at p1 j = (if j = Suc k then None else node_at p j)" for j
    using len by (auto simp: p1_def node_at_def)
  have step: "reset_loop p (Some (Suc k)) = reset_loop p1 (Some k)"
    using n len Suc.prems(2) by (subst reset_loop.simps) (simp add: set_node_eq p1_def dec)
  have "\<exists>q. reset_loop p1 (Some k) = Some (Some 0, q) \<and>
     q = p1\<lparr>lookupTotal := 1, lookupTable := lookupTable q\<rparr> \<and>
     length (lookupTable q) = length (lookupTable p1) \<and>
     (\<forall>j. node_at q j = (if j = 0 then map_option (\<lambda>n. n\<lparr>totalTaken := 0\<rparr>) (node_at p1 0)
       else if j \<le> k then None else node_at p1 j))"
    using Suc.prems by (intro Suc.IH) (auto simp: at1, simp add: p1_def)
  then obtain q where q: "reset_loop p1 (Some k) = Some (Some 0, q)"
    "q = p1\<lparr>lookupTotal := 1, lookupTable := lookupTable q\<rparr>"
    "length (lookupTable q) = length (lookupTable p1)"
    "\<And>j. node_at q j = (if j = 0 then map_option (\<lambda>n. n\<lparr>totalTaken := 0\<rparr>) (node_at p1 0)
       else if j \<le> k then None else node_at p1 j)" by blast
  have "p1\<lparr>lookupTotal := 1, lookupTable := t\<rparr> = p\<lparr>lookupTotal := 1, lookupTable := t\<rparr>" for t
    by (simp add: p1_def)
  with q have "q = p\<lparr>lookupTotal := 1, lookupTable := lookupTable q\<rparr>" by metis
  moreover have "length (lookupTable p1) = length (lookupTable p)" by (simp add: p1_def)
  ultimately show ?case using q step by (auto simp: at1 le_Suc_eq)
qed

lemma vlPoolReset_ok:
  assumes inv: "pool_inv p"
  obtains q n where "vlPoolReset p = Some q" "node_at p 0 = Some n"
    "lookupTable q = Some (n\<lparr>totalTaken := 0\<rparr>) # replicate (lookupCapacity p - 1) None"
    "q = p\<lparr>lookupTotal := 1, lookupTable := lookupTable q, growthIncrement := blockSize n,
      lookupHead := Some 0, freeStack := []\<rparr>"
proof -
  define k where "k = lookupTotal p - 1"
  have k: "lookupHead p = Some k" "lookupTotal p = Suc k" "k < 2 ^ 32 - 1" "k < lookupCapacity p"
    "length (lookupTable p) = lookupCapacity p"
    using inv by (auto simp: pool_inv_def k_def)
  have blocks: "\<forall>j \<le> k. \<exists>n. node_at p j = Some n \<and> block_ok j n"
    using k(2) pool_inv_lookup [OF inv] by (metis less_Suc_eq_le)
  then obtain n where n: "node_at p 0 = Some n" by auto
  obtain q where q: "reset_loop p (Some k) = Some (Some 0, q)"
    "q = p\<lparr>lookupTotal := 1, lookupTable := lookupTable q\<rparr>"
    "length (lookupTable q) = length (lookupTable p)"
    "\<And>j. node_at q j = (if j = 0 then map_option (\<lambda>n. n\<lparr>totalTaken := 0\<rparr>) (node_at p 0)
       else if j \<le> k then None else node_at p j)"
    using reset_loop_eq [OF k(3,2) blocks] by blast
  have at: "node_at q j = (if j = 0 then Some (n\<lparr>totalTaken := 0\<rparr>) else None)" for j
    using q(4) n inv k(2) by (simp add: pool_inv_def)
  have tab: "lookupTable q = Some (n\<lparr>totalTaken := 0\<rparr>) # replicate (lookupCapacity p - 1) None"
  proof (rule nth_equalityI)
    fix j assume "j < length (lookupTable q)"
    then have "lookupTable q ! j = node_at q j" by (simp add: node_at_def)
    then show "lookupTable q ! j =
        (Some (n\<lparr>totalTaken := 0\<rparr>) # replicate (lookupCapacity p - 1) None) ! j"
      using \<open>j < length (lookupTable q)\<close> k q(3) by (auto simp: at nth_Cons split: nat.splits)
  qed (use k q(3) in simp)
  define r where "r = q\<lparr>growthIncrement := blockSize n, lookupHead := Some 0, freeStack := []\<rparr>"
  have "vlPoolReset p = Some r"
    using q(1) k(1) at by (simp add: vlPoolReset_def r_def)
  moreover have "lookupTable r = lookupTable q" by (simp add: r_def)
  moreover have "r = p\<lparr>lookupTotal := 1, lookupTable := lookupTable q, growthIncrement := blockSize n,
      lookupHead := Some 0, freeStack := []\<rparr>"
    unfolding r_def by (subst q(2)) simp
  ultimately show thesis using n tab that [of r n] by simp
qed

text \<open>
  Copying the blocks \<open>a\<close> to \<open>m - 1\<close>: each block of the source replaces that of the
  destination, which must have a table of at least \<open>m\<close> entries.
\<close>

lemma clone_blocks_eq:
  assumes src: "\<And>k. k < m \<Longrightarrow> \<exists>n. node_at src k = Some n \<and> block_ok k n"
    and mem: "\<forall>b. mallocOk dest b"
  shows "a \<le> m \<Longrightarrow> m \<le> length (lookupTable dest) \<Longrightarrow>
    lookupHead dest = (if a = 0 then None else Some (a - 1)) \<Longrightarrow>
    clone_blocks src dest [a..<m] = Some (dest\<lparr>
      lookupTable := take a (lookupTable dest) @ drop a (take m (lookupTable src)) @ drop m (lookupTable dest),
      lookupHead := (if m = 0 then None else Some (m - 1))\<rparr>)"
  using mem
proof (induction "m - a" arbitrary: a dest)
  case 0
  then show ?case by simp
next
  case (Suc d)
  then have am: "a < m" by simp
  then obtain n where n: "node_at src a = Some n" "block_ok a n" using src by blast
  have len: "m \<le> length (lookupTable src)"
    using src [of "m - 1"] am node_at_length by fastforce
  have na: "lookupTable src ! a = Some n" "n\<lparr>nextLookup := lookupHead dest\<rparr> = n"
    using n Suc.prems(3) by (auto simp: node_at_def block_ok_def split: if_splits)
  let ?d = "dest\<lparr>lookupTable := (lookupTable dest)[a := Some n], lookupHead := Some a\<rparr>"
  have "clone_blocks src dest [a..<m] = clone_blocks src ?d [Suc a..<m]"
    using am n na Suc.prems(2,4)
    by (simp add: upt_conv_Cons set_node_eq Let_def block_ok_def)
  also have "\<dots> = Some (?d\<lparr>
      lookupTable := take (Suc a) (lookupTable ?d) @ drop (Suc a) (take m (lookupTable src)) @
        drop m (lookupTable ?d),
      lookupHead := (if m = 0 then None else Some (m - 1))\<rparr>)"
    using Suc am by (intro Suc.hyps(1)) auto
  also have "drop a (take m (lookupTable src)) = Some n # drop (Suc a) (take m (lookupTable src))"
    using am len na(1) by (subst Cons_nth_drop_Suc [symmetric]) auto
  then have "take (Suc a) (lookupTable ?d) @ drop (Suc a) (take m (lookupTable src)) @ drop m (lookupTable ?d)
      = take a (lookupTable dest) @ drop a (take m (lookupTable src)) @ drop m (lookupTable dest)"
    using am Suc.prems(2) by (simp add: take_Suc_conv_app_nth)
  finally show ?case by simp
qed

lemma clone_blocks_overflow:
  "length (lookupTable dest) < m \<Longrightarrow> a \<le> length (lookupTable dest) \<Longrightarrow>
   (\<And>k. k < m \<Longrightarrow> \<exists>n. node_at src k = Some n \<and> blockOrdinal n = k) \<Longrightarrow>
   clone_blocks src dest [a..<m] = None"
proof (induction "m - a" arbitrary: a dest)
  case 0
  then show ?case by simp
next
  case (Suc d)
  then have am: "a < m" by simp
  then obtain n where n: "node_at src a = Some n" "blockOrdinal n = a" using Suc.prems(3) by blast
  show ?case
  proof (cases "a < length (lookupTable dest)")
    case True
    let ?d = "dest\<lparr>lookupTable := (lookupTable dest)[a := Some (n\<lparr>nextLookup := lookupHead dest\<rparr>)],
      lookupHead := Some a\<rparr>"
    have "clone_blocks src ?d [Suc a..<m] = None"
      using Suc True by (intro Suc.hyps(1)) auto
    then show ?thesis
      using am n True by (simp add: upt_conv_Cons set_node_eq Let_def)
  next
    case False
    then show ?thesis using am n by (simp add: upt_conv_Cons set_node_def)
  qed
qed

lemma take_drop_table:
  assumes inv: "pool_inv src" and len: "length t = lookupCapacity src"
    and rest: "\<And>k. 0 < k \<Longrightarrow> k < length t \<Longrightarrow> t ! k = None"
  shows "take (lookupTotal src) (lookupTable src) @ drop (lookupTotal src) t = lookupTable src"
proof (rule nth_equalityI)
  have le: "lookupTotal src \<le> lookupCapacity src" "length (lookupTable src) = lookupCapacity src"
    "0 < lookupTotal src"
    using inv by (simp_all add: pool_inv_def)
  then show "length (take (lookupTotal src) (lookupTable src) @ drop (lookupTotal src) t) =
      length (lookupTable src)" using len by simp
  fix k assume "k < length (take (lookupTotal src) (lookupTable src) @ drop (lookupTotal src) t)"
  then have k: "k < lookupCapacity src" using le len by simp
  show "(take (lookupTotal src) (lookupTable src) @ drop (lookupTotal src) t) ! k = lookupTable src ! k"
  proof (cases "k < lookupTotal src")
    case True
    then show ?thesis using le by (simp add: nth_append)
  next
    case False
    then have "lookupTable src ! k = None"
      using inv k le node_at_nth [of k src] by (simp add: pool_inv_def)
    then show ?thesis using False k le len rest by (simp add: nth_append)
  qed
qed

text \<open>The table of the pool that a clone starts from holds one block, or is fresh.\<close>

lemma vlPoolNewAligned_table:
  assumes "vlPoolNewAligned ok esize al = Some d"
  shows "length (lookupTable d) = 16" and "\<And>k. 0 < k \<Longrightarrow> k < 16 \<Longrightarrow> lookupTable d ! k = None"
    and "freeCapacity d = 16" and "mallocOk d = ok"
  using assms
  by (auto simp: vlPoolNewAligned_def vlPoolInitAligned_def vl_PoolNodeNew_def VL_POOL_DEFAULT_SIZE_def Let_def
      set_node_def split: if_splits)

lemma clone_into:
  assumes inv: "pool_inv src" and mem: "\<forall>b. ok b"
    and d: "length (lookupTable d) = lookupCapacity src" "mallocOk d = ok"
      "\<And>k. 0 < k \<Longrightarrow> k < length (lookupTable d) \<Longrightarrow> lookupTable d ! k = None"
    and start: "(case dest of None \<Rightarrow> vlPoolNewAligned ok (elementSize src) (elementAlign src)
                 | Some d \<Rightarrow> vlPoolReset d) = Some d"
  shows "vlPoolClone ok src dest =
    Some (src\<lparr>freeCapacity := max (freeCapacity d) (freeCapacity src), mallocOk := ok\<rparr>)"
proof -
  define m where "m = lookupTotal src"
  have m: "0 < m" "lookupHead src = Some (m - 1)" "m \<le> lookupCapacity src"
    "length (lookupTable src) = lookupCapacity src"
    using inv by (simp_all add: pool_inv_def m_def)
  have blocks: "\<exists>n. node_at src k = Some n \<and> block_ok k n" if "k < m" for k
    using pool_inv_lookup [OF inv] that m_def by metis
  then obtain h where h: "node_at src (m - 1) = Some h" "blockOrdinal h = m - 1"
    using m(1) by (metis block_ok_def diff_less zero_less_one)
  let ?d = "d\<lparr>growthIncrement := growthIncrement src, elementSize := elementSize src,
    elementAlign := elementAlign src, lookupTotal := lookupTotal src,
    lookupCapacity := lookupCapacity src,
    freeCapacity := max (freeCapacity d) (freeCapacity src),
    freeStack := freeStack src, lookupHead := None\<rparr>"
  have "vlPoolClone ok src dest = clone_blocks src ?d [0..<m]"
    using start h m mem d(2)
    by (simp add: vlPoolClone_def Let_def max_def del: upt_Suc)
  also have "\<dots> = Some (?d\<lparr>lookupTable := take 0 (lookupTable ?d) @
      drop 0 (take m (lookupTable src)) @ drop m (lookupTable ?d),
      lookupHead := (if m = 0 then None else Some (m - 1))\<rparr>)"
    by (rule clone_blocks_eq [OF blocks]) (use mem d m in auto)
  also have "take 0 (lookupTable ?d) @ drop 0 (take m (lookupTable src)) @ drop m (lookupTable ?d) =
      lookupTable src"
    using take_drop_table [OF inv d(1,3)] by (simp add: m_def)
  finally show ?thesis using m d(2) by (simp add: m_def)
qed

lemma vlPoolClone_some:
  assumes "pool_inv src" and "\<forall>b. ok b"
    and d: "pool_inv d" "lookupCapacity d = lookupCapacity src" "mallocOk d = ok"
  shows "vlPoolClone ok src (Some d) =
    Some (src\<lparr>freeCapacity := max (freeCapacity d) (freeCapacity src), mallocOk := ok\<rparr>)"
proof -
  obtain q n where q: "vlPoolReset d = Some q"
    and tab: "lookupTable q = Some (n\<lparr>totalTaken := 0\<rparr>) # replicate (lookupCapacity d - 1) None"
    and eq: "q = d\<lparr>lookupTotal := 1, lookupTable := lookupTable q, growthIncrement := blockSize n,
      lookupHead := Some 0, freeStack := []\<rparr>"
    using d(1) by (rule vlPoolReset_ok)
  have cap: "0 < lookupCapacity d" using d(1) by (auto simp: pool_inv_def)
  have fields: "mallocOk q = ok" "freeCapacity q = freeCapacity d"
    by (subst eq, simp add: d(3))+
  show ?thesis
    unfolding fields(2) [symmetric]
    by (intro clone_into [OF assms(1,2)])
      (use q tab cap d(2) fields in \<open>auto simp: nth_Cons split: nat.splits\<close>)
qed

lemma clone_same:
  assumes "pool_inv src" and "freeCapacity src \<le> c"
  shows "pool_inv (src\<lparr>freeCapacity := c, mallocOk := ok\<rparr>)"
    and "pool_live (src\<lparr>freeCapacity := c, mallocOk := ok\<rparr>) = pool_live src"
    and "vlPoolSample (src\<lparr>freeCapacity := c, mallocOk := ok\<rparr>) = vlPoolSample src"
proof -
  let ?q = "src\<lparr>freeCapacity := c, mallocOk := ok\<rparr>"
  have at: "node_at ?q k = node_at src k" for k by (simp add: node_at_def)
  have u: "used ?q k = used src k" for k
    by (cases "node_at src k") (simp_all add: used_def at free_in_def)
  show "pool_inv ?q" using assms unfolding pool_inv_def u at by simp
  show "pool_live ?q = pool_live src" by (simp add: pool_live_def u)
  show "vlPoolSample ?q = vlPoolSample src" by (rule ext) (simp add: vlPoolSample_def at)
qed

text \<open>
  The state a pool reaches once seventeen blocks are full: the sizes are those that
  \<^const>\<open>vl_PoolNodeNew\<close> gives them.
\<close>

definition block_slots :: "nat \<Rightarrow> nat" where
  "block_slots k = (if k = 0 then 16 else 16 * 2 ^ (k - 1))"

definition crowded_pool :: "nat vl_pool" where
  "crowded_pool =
     \<lparr>elementSize = 8, elementAlign = 8, growthIncrement = block_slots 17, lookupTotal = 17,
      lookupCapacity = 32,
      lookupTable = map (\<lambda>k. if k < 17 then
          Some \<lparr>totalTaken = block_slots k, blockSize = block_slots k, blockOrdinal = k,
                nextLookup = (if k = 0 then None else Some (k - 1)),
                elements = replicate (block_slots k) (Some 0)\<rparr> else None) [0..<32],
      lookupHead = Some 16, freeCapacity = 16, freeStack = [], mallocOk = (\<lambda>_. True)\<rparr>"

lemma crowded_pool_inv: "pool_inv crowded_pool"
proof -
  have sz: "block_slots k < 4294967296" if "k < 17" for k
  proof -
    have "(2::nat) ^ (k - 1) \<le> 2 ^ 16" using that by (intro power_increasing) simp_all
    then show ?thesis by (simp add: block_slots_def)
  qed
  have at: "node_at crowded_pool k = (if k < 17 then
      Some \<lparr>totalTaken = block_slots k, blockSize = block_slots k, blockOrdinal = k,
            nextLookup = (if k = 0 then None else Some (k - 1)),
            elements = replicate (block_slots k) (Some 0)\<rparr> else None)" for k
    by (simp add: crowded_pool_def node_at_def)
  have fs: "freeStack crowded_pool = []" by (simp add: crowded_pool_def)
  have u: "used crowded_pool k = (if k < 17 then block_slots k else 0)" for k
    by (simp add: used_def at free_in_def fs)
  have "block_slots 17 = 1048576" by (simp add: block_slots_def)
  then show ?thesis
    unfolding pool_inv_def
    by (simp add: at u fs block_ok_def sz) (simp add: crowded_pool_def)
qed

section \<open>Properties of the pool\<close>

text \<open>
  The properties the manifest names. Each rests on the lemmas above and on the
  interpretation of \<open>slot_pool\<close>.
\<close>

text \<open>
  C11. \<^verbatim>\<open>vlPoolTake\<close> on a well-formed pool that has room or can grow returns an index that
  was not in use, marks exactly that index as used, keeps the contents of every slot in use
  and the invariant, and never runs into undefined behaviour.
\<close>

theorem pool_take_fresh:
  assumes "pool_inv p" and "pool_ready p"
  shows "\<exists>i q. vlPoolTake p = Some (i, q) \<and> pool_inv q \<and> i \<notin> pool_live p \<and>
    i \<noteq> VL_POOL_INVALID_IDX \<and> pool_live q = insert i (pool_live p) \<and>
    (\<forall>j \<in> pool_live p. vlPoolSample q j = vlPoolSample p j)"
proof -
  obtain i q where "vlPoolTake p = Some (i, q)" "pool_inv q" "i \<notin> pool_live p"
    "pool_live q = insert i (pool_live p)" "\<forall>j \<in> pool_live p. vlPoolSample q j = vlPoolSample p j"
    using slots.take_ready [OF assms] by blast
  moreover from this have "i \<noteq> VL_POOL_INVALID_IDX" using INVALID_not_live [of q] by auto
  ultimately show ?thesis by blast
qed

theorem pool_take_fresh_witness:
  "\<exists>i q. vlPoolTake (fresh_pool (\<lambda>_. True) 8 8 :: nat vl_pool) = Some (i, q) \<and> pool_live q = {i}"
  using pool_take_fresh [of "fresh_pool (\<lambda>_. True) 8 8 :: nat vl_pool"]
    fresh_pool_props [of 8 "\<lambda>_. True" 8, where 'a = nat]
  by (auto simp: pool_ready_def)

text \<open>
  \<^verbatim>\<open>vlPoolReturn\<close> of an index in use takes exactly that index out of use and keeps the
  invariant and the contents of every slot; a \<^verbatim>\<open>vlPoolTake\<close> right after it hands out the
  same index again.
\<close>

theorem pool_return_take:
  assumes "pool_inv p" and "i \<in> pool_live p" and "pool_can_return p (Suc 0)"
  shows "\<exists>q. vlPoolReturn p i = Some q \<and> pool_inv q \<and> pool_live q = pool_live p - {i} \<and>
    vlPoolSample q = vlPoolSample p \<and>
    (\<exists>r. vlPoolTake q = Some (i, r) \<and> pool_inv r \<and> pool_live r = pool_live p)"
proof -
  obtain q where q: "vlPoolReturn p i = Some q" "pool_inv q" "pool_live q = pool_live p - {i}"
    "vlPoolSample q = vlPoolSample p" "freeStack q = freeStack p @ [i]"
    using assms by (rule vlPoolReturn_live) blast
  then have last: "freeStack q \<noteq> []" "last (freeStack q) = i" by simp_all
  obtain k r where r: "vlPoolTake q = Some (k, r)" "pool_inv r" "pool_live r = insert k (pool_live q)"
    and "k = last (freeStack q)"
    using q(2) last(1) by (rule vlPoolTake_free) blast
  then have "k = i" using last by simp
  then show ?thesis using q r assms(2) by (auto simp: insert_absorb)
qed

theorem pool_return_take_witness:
  "\<exists>i p q. vlPoolTake (fresh_pool (\<lambda>_. True) 8 8 :: nat vl_pool) = Some (i, p) \<and>
     vlPoolReturn p i = Some q \<and> pool_live q = {}"
proof -
  let ?p = "fresh_pool (\<lambda>_. True) 8 8 :: nat vl_pool"
  obtain i p where p: "vlPoolTake ?p = Some (i, p)" "pool_inv p" "pool_live p = {i}"
    using slots.take_ready [of ?p] fresh_pool_props [of 8 "\<lambda>_. True" 8, where 'a = nat]
    by (auto simp: pool_ready_def)
  have "p = snd (the (vlPoolTake ?p))" using p(1) by simp
  also have "freeStack \<dots> = [] \<and> freeCapacity \<dots> = 16"
    by (simp add: fresh_pool_def vlPoolTake_def take_search.simps [of _ "Some 0"] node_at_def
        modify_node_def set_node_def)
  finally have "pool_can_return p (Suc 0)" by (simp add: pool_can_return_def)
  then show ?thesis using pool_return_take [OF p(2), of i] p by auto
qed

text \<open>
  \<^verbatim>\<open>vlPoolReserve(pool, n)\<close> returns for every \<open>n\<close> whose block sizes fit in 32 bits, and
  afterwards at least \<open>n\<close> slots can be taken without another allocation, while no slot in
  use has moved or changed.
\<close>

theorem pool_reserve_room:
  assumes "pool_inv p" and "pool_can_reserve p n"
  shows "\<exists>q. vlPoolReserve p n = Some q \<and> pool_inv q \<and> pool_live q = pool_live p \<and>
    (\<forall>j \<in> pool_live p. vlPoolSample q j = vlPoolSample p j) \<and> n \<le> pool_room q"
  using vlPoolReserve_ok [OF assms] by blast

theorem pool_reserve_room_witness:
  "\<exists>q. vlPoolReserve crowded_pool 1000 = Some q \<and> 1000 \<le> pool_room q"
proof -
  have "poolHeaderSize crowded_pool \<le> 65535" by (simp add: poolHeaderSize_def u16_of_def less_Suc_eq_le [symmetric])
  then show ?thesis
    using pool_reserve_room [OF crowded_pool_inv, of 1000]
    by (auto simp: crowded_pool_def block_slots_def pool_can_reserve_def)
qed

text \<open>\<^verbatim>\<open>vlPoolClear\<close> of a well-formed pool leaves a well-formed pool in which nothing is in
  use and every slot of every block can be taken again.\<close>

theorem pool_clear_all:
  assumes "pool_inv p"
  shows "\<exists>q. vlPoolClear p = Some q \<and> pool_inv q \<and> pool_live q = {} \<and>
    pool_room q = pool_capacity p"
  by (rule vlPoolClear_ok [OF assms]) blast

theorem pool_clear_all_witness:
  "\<exists>q. vlPoolClear crowded_pool = Some q \<and> pool_live q = {}"
  using pool_clear_all [OF crowded_pool_inv] by blast

text \<open>
  \<^verbatim>\<open>vlPoolClone\<close> into a new pool, or into an existing well-formed one whose table is as
  large as that of the source, yields the source again, block by block and with the same
  free stack: every index in use in the source is in use in the clone and reads the same.
\<close>

theorem pool_clone_equal:
  assumes "pool_inv src" and "\<forall>b. ok b"
    and "case dest of
      None \<Rightarrow> lookupCapacity src = 16 \<and>
        (\<exists>d. vlPoolNewAligned ok (elementSize src) (elementAlign src) = Some (d :: 'a vl_pool))
    | Some d \<Rightarrow> pool_inv d \<and> lookupCapacity d = lookupCapacity src \<and> mallocOk d = ok"
  shows "\<exists>c. vlPoolClone ok src (dest :: 'a vl_pool option) =
    Some (src\<lparr>freeCapacity := c, mallocOk := ok\<rparr>) \<and> freeCapacity src \<le> c"
proof (cases dest)
  case None
  with assms(3) obtain d :: "'a vl_pool" where cap: "lookupCapacity src = 16"
    and d: "vlPoolNewAligned ok (elementSize src) (elementAlign src) = Some d" by auto
  have "vlPoolClone ok src dest =
      Some (src\<lparr>freeCapacity := max (freeCapacity d) (freeCapacity src), mallocOk := ok\<rparr>)"
    by (rule clone_into [OF assms(1,2)])
      (use None d cap vlPoolNewAligned_table [OF d] in auto)
  then show ?thesis by auto
next
  case (Some d)
  then have d: "pool_inv d" "lookupCapacity d = lookupCapacity src" "mallocOk d = ok"
    using assms(3) by simp_all
  show ?thesis unfolding Some vlPoolClone_some [OF assms(1,2) d] by auto
qed

theorem pool_clone_equal_witness:
  "\<exists>c. vlPoolClone (\<lambda>_. True) crowded_pool (Some crowded_pool) =
    Some (crowded_pool\<lparr>freeCapacity := c, mallocOk := \<lambda>_. True\<rparr>)"
  using pool_clone_equal [OF crowded_pool_inv, of "\<lambda>_. True" "Some crowded_pool"] crowded_pool_inv
  by (auto simp: crowded_pool_def)

text \<open>
  The table of the destination is not enlarged by \<^verbatim>\<open>vlPoolClone\<close>: cloning a pool of
  more than sixteen blocks into a new pool writes past the end of its table.
\<close>

theorem pool_clone_overflow:
  assumes "pool_inv src" and "16 < lookupTotal src"
  shows "vlPoolClone ok src (None :: 'a vl_pool option) = None"
proof (cases "vlPoolNewAligned ok (elementSize src) (elementAlign src) :: 'a vl_pool option")
  case None
  then show ?thesis by (simp add: vlPoolClone_def)
next
  case (Some d)
  note t = vlPoolNewAligned_table [OF Some]
  have blocks: "\<exists>n. node_at src k = Some n \<and> blockOrdinal n = k" if "k < lookupTotal src" for k
    using pool_inv_lookup [OF assms(1) that] by (metis block_ok_def)
  obtain h where h: "node_at src (lookupTotal src - 1) = Some h" "blockOrdinal h = lookupTotal src - 1"
    using blocks [of "lookupTotal src - 1"] assms(2) by auto
  have head: "lookupHead src = Some (lookupTotal src - 1)" using assms(1) by (simp add: pool_inv_def)
  have ov: "clone_blocks src e [0..<lookupTotal src] = None" if "length (lookupTable e) = 16" for e
    using assms(2) that blocks by (intro clone_blocks_overflow) auto
  have suc: "Suc (lookupTotal src - 1) = lookupTotal src" using assms(2) by simp
  show ?thesis
    using h head by (simp add: vlPoolClone_def Some Let_def suc ov t(1) del: upt_Suc One_nat_def)
qed

theorem pool_clone_overflow_witness:
  "vlPoolClone (\<lambda>_. True) crowded_pool None = None"
  by (rule pool_clone_overflow [OF crowded_pool_inv]) (simp add: crowded_pool_def)

end
