(* ===== verification/VL_Interfaces.thy ===== *)
theory VL_Interfaces
  imports VL_Prelude
begin

text \<open>
  The contracts of the sequence containers, as locales: what a first-in first-out
  container and a last-in first-out one promise of single operations, and what follows for
  runs of operations. \<^verbatim>\<open>vl_queue\<close> and \<^verbatim>\<open>vl_deque\<close> keep the first, \<^verbatim>\<open>vl_deque\<close> and
  \<^verbatim>\<open>vl_stack\<close> the second.
\<close>

section \<open>Runs of operations\<close>

primrec push_all :: "('q \<Rightarrow> 'a \<Rightarrow> 'q option) \<Rightarrow> 'q \<Rightarrow> 'a list \<Rightarrow> 'q option" where
  "push_all push q [] = Some q"
| "push_all push q (x # xs) = do { q \<leftarrow> push q x; push_all push q xs }"

primrec pop_many :: "('q \<Rightarrow> ('a option \<times> 'q) option) \<Rightarrow> nat \<Rightarrow> 'q \<Rightarrow> ('a option list \<times> 'q) option" where
  "pop_many pop 0 q = Some ([], q)"
| "pop_many pop (Suc n) q =
     do { (x, q) \<leftarrow> pop q; (xs, q) \<leftarrow> pop_many pop n q; Some (x # xs, q) }"

section \<open>Bounded containers\<close>

text \<open>
  \<open>room q\<close> insertions are possible without a new allocation; \<open>spare q n\<close> says that \<open>n\<close>
  removals are possible. An insertion leaves the removals possible.
\<close>

locale bounded_push =
  fixes push :: "'q \<Rightarrow> 'a \<Rightarrow> 'q option"
    and contents :: "'q \<Rightarrow> 'a list"
    and add :: "'a \<Rightarrow> 'a list \<Rightarrow> 'a list"
    and inv :: "'q \<Rightarrow> bool"
    and ready :: "'q \<Rightarrow> bool"
    and room :: "'q \<Rightarrow> nat"
    and spare :: "'q \<Rightarrow> nat \<Rightarrow> bool"
  assumes push_ok: "inv q \<Longrightarrow> ready q \<Longrightarrow>
      \<exists>q'. push q x = Some q' \<and> inv q' \<and> contents q' = add x (contents q) \<and> room q - 1 \<le> room q' \<and>
        (\<forall>n. spare q n \<longrightarrow> spare q' n)"
    and ready_room: "0 < room q \<Longrightarrow> ready q"
begin

lemma push_all_ok:
  "inv q \<Longrightarrow> length xs \<le> room q \<Longrightarrow>
   \<exists>q'. push_all push q xs = Some q' \<and> inv q' \<and> contents q' = fold add xs (contents q) \<and>
     (\<forall>n. spare q n \<longrightarrow> spare q' n)"
proof (induction xs arbitrary: q)
  case Nil
  then show ?case by simp
next
  case (Cons x xs)
  then have "ready q" by (intro ready_room) simp
  then obtain q1 where q1: "push q x = Some q1" "inv q1" "contents q1 = add x (contents q)"
    "room q - 1 \<le> room q1" "\<forall>n. spare q n \<longrightarrow> spare q1 n"
    using push_ok Cons.prems(1) by blast
  moreover have "length xs \<le> room q1" using Cons.prems(2) q1(4) by simp
  ultimately obtain q2 where "push_all push q1 xs = Some q2" "inv q2"
    "contents q2 = fold add xs (contents q1)" "\<forall>n. spare q1 n \<longrightarrow> spare q2 n"
    using Cons.IH [of q1] by blast
  then show ?case using q1 by simp
qed

end

locale front_pop =
  fixes pop :: "'q \<Rightarrow> ('a option \<times> 'q) option"
    and contents :: "'q \<Rightarrow> 'a list"
    and inv :: "'q \<Rightarrow> bool"
    and spare :: "'q \<Rightarrow> nat \<Rightarrow> bool"
  assumes pop_empty: "inv q \<Longrightarrow> contents q = [] \<Longrightarrow> pop q = Some (None, q)"
    and pop_ok: "inv q \<Longrightarrow> contents q = x # xs \<Longrightarrow> spare q (Suc n) \<Longrightarrow>
      \<exists>q'. pop q = Some (Some x, q') \<and> inv q' \<and> contents q' = xs \<and> spare q' n"
begin

lemma pop_many_ok:
  "inv q \<Longrightarrow> spare q n \<Longrightarrow> n \<le> length (contents q) \<Longrightarrow>
   \<exists>q'. pop_many pop n q = Some (map Some (take n (contents q)), q') \<and> inv q' \<and>
     contents q' = drop n (contents q)"
proof (induction n arbitrary: q)
  case 0
  then show ?case by simp
next
  case (Suc n)
  then obtain x xs where c: "contents q = x # xs" by (cases "contents q") simp_all
  then obtain q1 where "pop q = Some (Some x, q1)" "inv q1" "contents q1 = xs" "spare q1 n"
    using pop_ok Suc.prems(1,2) by blast
  moreover from this obtain q2 where "pop_many pop n q1 = Some (map Some (take n xs), q2)" "inv q2"
    "contents q2 = drop n xs"
    using Suc.IH [of q1] Suc.prems(3) c by auto
  ultimately show ?case using c by simp
qed

end

section \<open>First in, first out\<close>

locale fifo_container =
  bounded_push push contents "\<lambda>x xs. xs @ [x]" inv ready room spare + front_pop pop contents inv spare
  for push :: "'q \<Rightarrow> 'a \<Rightarrow> 'q option" and pop contents inv ready room spare
begin

lemma fold_snoc: "fold (\<lambda>x xs. xs @ [x]) ys zs = zs @ ys"
  by (induction ys arbitrary: zs) simp_all

text \<open>What went in comes out in the same order, after what was there before.\<close>

lemma push_all_pop_many:
  assumes "inv q" and "length xs \<le> room q" and "spare q (length (contents q) + length xs)"
  shows "\<exists>q1 q2. push_all push q xs = Some q1 \<and>
    pop_many pop (length (contents q) + length xs) q1 = Some (map Some (contents q @ xs), q2) \<and>
    inv q2 \<and> contents q2 = []"
proof -
  obtain q1 where q1: "push_all push q xs = Some q1" "inv q1" "contents q1 = contents q @ xs"
    "spare q1 (length (contents q) + length xs)"
    using push_all_ok [OF assms(1,2)] assms(3) by (auto simp: fold_snoc)
  then show ?thesis using pop_many_ok [of q1 "length (contents q) + length xs"] by auto
qed

end

section \<open>Last in, first out\<close>

locale lifo_container =
  bounded_push push contents "(#)" inv ready room spare + front_pop pop contents inv spare
  for push :: "'q \<Rightarrow> 'a \<Rightarrow> 'q option" and pop contents inv ready room spare
begin

lemma push_all_pop_many:
  assumes "inv q" and "length xs \<le> room q" and "spare q (length xs)"
  shows "\<exists>q1 q2. push_all push q xs = Some q1 \<and>
    pop_many pop (length xs) q1 = Some (map Some (rev xs), q2) \<and>
    inv q2 \<and> contents q2 = contents q"
proof -
  have "fold (#) xs (contents q) = rev xs @ contents q" by (simp add: fold_Cons_rev)
  then obtain q1 where q1: "push_all push q xs = Some q1" "inv q1" "contents q1 = rev xs @ contents q"
    "spare q1 (length xs)"
    using push_all_ok [OF assms(1,2)] assms(3) by auto
  then show ?thesis using pop_many_ok [of q1 "length xs"] by auto
qed

end

end
