(* ===== verification/VL_Queue.thy ===== *)
theory VL_Queue
  imports VL_Pool VL_Interfaces
begin

text \<open>
  The queue of \<^verbatim>\<open>src/core/vl_queue.c\<close>: nodes in a pool, each an index of the next node and
  an element. The last node of a queue points to itself, so that the ends are told apart by
  \<open>head\<close> and \<open>tail\<close> alone. The field \<^verbatim>\<open>totalElements\<close> of the struct is never written by
  \<^verbatim>\<open>vl_queue.c\<close>: it holds what the memory held before initialisation.
\<close>

section \<open>State\<close>

record 'a vl_queue_node =
  queue_header :: vl_pool_idx
  queue_data :: 'a

record 'a vl_queue =
  queue_nodes :: "'a vl_queue_node vl_pool"
  queue_totalElements :: nat
  queue_elementSize :: nat
  queue_head :: vl_pool_idx
  queue_tail :: vl_pool_idx

section \<open>Operations\<close>

definition vlQueueInit :: "(nat \<Rightarrow> bool) \<Rightarrow> nat \<Rightarrow> nat \<Rightarrow> 'a vl_queue option" where
  "vlQueueInit ok junk esize =
     do {
       pool \<leftarrow> vlPoolInit ok (u16_of (esize + 8));
       Some \<lparr>queue_nodes = pool, queue_totalElements = junk, queue_elementSize = esize,
             queue_head = VL_POOL_INVALID_IDX, queue_tail = VL_POOL_INVALID_IDX\<rparr>
     }"

definition vlQueueFree :: "'a vl_queue \<Rightarrow> 'a vl_queue option" where
  "vlQueueFree queue = do { pool \<leftarrow> vlPoolFree (queue_nodes queue); Some (queue\<lparr>queue_nodes := pool\<rparr>) }"

text \<open>The struct has 96 bytes; a failed allocation is passed on to \<^const>\<open>vlQueueInit\<close>.\<close>

definition vlQueueNew :: "(nat \<Rightarrow> bool) \<Rightarrow> nat \<Rightarrow> nat \<Rightarrow> 'a vl_queue option" where
  "vlQueueNew ok junk esize = (if ok 96 then vlQueueInit ok junk esize else None)"

text \<open>\<^verbatim>\<open>vlQueueDelete\<close> frees the struct as well: nothing is left but that it succeeded.\<close>

definition vlQueueDelete :: "'a vl_queue \<Rightarrow> unit option" where
  "vlQueueDelete queue = do { _ \<leftarrow> vlQueueFree queue; Some () }"

definition vlQueueClear :: "'a vl_queue \<Rightarrow> 'a vl_queue option" where
  "vlQueueClear queue =
     do {
       pool \<leftarrow> vlPoolClear (queue_nodes queue);
       Some (queue\<lparr>queue_nodes := pool, queue_head := VL_POOL_INVALID_IDX,
                   queue_tail := VL_POOL_INVALID_IDX\<rparr>)
     }"

definition vlQueueClone ::
  "(nat \<Rightarrow> bool) \<Rightarrow> nat \<Rightarrow> 'a vl_queue \<Rightarrow> 'a vl_queue option \<Rightarrow> 'a vl_queue option" where
  "vlQueueClone ok junk src dest =
     do {
       dest \<leftarrow> (case dest of None \<Rightarrow> vlQueueNew ok junk (queue_elementSize src) | Some d \<Rightarrow> Some d);
       pool \<leftarrow> vlPoolClone ok (queue_nodes src) (Some (queue_nodes dest));
       Some (dest\<lparr>queue_nodes := pool, queue_head := queue_head src, queue_tail := queue_tail src,
                  queue_elementSize := queue_elementSize src\<rparr>)
     }"

definition vlQueueReserve :: "'a vl_queue \<Rightarrow> nat \<Rightarrow> 'a vl_queue option" where
  "vlQueueReserve queue n =
     do { pool \<leftarrow> vlPoolReserve (queue_nodes queue) n; Some (queue\<lparr>queue_nodes := pool\<rparr>) }"

definition vlQueuePushBack :: "'a vl_queue \<Rightarrow> 'a \<Rightarrow> 'a vl_queue option" where
  "vlQueuePushBack queue element =
     do {
       let oldTail = queue_tail queue;
       (newTail, pool) \<leftarrow> vlPoolTake (queue_nodes queue);
       pool \<leftarrow> vlPoolStore pool newTail \<lparr>queue_header = newTail, queue_data = element\<rparr>;
       pool \<leftarrow> (if oldTail \<noteq> VL_POOL_INVALID_IDX
                then vlPoolModify pool oldTail (\<lambda>n. n\<lparr>queue_header := newTail\<rparr>) else Some pool);
       let queue = queue\<lparr>queue_nodes := pool\<rparr>;
       let queue = (if queue_head queue = VL_POOL_INVALID_IDX then queue\<lparr>queue_head := newTail\<rparr> else queue);
       Some (queue\<lparr>queue_tail := newTail\<rparr>)
     }"

text \<open>The result of \<^verbatim>\<open>vlQueuePopFront\<close> is 0 with no element (\<^const>\<open>None\<close>), or 1 and the element.\<close>

definition vlQueuePopFront :: "'a vl_queue \<Rightarrow> ('a option \<times> 'a vl_queue) option" where
  "vlQueuePopFront queue =
     (if queue_head queue = VL_POOL_INVALID_IDX then Some (None, queue)
      else do {
        let target = queue_head queue;
        node \<leftarrow> vlPoolSample (queue_nodes queue) target;
        let queue =
          (if queue_head queue = queue_tail queue
           then queue\<lparr>queue_head := VL_POOL_INVALID_IDX, queue_tail := VL_POOL_INVALID_IDX\<rparr>
           else queue\<lparr>queue_head := queue_header node\<rparr>);
        pool \<leftarrow> vlPoolReturn (queue_nodes queue) target;
        Some (Some (queue_data node), queue\<lparr>queue_nodes := pool\<rparr>)
      })"

definition vlQueueSize :: "'a vl_queue \<Rightarrow> nat" where
  "vlQueueSize queue = queue_totalElements queue"

section \<open>The chain of nodes\<close>

text \<open>
  \<^term>\<open>qchain m xs\<close>: under the memory \<open>m\<close> the nodes \<open>xs\<close> are linked in this order, and the
  last of them to itself.
\<close>

fun qchain :: "(vl_pool_idx \<Rightarrow> 'a vl_queue_node option) \<Rightarrow> vl_pool_idx list \<Rightarrow> bool" where
  "qchain m [] = True"
| "qchain m (x # xs) = ((\<exists>v. m x = Some \<lparr>queue_header = hd_or xs x, queue_data = v\<rparr>) \<and> qchain m xs)"

definition qdata :: "(vl_pool_idx \<Rightarrow> 'a vl_queue_node option) \<Rightarrow> vl_pool_idx list \<Rightarrow> 'a list" where
  "qdata m xs = map (\<lambda>x. queue_data (the (m x))) xs"

lemma qchain_cong: "(\<And>x. x \<in> set xs \<Longrightarrow> m x = m' x) \<Longrightarrow> qchain m xs = qchain m' xs"
  by (induction xs) auto

lemma qdata_cong: "(\<And>x. x \<in> set xs \<Longrightarrow> m x = m' x) \<Longrightarrow> qdata m xs = qdata m' xs"
  by (simp add: qdata_def)

lemma qchain_snoc:
  "qchain m (xs @ [y]) \<Longrightarrow> distinct (xs @ [y, z]) \<Longrightarrow>
   m' z = Some \<lparr>queue_header = z, queue_data = v\<rparr> \<Longrightarrow>
   m' y = map_option (\<lambda>n. n\<lparr>queue_header := z\<rparr>) (m y) \<Longrightarrow>
   (\<And>x. x \<in> set xs \<Longrightarrow> m' x = m x) \<Longrightarrow> qchain m' (xs @ [y, z])"
  by (induction xs) auto

text \<open>The nodes of the queue, exactly the slots in use, chained from head to tail.\<close>

definition queue_rep :: "'a vl_queue \<Rightarrow> vl_pool_idx list \<Rightarrow> bool" where
  "queue_rep q xs \<longleftrightarrow>
     pool_inv (queue_nodes q) \<and> pool_live (queue_nodes q) = set xs \<and> distinct xs \<and>
     qchain (vlPoolSample (queue_nodes q)) xs \<and>
     queue_head q = hd_or xs VL_POOL_INVALID_IDX \<and> queue_tail q = last_or xs VL_POOL_INVALID_IDX"

definition queue_inv :: "'a vl_queue \<Rightarrow> bool" where
  "queue_inv q \<longleftrightarrow> (\<exists>xs. queue_rep q xs)"

text \<open>The contents, read off by following the headers from head to tail.\<close>

partial_function (option) queue_walk ::
  "'a vl_queue_node vl_pool \<Rightarrow> vl_pool_idx \<Rightarrow> vl_pool_idx \<Rightarrow> 'a list option" where
  [code]: "queue_walk pool cur stop =
     do {
       node \<leftarrow> vlPoolSample pool cur;
       if cur = stop then Some [queue_data node]
       else do { rest \<leftarrow> queue_walk pool (queue_header node) stop; Some (queue_data node # rest) }
     }"

definition queue_contents :: "'a vl_queue \<Rightarrow> 'a list" where
  "queue_contents q =
     (if queue_head q = VL_POOL_INVALID_IDX then []
      else the (queue_walk (queue_nodes q) (queue_head q) (queue_tail q)))"

lemma queue_walk_chain:
  "qchain (vlPoolSample p) (x # xs) \<Longrightarrow> distinct (x # xs) \<Longrightarrow>
   queue_walk p x (last_or xs x) = Some (qdata (vlPoolSample p) (x # xs))"
proof (induction xs arbitrary: x)
  case Nil
  then show ?case by (subst queue_walk.simps) (auto simp: qdata_def)
next
  case (Cons y ys)
  then have "last_or ys y \<noteq> x"
    using last_or_cases [of ys y] by auto
  with Cons show ?case by (subst queue_walk.simps) (auto simp: qdata_def)
qed

lemma queue_rep_not_invalid: "queue_rep q xs \<Longrightarrow> VL_POOL_INVALID_IDX \<notin> set xs"
  using INVALID_not_live [of "queue_nodes q"] by (auto simp: queue_rep_def)

lemma queue_contents_rep:
  assumes "queue_rep q xs"
  shows "queue_contents q = qdata (vlPoolSample (queue_nodes q)) xs"
proof (cases xs)
  case Nil
  then show ?thesis using assms by (simp add: queue_contents_def queue_rep_def qdata_def)
next
  case (Cons y ys)
  have "queue_head q = y" "queue_tail q = last_or ys y"
    using assms Cons by (simp_all add: queue_rep_def)
  moreover have "y \<noteq> VL_POOL_INVALID_IDX" using queue_rep_not_invalid [OF assms] Cons by auto
  moreover have "queue_walk (queue_nodes q) y (last_or ys y) =
      Some (qdata (vlPoolSample (queue_nodes q)) (y # ys))"
    by (rule queue_walk_chain) (use assms Cons in \<open>simp_all only: queue_rep_def\<close>)
  ultimately show ?thesis using Cons by (simp add: queue_contents_def)
qed

section \<open>Push and pop\<close>

lemma vlQueuePushBack_rep:
  assumes rep: "queue_rep q xs" and ready: "pool_ready (queue_nodes q)"
  obtains q' i where "vlQueuePushBack q x = Some q'" "queue_rep q' (xs @ [i])"
    "queue_contents q' = queue_contents q @ [x]"
    "pool_room (queue_nodes q) - 1 \<le> pool_room (queue_nodes q')"
    "\<And>n. pool_can_return (queue_nodes q) n \<Longrightarrow> pool_can_return (queue_nodes q') n"
    "queue_totalElements q' = queue_totalElements q"
proof -
  let ?p = "queue_nodes q" and ?N = VL_POOL_INVALID_IDX
  have inv: "pool_inv ?p" and live: "pool_live ?p = set xs" and dist: "distinct xs"
    and chain: "qchain (vlPoolSample ?p) xs"
    and head: "queue_head q = hd_or xs ?N" and tail: "queue_tail q = last_or xs ?N"
    using rep by (simp_all add: queue_rep_def)
  note N = queue_rep_not_invalid [OF rep]
  obtain i p1 p2 where t: "vlPoolTake ?p = Some (i, p1)"
    "vlPoolStore p1 i \<lparr>queue_header = i, queue_data = x\<rparr> = Some p2" "pool_inv p2" "i \<notin> set xs"
    "i \<noteq> ?N" "pool_live p2 = insert i (set xs)"
    "vlPoolSample p2 i = Some \<lparr>queue_header = i, queue_data = x\<rparr>"
    and same: "\<And>j. j \<in> set xs \<Longrightarrow> vlPoolSample p2 j = vlPoolSample ?p j"
    and room: "pool_room ?p - 1 \<le> pool_room p2"
    and can: "\<And>n. pool_can_return ?p n \<Longrightarrow> pool_can_return p2 n"
    using slots.take_store [OF inv ready, of "\<lambda>i. \<lparr>queue_header = i, queue_data = x\<rparr>", unfolded live]
    by blast
  show thesis
  proof (cases xs rule: rev_cases)
    case Nil
    define q' where "q' = q\<lparr>queue_nodes := p2, queue_head := i, queue_tail := i\<rparr>"
    have "vlQueuePushBack q x = Some q'"
      using t(1,2) Nil head tail by (simp add: vlQueuePushBack_def Let_def q'_def)
    moreover have rep': "queue_rep q' ([] @ [i])"
      using t Nil by (simp add: queue_rep_def q'_def)
    moreover have "queue_contents q' = queue_contents q @ [x]"
      unfolding queue_contents_rep [OF rep'] queue_contents_rep [OF rep]
      using t Nil by (simp add: qdata_def q'_def)
    ultimately show thesis using room can by (intro that [of q' i]) (simp_all add: Nil q'_def)
  next
    case (snoc ys y)
    obtain w where w: "vlPoolSample p2 y = Some w" "vlPoolSample ?p y = Some w"
    proof -
      have "\<exists>w. vlPoolSample ?p y = Some w" using chain unfolding snoc by (induction ys) auto
      then show thesis using same [of y] snoc that by auto
    qed
    have "y \<in> pool_live p2" using t(6) snoc by simp
    then obtain p3 where p3: "vlPoolModify p2 y (\<lambda>v. v\<lparr>queue_header := i\<rparr>) = Some p3"
      "pool_inv p3" "pool_live p3 = pool_live p2"
      "vlPoolSample p3 = (vlPoolSample p2)(y := Some (w\<lparr>queue_header := i\<rparr>))"
      "pool_room p3 = pool_room p2" "pool_can_return p3 = pool_can_return p2"
      by (rule vlPoolModify_live [OF t(3) _ w(1)])
    define q' where "q' = q\<lparr>queue_nodes := p3, queue_tail := i\<rparr>"
    have ne: "queue_tail q \<noteq> ?N" "queue_head q \<noteq> ?N" "queue_tail q = y"
    proof -
      have "hd_or xs ?N \<in> set xs" using snoc by (intro hd_or_in) simp
      then show "queue_head q \<noteq> ?N" using N head by metis
      show "queue_tail q \<noteq> ?N" "queue_tail q = y" using N snoc tail by auto
    qed
    have "vlQueuePushBack q x = Some q'"
      using t(1,2) p3(1) ne by (simp add: vlQueuePushBack_def Let_def q'_def)
    moreover have rep': "queue_rep q' (xs @ [i])"
    proof -
      have "qchain (vlPoolSample p3) (ys @ [y, i])"
        by (rule qchain_snoc [of "vlPoolSample ?p" _ _ _ _ x])
          (use chain dist snoc t(4,7) w p3(4) same in auto)
      then show ?thesis
        using t p3 dist head snoc by (auto simp: queue_rep_def q'_def)
    qed
    moreover have "queue_contents q' = queue_contents q @ [x]"
      unfolding queue_contents_rep [OF rep'] queue_contents_rep [OF rep]
      using t(4,7) p3(4) same w by (auto simp: qdata_def q'_def)
    ultimately show thesis using room can p3(5,6) by (intro that [of q' i]) (simp_all add: q'_def)
  qed
qed

lemma vlQueuePopFront_rep:
  assumes rep: "queue_rep q (i # xs)" and can: "pool_can_return (queue_nodes q) (Suc n)"
  obtains q' where "vlQueuePopFront q = Some (Some (hd (queue_contents q)), q')" "queue_rep q' xs"
    "queue_contents q' = tl (queue_contents q)" "pool_can_return (queue_nodes q') n"
    "pool_room (queue_nodes q') = pool_room (queue_nodes q) + 1"
    "queue_totalElements q' = queue_totalElements q"
proof -
  let ?p = "queue_nodes q" and ?N = VL_POOL_INVALID_IDX
  have inv: "pool_inv ?p" and live: "pool_live ?p = insert i (set xs)" and dist: "distinct (i # xs)"
    and chain: "qchain (vlPoolSample ?p) xs" and head: "queue_head q = i"
    and tail: "queue_tail q = last_or xs i"
    using rep by (simp_all add: queue_rep_def)
  obtain v where v: "vlPoolSample ?p i = Some \<lparr>queue_header = hd_or xs i, queue_data = v\<rparr>"
    using rep by (auto simp: queue_rep_def)
  have N: "i \<noteq> ?N" "?N \<notin> set xs" using queue_rep_not_invalid [OF rep] by auto
  obtain p' where p': "vlPoolReturn ?p i = Some p'" "pool_inv p'" "pool_live p' = pool_live ?p - {i}"
    and same: "\<And>j. j \<in> pool_live ?p \<Longrightarrow> j \<noteq> i \<Longrightarrow> vlPoolSample p' j = vlPoolSample ?p j"
    and room: "pool_room p' = pool_room ?p + 1" and can': "pool_can_return p' n"
    using slots.give_back [OF inv _ can, of i] live by (metis insertI1)
  define q' where "q' = q\<lparr>queue_head := hd_or xs ?N, queue_tail := last_or xs ?N, queue_nodes := p'\<rparr>"
  have hd: "hd (queue_contents q) = v"
    using v by (simp add: queue_contents_rep [OF rep] qdata_def)
  have pop: "vlQueuePopFront q = Some (Some (hd (queue_contents q)), q')"
  proof (cases xs)
    case Nil
    then show ?thesis
      using head tail v p'(1) N by (simp add: vlQueuePopFront_def Let_def q'_def hd)
  next
    case (Cons y ys)
    then have "last_or ys y \<noteq> i" using dist last_or_cases [of ys y] by auto
    moreover have "q\<lparr>queue_head := y, queue_nodes := p'\<rparr> = q'"
      using Cons tail by (simp add: q'_def)
    ultimately show ?thesis
      using head tail v p'(1) N Cons by (auto simp: vlQueuePopFront_def Let_def hd)
  qed
  have same': "vlPoolSample p' j = vlPoolSample ?p j" if "j \<in> set xs" for j
    using that dist live by (intro same) auto
  have rep': "queue_rep q' xs"
    using p' dist live chain qchain_cong [of xs "vlPoolSample p'" "vlPoolSample ?p"] same'
    by (auto simp: queue_rep_def q'_def)
  have "queue_contents q' = tl (queue_contents q)"
    unfolding queue_contents_rep [OF rep'] queue_contents_rep [OF rep]
    using same' by (simp add: qdata_def q'_def)
  then show thesis using that [OF pop rep'] can' room by (simp add: q'_def)
qed

lemma vlQueuePopFront_empty: "queue_rep q [] \<Longrightarrow> vlQueuePopFront q = Some (None, q)"
  by (simp add: vlQueuePopFront_def queue_rep_def)

interpretation queue_fifo: fifo_container vlQueuePushBack vlQueuePopFront queue_contents queue_inv
  "\<lambda>q. pool_ready (queue_nodes q)" "\<lambda>q. pool_room (queue_nodes q)"
  "\<lambda>q. pool_can_return (queue_nodes q)"
proof
  fix q :: "'a vl_queue" and x xs n
  show "\<exists>q'. vlQueuePushBack q x = Some q' \<and> queue_inv q' \<and> queue_contents q' = queue_contents q @ [x] \<and>
      pool_room (queue_nodes q) - 1 \<le> pool_room (queue_nodes q') \<and>
      (\<forall>n. pool_can_return (queue_nodes q) n \<longrightarrow> pool_can_return (queue_nodes q') n)"
    if inv: "queue_inv q" and ready: "pool_ready (queue_nodes q)"
  proof -
    obtain xs where "queue_rep q xs" using inv by (auto simp: queue_inv_def)
    from this ready show ?thesis
      by (rule vlQueuePushBack_rep [where x = x]) (auto simp: queue_inv_def)
  qed
  show "pool_ready (queue_nodes q)" if "0 < pool_room (queue_nodes q)"
    using that by (rule slots.room_ready)
  show "vlQueuePopFront q = Some (None, q)" if inv: "queue_inv q" and nil: "queue_contents q = []"
  proof -
    obtain xs where rep: "queue_rep q xs" using inv by (auto simp: queue_inv_def)
    then have "xs = []" using nil queue_contents_rep [OF rep] by (simp add: qdata_def)
    with rep show ?thesis using vlQueuePopFront_empty by blast
  qed
  show "\<exists>q'. vlQueuePopFront q = Some (Some x, q') \<and> queue_inv q' \<and> queue_contents q' = xs \<and>
      pool_can_return (queue_nodes q') n"
    if inv: "queue_inv q" and c: "queue_contents q = x # xs"
      and can: "pool_can_return (queue_nodes q) (Suc n)"
  proof -
    obtain js where rep: "queue_rep q js" using inv by (auto simp: queue_inv_def)
    then obtain i ks where "js = i # ks"
      using c queue_contents_rep [OF rep] by (cases js) (auto simp: qdata_def)
    with rep have "queue_rep q (i # ks)" by simp
    from this can show ?thesis
      by (rule vlQueuePopFront_rep) (use c in \<open>auto simp: queue_inv_def\<close>)
  qed
qed

section \<open>Initialising, clearing, cloning and reserving\<close>

lemma vlQueueInit_ok:
  assumes "\<forall>b < 2 ^ 20. ok b" and "esize + 8 < 2 ^ 15"
  obtains q E where "vlQueueInit ok junk esize = Some q" "queue_rep q []"
    "queue_nodes q = fresh_pool ok E 8" "E < 2 ^ 16"
proof -
  have u: "u16_of (esize + 8) = esize + 8" using assms(2) by (simp add: u16_of_def)
  obtain E where E: "vlPoolInit ok (esize + 8) = Some (fresh_pool ok E 8 :: 'a vl_queue_node vl_pool)"
    "0 < E" "E < 2 ^ 16"
    by (rule vlPoolInit_ok [OF assms(1), of "esize + 8"]) (use assms(2) in auto)
  let ?q = "\<lparr>queue_nodes = fresh_pool ok E 8, queue_totalElements = junk, queue_elementSize = esize,
    queue_head = VL_POOL_INVALID_IDX, queue_tail = VL_POOL_INVALID_IDX\<rparr> :: 'a vl_queue"
  have "vlQueueInit ok junk esize = Some ?q" by (simp add: vlQueueInit_def u E(1))
  moreover have "queue_rep ?q []" using fresh_pool_props [OF E(2), where 'a = "'a vl_queue_node"] by (simp add: queue_rep_def)
  ultimately show thesis using E(3) by (intro that [of ?q E]) simp_all
qed

lemma queue_rep_inv: "queue_rep q xs \<Longrightarrow> queue_inv q"
  by (auto simp: queue_inv_def)

lemma vlQueueClear_ok:
  assumes "queue_inv q"
  obtains q' where "vlQueueClear q = Some q'" "queue_inv q'" "queue_contents q' = []"
    "pool_room (queue_nodes q') = pool_capacity (queue_nodes q)"
proof -
  obtain xs where rep: "queue_rep q xs" using assms by (auto simp: queue_inv_def)
  then have "pool_inv (queue_nodes q)" by (simp add: queue_rep_def)
  then obtain p where p: "vlPoolClear (queue_nodes q) = Some p" "pool_inv p" "pool_live p = {}"
    "pool_room p = pool_capacity (queue_nodes q)"
    by (rule vlPoolClear_ok)
  let ?q = "q\<lparr>queue_nodes := p, queue_head := VL_POOL_INVALID_IDX, queue_tail := VL_POOL_INVALID_IDX\<rparr>"
  have rep': "queue_rep ?q []" using p by (simp add: queue_rep_def)
  show thesis
    using that [of ?q] p queue_rep_inv [OF rep'] queue_contents_rep [OF rep']
    by (auto simp: vlQueueClear_def qdata_def)
qed

lemma vlQueueReserve_ok:
  assumes "queue_inv q" and "pool_can_reserve (queue_nodes q) n"
  obtains q' where "vlQueueReserve q n = Some q'" "queue_inv q'" "queue_contents q' = queue_contents q"
    "n \<le> pool_room (queue_nodes q')"
    "\<And>m. pool_can_return (queue_nodes q) m \<Longrightarrow> pool_can_return (queue_nodes q') m"
proof -
  obtain xs where rep: "queue_rep q xs" using assms by (auto simp: queue_inv_def)
  then have inv: "pool_inv (queue_nodes q)" by (simp add: queue_rep_def)
  obtain p where p: "vlPoolReserve (queue_nodes q) n = Some p" "pool_inv p"
    "pool_live p = pool_live (queue_nodes q)" "n \<le> pool_room p"
    "\<forall>j \<in> pool_live (queue_nodes q). vlPoolSample p j = vlPoolSample (queue_nodes q) j"
    "\<forall>m. pool_can_return (queue_nodes q) m \<longrightarrow> pool_can_return p m"
    using vlPoolReserve_ok [OF inv assms(2)] by blast
  let ?q = "q\<lparr>queue_nodes := p\<rparr>"
  have same: "vlPoolSample p j = vlPoolSample (queue_nodes q) j" if "j \<in> set xs" for j
    using p(5) that rep by (simp add: queue_rep_def)
  have rep': "queue_rep ?q xs"
    using rep p qchain_cong [of xs "vlPoolSample p" "vlPoolSample (queue_nodes q)"] same
    by (simp add: queue_rep_def)
  have "queue_contents ?q = queue_contents q"
    unfolding queue_contents_rep [OF rep] queue_contents_rep [OF rep']
    using qdata_cong [of xs "vlPoolSample p" "vlPoolSample (queue_nodes q)"] same by simp
  then show thesis
    using that [of ?q] p queue_rep_inv [OF rep'] by (auto simp: vlQueueReserve_def)
qed

section \<open>Properties of the queue\<close>

text \<open>
  C12. After \<^verbatim>\<open>vlQueueReserve\<close> for the elements of a list, pushing them all succeeds, and
  popping the queue empty then yields first what it held and then the list, in order: a
  queue is first-in first-out, and no operation on the way is undefined.
\<close>

theorem queue_fifo_order:
  assumes "queue_inv q" and "pool_can_reserve (queue_nodes q) (length xs)"
    and "pool_can_return (queue_nodes q) (length (queue_contents q) + length xs)"
  shows "\<exists>q0 q1 q2. vlQueueReserve q (length xs) = Some q0 \<and>
    push_all vlQueuePushBack q0 xs = Some q1 \<and>
    pop_many vlQueuePopFront (length (queue_contents q) + length xs) q1 =
      Some (map Some (queue_contents q @ xs), q2) \<and>
    queue_inv q2 \<and> queue_contents q2 = []"
proof -
  obtain q0 where q0: "vlQueueReserve q (length xs) = Some q0" "queue_inv q0"
    "queue_contents q0 = queue_contents q" "length xs \<le> pool_room (queue_nodes q0)"
    "pool_can_return (queue_nodes q0) (length (queue_contents q) + length xs)"
    using assms by (auto intro: vlQueueReserve_ok)
  then show ?thesis using queue_fifo.push_all_pop_many [OF q0(2,4)] by simp
qed

theorem queue_fifo_order_witness:
  "\<exists>q q0 q1 q2. vlQueueInit (\<lambda>_. True) 0 4 = Some q \<and> vlQueueReserve q 3 = Some q0 \<and>
    push_all vlQueuePushBack q0 [1, 2, 3 :: nat] = Some q1 \<and>
    pop_many vlQueuePopFront 3 q1 = Some ([Some 1, Some 2, Some 3], q2)"
proof -
  obtain q :: "nat vl_queue" and E where q: "vlQueueInit (\<lambda>_. True) 0 4 = Some q" "queue_rep q []"
    "queue_nodes q = fresh_pool (\<lambda>_. True) E 8" "E < 2 ^ 16"
    by (rule vlQueueInit_ok [of "\<lambda>_. True" 4 0]) auto
  have c: "queue_contents q = []" using queue_contents_rep [OF q(2)] by (simp add: qdata_def)
  have inv: "queue_inv q" using q(2) by (rule queue_rep_inv)
  have "pool_can_reserve (queue_nodes q) (length [1, 2, 3 :: nat])"
    "pool_can_return (queue_nodes q) (length (queue_contents q) + length [1, 2, 3 :: nat])"
    unfolding q(3) c by (rule fresh_pool_can [OF _ q(4)]; simp)+
  from queue_fifo_order [OF inv this] show ?thesis
    using q(1) by (auto simp: numeral_3_eq_3 c)
qed

text \<open>
  \<^verbatim>\<open>vlQueuePushBack\<close> appends to the contents and \<^verbatim>\<open>vlQueuePopFront\<close> removes their first
  element and reports it, or reports that there is none: the pool-based queue refines the
  list of its elements.
\<close>

theorem queue_refines_list:
  assumes "queue_inv q"
  shows "(pool_ready (queue_nodes q) \<longrightarrow>
      (\<exists>q'. vlQueuePushBack q x = Some q' \<and> queue_inv q' \<and> queue_contents q' = queue_contents q @ [x])) \<and>
    (pool_can_return (queue_nodes q) 1 \<longrightarrow>
      (\<exists>q'. vlQueuePopFront q = Some (if queue_contents q = [] then None else Some (hd (queue_contents q)), q') \<and>
        queue_inv q' \<and> queue_contents q' = tl (queue_contents q)))"
proof (intro conjI impI)
  assume "pool_ready (queue_nodes q)"
  from queue_fifo.push_ok [OF assms this, of x]
  show "\<exists>q'. vlQueuePushBack q x = Some q' \<and> queue_inv q' \<and>
      queue_contents q' = queue_contents q @ [x]"
    by blast
next
  assume "pool_can_return (queue_nodes q) 1"
  then show "\<exists>q'. vlQueuePopFront q =
      Some (if queue_contents q = [] then None else Some (hd (queue_contents q)), q') \<and>
      queue_inv q' \<and> queue_contents q' = tl (queue_contents q)"
    using queue_fifo.pop_empty [OF assms] queue_fifo.pop_ok [OF assms, of _ _ 0] assms
    by (cases "queue_contents q") force+
qed

theorem queue_refines_list_witness:
  "\<exists>q q1. vlQueueInit (\<lambda>_. True) 0 4 = Some q \<and> vlQueuePushBack q (7 :: nat) = Some q1 \<and>
    queue_contents q1 = [7] \<and> vlQueuePopFront q = Some (None, q)"
proof -
  obtain q :: "nat vl_queue" and E where q: "vlQueueInit (\<lambda>_. True) 0 4 = Some q" "queue_rep q []"
    "queue_nodes q = fresh_pool (\<lambda>_. True) E 8" "E < 2 ^ 16"
    by (rule vlQueueInit_ok [of "\<lambda>_. True" 4 0]) auto
  have c: "queue_contents q = []" using queue_contents_rep [OF q(2)] by (simp add: qdata_def)
  have inv: "queue_inv q" using q(2) by (rule queue_rep_inv)
  have "pool_ready (queue_nodes q)" "pool_can_return (queue_nodes q) 1"
    unfolding q(3) by (simp_all add: pool_ready_def pool_room_def pool_can_return_def fresh_pool_def
        node_at_def)
  with queue_refines_list [OF inv, of 7] show ?thesis
    using q(1) c vlQueuePopFront_empty [OF q(2)] by auto
qed

text \<open>
  \<^verbatim>\<open>vlQueueClone\<close> into a queue whose table is as large as the source's gives a queue with
  the same elements in the same order, whatever the destination held before.
\<close>

theorem queue_clone_same:
  assumes "queue_inv src" and "queue_inv d" and "\<forall>b. ok b" and "mallocOk (queue_nodes d) = ok"
    and "lookupCapacity (queue_nodes d) = lookupCapacity (queue_nodes src)"
  shows "\<exists>q. vlQueueClone ok junk src (Some d) = Some q \<and> queue_inv q \<and>
    queue_contents q = queue_contents src"
proof -
  obtain xs where rep: "queue_rep src xs" using assms(1) by (auto simp: queue_inv_def)
  then have src: "pool_inv (queue_nodes src)" by (simp add: queue_rep_def)
  have "pool_inv (queue_nodes d)" using assms(2) by (auto simp: queue_inv_def queue_rep_def)
  note cl = vlPoolClone_some [OF src assms(3) this assms(5,4)]
  define c where "c = max (freeCapacity (queue_nodes d)) (freeCapacity (queue_nodes src))"
  note same = clone_same [OF src, of c ok]
  let ?p = "queue_nodes src\<lparr>freeCapacity := c, mallocOk := ok\<rparr>"
  let ?q = "d\<lparr>queue_nodes := ?p, queue_head := queue_head src, queue_tail := queue_tail src,
    queue_elementSize := queue_elementSize src\<rparr>"
  have rep': "queue_rep ?q xs"
    using rep same by (simp add: queue_rep_def c_def)
  have "queue_contents ?q = queue_contents src"
    unfolding queue_contents_rep [OF rep] queue_contents_rep [OF rep']
    using same(3) by (simp add: c_def)
  then show ?thesis
    using cl queue_rep_inv [OF rep'] by (auto simp: vlQueueClone_def c_def)
qed

theorem queue_clone_same_witness:
  "\<exists>q r. vlQueueInit (\<lambda>_. True) 0 4 = Some q \<and>
    vlQueueClone (\<lambda>_. True) 0 q (Some q) = Some (r :: nat vl_queue) \<and> queue_contents r = queue_contents q"
proof -
  obtain q :: "nat vl_queue" and E where q: "vlQueueInit (\<lambda>_. True) 0 4 = Some q" "queue_rep q []"
    "queue_nodes q = fresh_pool (\<lambda>_. True) E 8" "E < 2 ^ 16"
    by (rule vlQueueInit_ok [of "\<lambda>_. True" 4 0]) auto
  have "queue_inv q" using q(2) by (rule queue_rep_inv)
  from queue_clone_same [OF this this, of "\<lambda>_. True" 0] show ?thesis
    using q(1,3) by (auto simp: fresh_pool_def)
qed

text \<open>
  \<^verbatim>\<open>vlQueueSize\<close> does not count the elements: neither a push nor a pop changes the field
  it reads.
\<close>

theorem queue_size_never_changes:
  "(\<forall>x q'. vlQueuePushBack q x = Some q' \<longrightarrow> vlQueueSize q' = vlQueueSize q) \<and>
   (\<forall>r q'. vlQueuePopFront q = Some (r, q') \<longrightarrow> vlQueueSize q' = vlQueueSize q)"
  by (auto simp: vlQueueSize_def vlQueuePushBack_def vlQueuePopFront_def Let_def
      bind_eq_Some_conv split: if_splits prod.splits)

theorem queue_size_never_changes_witness:
  "\<exists>q q1. vlQueueInit (\<lambda>_. True) 99 4 = Some q \<and> vlQueuePushBack q (7 :: nat) = Some q1 \<and>
    vlQueueSize q1 = 99"
proof -
  obtain q :: "nat vl_queue" and E where q: "vlQueueInit (\<lambda>_. True) 99 4 = Some q" "queue_rep q []"
    "queue_nodes q = fresh_pool (\<lambda>_. True) E 8" "E < 2 ^ 16"
    by (rule vlQueueInit_ok [of "\<lambda>_. True" 4 99]) auto
  have "vlQueueSize q = 99" using q(1) by (auto simp: vlQueueInit_def vlQueueSize_def bind_eq_Some_conv)
  moreover have "pool_ready (queue_nodes q)"
    unfolding q(3) by (simp add: pool_ready_def pool_room_def fresh_pool_def node_at_def)
  then obtain q1 where "vlQueuePushBack q 7 = Some q1"
    using queue_fifo.push_ok [OF queue_rep_inv [OF q(2)], of 7] by auto
  moreover from this have "vlQueueSize q1 = vlQueueSize q"
    using queue_size_never_changes [of q] by blast
  ultimately show ?thesis using q(1) by auto
qed

end
