(* ===== verification/VL_Chain.thy ===== *)
theory VL_Chain
  imports VL_Pool
begin

text \<open>
  Doubly linked chains of pool slots, as \<^verbatim>\<open>vl_deque.c\<close> and \<^verbatim>\<open>vl_linked_list.c\<close> build them:
  the node header both files declare, segments of a chain, and what linking a node in and
  taking one out do to the whole chain.
\<close>

section \<open>Nodes and segments\<close>

text \<open>The structs \<^verbatim>\<open>vl_deque_node\<close> and \<^verbatim>\<open>vl_linked_list_node\<close>, with the element after them.\<close>

record 'a link_node =
  node_prev :: vl_pool_idx
  node_next :: vl_pool_idx
  node_data :: 'a

type_synonym 'a link_mem = "vl_pool_idx \<Rightarrow> 'a link_node option"

text \<open>
  \<^term>\<open>seg m pv xs nx\<close>: under the memory \<open>m\<close> the nodes \<open>xs\<close> are linked in this order, the
  first one back to \<open>pv\<close> and the last one on to \<open>nx\<close>.
\<close>

fun seg :: "'a link_mem \<Rightarrow> vl_pool_idx \<Rightarrow> vl_pool_idx list \<Rightarrow> vl_pool_idx \<Rightarrow> bool" where
  "seg m pv [] nx = True"
| "seg m pv (x # xs) nx =
     ((\<exists>v. m x = Some \<lparr>node_prev = pv, node_next = hd_or xs nx, node_data = v\<rparr>) \<and> seg m x xs nx)"

definition seg_data :: "'a link_mem \<Rightarrow> vl_pool_idx list \<Rightarrow> 'a list" where
  "seg_data m xs = map (\<lambda>x. node_data (the (m x))) xs"

lemma seg_data_simps [simp]:
  "seg_data m [] = []"
  "seg_data m (x # xs) = node_data (the (m x)) # seg_data m xs"
  "seg_data m (xs @ ys) = seg_data m xs @ seg_data m ys"
  "length (seg_data m xs) = length xs"
  by (simp_all add: seg_data_def)

lemma seg_append [simp]:
  "seg m pv (xs @ ys) nx \<longleftrightarrow> seg m pv xs (hd_or ys nx) \<and> seg m (last_or xs pv) ys nx"
  by (induction xs arbitrary: pv) auto

lemma seg_cong: "(\<And>x. x \<in> set xs \<Longrightarrow> m x = m' x) \<Longrightarrow> seg m pv xs nx = seg m' pv xs nx"
  by (induction xs arbitrary: pv) auto

lemma seg_data_cong: "(\<And>x. x \<in> set xs \<Longrightarrow> m x = m' x) \<Longrightarrow> seg_data m xs = seg_data m' xs"
  by (simp add: seg_data_def)

lemma seg_upd_other [simp]: "x \<notin> set xs \<Longrightarrow> seg (m(x := n)) pv xs nx = seg m pv xs nx"
  by (rule seg_cong) auto

lemma seg_data_upd_other [simp]: "x \<notin> set xs \<Longrightarrow> seg_data (m(x := n)) xs = seg_data m xs"
  by (rule seg_data_cong) auto

lemma seg_sample: "seg m pv xs nx \<Longrightarrow> x \<in> set xs \<Longrightarrow> \<exists>n. m x = Some n"
  by (induction xs arbitrary: pv) auto

section \<open>Changing the ends of a segment\<close>

definition relink_next :: "'a link_mem \<Rightarrow> vl_pool_idx list \<Rightarrow> vl_pool_idx \<Rightarrow> 'a link_mem" where
  "relink_next m xs n =
     (if xs = [] then m else m(last xs := map_option (\<lambda>v. v\<lparr>node_next := n\<rparr>) (m (last xs))))"

definition relink_prev :: "'a link_mem \<Rightarrow> vl_pool_idx list \<Rightarrow> vl_pool_idx \<Rightarrow> 'a link_mem" where
  "relink_prev m xs n =
     (if xs = [] then m else m(hd xs := map_option (\<lambda>v. v\<lparr>node_prev := n\<rparr>) (m (hd xs))))"

lemma relink_other [simp]:
  "i \<notin> set xs \<Longrightarrow> relink_next m xs n i = m i"
  "i \<notin> set xs \<Longrightarrow> relink_prev m xs n i = m i"
  by (auto simp: relink_next_def relink_prev_def)

lemma seg_relink_next:
  "seg m pv xs nx \<Longrightarrow> distinct xs \<Longrightarrow> seg (relink_next m xs n) pv xs n"
  by (cases xs rule: rev_cases) (auto simp: relink_next_def)

lemma seg_relink_prev:
  "seg m pv xs nx \<Longrightarrow> distinct xs \<Longrightarrow> seg (relink_prev m xs n) n xs nx"
  by (cases xs) (auto simp: relink_prev_def)

lemma seg_relink_disjoint [simp]:
  assumes "set xs \<inter> set ys = {}"
  shows "seg (relink_next m xs n) pv ys nx = seg m pv ys nx"
    and "seg (relink_prev m xs n) pv ys nx = seg m pv ys nx"
  using assms by (auto intro!: seg_cong relink_other)

lemma seg_data_relink [simp]:
  assumes "\<And>x. x \<in> set ys \<Longrightarrow> \<exists>v. m x = Some v"
  shows "seg_data (relink_next m xs n) ys = seg_data m ys"
    and "seg_data (relink_prev m xs n) ys = seg_data m ys"
  using assms by (fastforce simp: seg_data_def relink_next_def relink_prev_def)+

text \<open>Both changes, carried out on the slots of a pool.\<close>

lemma modify_next_ok:
  assumes inv: "pool_inv p" and sub: "set xs \<subseteq> pool_live p" and xs: "xs \<noteq> []"
    and seg: "seg (vlPoolSample p) pv xs nx"
  obtains p' where "vlPoolModify p (last xs) (\<lambda>v. v\<lparr>node_next := n\<rparr>) = Some p'" "pool_inv p'"
    "pool_live p' = pool_live p" "vlPoolSample p' = relink_next (vlPoolSample p) xs n"
    "pool_room p' = pool_room p" "pool_ready p' = pool_ready p" "pool_can_return p' = pool_can_return p"
proof -
  obtain v where v: "vlPoolSample p (last xs) = Some v"
    using seg_sample [OF seg, of "last xs"] xs by auto
  have "last xs \<in> pool_live p" using sub xs by auto
  then obtain p' where p': "vlPoolModify p (last xs) (\<lambda>v. v\<lparr>node_next := n\<rparr>) = Some p'" "pool_inv p'"
    "pool_live p' = pool_live p" "vlPoolSample p' = (vlPoolSample p)(last xs := Some (v\<lparr>node_next := n\<rparr>))"
    "pool_room p' = pool_room p" "pool_ready p' = pool_ready p" "pool_can_return p' = pool_can_return p"
    by (rule vlPoolModify_live [OF inv _ v])
  show thesis by (rule that [OF p'(1-3) _ p'(5-7)]) (simp add: p'(4) relink_next_def xs v)
qed

lemma modify_prev_ok:
  assumes inv: "pool_inv p" and sub: "set xs \<subseteq> pool_live p" and xs: "xs \<noteq> []"
    and seg: "seg (vlPoolSample p) pv xs nx"
  obtains p' where "vlPoolModify p (hd xs) (\<lambda>v. v\<lparr>node_prev := n\<rparr>) = Some p'" "pool_inv p'"
    "pool_live p' = pool_live p" "vlPoolSample p' = relink_prev (vlPoolSample p) xs n"
    "pool_room p' = pool_room p" "pool_ready p' = pool_ready p" "pool_can_return p' = pool_can_return p"
proof -
  obtain v where v: "vlPoolSample p (hd xs) = Some v"
    using seg_sample [OF seg, of "hd xs"] xs by auto
  have "hd xs \<in> pool_live p" using sub xs by auto
  then obtain p' where p': "vlPoolModify p (hd xs) (\<lambda>v. v\<lparr>node_prev := n\<rparr>) = Some p'" "pool_inv p'"
    "pool_live p' = pool_live p" "vlPoolSample p' = (vlPoolSample p)(hd xs := Some (v\<lparr>node_prev := n\<rparr>))"
    "pool_room p' = pool_room p" "pool_ready p' = pool_ready p" "pool_can_return p' = pool_can_return p"
    by (rule vlPoolModify_live [OF inv _ v])
  show thesis by (rule that [OF p'(1-3) _ p'(5-7)]) (simp add: p'(4) relink_prev_def xs v)
qed

text \<open>
  The steps of an operation: the last node of \<open>xs\<close> gets a new successor, the first node of
  \<open>ys\<close> a new predecessor, and nothing happens at an empty end.
\<close>

definition set_next :: "'a link_node vl_pool \<Rightarrow> vl_pool_idx list \<Rightarrow> vl_pool_idx \<Rightarrow> 'a link_node vl_pool option" where
  "set_next p xs n = (if xs = [] then Some p else vlPoolModify p (last xs) (\<lambda>v. v\<lparr>node_next := n\<rparr>))"

definition set_prev :: "'a link_node vl_pool \<Rightarrow> vl_pool_idx list \<Rightarrow> vl_pool_idx \<Rightarrow> 'a link_node vl_pool option" where
  "set_prev p xs n = (if xs = [] then Some p else vlPoolModify p (hd xs) (\<lambda>v. v\<lparr>node_prev := n\<rparr>))"

lemma set_next_simps [simp]:
  "set_next p [] n = Some p"
  "set_next p (x # xs) n = vlPoolModify p (last_or xs x) (\<lambda>v. v\<lparr>node_next := n\<rparr>)"
  "set_next p (xs @ [x]) n = vlPoolModify p x (\<lambda>v. v\<lparr>node_next := n\<rparr>)"
  by (auto simp: set_next_def last_or_def)

lemma set_prev_simps [simp]:
  "set_prev p [] n = Some p"
  "set_prev p (x # xs) n = vlPoolModify p x (\<lambda>v. v\<lparr>node_prev := n\<rparr>)"
  by (auto simp: set_prev_def)

lemma set_next_ok:
  assumes "pool_inv p" and "set xs \<subseteq> pool_live p" and "seg (vlPoolSample p) pv xs nx"
  obtains p' where "set_next p xs n = Some p'" "pool_inv p'"
    "pool_live p' = pool_live p" "vlPoolSample p' = relink_next (vlPoolSample p) xs n"
    "pool_room p' = pool_room p" "pool_ready p' = pool_ready p" "pool_can_return p' = pool_can_return p"
proof (cases "xs = []")
  case True
  then show thesis using assms by (intro that [of p]) (simp_all add: relink_next_def)
next
  case False
  then show thesis
    using modify_next_ok [OF assms(1,2) _ assms(3), of n] that by (metis set_next_def)
qed

lemma set_prev_ok:
  assumes "pool_inv p" and "set xs \<subseteq> pool_live p" and "seg (vlPoolSample p) pv xs nx"
  obtains p' where "set_prev p xs n = Some p'" "pool_inv p'"
    "pool_live p' = pool_live p" "vlPoolSample p' = relink_prev (vlPoolSample p) xs n"
    "pool_room p' = pool_room p" "pool_ready p' = pool_ready p" "pool_can_return p' = pool_can_return p"
proof (cases "xs = []")
  case True
  then show thesis using assms by (intro that [of p]) (simp_all add: relink_prev_def)
next
  case False
  then show thesis
    using modify_prev_ok [OF assms(1,2) _ assms(3), of n] that by (metis set_prev_def)
qed

section \<open>Whole chains\<close>

text \<open>The nodes \<open>xs\<close> are exactly the slots in use, linked in this order.\<close>

definition chain :: "'a link_node vl_pool \<Rightarrow> vl_pool_idx list \<Rightarrow> bool" where
  "chain p xs \<longleftrightarrow>
     pool_inv p \<and> pool_live p = set xs \<and> distinct xs \<and>
     seg (vlPoolSample p) VL_POOL_INVALID_IDX xs VL_POOL_INVALID_IDX"

abbreviation chain_data :: "'a link_node vl_pool \<Rightarrow> vl_pool_idx list \<Rightarrow> 'a list" where
  "chain_data p \<equiv> seg_data (vlPoolSample p)"

lemma chainD:
  assumes "chain p xs"
  shows "pool_inv p" and "pool_live p = set xs" and "distinct xs"
    and "seg (vlPoolSample p) VL_POOL_INVALID_IDX xs VL_POOL_INVALID_IDX"
    and "VL_POOL_INVALID_IDX \<notin> set xs"
  using assms INVALID_not_live [of p] by (auto simp: chain_def)

lemma chain_ends:
  assumes "chain p xs"
  shows "hd_or xs VL_POOL_INVALID_IDX = VL_POOL_INVALID_IDX \<longleftrightarrow> xs = []"
    and "last_or xs VL_POOL_INVALID_IDX = VL_POOL_INVALID_IDX \<longleftrightarrow> xs = []"
    and "hd_or xs VL_POOL_INVALID_IDX = last_or xs VL_POOL_INVALID_IDX \<longleftrightarrow> length xs \<le> 1"
proof -
  note N = chainD(5) [OF assms]
  show "hd_or xs VL_POOL_INVALID_IDX = VL_POOL_INVALID_IDX \<longleftrightarrow> xs = []"
    "last_or xs VL_POOL_INVALID_IDX = VL_POOL_INVALID_IDX \<longleftrightarrow> xs = []"
    using N hd_or_in [of xs] last_or_in [of xs] by (metis hd_or_simps(1), metis last_or_simps(1))
  show "hd_or xs VL_POOL_INVALID_IDX = last_or xs VL_POOL_INVALID_IDX \<longleftrightarrow> length xs \<le> 1"
  proof (cases xs)
    case (Cons y ys)
    then show ?thesis using chainD(3) [OF assms] last_or_in [of ys y] by (cases ys) auto
  qed simp
qed

lemma chain_sample:
  assumes "chain p (xs @ x # ys)"
  shows "\<exists>w. vlPoolSample p x = Some \<lparr>node_prev = last_or xs VL_POOL_INVALID_IDX,
    node_next = hd_or ys VL_POOL_INVALID_IDX, node_data = w\<rparr>"
  using chainD(4) [OF assms] by auto

lemma chain_cong:
  assumes "chain p xs" and "pool_inv p'" and "pool_live p' = pool_live p"
    and "\<And>j. j \<in> pool_live p \<Longrightarrow> vlPoolSample p' j = vlPoolSample p j"
  shows "chain p' xs" and "chain_data p' xs = chain_data p xs"
proof -
  have eq: "vlPoolSample p' j = vlPoolSample p j" if "j \<in> set xs" for j
    using that assms(4) chainD(2) [OF assms(1)] by simp
  show "chain_data p' xs = chain_data p xs" by (rule seg_data_cong) (rule eq)
  show "chain p' xs"
    using assms seg_cong [of xs "vlPoolSample p'" "vlPoolSample p"] eq by (simp add: chain_def)
qed

section \<open>Linking a node in\<close>

lemma chain_insert:
  assumes ch: "chain p (xs @ ys)" and ready: "pool_ready p"
  obtains i p1 p2 p3 p4 where
    "vlPoolTake p = Some (i, p1)"
    "vlPoolStore p1 i \<lparr>node_prev = last_or xs VL_POOL_INVALID_IDX,
       node_next = hd_or ys VL_POOL_INVALID_IDX, node_data = v\<rparr> = Some p2"
    "set_next p2 xs i = Some p3" "set_prev p3 ys i = Some p4"
    "chain p4 (xs @ i # ys)" "chain_data p4 (xs @ i # ys) = chain_data p xs @ v # chain_data p ys"
    "i \<notin> set (xs @ ys)" "i \<noteq> VL_POOL_INVALID_IDX" "pool_room p - 1 \<le> pool_room p4"
    "\<And>n. pool_can_return p n \<Longrightarrow> pool_can_return p4 n"
proof -
  let ?N = VL_POOL_INVALID_IDX
  let ?n = "\<lparr>node_prev = last_or xs ?N, node_next = hd_or ys ?N, node_data = v\<rparr>"
  have live: "pool_live p = set (xs @ ys)" and dist: "distinct (xs @ ys)"
    and sg: "seg (vlPoolSample p) ?N (xs @ ys) ?N"
    using chainD [OF ch] by auto
  obtain i p1 p2 where t: "vlPoolTake p = Some (i, p1)" "vlPoolStore p1 i ?n = Some p2"
    "pool_inv p2" "i \<notin> set (xs @ ys)" "i \<noteq> ?N" "pool_live p2 = insert i (set (xs @ ys))"
    "vlPoolSample p2 i = Some ?n"
    and same: "\<And>j. j \<in> set (xs @ ys) \<Longrightarrow> vlPoolSample p2 j = vlPoolSample p j"
    and room: "pool_room p - 1 \<le> pool_room p2"
    and can: "\<And>n. pool_can_return p n \<Longrightarrow> pool_can_return p2 n"
    using slots.take_store [OF chainD(1) [OF ch] ready, of "\<lambda>_. ?n", unfolded live] by blast
  have "seg (vlPoolSample p2) ?N (xs @ ys) ?N = seg (vlPoolSample p) ?N (xs @ ys) ?N"
    by (rule seg_cong) (rule same)
  with sg have sg2: "seg (vlPoolSample p2) ?N xs (hd_or ys ?N)"
    "seg (vlPoolSample p2) (last_or xs ?N) ys ?N" by simp_all
  have dt: "chain_data p2 xs = chain_data p xs" "chain_data p2 ys = chain_data p ys"
    by (rule seg_data_cong, simp add: same)+
  obtain p3 where p3: "set_next p2 xs i = Some p3" "pool_inv p3" "pool_live p3 = pool_live p2"
    "vlPoolSample p3 = relink_next (vlPoolSample p2) xs i" "pool_room p3 = pool_room p2"
    "pool_can_return p3 = pool_can_return p2"
    by (rule set_next_ok [OF t(3) _ sg2(1), of i]) (use t(6) in auto)
  have disj: "set xs \<inter> set ys = {}" "set ys \<inter> set xs = {}" using dist by auto
  have sg3: "seg (vlPoolSample p3) ?N xs i" "seg (vlPoolSample p3) (last_or xs ?N) ys ?N"
    using sg2 dist disj by (simp_all add: p3(4) seg_relink_next)
  have smp2: "\<exists>w. vlPoolSample p2 x = Some w" if "x \<in> set (xs @ ys)" for x
    using that seg_sample [OF sg2(1)] seg_sample [OF sg2(2)] by auto
  obtain p4 where p4: "set_prev p3 ys i = Some p4" "pool_inv p4" "pool_live p4 = pool_live p3"
    "vlPoolSample p4 = relink_prev (vlPoolSample p3) ys i" "pool_room p4 = pool_room p3"
    "pool_can_return p4 = pool_can_return p3"
    by (rule set_prev_ok [OF p3(2) _ sg3(2), of i]) (use t(6) p3(3) in auto)
  have sg4: "seg (vlPoolSample p4) ?N xs i" "seg (vlPoolSample p4) i ys ?N"
    using sg3 dist disj by (simp_all add: p4(4) seg_relink_prev)
  have i4: "vlPoolSample p4 i = Some ?n" using t(4,7) by (simp add: p4(4) p3(4))
  have ch4: "chain p4 (xs @ i # ys)"
    unfolding chain_def using p4(2,3) p3(3) t(4,6) dist sg4 i4 by auto
  have "chain_data p4 xs = chain_data p xs" "chain_data p4 ys = chain_data p ys"
    using smp2 seg_sample [OF sg3(1)] seg_sample [OF sg3(2)] dt by (simp_all add: p4(4) p3(4))
  then show thesis
    using that [OF t(1,2) p3(1) p4(1) ch4 _ t(4,5)] room can p3(5,6) p4(5,6) i4 by simp
qed

section \<open>Taking a node out\<close>

lemma chain_delete:
  assumes ch: "chain p (xs @ i # ys)" and can: "pool_can_return p (Suc n)"
  obtains p1 p2 p3 where
    "set_next p xs (hd_or ys VL_POOL_INVALID_IDX) = Some p1"
    "set_prev p1 ys (last_or xs VL_POOL_INVALID_IDX) = Some p2"
    "vlPoolReturn p2 i = Some p3" "chain p3 (xs @ ys)"
    "chain_data p3 (xs @ ys) = chain_data p xs @ chain_data p ys"
    "pool_room p3 = pool_room p + 1" "pool_can_return p3 n"
proof -
  let ?N = VL_POOL_INVALID_IDX
  have inv: "pool_inv p" and live: "pool_live p = set (xs @ i # ys)" and dist: "distinct (xs @ i # ys)"
    and sg: "seg (vlPoolSample p) ?N xs i" "seg (vlPoolSample p) i ys ?N"
    using chainD [OF ch] by auto
  have disj: "set xs \<inter> set ys = {}" "set ys \<inter> set xs = {}" "i \<notin> set xs" "i \<notin> set ys"
    using dist by auto
  obtain p1 where p1: "set_next p xs (hd_or ys ?N) = Some p1" "pool_inv p1" "pool_live p1 = pool_live p"
    "vlPoolSample p1 = relink_next (vlPoolSample p) xs (hd_or ys ?N)" "pool_room p1 = pool_room p"
    "pool_can_return p1 = pool_can_return p"
    by (rule set_next_ok [OF inv _ sg(1), of "hd_or ys ?N"]) (use live in auto)
  have sg1: "seg (vlPoolSample p1) ?N xs (hd_or ys ?N)" "seg (vlPoolSample p1) i ys ?N"
    using sg dist disj by (simp_all add: p1(4) seg_relink_next)
  obtain p2 where p2: "set_prev p1 ys (last_or xs ?N) = Some p2" "pool_inv p2" "pool_live p2 = pool_live p1"
    "vlPoolSample p2 = relink_prev (vlPoolSample p1) ys (last_or xs ?N)" "pool_room p2 = pool_room p1"
    "pool_can_return p2 = pool_can_return p1"
    by (rule set_prev_ok [OF p1(2) _ sg1(2), of "last_or xs ?N"]) (use live p1(3) in auto)
  have sg2: "seg (vlPoolSample p2) ?N xs (hd_or ys ?N)" "seg (vlPoolSample p2) (last_or xs ?N) ys ?N"
    using sg1 dist disj by (simp_all add: p2(4) seg_relink_prev)
  obtain p3 where p3: "vlPoolReturn p2 i = Some p3" "pool_inv p3" "pool_live p3 = pool_live p2 - {i}"
    and same: "\<And>j. j \<in> pool_live p2 \<Longrightarrow> j \<noteq> i \<Longrightarrow> vlPoolSample p3 j = vlPoolSample p2 j"
    and room: "pool_room p3 = pool_room p2 + 1" and can3: "pool_can_return p3 n"
    using slots.give_back [OF p2(2), of i n] live p1(3,6) p2(3,6) can by auto
  have eq: "vlPoolSample p2 j = vlPoolSample p3 j" if "j \<in> set (xs @ ys)" for j
    by (rule same [symmetric]) (use that disj live p1(3) p2(3) in auto)
  have "seg (vlPoolSample p3) ?N (xs @ ys) ?N"
    using sg2 seg_cong [of xs "vlPoolSample p2" "vlPoolSample p3"]
      seg_cong [of ys "vlPoolSample p2" "vlPoolSample p3"] eq by simp
  then have ch3: "chain p3 (xs @ ys)"
    unfolding chain_def using p3(2,3) p2(3) p1(3) live dist by auto
  have "chain_data p3 (xs @ ys) = chain_data p2 (xs @ ys)"
    using seg_data_cong [OF eq] by simp
  moreover have "chain_data p2 xs = chain_data p xs" "chain_data p2 ys = chain_data p ys"
    using seg_sample [OF sg(1)] seg_sample [OF sg(2)] seg_sample [OF sg1(1)] seg_sample [OF sg1(2)]
    by (simp_all add: p2(4) p1(4))
  ultimately show thesis
    using that [OF p1(1) p2(1) p3(1) ch3] room can3 p1(5) p2(5) by simp
qed

section \<open>The two ends\<close>

text \<open>The instances at the ends of a chain, in the form the operations meet them.\<close>

lemma chain_push_front:
  assumes ch: "chain p xs" and ready: "pool_ready p"
  obtains i p1 p2 p3 where "vlPoolTake p = Some (i, p1)"
    "vlPoolStore p1 i \<lparr>node_prev = VL_POOL_INVALID_IDX,
       node_next = hd_or xs VL_POOL_INVALID_IDX, node_data = v\<rparr> = Some p2"
    "(if hd_or xs VL_POOL_INVALID_IDX \<noteq> VL_POOL_INVALID_IDX
      then vlPoolModify p2 (hd_or xs VL_POOL_INVALID_IDX) (\<lambda>n. n\<lparr>node_prev := i\<rparr>) else Some p2) = Some p3"
    "chain p3 (i # xs)" "chain_data p3 (i # xs) = v # chain_data p xs"
    "i \<noteq> VL_POOL_INVALID_IDX" "pool_room p - 1 \<le> pool_room p3"
    "\<forall>n. pool_can_return p n \<longrightarrow> pool_can_return p3 n"
proof -
  let ?N = VL_POOL_INVALID_IDX
  obtain i p1 p2 p3 p4 where s: "vlPoolTake p = Some (i, p1)"
    "vlPoolStore p1 i \<lparr>node_prev = last_or [] ?N, node_next = hd_or xs ?N, node_data = v\<rparr> = Some p2"
    "set_next p2 [] i = Some p3" "set_prev p3 xs i = Some p4" "chain p4 ([] @ i # xs)"
    "chain_data p4 ([] @ i # xs) = chain_data p [] @ v # chain_data p xs"
    "i \<notin> set ([] @ xs)" "i \<noteq> ?N" "pool_room p - 1 \<le> pool_room p4"
    "\<And>n. pool_can_return p n \<Longrightarrow> pool_can_return p4 n"
    by (rule chain_insert [of p "[]" xs v]) (use ch ready in simp_all)
  then have "(if hd_or xs ?N \<noteq> ?N then vlPoolModify p2 (hd_or xs ?N) (\<lambda>n. n\<lparr>node_prev := i\<rparr>)
      else Some p2) = Some p4"
    using chain_ends(1) [OF ch] by (cases xs) simp_all
  then show thesis by (rule that [of i p1 p2 p4, rotated 2]) (use s in simp_all)
qed

lemma chain_push_back:
  assumes ch: "chain p xs" and ready: "pool_ready p"
  obtains i p1 p2 p3 where "vlPoolTake p = Some (i, p1)"
    "vlPoolStore p1 i \<lparr>node_prev = last_or xs VL_POOL_INVALID_IDX,
       node_next = VL_POOL_INVALID_IDX, node_data = v\<rparr> = Some p2"
    "(if last_or xs VL_POOL_INVALID_IDX \<noteq> VL_POOL_INVALID_IDX
      then vlPoolModify p2 (last_or xs VL_POOL_INVALID_IDX) (\<lambda>n. n\<lparr>node_next := i\<rparr>) else Some p2) = Some p3"
    "chain p3 (xs @ [i])" "chain_data p3 (xs @ [i]) = chain_data p xs @ [v]"
    "i \<noteq> VL_POOL_INVALID_IDX" "pool_room p - 1 \<le> pool_room p3"
    "\<forall>n. pool_can_return p n \<longrightarrow> pool_can_return p3 n"
proof -
  let ?N = VL_POOL_INVALID_IDX
  obtain i p1 p2 p3 p4 where s: "vlPoolTake p = Some (i, p1)"
    "vlPoolStore p1 i \<lparr>node_prev = last_or xs ?N, node_next = hd_or [] ?N, node_data = v\<rparr> = Some p2"
    "set_next p2 xs i = Some p3" "set_prev p3 [] i = Some p4" "chain p4 (xs @ [i])"
    "chain_data p4 (xs @ [i]) = chain_data p xs @ [v]"
    "i \<notin> set (xs @ [])" "i \<noteq> ?N" "pool_room p - 1 \<le> pool_room p4"
    "\<And>n. pool_can_return p n \<Longrightarrow> pool_can_return p4 n"
    by (rule chain_insert [of p xs "[]" v]) (use ch ready in simp_all)
  then have "(if last_or xs ?N \<noteq> ?N then vlPoolModify p2 (last_or xs ?N) (\<lambda>n. n\<lparr>node_next := i\<rparr>)
      else Some p2) = Some p4"
    using chain_ends(2) [OF ch] by (cases xs rule: rev_cases) simp_all
  then show thesis by (rule that [of i p1 p2 p4, rotated 2]) (use s in simp_all)
qed

lemma chain_pop_front:
  assumes ch: "chain p (i # xs)" and can: "pool_can_return p (Suc n)"
  obtains p1 p2 where "(if xs = [] then Some p
      else vlPoolModify p (hd_or xs VL_POOL_INVALID_IDX) (\<lambda>n. n\<lparr>node_prev := VL_POOL_INVALID_IDX\<rparr>)) = Some p1"
    "vlPoolReturn p1 i = Some p2" "chain p2 xs" "chain_data p2 xs = chain_data p xs"
    "pool_room p2 = pool_room p + 1" "pool_can_return p2 n"
proof -
  let ?N = VL_POOL_INVALID_IDX
  obtain p1 p2 p3 where s: "set_next p [] (hd_or xs ?N) = Some p1" "set_prev p1 xs (last_or [] ?N) = Some p2"
    "vlPoolReturn p2 i = Some p3" "chain p3 ([] @ xs)"
    "chain_data p3 ([] @ xs) = chain_data p [] @ chain_data p xs"
    "pool_room p3 = pool_room p + 1" "pool_can_return p3 n"
    by (rule chain_delete [of p "[]" i xs n]) (use ch can in simp_all)
  then have "(if xs = [] then Some p
      else vlPoolModify p (hd_or xs ?N) (\<lambda>n. n\<lparr>node_prev := ?N\<rparr>)) = Some p2"
    by (cases xs) simp_all
  with s show thesis using that by simp
qed

lemma chain_pop_back:
  assumes ch: "chain p (xs @ [i])" and can: "pool_can_return p (Suc n)"
  obtains p1 p2 where "(if xs = [] then Some p
      else vlPoolModify p (last_or xs VL_POOL_INVALID_IDX) (\<lambda>n. n\<lparr>node_next := VL_POOL_INVALID_IDX\<rparr>)) = Some p1"
    "vlPoolReturn p1 i = Some p2" "chain p2 xs" "chain_data p2 xs = chain_data p xs"
    "pool_room p2 = pool_room p + 1" "pool_can_return p2 n"
proof -
  let ?N = VL_POOL_INVALID_IDX
  obtain p1 p2 p3 where s: "set_next p xs (hd_or [] ?N) = Some p1" "set_prev p1 [] (last_or xs ?N) = Some p2"
    "vlPoolReturn p2 i = Some p3" "chain p3 (xs @ [])"
    "chain_data p3 (xs @ []) = chain_data p xs @ chain_data p []"
    "pool_room p3 = pool_room p + 1" "pool_can_return p3 n"
    by (rule chain_delete [of p xs i "[]" n]) (use ch can in simp_all)
  then have "(if xs = [] then Some p
      else vlPoolModify p (last_or xs ?N) (\<lambda>n. n\<lparr>node_next := ?N\<rparr>)) = Some p2"
    by (cases xs rule: rev_cases) simp_all
  with s show thesis using that by simp
qed

section \<open>Reading a chain\<close>

text \<open>The elements met by following \<open>node_next\<close>, and by following \<open>node_prev\<close>.\<close>

partial_function (option) walk_next :: "'a link_node vl_pool \<Rightarrow> vl_pool_idx \<Rightarrow> 'a list option" where
  [code]: "walk_next p cur =
     (if cur = VL_POOL_INVALID_IDX then Some []
      else do {
        node \<leftarrow> vlPoolSample p cur;
        rest \<leftarrow> walk_next p (node_next node);
        Some (node_data node # rest)
      })"

partial_function (option) walk_prev :: "'a link_node vl_pool \<Rightarrow> vl_pool_idx \<Rightarrow> 'a list option" where
  [code]: "walk_prev p cur =
     (if cur = VL_POOL_INVALID_IDX then Some []
      else do {
        node \<leftarrow> vlPoolSample p cur;
        rest \<leftarrow> walk_prev p (node_prev node);
        Some (node_data node # rest)
      })"

lemma walk_next_seg:
  "seg (vlPoolSample p) pv xs VL_POOL_INVALID_IDX \<Longrightarrow> VL_POOL_INVALID_IDX \<notin> set xs \<Longrightarrow>
   walk_next p (hd_or xs VL_POOL_INVALID_IDX) = Some (chain_data p xs)"
proof (induction xs arbitrary: pv)
  case (Cons x xs)
  then show ?case by (subst walk_next.simps) auto
qed (simp add: walk_next.simps)

lemma walk_prev_seg:
  "seg (vlPoolSample p) VL_POOL_INVALID_IDX xs nx \<Longrightarrow> VL_POOL_INVALID_IDX \<notin> set xs \<Longrightarrow>
   walk_prev p (last_or xs VL_POOL_INVALID_IDX) = Some (rev (chain_data p xs))"
proof (induction xs arbitrary: nx rule: rev_induct)
  case (snoc x xs)
  then show ?case by (subst walk_prev.simps) auto
qed (simp add: walk_prev.simps)

lemma walk_chain:
  assumes "chain p xs"
  shows "walk_next p (hd_or xs VL_POOL_INVALID_IDX) = Some (chain_data p xs)"
    and "walk_prev p (last_or xs VL_POOL_INVALID_IDX) = Some (rev (chain_data p xs))"
  using chainD [OF assms] by (auto intro: walk_next_seg walk_prev_seg)

end
