(* ===== verification/VL_Deque.thy ===== *)
theory VL_Deque
  imports VL_Chain VL_Interfaces
begin

text \<open>
  The double-ended queue of \<^verbatim>\<open>src/core/vl_deque.c\<close>: a doubly linked chain of pool slots
  with a head, a tail and a 32-bit count of the elements.
\<close>

section \<open>State\<close>

record 'a vl_deque =
  deque_nodes :: "'a link_node vl_pool"
  deque_totalElements :: nat
  deque_elementSize :: nat
  deque_head :: vl_pool_idx
  deque_tail :: vl_pool_idx

section \<open>Operations\<close>

definition vlDequeInit :: "(nat \<Rightarrow> bool) \<Rightarrow> nat \<Rightarrow> 'a vl_deque option" where
  "vlDequeInit ok esize =
     do {
       pool \<leftarrow> vlPoolInit ok (u16_of (esize + 16));
       Some \<lparr>deque_nodes = pool, deque_totalElements = 0, deque_elementSize = esize,
             deque_head = VL_POOL_INVALID_IDX, deque_tail = VL_POOL_INVALID_IDX\<rparr>
     }"

definition vlDequeFree :: "'a vl_deque \<Rightarrow> 'a vl_deque option" where
  "vlDequeFree deq =
     do {
       pool \<leftarrow> vlPoolFree (deque_nodes deq);
       Some (deq\<lparr>deque_nodes := pool, deque_head := VL_POOL_INVALID_IDX,
                 deque_tail := VL_POOL_INVALID_IDX, deque_elementSize := 0, deque_totalElements := 0\<rparr>)
     }"

text \<open>The struct has 96 bytes; a failed allocation is passed on to \<^const>\<open>vlDequeInit\<close>.\<close>

definition vlDequeNew :: "(nat \<Rightarrow> bool) \<Rightarrow> nat \<Rightarrow> 'a vl_deque option" where
  "vlDequeNew ok esize = (if ok 96 then vlDequeInit ok esize else None)"

text \<open>\<^verbatim>\<open>vlDequeDelete\<close> frees the struct as well: nothing is left but that it succeeded.\<close>

definition vlDequeDelete :: "'a vl_deque \<Rightarrow> unit option" where
  "vlDequeDelete deq = do { _ \<leftarrow> vlDequeFree deq; Some () }"

definition vlDequeClear :: "'a vl_deque \<Rightarrow> 'a vl_deque option" where
  "vlDequeClear deq =
     do {
       let deq = deq\<lparr>deque_head := VL_POOL_INVALID_IDX, deque_tail := VL_POOL_INVALID_IDX,
                     deque_totalElements := 0\<rparr>;
       pool \<leftarrow> vlPoolClear (deque_nodes deq);
       Some (deq\<lparr>deque_nodes := pool\<rparr>)
     }"

definition vlDequeReserve :: "'a vl_deque \<Rightarrow> nat \<Rightarrow> 'a vl_deque option" where
  "vlDequeReserve deq n =
     do { pool \<leftarrow> vlPoolReserve (deque_nodes deq) n; Some (deq\<lparr>deque_nodes := pool\<rparr>) }"

definition vlDequeClone ::
  "(nat \<Rightarrow> bool) \<Rightarrow> 'a vl_deque \<Rightarrow> 'a vl_deque option \<Rightarrow> 'a vl_deque option" where
  "vlDequeClone ok src dest =
     do {
       dest \<leftarrow> (case dest of None \<Rightarrow> vlDequeNew ok (deque_elementSize src) | Some d \<Rightarrow> Some d);
       pool \<leftarrow> vlPoolClone ok (deque_nodes src) (Some (deque_nodes dest));
       Some (dest\<lparr>deque_nodes := pool, deque_head := deque_head src, deque_tail := deque_tail src,
                  deque_elementSize := deque_elementSize src,
                  deque_totalElements := deque_totalElements src\<rparr>)
     }"

definition vlDequePushFront :: "'a vl_deque \<Rightarrow> 'a \<Rightarrow> 'a vl_deque option" where
  "vlDequePushFront deq val =
     do {
       let oldHead = deque_head deq;
       (newHead, pool) \<leftarrow> vlPoolTake (deque_nodes deq);
       pool \<leftarrow> vlPoolStore pool newHead
         \<lparr>node_prev = VL_POOL_INVALID_IDX, node_next = oldHead, node_data = val\<rparr>;
       pool \<leftarrow> (if oldHead \<noteq> VL_POOL_INVALID_IDX
                then vlPoolModify pool oldHead (\<lambda>n. n\<lparr>node_prev := newHead\<rparr>) else Some pool);
       let deq = deq\<lparr>deque_nodes := pool\<rparr>;
       let deq = (if deque_tail deq = VL_POOL_INVALID_IDX then deq\<lparr>deque_tail := newHead\<rparr> else deq);
       Some (deq\<lparr>deque_head := newHead, deque_totalElements := inc32 (deque_totalElements deq)\<rparr>)
     }"

definition vlDequePushBack :: "'a vl_deque \<Rightarrow> 'a \<Rightarrow> 'a vl_deque option" where
  "vlDequePushBack deq val =
     do {
       let oldTail = deque_tail deq;
       (newTail, pool) \<leftarrow> vlPoolTake (deque_nodes deq);
       pool \<leftarrow> vlPoolStore pool newTail
         \<lparr>node_prev = oldTail, node_next = VL_POOL_INVALID_IDX, node_data = val\<rparr>;
       pool \<leftarrow> (if oldTail \<noteq> VL_POOL_INVALID_IDX
                then vlPoolModify pool oldTail (\<lambda>n. n\<lparr>node_next := newTail\<rparr>) else Some pool);
       let deq = deq\<lparr>deque_nodes := pool\<rparr>;
       let deq = (if deque_head deq = VL_POOL_INVALID_IDX then deq\<lparr>deque_head := newTail\<rparr> else deq);
       Some (deq\<lparr>deque_tail := newTail, deque_totalElements := inc32 (deque_totalElements deq)\<rparr>)
     }"

text \<open>
  A removal returns 0, or 1; the second result is what it writes through \<^verbatim>\<open>val\<close>. The
  argument \<open>val\<close> says whether that pointer is not null: the branch for a single element
  copies to it unchecked.
\<close>

definition vlDequePopFront :: "bool \<Rightarrow> 'a vl_deque \<Rightarrow> (nat \<times> 'a option \<times> 'a vl_deque) option" where
  "vlDequePopFront val deq =
     (if deque_head deq = VL_POOL_INVALID_IDX then Some (0, None, deq)
      else if deque_head deq = deque_tail deq then
        do {
          oldHead \<leftarrow> vlPoolSample (deque_nodes deq) (deque_head deq);
          out \<leftarrow> (if val then Some (node_data oldHead) else None);
          pool \<leftarrow> vlPoolReturn (deque_nodes deq) (deque_head deq);
          Some (1, Some out,
            deq\<lparr>deque_nodes := pool, deque_head := VL_POOL_INVALID_IDX, deque_tail := VL_POOL_INVALID_IDX,
                deque_totalElements := dec32 (deque_totalElements deq)\<rparr>)
        }
      else
        do {
          oldNode \<leftarrow> vlPoolSample (deque_nodes deq) (deque_head deq);
          let out = (if val then Some (node_data oldNode) else None);
          let rightIter = node_next oldNode;
          pool \<leftarrow> vlPoolModify (deque_nodes deq) rightIter (\<lambda>n. n\<lparr>node_prev := VL_POOL_INVALID_IDX\<rparr>);
          pool \<leftarrow> vlPoolReturn pool (deque_head deq);
          Some (1, out,
            deq\<lparr>deque_nodes := pool, deque_totalElements := dec32 (deque_totalElements deq),
                deque_head := rightIter\<rparr>)
        })"

definition vlDequePopBack :: "bool \<Rightarrow> 'a vl_deque \<Rightarrow> (nat \<times> 'a option \<times> 'a vl_deque) option" where
  "vlDequePopBack val deq =
     (if deque_tail deq = VL_POOL_INVALID_IDX then Some (0, None, deq)
      else if deque_head deq = deque_tail deq then
        do {
          oldHead \<leftarrow> vlPoolSample (deque_nodes deq) (deque_tail deq);
          out \<leftarrow> (if val then Some (node_data oldHead) else None);
          pool \<leftarrow> vlPoolReturn (deque_nodes deq) (deque_tail deq);
          Some (1, Some out,
            deq\<lparr>deque_nodes := pool, deque_head := VL_POOL_INVALID_IDX, deque_tail := VL_POOL_INVALID_IDX,
                deque_totalElements := dec32 (deque_totalElements deq)\<rparr>)
        }
      else
        do {
          oldNode \<leftarrow> vlPoolSample (deque_nodes deq) (deque_tail deq);
          let out = (if val then Some (node_data oldNode) else None);
          let leftIter = node_prev oldNode;
          pool \<leftarrow> vlPoolModify (deque_nodes deq) leftIter (\<lambda>n. n\<lparr>node_next := VL_POOL_INVALID_IDX\<rparr>);
          pool \<leftarrow> vlPoolReturn pool (deque_tail deq);
          Some (1, out,
            deq\<lparr>deque_nodes := pool, deque_tail := leftIter,
                deque_totalElements := dec32 (deque_totalElements deq)\<rparr>)
        })"

text \<open>\<^verbatim>\<open>vlDequeSize\<close>, a macro of \<^verbatim>\<open>vl_deque.h\<close>.\<close>

definition vlDequeSize :: "'a vl_deque \<Rightarrow> nat" where
  "vlDequeSize deq = deque_totalElements deq"

section \<open>The chain behind a deque\<close>

definition deque_rep :: "'a vl_deque \<Rightarrow> vl_pool_idx list \<Rightarrow> bool" where
  "deque_rep q xs \<longleftrightarrow>
     chain (deque_nodes q) xs \<and> deque_head q = hd_or xs VL_POOL_INVALID_IDX \<and>
     deque_tail q = last_or xs VL_POOL_INVALID_IDX \<and> deque_totalElements q = u32_of (length xs)"

definition deque_inv :: "'a vl_deque \<Rightarrow> bool" where
  "deque_inv q \<longleftrightarrow> (\<exists>xs. deque_rep q xs)"

text \<open>The contents, read from head to tail.\<close>

definition deque_contents :: "'a vl_deque \<Rightarrow> 'a list" where
  "deque_contents q = the (walk_next (deque_nodes q) (deque_head q))"

lemma deque_rep_inv: "deque_rep q xs \<Longrightarrow> deque_inv q"
  by (auto simp: deque_inv_def)

lemma deque_contents_rep: "deque_rep q xs \<Longrightarrow> deque_contents q = chain_data (deque_nodes q) xs"
  using walk_chain(1) [of "deque_nodes q" xs] by (simp add: deque_contents_def deque_rep_def)

lemma deque_size_contents: "deque_inv q \<Longrightarrow> vlDequeSize q = u32_of (length (deque_contents q))"
  by (auto simp: deque_inv_def vlDequeSize_def deque_contents_rep) (simp add: deque_rep_def)

section \<open>Insertion at both ends\<close>

lemma vlDequePushFront_rep:
  assumes rep: "deque_rep q xs" and ready: "pool_ready (deque_nodes q)"
  obtains i q' where "vlDequePushFront q v = Some q'" "deque_rep q' (i # xs)"
    "deque_contents q' = v # deque_contents q"
    "pool_room (deque_nodes q) - 1 \<le> pool_room (deque_nodes q')"
    "\<forall>n. pool_can_return (deque_nodes q) n \<longrightarrow> pool_can_return (deque_nodes q') n"
proof -
  have ch: "chain (deque_nodes q) xs" using rep by (simp add: deque_rep_def)
  from ch ready obtain i p1 p2 p3 where s: "vlPoolTake (deque_nodes q) = Some (i, p1)"
    "vlPoolStore p1 i \<lparr>node_prev = VL_POOL_INVALID_IDX,
       node_next = hd_or xs VL_POOL_INVALID_IDX, node_data = v\<rparr> = Some p2"
    "(if hd_or xs VL_POOL_INVALID_IDX \<noteq> VL_POOL_INVALID_IDX
      then vlPoolModify p2 (hd_or xs VL_POOL_INVALID_IDX) (\<lambda>n. n\<lparr>node_prev := i\<rparr>) else Some p2) = Some p3"
    "chain p3 (i # xs)" "chain_data p3 (i # xs) = v # chain_data (deque_nodes q) xs"
    "i \<noteq> VL_POOL_INVALID_IDX" "pool_room (deque_nodes q) - 1 \<le> pool_room p3"
    "\<forall>n. pool_can_return (deque_nodes q) n \<longrightarrow> pool_can_return p3 n"
    by (rule chain_push_front [where v = v])
  define q' where "q' = q\<lparr>deque_nodes := p3, deque_head := i, deque_tail := last_or xs i,
    deque_totalElements := inc32 (deque_totalElements q)\<rparr>"
  have "vlDequePushFront q v = Some q'"
    using rep s(1-3) chain_ends [OF ch]
    by (cases xs) (auto simp: vlDequePushFront_def Let_def deque_rep_def q'_def)
  moreover have rep': "deque_rep q' (i # xs)"
    using rep s(4) by (simp add: deque_rep_def q'_def inc32_mod)
  moreover have "deque_contents q' = v # deque_contents q"
    unfolding deque_contents_rep [OF rep] deque_contents_rep [OF rep'] using s(5) by (simp add: q'_def)
  ultimately show thesis using s(7,8) by (intro that [of q' i]) (simp_all add: q'_def)
qed

lemma vlDequePushBack_rep:
  assumes rep: "deque_rep q xs" and ready: "pool_ready (deque_nodes q)"
  obtains i q' where "vlDequePushBack q v = Some q'" "deque_rep q' (xs @ [i])"
    "deque_contents q' = deque_contents q @ [v]"
    "pool_room (deque_nodes q) - 1 \<le> pool_room (deque_nodes q')"
    "\<forall>n. pool_can_return (deque_nodes q) n \<longrightarrow> pool_can_return (deque_nodes q') n"
proof -
  have ch: "chain (deque_nodes q) xs" using rep by (simp add: deque_rep_def)
  from ch ready obtain i p1 p2 p3 where s: "vlPoolTake (deque_nodes q) = Some (i, p1)"
    "vlPoolStore p1 i \<lparr>node_prev = last_or xs VL_POOL_INVALID_IDX,
       node_next = VL_POOL_INVALID_IDX, node_data = v\<rparr> = Some p2"
    "(if last_or xs VL_POOL_INVALID_IDX \<noteq> VL_POOL_INVALID_IDX
      then vlPoolModify p2 (last_or xs VL_POOL_INVALID_IDX) (\<lambda>n. n\<lparr>node_next := i\<rparr>) else Some p2) = Some p3"
    "chain p3 (xs @ [i])" "chain_data p3 (xs @ [i]) = chain_data (deque_nodes q) xs @ [v]"
    "i \<noteq> VL_POOL_INVALID_IDX" "pool_room (deque_nodes q) - 1 \<le> pool_room p3"
    "\<forall>n. pool_can_return (deque_nodes q) n \<longrightarrow> pool_can_return p3 n"
    by (rule chain_push_back [where v = v])
  define q' where "q' = q\<lparr>deque_nodes := p3, deque_head := hd_or xs i, deque_tail := i,
    deque_totalElements := inc32 (deque_totalElements q)\<rparr>"
  have "vlDequePushBack q v = Some q'"
    using rep s(1-3) chain_ends [OF ch]
    by (cases xs) (auto simp: vlDequePushBack_def Let_def deque_rep_def q'_def)
  moreover have rep': "deque_rep q' (xs @ [i])"
    using rep s(4) by (simp add: deque_rep_def q'_def inc32_mod)
  moreover have "deque_contents q' = deque_contents q @ [v]"
    unfolding deque_contents_rep [OF rep] deque_contents_rep [OF rep'] using s(5) by (simp add: q'_def)
  ultimately show thesis using s(7,8) by (intro that [of q' i]) (simp_all add: q'_def)
qed

section \<open>Removal at both ends\<close>

lemma vlDequePopFront_rep:
  assumes rep: "deque_rep q (i # xs)" and can: "pool_can_return (deque_nodes q) (Suc n)"
    and val: "val \<or> xs \<noteq> []"
  obtains q' where
    "vlDequePopFront val q = Some (1, if val then Some (hd (deque_contents q)) else None, q')"
    "deque_rep q' xs" "deque_contents q' = tl (deque_contents q)"
    "pool_can_return (deque_nodes q') n"
    "pool_room (deque_nodes q') = pool_room (deque_nodes q) + 1"
proof -
  let ?N = VL_POOL_INVALID_IDX
  have ch: "chain (deque_nodes q) (i # xs)" using rep by (simp add: deque_rep_def)
  obtain w where smp: "vlPoolSample (deque_nodes q) i =
      Some \<lparr>node_prev = ?N, node_next = hd_or xs ?N, node_data = w\<rparr>"
    using chain_sample [of "deque_nodes q" "[]" i xs] ch by auto
  have N: "i \<noteq> ?N" using chainD(5) [OF ch] by auto
  have ends: "deque_head q = hd_or (i # xs) ?N" "deque_tail q = last_or (i # xs) ?N"
    using rep by (simp_all add: deque_rep_def)
  from ch can obtain p1 p2 where s: "(if xs = [] then Some (deque_nodes q)
      else vlPoolModify (deque_nodes q) (hd_or xs ?N) (\<lambda>n. n\<lparr>node_prev := ?N\<rparr>)) = Some p1"
    "vlPoolReturn p1 i = Some p2" "chain p2 xs" "chain_data p2 xs = chain_data (deque_nodes q) xs"
    "pool_room p2 = pool_room (deque_nodes q) + 1" "pool_can_return p2 n"
    by (rule chain_pop_front)
  define q' where "q' = q\<lparr>deque_nodes := p2, deque_head := hd_or xs ?N, deque_tail := last_or xs ?N,
    deque_totalElements := dec32 (deque_totalElements q)\<rparr>"
  have c: "deque_contents q = chain_data (deque_nodes q) (i # xs)" by (rule deque_contents_rep) (rule rep)
  have sgl: "deque_head q = deque_tail q \<longleftrightarrow> xs = []"
    using chain_ends(3) [OF ch] ends by (cases xs) auto
  have "vlDequePopFront val q = Some (1, if val then Some (hd (deque_contents q)) else None, q')"
  proof (cases "xs = []")
    case True
    then show ?thesis
      using s(1,2) sgl smp N val by (simp add: vlDequePopFront_def ends c q'_def)
  next
    case False
    then have "deque_head q \<noteq> deque_tail q" and "deque_head q = i"
      and "q\<lparr>deque_nodes := p2, deque_totalElements := dec32 (deque_totalElements q),
        deque_head := hd_or xs ?N\<rparr> = q'"
      using sgl ends by (auto simp: q'_def intro!: vl_deque.equality) (cases xs; auto simp: last_or_def hd_or_def)+
    then show ?thesis
      using s(1,2) False smp N by (simp add: vlDequePopFront_def Let_def c)
  qed
  moreover have rep': "deque_rep q' xs"
    using rep s(3) by (simp add: deque_rep_def q'_def dec32_mod)
  moreover have "deque_contents q' = tl (deque_contents q)"
    unfolding c deque_contents_rep [OF rep'] using s(4) by (simp add: q'_def)
  ultimately show thesis using s(5,6) by (intro that [of q']) (simp_all add: q'_def)
qed

lemma vlDequePopBack_rep:
  assumes rep: "deque_rep q (xs @ [i])" and can: "pool_can_return (deque_nodes q) (Suc n)"
    and val: "val \<or> xs \<noteq> []"
  obtains q' where
    "vlDequePopBack val q = Some (1, if val then Some (last (deque_contents q)) else None, q')"
    "deque_rep q' xs" "deque_contents q' = butlast (deque_contents q)"
    "pool_can_return (deque_nodes q') n"
    "pool_room (deque_nodes q') = pool_room (deque_nodes q) + 1"
proof -
  let ?N = VL_POOL_INVALID_IDX
  have ch: "chain (deque_nodes q) (xs @ [i])" using rep by (simp add: deque_rep_def)
  obtain w where smp: "vlPoolSample (deque_nodes q) i =
      Some \<lparr>node_prev = last_or xs ?N, node_next = ?N, node_data = w\<rparr>"
    using chain_sample [of "deque_nodes q" xs i "[]"] ch by auto
  have N: "i \<noteq> ?N" using chainD(5) [OF ch] by auto
  have ends: "deque_head q = hd_or (xs @ [i]) ?N" "deque_tail q = last_or (xs @ [i]) ?N"
    using rep by (simp_all add: deque_rep_def)
  from ch can obtain p1 p2 where s: "(if xs = [] then Some (deque_nodes q)
      else vlPoolModify (deque_nodes q) (last_or xs ?N) (\<lambda>n. n\<lparr>node_next := ?N\<rparr>)) = Some p1"
    "vlPoolReturn p1 i = Some p2" "chain p2 xs" "chain_data p2 xs = chain_data (deque_nodes q) xs"
    "pool_room p2 = pool_room (deque_nodes q) + 1" "pool_can_return p2 n"
    by (rule chain_pop_back)
  define q' where "q' = q\<lparr>deque_nodes := p2, deque_head := hd_or xs ?N, deque_tail := last_or xs ?N,
    deque_totalElements := dec32 (deque_totalElements q)\<rparr>"
  have c: "deque_contents q = chain_data (deque_nodes q) (xs @ [i])" by (rule deque_contents_rep) (rule rep)
  have sgl: "deque_head q = deque_tail q \<longleftrightarrow> xs = []"
    using chain_ends(3) [OF ch] ends by (cases xs) auto
  have "vlDequePopBack val q = Some (1, if val then Some (last (deque_contents q)) else None, q')"
  proof (cases "xs = []")
    case True
    then show ?thesis
      using s(1,2) sgl smp N val by (simp add: vlDequePopBack_def ends c q'_def)
  next
    case False
    then have "deque_head q \<noteq> deque_tail q" and "deque_tail q = i"
      and "q\<lparr>deque_nodes := p2, deque_tail := last_or xs ?N,
        deque_totalElements := dec32 (deque_totalElements q)\<rparr> = q'"
      using sgl ends by (auto simp: q'_def intro!: vl_deque.equality) (cases xs; auto simp: last_or_def hd_or_def)+
    then show ?thesis
      using s(1,2) False smp N by (simp add: vlDequePopBack_def Let_def c)
  qed
  moreover have rep': "deque_rep q' xs"
    using rep s(3) by (simp add: deque_rep_def q'_def dec32_mod)
  moreover have "deque_contents q' = butlast (deque_contents q)"
    unfolding c deque_contents_rep [OF rep'] using s(4) by (simp add: q'_def)
  ultimately show thesis using s(5,6) by (intro that [of q']) (simp_all add: q'_def)
qed

lemma vlDequePop_empty:
  assumes "deque_rep q []"
  shows "vlDequePopFront val q = Some (0, None, q)" and "vlDequePopBack val q = Some (0, None, q)"
  using assms by (simp_all add: vlDequePopFront_def vlDequePopBack_def deque_rep_def)

section \<open>The contracts the deque keeps\<close>

text \<open>The removals with a non-null \<open>val\<close>, as a removal that reports an element or none.\<close>

definition deque_take_front :: "'a vl_deque \<Rightarrow> ('a option \<times> 'a vl_deque) option" where
  "deque_take_front q = map_option snd (vlDequePopFront True q)"

definition deque_take_back :: "'a vl_deque \<Rightarrow> ('a option \<times> 'a vl_deque) option" where
  "deque_take_back q = map_option snd (vlDequePopBack True q)"

lemma deque_push_ok:
  assumes "deque_inv q" and "pool_ready (deque_nodes q)"
  shows "\<exists>q'. vlDequePushFront q x = Some q' \<and> deque_inv q' \<and> deque_contents q' = x # deque_contents q \<and>
      pool_room (deque_nodes q) - 1 \<le> pool_room (deque_nodes q') \<and>
      (\<forall>n. pool_can_return (deque_nodes q) n \<longrightarrow> pool_can_return (deque_nodes q') n)"
    and "\<exists>q'. vlDequePushBack q x = Some q' \<and> deque_inv q' \<and> deque_contents q' = deque_contents q @ [x] \<and>
      pool_room (deque_nodes q) - 1 \<le> pool_room (deque_nodes q') \<and>
      (\<forall>n. pool_can_return (deque_nodes q) n \<longrightarrow> pool_can_return (deque_nodes q') n)"
proof -
  obtain xs where rep: "deque_rep q xs" using assms(1) by (auto simp: deque_inv_def)
  show "\<exists>q'. vlDequePushFront q x = Some q' \<and> deque_inv q' \<and> deque_contents q' = x # deque_contents q \<and>
      pool_room (deque_nodes q) - 1 \<le> pool_room (deque_nodes q') \<and>
      (\<forall>n. pool_can_return (deque_nodes q) n \<longrightarrow> pool_can_return (deque_nodes q') n)"
    using rep assms(2) by (rule vlDequePushFront_rep [where v = x]) (auto intro: deque_rep_inv)
  show "\<exists>q'. vlDequePushBack q x = Some q' \<and> deque_inv q' \<and> deque_contents q' = deque_contents q @ [x] \<and>
      pool_room (deque_nodes q) - 1 \<le> pool_room (deque_nodes q') \<and>
      (\<forall>n. pool_can_return (deque_nodes q) n \<longrightarrow> pool_can_return (deque_nodes q') n)"
    using rep assms(2) by (rule vlDequePushBack_rep [where v = x]) (auto intro: deque_rep_inv)
qed

lemma deque_pop_ok:
  assumes inv: "deque_inv q" and ne: "deque_contents q \<noteq> []"
    and can: "pool_can_return (deque_nodes q) (Suc n)"
    and val: "val \<or> 1 < length (deque_contents q)"
  shows "\<exists>q'. vlDequePopFront val q = Some (1, if val then Some (hd (deque_contents q)) else None, q') \<and>
      deque_inv q' \<and> deque_contents q' = tl (deque_contents q) \<and> pool_can_return (deque_nodes q') n"
    and "\<exists>q'. vlDequePopBack val q = Some (1, if val then Some (last (deque_contents q)) else None, q') \<and>
      deque_inv q' \<and> deque_contents q' = butlast (deque_contents q) \<and> pool_can_return (deque_nodes q') n"
proof -
  obtain xs where rep: "deque_rep q xs" using inv by (auto simp: deque_inv_def)
  have len: "length (deque_contents q) = length xs" by (simp add: deque_contents_rep [OF rep])
  obtain i ys where f: "xs = i # ys" using ne len by (cases xs) auto
  obtain j zs where b: "xs = zs @ [j]" using ne len by (cases xs rule: rev_cases) auto
  have v: "val \<or> ys \<noteq> []" "val \<or> zs \<noteq> []" using val len f b by auto
  from rep f have "deque_rep q (i # ys)" by simp
  from this can v(1)
  show "\<exists>q'. vlDequePopFront val q = Some (1, if val then Some (hd (deque_contents q)) else None, q') \<and>
      deque_inv q' \<and> deque_contents q' = tl (deque_contents q) \<and> pool_can_return (deque_nodes q') n"
    by (rule vlDequePopFront_rep) (auto intro: deque_rep_inv)
  from rep b have "deque_rep q (zs @ [j])" by simp
  from this can v(2)
  show "\<exists>q'. vlDequePopBack val q = Some (1, if val then Some (last (deque_contents q)) else None, q') \<and>
      deque_inv q' \<and> deque_contents q' = butlast (deque_contents q) \<and> pool_can_return (deque_nodes q') n"
    by (rule vlDequePopBack_rep) (auto intro: deque_rep_inv)
qed

lemma deque_pop_none:
  assumes inv: "deque_inv q" and e: "deque_contents q = []"
  shows "vlDequePopFront val q = Some (0, None, q)" and "vlDequePopBack val q = Some (0, None, q)"
proof -
  obtain xs where rep: "deque_rep q xs" using inv by (auto simp: deque_inv_def)
  then have "xs = []" using e deque_contents_rep [OF rep] by (simp add: seg_data_def)
  with rep show "vlDequePopFront val q = Some (0, None, q)" "vlDequePopBack val q = Some (0, None, q)"
    using vlDequePop_empty by blast+
qed

lemma deque_take_ok:
  assumes "deque_inv q" and "deque_contents q \<noteq> []" and "pool_can_return (deque_nodes q) (Suc n)"
  shows "\<exists>q'. deque_take_front q = Some (Some (hd (deque_contents q)), q') \<and> deque_inv q' \<and>
      deque_contents q' = tl (deque_contents q) \<and> pool_can_return (deque_nodes q') n"
    and "\<exists>q'. deque_take_back q = Some (Some (last (deque_contents q)), q') \<and> deque_inv q' \<and>
      deque_contents q' = butlast (deque_contents q) \<and> pool_can_return (deque_nodes q') n"
  using deque_pop_ok [OF assms, of True] by (auto simp: deque_take_front_def deque_take_back_def)

lemma deque_take_none:
  assumes "deque_inv q" and "deque_contents q = []"
  shows "deque_take_front q = Some (None, q)" and "deque_take_back q = Some (None, q)"
  using deque_pop_none [OF assms] by (simp_all add: deque_take_front_def deque_take_back_def)

lemma rev_ConsD: "rev ys = x # xs \<Longrightarrow> ys \<noteq> [] \<and> last ys = x \<and> rev (butlast ys) = xs"
  by (cases ys rule: rev_cases) simp_all

interpretation deque_fifo: fifo_container vlDequePushBack deque_take_front deque_contents deque_inv
  "\<lambda>q. pool_ready (deque_nodes q)" "\<lambda>q. pool_room (deque_nodes q)" "\<lambda>q. pool_can_return (deque_nodes q)"
proof
  fix q :: "'a vl_deque" and x xs n
  show "\<exists>q'. deque_take_front q = Some (Some x, q') \<and> deque_inv q' \<and> deque_contents q' = xs \<and>
      pool_can_return (deque_nodes q') n"
    if "deque_inv q" "deque_contents q = x # xs" "pool_can_return (deque_nodes q) (Suc n)"
    using deque_take_ok(1) [of q n] that by auto
  show "\<exists>q'. vlDequePushBack q x = Some q' \<and> deque_inv q' \<and> deque_contents q' = deque_contents q @ [x] \<and>
      pool_room (deque_nodes q) - 1 \<le> pool_room (deque_nodes q') \<and>
      (\<forall>n. pool_can_return (deque_nodes q) n \<longrightarrow> pool_can_return (deque_nodes q') n)"
    if "deque_inv q" "pool_ready (deque_nodes q)"
    using that by (rule deque_push_ok(2))
qed (simp_all add: deque_take_none slots.room_ready)

interpretation deque_lifo: lifo_container vlDequePushFront deque_take_front deque_contents deque_inv
  "\<lambda>q. pool_ready (deque_nodes q)" "\<lambda>q. pool_room (deque_nodes q)" "\<lambda>q. pool_can_return (deque_nodes q)"
proof
  fix q :: "'a vl_deque" and x
  show "\<exists>q'. vlDequePushFront q x = Some q' \<and> deque_inv q' \<and> deque_contents q' = x # deque_contents q \<and>
      pool_room (deque_nodes q) - 1 \<le> pool_room (deque_nodes q') \<and>
      (\<forall>n. pool_can_return (deque_nodes q) n \<longrightarrow> pool_can_return (deque_nodes q') n)"
    if "deque_inv q" "pool_ready (deque_nodes q)"
    using that by (rule deque_push_ok(1))
qed (simp add: slots.room_ready)

text \<open>The same at the other end, for the contents read from tail to head.\<close>

interpretation deque_fifo_back: fifo_container vlDequePushFront deque_take_back "\<lambda>q. rev (deque_contents q)"
  deque_inv "\<lambda>q. pool_ready (deque_nodes q)" "\<lambda>q. pool_room (deque_nodes q)"
  "\<lambda>q. pool_can_return (deque_nodes q)"
proof
  fix q :: "'a vl_deque" and x xs n
  show "\<exists>q'. vlDequePushFront q x = Some q' \<and> deque_inv q' \<and>
      rev (deque_contents q') = rev (deque_contents q) @ [x] \<and>
      pool_room (deque_nodes q) - 1 \<le> pool_room (deque_nodes q') \<and>
      (\<forall>n. pool_can_return (deque_nodes q) n \<longrightarrow> pool_can_return (deque_nodes q') n)"
    if "deque_inv q" "pool_ready (deque_nodes q)"
    using deque_push_ok(1) [OF that, of x] by auto
  show "\<exists>q'. deque_take_back q = Some (Some x, q') \<and> deque_inv q' \<and> rev (deque_contents q') = xs \<and>
      pool_can_return (deque_nodes q') n"
    if "deque_inv q" "rev (deque_contents q) = x # xs" "pool_can_return (deque_nodes q) (Suc n)"
    using deque_take_ok(2) [of q n] that rev_ConsD [OF that(2)] by auto
qed (simp_all add: deque_take_none slots.room_ready)

interpretation deque_lifo_back: lifo_container vlDequePushBack deque_take_back "\<lambda>q. rev (deque_contents q)"
  deque_inv "\<lambda>q. pool_ready (deque_nodes q)" "\<lambda>q. pool_room (deque_nodes q)"
  "\<lambda>q. pool_can_return (deque_nodes q)"
proof
  fix q :: "'a vl_deque" and x
  show "\<exists>q'. vlDequePushBack q x = Some q' \<and> deque_inv q' \<and>
      rev (deque_contents q') = x # rev (deque_contents q) \<and>
      pool_room (deque_nodes q) - 1 \<le> pool_room (deque_nodes q') \<and>
      (\<forall>n. pool_can_return (deque_nodes q) n \<longrightarrow> pool_can_return (deque_nodes q') n)"
    if "deque_inv q" "pool_ready (deque_nodes q)"
    using deque_push_ok(2) [OF that, of x] by auto
qed (simp add: slots.room_ready)

section \<open>Initialising, clearing, reserving and cloning\<close>

lemma vlDequeInit_ok:
  assumes "\<forall>b < 2 ^ 20. ok b" and "esize + 16 < 2 ^ 15"
  obtains q E where "vlDequeInit ok esize = Some q" "deque_rep q []"
    "deque_nodes q = fresh_pool ok E 8" "E < 2 ^ 16"
proof -
  have u: "u16_of (esize + 16) = esize + 16" using assms(2) by (simp add: u16_of_def)
  obtain E where E: "vlPoolInit ok (esize + 16) = Some (fresh_pool ok E 8 :: 'a link_node vl_pool)"
    "0 < E" "E < 2 ^ 16"
    by (rule vlPoolInit_ok [OF assms(1), of "esize + 16"]) (use assms(2) in auto)
  let ?q = "\<lparr>deque_nodes = fresh_pool ok E 8, deque_totalElements = 0, deque_elementSize = esize,
    deque_head = VL_POOL_INVALID_IDX, deque_tail = VL_POOL_INVALID_IDX\<rparr> :: 'a vl_deque"
  have "vlDequeInit ok esize = Some ?q" by (simp add: vlDequeInit_def u E(1))
  moreover have "deque_rep ?q []"
    using fresh_pool_props [OF E(2), where 'a = "'a link_node"]
    by (simp add: deque_rep_def chain_def u32_of_def)
  ultimately show thesis using E(3) by (intro that [of ?q E]) simp_all
qed

text \<open>A new deque, with what the concrete runs below need.\<close>

lemma fresh_deque:
  obtains q :: "'a vl_deque" where "vlDequeInit (\<lambda>_. True) 4 = Some q" "deque_inv q"
    "deque_contents q = []" "pool_ready (deque_nodes q)"
    "\<And>n. n \<le> 16 \<Longrightarrow> pool_can_return (deque_nodes q) n"
    "\<And>n. n \<le> 10000 \<Longrightarrow> pool_can_reserve (deque_nodes q) n"
    "mallocOk (deque_nodes q) = (\<lambda>_. True)" "lookupCapacity (deque_nodes q) = 16"
proof -
  obtain q :: "'a vl_deque" and E where q: "vlDequeInit (\<lambda>_. True) 4 = Some q" "deque_rep q []"
    "deque_nodes q = fresh_pool (\<lambda>_. True) E 8" "E < 2 ^ 16"
    by (rule vlDequeInit_ok [of "\<lambda>_. True" 4]) auto
  note can = fresh_pool_can [of "\<lambda>_. True" E, OF _ q(4)]
  show thesis
  proof (rule that [of q])
    show "pool_can_return (deque_nodes q) n" if "n \<le> 16" for n using can(1) that by (simp add: q(3))
    show "pool_can_reserve (deque_nodes q) n" if "n \<le> 10000" for n using can(2) that by (simp add: q(3))
    show "pool_ready (deque_nodes q)"
      by (simp add: q(3) pool_ready_def pool_room_def fresh_pool_def node_at_def)
    show "deque_contents q = []" by (simp add: deque_contents_rep [OF q(2)])
  qed (use q(1) deque_rep_inv [OF q(2)] in \<open>simp_all add: fresh_pool_def q(3)\<close>)
qed

lemma vlDequeClear_ok:
  assumes "deque_inv q"
  obtains q' where "vlDequeClear q = Some q'" "deque_inv q'" "deque_contents q' = []"
    "pool_room (deque_nodes q') = pool_capacity (deque_nodes q)"
proof -
  have "pool_inv (deque_nodes q)" using assms by (auto simp: deque_inv_def deque_rep_def chain_def)
  then obtain p where p: "vlPoolClear (deque_nodes q) = Some p" "pool_inv p" "pool_live p = {}"
    "pool_room p = pool_capacity (deque_nodes q)"
    by (rule vlPoolClear_ok)
  let ?q = "q\<lparr>deque_nodes := p, deque_head := VL_POOL_INVALID_IDX, deque_tail := VL_POOL_INVALID_IDX,
    deque_totalElements := 0\<rparr>"
  have rep': "deque_rep ?q []" using p by (simp add: deque_rep_def chain_def u32_of_def)
  have "vlDequeClear q = Some ?q" using p(1) by (simp add: vlDequeClear_def Let_def)
  then show thesis
    using that [of ?q] p deque_rep_inv [OF rep'] deque_contents_rep [OF rep'] by simp
qed

lemma vlDequeReserve_ok:
  assumes "deque_inv q" and "pool_can_reserve (deque_nodes q) n"
  obtains q' where "vlDequeReserve q n = Some q'" "deque_inv q'" "deque_contents q' = deque_contents q"
    "n \<le> pool_room (deque_nodes q')"
    "\<And>m. pool_can_return (deque_nodes q) m \<Longrightarrow> pool_can_return (deque_nodes q') m"
proof -
  obtain xs where rep: "deque_rep q xs" using assms(1) by (auto simp: deque_inv_def)
  then have ch: "chain (deque_nodes q) xs" by (simp add: deque_rep_def)
  obtain p where p: "vlPoolReserve (deque_nodes q) n = Some p" "pool_inv p"
    "pool_live p = pool_live (deque_nodes q)" "n \<le> pool_room p"
    "\<forall>j \<in> pool_live (deque_nodes q). vlPoolSample p j = vlPoolSample (deque_nodes q) j"
    "\<forall>m. pool_can_return (deque_nodes q) m \<longrightarrow> pool_can_return p m"
    using vlPoolReserve_ok [OF chainD(1) [OF ch] assms(2)] by blast
  have ch': "chain p xs" "chain_data p xs = chain_data (deque_nodes q) xs"
    using chain_cong [OF ch p(2,3)] p(5) by blast+
  let ?q = "q\<lparr>deque_nodes := p\<rparr>"
  have rep': "deque_rep ?q xs" using rep ch' by (simp add: deque_rep_def)
  have "deque_contents ?q = deque_contents q"
    unfolding deque_contents_rep [OF rep] deque_contents_rep [OF rep'] using ch'(2) by simp
  then show thesis
    using that [of ?q] p deque_rep_inv [OF rep'] by (simp add: vlDequeReserve_def)
qed

section \<open>Properties of the deque\<close>

text \<open>
  C13. The deque refines the list of its elements: an insertion at either end adds to the
  list there, a removal reports 1 and the element at that end and takes it off, a removal
  from an empty deque reports 0 and changes nothing.
\<close>

theorem deque_refines_list:
  assumes "deque_inv q"
  shows "(pool_ready (deque_nodes q) \<longrightarrow>
      (\<exists>q'. vlDequePushFront q x = Some q' \<and> deque_inv q' \<and> deque_contents q' = x # deque_contents q) \<and>
      (\<exists>q'. vlDequePushBack q x = Some q' \<and> deque_inv q' \<and> deque_contents q' = deque_contents q @ [x])) \<and>
    (deque_contents q \<noteq> [] \<and> pool_can_return (deque_nodes q) 1 \<longrightarrow>
      (\<exists>q'. vlDequePopFront True q = Some (1, Some (hd (deque_contents q)), q') \<and> deque_inv q' \<and>
        deque_contents q' = tl (deque_contents q)) \<and>
      (\<exists>q'. vlDequePopBack True q = Some (1, Some (last (deque_contents q)), q') \<and> deque_inv q' \<and>
        deque_contents q' = butlast (deque_contents q))) \<and>
    (deque_contents q = [] \<longrightarrow>
      vlDequePopFront val q = Some (0, None, q) \<and> vlDequePopBack val q = Some (0, None, q))"
proof (intro conjI impI)
  assume r: "pool_ready (deque_nodes q)"
  show "\<exists>q'. vlDequePushFront q x = Some q' \<and> deque_inv q' \<and> deque_contents q' = x # deque_contents q"
    using deque_push_ok(1) [OF assms r, of x] by blast
  show "\<exists>q'. vlDequePushBack q x = Some q' \<and> deque_inv q' \<and> deque_contents q' = deque_contents q @ [x]"
    using deque_push_ok(2) [OF assms r, of x] by blast
next
  assume "deque_contents q \<noteq> [] \<and> pool_can_return (deque_nodes q) 1"
  then have ne: "deque_contents q \<noteq> []" and can: "pool_can_return (deque_nodes q) (Suc 0)" by simp_all
  show "\<exists>q'. vlDequePopFront True q = Some (1, Some (hd (deque_contents q)), q') \<and> deque_inv q' \<and>
      deque_contents q' = tl (deque_contents q)"
    using deque_pop_ok(1) [OF assms ne can, of True] by auto
  show "\<exists>q'. vlDequePopBack True q = Some (1, Some (last (deque_contents q)), q') \<and> deque_inv q' \<and>
      deque_contents q' = butlast (deque_contents q)"
    using deque_pop_ok(2) [OF assms ne can, of True] by auto
next
  assume "deque_contents q = []"
  then show "vlDequePopFront val q = Some (0, None, q)" "vlDequePopBack val q = Some (0, None, q)"
    using deque_pop_none [OF assms] by blast+
qed

theorem deque_refines_list_witness:
  "\<exists>q q1 q2. vlDequeInit (\<lambda>_. True) 4 = Some q \<and> vlDequePushFront q (7 :: nat) = Some q1 \<and>
    deque_contents q1 = [7] \<and> vlDequePopBack True q = Some (0, None, q) \<and>
    vlDequePushBack q 8 = Some q2 \<and> deque_contents q2 = [8]"
proof -
  obtain q :: "nat vl_deque" where q: "vlDequeInit (\<lambda>_. True) 4 = Some q" "deque_inv q"
    "deque_contents q = []" "pool_ready (deque_nodes q)"
    by (rule fresh_deque)
  from deque_refines_list [OF q(2), of 7 True] deque_refines_list [OF q(2), of 8 True] show ?thesis
    using q by auto
qed

text \<open>
  After \<^verbatim>\<open>vlDequeReserve\<close> for the elements of a list, pushing them all at the back and
  popping as many from the front yields the former contents and then the list, in order;
  popping them from the back again yields the list in reverse and leaves the former contents.
\<close>

theorem deque_both_ends:
  assumes "deque_inv q" and "pool_can_reserve (deque_nodes q) (length xs)"
    and "pool_can_return (deque_nodes q) (length (deque_contents q) + length xs)"
    and "pool_can_return (deque_nodes q) (length xs)"
  shows "\<exists>q0 q1 q2 q3. vlDequeReserve q (length xs) = Some q0 \<and>
    push_all vlDequePushBack q0 xs = Some q1 \<and>
    pop_many deque_take_front (length (deque_contents q) + length xs) q1 =
      Some (map Some (deque_contents q @ xs), q2) \<and> deque_contents q2 = [] \<and>
    pop_many deque_take_back (length xs) q1 = Some (map Some (rev xs), q3) \<and>
    deque_contents q3 = deque_contents q"
proof -
  obtain q0 where q0: "vlDequeReserve q (length xs) = Some q0" "deque_inv q0"
    "deque_contents q0 = deque_contents q" "length xs \<le> pool_room (deque_nodes q0)"
    "pool_can_return (deque_nodes q0) (length (deque_contents q) + length xs)"
    "pool_can_return (deque_nodes q0) (length xs)"
    using assms by (auto intro: vlDequeReserve_ok)
  show ?thesis
    using deque_fifo.push_all_pop_many [OF q0(2,4)] deque_lifo_back.push_all_pop_many [OF q0(2,4)] q0
    by auto
qed

theorem deque_both_ends_witness:
  "\<exists>q q0 q1 q2 q3. vlDequeInit (\<lambda>_. True) 4 = Some q \<and> vlDequeReserve q 3 = Some q0 \<and>
    push_all vlDequePushBack q0 [1, 2, 3 :: nat] = Some q1 \<and>
    pop_many deque_take_front 3 q1 = Some ([Some 1, Some 2, Some 3], q2) \<and>
    pop_many deque_take_back 3 q1 = Some ([Some 3, Some 2, Some 1], q3)"
proof -
  obtain q :: "nat vl_deque" where q: "vlDequeInit (\<lambda>_. True) 4 = Some q" "deque_inv q"
    "deque_contents q = []" "\<And>n. n \<le> 16 \<Longrightarrow> pool_can_return (deque_nodes q) n"
    "\<And>n. n \<le> 10000 \<Longrightarrow> pool_can_reserve (deque_nodes q) n"
    by (rule fresh_deque) blast
  have "pool_can_reserve (deque_nodes q) (length [1, 2, 3 :: nat])"
    "pool_can_return (deque_nodes q) (length (deque_contents q) + length [1, 2, 3 :: nat])"
    "pool_can_return (deque_nodes q) (length [1, 2, 3 :: nat])"
    using q(3) by (simp_all add: q(4,5))
  from deque_both_ends [OF q(2) this] show ?thesis
    using q(1,3) by (auto simp: numeral_3_eq_3)
qed

text \<open>
  The links of a deque agree in both directions, and the count is exact: the walk along
  \<^verbatim>\<open>next\<close> from the head and the walk along \<^verbatim>\<open>prev\<close> from the tail end, they visit the same
  elements in opposite orders, and \<^verbatim>\<open>vlDequeSize\<close> is their number modulo \<open>2 ^ 32\<close>.
\<close>

theorem deque_links_agree:
  assumes "deque_inv q"
  shows "\<exists>vs. walk_next (deque_nodes q) (deque_head q) = Some vs \<and>
    walk_prev (deque_nodes q) (deque_tail q) = Some (rev vs) \<and>
    vlDequeSize q = length vs mod 2 ^ 32 \<and> card (pool_live (deque_nodes q)) = length vs"
proof -
  obtain xs where rep: "deque_rep q xs" using assms by (auto simp: deque_inv_def)
  then have ch: "chain (deque_nodes q) xs" by (simp add: deque_rep_def)
  then have "card (pool_live (deque_nodes q)) = length xs"
    using chainD(2,3) [OF ch] by (simp add: distinct_card)
  then show ?thesis
    using walk_chain [OF ch] rep by (simp add: deque_rep_def vlDequeSize_def u32_of_def)
qed

theorem deque_links_agree_witness:
  "\<exists>q q1. vlDequeInit (\<lambda>_. True) 4 = Some q \<and> vlDequePushFront q (7 :: nat) = Some q1 \<and>
    vlDequeSize q1 = 1 \<and> walk_prev (deque_nodes q1) (deque_tail q1) = Some [7]"
proof -
  obtain q :: "nat vl_deque" where q: "vlDequeInit (\<lambda>_. True) 4 = Some q" "deque_inv q"
    "deque_contents q = []" "pool_ready (deque_nodes q)"
    by (rule fresh_deque)
  obtain q1 where q1: "vlDequePushFront q (7 :: nat) = Some q1" "deque_inv q1" "deque_contents q1 = [7]"
    using deque_push_ok(1) [OF q(2,4), of 7] q(3) by auto
  from deque_links_agree [OF q1(2)] show ?thesis using q(1) q1(1,3) by (auto simp: deque_contents_def)
qed

text \<open>
  Removing without a destination works as documented as long as two elements are left;
  for the last element both removals copy through the null pointer, which is undefined.
\<close>

theorem deque_null_destination:
  assumes "deque_inv q" and "pool_can_return (deque_nodes q) 1"
  shows "(1 < length (deque_contents q) \<longrightarrow>
      (\<exists>q'. vlDequePopFront False q = Some (1, None, q') \<and> deque_contents q' = tl (deque_contents q)) \<and>
      (\<exists>q'. vlDequePopBack False q = Some (1, None, q') \<and> deque_contents q' = butlast (deque_contents q))) \<and>
    (length (deque_contents q) = 1 \<longrightarrow> vlDequePopFront False q = None \<and> vlDequePopBack False q = None)"
proof (intro conjI impI)
  assume "1 < length (deque_contents q)"
  then have *: "deque_contents q \<noteq> []" "False \<or> 1 < length (deque_contents q)"
    and can: "pool_can_return (deque_nodes q) (Suc 0)" using assms(2) by auto
  show "\<exists>q'. vlDequePopFront False q = Some (1, None, q') \<and> deque_contents q' = tl (deque_contents q)"
    using deque_pop_ok(1) [OF assms(1) *(1) can *(2)] by auto
  show "\<exists>q'. vlDequePopBack False q = Some (1, None, q') \<and> deque_contents q' = butlast (deque_contents q)"
    using deque_pop_ok(2) [OF assms(1) *(1) can *(2)] by auto
next
  assume one: "length (deque_contents q) = 1"
  obtain xs where rep: "deque_rep q xs" using assms by (auto simp: deque_inv_def)
  then obtain i where i: "xs = [i]" using one by (auto simp: deque_contents_rep length_Suc_conv)
  then have "deque_head q = i" "deque_tail q = i" "i \<noteq> VL_POOL_INVALID_IDX"
    using rep chainD(5) [of "deque_nodes q" xs] by (auto simp: deque_rep_def)
  then show "vlDequePopFront False q = None" "vlDequePopBack False q = None"
    by (cases "vlPoolSample (deque_nodes q) i"; simp add: vlDequePopFront_def vlDequePopBack_def)+
qed

theorem deque_null_destination_witness:
  "\<exists>q q1. vlDequeInit (\<lambda>_. True) 4 = Some q \<and> vlDequePushFront q (7 :: nat) = Some q1 \<and>
    vlDequePopFront False q1 = None"
proof -
  obtain q :: "nat vl_deque" where q: "vlDequeInit (\<lambda>_. True) 4 = Some q" "deque_inv q"
    "deque_contents q = []" "pool_ready (deque_nodes q)"
    "\<And>n. n \<le> 16 \<Longrightarrow> pool_can_return (deque_nodes q) n"
    by (rule fresh_deque) blast
  obtain q1 where q1: "vlDequePushFront q (7 :: nat) = Some q1" "deque_inv q1" "deque_contents q1 = [7]"
    "pool_can_return (deque_nodes q1) 1"
    using deque_push_ok(1) [OF q(2,4), of 7] q(3) q(5) [of 1] by auto
  from deque_null_destination [OF q1(2,4)] show ?thesis using q(1) q1(1,3) by auto
qed

text \<open>
  \<^verbatim>\<open>vlDequeClone\<close> into a deque whose table is as large as the source's gives a deque with
  the same elements in the same order and the same count, whatever the destination held.
\<close>

theorem deque_clone_same:
  assumes "deque_inv src" and "deque_inv d" and "\<forall>b. ok b" and "mallocOk (deque_nodes d) = ok"
    and "lookupCapacity (deque_nodes d) = lookupCapacity (deque_nodes src)"
  shows "\<exists>q. vlDequeClone ok src (Some d) = Some q \<and> deque_inv q \<and>
    deque_contents q = deque_contents src \<and> vlDequeSize q = vlDequeSize src"
proof -
  obtain xs where rep: "deque_rep src xs" using assms(1) by (auto simp: deque_inv_def)
  then have ch: "chain (deque_nodes src) xs" by (simp add: deque_rep_def)
  note src = chainD(1) [OF ch]
  have "pool_inv (deque_nodes d)" using assms(2) by (auto simp: deque_inv_def deque_rep_def chain_def)
  note cl = vlPoolClone_some [OF src assms(3) this assms(5,4)]
  define c where "c = max (freeCapacity (deque_nodes d)) (freeCapacity (deque_nodes src))"
  let ?p = "deque_nodes src\<lparr>freeCapacity := c, mallocOk := ok\<rparr>"
  note same = clone_same [OF src, of c ok]
  have ch': "chain ?p xs" "chain_data ?p xs = chain_data (deque_nodes src) xs"
    using chain_cong [OF ch same(1,2)] same(3) by (simp_all add: c_def)
  let ?q = "d\<lparr>deque_nodes := ?p, deque_head := deque_head src, deque_tail := deque_tail src,
    deque_elementSize := deque_elementSize src, deque_totalElements := deque_totalElements src\<rparr>"
  have rep': "deque_rep ?q xs" using rep ch'(1) by (simp add: deque_rep_def)
  have "deque_contents ?q = deque_contents src"
    unfolding deque_contents_rep [OF rep] deque_contents_rep [OF rep'] using ch'(2) by simp
  then show ?thesis
    using cl deque_rep_inv [OF rep'] by (auto simp: vlDequeClone_def c_def vlDequeSize_def)
qed

theorem deque_clone_same_witness:
  "\<exists>q r. vlDequeInit (\<lambda>_. True) 4 = Some q \<and>
    vlDequeClone (\<lambda>_. True) q (Some q) = Some (r :: nat vl_deque) \<and> deque_contents r = []"
proof -
  obtain q :: "nat vl_deque" where q: "vlDequeInit (\<lambda>_. True) 4 = Some q" "deque_inv q"
    "deque_contents q = []" "mallocOk (deque_nodes q) = (\<lambda>_. True)"
    by (rule fresh_deque)
  from deque_clone_same [OF q(2,2), of "\<lambda>_. True"] show ?thesis using q by auto
qed

end
