(* ===== verification/VL_List.thy ===== *)
theory VL_List
  imports VL_Chain VL_Interfaces
begin

text \<open>
  The doubly linked list of \<^verbatim>\<open>src/core/vl_linked_list.c\<close>, but for its sort
  (\<^verbatim>\<open>VL_ListSort\<close>): a chain of pool slots with a head, a tail and a length, and iterators
  that are the indices of the slots.
\<close>

section \<open>State\<close>

type_synonym vl_list_iter = vl_pool_idx

abbreviation VL_LIST_ITER_INVALID :: vl_list_iter where
  "VL_LIST_ITER_INVALID \<equiv> VL_POOL_INVALID_IDX"

record 'a vl_linked_list =
  list_nodePool :: "'a link_node vl_pool"
  list_elementSize :: nat
  list_head :: vl_list_iter
  list_tail :: vl_list_iter
  list_length :: nat

section \<open>Operations\<close>

definition vlListInit :: "(nat \<Rightarrow> bool) \<Rightarrow> nat \<Rightarrow> 'a vl_linked_list option" where
  "vlListInit ok esize =
     do {
       pool \<leftarrow> vlPoolInit ok (u16_of (esize + 16));
       Some \<lparr>list_nodePool = pool, list_elementSize = esize, list_head = VL_LIST_ITER_INVALID,
             list_tail = VL_LIST_ITER_INVALID, list_length = 0\<rparr>
     }"

text \<open>The struct has 104 bytes; a failed allocation is passed on to \<^const>\<open>vlListInit\<close>.\<close>

definition vlListNew :: "(nat \<Rightarrow> bool) \<Rightarrow> nat \<Rightarrow> 'a vl_linked_list option" where
  "vlListNew ok esize = (if ok 104 then vlListInit ok esize else None)"

text \<open>\<^verbatim>\<open>vlListFree\<close> is a macro: only the pool is freed.\<close>

definition vlListFree :: "'a vl_linked_list \<Rightarrow> 'a vl_linked_list option" where
  "vlListFree list = do { pool \<leftarrow> vlPoolFree (list_nodePool list); Some (list\<lparr>list_nodePool := pool\<rparr>) }"

definition vlListDelete :: "'a vl_linked_list \<Rightarrow> unit option" where
  "vlListDelete list = do { _ \<leftarrow> vlListFree list; Some () }"

definition vlListSize :: "'a vl_linked_list \<Rightarrow> nat" where
  "vlListSize list = list_length list"

definition vlListPushFront :: "'a vl_linked_list \<Rightarrow> 'a \<Rightarrow> (vl_list_iter \<times> 'a vl_linked_list) option" where
  "vlListPushFront list elem =
     do {
       let oldHead = list_head list;
       (newHead, pool) \<leftarrow> vlPoolTake (list_nodePool list);
       pool \<leftarrow> vlPoolStore pool newHead
         \<lparr>node_prev = VL_LIST_ITER_INVALID, node_next = oldHead, node_data = elem\<rparr>;
       pool \<leftarrow> (if oldHead \<noteq> VL_LIST_ITER_INVALID
                then vlPoolModify pool oldHead (\<lambda>n. n\<lparr>node_prev := newHead\<rparr>) else Some pool);
       let list = list\<lparr>list_nodePool := pool\<rparr>;
       let list = (if list_tail list = VL_LIST_ITER_INVALID then list\<lparr>list_tail := newHead\<rparr> else list);
       Some (newHead, list\<lparr>list_head := newHead, list_length := inc32 (list_length list)\<rparr>)
     }"

text \<open>The branches for a single element leave \<^verbatim>\<open>length\<close> as it is.\<close>

definition vlListPopFront :: "'a vl_linked_list \<Rightarrow> 'a vl_linked_list option" where
  "vlListPopFront list =
     (if list_head list = VL_LIST_ITER_INVALID then Some list
      else if list_head list = list_tail list then
        do {
          pool \<leftarrow> vlPoolReturn (list_nodePool list) (list_head list);
          Some (list\<lparr>list_nodePool := pool, list_head := VL_LIST_ITER_INVALID,
                     list_tail := VL_LIST_ITER_INVALID\<rparr>)
        }
      else
        do {
          oldNode \<leftarrow> vlPoolSample (list_nodePool list) (list_head list);
          let rightIter = node_next oldNode;
          pool \<leftarrow> vlPoolModify (list_nodePool list) rightIter (\<lambda>n. n\<lparr>node_prev := VL_LIST_ITER_INVALID\<rparr>);
          pool \<leftarrow> vlPoolReturn pool (list_head list);
          Some (list\<lparr>list_nodePool := pool, list_head := rightIter,
                     list_length := dec32 (list_length list)\<rparr>)
        })"

definition vlListPushBack :: "'a vl_linked_list \<Rightarrow> 'a \<Rightarrow> (vl_list_iter \<times> 'a vl_linked_list) option" where
  "vlListPushBack list elem =
     do {
       let oldTail = list_tail list;
       (newTail, pool) \<leftarrow> vlPoolTake (list_nodePool list);
       pool \<leftarrow> vlPoolStore pool newTail
         \<lparr>node_prev = oldTail, node_next = VL_LIST_ITER_INVALID, node_data = elem\<rparr>;
       pool \<leftarrow> (if oldTail \<noteq> VL_LIST_ITER_INVALID
                then vlPoolModify pool oldTail (\<lambda>n. n\<lparr>node_next := newTail\<rparr>) else Some pool);
       let list = list\<lparr>list_nodePool := pool\<rparr>;
       let list = (if list_head list = VL_LIST_ITER_INVALID then list\<lparr>list_head := newTail\<rparr> else list);
       Some (newTail, list\<lparr>list_tail := newTail, list_length := inc32 (list_length list)\<rparr>)
     }"

definition vlListPopBack :: "'a vl_linked_list \<Rightarrow> 'a vl_linked_list option" where
  "vlListPopBack list =
     (if list_tail list = VL_LIST_ITER_INVALID then Some list
      else if list_head list = list_tail list then
        do {
          pool \<leftarrow> vlPoolReturn (list_nodePool list) (list_tail list);
          Some (list\<lparr>list_nodePool := pool, list_head := VL_LIST_ITER_INVALID,
                     list_tail := VL_LIST_ITER_INVALID\<rparr>)
        }
      else
        do {
          oldNode \<leftarrow> vlPoolSample (list_nodePool list) (list_tail list);
          let leftIter = node_prev oldNode;
          pool \<leftarrow> vlPoolModify (list_nodePool list) leftIter (\<lambda>n. n\<lparr>node_next := VL_LIST_ITER_INVALID\<rparr>);
          pool \<leftarrow> vlPoolReturn pool (list_tail list);
          Some (list\<lparr>list_nodePool := pool, list_tail := leftIter,
                     list_length := dec32 (list_length list)\<rparr>)
        })"

text \<open>
  The two insertions keep pointers to the neighbours across \<^verbatim>\<open>vlPoolTake\<close>: a block of a
  pool never moves, so they are indices here.
\<close>

definition vlListInsertAfter ::
  "'a vl_linked_list \<Rightarrow> vl_list_iter \<Rightarrow> 'a \<Rightarrow> (vl_list_iter \<times> 'a vl_linked_list) option" where
  "vlListInsertAfter list target elem =
     do {
       leftNode \<leftarrow> vlPoolSample (list_nodePool list) target;
       if node_next leftNode = VL_LIST_ITER_INVALID then vlListPushBack list elem
       else do {
         let rightIter = node_next leftNode;
         (newIter, pool) \<leftarrow> vlPoolTake (list_nodePool list);
         pool \<leftarrow> vlPoolStore pool newIter
           \<lparr>node_prev = target, node_next = rightIter, node_data = elem\<rparr>;
         pool \<leftarrow> vlPoolModify pool target (\<lambda>n. n\<lparr>node_next := newIter\<rparr>);
         pool \<leftarrow> vlPoolModify pool rightIter (\<lambda>n. n\<lparr>node_prev := newIter\<rparr>);
         Some (newIter, list\<lparr>list_nodePool := pool, list_length := inc32 (list_length list)\<rparr>)
       }
     }"

definition vlListInsertBefore ::
  "'a vl_linked_list \<Rightarrow> vl_list_iter \<Rightarrow> 'a \<Rightarrow> (vl_list_iter \<times> 'a vl_linked_list) option" where
  "vlListInsertBefore list target elem =
     do {
       rightNode \<leftarrow> vlPoolSample (list_nodePool list) target;
       if node_prev rightNode = VL_LIST_ITER_INVALID then vlListPushFront list elem
       else do {
         let leftIter = node_prev rightNode;
         (newIter, pool) \<leftarrow> vlPoolTake (list_nodePool list);
         pool \<leftarrow> vlPoolStore pool newIter
           \<lparr>node_prev = leftIter, node_next = target, node_data = elem\<rparr>;
         pool \<leftarrow> vlPoolModify pool leftIter (\<lambda>n. n\<lparr>node_next := newIter\<rparr>);
         pool \<leftarrow> vlPoolModify pool target (\<lambda>n. n\<lparr>node_prev := newIter\<rparr>);
         Some (newIter, list\<lparr>list_nodePool := pool, list_length := inc32 (list_length list)\<rparr>)
       }
     }"

definition vlListClone ::
  "(nat \<Rightarrow> bool) \<Rightarrow> 'a vl_linked_list \<Rightarrow> 'a vl_linked_list option \<Rightarrow> 'a vl_linked_list option" where
  "vlListClone ok src dest =
     do {
       dest \<leftarrow> (case dest of None \<Rightarrow> vlListNew ok (list_elementSize src) | Some d \<Rightarrow> Some d);
       pool \<leftarrow> vlPoolClone ok (list_nodePool src) (Some (list_nodePool dest));
       Some (dest\<lparr>list_nodePool := pool, list_head := list_head src, list_tail := list_tail src,
                  list_elementSize := list_elementSize src, list_length := list_length src\<rparr>)
     }"

definition vlListNext :: "'a vl_linked_list \<Rightarrow> vl_list_iter \<Rightarrow> vl_list_iter option" where
  "vlListNext list iter = do { node \<leftarrow> vlPoolSample (list_nodePool list) iter; Some (node_next node) }"

definition vlListPrev :: "'a vl_linked_list \<Rightarrow> vl_list_iter \<Rightarrow> vl_list_iter option" where
  "vlListPrev list iter = do { node \<leftarrow> vlPoolSample (list_nodePool list) iter; Some (node_prev node) }"

definition vlListSample :: "'a vl_linked_list \<Rightarrow> vl_list_iter \<Rightarrow> 'a option" where
  "vlListSample list iter = do { node \<leftarrow> vlPoolSample (list_nodePool list) iter; Some (node_data node) }"

text \<open>
  \<^verbatim>\<open>vlListCopy\<close> between two different lists. The count of copied elements is a signed 32-bit
  integer, whose overflow is undefined.
\<close>

partial_function (option) list_copy_loop ::
  "'a vl_linked_list \<Rightarrow> vl_list_iter \<Rightarrow> 'a vl_linked_list \<Rightarrow> vl_list_iter \<Rightarrow> vl_list_iter \<Rightarrow> nat \<Rightarrow>
   (nat \<times> 'a vl_linked_list) option" where
  [code]: "list_copy_loop src end dest curIter insertIter totalCopied =
     (if curIter = VL_LIST_ITER_INVALID then Some (totalCopied, dest)
      else do {
        elem \<leftarrow> vlListSample src curIter;
        (insertIter, dest) \<leftarrow> vlListInsertAfter dest insertIter elem;
        totalCopied \<leftarrow> (if totalCopied + 1 < 2 ^ 31 then Some (totalCopied + 1) else None);
        if curIter = end then Some (totalCopied, dest)
        else do {
          curIter \<leftarrow> vlListNext src curIter;
          list_copy_loop src end dest curIter insertIter totalCopied
        }
      })"

definition vlListCopy ::
  "'a vl_linked_list \<Rightarrow> vl_list_iter \<Rightarrow> vl_list_iter \<Rightarrow> 'a vl_linked_list \<Rightarrow> vl_list_iter \<Rightarrow>
   (nat \<times> 'a vl_linked_list) option" where
  "vlListCopy src begin end dest after =
     (if list_elementSize src \<noteq> list_elementSize dest then Some (0, dest)
      else
        let begin = (if begin = VL_LIST_ITER_INVALID then list_head src else begin);
            end = (if end = VL_LIST_ITER_INVALID then list_tail src else end)
        in list_copy_loop src end dest begin after 0)"

text \<open>\<^verbatim>\<open>vlListFind\<close>: \<^verbatim>\<open>memcmp\<close> of two elements is equality of their representations.\<close>

partial_function (option) list_find_loop ::
  "'a vl_linked_list \<Rightarrow> 'a \<Rightarrow> vl_list_iter \<Rightarrow> vl_list_iter option" where
  [code]: "list_find_loop src element curIter =
     (if curIter = VL_LIST_ITER_INVALID then Some VL_LIST_ITER_INVALID
      else do {
        data \<leftarrow> vlListSample src curIter;
        if data = element then Some curIter
        else do { curIter \<leftarrow> vlListNext src curIter; list_find_loop src element curIter }
      })"

definition vlListFind :: "'a vl_linked_list \<Rightarrow> 'a \<Rightarrow> vl_list_iter option" where
  "vlListFind src element = list_find_loop src element (list_head src)"

text \<open>\<^verbatim>\<open>vlListRemove\<close> leaves \<^verbatim>\<open>length\<close> as it is.\<close>

definition vlListRemove :: "'a vl_linked_list \<Rightarrow> vl_list_iter \<Rightarrow> 'a vl_linked_list option" where
  "vlListRemove list iter =
     do {
       oldNode \<leftarrow> vlPoolSample (list_nodePool list) iter;
       let leftIter = node_prev oldNode;
       let rightIter = node_next oldNode;
       list \<leftarrow> (if leftIter \<noteq> VL_LIST_ITER_INVALID then do {
                  pool \<leftarrow> vlPoolModify (list_nodePool list) leftIter (\<lambda>n. n\<lparr>node_next := rightIter\<rparr>);
                  Some (list\<lparr>list_nodePool := pool\<rparr>)
                } else Some (list\<lparr>list_head := rightIter\<rparr>));
       list \<leftarrow> (if rightIter \<noteq> VL_LIST_ITER_INVALID then do {
                  pool \<leftarrow> vlPoolModify (list_nodePool list) rightIter (\<lambda>n. n\<lparr>node_prev := leftIter\<rparr>);
                  Some (list\<lparr>list_nodePool := pool\<rparr>)
                } else Some (list\<lparr>list_tail := leftIter\<rparr>));
       let list = (if leftIter = VL_LIST_ITER_INVALID \<and> rightIter = VL_LIST_ITER_INVALID
                   then list\<lparr>list_head := VL_LIST_ITER_INVALID, list_tail := VL_LIST_ITER_INVALID\<rparr>
                   else list);
       pool \<leftarrow> vlPoolReturn (list_nodePool list) iter;
       Some (list\<lparr>list_nodePool := pool\<rparr>)
     }"

section \<open>The chain behind a list\<close>

definition list_rep :: "'a vl_linked_list \<Rightarrow> vl_list_iter list \<Rightarrow> bool" where
  "list_rep q xs \<longleftrightarrow>
     chain (list_nodePool q) xs \<and> list_head q = hd_or xs VL_LIST_ITER_INVALID \<and>
     list_tail q = last_or xs VL_LIST_ITER_INVALID"

definition list_inv :: "'a vl_linked_list \<Rightarrow> bool" where
  "list_inv q \<longleftrightarrow> (\<exists>xs. list_rep q xs)"

text \<open>The iterators of a list from head to tail, and the elements they stand for.\<close>

partial_function (option) iters_from :: "'a vl_linked_list \<Rightarrow> vl_list_iter \<Rightarrow> vl_list_iter list option" where
  [code]: "iters_from q cur =
     (if cur = VL_LIST_ITER_INVALID then Some []
      else do { nx \<leftarrow> vlListNext q cur; rest \<leftarrow> iters_from q nx; Some (cur # rest) })"

definition list_iters :: "'a vl_linked_list \<Rightarrow> vl_list_iter list" where
  "list_iters q = the (iters_from q (list_head q))"

definition list_contents :: "'a vl_linked_list \<Rightarrow> 'a list" where
  "list_contents q = map (\<lambda>i. the (vlListSample q i)) (list_iters q)"

lemma vlListNext_seg:
  "seg (vlPoolSample (list_nodePool q)) pv xs VL_LIST_ITER_INVALID \<Longrightarrow> VL_LIST_ITER_INVALID \<notin> set xs \<Longrightarrow>
   iters_from q (hd_or xs VL_LIST_ITER_INVALID) = Some xs"
proof (induction xs arbitrary: pv)
  case (Cons x xs)
  then show ?case by (subst iters_from.simps) (auto simp: vlListNext_def)
qed (simp add: iters_from.simps)

lemma list_iters_rep: "list_rep q xs \<Longrightarrow> list_iters q = xs"
  using vlListNext_seg [of q] chainD(4,5) [of "list_nodePool q" xs]
  by (simp add: list_rep_def list_iters_def)

lemma list_inv_rep: "list_inv q \<longleftrightarrow> list_rep q (list_iters q)"
  unfolding list_inv_def using list_iters_rep by blast

lemma list_rep_inv: "list_rep q xs \<Longrightarrow> list_inv q"
  by (auto simp: list_inv_def)

lemma vlListSample_chain:
  "chain (list_nodePool q) xs \<Longrightarrow> i \<in> set xs \<Longrightarrow>
   vlListSample q i = Some (node_data (the (vlPoolSample (list_nodePool q) i)))"
  using seg_sample [OF chainD(4), of "list_nodePool q" xs i] by (auto simp: vlListSample_def)

lemma list_contents_rep:
  assumes "list_rep q xs"
  shows "list_contents q = chain_data (list_nodePool q) xs"
  using vlListSample_chain [of q xs] assms
  by (simp add: list_contents_def list_iters_rep [OF assms] seg_data_def list_rep_def)

section \<open>What an insertion and a deletion do\<close>

text \<open>
  \<open>list_inserts q k v i q'\<close>: in \<open>q'\<close> the new iterator \<open>i\<close> stands for \<open>v\<close> at position \<open>k\<close>, and
  every other iterator stands for the element it stood for in \<open>q\<close>.
\<close>

definition list_inserts ::
  "'a vl_linked_list \<Rightarrow> nat \<Rightarrow> 'a \<Rightarrow> vl_list_iter \<Rightarrow> 'a vl_linked_list \<Rightarrow> bool" where
  "list_inserts q k v i q' \<longleftrightarrow>
     list_inv q' \<and> i \<notin> set (list_iters q) \<and> i \<noteq> VL_LIST_ITER_INVALID \<and>
     list_iters q' = take k (list_iters q) @ i # drop k (list_iters q) \<and>
     list_contents q' = take k (list_contents q) @ v # drop k (list_contents q) \<and>
     (\<forall>j \<in> set (list_iters q). vlListSample q' j = vlListSample q j) \<and>
     list_length q' = inc32 (list_length q) \<and> list_elementSize q' = list_elementSize q"

text \<open>\<open>list_deletes q k q'\<close>: the iterator at position \<open>k\<close> is gone, the others are as before.\<close>

definition list_deletes :: "'a vl_linked_list \<Rightarrow> nat \<Rightarrow> 'a vl_linked_list \<Rightarrow> bool" where
  "list_deletes q k q' \<longleftrightarrow>
     list_inv q' \<and> list_iters q' = take k (list_iters q) @ drop (Suc k) (list_iters q) \<and>
     list_contents q' = take k (list_contents q) @ drop (Suc k) (list_contents q) \<and>
     (\<forall>j \<in> set (list_iters q'). vlListSample q' j = vlListSample q j)"

lemma seg_data_pointwise:
  "seg_data m xs = seg_data m' xs \<Longrightarrow> x \<in> set xs \<Longrightarrow> node_data (the (m x)) = node_data (the (m' x))"
  by (simp add: seg_data_def)

lemma list_sample_same:
  assumes "chain (list_nodePool q) as" and "chain (list_nodePool q') bs"
    and "chain_data (list_nodePool q') js = chain_data (list_nodePool q) js"
    and "j \<in> set js" and "set js \<subseteq> set as" and "set js \<subseteq> set bs"
  shows "vlListSample q' j = vlListSample q j"
  using vlListSample_chain [OF assms(1), of j] vlListSample_chain [OF assms(2), of j]
    seg_data_pointwise [OF assms(3,4)] subsetD [OF assms(5,4)] subsetD [OF assms(6,4)] by simp

lemma list_insertsI:
  assumes rep: "list_rep q (xs @ ys)" and ch: "chain (list_nodePool q') (xs @ i # ys)"
    and dt: "chain_data (list_nodePool q') (xs @ i # ys) =
      chain_data (list_nodePool q) xs @ v # chain_data (list_nodePool q) ys"
    and hd: "list_head q' = hd_or xs i" and tl: "list_tail q' = last_or ys i"
    and "list_length q' = inc32 (list_length q)" and "list_elementSize q' = list_elementSize q"
  shows "list_inserts q (length xs) v i q'"
proof -
  have rep': "list_rep q' (xs @ i # ys)" using ch hd tl by (simp add: list_rep_def)
  have same: "chain_data (list_nodePool q') (xs @ ys) = chain_data (list_nodePool q) (xs @ ys)"
    using dt by simp
  have "vlListSample q' j = vlListSample q j" if "j \<in> set (xs @ ys)" for j
    by (rule list_sample_same [OF _ ch same that]) (use rep in \<open>auto simp: list_rep_def\<close>)
  moreover have "i \<notin> set (xs @ ys)" "i \<noteq> VL_LIST_ITER_INVALID" using chainD(3,5) [OF ch] by auto
  moreover have "list_contents q' = take (length xs) (list_contents q) @ v # drop (length xs) (list_contents q)"
    unfolding list_contents_rep [OF rep] list_contents_rep [OF rep'] using dt by simp
  ultimately show ?thesis
    using assms(6,7) list_rep_inv [OF rep']
    by (simp add: list_inserts_def list_iters_rep [OF rep] list_iters_rep [OF rep'])
qed

lemma list_deletesI:
  assumes rep: "list_rep q (xs @ i # ys)" and rep': "list_rep q' (xs @ ys)"
    and dt: "chain_data (list_nodePool q') (xs @ ys) =
      chain_data (list_nodePool q) xs @ chain_data (list_nodePool q) ys"
  shows "list_deletes q (length xs) q'"
proof -
  have same: "chain_data (list_nodePool q') (xs @ ys) = chain_data (list_nodePool q) (xs @ ys)"
    using dt by simp
  have "vlListSample q' j = vlListSample q j" if "j \<in> set (xs @ ys)" for j
    by (rule list_sample_same [OF _ _ same that]) (use rep rep' in \<open>auto simp: list_rep_def\<close>)
  moreover have "list_contents q' = take (length xs) (list_contents q) @ drop (Suc (length xs)) (list_contents q)"
    unfolding list_contents_rep [OF rep] list_contents_rep [OF rep'] using dt by simp
  ultimately show ?thesis
    using list_rep_inv [OF rep']
    by (simp add: list_deletes_def list_iters_rep [OF rep] list_iters_rep [OF rep'])
qed

section \<open>Insertion\<close>

lemma vlListPushFront_rep:
  assumes rep: "list_rep q xs" and ready: "pool_ready (list_nodePool q)"
  obtains i q' where "vlListPushFront q v = Some (i, q')" "list_inserts q 0 v i q'"
    "pool_room (list_nodePool q) - 1 \<le> pool_room (list_nodePool q')"
    "\<forall>n. pool_can_return (list_nodePool q) n \<longrightarrow> pool_can_return (list_nodePool q') n"
proof -
  have ch: "chain (list_nodePool q) xs" using rep by (simp add: list_rep_def)
  from ch ready obtain i p1 p2 p3 where s: "vlPoolTake (list_nodePool q) = Some (i, p1)"
    "vlPoolStore p1 i \<lparr>node_prev = VL_POOL_INVALID_IDX,
       node_next = hd_or xs VL_POOL_INVALID_IDX, node_data = v\<rparr> = Some p2"
    "(if hd_or xs VL_POOL_INVALID_IDX \<noteq> VL_POOL_INVALID_IDX
      then vlPoolModify p2 (hd_or xs VL_POOL_INVALID_IDX) (\<lambda>n. n\<lparr>node_prev := i\<rparr>) else Some p2) = Some p3"
    "chain p3 (i # xs)" "chain_data p3 (i # xs) = v # chain_data (list_nodePool q) xs"
    "i \<noteq> VL_POOL_INVALID_IDX" "pool_room (list_nodePool q) - 1 \<le> pool_room p3"
    "\<forall>n. pool_can_return (list_nodePool q) n \<longrightarrow> pool_can_return p3 n"
    by (rule chain_push_front [where v = v])
  define q' where "q' = q\<lparr>list_nodePool := p3, list_head := i, list_tail := last_or xs i,
    list_length := inc32 (list_length q)\<rparr>"
  have "vlListPushFront q v = Some (i, q')"
    using rep s(1-3) chain_ends [OF ch]
    by (cases xs) (auto simp: vlListPushFront_def Let_def list_rep_def q'_def)
  moreover have "list_inserts q 0 v i q'"
    using list_insertsI [of q "[]" xs q' i v] rep s(4,5) by (simp add: q'_def)
  ultimately show thesis using s(7,8) by (intro that [of i q']) (simp_all add: q'_def)
qed

lemma vlListPushBack_rep:
  assumes rep: "list_rep q xs" and ready: "pool_ready (list_nodePool q)"
  obtains i q' where "vlListPushBack q v = Some (i, q')" "list_inserts q (length xs) v i q'"
    "pool_room (list_nodePool q) - 1 \<le> pool_room (list_nodePool q')"
    "\<forall>n. pool_can_return (list_nodePool q) n \<longrightarrow> pool_can_return (list_nodePool q') n"
proof -
  have ch: "chain (list_nodePool q) xs" using rep by (simp add: list_rep_def)
  from ch ready obtain i p1 p2 p3 where s: "vlPoolTake (list_nodePool q) = Some (i, p1)"
    "vlPoolStore p1 i \<lparr>node_prev = last_or xs VL_POOL_INVALID_IDX,
       node_next = VL_POOL_INVALID_IDX, node_data = v\<rparr> = Some p2"
    "(if last_or xs VL_POOL_INVALID_IDX \<noteq> VL_POOL_INVALID_IDX
      then vlPoolModify p2 (last_or xs VL_POOL_INVALID_IDX) (\<lambda>n. n\<lparr>node_next := i\<rparr>) else Some p2) = Some p3"
    "chain p3 (xs @ [i])" "chain_data p3 (xs @ [i]) = chain_data (list_nodePool q) xs @ [v]"
    "i \<noteq> VL_POOL_INVALID_IDX" "pool_room (list_nodePool q) - 1 \<le> pool_room p3"
    "\<forall>n. pool_can_return (list_nodePool q) n \<longrightarrow> pool_can_return p3 n"
    by (rule chain_push_back [where v = v])
  define q' where "q' = q\<lparr>list_nodePool := p3, list_head := hd_or xs i, list_tail := i,
    list_length := inc32 (list_length q)\<rparr>"
  have "vlListPushBack q v = Some (i, q')"
    using rep s(1-3) chain_ends [OF ch]
    by (cases xs) (auto simp: vlListPushBack_def Let_def list_rep_def q'_def)
  moreover have "list_inserts q (length xs) v i q'"
    using rep s(4,5) by (intro list_insertsI [of q xs "[]"]) (simp_all add: q'_def)
  ultimately show thesis using s(7,8) by (intro that [of i q']) (simp_all add: q'_def)
qed

text \<open>An insertion between two nodes, as both \<^verbatim>\<open>vlListInsertAfter\<close> and \<^verbatim>\<open>vlListInsertBefore\<close> do it.\<close>

lemma list_insert_between:
  assumes rep: "list_rep q (xs @ ys)" and ne: "xs \<noteq> []" "ys \<noteq> []" and ready: "pool_ready (list_nodePool q)"
  obtains i p1 p2 p3 p4 where "vlPoolTake (list_nodePool q) = Some (i, p1)"
    "vlPoolStore p1 i \<lparr>node_prev = last xs, node_next = hd ys, node_data = v\<rparr> = Some p2"
    "vlPoolModify p2 (last xs) (\<lambda>n. n\<lparr>node_next := i\<rparr>) = Some p3"
    "vlPoolModify p3 (hd ys) (\<lambda>n. n\<lparr>node_prev := i\<rparr>) = Some p4"
    "list_inserts q (length xs) v i (q\<lparr>list_nodePool := p4, list_length := inc32 (list_length q)\<rparr>)"
    "pool_room (list_nodePool q) - 1 \<le> pool_room p4"
    "\<forall>n. pool_can_return (list_nodePool q) n \<longrightarrow> pool_can_return p4 n"
proof -
  let ?N = VL_LIST_ITER_INVALID
  have ch: "chain (list_nodePool q) (xs @ ys)" using rep by (simp add: list_rep_def)
  have e: "last_or xs ?N = last xs" "hd_or ys ?N = hd ys" "last_or ys j = last ys" "hd_or xs j = hd xs" for j
    using ne by (simp_all add: last_or_def hd_or_def split: list.splits)
  obtain i p1 p2 p3 p4 where s: "vlPoolTake (list_nodePool q) = Some (i, p1)"
    "vlPoolStore p1 i \<lparr>node_prev = last_or xs ?N, node_next = hd_or ys ?N, node_data = v\<rparr> = Some p2"
    "set_next p2 xs i = Some p3" "set_prev p3 ys i = Some p4" "chain p4 (xs @ i # ys)"
    "chain_data p4 (xs @ i # ys) = chain_data (list_nodePool q) xs @ v # chain_data (list_nodePool q) ys"
    "pool_room (list_nodePool q) - 1 \<le> pool_room p4"
    "\<And>n. pool_can_return (list_nodePool q) n \<Longrightarrow> pool_can_return p4 n"
    by (rule chain_insert [OF ch ready, of v]) blast
  have "list_inserts q (length xs) v i (q\<lparr>list_nodePool := p4, list_length := inc32 (list_length q)\<rparr>)"
    by (rule list_insertsI [OF rep]) (use s(5,6) rep e in \<open>simp_all add: list_rep_def\<close>)
  with s show thesis using ne e by (intro that [of i p1 p2 p3 p4]) (simp_all add: set_next_def set_prev_def)
qed

lemma vlListInsertAfter_rep:
  assumes rep: "list_rep q (xs @ target # ys)" and ready: "pool_ready (list_nodePool q)"
  obtains i q' where "vlListInsertAfter q target v = Some (i, q')" "list_inserts q (Suc (length xs)) v i q'"
    "pool_room (list_nodePool q) - 1 \<le> pool_room (list_nodePool q')"
    "\<forall>n. pool_can_return (list_nodePool q) n \<longrightarrow> pool_can_return (list_nodePool q') n"
proof -
  let ?N = VL_LIST_ITER_INVALID
  have ch: "chain (list_nodePool q) (xs @ target # ys)" using rep by (simp add: list_rep_def)
  obtain w where smp: "vlPoolSample (list_nodePool q) target =
      Some \<lparr>node_prev = last_or xs ?N, node_next = hd_or ys ?N, node_data = w\<rparr>"
    using chain_sample [OF ch] by blast
  show thesis
  proof (cases ys)
    case Nil
    from rep ready obtain i q' where "vlListPushBack q v = Some (i, q')"
      "list_inserts q (length (xs @ target # ys)) v i q'"
      "pool_room (list_nodePool q) - 1 \<le> pool_room (list_nodePool q')"
      "\<forall>n. pool_can_return (list_nodePool q) n \<longrightarrow> pool_can_return (list_nodePool q') n"
      by (rule vlListPushBack_rep [where v = v])
    then show thesis using Nil smp by (intro that [of i q']) (simp_all add: vlListInsertAfter_def)
  next
    case (Cons y zs)
    have nx: "hd_or ys ?N = y" "y \<noteq> ?N" using Cons chainD(5) [OF ch] by auto
    from rep have rep2: "list_rep q ((xs @ [target]) @ ys)" by simp
    obtain i p1 p2 p3 p4 where s: "vlPoolTake (list_nodePool q) = Some (i, p1)"
      "vlPoolStore p1 i \<lparr>node_prev = last (xs @ [target]), node_next = hd ys, node_data = v\<rparr> = Some p2"
      "vlPoolModify p2 (last (xs @ [target])) (\<lambda>n. n\<lparr>node_next := i\<rparr>) = Some p3"
      "vlPoolModify p3 (hd ys) (\<lambda>n. n\<lparr>node_prev := i\<rparr>) = Some p4"
      "list_inserts q (length (xs @ [target])) v i (q\<lparr>list_nodePool := p4, list_length := inc32 (list_length q)\<rparr>)"
      "pool_room (list_nodePool q) - 1 \<le> pool_room p4"
      "\<forall>n. pool_can_return (list_nodePool q) n \<longrightarrow> pool_can_return p4 n"
      by (rule list_insert_between [OF rep2 _ _ ready, of v]) (simp_all add: Cons)
    then have "vlListInsertAfter q target v =
        Some (i, q\<lparr>list_nodePool := p4, list_length := inc32 (list_length q)\<rparr>)"
      using smp nx Cons by (simp add: vlListInsertAfter_def Let_def)
    then show thesis by (rule that) (use s(5-7) in simp_all)
  qed
qed

lemma vlListInsertBefore_rep:
  assumes rep: "list_rep q (xs @ target # ys)" and ready: "pool_ready (list_nodePool q)"
  obtains i q' where "vlListInsertBefore q target v = Some (i, q')" "list_inserts q (length xs) v i q'"
    "pool_room (list_nodePool q) - 1 \<le> pool_room (list_nodePool q')"
    "\<forall>n. pool_can_return (list_nodePool q) n \<longrightarrow> pool_can_return (list_nodePool q') n"
proof -
  let ?N = VL_LIST_ITER_INVALID
  have ch: "chain (list_nodePool q) (xs @ target # ys)" using rep by (simp add: list_rep_def)
  obtain w where smp: "vlPoolSample (list_nodePool q) target =
      Some \<lparr>node_prev = last_or xs ?N, node_next = hd_or ys ?N, node_data = w\<rparr>"
    using chain_sample [OF ch] by blast
  show thesis
  proof (cases xs rule: rev_cases)
    case Nil
    from rep ready obtain i q' where "vlListPushFront q v = Some (i, q')" "list_inserts q 0 v i q'"
      "pool_room (list_nodePool q) - 1 \<le> pool_room (list_nodePool q')"
      "\<forall>n. pool_can_return (list_nodePool q) n \<longrightarrow> pool_can_return (list_nodePool q') n"
      by (rule vlListPushFront_rep [where v = v])
    then show thesis using Nil smp by (intro that [of i q']) (simp_all add: vlListInsertBefore_def)
  next
    case (snoc zs z)
    have pv: "last_or xs ?N = z" "z \<noteq> ?N" "xs \<noteq> []" "last xs = z" using snoc chainD(5) [OF ch] by auto
    obtain i p1 p2 p3 p4 where s: "vlPoolTake (list_nodePool q) = Some (i, p1)"
      "vlPoolStore p1 i \<lparr>node_prev = last xs, node_next = hd (target # ys), node_data = v\<rparr> = Some p2"
      "vlPoolModify p2 (last xs) (\<lambda>n. n\<lparr>node_next := i\<rparr>) = Some p3"
      "vlPoolModify p3 (hd (target # ys)) (\<lambda>n. n\<lparr>node_prev := i\<rparr>) = Some p4"
      "list_inserts q (length xs) v i (q\<lparr>list_nodePool := p4, list_length := inc32 (list_length q)\<rparr>)"
      "pool_room (list_nodePool q) - 1 \<le> pool_room p4"
      "\<forall>n. pool_can_return (list_nodePool q) n \<longrightarrow> pool_can_return p4 n"
      by (rule list_insert_between [OF rep pv(3) _ ready, of v]) simp
    then have "vlListInsertBefore q target v =
        Some (i, q\<lparr>list_nodePool := p4, list_length := inc32 (list_length q)\<rparr>)"
      using smp pv by (simp add: vlListInsertBefore_def Let_def)
    then show thesis by (rule that) (use s(5-7) in simp_all)
  qed
qed

section \<open>Deletion\<close>

lemma vlListPopFront_rep:
  assumes rep: "list_rep q (i # xs)" and can: "pool_can_return (list_nodePool q) (Suc n)"
  obtains q' where "vlListPopFront q = Some q'" "list_deletes q 0 q'"
    "list_length q' = (if xs = [] then list_length q else dec32 (list_length q))"
    "pool_can_return (list_nodePool q') n"
    "pool_room (list_nodePool q') = pool_room (list_nodePool q) + 1"
proof -
  let ?N = VL_LIST_ITER_INVALID
  have ch: "chain (list_nodePool q) (i # xs)" using rep by (simp add: list_rep_def)
  obtain w where smp: "vlPoolSample (list_nodePool q) i =
      Some \<lparr>node_prev = ?N, node_next = hd_or xs ?N, node_data = w\<rparr>"
    using chain_sample [of "list_nodePool q" "[]" i xs] ch by auto
  have N: "i \<noteq> ?N" using chainD(5) [OF ch] by auto
  have ends: "list_head q = i" "list_tail q = last_or xs i" using rep by (simp_all add: list_rep_def)
  from ch can obtain p1 p2 where s: "(if xs = [] then Some (list_nodePool q)
      else vlPoolModify (list_nodePool q) (hd_or xs ?N) (\<lambda>n. n\<lparr>node_prev := ?N\<rparr>)) = Some p1"
    "vlPoolReturn p1 i = Some p2" "chain p2 xs" "chain_data p2 xs = chain_data (list_nodePool q) xs"
    "pool_room p2 = pool_room (list_nodePool q) + 1" "pool_can_return p2 n"
    by (rule chain_pop_front)
  define q' where "q' = q\<lparr>list_nodePool := p2, list_head := hd_or xs ?N, list_tail := last_or xs ?N,
    list_length := (if xs = [] then list_length q else dec32 (list_length q))\<rparr>"
  have sgl: "list_head q = list_tail q \<longleftrightarrow> xs = []"
    using chain_ends(3) [OF ch] ends by (cases xs) auto
  have "vlListPopFront q = Some q'"
  proof (cases "xs = []")
    case True
    then show ?thesis using s(1,2) sgl N by (simp add: vlListPopFront_def ends q'_def)
  next
    case False
    then have "q\<lparr>list_nodePool := p2, list_head := hd_or xs ?N, list_length := dec32 (list_length q)\<rparr> = q'"
      using ends by (auto simp: q'_def last_or_def)
    with False show ?thesis
      using s(1,2) smp N sgl by (simp add: vlListPopFront_def Let_def ends)
  qed
  moreover have "list_deletes q 0 q'"
    using list_deletesI [of q "[]" i xs q'] rep s(3,4) by (simp add: list_rep_def q'_def)
  ultimately show thesis using s(5,6) by (intro that [of q']) (simp_all add: q'_def)
qed

lemma vlListPopBack_rep:
  assumes rep: "list_rep q (xs @ [i])" and can: "pool_can_return (list_nodePool q) (Suc n)"
  obtains q' where "vlListPopBack q = Some q'" "list_deletes q (length xs) q'"
    "list_length q' = (if xs = [] then list_length q else dec32 (list_length q))"
    "pool_can_return (list_nodePool q') n"
    "pool_room (list_nodePool q') = pool_room (list_nodePool q) + 1"
proof -
  let ?N = VL_LIST_ITER_INVALID
  have ch: "chain (list_nodePool q) (xs @ [i])" using rep by (simp add: list_rep_def)
  obtain w where smp: "vlPoolSample (list_nodePool q) i =
      Some \<lparr>node_prev = last_or xs ?N, node_next = ?N, node_data = w\<rparr>"
    using chain_sample [of "list_nodePool q" xs i "[]"] ch by auto
  have N: "i \<noteq> ?N" using chainD(5) [OF ch] by auto
  have ends: "list_head q = hd_or xs i" "list_tail q = i" using rep by (simp_all add: list_rep_def)
  from ch can obtain p1 p2 where s: "(if xs = [] then Some (list_nodePool q)
      else vlPoolModify (list_nodePool q) (last_or xs ?N) (\<lambda>n. n\<lparr>node_next := ?N\<rparr>)) = Some p1"
    "vlPoolReturn p1 i = Some p2" "chain p2 xs" "chain_data p2 xs = chain_data (list_nodePool q) xs"
    "pool_room p2 = pool_room (list_nodePool q) + 1" "pool_can_return p2 n"
    by (rule chain_pop_back)
  define q' where "q' = q\<lparr>list_nodePool := p2, list_head := hd_or xs ?N, list_tail := last_or xs ?N,
    list_length := (if xs = [] then list_length q else dec32 (list_length q))\<rparr>"
  have sgl: "list_head q = list_tail q \<longleftrightarrow> xs = []"
    using chain_ends(3) [OF ch] ends by (cases xs) auto
  have "vlListPopBack q = Some q'"
  proof (cases "xs = []")
    case True
    then show ?thesis using s(1,2) sgl N by (simp add: vlListPopBack_def ends q'_def)
  next
    case False
    then have "q\<lparr>list_nodePool := p2, list_tail := last_or xs ?N, list_length := dec32 (list_length q)\<rparr> = q'"
      using ends by (cases xs) (auto simp: q'_def)
    with False show ?thesis
      using s(1,2) smp N sgl by (simp add: vlListPopBack_def Let_def ends)
  qed
  moreover have "list_deletes q (length xs) q'"
    using list_deletesI [of q xs i "[]" q'] rep s(3,4) by (simp add: list_rep_def q'_def)
  ultimately show thesis using s(5,6) by (intro that [of q']) (simp_all add: q'_def)
qed

lemma vlListRemove_rep:
  assumes rep: "list_rep q (xs @ i # ys)" and can: "pool_can_return (list_nodePool q) (Suc n)"
  obtains q' where "vlListRemove q i = Some q'" "list_deletes q (length xs) q'"
    "list_length q' = list_length q" "pool_can_return (list_nodePool q') n"
    "pool_room (list_nodePool q') = pool_room (list_nodePool q) + 1"
proof -
  let ?N = VL_LIST_ITER_INVALID
  have ch: "chain (list_nodePool q) (xs @ i # ys)" using rep by (simp add: list_rep_def)
  obtain w where smp: "vlPoolSample (list_nodePool q) i =
      Some \<lparr>node_prev = last_or xs ?N, node_next = hd_or ys ?N, node_data = w\<rparr>"
    using chain_sample [OF ch] by blast
  have e: "last_or xs ?N = ?N \<longleftrightarrow> xs = []" "hd_or ys ?N = ?N \<longleftrightarrow> ys = []"
    using chainD(5) [OF ch] last_or_in [of xs ?N] hd_or_in [of ys ?N] by (auto, metis+)
  from ch can obtain p1 p2 p3 where s: "set_next (list_nodePool q) xs (hd_or ys ?N) = Some p1"
    "set_prev p1 ys (last_or xs ?N) = Some p2" "vlPoolReturn p2 i = Some p3" "chain p3 (xs @ ys)"
    "chain_data p3 (xs @ ys) = chain_data (list_nodePool q) xs @ chain_data (list_nodePool q) ys"
    "pool_room p3 = pool_room (list_nodePool q) + 1" "pool_can_return p3 n"
    by (rule chain_delete)
  define q' where "q' = q\<lparr>list_nodePool := p3, list_head := hd_or (xs @ ys) ?N,
    list_tail := last_or (xs @ ys) ?N\<rparr>"
  have s1: "xs \<noteq> [] \<Longrightarrow> vlPoolModify (list_nodePool q) (last_or xs ?N) (\<lambda>n. n\<lparr>node_next := hd_or ys ?N\<rparr>) = Some p1"
    "xs = [] \<Longrightarrow> p1 = list_nodePool q"
    using s(1) by (auto simp: set_next_def last_or_def)
  have s2: "ys \<noteq> [] \<Longrightarrow> vlPoolModify p1 (hd_or ys ?N) (\<lambda>n. n\<lparr>node_prev := last_or xs ?N\<rparr>) = Some p2"
    "ys = [] \<Longrightarrow> p2 = p1"
    using s(2) by (auto simp: set_prev_def hd_or_def split: list.splits)
  have ends: "list_head q = hd_or xs i" "list_tail q = last_or ys i" using rep by (simp_all add: list_rep_def)
  have hd: "xs \<noteq> [] \<Longrightarrow> hd_or xs d = list_head q" "ys \<noteq> [] \<Longrightarrow> last_or ys d = list_tail q" for d
    unfolding ends by (cases xs; simp) (cases ys; simp)
  have "vlListRemove q i = Some q'"
    using smp e s1 s2 s(3) hd
    by (cases "xs = []"; cases "ys = []") (simp_all add: vlListRemove_def Let_def q'_def)
  moreover have "list_deletes q (length xs) q'"
    using list_deletesI [of q xs i ys q'] rep s(4,5) by (simp add: list_rep_def q'_def)
  ultimately show thesis using s(6,7) by (intro that [of q']) (simp_all add: q'_def)
qed

section \<open>Walking, finding and copying\<close>

lemma list_neighbours:
  assumes "list_rep q (xs @ i # ys)"
  shows "vlListNext q i = Some (hd_or ys VL_LIST_ITER_INVALID)"
    and "vlListPrev q i = Some (last_or xs VL_LIST_ITER_INVALID)"
  using chain_sample [of "list_nodePool q" xs i ys] assms
  by (auto simp: list_rep_def vlListNext_def vlListPrev_def)

lemma list_sample_in: "list_rep q xs \<Longrightarrow> i \<in> set xs \<Longrightarrow> \<exists>v. vlListSample q i = Some v"
  using vlListSample_chain by (auto simp: list_rep_def)

lemma list_rep_not_invalid: "list_rep q xs \<Longrightarrow> VL_LIST_ITER_INVALID \<notin> set xs"
  using chainD(5) by (auto simp: list_rep_def)

lemma list_find_loop_eq:
  assumes "list_rep q (xs @ ys)"
  shows "list_find_loop q e (hd_or ys VL_LIST_ITER_INVALID) =
    Some (hd_or (filter (\<lambda>i. vlListSample q i = Some e) ys) VL_LIST_ITER_INVALID)"
  using assms
proof (induction ys arbitrary: xs)
  case Nil
  then show ?case by (simp add: list_find_loop.simps)
next
  case (Cons y ys)
  obtain v where v: "vlListSample q y = Some v" using list_sample_in [OF Cons.prems] by auto
  have ny: "y \<noteq> VL_LIST_ITER_INVALID" using list_rep_not_invalid [OF Cons.prems] by auto
  have "list_find_loop q e (hd_or ys VL_LIST_ITER_INVALID) =
      Some (hd_or (filter (\<lambda>i. vlListSample q i = Some e) ys) VL_LIST_ITER_INVALID)"
    using Cons.IH [of "xs @ [y]"] Cons.prems by simp
  then show ?case
    using v ny list_neighbours(1) [OF Cons.prems] by (subst list_find_loop.simps) simp
qed

lemma vlListFind_eq:
  assumes "list_inv q"
  shows "vlListFind q e =
    Some (hd_or (filter (\<lambda>i. vlListSample q i = Some e) (list_iters q)) VL_LIST_ITER_INVALID)"
proof -
  have rep: "list_rep q ([] @ list_iters q)" using assms by (simp add: list_inv_rep)
  then show ?thesis
    using list_find_loop_eq [OF rep, of e] by (simp add: vlListFind_def list_rep_def)
qed

lemma list_inserts_iters:
  assumes "list_inserts q k v i q'" and "list_iters q = xs @ ys" and "length xs = k"
  shows "list_iters q' = xs @ i # ys" and "list_rep q' (xs @ i # ys)"
  using assms by (auto simp: list_inserts_def list_inv_rep)

text \<open>
  The loop of \<^verbatim>\<open>vlListCopy\<close>: the nodes \<open>mid\<close> of the source are still to be copied behind the
  node \<open>t\<close> of the destination.
\<close>

lemma list_copy_loop_eq:
  assumes "list_rep src (us @ mid @ ws)" and "mid \<noteq> []"
    and "list_inv dest" and "list_iters dest = as @ t # bs"
    and "length mid \<le> pool_room (list_nodePool dest)" and "n + length mid < 2 ^ 31"
  shows "\<exists>dest'. list_copy_loop src (last mid) dest (hd mid) t n = Some (n + length mid, dest') \<and>
    list_inv dest' \<and>
    list_contents dest' = take (Suc (length as)) (list_contents dest) @
      map (\<lambda>i. the (vlListSample src i)) mid @ drop (Suc (length as)) (list_contents dest)"
  using assms
proof (induction mid arbitrary: us dest as t n)
  case Nil
  then show ?case by simp
next
  case (Cons x mid)
  let ?N = VL_LIST_ITER_INVALID
  have src: "list_rep src (us @ x # (mid @ ws))" using Cons.prems(1) by simp
  obtain v where v: "vlListSample src x = Some v" using list_sample_in [OF src] by auto
  have nx: "x \<noteq> ?N" using list_rep_not_invalid [OF src] by auto
  have rep: "list_rep dest (as @ t # bs)" using Cons.prems(3,4) by (simp add: list_inv_rep)
  have "pool_ready (list_nodePool dest)" using Cons.prems(5) by (intro slots.room_ready) simp
  with rep obtain i d1 where d1: "vlListInsertAfter dest t v = Some (i, d1)"
    "list_inserts dest (Suc (length as)) v i d1"
    "pool_room (list_nodePool dest) - 1 \<le> pool_room (list_nodePool d1)"
    by (rule vlListInsertAfter_rep [where v = v]) blast
  have it: "list_iters d1 = (as @ [t]) @ i # bs"
    by (rule list_inserts_iters [OF d1(2)]) (simp_all add: Cons.prems(4))
  have inv1: "list_inv d1" using d1(2) by (simp add: list_inserts_def)
  have len: "length (list_contents dest) = length as + Suc (length bs)"
    using Cons.prems(4) by (simp add: list_contents_def)
  have c1: "list_contents d1 = take (Suc (length as)) (list_contents dest) @ v #
      drop (Suc (length as)) (list_contents dest)"
    using d1(2) by (simp add: list_inserts_def)
  show ?case
  proof (cases "mid = []")
    case True
    then show ?thesis
      using v nx d1(1) Cons.prems(6) inv1 c1
      by (subst list_copy_loop.simps) simp
  next
    case False
    have neq: "x \<noteq> last mid"
      using src False chainD(3) [of "list_nodePool src"] last_in_set [OF False]
      unfolding list_rep_def by fastforce
    have "vlListNext src x = Some (hd mid)"
      using list_neighbours(1) [OF src] False by (cases mid) simp_all
    then have "list_copy_loop src (last (x # mid)) dest (hd (x # mid)) t n =
        list_copy_loop src (last mid) d1 (hd mid) i (Suc n)"
      using v nx d1(1) Cons.prems(6) False neq by (subst list_copy_loop.simps) simp
    moreover have "\<exists>dest'. list_copy_loop src (last mid) d1 (hd mid) i (Suc n) =
        Some (Suc n + length mid, dest') \<and> list_inv dest' \<and>
        list_contents dest' = take (Suc (length (as @ [t]))) (list_contents d1) @
          map (\<lambda>i. the (vlListSample src i)) mid @ drop (Suc (length (as @ [t]))) (list_contents d1)"
      by (rule Cons.IH [of "us @ [x]"]) (use Cons.prems False inv1 it d1(3) in simp_all)
    ultimately show ?thesis using v len by (simp add: c1)
  qed
qed

section \<open>Initialising and cloning\<close>

lemma vlListInit_ok:
  assumes "\<forall>b < 2 ^ 20. ok b" and "esize + 16 < 2 ^ 15"
  obtains q E where "vlListInit ok esize = Some q" "list_rep q []" "list_length q = 0"
    "list_elementSize q = esize" "list_nodePool q = fresh_pool ok E 8" "E < 2 ^ 16"
proof -
  have u: "u16_of (esize + 16) = esize + 16" using assms(2) by (simp add: u16_of_def)
  obtain E where E: "vlPoolInit ok (esize + 16) = Some (fresh_pool ok E 8 :: 'a link_node vl_pool)"
    "0 < E" "E < 2 ^ 16"
    by (rule vlPoolInit_ok [OF assms(1), of "esize + 16"]) (use assms(2) in auto)
  let ?q = "\<lparr>list_nodePool = fresh_pool ok E 8, list_elementSize = esize,
    list_head = VL_POOL_INVALID_IDX, list_tail = VL_POOL_INVALID_IDX, list_length = 0\<rparr> :: 'a vl_linked_list"
  have "vlListInit ok esize = Some ?q" by (simp add: vlListInit_def u E(1))
  moreover have "list_rep ?q []"
    using fresh_pool_props [OF E(2), where 'a = "'a link_node"]
    by (simp add: list_rep_def chain_def)
  ultimately show thesis using E(3) by (intro that [of ?q E]) simp_all
qed

text \<open>A new list, with what the concrete runs below need.\<close>

lemma fresh_list:
  obtains q :: "'a vl_linked_list" where "vlListInit (\<lambda>_. True) 4 = Some q" "list_inv q"
    "list_iters q = []" "list_contents q = []" "list_length q = 0" "list_elementSize q = 4"
    "pool_room (list_nodePool q) = 16" "\<And>n. n \<le> 16 \<Longrightarrow> pool_can_return (list_nodePool q) n"
    "mallocOk (list_nodePool q) = (\<lambda>_. True)" "lookupCapacity (list_nodePool q) = 16"
proof -
  obtain q :: "'a vl_linked_list" and E where q: "vlListInit (\<lambda>_. True) 4 = Some q" "list_rep q []"
    "list_length q = 0" "list_elementSize q = 4" "list_nodePool q = fresh_pool (\<lambda>_. True) E 8" "E < 2 ^ 16"
    by (rule vlListInit_ok [of "\<lambda>_. True" 4]) auto
  note can = fresh_pool_can(1) [of "\<lambda>_. True" E, OF _ q(6)]
  show thesis
  proof (rule that [of q])
    show "pool_can_return (list_nodePool q) n" if "n \<le> 16" for n using can that by (simp add: q(5))
    show "list_contents q = []" by (simp add: list_contents_rep [OF q(2)])
    show "pool_room (list_nodePool q) = 16" by (simp add: q(5) pool_room_def fresh_pool_def node_at_def)
  qed (use q(1,3,4) list_rep_inv [OF q(2)] list_iters_rep [OF q(2)] in \<open>simp_all add: fresh_pool_def q(5)\<close>)
qed

text \<open>An insertion at the end, in terms of the elements.\<close>

lemma list_push_back_ok:
  assumes "list_inv q" and "0 < pool_room (list_nodePool q)"
  obtains i q' where "vlListPushBack q v = Some (i, q')" "list_inv q'"
    "list_iters q' = list_iters q @ [i]" "list_contents q' = list_contents q @ [v]"
    "list_length q' = inc32 (list_length q)" "list_elementSize q' = list_elementSize q"
    "pool_room (list_nodePool q) - 1 \<le> pool_room (list_nodePool q')"
    "\<forall>n. pool_can_return (list_nodePool q) n \<longrightarrow> pool_can_return (list_nodePool q') n"
proof -
  have rep: "list_rep q (list_iters q)" using assms(1) by (simp add: list_inv_rep)
  have len: "length (list_contents q) = length (list_iters q)" by (simp add: list_contents_def)
  from rep slots.room_ready [OF assms(2)] obtain i q' where "vlListPushBack q v = Some (i, q')"
    "list_inserts q (length (list_iters q)) v i q'"
    "pool_room (list_nodePool q) - 1 \<le> pool_room (list_nodePool q')"
    "\<forall>n. pool_can_return (list_nodePool q) n \<longrightarrow> pool_can_return (list_nodePool q') n"
    by (rule vlListPushBack_rep [where v = v])
  then show thesis using len by (intro that [of i q']) (simp_all add: list_inserts_def)
qed

section \<open>Properties of the list\<close>

text \<open>
  The four insertions put one element at the position they name, return its iterator and
  change nothing else: every iterator of the list keeps its element and its place among the
  others, and the length grows by one modulo \<open>2 ^ 32\<close>.
\<close>

theorem list_insert_positions:
  assumes "list_inv q" and "pool_ready (list_nodePool q)"
  shows "(\<exists>i q'. vlListPushFront q v = Some (i, q') \<and> list_inserts q 0 v i q') \<and>
    (\<exists>i q'. vlListPushBack q v = Some (i, q') \<and> list_inserts q (length (list_iters q)) v i q') \<and>
    (\<forall>k < length (list_iters q).
      (\<exists>i q'. vlListInsertAfter q (list_iters q ! k) v = Some (i, q') \<and> list_inserts q (Suc k) v i q') \<and>
      (\<exists>i q'. vlListInsertBefore q (list_iters q ! k) v = Some (i, q') \<and> list_inserts q k v i q'))"
proof (intro conjI allI impI)
  have rep: "list_rep q (list_iters q)" using assms(1) by (simp add: list_inv_rep)
  show "\<exists>i q'. vlListPushFront q v = Some (i, q') \<and> list_inserts q 0 v i q'"
    using rep assms(2) by (rule vlListPushFront_rep [where v = v]) blast
  show "\<exists>i q'. vlListPushBack q v = Some (i, q') \<and> list_inserts q (length (list_iters q)) v i q'"
    using rep assms(2) by (rule vlListPushBack_rep [where v = v]) blast
  fix k assume k: "k < length (list_iters q)"
  from rep k have rep': "list_rep q (take k (list_iters q) @ list_iters q ! k # drop (Suc k) (list_iters q))"
    by (simp add: id_take_nth_drop [symmetric])
  show "\<exists>i q'. vlListInsertAfter q (list_iters q ! k) v = Some (i, q') \<and> list_inserts q (Suc k) v i q'"
    using rep' assms(2) by (rule vlListInsertAfter_rep [where v = v]) (use k in simp)
  show "\<exists>i q'. vlListInsertBefore q (list_iters q ! k) v = Some (i, q') \<and> list_inserts q k v i q'"
    using rep' assms(2) by (rule vlListInsertBefore_rep [where v = v]) (use k in simp)
qed

theorem list_insert_positions_witness:
  "\<exists>q i q1. vlListInit (\<lambda>_. True) 4 = Some q \<and> vlListPushFront q (7 :: nat) = Some (i, q1) \<and>
    list_contents q1 = [7] \<and> list_iters q1 = [i] \<and> vlListSize q1 = 1"
proof -
  obtain q :: "nat vl_linked_list" where q: "vlListInit (\<lambda>_. True) 4 = Some q" "list_inv q"
    "list_iters q = []" "list_contents q = []" "list_length q = 0" "list_elementSize q = 4"
    "pool_room (list_nodePool q) = 16"
    by (rule fresh_list)
  have "pool_ready (list_nodePool q)" by (rule slots.room_ready) (simp add: q(7))
  from list_insert_positions [OF q(2) this, of 7] show ?thesis
    using q by (auto simp: list_inserts_def vlListSize_def inc32_def u32_of_def)
qed

text \<open>
  \<^verbatim>\<open>vlListRemove\<close> takes out exactly the element at its iterator, \<^verbatim>\<open>vlListPopFront\<close> the first
  and \<^verbatim>\<open>vlListPopBack\<close> the last one; the other iterators keep their elements and their order.
\<close>

theorem list_delete_positions:
  assumes "list_inv q" and "pool_can_return (list_nodePool q) 1" and "k < length (list_iters q)"
  shows "(\<exists>q'. vlListRemove q (list_iters q ! k) = Some q' \<and> list_deletes q k q') \<and>
    (\<exists>q'. vlListPopFront q = Some q' \<and> list_deletes q 0 q') \<and>
    (\<exists>q'. vlListPopBack q = Some q' \<and> list_deletes q (length (list_iters q) - 1) q')"
proof (intro conjI)
  have can: "pool_can_return (list_nodePool q) (Suc 0)" using assms(2) by simp
  have rep: "list_rep q (list_iters q)" using assms(1) by (simp add: list_inv_rep)
  then have rep': "list_rep q (take k (list_iters q) @ list_iters q ! k # drop (Suc k) (list_iters q))"
    using assms(3) by (simp add: id_take_nth_drop [symmetric])
  show "\<exists>q'. vlListRemove q (list_iters q ! k) = Some q' \<and> list_deletes q k q'"
    using rep' can by (rule vlListRemove_rep) (use assms(3) in simp)
  have ne: "list_iters q \<noteq> []" using assms(3) by auto
  then have "list_rep q (hd (list_iters q) # tl (list_iters q))" using rep by simp
  then show "\<exists>q'. vlListPopFront q = Some q' \<and> list_deletes q 0 q'"
    using can by (rule vlListPopFront_rep) blast
  from ne rep have b: "list_rep q (butlast (list_iters q) @ [last (list_iters q)])" by simp
  from b can show "\<exists>q'. vlListPopBack q = Some q' \<and> list_deletes q (length (list_iters q) - 1) q'"
    by (rule vlListPopBack_rep) auto
qed

theorem list_delete_positions_witness:
  "\<exists>q i q1 q2. vlListInit (\<lambda>_. True) 4 = Some q \<and> vlListPushBack q (7 :: nat) = Some (i, q1) \<and>
    vlListRemove q1 i = Some q2 \<and> list_contents q2 = []"
proof -
  obtain q :: "nat vl_linked_list" where q: "vlListInit (\<lambda>_. True) 4 = Some q" "list_inv q"
    "list_iters q = []" "list_contents q = []" "list_length q = 0" "list_elementSize q = 4"
    "pool_room (list_nodePool q) = 16" "\<And>n. n \<le> 16 \<Longrightarrow> pool_can_return (list_nodePool q) n"
    by (rule fresh_list) blast
  obtain i q1 where q1: "vlListPushBack q (7 :: nat) = Some (i, q1)" "list_inv q1" "list_iters q1 = [i]"
    "list_contents q1 = [7]" "pool_can_return (list_nodePool q1) 1"
    by (rule list_push_back_ok [OF q(2), of 7]) (use q in auto)
  from list_delete_positions [OF q1(2,5), of 0] show ?thesis
    using q(1) q1 by (auto simp: list_deletes_def)
qed

text \<open>
  The length drifts: no removal through \<^verbatim>\<open>vlListRemove\<close> and no pop of the last element
  changes the field that \<^verbatim>\<open>vlListSize\<close> reports, while every other pop decrements it.
\<close>

theorem list_length_drift:
  assumes "list_inv q" and "pool_can_return (list_nodePool q) 1" and "k < length (list_iters q)"
  shows "(\<exists>q'. vlListRemove q (list_iters q ! k) = Some q' \<and> vlListSize q' = vlListSize q \<and>
      length (list_contents q') = length (list_contents q) - 1) \<and>
    (\<exists>q'. vlListPopFront q = Some q' \<and>
      vlListSize q' = (if length (list_iters q) = 1 then vlListSize q else dec32 (vlListSize q))) \<and>
    (\<exists>q'. vlListPopBack q = Some q' \<and>
      vlListSize q' = (if length (list_iters q) = 1 then vlListSize q else dec32 (vlListSize q)))"
proof (intro conjI)
  have can: "pool_can_return (list_nodePool q) (Suc 0)" using assms(2) by simp
  have rep: "list_rep q (list_iters q)" using assms(1) by (simp add: list_inv_rep)
  then have rep': "list_rep q (take k (list_iters q) @ list_iters q ! k # drop (Suc k) (list_iters q))"
    using assms(3) by (simp add: id_take_nth_drop [symmetric])
  have lc: "length (list_contents q) = length (list_iters q)" by (simp add: list_contents_def)
  from rep' can obtain q' where "vlListRemove q (list_iters q ! k) = Some q'"
    "list_deletes q (length (take k (list_iters q))) q'" "list_length q' = list_length q"
    by (rule vlListRemove_rep)
  then show "\<exists>q'. vlListRemove q (list_iters q ! k) = Some q' \<and> vlListSize q' = vlListSize q \<and>
      length (list_contents q') = length (list_contents q) - 1"
    using assms(3) lc by (auto simp: vlListSize_def list_deletes_def)
  have ne: "list_iters q \<noteq> []" using assms(3) by auto
  then obtain i xs where f: "list_iters q = i # xs" by (cases "list_iters q") auto
  with rep have "list_rep q (i # xs)" by simp
  then show "\<exists>q'. vlListPopFront q = Some q' \<and>
      vlListSize q' = (if length (list_iters q) = 1 then vlListSize q else dec32 (vlListSize q))"
    using can by (rule vlListPopFront_rep) (auto simp: vlListSize_def f)
  from ne obtain j ys where b: "list_iters q = ys @ [j]" by (cases "list_iters q" rule: rev_cases) auto
  with rep have "list_rep q (ys @ [j])" by simp
  then show "\<exists>q'. vlListPopBack q = Some q' \<and>
      vlListSize q' = (if length (list_iters q) = 1 then vlListSize q else dec32 (vlListSize q))"
    using can by (rule vlListPopBack_rep) (auto simp: vlListSize_def b)
qed

theorem list_length_drift_witness:
  "\<exists>q i q1 q2. vlListInit (\<lambda>_. True) 4 = Some q \<and> vlListPushBack q (7 :: nat) = Some (i, q1) \<and>
    vlListPopFront q1 = Some q2 \<and> vlListSize q2 = 1"
proof -
  obtain q :: "nat vl_linked_list" where q: "vlListInit (\<lambda>_. True) 4 = Some q" "list_inv q"
    "list_iters q = []" "list_contents q = []" "list_length q = 0" "list_elementSize q = 4"
    "pool_room (list_nodePool q) = 16" "\<And>n. n \<le> 16 \<Longrightarrow> pool_can_return (list_nodePool q) n"
    by (rule fresh_list) blast
  obtain i q1 where q1: "vlListPushBack q (7 :: nat) = Some (i, q1)" "list_inv q1" "list_iters q1 = [i]"
    "list_length q1 = 1" "pool_can_return (list_nodePool q1) 1"
    by (rule list_push_back_ok [OF q(2), of 7]) (use q in \<open>auto simp: inc32_def u32_of_def\<close>)
  from list_length_drift [OF q1(2,5), of 0] show ?thesis
    using q(1) q1 by (auto simp: vlListSize_def)
qed

text \<open>
  \<^verbatim>\<open>vlListFind\<close> returns, and its result is the first iterator of the list that stands for
  an equal element, or the invalid iterator when there is none.
\<close>

theorem list_find_first:
  assumes "list_inv q"
  shows "\<exists>i. vlListFind q e = Some i \<and>
    (if e \<in> set (list_contents q)
     then \<exists>k < length (list_iters q). i = list_iters q ! k \<and> list_contents q ! k = e \<and>
       e \<notin> set (take k (list_contents q))
     else i = VL_LIST_ITER_INVALID)"
proof -
  have rep: "list_rep q (list_iters q)" using assms by (simp add: list_inv_rep)
  let ?P = "\<lambda>i. vlListSample q i = Some e"
  have c: "list_contents q ! k = e \<longleftrightarrow> ?P (list_iters q ! k)" if "k < length (list_iters q)" for k
    using that list_sample_in [OF rep nth_mem [OF that]] by (auto simp: list_contents_def)
  have len: "length (list_contents q) = length (list_iters q)" by (simp add: list_contents_def)
  show ?thesis
  proof (cases "e \<in> set (list_contents q)")
    case True
    then obtain ys zs where yz: "list_contents q = ys @ e # zs" "e \<notin> set ys"
      by (auto dest: split_list_first)
    define k where "k = length ys"
    have k: "k < length (list_iters q)" "list_contents q ! k = e"
      and before: "e \<notin> set (take k (list_contents q))"
      using yz len [symmetric] by (simp_all add: k_def)
    have "filter ?P (list_iters q) = filter ?P (take k (list_iters q)) @ list_iters q ! k #
        filter ?P (drop (Suc k) (list_iters q))"
      using k c [OF k(1)] by (subst id_take_nth_drop [OF k(1)]) simp
    moreover have "filter ?P (take k (list_iters q)) = []"
      using before by (force simp: filter_empty_conv list_contents_def take_map image_iff)
    ultimately have "vlListFind q e = Some (list_iters q ! k)"
      by (simp add: vlListFind_eq [OF assms])
    with True k before show ?thesis by auto
  next
    case False
    then have "filter ?P (list_iters q) = []"
      by (force simp: filter_empty_conv list_contents_def image_iff)
    with False show ?thesis by (simp add: vlListFind_eq [OF assms])
  qed
qed

theorem list_find_first_witness:
  "\<exists>q. vlListInit (\<lambda>_. True) 4 = Some q \<and> vlListFind q (7 :: nat) = Some VL_LIST_ITER_INVALID"
proof -
  obtain q :: "nat vl_linked_list" where q: "vlListInit (\<lambda>_. True) 4 = Some q" "list_inv q"
    "list_iters q = []" "list_contents q = []"
    by (rule fresh_list)
  from list_find_first [OF q(2), of 7] show ?thesis using q by auto
qed

text \<open>
  \<^verbatim>\<open>vlListCopy\<close> of the elements between two iterators of the source, both included, puts
  them in order behind the iterator \<open>after\<close> of the destination and returns their number.
  With the invalid iterator for \<open>after\<close>, which the documentation gives for the end of the
  destination, copying anything samples the pool at the invalid index, which is undefined.
\<close>

theorem list_copy_range:
  assumes "list_inv src" and "list_inv dest" and "list_elementSize src = list_elementSize dest"
    and "b \<le> e" and "e < length (list_iters src)"
  shows "(\<forall>k < length (list_iters dest).
      Suc e - b \<le> pool_room (list_nodePool dest) \<and> Suc e - b < 2 ^ 31 \<longrightarrow>
      (\<exists>dest'. vlListCopy src (list_iters src ! b) (list_iters src ! e) dest (list_iters dest ! k) =
          Some (Suc e - b, dest') \<and> list_inv dest' \<and>
        list_contents dest' = take (Suc k) (list_contents dest) @
          take (Suc e - b) (drop b (list_contents src)) @ drop (Suc k) (list_contents dest))) \<and>
    vlListCopy src (list_iters src ! b) (list_iters src ! e) dest VL_LIST_ITER_INVALID = None"
proof (intro conjI allI impI)
  let ?N = VL_LIST_ITER_INVALID
  let ?mid = "take (Suc e - b) (drop b (list_iters src))"
  have lm: "length ?mid = Suc e - b" using assms(5) by simp
  have ne: "?mid \<noteq> []" using assms(4,5) by auto
  have split: "list_iters src = take b (list_iters src) @ ?mid @ drop (Suc e) (list_iters src)"
    using assms(4) by (metis append_take_drop_id drop_drop le_add_diff_inverse2 le_SucI)
  have rep0: "list_rep src (list_iters src)" using assms(1) by (simp add: list_inv_rep)
  then have rep: "list_rep src (take b (list_iters src) @ ?mid @ drop (Suc e) (list_iters src))"
    using split by simp
  have hd: "hd ?mid = list_iters src ! b" and lst: "last ?mid = list_iters src ! e"
    using assms(4,5) ne by (simp_all add: hd_conv_nth last_conv_nth)
  have valid: "list_iters src ! b \<noteq> ?N" "list_iters src ! e \<noteq> ?N"
    using list_rep_not_invalid [OF rep0] assms(4,5) nth_mem [of _ "list_iters src"] by (metis le_less_trans)+
  have copy: "vlListCopy src (list_iters src ! b) (list_iters src ! e) dest t =
      list_copy_loop src (last ?mid) dest (hd ?mid) t 0" for t
    using assms(3) valid by (simp add: vlListCopy_def hd lst)
  {
    fix k assume k: "k < length (list_iters dest)"
      and room: "Suc e - b \<le> pool_room (list_nodePool dest) \<and> Suc e - b < 2 ^ 31"
    have "\<exists>dest'. list_copy_loop src (last ?mid) dest (hd ?mid) (list_iters dest ! k) 0 =
        Some (0 + length ?mid, dest') \<and> list_inv dest' \<and>
        list_contents dest' = take (Suc (length (take k (list_iters dest)))) (list_contents dest) @
          map (\<lambda>i. the (vlListSample src i)) ?mid @
          drop (Suc (length (take k (list_iters dest)))) (list_contents dest)"
      by (rule list_copy_loop_eq [OF rep ne assms(2), where bs = "drop (Suc k) (list_iters dest)"])
        (use k room lm in \<open>simp_all add: id_take_nth_drop [symmetric]\<close>)
    then show "\<exists>dest'. vlListCopy src (list_iters src ! b) (list_iters src ! e) dest (list_iters dest ! k) =
          Some (Suc e - b, dest') \<and> list_inv dest' \<and>
        list_contents dest' = take (Suc k) (list_contents dest) @
          take (Suc e - b) (drop b (list_contents src)) @ drop (Suc k) (list_contents dest)"
      unfolding copy using k lm by (simp add: list_contents_def take_map drop_map)
  }
  have "pool_inv (list_nodePool dest)"
    using assms(2) by (auto simp: list_inv_def list_rep_def chain_def)
  then have "lookupTotal (list_nodePool dest) < 2 ^ 32"
    and at: "\<And>k. lookupTotal (list_nodePool dest) \<le> k \<Longrightarrow> node_at (list_nodePool dest) k = None"
    by (simp_all add: pool_inv_def)
  then have "node_at (list_nodePool dest) (nodeIndex ?N) = None"
    by (intro at) (simp add: nodeIndex_def VL_POOL_INVALID_IDX_def)
  then have u: "vlListInsertAfter dest ?N v = None" for v
    by (simp add: vlListInsertAfter_def vlPoolSample_def)
  have "hd ?mid \<noteq> ?N" using hd valid by simp
  then show "vlListCopy src (list_iters src ! b) (list_iters src ! e) dest ?N = None"
    unfolding copy by (subst list_copy_loop.simps) (cases "vlListSample src (hd ?mid)"; simp add: u)
qed

theorem list_copy_range_witness:
  "\<exists>q i q1 q2. vlListInit (\<lambda>_. True) 4 = Some q \<and> vlListPushBack q (7 :: nat) = Some (i, q1) \<and>
    vlListCopy q1 i i q1 i = Some (1, q2) \<and> list_contents q2 = [7, 7] \<and>
    vlListCopy q1 i i q VL_LIST_ITER_INVALID = None"
proof -
  obtain q :: "nat vl_linked_list" where q: "vlListInit (\<lambda>_. True) 4 = Some q" "list_inv q"
    "list_iters q = []" "list_contents q = []" "list_length q = 0" "list_elementSize q = 4"
    "pool_room (list_nodePool q) = 16"
    by (rule fresh_list)
  obtain i q1 where q1: "vlListPushBack q (7 :: nat) = Some (i, q1)" "list_inv q1" "list_iters q1 = [i]"
    "list_contents q1 = [7]" "list_elementSize q1 = 4" "15 \<le> pool_room (list_nodePool q1)"
    by (rule list_push_back_ok [OF q(2), of 7]) (use q in auto)
  from list_copy_range [OF q1(2) q1(2), of 0 0] list_copy_range [OF q1(2) q(2), of 0 0]
  show ?thesis using q q1 by auto
qed

end
