(* ===== verification/VL_ListSort.thy ===== *)
theory VL_ListSort
  imports VL_List VL_Compare
begin

text \<open>
  The sort of \<^verbatim>\<open>src/core/vl_linked_list.c\<close>: a bottom-up merge sort that relinks the nodes.
  The functions take and return the pool of the list; an iterator written through an output
  parameter that may be left unset is an option.
\<close>

section \<open>The functions of the sort\<close>

text \<open>\<^verbatim>\<open>vl_ListSortSegmentLength\<close>: the length, and what is written to \<^verbatim>\<open>stopIter\<close>, if anything.\<close>

partial_function (option) segment_length_loop ::
  "'a link_node vl_pool \<Rightarrow> vl_list_iter \<Rightarrow> vl_list_iter \<Rightarrow> nat \<Rightarrow> (nat \<times> vl_list_iter) option" where
  [code]: "segment_length_loop pool current lastIter len =
     (if current \<noteq> VL_LIST_ITER_INVALID then do {
        currentHeader \<leftarrow> vlPoolSample pool current;
        segment_length_loop pool (node_next currentHeader) current (inc32 len)
      } else Some (len, lastIter))"

definition vl_ListSortSegmentLength ::
  "'a link_node vl_pool \<Rightarrow> vl_list_iter \<Rightarrow> (nat \<times> vl_list_iter option) option" where
  "vl_ListSortSegmentLength pool begin =
     (if begin = VL_LIST_ITER_INVALID then Some (0, None)
      else do {
        (len, lastIter) \<leftarrow> segment_length_loop pool begin begin 0;
        Some (len, Some lastIter)
      })"

text \<open>
  The loop of \<^verbatim>\<open>vl_ListSortMerge\<close>. Its state is the two remaining sub-lists, the nodes that
  \<^verbatim>\<open>leftHeader\<close> and \<^verbatim>\<open>rightHeader\<close> point to, and \<^verbatim>\<open>*mergeTail\<close>.
\<close>

partial_function (option) sort_merge_loop ::
  "('a \<Rightarrow> 'a \<Rightarrow> int) \<Rightarrow> 'a link_node vl_pool \<Rightarrow> vl_list_iter \<Rightarrow> vl_list_iter \<Rightarrow> vl_list_iter \<Rightarrow>
   vl_list_iter \<Rightarrow> vl_list_iter \<Rightarrow>
   (vl_list_iter \<times> vl_list_iter \<times> vl_list_iter \<times> vl_list_iter \<times> vl_list_iter \<times> 'a link_node vl_pool) option"
where
  "sort_merge_loop compareFunction pool aIter bIter left right mergeTail =
     (if aIter \<noteq> VL_LIST_ITER_INVALID \<and> bIter \<noteq> VL_LIST_ITER_INVALID then do {
        leftHeader \<leftarrow> vlPoolSample pool aIter;
        rightHeader \<leftarrow> vlPoolSample pool bIter;
        if compareFunction (node_data leftHeader) (node_data rightHeader) \<le> 0 then do {
          pool \<leftarrow> vlPoolModify pool mergeTail (\<lambda>n. n\<lparr>node_next := aIter\<rparr>);
          pool \<leftarrow> vlPoolModify pool aIter (\<lambda>n. n\<lparr>node_prev := mergeTail\<rparr>);
          leftHeader \<leftarrow> vlPoolSample pool aIter;
          tailHeader \<leftarrow> vlPoolSample pool mergeTail;
          sort_merge_loop compareFunction pool (node_next leftHeader) bIter aIter bIter (node_next tailHeader)
        } else do {
          pool \<leftarrow> vlPoolModify pool mergeTail (\<lambda>n. n\<lparr>node_next := bIter\<rparr>);
          pool \<leftarrow> vlPoolModify pool bIter (\<lambda>n. n\<lparr>node_prev := mergeTail\<rparr>);
          rightHeader \<leftarrow> vlPoolSample pool bIter;
          tailHeader \<leftarrow> vlPoolSample pool mergeTail;
          sort_merge_loop compareFunction pool aIter (node_next rightHeader) aIter bIter (node_next tailHeader)
        }
      } else Some (aIter, bIter, left, right, mergeTail, pool))"

text \<open>\<^verbatim>\<open>vl_ListSortMerge\<close>: the values of \<^verbatim>\<open>*mergeHead\<close> and \<^verbatim>\<open>*mergeTail\<close> and the pool. The
  argument \<open>mergeTail\<close> is the former value of \<^verbatim>\<open>*mergeTail\<close>.\<close>

definition vl_ListSortMerge ::
  "('a \<Rightarrow> 'a \<Rightarrow> int) \<Rightarrow> 'a link_node vl_pool \<Rightarrow> vl_list_iter \<Rightarrow> vl_list_iter \<Rightarrow> vl_list_iter option \<Rightarrow>
   (vl_list_iter \<times> vl_list_iter option \<times> 'a link_node vl_pool) option" where
  [code]: "vl_ListSortMerge compareFunction pool aIter bIter mergeTail =
     (if aIter = VL_LIST_ITER_INVALID then do {
        (_, stop) \<leftarrow> vl_ListSortSegmentLength pool bIter;
        Some (bIter, if stop = None then mergeTail else stop, pool)
      } else if bIter = VL_LIST_ITER_INVALID then do {
        (_, stop) \<leftarrow> vl_ListSortSegmentLength pool aIter;
        Some (aIter, if stop = None then mergeTail else stop, pool)
      } else do {
        leftHeader \<leftarrow> vlPoolSample pool aIter;
        rightHeader \<leftarrow> vlPoolSample pool bIter;
        let (mergeHead, a, b) =
          (if compareFunction (node_data leftHeader) (node_data rightHeader) \<le> 0
           then (aIter, node_next leftHeader, bIter) else (bIter, aIter, node_next rightHeader));
        (a, b, left, right, tail, pool) \<leftarrow>
          sort_merge_loop compareFunction pool a b aIter bIter mergeHead;
        if a \<noteq> VL_LIST_ITER_INVALID then do {
          pool \<leftarrow> vlPoolModify pool tail (\<lambda>n. n\<lparr>node_next := a\<rparr>);
          pool \<leftarrow> vlPoolModify pool left (\<lambda>n. n\<lparr>node_prev := tail\<rparr>);
          (_, stop) \<leftarrow> vl_ListSortSegmentLength pool a;
          Some (mergeHead, if stop = None then Some tail else stop, pool)
        } else do {
          pool \<leftarrow> vlPoolModify pool tail (\<lambda>n. n\<lparr>node_next := b\<rparr>);
          pool \<leftarrow> vlPoolModify pool right (\<lambda>n. n\<lparr>node_prev := tail\<rparr>);
          (_, stop) \<leftarrow> vl_ListSortSegmentLength pool b;
          Some (mergeHead, if stop = None then Some tail else stop, pool)
        }
      })"

text \<open>
  The \<^verbatim>\<open>for\<close> loop of \<^verbatim>\<open>vl_ListSortSplit\<close>: \<^const>\<open>None\<close> inside the result is its early return,
  otherwise the node of the last round (\<^verbatim>\<open>atHeader\<close>) and \<^verbatim>\<open>atIter\<close>.
\<close>

primrec sort_split_loop ::
  "'a link_node vl_pool \<Rightarrow> vl_list_iter \<Rightarrow> vl_list_iter \<Rightarrow> nat \<Rightarrow>
   (vl_list_iter \<times> vl_list_iter) option option" where
  "sort_split_loop pool at atIter 0 = Some (Some (at, atIter))"
| "sort_split_loop pool at atIter (Suc n) = do {
     atHeader \<leftarrow> vlPoolSample pool atIter;
     if node_next atHeader = VL_LIST_ITER_INVALID then Some None
     else sort_split_loop pool atIter (node_next atHeader) n
   }"

definition vl_ListSortSplit ::
  "'a link_node vl_pool \<Rightarrow> vl_list_iter \<Rightarrow> nat \<Rightarrow> (vl_list_iter \<times> 'a link_node vl_pool) option" where
  "vl_ListSortSplit pool atIter len =
     (if atIter = VL_LIST_ITER_INVALID \<or> len = 0 then Some (VL_LIST_ITER_INVALID, pool)
      else do {
        r \<leftarrow> sort_split_loop pool atIter atIter len;
        case r of
          None \<Rightarrow> Some (VL_LIST_ITER_INVALID, pool)
        | Some (at, _) \<Rightarrow> do {
            atHeader \<leftarrow> vlPoolSample pool at;
            (splitIter, pool) \<leftarrow>
              (if node_next atHeader \<noteq> VL_LIST_ITER_INVALID then do {
                 pool \<leftarrow> vlPoolModify pool (node_next atHeader) (\<lambda>n. n\<lparr>node_prev := VL_LIST_ITER_INVALID\<rparr>);
                 Some (node_next atHeader, pool)
               } else Some (VL_LIST_ITER_INVALID, pool));
            pool \<leftarrow> vlPoolModify pool at (\<lambda>n. n\<lparr>node_next := VL_LIST_ITER_INVALID\<rparr>);
            Some (splitIter, pool)
          }
      })"

text \<open>
  The inner loop of \<^verbatim>\<open>vlListSort\<close>, one pass over the list: the head and the pool after it.
  \<^verbatim>\<open>mergedTail\<close> is unset before the first merge.
\<close>

partial_function (option) sort_pass_loop ::
  "('a \<Rightarrow> 'a \<Rightarrow> int) \<Rightarrow> nat \<Rightarrow> vl_list_iter \<Rightarrow> 'a link_node vl_pool \<Rightarrow> vl_list_iter \<Rightarrow> vl_list_iter \<Rightarrow>
   vl_list_iter option \<Rightarrow> (vl_list_iter \<times> vl_list_iter option \<times> 'a link_node vl_pool) option" where
  [code]: "sort_pass_loop compareFunction passLength head pool currentIter tailIter mergedTail =
     (if currentIter \<noteq> VL_LIST_ITER_INVALID then do {
        let leftIter = currentIter;
        (rightIter, pool) \<leftarrow> vl_ListSortSplit pool leftIter passLength;
        (currentIter, pool) \<leftarrow> vl_ListSortSplit pool rightIter passLength;
        (mergedHead, mergedTail, pool) \<leftarrow>
          vl_ListSortMerge compareFunction pool leftIter rightIter mergedTail;
        (head, pool) \<leftarrow>
          (if tailIter = VL_LIST_ITER_INVALID then Some (mergedHead, pool)
           else do {
             pool \<leftarrow> vlPoolModify pool tailIter (\<lambda>n. n\<lparr>node_next := mergedHead\<rparr>);
             pool \<leftarrow> vlPoolModify pool mergedHead (\<lambda>n. n\<lparr>node_prev := tailIter\<rparr>);
             Some (head, pool)
           });
        tailIter \<leftarrow> mergedTail;
        sort_pass_loop compareFunction passLength head pool currentIter tailIter mergedTail
      } else Some (head, mergedTail, pool))"

partial_function (option) sort_passes ::
  "('a \<Rightarrow> 'a \<Rightarrow> int) \<Rightarrow> nat \<Rightarrow> nat \<Rightarrow> vl_list_iter \<Rightarrow> 'a link_node vl_pool \<Rightarrow> vl_list_iter option \<Rightarrow>
   (vl_list_iter \<times> 'a link_node vl_pool) option" where
  [code]: "sort_passes compareFunction passLength len head pool mergedTail =
     (if passLength < len then do {
        (head, mergedTail, pool) \<leftarrow>
          sort_pass_loop compareFunction passLength head pool head VL_LIST_ITER_INVALID mergedTail;
        sort_passes compareFunction (u32_of (passLength * 2)) len head pool mergedTail
      } else Some (head, pool))"

text \<open>\<^verbatim>\<open>vlListSort\<close> writes \<^verbatim>\<open>head\<close> and the nodes; it does not write \<^verbatim>\<open>tail\<close>.\<close>

definition vlListSort :: "'a vl_linked_list \<Rightarrow> ('a \<Rightarrow> 'a \<Rightarrow> int) \<Rightarrow> 'a vl_linked_list option" where
  "vlListSort list compareFunction =
     (if list_head list = list_tail list then Some list
      else do {
        (head, pool) \<leftarrow>
          sort_passes compareFunction 1 (list_length list) (list_head list) (list_nodePool list) None;
        Some (list\<lparr>list_nodePool := pool, list_head := head\<rparr>)
      })"

section \<open>The reference algorithm\<close>

text \<open>The merge of two runs and one pass over a list of runs, on lists of nodes.\<close>

fun merge_runs :: "('b \<Rightarrow> 'b \<Rightarrow> bool) \<Rightarrow> 'b list \<Rightarrow> 'b list \<Rightarrow> 'b list" where
  "merge_runs le [] bs = bs"
| "merge_runs le as [] = as"
| "merge_runs le (a # as) (b # bs) =
     (if le a b then a # merge_runs le as (b # bs) else b # merge_runs le (a # as) bs)"

function merge_pass :: "('b \<Rightarrow> 'b \<Rightarrow> bool) \<Rightarrow> nat \<Rightarrow> 'b list \<Rightarrow> 'b list" where
  "merge_pass le n xs =
     (if n = 0 \<or> xs = [] then xs
      else merge_runs le (take n xs) (take n (drop n xs)) @ merge_pass le n (drop n (drop n xs)))"
  by pat_completeness auto
termination by (relation "measure (\<lambda>(le, n, xs). length xs)") auto

declare merge_pass.simps [simp del]

lemma mset_merge_runs [simp]: "mset (merge_runs le as bs) = mset as + mset bs"
  by (induction le as bs rule: merge_runs.induct) simp_all

lemma set_merge_runs [simp]: "set (merge_runs le as bs) = set as \<union> set bs"
  using mset_merge_runs [of le as bs] by (metis set_mset_mset set_mset_union)

lemma length_merge_runs [simp]: "length (merge_runs le as bs) = length as + length bs"
  using mset_merge_runs [of le as bs] by (metis size_mset size_union)

lemma merge_runs_empty [simp]: "merge_runs le as [] = as"
  by (cases as) simp_all

lemma merge_runs_nil_iff [simp]: "merge_runs le as bs = [] \<longleftrightarrow> as = [] \<and> bs = []"
  by (metis length_0_conv length_merge_runs add_is_0)

lemma mset_merge_pass [simp]: "mset (merge_pass le n xs) = mset xs"
proof (induction le n xs rule: merge_pass.induct)
  case (1 le n xs)
  have "mset (take n xs) + (mset (take n (drop n xs)) + mset (drop n (drop n xs))) = mset xs"
    by (metis append_take_drop_id mset_append)
  with 1 show ?case by (subst merge_pass.simps) (simp add: add.assoc)
qed

lemma length_merge_pass [simp]: "length (merge_pass le n xs) = length xs"
  by (metis mset_merge_pass size_mset)

text \<open>The runs of length \<open>n\<close> of a list are sorted.\<close>

definition sorted_runs :: "('b \<Rightarrow> 'b \<Rightarrow> bool) \<Rightarrow> nat \<Rightarrow> 'b list \<Rightarrow> bool" where
  "sorted_runs le n xs \<longleftrightarrow> (\<forall>k. sorted_wrt le (take n (drop (k * n) xs)))"

locale run_order =
  fixes le :: "'b \<Rightarrow> 'b \<Rightarrow> bool"
  assumes le_total: "le a b \<or> le b a"
    and le_trans: "le a b \<Longrightarrow> le b c \<Longrightarrow> le a c"
begin

lemma sorted_merge_runs:
  "sorted_wrt le as \<Longrightarrow> sorted_wrt le bs \<Longrightarrow> sorted_wrt le (merge_runs le as bs)"
proof (induction as arbitrary: bs)
  case as: (Cons a as)
  from as.prems(2) show ?case
  proof (induction bs)
    case (Cons b bs)
    have ha: "\<forall>y \<in> set as. le a y" and hb: "\<forall>y \<in> set bs. le b y"
      using as.prems(1) Cons.prems by simp_all
    show ?case
    proof (cases "le a b")
      case True
      have "\<forall>y \<in> set bs. le a y" using hb le_trans [OF True] by blast
      moreover have "sorted_wrt le (merge_runs le as (b # bs))"
        using as.IH [of "b # bs"] as.prems(1) Cons.prems by simp
      ultimately show ?thesis using True ha by auto
    next
      case False
      then have ba: "le b a" using le_total [of a b] by blast
      then have "\<forall>y \<in> set as. le b y" using ha le_trans [OF ba] by blast
      moreover have "sorted_wrt le (merge_runs le (a # as) bs)"
        using Cons.IH Cons.prems by simp
      ultimately show ?thesis using False ba hb by auto
    qed
  qed (use as in simp)
qed simp

lemma sorted_runs_drop:
  assumes "sorted_runs le n xs"
  shows "sorted_runs le n (drop n (drop n xs))"
proof -
  have "drop (k * n) (drop n (drop n xs)) = drop ((k + 2) * n) xs" for k by (simp add: algebra_simps)
  then show ?thesis using assms unfolding sorted_runs_def by metis
qed

lemma sorted_runs_pass:
  "sorted_runs le n xs \<Longrightarrow> 0 < n \<Longrightarrow> sorted_runs le (2 * n) (merge_pass le n xs)"
proof (induction "length xs" arbitrary: xs rule: less_induct)
  case less
  note runs = less.prems(1) and n = less.prems(2)
  show ?case
  proof (cases "xs = []")
    case True
    then show ?thesis by (simp add: sorted_runs_def merge_pass.simps)
  next
    case False
    let ?m = "merge_runs le (take n xs) (take n (drop n xs))" and ?r = "drop n (drop n xs)"
    from runs have "sorted_runs le n ?r" by (rule sorted_runs_drop)
    then have IH: "sorted_runs le (2 * n) (merge_pass le n ?r)"
      using less.hyps [of ?r] n False by simp
    have "sorted_wrt le (take n (drop (0 * n) xs))" "sorted_wrt le (take n (drop (1 * n) xs))"
      using runs unfolding sorted_runs_def by blast+
    then have m: "sorted_wrt le ?m" by (intro sorted_merge_runs) simp_all
    have pass: "merge_pass le n xs = ?m @ merge_pass le n ?r"
      using False n by (subst merge_pass.simps) simp
    have short: "merge_pass le n ?r = []" if "length ?m < 2 * n"
    proof -
      have "length xs \<le> 2 * n" using that by (auto simp: min_def split: if_splits)
      then show ?thesis by (simp add: merge_pass.simps)
    qed
    have le2n: "length ?m \<le> 2 * n" by simp
    have "sorted_wrt le (take (2 * n) (drop (k * (2 * n)) (?m @ merge_pass le n ?r)))" for k
    proof (cases "length ?m < 2 * n")
      case True
      have "sorted_wrt le (take (2 * n) (drop (k * (2 * n)) ?m))"
        by (intro sorted_wrt_take sorted_wrt_drop) (rule m)
      then show ?thesis unfolding short [OF True] by simp
    next
      case full: False
      then have len: "length ?m = 2 * n" using le2n by linarith
      show ?thesis
      proof (cases k)
        case 0
        then show ?thesis using m len by simp
      next
        case (Suc j)
        then have "drop (k * (2 * n)) (?m @ merge_pass le n ?r) = drop (j * (2 * n)) (merge_pass le n ?r)"
          using len by simp
        then show ?thesis using IH by (simp add: sorted_runs_def)
      qed
    qed
    then show ?thesis unfolding sorted_runs_def pass by blast
  qed
qed

text \<open>
  Stability: elements that are tied, any two of them in both orders, come out in the order
  they went in.
\<close>

lemma stable_merge_runs:
  assumes P: "\<And>a b. P a \<Longrightarrow> P b \<Longrightarrow> le a b"
  shows "sorted_wrt le as \<Longrightarrow> filter P (merge_runs le as bs) = filter P as @ filter P bs"
proof (induction as arbitrary: bs)
  case as: (Cons a as)
  show ?case
  proof (induction bs)
    case (Cons b bs)
    show ?case
    proof (cases "le a b")
      case True
      then show ?thesis using as.IH [of "b # bs"] as.prems by simp
    next
      case False
      have "filter P (a # as) = []" if "P b"
      proof -
        have "\<not> P a" using P [of a b] that False by blast
        moreover have "\<not> P y" if "y \<in> set as" for y
          using P [of y b] \<open>P b\<close> False le_trans [of a y b] as.prems that by auto
        ultimately show ?thesis by (simp add: filter_empty_conv)
      qed
      then show ?thesis using False Cons.IH by auto
    qed
  qed simp
qed simp

lemma stable_merge_pass:
  assumes P: "\<And>a b. P a \<Longrightarrow> P b \<Longrightarrow> le a b"
  shows "sorted_runs le n xs \<Longrightarrow> filter P (merge_pass le n xs) = filter P xs"
proof (induction "length xs" arbitrary: xs rule: less_induct)
  case less
  show ?case
  proof (cases "n = 0 \<or> xs = []")
    case True
    then show ?thesis by (simp add: merge_pass.simps)
  next
    case False
    have r: "filter P (merge_pass le n (drop n (drop n xs))) = filter P (drop n (drop n xs))"
      using less.hyps False sorted_runs_drop [OF less.prems] by simp
    have "sorted_wrt le (take n (drop (0 * n) xs))"
      using less.prems unfolding sorted_runs_def by blast
    then have m: "filter P (merge_runs le (take n xs) (take n (drop n xs))) =
        filter P (take n xs) @ filter P (take n (drop n xs))"
      by (intro stable_merge_runs P) simp_all
    have "filter P xs = filter P (take n xs) @ filter P (take n (drop n xs)) @ filter P (drop n (drop n xs))"
      by (metis append_take_drop_id filter_append)
    then show ?thesis using False m r by (subst merge_pass.simps) simp
  qed
qed

lemma sorted_runs_one: "sorted_runs le 1 xs"
proof -
  have "length (take 1 ys) \<le> 1" for ys :: "'b list" by simp
  then have "sorted_wrt le (take 1 ys)" for ys :: "'b list"
    by (cases ys) simp_all
  then show ?thesis by (simp add: sorted_runs_def)
qed

lemma sorted_runs_all: "sorted_runs le n xs \<Longrightarrow> length xs \<le> n \<Longrightarrow> sorted_wrt le xs"
  unfolding sorted_runs_def by (metis drop0 mult_0 take_all)

end

section \<open>The nodes during the sort\<close>

text \<open>
  \<open>forest p d S r\<close>: the slots in use are \<open>S\<close>, the node \<open>i\<close> holds the element \<open>d i\<close>, whatever its
  links, and \<open>r\<close> slots are free.
\<close>

definition forest :: "'a link_node vl_pool \<Rightarrow> (vl_list_iter \<Rightarrow> 'a) \<Rightarrow> vl_list_iter set \<Rightarrow> nat \<Rightarrow> bool" where
  "forest p d S r \<longleftrightarrow>
     pool_inv p \<and> pool_live p = S \<and> pool_room p = r \<and>
     (\<forall>i \<in> S. \<exists>n. vlPoolSample p i = Some n \<and> node_data n = d i)"

lemma forest_not_invalid: "forest p d S r \<Longrightarrow> VL_LIST_ITER_INVALID \<notin> S"
  using INVALID_not_live by (auto simp: forest_def)

lemma forest_node: "forest p d S r \<Longrightarrow> i \<in> S \<Longrightarrow> \<exists>n. vlPoolSample p i = Some n \<and> node_data n = d i"
  by (auto simp: forest_def)

lemma forest_set_next:
  assumes f: "forest p d S r" and xs: "xs \<noteq> []" "set xs \<subseteq> S"
  shows "\<exists>p'. vlPoolModify p (last xs) (\<lambda>n. n\<lparr>node_next := x\<rparr>) = Some p' \<and> forest p' d S r \<and>
    vlPoolSample p' = relink_next (vlPoolSample p) xs x"
proof -
  have i: "last xs \<in> S" using xs by auto
  then obtain n where n: "vlPoolSample p (last xs) = Some n" "node_data n = d (last xs)"
    using f by (auto simp: forest_def)
  have "pool_inv p" "last xs \<in> pool_live p" using f i by (simp_all add: forest_def)
  then obtain p' where p': "vlPoolModify p (last xs) (\<lambda>n. n\<lparr>node_next := x\<rparr>) = Some p'" "pool_inv p'"
    "pool_live p' = pool_live p" "vlPoolSample p' = (vlPoolSample p)(last xs := Some (n\<lparr>node_next := x\<rparr>))"
    "pool_room p' = pool_room p"
    by (rule vlPoolModify_live [OF _ _ n(1)])
  then have "vlPoolSample p' = relink_next (vlPoolSample p) xs x" using xs n by (simp add: relink_next_def)
  moreover have "forest p' d S r" using f p' n by (auto simp: forest_def)
  ultimately show ?thesis using p'(1) by blast
qed

lemma forest_set_prev:
  assumes f: "forest p d S r" and xs: "xs \<noteq> []" "set xs \<subseteq> S"
  shows "\<exists>p'. vlPoolModify p (hd xs) (\<lambda>n. n\<lparr>node_prev := x\<rparr>) = Some p' \<and> forest p' d S r \<and>
    vlPoolSample p' = relink_prev (vlPoolSample p) xs x"
proof -
  have i: "hd xs \<in> S" using xs by auto
  then obtain n where n: "vlPoolSample p (hd xs) = Some n" "node_data n = d (hd xs)"
    using f by (auto simp: forest_def)
  have "pool_inv p" "hd xs \<in> pool_live p" using f i by (simp_all add: forest_def)
  then obtain p' where p': "vlPoolModify p (hd xs) (\<lambda>n. n\<lparr>node_prev := x\<rparr>) = Some p'" "pool_inv p'"
    "pool_live p' = pool_live p" "vlPoolSample p' = (vlPoolSample p)(hd xs := Some (n\<lparr>node_prev := x\<rparr>))"
    "pool_room p' = pool_room p"
    by (rule vlPoolModify_live [OF _ _ n(1)])
  then have "vlPoolSample p' = relink_prev (vlPoolSample p) xs x" using xs n by (simp add: relink_prev_def)
  moreover have "forest p' d S r" using f p' n by (auto simp: forest_def)
  ultimately show ?thesis using p'(1) by blast
qed

text \<open>A segment is joined to another one behind it.\<close>

lemma forest_join:
  assumes f: "forest p d S r" and seg: "seg (vlPoolSample p) pv M nx" "seg (vlPoolSample p) pa as na"
    and ne: "M \<noteq> []" "as \<noteq> []" and dist: "distinct (M @ as)" and sub: "set (M @ as) \<subseteq> S"
  obtains p1 p2 where "vlPoolModify p (last M) (\<lambda>n. n\<lparr>node_next := hd as\<rparr>) = Some p1"
    "vlPoolModify p1 (hd as) (\<lambda>n. n\<lparr>node_prev := last M\<rparr>) = Some p2" "forest p2 d S r"
    "seg (vlPoolSample p2) pv (M @ as) na"
    "\<And>i. i \<notin> set (M @ as) \<Longrightarrow> vlPoolSample p2 i = vlPoolSample p i"
proof -
  obtain p1 where p1: "vlPoolModify p (last M) (\<lambda>n. n\<lparr>node_next := hd as\<rparr>) = Some p1" "forest p1 d S r"
    "vlPoolSample p1 = relink_next (vlPoolSample p) M (hd as)"
    using forest_set_next [OF f ne(1), of "hd as"] sub by auto
  obtain p2 where p2: "vlPoolModify p1 (hd as) (\<lambda>n. n\<lparr>node_prev := last M\<rparr>) = Some p2" "forest p2 d S r"
    "vlPoolSample p2 = relink_prev (vlPoolSample p1) as (last M)"
    using forest_set_prev [OF p1(2) ne(2), of "last M"] sub by auto
  have disj: "set M \<inter> set as = {}" "set as \<inter> set M = {}" using dist by auto
  have e: "hd_or as x = hd as" "last_or M x = last M" for x
    using ne by (simp_all add: hd_or_def last_or_def split: list.splits)
  have "seg (vlPoolSample p2) pv (M @ as) na"
    using seg dist disj by (simp add: e p2(3) p1(3) seg_relink_next seg_relink_prev)
  moreover have "vlPoolSample p2 i = vlPoolSample p i" if "i \<notin> set (M @ as)" for i
    using that by (simp add: p2(3) p1(3))
  ultimately show thesis using that [OF p1(1) p2(1,2)] by blast
qed

lemma seg_last:
  "seg m pv M nx \<Longrightarrow> M \<noteq> [] \<Longrightarrow> \<exists>n. m (last M) = Some n \<and> node_next n = nx"
  by (cases M rule: rev_cases) auto

section \<open>Measuring and splitting a segment\<close>

lemma segment_length_loop_eq:
  "seg (vlPoolSample p) pv xs VL_LIST_ITER_INVALID \<Longrightarrow> VL_LIST_ITER_INVALID \<notin> set xs \<Longrightarrow>
   \<exists>n'. segment_length_loop p (hd_or xs VL_LIST_ITER_INVALID) l n = Some (n', last_or xs l)"
proof (induction xs arbitrary: pv l n)
  case Nil
  then show ?case by (simp add: segment_length_loop.simps)
next
  case (Cons x xs)
  then show ?case by (subst segment_length_loop.simps) auto
qed

lemma vl_ListSortSegmentLength_eq:
  assumes "seg (vlPoolSample p) pv xs VL_LIST_ITER_INVALID" and "VL_LIST_ITER_INVALID \<notin> set xs"
    and "xs \<noteq> []"
  shows "\<exists>n. vl_ListSortSegmentLength p (hd xs) = Some (n, Some (last xs))"
proof -
  have "hd_or xs VL_LIST_ITER_INVALID = hd xs" "last_or xs (hd xs) = last xs" "hd xs \<noteq> VL_LIST_ITER_INVALID"
    using assms(2,3) by (cases xs; auto simp: last_or_def)+
  then show ?thesis
    using segment_length_loop_eq [OF assms(1,2), of "hd xs" 0]
    by (auto simp: vl_ListSortSegmentLength_def)
qed

lemma sort_split_loop_eq:
  "seg (vlPoolSample p) pv ys VL_LIST_ITER_INVALID \<Longrightarrow> VL_LIST_ITER_INVALID \<notin> set ys \<Longrightarrow> ys \<noteq> [] \<Longrightarrow>
   sort_split_loop p at (hd ys) n =
     Some (if n < length ys then Some (last_or (take n ys) at, ys ! n) else None)"
proof (induction n arbitrary: at ys pv)
  case 0
  then show ?case by (simp add: hd_conv_nth)
next
  case (Suc n)
  then obtain y zs where y: "ys = y # zs" by (cases ys) auto
  then obtain v where v: "vlPoolSample p y =
      Some \<lparr>node_prev = pv, node_next = hd_or zs VL_LIST_ITER_INVALID, node_data = v\<rparr>"
    using Suc.prems(1) by auto
  show ?case
  proof (cases "zs = []")
    case True
    then show ?thesis using y v by simp
  next
    case False
    have "hd_or zs VL_LIST_ITER_INVALID = hd zs" "hd zs \<noteq> VL_LIST_ITER_INVALID"
      using False Suc.prems(2) y by (cases zs; auto)+
    moreover have "sort_split_loop p y (hd zs) n =
        Some (if n < length zs then Some (last_or (take n zs) y, zs ! n) else None)"
      by (rule Suc.IH [of y]) (use Suc.prems y False in auto)
    ultimately show ?thesis using y v by simp
  qed
qed

lemma vl_ListSortSplit_ok:
  assumes f: "forest p d S r" and sub: "set xs \<subseteq> S" and dist: "distinct xs" and n: "0 < n"
    and seg: "seg (vlPoolSample p) VL_LIST_ITER_INVALID xs VL_LIST_ITER_INVALID"
  obtains p' where
    "vl_ListSortSplit p (hd_or xs VL_LIST_ITER_INVALID) n = Some (hd_or (drop n xs) VL_LIST_ITER_INVALID, p')"
    "forest p' d S r" "seg (vlPoolSample p') VL_LIST_ITER_INVALID (take n xs) VL_LIST_ITER_INVALID"
    "seg (vlPoolSample p') VL_LIST_ITER_INVALID (drop n xs) VL_LIST_ITER_INVALID"
    "\<And>i. i \<notin> set xs \<Longrightarrow> vlPoolSample p' i = vlPoolSample p i"
proof -
  let ?N = VL_LIST_ITER_INVALID
  have N: "?N \<notin> set xs" using forest_not_invalid [OF f] sub by blast
  show thesis
  proof (cases "n < length xs")
    case False
    have "vl_ListSortSplit p (hd_or xs ?N) n = Some (?N, p)"
    proof (cases "xs = []")
      case ne: False
      then have "hd_or xs ?N = hd xs" "hd xs \<noteq> ?N" using N by (cases xs; auto)+
      then show ?thesis
        using sort_split_loop_eq [OF seg N ne, of "hd xs" n] False n by (simp add: vl_ListSortSplit_def)
    qed (simp add: vl_ListSortSplit_def)
    with False f seg show thesis by (intro that [of p]) simp_all
  next
    case True
    let ?t = "take n xs" and ?d = "drop n xs"
    have ne: "xs \<noteq> []" "?t \<noteq> []" "?d \<noteq> []" using True n by auto
    have st: "seg (vlPoolSample p) ?N ?t (hd_or ?d ?N)" "seg (vlPoolSample p) (last_or ?t ?N) ?d ?N"
      using seg seg_append [of "vlPoolSample p" ?N ?t ?d ?N] by simp_all
    have sets: "set ?t \<subseteq> S" "set ?d \<subseteq> S" "set ?t \<inter> set ?d = {}" "set ?d \<inter> set ?t = {}"
      using sub dist set_take_subset [of n xs] set_drop_subset [of n xs] set_take_disj_set_drop_if_distinct [OF dist, of n n]
      by auto
    have e: "hd_or ?d ?N = hd ?d" "hd xs \<noteq> ?N" "hd_or xs ?N = hd xs" "hd ?d \<noteq> ?N"
      "last_or ?t (hd xs) = last ?t"
    proof -
      show "hd_or ?d ?N = hd ?d" "hd_or xs ?N = hd xs" "last_or ?t (hd xs) = last ?t"
        using ne by (simp_all add: hd_or_def last_or_def split: list.splits)
      show "hd xs \<noteq> ?N" "hd ?d \<noteq> ?N"
        using N hd_in_set [OF ne(1)] hd_in_set [OF ne(3)] set_drop_subset [of n xs] by auto
    qed
    obtain h where h: "vlPoolSample p (last ?t) = Some h" "node_next h = hd ?d"
      using seg_last [OF st(1) ne(2)] e(1) by auto
    obtain p1 where p1: "vlPoolModify p (hd ?d) (\<lambda>n. n\<lparr>node_prev := ?N\<rparr>) = Some p1" "forest p1 d S r"
      "vlPoolSample p1 = relink_prev (vlPoolSample p) ?d ?N"
      using forest_set_prev [OF f ne(3) sets(2), of ?N] by blast
    obtain p2 where p2: "vlPoolModify p1 (last ?t) (\<lambda>n. n\<lparr>node_next := ?N\<rparr>) = Some p2" "forest p2 d S r"
      "vlPoolSample p2 = relink_next (vlPoolSample p1) ?t ?N"
      using forest_set_next [OF p1(2) ne(2) sets(1), of ?N] by blast
    have "sort_split_loop p (hd xs) (hd xs) n = Some (Some (last ?t, xs ! n))"
      using sort_split_loop_eq [OF seg N ne(1), of "hd xs" n] True e(5) by simp
    then have "vl_ListSortSplit p (hd xs) n = Some (hd ?d, p2)"
      using n e(2,4) h p1(1) p2(1) by (simp add: vl_ListSortSplit_def)
    then show thesis
    proof (intro that [of p2])
      show "seg (vlPoolSample p2) ?N ?t ?N"
        unfolding p2(3) by (rule seg_relink_next [of _ _ _ "hd_or ?d ?N"])
          (use st(1) sets dist in \<open>simp_all add: p1(3)\<close>)
      show "seg (vlPoolSample p2) ?N ?d ?N"
        using sets seg_relink_prev [OF st(2), of ?N] dist by (simp add: p2(3) p1(3))
      fix i assume "i \<notin> set xs"
      then have "i \<notin> set ?t" "i \<notin> set ?d" by (auto dest: in_set_takeD in_set_dropD)
      then show "vlPoolSample p2 i = vlPoolSample p i" by (simp add: p2(3) p1(3))
    qed (simp_all add: e p2(2))
  qed
qed

section \<open>Merging two segments\<close>

text \<open>The order of the nodes that a comparison function gives.\<close>

definition node_le :: "('a \<Rightarrow> 'a \<Rightarrow> int) \<Rightarrow> ('i \<Rightarrow> 'a) \<Rightarrow> 'i \<Rightarrow> 'i \<Rightarrow> bool" where
  "node_le cmp d i j \<longleftrightarrow> cmp (d i) (d j) \<le> 0"

text \<open>
  The state of the loop: \<open>M\<close> is merged already, \<open>as\<close> and \<open>bs\<close> remain. When one of them runs
  out, the header of the other one that the code keeps is that of its first node.
\<close>

definition merge_state ::
  "'a link_node vl_pool \<Rightarrow> vl_list_iter list \<Rightarrow> vl_list_iter list \<Rightarrow> vl_list_iter list \<Rightarrow>
   vl_list_iter \<Rightarrow> vl_list_iter \<Rightarrow> bool" where
  "merge_state p M as bs left right \<longleftrightarrow>
     M \<noteq> [] \<and> (as \<noteq> [] \<or> bs \<noteq> []) \<and> distinct (M @ as @ bs) \<and>
     (\<exists>nx. seg (vlPoolSample p) VL_LIST_ITER_INVALID M nx) \<and>
     (\<exists>pa. seg (vlPoolSample p) pa as VL_LIST_ITER_INVALID) \<and>
     (\<exists>pb. seg (vlPoolSample p) pb bs VL_LIST_ITER_INVALID) \<and>
     (bs = [] \<longrightarrow> left = hd as) \<and> (as = [] \<longrightarrow> right = hd bs)"

lemma hd_or_ne: "xs \<noteq> [] \<Longrightarrow> hd_or xs x = hd xs"
  by (cases xs) simp_all

lemma last_or_ne: "xs \<noteq> [] \<Longrightarrow> last_or xs x = last xs"
  by (simp add: last_or_def)

text \<open>One round: the node \<open>a\<close> in front of a remaining segment is appended to \<open>M\<close>.\<close>

lemma merge_step:
  assumes f: "forest p d S r" and seg: "seg (vlPoolSample p) VL_LIST_ITER_INVALID M nx"
    "seg (vlPoolSample p) pa (a # as) VL_LIST_ITER_INVALID"
    and M: "M \<noteq> []" and dist: "distinct (M @ a # as)" and sub: "set (M @ a # as) \<subseteq> S"
  obtains p1 p2 n1 n2 where "vlPoolModify p (last M) (\<lambda>n. n\<lparr>node_next := a\<rparr>) = Some p1"
    "vlPoolModify p1 a (\<lambda>n. n\<lparr>node_prev := last M\<rparr>) = Some p2" "forest p2 d S r"
    "vlPoolSample p2 a = Some n1" "node_next n1 = hd_or as VL_LIST_ITER_INVALID"
    "vlPoolSample p2 (last M) = Some n2" "node_next n2 = a"
    "seg (vlPoolSample p2) VL_LIST_ITER_INVALID (M @ [a]) (hd_or as VL_LIST_ITER_INVALID)"
    "seg (vlPoolSample p2) a as VL_LIST_ITER_INVALID"
    "\<And>i. i \<notin> set (M @ a # as) \<Longrightarrow> vlPoolSample p2 i = vlPoolSample p i"
proof -
  obtain p1 p2 where p: "vlPoolModify p (last M) (\<lambda>n. n\<lparr>node_next := hd (a # as)\<rparr>) = Some p1"
    "vlPoolModify p1 (hd (a # as)) (\<lambda>n. n\<lparr>node_prev := last M\<rparr>) = Some p2" "forest p2 d S r"
    and seg2: "seg (vlPoolSample p2) VL_LIST_ITER_INVALID (M @ a # as) VL_LIST_ITER_INVALID"
    and fr: "\<And>i. i \<notin> set (M @ a # as) \<Longrightarrow> vlPoolSample p2 i = vlPoolSample p i"
    by (rule forest_join [OF f seg M _ dist sub]) simp_all
  then have s: "seg (vlPoolSample p2) VL_LIST_ITER_INVALID M a"
    "seg (vlPoolSample p2) VL_LIST_ITER_INVALID (M @ [a]) (hd_or as VL_LIST_ITER_INVALID)"
    "seg (vlPoolSample p2) a as VL_LIST_ITER_INVALID"
    by simp_all
  obtain n2 where n2: "vlPoolSample p2 (last M) = Some n2" "node_next n2 = a"
    using seg_last [OF s(1) M] by blast
  obtain n1 where "vlPoolSample p2 a = Some n1" "node_next n1 = hd_or as VL_LIST_ITER_INVALID"
    using seg_last [OF s(2)] by auto
  then show thesis using that [of p1 p2 n1 n2] p fr s(2,3) n2 by simp
qed

lemma sort_merge_loop_ok:
  assumes "forest p d S r" and "merge_state p M as bs left right" and "set (M @ as @ bs) \<subseteq> S"
  shows "\<exists>p' M' as' bs' left' right'.
    sort_merge_loop cmp p (hd_or as VL_LIST_ITER_INVALID) (hd_or bs VL_LIST_ITER_INVALID) left right (last M) =
      Some (hd_or as' VL_LIST_ITER_INVALID, hd_or bs' VL_LIST_ITER_INVALID, left', right', last M', p') \<and>
    forest p' d S r \<and> merge_state p' M' as' bs' left' right' \<and> (as' = [] \<or> bs' = []) \<and>
    M' @ as' @ bs' = M @ merge_runs (node_le cmp d) as bs \<and>
    (\<forall>i. i \<notin> set (M @ as @ bs) \<longrightarrow> vlPoolSample p' i = vlPoolSample p i)"
  using assms
proof (induction "length as + length bs" arbitrary: p M as bs left right rule: less_induct)
  case less
  note f = less.prems(1) and ms = less.prems(2) and sub = less.prems(3)
  let ?N = VL_LIST_ITER_INVALID
  have N: "?N \<notin> set (M @ as @ bs)" using forest_not_invalid [OF f] sub by blast
  show ?case
  proof (cases "as = [] \<or> bs = []")
    case True
    then have stop: "sort_merge_loop cmp p (hd_or as ?N) (hd_or bs ?N) left right (last M) =
        Some (hd_or as ?N, hd_or bs ?N, left, right, last M, p)"
      by (subst sort_merge_loop.simps) auto
    have eq: "M @ as @ bs = M @ merge_runs (node_le cmp d) as bs" using True by auto
    show ?thesis
      by (intro exI conjI allI impI, rule stop, rule f, rule ms, rule True, rule eq, rule refl)
  next
    case False
    then obtain a as1 b bs1 where ab: "as = a # as1" "bs = b # bs1" by (cases as; cases bs) auto
    have "a \<in> S" "b \<in> S" using sub ab by auto
    then obtain na nb where n: "vlPoolSample p a = Some na" "node_data na = d a"
      "vlPoolSample p b = Some nb" "node_data nb = d b"
      using forest_node [OF f, of a] forest_node [OF f, of b] by blast
    have valid: "a \<noteq> ?N" "b \<noteq> ?N" using N ab by auto
    obtain nx pa pb where sg: "seg (vlPoolSample p) ?N M nx" "seg (vlPoolSample p) pa (a # as1) ?N"
      "seg (vlPoolSample p) pb (b # bs1) ?N" and M: "M \<noteq> []" and dist: "distinct (M @ as @ bs)"
      using ms ab by (auto simp: merge_state_def)
    show ?thesis
    proof (cases "cmp (d a) (d b) \<le> 0")
      case True
      obtain p1 p2 n1 n2 where st: "vlPoolModify p (last M) (\<lambda>n. n\<lparr>node_next := a\<rparr>) = Some p1"
        "vlPoolModify p1 a (\<lambda>n. n\<lparr>node_prev := last M\<rparr>) = Some p2" "forest p2 d S r"
        "vlPoolSample p2 a = Some n1" "node_next n1 = hd_or as1 ?N"
        "vlPoolSample p2 (last M) = Some n2" "node_next n2 = a"
        "seg (vlPoolSample p2) ?N (M @ [a]) (hd_or as1 ?N)" "seg (vlPoolSample p2) a as1 ?N"
        and fr: "\<And>i. i \<notin> set (M @ a # as1) \<Longrightarrow> vlPoolSample p2 i = vlPoolSample p i"
        by (rule merge_step [OF f sg(1,2) M]) (use dist sub ab in auto)
      have "seg (vlPoolSample p2) pb bs ?N"
        using sg(3) seg_cong [of bs "vlPoolSample p2" "vlPoolSample p" pb ?N] fr dist ab by fastforce
      then have ms2: "merge_state p2 (M @ [a]) as1 bs a b"
        unfolding merge_state_def using st(8,9) dist ab by auto
      have "\<exists>p' M' as' bs' left' right'.
        sort_merge_loop cmp p2 (hd_or as1 ?N) (hd_or bs ?N) a b (last (M @ [a])) =
          Some (hd_or as' ?N, hd_or bs' ?N, left', right', last M', p') \<and>
        forest p' d S r \<and> merge_state p' M' as' bs' left' right' \<and> (as' = [] \<or> bs' = []) \<and>
        M' @ as' @ bs' = (M @ [a]) @ merge_runs (node_le cmp d) as1 bs \<and>
        (\<forall>i. i \<notin> set ((M @ [a]) @ as1 @ bs) \<longrightarrow> vlPoolSample p' i = vlPoolSample p2 i)"
        by (rule less.hyps [OF _ st(3) ms2]) (use sub ab in auto)
      moreover have "sort_merge_loop cmp p (hd_or as ?N) (hd_or bs ?N) left right (last M) =
          sort_merge_loop cmp p2 (hd_or as1 ?N) (hd_or bs ?N) a b (last (M @ [a]))"
        using ab n valid True st(1,2,4-7) by (subst sort_merge_loop.simps) simp
      moreover have "M @ merge_runs (node_le cmp d) as bs = (M @ [a]) @ merge_runs (node_le cmp d) as1 bs"
        using True ab by (simp add: node_le_def)
      ultimately show ?thesis using fr ab by simp
    next
      case gt: False
      obtain p1 p2 n1 n2 where st: "vlPoolModify p (last M) (\<lambda>n. n\<lparr>node_next := b\<rparr>) = Some p1"
        "vlPoolModify p1 b (\<lambda>n. n\<lparr>node_prev := last M\<rparr>) = Some p2" "forest p2 d S r"
        "vlPoolSample p2 b = Some n1" "node_next n1 = hd_or bs1 ?N"
        "vlPoolSample p2 (last M) = Some n2" "node_next n2 = b"
        "seg (vlPoolSample p2) ?N (M @ [b]) (hd_or bs1 ?N)" "seg (vlPoolSample p2) b bs1 ?N"
        and fr: "\<And>i. i \<notin> set (M @ b # bs1) \<Longrightarrow> vlPoolSample p2 i = vlPoolSample p i"
        by (rule merge_step [OF f sg(1,3) M]) (use dist sub ab in auto)
      have "seg (vlPoolSample p2) pa as ?N"
        using sg(2) seg_cong [of as "vlPoolSample p2" "vlPoolSample p" pa ?N] fr dist ab by fastforce
      then have ms2: "merge_state p2 (M @ [b]) as bs1 a b"
        unfolding merge_state_def using st(8,9) dist ab by auto
      have "\<exists>p' M' as' bs' left' right'.
        sort_merge_loop cmp p2 (hd_or as ?N) (hd_or bs1 ?N) a b (last (M @ [b])) =
          Some (hd_or as' ?N, hd_or bs' ?N, left', right', last M', p') \<and>
        forest p' d S r \<and> merge_state p' M' as' bs' left' right' \<and> (as' = [] \<or> bs' = []) \<and>
        M' @ as' @ bs' = (M @ [b]) @ merge_runs (node_le cmp d) as bs1 \<and>
        (\<forall>i. i \<notin> set ((M @ [b]) @ as @ bs1) \<longrightarrow> vlPoolSample p' i = vlPoolSample p2 i)"
        by (rule less.hyps [OF _ st(3) ms2]) (use sub ab in auto)
      moreover have "sort_merge_loop cmp p (hd_or as ?N) (hd_or bs ?N) left right (last M) =
          sort_merge_loop cmp p2 (hd_or as ?N) (hd_or bs1 ?N) a b (last (M @ [b]))"
        using ab n valid gt st(1,2,4-7) by (subst sort_merge_loop.simps) simp
      moreover have "M @ merge_runs (node_le cmp d) as bs = (M @ [b]) @ merge_runs (node_le cmp d) as bs1"
        using gt ab by (simp add: node_le_def)
      ultimately show ?thesis using fr ab by (simp add: conj_ac)
    qed
  qed
qed

lemma seg_frame:
  "seg m pv xs nx \<Longrightarrow> (\<And>i. i \<in> set xs \<Longrightarrow> m' i = m i) \<Longrightarrow> seg m' pv xs nx"
  using seg_cong [of xs m' m] by blast

lemma vl_ListSortMerge_ok:
  fixes cmp :: "'a \<Rightarrow> 'a \<Rightarrow> int"
  assumes f: "forest p d S r" and sub: "set (as @ bs) \<subseteq> S" and dist: "distinct (as @ bs)"
    and ne: "as \<noteq> []"
    and seg: "seg (vlPoolSample p) VL_LIST_ITER_INVALID as VL_LIST_ITER_INVALID"
      "seg (vlPoolSample p) VL_LIST_ITER_INVALID bs VL_LIST_ITER_INVALID"
  defines "ms \<equiv> merge_runs (node_le cmp d) as bs"
  obtains p' where
    "vl_ListSortMerge cmp p (hd_or as VL_LIST_ITER_INVALID) (hd_or bs VL_LIST_ITER_INVALID) mt =
      Some (hd ms, Some (last ms), p')"
    "forest p' d S r" "seg (vlPoolSample p') VL_LIST_ITER_INVALID ms VL_LIST_ITER_INVALID"
    "\<And>i. i \<notin> set (as @ bs) \<Longrightarrow> vlPoolSample p' i = vlPoolSample p i"
proof -
  let ?N = VL_LIST_ITER_INVALID
  have N: "?N \<notin> set (as @ bs)" using forest_not_invalid [OF f] sub by blast
  have ha: "hd_or as ?N = hd as" "hd as \<noteq> ?N" using ne N by (cases as; auto)+
  show thesis
  proof (cases bs)
    case Nil
    then obtain n where "vl_ListSortSegmentLength p (hd as) = Some (n, Some (last as))"
      using vl_ListSortSegmentLength_eq [OF seg(1) _ ne] N by auto
    then have "vl_ListSortMerge cmp p (hd_or as ?N) (hd_or bs ?N) mt = Some (hd ms, Some (last ms), p)"
      using ha Nil by (simp add: vl_ListSortMerge_def ms_def)
    then show thesis using f seg(1) Nil by (intro that [of p]) (simp_all add: ms_def)
  next
    case (Cons b bs1)
    obtain a as1 where a: "as = a # as1" using ne by (cases as) auto
    have valid: "a \<noteq> ?N" "b \<noteq> ?N" using N a Cons by auto
    have "a \<in> S" "b \<in> S" using sub a Cons by auto
    then obtain na nb where n: "vlPoolSample p a = Some na" "node_data na = d a"
      "vlPoolSample p b = Some nb" "node_data nb = d b"
      using forest_node [OF f, of a] forest_node [OF f, of b] by blast
    have nx: "node_next na = hd_or as1 ?N" "node_next nb = hd_or bs1 ?N"
      using seg n a Cons by auto
    define le where "le \<longleftrightarrow> cmp (d a) (d b) \<le> 0"
    define h where "h = (if le then a else b)"
    define as2 where "as2 = (if le then as1 else as)"
    define bs2 where "bs2 = (if le then bs else bs1)"
    have split: "ms = h # merge_runs (node_le cmp d) as2 bs2"
      by (simp add: ms_def a Cons node_le_def h_def as2_def bs2_def le_def)
    have st: "merge_state p [h] as2 bs2 a b"
      unfolding merge_state_def h_def as2_def bs2_def using seg dist a Cons by (cases le) auto
    have sub2: "set ([h] @ as2 @ bs2) \<subseteq> S" "set ([h] @ as2 @ bs2) = set (as @ bs)"
      using sub by (auto simp: h_def as2_def bs2_def a Cons)
    obtain p1 M as' bs' l' r' where lp: "sort_merge_loop cmp p (hd_or as2 ?N) (hd_or bs2 ?N) a b (last [h]) =
        Some (hd_or as' ?N, hd_or bs' ?N, l', r', last M, p1)"
      "forest p1 d S r" "merge_state p1 M as' bs' l' r'" "as' = [] \<or> bs' = []"
      "M @ as' @ bs' = [h] @ merge_runs (node_le cmp d) as2 bs2"
      and fr1: "\<And>i. i \<notin> set (as @ bs) \<Longrightarrow> vlPoolSample p1 i = vlPoolSample p i"
      using sort_merge_loop_ok [OF f st sub2(1), of cmp, unfolded sub2(2)] by blast
    have ms: "M @ as' @ bs' = ms" using lp(5) split by simp
    have sets: "set ms = set (as @ bs)" by (simp add: ms_def)
    have enter: "vl_ListSortMerge cmp p (hd_or as ?N) (hd_or bs ?N) mt =
      (do {
        (a, b, left, right, tail, pool) \<leftarrow> sort_merge_loop cmp p (hd_or as2 ?N) (hd_or bs2 ?N) a b h;
        if a \<noteq> ?N then do {
          pool \<leftarrow> vlPoolModify pool tail (\<lambda>n. n\<lparr>node_next := a\<rparr>);
          pool \<leftarrow> vlPoolModify pool left (\<lambda>n. n\<lparr>node_prev := tail\<rparr>);
          (_, stop) \<leftarrow> vl_ListSortSegmentLength pool a;
          Some (h, if stop = None then Some tail else stop, pool)
        } else do {
          pool \<leftarrow> vlPoolModify pool tail (\<lambda>n. n\<lparr>node_next := b\<rparr>);
          pool \<leftarrow> vlPoolModify pool right (\<lambda>n. n\<lparr>node_prev := tail\<rparr>);
          (_, stop) \<leftarrow> vl_ListSortSegmentLength pool b;
          Some (h, if stop = None then Some tail else stop, pool)
        }
      })"
    proof (cases le)
      case True
      then have "h = a" "as2 = as1" "bs2 = bs" by (simp_all add: h_def as2_def bs2_def)
      note e = this
      show ?thesis unfolding e using True n nx valid by (simp add: vl_ListSortMerge_def a Cons le_def)
    next
      case False
      then have "h = b" "as2 = as" "bs2 = bs1" by (simp_all add: h_def as2_def bs2_def)
      note e = this
      show ?thesis unfolding e using False n nx valid by (simp add: vl_ListSortMerge_def a Cons le_def)
    qed
    have Ms: "M \<noteq> []" "distinct (M @ as' @ bs')" using lp(3) by (simp_all add: merge_state_def)
    have hd_ms: "hd ms = h" using split by simp
    obtain rest where rest: "rest \<noteq> []" "as' @ bs' = rest" "(as' = rest \<and> l' = hd rest) \<or> (as' = [] \<and> bs' = rest \<and> r' = hd rest)"
      "\<exists>pa. seg (vlPoolSample p1) pa rest ?N" "\<exists>nx. seg (vlPoolSample p1) ?N M nx"
      using lp(3,4) unfolding merge_state_def by (cases "as' = []") auto
    have subM: "distinct (M @ rest)" "set (M @ rest) \<subseteq> S" "M @ rest = ms"
      using Ms(2) ms rest(2) sets sub by auto
    obtain pa nx where sg: "seg (vlPoolSample p1) ?N M nx" "seg (vlPoolSample p1) pa rest ?N"
      using rest(4,5) by blast
    obtain p2 p3 where j: "vlPoolModify p1 (last M) (\<lambda>n. n\<lparr>node_next := hd rest\<rparr>) = Some p2"
      "vlPoolModify p2 (hd rest) (\<lambda>n. n\<lparr>node_prev := last M\<rparr>) = Some p3" "forest p3 d S r"
      "seg (vlPoolSample p3) ?N (M @ rest) ?N"
      and fr3: "\<And>i. i \<notin> set (M @ rest) \<Longrightarrow> vlPoolSample p3 i = vlPoolSample p1 i"
      by (rule forest_join [OF lp(2) sg Ms(1) rest(1) subM(1,2)]) blast
    have N3: "?N \<notin> set rest" "hd rest \<noteq> ?N"
      using forest_not_invalid [OF f] subM(2) hd_in_set [OF rest(1)] by auto
    have sg3: "seg (vlPoolSample p3) (last_or M ?N) rest ?N" using j(4) by simp
    obtain k where k: "vl_ListSortSegmentLength p3 (hd rest) = Some (k, Some (last rest))"
      using vl_ListSortSegmentLength_eq [OF sg3 N3(1) rest(1)] by blast
    have "last ms = last rest" using subM(3) rest(1) by auto
    then have "vl_ListSortMerge cmp p (hd_or as ?N) (hd_or bs ?N) mt = Some (hd ms, Some (last ms), p3)"
      unfolding enter using lp(1) rest(1,3) j(1,2) k N3(2) hd_ms by (auto simp: hd_or_ne)
    then show thesis
      using that [of p3] j(3,4) subM(3) fr1 fr3 sets by simp
  qed
qed

section \<open>One pass and all passes\<close>

text \<open>\<open>D\<close> is done in this pass, \<open>R\<close> remains.\<close>

lemma sort_pass_loop_ok:
  assumes "forest p d S r" and "set (D @ R) \<subseteq> S" and "distinct (D @ R)" and "0 < n"
    and "seg (vlPoolSample p) VL_LIST_ITER_INVALID D VL_LIST_ITER_INVALID"
    and "seg (vlPoolSample p) VL_LIST_ITER_INVALID R VL_LIST_ITER_INVALID"
    and "D \<noteq> [] \<longrightarrow> head = hd D"
  shows "\<exists>p' mt'. sort_pass_loop cmp n head p (hd_or R VL_LIST_ITER_INVALID) (last_or D VL_LIST_ITER_INVALID) mt =
      Some (hd_or (D @ merge_pass (node_le cmp d) n R) head, mt', p') \<and> forest p' d S r \<and>
    seg (vlPoolSample p') VL_LIST_ITER_INVALID (D @ merge_pass (node_le cmp d) n R) VL_LIST_ITER_INVALID"
  using assms
proof (induction "length R" arbitrary: p D R head mt rule: less_induct)
  case less
  note f = less.prems(1) and sub = less.prems(2) and dist = less.prems(3) and n = less.prems(4)
    and sD = less.prems(5) and sR = less.prems(6) and head = less.prems(7)
  let ?N = VL_LIST_ITER_INVALID
  have N: "?N \<notin> set (D @ R)" using forest_not_invalid [OF f] sub by blast
  show ?case
  proof (cases "R = []")
    case True
    moreover have "hd_or D head = head" using head by (cases D) auto
    ultimately show ?thesis
      using f sD by (subst sort_pass_loop.simps) (simp add: merge_pass.simps)
  next
    case False
    let ?A = "take n R" and ?R1 = "drop n R"
    let ?B = "take n ?R1" and ?R2 = "drop n ?R1"
    let ?M = "merge_runs (node_le cmp d) ?A ?B"
    have parts: "R = ?A @ ?B @ ?R2" by (simp only: append_take_drop_id)
    have dR: "distinct R" "distinct ?R1" "set R \<subseteq> S" "set ?R1 \<subseteq> S" "set D \<inter> set R = {}"
      using dist sub set_drop_subset [of n R] by auto
    have dparts: "distinct (?A @ ?B @ ?R2)" "set (?A @ ?B @ ?R2) = set R" using dR(1) parts by metis+
    have neA: "?A \<noteq> []" using False n by simp
    obtain p1 where p1: "vl_ListSortSplit p (hd_or R ?N) n = Some (hd_or ?R1 ?N, p1)" "forest p1 d S r"
      "seg (vlPoolSample p1) ?N ?A ?N" "seg (vlPoolSample p1) ?N ?R1 ?N"
      and fr1: "\<And>i. i \<notin> set R \<Longrightarrow> vlPoolSample p1 i = vlPoolSample p i"
      using vl_ListSortSplit_ok [OF f dR(3,1) n sR] by blast
    obtain p2 where p2: "vl_ListSortSplit p1 (hd_or ?R1 ?N) n = Some (hd_or ?R2 ?N, p2)" "forest p2 d S r"
      "seg (vlPoolSample p2) ?N ?B ?N" "seg (vlPoolSample p2) ?N ?R2 ?N"
      and fr2: "\<And>i. i \<notin> set ?R1 \<Longrightarrow> vlPoolSample p2 i = vlPoolSample p1 i"
      using vl_ListSortSplit_ok [OF p1(2) dR(4,2) n p1(4)] by blast
    have disj: "set ?A \<inter> set ?R1 = {}" using dR(1) by (simp add: set_take_disj_set_drop_if_distinct)
    have sA: "seg (vlPoolSample p2) ?N ?A ?N"
      by (rule seg_frame [OF p1(3)]) (use disj fr2 in auto)
    have subAB: "set (?A @ ?B) \<subseteq> S" and distAB: "distinct (?A @ ?B)"
      using dparts dR(3) by auto
    obtain p3 where p3: "vl_ListSortMerge cmp p2 (hd_or ?A ?N) (hd_or ?B ?N) mt =
        Some (hd ?M, Some (last ?M), p3)" "forest p3 d S r" "seg (vlPoolSample p3) ?N ?M ?N"
      and fr3: "\<And>i. i \<notin> set (?A @ ?B) \<Longrightarrow> vlPoolSample p3 i = vlPoolSample p2 i"
      by (rule vl_ListSortMerge_ok [OF p2(2) subAB distAB neA sA p2(3), where cmp = cmp and mt = mt]) blast
    have neM: "?M \<noteq> []" using neA by simp
    have sR2: "seg (vlPoolSample p3) ?N ?R2 ?N"
      by (rule seg_frame [OF p2(4)]) (use dparts(1) fr3 in auto)
    have sD3: "seg (vlPoolSample p3) ?N D ?N"
    proof (rule seg_frame [OF sD])
      fix i assume "i \<in> set D"
      then have "i \<notin> set R" using dR(5) by blast
      moreover from this have "i \<notin> set ?R1" "i \<notin> set (?A @ ?B)" using dparts(2) set_drop_subset [of n R] by auto
      ultimately show "vlPoolSample p3 i = vlPoolSample p i" using fr1 fr2 fr3 by simp
    qed
    have distM: "distinct (D @ ?M @ ?R2)" "set (D @ ?M @ ?R2) \<subseteq> S"
    proof -
      have "mset R = mset (?A @ ?B @ ?R2)" using parts by metis
      then have "mset (D @ ?M @ ?R2) = mset (D @ R)" by simp
      then show "distinct (D @ ?M @ ?R2)" "set (D @ ?M @ ?R2) \<subseteq> S"
        using dist sub mset_eq_imp_distinct_iff mset_eq_setD by blast+
    qed
    have "hd_or (take n ys) ?N = hd_or ys ?N" for ys using n by (cases ys; cases n) auto
    then have hdA: "hd_or R ?N = hd_or ?A ?N" and hdB: "hd_or ?R1 ?N = hd_or ?B ?N" by simp_all
    have validR: "hd_or R ?N \<noteq> ?N" using N False by (cases R) auto
    obtain p4 where p4: "(if last_or D ?N = ?N then Some (hd ?M, p3)
        else do {
          pool \<leftarrow> vlPoolModify p3 (last_or D ?N) (\<lambda>n. n\<lparr>node_next := hd ?M\<rparr>);
          pool \<leftarrow> vlPoolModify pool (hd ?M) (\<lambda>n. n\<lparr>node_prev := last_or D ?N\<rparr>);
          Some (head, pool)
        }) = Some (hd_or D (hd ?M), p4)" "forest p4 d S r"
      "seg (vlPoolSample p4) ?N (D @ ?M) ?N" "seg (vlPoolSample p4) ?N ?R2 ?N"
    proof (cases "D = []")
      case True
      then show thesis using that [of p3] p3 sR2 by simp
    next
      case neD: False
      have "last D \<noteq> ?N" using N last_in_set [OF neD] by auto
      have "distinct (D @ ?M)" "set (D @ ?M) \<subseteq> S" using distM by auto
      then obtain q4 q5 where j: "vlPoolModify p3 (last D) (\<lambda>n. n\<lparr>node_next := hd ?M\<rparr>) = Some q4"
        "vlPoolModify q4 (hd ?M) (\<lambda>n. n\<lparr>node_prev := last D\<rparr>) = Some q5" "forest q5 d S r"
        "seg (vlPoolSample q5) ?N (D @ ?M) ?N"
        and fr5: "\<And>i. i \<notin> set (D @ ?M) \<Longrightarrow> vlPoolSample q5 i = vlPoolSample p3 i"
        by (rule forest_join [OF p3(2) sD3 p3(3) neD neM]) blast
      have "seg (vlPoolSample q5) ?N ?R2 ?N"
        by (rule seg_frame [OF sR2]) (use distM(1) fr5 in auto)
      then show thesis
        using that [of q5] j neD head \<open>last D \<noteq> ?N\<close> by (simp add: last_or_ne hd_or_ne)
    qed
    have IH: "\<exists>p' mt'. sort_pass_loop cmp n (hd_or D (hd ?M)) p4 (hd_or ?R2 ?N) (last_or (D @ ?M) ?N) (Some (last ?M)) =
        Some (hd_or ((D @ ?M) @ merge_pass (node_le cmp d) n ?R2) (hd_or D (hd ?M)), mt', p') \<and> forest p' d S r \<and>
      seg (vlPoolSample p') ?N ((D @ ?M) @ merge_pass (node_le cmp d) n ?R2) ?N"
    proof (rule less.hyps [OF _ p4(2)])
      show "length ?R2 < length R" using False n by simp
      show "D @ ?M \<noteq> [] \<longrightarrow> hd_or D (hd ?M) = hd (D @ ?M)" by (cases D) simp_all
    qed (use distM n p4(3,4) in simp_all)
    have "sort_pass_loop cmp n head p (hd_or R ?N) (last_or D ?N) mt =
        sort_pass_loop cmp n (hd_or D (hd ?M)) p4 (hd_or ?R2 ?N) (last_or (D @ ?M) ?N) (Some (last ?M))"
      using validR p1(1) p2(1) p3(1) p4(1) neM hdA hdB
      by (subst sort_pass_loop.simps) (simp add: Let_def last_or_ne)
    moreover have "merge_pass (node_le cmp d) n R = ?M @ merge_pass (node_le cmp d) n ?R2"
      using False n by (subst merge_pass.simps) simp
    moreover have "hd_or (D @ ?M @ zs) y = hd_or (D @ ?M @ zs) z" for zs y z
      using neM by (cases D) (simp_all add: hd_or_ne)
    ultimately show ?thesis using IH by (metis append.assoc)
  qed
qed

lemma node_order: "comparator cmp \<Longrightarrow> run_order (node_le cmp d)"
  unfolding comparator_def run_order_def node_le_def by blast

interpretation runs_int: run_order "node_le vlCompareInt d" for d
  by (rule node_order) (rule cmp_int.comparator_axioms)

interpretation runs_uint: run_order "node_le vlCompareUInt d" for d
  by (rule node_order) (rule cmp_uint.comparator_axioms)

text \<open>
  A stable sort: a sorted permutation in which tied elements keep their order.
\<close>

definition sorts_to :: "('b \<Rightarrow> 'b \<Rightarrow> bool) \<Rightarrow> 'b list \<Rightarrow> 'b list \<Rightarrow> bool" where
  "sorts_to le xs ys \<longleftrightarrow> mset ys = mset xs \<and> sorted_wrt le ys \<and>
     (\<forall>P. (\<forall>a b. P a \<longrightarrow> P b \<longrightarrow> le a b) \<longrightarrow> filter P ys = filter P xs)"

lemma sorts_toD:
  assumes "sorts_to le xs ys"
  shows "mset ys = mset xs" and "set ys = set xs" and "sorted_wrt le ys"
    and "distinct ys = distinct xs"
    and "(\<And>a b. P a \<Longrightarrow> P b \<Longrightarrow> le a b) \<Longrightarrow> filter P ys = filter P xs"
  using assms mset_eq_setD [of ys xs] mset_eq_imp_distinct_iff [of ys xs]
  by (auto simp: sorts_to_def)

lemma sorts_to_trans: "sorts_to le xs ys \<Longrightarrow> sorts_to le ys zs \<Longrightarrow> sorts_to le xs zs"
  by (simp add: sorts_to_def)

lemma sorts_to_map:
  assumes "sorts_to (node_le cmp d) xs ys"
  shows "sorts_to (\<lambda>a b. cmp a b \<le> 0) (map d xs) (map d ys)"
  unfolding sorts_to_def
proof (intro conjI allI impI)
  show "mset (map d ys) = mset (map d xs)" using sorts_toD(1) [OF assms] by simp
  show "sorted_wrt (\<lambda>a b. cmp a b \<le> 0) (map d ys)"
    using sorts_toD(3) [OF assms] by (simp add: sorted_wrt_map node_le_def [abs_def])
  fix P assume "\<forall>a b. P a \<longrightarrow> P b \<longrightarrow> cmp a b \<le> 0"
  then have "filter (P \<circ> d) ys = filter (P \<circ> d) xs"
    by (intro sorts_toD(5) [OF assms]) (simp add: node_le_def)
  then show "filter P (map d ys) = filter P (map d xs)" by (simp add: filter_map)
qed

lemma sort_passes_ok:
  assumes cmp: "comparator cmp"
  shows "forest p d S r \<Longrightarrow> set xs \<subseteq> S \<Longrightarrow> distinct xs \<Longrightarrow> 0 < n \<Longrightarrow>
    seg (vlPoolSample p) VL_LIST_ITER_INVALID xs VL_LIST_ITER_INVALID \<Longrightarrow>
    sorted_runs (node_le cmp d) n xs \<Longrightarrow> length xs \<le> len \<Longrightarrow> len \<le> 2 ^ 31 \<Longrightarrow>
    \<exists>p' ys. sort_passes cmp n len (hd_or xs VL_LIST_ITER_INVALID) p mt =
        Some (hd_or ys VL_LIST_ITER_INVALID, p') \<and> forest p' d S r \<and>
      seg (vlPoolSample p') VL_LIST_ITER_INVALID ys VL_LIST_ITER_INVALID \<and> sorts_to (node_le cmp d) xs ys"
proof (induction "len - n" arbitrary: n p xs mt rule: less_induct)
  case less
  let ?N = VL_LIST_ITER_INVALID and ?le = "node_le cmp d"
  note o = node_order [OF cmp, of d]
  show ?case
  proof (cases "n < len")
    case False
    then have "sorted_wrt ?le xs"
      using run_order.sorted_runs_all [OF o less.prems(6)] less.prems(7) by simp
    then show ?thesis
      using False less.prems(1,5) by (subst sort_passes.simps) (auto simp: sorts_to_def)
  next
    case True
    let ?ys = "merge_pass ?le n xs"
    obtain p' mt' where ps: "sort_pass_loop cmp n (hd_or xs ?N) p (hd_or xs ?N) (last_or [] ?N) mt =
        Some (hd_or ([] @ ?ys) (hd_or xs ?N), mt', p')" "forest p' d S r"
      "seg (vlPoolSample p') ?N ([] @ ?ys) ?N"
      using sort_pass_loop_ok [OF less.prems(1), of "[]" xs n "hd_or xs ?N" cmp mt] less.prems(2-5) by auto
    have e: "?ys = [] \<longleftrightarrow> xs = []" by (metis length_0_conv length_merge_pass)
    have hd: "hd_or ?ys (hd_or xs ?N) = hd_or ?ys ?N" using e by (cases "?ys") auto
    have w: "u32_of (n * 2) = 2 * n" using True less.prems(8) by (simp add: u32_of_def)
    have m: "mset ?ys = mset xs" by simp
    have d: "distinct ?ys" "set ?ys = set xs"
      using less.prems(3) m mset_eq_imp_distinct_iff mset_eq_setD by blast+
    have runs: "sorted_runs ?le (2 * n) ?ys"
      using run_order.sorted_runs_pass [OF o less.prems(6,4)] .
    obtain p2 zs where q: "sort_passes cmp (2 * n) len (hd_or ?ys ?N) p' mt' = Some (hd_or zs ?N, p2)"
      "forest p2 d S r" "seg (vlPoolSample p2) ?N zs ?N" "sorts_to ?le ?ys zs"
    proof -
      have "\<exists>p2 zs. sort_passes cmp (2 * n) len (hd_or ?ys ?N) p' mt' = Some (hd_or zs ?N, p2) \<and>
          forest p2 d S r \<and> seg (vlPoolSample p2) ?N zs ?N \<and> sorts_to ?le ?ys zs"
        by (rule less.hyps [OF _ ps(2)])
          (use True less.prems(2,4,7,8) d runs ps(3) in simp_all)
      then show thesis using that by blast
    qed
    have "filter P ?ys = filter P xs" if "\<And>a b. P a \<Longrightarrow> P b \<Longrightarrow> ?le a b" for P
      using that less.prems(6) by (rule run_order.stable_merge_pass [OF o])
    then have "sorts_to ?le xs zs"
      using q(4) m unfolding sorts_to_def by auto
    moreover have "sort_passes cmp n len (hd_or xs ?N) p mt = Some (hd_or zs ?N, p2)"
      using True ps(1) q(1) by (subst sort_passes.simps) (simp add: hd w)
    ultimately show ?thesis using q(2,3) by blast
  qed
qed

section \<open>The whole sort\<close>

lemma vlListSort_ok:
  assumes rep: "list_rep q xs" and cmp: "comparator cmp"
    and len: "length xs \<le> list_length q" "list_length q \<le> 2 ^ 31"
  defines "d \<equiv> (\<lambda>i. node_data (the (vlPoolSample (list_nodePool q) i)))"
  obtains q' ys where "vlListSort q cmp = Some q'" "chain (list_nodePool q') ys"
    "list_head q' = hd_or ys VL_LIST_ITER_INVALID" "list_tail q' = list_tail q"
    "list_length q' = list_length q" "sorts_to (node_le cmp d) xs ys"
    "\<And>i. i \<in> set xs \<Longrightarrow> vlListSample q i = Some (d i) \<and> vlListSample q' i = Some (d i)"
    "pool_room (list_nodePool q') = pool_room (list_nodePool q)"
proof -
  let ?N = VL_LIST_ITER_INVALID
  have ch: "chain (list_nodePool q) xs" using rep by (simp add: list_rep_def)
  have smp: "vlListSample q i = Some (d i)" if "i \<in> set xs" for i
    using vlListSample_chain [OF ch that] by (simp add: d_def)
  show thesis
  proof (cases "length xs \<le> 1")
    case True
    then have "list_head q = list_tail q" using chain_ends(3) [OF ch] rep by (simp add: list_rep_def)
    moreover have "sorts_to (node_le cmp d) xs xs"
      using True by (cases xs) (auto simp: sorts_to_def)
    ultimately show thesis using that [of q xs] ch rep smp by (simp add: vlListSort_def list_rep_def)
  next
    case False
    then have ne: "list_head q \<noteq> list_tail q" using chain_ends(3) [OF ch] rep by (simp add: list_rep_def)
    have "\<exists>n. vlPoolSample (list_nodePool q) i = Some n \<and> node_data n = d i" if "i \<in> set xs" for i
      using seg_sample [OF chainD(4) [OF ch] that] by (auto simp: d_def)
    then have f: "forest (list_nodePool q) d (set xs) (pool_room (list_nodePool q))"
      using chainD(1,2) [OF ch] by (simp add: forest_def)
    obtain p' ys where s: "sort_passes cmp 1 (list_length q) (hd_or xs ?N) (list_nodePool q) None =
        Some (hd_or ys ?N, p')" "forest p' d (set xs) (pool_room (list_nodePool q))"
      "seg (vlPoolSample p') ?N ys ?N" "sorts_to (node_le cmp d) xs ys"
      using sort_passes_ok [OF cmp f order_refl chainD(3) [OF ch] _ chainD(4) [OF ch]
          run_order.sorted_runs_one [OF node_order [OF cmp]] len, of None] by auto
    have ys: "distinct ys" "set ys = set xs" using sorts_toD(2,4) [OF s(4)] chainD(3) [OF ch] by auto
    define q' where "q' = q\<lparr>list_nodePool := p', list_head := hd_or ys ?N\<rparr>"
    have "vlListSort q cmp = Some q'"
      using ne s(1) rep by (simp add: vlListSort_def q'_def list_rep_def)
    moreover have ch': "chain (list_nodePool q') ys"
      using s(2,3) ys by (simp add: chain_def forest_def q'_def)
    moreover have "vlListSample q' i = Some (d i)" if "i \<in> set xs" for i
      using forest_node [OF s(2) that] by (auto simp: vlListSample_def q'_def)
    ultimately show thesis
      using s(2,4) smp by (intro that [of q' ys]) (simp_all add: q'_def forest_def)
  qed
qed

lemma list_iters_chain:
  assumes "chain (list_nodePool q) xs" and "list_head q = hd_or xs VL_LIST_ITER_INVALID"
  shows "list_iters q = xs"
  using vlListNext_seg [of q] chainD(4,5) [OF assms(1)] assms(2) by (simp add: list_iters_def)

text \<open>
  The position of the former last node \<open>t\<close>: in front of it the nodes that are not greater, behind
  it those that are.
\<close>

lemma sorts_to_last:
  assumes s: "sorts_to le (xs @ [t]) ys" and dist: "distinct (xs @ [t])"
    and refl: "le t t" and trans: "\<And>a b c. le a b \<Longrightarrow> le b c \<Longrightarrow> le a c"
  obtains A B where "ys = A @ t # B" "\<forall>y \<in> set A. le y t" "\<forall>y \<in> set B. \<not> le y t"
proof -
  have dys: "distinct ys" and set: "set ys = set (xs @ [t])"
    using sorts_toD(2,4) [OF s] dist by auto
  then obtain A B where AB: "ys = A @ t # B" by (metis in_set_conv_decomp in_set_conv_decomp list.set_intros(1) set_append UnI2)
  have srt: "sorted_wrt le (A @ t # B)" using sorts_toD(3) [OF s] AB by simp
  let ?P = "\<lambda>y. le y t \<and> le t y"
  have "filter ?P ys = filter ?P (xs @ [t])"
    by (rule sorts_toD(5) [OF s]) (blast intro: trans)
  then have "filter ?P A @ t # filter ?P B = filter ?P xs @ [t]" using AB refl by simp
  then have "last (t # filter ?P B) = t" by (metis last_appendR last_snoc list.distinct(1))
  then have "filter ?P B = [] \<or> t \<in> set B"
    by (metis (no_types, lifting) filter_is_subset last.simps last_in_set subsetD)
  then have "filter ?P B = []" using dys AB by auto
  moreover have "\<forall>y \<in> set B. le t y" using srt by (simp add: sorted_wrt_append)
  ultimately have "\<forall>y \<in> set B. \<not> le y t" by (auto simp: filter_empty_conv)
  moreover have "\<forall>y \<in> set A. le y t" using srt by (simp add: sorted_wrt_append)
  ultimately show thesis using AB that by blast
qed

text \<open>An insertion at a tail that is not the last node.\<close>

lemma push_back_inside:
  assumes ch: "chain (list_nodePool q) (A @ t # B)" and hd: "list_head q = hd_or A t"
    and tl: "list_tail q = t" and ready: "pool_ready (list_nodePool q)"
  obtains i q' where "vlListPushBack q v = Some (i, q')" "list_iters q' = A @ [t, i]"
    "vlListSample q' i = Some v"
    "\<forall>j \<in> set (A @ [t]). vlListSample q' j = vlListSample q j"
proof -
  let ?N = VL_LIST_ITER_INVALID
  let ?p = "list_nodePool q"
  let ?n = "\<lparr>node_prev = t, node_next = ?N, node_data = v\<rparr>"
  have inv: "pool_inv ?p" and live: "pool_live ?p = set (A @ t # B)" and dist: "distinct (A @ t # B)"
    and sg: "seg (vlPoolSample ?p) ?N (A @ t # B) ?N" and N: "?N \<notin> set (A @ t # B)"
    using chainD [OF ch] by auto
  obtain i p1 p2 where tk: "vlPoolTake ?p = Some (i, p1)" "vlPoolStore p1 i ?n = Some p2" "pool_inv p2"
    "i \<notin> set (A @ t # B)" "i \<noteq> ?N" "pool_live p2 = insert i (set (A @ t # B))"
    "vlPoolSample p2 i = Some ?n"
    and same: "\<And>j. j \<in> set (A @ t # B) \<Longrightarrow> vlPoolSample p2 j = vlPoolSample ?p j"
    and "pool_room ?p - 1 \<le> pool_room p2" "\<And>n. pool_can_return ?p n \<Longrightarrow> pool_can_return p2 n"
    by (rule slots.take_store [OF inv ready, of "\<lambda>_. ?n", unfolded live]) blast
  obtain w where w: "vlPoolSample p2 t = Some w" "vlPoolSample ?p t = Some w"
    using seg_sample [OF sg, of t] same [of t] by auto
  have "t \<in> pool_live p2" using tk(6) by simp
  then obtain p3 where p3: "vlPoolModify p2 t (\<lambda>n. n\<lparr>node_next := i\<rparr>) = Some p3"
    "vlPoolSample p3 = (vlPoolSample p2)(t := Some (w\<lparr>node_next := i\<rparr>))"
    by (rule vlPoolModify_live [OF tk(3) _ w(1)])
  define q' where "q' = q\<lparr>list_nodePool := p3, list_tail := i, list_length := inc32 (list_length q)\<rparr>"
  have hne: "list_head q \<noteq> ?N" using hd N hd_or_in [of A t] by (cases A) auto
  have push: "vlListPushBack q v = Some (i, q')"
    using tk(1,2) p3(1) hne tl N by (auto simp: vlListPushBack_def Let_def q'_def)
  have "seg (vlPoolSample p2) ?N A t"
    using sg seg_cong [of A "vlPoolSample p2" "vlPoolSample ?p"] same by simp
  then have sA: "seg (vlPoolSample p3) ?N A t" using dist by (simp add: p3(2))
  have "node_prev w = last_or A ?N" using sg w(2) by auto
  then have st: "seg (vlPoolSample p3) ?N (A @ [t, i]) ?N"
    using sA tk(4,7) by (cases w) (auto simp: p3(2))
  have "iters_from q' (hd_or (A @ [t, i]) ?N) = Some (A @ [t, i])"
    by (rule vlListNext_seg) (use st N tk(5) in \<open>auto simp: q'_def\<close>)
  then have it: "list_iters q' = A @ [t, i]" using hd by (simp add: list_iters_def q'_def)
  have "vlListSample q' i = Some v" using tk(4,7) by (auto simp: vlListSample_def q'_def p3(2))
  moreover have "vlListSample q' j = vlListSample q j" if "j \<in> set (A @ [t])" for j
    using that same [of j] w by (auto simp: vlListSample_def q'_def p3(2))
  ultimately show thesis using that [OF push it] by blast
qed

section \<open>Properties of the sort\<close>

text \<open>
  C14. \<^verbatim>\<open>vlListSort\<close> terminates without undefined behaviour and sorts: for a total and
  transitive comparison, on a list whose length field is at least its number of elements and
  at most \<open>2 ^ 31\<close>, the elements afterwards are a sorted permutation of those before, tied
  elements keep their order, and every iterator still stands for its element.
\<close>

theorem list_sort_stable:
  assumes "list_inv q" and "comparator cmp"
    and "length (list_contents q) \<le> vlListSize q" and "vlListSize q \<le> 2 ^ 31"
  shows "\<exists>q'. vlListSort q cmp = Some q' \<and>
    sorts_to (\<lambda>a b. cmp a b \<le> 0) (list_contents q) (list_contents q') \<and>
    set (list_iters q') = set (list_iters q) \<and>
    (\<forall>i \<in> set (list_iters q). vlListSample q' i = vlListSample q i)"
proof -
  have rep: "list_rep q (list_iters q)" using assms(1) by (simp add: list_inv_rep)
  define d where "d = (\<lambda>i. node_data (the (vlPoolSample (list_nodePool q) i)))"
  obtain q' ys where s: "vlListSort q cmp = Some q'" "chain (list_nodePool q') ys"
    "list_head q' = hd_or ys VL_LIST_ITER_INVALID" "sorts_to (node_le cmp d) (list_iters q) ys"
    "\<And>i. i \<in> set (list_iters q) \<Longrightarrow> vlListSample q i = Some (d i) \<and> vlListSample q' i = Some (d i)"
    by (rule vlListSort_ok [OF rep assms(2)])
      (use assms(3,4) in \<open>simp_all add: vlListSize_def list_contents_def d_def\<close>)
  have it: "list_iters q' = ys" using s(2,3) by (rule list_iters_chain)
  have set: "set ys = set (list_iters q)" using s(4) by (rule sorts_toD)
  have "list_contents q = map d (list_iters q)" "list_contents q' = map d ys"
    using s(5) set by (simp_all add: list_contents_def it)
  then show ?thesis using s(1,5) sorts_to_map [OF s(4)] set it by auto
qed

text \<open>
  \<^verbatim>\<open>vlListSort\<close> leaves \<^verbatim>\<open>tail\<close> on the node that was last before, so that the next
  \<^verbatim>\<open>vlListPushBack\<close> cuts the list there: of the sorted list it keeps the elements that are
  not greater than the former last one, then comes the new element, and all greater elements
  are lost from the list.
\<close>

theorem list_sort_stale_tail:
  assumes "list_inv q" and "comparator cmp" and "list_contents q = vs @ [w]"
    and "length (list_contents q) \<le> vlListSize q" and "vlListSize q \<le> 2 ^ 31"
    and "0 < pool_room (list_nodePool q)"
  shows "\<exists>q1 i q2. vlListSort q cmp = Some q1 \<and> vlListPushBack q1 v = Some (i, q2) \<and>
    list_contents q2 = filter (\<lambda>u. cmp u w \<le> 0) (list_contents q1) @ [v]"
proof -
  have rep: "list_rep q (list_iters q)" using assms(1) by (simp add: list_inv_rep)
  have "list_iters q \<noteq> []" using assms(3) by (auto simp: list_contents_def)
  then obtain xs t where xt: "list_iters q = xs @ [t]" by (cases "list_iters q" rule: rev_cases) auto
  define d where "d = (\<lambda>i. node_data (the (vlPoolSample (list_nodePool q) i)))"
  obtain q1 ys where s: "vlListSort q cmp = Some q1" "chain (list_nodePool q1) ys"
    "list_head q1 = hd_or ys VL_LIST_ITER_INVALID" "list_tail q1 = list_tail q"
    "sorts_to (node_le cmp d) (list_iters q) ys"
    "\<And>i. i \<in> set (list_iters q) \<Longrightarrow> vlListSample q i = Some (d i) \<and> vlListSample q1 i = Some (d i)"
    "pool_room (list_nodePool q1) = pool_room (list_nodePool q)"
    by (rule vlListSort_ok [OF rep assms(2)])
      (use assms(4,5) in \<open>simp_all add: vlListSize_def list_contents_def d_def\<close>)
  have dist: "distinct (xs @ [t])"
    using rep xt chainD(3) [of "list_nodePool q" "list_iters q"] by (simp add: list_rep_def)
  obtain A B where AB: "ys = A @ t # B" "\<forall>y \<in> set A. node_le cmp d y t" "\<forall>y \<in> set B. \<not> node_le cmp d y t"
    by (rule sorts_to_last [OF s(5) [unfolded xt] dist])
      (use assms(2) in \<open>auto simp: node_le_def comparator_def\<close>)
  have tt: "cmp (d t) (d t) \<le> 0" using assms(2) by (auto simp: comparator_def)
  have set: "set ys = set (list_iters q)" using s(5) by (rule sorts_toD)
  have it: "list_iters q1 = A @ t # B" using list_iters_chain [OF s(2,3)] AB(1) by simp
  have dat: "vlListSample q1 i = Some (d i)" "vlListSample q i = Some (d i)" if "i \<in> set (A @ t # B)" for i
    using s(6) that set AB(1) by auto
  have tl: "list_tail q1 = t" using s(4) rep xt by (simp add: list_rep_def)
  have ready: "pool_ready (list_nodePool q1)" using assms(6) s(7) by (intro slots.room_ready) simp
  obtain i q2 where p: "vlListPushBack q1 v = Some (i, q2)" "list_iters q2 = A @ [t, i]"
    "vlListSample q2 i = Some v" "\<forall>j \<in> set (A @ [t]). vlListSample q2 j = vlListSample q1 j"
    by (rule push_back_inside [of q1 A t B v]) (use s(2,3) AB(1) tl ready in simp_all)
  have "w = d t"
  proof -
    have "last (list_contents q) = the (vlListSample q t)" by (simp add: list_contents_def xt)
    then show ?thesis using assms(3) dat(2) [of t] by simp
  qed
  moreover have "list_contents q1 = map d (A @ t # B)" using dat(1) by (simp add: list_contents_def it)
  moreover have "list_contents q2 = map d (A @ [t]) @ [v]"
    using dat(1) p(3,4) by (simp add: list_contents_def p(2))
  ultimately show ?thesis
    using s(1) p(1) AB(2,3) tt by (auto simp: node_le_def filter_map comp_def filter_id_conv filter_empty_conv)
qed

text \<open>A list of three elements, for the concrete runs.\<close>

lemma list_of_three:
  obtains q :: "u32 vl_linked_list" where
    "list_inv q" "list_contents q = [3, 1, 2]" "vlListSize q = 3" "0 < pool_room (list_nodePool q)"
proof -
  obtain q0 :: "u32 vl_linked_list" where q0: "vlListInit (\<lambda>_. True) 4 = Some q0" "list_inv q0"
    "list_iters q0 = []" "list_contents q0 = []" "list_length q0 = 0" "list_elementSize q0 = 4"
    "pool_room (list_nodePool q0) = 16"
    by (rule fresh_list)
  obtain i1 q1 where q1: "vlListPushBack q0 3 = Some (i1, q1)" "list_inv q1" "list_contents q1 = [3]"
    "list_length q1 = 1" "15 \<le> pool_room (list_nodePool q1)"
    by (rule list_push_back_ok [OF q0(2), of 3]) (use q0 in \<open>auto simp: inc32_def u32_of_def\<close>)
  obtain i2 q2 where q2: "vlListPushBack q1 1 = Some (i2, q2)" "list_inv q2" "list_contents q2 = [3, 1]"
    "list_length q2 = 2" "14 \<le> pool_room (list_nodePool q2)"
    by (rule list_push_back_ok [OF q1(2), of 1]) (use q1 in \<open>auto simp: inc32_def u32_of_def\<close>)
  obtain i3 q3 where q3: "vlListPushBack q2 2 = Some (i3, q3)" "list_inv q3" "list_contents q3 = [3, 1, 2]"
    "list_length q3 = 3" "13 \<le> pool_room (list_nodePool q3)"
    by (rule list_push_back_ok [OF q2(2), of 2]) (use q2 in \<open>auto simp: inc32_def u32_of_def\<close>)
  show thesis by (rule that [of q3]) (use q3 in \<open>simp_all add: vlListSize_def\<close>)
qed

lemma sorts_to_312:
  assumes "sorts_to (\<lambda>a b. vlCompareUInt a b \<le> 0) [3, 1, 2 :: u32] ys"
  shows "ys = [1, 2, 3]"
proof -
  have "vlCompareUInt a b \<le> 0 \<longleftrightarrow> a \<le> b" for a b :: u32
    by (simp add: vlCompareUInt_def of_bool_def word_le_def word_less_def)
  then have "sorted ys" using sorts_toD(3) [OF assms] by simp
  then have "sort [3, 1, 2] = ys" using sorts_toD(1) [OF assms] by (intro properties_for_sort)
  moreover have "sort [3, 1, 2 :: u32] = [1, 2, 3]" by code_simp
  ultimately show ?thesis by simp
qed

theorem list_sort_stable_witness:
  "\<exists>q q'. list_inv q \<and> list_contents q = [3, 1, 2 :: u32] \<and> vlListSort q vlCompareUInt = Some q' \<and>
    list_contents q' = [1, 2, 3]"
proof -
  obtain q :: "u32 vl_linked_list" where q: "list_inv q" "list_contents q = [3, 1, 2]" "vlListSize q = 3"
    "0 < pool_room (list_nodePool q)"
    by (rule list_of_three)
  from list_sort_stable [OF q(1), of vlCompareUInt] cmp_uint.comparator_axioms
  obtain q' where "vlListSort q vlCompareUInt = Some q'"
    "sorts_to (\<lambda>a b. vlCompareUInt a b \<le> 0) [3, 1, 2] (list_contents q')"
    using q by auto
  then show ?thesis using q(1,2) sorts_to_312 by blast
qed

theorem list_sort_stale_tail_witness:
  "\<exists>q q1 i q2. list_contents q = [3, 1, 2 :: u32] \<and> vlListSort q vlCompareUInt = Some q1 \<and>
    vlListPushBack q1 4 = Some (i, q2) \<and> 3 \<notin> set (list_contents q2)"
proof -
  obtain q :: "u32 vl_linked_list" where q: "list_inv q" "list_contents q = [3, 1, 2]" "vlListSize q = 3"
    "0 < pool_room (list_nodePool q)"
    by (rule list_of_three)
  then have "list_contents q = [3, 1] @ [2]" by simp
  from list_sort_stale_tail [OF q(1) cmp_uint.comparator_axioms this, of 4] q
  obtain q1 i q2 where "vlListSort q vlCompareUInt = Some q1" "vlListPushBack q1 4 = Some (i, q2)"
    "list_contents q2 = filter (\<lambda>u. vlCompareUInt u 2 \<le> 0) (list_contents q1) @ [4]"
    by auto
  moreover from this have "3 \<notin> set (list_contents q2)" by (auto simp: vlCompareUInt_def)
  ultimately show ?thesis using q(2) by blast
qed

end
