(* ===== verification/VL_Set.thy ===== *)
theory VL_Set
  imports VL_Pool VL_Compare
begin

text \<open>
  The ordered set of \<^verbatim>\<open>src/core/vl_set.c\<close>, a red-black tree of pool slots: its state and its
  operations. \<^verbatim>\<open>VL_SetShape\<close> holds the trees behind a set and the rotations, \<^verbatim>\<open>VL_SetOrder\<close>
  what the operations do to the elements.

  A \<^verbatim>\<open>NULL\<close> set is not modelled: the operations return at once then.
\<close>

section \<open>State\<close>

type_synonym vl_set_iter = vl_pool_idx

text \<open>
  \<^verbatim>\<open>VL_SET_ITER_INVALID\<close> is \<^verbatim>\<open>VL_STRUCTURE_INDEX_MAX\<close>, the largest 32-bit index, and not
  the invalid index of a pool.
\<close>

definition VL_SET_ITER_INVALID :: vl_set_iter where
  "VL_SET_ITER_INVALID = 0xFFFFFFFF"

datatype vl_rbtree_color = vl_rbtree_color_red | vl_rbtree_color_black

text \<open>The struct \<^verbatim>\<open>vl_set_node\<close>, with the element after it.\<close>

record 'a vl_set_node =
  sn_color :: vl_rbtree_color
  sn_parent :: vl_set_iter
  sn_left :: vl_set_iter
  sn_right :: vl_set_iter
  sn_elem :: 'a

record 'a vl_set =
  set_nodePool :: "'a vl_set_node vl_pool"
  set_elementSize :: nat
  set_totalElements :: nat
  set_comparator :: "'a \<Rightarrow> 'a \<Rightarrow> int"
  set_root :: vl_set_iter

section \<open>Nodes\<close>

text \<open>
  \<^verbatim>\<open>vl_SetGetNodeAt\<close>: the node at an iterator. \<^const>\<open>None\<close> is the null pointer as well as a
  pointer to no node; to read through either is undefined. Where the code tests for the
  null pointer, the model tests the iterator.
\<close>

definition vl_SetGetNodeAt :: "'a vl_set \<Rightarrow> vl_set_iter \<Rightarrow> 'a vl_set_node option" where
  "vl_SetGetNodeAt vset iter =
     (if iter = VL_SET_ITER_INVALID then None else vlPoolSample (set_nodePool vset) iter)"

text \<open>A write to fields of a node, and the colour of a node, black for the null pointer.\<close>

definition set_modify :: "'a vl_set \<Rightarrow> vl_set_iter \<Rightarrow> ('a vl_set_node \<Rightarrow> 'a vl_set_node) \<Rightarrow> 'a vl_set option" where
  "set_modify vset iter f =
     (if iter = VL_SET_ITER_INVALID then None
      else do {
        pool \<leftarrow> vlPoolModify (set_nodePool vset) iter f;
        Some (vset\<lparr>set_nodePool := pool\<rparr>)
      })"

definition set_color_of :: "'a vl_set \<Rightarrow> vl_set_iter \<Rightarrow> vl_rbtree_color option" where
  "set_color_of vset iter =
     (if iter = VL_SET_ITER_INVALID then Some vl_rbtree_color_black
      else do { node \<leftarrow> vl_SetGetNodeAt vset iter; Some (sn_color node) })"

definition set_paint :: "'a vl_set \<Rightarrow> vl_set_iter \<Rightarrow> vl_rbtree_color \<Rightarrow> 'a vl_set option" where
  "set_paint vset iter c = set_modify vset iter (\<lambda>n. n\<lparr>sn_color := c\<rparr>)"

section \<open>Walking\<close>

partial_function (option) set_leftmost :: "'a vl_set \<Rightarrow> vl_set_iter \<Rightarrow> vl_set_iter option" where
  [code]: "set_leftmost vset cur =
     do {
       node \<leftarrow> vl_SetGetNodeAt vset cur;
       if sn_left node \<noteq> VL_SET_ITER_INVALID then set_leftmost vset (sn_left node) else Some cur
     }"

partial_function (option) set_rightmost :: "'a vl_set \<Rightarrow> vl_set_iter \<Rightarrow> vl_set_iter option" where
  [code]: "set_rightmost vset cur =
     do {
       node \<leftarrow> vl_SetGetNodeAt vset cur;
       if sn_right node \<noteq> VL_SET_ITER_INVALID then set_rightmost vset (sn_right node) else Some cur
     }"

definition vlSetFront :: "'a vl_set \<Rightarrow> vl_set_iter option" where
  "vlSetFront vset =
     (if set_root vset = VL_SET_ITER_INVALID then Some VL_SET_ITER_INVALID
      else set_leftmost vset (set_root vset))"

definition vlSetBack :: "'a vl_set \<Rightarrow> vl_set_iter option" where
  "vlSetBack vset =
     (if set_root vset = VL_SET_ITER_INVALID then Some VL_SET_ITER_INVALID
      else set_rightmost vset (set_root vset))"

definition vl_SetMinSubtree :: "'a vl_set \<Rightarrow> vl_set_iter \<Rightarrow> vl_set_iter option" where
  "vl_SetMinSubtree vset cur =
     (if cur = VL_SET_ITER_INVALID then Some VL_SET_ITER_INVALID else set_leftmost vset cur)"

partial_function (option) successor_ascend ::
  "'a vl_set \<Rightarrow> vl_set_iter \<Rightarrow> vl_set_iter \<Rightarrow> vl_set_iter option" where
  [code]: "successor_ascend vset nodeXIter nodeYIter =
     (if nodeYIter \<noteq> VL_SET_ITER_INVALID then do {
        nodeY \<leftarrow> vl_SetGetNodeAt vset nodeYIter;
        if sn_right nodeY \<noteq> nodeXIter then Some nodeYIter
        else successor_ascend vset nodeYIter (sn_parent nodeY)
      } else Some nodeYIter)"

definition vl_SetTreeSuccessor :: "'a vl_set \<Rightarrow> vl_set_iter \<Rightarrow> vl_set_iter option" where
  "vl_SetTreeSuccessor vset nodeXIter =
     (if nodeXIter = VL_SET_ITER_INVALID then Some VL_SET_ITER_INVALID
      else do {
        nodeX \<leftarrow> vl_SetGetNodeAt vset nodeXIter;
        if sn_right nodeX \<noteq> VL_SET_ITER_INVALID then vl_SetMinSubtree vset (sn_right nodeX)
        else successor_ascend vset nodeXIter (sn_parent nodeX)
      })"

text \<open>The ascent of \<^verbatim>\<open>vlSetNext\<close> past right children, and that of \<^verbatim>\<open>vlSetPrev\<close> past left ones.\<close>

partial_function (option) next_ascend ::
  "'a vl_set \<Rightarrow> vl_set_iter \<Rightarrow> vl_set_iter \<Rightarrow> vl_set_iter option" where
  [code]: "next_ascend vset iter parentIter =
     do {
       parent \<leftarrow> vl_SetGetNodeAt vset parentIter;
       if sn_right parent = iter then
         (if sn_parent parent = VL_SET_ITER_INVALID then Some VL_SET_ITER_INVALID
          else next_ascend vset parentIter (sn_parent parent))
       else Some parentIter
     }"

definition vlSetNext :: "'a vl_set \<Rightarrow> vl_set_iter \<Rightarrow> vl_set_iter option" where
  "vlSetNext vset iter =
     (if iter = VL_SET_ITER_INVALID then Some VL_SET_ITER_INVALID
      else do {
        node \<leftarrow> vl_SetGetNodeAt vset iter;
        if sn_right node \<noteq> VL_SET_ITER_INVALID then set_leftmost vset (sn_right node)
        else if sn_parent node = VL_SET_ITER_INVALID then Some VL_SET_ITER_INVALID
        else do {
          parent \<leftarrow> vl_SetGetNodeAt vset (sn_parent node);
          if sn_left parent = iter then Some (sn_parent node)
          else next_ascend vset iter (sn_parent node)
        }
      })"

partial_function (option) prev_ascend ::
  "'a vl_set \<Rightarrow> vl_set_iter \<Rightarrow> vl_set_iter \<Rightarrow> vl_set_iter option" where
  [code]: "prev_ascend vset iter parentIter =
     do {
       parent \<leftarrow> vl_SetGetNodeAt vset parentIter;
       if sn_left parent = iter then
         (if sn_parent parent = VL_SET_ITER_INVALID then Some VL_SET_ITER_INVALID
          else prev_ascend vset parentIter (sn_parent parent))
       else Some parentIter
     }"

definition vlSetPrev :: "'a vl_set \<Rightarrow> vl_set_iter \<Rightarrow> vl_set_iter option" where
  "vlSetPrev vset iter =
     (if iter = VL_SET_ITER_INVALID then Some VL_SET_ITER_INVALID
      else do {
        node \<leftarrow> vl_SetGetNodeAt vset iter;
        if sn_left node \<noteq> VL_SET_ITER_INVALID then set_rightmost vset (sn_left node)
        else if sn_parent node = VL_SET_ITER_INVALID then Some VL_SET_ITER_INVALID
        else do {
          parent \<leftarrow> vl_SetGetNodeAt vset (sn_parent node);
          if sn_right parent = iter then Some (sn_parent node)
          else prev_ascend vset iter (sn_parent node)
        }
      })"

definition vlSetSample :: "'a vl_set \<Rightarrow> vl_set_iter \<Rightarrow> 'a option" where
  "vlSetSample vset iter = do { node \<leftarrow> vl_SetGetNodeAt vset iter; Some (sn_elem node) }"

section \<open>Rotations\<close>

definition vl_SetTreeRotateLeft :: "'a vl_set \<Rightarrow> vl_set_iter \<Rightarrow> 'a vl_set option" where
  "vl_SetTreeRotateLeft vset nodeXIter =
     (if nodeXIter = VL_SET_ITER_INVALID then Some vset
      else do {
        nodeX \<leftarrow> vl_SetGetNodeAt vset nodeXIter;
        if sn_right nodeX = VL_SET_ITER_INVALID then Some vset
        else do {
          let nodeYIter = sn_right nodeX;
          nodeY \<leftarrow> vl_SetGetNodeAt vset nodeYIter;
          vset \<leftarrow> set_modify vset nodeXIter (\<lambda>n. n\<lparr>sn_right := sn_left nodeY\<rparr>);
          vset \<leftarrow> (if sn_left nodeY \<noteq> VL_SET_ITER_INVALID
                 then set_modify vset (sn_left nodeY) (\<lambda>n. n\<lparr>sn_parent := nodeXIter\<rparr>) else Some vset);
          vset \<leftarrow> set_modify vset nodeYIter (\<lambda>n. n\<lparr>sn_parent := sn_parent nodeX\<rparr>);
          vset \<leftarrow> (if sn_parent nodeX = VL_SET_ITER_INVALID then Some (vset\<lparr>set_root := nodeYIter\<rparr>)
                 else set_modify vset (sn_parent nodeX)
                   (\<lambda>n. if sn_left n = nodeXIter then n\<lparr>sn_left := nodeYIter\<rparr>
                        else n\<lparr>sn_right := nodeYIter\<rparr>));
          vset \<leftarrow> set_modify vset nodeYIter (\<lambda>n. n\<lparr>sn_left := nodeXIter\<rparr>);
          set_modify vset nodeXIter (\<lambda>n. n\<lparr>sn_parent := nodeYIter\<rparr>)
        }
      })"

definition vl_SetTreeRotateRight :: "'a vl_set \<Rightarrow> vl_set_iter \<Rightarrow> 'a vl_set option" where
  "vl_SetTreeRotateRight vset nodeXIter =
     (if nodeXIter = VL_SET_ITER_INVALID then Some vset
      else do {
        nodeX \<leftarrow> vl_SetGetNodeAt vset nodeXIter;
        if sn_left nodeX = VL_SET_ITER_INVALID then Some vset
        else do {
          let nodeYIter = sn_left nodeX;
          nodeY \<leftarrow> vl_SetGetNodeAt vset nodeYIter;
          vset \<leftarrow> set_modify vset nodeXIter (\<lambda>n. n\<lparr>sn_left := sn_right nodeY\<rparr>);
          vset \<leftarrow> (if sn_right nodeY \<noteq> VL_SET_ITER_INVALID
                 then set_modify vset (sn_right nodeY) (\<lambda>n. n\<lparr>sn_parent := nodeXIter\<rparr>) else Some vset);
          vset \<leftarrow> set_modify vset nodeYIter (\<lambda>n. n\<lparr>sn_parent := sn_parent nodeX\<rparr>);
          vset \<leftarrow> (if sn_parent nodeX = VL_SET_ITER_INVALID then Some (vset\<lparr>set_root := nodeYIter\<rparr>)
                 else set_modify vset (sn_parent nodeX)
                   (\<lambda>n. if sn_right n = nodeXIter then n\<lparr>sn_right := nodeYIter\<rparr>
                        else n\<lparr>sn_left := nodeYIter\<rparr>));
          vset \<leftarrow> set_modify vset nodeYIter (\<lambda>n. n\<lparr>sn_right := nodeXIter\<rparr>);
          set_modify vset nodeXIter (\<lambda>n. n\<lparr>sn_parent := nodeYIter\<rparr>)
        }
      })"

section \<open>Initialising, clearing and cloning\<close>

text \<open>\<^verbatim>\<open>sizeof(vl_set_node)\<close> is 32, \<^verbatim>\<open>sizeof(vl_set)\<close> is 96.\<close>

definition vlSetInit :: "(nat \<Rightarrow> bool) \<Rightarrow> nat \<Rightarrow> ('a \<Rightarrow> 'a \<Rightarrow> int) \<Rightarrow> 'a vl_set option" where
  "vlSetInit ok esize compFunc =
     do {
       pool \<leftarrow> vlPoolInit ok (u16_of (32 + esize));
       Some \<lparr>set_nodePool = pool, set_elementSize = u16_of esize, set_totalElements = 0,
             set_comparator = compFunc, set_root = VL_SET_ITER_INVALID\<rparr>
     }"

definition vlSetFree :: "'a vl_set \<Rightarrow> 'a vl_set option" where
  "vlSetFree vset = do { pool \<leftarrow> vlPoolFree (set_nodePool vset); Some (vset\<lparr>set_nodePool := pool\<rparr>) }"

definition vlSetNew :: "(nat \<Rightarrow> bool) \<Rightarrow> nat \<Rightarrow> ('a \<Rightarrow> 'a \<Rightarrow> int) \<Rightarrow> 'a vl_set option" where
  "vlSetNew ok esize compFunc = (if ok 96 then vlSetInit ok esize compFunc else None)"

definition vlSetDelete :: "'a vl_set \<Rightarrow> unit option" where
  "vlSetDelete vset = do { _ \<leftarrow> vlSetFree vset; Some () }"

definition vlSetClear :: "'a vl_set \<Rightarrow> 'a vl_set option" where
  "vlSetClear vset =
     do {
       pool \<leftarrow> vlPoolClear (set_nodePool vset);
       Some (vset\<lparr>set_nodePool := pool, set_root := VL_SET_ITER_INVALID, set_totalElements := 0\<rparr>)
     }"

definition vlSetClone :: "(nat \<Rightarrow> bool) \<Rightarrow> 'a vl_set \<Rightarrow> 'a vl_set option \<Rightarrow> 'a vl_set option" where
  "vlSetClone ok src dest =
     do {
       dest \<leftarrow>
         (case dest of
            None \<Rightarrow> vlSetNew ok (set_elementSize src) (set_comparator src)
          | Some dest \<Rightarrow>
              if set_elementSize dest \<noteq> set_elementSize src then do {
                _ \<leftarrow> vlPoolFree (set_nodePool dest);
                pool \<leftarrow> vlPoolInit ok (u16_of (32 + set_elementSize src));
                Some (dest\<lparr>set_nodePool := pool\<rparr>)
              } else Some dest);
       pool \<leftarrow> vlPoolClone ok (set_nodePool src) (Some (set_nodePool dest));
       Some (dest\<lparr>set_nodePool := pool, set_totalElements := set_totalElements src,
                  set_elementSize := set_elementSize src, set_comparator := set_comparator src,
                  set_root := set_root src\<rparr>)
     }"

section \<open>Finding and inserting\<close>

partial_function (option) set_find_loop :: "'a vl_set \<Rightarrow> 'a \<Rightarrow> vl_set_iter \<Rightarrow> vl_set_iter option" where
  [code]: "set_find_loop vset elem result =
     (if result \<noteq> VL_SET_ITER_INVALID then do {
        node \<leftarrow> vl_SetGetNodeAt vset result;
        if set_comparator vset (sn_elem node) elem = 0 then Some result
        else set_find_loop vset elem
          (if set_comparator vset (sn_elem node) elem > 0 then sn_left node else sn_right node)
      } else Some result)"

definition vlSetFind :: "'a vl_set \<Rightarrow> 'a \<Rightarrow> vl_set_iter option" where
  "vlSetFind vset elem =
     (if set_root vset = VL_SET_ITER_INVALID then Some VL_SET_ITER_INVALID
      else set_find_loop vset elem (set_root vset))"

text \<open>
  The descent of \<^verbatim>\<open>vlSetInsert\<close> from a node: an equivalent element is met (\<^const>\<open>Inl\<close> its
  iterator), or a node is reached whose left (\<^const>\<open>True\<close>) or right child is missing.
\<close>

partial_function (option) insert_descend ::
  "'a vl_set \<Rightarrow> 'a \<Rightarrow> vl_set_iter \<Rightarrow> (vl_set_iter + vl_set_iter \<times> bool) option" where
  [code]: "insert_descend vset elem curIter =
     do {
       curNode \<leftarrow> vlPoolSample (set_nodePool vset) curIter;
       if set_comparator vset (sn_elem curNode) elem = 0 then Some (Inl curIter)
       else
         let goLeft = (set_comparator vset (sn_elem curNode) elem > 0);
             nextIter = (if goLeft then sn_left curNode else sn_right curNode)
         in if nextIter \<noteq> VL_SET_ITER_INVALID then insert_descend vset elem nextIter
            else Some (Inr (curIter, goLeft))
     }"

text \<open>
  One round of the fixup of \<^verbatim>\<open>vlSetInsert\<close> at \<open>nodeXIter\<close> with the red parent \<open>p\<close> and the
  grandparent \<open>g\<close>: the next node, and the set. \<^verbatim>\<open>nodeX\<close>, \<^verbatim>\<open>nodeXParent\<close> and
  \<^verbatim>\<open>nodeXGrandparent\<close> are read again after a rotation, as in the code.
\<close>

definition insert_fixup_left ::
  "'a vl_set \<Rightarrow> vl_set_iter \<Rightarrow> vl_set_iter \<Rightarrow> vl_set_iter \<Rightarrow> (vl_set_iter \<times> 'a vl_set) option" where
  "insert_fixup_left vset nodeXIter p g =
     do {
       nodeXGrandparent \<leftarrow> vl_SetGetNodeAt vset g;
       let nodeYIter = sn_right nodeXGrandparent;
       colorY \<leftarrow> set_color_of vset nodeYIter;
       if colorY = vl_rbtree_color_red then do {
         vset \<leftarrow> set_paint vset p vl_rbtree_color_black;
         vset \<leftarrow> set_paint vset nodeYIter vl_rbtree_color_black;
         vset \<leftarrow> set_paint vset g vl_rbtree_color_red;
         nodeXParent \<leftarrow> vl_SetGetNodeAt vset p;
         Some (sn_parent nodeXParent, vset)
       } else do {
         nodeXParent \<leftarrow> vl_SetGetNodeAt vset p;
         (nodeXIter, vset) \<leftarrow>
           (if nodeXIter = sn_right nodeXParent
            then do { vset \<leftarrow> vl_SetTreeRotateLeft vset p; Some (p, vset) } else Some (nodeXIter, vset));
         nodeX \<leftarrow> vl_SetGetNodeAt vset nodeXIter;
         nodeXParent \<leftarrow> vl_SetGetNodeAt vset (sn_parent nodeX);
         vset \<leftarrow> set_paint vset (sn_parent nodeX) vl_rbtree_color_black;
         vset \<leftarrow> set_paint vset (sn_parent nodeXParent) vl_rbtree_color_red;
         vset \<leftarrow> vl_SetTreeRotateRight vset (sn_parent nodeXParent);
         Some (nodeXIter, vset)
       }
     }"

definition insert_fixup_right ::
  "'a vl_set \<Rightarrow> vl_set_iter \<Rightarrow> vl_set_iter \<Rightarrow> vl_set_iter \<Rightarrow> (vl_set_iter \<times> 'a vl_set) option" where
  "insert_fixup_right vset nodeXIter p g =
     do {
       nodeXGrandparent \<leftarrow> vl_SetGetNodeAt vset g;
       let nodeYIter = sn_left nodeXGrandparent;
       colorY \<leftarrow> set_color_of vset nodeYIter;
       if colorY = vl_rbtree_color_red then do {
         vset \<leftarrow> set_paint vset p vl_rbtree_color_black;
         vset \<leftarrow> set_paint vset nodeYIter vl_rbtree_color_black;
         vset \<leftarrow> set_paint vset g vl_rbtree_color_red;
         nodeXParent \<leftarrow> vl_SetGetNodeAt vset p;
         Some (sn_parent nodeXParent, vset)
       } else do {
         nodeXParent \<leftarrow> vl_SetGetNodeAt vset p;
         (nodeXIter, vset) \<leftarrow>
           (if nodeXIter = sn_left nodeXParent
            then do { vset \<leftarrow> vl_SetTreeRotateRight vset p; Some (p, vset) } else Some (nodeXIter, vset));
         nodeX \<leftarrow> vl_SetGetNodeAt vset nodeXIter;
         nodeXParent \<leftarrow> vl_SetGetNodeAt vset (sn_parent nodeX);
         vset \<leftarrow> set_paint vset (sn_parent nodeX) vl_rbtree_color_black;
         vset \<leftarrow> set_paint vset (sn_parent nodeXParent) vl_rbtree_color_red;
         vset \<leftarrow> vl_SetTreeRotateLeft vset (sn_parent nodeXParent);
         Some (nodeXIter, vset)
       }
     }"

partial_function (option) insert_fixup_loop :: "'a vl_set \<Rightarrow> vl_set_iter \<Rightarrow> 'a vl_set option" where
  [code]: "insert_fixup_loop vset nodeXIter =
     (if nodeXIter \<noteq> set_root vset then do {
        nodeX \<leftarrow> vl_SetGetNodeAt vset nodeXIter;
        nodeXParent \<leftarrow> vl_SetGetNodeAt vset (sn_parent nodeX);
        if sn_color nodeXParent \<noteq> vl_rbtree_color_red then Some vset
        else do {
          nodeXGrandparent \<leftarrow> vl_SetGetNodeAt vset (sn_parent nodeXParent);
          (nodeXIter, vset) \<leftarrow>
            (if sn_parent nodeX = sn_left nodeXGrandparent
             then insert_fixup_left vset nodeXIter (sn_parent nodeX) (sn_parent nodeXParent)
             else insert_fixup_right vset nodeXIter (sn_parent nodeX) (sn_parent nodeXParent));
          insert_fixup_loop vset nodeXIter
        }
      } else Some vset)"

definition vlSetInsert :: "'a vl_set \<Rightarrow> 'a \<Rightarrow> (vl_set_iter \<times> 'a vl_set) option" where
  "vlSetInsert vset elem =
     (if set_root vset = VL_SET_ITER_INVALID then do {
        (resultIter, pool) \<leftarrow> vlPoolTake (set_nodePool vset);
        pool \<leftarrow> vlPoolStore pool resultIter
          \<lparr>sn_color = vl_rbtree_color_black, sn_parent = VL_SET_ITER_INVALID,
           sn_left = VL_SET_ITER_INVALID, sn_right = VL_SET_ITER_INVALID, sn_elem = elem\<rparr>;
        Some (resultIter, vset\<lparr>set_nodePool := pool,
          set_totalElements := inc32 (set_totalElements vset), set_root := resultIter\<rparr>)
      } else do {
        place \<leftarrow> insert_descend vset elem (set_root vset);
        case place of
          Inl found \<Rightarrow> Some (found, vset)
        | Inr (curIter, goLeft) \<Rightarrow> do {
            (resultIter, pool) \<leftarrow> vlPoolTake (set_nodePool vset);
            pool \<leftarrow> vlPoolStore pool resultIter
              \<lparr>sn_color = vl_rbtree_color_red, sn_parent = curIter,
               sn_left = VL_SET_ITER_INVALID, sn_right = VL_SET_ITER_INVALID, sn_elem = elem\<rparr>;
            let vset = vset\<lparr>set_nodePool := pool,
              set_totalElements := inc32 (set_totalElements vset)\<rparr>;
            vset \<leftarrow> set_modify vset curIter
              (\<lambda>n. if goLeft then n\<lparr>sn_left := resultIter\<rparr> else n\<lparr>sn_right := resultIter\<rparr>);
            vset \<leftarrow> insert_fixup_loop vset resultIter;
            vset \<leftarrow> set_paint vset (set_root vset) vl_rbtree_color_black;
            Some (resultIter, vset)
          }
      })"

section \<open>Removing\<close>

text \<open>
  One round of \<^verbatim>\<open>vl_SetRemoveFixup\<close> at a child of \<open>p\<close>, in its steps: a red sibling is rotated up;
  the colours of the children of the sibling are read; a sibling whose outer child is black is
  rotated down; and \<open>p\<close> is rotated down. The round gives the next node, and the set. \<open>nodeWIter\<close> is
  the sibling, which the code allows to be missing. No rotation of a round changes the parent of
  \<^verbatim>\<open>nodeX\<close>, which stays \<open>p\<close>.
\<close>

definition child_colors ::
  "'a vl_set \<Rightarrow> vl_set_iter \<Rightarrow> (vl_rbtree_color \<times> vl_rbtree_color) option" where
  "child_colors vset nodeWIter =
     (if nodeWIter = VL_SET_ITER_INVALID then Some (vl_rbtree_color_black, vl_rbtree_color_black)
      else do {
        nodeW \<leftarrow> vl_SetGetNodeAt vset nodeWIter;
        l \<leftarrow> set_color_of vset (sn_left nodeW);
        r \<leftarrow> set_color_of vset (sn_right nodeW);
        Some (l, r)
      })"

definition remove_sibling_left :: "'a vl_set \<Rightarrow> vl_set_iter \<Rightarrow> (vl_set_iter \<times> 'a vl_set) option" where
  "remove_sibling_left vset p =
     do {
       nodeXParent \<leftarrow> vl_SetGetNodeAt vset p;
       let nodeWIter = sn_right nodeXParent;
       colorW \<leftarrow> set_color_of vset nodeWIter;
       (if colorW = vl_rbtree_color_red then do {
          vset \<leftarrow> set_paint vset nodeWIter vl_rbtree_color_black;
          vset \<leftarrow> set_paint vset p vl_rbtree_color_red;
          vset \<leftarrow> vl_SetTreeRotateLeft vset p;
          nodeXParent \<leftarrow> vl_SetGetNodeAt vset p;
          Some (sn_right nodeXParent, vset)
        } else Some (nodeWIter, vset))
     }"

definition remove_turn_left ::
  "'a vl_set \<Rightarrow> vl_set_iter \<Rightarrow> vl_set_iter \<Rightarrow> vl_rbtree_color \<Rightarrow> (vl_set_iter \<times> 'a vl_set) option" where
  "remove_turn_left vset p nodeWIter rightColor =
     (if rightColor = vl_rbtree_color_black \<and> nodeWIter \<noteq> VL_SET_ITER_INVALID then do {
        nodeW \<leftarrow> vl_SetGetNodeAt vset nodeWIter;
        vset \<leftarrow> (if sn_left nodeW \<noteq> VL_SET_ITER_INVALID
                then set_paint vset (sn_left nodeW) vl_rbtree_color_black else Some vset);
        vset \<leftarrow> set_paint vset nodeWIter vl_rbtree_color_red;
        vset \<leftarrow> vl_SetTreeRotateRight vset nodeWIter;
        nodeXParent \<leftarrow> vl_SetGetNodeAt vset p;
        Some (sn_right nodeXParent, vset)
      } else Some (nodeWIter, vset))"

definition remove_rotate_left :: "'a vl_set \<Rightarrow> vl_set_iter \<Rightarrow> vl_set_iter \<Rightarrow> 'a vl_set option" where
  "remove_rotate_left vset p nodeWIter =
     (if nodeWIter \<noteq> VL_SET_ITER_INVALID then do {
        nodeXParent \<leftarrow> vl_SetGetNodeAt vset p;
        vset \<leftarrow> set_paint vset nodeWIter (sn_color nodeXParent);
        vset \<leftarrow> set_paint vset p vl_rbtree_color_black;
        nodeW \<leftarrow> vl_SetGetNodeAt vset nodeWIter;
        vset \<leftarrow> (if sn_right nodeW \<noteq> VL_SET_ITER_INVALID
                then set_paint vset (sn_right nodeW) vl_rbtree_color_black else Some vset);
        vl_SetTreeRotateLeft vset p
      } else Some vset)"

definition remove_fixup_left :: "'a vl_set \<Rightarrow> vl_set_iter \<Rightarrow> (vl_set_iter \<times> 'a vl_set) option" where
  "remove_fixup_left vset p =
     do {
       (nodeWIter, vset) \<leftarrow> remove_sibling_left vset p;
       (leftColor, rightColor) \<leftarrow> child_colors vset nodeWIter;
       if leftColor = vl_rbtree_color_black \<and> rightColor = vl_rbtree_color_black then do {
         vset \<leftarrow> (if nodeWIter \<noteq> VL_SET_ITER_INVALID
                 then set_paint vset nodeWIter vl_rbtree_color_red else Some vset);
         Some (p, vset)
       } else do {
         (nodeWIter, vset) \<leftarrow> remove_turn_left vset p nodeWIter rightColor;
         vset \<leftarrow> remove_rotate_left vset p nodeWIter;
         Some (set_root vset, vset)
       }
     }"

definition remove_sibling_right :: "'a vl_set \<Rightarrow> vl_set_iter \<Rightarrow> (vl_set_iter \<times> 'a vl_set) option" where
  "remove_sibling_right vset p =
     do {
       nodeXParent \<leftarrow> vl_SetGetNodeAt vset p;
       let nodeWIter = sn_left nodeXParent;
       colorW \<leftarrow> set_color_of vset nodeWIter;
       (if colorW = vl_rbtree_color_red then do {
          vset \<leftarrow> set_paint vset nodeWIter vl_rbtree_color_black;
          vset \<leftarrow> set_paint vset p vl_rbtree_color_red;
          vset \<leftarrow> vl_SetTreeRotateRight vset p;
          nodeXParent \<leftarrow> vl_SetGetNodeAt vset p;
          Some (sn_left nodeXParent, vset)
        } else Some (nodeWIter, vset))
     }"

definition remove_turn_right ::
  "'a vl_set \<Rightarrow> vl_set_iter \<Rightarrow> vl_set_iter \<Rightarrow> vl_rbtree_color \<Rightarrow> (vl_set_iter \<times> 'a vl_set) option" where
  "remove_turn_right vset p nodeWIter leftColor =
     (if leftColor = vl_rbtree_color_black \<and> nodeWIter \<noteq> VL_SET_ITER_INVALID then do {
        nodeW \<leftarrow> vl_SetGetNodeAt vset nodeWIter;
        vset \<leftarrow> (if sn_right nodeW \<noteq> VL_SET_ITER_INVALID
                then set_paint vset (sn_right nodeW) vl_rbtree_color_black else Some vset);
        vset \<leftarrow> set_paint vset nodeWIter vl_rbtree_color_red;
        vset \<leftarrow> vl_SetTreeRotateLeft vset nodeWIter;
        nodeXParent \<leftarrow> vl_SetGetNodeAt vset p;
        Some (sn_left nodeXParent, vset)
      } else Some (nodeWIter, vset))"

definition remove_rotate_right :: "'a vl_set \<Rightarrow> vl_set_iter \<Rightarrow> vl_set_iter \<Rightarrow> 'a vl_set option" where
  "remove_rotate_right vset p nodeWIter =
     (if nodeWIter \<noteq> VL_SET_ITER_INVALID then do {
        nodeXParent \<leftarrow> vl_SetGetNodeAt vset p;
        vset \<leftarrow> set_paint vset nodeWIter (sn_color nodeXParent);
        vset \<leftarrow> set_paint vset p vl_rbtree_color_black;
        nodeW \<leftarrow> vl_SetGetNodeAt vset nodeWIter;
        vset \<leftarrow> (if sn_left nodeW \<noteq> VL_SET_ITER_INVALID
                then set_paint vset (sn_left nodeW) vl_rbtree_color_black else Some vset);
        vl_SetTreeRotateRight vset p
      } else Some vset)"

definition remove_fixup_right :: "'a vl_set \<Rightarrow> vl_set_iter \<Rightarrow> (vl_set_iter \<times> 'a vl_set) option" where
  "remove_fixup_right vset p =
     do {
       (nodeWIter, vset) \<leftarrow> remove_sibling_right vset p;
       (leftColor, rightColor) \<leftarrow> child_colors vset nodeWIter;
       if leftColor = vl_rbtree_color_black \<and> rightColor = vl_rbtree_color_black then do {
         vset \<leftarrow> (if nodeWIter \<noteq> VL_SET_ITER_INVALID
                 then set_paint vset nodeWIter vl_rbtree_color_red else Some vset);
         Some (p, vset)
       } else do {
         (nodeWIter, vset) \<leftarrow> remove_turn_right vset p nodeWIter leftColor;
         vset \<leftarrow> remove_rotate_right vset p nodeWIter;
         Some (set_root vset, vset)
       }
     }"

text \<open>The loop ends at a node, possibly the missing one, whose colour is then set.\<close>

partial_function (option) remove_fixup_loop ::
  "'a vl_set \<Rightarrow> vl_set_iter \<Rightarrow> (vl_set_iter \<times> 'a vl_set) option" where
  [code]: "remove_fixup_loop vset nodeXIter =
     (if nodeXIter \<noteq> set_root vset \<and> nodeXIter \<noteq> VL_SET_ITER_INVALID then do {
        nodeX \<leftarrow> vl_SetGetNodeAt vset nodeXIter;
        if sn_color nodeX \<noteq> vl_rbtree_color_black then Some (nodeXIter, vset)
        else do {
          nodeXParent \<leftarrow> vl_SetGetNodeAt vset (sn_parent nodeX);
          (nodeXIter, vset) \<leftarrow>
            (if nodeXIter = sn_left nodeXParent then remove_fixup_left vset (sn_parent nodeX)
             else remove_fixup_right vset (sn_parent nodeX));
          remove_fixup_loop vset nodeXIter
        }
      } else Some (nodeXIter, vset))"

definition vl_SetRemoveFixup :: "'a vl_set \<Rightarrow> vl_set_iter \<Rightarrow> 'a vl_set option" where
  "vl_SetRemoveFixup vset nodeXIter =
     do {
       (nodeXIter, vset) \<leftarrow> remove_fixup_loop vset nodeXIter;
       if nodeXIter \<noteq> VL_SET_ITER_INVALID then set_paint vset nodeXIter vl_rbtree_color_black
       else Some vset
     }"

text \<open>
  \<^verbatim>\<open>vlSetRemove\<close>: \<open>nodeYIter\<close> is taken out of the tree, its only child \<open>nodeXIter\<close> takes its place;
  if it is not \<open>nodeZIter\<close>, it is then put in the place of that one. The colour tested at the
  end is that of \<^verbatim>\<open>nodeY\<close> after the colour of \<^verbatim>\<open>nodeZ\<close> was copied over it.
\<close>

definition remove_splice :: "'a vl_set \<Rightarrow> vl_set_iter \<Rightarrow> (vl_set_iter \<times> 'a vl_set) option" where
  "remove_splice vset nodeYIter =
     do {
       nodeY \<leftarrow> vl_SetGetNodeAt vset nodeYIter;
       let nodeXIter = (if sn_left nodeY \<noteq> VL_SET_ITER_INVALID then sn_left nodeY else sn_right nodeY);
       vset \<leftarrow> (if nodeXIter \<noteq> VL_SET_ITER_INVALID
               then set_modify vset nodeXIter (\<lambda>n. n\<lparr>sn_parent := sn_parent nodeY\<rparr>) else Some vset);
       vset \<leftarrow> (if sn_parent nodeY = VL_SET_ITER_INVALID then Some (vset\<lparr>set_root := nodeXIter\<rparr>)
               else set_modify vset (sn_parent nodeY)
                 (\<lambda>n. if nodeYIter = sn_left n then n\<lparr>sn_left := nodeXIter\<rparr>
                      else n\<lparr>sn_right := nodeXIter\<rparr>));
       Some (nodeXIter, vset)
     }"

definition remove_replace :: "'a vl_set \<Rightarrow> vl_set_iter \<Rightarrow> vl_set_iter \<Rightarrow> 'a vl_set option" where
  "remove_replace vset nodeZIter nodeYIter =
     do {
       nodeY \<leftarrow> vl_SetGetNodeAt vset nodeYIter;
       vset \<leftarrow> set_modify vset nodeZIter (\<lambda>n. n\<lparr>sn_elem := sn_elem nodeY\<rparr>);
       nodeZ \<leftarrow> vl_SetGetNodeAt vset nodeZIter;
       vset \<leftarrow> set_modify vset nodeYIter
         (\<lambda>n. n\<lparr>sn_parent := sn_parent nodeZ, sn_left := sn_left nodeZ, sn_right := sn_right nodeZ,
                sn_color := sn_color nodeZ\<rparr>);
       vset \<leftarrow> (if sn_parent nodeZ = VL_SET_ITER_INVALID then Some (vset\<lparr>set_root := nodeYIter\<rparr>)
               else set_modify vset (sn_parent nodeZ)
                 (\<lambda>n. if nodeZIter = sn_left n then n\<lparr>sn_left := nodeYIter\<rparr>
                      else n\<lparr>sn_right := nodeYIter\<rparr>));
       vset \<leftarrow> (if sn_left nodeZ \<noteq> VL_SET_ITER_INVALID
               then set_modify vset (sn_left nodeZ) (\<lambda>n. n\<lparr>sn_parent := nodeYIter\<rparr>) else Some vset);
       (if sn_right nodeZ \<noteq> VL_SET_ITER_INVALID
        then set_modify vset (sn_right nodeZ) (\<lambda>n. n\<lparr>sn_parent := nodeYIter\<rparr>) else Some vset)
     }"

definition vlSetRemove :: "'a vl_set \<Rightarrow> vl_set_iter \<Rightarrow> 'a vl_set option" where
  "vlSetRemove vset nodeZIter =
     (if nodeZIter = VL_SET_ITER_INVALID \<or> set_root vset = VL_SET_ITER_INVALID then Some vset
      else do {
        nodeZ \<leftarrow> vl_SetGetNodeAt vset nodeZIter;
        if set_totalElements vset = 0 then Some vset
        else do {
          nodeYIter \<leftarrow>
            (if sn_left nodeZ = VL_SET_ITER_INVALID \<or> sn_right nodeZ = VL_SET_ITER_INVALID
             then Some nodeZIter else vl_SetTreeSuccessor vset nodeZIter);
          if nodeYIter = VL_SET_ITER_INVALID then Some vset
          else do {
            (nodeXIter, vset) \<leftarrow> remove_splice vset nodeYIter;
            vset \<leftarrow> (if nodeYIter \<noteq> nodeZIter then remove_replace vset nodeZIter nodeYIter else Some vset);
            nodeY \<leftarrow> vl_SetGetNodeAt vset nodeYIter;
            let originalColor = sn_color nodeY;
            pool \<leftarrow> vlPoolReturn (set_nodePool vset) nodeZIter;
            let vset = vset\<lparr>set_nodePool := pool, set_totalElements := dec32 (set_totalElements vset)\<rparr>;
            (if originalColor = vl_rbtree_color_black then vl_SetRemoveFixup vset nodeXIter else Some vset)
          }
        }
      })"

definition vlSetRemoveElem :: "'a vl_set \<Rightarrow> 'a \<Rightarrow> 'a vl_set option" where
  "vlSetRemoveElem vset elem = do { iter \<leftarrow> vlSetFind vset elem; vlSetRemove vset iter }"

section \<open>Copying and the algebra of sets\<close>

text \<open>
  \<^verbatim>\<open>vlSetCopy\<close> between two different sets. The count is a signed 32-bit integer, whose
  overflow is undefined. Two comparison functions are the same pointer here when they are the
  same function.
\<close>

partial_function (option) set_copy_loop ::
  "'a vl_set \<Rightarrow> vl_set_iter \<Rightarrow> 'a vl_set \<Rightarrow> vl_set_iter \<Rightarrow> nat \<Rightarrow> (nat \<times> 'a vl_set) option" where
  [code]: "set_copy_loop src end dest curIter totalCopied =
     (if curIter \<noteq> VL_SET_ITER_INVALID then do {
        elem \<leftarrow> vlSetSample src curIter;
        (_, dest) \<leftarrow> vlSetInsert dest elem;
        totalCopied \<leftarrow> (if totalCopied + 1 < 2 ^ 31 then Some (totalCopied + 1) else None);
        if curIter = end then Some (totalCopied, dest)
        else do { curIter \<leftarrow> vlSetNext src curIter; set_copy_loop src end dest curIter totalCopied }
      } else Some (totalCopied, dest))"

definition vlSetCopy ::
  "'a vl_set \<Rightarrow> vl_set_iter \<Rightarrow> vl_set_iter \<Rightarrow> 'a vl_set \<Rightarrow> (nat \<times> 'a vl_set) option" where
  "vlSetCopy src begin end dest =
     (if set_elementSize src \<noteq> set_elementSize dest \<or> set_comparator src \<noteq> set_comparator dest
      then Some (0, dest)
      else if set_totalElements src = 0 then Some (0, dest)
      else do {
        begin \<leftarrow> (if begin = VL_SET_ITER_INVALID then vlSetFront src else Some begin);
        end \<leftarrow> (if end = VL_SET_ITER_INVALID then vlSetBack src else Some end);
        set_copy_loop src end dest begin 0
      })"

text \<open>
  The loops of the algebra: \<^verbatim>\<open>VL_SET_FOREACH\<close> over a set, inserting the elements for which a
  test of membership in another set (absent for the first loops) has the given result.
\<close>

partial_function (option) set_insert_each ::
  "'a vl_set \<Rightarrow> ('a vl_set \<times> bool) option \<Rightarrow> 'a vl_set \<Rightarrow> vl_set_iter \<Rightarrow> 'a vl_set option" where
  [code]: "set_insert_each src test dest curIter =
     (if curIter \<noteq> VL_SET_ITER_INVALID then do {
        sample \<leftarrow> vlSetSample src curIter;
        wanted \<leftarrow> (case test of
                    None \<Rightarrow> Some True
                  | Some (other, present) \<Rightarrow> do {
                      found \<leftarrow> vlSetFind other sample;
                      Some ((found \<noteq> VL_SET_ITER_INVALID) = present)
                    });
        dest \<leftarrow> (if wanted then do { (_, dest) \<leftarrow> vlSetInsert dest sample; Some dest } else Some dest);
        curIter \<leftarrow> vlSetNext src curIter;
        set_insert_each src test dest curIter
      } else Some dest)"

definition set_foreach_insert ::
  "'a vl_set \<Rightarrow> ('a vl_set \<times> bool) option \<Rightarrow> 'a vl_set \<Rightarrow> 'a vl_set option" where
  "set_foreach_insert src test dest =
     do { front \<leftarrow> vlSetFront src; set_insert_each src test dest front }"

text \<open>
  The destination: a set of its own, or one to be made, both where the argument is the null
  pointer and where it is one of the two operands. The result is \<^term>\<open>Some None\<close> where the
  code returns the null pointer because the operands do not match.
\<close>

definition set_destination ::
  "(nat \<Rightarrow> bool) \<Rightarrow> 'a vl_set \<Rightarrow> 'a vl_set option \<Rightarrow> 'a vl_set option" where
  "set_destination ok a dest =
     (case dest of None \<Rightarrow> vlSetNew ok (set_elementSize a) (set_comparator a) | Some d \<Rightarrow> Some d)"

definition vlSetUnion ::
  "(nat \<Rightarrow> bool) \<Rightarrow> 'a vl_set \<Rightarrow> 'a vl_set \<Rightarrow> 'a vl_set option \<Rightarrow> 'a vl_set option option" where
  "vlSetUnion ok a b dest =
     (if set_elementSize a \<noteq> set_elementSize b \<or> set_comparator a \<noteq> set_comparator b then Some None
      else do {
        dest \<leftarrow> set_destination ok a dest;
        dest \<leftarrow> set_foreach_insert a None dest;
        dest \<leftarrow> set_foreach_insert b None dest;
        Some (Some dest)
      })"

definition vlSetIntersection ::
  "(nat \<Rightarrow> bool) \<Rightarrow> 'a vl_set \<Rightarrow> 'a vl_set \<Rightarrow> 'a vl_set option \<Rightarrow> 'a vl_set option option" where
  "vlSetIntersection ok a b dest =
     (if set_elementSize a \<noteq> set_elementSize b \<or> set_comparator a \<noteq> set_comparator b then Some None
      else do {
        dest \<leftarrow> set_destination ok a dest;
        let (smaller, larger) = (if set_totalElements a \<le> set_totalElements b then (a, b) else (b, a));
        dest \<leftarrow> set_foreach_insert smaller (Some (larger, True)) dest;
        Some (Some dest)
      })"

definition vlSetDifference ::
  "(nat \<Rightarrow> bool) \<Rightarrow> 'a vl_set \<Rightarrow> 'a vl_set \<Rightarrow> 'a vl_set option \<Rightarrow> 'a vl_set option option" where
  "vlSetDifference ok a b dest =
     (if set_elementSize a \<noteq> set_elementSize b \<or> set_comparator a \<noteq> set_comparator b then Some None
      else do {
        dest \<leftarrow> set_destination ok a dest;
        dest \<leftarrow> (if set_totalElements b = 0 then set_foreach_insert a None dest
                else set_foreach_insert a (Some (b, False)) dest);
        Some (Some dest)
      })"

end
