(* ===== verification/VL_SetShape.thy ===== *)
theory VL_SetShape
  imports VL_Set "HOL-Library.Tree"
begin

text \<open>
  The trees behind a set. The shape is a binary tree of iterators; the colours and the
  elements stay in the memory. A position in a tree is a context, the path to the root with
  the subtrees beside it, since the code climbs along parent links. This theory shows what
  reading a node, painting it and rotating at it do to the shape.
\<close>

abbreviation SNIL :: vl_set_iter where
  "SNIL \<equiv> VL_SET_ITER_INVALID"

section \<open>Writing to a pool, as a function\<close>

definition pool_put :: "'a vl_pool \<Rightarrow> vl_pool_idx \<Rightarrow> 'a \<Rightarrow> 'a vl_pool" where
  "pool_put p i v = the (vlPoolStore p i v)"

lemma pool_put:
  assumes "pool_inv p" and "i \<in> pool_live p"
  shows "vlPoolStore p i v = Some (pool_put p i v)" and "pool_inv (pool_put p i v)"
    and "pool_live (pool_put p i v) = pool_live p"
    and "vlPoolSample (pool_put p i v) = (vlPoolSample p)(i := Some v)"
    and "pool_room (pool_put p i v) = pool_room p" and "pool_ready (pool_put p i v) = pool_ready p"
    and "pool_can_return (pool_put p i v) = pool_can_return p"
proof -
  obtain p' where p': "vlPoolStore p i v = Some p'" "pool_inv p'" "pool_live p' = pool_live p"
    "vlPoolSample p' = (vlPoolSample p)(i := Some v)" "pool_room p' = pool_room p"
    "pool_ready p' = pool_ready p" "pool_can_return p' = pool_can_return p"
    using slots.sto_live [OF assms] by blast
  then have "pool_put p i v = p'" by (simp add: pool_put_def)
  with p' show "vlPoolStore p i v = Some (pool_put p i v)" "pool_inv (pool_put p i v)"
    "pool_live (pool_put p i v) = pool_live p"
    "vlPoolSample (pool_put p i v) = (vlPoolSample p)(i := Some v)"
    "pool_room (pool_put p i v) = pool_room p" "pool_ready (pool_put p i v) = pool_ready p"
    "pool_can_return (pool_put p i v) = pool_can_return p"
    by simp_all
qed

lemma SNIL_not_live: "pool_inv p \<Longrightarrow> SNIL \<notin> pool_live p"
proof
  assume inv: "pool_inv p" and "SNIL \<in> pool_live p"
  then have "elementIndex SNIL < used p (nodeIndex SNIL)" by (simp add: pool_live_def)
  then obtain n where "node_at p (nodeIndex SNIL) = Some n" using used_node by blast
  then have "nodeIndex SNIL < lookupTotal p" using pool_inv_block(1) [OF inv] by blast
  moreover have "lookupTotal p < 2 ^ 32" using inv by (simp add: pool_inv_def)
  ultimately show False by (simp add: nodeIndex_def VL_SET_ITER_INVALID_def)
qed

section \<open>The memory of a set\<close>

definition cell :: "'a vl_set \<Rightarrow> vl_set_iter \<Rightarrow> 'a vl_set_node option" where
  "cell s = vlPoolSample (set_nodePool s)"

definition set_ok :: "'a vl_set \<Rightarrow> bool" where
  "set_ok s = pool_inv (set_nodePool s)"

definition set_live :: "'a vl_set \<Rightarrow> vl_set_iter set" where
  "set_live s = pool_live (set_nodePool s)"

definition set_put :: "'a vl_set \<Rightarrow> vl_set_iter \<Rightarrow> 'a vl_set_node \<Rightarrow> 'a vl_set" where
  "set_put s i v = s\<lparr>set_nodePool := pool_put (set_nodePool s) i v\<rparr>"

definition col :: "'a vl_set \<Rightarrow> vl_set_iter \<Rightarrow> vl_rbtree_color" where
  "col s i = (case cell s i of None \<Rightarrow> vl_rbtree_color_black | Some n \<Rightarrow> sn_color n)"

definition elt :: "'a vl_set \<Rightarrow> vl_set_iter \<Rightarrow> 'a" where
  "elt s i = sn_elem (the (cell s i))"

lemma set_put_fields [simp]:
  "set_root (set_put s i v) = set_root s"
  "set_comparator (set_put s i v) = set_comparator s"
  "set_elementSize (set_put s i v) = set_elementSize s"
  "set_totalElements (set_put s i v) = set_totalElements s"
  by (simp_all add: set_put_def)

lemma set_put [simp]:
  assumes "set_ok s" and "i \<in> set_live s"
  shows "set_ok (set_put s i v)" and "set_live (set_put s i v) = set_live s"
    and "cell (set_put s i v) = (cell s)(i := Some v)"
    and "pool_room (set_nodePool (set_put s i v)) = pool_room (set_nodePool s)"
    and "pool_ready (set_nodePool (set_put s i v)) = pool_ready (set_nodePool s)"
    and "pool_can_return (set_nodePool (set_put s i v)) = pool_can_return (set_nodePool s)"
  using pool_put [of "set_nodePool s" i v] assms
  by (simp_all add: set_ok_def set_live_def cell_def set_put_def)

lemma set_root_upd [simp]:
  "cell (s\<lparr>set_root := r\<rparr>) = cell s" "set_ok (s\<lparr>set_root := r\<rparr>) = set_ok s"
  "set_live (s\<lparr>set_root := r\<rparr>) = set_live s"
  by (simp_all add: cell_def set_ok_def set_live_def)

lemma set_live_not_nil [simp]: "set_ok s \<Longrightarrow> i \<in> set_live s \<Longrightarrow> i \<noteq> SNIL"
  using SNIL_not_live by (auto simp: set_ok_def set_live_def)

lemma set_modify_live [simp]:
  assumes "set_ok s" and "i \<in> set_live s" and "cell s i = Some v"
  shows "set_modify s i f = Some (set_put s i (f v))"
  using assms pool_put(1) [of "set_nodePool s" i "f v"] set_live_not_nil [OF assms(1,2)]
  by (simp add: set_modify_def vlPoolModify_def set_put_def cell_def set_ok_def set_live_def)

lemma vl_SetGetNodeAt_cell: "i \<noteq> SNIL \<Longrightarrow> vl_SetGetNodeAt s i = cell s i"
  by (simp add: vl_SetGetNodeAt_def cell_def)

section \<open>Trees and contexts in the memory\<close>

fun tree_root :: "vl_set_iter tree \<Rightarrow> vl_set_iter" where
  "tree_root Leaf = SNIL"
| "tree_root (Node l x r) = x"

fun tree_at :: "(vl_set_iter \<Rightarrow> 'a vl_set_node option) \<Rightarrow> vl_set_iter \<Rightarrow> vl_set_iter tree \<Rightarrow> bool" where
  "tree_at m p Leaf = True"
| "tree_at m p (Node l x r) =
     ((\<exists>c e. m x = Some \<lparr>sn_color = c, sn_parent = p, sn_left = tree_root l, sn_right = tree_root r,
                       sn_elem = e\<rparr>) \<and> tree_at m x l \<and> tree_at m x r)"

text \<open>A frame: the place is the left child of a node with that right subtree, or the other way.\<close>

datatype frame = FL vl_set_iter "vl_set_iter tree" | FR "vl_set_iter tree" vl_set_iter

fun plug :: "frame list \<Rightarrow> vl_set_iter tree \<Rightarrow> vl_set_iter tree" where
  "plug [] t = t"
| "plug (FL x r # C) t = plug C (Node t x r)"
| "plug (FR l x # C) t = plug C (Node l x t)"

fun ctx_parent :: "frame list \<Rightarrow> vl_set_iter" where
  "ctx_parent [] = SNIL"
| "ctx_parent (FL x r # C) = x"
| "ctx_parent (FR l x # C) = x"

fun ctx_at :: "(vl_set_iter \<Rightarrow> 'a vl_set_node option) \<Rightarrow> frame list \<Rightarrow> vl_set_iter \<Rightarrow> bool" where
  "ctx_at m [] i = True"
| "ctx_at m (FL x r # C) i =
     ((\<exists>c e. m x = Some \<lparr>sn_color = c, sn_parent = ctx_parent C, sn_left = i, sn_right = tree_root r,
                       sn_elem = e\<rparr>) \<and> tree_at m x r \<and> ctx_at m C x)"
| "ctx_at m (FR l x # C) i =
     ((\<exists>c e. m x = Some \<lparr>sn_color = c, sn_parent = ctx_parent C, sn_left = tree_root l, sn_right = i,
                       sn_elem = e\<rparr>) \<and> tree_at m x l \<and> ctx_at m C x)"

fun ctx_set :: "frame list \<Rightarrow> vl_set_iter set" where
  "ctx_set [] = {}"
| "ctx_set (FL x r # C) = insert x (set_tree r \<union> ctx_set C)"
| "ctx_set (FR l x # C) = insert x (set_tree l \<union> ctx_set C)"

fun ctx_left :: "frame list \<Rightarrow> vl_set_iter list" where
  "ctx_left [] = []"
| "ctx_left (FL x r # C) = ctx_left C"
| "ctx_left (FR l x # C) = ctx_left C @ inorder l @ [x]"

fun ctx_right :: "frame list \<Rightarrow> vl_set_iter list" where
  "ctx_right [] = []"
| "ctx_right (FL x r # C) = x # inorder r @ ctx_right C"
| "ctx_right (FR l x # C) = ctx_right C"

lemma inorder_plug [simp]: "inorder (plug C t) = ctx_left C @ inorder t @ ctx_right C"
  by (induction C t rule: plug.induct) simp_all

lemma ctx_set_lists: "ctx_set C = set (ctx_left C) \<union> set (ctx_right C)"
  by (induction C rule: ctx_set.induct) auto

lemma set_tree_plug [simp]: "set_tree (plug C t) = ctx_set C \<union> set_tree t"
  using inorder_plug [of C t] by (metis set_inorder ctx_set_lists set_append Un_assoc Un_commute)

lemma plug_append: "plug (C @ D) t = plug D (plug C t)"
  by (induction C t rule: plug.induct) simp_all

lemma tree_at_cong:
  "tree_at m p t \<Longrightarrow> (\<And>i. i \<in> set_tree t \<Longrightarrow> m' i = m i) \<Longrightarrow> tree_at m' p t"
  by (induction t arbitrary: p) auto

lemma ctx_at_cong:
  "ctx_at m C i \<Longrightarrow> (\<And>j. j \<in> ctx_set C \<Longrightarrow> m' j = m j) \<Longrightarrow> ctx_at m' C i"
  by (induction C arbitrary: i rule: ctx_set.induct) (auto intro: tree_at_cong)

lemma tree_at_plug:
  "tree_at m SNIL (plug C t) \<longleftrightarrow> ctx_at m C (tree_root t) \<and> tree_at m (ctx_parent C) t"
  by (induction C t rule: plug.induct) auto

lemma ctx_left_append [simp]: "ctx_left (C @ D) = ctx_left D @ ctx_left C"
  by (induction C rule: ctx_left.induct) simp_all

lemma ctx_right_append [simp]: "ctx_right (C @ D) = ctx_right C @ ctx_right D"
  by (induction C rule: ctx_right.induct) simp_all

lemma tree_root_plug: "C \<noteq> [] \<Longrightarrow> tree_root (plug C t) = tree_root (plug C t')"
proof (induction C arbitrary: t t' rule: ctx_set.induct)
  case (2 x r C)
  then show ?case by (cases C) auto
next
  case (3 l x C)
  then show ?case by (cases C) auto
qed simp

definition ctx_ok :: "frame list \<Rightarrow> bool" where
  "ctx_ok C = distinct (ctx_left C @ ctx_right C)"

lemma distinct_plug:
  "distinct (inorder (plug C t)) \<longleftrightarrow> ctx_ok C \<and> distinct (inorder t) \<and> ctx_set C \<inter> set_tree t = {}"
  by (auto simp: ctx_ok_def ctx_set_lists)

lemma ctx_ok_simps [simp]:
  "ctx_ok []"
  "ctx_ok (FL x r # C) \<longleftrightarrow> ctx_ok C \<and> x \<notin> ctx_set C \<and> x \<notin> set_tree r \<and> distinct (inorder r) \<and>
     ctx_set C \<inter> set_tree r = {}"
  "ctx_ok (FR l x # C) \<longleftrightarrow> ctx_ok C \<and> x \<notin> ctx_set C \<and> x \<notin> set_tree l \<and> distinct (inorder l) \<and>
     ctx_set C \<inter> set_tree l = {}"
  by (auto simp: ctx_ok_def ctx_set_lists)

lemma ctx_parent_in: "C \<noteq> [] \<Longrightarrow> ctx_parent C \<in> ctx_set C"
  by (cases C rule: ctx_parent.cases) auto

lemma tree_root_in: "t \<noteq> Leaf \<Longrightarrow> tree_root t \<in> set_tree t"
  by (cases t) auto

text \<open>The node at the inner end of a context, around a child.\<close>

fun ctx_node :: "frame list \<Rightarrow> vl_rbtree_color \<Rightarrow> 'a \<Rightarrow> vl_set_iter \<Rightarrow> 'a vl_set_node" where
  "ctx_node (FL x r # C) c e i = \<lparr>sn_color = c, sn_parent = ctx_parent C, sn_left = i,
      sn_right = tree_root r, sn_elem = e\<rparr>"
| "ctx_node (FR l x # C) c e i = \<lparr>sn_color = c, sn_parent = ctx_parent C, sn_left = tree_root l,
      sn_right = i, sn_elem = e\<rparr>"
| "ctx_node [] c e i = \<lparr>sn_color = c, sn_parent = SNIL, sn_left = i, sn_right = i, sn_elem = e\<rparr>"

lemma ctx_node_same [simp]: "sn_elem (ctx_node C c e i) = e" "sn_color (ctx_node C c e i) = c"
  by (cases C rule: ctx_parent.cases; simp)+

lemma ctx_at_node:
  "ctx_at m C i \<Longrightarrow> C \<noteq> [] \<Longrightarrow> \<exists>c e. m (ctx_parent C) = Some (ctx_node C c e i)"
  by (cases C rule: ctx_parent.cases) auto

lemma ctx_at_relink:
  assumes "ctx_at m C i" and "ctx_ok C" and "C \<noteq> []" and "m' (ctx_parent C) = Some (ctx_node C c e j)"
    and "\<And>k. k \<in> ctx_set C \<Longrightarrow> k \<noteq> ctx_parent C \<Longrightarrow> m' k = m k"
  shows "ctx_at m' C j"
proof (cases C rule: ctx_parent.cases)
  case (2 x r D)
  then show ?thesis using assms by (auto intro: tree_at_cong ctx_at_cong)
next
  case (3 l x D)
  then show ?thesis using assms by (auto intro: tree_at_cong ctx_at_cong)
qed (use assms in simp)

section \<open>What the operations on nodes keep\<close>

text \<open>
  \<^term>\<open>kept s s'\<close>: the same nodes with the same elements and, apart from the links, the
  colours and the root, the same set.
\<close>

definition kept :: "'a vl_set \<Rightarrow> 'a vl_set \<Rightarrow> bool" where
  "kept s s' \<longleftrightarrow> set_ok s' \<and> set_live s' = set_live s \<and> elt s' = elt s \<and>
     set_comparator s' = set_comparator s \<and> set_elementSize s' = set_elementSize s \<and>
     set_totalElements s' = set_totalElements s \<and>
     pool_room (set_nodePool s') = pool_room (set_nodePool s) \<and>
     pool_ready (set_nodePool s') = pool_ready (set_nodePool s) \<and>
     pool_can_return (set_nodePool s') = pool_can_return (set_nodePool s)"

lemma kept_refl [simp]: "set_ok s \<Longrightarrow> kept s s"
  by (simp add: kept_def)

lemma kept_trans [trans]: "kept s t \<Longrightarrow> kept t u \<Longrightarrow> kept s u"
  by (simp add: kept_def)

lemma kept_put:
  "set_ok s \<Longrightarrow> i \<in> set_live s \<Longrightarrow> cell s i = Some v \<Longrightarrow> sn_elem w = sn_elem v \<Longrightarrow> kept s (set_put s i w)"
  by (auto simp: kept_def elt_def)

lemma kept_root: "set_ok s \<Longrightarrow> kept s (s\<lparr>set_root := r\<rparr>)"
  by (auto simp: kept_def elt_def)

lemma col_put:
  "set_ok s \<Longrightarrow> i \<in> set_live s \<Longrightarrow> col (set_put s i w) = (col s)(i := sn_color w)"
  by (auto simp: col_def)

lemma col_root [simp]: "col (s\<lparr>set_root := r\<rparr>) = col s"
  by (auto simp: col_def)

lemma col_cell: "cell s i = Some v \<Longrightarrow> col s i = sn_color v"
  by (simp add: col_def)

lemma col_put_same:
  "set_ok s \<Longrightarrow> i \<in> set_live s \<Longrightarrow> cell s i = Some v \<Longrightarrow> sn_color w = sn_color v \<Longrightarrow>
   col (set_put s i w) = col s"
  by (simp add: col_put col_cell fun_upd_idem)

text \<open>Setting the parent of the root of a subtree, if there is one.\<close>

definition set_reparent :: "'a vl_set \<Rightarrow> vl_set_iter tree \<Rightarrow> vl_set_iter \<Rightarrow> 'a vl_set" where
  "set_reparent s t p =
     (if t = Leaf then s
      else set_put s (tree_root t) ((the (cell s (tree_root t)))\<lparr>sn_parent := p\<rparr>))"

lemma tree_root_nil:
  "set_ok s \<Longrightarrow> set_tree t \<subseteq> set_live s \<Longrightarrow> tree_root t = SNIL \<longleftrightarrow> t = Leaf"
  by (cases t) auto

lemma set_reparent:
  assumes s: "set_ok s" "set_tree t \<subseteq> set_live s" and t: "tree_at (cell s) q t" "distinct (inorder t)"
  shows "(if tree_root t \<noteq> SNIL then set_modify s (tree_root t) (\<lambda>n. n\<lparr>sn_parent := p\<rparr>) else Some s) =
      Some (set_reparent s t p)"
    and "kept s (set_reparent s t p)" and "col (set_reparent s t p) = col s"
    and "set_root (set_reparent s t p) = set_root s"
    and "tree_at (cell (set_reparent s t p)) p t"
    and "i \<noteq> tree_root t \<or> i \<notin> set_live s \<Longrightarrow> cell (set_reparent s t p) i = cell s i"
proof -
  consider (leaf) "t = Leaf" | (node) l x r c e where "t = Node l x r" "x \<in> set_live s" "x \<noteq> SNIL"
      "cell s x = Some \<lparr>sn_color = c, sn_parent = q, sn_left = tree_root l, sn_right = tree_root r, sn_elem = e\<rparr>"
    using s t(1) by (cases t) auto
  note cases = this
  show "(if tree_root t \<noteq> SNIL then set_modify s (tree_root t) (\<lambda>n. n\<lparr>sn_parent := p\<rparr>) else Some s) =
      Some (set_reparent s t p)"
    using cases by cases (use s in \<open>simp_all add: set_reparent_def\<close>)
  show "kept s (set_reparent s t p)"
    using cases by cases (use s in \<open>simp_all add: set_reparent_def kept_put\<close>)
  show "col (set_reparent s t p) = col s"
    using cases by cases (use s in \<open>simp_all add: set_reparent_def col_put_same\<close>)
  show "set_root (set_reparent s t p) = set_root s" by (simp add: set_reparent_def)
  show "tree_at (cell (set_reparent s t p)) p t"
    using cases by cases (use s t in \<open>auto simp: set_reparent_def intro: tree_at_cong\<close>)
  show "cell (set_reparent s t p) i = cell s i" if "i \<noteq> tree_root t \<or> i \<notin> set_live s"
    using cases that by cases (use s in \<open>auto simp: set_reparent_def\<close>)
qed

text \<open>Replacing a child of the node around a position by another, or the root.\<close>

definition set_relink :: "'a vl_set \<Rightarrow> frame list \<Rightarrow> vl_set_iter \<Rightarrow> 'a vl_set" where
  "set_relink s C j =
     (if C = [] then s\<lparr>set_root := j\<rparr>
      else set_put s (ctx_parent C) (ctx_node C (col s (ctx_parent C)) (elt s (ctx_parent C)) j))"

lemma set_relink:
  assumes s: "set_ok s" "ctx_set C \<subseteq> set_live s" and C: "ctx_at (cell s) C i" "ctx_ok C"
    and i: "i \<notin> ctx_set C" "i \<noteq> SNIL"
  shows "(if ctx_parent C = SNIL then Some (s\<lparr>set_root := j\<rparr>)
      else set_modify s (ctx_parent C) (\<lambda>n. if sn_left n = i then n\<lparr>sn_left := j\<rparr> else n\<lparr>sn_right := j\<rparr>)) =
      Some (set_relink s C j)"
    and "(if ctx_parent C = SNIL then Some (s\<lparr>set_root := j\<rparr>)
      else set_modify s (ctx_parent C) (\<lambda>n. if sn_right n = i then n\<lparr>sn_right := j\<rparr> else n\<lparr>sn_left := j\<rparr>)) =
      Some (set_relink s C j)"
    and "kept s (set_relink s C j)" and "col (set_relink s C j) = col s"
    and "set_root (set_relink s C j) = (if C = [] then j else set_root s)"
    and "ctx_at (cell (set_relink s C j)) C j"
    and "k \<noteq> ctx_parent C \<or> k \<notin> set_live s \<Longrightarrow> cell (set_relink s C j) k = cell s k"
proof -
  consider (top) "C = []" | (inner) c e where "C \<noteq> []" "ctx_parent C \<in> set_live s" "ctx_parent C \<noteq> SNIL"
      "cell s (ctx_parent C) = Some (ctx_node C c e i)"
      "col s (ctx_parent C) = c" "elt s (ctx_parent C) = e"
      "\<And>j. (if sn_left (ctx_node C c e i) = i then (ctx_node C c e i)\<lparr>sn_left := j\<rparr>
            else (ctx_node C c e i)\<lparr>sn_right := j\<rparr>) = ctx_node C c e j"
      "\<And>j. (if sn_right (ctx_node C c e i) = i then (ctx_node C c e i)\<lparr>sn_right := j\<rparr>
            else (ctx_node C c e i)\<lparr>sn_left := j\<rparr>) = ctx_node C c e j"
  proof (cases "C = []")
    case True
    then show ?thesis by (rule that(1))
  next
    case False
    obtain c e where ce: "cell s (ctx_parent C) = Some (ctx_node C c e i)"
      using ctx_at_node [OF C(1) False] by blast
    have l: "ctx_parent C \<in> set_live s" using ctx_parent_in [OF False] s(2) by blast
    have root: "tree_root t \<noteq> i" if "set_tree t \<subseteq> ctx_set C" for t
      using that i by (cases t) auto
    have sib: "(if sn_left (ctx_node C c e i) = i then (ctx_node C c e i)\<lparr>sn_left := j\<rparr>
            else (ctx_node C c e i)\<lparr>sn_right := j\<rparr>) = ctx_node C c e j"
      "(if sn_right (ctx_node C c e i) = i then (ctx_node C c e i)\<lparr>sn_right := j\<rparr>
            else (ctx_node C c e i)\<lparr>sn_left := j\<rparr>) = ctx_node C c e j" for j
      by (cases C rule: ctx_parent.cases; use False root in force)+
    show ?thesis
      by (rule that(2) [OF False l set_live_not_nil [OF s(1) l] ce])
        (use ce sib in \<open>simp_all add: col_def elt_def\<close>)
  qed
  note cases = this
  show "(if ctx_parent C = SNIL then Some (s\<lparr>set_root := j\<rparr>)
      else set_modify s (ctx_parent C) (\<lambda>n. if sn_left n = i then n\<lparr>sn_left := j\<rparr> else n\<lparr>sn_right := j\<rparr>)) =
      Some (set_relink s C j)"
    using cases by cases (use s in \<open>simp_all add: set_relink_def\<close>)
  show "(if ctx_parent C = SNIL then Some (s\<lparr>set_root := j\<rparr>)
      else set_modify s (ctx_parent C) (\<lambda>n. if sn_right n = i then n\<lparr>sn_right := j\<rparr> else n\<lparr>sn_left := j\<rparr>)) =
      Some (set_relink s C j)"
    using cases by cases (use s in \<open>simp_all add: set_relink_def\<close>)
  show "kept s (set_relink s C j)"
    using cases by cases (use s in \<open>simp_all add: set_relink_def kept_put kept_root\<close>)
  show "col (set_relink s C j) = col s"
    using cases by cases (use s in \<open>simp_all add: set_relink_def col_put_same\<close>)
  show "set_root (set_relink s C j) = (if C = [] then j else set_root s)" by (simp add: set_relink_def)
  show "ctx_at (cell (set_relink s C j)) C j"
    using cases
  proof cases
    case inner
    show ?thesis
      by (rule ctx_at_relink [OF C inner(1), where c = c and e = e])
        (use inner s in \<open>simp_all add: set_relink_def\<close>)
  qed simp
  show "cell (set_relink s C j) k = cell s k" if "k \<noteq> ctx_parent C \<or> k \<notin> set_live s"
    using cases that by cases (use s in \<open>auto simp: set_relink_def\<close>)
qed

section \<open>The tree of a set\<close>

definition tree_rep :: "'a vl_set \<Rightarrow> vl_set_iter tree \<Rightarrow> bool" where
  "tree_rep s T \<longleftrightarrow> set_ok s \<and> set_tree T \<subseteq> set_live s \<and> distinct (inorder T) \<and>
     tree_at (cell s) SNIL T \<and> set_root s = tree_root T"

lemma SNIL_fresh: "set_ok s \<Longrightarrow> SNIL \<notin> set_live s"
  by (auto dest: set_live_not_nil)

lemma tree_rep_plug:
  "tree_rep s (plug C t) \<longleftrightarrow> set_ok s \<and> ctx_set C \<subseteq> set_live s \<and> set_tree t \<subseteq> set_live s \<and>
     ctx_ok C \<and> distinct (inorder t) \<and> ctx_set C \<inter> set_tree t = {} \<and> ctx_at (cell s) C (tree_root t) \<and>
     tree_at (cell s) (ctx_parent C) t \<and> set_root s = tree_root (plug C t)"
  by (auto simp: tree_rep_def tree_at_plug distinct_plug simp del: inorder_plug)

lemma tree_rep_cell:
  assumes "tree_rep s (plug C (Node l x r))"
  shows "cell s x = Some \<lparr>sn_color = col s x, sn_parent = ctx_parent C, sn_left = tree_root l,
           sn_right = tree_root r, sn_elem = elt s x\<rparr>"
    and "x \<in> set_live s" and "x \<noteq> SNIL" and "set_ok s"
  using assms set_live_not_nil [of s x] by (auto simp: tree_rep_plug col_def elt_def)

lemma tree_rep_node:
  assumes "tree_rep s (plug C (Node l x r))"
  shows "vl_SetGetNodeAt s x = Some \<lparr>sn_color = col s x, sn_parent = ctx_parent C, sn_left = tree_root l,
           sn_right = tree_root r, sn_elem = elt s x\<rparr>"
  using tree_rep_cell [OF assms] by (simp add: vl_SetGetNodeAt_cell)

lemma tree_rep_sub_root:
  assumes "tree_rep s (plug C t)"
  shows "tree_root t = SNIL \<longleftrightarrow> t = Leaf"
  using assms by (auto simp: tree_rep_plug tree_root_nil)

lemma ctx_parent_nil:
  assumes "tree_rep s (plug C t)"
  shows "ctx_parent C = SNIL \<longleftrightarrow> C = []"
  using assms ctx_parent_in [of C] SNIL_fresh [of s] by (cases "C = []") (auto simp: tree_rep_plug)

lemma tree_rep_col_of:
  assumes "tree_rep s (plug C t)"
  shows "set_color_of s (tree_root t) =
    Some (if t = Leaf then vl_rbtree_color_black else col s (tree_root t))"
proof (cases t)
  case (Node l x r)
  then show ?thesis
    using tree_rep_node [of s C l x r] tree_rep_cell(3) [of s C l x r] assms by (simp add: set_color_of_def)
qed (simp add: set_color_of_def)

lemma tree_rep_paint:
  assumes "tree_rep s T" and "x \<in> set_tree T"
  obtains s' where "set_paint s x c = Some s'" "tree_rep s' T" "kept s s'" "col s' = (col s)(x := c)"
proof -
  have x: "set_ok s" "x \<in> set_live s" using assms by (auto simp: tree_rep_def)
  have node: "\<exists>v. m x = Some v" if "tree_at m p t" "x \<in> set_tree t" for m p t
    using that by (induction t arbitrary: p) auto
  then obtain v where v: "cell s x = Some v" using assms unfolding tree_rep_def by blast
  let ?s = "set_put s x (v\<lparr>sn_color := c\<rparr>)"
  have recol: "tree_at (m(x := Some (w\<lparr>sn_color := c\<rparr>))) p t" if "tree_at m p t" "m x = Some w" for m p t w
    using that by (induction t arbitrary: p) auto
  show thesis
  proof
    show "set_paint s x c = Some ?s" using x v by (simp add: set_paint_def)
    show "tree_rep ?s T" using assms(1) x v by (simp add: tree_rep_def recol)
    show "kept s ?s" using x v by (simp add: kept_put)
    show "col ?s = (col s)(x := c)" using x by (simp add: col_put)
  qed
qed

section \<open>Rotations\<close>

lemma rotate_left_ok:
  assumes rep: "tree_rep s (plug C (Node a x (Node b y c)))"
  obtains s' where "vl_SetTreeRotateLeft s x = Some s'"
    "tree_rep s' (plug C (Node (Node a x b) y c))" "kept s s'" "col s' = col s"
proof -
  have cx: "cell s x = Some \<lparr>sn_color = col s x, sn_parent = ctx_parent C, sn_left = tree_root a,
      sn_right = y, sn_elem = elt s x\<rparr>" and lx: "x \<in> set_live s" "x \<noteq> SNIL" and ok: "set_ok s"
    using tree_rep_cell [OF rep] by simp_all
  have rep': "tree_rep s (plug (FR a x # C) (Node b y c))" using rep by simp
  have cy: "cell s y = Some \<lparr>sn_color = col s y, sn_parent = x, sn_left = tree_root b,
      sn_right = tree_root c, sn_elem = elt s y\<rparr>" and ly: "y \<in> set_live s" "y \<noteq> SNIL"
    using tree_rep_cell [OF rep'] by simp_all
  note R = rep [unfolded tree_rep_plug]
  let ?c = "ctx_parent C"
  have live: "ctx_set C \<subseteq> set_live s" "set_tree a \<subseteq> set_live s" "set_tree b \<subseteq> set_live s"
    "set_tree c \<subseteq> set_live s" using R by auto
  have dist: "x \<noteq> y" "x \<notin> set_tree a" "y \<notin> set_tree a" "x \<notin> set_tree b" "y \<notin> set_tree b"
    "x \<notin> set_tree c" "y \<notin> set_tree c" "x \<notin> ctx_set C" "y \<notin> ctx_set C"
    "set_tree a \<inter> set_tree b = {}" "set_tree a \<inter> set_tree c = {}" "set_tree b \<inter> set_tree c = {}"
    "ctx_set C \<inter> set_tree a = {}" "ctx_set C \<inter> set_tree b = {}" "ctx_set C \<inter> set_tree c = {}"
    "distinct (inorder a)" "distinct (inorder b)" "distinct (inorder c)" "ctx_ok C"
    using R by auto
  have at: "ctx_at (cell s) C x" "tree_at (cell s) x a" "tree_at (cell s) y b" "tree_at (cell s) y c"
    "set_root s = tree_root (plug C (Node a x (Node b y c)))" using R by auto
  have nb: "tree_root b \<noteq> x" "tree_root b \<noteq> y" using dist lx ly by (cases b; auto)+
  define s1 where "s1 = set_put s x
    \<lparr>sn_color = col s x, sn_parent = ?c, sn_left = tree_root a, sn_right = tree_root b, sn_elem = elt s x\<rparr>"
  have s1: "set_ok s1" "set_live s1 = set_live s" "kept s s1" "col s1 = col s" "set_root s1 = set_root s"
    "cell s1 = (cell s)(x \<mapsto> \<lparr>sn_color = col s x, sn_parent = ?c, sn_left = tree_root a,
      sn_right = tree_root b, sn_elem = elt s x\<rparr>)"
    using ok lx cx by (simp_all add: s1_def kept_put col_put_same)
  have "tree_at (cell s1) y b" using at(3) by (rule tree_at_cong) (use dist s1 in auto)
  note r = set_reparent [OF s1(1) live(3) [folded s1(2)] this dist(17), where p = x]
  define s2 where "s2 = set_reparent s1 b x"
  note r = r [folded s2_def]
  have s2: "set_ok s2" "set_live s2 = set_live s" "cell s2 x = cell s1 x" "cell s2 y = cell s y"
    using r(2) r(6) [of x] r(6) [of y] s1 nb dist by (simp_all add: kept_def)
  define s3 where "s3 = set_put s2 y
    \<lparr>sn_color = col s y, sn_parent = ?c, sn_left = tree_root b, sn_right = tree_root c, sn_elem = elt s y\<rparr>"
  have s3: "set_ok s3" "set_live s3 = set_live s" "kept s2 s3" "col s3 = col s2" "set_root s3 = set_root s2"
    "cell s3 = (cell s2)(y \<mapsto> \<lparr>sn_color = col s y, sn_parent = ?c, sn_left = tree_root b,
      sn_right = tree_root c, sn_elem = elt s y\<rparr>)"
    using s2 ly cy by (simp_all add: s3_def kept_put col_put_same)
  have out: "cell s3 i = cell s i" if "i \<noteq> x" "i \<noteq> y" "i \<notin> set_tree b" for i
  proof -
    have "i \<noteq> tree_root b \<or> i \<notin> set_live s1"
      using that SNIL_not_live ok s1(2) by (cases b) (auto simp: set_ok_def set_live_def)
    then show ?thesis using that s3 r(6) [of i] s1(6) by auto
  qed
  have "ctx_at (cell s3) C x" by (rule ctx_at_cong [OF at(1)], rule out) (use dist in auto)
  note l = set_relink [OF s3(1) live(1) [folded s3(2)] this dist(19) dist(8) lx(2), where j = y]
  define s4 where "s4 = set_relink s3 C y"
  note l = l [folded s4_def]
  have far: "cell s4 i = cell s3 i" if "i \<notin> ctx_set C" for i
  proof -
    have "i \<noteq> ?c \<or> i \<notin> set_live s3"
      using that ctx_parent_in [of C] SNIL_not_live ok s3(2)
      by (cases "C = []") (auto simp: set_ok_def set_live_def)
    then show ?thesis by (rule l(7))
  qed
  have s4: "set_ok s4" "set_live s4 = set_live s" "cell s4 x = cell s1 x" "cell s4 y = cell s3 y"
    using l(3) s3 s2 dist far [of x] far [of y] by (simp_all add: kept_def)
  define s5 where "s5 = set_put s4 y
    \<lparr>sn_color = col s y, sn_parent = ?c, sn_left = x, sn_right = tree_root c, sn_elem = elt s y\<rparr>"
  have s5: "set_ok s5" "set_live s5 = set_live s" "kept s4 s5" "col s5 = col s4" "set_root s5 = set_root s4"
    "cell s5 = (cell s4)(y \<mapsto> \<lparr>sn_color = col s y, sn_parent = ?c, sn_left = x,
      sn_right = tree_root c, sn_elem = elt s y\<rparr>)"
    using s4 s3 ly by (simp_all add: s5_def kept_put col_put_same)
  define s6 where "s6 = set_put s5 x
    \<lparr>sn_color = col s x, sn_parent = y, sn_left = tree_root a, sn_right = tree_root b, sn_elem = elt s x\<rparr>"
  have s6: "set_ok s6" "set_live s6 = set_live s" "kept s5 s6" "col s6 = col s5" "set_root s6 = set_root s5"
    "cell s6 = (cell s5)(x \<mapsto> \<lparr>sn_color = col s x, sn_parent = y, sn_left = tree_root a,
      sn_right = tree_root b, sn_elem = elt s x\<rparr>)"
    using s5 s4 s1 lx dist by (simp_all add: s6_def kept_put col_put_same)
  have run: "vl_SetTreeRotateLeft s x = Some s6"
  proof -
    have m1: "set_modify s x (\<lambda>n. n\<lparr>sn_right := tree_root b\<rparr>) = Some s1"
      using ok lx cx by (simp add: s1_def)
    have m3: "set_modify s2 y (\<lambda>n. n\<lparr>sn_parent := ?c\<rparr>) = Some s3"
      using s2 ly cy by (simp add: s3_def)
    have m5: "set_modify s4 y (\<lambda>n. n\<lparr>sn_left := x\<rparr>) = Some s5"
      using s4 s3 ly by (simp add: s5_def)
    have m6: "set_modify s5 x (\<lambda>n. n\<lparr>sn_parent := y\<rparr>) = Some s6"
      using s5 s4 s1 lx dist by (simp add: s6_def)
    show ?thesis
      using tree_rep_node [OF rep] tree_rep_node [OF rep'] lx ly
      by (simp add: vl_SetTreeRotateLeft_def m1 r(1) m3 l(1) m5 m6 del: if_split cong: if_cong)
  qed
  have old: "cell s6 i = cell s i" if "i \<noteq> x" "i \<noteq> y" "i \<notin> set_tree b" "i \<notin> ctx_set C" for i
    using that s6 s5 far out by simp
  show thesis
  proof
    show "vl_SetTreeRotateLeft s x = Some s6" by (rule run)
    have "tree_at (cell s6) x a" by (rule tree_at_cong [OF at(2)], rule old) (use dist in auto)
    moreover have "tree_at (cell s6) y c" by (rule tree_at_cong [OF at(4)], rule old) (use dist in auto)
    moreover have "tree_at (cell s6) x b"
    proof (rule tree_at_cong [OF r(5)])
      fix i
      assume that: "i \<in> set_tree b"
      then have "i \<noteq> x" "i \<noteq> y" "i \<notin> ctx_set C" using dist by auto
      then show "cell s6 i = cell s2 i" using far [of i] s6(6) s5(6) s3(6) by simp
    qed
    moreover have "ctx_at (cell s6) C y"
      by (rule ctx_at_cong [OF l(6)]) (use dist s6 s5 in auto)
    moreover have "set_root s6 = tree_root (plug C (Node (Node a x b) y c))"
      using l(5) r(4) at(5) s6 s5 s3 s1 tree_root_plug [of C] by auto
    ultimately show "tree_rep s6 (plug C (Node (Node a x b) y c))"
      using s6 s5 dist live lx ly unfolding tree_rep_plug by auto
    show "kept s s6" using s1(3) r(2) s3(3) l(3) s5(3) s6(3) by (meson kept_trans)
    show "col s6 = col s" using s1(4) r(3) s3(4) l(4) s5(4) s6(4) by simp
  qed
qed

lemma rotate_right_ok:
  assumes rep: "tree_rep s (plug C (Node (Node c y b) x a))"
  obtains s' where "vl_SetTreeRotateRight s x = Some s'"
    "tree_rep s' (plug C (Node c y (Node b x a)))" "kept s s'" "col s' = col s"
proof -
  have cx: "cell s x = Some \<lparr>sn_color = col s x, sn_parent = ctx_parent C, sn_left = y,
      sn_right = tree_root a, sn_elem = elt s x\<rparr>" and lx: "x \<in> set_live s" "x \<noteq> SNIL" and ok: "set_ok s"
    using tree_rep_cell [OF rep] by simp_all
  have rep': "tree_rep s (plug (FL x a # C) (Node c y b))" using rep by simp
  have cy: "cell s y = Some \<lparr>sn_color = col s y, sn_parent = x, sn_left = tree_root c,
      sn_right = tree_root b, sn_elem = elt s y\<rparr>" and ly: "y \<in> set_live s" "y \<noteq> SNIL"
    using tree_rep_cell [OF rep'] by simp_all
  note R = rep [unfolded tree_rep_plug]
  let ?c = "ctx_parent C"
  have live: "ctx_set C \<subseteq> set_live s" "set_tree a \<subseteq> set_live s" "set_tree b \<subseteq> set_live s"
    "set_tree c \<subseteq> set_live s" using R by auto
  have dist: "x \<noteq> y" "x \<notin> set_tree a" "y \<notin> set_tree a" "x \<notin> set_tree b" "y \<notin> set_tree b"
    "x \<notin> set_tree c" "y \<notin> set_tree c" "x \<notin> ctx_set C" "y \<notin> ctx_set C"
    "set_tree a \<inter> set_tree b = {}" "set_tree a \<inter> set_tree c = {}" "set_tree b \<inter> set_tree c = {}"
    "ctx_set C \<inter> set_tree a = {}" "ctx_set C \<inter> set_tree b = {}" "ctx_set C \<inter> set_tree c = {}"
    "distinct (inorder a)" "distinct (inorder b)" "distinct (inorder c)" "ctx_ok C"
    using R by auto
  have at: "ctx_at (cell s) C x" "tree_at (cell s) x a" "tree_at (cell s) y b" "tree_at (cell s) y c"
    "set_root s = tree_root (plug C (Node (Node c y b) x a))" using R by auto
  have nb: "tree_root b \<noteq> x" "tree_root b \<noteq> y" using dist lx ly by (cases b; auto)+
  define s1 where "s1 = set_put s x
    \<lparr>sn_color = col s x, sn_parent = ?c, sn_left = tree_root b, sn_right = tree_root a, sn_elem = elt s x\<rparr>"
  have s1: "set_ok s1" "set_live s1 = set_live s" "kept s s1" "col s1 = col s" "set_root s1 = set_root s"
    "cell s1 = (cell s)(x \<mapsto> \<lparr>sn_color = col s x, sn_parent = ?c, sn_left = tree_root b,
      sn_right = tree_root a, sn_elem = elt s x\<rparr>)"
    using ok lx cx by (simp_all add: s1_def kept_put col_put_same)
  have "tree_at (cell s1) y b" using at(3) by (rule tree_at_cong) (use dist s1 in auto)
  note r = set_reparent [OF s1(1) live(3) [folded s1(2)] this dist(17), where p = x]
  define s2 where "s2 = set_reparent s1 b x"
  note r = r [folded s2_def]
  have s2: "set_ok s2" "set_live s2 = set_live s" "cell s2 x = cell s1 x" "cell s2 y = cell s y"
    using r(2) r(6) [of x] r(6) [of y] s1 nb dist by (simp_all add: kept_def)
  define s3 where "s3 = set_put s2 y
    \<lparr>sn_color = col s y, sn_parent = ?c, sn_left = tree_root c, sn_right = tree_root b, sn_elem = elt s y\<rparr>"
  have s3: "set_ok s3" "set_live s3 = set_live s" "kept s2 s3" "col s3 = col s2" "set_root s3 = set_root s2"
    "cell s3 = (cell s2)(y \<mapsto> \<lparr>sn_color = col s y, sn_parent = ?c, sn_left = tree_root c,
      sn_right = tree_root b, sn_elem = elt s y\<rparr>)"
    using s2 ly cy by (simp_all add: s3_def kept_put col_put_same)
  have out: "cell s3 i = cell s i" if "i \<noteq> x" "i \<noteq> y" "i \<notin> set_tree b" for i
  proof -
    have "i \<noteq> tree_root b \<or> i \<notin> set_live s1"
      using that SNIL_not_live ok s1(2) by (cases b) (auto simp: set_ok_def set_live_def)
    then show ?thesis using that s3 r(6) [of i] s1(6) by auto
  qed
  have "ctx_at (cell s3) C x" by (rule ctx_at_cong [OF at(1)], rule out) (use dist in auto)
  note l = set_relink [OF s3(1) live(1) [folded s3(2)] this dist(19) dist(8) lx(2), where j = y]
  define s4 where "s4 = set_relink s3 C y"
  note l = l [folded s4_def]
  have far: "cell s4 i = cell s3 i" if "i \<notin> ctx_set C" for i
  proof -
    have "i \<noteq> ?c \<or> i \<notin> set_live s3"
      using that ctx_parent_in [of C] SNIL_not_live ok s3(2)
      by (cases "C = []") (auto simp: set_ok_def set_live_def)
    then show ?thesis by (rule l(7))
  qed
  have s4: "set_ok s4" "set_live s4 = set_live s" "cell s4 x = cell s1 x" "cell s4 y = cell s3 y"
    using l(3) s3 s2 dist far [of x] far [of y] by (simp_all add: kept_def)
  define s5 where "s5 = set_put s4 y
    \<lparr>sn_color = col s y, sn_parent = ?c, sn_left = tree_root c, sn_right = x, sn_elem = elt s y\<rparr>"
  have s5: "set_ok s5" "set_live s5 = set_live s" "kept s4 s5" "col s5 = col s4" "set_root s5 = set_root s4"
    "cell s5 = (cell s4)(y \<mapsto> \<lparr>sn_color = col s y, sn_parent = ?c, sn_left = tree_root c,
      sn_right = x, sn_elem = elt s y\<rparr>)"
    using s4 s3 ly by (simp_all add: s5_def kept_put col_put_same)
  define s6 where "s6 = set_put s5 x
    \<lparr>sn_color = col s x, sn_parent = y, sn_left = tree_root b, sn_right = tree_root a, sn_elem = elt s x\<rparr>"
  have s6: "set_ok s6" "set_live s6 = set_live s" "kept s5 s6" "col s6 = col s5" "set_root s6 = set_root s5"
    "cell s6 = (cell s5)(x \<mapsto> \<lparr>sn_color = col s x, sn_parent = y, sn_left = tree_root b,
      sn_right = tree_root a, sn_elem = elt s x\<rparr>)"
    using s5 s4 s1 lx dist by (simp_all add: s6_def kept_put col_put_same)
  have run: "vl_SetTreeRotateRight s x = Some s6"
  proof -
    have m1: "set_modify s x (\<lambda>n. n\<lparr>sn_left := tree_root b\<rparr>) = Some s1"
      using ok lx cx by (simp add: s1_def)
    have m3: "set_modify s2 y (\<lambda>n. n\<lparr>sn_parent := ?c\<rparr>) = Some s3"
      using s2 ly cy by (simp add: s3_def)
    have m5: "set_modify s4 y (\<lambda>n. n\<lparr>sn_right := x\<rparr>) = Some s5"
      using s4 s3 ly by (simp add: s5_def)
    have m6: "set_modify s5 x (\<lambda>n. n\<lparr>sn_parent := y\<rparr>) = Some s6"
      using s5 s4 s1 lx dist by (simp add: s6_def)
    show ?thesis
      using tree_rep_node [OF rep] tree_rep_node [OF rep'] lx ly
      by (simp add: vl_SetTreeRotateRight_def m1 r(1) m3 l(2) m5 m6 del: if_split cong: if_cong)
  qed
  have old: "cell s6 i = cell s i" if "i \<noteq> x" "i \<noteq> y" "i \<notin> set_tree b" "i \<notin> ctx_set C" for i
    using that s6 s5 far out by simp
  show thesis
  proof
    show "vl_SetTreeRotateRight s x = Some s6" by (rule run)
    have "tree_at (cell s6) x a" by (rule tree_at_cong [OF at(2)], rule old) (use dist in auto)
    moreover have "tree_at (cell s6) y c" by (rule tree_at_cong [OF at(4)], rule old) (use dist in auto)
    moreover have "tree_at (cell s6) x b"
    proof (rule tree_at_cong [OF r(5)])
      fix i
      assume that: "i \<in> set_tree b"
      then have "i \<noteq> x" "i \<noteq> y" "i \<notin> ctx_set C" using dist by auto
      then show "cell s6 i = cell s2 i" using far [of i] s6(6) s5(6) s3(6) by simp
    qed
    moreover have "ctx_at (cell s6) C y"
      by (rule ctx_at_cong [OF l(6)]) (use dist s6 s5 in auto)
    moreover have "set_root s6 = tree_root (plug C (Node c y (Node b x a)))"
      using l(5) r(4) at(5) s6 s5 s3 s1 tree_root_plug [of C] by auto
    ultimately show "tree_rep s6 (plug C (Node c y (Node b x a)))"
      using s6 s5 dist live lx ly unfolding tree_rep_plug by auto
    show "kept s s6" using s1(3) r(2) s3(3) l(3) s5(3) s6(3) by (meson kept_trans)
    show "col s6 = col s" using s1(4) r(3) s3(4) l(4) s5(4) s6(4) by simp
  qed
qed

lemma rotate_none:
  assumes "tree_rep s (plug C (Node a x Leaf))"
  shows "vl_SetTreeRotateLeft s x = Some s"
  using tree_rep_node [OF assms] tree_rep_cell(3) [OF assms] by (simp add: vl_SetTreeRotateLeft_def)

lemma rotate_none':
  assumes "tree_rep s (plug C (Node Leaf x a))"
  shows "vl_SetTreeRotateRight s x = Some s"
  using tree_rep_node [OF assms] tree_rep_cell(3) [OF assms] by (simp add: vl_SetTreeRotateRight_def)

section \<open>The fixup after an insertion\<close>

abbreviation RED :: vl_rbtree_color where
  "RED \<equiv> vl_rbtree_color_red"

abbreviation BLACK :: vl_rbtree_color where
  "BLACK \<equiv> vl_rbtree_color_black"

lemma not_RED [simp]: "c \<noteq> RED \<longleftrightarrow> c = BLACK"
  by (cases c) simp_all

text \<open>The colour of the root of a tree, black for the empty one.\<close>

fun root_col :: "(vl_set_iter \<Rightarrow> vl_rbtree_color) \<Rightarrow> vl_set_iter tree \<Rightarrow> vl_rbtree_color" where
  "root_col c Leaf = BLACK"
| "root_col c (Node l x r) = c x"

lemma tree_rep_root_col:
  assumes "tree_rep s (plug C t)"
  shows "set_color_of s (tree_root t) = Some (root_col (col s) t)"
  using tree_rep_col_of [OF assms] by (cases t) simp_all

text \<open>A red uncle: three nodes change colour and the fixup goes on at the grandparent.\<close>

lemma insert_fixup_left_red:
  assumes rep: "tree_rep s (plug D (Node (Node l p r) g (Node v u w)))" and red: "col s u = RED"
  obtains s' where "insert_fixup_left s x p g = Some (g, s')" "kept s s'"
    "tree_rep s' (plug D (Node (Node l p r) g (Node v u w)))" "col s' = (col s)(p := BLACK, u := BLACK, g := RED)"
proof -
  let ?T = "plug D (Node (Node l p r) g (Node v u w))"
  have rep_p: "tree_rep t (plug (FL g (Node v u w) # D) (Node l p r))" if "tree_rep t ?T" for t
    using that by simp
  have rep_u: "tree_rep s (plug (FR (Node l p r) g # D) (Node v u w))" using rep by simp
  have inT: "p \<in> set_tree ?T" "u \<in> set_tree ?T" "g \<in> set_tree ?T" by simp_all
  obtain s1 where s1: "set_paint s p BLACK = Some s1" "tree_rep s1 ?T" "kept s s1"
    "col s1 = (col s)(p := BLACK)" by (rule tree_rep_paint [OF rep inT(1)])
  obtain s2 where s2: "set_paint s1 u BLACK = Some s2" "tree_rep s2 ?T" "kept s1 s2"
    "col s2 = (col s1)(u := BLACK)" by (rule tree_rep_paint [OF s1(2) inT(2)])
  obtain s3 where s3: "set_paint s2 g RED = Some s3" "tree_rep s3 ?T" "kept s2 s3"
    "col s3 = (col s2)(g := RED)" by (rule tree_rep_paint [OF s2(2) inT(3)])
  show thesis
  proof
    show "insert_fixup_left s x p g = Some (g, s3)"
      using tree_rep_node [OF rep] tree_rep_root_col [OF rep_u] tree_rep_node [OF rep_p [OF s3(2)]] red
      by (simp add: insert_fixup_left_def s1(1) s2(1) s3(1))
    show "kept s s3" using s1(3) s2(3) s3(3) by (meson kept_trans)
    show "tree_rep s3 ?T" by (rule s3(2))
    show "col s3 = (col s)(p := BLACK, u := BLACK, g := RED)" by (simp add: s3(4) s2(4) s1(4))
  qed
qed

text \<open>A black uncle, the node on the outer side: one rotation.\<close>

lemma insert_fixup_left_outer:
  assumes rep: "tree_rep s (plug D (Node (Node (Node a x b) p r) g u))" and black: "root_col (col s) u = BLACK"
  obtains s' where "insert_fixup_left s x p g = Some (x, s')" "kept s s'"
    "tree_rep s' (plug D (Node (Node a x b) p (Node r g u)))" "col s' = (col s)(p := BLACK, g := RED)"
proof -
  let ?T = "plug D (Node (Node (Node a x b) p r) g u)"
  have rep_p: "tree_rep t (plug (FL g u # D) (Node (Node a x b) p r))" if "tree_rep t ?T" for t
    using that by simp
  have rep_x: "tree_rep t (plug (FL p r # FL g u # D) (Node a x b))" if "tree_rep t ?T" for t
    using that by simp
  have rep_r: "tree_rep s (plug (FR (Node a x b) p # FL g u # D) r)" using rep by simp
  have rep_u: "tree_rep s (plug (FR (Node (Node a x b) p r) g # D) u)" using rep by simp
  have inT: "p \<in> set_tree ?T" "g \<in> set_tree ?T" by simp_all
  obtain s1 where s1: "set_paint s p BLACK = Some s1" "tree_rep s1 ?T" "kept s s1"
    "col s1 = (col s)(p := BLACK)" by (rule tree_rep_paint [OF rep inT(1)])
  obtain s2 where s2: "set_paint s1 g RED = Some s2" "tree_rep s2 ?T" "kept s1 s2"
    "col s2 = (col s1)(g := RED)" by (rule tree_rep_paint [OF s1(2) inT(2)])
  obtain s3 where s3: "vl_SetTreeRotateRight s2 g = Some s3"
    "tree_rep s3 (plug D (Node (Node a x b) p (Node r g u)))" "kept s2 s3" "col s3 = col s2"
    by (rule rotate_right_ok [OF s2(2)])
  have ne: "x \<noteq> tree_root r"
    using rep tree_rep_sub_root [OF rep_r] tree_rep_cell(3) [OF rep_x [OF rep]]
    by (cases r) (auto simp: tree_rep_plug)
  show thesis
  proof
    show "insert_fixup_left s x p g = Some (x, s3)"
      using tree_rep_node [OF rep] tree_rep_root_col [OF rep_u] tree_rep_node [OF rep_p [OF rep]]
        tree_rep_node [OF rep_x [OF rep]] black ne
      by (simp add: insert_fixup_left_def s1(1) s2(1) s3(1))
    show "kept s s3" using s1(3) s2(3) s3(3) by (meson kept_trans)
    show "tree_rep s3 (plug D (Node (Node a x b) p (Node r g u)))" by (rule s3(2))
    show "col s3 = (col s)(p := BLACK, g := RED)" by (simp add: s3(4) s2(4) s1(4))
  qed
qed

text \<open>A black uncle, the node on the inner side: two rotations.\<close>

lemma insert_fixup_left_inner:
  assumes rep: "tree_rep s (plug D (Node (Node l p (Node a x b)) g u))" and black: "root_col (col s) u = BLACK"
  obtains s' where "insert_fixup_left s x p g = Some (p, s')" "kept s s'"
    "tree_rep s' (plug D (Node (Node l p a) x (Node b g u)))" "col s' = (col s)(x := BLACK, g := RED)"
proof -
  let ?T = "plug D (Node (Node l p (Node a x b)) g u)"
  let ?T1 = "plug D (Node (Node (Node l p a) x b) g u)"
  have rep_p: "tree_rep s (plug (FL g u # D) (Node l p (Node a x b)))" using rep by simp
  have rep_u: "tree_rep s (plug (FR (Node l p (Node a x b)) g # D) u)" using rep by simp
  obtain s1 where s1: "vl_SetTreeRotateLeft s p = Some s1" "tree_rep s1 ?T1" "kept s s1" "col s1 = col s"
    using rotate_left_ok [OF rep_p] by auto
  have rep1_p: "tree_rep s1 (plug (FL x b # FL g u # D) (Node l p a))" using s1(2) by simp
  have rep1_x: "tree_rep s1 (plug (FL g u # D) (Node (Node l p a) x b))" using s1(2) by simp
  have inT: "x \<in> set_tree ?T1" "g \<in> set_tree ?T1" by simp_all
  obtain s2 where s2: "set_paint s1 x BLACK = Some s2" "tree_rep s2 ?T1" "kept s1 s2"
    "col s2 = (col s1)(x := BLACK)" by (rule tree_rep_paint [OF s1(2) inT(1)])
  obtain s3 where s3: "set_paint s2 g RED = Some s3" "tree_rep s3 ?T1" "kept s2 s3"
    "col s3 = (col s2)(g := RED)" by (rule tree_rep_paint [OF s2(2) inT(2)])
  obtain s4 where s4: "vl_SetTreeRotateRight s3 g = Some s4"
    "tree_rep s4 (plug D (Node (Node l p a) x (Node b g u)))" "kept s3 s4" "col s4 = col s3"
    by (rule rotate_right_ok [OF s3(2)])
  show thesis
  proof
    show "insert_fixup_left s x p g = Some (p, s4)"
      using tree_rep_node [OF rep] tree_rep_root_col [OF rep_u] tree_rep_node [OF rep_p]
        tree_rep_node [OF rep1_p] tree_rep_node [OF rep1_x] black
      by (simp add: insert_fixup_left_def s1(1) s2(1) s3(1) s4(1))
    show "kept s s4" using s1(3) s2(3) s3(3) s4(3) by (meson kept_trans)
    show "tree_rep s4 (plug D (Node (Node l p a) x (Node b g u)))" by (rule s4(2))
    show "col s4 = (col s)(x := BLACK, g := RED)" by (simp add: s4(4) s3(4) s2(4) s1(4))
  qed
qed

text \<open>A red uncle: three nodes change colour and the fixup goes on at the grandparent.\<close>

lemma insert_fixup_right_red:
  assumes rep: "tree_rep s (plug D (Node (Node w u v) g (Node r p l)))" and red: "col s u = RED"
  obtains s' where "insert_fixup_right s x p g = Some (g, s')" "kept s s'"
    "tree_rep s' (plug D (Node (Node w u v) g (Node r p l)))" "col s' = (col s)(p := BLACK, u := BLACK, g := RED)"
proof -
  let ?T = "plug D (Node (Node w u v) g (Node r p l))"
  have rep_p: "tree_rep t (plug (FR (Node w u v) g # D) (Node r p l))" if "tree_rep t ?T" for t
    using that by simp
  have rep_u: "tree_rep s (plug (FL g (Node r p l) # D) (Node w u v))" using rep by simp
  have inT: "p \<in> set_tree ?T" "u \<in> set_tree ?T" "g \<in> set_tree ?T" by simp_all
  obtain s1 where s1: "set_paint s p BLACK = Some s1" "tree_rep s1 ?T" "kept s s1"
    "col s1 = (col s)(p := BLACK)" by (rule tree_rep_paint [OF rep inT(1)])
  obtain s2 where s2: "set_paint s1 u BLACK = Some s2" "tree_rep s2 ?T" "kept s1 s2"
    "col s2 = (col s1)(u := BLACK)" by (rule tree_rep_paint [OF s1(2) inT(2)])
  obtain s3 where s3: "set_paint s2 g RED = Some s3" "tree_rep s3 ?T" "kept s2 s3"
    "col s3 = (col s2)(g := RED)" by (rule tree_rep_paint [OF s2(2) inT(3)])
  show thesis
  proof
    show "insert_fixup_right s x p g = Some (g, s3)"
      using tree_rep_node [OF rep] tree_rep_root_col [OF rep_u] tree_rep_node [OF rep_p [OF s3(2)]] red
      by (simp add: insert_fixup_right_def s1(1) s2(1) s3(1))
    show "kept s s3" using s1(3) s2(3) s3(3) by (meson kept_trans)
    show "tree_rep s3 ?T" by (rule s3(2))
    show "col s3 = (col s)(p := BLACK, u := BLACK, g := RED)" by (simp add: s3(4) s2(4) s1(4))
  qed
qed

text \<open>A black uncle, the node on the outer side: one rotation.\<close>

lemma insert_fixup_right_outer:
  assumes rep: "tree_rep s (plug D (Node u g (Node r p (Node b x a))))" and black: "root_col (col s) u = BLACK"
  obtains s' where "insert_fixup_right s x p g = Some (x, s')" "kept s s'"
    "tree_rep s' (plug D (Node (Node u g r) p (Node b x a)))" "col s' = (col s)(p := BLACK, g := RED)"
proof -
  let ?T = "plug D (Node u g (Node r p (Node b x a)))"
  have rep_p: "tree_rep t (plug (FR u g # D) (Node r p (Node b x a)))" if "tree_rep t ?T" for t
    using that by simp
  have rep_x: "tree_rep t (plug (FR r p # FR u g # D) (Node b x a))" if "tree_rep t ?T" for t
    using that by simp
  have rep_r: "tree_rep s (plug (FL p (Node b x a) # FR u g # D) r)" using rep by simp
  have rep_u: "tree_rep s (plug (FL g (Node r p (Node b x a)) # D) u)" using rep by simp
  have inT: "p \<in> set_tree ?T" "g \<in> set_tree ?T" by simp_all
  obtain s1 where s1: "set_paint s p BLACK = Some s1" "tree_rep s1 ?T" "kept s s1"
    "col s1 = (col s)(p := BLACK)" by (rule tree_rep_paint [OF rep inT(1)])
  obtain s2 where s2: "set_paint s1 g RED = Some s2" "tree_rep s2 ?T" "kept s1 s2"
    "col s2 = (col s1)(g := RED)" by (rule tree_rep_paint [OF s1(2) inT(2)])
  obtain s3 where s3: "vl_SetTreeRotateLeft s2 g = Some s3"
    "tree_rep s3 (plug D (Node (Node u g r) p (Node b x a)))" "kept s2 s3" "col s3 = col s2"
    by (rule rotate_left_ok [OF s2(2)])
  have ne: "x \<noteq> tree_root r"
    using rep tree_rep_sub_root [OF rep_r] tree_rep_cell(3) [OF rep_x [OF rep]]
    by (cases r) (auto simp: tree_rep_plug)
  show thesis
  proof
    show "insert_fixup_right s x p g = Some (x, s3)"
      using tree_rep_node [OF rep] tree_rep_root_col [OF rep_u] tree_rep_node [OF rep_p [OF rep]]
        tree_rep_node [OF rep_x [OF rep]] black ne
      by (simp add: insert_fixup_right_def s1(1) s2(1) s3(1))
    show "kept s s3" using s1(3) s2(3) s3(3) by (meson kept_trans)
    show "tree_rep s3 (plug D (Node (Node u g r) p (Node b x a)))" by (rule s3(2))
    show "col s3 = (col s)(p := BLACK, g := RED)" by (simp add: s3(4) s2(4) s1(4))
  qed
qed

text \<open>A black uncle, the node on the inner side: two rotations.\<close>

lemma insert_fixup_right_inner:
  assumes rep: "tree_rep s (plug D (Node u g (Node (Node b x a) p l)))" and black: "root_col (col s) u = BLACK"
  obtains s' where "insert_fixup_right s x p g = Some (p, s')" "kept s s'"
    "tree_rep s' (plug D (Node (Node u g b) x (Node a p l)))" "col s' = (col s)(x := BLACK, g := RED)"
proof -
  let ?T = "plug D (Node u g (Node (Node b x a) p l))"
  let ?T1 = "plug D (Node u g (Node b x (Node a p l)))"
  have rep_p: "tree_rep s (plug (FR u g # D) (Node (Node b x a) p l))" using rep by simp
  have rep_u: "tree_rep s (plug (FL g (Node (Node b x a) p l) # D) u)" using rep by simp
  obtain s1 where s1: "vl_SetTreeRotateRight s p = Some s1" "tree_rep s1 ?T1" "kept s s1" "col s1 = col s"
    using rotate_right_ok [OF rep_p] by auto
  have rep1_p: "tree_rep s1 (plug (FR b x # FR u g # D) (Node a p l))" using s1(2) by simp
  have rep1_x: "tree_rep s1 (plug (FR u g # D) (Node b x (Node a p l)))" using s1(2) by simp
  have inT: "x \<in> set_tree ?T1" "g \<in> set_tree ?T1" by simp_all
  obtain s2 where s2: "set_paint s1 x BLACK = Some s2" "tree_rep s2 ?T1" "kept s1 s2"
    "col s2 = (col s1)(x := BLACK)" by (rule tree_rep_paint [OF s1(2) inT(1)])
  obtain s3 where s3: "set_paint s2 g RED = Some s3" "tree_rep s3 ?T1" "kept s2 s3"
    "col s3 = (col s2)(g := RED)" by (rule tree_rep_paint [OF s2(2) inT(2)])
  obtain s4 where s4: "vl_SetTreeRotateLeft s3 g = Some s4"
    "tree_rep s4 (plug D (Node (Node u g b) x (Node a p l)))" "kept s3 s4" "col s4 = col s3"
    by (rule rotate_left_ok [OF s3(2)])
  show thesis
  proof
    show "insert_fixup_right s x p g = Some (p, s4)"
      using tree_rep_node [OF rep] tree_rep_root_col [OF rep_u] tree_rep_node [OF rep_p]
        tree_rep_node [OF rep1_p] tree_rep_node [OF rep1_x] black
      by (simp add: insert_fixup_right_def s1(1) s2(1) s3(1) s4(1))
    show "kept s s4" using s1(3) s2(3) s3(3) s4(3) by (meson kept_trans)
    show "tree_rep s4 (plug D (Node (Node u g b) x (Node a p l)))" by (rule s4(2))
    show "col s4 = (col s)(x := BLACK, g := RED)" by (simp add: s4(4) s3(4) s2(4) s1(4))
  qed
qed

section \<open>Red-black trees\<close>

fun bh :: "(vl_set_iter \<Rightarrow> vl_rbtree_color) \<Rightarrow> vl_set_iter tree \<Rightarrow> nat" where
  "bh c Leaf = 0"
| "bh c (Node l x r) = bh c l + (if c x = BLACK then 1 else 0)"

fun invh :: "(vl_set_iter \<Rightarrow> vl_rbtree_color) \<Rightarrow> vl_set_iter tree \<Rightarrow> bool" where
  "invh c Leaf = True"
| "invh c (Node l x r) = (bh c l = bh c r \<and> invh c l \<and> invh c r)"

fun invc :: "(vl_set_iter \<Rightarrow> vl_rbtree_color) \<Rightarrow> vl_set_iter tree \<Rightarrow> bool" where
  "invc c Leaf = True"
| "invc c (Node l x r) =
     ((c x = RED \<longrightarrow> root_col c l = BLACK \<and> root_col c r = BLACK) \<and> invc c l \<and> invc c r)"

text \<open>The same for a context, whose hole has a black height and a colour.\<close>

fun ctx_invh :: "(vl_set_iter \<Rightarrow> vl_rbtree_color) \<Rightarrow> frame list \<Rightarrow> nat \<Rightarrow> bool" where
  "ctx_invh c [] h = True"
| "ctx_invh c (FL x r # C) h = (bh c r = h \<and> invh c r \<and> ctx_invh c C (h + (if c x = BLACK then 1 else 0)))"
| "ctx_invh c (FR l x # C) h = (bh c l = h \<and> invh c l \<and> ctx_invh c C (h + (if c x = BLACK then 1 else 0)))"

fun ctx_invc :: "(vl_set_iter \<Rightarrow> vl_rbtree_color) \<Rightarrow> frame list \<Rightarrow> vl_rbtree_color \<Rightarrow> bool" where
  "ctx_invc c [] k = True"
| "ctx_invc c (FL x r # C) k =
     ((c x = RED \<longrightarrow> k = BLACK \<and> root_col c r = BLACK) \<and> invc c r \<and> ctx_invc c C (c x))"
| "ctx_invc c (FR l x # C) k =
     ((c x = RED \<longrightarrow> k = BLACK \<and> root_col c l = BLACK) \<and> invc c l \<and> ctx_invc c C (c x))"

lemma invh_plug: "invh c (plug C t) \<longleftrightarrow> invh c t \<and> ctx_invh c C (bh c t)"
  by (induction C t rule: plug.induct) auto

lemma invc_plug: "invc c (plug C t) \<longleftrightarrow> invc c t \<and> ctx_invc c C (root_col c t)"
  by (induction C t rule: plug.induct) auto

lemma color_upd [simp]:
  "x \<notin> set_tree t \<Longrightarrow> bh (c(x := k)) t = bh c t"
  "x \<notin> set_tree t \<Longrightarrow> root_col (c(x := k)) t = root_col c t"
  by (induction t) auto

lemma inv_upd [simp]:
  "x \<notin> set_tree t \<Longrightarrow> invh (c(x := k)) t = invh c t"
  "x \<notin> set_tree t \<Longrightarrow> invc (c(x := k)) t = invc c t"
  by (induction t) auto

lemma ctx_color_upd [simp]:
  assumes "x \<notin> ctx_set C"
  shows "ctx_invh (c(x := k)) C h = ctx_invh c C h" and "ctx_invc (c(x := k)) C j = ctx_invc c C j"
  using assms by (induction C arbitrary: h j rule: ctx_set.induct) auto

lemma tree_root_plug_in: "C \<noteq> [] \<Longrightarrow> tree_root (plug C t) \<in> ctx_set C"
proof (induction C t rule: plug.induct)
  case (2 x r C t)
  then show ?case by (cases C) auto
next
  case (3 l x C t)
  then show ?case by (cases C) auto
qed simp

text \<open>A red node at a position whose surroundings would take a black one.\<close>

definition red_at :: "(vl_set_iter \<Rightarrow> vl_rbtree_color) \<Rightarrow> frame list \<Rightarrow> vl_set_iter tree \<Rightarrow> bool" where
  "red_at c C t \<longleftrightarrow> invh c (plug C t) \<and> invc c t \<and> ctx_invc c C BLACK"

definition red_black :: "(vl_set_iter \<Rightarrow> vl_rbtree_color) \<Rightarrow> vl_set_iter tree \<Rightarrow> bool" where
  "red_black c T \<longleftrightarrow> invh c T \<and> invc c T"

lemma red_black_plug:
  "red_black c (plug C t) \<longleftrightarrow> invh c t \<and> invc c t \<and> ctx_invh c C (bh c t) \<and> ctx_invc c C (root_col c t)"
  by (auto simp: red_black_def invh_plug invc_plug)

text \<open>What each way of \<^const>\<open>insert_fixup_left\<close> does to the balance.\<close>

lemma red_at_left_red:
  assumes "distinct (inorder (plug D (Node (Node l p r) g (Node v u w))))"
    and "invh c (plug D (Node (Node l p r) g (Node v u w)))"
    and "invc c l" "invc c r" "invc c v" "invc c w" "root_col c v = BLACK" "root_col c w = BLACK"
    and "c g = BLACK" "ctx_invc c D BLACK"
    and "c p = RED" and "c u = RED"
  shows "red_at (c(p := BLACK, u := BLACK, g := RED)) D (Node (Node l p r) g (Node v u w))"
  using assms unfolding distinct_plug red_at_def invh_plug by auto

lemma red_black_left_outer:
  assumes "distinct (inorder (plug D (Node (Node (Node a x b) p r) g u)))"
    and "red_at c (FL p r # FL g u # D) (Node a x b)"
    and "c x = RED" and "c p = RED" and "root_col c u = BLACK"
  shows "red_black (c(p := BLACK, g := RED)) (plug D (Node (Node a x b) p (Node r g u)))"
  using assms unfolding distinct_plug red_at_def invh_plug red_black_plug by auto

lemma red_black_left_inner:
  assumes "distinct (inorder (plug D (Node (Node l p (Node a x b)) g u)))"
    and "red_at c (FR l p # FL g u # D) (Node a x b)"
    and "c x = RED" and "c p = RED" and "root_col c u = BLACK"
  shows "red_black (c(x := BLACK, g := RED)) (plug D (Node (Node l p a) x (Node b g u)))"
  using assms unfolding distinct_plug red_at_def invh_plug red_black_plug by auto

text \<open>What each way of \<^const>\<open>insert_fixup_right\<close> does to the balance.\<close>

lemma red_at_right_red:
  assumes "distinct (inorder (plug D (Node (Node w u v) g (Node r p l))))"
    and "invh c (plug D (Node (Node w u v) g (Node r p l)))"
    and "invc c l" "invc c r" "invc c v" "invc c w" "root_col c v = BLACK" "root_col c w = BLACK"
    and "c g = BLACK" "ctx_invc c D BLACK"
    and "c p = RED" and "c u = RED"
  shows "red_at (c(p := BLACK, u := BLACK, g := RED)) D (Node (Node w u v) g (Node r p l))"
  using assms unfolding distinct_plug red_at_def invh_plug by auto

lemma red_black_right_outer:
  assumes "distinct (inorder (plug D (Node u g (Node r p (Node b x a)))))"
    and "red_at c (FR r p # FR u g # D) (Node b x a)"
    and "c x = RED" and "c p = RED" and "root_col c u = BLACK"
  shows "red_black (c(p := BLACK, g := RED)) (plug D (Node (Node u g r) p (Node b x a)))"
  using assms unfolding distinct_plug red_at_def invh_plug red_black_plug by auto

lemma red_black_right_inner:
  assumes "distinct (inorder (plug D (Node u g (Node (Node b x a) p l))))"
    and "red_at c (FL p l # FR u g # D) (Node b x a)"
    and "c x = RED" and "c p = RED" and "root_col c u = BLACK"
  shows "red_black (c(x := BLACK, g := RED)) (plug D (Node (Node u g b) x (Node a p l)))"
  using assms unfolding distinct_plug red_at_def invh_plug red_black_plug by auto

lemma insert_fixup_loop_left:
  assumes rep: "tree_rep s (plug (f # FL g u # D) (Node a x b))" and red: "col s (ctx_parent (f # D)) = RED"
  shows "insert_fixup_loop s x = do {
    (n, s') \<leftarrow> insert_fixup_left s x (ctx_parent (f # D)) g; insert_fixup_loop s' n }"
proof -
  have root: "x \<noteq> set_root s"
  proof
    assume "x = set_root s"
    then have "x \<in> ctx_set (f # FL g u # D)"
      using tree_root_plug_in [of "f # FL g u # D" "Node a x b"] rep unfolding tree_rep_plug by simp
    then show False using rep unfolding tree_rep_plug by auto
  qed
  obtain l p r where P: "plug (f # FL g u # D) (Node a x b) = plug (FL g u # D) (Node l p r)"
    "ctx_parent (f # D) = p" by (cases f) auto
  have rep_p: "tree_rep s (plug (FL g u # D) (Node l p r))" and rep_g: "tree_rep s (plug D (Node (Node l p r) g u))"
    using rep unfolding P by simp_all
  have ne: "p \<noteq> tree_root u"
    using tree_rep_cell(3) [OF rep_p] rep_p unfolding tree_rep_plug by (cases u) auto
  have px: "ctx_parent (f # FL g u # D) = p" using P(2) by (cases f) auto
  show ?thesis
    using tree_rep_node [OF rep] tree_rep_node [OF rep_p] tree_rep_node [OF rep_g] root red ne
    by (subst insert_fixup_loop.simps) (simp add: px P(2) del: plug.simps)
qed

lemma insert_fixup_loop_right:
  assumes rep: "tree_rep s (plug (f # FR u g # D) (Node a x b))" and red: "col s (ctx_parent (f # D)) = RED"
  shows "insert_fixup_loop s x = do {
    (n, s') \<leftarrow> insert_fixup_right s x (ctx_parent (f # D)) g; insert_fixup_loop s' n }"
proof -
  have root: "x \<noteq> set_root s"
  proof
    assume "x = set_root s"
    then have "x \<in> ctx_set (f # FR u g # D)"
      using tree_root_plug_in [of "f # FR u g # D" "Node a x b"] rep unfolding tree_rep_plug by simp
    then show False using rep unfolding tree_rep_plug by auto
  qed
  obtain l p r where P: "plug (f # FR u g # D) (Node a x b) = plug (FR u g # D) (Node r p l)"
    "ctx_parent (f # D) = p" by (cases f) auto
  have rep_p: "tree_rep s (plug (FR u g # D) (Node r p l))" and rep_g: "tree_rep s (plug D (Node u g (Node r p l)))"
    using rep unfolding P by simp_all
  have ne: "p \<noteq> tree_root u"
    using tree_rep_cell(3) [OF rep_p] rep_p unfolding tree_rep_plug by (cases u) auto
  have px: "ctx_parent (f # FR u g # D) = p" using P(2) by (cases f) auto
  show ?thesis
    using tree_rep_node [OF rep] tree_rep_node [OF rep_p] tree_rep_node [OF rep_g] root red ne
    by (subst insert_fixup_loop.simps) (simp add: px P(2) del: plug.simps)
qed

lemma insert_fixup_loop_stop:
  assumes rep: "tree_rep s (plug C (Node a x b))" and "C = [] \<or> col s (ctx_parent C) = BLACK"
  shows "insert_fixup_loop s x = Some s"
proof (cases "C = []")
  case True
  then show ?thesis using rep by (subst insert_fixup_loop.simps) (simp add: tree_rep_def)
next
  case False
  then obtain f D where C: "C = f # D" by (cases C) auto
  obtain l p r where P: "plug C (Node a x b) = plug D (Node l p r)" "ctx_parent C = p"
    unfolding C by (cases f) auto
  show ?thesis
    using tree_rep_node [OF rep] tree_rep_node [OF rep [unfolded P]] assms(2) False
    by (subst insert_fixup_loop.simps) (simp add: P(2))
qed

text \<open>
  The fixup returns, keeps the order of the nodes and, begun at a red node whose
  surroundings are balanced, leaves a tree that is balanced but for the colour of its root.
\<close>

definition fixes_to ::
  "'a vl_set \<Rightarrow> vl_set_iter \<Rightarrow> frame list \<Rightarrow> vl_set_iter tree \<Rightarrow> bool" where
  "fixes_to s x C t \<longleftrightarrow> (\<exists>s' T. insert_fixup_loop s x = Some s' \<and> tree_rep s' T \<and> kept s s' \<and>
     inorder T = inorder (plug C t) \<and> (red_at (col s) C t \<longrightarrow> red_black (col s') T))"

lemma fixes_to_stop:
  assumes "tree_rep s (plug C (Node a x b))" and "C = [] \<or> col s (ctx_parent C) = BLACK"
  shows "fixes_to s x C (Node a x b)"
proof -
  have "red_black (col s) (plug C (Node a x b))" if "red_at (col s) C (Node a x b)"
    using that assms(2) by (cases C rule: ctx_parent.cases)
      (auto simp: red_at_def invh_plug invc_plug red_black_def)
  then show ?thesis
    unfolding fixes_to_def using insert_fixup_loop_stop [OF assms] assms(1)
    by (intro exI [of _ s] exI [of _ "plug C (Node a x b)"]) (simp add: tree_rep_def)
qed

lemma fixes_to_left_outer:
  assumes rep: "tree_rep s (plug (FL p r # FL g u # D) (Node a x b))"
    and red: "col s x = RED" "col s p = RED" and u: "root_col (col s) u = BLACK"
  shows "fixes_to s x (FL p r # FL g u # D) (Node a x b)"
proof -
  let ?t = "Node a x b"
  obtain a' b' where t: "?t = Node a' x b'" by blast
  have rep': "tree_rep s (plug D (Node (Node (Node a' x b') p r) g u))" using rep unfolding t by simp
  obtain s' where s': "insert_fixup_left s x p g = Some (x, s')" "kept s s'"
    "tree_rep s' (plug D (Node (Node a' x b') p (Node r g u)))" "col s' = (col s)(p := BLACK, g := RED)"
    by (rule insert_fixup_left_outer [OF rep' u])
  let ?T = "plug D (Node (Node a' x b') p (Node r g u))"
  have dist: "distinct (inorder (plug D (Node (Node (Node a' x b') p r) g u)))"
    using rep' by (simp add: tree_rep_def)
  then have "p \<noteq> g" by auto
  have repx: "tree_rep s' (plug (FL p (Node r g u) # D) (Node a' x b'))" using s'(3) by simp
  have "insert_fixup_loop s' x = Some s'"
    by (rule insert_fixup_loop_stop [OF repx]) (simp add: s'(4) \<open>p \<noteq> g\<close>)
  then have run: "insert_fixup_loop s x = Some s'"
    using insert_fixup_loop_left [OF rep] red(2) s'(1) by simp
  have "red_black (col s') ?T" if "red_at (col s) (FL p r # FL g u # D) (Node a' x b')"
    unfolding s'(4) by (rule red_black_left_outer [OF dist that red u])
  with run s'(2,3) show ?thesis
    unfolding fixes_to_def t by (intro exI [of _ s'] exI [of _ ?T]) simp
qed

lemma fixes_to_left_inner:
  assumes rep: "tree_rep s (plug (FR l p # FL g u # D) (Node a x b))"
    and red: "col s x = RED" "col s p = RED" and u: "root_col (col s) u = BLACK"
  shows "fixes_to s x (FR l p # FL g u # D) (Node a x b)"
proof -
  let ?t = "Node a x b"
  obtain a' b' where t: "?t = Node a' x b'" by blast
  have rep': "tree_rep s (plug D (Node (Node l p (Node a' x b')) g u))" using rep unfolding t by simp
  obtain s' where s': "insert_fixup_left s x p g = Some (p, s')" "kept s s'"
    "tree_rep s' (plug D (Node (Node l p a') x (Node b' g u)))" "col s' = (col s)(x := BLACK, g := RED)"
    by (rule insert_fixup_left_inner [OF rep' u])
  let ?T = "plug D (Node (Node l p a') x (Node b' g u))"
  have dist: "distinct (inorder (plug D (Node (Node l p (Node a' x b')) g u)))"
    using rep' by (simp add: tree_rep_def)
  then have "x \<noteq> g" by auto
  have repp: "tree_rep s' (plug (FL x (Node b' g u) # D) (Node l p a'))" using s'(3) by simp
  have "insert_fixup_loop s' p = Some s'"
    by (rule insert_fixup_loop_stop [OF repp]) (simp add: s'(4) \<open>x \<noteq> g\<close>)
  then have run: "insert_fixup_loop s x = Some s'"
    using insert_fixup_loop_left [OF rep] red(2) s'(1) by simp
  have "red_black (col s') ?T" if "red_at (col s) (FR l p # FL g u # D) (Node a' x b')"
    unfolding s'(4) by (rule red_black_left_inner [OF dist that red u])
  with run s'(2,3) show ?thesis
    unfolding fixes_to_def t by (intro exI [of _ s'] exI [of _ ?T]) simp
qed

lemma fixes_to_left_red:
  fixes s :: "'a vl_set"
  assumes rep: "tree_rep s (plug (f # FL g (Node v u w) # D) (Node a x b))"
    and red: "col s x = RED" "col s (ctx_parent (f # D)) = RED" "col s u = RED"
    and top: "col s (set_root s) = BLACK"
    and IH: "\<And>(s' :: 'a vl_set) t1 t2. tree_rep s' (plug D (Node t1 g t2)) \<Longrightarrow> col s' g = RED \<Longrightarrow>
      D = [] \<or> col s' (set_root s') = BLACK \<Longrightarrow> fixes_to s' g D (Node t1 g t2)"
  shows "fixes_to s x (f # FL g (Node v u w) # D) (Node a x b)"
proof -
  let ?C = "f # FL g (Node v u w) # D" and ?t = "Node a x b"
  obtain v' w' where U: "Node v u w = Node v' u w'" by blast
  obtain L p R where PN: "plug ?C ?t = plug (FL g (Node v u w) # D) (Node L p R)" "ctx_parent (f # D) = p"
    and bal0: "\<And>c. c x = RED \<Longrightarrow> c p = RED \<Longrightarrow> c u = RED \<Longrightarrow> red_at c ?C ?t \<Longrightarrow>
      invh c (plug ?C ?t) \<and> invc c L \<and> invc c R \<and> invc c v \<and> invc c w \<and> root_col c v = BLACK \<and>
      root_col c w = BLACK \<and> c g = BLACK \<and> ctx_invc c D BLACK"
  proof (cases f)
    case (FL q t)
    show thesis
      by (rule that [of "Node a x b" q t]) (unfold red_at_def, use FL in auto)
  next
    case (FR t q)
    show thesis
      by (rule that [of t q "Node a x b"]) (unfold red_at_def, use FR in auto)
  qed
  obtain l r where LR: "Node L p R = Node l p r" by blast
  have P: "plug ?C ?t = plug D (Node (Node l p r) g (Node v' u w'))" "ctx_parent (f # D) = p"
    using PN LR U by simp_all
  have bal: "invh c (plug D (Node (Node l p r) g (Node v' u w'))) \<and>
      invc c l \<and> invc c r \<and> invc c v' \<and> invc c w' \<and> root_col c v' = BLACK \<and> root_col c w' = BLACK \<and>
      c g = BLACK \<and> ctx_invc c D BLACK"
    if "c x = RED" "c p = RED" "c u = RED" "red_at c ?C ?t" for c
    using bal0 [OF that] P(1) LR U by auto
  let ?T = "plug D (Node (Node l p r) g (Node v' u w'))"
  have rep': "tree_rep s ?T" using rep unfolding P(1) .
  obtain s' where s': "insert_fixup_left s x p g = Some (g, s')" "kept s s'" "tree_rep s' ?T"
    "col s' = (col s)(p := BLACK, u := BLACK, g := RED)"
    by (rule insert_fixup_left_red [OF rep' red(3)])
  have dist: "distinct (inorder ?T)" using rep' by (simp add: tree_rep_def)
  have top': "D = [] \<or> col s' (set_root s') = BLACK"
  proof (cases "D = []")
    case False
    have "set_root s' = set_root s" "set_root s \<in> ctx_set D"
      using rep' s'(3) tree_root_plug_in [OF False] by (auto simp: tree_rep_def)
    then show ?thesis using dist top unfolding s'(4) distinct_plug by auto
  qed simp
  obtain t1 t2 where N: "Node (Node l p r) g (Node v' u w') = Node t1 g t2" by blast
  have "fixes_to s' g D (Node t1 g t2)"
    by (rule IH) (use s'(3) top' in \<open>simp_all add: s'(4) N [symmetric]\<close>)
  then obtain s2 T where fin: "insert_fixup_loop s' g = Some s2" "tree_rep s2 T" "kept s' s2"
    "inorder T = inorder ?T"
    "red_at (col s') D (Node (Node l p r) g (Node v' u w')) \<longrightarrow> red_black (col s2) T"
    unfolding fixes_to_def N [symmetric] by blast
  have run: "insert_fixup_loop s x = Some s2"
    using insert_fixup_loop_left [OF rep] red(2) s'(1) fin(1) by (simp add: P(2))
  have "red_black (col s2) T" if "red_at (col s) ?C ?t"
  proof -
    note b = bal [OF red(1) red(2) [unfolded P(2)] red(3) that]
    have "red_at (col s') D (Node (Node l p r) g (Node v' u w'))"
      unfolding s'(4) by (rule red_at_left_red [OF dist]) (use b red P(2) in auto)
    then show ?thesis using fin(5) by simp
  qed
  moreover have "kept s s2" using s'(2) fin(3) by (rule kept_trans)
  ultimately show ?thesis
    unfolding fixes_to_def P(1) using run fin(2,4) by blast
qed

lemma fixes_to_right_outer:
  assumes rep: "tree_rep s (plug (FR r p # FR u g # D) (Node a x b))"
    and red: "col s x = RED" "col s p = RED" and u: "root_col (col s) u = BLACK"
  shows "fixes_to s x (FR r p # FR u g # D) (Node a x b)"
proof -
  let ?t = "Node a x b"
  obtain a' b' where t: "?t = Node b' x a'" by blast
  have rep': "tree_rep s (plug D (Node u g (Node r p (Node b' x a'))))" using rep unfolding t by simp
  obtain s' where s': "insert_fixup_right s x p g = Some (x, s')" "kept s s'"
    "tree_rep s' (plug D (Node (Node u g r) p (Node b' x a')))" "col s' = (col s)(p := BLACK, g := RED)"
    by (rule insert_fixup_right_outer [OF rep' u])
  let ?T = "plug D (Node (Node u g r) p (Node b' x a'))"
  have dist: "distinct (inorder (plug D (Node u g (Node r p (Node b' x a')))))"
    using rep' by (simp add: tree_rep_def)
  then have "p \<noteq> g" by auto
  have repx: "tree_rep s' (plug (FR (Node u g r) p # D) (Node b' x a'))" using s'(3) by simp
  have "insert_fixup_loop s' x = Some s'"
    by (rule insert_fixup_loop_stop [OF repx]) (simp add: s'(4) \<open>p \<noteq> g\<close>)
  then have run: "insert_fixup_loop s x = Some s'"
    using insert_fixup_loop_right [OF rep] red(2) s'(1) by simp
  have "red_black (col s') ?T" if "red_at (col s) (FR r p # FR u g # D) (Node b' x a')"
    unfolding s'(4) by (rule red_black_right_outer [OF dist that red u])
  with run s'(2,3) show ?thesis
    unfolding fixes_to_def t by (intro exI [of _ s'] exI [of _ ?T]) simp
qed

lemma fixes_to_right_inner:
  assumes rep: "tree_rep s (plug (FL p l # FR u g # D) (Node a x b))"
    and red: "col s x = RED" "col s p = RED" and u: "root_col (col s) u = BLACK"
  shows "fixes_to s x (FL p l # FR u g # D) (Node a x b)"
proof -
  let ?t = "Node a x b"
  obtain a' b' where t: "?t = Node b' x a'" by blast
  have rep': "tree_rep s (plug D (Node u g (Node (Node b' x a') p l)))" using rep unfolding t by simp
  obtain s' where s': "insert_fixup_right s x p g = Some (p, s')" "kept s s'"
    "tree_rep s' (plug D (Node (Node u g b') x (Node a' p l)))" "col s' = (col s)(x := BLACK, g := RED)"
    by (rule insert_fixup_right_inner [OF rep' u])
  let ?T = "plug D (Node (Node u g b') x (Node a' p l))"
  have dist: "distinct (inorder (plug D (Node u g (Node (Node b' x a') p l))))"
    using rep' by (simp add: tree_rep_def)
  then have "x \<noteq> g" by auto
  have repp: "tree_rep s' (plug (FR (Node u g b') x # D) (Node a' p l))" using s'(3) by simp
  have "insert_fixup_loop s' p = Some s'"
    by (rule insert_fixup_loop_stop [OF repp]) (simp add: s'(4) \<open>x \<noteq> g\<close>)
  then have run: "insert_fixup_loop s x = Some s'"
    using insert_fixup_loop_right [OF rep] red(2) s'(1) by simp
  have "red_black (col s') ?T" if "red_at (col s) (FL p l # FR u g # D) (Node b' x a')"
    unfolding s'(4) by (rule red_black_right_inner [OF dist that red u])
  with run s'(2,3) show ?thesis
    unfolding fixes_to_def t by (intro exI [of _ s'] exI [of _ ?T]) simp
qed

lemma fixes_to_right_red:
  fixes s :: "'a vl_set"
  assumes rep: "tree_rep s (plug (f # FR (Node v u w) g # D) (Node a x b))"
    and red: "col s x = RED" "col s (ctx_parent (f # D)) = RED" "col s u = RED"
    and top: "col s (set_root s) = BLACK"
    and IH: "\<And>(s' :: 'a vl_set) t1 t2. tree_rep s' (plug D (Node t1 g t2)) \<Longrightarrow> col s' g = RED \<Longrightarrow>
      D = [] \<or> col s' (set_root s') = BLACK \<Longrightarrow> fixes_to s' g D (Node t1 g t2)"
  shows "fixes_to s x (f # FR (Node v u w) g # D) (Node a x b)"
proof -
  let ?C = "f # FR (Node v u w) g # D" and ?t = "Node a x b"
  obtain v' w' where U: "Node v u w = Node w' u v'" by blast
  obtain L p R where PN: "plug ?C ?t = plug (FR (Node v u w) g # D) (Node L p R)" "ctx_parent (f # D) = p"
    and bal0: "\<And>c. c x = RED \<Longrightarrow> c p = RED \<Longrightarrow> c u = RED \<Longrightarrow> red_at c ?C ?t \<Longrightarrow>
      invh c (plug ?C ?t) \<and> invc c L \<and> invc c R \<and> invc c v \<and> invc c w \<and> root_col c v = BLACK \<and>
      root_col c w = BLACK \<and> c g = BLACK \<and> ctx_invc c D BLACK"
  proof (cases f)
    case (FL q t)
    show thesis
      by (rule that [of "Node a x b" q t]) (unfold red_at_def, use FL in auto)
  next
    case (FR t q)
    show thesis
      by (rule that [of t q "Node a x b"]) (unfold red_at_def, use FR in auto)
  qed
  obtain l r where LR: "Node L p R = Node r p l" by blast
  have P: "plug ?C ?t = plug D (Node (Node w' u v') g (Node r p l))" "ctx_parent (f # D) = p"
    using PN LR U by simp_all
  have bal: "invh c (plug D (Node (Node w' u v') g (Node r p l))) \<and>
      invc c l \<and> invc c r \<and> invc c v' \<and> invc c w' \<and> root_col c v' = BLACK \<and> root_col c w' = BLACK \<and>
      c g = BLACK \<and> ctx_invc c D BLACK"
    if "c x = RED" "c p = RED" "c u = RED" "red_at c ?C ?t" for c
    using bal0 [OF that] P(1) LR U by auto
  let ?T = "plug D (Node (Node w' u v') g (Node r p l))"
  have rep': "tree_rep s ?T" using rep unfolding P(1) .
  obtain s' where s': "insert_fixup_right s x p g = Some (g, s')" "kept s s'" "tree_rep s' ?T"
    "col s' = (col s)(p := BLACK, u := BLACK, g := RED)"
    by (rule insert_fixup_right_red [OF rep' red(3)])
  have dist: "distinct (inorder ?T)" using rep' by (simp add: tree_rep_def)
  have top': "D = [] \<or> col s' (set_root s') = BLACK"
  proof (cases "D = []")
    case False
    have "set_root s' = set_root s" "set_root s \<in> ctx_set D"
      using rep' s'(3) tree_root_plug_in [OF False] by (auto simp: tree_rep_def)
    then show ?thesis using dist top unfolding s'(4) distinct_plug by auto
  qed simp
  obtain t1 t2 where N: "Node (Node w' u v') g (Node r p l) = Node t1 g t2" by blast
  have "fixes_to s' g D (Node t1 g t2)"
    by (rule IH) (use s'(3) top' in \<open>simp_all add: s'(4) N [symmetric]\<close>)
  then obtain s2 T where fin: "insert_fixup_loop s' g = Some s2" "tree_rep s2 T" "kept s' s2"
    "inorder T = inorder ?T"
    "red_at (col s') D (Node (Node w' u v') g (Node r p l)) \<longrightarrow> red_black (col s2) T"
    unfolding fixes_to_def N [symmetric] by blast
  have run: "insert_fixup_loop s x = Some s2"
    using insert_fixup_loop_right [OF rep] red(2) s'(1) fin(1) by (simp add: P(2))
  have "red_black (col s2) T" if "red_at (col s) ?C ?t"
  proof -
    note b = bal [OF red(1) red(2) [unfolded P(2)] red(3) that]
    have "red_at (col s') D (Node (Node w' u v') g (Node r p l))"
      unfolding s'(4) by (rule red_at_right_red [OF dist]) (use b red P(2) in auto)
    then show ?thesis using fin(5) by simp
  qed
  moreover have "kept s s2" using s'(2) fin(3) by (rule kept_trans)
  ultimately show ?thesis
    unfolding fixes_to_def P(1) using run fin(2,4) by blast
qed

lemma insert_fixup_ok:
  fixes s :: "'a vl_set"
  assumes "tree_rep s (plug C (Node a x b))" and "col s x = RED"
    and "C = [] \<or> col s (set_root s) = BLACK"
  shows "fixes_to s x C (Node a x b)"
  using assms
proof (induction "length C" arbitrary: s C a x b rule: less_induct)
  case less
  note rep = less.prems(1) and red = less.prems(2)
  show ?case
  proof (cases "C = [] \<or> col s (ctx_parent C) = BLACK")
    case True
    with rep show ?thesis by (rule fixes_to_stop)
  next
    case False
    then obtain f E where C: "C = f # E" by (cases C) auto
    have pred: "col s (ctx_parent C) = RED" using False by (metis vl_rbtree_color.exhaust)
    have top: "col s (set_root s) = BLACK" using less.prems(3) C by simp
    have "E \<noteq> []"
    proof
      assume "E = []"
      then have "set_root s = ctx_parent C" using rep C by (cases f) (auto simp: tree_rep_def)
      then show False using pred top by simp
    qed
    then obtain h D where E: "E = h # D" by (cases E) auto
    have IH: "fixes_to s' g D (Node t1 g t2)" if "tree_rep s' (plug D (Node t1 g t2))" "col s' g = RED"
      "D = [] \<or> col s' (set_root s') = BLACK" for s' :: "'a vl_set" and g t1 t2
      using less.hyps [of D s' t1 g t2] that C E by simp
    have pred': "col s (ctx_parent (f # D)) = RED" using pred C by (cases f) auto
    show ?thesis
    proof (cases h)
      case (FL g u)
      note C' = C [unfolded E FL]
      show ?thesis
      proof (cases "root_col (col s) u = RED")
        case True
        then obtain v y w where u: "u = Node v y w" by (cases u) auto
        show ?thesis
          unfolding C' u using rep [unfolded C' u] red pred' _ top IH
          by (rule fixes_to_left_red) (use True u in simp)
      next
        case False
        then have ub: "root_col (col s) u = BLACK" by (metis vl_rbtree_color.exhaust)
        show ?thesis
        proof (cases f)
          case (FL p r)
          show ?thesis
            unfolding C' FL using rep [unfolded C' FL] red _ ub
            by (rule fixes_to_left_outer) (use pred' FL in simp)
        next
          case (FR l p)
          show ?thesis
            unfolding C' FR using rep [unfolded C' FR] red _ ub
            by (rule fixes_to_left_inner) (use pred' FR in simp)
        qed
      qed
    next
      case (FR u g)
      note C' = C [unfolded E FR]
      show ?thesis
      proof (cases "root_col (col s) u = RED")
        case True
        then obtain v y w where u: "u = Node v y w" by (cases u) auto
        show ?thesis
          unfolding C' u using rep [unfolded C' u] red pred' _ top IH
          by (rule fixes_to_right_red) (use True u in simp)
      next
        case False
        then have ub: "root_col (col s) u = BLACK" by (metis vl_rbtree_color.exhaust)
        show ?thesis
        proof (cases f)
          case (FR l p)
          show ?thesis
            unfolding C' FR using rep [unfolded C' FR] red _ ub
            by (rule fixes_to_right_outer) (use pred' FR in simp)
        next
          case (FL p r)
          show ?thesis
            unfolding C' FL using rep [unfolded C' FL] red _ ub
            by (rule fixes_to_right_inner) (use pred' FL in simp)
        qed
      qed
    qed
  qed
qed

section \<open>The fixup after a removal\<close>

lemma tree_split: "x \<in> set_tree T \<Longrightarrow> \<exists>C a b. T = plug C (Node a x b)"
proof (induction T)
  case (Node l y r)
  consider "x = y" | "x \<in> set_tree l" | "x \<in> set_tree r" using Node.prems by auto
  then show ?case
  proof cases
    case 1
    then have "Node l y r = plug [] (Node l x r)" by simp
    then show ?thesis by blast
  next
    case 2
    then obtain C a b where "l = plug C (Node a x b)" using Node.IH(1) by blast
    then have "Node l y r = plug (C @ [FL y r]) (Node a x b)" by (simp add: plug_append)
    then show ?thesis by blast
  next
    case 3
    then obtain C a b where "r = plug C (Node a x b)" using Node.IH(2) by blast
    then have "Node l y r = plug (C @ [FR l y]) (Node a x b)" by (simp add: plug_append)
    then show ?thesis by blast
  qed
qed simp

text \<open>The colour of the root of a set is black, if it has one.\<close>

definition root_black :: "'a vl_set \<Rightarrow> bool" where
  "root_black s \<longleftrightarrow> set_root s = SNIL \<or> col s (set_root s) = BLACK"

lemma paint_sub:
  assumes rep: "tree_rep s (plug C t)"
  obtains s' where "(if tree_root t \<noteq> SNIL then set_paint s (tree_root t) c else Some s) = Some s'"
    "tree_rep s' (plug C t)" "kept s s'"
    "col s' = (if t = Leaf then col s else (col s)(tree_root t := c))"
proof (cases t)
  case Leaf
  have "set_ok s" using rep by (simp add: tree_rep_def)
  then show thesis using that [of s] rep Leaf by simp
next
  case (Node l x r)
  then have "x \<in> set_tree (plug C t)" by simp
  from tree_rep_paint [OF rep this] obtain s' where
    "set_paint s x c = Some s'" "tree_rep s' (plug C t)" "kept s s'" "col s' = (col s)(x := c)" .
  then show thesis using that [of s'] tree_rep_cell(3) [of s C l x r] rep Node by simp
qed

lemma child_colors_rep:
  assumes "tree_rep s (plug C t)"
  shows "child_colors s (tree_root t) =
    Some (case t of Leaf \<Rightarrow> (BLACK, BLACK) | Node l x r \<Rightarrow> (root_col (col s) l, root_col (col s) r))"
proof (cases t)
  case (Node l x r)
  then have rep: "tree_rep s (plug C (Node l x r))" and repl: "tree_rep s (plug (FL x r # C) l)"
    and repr: "tree_rep s (plug (FR l x # C) r)" using assms by simp_all
  show ?thesis
    using tree_rep_node [OF rep] tree_rep_cell(3) [OF rep] tree_rep_root_col [OF repl]
      tree_rep_root_col [OF repr] Node
    by (simp add: child_colors_def)
qed (simp add: child_colors_def)

lemma remove_sibling_left_black:
  assumes rep: "tree_rep s (plug C (Node X p W))" and "root_col (col s) W = BLACK"
  shows "remove_sibling_left s p = Some (tree_root W, s)"
proof -
  have repW: "tree_rep s (plug (FR X p # C) W)" using rep by simp
  show ?thesis
    using tree_rep_node [OF rep] tree_rep_root_col [OF repW] assms(2) by (simp add: remove_sibling_left_def)
qed

lemma remove_sibling_left_red:
  assumes rep: "tree_rep s (plug C (Node X p (Node a w b)))" and red: "col s w = RED"
  obtains s' where "remove_sibling_left s p = Some (tree_root a, s')" "kept s s'"
    "tree_rep s' (plug (FL w b # C) (Node X p a))" "col s' = (col s)(w := BLACK, p := RED)"
proof -
  let ?T = "plug C (Node X p (Node a w b))"
  have repW: "tree_rep s (plug (FR X p # C) (Node a w b))" using rep by simp
  have inT: "w \<in> set_tree ?T" "p \<in> set_tree ?T" by simp_all
  obtain s1 where s1: "set_paint s w BLACK = Some s1" "tree_rep s1 ?T" "kept s s1"
    "col s1 = (col s)(w := BLACK)" by (rule tree_rep_paint [OF rep inT(1)])
  obtain s2 where s2: "set_paint s1 p RED = Some s2" "tree_rep s2 ?T" "kept s1 s2"
    "col s2 = (col s1)(p := RED)" by (rule tree_rep_paint [OF s1(2) inT(2)])
  obtain s3 where s3: "vl_SetTreeRotateLeft s2 p = Some s3" "tree_rep s3 (plug C (Node (Node X p a) w b))"
    "kept s2 s3" "col s3 = col s2" by (rule rotate_left_ok [OF s2(2)])
  have rep3: "tree_rep s3 (plug (FL w b # C) (Node X p a))" using s3(2) by simp
  show thesis
  proof
    show "remove_sibling_left s p = Some (tree_root a, s3)"
      using tree_rep_node [OF rep] tree_rep_root_col [OF repW] tree_rep_node [OF rep3] red
      by (simp add: remove_sibling_left_def s1(1) s2(1) s3(1))
    show "kept s s3" using s1(3) s2(3) s3(3) by (meson kept_trans)
    show "tree_rep s3 (plug (FL w b # C) (Node X p a))" by (rule rep3)
    show "col s3 = (col s)(w := BLACK, p := RED)" by (simp add: s3(4) s2(4) s1(4))
  qed
qed

lemma remove_turn_left_ok:
  assumes rep: "tree_rep s (plug C (Node X p (Node a w b)))" and red: "k = BLACK \<longrightarrow> a \<noteq> Leaf"
  obtains s' a' w' b' where "remove_turn_left s p w k = Some (w', s')" "kept s s'"
    "tree_rep s' (plug C (Node X p (Node a' w' b')))"
    "inorder (plug C (Node X p (Node a' w' b'))) = inorder (plug C (Node X p (Node a w b)))"
proof (cases "k = BLACK")
  case False
  have "set_ok s" using rep by (simp add: tree_rep_def)
  then show thesis using that [where s' = s and a' = a and w' = w and b' = b] False rep by (simp add: remove_turn_left_def)
next
  case True
  then obtain l0 y0 r0 where "a = Node l0 y0 r0" using red by (cases a) auto
  then obtain d y e where a: "a = Node d y e" by blast
  have repW: "tree_rep s (plug (FR X p # C) (Node a w b))" using rep by simp
  have repa: "tree_rep s (plug (FL w b # FR X p # C) a)" using rep by simp
  obtain s1 where s1: "(if tree_root a \<noteq> SNIL then set_paint s (tree_root a) BLACK else Some s) = Some s1"
    "tree_rep s1 (plug (FL w b # FR X p # C) a)" "kept s s1"
    by (rule paint_sub [OF repa])
  have rep1: "tree_rep s1 (plug (FR X p # C) (Node a w b))" using s1(2) by simp
  have inT: "w \<in> set_tree (plug (FR X p # C) (Node a w b))" by simp
  obtain s2 where s2: "set_paint s1 w RED = Some s2" "tree_rep s2 (plug (FR X p # C) (Node a w b))" "kept s1 s2"
    by (rule tree_rep_paint [OF rep1 inT])
  obtain s3 where s3: "vl_SetTreeRotateRight s2 w = Some s3"
    "tree_rep s3 (plug (FR X p # C) (Node d y (Node e w b)))" "kept s2 s3"
    by (rule rotate_right_ok [OF s2(2) [unfolded a]])
  have rep3: "tree_rep s3 (plug C (Node X p (Node d y (Node e w b))))" using s3(2) by simp
  show thesis
  proof (rule that)
    show "remove_turn_left s p w k = Some (y, s3)"
      using True tree_rep_node [OF repW] tree_rep_cell(3) [OF repW] tree_rep_node [OF rep3]
      by (simp add: remove_turn_left_def s1(1) s2(1) s3(1) del: if_split cong: if_cong)
    show "kept s s3" using s1(3) s2(3) s3(3) by (meson kept_trans)
    show "tree_rep s3 (plug C (Node X p (Node d y (Node e w b))))" by (rule rep3)
    show "inorder (plug C (Node X p (Node d y (Node e w b)))) = inorder (plug C (Node X p (Node a w b)))"
      by (simp add: a)
  qed
qed

lemma remove_rotate_left_ok:
  assumes rep: "tree_rep s (plug C (Node X p (Node a w b)))"
  obtains s' where "remove_rotate_left s p w = Some s'" "kept s s'"
    "tree_rep s' (plug C (Node (Node X p a) w b))"
proof -
  let ?T = "plug C (Node X p (Node a w b))"
  have repW: "tree_rep t (plug (FR X p # C) (Node a w b))" if "tree_rep t ?T" for t :: "'a vl_set"
    using that by simp
  have repb: "tree_rep t (plug (FR a w # FR X p # C) b)" if "tree_rep t ?T" for t :: "'a vl_set"
    using that by simp
  have inT: "w \<in> set_tree ?T" "p \<in> set_tree ?T" by simp_all
  obtain s1 where s1: "set_paint s w (col s p) = Some s1" "tree_rep s1 ?T" "kept s s1"
    by (rule tree_rep_paint [OF rep inT(1)])
  obtain s2 where s2: "set_paint s1 p BLACK = Some s2" "tree_rep s2 ?T" "kept s1 s2"
    by (rule tree_rep_paint [OF s1(2) inT(2)])
  obtain s3 where s3: "(if tree_root b \<noteq> SNIL then set_paint s2 (tree_root b) BLACK else Some s2) = Some s3"
    "tree_rep s3 (plug (FR a w # FR X p # C) b)" "kept s2 s3"
    by (rule paint_sub [OF repb [OF s2(2)]])
  then have rep3: "tree_rep s3 ?T" by simp
  obtain s4 where s4: "vl_SetTreeRotateLeft s3 p = Some s4" "tree_rep s4 (plug C (Node (Node X p a) w b))"
    "kept s3 s4" by (rule rotate_left_ok [OF rep3])
  show thesis
  proof
    show "remove_rotate_left s p w = Some s4"
      using tree_rep_node [OF rep] tree_rep_node [OF repW [OF s2(2)]] tree_rep_cell(3) [OF repW [OF rep]]
      by (simp add: remove_rotate_left_def s1(1) s2(1) s3(1) s4(1) del: if_split cong: if_cong)
    show "kept s s4" using s1(3) s2(3) s3(3) s4(3) by (meson kept_trans)
    show "tree_rep s4 (plug C (Node (Node X p a) w b))" by (rule s4(2))
  qed
qed

lemma remove_sibling_right_black:
  assumes rep: "tree_rep s (plug C (Node W p X))" and "root_col (col s) W = BLACK"
  shows "remove_sibling_right s p = Some (tree_root W, s)"
proof -
  have repW: "tree_rep s (plug (FL p X # C) W)" using rep by simp
  show ?thesis
    using tree_rep_node [OF rep] tree_rep_root_col [OF repW] assms(2) by (simp add: remove_sibling_right_def)
qed

lemma remove_sibling_right_red:
  assumes rep: "tree_rep s (plug C (Node (Node b w a) p X))" and red: "col s w = RED"
  obtains s' where "remove_sibling_right s p = Some (tree_root a, s')" "kept s s'"
    "tree_rep s' (plug (FR b w # C) (Node a p X))" "col s' = (col s)(w := BLACK, p := RED)"
proof -
  let ?T = "plug C (Node (Node b w a) p X)"
  have repW: "tree_rep s (plug (FL p X # C) (Node b w a))" using rep by simp
  have inT: "w \<in> set_tree ?T" "p \<in> set_tree ?T" by simp_all
  obtain s1 where s1: "set_paint s w BLACK = Some s1" "tree_rep s1 ?T" "kept s s1"
    "col s1 = (col s)(w := BLACK)" by (rule tree_rep_paint [OF rep inT(1)])
  obtain s2 where s2: "set_paint s1 p RED = Some s2" "tree_rep s2 ?T" "kept s1 s2"
    "col s2 = (col s1)(p := RED)" by (rule tree_rep_paint [OF s1(2) inT(2)])
  obtain s3 where s3: "vl_SetTreeRotateRight s2 p = Some s3" "tree_rep s3 (plug C (Node b w (Node a p X)))"
    "kept s2 s3" "col s3 = col s2" by (rule rotate_right_ok [OF s2(2)])
  have rep3: "tree_rep s3 (plug (FR b w # C) (Node a p X))" using s3(2) by simp
  show thesis
  proof
    show "remove_sibling_right s p = Some (tree_root a, s3)"
      using tree_rep_node [OF rep] tree_rep_root_col [OF repW] tree_rep_node [OF rep3] red
      by (simp add: remove_sibling_right_def s1(1) s2(1) s3(1))
    show "kept s s3" using s1(3) s2(3) s3(3) by (meson kept_trans)
    show "tree_rep s3 (plug (FR b w # C) (Node a p X))" by (rule rep3)
    show "col s3 = (col s)(w := BLACK, p := RED)" by (simp add: s3(4) s2(4) s1(4))
  qed
qed

lemma remove_turn_right_ok:
  assumes rep: "tree_rep s (plug C (Node (Node b w a) p X))" and red: "k = BLACK \<longrightarrow> a \<noteq> Leaf"
  obtains s' a' w' b' where "remove_turn_right s p w k = Some (w', s')" "kept s s'"
    "tree_rep s' (plug C (Node (Node b' w' a') p X))"
    "inorder (plug C (Node (Node b' w' a') p X)) = inorder (plug C (Node (Node b w a) p X))"
proof (cases "k = BLACK")
  case False
  have "set_ok s" using rep by (simp add: tree_rep_def)
  then show thesis using that [where s' = s and a' = a and w' = w and b' = b] False rep by (simp add: remove_turn_right_def)
next
  case True
  then obtain l0 y0 r0 where "a = Node l0 y0 r0" using red by (cases a) auto
  then obtain d y e where a: "a = Node e y d" by blast
  have repW: "tree_rep s (plug (FL p X # C) (Node b w a))" using rep by simp
  have repa: "tree_rep s (plug (FR b w # FL p X # C) a)" using rep by simp
  obtain s1 where s1: "(if tree_root a \<noteq> SNIL then set_paint s (tree_root a) BLACK else Some s) = Some s1"
    "tree_rep s1 (plug (FR b w # FL p X # C) a)" "kept s s1"
    by (rule paint_sub [OF repa])
  have rep1: "tree_rep s1 (plug (FL p X # C) (Node b w a))" using s1(2) by simp
  have inT: "w \<in> set_tree (plug (FL p X # C) (Node b w a))" by simp
  obtain s2 where s2: "set_paint s1 w RED = Some s2" "tree_rep s2 (plug (FL p X # C) (Node b w a))" "kept s1 s2"
    by (rule tree_rep_paint [OF rep1 inT])
  obtain s3 where s3: "vl_SetTreeRotateLeft s2 w = Some s3"
    "tree_rep s3 (plug (FL p X # C) (Node (Node b w e) y d))" "kept s2 s3"
    by (rule rotate_left_ok [OF s2(2) [unfolded a]])
  have rep3: "tree_rep s3 (plug C (Node (Node (Node b w e) y d) p X))" using s3(2) by simp
  show thesis
  proof (rule that)
    show "remove_turn_right s p w k = Some (y, s3)"
      using True tree_rep_node [OF repW] tree_rep_cell(3) [OF repW] tree_rep_node [OF rep3]
      by (simp add: remove_turn_right_def s1(1) s2(1) s3(1) del: if_split cong: if_cong)
    show "kept s s3" using s1(3) s2(3) s3(3) by (meson kept_trans)
    show "tree_rep s3 (plug C (Node (Node (Node b w e) y d) p X))" by (rule rep3)
    show "inorder (plug C (Node (Node (Node b w e) y d) p X)) = inorder (plug C (Node (Node b w a) p X))"
      by (simp add: a)
  qed
qed

lemma remove_rotate_right_ok:
  assumes rep: "tree_rep s (plug C (Node (Node b w a) p X))"
  obtains s' where "remove_rotate_right s p w = Some s'" "kept s s'"
    "tree_rep s' (plug C (Node b w (Node a p X)))"
proof -
  let ?T = "plug C (Node (Node b w a) p X)"
  have repW: "tree_rep t (plug (FL p X # C) (Node b w a))" if "tree_rep t ?T" for t :: "'a vl_set"
    using that by simp
  have repb: "tree_rep t (plug (FL w a # FL p X # C) b)" if "tree_rep t ?T" for t :: "'a vl_set"
    using that by simp
  have inT: "w \<in> set_tree ?T" "p \<in> set_tree ?T" by simp_all
  obtain s1 where s1: "set_paint s w (col s p) = Some s1" "tree_rep s1 ?T" "kept s s1"
    by (rule tree_rep_paint [OF rep inT(1)])
  obtain s2 where s2: "set_paint s1 p BLACK = Some s2" "tree_rep s2 ?T" "kept s1 s2"
    by (rule tree_rep_paint [OF s1(2) inT(2)])
  obtain s3 where s3: "(if tree_root b \<noteq> SNIL then set_paint s2 (tree_root b) BLACK else Some s2) = Some s3"
    "tree_rep s3 (plug (FL w a # FL p X # C) b)" "kept s2 s3"
    by (rule paint_sub [OF repb [OF s2(2)]])
  then have rep3: "tree_rep s3 ?T" by simp
  obtain s4 where s4: "vl_SetTreeRotateRight s3 p = Some s4" "tree_rep s4 (plug C (Node b w (Node a p X)))"
    "kept s3 s4" by (rule rotate_right_ok [OF rep3])
  show thesis
  proof
    show "remove_rotate_right s p w = Some s4"
      using tree_rep_node [OF rep] tree_rep_node [OF repW [OF s2(2)]] tree_rep_cell(3) [OF repW [OF rep]]
      by (simp add: remove_rotate_right_def s1(1) s2(1) s3(1) s4(1) del: if_split cong: if_cong)
    show "kept s s4" using s1(3) s2(3) s3(3) s4(3) by (meson kept_trans)
    show "tree_rep s4 (plug C (Node b w (Node a p X)))" by (rule s4(2))
  qed
qed

lemma plug_Node_nonempty: "plug C (Node a x b) \<noteq> Leaf"
proof
  assume "plug C (Node a x b) = Leaf"
  then have "set_tree (plug C (Node a x b)) = {}" by (simp only: tree.set)
  then show False by simp
qed

text \<open>
  How a round at a child of \<open>p\<close> ends: at \<open>p\<close> in the same tree, or at a node where the loop
  will stop. The colour of the root stays black unless the root is where the loop stops.
\<close>

definition round_ok ::
  "'a vl_set \<Rightarrow> vl_set_iter \<Rightarrow> vl_set_iter tree \<Rightarrow> (vl_set_iter \<times> 'a vl_set) option \<Rightarrow> bool" where
  "round_ok s p T res \<longleftrightarrow> (\<exists>n s' T'. res = Some (n, s') \<and> kept s s' \<and> tree_rep s' T' \<and>
     inorder T' = inorder T \<and> n \<in> set_tree T' \<and>
     (n = p \<and> T' = T \<and> root_black s' \<or> n = set_root s' \<or> col s' n = RED \<and> root_black s'))"

lemma root_black_upd:
  assumes "root_black s" and "tree_rep s (plug C t)" and "tree_rep s' (plug C t')" and "C \<noteq> []"
    and "\<And>i. i \<in> ctx_set C \<Longrightarrow> col s' i = col s i"
  shows "root_black s'"
proof -
  have "set_root s' = set_root s" "set_root s \<in> ctx_set C"
    using assms(2-4) tree_root_plug [OF assms(4), of t t'] tree_root_plug_in [OF assms(4), of t]
    by (simp_all add: tree_rep_def)
  then show ?thesis using assms(1,5) by (simp add: root_black_def)
qed

lemma remove_rest_left:
  assumes rep: "tree_rep s (plug C (Node X p W))" and sib: "remove_sibling_left s0 p = Some (tree_root W, s)"
    and rb: "root_black s"
  shows "\<exists>n s' T'. remove_fixup_left s0 p = Some (n, s') \<and> kept s s' \<and> tree_rep s' T' \<and>
     inorder T' = inorder (plug C (Node X p W)) \<and> n \<in> set_tree T' \<and>
     (n = p \<and> T' = plug C (Node X p W) \<and> root_black s' \<and> (col s p = RED \<longrightarrow> col s' p = RED) \<or>
      n = set_root s')"
proof -
  let ?T = "plug C (Node X p W)"
  have repW: "tree_rep s (plug (FR X p # C) W)" using rep by simp
  consider "child_colors s (tree_root W) = Some (BLACK, BLACK)"
    | a w b lc rc where "W = Node a w b" "child_colors s w = Some (lc, rc)"
      "\<not> (lc = BLACK \<and> rc = BLACK)" "rc = BLACK \<longrightarrow> a \<noteq> Leaf"
  proof (cases W)
    case Leaf
    then show ?thesis using child_colors_rep [OF repW] by (intro that(1)) simp
  next
    case (Node l0 w r0)
    then obtain a b where W: "W = Node a w b" by blast
    have cc: "child_colors s w = Some (root_col (col s) l0, root_col (col s) r0)"
      using child_colors_rep [OF repW] Node by simp
    show ?thesis
    proof (cases "root_col (col s) l0 = BLACK \<and> root_col (col s) r0 = BLACK")
      case True
      then show ?thesis using cc Node by (intro that(1)) simp
    next
      case False
      show ?thesis by (rule that(2) [OF W cc False]) (use False W Node in auto)
    qed
  qed
  then show ?thesis
  proof cases
    case quiet: 1
    obtain s' where s': "(if tree_root W \<noteq> SNIL then set_paint s (tree_root W) RED else Some s) = Some s'"
      "tree_rep s' (plug (FR X p # C) W)" "kept s s'"
      "col s' = (if W = Leaf then col s else (col s)(tree_root W := RED))"
      by (rule paint_sub [OF repW])
    have run: "remove_fixup_left s0 p = Some (p, s')"
      by (simp add: remove_fixup_left_def sib quiet s'(1) del: if_split cong: if_cong)
    have same: "col s' i = col s i" if "i \<in> ctx_set (FR X p # C)" for i
    proof -
      have "i \<notin> set_tree W" using that repW unfolding tree_rep_plug by auto
      then have "W = Leaf \<or> i \<noteq> tree_root W" using tree_root_in [of W] by auto
      then show ?thesis by (auto simp: s'(4))
    qed
    have "root_black s'" by (rule root_black_upd [OF rb repW s'(2)]) (simp_all add: same)
    then show ?thesis using run s'(2,3) same [of p] by (intro exI [of _ p] exI [of _ s'] exI [of _ ?T]) simp
  next
    case turn: (2 a w b lc rc)
    note repw = rep [unfolded turn(1)]
    obtain s1 a' w' b' where s1: "remove_turn_left s p w (rc) = Some (w', s1)" "kept s s1"
      "tree_rep s1 (plug C (Node X p (Node a' w' b')))"
      "inorder (plug C (Node X p (Node a' w' b'))) = inorder (plug C (Node X p (Node a w b)))"
      by (rule remove_turn_left_ok [OF repw turn(4)])
    obtain s2 where s2: "remove_rotate_left s1 p w' = Some s2" "kept s1 s2"
      "tree_rep s2 (plug C (Node (Node X p a') w' b'))"
      by (rule remove_rotate_left_ok [OF s1(3)])
    let ?T2 = "plug C (Node (Node X p a') w' b')"
    have run: "remove_fixup_left s0 p = Some (set_root s2, s2)"
      using turn(3) by (auto simp: remove_fixup_left_def sib turn(1,2) s1(1) s2(1))
    have "?T2 \<noteq> Leaf" by (rule plug_Node_nonempty)
    then have "set_root s2 \<in> set_tree ?T2" using tree_root_in [of ?T2] s2(3) by (simp add: tree_rep_def)
    moreover have "kept s s2" using s1(2) s2(2) by (rule kept_trans)
    moreover have "inorder ?T2 = inorder ?T" using s1(4) turn(1) by simp
    ultimately show ?thesis using run s2(3) by blast
  qed
qed

lemma remove_fixup_left_ok:
  assumes rep: "tree_rep s (plug C (Node X p W))" and rb: "root_black s"
  shows "round_ok s p (plug C (Node X p W)) (remove_fixup_left s p)"
proof (cases "root_col (col s) W = BLACK")
  case True
  show ?thesis
    using remove_rest_left [OF rep remove_sibling_left_black [OF rep True] rb] unfolding round_ok_def by blast
next
  case False
  then obtain l0 w r0 where "W = Node l0 w r0" by (cases W) auto
  then obtain a b where W: "W = Node a w b" by blast
  then have red: "col s w = RED" using False by (cases "col s w") simp_all
  note repw = rep [unfolded W]
  obtain s1 where s1: "remove_sibling_left s p = Some (tree_root a, s1)" "kept s s1"
    "tree_rep s1 (plug (FL w b # C) (Node X p a))" "col s1 = (col s)(w := BLACK, p := RED)"
    by (rule remove_sibling_left_red [OF repw red])
  have dist: "w \<noteq> p" "w \<notin> ctx_set C" "p \<notin> ctx_set C" using repw unfolding tree_rep_plug by auto
  have rep1: "tree_rep s1 (plug C (Node (Node X p a) w b))" using s1(3) by simp
  have "root_black s1"
  proof (cases "C = []")
    case True
    then show ?thesis using rep1 dist by (simp add: tree_rep_def root_black_def s1(4))
  next
    case False
    show ?thesis
      by (rule root_black_upd [OF rb repw rep1 False]) (use dist in \<open>auto simp: s1(4)\<close>)
  qed
  from remove_rest_left [OF s1(3) s1(1) this] obtain n s' T' where r: "remove_fixup_left s p = Some (n, s')"
    "kept s1 s'" "tree_rep s' T'" "inorder T' = inorder (plug (FL w b # C) (Node X p a))" "n \<in> set_tree T'"
    "n = p \<and> root_black s' \<and> (col s1 p = RED \<longrightarrow> col s' p = RED) \<or> n = set_root s'" by blast
  have "inorder T' = inorder (plug C (Node X p W))" using r(4) by (simp add: W)
  moreover have "kept s s'" using s1(2) r(2) by (rule kept_trans)
  moreover have "n = set_root s' \<or> col s' n = RED \<and> root_black s'" using r(6) by (auto simp: s1(4))
  ultimately show ?thesis using r(1,3,5) unfolding round_ok_def by blast
qed

lemma remove_loop_step_left:
  assumes rep: "tree_rep s (plug (FL p W # C) (Node a x b))" and black: "col s x = BLACK"
  shows "remove_fixup_loop s x = do { (n, s') \<leftarrow> remove_fixup_left s p; remove_fixup_loop s' n }"
proof -
  have root: "x \<noteq> set_root s"
  proof
    assume "x = set_root s"
    then have "x \<in> ctx_set (FL p W # C)"
      using tree_root_plug_in [of "FL p W # C" "Node a x b"] rep unfolding tree_rep_plug by simp
    then show False using rep unfolding tree_rep_plug by auto
  qed
  have rep_p: "tree_rep s (plug C (Node (Node a x b) p W))" using rep by simp
  have ne: "x \<noteq> tree_root W"
    using tree_rep_cell(3) [OF rep] rep unfolding tree_rep_plug by (cases W) auto
  show ?thesis
    using tree_rep_node [OF rep] tree_rep_cell(3) [OF rep] tree_rep_node [OF rep_p] root black ne
    by (subst remove_fixup_loop.simps) simp
qed

lemma remove_rest_right:
  assumes rep: "tree_rep s (plug C (Node W p X))" and sib: "remove_sibling_right s0 p = Some (tree_root W, s)"
    and rb: "root_black s"
  shows "\<exists>n s' T'. remove_fixup_right s0 p = Some (n, s') \<and> kept s s' \<and> tree_rep s' T' \<and>
     inorder T' = inorder (plug C (Node W p X)) \<and> n \<in> set_tree T' \<and>
     (n = p \<and> T' = plug C (Node W p X) \<and> root_black s' \<and> (col s p = RED \<longrightarrow> col s' p = RED) \<or>
      n = set_root s')"
proof -
  let ?T = "plug C (Node W p X)"
  have repW: "tree_rep s (plug (FL p X # C) W)" using rep by simp
  consider "child_colors s (tree_root W) = Some (BLACK, BLACK)"
    | a w b lc rc where "W = Node b w a" "child_colors s w = Some (lc, rc)"
      "\<not> (lc = BLACK \<and> rc = BLACK)" "lc = BLACK \<longrightarrow> a \<noteq> Leaf"
  proof (cases W)
    case Leaf
    then show ?thesis using child_colors_rep [OF repW] by (intro that(1)) simp
  next
    case (Node l0 w r0)
    then obtain a b where W: "W = Node b w a" by blast
    have cc: "child_colors s w = Some (root_col (col s) l0, root_col (col s) r0)"
      using child_colors_rep [OF repW] Node by simp
    show ?thesis
    proof (cases "root_col (col s) l0 = BLACK \<and> root_col (col s) r0 = BLACK")
      case True
      then show ?thesis using cc Node by (intro that(1)) simp
    next
      case False
      show ?thesis by (rule that(2) [OF W cc False]) (use False W Node in auto)
    qed
  qed
  then show ?thesis
  proof cases
    case quiet: 1
    obtain s' where s': "(if tree_root W \<noteq> SNIL then set_paint s (tree_root W) RED else Some s) = Some s'"
      "tree_rep s' (plug (FL p X # C) W)" "kept s s'"
      "col s' = (if W = Leaf then col s else (col s)(tree_root W := RED))"
      by (rule paint_sub [OF repW])
    have run: "remove_fixup_right s0 p = Some (p, s')"
      by (simp add: remove_fixup_right_def sib quiet s'(1) del: if_split cong: if_cong)
    have same: "col s' i = col s i" if "i \<in> ctx_set (FL p X # C)" for i
    proof -
      have "i \<notin> set_tree W" using that repW unfolding tree_rep_plug by auto
      then have "W = Leaf \<or> i \<noteq> tree_root W" using tree_root_in [of W] by auto
      then show ?thesis by (auto simp: s'(4))
    qed
    have "root_black s'" by (rule root_black_upd [OF rb repW s'(2)]) (simp_all add: same)
    then show ?thesis using run s'(2,3) same [of p] by (intro exI [of _ p] exI [of _ s'] exI [of _ ?T]) simp
  next
    case turn: (2 a w b lc rc)
    note repw = rep [unfolded turn(1)]
    obtain s1 a' w' b' where s1: "remove_turn_right s p w (lc) = Some (w', s1)" "kept s s1"
      "tree_rep s1 (plug C (Node (Node b' w' a') p X))"
      "inorder (plug C (Node (Node b' w' a') p X)) = inorder (plug C (Node (Node b w a) p X))"
      by (rule remove_turn_right_ok [OF repw turn(4)])
    obtain s2 where s2: "remove_rotate_right s1 p w' = Some s2" "kept s1 s2"
      "tree_rep s2 (plug C (Node b' w' (Node a' p X)))"
      by (rule remove_rotate_right_ok [OF s1(3)])
    let ?T2 = "plug C (Node b' w' (Node a' p X))"
    have run: "remove_fixup_right s0 p = Some (set_root s2, s2)"
      using turn(3) by (auto simp: remove_fixup_right_def sib turn(1,2) s1(1) s2(1))
    have "?T2 \<noteq> Leaf" by (rule plug_Node_nonempty)
    then have "set_root s2 \<in> set_tree ?T2" using tree_root_in [of ?T2] s2(3) by (simp add: tree_rep_def)
    moreover have "kept s s2" using s1(2) s2(2) by (rule kept_trans)
    moreover have "inorder ?T2 = inorder ?T" using s1(4) turn(1) by simp
    ultimately show ?thesis using run s2(3) by blast
  qed
qed

lemma remove_fixup_right_ok:
  assumes rep: "tree_rep s (plug C (Node W p X))" and rb: "root_black s"
  shows "round_ok s p (plug C (Node W p X)) (remove_fixup_right s p)"
proof (cases "root_col (col s) W = BLACK")
  case True
  show ?thesis
    using remove_rest_right [OF rep remove_sibling_right_black [OF rep True] rb] unfolding round_ok_def by blast
next
  case False
  then obtain l0 w r0 where "W = Node l0 w r0" by (cases W) auto
  then obtain a b where W: "W = Node b w a" by blast
  then have red: "col s w = RED" using False by (cases "col s w") simp_all
  note repw = rep [unfolded W]
  obtain s1 where s1: "remove_sibling_right s p = Some (tree_root a, s1)" "kept s s1"
    "tree_rep s1 (plug (FR b w # C) (Node a p X))" "col s1 = (col s)(w := BLACK, p := RED)"
    by (rule remove_sibling_right_red [OF repw red])
  have dist: "w \<noteq> p" "w \<notin> ctx_set C" "p \<notin> ctx_set C" using repw unfolding tree_rep_plug by auto
  have rep1: "tree_rep s1 (plug C (Node b w (Node a p X)))" using s1(3) by simp
  have "root_black s1"
  proof (cases "C = []")
    case True
    then show ?thesis using rep1 dist by (simp add: tree_rep_def root_black_def s1(4))
  next
    case False
    show ?thesis
      by (rule root_black_upd [OF rb repw rep1 False]) (use dist in \<open>auto simp: s1(4)\<close>)
  qed
  from remove_rest_right [OF s1(3) s1(1) this] obtain n s' T' where r: "remove_fixup_right s p = Some (n, s')"
    "kept s1 s'" "tree_rep s' T'" "inorder T' = inorder (plug (FR b w # C) (Node a p X))" "n \<in> set_tree T'"
    "n = p \<and> root_black s' \<and> (col s1 p = RED \<longrightarrow> col s' p = RED) \<or> n = set_root s'" by blast
  have "inorder T' = inorder (plug C (Node W p X))" using r(4) by (simp add: W)
  moreover have "kept s s'" using s1(2) r(2) by (rule kept_trans)
  moreover have "n = set_root s' \<or> col s' n = RED \<and> root_black s'" using r(6) by (auto simp: s1(4))
  ultimately show ?thesis using r(1,3,5) unfolding round_ok_def by blast
qed

lemma remove_loop_step_right:
  assumes rep: "tree_rep s (plug (FR W p # C) (Node a x b))" and black: "col s x = BLACK"
  shows "remove_fixup_loop s x = do { (n, s') \<leftarrow> remove_fixup_right s p; remove_fixup_loop s' n }"
proof -
  have root: "x \<noteq> set_root s"
  proof
    assume "x = set_root s"
    then have "x \<in> ctx_set (FR W p # C)"
      using tree_root_plug_in [of "FR W p # C" "Node a x b"] rep unfolding tree_rep_plug by simp
    then show False using rep unfolding tree_rep_plug by auto
  qed
  have rep_p: "tree_rep s (plug C (Node W p (Node a x b)))" using rep by simp
  have ne: "x \<noteq> tree_root W"
    using tree_rep_cell(3) [OF rep] rep unfolding tree_rep_plug by (cases W) auto
  show ?thesis
    using tree_rep_node [OF rep] tree_rep_cell(3) [OF rep] tree_rep_node [OF rep_p] root black ne
    by (subst remove_fixup_loop.simps) simp
qed

lemma remove_loop_stop:
  assumes rep: "tree_rep s T" and n: "n \<in> set_tree T" "n = set_root s \<or> col s n = RED"
  shows "remove_fixup_loop s n = Some (n, s)"
proof -
  obtain C a b where T: "T = plug C (Node a n b)" using tree_split [OF n(1)] by blast
  show ?thesis
    using tree_rep_node [OF rep [unfolded T]] n(2) by (subst remove_fixup_loop.simps) auto
qed

lemma remove_loop_ok:
  fixes s :: "'a vl_set"
  assumes "tree_rep s (plug C (Node a x b))" and "C = [] \<or> root_black s"
  shows "\<exists>n s' T. remove_fixup_loop s x = Some (n, s') \<and> tree_rep s' T \<and> kept s s' \<and>
    inorder T = inorder (plug C (Node a x b)) \<and> n \<in> set_tree T \<and> (n = set_root s' \<or> root_black s')"
  using assms
proof (induction "length C" arbitrary: s C a x b rule: less_induct)
  case less
  note rep = less.prems(1)
  have ok: "set_ok s" using rep by (simp add: tree_rep_def)
  show ?case
  proof (cases "C = [] \<or> col s x = RED")
    case True
    then have "x = set_root s \<or> col s x = RED" using rep by (auto simp: tree_rep_def)
    then have "remove_fixup_loop s x = Some (x, s)" by (intro remove_loop_stop [OF rep]) simp_all
    moreover have "x = set_root s \<or> root_black s" using less.prems True by (auto simp: tree_rep_def)
    moreover have "x \<in> set_tree (plug C (Node a x b))" by simp
    moreover have "kept s s" using ok by simp
    ultimately show ?thesis using rep by blast
  next
    case False
    then obtain f D where C: "C = f # D" and black: "col s x = BLACK"
      by (cases C) auto
    have rb: "root_black s" using less.prems(2) C by simp
    obtain p l r res where round: "round_ok s p (plug D (Node l p r)) res"
      and T: "plug C (Node a x b) = plug D (Node l p r)"
      and run: "remove_fixup_loop s x = do { (n, s') \<leftarrow> res; remove_fixup_loop s' n }"
    proof (cases f)
      case (FL p W)
      note C' = C [unfolded FL]
      have "tree_rep s (plug D (Node (Node a x b) p W))" using rep unfolding C' by simp
      from remove_fixup_left_ok [OF this rb] show thesis
        by (rule that) (simp_all add: C' remove_loop_step_left [OF rep [unfolded C'] black])
    next
      case (FR W p)
      note C' = C [unfolded FR]
      have "tree_rep s (plug D (Node W p (Node a x b)))" using rep unfolding C' by simp
      from remove_fixup_right_ok [OF this rb] show thesis
        by (rule that) (simp_all add: C' remove_loop_step_right [OF rep [unfolded C'] black])
    qed
    from round obtain n s' T' where r: "res = Some (n, s')" "kept s s'" "tree_rep s' T'"
      "inorder T' = inorder (plug D (Node l p r))" "n \<in> set_tree T'"
      and alt: "n = p \<and> T' = plug D (Node l p r) \<and> root_black s' \<or> n = set_root s' \<or>
        col s' n = RED \<and> root_black s'" unfolding round_ok_def by blast
    show ?thesis
    proof (cases "n = set_root s' \<or> col s' n = RED \<and> root_black s'")
      case True
      then have "remove_fixup_loop s' n = Some (n, s')" using r(3,5) remove_loop_stop by blast
      then show ?thesis using True r run T by (intro exI [of _ n] exI [of _ s'] exI [of _ T']) auto
    next
      case False
      then have n: "n = p" "T' = plug D (Node l p r)" "root_black s'" using alt by auto
      have "length D < length C" by (simp add: C)
      from less.hyps [OF this r(3) [unfolded n(2)]] n(3) obtain m s2 T2 where
        "remove_fixup_loop s' p = Some (m, s2)" "tree_rep s2 T2" "kept s' s2"
        "inorder T2 = inorder (plug D (Node l p r))" "m \<in> set_tree T2" "m = set_root s2 \<or> root_black s2"
        by blast
      moreover from this have "kept s s2" using r(2) kept_trans by blast
      ultimately show ?thesis using run r(1) n(1) T
        by (intro exI [of _ m] exI [of _ s2] exI [of _ T2]) simp
    qed
  qed
qed

lemma vl_SetRemoveFixup_ok:
  assumes "tree_rep s (plug C (Node a x b))" and "C = [] \<or> root_black s"
  shows "\<exists>s' T. vl_SetRemoveFixup s x = Some s' \<and> tree_rep s' T \<and> kept s s' \<and>
    inorder T = inorder (plug C (Node a x b)) \<and> root_black s'"
proof -
  obtain n s1 T where r: "remove_fixup_loop s x = Some (n, s1)" "tree_rep s1 T" "kept s s1"
    "inorder T = inorder (plug C (Node a x b))" "n \<in> set_tree T" "n = set_root s1 \<or> root_black s1"
    using remove_loop_ok [OF assms] by blast
  obtain s2 where p: "set_paint s1 n BLACK = Some s2" "tree_rep s2 T" "kept s1 s2"
    "col s2 = (col s1)(n := BLACK)" by (rule tree_rep_paint [OF r(2,5)])
  have "n \<noteq> SNIL" using r(2,5) SNIL_fresh [of s1] by (auto simp: tree_rep_def)
  then have "vl_SetRemoveFixup s x = Some s2" by (simp add: vl_SetRemoveFixup_def r(1) p(1))
  moreover have "set_root s2 = set_root s1" using r(2) p(2) by (simp add: tree_rep_def)
  then have "root_black s2" using r(6) by (auto simp: root_black_def p(4))
  moreover have "kept s s2" using r(3) p(3) by (rule kept_trans)
  ultimately show ?thesis using p(2) r(4) by blast
qed

section \<open>Taking a node out of the tree\<close>

lemma remove_splice_ok:
  assumes rep: "tree_rep s (plug C (Node a y b))" and one: "a = Leaf \<and> X = b \<or> b = Leaf \<and> X = a"
  obtains s' where "remove_splice s y = Some (tree_root X, s')" "tree_rep s' (plug C X)" "kept s s'"
    "col s' = col s" "cell s' y = cell s y"
proof -
  note R = rep [unfolded tree_rep_plug]
  note cy = tree_rep_cell [OF rep]
  have X: "set_tree X \<subseteq> set_live s" "tree_at (cell s) y X" "distinct (inorder X)"
    "y \<notin> set_tree X" "ctx_set C \<inter> set_tree X = {}"
    using R one by auto
  have root: "(if tree_root a \<noteq> SNIL then tree_root a else tree_root b) = tree_root X"
    using one tree_root_nil [OF cy(4), of a] R by auto
  define s1 where "s1 = set_reparent s X (ctx_parent C)"
  note r = set_reparent [OF cy(4) X(1-3), where p = "ctx_parent C", folded s1_def]
  have s1: "set_ok s1" "set_live s1 = set_live s" using r(2) by (simp_all add: kept_def)
  have out: "cell s1 i = cell s i" if "i \<notin> set_tree X" for i
  proof -
    have "i \<noteq> tree_root X \<or> i \<notin> set_live s"
      using that tree_root_in [of X] SNIL_fresh [OF cy(4)] by (cases X) auto
    then show ?thesis by (rule r(6))
  qed
  have at: "ctx_at (cell s1) C y" by (rule ctx_at_cong [of "cell s"]) (use R X(5) out in auto)
  have C: "ctx_set C \<subseteq> set_live s1" "ctx_ok C" "y \<notin> ctx_set C" using R s1(2) by auto
  define s2 where "s2 = set_relink s1 C (tree_root X)"
  note l = set_relink [OF s1(1) C(1) at C(2,3) cy(3), where j = "tree_root X", folded s2_def]
  have flip: "(y = sn_left n) = (sn_left n = y)" for n :: "'a vl_set_node" by auto
  have far: "cell s2 i = cell s1 i" if "i \<notin> ctx_set C" for i
  proof -
    have "i \<noteq> ctx_parent C \<or> i \<notin> set_live s1"
      using that ctx_parent_in [of C] SNIL_fresh [OF s1(1)] by (cases "C = []") auto
    then show ?thesis by (rule l(7))
  qed
  then have "cell s2 i = cell s1 i" if "i \<in> set_tree X" for i using that X(5) by auto
  then have tX: "tree_at (cell s2) (ctx_parent C) X" using r(5) by (rule tree_at_cong [rotated])
  have s2: "set_ok s2" "set_live s2 = set_live s" using l(3) s1 by (simp_all add: kept_def)
  have "set_root s2 = tree_root (plug C X)"
    using l(5) r(4) R tree_root_plug [of C X "Node a y b"] by simp
  then have "tree_rep s2 (plug C X)" unfolding tree_rep_plug using s2 R X l(6) tX by auto
  moreover have "remove_splice s y = Some (tree_root X, s2)"
    unfolding remove_splice_def
    by (simp add: tree_rep_node [OF rep] root r(1) flip l(1) del: if_split cong: if_cong)
  moreover have "kept s s2" using r(2) l(3) by (rule kept_trans)
  moreover have "cell s2 y = cell s y" using far [OF C(3)] out [OF X(4)] by simp
  ultimately show thesis using that r(3) l(4) by simp
qed

text \<open>A node outside the tree takes the place of one in the tree.\<close>

lemma remove_replace_ok:
  assumes rep: "tree_rep s (plug C (Node l z r))" and y: "y \<in> set_live s" "y \<notin> set_tree (plug C (Node l z r))"
    and cy: "cell s y = Some v"
  obtains s1 s' w where "remove_replace s z y = Some s'" "tree_rep s' (plug C (Node l y r))"
    "s1 = set_put s z w" "elt s1 = (elt s)(z := elt s y)" "kept s1 s'" "col s' = (col s)(y := col s z)"
    "z \<in> set_live s" "set_ok s"
proof -
  note R = rep [unfolded tree_rep_plug]
  note cz = tree_rep_cell [OF rep]
  have Rt: "tree_at (cell s) z l" "tree_at (cell s) z r" using R by simp_all
  have yn: "y \<noteq> SNIL" "y \<noteq> z" "y \<notin> ctx_set C" "y \<notin> set_tree l" "y \<notin> set_tree r"
    using y SNIL_fresh [OF cz(4)] by auto
  have zn: "z \<notin> set_tree l" "z \<notin> set_tree r" "z \<notin> ctx_set C" using R by auto
  let ?w = "\<lparr>sn_color = col s z, sn_parent = ctx_parent C, sn_left = tree_root l,
      sn_right = tree_root r, sn_elem = sn_elem v\<rparr>"
  define s1 where "s1 = set_put s z ?w"
  have s1: "set_ok s1" "set_live s1 = set_live s" "cell s1 = (cell s)(z := Some ?w)"
    "set_root s1 = set_root s"
    using cz by (simp_all add: s1_def)
  have ev: "elt s y = sn_elem v" using cy by (simp add: elt_def)
  have elt1: "elt s1 = (elt s)(z := elt s y)" using s1(3) ev by (auto simp: elt_def)
  have col1: "col s1 = col s" using cz by (simp add: s1_def col_put_same)
  have m1: "set_modify s z (\<lambda>n. n\<lparr>sn_elem := sn_elem v\<rparr>) = Some s1"
    using cz by (simp add: s1_def)
  have g1: "vl_SetGetNodeAt s1 z = Some ?w" using cz(3) s1(3) by (simp add: vl_SetGetNodeAt_cell)
  have gy: "vl_SetGetNodeAt s y = Some v" using yn(1) cy by (simp add: vl_SetGetNodeAt_cell)
  define s2 where "s2 = set_put s1 y ?w"
  have cy1: "cell s1 y = Some v" using s1(3) cy yn(2) by simp
  have m2: "set_modify s1 y (\<lambda>n. n\<lparr>sn_parent := ctx_parent C, sn_left := tree_root l,
      sn_right := tree_root r, sn_color := col s z\<rparr>) = Some s2"
    using s1 y cy1 by (cases v) (simp add: s2_def)
  have s2: "set_ok s2" "set_live s2 = set_live s" "cell s2 = (cell s1)(y := Some ?w)"
    "set_root s2 = set_root s" "kept s1 s2" "col s2 = (col s)(y := col s z)"
    using s1 y cy1 col1 by (simp_all add: s2_def kept_put col_put)
  have out2: "cell s2 i = cell s i" if "i \<noteq> z" "i \<noteq> y" for i using that s1(3) s2(3) by simp
  have at2: "ctx_at (cell s2) C z"
  proof (rule ctx_at_cong [of "cell s"])
    show "ctx_at (cell s) C z" using R by simp
    show "cell s2 i = cell s i" if "i \<in> ctx_set C" for i
      by (rule out2) (use that zn(3) yn(3) in auto)
  qed
  have C: "ctx_set C \<subseteq> set_live s2" "ctx_ok C" using R s2(2) by auto
  define s3 where "s3 = set_relink s2 C y"
  note k = set_relink [OF s2(1) C(1) at2 C(2) zn(3) cz(3), where j = y, folded s3_def]
  have s3: "set_ok s3" "set_live s3 = set_live s" using k(3) s2 by (simp_all add: kept_def)
  have out3: "cell s3 i = cell s2 i" if "i \<notin> ctx_set C" for i
  proof -
    have "i \<noteq> ctx_parent C \<or> i \<notin> set_live s2"
      using that ctx_parent_in [of C] SNIL_fresh [OF s2(1)] by (cases "C = []") auto
    then show ?thesis by (rule k(7))
  qed
  have lr: "set_tree l \<subseteq> set_live s3" "set_tree r \<subseteq> set_live s" "distinct (inorder l)" "distinct (inorder r)"
    "ctx_set C \<inter> set_tree l = {}" "ctx_set C \<inter> set_tree r = {}" "set_tree l \<inter> set_tree r = {}"
    using R s3(2) by auto
  have "cell s3 i = cell s i" if "i \<in> set_tree l" for i
  proof -
    have "i \<notin> ctx_set C" "i \<noteq> z" "i \<noteq> y" using that lr(5) zn(1) yn(4) by auto
    then show ?thesis using out3 out2 by simp
  qed
  then have tl: "tree_at (cell s3) z l" by (rule tree_at_cong [OF Rt(1)])
  define s4 where "s4 = set_reparent s3 l y"
  note p = set_reparent [OF s3(1) lr(1) tl lr(3), where p = y, folded s4_def]
  have s4: "set_ok s4" "set_live s4 = set_live s" using p(2) s3 by (simp_all add: kept_def)
  have out4: "cell s4 i = cell s3 i" if "i \<notin> set_tree l" for i
  proof -
    have "i \<noteq> tree_root l \<or> i \<notin> set_live s3"
      using that tree_root_in [of l] SNIL_fresh [OF s3(1)] by (cases l) auto
    then show ?thesis by (rule p(6))
  qed
  have "cell s4 i = cell s i" if "i \<in> set_tree r" for i
  proof -
    have "i \<notin> ctx_set C" "i \<notin> set_tree l" "i \<noteq> z" "i \<noteq> y" using that lr(6,7) zn(2) yn(5) by auto
    then show ?thesis using out4 out3 out2 by simp
  qed
  then have tr: "tree_at (cell s4) z r" by (rule tree_at_cong [OF Rt(2)])
  have lr4: "set_tree r \<subseteq> set_live s4" using lr s4 by simp
  define s5 where "s5 = set_reparent s4 r y"
  note q = set_reparent [OF s4(1) lr4 tr lr(4), where p = y, folded s5_def]
  have s5: "set_ok s5" "set_live s5 = set_live s" using q(2) s4 by (simp_all add: kept_def)
  have out5: "cell s5 i = cell s4 i" if "i \<notin> set_tree r" for i
  proof -
    have "i \<noteq> tree_root r \<or> i \<notin> set_live s4"
      using that tree_root_in [of r] SNIL_fresh [OF s4(1)] by (cases r) auto
    then show ?thesis by (rule q(6))
  qed
  have cy5: "cell s5 y = Some ?w" using out5 [of y] out4 [of y] out3 [of y] yn s2(3) by simp
  have "ctx_at (cell s5) C y"
  proof (rule ctx_at_cong [OF k(6)])
    fix i
    assume "i \<in> ctx_set C"
    then have "i \<notin> set_tree l" "i \<notin> set_tree r" using lr(5,6) by auto
    then show "cell s5 i = cell s3 i" using out5 out4 by simp
  qed
  moreover have "tree_at (cell s5) y l"
    by (rule tree_at_cong [OF p(5)], rule out5) (use lr in auto)
  moreover have "set_root s5 = tree_root (plug C (Node l y r))"
    using q(4) p(4) k(5) s2(4) R tree_root_plug [of C "Node l z r" "Node l y r"] by auto
  ultimately have rep5: "tree_rep s5 (plug C (Node l y r))"
    unfolding tree_rep_plug using s5 R yn y(1) cy5 q(5) by auto
  have flip: "(z = sn_left n) = (sn_left n = z)" for n :: "'a vl_set_node" by auto
  have run: "remove_replace s z y = Some s5"
    unfolding remove_replace_def
    by (simp add: gy m1 g1 m2 flip k(1) p(1) q(1) del: if_split cong: if_cong)
  have "kept s1 s5" using s2(5) k(3) p(2) q(2) by (meson kept_trans)
  moreover have "col s5 = (col s)(y := col s z)" using s2(6) k(4) p(3) q(3) by simp
  ultimately show thesis using that [of s5 s1 ?w] run rep5 s1_def elt1 cz by blast
qed

end
