(* ===== verification/VL_SetOrder.thy ===== *)
theory VL_SetOrder
  imports VL_SetShape
begin

text \<open>
  What the operations of a set do to its elements: the iterators of a set are those of its
  tree from left to right, and the elements behind them are strictly increasing for the
  comparison function of the set.
\<close>

section \<open>The tree, the iterators and the elements of a set\<close>

partial_function (option) set_tree_of :: "'a vl_set \<Rightarrow> vl_set_iter \<Rightarrow> vl_set_iter tree option" where
  [code]: "set_tree_of s i =
     (if i = VL_SET_ITER_INVALID then Some Leaf
      else do {
        n \<leftarrow> vl_SetGetNodeAt s i;
        l \<leftarrow> set_tree_of s (sn_left n);
        r \<leftarrow> set_tree_of s (sn_right n);
        Some (Node l i r)
      })"

definition set_shape :: "'a vl_set \<Rightarrow> vl_set_iter tree" where
  "set_shape s = the (set_tree_of s (set_root s))"

definition set_iters :: "'a vl_set \<Rightarrow> vl_set_iter list" where
  "set_iters s = inorder (set_shape s)"

definition set_contents :: "'a vl_set \<Rightarrow> 'a list" where
  "set_contents s = map (\<lambda>i. the (vlSetSample s i)) (set_iters s)"

definition set_inv :: "'a vl_set \<Rightarrow> bool" where
  "set_inv s \<longleftrightarrow> tree_rep s (set_shape s) \<and> set_live s = set (set_iters s) \<and>
     sorted_wrt (\<lambda>a b. set_comparator s a b < 0) (set_contents s) \<and> root_black s \<and>
     set_totalElements s = u32_of (length (set_iters s))"

definition set_balanced :: "'a vl_set \<Rightarrow> bool" where
  "set_balanced s = red_black (col s) (set_shape s)"

lemma set_tree_of_rep:
  "tree_at (cell s) p t \<Longrightarrow> set_ok s \<Longrightarrow> set_tree t \<subseteq> set_live s \<Longrightarrow> set_tree_of s (tree_root t) = Some t"
proof (induction t arbitrary: p)
  case Leaf
  then show ?case by (simp add: set_tree_of.simps [of s SNIL])
next
  case (Node l x r)
  have "x \<noteq> SNIL" using Node.prems SNIL_fresh [of s] by auto
  then show ?case using Node by (auto simp: set_tree_of.simps [of s x] vl_SetGetNodeAt_cell)
qed

lemma set_shape_rep: "tree_rep s T \<Longrightarrow> set_shape s = T"
  unfolding set_shape_def tree_rep_def using set_tree_of_rep [of s SNIL T] by simp

lemma set_iters_rep: "tree_rep s T \<Longrightarrow> set_iters s = inorder T"
  by (simp add: set_iters_def set_shape_rep)

lemma set_invD:
  assumes "set_inv s"
  shows "tree_rep s (set_shape s)" and "set_live s = set_tree (set_shape s)" and "root_black s"
    and "distinct (set_iters s)" and "set_ok s"
  using assms by (simp_all add: set_inv_def set_iters_def tree_rep_def)

lemma vlSetSample_elt:
  assumes "tree_rep s T" and "i \<in> set_tree T"
  shows "vlSetSample s i = Some (elt s i)"
proof -
  obtain C a b where "T = plug C (Node a i b)" using tree_split [OF assms(2)] by blast
  then show ?thesis using tree_rep_node [of s C a i b] assms(1) by (simp add: vlSetSample_def)
qed

lemma set_contents_rep: "tree_rep s T \<Longrightarrow> set_contents s = map (elt s) (inorder T)"
  by (simp add: set_contents_def set_iters_rep vlSetSample_elt)

lemma set_inv_rep:
  assumes "tree_rep s T"
  shows "set_inv s \<longleftrightarrow> set_live s = set_tree T \<and>
    sorted_wrt (\<lambda>i j. set_comparator s (elt s i) (elt s j) < 0) (inorder T) \<and> root_black s \<and>
    set_totalElements s = u32_of (size T)"
  using assms
  by (auto simp: set_inv_def set_shape_rep set_iters_rep set_contents_rep sorted_wrt_map)

section \<open>Walking\<close>

lemma set_leftmost_rep:
  "tree_rep s (plug C (Node l x r)) \<Longrightarrow>
   set_leftmost s x = Some (hd_or (inorder (Node l x r)) SNIL)"
proof (induction l arbitrary: C x r)
  case Leaf
  then show ?case
    using tree_rep_node [OF Leaf] by (simp add: set_leftmost.simps [of s x])
next
  case (Node a y b)
  have rep: "tree_rep s (plug (FL x r # C) (Node a y b))" using Node.prems by simp
  have "set_leftmost s y = Some (hd_or (inorder (Node a y b)) SNIL)"
    using rep by (rule Node.IH(1))
  then show ?case
    using tree_rep_node [OF Node.prems] tree_rep_cell(3) [OF rep] by (simp add: set_leftmost.simps [of s x])
qed

lemma vlSetFront_rep: "tree_rep s T \<Longrightarrow> vlSetFront s = Some (hd_or (inorder T) SNIL)"
proof (cases T)
  case (Node l x r)
  then obtain l' r' where T: "T = Node l' x r'" by blast
  assume rep: "tree_rep s T"
  then have rep': "tree_rep s (plug [] (Node l' x r'))" using T by simp
  show ?thesis
    using set_leftmost_rep [OF rep'] tree_rep_cell(3) [OF rep'] T rep
    by (simp add: vlSetFront_def tree_rep_def)
qed (simp add: tree_rep_def vlSetFront_def)

lemma next_ascend_rep:
  "tree_rep s (plug C t) \<Longrightarrow> t \<noteq> Leaf \<Longrightarrow> C \<noteq> [] \<Longrightarrow>
   next_ascend s (tree_root t) (ctx_parent C) = Some (hd_or (ctx_right C) SNIL)"
proof (induction C arbitrary: t)
  case (Cons f C)
  have it: "tree_root t \<in> set_tree t" using Cons.prems(2) by (rule tree_root_in)
  show ?case
  proof (cases f)
    case frm: (FL x r)
    then have rep: "tree_rep s (plug C (Node t x r))" using Cons.prems(1) by simp
    have "tree_root r \<noteq> tree_root t"
    proof (cases r)
      case Leaf
      then show ?thesis using it rep SNIL_fresh [of s] unfolding tree_rep_plug by auto
    next
      case (Node a y b)
      then show ?thesis using it rep unfolding tree_rep_plug by auto
    qed
    then show ?thesis
      using tree_rep_node [OF rep] frm by (simp add: next_ascend.simps [of s "tree_root t"])
  next
    case frm: (FR l x)
    then have rep: "tree_rep s (plug C (Node l x t))" using Cons.prems(1) by simp
    show ?thesis
    proof (cases "C = []")
      case True
      then show ?thesis
        using tree_rep_node [OF rep] frm by (simp add: next_ascend.simps [of s "tree_root t"])
    next
      case False
      have "next_ascend s (tree_root (Node l x t)) (ctx_parent C) = Some (hd_or (ctx_right C) SNIL)"
        using rep _ False by (rule Cons.IH) simp
      then show ?thesis
        using tree_rep_node [OF rep] frm ctx_parent_nil [OF rep] False
        by (simp add: next_ascend.simps [of s "tree_root t"])
    qed
  qed
qed simp

lemma vlSetNext_rep:
  assumes rep: "tree_rep s (plug C (Node l x r))"
  shows "vlSetNext s x = Some (hd_or (inorder r @ ctx_right C) SNIL)"
proof (cases "r = Leaf")
  case False
  then obtain a0 y b0 where "r = Node a0 y b0" by (cases r) auto
  then obtain a b where r: "r = Node a y b" by blast
  have rep': "tree_rep s (plug (FR l x # C) (Node a y b))" using rep r by simp
  show ?thesis
    using tree_rep_node [OF rep] tree_rep_cell(3) [OF rep] tree_rep_cell(3) [OF rep']
      set_leftmost_rep [OF rep'] r
    by (simp add: vlSetNext_def)
next
  case True
  show ?thesis
  proof (cases "C = []")
    case False
    then have asc: "next_ascend s x (ctx_parent C) = Some (hd_or (ctx_right C) SNIL)"
      using next_ascend_rep [OF rep] by simp
    have nil: "ctx_parent C \<noteq> SNIL" using ctx_parent_nil [OF rep] False by simp
    obtain f D where C: "C = f # D" using False by (cases C) auto
    show ?thesis
    proof (cases f)
      case frm: (FL p q)
      then have rep': "tree_rep s (plug D (Node (Node l x r) p q))" using rep C by simp
      show ?thesis
        using tree_rep_node [OF rep] tree_rep_cell(3) [OF rep] tree_rep_node [OF rep'] nil True C frm
        by (simp add: vlSetNext_def)
    next
      case frm: (FR q p)
      then have rep': "tree_rep s (plug D (Node q p (Node l x r)))" using rep C by simp
      have "tree_root q \<noteq> x"
        using tree_rep_cell(3) [OF rep] rep' unfolding tree_rep_plug by (cases q) auto
      then show ?thesis
        using tree_rep_node [OF rep] tree_rep_cell(3) [OF rep] tree_rep_node [OF rep'] nil True asc C frm
        by (simp add: vlSetNext_def)
    qed
  next
    case none: True
    show ?thesis
      using tree_rep_node [OF rep] tree_rep_cell(3) [OF rep] none True by (simp add: vlSetNext_def)
  qed
qed

lemma set_rightmost_rep:
  "tree_rep s (plug C (Node r x l)) \<Longrightarrow>
   set_rightmost s x = Some (last_or (inorder (Node r x l)) SNIL)"
proof (induction l arbitrary: C x r)
  case Leaf
  then show ?case
    using tree_rep_node [OF Leaf] by (simp add: set_rightmost.simps [of s x])
next
  case (Node b y a)
  have rep: "tree_rep s (plug (FR r x # C) (Node b y a))" using Node.prems by simp
  have "set_rightmost s y = Some (last_or (inorder (Node b y a)) SNIL)"
    using rep by (rule Node.IH(2))
  then show ?case
    using tree_rep_node [OF Node.prems] tree_rep_cell(3) [OF rep] by (simp add: set_rightmost.simps [of s x])
qed

lemma vlSetBack_rep: "tree_rep s T \<Longrightarrow> vlSetBack s = Some (last_or (inorder T) SNIL)"
proof (cases T)
  case (Node l x r)
  then obtain l' r' where T: "T = Node r' x l'" by blast
  assume rep: "tree_rep s T"
  then have rep': "tree_rep s (plug [] (Node r' x l'))" using T by simp
  show ?thesis
    using set_rightmost_rep [OF rep'] tree_rep_cell(3) [OF rep'] T rep
    by (simp add: vlSetBack_def tree_rep_def)
qed (simp add: tree_rep_def vlSetBack_def)

lemma prev_ascend_rep:
  "tree_rep s (plug C t) \<Longrightarrow> t \<noteq> Leaf \<Longrightarrow> C \<noteq> [] \<Longrightarrow>
   prev_ascend s (tree_root t) (ctx_parent C) = Some (last_or (ctx_left C) SNIL)"
proof (induction C arbitrary: t)
  case (Cons f C)
  have it: "tree_root t \<in> set_tree t" using Cons.prems(2) by (rule tree_root_in)
  show ?case
  proof (cases f)
    case frm: (FR r x)
    then have rep: "tree_rep s (plug C (Node r x t))" using Cons.prems(1) by simp
    have "tree_root r \<noteq> tree_root t"
    proof (cases r)
      case Leaf
      then show ?thesis using it rep SNIL_fresh [of s] unfolding tree_rep_plug by auto
    next
      case (Node a y b)
      then show ?thesis using it rep unfolding tree_rep_plug by auto
    qed
    then show ?thesis
      using tree_rep_node [OF rep] frm by (simp add: prev_ascend.simps [of s "tree_root t"])
  next
    case frm: (FL x l)
    then have rep: "tree_rep s (plug C (Node t x l))" using Cons.prems(1) by simp
    show ?thesis
    proof (cases "C = []")
      case True
      then show ?thesis
        using tree_rep_node [OF rep] frm by (simp add: prev_ascend.simps [of s "tree_root t"])
    next
      case False
      have "prev_ascend s (tree_root (Node t x l)) (ctx_parent C) = Some (last_or (ctx_left C) SNIL)"
        using rep _ False by (rule Cons.IH) simp
      then show ?thesis
        using tree_rep_node [OF rep] frm ctx_parent_nil [OF rep] False
        by (simp add: prev_ascend.simps [of s "tree_root t"])
    qed
  qed
qed simp

lemma vlSetPrev_rep:
  assumes rep: "tree_rep s (plug C (Node r x l))"
  shows "vlSetPrev s x = Some (last_or (ctx_left C @ inorder r) SNIL)"
proof (cases "r = Leaf")
  case False
  then obtain a0 y b0 where "r = Node a0 y b0" by (cases r) auto
  then obtain a b where r: "r = Node b y a" by blast
  have rep': "tree_rep s (plug (FL x l # C) (Node b y a))" using rep r by simp
  show ?thesis
    using tree_rep_node [OF rep] tree_rep_cell(3) [OF rep] tree_rep_cell(3) [OF rep']
      set_rightmost_rep [OF rep'] r
    by (simp add: vlSetPrev_def)
next
  case True
  show ?thesis
  proof (cases "C = []")
    case False
    then have asc: "prev_ascend s x (ctx_parent C) = Some (last_or (ctx_left C) SNIL)"
      using prev_ascend_rep [OF rep] by simp
    have nil: "ctx_parent C \<noteq> SNIL" using ctx_parent_nil [OF rep] False by simp
    obtain f D where C: "C = f # D" using False by (cases C) auto
    show ?thesis
    proof (cases f)
      case frm: (FR q p)
      then have rep': "tree_rep s (plug D (Node q p (Node r x l)))" using rep C by simp
      show ?thesis
        using tree_rep_node [OF rep] tree_rep_cell(3) [OF rep] tree_rep_node [OF rep'] nil True C frm
        by (simp add: vlSetPrev_def)
    next
      case frm: (FL p q)
      then have rep': "tree_rep s (plug D (Node (Node r x l) p q))" using rep C by simp
      have "tree_root q \<noteq> x"
        using tree_rep_cell(3) [OF rep] rep' unfolding tree_rep_plug by (cases q) auto
      then show ?thesis
        using tree_rep_node [OF rep] tree_rep_cell(3) [OF rep] tree_rep_node [OF rep'] nil True asc C frm
        by (simp add: vlSetPrev_def)
    qed
  next
    case none: True
    show ?thesis
      using tree_rep_node [OF rep] tree_rep_cell(3) [OF rep] none True by (simp add: vlSetPrev_def)
  qed
qed

section \<open>Finding\<close>

abbreviation set_less :: "'a vl_set \<Rightarrow> vl_set_iter \<Rightarrow> vl_set_iter \<Rightarrow> bool" where
  "set_less s i j \<equiv> set_comparator s (elt s i) (elt s j) < 0"

lemma find_loop_rep:
  assumes "ordering_comparator (set_comparator s)"
  shows "tree_rep s (plug C t) \<Longrightarrow> sorted_wrt (set_less s) (inorder t) \<Longrightarrow>
   set_find_loop s e (tree_root t) =
     Some (hd_or (filter (\<lambda>i. set_comparator s (elt s i) e = 0) (inorder t)) SNIL)"
proof (induction t arbitrary: C)
  case Leaf
  then show ?case by (simp add: set_find_loop.simps [of s e SNIL])
next
  case (Node l x r)
  note cmp_less_le_trans = ordering_comparator.cmp_less_le_trans [OF assms]
    and cmp_le_less_trans = ordering_comparator.cmp_le_less_trans [OF assms]
    and cmp_sign = ordering_comparator.cmp_sign [OF assms]
  let ?c = "\<lambda>i. set_comparator s (elt s i) e"
  have repl: "tree_rep s (plug (FL x r # C) l)" and repr: "tree_rep s (plug (FR l x # C) r)"
    using Node.prems(1) by simp_all
  have lt: "\<And>i. i \<in> set_tree l \<Longrightarrow> set_less s i x" "\<And>i. i \<in> set_tree r \<Longrightarrow> set_less s x i"
    and srt: "sorted_wrt (set_less s) (inorder l)" "sorted_wrt (set_less s) (inorder r)"
    using Node.prems(2) by (auto simp: sorted_wrt_append)
  have low: "filter (\<lambda>i. ?c i = 0) (inorder l) = []" if "?c x \<le> 0"
    using cmp_less_le_trans [OF lt(1) that] by (force simp: filter_empty_conv)
  have high: "filter (\<lambda>i. ?c i = 0) (inorder r) = []" if "0 \<le> ?c x"
  proof -
    have "set_comparator s e (elt s x) \<le> 0" using that cmp_sign [of e "elt s x"] by linarith
    then have "set_comparator s e (elt s i) < 0" if "i \<in> set_tree r" for i
      using cmp_le_less_trans lt(2) [OF that] by blast
    then show ?thesis using cmp_sign by (force simp: filter_empty_conv)
  qed
  have "set_find_loop s e x = (if ?c x = 0 then Some x
      else set_find_loop s e (if 0 < ?c x then tree_root l else tree_root r))"
    using tree_rep_node [OF Node.prems(1)] tree_rep_cell(3) [OF Node.prems(1)]
    by (simp add: set_find_loop.simps [of s e x])
  then show ?case
    using Node.IH(1) [OF repl srt(1)] Node.IH(2) [OF repr srt(2)] low high by auto
qed

lemma vlSetFind_rep:
  assumes "ordering_comparator (set_comparator s)" and "set_inv s"
  shows "vlSetFind s e =
    Some (hd_or (filter (\<lambda>i. set_comparator s (elt s i) e = 0) (set_iters s)) SNIL)"
proof -
  have rep: "tree_rep s (plug [] (set_shape s))" using set_invD(1) [OF assms(2)] by simp
  have "sorted_wrt (set_less s) (inorder (set_shape s))"
    using assms(2) set_inv_rep [OF set_invD(1) [OF assms(2)]] by simp
  from find_loop_rep [OF assms(1) rep this, of e] show ?thesis
    using rep tree_rep_sub_root [OF rep] by (auto simp: vlSetFind_def set_iters_def tree_rep_def)
qed

section \<open>Inserting\<close>

text \<open>
  Where \<^const>\<open>insert_descend\<close> ends: at an equivalent element, or beside a missing child between
  the elements below and those above.
\<close>

definition descends_to :: "'a vl_set \<Rightarrow> 'a \<Rightarrow> vl_set_iter tree \<Rightarrow> (vl_set_iter + vl_set_iter \<times> bool) \<Rightarrow> bool" where
  "descends_to s e T res = (case res of
     Inl i \<Rightarrow> i \<in> set_tree T \<and> set_comparator s (elt s i) e = 0
   | Inr (p, goLeft) \<Rightarrow> \<exists>F E. T = plug (F # E) Leaf \<and>
       (if goLeft then \<exists>r. F = FL p r else \<exists>l. F = FR l p) \<and>
       (\<forall>i \<in> set (ctx_left (F # E)). set_comparator s (elt s i) e < 0) \<and>
       (\<forall>i \<in> set (ctx_right (F # E)). 0 < set_comparator s (elt s i) e))"

lemma insert_descend_rep:
  assumes "ordering_comparator (set_comparator s)"
  shows "tree_rep s (plug C t) \<Longrightarrow> t \<noteq> Leaf \<Longrightarrow> sorted_wrt (set_less s) (inorder t) \<Longrightarrow>
   \<forall>i \<in> set (ctx_left C). set_comparator s (elt s i) e < 0 \<Longrightarrow>
   \<forall>i \<in> set (ctx_right C). 0 < set_comparator s (elt s i) e \<Longrightarrow>
   \<exists>res. insert_descend s e (tree_root t) = Some res \<and> descends_to s e (plug C t) res"
proof (induction t arbitrary: C)
  case (Node l x r)
  note cmp_less_trans = ordering_comparator.cmp_less_trans [OF assms]
    and cmp_sign = ordering_comparator.cmp_sign [OF assms]
  let ?c = "\<lambda>i. set_comparator s (elt s i) e"
  have smp: "vlPoolSample (set_nodePool s) x = Some \<lparr>sn_color = col s x, sn_parent = ctx_parent C,
      sn_left = tree_root l, sn_right = tree_root r, sn_elem = elt s x\<rparr>"
    using tree_rep_cell(1) [OF Node.prems(1)] by (simp add: cell_def)
  have repl: "tree_rep s (plug (FL x r # C) l)" and repr: "tree_rep s (plug (FR l x # C) r)"
    using Node.prems(1) by simp_all
  have lt: "\<And>i. i \<in> set_tree l \<Longrightarrow> set_less s i x" "\<And>i. i \<in> set_tree r \<Longrightarrow> set_less s x i"
    and srt: "sorted_wrt (set_less s) (inorder l)" "sorted_wrt (set_less s) (inorder r)"
    using Node.prems(3) by (auto simp: sorted_wrt_append)
  have step: "insert_descend s e x = (if ?c x = 0 then Some (Inl x)
      else let nextIter = (if 0 < ?c x then tree_root l else tree_root r) in
        if nextIter \<noteq> SNIL then insert_descend s e nextIter else Some (Inr (x, 0 < ?c x)))"
    by (simp add: insert_descend.simps [of s e x] smp Let_def)
  consider "?c x = 0" | "0 < ?c x" | "?c x < 0" by linarith
  then show ?case
  proof cases
    case 1
    then show ?thesis by (simp add: step descends_to_def)
  next
    case 2
    have "0 < ?c i" if "i \<in> set_tree r" for i
      using 2 lt(2) [OF that] cmp_less_trans cmp_sign by meson
    then have ctx: "\<forall>i \<in> set (ctx_left (FL x r # C)). ?c i < 0" "\<forall>i \<in> set (ctx_right (FL x r # C)). 0 < ?c i"
      using Node.prems(4,5) 2 by auto
    show ?thesis
    proof (cases "l = Leaf")
      case True
      have "descends_to s e (plug C (Node l x r)) (Inr (x, True))"
        unfolding descends_to_def using ctx True by (auto intro!: exI [of _ "FL x r"] exI [of _ C])
      then show ?thesis using 2 True by (simp add: step)
    next
      case False
      then show ?thesis
        using Node.IH(1) [OF repl False srt(1) ctx] 2 tree_rep_sub_root [OF repl] by (simp add: step)
    qed
  next
    case 3
    have "?c i < 0" if "i \<in> set_tree l" for i
      using lt(1) [OF that] 3 by (rule cmp_less_trans)
    then have ctx: "\<forall>i \<in> set (ctx_left (FR l x # C)). ?c i < 0" "\<forall>i \<in> set (ctx_right (FR l x # C)). 0 < ?c i"
      using Node.prems(4,5) 3 by auto
    show ?thesis
    proof (cases "r = Leaf")
      case True
      have "descends_to s e (plug C (Node l x r)) (Inr (x, False))"
        unfolding descends_to_def using ctx True by (auto intro!: exI [of _ "FR l x"] exI [of _ C])
      then show ?thesis using 3 True by (simp add: step)
    next
      case False
      then show ?thesis
        using Node.IH(2) [OF repr False srt(2) ctx] 3 tree_rep_sub_root [OF repr] by (simp add: step)
    qed
  qed
qed simp

text \<open>A new node in the pool of a set.\<close>

lemma set_take_store:
  assumes "set_ok s" and "pool_ready (set_nodePool s)"
  obtains i p1 p2 where "vlPoolTake (set_nodePool s) = Some (i, p1)" "vlPoolStore p1 i v = Some p2"
    "set_ok (s\<lparr>set_nodePool := p2\<rparr>)" "i \<notin> set_live s" "set_live (s\<lparr>set_nodePool := p2\<rparr>) = insert i (set_live s)"
    "cell (s\<lparr>set_nodePool := p2\<rparr>) i = Some v" "i \<noteq> SNIL"
    "\<And>j. j \<in> set_live s \<Longrightarrow> cell (s\<lparr>set_nodePool := p2\<rparr>) j = cell s j"
    "pool_room (set_nodePool s) - 1 \<le> pool_room p2"
    "\<And>n. pool_can_return (set_nodePool s) n \<Longrightarrow> pool_can_return p2 n"
proof -
  obtain i p1 p2 where t: "vlPoolTake (set_nodePool s) = Some (i, p1)" "vlPoolStore p1 i v = Some p2"
    "pool_inv p2" "i \<notin> pool_live (set_nodePool s)" "pool_live p2 = insert i (pool_live (set_nodePool s))"
    "vlPoolSample p2 i = Some v"
    "\<And>j. j \<in> pool_live (set_nodePool s) \<Longrightarrow> vlPoolSample p2 j = vlPoolSample (set_nodePool s) j"
    "pool_room (set_nodePool s) - 1 \<le> pool_room p2"
    "\<And>n. pool_can_return (set_nodePool s) n \<Longrightarrow> pool_can_return p2 n"
    using slots.take_store [OF assms [unfolded set_ok_def], of "\<lambda>_. v"] by metis
  have "i \<noteq> SNIL" using SNIL_not_live [OF t(3)] t(5) by auto
  then show thesis using t by (intro that [OF t(1,2)]) (simp_all add: set_ok_def set_live_def cell_def)
qed

lemma set_total_upd [simp]:
  "cell (s\<lparr>set_totalElements := n\<rparr>) = cell s" "set_ok (s\<lparr>set_totalElements := n\<rparr>) = set_ok s"
  "set_live (s\<lparr>set_totalElements := n\<rparr>) = set_live s"
  "elt (s\<lparr>set_totalElements := n\<rparr>) = elt s" "col (s\<lparr>set_totalElements := n\<rparr>) = col s"
  by (simp_all add: cell_def set_ok_def set_live_def elt_def col_def fun_eq_iff)

text \<open>A node that was never in the tree becomes a leaf of it.\<close>

lemma link_leaf:
  assumes rep: "tree_rep s (plug (F # E) Leaf)" and side: "if g then \<exists>r. F = FL p r else \<exists>l. F = FR l p"
    and t: "set_ok t" "set_live t = insert i (set_live s)" "i \<notin> set_live s" "set_root t = set_root s"
      "cell t i = Some \<lparr>sn_color = RED, sn_parent = p, sn_left = SNIL, sn_right = SNIL, sn_elem = e\<rparr>"
      "\<And>j. j \<in> set_live s \<Longrightarrow> cell t j = cell s j"
  obtains u where "set_modify t p (\<lambda>n. if g then n\<lparr>sn_left := i\<rparr> else n\<lparr>sn_right := i\<rparr>) = Some u"
    "tree_rep u (plug (F # E) (Node Leaf i Leaf))" "kept t u" "col u = col t"
proof -
  note R = rep [unfolded tree_rep_plug]
  have live: "ctx_set (F # E) \<subseteq> set_live s" and ok: "ctx_ok (F # E)"
    and at: "ctx_at (cell s) (F # E) SNIL" using R by auto
  have p: "p = ctx_parent (F # E)" using side by (cases F) (auto split: if_splits)
  have pin: "p \<in> set_live s" using live p ctx_parent_in [of "F # E"] by auto
  have at': "ctx_at (cell t) (F # E) SNIL" by (rule ctx_at_cong [OF at]) (use live t(6) in auto)
  then obtain c v where cp: "cell t p = Some (ctx_node (F # E) c v SNIL)"
    using ctx_at_node [OF at'] p by auto
  define u where "u = set_put t p (ctx_node (F # E) c v i)"
  have lp: "p \<in> set_live t" using pin t(2) by simp
  have u: "set_ok u" "set_live u = set_live t" "cell u = (cell t)(p := Some (ctx_node (F # E) c v i))"
    "kept t u" "col u = col t" "set_root u = set_root t"
    using t(1) lp cp by (simp_all add: u_def kept_put col_put_same)
  have upd: "(if g then (ctx_node (F # E) c v SNIL)\<lparr>sn_left := i\<rparr>
      else (ctx_node (F # E) c v SNIL)\<lparr>sn_right := i\<rparr>) = ctx_node (F # E) c v i"
    using side by (cases F) (auto split: if_splits)
  have run: "set_modify t p (\<lambda>n. if g then n\<lparr>sn_left := i\<rparr> else n\<lparr>sn_right := i\<rparr>) = Some u"
    using set_modify_live [OF t(1) lp cp] upd by (simp add: u_def)
  have "ctx_at (cell u) (F # E) i"
    by (rule ctx_at_relink [OF at' ok, where c = c and e = v]) (use u(3) p in auto)
  moreover have "i \<notin> ctx_set (F # E)" using live t(3) by auto
  moreover have "p \<noteq> i" using pin t(3) by auto
  moreover have "set_root u = tree_root (plug (F # E) (Node Leaf i Leaf))"
    using R u(6) t(4) tree_root_plug [of "F # E"] by auto
  ultimately have "tree_rep u (plug (F # E) (Node Leaf i Leaf))"
    unfolding tree_rep_plug using u ok live t(2,5) p by auto
  from that [OF run this u(4,5)] show thesis .
qed

lemma paint_root_black:
  assumes rep: "tree_rep s T" and "T \<noteq> Leaf"
  obtains s' where "set_paint s (set_root s) BLACK = Some s'" "tree_rep s' T" "kept s s'" "root_black s'"
    "red_black (col s) T \<Longrightarrow> red_black (col s') T"
proof -
  have "set_root s = tree_root T" using rep by (simp add: tree_rep_def)
  then have "set_root s \<in> set_tree T" using tree_root_in [OF assms(2)] by simp
  then obtain s' where s': "set_paint s (set_root s) BLACK = Some s'" "tree_rep s' T" "kept s s'"
    "col s' = (col s)(set_root s := BLACK)"
    by (rule tree_rep_paint [OF rep])
  have "set_root s' = set_root s" using rep s'(2) by (simp add: tree_rep_def)
  then have "root_black s'" by (simp add: root_black_def s'(4))
  moreover have "red_black (col s') T" if rb: "red_black (col s) T"
  proof -
    obtain l x r where T: "T = Node l x r" using assms(2) by (cases T) auto
    have "x \<notin> set_tree l" "x \<notin> set_tree r" "set_root s = x" using rep T by (auto simp: tree_rep_def)
    then show ?thesis using rb T by (auto simp: red_black_def s'(4))
  qed
  ultimately show thesis using that s' by blast
qed

text \<open>What an insertion of a new element does.\<close>

definition inserts_at :: "'a vl_set \<Rightarrow> vl_set_iter list \<Rightarrow> vl_set_iter \<Rightarrow> 'a \<Rightarrow> vl_set_iter list \<Rightarrow> 'a vl_set \<Rightarrow> bool" where
  "inserts_at s xs i e ys s' \<longleftrightarrow> (\<exists>T. tree_rep s' T \<and> inorder T = xs @ i # ys \<and>
     set_live s' = insert i (set_live s) \<and> i \<notin> set_live s \<and> elt s' i = e \<and>
     (\<forall>j \<in> set_live s. elt s' j = elt s j) \<and> root_black s' \<and>
     set_comparator s' = set_comparator s \<and> set_elementSize s' = set_elementSize s \<and>
     set_totalElements s' = inc32 (set_totalElements s) \<and>
     pool_room (set_nodePool s) - 1 \<le> pool_room (set_nodePool s') \<and>
     (\<forall>n. pool_can_return (set_nodePool s) n \<longrightarrow> pool_can_return (set_nodePool s') n) \<and>
     (set_balanced s \<longrightarrow> red_black (col s') T))"

lemma insert_empty:
  assumes "set_inv s" and "pool_ready (set_nodePool s)" and "set_shape s = Leaf"
  shows "\<exists>i s'. vlSetInsert s e = Some (i, s') \<and> inserts_at s [] i e [] s'"
proof -
  note D = set_invD [OF assms(1)]
  let ?v = "\<lparr>sn_color = BLACK, sn_parent = SNIL, sn_left = SNIL, sn_right = SNIL, sn_elem = e\<rparr>"
  obtain i p1 p2 where t: "vlPoolTake (set_nodePool s) = Some (i, p1)" "vlPoolStore p1 i ?v = Some p2"
    "set_ok (s\<lparr>set_nodePool := p2\<rparr>)" "i \<notin> set_live s" "set_live (s\<lparr>set_nodePool := p2\<rparr>) = insert i (set_live s)"
    "cell (s\<lparr>set_nodePool := p2\<rparr>) i = Some ?v" "i \<noteq> SNIL"
    "\<And>j. j \<in> set_live s \<Longrightarrow> cell (s\<lparr>set_nodePool := p2\<rparr>) j = cell s j"
    "pool_room (set_nodePool s) - 1 \<le> pool_room p2"
    "\<And>n. pool_can_return (set_nodePool s) n \<Longrightarrow> pool_can_return p2 n"
    by (rule set_take_store [OF D(5) assms(2), where v = ?v]) blast
  let ?s = "s\<lparr>set_nodePool := p2, set_totalElements := inc32 (set_totalElements s), set_root := i\<rparr>"
  have c: "cell ?s = cell (s\<lparr>set_nodePool := p2\<rparr>)" "set_ok ?s" "set_live ?s = insert i (set_live s)"
    using t(3,5) by (simp_all add: cell_def set_ok_def set_live_def)
  have "tree_rep ?s (Node Leaf i Leaf)"
    using c t(6) by (simp add: tree_rep_def)
  moreover have "elt ?s i = e" "col ?s i = BLACK" using c(1) t(6) by (simp_all add: elt_def col_def)
  moreover have "\<forall>j \<in> set_live s. elt ?s j = elt s j" using c(1) t(8) by (simp add: elt_def)
  moreover have "set_root s = SNIL" using D(1) assms(3) by (simp add: tree_rep_def)
  ultimately show ?thesis
    using c t unfolding inserts_at_def vlSetInsert_def
    by (intro exI [of _ i] exI [of _ ?s]) (auto intro!: exI [of _ "Node Leaf i Leaf"] simp: root_black_def red_black_def)
qed

lemma red_black_cong:
  assumes "\<And>i. i \<in> set_tree T \<Longrightarrow> c i = c' i"
  shows "red_black c T = red_black c' T"
proof -
  have rc: "root_col c t = root_col c' t" if "\<And>i. i \<in> set_tree t \<Longrightarrow> c i = c' i" for t
    using that by (cases t) auto
  have bh: "bh c t = bh c' t" if "\<And>i. i \<in> set_tree t \<Longrightarrow> c i = c' i" for t
    using that by (induction t) auto
  have "invh c T = invh c' T" using assms by (induction T) (auto simp: bh)
  moreover have "invc c T = invc c' T"
    using assms
  proof (induction T)
    case (Node l x r)
    then have "invc c l = invc c' l" "invc c r = invc c' r" "root_col c l = root_col c' l"
      "root_col c r = root_col c' r" "c x = c' x"
      using rc by simp_all
    then show ?case by simp
  qed simp
  ultimately show ?thesis by (simp add: red_black_def)
qed

lemma insert_nonempty:
  assumes inv: "set_inv s" and ready: "pool_ready (set_nodePool s)" and ne: "set_shape s \<noteq> Leaf"
    and d: "insert_descend s e (set_root s) = Some (Inr (p, g))" "descends_to s e (set_shape s) (Inr (p, g))"
  shows "\<exists>i s' xs ys. vlSetInsert s e = Some (i, s') \<and> inserts_at s xs i e ys s' \<and>
    set_iters s = xs @ ys \<and> (\<forall>i \<in> set xs. set_comparator s (elt s i) e < 0) \<and>
    (\<forall>i \<in> set ys. 0 < set_comparator s (elt s i) e)"
proof -
  note D = set_invD [OF inv]
  obtain F E where FE: "set_shape s = plug (F # E) Leaf" and side: "if g then \<exists>r. F = FL p r else \<exists>l. F = FR l p"
    and xs: "\<forall>i \<in> set (ctx_left (F # E)). set_comparator s (elt s i) e < 0"
    and ys: "\<forall>i \<in> set (ctx_right (F # E)). 0 < set_comparator s (elt s i) e"
    using d(2) by (auto simp: descends_to_def)
  have rep: "tree_rep s (plug (F # E) Leaf)" using D(1) FE by simp
  have root: "set_root s \<noteq> SNIL" using D(1) tree_rep_sub_root [of s "[]" "set_shape s"] ne by (simp add: tree_rep_def)
  let ?v = "\<lparr>sn_color = RED, sn_parent = p, sn_left = SNIL, sn_right = SNIL, sn_elem = e\<rparr>"
  obtain i p1 p2 where t: "vlPoolTake (set_nodePool s) = Some (i, p1)" "vlPoolStore p1 i ?v = Some p2"
    "set_ok (s\<lparr>set_nodePool := p2\<rparr>)" "i \<notin> set_live s" "set_live (s\<lparr>set_nodePool := p2\<rparr>) = insert i (set_live s)"
    "cell (s\<lparr>set_nodePool := p2\<rparr>) i = Some ?v" "i \<noteq> SNIL"
    "\<And>j. j \<in> set_live s \<Longrightarrow> cell (s\<lparr>set_nodePool := p2\<rparr>) j = cell s j"
    "pool_room (set_nodePool s) - 1 \<le> pool_room p2"
    "\<And>n. pool_can_return (set_nodePool s) n \<Longrightarrow> pool_can_return p2 n"
    by (rule set_take_store [OF D(5) ready, where v = ?v]) blast
  define t0 where "t0 = s\<lparr>set_nodePool := p2, set_totalElements := inc32 (set_totalElements s)\<rparr>"
  have t0: "set_ok t0" "set_live t0 = insert i (set_live s)" "set_root t0 = set_root s" "cell t0 i = Some ?v"
    "\<And>j. j \<in> set_live s \<Longrightarrow> cell t0 j = cell s j"
    using t(3,5,6,8) by (simp_all add: t0_def cell_def set_ok_def set_live_def)
  obtain t1 where t1: "set_modify t0 p (\<lambda>n. if g then n\<lparr>sn_left := i\<rparr> else n\<lparr>sn_right := i\<rparr>) = Some t1"
    "tree_rep t1 (plug (F # E) (Node Leaf i Leaf))" "kept t0 t1" "col t1 = col t0"
    by (rule link_leaf [OF rep side t0(1,2) t(4) t0(3,4,5)])
  have coli: "col t1 i = RED" using t1(4) t0(4) by (simp add: col_def)
  have colj: "col t1 j = col s j" if "j \<in> set_live s" for j
    using t1(4) t0(5) [OF that] by (simp add: col_def)
  have sub: "ctx_set (F # E) \<subseteq> set_live s" using rep unfolding tree_rep_plug by simp
  have "set_root t1 = set_root s" "set_root s \<in> ctx_set (F # E)"
    using t1(2) rep tree_root_plug [of "F # E" Leaf "Node Leaf i Leaf"] tree_root_plug_in [of "F # E" Leaf]
    by (simp_all add: tree_rep_def del: plug.simps)
  then have top: "col t1 (set_root t1) = BLACK"
    using D(3) root sub colj [of "set_root s"] by (auto simp: root_black_def)
  have "fixes_to t1 i (F # E) (Node Leaf i Leaf)"
    by (rule insert_fixup_ok [OF t1(2) coli]) (simp add: top)
  then obtain t2 T where t2: "insert_fixup_loop t1 i = Some t2" "tree_rep t2 T" "kept t1 t2"
    "inorder T = inorder (plug (F # E) (Node Leaf i Leaf))"
    "red_at (col t1) (F # E) (Node Leaf i Leaf) \<Longrightarrow> red_black (col t2) T"
    unfolding fixes_to_def by blast
  have iT: "i \<in> set (inorder T)" unfolding t2(4) by simp
  then have "T \<noteq> Leaf" by auto
  then obtain t3 where t3: "set_paint t2 (set_root t2) BLACK = Some t3" "tree_rep t3 T" "kept t2 t3"
    "root_black t3" "red_black (col t2) T \<Longrightarrow> red_black (col t3) T"
    using paint_root_black [OF t2(2)] by blast
  have run: "vlSetInsert s e = Some (i, t3)"
    using root d(1) t(1,2) t1(1) t2(1) t3(1) by (simp add: vlSetInsert_def t0_def [symmetric])
  have K: "kept t0 t3" using t1(3) t2(3) t3(3) by (meson kept_trans)
  have bal: "red_black (col t3) T" if "set_balanced s"
  proof -
    have sb: "red_black (col s) (plug (F # E) Leaf)" using that FE by (simp add: set_balanced_def)
    have same: "red_black (col t1) (plug (F # E) Leaf) = red_black (col s) (plug (F # E) Leaf)"
      by (rule red_black_cong) (use sub colj in auto)
    then have "red_at (col t1) (F # E) (Node Leaf i Leaf)"
      using sb coli unfolding red_at_def invh_plug red_black_plug by simp
    then show ?thesis using t2(5) t3(5) by simp
  qed
  have "inserts_at s (ctx_left (F # E)) i e (ctx_right (F # E)) t3"
    unfolding inserts_at_def
    using t3(2,4) t2(4) K t0 t(4,9,10) bal
    by (intro exI [of _ T]) (auto simp: kept_def t0_def elt_def)
  then show ?thesis
    using run xs ys FE by (intro exI [of _ i] exI [of _ t3]) (auto simp: set_iters_def)
qed

section \<open>Removing\<close>

text \<open>What a removal does.\<close>

definition removes_at :: "'a vl_set \<Rightarrow> vl_set_iter list \<Rightarrow> vl_set_iter \<Rightarrow> vl_set_iter list \<Rightarrow> nat \<Rightarrow> 'a vl_set \<Rightarrow> bool" where
  "removes_at s xs z ys n s' \<longleftrightarrow> (\<exists>T. tree_rep s' T \<and> inorder T = xs @ ys \<and>
     set_live s' = set_live s - {z} \<and> (\<forall>j \<in> set_live s'. elt s' j = elt s j) \<and> root_black s' \<and>
     set_comparator s' = set_comparator s \<and> set_elementSize s' = set_elementSize s \<and>
     set_totalElements s' = dec32 (set_totalElements s) \<and>
     pool_room (set_nodePool s') = pool_room (set_nodePool s) + 1 \<and>
     pool_can_return (set_nodePool s') n)"

lemma remove_finish:
  assumes rep: "tree_rep s (plug C X)" and z: "z \<in> set_live s" "z \<notin> set_tree (plug C X)"
    and can: "pool_can_return (set_nodePool s) (Suc n)"
    and k: "C = [] \<Longrightarrow> k = BLACK" "C \<noteq> [] \<Longrightarrow> root_black s"
    and iter: "inorder (plug C X) = xs @ ys"
  obtains pool s' where "vlPoolReturn (set_nodePool s) z = Some pool"
    "(if k = BLACK
      then vl_SetRemoveFixup (s\<lparr>set_nodePool := pool, set_totalElements := dec32 (set_totalElements s)\<rparr>) (tree_root X)
      else Some (s\<lparr>set_nodePool := pool, set_totalElements := dec32 (set_totalElements s)\<rparr>)) = Some s'"
    "removes_at s xs z ys n s'"
    "X = Leaf \<Longrightarrow> tree_rep s' (plug C X) \<and> (\<forall>j \<in> set_live s'. col s' j = col s j)"
proof -
  have inv: "pool_inv (set_nodePool s)" and zl: "z \<in> pool_live (set_nodePool s)"
    using rep z(1) by (simp_all add: tree_rep_def set_ok_def set_live_def)
  obtain pool where g: "vlPoolReturn (set_nodePool s) z = Some pool" "pool_inv pool"
    "pool_live pool = pool_live (set_nodePool s) - {z}"
    "\<forall>j \<in> pool_live pool. vlPoolSample pool j = vlPoolSample (set_nodePool s) j"
    "pool_room pool = pool_room (set_nodePool s) + 1" "pool_can_return pool n"
    using slots.give_live [OF inv zl can] by blast
  define t where "t = s\<lparr>set_nodePool := pool, set_totalElements := dec32 (set_totalElements s)\<rparr>"
  have t: "set_ok t" "set_live t = set_live s - {z}" "\<And>j. j \<in> set_live t \<Longrightarrow> cell t j = cell s j"
    "set_root t = set_root s"
    using g(2-4) by (simp_all add: t_def set_ok_def set_live_def cell_def)
  have sub: "set_tree (plug C X) \<subseteq> set_live t" using rep z(2) t(2) by (auto simp: tree_rep_def)
  have at: "tree_at (cell s) SNIL (plug C X)" using rep by (simp add: tree_rep_def)
  have "tree_at (cell t) SNIL (plug C X)"
    by (rule tree_at_cong [OF at]) (use sub t(3) in blast)
  then have rep_t: "tree_rep t (plug C X)" using rep t(1,4) sub by (simp add: tree_rep_def)
  have same: "col t j = col s j" "elt t j = elt s j" if "j \<in> set_live t" for j
    using t(3) [OF that] by (simp_all add: col_def elt_def)
  have rb: "root_black t" if "C \<noteq> []"
  proof -
    have "set_root t \<in> set_live t"
      using tree_root_plug_in [OF that, of X] rep_t sub by (auto simp: tree_rep_def)
    then show ?thesis using k(2) [OF that] same(1) [of "set_root t"] t(4) by (simp add: root_black_def)
  qed
  have fin: "removes_at s xs z ys n s'"
    if "tree_rep s' T" "inorder T = inorder (plug C X)" "kept t s'" "root_black s'" for s' T
  proof -
    have "set_live s' = set_live t" "elt s' = elt t" "set_comparator s' = set_comparator s"
      "set_elementSize s' = set_elementSize s" "set_totalElements s' = dec32 (set_totalElements s)"
      "pool_room (set_nodePool s') = pool_room (set_nodePool s) + 1" "pool_can_return (set_nodePool s') n"
      using that(3) g(5,6) by (simp_all add: kept_def t_def)
    then show ?thesis
      using that(1,2,4) iter same(2) t(2) unfolding removes_at_def by (intro exI [of _ T]) auto
  qed
  have none: "vl_SetRemoveFixup t SNIL = Some t"
    by (simp add: vl_SetRemoveFixup_def remove_fixup_loop.simps [of t SNIL])
  consider "X = Leaf" | "X \<noteq> Leaf" "k = BLACK" | "k \<noteq> BLACK" by blast
  then show thesis
  proof cases
    case 1
    have "root_black t"
    proof (cases "C = []")
      case True
      then show ?thesis using rep_t 1 by (simp add: tree_rep_def root_black_def)
    qed (rule rb)
    then have "removes_at s xs z ys n t" using fin [OF rep_t] t(1) by simp
    then show thesis using that [OF g(1), of t] none 1 rep_t same(1) by (simp add: t_def [symmetric])
  next
    case 2
    then obtain a x b where X: "X = Node a x b" by (cases X) auto
    obtain s' T where "vl_SetRemoveFixup t x = Some s'" "tree_rep s' T" "kept t s'"
      "inorder T = inorder (plug C X)" "root_black s'"
      using vl_SetRemoveFixup_ok [of t C a x b] rep_t rb X by auto
    then show thesis using that [OF g(1), of s'] fin 2 X by (simp add: t_def)
  next
    case 3
    then have "C \<noteq> []" using k(1) by auto
    then have "removes_at s xs z ys n t" using fin [OF rep_t] rb t(1) by simp
    then show thesis using that [OF g(1), of t] 3 rep_t same(1) by (auto simp: t_def [symmetric])
  qed
qed

lemma leftmost_split: "t \<noteq> Leaf \<Longrightarrow> \<exists>D y b. t = plug D (Node Leaf y b) \<and> ctx_left D = []"
proof (induction t)
  case (Node l x r)
  show ?case
  proof (cases "l = Leaf")
    case True
    then have "Node l x r = plug [] (Node Leaf x r) \<and> ctx_left [] = []" by simp
    then show ?thesis by blast
  next
    case False
    then obtain D y b where "l = plug D (Node Leaf y b)" "ctx_left D = []" using Node.IH(1) by blast
    then have "Node l x r = plug (D @ [FL x r]) (Node Leaf y b) \<and> ctx_left (D @ [FL x r]) = []"
      by (simp add: plug_append)
    then show ?thesis by blast
  qed
qed simp

lemma vlSetRemove_one_child:
  assumes rep: "tree_rep s (plug C (Node a z b))" and one: "a = Leaf \<and> X = b \<or> b = Leaf \<and> X = a"
    and rb: "root_black s" and n: "set_totalElements s \<noteq> 0" and can: "pool_can_return (set_nodePool s) (Suc n)"
  shows "\<exists>s'. vlSetRemove s z = Some s' \<and>
    removes_at s (ctx_left C @ inorder a) z (inorder b @ ctx_right C) n s' \<and>
    (X = Leaf \<longrightarrow> tree_rep s' (plug C X) \<and> (\<forall>j \<in> set_live s'. col s' j = col s j))"
proof -
  note cz = tree_rep_cell [OF rep]
  have root: "set_root s \<noteq> SNIL"
    using rep tree_rep_sub_root [of s "[]" "plug C (Node a z b)"] plug_Node_nonempty by (simp add: tree_rep_def)
  have miss: "tree_root a = SNIL \<or> tree_root b = SNIL" using one by auto
  obtain s1 where s1: "remove_splice s z = Some (tree_root X, s1)" "tree_rep s1 (plug C X)" "kept s s1"
    "col s1 = col s" "cell s1 z = cell s z"
    by (rule remove_splice_ok [OF rep one])
  have zl: "z \<in> set_live s1" "z \<notin> set_tree (plug C X)"
    using cz(2) s1(3) rep one unfolding tree_rep_plug by (auto simp: kept_def)
  obtain v where v: "cell s1 z = Some v" "sn_color v = col s z" using s1(5) cz(1) by auto
  have can1: "pool_can_return (set_nodePool s1) (Suc n)" using s1(3) can by (simp add: kept_def)
  have top: "k' = BLACK" if "C = []" "k' = col s z" for k'
    using that rb rep cz(3) by (simp add: root_black_def tree_rep_def)
  have rb1: "root_black s1" if "C \<noteq> []"
    by (rule root_black_upd [OF rb rep s1(2) that]) (simp add: s1(4))
  have it: "inorder (plug C X) = (ctx_left C @ inorder a) @ (inorder b @ ctx_right C)" using one by auto
  obtain pool s' where f: "vlPoolReturn (set_nodePool s1) z = Some pool"
    "(if col s z = BLACK
      then vl_SetRemoveFixup (s1\<lparr>set_nodePool := pool, set_totalElements := dec32 (set_totalElements s1)\<rparr>) (tree_root X)
      else Some (s1\<lparr>set_nodePool := pool, set_totalElements := dec32 (set_totalElements s1)\<rparr>)) = Some s'"
    "removes_at s1 (ctx_left C @ inorder a) z (inorder b @ ctx_right C) n s'"
    "X = Leaf \<Longrightarrow> tree_rep s' (plug C X) \<and> (\<forall>j \<in> set_live s'. col s' j = col s1 j)"
    using top rb1 by (rule remove_finish [OF s1(2) zl can1 _ _ it]) auto
  have "vlSetRemove s z = Some s'"
    using root cz(3) tree_rep_node [OF rep] miss n s1(1) v f(1,2)
    by (simp add: vlSetRemove_def vl_SetGetNodeAt_cell del: if_split cong: if_cong)
  moreover have "removes_at s (ctx_left C @ inorder a) z (inorder b @ ctx_right C) n s'"
    using f(3) s1(3) unfolding removes_at_def kept_def by simp
  ultimately show ?thesis using f(4) s1(4) by auto
qed

lemma vlSetRemove_two_children:
  assumes rep: "tree_rep s (plug C (Node l z r))" and two: "l \<noteq> Leaf" "r \<noteq> Leaf"
    and rb: "root_black s" and n: "set_totalElements s \<noteq> 0" and can: "pool_can_return (set_nodePool s) (Suc n)"
  shows "\<exists>s'. vlSetRemove s z = Some s' \<and>
    removes_at s (ctx_left C @ inorder l) z (inorder r @ ctx_right C) n s'"
proof -
  note cz = tree_rep_cell [OF rep]
  obtain D y b where r: "r = plug D (Node Leaf y b)" and D: "ctx_left D = []"
    using leftmost_split [OF two(2)] by blast
  let ?K = "D @ FR l z # C" and ?K' = "D @ FR l y # C"
  have repy: "tree_rep s (plug ?K (Node Leaf y b))" using rep by (simp add: plug_append r)
  have root: "set_root s \<noteq> SNIL"
    using rep tree_rep_sub_root [of s "[]" "plug C (Node l z r)"] plug_Node_nonempty by (simp add: tree_rep_def)
  have repl: "tree_rep s (plug (FL z r # C) l)" and repr: "tree_rep s (plug (FR l z # C) r)"
    using rep by simp_all
  have some: "tree_root l \<noteq> SNIL" "tree_root r \<noteq> SNIL"
    using two tree_rep_sub_root [OF repl] tree_rep_sub_root [OF repr] by simp_all
  obtain r1 r0 r2 where rn: "r = Node r1 r0 r2" using two(2) by (cases r) auto
  have "hd_or (inorder r) SNIL = y" by (simp add: r D)
  then have "set_leftmost s r0 = Some y"
    using set_leftmost_rep [OF repr [unfolded rn]] by (simp add: rn)
  then have succ: "vl_SetTreeSuccessor s z = Some y"
    using tree_rep_node [OF rep] cz(3) some rn by (simp add: vl_SetTreeSuccessor_def vl_SetMinSubtree_def)
  obtain s1 where s1: "remove_splice s y = Some (tree_root b, s1)" "tree_rep s1 (plug ?K b)" "kept s s1"
    "col s1 = col s" "cell s1 y = cell s y"
    by (rule remove_splice_ok [OF repy, where X = b]) auto
  have rep1: "tree_rep s1 (plug C (Node l z (plug D b)))" using s1(2) by (simp add: plug_append)
  have yz: "y \<noteq> z" "y \<in> set_live s1" "y \<notin> set_tree (plug C (Node l z (plug D b)))"
    using repy s1(3) unfolding tree_rep_plug by (auto simp: ctx_set_lists kept_def)
  obtain v where "cell s1 y = Some v" using s1(5) tree_rep_cell(1) [OF repy] by auto
  then obtain t1 s2 w where s2: "remove_replace s1 z y = Some s2" "tree_rep s2 (plug C (Node l y (plug D b)))"
    "t1 = set_put s1 z w" "elt t1 = (elt s1)(z := elt s1 y)" "kept t1 s2" "col s2 = (col s1)(y := col s1 z)"
    "z \<in> set_live s1" "set_ok s1"
    by (rule remove_replace_ok [OF rep1 yz(2,3)])
  have rep2: "tree_rep s2 (plug ?K' b)" using s2(2) by (simp add: plug_append)
  have F: "set_live s2 = set_live s" "elt s2 = (elt s)(z := elt s y)"
    "set_comparator s2 = set_comparator s" "set_elementSize s2 = set_elementSize s"
    "set_totalElements s2 = set_totalElements s"
    "pool_room (set_nodePool s2) = pool_room (set_nodePool s)"
    "pool_can_return (set_nodePool s2) = pool_can_return (set_nodePool s)"
    using s1(3) s2(3,4,5,7,8) by (simp_all add: kept_def)
  have it: "inorder (plug ?K' b) = (ctx_left C @ inorder l) @ (inorder r @ ctx_right C)"
    by (simp add: r D)
  have "distinct (ctx_left C @ inorder l @ z # inorder r @ ctx_right C)"
    using rep by (simp add: tree_rep_def)
  then have "z \<notin> set (inorder (plug ?K' b))" unfolding it by auto
  then have zout: "z \<in> set_live s2" "z \<notin> set_tree (plug ?K' b)"
    by (simp add: cz(2) F(1), simp only: set_inorder not_False_eq_True)
  have col2: "col s2 = (col s)(y := col s z)" using s2(6) s1(4) by simp
  have "root_black s2"
  proof (cases "C = []")
    case True
    then show ?thesis
      using rb rep s2(2) cz(3) by (simp add: root_black_def tree_rep_def col2)
  next
    case False
    have "y \<notin> ctx_set C" using repy unfolding tree_rep_plug by (auto simp: ctx_set_lists)
    then show ?thesis
      by (intro root_black_upd [OF rb rep s2(2) False]) (auto simp: col2)
  qed
  note top = this
  have cany: "pool_can_return (set_nodePool s2) (Suc n)" using F(7) can by simp
  obtain pool s' where f: "vlPoolReturn (set_nodePool s2) z = Some pool"
    "(if col s z = BLACK
      then vl_SetRemoveFixup (s2\<lparr>set_nodePool := pool, set_totalElements := dec32 (set_totalElements s2)\<rparr>) (tree_root b)
      else Some (s2\<lparr>set_nodePool := pool, set_totalElements := dec32 (set_totalElements s2)\<rparr>)) = Some s'"
    "removes_at s2 (ctx_left C @ inorder l) z (inorder r @ ctx_right C) n s'"
    by (rule remove_finish [OF rep2 zout cany _ _ it, where k = "col s z"]) (use top in auto)
  have cy2: "vl_SetGetNodeAt s2 y = Some \<lparr>sn_color = col s2 y, sn_parent = ctx_parent C, sn_left = tree_root l,
      sn_right = tree_root (plug D b), sn_elem = elt s2 y\<rparr>"
    by (rule tree_rep_node [OF s2(2)])
  have ynil: "y \<noteq> SNIL" using tree_rep_cell(3) [OF repy] .
  have "vlSetRemove s z = Some s'"
    unfolding vlSetRemove_def
    by (simp add: root cz(3) tree_rep_node [OF rep] some n succ ynil s1(1) yz(1) s2(1) cy2 col2 f(1)
        f(2) [simplified] Let_def del: if_split cong: if_cong)
  moreover have "removes_at s (ctx_left C @ inorder l) z (inorder r @ ctx_right C) n s'"
  proof -
    have "elt s2 j = elt s j" if "j \<noteq> z" for j using that F(2) by simp
    then show ?thesis using f(3) F unfolding removes_at_def by auto
  qed
  ultimately show ?thesis by blast
qed

text \<open>A removal at an iterator of the set, whatever its children.\<close>

lemma vlSetRemove_rep:
  assumes inv: "set_inv s" and i: "i \<in> set (set_iters s)" and n: "set_totalElements s \<noteq> 0"
    and can: "pool_can_return (set_nodePool s) (Suc m)"
  shows "\<exists>xs ys s'. set_iters s = xs @ i # ys \<and> vlSetRemove s i = Some s' \<and> removes_at s xs i ys m s'"
proof -
  note D = set_invD [OF inv]
  have "i \<in> set_tree (set_shape s)" using i by (simp add: set_iters_def)
  then obtain C a b where T: "set_shape s = plug C (Node a i b)" using tree_split by blast
  have rep: "tree_rep s (plug C (Node a i b))" using D(1) T by simp
  have it: "set_iters s = (ctx_left C @ inorder a) @ i # (inorder b @ ctx_right C)"
    by (simp add: set_iters_def T)
  show ?thesis
  proof (cases "a \<noteq> Leaf \<and> b \<noteq> Leaf")
    case True
    then show ?thesis using vlSetRemove_two_children [OF rep _ _ D(3) n can] it by blast
  next
    case False
    then have "a = Leaf \<and> b = b \<or> b = Leaf \<and> a = a" by auto
    then obtain X where "a = Leaf \<and> X = b \<or> b = Leaf \<and> X = a" by blast
    from vlSetRemove_one_child [OF rep this D(3) n can] show ?thesis using it by blast
  qed
qed

end
