(* ===== verification/VL_SetSpec.thy ===== *)
theory VL_SetSpec
  imports VL_SetOrder VL_Interfaces
begin

text \<open>
  The properties of the ordered set of \<^verbatim>\<open>src/core/vl_set.c\<close>: what finding, inserting, removing,
  walking, copying and the algebra of sets do to the sorted list of elements, and what they do
  to the balance of the tree.
\<close>

section \<open>Insertion and removal, as lists of elements\<close>

definition set_mem :: "'a vl_set \<Rightarrow> 'a \<Rightarrow> bool" where
  "set_mem s e \<longleftrightarrow> (\<exists>x \<in> set (set_contents s). set_comparator s x e = 0)"

lemma set_inv_contents:
  assumes "set_inv s"
  shows "set_contents s = map (elt s) (set_iters s)"
    and "i \<in> set (set_iters s) \<Longrightarrow> vlSetSample s i = Some (elt s i)"
  using set_invD(1) [OF assms] vlSetSample_elt [OF set_invD(1) [OF assms]]
  by (simp_all add: set_contents_rep set_iters_def)

lemma inserts_at_inv:
  assumes inv: "set_inv s" and ord: "ordering_comparator (set_comparator s)"
    and ins: "inserts_at s xs i e ys s'" and it: "set_iters s = xs @ ys"
    and low: "\<forall>j \<in> set xs. set_comparator s (elt s j) e < 0"
    and high: "\<forall>j \<in> set ys. 0 < set_comparator s (elt s j) e"
  shows "set_inv s'" and "set_iters s' = xs @ i # ys" and "i \<notin> set (set_iters s)"
    and "set_contents s' = filter (\<lambda>x. set_comparator s x e < 0) (set_contents s) @ e #
      filter (\<lambda>x. 0 < set_comparator s x e) (set_contents s)"
    and "vlSetSample s' i = Some e"
    and "j \<in> set (set_iters s) \<Longrightarrow> vlSetSample s' j = vlSetSample s j"
    and "set_balanced s \<Longrightarrow> set_balanced s'" and "\<not> set_mem s e"
proof -
  note cmp_sign = ordering_comparator.cmp_sign [OF ord]
  obtain T where T: "tree_rep s' T" "inorder T = xs @ i # ys" "set_live s' = insert i (set_live s)"
    "i \<notin> set_live s" "elt s' i = e" "\<forall>j \<in> set_live s. elt s' j = elt s j" "root_black s'"
    "set_comparator s' = set_comparator s" "set_totalElements s' = inc32 (set_totalElements s)"
    "set_balanced s \<longrightarrow> red_black (col s') T"
    using ins unfolding inserts_at_def by blast
  have live: "set_live s = set (xs @ ys)" using inv it by (simp add: set_inv_def)
  have e_xs: "map (elt s') xs = map (elt s) xs" "map (elt s') ys = map (elt s) ys"
    using T(6) live by simp_all
  have it': "set_iters s' = xs @ i # ys" by (simp add: set_iters_rep [OF T(1)] T(2))
  have tot: "set_totalElements s = u32_of (length (xs @ ys))" using inv it by (simp add: set_inv_def)
  have sorted: "sorted_wrt (\<lambda>a b. set_comparator s a b < 0) (map (elt s) xs @ map (elt s) ys)"
    using inv set_inv_contents(1) [OF inv] it by (simp add: set_inv_def)
  have cont: "set_contents s' = map (elt s) xs @ e # map (elt s) ys"
    using T(5) e_xs by (simp add: set_contents_rep [OF T(1)] T(2))
  show inv': "set_inv s'"
    unfolding set_inv_def set_shape_rep [OF T(1)] cont it'
    using T live tot sorted low high cmp_sign
    by (auto simp: sorted_wrt_append inc32_mod)
  show "set_iters s' = xs @ i # ys" by (rule it')
  show "i \<notin> set (set_iters s)" using T(4) live it by simp
  have c: "set_contents s = map (elt s) xs @ map (elt s) ys" using set_inv_contents(1) [OF inv] it by simp
  have f: "filter (\<lambda>j. set_comparator s (elt s j) e < 0) xs = xs"
    "filter (\<lambda>j. set_comparator s (elt s j) e < 0) ys = []"
    "filter (\<lambda>j. 0 < set_comparator s (elt s j) e) xs = []"
    "filter (\<lambda>j. 0 < set_comparator s (elt s j) e) ys = ys"
    using low high by (auto simp: filter_id_conv filter_empty_conv)
  show "set_contents s' = filter (\<lambda>x. set_comparator s x e < 0) (set_contents s) @ e #
      filter (\<lambda>x. 0 < set_comparator s x e) (set_contents s)"
    unfolding cont c by (simp add: filter_map comp_def f)
  show "vlSetSample s' i = Some e" using vlSetSample_elt [OF T(1), of i] T(2,5) by (simp flip: set_inorder)
  show "vlSetSample s' j = vlSetSample s j" if "j \<in> set (set_iters s)"
    using that set_inv_contents(2) [OF inv that] set_inv_contents(2) [OF inv', of j] it it' T(6) live by simp
  show "set_balanced s'" if "set_balanced s"
    using that T(10) by (simp add: set_balanced_def set_shape_rep [OF T(1)])
  show "\<not> set_mem s e" unfolding set_mem_def c using low high by auto
qed

lemma vlSetInsert_ok:
  assumes inv: "set_inv s" and ord: "ordering_comparator (set_comparator s)"
    and ready: "pool_ready (set_nodePool s)"
  obtains (old) i where "vlSetInsert s e = Some (i, s)" "i \<in> set (set_iters s)" "set_mem s e"
      "set_comparator s (elt s i) e = 0"
    | (new) i s' xs ys where "vlSetInsert s e = Some (i, s')" "inserts_at s xs i e ys s'" "set_iters s = xs @ ys"
      "\<forall>j \<in> set xs. set_comparator s (elt s j) e < 0" "\<forall>j \<in> set ys. 0 < set_comparator s (elt s j) e"
proof (cases "set_shape s = Leaf")
  case True
  have "set_iters s = [] @ []" by (simp add: set_iters_def True)
  then show thesis using insert_empty [OF inv ready True, of e] new [of _ _ "[]" "[]"] by auto
next
  case False
  note D = set_invD [OF inv]
  have rep: "tree_rep s (plug [] (set_shape s))" using D(1) by simp
  have "sorted_wrt (set_less s) (inorder (set_shape s))" using inv set_inv_rep [OF D(1)] by simp
  from insert_descend_rep [OF ord rep False this, of e] obtain res where
    res: "insert_descend s e (set_root s) = Some res" "descends_to s e (set_shape s) res"
    using D(1) by (auto simp: tree_rep_def)
  have root: "set_root s \<noteq> SNIL" using D(1) tree_rep_sub_root [OF rep] False by (simp add: tree_rep_def)
  show thesis
  proof (cases res)
    case (Inl i)
    then have i: "i \<in> set (set_iters s)" "set_comparator s (elt s i) e = 0"
      using res(2) by (simp_all add: descends_to_def set_iters_def)
    moreover have "vlSetInsert s e = Some (i, s)" using res(1) Inl root by (simp add: vlSetInsert_def)
    moreover have "set_mem s e" using i by (auto simp: set_mem_def set_inv_contents(1) [OF inv])
    ultimately show thesis using old by blast
  next
    case (Inr pg)
    obtain p g where pg: "pg = (p, g)" by (cases pg)
    show thesis
      using insert_nonempty [OF inv ready False res [unfolded Inr pg]] new by blast
  qed
qed

text \<open>
  C1. \<^verbatim>\<open>vlSetInsert\<close> into a well-formed set returns. An element equivalent to one of the set
  changes nothing and the iterator of that one is returned; any other gets a new iterator
  and stands between the smaller and the greater elements, while the iterators of the set
  keep the elements they stood for. A balanced tree stays balanced.
\<close>

theorem set_insert_sorted:
  assumes "set_inv s" and "ordering_comparator (set_comparator s)" and "pool_ready (set_nodePool s)"
  shows "\<exists>i s'. vlSetInsert s e = Some (i, s') \<and> set_inv s' \<and>
    (if set_mem s e
     then s' = s \<and> i \<in> set (set_iters s) \<and> (\<exists>x. vlSetSample s i = Some x \<and> set_comparator s x e = 0)
     else i \<notin> set (set_iters s) \<and> vlSetSample s' i = Some e \<and>
       set_contents s' = filter (\<lambda>x. set_comparator s x e < 0) (set_contents s) @ e #
         filter (\<lambda>x. 0 < set_comparator s x e) (set_contents s) \<and>
       (\<forall>j \<in> set (set_iters s). vlSetSample s' j = vlSetSample s j)) \<and>
    (set_balanced s \<longrightarrow> set_balanced s')"
  using assms
proof (cases rule: vlSetInsert_ok [where e = e])
  case (old i)
  then show ?thesis using assms(1) set_inv_contents(2) [OF assms(1)] by auto
next
  case (new i s' xs ys)
  note p = inserts_at_inv [OF assms(1,2) new(2-5)]
  show ?thesis using new(1) p by auto
qed

text \<open>
  \<^verbatim>\<open>vlSetFind\<close> returns the iterator of the element equivalent to its argument, and the
  invalid iterator exactly if there is none.
\<close>

theorem set_find_exact:
  assumes "set_inv s" and "ordering_comparator (set_comparator s)"
  shows "\<exists>i. vlSetFind s e = Some i \<and> (i = VL_SET_ITER_INVALID \<longleftrightarrow> \<not> set_mem s e) \<and>
    (set_mem s e \<longrightarrow> i \<in> set (set_iters s) \<and>
      (\<exists>x. vlSetSample s i = Some x \<and> set_comparator s x e = 0))"
proof -
  let ?P = "\<lambda>i. set_comparator s (elt s i) e = 0"
  have f: "vlSetFind s e = Some (hd_or (filter ?P (set_iters s)) SNIL)"
    by (rule vlSetFind_rep [OF assms(2,1)])
  have mem: "set_mem s e \<longleftrightarrow> filter ?P (set_iters s) \<noteq> []"
    by (auto simp: set_mem_def set_inv_contents(1) [OF assms(1)] filter_empty_conv)
  have live: "i \<noteq> SNIL" if "i \<in> set (set_iters s)" for i
    using that assms(1) SNIL_fresh [OF set_invD(5) [OF assms(1)]] by (auto simp: set_inv_def)
  show ?thesis
  proof (cases "set_mem s e")
    case True
    then obtain i js where i: "filter ?P (set_iters s) = i # js" using mem by (cases "filter ?P (set_iters s)") auto
    then have "i \<in> set (filter ?P (set_iters s))" by simp
    then have "i \<in> set (set_iters s)" "?P i" by simp_all
    then show ?thesis using f i True live set_inv_contents(2) [OF assms(1)] by auto
  next
    case False
    then show ?thesis using f mem by simp
  qed
qed

lemma distinct_split_nth:
  assumes "zs = xs @ x # ys" and "x = zs ! k" and "distinct zs" and "k < length zs"
  shows "xs = take k zs" and "ys = drop (Suc k) zs"
proof -
  have "zs ! length xs = zs ! k" using assms(1,2) by (metis nth_append_length)
  moreover have "length xs < length zs" using assms(1) by simp
  ultimately have "k = length xs" using assms(3,4) nth_eq_iff_index_eq by metis
  then show "xs = take k zs" "ys = drop (Suc k) zs" using assms(1) by simp_all
qed

lemma removes_at_inv:
  assumes inv: "set_inv s" and r: "removes_at s xs i ys m s'" and it: "set_iters s = xs @ i # ys"
  shows "set_inv s'" and "set_iters s' = xs @ ys"
    and "set_contents s' = map (elt s) xs @ map (elt s) ys"
    and "j \<in> set (xs @ ys) \<Longrightarrow> vlSetSample s' j = vlSetSample s j"
proof -
  obtain T where T: "tree_rep s' T" "inorder T = xs @ ys" "set_live s' = set_live s - {i}"
    "\<forall>j \<in> set_live s'. elt s' j = elt s j" "root_black s'" "set_comparator s' = set_comparator s"
    "set_totalElements s' = dec32 (set_totalElements s)"
    using r unfolding removes_at_def by blast
  have dist: "distinct (xs @ i # ys)" using set_invD(4) [OF inv] it by simp
  have live: "set_live s' = set (xs @ ys)" using inv T(3) dist by (auto simp: set_inv_def it)
  have it': "set_iters s' = xs @ ys" by (simp add: set_iters_rep [OF T(1)] T(2))
  show cont: "set_contents s' = map (elt s) xs @ map (elt s) ys"
    using T(4) live by (simp add: set_contents_rep [OF T(1)] T(2))
  have tot: "set_totalElements s = u32_of (Suc (length (xs @ ys)))" using inv it by (simp add: set_inv_def)
  have sorted: "sorted_wrt (\<lambda>a b. set_comparator s a b < 0) (map (elt s) (xs @ i # ys))"
    using inv set_inv_contents(1) [OF inv] it by (simp add: set_inv_def)
  show inv': "set_inv s'"
    unfolding set_inv_def set_shape_rep [OF T(1)] cont it'
    using T live tot sorted by (auto simp: sorted_wrt_append dec32_mod)
  show "set_iters s' = xs @ ys" by (rule it')
  show "vlSetSample s' j = vlSetSample s j" if "j \<in> set (xs @ ys)"
    using that set_inv_contents(2) [OF inv, of j] set_inv_contents(2) [OF inv', of j] it it' T(4) live by auto
qed

text \<open>
  C2. \<^verbatim>\<open>vlSetRemove\<close> at an iterator of a well-formed set returns and takes out exactly that
  iterator, whatever the shape of the tree around it: the others keep their order and their
  elements. At the invalid iterator it changes nothing. Removing an element that the set does not
  have changes nothing either.
\<close>

theorem set_remove_one:
  assumes "set_inv s" and "pool_can_return (set_nodePool s) (Suc n)" and "length (set_iters s) < 2 ^ 32"
    and "ordering_comparator (set_comparator s)"
  shows "(\<forall>k < length (set_iters s). \<exists>s'. vlSetRemove s (set_iters s ! k) = Some s' \<and> set_inv s' \<and>
      set_iters s' = take k (set_iters s) @ drop (Suc k) (set_iters s) \<and>
      set_contents s' = take k (set_contents s) @ drop (Suc k) (set_contents s) \<and>
      pool_can_return (set_nodePool s') n) \<and>
    vlSetRemove s VL_SET_ITER_INVALID = Some s \<and>
    (\<not> set_mem s e \<longrightarrow> vlSetRemoveElem s e = Some s)"
proof (intro conjI allI impI)
  fix k
  assume k: "k < length (set_iters s)"
  then have n: "set_totalElements s \<noteq> 0"
    using assms(1,3) u32_of_id [of "length (set_iters s)"] by (simp only: set_inv_def)
  obtain xs ys s' where r: "set_iters s = xs @ set_iters s ! k # ys"
    "vlSetRemove s (set_iters s ! k) = Some s'" "removes_at s xs (set_iters s ! k) ys n s'"
    using vlSetRemove_rep [OF assms(1) nth_mem [OF k] n assms(2)] by blast
  note split = distinct_split_nth [OF r(1) refl set_invD(4) [OF assms(1)] k]
  have "pool_can_return (set_nodePool s') n" using r(3) by (auto simp: removes_at_def)
  with removes_at_inv [OF assms(1) r(3,1)] r(2) split
  show "\<exists>s'. vlSetRemove s (set_iters s ! k) = Some s' \<and> set_inv s' \<and>
      set_iters s' = take k (set_iters s) @ drop (Suc k) (set_iters s) \<and>
      set_contents s' = take k (set_contents s) @ drop (Suc k) (set_contents s) \<and>
      pool_can_return (set_nodePool s') n"
    by (simp add: set_inv_contents(1) [OF assms(1)] take_map drop_map)
next
  show "vlSetRemove s VL_SET_ITER_INVALID = Some s" by (simp add: vlSetRemove_def)
next
  assume "\<not> set_mem s e"
  then have "filter (\<lambda>i. set_comparator s (elt s i) e = 0) (set_iters s) = []"
    by (auto simp: set_mem_def set_inv_contents(1) [OF assms(1)] filter_empty_conv)
  then show "vlSetRemoveElem s e = Some s"
    by (simp add: vlSetRemoveElem_def vlSetRemove_def vlSetFind_rep [OF assms(4,1)])
qed

section \<open>Walking from iterator to iterator\<close>

lemma split_unique:
  assumes "distinct zs" and "zs = xs @ i # ys" and "zs = xs' @ i # ys'"
  shows "xs = xs'" and "ys = ys'"
proof -
  have "i \<notin> set xs" "i \<notin> set ys" using assms(1) unfolding assms(2) by simp_all
  moreover have "xs @ i # ys = xs' @ i # ys'" using assms(2,3) by simp
  ultimately have "xs = xs' \<and> ys = ys'" by (metis append_Cons_eq_iff)
  then show "xs = xs'" "ys = ys'" by simp_all
qed

lemma set_next_prev:
  assumes inv: "set_inv s" and it: "set_iters s = xs @ i # ys"
  shows "vlSetNext s i = Some (hd_or ys SNIL)" and "vlSetPrev s i = Some (last_or xs SNIL)"
proof -
  note D = set_invD [OF inv]
  have "i \<in> set_tree (set_shape s)" using arg_cong [OF it, of set] by (simp add: set_iters_def)
  then obtain C a b where T: "set_shape s = plug C (Node a i b)" using tree_split by blast
  have rep: "tree_rep s (plug C (Node a i b))" using D(1) T by simp
  have "set_iters s = (ctx_left C @ inorder a) @ i # (inorder b @ ctx_right C)"
    by (simp add: set_iters_def T)
  note eq = split_unique [OF D(4) it this]
  show "vlSetNext s i = Some (hd_or ys SNIL)" using vlSetNext_rep [OF rep] eq by simp
  show "vlSetPrev s i = Some (last_or xs SNIL)" using vlSetPrev_rep [OF rep] eq by simp
qed

text \<open>
  C15. Walking a well-formed set: \<^verbatim>\<open>vlSetFront\<close> and \<^verbatim>\<open>vlSetBack\<close> are the iterators of the least and
  the greatest element, \<^verbatim>\<open>vlSetNext\<close> and \<^verbatim>\<open>vlSetPrev\<close> lead to the neighbours in sorted order, and
  all four give the invalid iterator where there is none.
\<close>

theorem set_walk_sorted:
  assumes "set_inv s"
  shows "vlSetFront s = Some (hd_or (set_iters s) VL_SET_ITER_INVALID) \<and>
    vlSetBack s = Some (last_or (set_iters s) VL_SET_ITER_INVALID) \<and>
    (\<forall>k < length (set_iters s).
      vlSetNext s (set_iters s ! k) =
        Some (if Suc k < length (set_iters s) then set_iters s ! Suc k else VL_SET_ITER_INVALID) \<and>
      vlSetPrev s (set_iters s ! k) =
        Some (if 0 < k then set_iters s ! (k - 1) else VL_SET_ITER_INVALID))"
proof -
  have "vlSetNext s (set_iters s ! k) =
        Some (if Suc k < length (set_iters s) then set_iters s ! Suc k else SNIL) \<and>
      vlSetPrev s (set_iters s ! k) = Some (if 0 < k then set_iters s ! (k - 1) else SNIL)"
    if k: "k < length (set_iters s)" for k
  proof -
    have "set_iters s = take k (set_iters s) @ set_iters s ! k # drop (Suc k) (set_iters s)"
      using k by (rule id_take_nth_drop)
    note np = set_next_prev [OF assms this]
    have "hd_or (drop (Suc k) (set_iters s)) SNIL =
        (if Suc k < length (set_iters s) then set_iters s ! Suc k else SNIL)"
      by (auto simp: hd_drop_conv_nth hd_or_def split: list.split)
        (metis Cons_nth_drop_Suc list.inject)+
    moreover have "last_or (take k (set_iters s)) SNIL = (if 0 < k then set_iters s ! (k - 1) else SNIL)"
      using k by (cases "set_iters s = []") (simp_all add: last_or_def last_conv_nth min_def)
    ultimately show ?thesis using np by simp
  qed
  then show ?thesis
    using vlSetFront_rep [OF set_invD(1) [OF assms]] vlSetBack_rep [OF set_invD(1) [OF assms]]
    by (simp add: set_iters_def)
qed

section \<open>Runs of insertions\<close>

lemma set_mem_insert:
  assumes inv: "set_inv s" and ord: "ordering_comparator (set_comparator s)"
    and room: "0 < pool_room (set_nodePool s)"
  obtains i s' where "vlSetInsert s e = Some (i, s')" "set_inv s'" "set_comparator s' = set_comparator s"
    "\<And>x. set_mem s' x \<longleftrightarrow> set_mem s x \<or> set_comparator s e x = 0"
    "pool_room (set_nodePool s) - 1 \<le> pool_room (set_nodePool s')"
    "set_balanced s \<Longrightarrow> set_balanced s'" "set_elementSize s' = set_elementSize s"
    "length (set_iters s) \<le> length (set_iters s')" "length (set_iters s') \<le> Suc (length (set_iters s))"
proof -
  have ready: "pool_ready (set_nodePool s)" using room by (simp add: pool_ready_def)
  note cmp_trans = ordering_comparator.axioms(1) [OF ord, THEN comparator.cmp_trans]
    and cmp_sign = ordering_comparator.cmp_sign [OF ord]
    and cmp_zero_sym = ordering_comparator.cmp_zero_sym [OF ord]
  from inv ord ready show thesis
  proof (cases rule: vlSetInsert_ok [where e = e])
    case (old i)
    have "set_mem s x" if "set_comparator s e x = 0" for x
    proof -
      obtain y where y: "y \<in> set (set_contents s)" "set_comparator s y e = 0"
        using old(3) by (auto simp: set_mem_def)
      have "set_comparator s y x \<le> 0" using cmp_trans [of y e x] y(2) that by simp
      moreover have "set_comparator s x y \<le> 0"
        using cmp_trans [of x e y] y(2) that cmp_zero_sym [of y e] cmp_zero_sym [of e x] by simp
      ultimately have "set_comparator s y x = 0" using cmp_sign [of x y] cmp_sign [of y x] by linarith
      then show ?thesis using y(1) by (auto simp: set_mem_def)
    qed
    then show thesis using that [OF old(1) inv] by auto
  next
    case (new i s' xs ys)
    note p = inserts_at_inv [OF inv ord new(2-5)]
    have c: "set_comparator s' = set_comparator s" "set_elementSize s' = set_elementSize s"
      "pool_room (set_nodePool s) - 1 \<le> pool_room (set_nodePool s')"
      using new(2) by (auto simp: inserts_at_def)
    have "set_mem s' x \<longleftrightarrow> set_mem s x \<or> set_comparator s e x = 0" for x
    proof -
      have "set (set_contents s') = insert e (set (set_contents s))"
        using p(4,8) unfolding p(4) by (auto simp: set_mem_def not_less le_less)
      then show ?thesis by (auto simp: set_mem_def c(1))
    qed
    then show thesis using that [OF new(1) p(1) c(1)] c p(2,7) new(3) by auto
  qed
qed

abbreviation set_put_elem :: "'a vl_set \<Rightarrow> 'a \<Rightarrow> 'a vl_set option" where
  "set_put_elem s e \<equiv> map_option snd (vlSetInsert s e)"

text \<open>The height of a balanced tree.\<close>

lemma balanced_height: "invc c t \<Longrightarrow> invh c t \<Longrightarrow> height t \<le> 2 * bh c t + (if root_col c t = BLACK then 0 else 1)"
proof (induction t)
  case (Node l x r)
  then have "height l \<le> 2 * bh c l + (if root_col c l = BLACK then 0 else 1)"
    "height r \<le> 2 * bh c l + (if root_col c r = BLACK then 0 else 1)" by simp_all
  then show ?case using Node.prems by (cases "c x") (auto split: if_splits)
qed simp

lemma balanced_size: "invh c t \<Longrightarrow> 2 ^ bh c t \<le> size t + 1"
proof (induction t)
  case (Node l x r)
  then have "2 ^ bh c l \<le> size l + 1" "2 ^ bh c l \<le> size r + 1" by simp_all
  then show ?case by (auto simp: mult_2)
qed simp

lemma set_height:
  assumes "set_inv s" and "set_balanced s"
  shows "2 ^ (height (set_shape s) div 2) \<le> length (set_iters s) + 1"
proof -
  let ?T = "set_shape s"
  have rb: "invh (col s) ?T" "invc (col s) ?T" using assms(2) by (simp_all add: set_balanced_def red_black_def)
  have "root_col (col s) ?T = BLACK"
    using set_invD(1,3) [OF assms(1)] tree_rep_sub_root [of s "[]" ?T]
    by (cases ?T) (auto simp: root_black_def tree_rep_def)
  then have "height ?T div 2 \<le> bh (col s) ?T" using balanced_height [OF rb(2,1)] by simp
  then have "(2::nat) ^ (height ?T div 2) \<le> 2 ^ bh (col s) ?T" by simp
  also have "\<dots> \<le> size ?T + 1" by (rule balanced_size [OF rb(1)])
  finally show ?thesis by (simp add: set_iters_def)
qed

lemma set_insert_all:
  "set_inv s \<Longrightarrow> ordering_comparator (set_comparator s) \<Longrightarrow> length es \<le> pool_room (set_nodePool s) \<Longrightarrow>
   \<exists>s'. push_all set_put_elem s es = Some s' \<and> set_inv s' \<and> set_comparator s' = set_comparator s \<and>
     (set_balanced s \<longrightarrow> set_balanced s') \<and>
     (\<forall>x. set_mem s' x \<longleftrightarrow> set_mem s x \<or> (\<exists>e \<in> set es. set_comparator s e x = 0))"
proof (induction es arbitrary: s)
  case Nil
  then show ?case by simp
next
  case (Cons e es)
  then have room: "0 < pool_room (set_nodePool s)" by simp
  obtain i t where t: "vlSetInsert s e = Some (i, t)" "set_inv t" "set_comparator t = set_comparator s"
    "\<And>x. set_mem t x \<longleftrightarrow> set_mem s x \<or> set_comparator s e x = 0"
    "pool_room (set_nodePool s) - 1 \<le> pool_room (set_nodePool t)" "set_balanced s \<Longrightarrow> set_balanced t"
    by (rule set_mem_insert [OF Cons.prems(1,2) room, of e]) blast
  have "length es \<le> pool_room (set_nodePool t)" using t(5) Cons.prems(3) by simp
  then obtain s' where "push_all set_put_elem t es = Some s'" "set_inv s'" "set_comparator s' = set_comparator t"
    "set_balanced t \<longrightarrow> set_balanced s'"
    "\<forall>x. set_mem s' x \<longleftrightarrow> set_mem t x \<or> (\<exists>e \<in> set es. set_comparator t e x = 0)"
    using Cons.IH [OF t(2)] Cons.prems(2) t(3) by auto
  then show ?case using t by auto
qed

text \<open>
  A run of insertions into a well-formed set with room returns; the set then has the old
  elements and the new ones, and if its tree was balanced, its height is at most twice the
  logarithm of the number of elements, so that every descent is that short.
\<close>

theorem set_insert_height:
  assumes "set_inv s" and "ordering_comparator (set_comparator s)"
    and "length es \<le> pool_room (set_nodePool s)" and "set_balanced s"
  shows "\<exists>s'. push_all (\<lambda>s e. map_option snd (vlSetInsert s e)) s es = Some s' \<and> set_inv s' \<and>
    (\<forall>x. set_mem s' x \<longleftrightarrow> set_mem s x \<or> (\<exists>e \<in> set es. set_comparator s e x = 0)) \<and>
    2 ^ (height (set_shape s') div 2) \<le> length (set_iters s') + 1"
  using set_insert_all [OF assms(1-3)] assms(4) set_height by blast

section \<open>The algebra of sets and copying\<close>

text \<open>The elements an iteration over a set inserts: those whose membership is as tested.\<close>

definition test_ok :: "('a vl_set \<times> bool) option \<Rightarrow> bool" where
  "test_ok test = (case test of None \<Rightarrow> True
     | Some (other, _) \<Rightarrow> set_inv other \<and> ordering_comparator (set_comparator other))"

definition wanted :: "('a vl_set \<times> bool) option \<Rightarrow> 'a \<Rightarrow> bool" where
  "wanted test e = (case test of None \<Rightarrow> True | Some (other, present) \<Rightarrow> set_mem other e = present)"

lemma wanted_test:
  assumes "test_ok test"
  shows "(case test of None \<Rightarrow> Some True
    | Some (other, present) \<Rightarrow> do {
        found \<leftarrow> vlSetFind other e;
        Some ((found \<noteq> VL_SET_ITER_INVALID) = present)
      }) = Some (wanted test e)"
proof (cases test)
  case (Some tp)
  obtain other present where tp: "tp = (other, present)" by (cases tp)
  let ?P = "\<lambda>i. set_comparator other (elt other i) e = 0"
  have o: "set_inv other" "ordering_comparator (set_comparator other)" using assms Some tp by (simp_all add: test_ok_def)
  have live: "i \<noteq> SNIL" if "i \<in> set (set_iters other)" for i
    using that o(1) SNIL_fresh [OF set_invD(5) [OF o(1)]] by (auto simp: set_inv_def)
  have "hd_or (filter ?P (set_iters other)) SNIL \<noteq> SNIL \<longleftrightarrow> set_mem other e"
  proof (cases "filter ?P (set_iters other)")
    case Nil
    then show ?thesis by (auto simp: set_mem_def set_inv_contents(1) [OF o(1)] filter_empty_conv)
  next
    case (Cons i js)
    then have "i \<in> set (filter ?P (set_iters other))" by simp
    then have "i \<in> set (set_iters other)" "?P i" by simp_all
    then show ?thesis using Cons live by (auto simp: set_mem_def set_inv_contents(1) [OF o(1)])
  qed
  then show ?thesis using Some tp by (simp add: vlSetFind_rep [OF o(2,1)] wanted_def)
qed (simp add: wanted_def)

lemma set_insert_each_ok:
  assumes src: "set_inv src" and test: "test_ok test"
  shows "set_inv dest \<Longrightarrow> ordering_comparator (set_comparator dest) \<Longrightarrow>
    set_iters src = xs @ ys \<Longrightarrow> length ys \<le> pool_room (set_nodePool dest) \<Longrightarrow>
    \<exists>d. set_insert_each src test dest (hd_or ys SNIL) = Some d \<and> set_inv d \<and>
      set_comparator d = set_comparator dest \<and> set_elementSize d = set_elementSize dest \<and>
      pool_room (set_nodePool dest) \<le> pool_room (set_nodePool d) + length ys \<and>
      (\<forall>x. set_mem d x \<longleftrightarrow> set_mem dest x \<or>
        (\<exists>i \<in> set ys. wanted test (elt src i) \<and> set_comparator dest (elt src i) x = 0))"
proof (induction ys arbitrary: dest xs)
  case Nil
  then show ?case by (simp add: set_insert_each.simps [of src test dest SNIL])
next
  case (Cons i ys)
  have i: "i \<in> set (set_iters src)" using Cons.prems(3) by simp
  then have "i \<noteq> SNIL" using src SNIL_fresh [OF set_invD(5) [OF src]] by (auto simp: set_inv_def)
  then have step: "set_insert_each src test dest i = do {
      dest \<leftarrow> (if wanted test (elt src i)
        then do { (_, dest) \<leftarrow> vlSetInsert dest (elt src i); Some dest } else Some dest);
      set_insert_each src test dest (hd_or ys SNIL) }"
    using set_inv_contents(2) [OF src i] wanted_test [OF test] set_next_prev(1) [OF src Cons.prems(3)]
    by (simp add: set_insert_each.simps [of src test dest i])
  have next_it: "set_iters src = (xs @ [i]) @ ys" using Cons.prems(3) by simp
  show ?case
  proof (cases "wanted test (elt src i)")
    case True
    have room: "0 < pool_room (set_nodePool dest)" using Cons.prems(4) by simp
    obtain j t where t: "vlSetInsert dest (elt src i) = Some (j, t)" "set_inv t"
      "set_comparator t = set_comparator dest"
      "\<And>x. set_mem t x \<longleftrightarrow> set_mem dest x \<or> set_comparator dest (elt src i) x = 0"
      "pool_room (set_nodePool dest) - 1 \<le> pool_room (set_nodePool t)"
      "set_elementSize t = set_elementSize dest"
      by (rule set_mem_insert [OF Cons.prems(1,2) room, of "elt src i"]) blast
    have "length ys \<le> pool_room (set_nodePool t)" using t(5) Cons.prems(4) by simp
    then obtain d where d: "set_insert_each src test t (hd_or ys SNIL) = Some d" "set_inv d"
      "set_comparator d = set_comparator t" "set_elementSize d = set_elementSize t"
      "pool_room (set_nodePool t) \<le> pool_room (set_nodePool d) + length ys"
      "\<forall>x. set_mem d x \<longleftrightarrow> set_mem t x \<or>
        (\<exists>i \<in> set ys. wanted test (elt src i) \<and> set_comparator t (elt src i) x = 0)"
      using Cons.IH [OF t(2) _ next_it] Cons.prems(2) t(3) by auto
    then show ?thesis using step True t by auto
  next
    case False
    have "length ys \<le> pool_room (set_nodePool dest)" using Cons.prems(4) by simp
    then obtain d where "set_insert_each src test dest (hd_or ys SNIL) = Some d" "set_inv d"
      "set_comparator d = set_comparator dest" "set_elementSize d = set_elementSize dest"
      "pool_room (set_nodePool dest) \<le> pool_room (set_nodePool d) + length ys"
      "\<forall>x. set_mem d x \<longleftrightarrow> set_mem dest x \<or>
        (\<exists>i \<in> set ys. wanted test (elt src i) \<and> set_comparator dest (elt src i) x = 0)"
      using Cons.IH [OF Cons.prems(1,2) next_it] by blast
    then show ?thesis using step False by auto
  qed
qed

lemma set_foreach_insert_ok:
  assumes src: "set_inv src" and test: "test_ok test" and dest: "set_inv dest"
    and ord: "ordering_comparator (set_comparator dest)"
    and room: "length (set_iters src) + k \<le> pool_room (set_nodePool dest)"
  obtains d where "set_foreach_insert src test dest = Some d" "set_inv d"
    "set_comparator d = set_comparator dest" "k \<le> pool_room (set_nodePool d)"
    "\<And>x. set_mem d x \<longleftrightarrow> set_mem dest x \<or>
      (\<exists>y \<in> set (set_contents src). wanted test y \<and> set_comparator dest y x = 0)"
proof -
  have "set_iters src = [] @ set_iters src" by simp
  from set_insert_each_ok [OF src test dest ord this] room obtain d where
    d: "set_insert_each src test dest (hd_or (set_iters src) SNIL) = Some d" "set_inv d"
      "set_comparator d = set_comparator dest"
      "pool_room (set_nodePool dest) \<le> pool_room (set_nodePool d) + length (set_iters src)"
      "\<forall>x. set_mem d x \<longleftrightarrow> set_mem dest x \<or>
        (\<exists>i \<in> set (set_iters src). wanted test (elt src i) \<and> set_comparator dest (elt src i) x = 0)"
    by auto
  have "vlSetFront src = Some (hd_or (set_iters src) SNIL)"
    using vlSetFront_rep [OF set_invD(1) [OF src]] by (simp add: set_iters_def)
  then show thesis
    using d room by (intro that [of d]) (auto simp: set_foreach_insert_def set_inv_contents(1) [OF src])
qed

text \<open>Membership respects the equivalence of elements.\<close>

lemma set_mem_cong:
  assumes "ordering_comparator (set_comparator s)" and "set_comparator s x y = 0"
  shows "set_mem s x \<longleftrightarrow> set_mem s y"
proof -
  note cmp_trans = ordering_comparator.axioms(1) [OF assms(1), THEN comparator.cmp_trans]
    and sign = ordering_comparator.cmp_sign [OF assms(1)]
    and sym = ordering_comparator.cmp_zero_sym [OF assms(1)]
  have tr: "set_comparator s a c = 0" if "set_comparator s a b = 0" "set_comparator s b c = 0" for a b c
    using that cmp_trans [of a b c] cmp_trans [of c b a] sym [of a b] sym [of b c] sign [of a c] sign [of c a]
    by linarith
  show ?thesis unfolding set_mem_def using tr assms(2) sym by blast
qed

text \<open>
  C16. \<^verbatim>\<open>vlSetUnion\<close>, \<^verbatim>\<open>vlSetIntersection\<close> and \<^verbatim>\<open>vlSetDifference\<close> of two well-formed sets of the same
  kind, into a well-formed destination with room for both, return: up to equivalence, the
  destination has gained exactly the union, the intersection or the difference of the two.
  Operands that differ in the element size or in the comparator give the null pointer.
\<close>

theorem set_algebra:
  assumes "set_inv a" and "set_inv b" and "ordering_comparator (set_comparator a)"
    and "set_destination ok a dest = Some d" and "set_inv d" and "set_comparator d = set_comparator a"
    and "length (set_iters a) + length (set_iters b) \<le> pool_room (set_nodePool d)"
  shows "if set_elementSize a = set_elementSize b \<and> set_comparator a = set_comparator b
    then (\<exists>r. vlSetUnion ok a b dest = Some (Some r) \<and> set_inv r \<and>
        (\<forall>x. set_mem r x \<longleftrightarrow> set_mem d x \<or> set_mem a x \<or> set_mem b x)) \<and>
      (\<exists>r. vlSetIntersection ok a b dest = Some (Some r) \<and> set_inv r \<and>
        (\<forall>x. set_mem r x \<longleftrightarrow> set_mem d x \<or> set_mem a x \<and> set_mem b x)) \<and>
      (length (set_iters b) < 2 ^ 32 \<longrightarrow> (\<exists>r. vlSetDifference ok a b dest = Some (Some r) \<and> set_inv r \<and>
        (\<forall>x. set_mem r x \<longleftrightarrow> set_mem d x \<or> set_mem a x \<and> \<not> set_mem b x)))
    else vlSetUnion ok a b dest = Some None \<and> vlSetIntersection ok a b dest = Some None \<and>
      vlSetDifference ok a b dest = Some None"
proof (cases "set_elementSize a = set_elementSize b \<and> set_comparator a = set_comparator b")
  case True
  then have same: "set_elementSize a = set_elementSize b" "set_comparator b = set_comparator a" by simp_all
  note ord = assms(3)
  have ordd: "ordering_comparator (set_comparator d)" and ordb: "ordering_comparator (set_comparator b)"
    using ord assms(6) same(2) by simp_all
  have test: "test_ok None" "test_ok (Some (a, p))" "test_ok (Some (b, p))" for p
    using assms(1,2) ord ordb by (simp_all add: test_ok_def)
  have any: "(\<exists>y \<in> set (set_contents s). wanted None y \<and> set_comparator a y x = 0) \<longleftrightarrow> set_mem s x"
    if "set_comparator s = set_comparator a" for s x
    by (simp add: wanted_def set_mem_def that)
  have sel: "(\<exists>y \<in> set (set_contents s). wanted (Some (t, p)) y \<and> set_comparator a y x = 0) \<longleftrightarrow>
      set_mem s x \<and> set_mem t x = p"
    if "set_comparator s = set_comparator a" "set_comparator t = set_comparator a" for s t p x
  proof -
    have "set_mem t y = set_mem t x" if "set_comparator a y x = 0" for y
      using set_mem_cong [of t y x] that \<open>set_comparator t = set_comparator a\<close> ord by simp
    then show ?thesis using that(1) by (auto simp: wanted_def set_mem_def [of s])
  qed
  have "\<exists>r. vlSetUnion ok a b dest = Some (Some r) \<and> set_inv r \<and>
      (\<forall>x. set_mem r x \<longleftrightarrow> set_mem d x \<or> set_mem a x \<or> set_mem b x)"
  proof -
    obtain d1 where d1: "set_foreach_insert a None d = Some d1" "set_inv d1"
      "set_comparator d1 = set_comparator d" "length (set_iters b) \<le> pool_room (set_nodePool d1)"
      "\<And>x. set_mem d1 x \<longleftrightarrow> set_mem d x \<or>
        (\<exists>y \<in> set (set_contents a). wanted None y \<and> set_comparator d y x = 0)"
      by (rule set_foreach_insert_ok [OF assms(1) test(1) assms(5) ordd assms(7)]) blast
    have ord1: "ordering_comparator (set_comparator d1)" using ordd d1(3) by simp
    have room1: "length (set_iters b) + 0 \<le> pool_room (set_nodePool d1)" using d1(4) by simp
    obtain d2 where d2: "set_foreach_insert b None d1 = Some d2" "set_inv d2"
      "\<And>x. set_mem d2 x \<longleftrightarrow> set_mem d1 x \<or>
        (\<exists>y \<in> set (set_contents b). wanted None y \<and> set_comparator d1 y x = 0)"
      by (rule set_foreach_insert_ok [OF assms(2) test(1) d1(2) ord1 room1]) blast
    show ?thesis
      using same(1) assms(4) same(2) d1(1) d2(1,2)
      by (auto simp: vlSetUnion_def d2(3) d1(5) d1(3) assms(6) any)
  qed
  moreover have "\<exists>r. vlSetIntersection ok a b dest = Some (Some r) \<and> set_inv r \<and>
      (\<forall>x. set_mem r x \<longleftrightarrow> set_mem d x \<or> set_mem a x \<and> set_mem b x)"
  proof -
    have rooms: "length (set_iters a) + 0 \<le> pool_room (set_nodePool d)"
      "length (set_iters b) + 0 \<le> pool_room (set_nodePool d)" using assms(7) by simp_all
    obtain d1 where d1: "set_foreach_insert a (Some (b, True)) d = Some d1" "set_inv d1"
      "\<And>x. set_mem d1 x \<longleftrightarrow> set_mem d x \<or>
        (\<exists>y \<in> set (set_contents a). wanted (Some (b, True)) y \<and> set_comparator d y x = 0)"
      by (rule set_foreach_insert_ok [OF assms(1) test(3) assms(5) ordd rooms(1)]) blast
    obtain d2 where d2: "set_foreach_insert b (Some (a, True)) d = Some d2" "set_inv d2"
      "\<And>x. set_mem d2 x \<longleftrightarrow> set_mem d x \<or>
        (\<exists>y \<in> set (set_contents b). wanted (Some (a, True)) y \<and> set_comparator d y x = 0)"
      by (rule set_foreach_insert_ok [OF assms(2) test(2) assms(5) ordd rooms(2)]) blast
    show ?thesis
      using same(1) assms(4) same(2) d1(1,2) d2(1,2)
      by (cases "set_totalElements a \<le> set_totalElements b")
        (auto simp: vlSetIntersection_def d2(3) d1(3) assms(6) sel [OF refl same(2)] sel [OF same(2) refl])
  qed
  moreover have "\<exists>r. vlSetDifference ok a b dest = Some (Some r) \<and> set_inv r \<and>
      (\<forall>x. set_mem r x \<longleftrightarrow> set_mem d x \<or> set_mem a x \<and> \<not> set_mem b x)" if "length (set_iters b) < 2 ^ 32"
  proof -
    have room: "length (set_iters a) + 0 \<le> pool_room (set_nodePool d)" using assms(7) by simp
    obtain d1 where d1: "set_foreach_insert a (Some (b, False)) d = Some d1" "set_inv d1"
      "\<And>x. set_mem d1 x \<longleftrightarrow> set_mem d x \<or>
        (\<exists>y \<in> set (set_contents a). wanted (Some (b, False)) y \<and> set_comparator d y x = 0)"
      by (rule set_foreach_insert_ok [OF assms(1) test(3) assms(5) ordd room]) blast
    obtain d2 where d2: "set_foreach_insert a None d = Some d2" "set_inv d2"
      "\<And>x. set_mem d2 x \<longleftrightarrow> set_mem d x \<or>
        (\<exists>y \<in> set (set_contents a). wanted None y \<and> set_comparator d y x = 0)"
      by (rule set_foreach_insert_ok [OF assms(1) test(1) assms(5) ordd room]) blast
    have empty: "\<not> set_mem b x" if "set_totalElements b = 0" for x
    proof -
      have "set_iters b = []"
        using that assms(2) u32_of_id [OF \<open>length (set_iters b) < 2 ^ 32\<close>] by (simp add: set_inv_def)
      then show ?thesis by (simp add: set_mem_def set_contents_def)
    qed
    show ?thesis
      using same(1) assms(4) same(2) d1(1,2) d2(1,2) empty
      by (cases "set_totalElements b = 0")
        (auto simp: vlSetDifference_def d2(3) d1(3) assms(6) any sel [OF refl same(2)])
  qed
  ultimately show ?thesis using same by auto
next
  case False
  then have "set_elementSize a \<noteq> set_elementSize b \<or> set_comparator a \<noteq> set_comparator b" by blast
  then show ?thesis unfolding if_not_P [OF False] by (simp add: vlSetUnion_def vlSetIntersection_def vlSetDifference_def)
qed

lemma set_copy_loop_ok:
  assumes src: "set_inv src"
  shows "set_inv dest \<Longrightarrow> ordering_comparator (set_comparator dest) \<Longrightarrow>
    set_iters src = xs @ (i # seg) @ zs \<Longrightarrow> length (i # seg) \<le> pool_room (set_nodePool dest) \<Longrightarrow>
    c + length (i # seg) < 2 ^ 31 \<Longrightarrow>
    \<exists>d. set_copy_loop src (last (i # seg)) dest i c = Some (c + length (i # seg), d) \<and> set_inv d \<and>
      (\<forall>x. set_mem d x \<longleftrightarrow> set_mem dest x \<or>
        (\<exists>j \<in> set (i # seg). set_comparator dest (elt src j) x = 0))"
proof (induction seg arbitrary: dest xs i c)
  case (Nil dest xs i c)
  have i: "i \<in> set (set_iters src)" using Nil.prems(3) by simp
  then have nil: "i \<noteq> SNIL" using src SNIL_fresh [OF set_invD(5) [OF src]] by (auto simp: set_inv_def)
  have room: "0 < pool_room (set_nodePool dest)" using Nil.prems(4) by simp
  obtain j t where "vlSetInsert dest (elt src i) = Some (j, t)" "set_inv t"
    "\<And>x. set_mem t x \<longleftrightarrow> set_mem dest x \<or> set_comparator dest (elt src i) x = 0"
    by (rule set_mem_insert [OF Nil.prems(1,2) room, of "elt src i"]) blast
  then show ?case
    using nil set_inv_contents(2) [OF src i] Nil.prems(5) by (simp add: set_copy_loop.simps [of src i dest i c])
next
  case (Cons k seg dest xs i c)
  have dist: "distinct (set_iters src)" by (rule set_invD(4) [OF src])
  have i: "i \<in> set (set_iters src)" using Cons.prems(3) by simp
  then have nil: "i \<noteq> SNIL" using src SNIL_fresh [OF set_invD(5) [OF src]] by (auto simp: set_inv_def)
  have room: "0 < pool_room (set_nodePool dest)" using Cons.prems(4) by simp
  obtain j t where t: "vlSetInsert dest (elt src i) = Some (j, t)" "set_inv t"
    "set_comparator t = set_comparator dest"
    "\<And>x. set_mem t x \<longleftrightarrow> set_mem dest x \<or> set_comparator dest (elt src i) x = 0"
    "pool_room (set_nodePool dest) - 1 \<le> pool_room (set_nodePool t)"
    by (rule set_mem_insert [OF Cons.prems(1,2) room, of "elt src i"]) blast
  have "last (k # seg) \<noteq> i" using dist Cons.prems(3) last_in_set [of "k # seg"] by auto
  moreover have "set_iters src = xs @ i # (k # seg @ zs)" using Cons.prems(3) by simp
  note set_next_prev(1) [OF src this]
  ultimately have step: "set_copy_loop src (last (i # k # seg)) dest i c =
      set_copy_loop src (last (k # seg)) t k (c + 1)"
    using nil set_inv_contents(2) [OF src i] Cons.prems(5) t(1)
    by (simp add: set_copy_loop.simps [of src _ dest i c])
  have it: "set_iters src = (xs @ [i]) @ (k # seg) @ zs" using Cons.prems(3) by simp
  have "ordering_comparator (set_comparator t)" "length (k # seg) \<le> pool_room (set_nodePool t)"
    "c + 1 + length (k # seg) < 2 ^ 31"
    using Cons.prems(2,4,5) t(3,5) by simp_all
  from Cons.IH [OF t(2) this(1) it this(2,3)] obtain d where
    "set_copy_loop src (last (k # seg)) t k (c + 1) = Some (c + 1 + length (k # seg), d)" "set_inv d"
    "\<forall>x. set_mem d x \<longleftrightarrow> set_mem t x \<or> (\<exists>j \<in> set (k # seg). set_comparator t (elt src j) x = 0)"
    by blast
  then show ?case using step t(3,4) by auto
qed

text \<open>
  \<^verbatim>\<open>vlSetCopy\<close> of the elements between two iterators of the source, both included, returns
  their number; the destination then has them besides its own. The invalid iterator stands for
  the first and for the last one.
\<close>

theorem set_copy_range:
  assumes "set_inv src" and "set_inv dest" and "ordering_comparator (set_comparator dest)"
    and "set_comparator src = set_comparator dest" and "set_elementSize src = set_elementSize dest"
    and "b \<le> e" and "e < length (set_iters src)" and "length (set_iters src) < 2 ^ 31"
    and "Suc e - b \<le> pool_room (set_nodePool dest)"
  shows "(\<exists>d. vlSetCopy src (set_iters src ! b) (set_iters src ! e) dest = Some (Suc e - b, d) \<and> set_inv d \<and>
      (\<forall>x. set_mem d x \<longleftrightarrow> set_mem dest x \<or>
        (\<exists>y \<in> set (take (Suc e - b) (drop b (set_contents src))). set_comparator dest y x = 0))) \<and>
    vlSetCopy src VL_SET_ITER_INVALID VL_SET_ITER_INVALID dest =
      vlSetCopy src (set_iters src ! 0) (last (set_iters src)) dest"
proof -
  let ?L = "set_iters src"
  have ne: "?L \<noteq> []" using assms(7) by auto
  have tot: "set_totalElements src \<noteq> 0"
    using assms(1,8) ne u32_of_id [of "length ?L"] by (simp add: set_inv_def)
  have live: "i \<noteq> SNIL" if "i \<in> set ?L" for i
    using that assms(1) SNIL_fresh [OF set_invD(5) [OF assms(1)]] by (auto simp: set_inv_def)
  define seg where "seg = take (Suc e - b) (drop b ?L)"
  have seg_len: "length seg = Suc e - b" using assms(6,7) by (simp add: seg_def)
  obtain i s' where seg: "seg = i # s'" using seg_len assms(6) by (cases seg) auto
  have i: "?L ! b = i"
    using seg assms(6,7) hd_drop_conv_nth [of b ?L] by (simp add: seg_def hd_conv_nth take_Suc_conv_app_nth nth_Cons')
      (metis Suc_diff_le nth_Cons_0 nth_take zero_less_Suc nth_drop add_0_right less_imp_le_nat le_less_trans)
  have last: "?L ! e = last seg"
    using assms(6,7) seg_len by (simp add: seg_def last_conv_nth)
  have split: "?L = take b ?L @ seg @ drop (Suc e) ?L"
    using assms(6) by (simp add: seg_def) (metis append_take_drop_id drop_drop le_add_diff_inverse2 le_SucI)
  have "length seg < 2 ^ 31" using seg_len assms(7,8) by simp
  then have "\<exists>d. set_copy_loop src (last seg) dest i 0 = Some (0 + length seg, d) \<and> set_inv d \<and>
      (\<forall>x. set_mem d x \<longleftrightarrow> set_mem dest x \<or> (\<exists>j \<in> set seg. set_comparator dest (elt src j) x = 0))"
    using set_copy_loop_ok [OF assms(1-3) split [unfolded seg], of 0] assms(9) seg_len seg by simp
  then obtain d where d: "set_copy_loop src (last seg) dest i 0 = Some (Suc e - b, d)" "set_inv d"
    "\<forall>x. set_mem d x \<longleftrightarrow> set_mem dest x \<or> (\<exists>j \<in> set seg. set_comparator dest (elt src j) x = 0)"
    using seg_len by auto
  have bl: "?L ! b \<noteq> SNIL" "?L ! e \<noteq> SNIL" using live nth_mem assms(6,7) by auto
  have "vlSetCopy src (?L ! b) (?L ! e) dest = Some (Suc e - b, d)"
    using assms(4,5) tot bl d(1) by (simp add: vlSetCopy_def i last)
  moreover have "set (take (Suc e - b) (drop b (set_contents src))) = elt src ` set seg"
    by (simp add: seg_def set_inv_contents(1) [OF assms(1)] take_map drop_map)
  moreover have "vlSetFront src = Some (?L ! 0)" "vlSetBack src = Some (last ?L)"
    using vlSetFront_rep [OF set_invD(1) [OF assms(1)]] vlSetBack_rep [OF set_invD(1) [OF assms(1)]] ne
    by (simp_all add: set_iters_def [symmetric] last_or_def hd_or_def hd_conv_nth split: list.split)
  then have "vlSetCopy src SNIL SNIL dest = vlSetCopy src (?L ! 0) (last ?L) dest"
    using live [of "?L ! 0"] live [of "last ?L"] ne by (simp add: vlSetCopy_def)
  ultimately show ?thesis using d(2,3) by auto
qed

section \<open>Initialising, clearing and cloning\<close>

lemma empty_set_inv:
  assumes "set_ok s" and "set_live s = {}" and "set_root s = SNIL" and "set_totalElements s = 0"
  shows "set_inv s" and "set_iters s = []" and "set_balanced s"
proof -
  have rep: "tree_rep s Leaf" using assms by (simp add: tree_rep_def)
  show "set_inv s" using assms by (simp add: set_inv_rep [OF rep] root_black_def u32_of_def)
  show "set_iters s = []" by (simp add: set_iters_rep [OF rep])
  show "set_balanced s" by (simp add: set_balanced_def set_shape_rep [OF rep] red_black_def)
qed

lemma vlSetInit_ok:
  assumes ok: "\<forall>b < 2 ^ 20. ok b" and n: "n < 2 ^ 14"
  obtains s :: "'a vl_set" and E where "vlSetInit ok n cmp = Some s" "set_inv s" "set_iters s = []" "set_balanced s"
    "set_comparator s = cmp" "set_elementSize s = n" "set_nodePool s = fresh_pool ok E 8" "0 < E" "E < 2 ^ 16"
proof -
  have u: "u16_of (32 + n) = 32 + n" "u16_of n = n" using n by (simp_all add: u16_of_def)
  have b: "0 < 32 + n" "32 + n < 2 ^ 15" using n by simp_all
  obtain E where E: "vlPoolInit ok (32 + n) = Some (fresh_pool ok E 8 :: 'a vl_set_node vl_pool)" "0 < E" "E < 2 ^ 16"
    by (rule vlPoolInit_ok [OF ok b])
  let ?s = "\<lparr>set_nodePool = fresh_pool ok E 8, set_elementSize = n, set_totalElements = 0,
    set_comparator = cmp, set_root = SNIL\<rparr> :: 'a vl_set"
  note fp = fresh_pool_props [OF E(2), of ok 8, where 'a = "'a vl_set_node"]
  have s: "set_ok ?s" "set_live ?s = {}" using fp by (simp_all add: set_ok_def set_live_def)
  show thesis
    by (rule that [of ?s E]) (use E empty_set_inv [OF s] u in \<open>simp_all add: vlSetInit_def\<close>)
qed

lemma fresh_set:
  obtains s :: "'a vl_set" where "vlSetInit (\<lambda>_. True) 4 cmp = Some s" "set_inv s" "set_iters s = []"
    "set_balanced s" "set_comparator s = cmp" "set_elementSize s = 4" "pool_room (set_nodePool s) = 16"
    "\<And>n. n \<le> 16 \<Longrightarrow> pool_can_return (set_nodePool s) n" "mallocOk (set_nodePool s) = (\<lambda>_. True)"
    "\<And>x. \<not> set_mem s x"
proof -
  obtain s :: "'a vl_set" and E where s: "vlSetInit (\<lambda>_. True) 4 cmp = Some s" "set_inv s" "set_iters s = []"
    "set_balanced s" "set_comparator s = cmp" "set_elementSize s = 4"
    "set_nodePool s = fresh_pool (\<lambda>_. True) E 8" "0 < E" "E < 2 ^ 16"
    by (rule vlSetInit_ok [of "\<lambda>_. True" 4 cmp]) auto
  note can = fresh_pool_can(1) [of "\<lambda>_. True" E, OF _ s(9)]
  show thesis
  proof (rule that [of s])
    show "pool_can_return (set_nodePool s) n" if "n \<le> 16" for n using can that by (simp add: s(7))
    show "pool_room (set_nodePool s) = 16" by (simp add: s(7) pool_room_def fresh_pool_def node_at_def)
    show "\<not> set_mem s x" for x by (simp add: set_mem_def set_contents_def s(3))
  qed (use s in \<open>simp_all add: fresh_pool_def\<close>)
qed

text \<open>
  \<^verbatim>\<open>vlSetClear\<close> of a well-formed set leaves a well-formed empty one whose pool has room for
  all its slots; \<^verbatim>\<open>vlSetClone\<close> into a set of the same element size whose pool has an equally
  large table gives the same iterators, with the same elements, whatever the destination held.
\<close>

theorem set_clear_clone:
  assumes "set_inv s" and "set_inv d" and "\<forall>b. ok b" and "mallocOk (set_nodePool d) = ok"
    and "lookupCapacity (set_nodePool d) = lookupCapacity (set_nodePool s)"
    and "set_elementSize d = set_elementSize s"
  shows "(\<exists>c. vlSetClear s = Some c \<and> set_inv c \<and> set_contents c = [] \<and>
      pool_room (set_nodePool c) = pool_capacity (set_nodePool s)) \<and>
    (\<exists>q. vlSetClone ok s (Some d) = Some q \<and> set_inv q \<and> set_iters q = set_iters s \<and>
      set_contents q = set_contents s \<and> set_comparator q = set_comparator s)"
proof
  have inv: "pool_inv (set_nodePool s)" using set_invD(5) [OF assms(1)] by (simp add: set_ok_def)
  obtain p where p: "vlPoolClear (set_nodePool s) = Some p" "pool_inv p" "pool_live p = {}"
    "pool_room p = pool_capacity (set_nodePool s)"
    by (rule vlPoolClear_ok [OF inv]) blast
  let ?c = "s\<lparr>set_nodePool := p, set_root := SNIL, set_totalElements := 0\<rparr>"
  have "set_ok ?c" "set_live ?c = {}" using p(2,3) by (simp_all add: set_ok_def set_live_def)
  from empty_set_inv [OF this] have "set_inv ?c" "set_iters ?c = []" by simp_all
  then show "\<exists>c. vlSetClear s = Some c \<and> set_inv c \<and> set_contents c = [] \<and>
      pool_room (set_nodePool c) = pool_capacity (set_nodePool s)"
    using p by (simp add: vlSetClear_def set_contents_def)
next
  have src: "pool_inv (set_nodePool s)" "pool_inv (set_nodePool d)"
    using set_invD(5) [OF assms(1)] set_invD(5) [OF assms(2)] by (simp_all add: set_ok_def)
  note cl = vlPoolClone_some [OF src(1) assms(3) src(2) assms(5,4)]
  define m where "m = max (freeCapacity (set_nodePool d)) (freeCapacity (set_nodePool s))"
  have same: "pool_inv (set_nodePool s\<lparr>freeCapacity := m, mallocOk := ok\<rparr>)"
    "pool_live (set_nodePool s\<lparr>freeCapacity := m, mallocOk := ok\<rparr>) = pool_live (set_nodePool s)"
    "vlPoolSample (set_nodePool s\<lparr>freeCapacity := m, mallocOk := ok\<rparr>) = vlPoolSample (set_nodePool s)"
    by (rule clone_same [OF src(1)]; simp add: m_def)+
  define q where "q = d\<lparr>set_nodePool := set_nodePool s\<lparr>freeCapacity := m, mallocOk := ok\<rparr>,
    set_totalElements := set_totalElements s, set_elementSize := set_elementSize s,
    set_comparator := set_comparator s, set_root := set_root s\<rparr>"
  have q: "set_ok q" "set_live q = set_live s" "cell q = cell s" "set_root q = set_root s"
    "set_totalElements q = set_totalElements s" "set_comparator q = set_comparator s"
    using same by (simp_all add: q_def set_ok_def set_live_def cell_def)
  have rep: "tree_rep q (set_shape s)" using set_invD(1) [OF assms(1)] q by (simp add: tree_rep_def)
  have e: "elt q = elt s" "col q = col s" by (rule ext, simp only: elt_def col_def q(3))+
  have "set_inv q"
    using assms(1) unfolding set_inv_rep [OF rep] set_inv_rep [OF set_invD(1) [OF assms(1)]] e
    by (simp add: q root_black_def e)
  moreover have "set_iters q = set_iters s" by (simp add: set_iters_def set_shape_rep [OF rep])
  moreover have "set_contents q = set_contents s"
    by (simp add: set_contents_rep [OF rep] set_contents_rep [OF set_invD(1) [OF assms(1)]] e)
  moreover have "vlSetClone ok s (Some d) = Some q"
    using cl assms(6) by (simp add: vlSetClone_def m_def q_def)
  ultimately show "\<exists>q. vlSetClone ok s (Some d) = Some q \<and> set_inv q \<and> set_iters q = set_iters s \<and>
      set_contents q = set_contents s \<and> set_comparator q = set_comparator s"
    using q(6) by blast
qed

section \<open>The theorems at concrete sets\<close>

lemma singleton_set:
  assumes "ordering_comparator cmp"
  obtains s t :: "'a vl_set" and i where "vlSetInit (\<lambda>_. True) 4 cmp = Some s" "vlSetInsert s e = Some (i, t)"
    "set_inv t" "set_iters t = [i]" "set_contents t = [e]" "set_comparator t = cmp" "set_elementSize t = 4"
    "15 \<le> pool_room (set_nodePool t)" "\<And>n. n \<le> 16 \<Longrightarrow> pool_can_return (set_nodePool t) n"
    "set_balanced t"
proof -
  obtain s :: "'a vl_set" where s: "vlSetInit (\<lambda>_. True) 4 cmp = Some s" "set_inv s" "set_iters s = []"
    "set_balanced s" "set_comparator s = cmp" "set_elementSize s = 4" "pool_room (set_nodePool s) = 16"
    "\<And>n. n \<le> 16 \<Longrightarrow> pool_can_return (set_nodePool s) n" "\<And>x. \<not> set_mem s x"
    by (rule fresh_set [of cmp]) blast
  have "pool_ready (set_nodePool s)" using s(7) by (simp add: pool_ready_def)
  with s(2) assms [folded s(5)] show thesis
  proof (cases rule: vlSetInsert_ok [where e = e])
    case (old i)
    then show thesis using s(9) by simp
  next
    case (new i t xs ys)
    note p = inserts_at_inv [OF s(2) assms [folded s(5)] new(2-5)]
    have "set_comparator t = cmp" "set_elementSize t = 4" "15 \<le> pool_room (set_nodePool t)"
      "\<forall>n. pool_can_return (set_nodePool s) n \<longrightarrow> pool_can_return (set_nodePool t) n"
      using new(2) s(5,6,7) by (auto simp: inserts_at_def)
    moreover have "set_contents s = []" by (simp add: set_contents_def s(3))
    ultimately show thesis
      using that [OF s(1) new(1) p(1)] p(2,4,7) new(3) s(3,4,8) by simp
  qed
qed

abbreviation cmp32 :: "u32 \<Rightarrow> u32 \<Rightarrow> int" where
  "cmp32 \<equiv> vlCompareUInt"

theorem set_insert_sorted_witness:
  "\<exists>s i t. vlSetInit (\<lambda>_. True) 4 cmp32 = Some s \<and> vlSetInsert s 7 = Some (i, t) \<and> set_contents t = [7]"
proof -
  obtain s where s: "vlSetInit (\<lambda>_. True) 4 cmp32 = Some s" "set_inv s" "set_iters s = []"
    "set_comparator s = cmp32" "pool_room (set_nodePool s) = 16" "\<And>x. \<not> set_mem s x"
    by (rule fresh_set [of cmp32]) blast
  have "pool_ready (set_nodePool s)" using s(5) by (simp add: pool_ready_def)
  moreover have "ordering_comparator (set_comparator s)" using s(4) cmp_uint.ordering_comparator_axioms by simp
  moreover have "set_contents s = []" using s(3) by (simp add: set_contents_def)
  ultimately show ?thesis using set_insert_sorted [OF s(2), of 7] s(1,6) by auto
qed

theorem set_find_exact_witness:
  "\<exists>s t i. vlSetInit (\<lambda>_. True) 4 cmp32 = Some s \<and> vlSetInsert s 7 = Some (i, t) \<and>
    vlSetFind t 7 = Some i \<and> vlSetFind t 8 = Some VL_SET_ITER_INVALID"
proof -
  obtain s t i where s: "vlSetInit (\<lambda>_. True) 4 cmp32 = Some s" "vlSetInsert s 7 = Some (i, t)"
    "set_inv t" "set_iters t = [i]" "set_contents t = [7]" "set_comparator t = cmp32"
    by (rule singleton_set [OF cmp_uint.ordering_comparator_axioms]) blast
  have "ordering_comparator (set_comparator t)" using s(6) cmp_uint.ordering_comparator_axioms by simp
  note f = set_find_exact [OF s(3) this]
  have "set_mem t 7" "\<not> set_mem t 8" by (simp_all add: set_mem_def s(5,6) vlCompareUInt_def)
  then show ?thesis using f [of 7] f [of 8] s(1,2,4) by auto
qed

theorem set_remove_one_witness:
  "\<exists>s t i u. vlSetInit (\<lambda>_. True) 4 cmp32 = Some s \<and> vlSetInsert s 7 = Some (i, t) \<and>
    vlSetRemove t i = Some u \<and> set_contents u = []"
proof -
  obtain s t i where s: "vlSetInit (\<lambda>_. True) 4 cmp32 = Some s" "vlSetInsert s 7 = Some (i, t)"
    "set_inv t" "set_iters t = [i]" "set_contents t = [7]" "set_comparator t = cmp32"
    "\<And>n. n \<le> 16 \<Longrightarrow> pool_can_return (set_nodePool t) n"
    by (rule singleton_set [OF cmp_uint.ordering_comparator_axioms]) blast
  have "ordering_comparator (set_comparator t)" using s(6) cmp_uint.ordering_comparator_axioms by simp
  moreover have "pool_can_return (set_nodePool t) (Suc 0)" using s(7) by simp
  ultimately show ?thesis using set_remove_one [OF s(3), of 0 8] s(1,2,4,5) by auto
qed

theorem set_walk_sorted_witness:
  "\<exists>s t i. vlSetInit (\<lambda>_. True) 4 cmp32 = Some s \<and> vlSetInsert s 7 = Some (i, t) \<and>
    vlSetFront t = Some i \<and> vlSetNext t i = Some VL_SET_ITER_INVALID"
proof -
  obtain s t i where s: "vlSetInit (\<lambda>_. True) 4 cmp32 = Some s" "vlSetInsert s 7 = Some (i, t)"
    "set_inv t" "set_iters t = [i]"
    by (rule singleton_set [OF cmp_uint.ordering_comparator_axioms]) blast
  from set_walk_sorted [OF s(3)] show ?thesis using s(1,2,4) by auto
qed

theorem set_insert_height_witness:
  "\<exists>s t. vlSetInit (\<lambda>_. True) 4 cmp32 = Some s \<and>
    push_all (\<lambda>s e. map_option snd (vlSetInsert s e)) s [3, 1, 2] = Some t \<and> set_mem t 1"
proof -
  obtain s where s: "vlSetInit (\<lambda>_. True) 4 cmp32 = Some s" "set_inv s" "set_iters s = []"
    "set_balanced s" "set_comparator s = cmp32" "pool_room (set_nodePool s) = 16"
    by (rule fresh_set [of cmp32]) blast
  have "ordering_comparator (set_comparator s)" using s(5) cmp_uint.ordering_comparator_axioms by simp
  from set_insert_height [OF s(2) this _ s(4), of "[3, 1, 2]"] show ?thesis
    using s(1,5,6) by (auto simp: vlCompareUInt_def)
qed

theorem set_algebra_witness:
  "\<exists>s t i r. vlSetInit (\<lambda>_. True) 4 cmp32 = Some s \<and> vlSetInsert s 7 = Some (i, t) \<and>
    vlSetDifference (\<lambda>_. True) t s (Some s) = Some (Some r) \<and> set_mem r 7"
proof -
  obtain s t i where s: "vlSetInit (\<lambda>_. True) 4 cmp32 = Some s" "vlSetInsert s 7 = Some (i, t)"
    "set_inv t" "set_iters t = [i]" "set_contents t = [7]" "set_comparator t = cmp32" "set_elementSize t = 4"
    by (rule singleton_set [OF cmp_uint.ordering_comparator_axioms]) blast
  obtain s' where s': "vlSetInit (\<lambda>_. True) 4 cmp32 = Some s'" "set_inv s'" "set_iters s' = []"
    "set_comparator s' = cmp32" "set_elementSize s' = 4" "pool_room (set_nodePool s') = 16" "\<And>x. \<not> set_mem s' x"
    by (rule fresh_set [of cmp32]) blast
  have eq: "s' = s" using s(1) s'(1) by simp
  have "ordering_comparator (set_comparator t)" using s(6) cmp_uint.ordering_comparator_axioms by simp
  from set_algebra [OF s(3) s'(2) this, of "\<lambda>_. True" "Some s'" s'] s s' show ?thesis
    by (auto simp: set_destination_def eq set_mem_def vlCompareUInt_def)
qed

theorem set_copy_range_witness:
  "\<exists>s t i d. vlSetInit (\<lambda>_. True) 4 cmp32 = Some s \<and> vlSetInsert s 7 = Some (i, t) \<and>
    vlSetCopy t i i s = Some (1, d) \<and> set_mem d 7"
proof -
  obtain s t i where s: "vlSetInit (\<lambda>_. True) 4 cmp32 = Some s" "vlSetInsert s 7 = Some (i, t)"
    "set_inv t" "set_iters t = [i]" "set_contents t = [7]" "set_comparator t = cmp32" "set_elementSize t = 4"
    by (rule singleton_set [OF cmp_uint.ordering_comparator_axioms]) blast
  obtain s' where s': "vlSetInit (\<lambda>_. True) 4 cmp32 = Some s'" "set_inv s'"
    "set_comparator s' = cmp32" "set_elementSize s' = 4" "pool_room (set_nodePool s') = 16"
    by (rule fresh_set [of cmp32]) blast
  have eq: "s' = s" using s(1) s'(1) by simp
  have "ordering_comparator (set_comparator s')" using s'(3) cmp_uint.ordering_comparator_axioms by simp
  from set_copy_range [OF s(3) s'(2) this, of 0 0] s s' show ?thesis
    by (auto simp: eq vlCompareUInt_def)
qed

theorem set_clear_clone_witness:
  "\<exists>s c. vlSetInit (\<lambda>_. True) 4 cmp32 = Some s \<and> vlSetClear s = Some c \<and> set_contents c = []"
proof -
  obtain s where s: "vlSetInit (\<lambda>_. True) 4 cmp32 = Some s" "set_inv s" "mallocOk (set_nodePool s) = (\<lambda>_. True)"
    by (rule fresh_set [of cmp32]) blast
  from set_clear_clone [OF s(2,2) _ s(3)] show ?thesis using s(1) by auto
qed

section \<open>Removing a black leaf\<close>

text \<open>
  Three black nodes, as after the insertion of 2, 1, 3, 4 and the removal of 4.
\<close>

definition black_set :: "u32 vl_set" where
  "black_set =
     \<lparr>set_nodePool = (fresh_pool (\<lambda>_. True) 40 8)\<lparr>lookupTable :=
        Some \<lparr>totalTaken = 3, blockSize = 16, blockOrdinal = 0, nextLookup = None,
          elements = [Some \<lparr>sn_color = BLACK, sn_parent = SNIL, sn_left = vl_pool_ordinal 0 1,
                        sn_right = vl_pool_ordinal 0 2, sn_elem = 2\<rparr>,
                      Some \<lparr>sn_color = BLACK, sn_parent = vl_pool_ordinal 0 0, sn_left = SNIL,
                        sn_right = SNIL, sn_elem = 1\<rparr>,
                      Some \<lparr>sn_color = BLACK, sn_parent = vl_pool_ordinal 0 0, sn_left = SNIL,
                        sn_right = SNIL, sn_elem = 3\<rparr>] @ replicate 13 None\<rparr> # replicate 15 None\<rparr>,
      set_elementSize = 4, set_totalElements = 3, set_comparator = vlCompareUInt,
      set_root = vl_pool_ordinal 0 0\<rparr>"

lemma black_set_inv:
  "set_inv black_set" "set_balanced black_set"
  "set_shape black_set = Node (Node Leaf (vl_pool_ordinal 0 1) Leaf) (vl_pool_ordinal 0 0)
     (Node Leaf (vl_pool_ordinal 0 2) Leaf)"
  "pool_can_return (set_nodePool black_set) 16" "col black_set (vl_pool_ordinal 0 1) = BLACK"
proof -
  let ?i = "\<lambda>k. vl_pool_ordinal 0 k" and ?p = "set_nodePool black_set"
  let ?T = "Node (Node Leaf (?i 1) Leaf) (?i 0) (Node Leaf (?i 2) Leaf)"
  have at: "node_at ?p k = (if k = 0 then lookupTable ?p ! 0 else None)" for k
    by (auto simp: black_set_def fresh_pool_def node_at_def nth_Cons split: nat.splits)
  have fs: "freeStack ?p = []" by (simp add: black_set_def fresh_pool_def)
  have u: "used ?p k = (if k = 0 then 3 else 0)" for k
    by (simp add: used_def at free_in_def fs) (simp add: black_set_def fresh_pool_def free_in_def)
  have inv: "pool_inv ?p"
    unfolding pool_inv_def
    by (simp add: at u block_ok_def) (auto simp: black_set_def fresh_pool_def less_Suc_eq numeral_3_eq_3)
  have ne: "?i 0 \<noteq> ?i 1" "?i 0 \<noteq> ?i 2" "?i 1 \<noteq> ?i 2"
    by (simp_all add: vl_pool_ordinal_def u32_of_def)
  have live: "pool_live ?p = {?i 0, ?i 1, ?i 2}"
  proof (intro set_eqI iffI)
    fix j
    assume "j \<in> pool_live ?p"
    then have "nodeIndex j = 0" "elementIndex j < 3" by (auto simp: pool_live_def u split: if_splits)
    moreover from this have "j = ?i (elementIndex j)"
      by (intro idx_eqI) (simp_all add: u32_of_def)
    moreover have "elementIndex j = 0 \<or> elementIndex j = 1 \<or> elementIndex j = 2"
      using \<open>elementIndex j < 3\<close> by linarith
    ultimately show "j \<in> {?i 0, ?i 1, ?i 2}" by auto
  next
    fix j
    assume "j \<in> {?i 0, ?i 1, ?i 2}"
    then show "j \<in> pool_live ?p" by (auto simp: pool_live_def u fs u32_of_def)
  qed
  have cells: "cell black_set (?i k) = (if k < 16 then elements (the (lookupTable ?p ! 0)) ! k else None)"
    if "k < 16" for k
    using that by (simp add: cell_def vlPoolSample_def at u32_of_def) (simp add: black_set_def u32_of_def)
  have c: "cell black_set (?i 0) = Some \<lparr>sn_color = BLACK, sn_parent = SNIL, sn_left = ?i 1,
      sn_right = ?i 2, sn_elem = 2\<rparr>"
    "cell black_set (?i 1) = Some \<lparr>sn_color = BLACK, sn_parent = ?i 0, sn_left = SNIL, sn_right = SNIL, sn_elem = 1\<rparr>"
    "cell black_set (?i 2) = Some \<lparr>sn_color = BLACK, sn_parent = ?i 0, sn_left = SNIL, sn_right = SNIL, sn_elem = 3\<rparr>"
    using cells [of 0] cells [of 1] cells [of 2] by (simp_all add: black_set_def)
  have rep: "tree_rep black_set ?T"
    using inv live ne c by (simp add: tree_rep_def set_ok_def set_live_def) (simp add: black_set_def)
  have e: "elt black_set (?i 0) = 2" "elt black_set (?i 1) = 1" "elt black_set (?i 2) = 3"
    "col black_set (?i 0) = BLACK" "col black_set (?i 1) = BLACK" "col black_set (?i 2) = BLACK"
    using c by (simp_all add: elt_def col_def)
  have f: "set_comparator black_set = vlCompareUInt" "set_totalElements black_set = 3"
    "set_root black_set = ?i 0" by (simp_all add: black_set_def)
  show "set_shape black_set = ?T" by (rule set_shape_rep [OF rep])
  show "set_inv black_set"
    unfolding set_inv_rep [OF rep] using live e f
    by (simp add: set_live_def root_black_def vlCompareUInt_def u32_of_def insert_commute)
  show "set_balanced black_set"
    unfolding set_balanced_def set_shape_rep [OF rep] red_black_def using e by simp
  show "pool_can_return ?p 16" by (simp add: pool_can_return_def black_set_def fresh_pool_def)
  show "col black_set (?i 1) = BLACK" by (rule e(5))
qed

text \<open>
  C17. \<^verbatim>\<open>vlSetRemove\<close> of a black node without children, other than the root, always breaks the
  balance of a balanced tree: the fixup is called for the missing child and does nothing there.
\<close>

theorem set_remove_unbalances:
  assumes "set_inv s" and "set_balanced s" and "pool_can_return (set_nodePool s) 1"
    and "length (set_iters s) < 2 ^ 32" and "set_shape s = plug C (Node Leaf i Leaf)" and "C \<noteq> []"
    and "col s i = vl_rbtree_color_black"
  shows "\<exists>t. vlSetRemove s i = Some t \<and> set_inv t \<and> \<not> set_balanced t"
proof -
  note D = set_invD [OF assms(1)]
  have rep: "tree_rep s (plug C (Node Leaf i Leaf))" using D(1) assms(5) by simp
  have it: "set_iters s = ctx_left C @ i # ctx_right C" by (simp add: set_iters_def assms(5))
  then have "set_totalElements s \<noteq> 0"
    using assms(1,4) u32_of_id [of "length (set_iters s)"] by (simp add: set_inv_def)
  from vlSetRemove_one_child [OF rep, of Leaf, OF _ D(3) this, of 0] assms(3)
  obtain t where t: "vlSetRemove s i = Some t" "removes_at s (ctx_left C) i (ctx_right C) 0 t"
    "tree_rep t (plug C Leaf)" "\<forall>j \<in> set_live t. col t j = col s j" by auto
  have "set_inv t" by (rule removes_at_inv(1) [OF assms(1) t(2) it])
  moreover have "\<not> set_balanced t"
  proof
    assume "set_balanced t"
    then have "red_black (col t) (plug C Leaf)" by (simp add: set_balanced_def set_shape_rep [OF t(3)])
    moreover have "set_tree (plug C Leaf) \<subseteq> set_live t" using t(3) by (simp add: tree_rep_def)
    then have "red_black (col t) (plug C Leaf) = red_black (col s) (plug C Leaf)"
      by (intro red_black_cong) (use t(4) in blast)
    ultimately have "ctx_invh (col s) C 0" by (simp add: red_black_plug)
    moreover have "ctx_invh (col s) C 1"
      using assms(2,5,7) by (simp add: set_balanced_def red_black_plug)
    ultimately show False using assms(6) by (cases C rule: ctx_parent.cases) simp_all
  qed
  ultimately show ?thesis using t(1) by blast
qed

theorem set_remove_unbalances_witness:
  "\<exists>t. vlSetRemove black_set (vl_pool_ordinal 0 1) = Some t \<and> set_inv t \<and> \<not> set_balanced t"
proof (rule set_remove_unbalances [OF black_set_inv(1,2)])
  show "set_shape black_set = plug [FL (vl_pool_ordinal 0 0) (Node Leaf (vl_pool_ordinal 0 2) Leaf)]
      (Node Leaf (vl_pool_ordinal 0 1) Leaf)" by (simp add: black_set_inv(3))
  show "pool_can_return (set_nodePool black_set) 1"
    by (simp add: pool_can_return_def black_set_def fresh_pool_def)
  show "length (set_iters black_set) < 2 ^ 32" by (simp add: set_iters_def black_set_inv(3))
qed (use black_set_inv(5) in simp_all)

end
