(* ===== verification/VL_Algo.thy ===== *)
theory VL_Algo
  imports VL_Prelude
begin

text \<open>
  The bit-level and arithmetic routines of \<^verbatim>\<open>src/core/vl_algo.c\<close>. Most of them have one
  branch per compiler: two on top of intrinsics, a portable one in plain C. The model has the
  branches side by side, chosen by a parameter, with the intrinsics as their documentation
  describes them, so that the theorems can say where the branches agree.
  \<^verbatim>\<open>vl_ularge_t\<close> is \<^typ>\<open>u64\<close>, \<^verbatim>\<open>vl_uint_t\<close> \<^typ>\<open>u32\<close>; counts of bits are natural numbers,
  since none exceeds 64.
\<close>

section \<open>Compilers and their intrinsics\<close>

text \<open>
  \<^verbatim>\<open>VL_COMPILER_MSVC\<close> (a 64-bit one), \<^verbatim>\<open>VL_COMPILER_GCC_LIKE\<close>, or neither.
\<close>

datatype vl_compiler = MSVC | GCC_LIKE | PORTABLE

definition intrinsic_popcount :: "'a::len word \<Rightarrow> nat" where
  "intrinsic_popcount w = length (filter (bit w) [0..<LENGTH('a)])"

text \<open>The index of the highest and of the lowest bit that is set; undefined for zero.\<close>

definition bit_scan_reverse :: "'a::len word \<Rightarrow> nat option" where
  "bit_scan_reverse w = (case filter (bit w) [0..<LENGTH('a)] of [] \<Rightarrow> None | js \<Rightarrow> Some (last js))"

definition bit_scan_forward :: "'a::len word \<Rightarrow> nat option" where
  "bit_scan_forward w = (case filter (bit w) [0..<LENGTH('a)] of [] \<Rightarrow> None | j # _ \<Rightarrow> Some j)"

definition builtin_clz :: "'a::len word \<Rightarrow> nat option" where
  "builtin_clz w = map_option (\<lambda>j. LENGTH('a) - 1 - j) (bit_scan_reverse w)"

definition builtin_ctz :: "'a::len word \<Rightarrow> nat option" where
  "builtin_ctz w = bit_scan_forward w"

section \<open>Counting bits\<close>

lemma unat_drop_bit: "unat (drop_bit n w) = unat w div 2 ^ n"
  by (rule trans [OF unat_drop_bit_eq drop_bit_eq_div])

function popcount8_loop :: "u8 \<Rightarrow> nat \<Rightarrow> nat" where
  "popcount8_loop value cnt =
     (if value = 0 then cnt
      else popcount8_loop (drop_bit 1 value) (cnt + unat (value AND 1)))"
  by pat_completeness auto

termination
proof (relation "measure (\<lambda>(w, _). unat w)")
  fix w :: u8 and cnt :: nat
  assume "w \<noteq> 0"
  then have "unat w div 2 < unat w" by (simp add: unat_gt_0)
  moreover have "unat (drop_bit 1 w) = unat w div 2" using unat_drop_bit [of 1 w] by simp
  ultimately show "((drop_bit 1 w, cnt + unat (w AND 1)), (w, cnt)) \<in> measure (\<lambda>(w, _). unat w)"
    by (simp only: in_measure prod.case)
qed simp

declare popcount8_loop.simps [simp del]

definition vlAlgoPopCount8 :: "vl_compiler \<Rightarrow> u8 \<Rightarrow> nat" where
  "vlAlgoPopCount8 cc value =
     (case cc of
        MSVC \<Rightarrow> intrinsic_popcount (ucast value :: u16)
      | GCC_LIKE \<Rightarrow> intrinsic_popcount (ucast value :: u32)
      | PORTABLE \<Rightarrow> popcount8_loop value 0)"

lemma and_pred_less:
  fixes w :: "'a::len word"
  assumes "w \<noteq> 0"
  shows "unat (w AND (w - 1)) < unat w"
proof -
  have "unat (w AND (w - 1)) \<le> unat (w - 1)"
    using word_and_le1 [of w "w - 1"] by (simp add: word_le_nat_alt)
  also have "\<dots> < unat w" using assms by (simp add: unat_minus_one unat_gt_0)
  finally show ?thesis .
qed

function popcount16_loop :: "u16 \<Rightarrow> nat \<Rightarrow> nat" where
  "popcount16_loop value cnt =
     (if value = 0 then cnt else popcount16_loop (value AND (value - 1)) (cnt + 1))"
  by pat_completeness auto

termination
  by (relation "measure (\<lambda>(value, _). unat value)") (simp_all add: and_pred_less)

declare popcount16_loop.simps [simp del]

definition vlAlgoPopCount16 :: "vl_compiler \<Rightarrow> u16 \<Rightarrow> nat" where
  "vlAlgoPopCount16 cc value =
     (case cc of
        MSVC \<Rightarrow> intrinsic_popcount value
      | GCC_LIKE \<Rightarrow> intrinsic_popcount (ucast value :: u32)
      | PORTABLE \<Rightarrow> popcount16_loop value 0)"

definition vlAlgoPopCount32 :: "vl_compiler \<Rightarrow> u32 \<Rightarrow> nat" where
  "vlAlgoPopCount32 cc value =
     (case cc of
        MSVC \<Rightarrow> intrinsic_popcount value
      | GCC_LIKE \<Rightarrow> intrinsic_popcount value
      | PORTABLE \<Rightarrow>
          let value = value - (drop_bit 1 value AND 0x55555555);
              value = (value AND 0x33333333) + (drop_bit 2 value AND 0x33333333)
          in unat (drop_bit 24 (((value + drop_bit 4 value) AND 0x0F0F0F0F) * 0x01010101)))"

definition vlAlgoPopCount64 :: "vl_compiler \<Rightarrow> u64 \<Rightarrow> nat" where
  "vlAlgoPopCount64 cc value =
     (case cc of
        MSVC \<Rightarrow> intrinsic_popcount value
      | GCC_LIKE \<Rightarrow> intrinsic_popcount value
      | PORTABLE \<Rightarrow> vlAlgoPopCount32 PORTABLE (ucast value) +
          vlAlgoPopCount32 PORTABLE (ucast (drop_bit 32 value)))"

section \<open>Counting leading zeros\<close>

text \<open>One step of a binary search: if no bit of the mask is set, the value is shifted.\<close>

definition clz_step :: "'a::len word \<Rightarrow> nat \<Rightarrow> nat \<times> 'a word \<Rightarrow> nat \<times> 'a word" where
  "clz_step m k = (\<lambda>(cnt, value).
     if value AND m = 0 then (cnt + k, push_bit k value) else (cnt, value))"

definition vlAlgoCLZ8 :: "vl_compiler \<Rightarrow> u8 \<Rightarrow> nat option" where
  "vlAlgoCLZ8 cc value =
     (if value = 0 then Some 8
      else case cc of
        MSVC \<Rightarrow> map_option (\<lambda>index. 7 - index) (bit_scan_reverse (ucast value :: u32))
      | GCC_LIKE \<Rightarrow> map_option (\<lambda>n. n - 24) (builtin_clz (ucast value :: u32))
      | PORTABLE \<Rightarrow>
          Some (fst (clz_step 0x80 1 (clz_step 0xC0 2 (clz_step 0xF0 4 (0, value))))))"

definition vlAlgoCLZ16 :: "vl_compiler \<Rightarrow> u16 \<Rightarrow> nat option" where
  "vlAlgoCLZ16 cc value =
     (if value = 0 then Some 16
      else case cc of
        MSVC \<Rightarrow> map_option (\<lambda>index. 15 - index) (bit_scan_reverse (ucast value :: u32))
      | GCC_LIKE \<Rightarrow> map_option (\<lambda>n. n - 16) (builtin_clz (ucast value :: u32))
      | PORTABLE \<Rightarrow> do {
          high \<leftarrow> vlAlgoCLZ8 PORTABLE (ucast (drop_bit 8 value));
          if high \<noteq> 0 then Some (high + 8) else vlAlgoCLZ8 PORTABLE (ucast (value AND 0xFF))
        })"

definition vlAlgoCLZ32 :: "vl_compiler \<Rightarrow> u32 \<Rightarrow> nat option" where
  "vlAlgoCLZ32 cc value =
     (if value = 0 then Some 32
      else case cc of
        MSVC \<Rightarrow> map_option (\<lambda>index. 31 - index) (bit_scan_reverse value)
      | GCC_LIKE \<Rightarrow> builtin_clz value
      | PORTABLE \<Rightarrow>
          Some (fst (clz_step 0x80000000 1 (clz_step 0xC0000000 2 (clz_step 0xF0000000 4
            (clz_step 0xFF000000 8 (clz_step 0xFFFF0000 16 (0, value))))))))"

definition vlAlgoCLZ64 :: "vl_compiler \<Rightarrow> u64 \<Rightarrow> nat option" where
  "vlAlgoCLZ64 cc value =
     (if value = 0 then Some 64
      else case cc of
        MSVC \<Rightarrow> map_option (\<lambda>index. 63 - index) (bit_scan_reverse value)
      | GCC_LIKE \<Rightarrow> builtin_clz value
      | PORTABLE \<Rightarrow>
          let high = (ucast (drop_bit 32 value) :: u32) in
          if high \<noteq> 0 then vlAlgoCLZ32 PORTABLE high
          else map_option (\<lambda>n. 32 + n) (vlAlgoCLZ32 PORTABLE (ucast value)))"

section \<open>Counting trailing zeros\<close>

text \<open>
  The portable branch for 8 bits: the operands of the multiplication are promoted to 32 bits
  before the product is shifted.
\<close>

definition vlAlgoCTZ8 :: "vl_compiler \<Rightarrow> u8 \<Rightarrow> nat option" where
  "vlAlgoCTZ8 cc value =
     (if value = 0 then Some 8
      else case cc of
        MSVC \<Rightarrow> bit_scan_forward (ucast value :: u32)
      | GCC_LIKE \<Rightarrow> builtin_ctz (ucast value :: u32)
      | PORTABLE \<Rightarrow>
          let table = [0, 1, 2, 4, 7, 3, 6, 5];
              low = (ucast value AND - ucast value :: u32);
              index = unat (drop_bit 29 (low * 0x17))
          in if index < length table then Some (table ! index) else None)"

definition vlAlgoCTZ16 :: "vl_compiler \<Rightarrow> u16 \<Rightarrow> nat option" where
  "vlAlgoCTZ16 cc value =
     (if value = 0 then Some 16
      else case cc of
        MSVC \<Rightarrow> bit_scan_forward (ucast value :: u32)
      | GCC_LIKE \<Rightarrow> builtin_ctz (ucast value :: u32)
      | PORTABLE \<Rightarrow>
          if value AND 0xFF \<noteq> 0 then vlAlgoCTZ8 PORTABLE (ucast (value AND 0xFF))
          else map_option (\<lambda>n. 8 + n) (vlAlgoCTZ8 PORTABLE (ucast (drop_bit 8 value))))"

definition ctz32_table :: "nat list" where
  "ctz32_table =
     [0, 1, 28, 2, 29, 14, 24, 3, 30, 22, 20, 15, 25, 17, 4, 8,
      31, 27, 13, 23, 21, 19, 16, 7, 26, 12, 18, 6, 11, 5, 10, 9]"

definition vlAlgoCTZ32 :: "vl_compiler \<Rightarrow> u32 \<Rightarrow> nat option" where
  "vlAlgoCTZ32 cc value =
     (if value = 0 then Some 32
      else case cc of
        MSVC \<Rightarrow> bit_scan_forward value
      | GCC_LIKE \<Rightarrow> builtin_ctz value
      | PORTABLE \<Rightarrow>
          let index = unat (drop_bit 27 ((value AND - value) * 0x077CB531))
          in if index < length ctz32_table then Some (ctz32_table ! index) else None)"

definition vlAlgoCTZ64 :: "vl_compiler \<Rightarrow> u64 \<Rightarrow> nat option" where
  "vlAlgoCTZ64 cc value =
     (if value = 0 then Some 64
      else case cc of
        MSVC \<Rightarrow> bit_scan_forward value
      | GCC_LIKE \<Rightarrow> builtin_ctz value
      | PORTABLE \<Rightarrow>
          let low = (ucast value :: u32) in
          if low \<noteq> 0 then vlAlgoCTZ32 PORTABLE low
          else map_option (\<lambda>n. 32 + n) (vlAlgoCTZ32 PORTABLE (ucast (drop_bit 32 value))))"

section \<open>Powers of two and overflow\<close>

text \<open>\<^verbatim>\<open>vlAlgoNextPO2\<close> returns a \<^verbatim>\<open>vl_uint_t\<close>: the last step cuts the result to 32 bits.\<close>

definition vlAlgoNextPO2 :: "u64 \<Rightarrow> u32" where
  "vlAlgoNextPO2 value =
     (if value = 0 then 1
      else if value > drop_bit 1 (- 1) then 0
      else
        let value = value - 1;
            value = value OR drop_bit 1 value;
            value = value OR drop_bit 2 value;
            value = value OR drop_bit 4 value;
            value = value OR drop_bit 8 value;
            value = value OR drop_bit 16 value;
            value = value OR drop_bit 32 value
        in ucast (value + 1))"

definition vlAlgoIsPO2 :: "u64 \<Rightarrow> bool" where
  "vlAlgoIsPO2 value \<longleftrightarrow> value \<noteq> 0 \<and> value AND (value - 1) = 0"

text \<open>The overflow intrinsics say whether the exact result is out of range.\<close>

definition vlAlgoAddOverflow :: "vl_compiler \<Rightarrow> u64 \<Rightarrow> u64 \<Rightarrow> bool" where
  "vlAlgoAddOverflow cc a b =
     (case cc of
        GCC_LIKE \<Rightarrow> \<not> uint a + uint b < 2 ^ 64
      | MSVC \<Rightarrow> - 1 - a < b
      | PORTABLE \<Rightarrow> - 1 - a < b)"

definition vlAlgoSubUnderflow :: "vl_compiler \<Rightarrow> u64 \<Rightarrow> u64 \<Rightarrow> bool" where
  "vlAlgoSubUnderflow cc a b =
     (case cc of
        GCC_LIKE \<Rightarrow> uint a - uint b < 0
      | MSVC \<Rightarrow> a < b
      | PORTABLE \<Rightarrow> a < b)"

text \<open>\<^verbatim>\<open>_umul128\<close> gives the high half of the product.\<close>

definition vlAlgoMulOverflow :: "vl_compiler \<Rightarrow> u64 \<Rightarrow> u64 \<Rightarrow> bool" where
  "vlAlgoMulOverflow cc a b =
     (case cc of
        GCC_LIKE \<Rightarrow> \<not> uint a * uint b < 2 ^ 64
      | MSVC \<Rightarrow> drop_bit 64 (uint a * uint b) \<noteq> 0
      | PORTABLE \<Rightarrow> if a = 0 \<or> b = 0 then False else a > - 1 div b)"

section \<open>Greatest common divisor and least common multiple\<close>

text \<open>The three loops of \<^verbatim>\<open>vlAlgoGCD\<close>: common factors of two, those of one operand, and the rest.\<close>

partial_function (option) gcd_common :: "u64 \<Rightarrow> u64 \<Rightarrow> nat \<Rightarrow> (u64 \<times> u64 \<times> nat) option" where
  [code]: "gcd_common a b shift =
     (if (a OR b) AND 1 = 0 then gcd_common (drop_bit 1 a) (drop_bit 1 b) (shift + 1)
      else Some (a, b, shift))"

partial_function (option) gcd_strip :: "u64 \<Rightarrow> u64 option" where
  [code]: "gcd_strip a = (if a AND 1 = 0 then gcd_strip (drop_bit 1 a) else Some a)"

partial_function (option) gcd_loop :: "u64 \<Rightarrow> u64 \<Rightarrow> u64 option" where
  [code]: "gcd_loop a b =
     do {
       b \<leftarrow> gcd_strip b;
       let (a, b) = (if a > b then (b, a) else (a, b));
       let b = b - a;
       if b \<noteq> 0 then gcd_loop a b else Some a
     }"

definition vlAlgoGCD :: "u64 \<Rightarrow> u64 \<Rightarrow> u64 option" where
  "vlAlgoGCD a b =
     (if a = 0 then Some b
      else if b = 0 then Some a
      else do {
        (a, b, shift) \<leftarrow> gcd_common a b 0;
        a \<leftarrow> gcd_strip a;
        a \<leftarrow> gcd_loop a b;
        Some (push_bit shift a)
      })"

definition vlAlgoLCM :: "u64 \<Rightarrow> u64 \<Rightarrow> u64 option" where
  "vlAlgoLCM a b =
     (if a = 0 \<or> b = 0 then Some 0
      else do {
        g \<leftarrow> vlAlgoGCD a b;
        let quotient = a div g;
        if quotient > - 1 div b then Some 0 else Some (quotient * b)
      })"

text \<open>
  The signed variants, on \<^verbatim>\<open>vl_ilarge_t\<close>. To negate \<^verbatim>\<open>LLONG_MIN\<close> is undefined in C: both
  functions do it.
\<close>

definition LLONG_MIN :: u64 where
  "LLONG_MIN = 0x8000000000000000"

definition signed_abs :: "u64 \<Rightarrow> u64 option" where
  "signed_abs a = (if sint a < 0 then if a = LLONG_MIN then None else Some (- a) else Some a)"

definition vlAlgoGCDSigned :: "u64 \<Rightarrow> u64 \<Rightarrow> u64 option" where
  "vlAlgoGCDSigned a b = do { ua \<leftarrow> signed_abs a; ub \<leftarrow> signed_abs b; vlAlgoGCD ua ub }"

definition vlAlgoLCMSigned :: "u64 \<Rightarrow> u64 \<Rightarrow> u64 option" where
  "vlAlgoLCMSigned a b =
     (if a = 0 \<or> b = 0 then Some 0
      else do {
        ua \<leftarrow> signed_abs a;
        ub \<leftarrow> signed_abs b;
        let ua = (if a = LLONG_MIN then LLONG_MIN else ua);
        let ub = (if b = LLONG_MIN then LLONG_MIN else ub);
        result \<leftarrow> vlAlgoLCM ua ub;
        if result > 0x7FFFFFFFFFFFFFFF then Some 0 else Some result
      })"

end
