(* ===== verification/VL_AlgoBits.thy ===== *)
theory VL_AlgoBits
  imports VL_Algo
begin

text \<open>
  The bit counting routines of \<^verbatim>\<open>src/core/vl_algo.c\<close> compute the same on every compiler,
  except for the portable branches that are wrong. The reference is a recursion on the binary
  digits of a natural number.
\<close>

section \<open>The number of bits of a natural number\<close>

fun nbits :: "nat \<Rightarrow> nat" where
  "nbits n = (if n = 0 then 0 else n mod 2 + nbits (n div 2))"

declare nbits.simps [simp del]

lemma nbits_0 [simp]: "nbits 0 = 0"
  by (simp add: nbits.simps)

lemma nbits_step: "nbits n = n mod 2 + nbits (n div 2)"
  by (cases "n = 0") (simp_all add: nbits.simps [of n])

lemma nbits_double [simp]: "nbits (2 * n) = nbits n"
  using nbits_step [of "2 * n"] by simp

lemma nbits_bit: "b < 2 \<Longrightarrow> nbits (b + 2 * n) = b + nbits n"
  using nbits_step [of "b + 2 * n"] by simp

lemma nbits_filter: "m < 2 ^ k \<Longrightarrow> length (filter (bit m) [0..<k]) = nbits m"
proof (induction k arbitrary: m)
  case 0
  then show ?case by simp
next
  case (Suc k)
  have "[0..<Suc k] = 0 # map Suc [0..<k]"
    by (simp only: map_Suc_upt upt_conv_Cons zero_less_Suc)
  moreover have "filter (bit m) (map Suc [0..<k]) = map Suc (filter (bit (m div 2)) [0..<k])"
    by (simp add: filter_map comp_def bit_Suc)
  moreover have "length (filter (bit (m div 2)) [0..<k]) = nbits (m div 2)"
    by (rule Suc.IH) (use Suc.prems in simp)
  ultimately have "length (filter (bit m) [0..<Suc k]) = of_bool (odd m) + nbits (m div 2)"
    by (simp only: filter.simps) (simp add: bit_0)
  then show ?case by (simp add: nbits_step [of m] mod2_eq_if)
qed

lemma intrinsic_nbits: "intrinsic_popcount w = nbits (unat w)"
proof -
  have "bit w = bit (unat w)" by (rule ext) (simp add: bit_unsigned_iff)
  then show ?thesis
    unfolding intrinsic_popcount_def by (simp add: nbits_filter unsigned_less)
qed

lemma nbits_clear_lowest:
  "0 < n \<Longrightarrow> nbits (n AND (n - 1)) + 1 = nbits n"
proof (induction n rule: less_induct)
  case (less n)
  show ?case
  proof (cases "even n")
    case True
    then obtain m where m: "n = 2 * m" by (elim evenE)
    with less.prems have "0 < m" by simp
    have half: "(2 * m - Suc 0) div 2 = m - Suc 0" by presburger
    have "n AND (n - 1) = 2 * (m AND (m - 1))"
      unfolding m using \<open>0 < m\<close> by (subst and_nat_unfold) (simp add: half)
    then show ?thesis using less.IH [of m] \<open>0 < m\<close> by (simp add: m)
  next
    case False
    then obtain m where m: "n = 2 * m + 1" by (elim oddE)
    have "n AND (n - 1) = 2 * m"
      unfolding m by (subst and_nat_unfold) simp
    moreover have "nbits n = 1 + nbits m" unfolding m by (subst nbits_step) simp
    ultimately show ?thesis by simp
  qed
qed

lemma popcount8_loop_nbits: "popcount8_loop w c = c + nbits (unat w)"
proof (induction w c rule: popcount8_loop.induct)
  case (1 w c)
  have "nbits (unat w) = unat (w AND 1) + nbits (unat (drop_bit 1 w))"
    using nbits_step [of "unat w"] unat_drop_bit [of 1 w] by (simp add: and_one_eq unat_mod)
  then show ?case using 1 by (subst popcount8_loop.simps) simp
qed

lemma popcount16_loop_nbits: "popcount16_loop w c = c + nbits (unat w)"
proof (induction w c rule: popcount16_loop.induct)
  case (1 w c)
  show ?case
  proof (cases "w = 0")
    case True
    then show ?thesis by (subst popcount16_loop.simps) simp
  next
    case False
    then have "nbits (unat w AND (unat w - 1)) + 1 = nbits (unat w)"
      by (intro nbits_clear_lowest) (simp add: unat_gt_0)
    moreover have "unat (w AND (w - 1)) = unat w AND (unat w - 1)"
      using False by (simp add: unsigned_and_eq unat_minus_one)
    ultimately show ?thesis using 1 False by (subst popcount16_loop.simps) simp
  qed
qed

section \<open>The parallel sum of \<^verbatim>\<open>vlAlgoPopCount32\<close>\<close>

text \<open>
  The steps before the multiplication, on natural numbers seen as lists of hexadecimal digits:
  the first two act digit by digit, the third adds neighbours.
\<close>

primrec hexval :: "nat list \<Rightarrow> nat" where
  "hexval [] = 0"
| "hexval (x # xs) = x + 16 * hexval xs"

definition hexdigits :: "nat list \<Rightarrow> bool" where
  "hexdigits xs \<longleftrightarrow> (\<forall>x \<in> set xs. x < 16)"

lemma hexdigits_simps [simp]:
  "hexdigits []" "hexdigits (x # xs) \<longleftrightarrow> x < 16 \<and> hexdigits xs"
  by (auto simp: hexdigits_def)

lemma hexval_div_mod:
  assumes "hexdigits (x # xs)"
  shows "hexval (x # xs) mod 16 = x" and "hexval (x # xs) div 16 = hexval xs"
  using assms by simp_all

lemma and_hex_split:
  fixes x y X Y :: nat
  assumes "x < 16" and "y < 16"
  shows "(x + 16 * X) AND (y + 16 * Y) = (x AND y) + 16 * (X AND Y)" (is "?l = _")
proof -
  have t: "take_bit 4 (z + 16 * Z) = z" "drop_bit 4 (z + 16 * Z) = Z" if "z < 16" for z Z :: nat
    using that by (simp_all add: take_bit_eq_mod drop_bit_eq_div)
  have "?l = push_bit 4 (drop_bit 4 ?l) + take_bit 4 ?l" by (simp only: bits_ident)
  then show ?thesis
    unfolding take_bit_and drop_bit_and t [OF assms(1)] t [OF assms(2)]
    by (simp add: push_bit_eq_mult)
qed

lemma hexval_and:
  "hexdigits xs \<Longrightarrow> hexdigits ys \<Longrightarrow> length xs = length ys \<Longrightarrow>
   hexval xs AND hexval ys = hexval (map2 (AND) xs ys)"
proof (induction xs ys rule: list_induct2')
  case (4 x xs y ys)
  then show ?case by (simp add: and_hex_split)
qed simp_all

lemma hex_cases:
  fixes x :: nat
  assumes "x < 16"
  obtains "x = 0" | "x = Suc 0" | "x = 2" | "x = 3" | "x = 4" | "x = 5" | "x = 6" | "x = 7"
    | "x = 8" | "x = 9" | "x = 10" | "x = 11" | "x = 12" | "x = 13" | "x = 14" | "x = 15"
  using assms by (auto simp: less_Suc_eq numeral_eq_Suc)

lemma digit_shift:
  fixes x X :: nat
  shows "(x + 16 * X) div 2 = (x div 2 + 8 * (X mod 2)) + 16 * (X div 2)"
    and "(x + 16 * X) div 4 = (x div 4 + 4 * (X mod 4)) + 16 * (X div 4)"
proof -
  have "(x + 16 * X) div 2 = x div 2 + 8 * X" using div_mult_self2 [of 2 x "8 * X"] by simp
  moreover have "8 * X = 8 * (X mod 2) + 16 * (X div 2)" using div_mult_mod_eq [of X 2] by linarith
  ultimately show "(x + 16 * X) div 2 = (x div 2 + 8 * (X mod 2)) + 16 * (X div 2)" by linarith
  have "(x + 16 * X) div 4 = x div 4 + 4 * X" using div_mult_self2 [of 4 x "4 * X"] by simp
  moreover have "4 * X = 4 * (X mod 4) + 16 * (X div 4)" using div_mult_mod_eq [of X 4] by linarith
  ultimately show "(x + 16 * X) div 4 = (x div 4 + 4 * (X mod 4)) + 16 * (X div 4)" by linarith
qed

definition hex_pairs :: "nat \<Rightarrow> nat" where
  "hex_pairs x = x - ((x div 2) AND 5)"

lemma hex_pairs_digit:
  assumes "x < 16"
  shows "x div 2 AND 5 \<le> x" "hex_pairs x < 16" "(x div 2 + 8) AND 5 = x div 2 AND 5"
    "hex_pairs x = x - ((x div 2) AND 5)"
    "(hex_pairs x AND 3) + ((hex_pairs x div 4) AND 3) = nbits x" "nbits x \<le> 4"
    "(hex_pairs x div 4 + 4) AND 3 = hex_pairs x div 4 AND 3"
    "(hex_pairs x div 4 + 8) AND 3 = hex_pairs x div 4 AND 3"
    "(hex_pairs x div 4 + 12) AND 3 = hex_pairs x div 4 AND 3"
  using assms by (cases rule: hex_cases; simp add: hex_pairs_def nbits.simps)+

lemma swar_pairs:
  assumes "hexdigits xs"
  shows "hexval xs - (hexval xs div 2 AND hexval (replicate (length xs) 5)) = hexval (map hex_pairs xs)
    \<and> hexval xs div 2 AND hexval (replicate (length xs) 5) \<le> hexval xs"
  using assms
proof (induction xs)
  case Nil
  then show ?case by simp
next
  case (Cons x xs)
  let ?X = "hexval xs" and ?M = "hexval (replicate (length xs) 5)"
  have x: "x < 16" using Cons.prems by simp
  have "(x + 16 * ?X) div 2 = (x div 2 + 8 * (?X mod 2)) + 16 * (?X div 2)" by (rule digit_shift)
  moreover have "x div 2 + 8 * (?X mod 2) < 16" using x by linarith
  ultimately have "(x + 16 * ?X) div 2 AND (5 + 16 * ?M)
      = ((x div 2 + 8 * (?X mod 2)) AND 5) + 16 * (?X div 2 AND ?M)"
    by (simp only: and_hex_split)
  also have "(x div 2 + 8 * (?X mod 2)) AND 5 = x div 2 AND 5"
    using hex_pairs_digit(3) [OF x] by (cases "even ?X") (simp_all add: odd_iff_mod_2_eq_one)
  finally have "(x + 16 * ?X) div 2 AND (5 + 16 * ?M) = (x div 2 AND 5) + 16 * (?X div 2 AND ?M)" .
  moreover have "(x + 16 * ?X) - (p + 16 * q) = (x - p) + 16 * (?X - q) \<and> p + 16 * q \<le> x + 16 * ?X"
    if "p \<le> x" and "q \<le> ?X" for p q
    using that by linarith
  ultimately show ?case
    using Cons.IH Cons.prems hex_pairs_digit(1,4) [OF x] by (simp del: diff_diff_left)
qed

lemma swar_nibbles:
  assumes "hexdigits xs"
  shows "(hexval (map hex_pairs xs) AND hexval (replicate (length xs) 3)) +
      (hexval (map hex_pairs xs) div 4 AND hexval (replicate (length xs) 3)) = hexval (map nbits xs)"
  using assms
proof (induction xs)
  case Nil
  then show ?case by simp
next
  case (Cons x xs)
  let ?X = "hexval (map hex_pairs xs)" and ?M = "hexval (replicate (length xs) 3)" and ?x = "hex_pairs x"
  have x: "x < 16" using Cons.prems by simp
  have "(?x + 16 * ?X) div 4 = (?x div 4 + 4 * (?X mod 4)) + 16 * (?X div 4)" by (rule digit_shift)
  moreover have "?x div 4 + 4 * (?X mod 4) < 16" using hex_pairs_digit(2) [OF x] by linarith
  ultimately have "(?x + 16 * ?X) div 4 AND (3 + 16 * ?M)
      = ((?x div 4 + 4 * (?X mod 4)) AND 3) + 16 * (?X div 4 AND ?M)"
    by (simp only: and_hex_split)
  also have "(?x div 4 + 4 * (?X mod 4)) AND 3 = ?x div 4 AND 3"
  proof -
    have "?X mod 4 = 0 \<or> ?X mod 4 = 1 \<or> ?X mod 4 = 2 \<or> ?X mod 4 = 3" by linarith
    then show ?thesis using hex_pairs_digit(7-9) [OF x] by auto
  qed
  finally have "(?x + 16 * ?X) div 4 AND (3 + 16 * ?M) = (?x div 4 AND 3) + 16 * (?X div 4 AND ?M)" .
  then show ?case using Cons hex_pairs_digit(2,5) [OF x] by (simp add: and_hex_split)
qed

lemma nbits_hexval: "hexdigits xs \<Longrightarrow> nbits (hexval xs) = sum_list (map nbits xs)"
proof (induction xs)
  case Nil
  then show ?case by simp
next
  case (Cons x xs)
  define b0 b1 b2 b3 where b: "b0 = x mod 2" "b1 = x div 2 mod 2" "b2 = x div 4 mod 2" "b3 = x div 8 mod 2"
  then have less: "b0 < 2" "b1 < 2" "b2 < 2" "b3 < 2" by simp_all
  have "x < 16" using Cons.prems by simp
  then have x: "x = b0 + 2 * (b1 + 2 * (b2 + 2 * b3))"
    unfolding b by (cases rule: hex_cases) simp_all
  let ?X = "hexval xs"
  have "x + 16 * ?X = b0 + 2 * (b1 + 2 * (b2 + 2 * (b3 + 2 * ?X)))" by (simp add: x)
  moreover have "x = b0 + 2 * (b1 + 2 * (b2 + 2 * (b3 + 2 * 0)))" by (simp add: x)
  ultimately have "nbits (x + 16 * ?X) = nbits x + nbits ?X"
    using less by (simp only: nbits_bit nbits_0)
  then show ?case using Cons by simp
qed
lemma hexval_ex: "n < 16 ^ k \<Longrightarrow> \<exists>xs. hexdigits xs \<and> length xs = k \<and> hexval xs = n"
proof (induction k arbitrary: n)
  case 0
  then show ?case by simp
next
  case (Suc k)
  then have "n div 16 < 16 ^ k" by (simp add: less_mult_imp_div_less mult.commute)
  then obtain xs where "hexdigits xs" "length xs = k" "hexval xs = n div 16" using Suc.IH by blast
  then have "hexdigits (n mod 16 # xs) \<and> length (n mod 16 # xs) = Suc k \<and> hexval (n mod 16 # xs) = n"
    by simp
  then show ?case by blast
qed

lemma list8:
  assumes "length xs = 8"
  obtains a b c d e f g h where "xs = [a, b, c, d, e, f, g, h]"
  using assms by (auto simp: numeral_eq_Suc length_Suc_conv)

text \<open>The multiplication adds the four bytes up in the highest one.\<close>

lemma swar_product:
  fixes a b c d :: nat
  assumes "a \<le> 8" and "b \<le> 8" and "c \<le> 8" and "d \<le> 8"
  shows "(a + 256 * b + 65536 * c + 16777216 * d) * 16843009 mod 4294967296 div 16777216 = a + b + c + d"
proof -
  let ?r = "a + 256 * (a + b) + 65536 * (a + b + c)"
  have "(a + 256 * b + 65536 * c + 16777216 * d) * 16843009
      = (?r + 16777216 * (a + b + c + d)) + 4294967296 * (b + c + d + 256 * (c + d) + 65536 * d)"
    by simp
  moreover have "?r + 16777216 * (a + b + c + d) < 4294967296" using assms by (simp add: algebra_simps)
  ultimately have "(a + 256 * b + 65536 * c + 16777216 * d) * 16843009 mod 4294967296
      = ?r + 16777216 * (a + b + c + d)"
    by (simp only: mod_mult_self2 mod_less)
  moreover have "?r < 16777216" using assms by (simp add: algebra_simps)
  ultimately show ?thesis by simp
qed

lemma popcount32_nbits: "vlAlgoPopCount32 PORTABLE w = nbits (unat w)"
proof -
  have "unat w < 16 ^ 8" using unsigned_less [of w] by simp
  then obtain xs where xs: "hexdigits xs" "length xs = 8" "hexval xs = unat w"
    using hexval_ex by blast
  from xs(2) obtain a b c d e f g h where xs8: "xs = [a, b, c, d, e, f, g, h]" by (rule list8)
  have le: "nbits x \<le> 4" if "x < 16" for x using hex_pairs_digit(6) [OF that] .
  let ?w1 = "w - (drop_bit 1 w AND 0x55555555)"
  let ?w2 = "(?w1 AND 0x33333333) + (drop_bit 2 ?w1 AND 0x33333333)"
  let ?w3 = "(?w2 + drop_bit 4 ?w2) AND 0x0F0F0F0F"
  have m5: "hexval (replicate (length xs) 5) = unat (0x55555555 :: u32)"
    and m3: "hexval (replicate (length xs) 3) = unat (0x33333333 :: u32)"
    unfolding xs8 by simp_all
  have sub: "unat (drop_bit 1 w AND 0x55555555) \<le> unat w"
    using swar_pairs [OF xs(1)] unfolding m5 xs(3) by (simp add: unsigned_and_eq unat_drop_bit)
  have w1: "unat ?w1 = hexval (map hex_pairs xs)"
  proof -
    have "unat ?w1 = unat w - unat (drop_bit 1 w AND 0x55555555)"
      by (rule unat_sub) (use sub in \<open>simp add: word_le_nat_alt\<close>)
    then show ?thesis
      using swar_pairs [OF xs(1)] unfolding m5 xs(3) by (simp add: unsigned_and_eq unat_drop_bit)
  qed
  have nib: "unat (?w1 AND 0x33333333) + unat (drop_bit 2 ?w1 AND 0x33333333) = hexval (map nbits xs)"
    using swar_nibbles [OF xs(1)] unfolding m3 w1 [symmetric] by (simp add: unsigned_and_eq unat_drop_bit)
  have d: "a < 16" "b < 16" "c < 16" "d < 16" "e < 16" "f < 16" "g < 16" "h < 16"
    using xs(1) unfolding xs8 by simp_all
  note n4 = d [THEN le]
  have add: "unat x + unat y < 2 ^ 32 \<Longrightarrow> unat (x + y) = unat x + unat y" for x y :: u32
    using unat_add_lem [of x y] by simp
  have nib_less: "hexval (map nbits xs) < 2 ^ 31" unfolding xs8 using n4 by simp
  have w2: "unat ?w2 = hexval (map nbits xs)"
    using add [of "?w1 AND 0x33333333" "drop_bit 2 ?w1 AND 0x33333333"] nib_less unfolding nib by simp
  have w2': "unat (drop_bit 4 ?w2) = hexval (tl (map nbits xs))"
  proof -
    have "unat (drop_bit 4 ?w2) = unat ?w2 div 16" using unat_drop_bit [of 4 ?w2] by simp
    also have "\<dots> = hexval (tl (map nbits xs))" unfolding w2 xs8 using n4 by simp
    finally show ?thesis .
  qed
  have "unat (?w2 + drop_bit 4 ?w2) = hexval (map nbits xs) + hexval (tl (map nbits xs))"
    using add [of ?w2 "drop_bit 4 ?w2", unfolded w2 w2'] n4 unfolding xs8 by simp
  also have "\<dots> = hexval [nbits a + nbits b, nbits b + nbits c, nbits c + nbits d, nbits d + nbits e,
      nbits e + nbits f, nbits f + nbits g, nbits g + nbits h, nbits h]"
    unfolding xs8 by simp
  finally have sum: "unat (?w2 + drop_bit 4 ?w2) = \<dots>" .
  have keep: "x AND 15 = x" if "x \<le> 8" for x :: nat
    using that take_bit_nat_eq_self [of x 4] take_bit_eq_mask [of 4 x] by (simp add: mask_eq_exp_minus_1)
  have "unat ?w3 = unat (?w2 + drop_bit 4 ?w2) AND hexval [15, 0, 15, 0, 15, 0, 15, 0]"
    by (simp add: unsigned_and_eq)
  also have "\<dots> = hexval [nbits a + nbits b, 0, nbits c + nbits d, 0, nbits e + nbits f, 0, nbits g + nbits h, 0]"
    unfolding sum using n4 by (subst hexval_and) (simp_all add: keep)
  finally have w3: "unat ?w3 = (nbits a + nbits b) + 256 * (nbits c + nbits d) +
      65536 * (nbits e + nbits f) + 16777216 * (nbits g + nbits h)" by simp
  have "unat (drop_bit 24 (?w3 * 0x01010101)) = unat ?w3 * 16843009 mod 4294967296 div 16777216"
    using unat_drop_bit [of 24 "?w3 * 0x01010101"] by (simp add: unat_mult_lem unat_word_ariths)
  also have "\<dots> = (nbits a + nbits b) + (nbits c + nbits d) + (nbits e + nbits f) + (nbits g + nbits h)"
    unfolding w3 using n4 by (intro swar_product) simp_all
  also have "\<dots> = nbits (unat w)"
    using nbits_hexval [OF xs(1)] unfolding xs(3) by (simp add: xs8)
  finally show ?thesis by (simp add: vlAlgoPopCount32_def Let_def)
qed
lemma nbits_split: "a < 2 ^ k \<Longrightarrow> nbits (a + 2 ^ k * b) = nbits a + nbits b"
proof (induction k arbitrary: a)
  case 0
  then show ?case by simp
next
  case (Suc k)
  have eq: "a + 2 ^ Suc k * b = a mod 2 + 2 * (a div 2 + 2 ^ k * b)" by simp
  have "a div 2 < 2 ^ k" using Suc.prems by simp
  then have "nbits (a div 2 + 2 ^ k * b) = nbits (a div 2) + nbits b" by (rule Suc.IH)
  moreover have "nbits (a + 2 ^ Suc k * b) = a mod 2 + nbits (a div 2 + 2 ^ k * b)"
    unfolding eq by (rule nbits_bit) simp
  ultimately show ?case by (simp add: nbits_step [of a])
qed

lemma split64:
  fixes w :: u64
  shows "unat (ucast w :: u32) = unat w mod 2 ^ 32" and "unat (ucast (drop_bit 32 w) :: u32) = unat w div 2 ^ 32"
proof -
  show "unat (ucast w :: u32) = unat w mod 2 ^ 32"
    by (simp add: unsigned_ucast_eq take_bit_eq_mod)
  have "unat w div 2 ^ 32 < 2 ^ 32"
    using unsigned_less [of w] by (intro less_mult_imp_div_less) simp
  then show "unat (ucast (drop_bit 32 w) :: u32) = unat w div 2 ^ 32"
    using unat_drop_bit [of 32 w] by (simp add: unsigned_ucast_eq take_bit_eq_mod del: div_less)
qed

lemma popcount64_nbits: "vlAlgoPopCount64 PORTABLE w = nbits (unat w)"
proof -
  have "nbits (unat w) = nbits (unat w mod 2 ^ 32 + 2 ^ 32 * (unat w div 2 ^ 32))"
    by (simp only: mod_mult_div_eq)
  also have "\<dots> = nbits (unat w mod 2 ^ 32) + nbits (unat w div 2 ^ 32)"
    by (rule nbits_split) simp
  finally show ?thesis
    by (simp only: vlAlgoPopCount64_def vl_compiler.case popcount32_nbits split64 [of w])
qed

lemma unat_ucast_up:
  fixes w :: "'a::len word"
  assumes "LENGTH('a) \<le> LENGTH('b)"
  shows "unat (ucast w :: 'b::len word) = unat w"
proof -
  have "unat w < 2 ^ LENGTH('a)" by (rule unsigned_less)
  also have "(2::nat) ^ LENGTH('a) \<le> 2 ^ LENGTH('b)" using assms by (rule power_increasing) simp
  finally show ?thesis by (simp add: unsigned_ucast_eq take_bit_nat_eq_self)
qed

section \<open>Bit scans\<close>

lemma bit_top:
  fixes m :: nat
  assumes "m < 2 ^ Suc k"
  shows "bit m k \<longleftrightarrow> 2 ^ k \<le> m"
proof
  assume "bit m k"
  then have "odd (m div 2 ^ k)" by (simp add: bit_iff_odd)
  then have "m div 2 ^ k \<noteq> 0" by (intro notI) simp
  then show "2 ^ k \<le> m" by (simp add: div_eq_0_iff)
next
  assume "2 ^ k \<le> m"
  then have "1 \<le> m div 2 ^ k" by (simp add: div_greater_zero_iff Suc_le_eq)
  moreover have "m div 2 ^ k < 2" using assms by (intro less_mult_imp_div_less) simp
  ultimately have "m div 2 ^ k = 1" by simp
  then show "bit m k" by (simp add: bit_iff_odd)
qed

lemma last_bit:
  fixes m :: nat
  assumes "m < 2 ^ k" and "m \<noteq> 0"
  shows "filter (bit m) [0..<k] \<noteq> [] \<and> 2 ^ last (filter (bit m) [0..<k]) \<le> m \<and>
    m < 2 ^ Suc (last (filter (bit m) [0..<k]))"
  using assms
proof (induction k)
  case 0
  then show ?case by simp
next
  case (Suc k)
  show ?case
  proof (cases "bit m k")
    case True
    then show ?thesis using Suc.prems bit_top [OF Suc.prems(1)] by simp
  next
    case False
    then have "m < 2 ^ k" using bit_top [OF Suc.prems(1)] by simp
    then show ?thesis using Suc.IH Suc.prems False by simp
  qed
qed

lemma bit_unat: "bit (unat w) = bit w"
  by (rule ext) (simp add: bit_unsigned_iff)

lemma pow2_bracket_unique:
  fixes m :: nat
  assumes "2 ^ i \<le> m" "m < 2 ^ Suc i" "2 ^ j \<le> m" "m < 2 ^ Suc j"
  shows "i = j"
proof -
  have "i < Suc j" and "j < Suc i"
    using assms power_less_imp_less_exp [of "2::nat"] by (meson le_less_trans one_less_numeral_iff semiring_norm(76))+
  then show ?thesis by simp
qed

lemma bit_scan_reverse_eq:
  assumes "2 ^ j \<le> unat w" and "unat w < 2 ^ Suc j"
  shows "bit_scan_reverse w = Some j"
proof -
  let ?js = "filter (bit w) [0..<LENGTH('a)]"
  have "unat w \<noteq> 0" using assms(1) by (intro notI) simp
  then have js: "?js \<noteq> []" "2 ^ last ?js \<le> unat w" "unat w < 2 ^ Suc (last ?js)"
    using last_bit [OF unsigned_less [of w]] unfolding bit_unat by blast+
  then have "last ?js = j" using assms pow2_bracket_unique by blast
  then show ?thesis using js(1) by (cases ?js) (simp_all add: bit_scan_reverse_def)
qed

lemma top_bit_ex: "w \<noteq> 0 \<Longrightarrow> \<exists>j < LENGTH('a). 2 ^ j \<le> unat (w :: 'a::len word) \<and> unat w < 2 ^ Suc j"
proof -
  assume "w \<noteq> 0"
  then have "unat w \<noteq> 0" by (simp add: unat_eq_zero)
  then have *: "2 ^ last (filter (bit w) [0..<LENGTH('a)]) \<le> unat w"
    "unat w < 2 ^ Suc (last (filter (bit w) [0..<LENGTH('a)]))"
    "filter (bit w) [0..<LENGTH('a)] \<noteq> []"
    using last_bit [OF unsigned_less [of w]] unfolding bit_unat by blast+
  then have "last (filter (bit w) [0..<LENGTH('a)]) < LENGTH('a)" using last_in_set [OF *(3)] by simp
  with * show ?thesis by blast
qed

section \<open>The binary search for leading zeros\<close>

lemma mask_clear_iff:
  fixes w :: "'a::len word"
  shows "w AND NOT (mask n) = 0 \<longleftrightarrow> unat w < 2 ^ n"
proof -
  have "w AND NOT (mask n) = 0 \<longleftrightarrow> unat w div 2 ^ n * 2 ^ n = 0"
    using and_not_mask_nat [of w n] unat_eq_zero [of "w AND NOT (mask n)"] by simp
  then show ?thesis by (simp add: div_eq_0_iff)
qed

text \<open>
  The state of the search: \<^term>\<open>c\<close> zeros are found and shifted out of \<^term>\<open>w\<close>, fewer than \<^term>\<open>k\<close>
  are left.
\<close>

definition clz_state :: "'a::len word \<Rightarrow> nat \<Rightarrow> nat \<times> 'a word \<Rightarrow> bool" where
  "clz_state w k = (\<lambda>(c, x). unat x = unat w * 2 ^ c \<and> 2 ^ (LENGTH('a) - k) \<le> unat x)"

lemma clz_step_state:
  fixes w :: "'a::len word"
  assumes st: "clz_state w (2 * k) s" and k: "0 < k" "2 * k \<le> LENGTH('a)"
    and m: "m = NOT (mask (LENGTH('a) - k))"
  shows "clz_state w k (clz_step m k s)"
proof -
  obtain c x where s: "s = (c, x)" by (cases s)
  from st have x: "unat x = unat w * 2 ^ c" "2 ^ (LENGTH('a) - 2 * k) \<le> unat x"
    by (simp_all add: s clz_state_def)
  show ?thesis
  proof (cases "unat x < 2 ^ (LENGTH('a) - k)")
    case True
    have "unat x * 2 ^ k < 2 ^ (LENGTH('a) - k) * 2 ^ k" using True by simp
    also have "\<dots> = 2 ^ LENGTH('a)" using k by (simp flip: power_add)
    finally have "unat (push_bit k x) = unat x * 2 ^ k"
      using take_bit_nat_eq_self [of "push_bit k (unat x)" "LENGTH('a)"]
      by (simp only: unsigned_push_bit_eq push_bit_eq_mult [of k "unat x"])
    moreover have "(2::nat) ^ (LENGTH('a) - k) = 2 ^ (LENGTH('a) - 2 * k) * 2 ^ k"
      using k by (simp flip: power_add)
    ultimately show ?thesis
      using True x by (simp add: s clz_step_def m mask_clear_iff clz_state_def power_add)
  next
    case False
    then show ?thesis using x by (simp add: s clz_step_def m mask_clear_iff clz_state_def)
  qed
qed

lemma clz_state_done:
  fixes w :: "'a::len word"
  assumes "clz_state w 1 s"
  shows "bit_scan_reverse w = Some (LENGTH('a) - 1 - fst s)" and "fst s < LENGTH('a)"
proof -
  let ?L = "LENGTH('a)"
  obtain c x where s: "s = (c, x)" by (cases s)
  from assms have x: "unat x = unat w * 2 ^ c" "2 ^ (?L - 1) \<le> unat x"
    by (simp_all add: s clz_state_def)
  have less: "unat w * 2 ^ c < 2 ^ ?L" unfolding x(1) [symmetric] by (rule unsigned_less)
  have "unat w \<noteq> 0"
  proof
    assume "unat w = 0"
    then have "(2::nat) ^ (?L - 1) \<le> 0" using x by simp
    then show False by simp
  qed
  then have "2 ^ c \<le> unat w * 2 ^ c" by simp
  then have "(2::nat) ^ c < 2 ^ ?L" using less by (rule le_less_trans)
  then show c: "fst s < ?L" by (simp add: s)
  then have p: "(2::nat) ^ (?L - 1) = 2 ^ (?L - 1 - c) * 2 ^ c" "(2::nat) ^ ?L = 2 ^ (?L - c) * 2 ^ c"
    by (simp_all add: s flip: power_add)
  have "2 ^ (?L - 1 - c) \<le> unat w" using x unfolding p by simp
  moreover have "unat w < 2 ^ Suc (?L - 1 - c)"
  proof -
    have "Suc (?L - 1 - c) = ?L - c" using c by (simp add: s)
    then show ?thesis using less unfolding p(2) by simp
  qed
  ultimately show "bit_scan_reverse w = Some (?L - 1 - fst s)"
    unfolding s fst_conv by (rule bit_scan_reverse_eq)
qed

lemma clz_state_init:
  "w \<noteq> 0 \<Longrightarrow> clz_state (w :: 'a::len word) LENGTH('a) (0, w)"
  by (simp add: clz_state_def unat_gt_0 Suc_le_eq)

lemma clz8_state:
  assumes "w \<noteq> 0"
  shows "clz_state (w :: u8) 1 (clz_step 0x80 1 (clz_step 0xC0 2 (clz_step 0xF0 4 (0, w))))"
proof -
  have "clz_state w (2 * 4) (0, w)" using clz_state_init [OF assms] by simp
  then have "clz_state w 4 (clz_step 0xF0 4 (0, w))" by (rule clz_step_state) (simp_all add: mask_eq_exp_minus_1)
  then have "clz_state w (2 * 2) (clz_step 0xF0 4 (0, w))" by simp
  then have "clz_state w 2 (clz_step 0xC0 2 (clz_step 0xF0 4 (0, w)))"
    by (rule clz_step_state) (simp_all add: mask_eq_exp_minus_1)
  then have "clz_state w (2 * 1) (clz_step 0xC0 2 (clz_step 0xF0 4 (0, w)))" by simp
  then show ?thesis by (rule clz_step_state) (simp_all add: mask_eq_exp_minus_1)
qed

lemma clz32_state:
  assumes "w \<noteq> 0"
  shows "clz_state (w :: u32) 1 (clz_step 0x80000000 1 (clz_step 0xC0000000 2 (clz_step 0xF0000000 4
     (clz_step 0xFF000000 8 (clz_step 0xFFFF0000 16 (0, w))))))"
proof -
  have "clz_state w (2 * 16) (0, w)" using clz_state_init [OF assms] by simp
  then have "clz_state w 16 (clz_step 0xFFFF0000 16 (0, w))" (is "clz_state _ _ ?s")
    by (rule clz_step_state) (simp_all add: mask_eq_exp_minus_1)
  then have "clz_state w (2 * 8) ?s" by simp
  then have "clz_state w 8 (clz_step 0xFF000000 8 ?s)" (is "clz_state _ _ ?s")
    by (rule clz_step_state) (simp_all add: mask_eq_exp_minus_1)
  then have "clz_state w (2 * 4) ?s" by simp
  then have "clz_state w 4 (clz_step 0xF0000000 4 ?s)" (is "clz_state _ _ ?s")
    by (rule clz_step_state) (simp_all add: mask_eq_exp_minus_1)
  then have "clz_state w (2 * 2) ?s" by simp
  then have "clz_state w 2 (clz_step 0xC0000000 2 ?s)" (is "clz_state _ _ ?s")
    by (rule clz_step_state) (simp_all add: mask_eq_exp_minus_1)
  then have "clz_state w (2 * 1) ?s" by simp
  then show ?thesis by (rule clz_step_state) (simp_all add: mask_eq_exp_minus_1)
qed

lemma bit_scan_reverse_ucast:
  fixes w :: "'a::len word"
  assumes "LENGTH('a) \<le> LENGTH('b)" and "w \<noteq> 0"
  shows "bit_scan_reverse (ucast w :: 'b::len word) = bit_scan_reverse w"
proof -
  obtain j where j: "2 ^ j \<le> unat w" "unat w < 2 ^ Suc j" using top_bit_ex [OF assms(2)] by blast
  moreover have "unat (ucast w :: 'b word) = unat w" using assms(1) by (rule unat_ucast_up)
  ultimately show ?thesis by (simp add: bit_scan_reverse_eq del: power_Suc)
qed

section \<open>The lowest bit\<close>

lemma odd_isolate:
  fixes u :: "'a::len word"
  assumes "odd u"
  shows "u AND - u = 1"
proof -
  have "u AND - u = (1 OR (u - 1)) AND NOT (u - 1)"
    using assms by (simp add: one_or_eq minus_eq_not_minus_1)
  also have "\<dots> = (1 AND NOT (u - 1)) OR ((u - 1) AND NOT (u - 1))" by (rule bit.conj_disj_distrib2)
  also have "\<dots> = NOT (u - 1) AND 1" by (simp add: and.commute)
  also have "\<dots> = 1" using assms by (simp add: and_one_eq even_not_iff mod2_eq_if)
  finally show ?thesis .
qed

lemma lowest_bit_ex:
  fixes w :: "'a::len word"
  assumes "w \<noteq> 0"
  obtains j where "j < LENGTH('a)" "bit w j" "\<And>i. i < j \<Longrightarrow> \<not> bit w i"
proof -
  obtain n where "bit w n" using assms by (auto simp: bit_eq_iff)
  then have "bit w (LEAST n. bit w n)" by (rule LeastI)
  moreover from this have "(LEAST n. bit w n) < LENGTH('a)" by (rule bit_imp_le_length)
  ultimately show thesis using that not_less_Least [of _ "bit w"] by blast
qed

lemma lowest_bit_isolate:
  fixes w :: "'a::len word"
  assumes "bit w j" and "\<And>i. i < j \<Longrightarrow> \<not> bit w i"
  shows "w AND - w = push_bit j 1"
proof -
  have "j \<le> n" if "bit w n" for n using assms(2) [of n] that by (meson leI)
  then have w: "w = push_bit j (drop_bit j w)" by (intro bit_word_eqI) (auto simp: bit_simps)
  have "odd (drop_bit j w)" using assms(1) by (simp add: bit_iff_odd drop_bit_eq_div)
  have "w AND - w = push_bit j (drop_bit j w) AND push_bit j (- drop_bit j w)"
    by (subst (1 2) w) (simp add: push_bit_minus)
  also have "\<dots> = push_bit j (drop_bit j w AND - drop_bit j w)" by simp
  finally show ?thesis using odd_isolate [OF \<open>odd (drop_bit j w)\<close>] by simp
qed

lemma bit_scan_forward_eq:
  fixes w :: "'a::len word"
  assumes "bit w j" and "\<And>i. i < j \<Longrightarrow> \<not> bit w i"
  shows "bit_scan_forward w = Some j"
proof -
  have "j < LENGTH('a)" using assms(1) by (rule bit_imp_le_length)
  then have "[0..<LENGTH('a)] = [0..<j] @ j # [Suc j..<LENGTH('a)]"
    by (metis le0 less_imp_le_nat upt_add_eq_append upt_conv_Cons le_add_diff_inverse)
  moreover have "filter (bit w) [0..<j] = []" using assms(2) by (simp add: filter_empty_conv)
  ultimately show ?thesis using assms(1) by (simp add: bit_scan_forward_def)
qed

lemma bit_scan_forward_ucast:
  fixes w :: "'a::len word"
  assumes "LENGTH('a) \<le> LENGTH('b)" and "w \<noteq> 0"
  shows "bit_scan_forward (ucast w :: 'b::len word) = bit_scan_forward w"
proof -
  obtain j where j: "j < LENGTH('a)" "bit w j" "\<And>i. i < j \<Longrightarrow> \<not> bit w i"
    using lowest_bit_ex [OF assms(2)] by blast
  then have "bit_scan_forward (ucast w :: 'b word) = Some j"
    using assms(1) by (intro bit_scan_forward_eq) (auto simp: bit_simps)
  then show ?thesis using j bit_scan_forward_eq [of w j] by simp
qed

lemma debruijn_table:
  assumes "j < 32"
  shows "unat (drop_bit 27 (push_bit j 1 * 0x077CB531 :: u32)) < 32 \<and>
    ctz32_table ! unat (drop_bit 27 (push_bit j 1 * 0x077CB531 :: u32)) = j" (is "?P j")
proof -
  have "list_all ?P (0 # 1 # [2..<32])" by (simp add: upt_rec_numeral ctz32_table_def)
  moreover have "0 # 1 # [2..<32] = [0..<32::nat]"
    by (simp add: upt_conv_Cons numeral_2_eq_2 del: upt_rec_numeral)
  ultimately have "list_all ?P [0..<32]" by (simp only:)
  then have "\<forall>j \<in> set [0..<32]. ?P j" unfolding list_all_iff .
  moreover have "j \<in> set [0..<32]" using assms by simp
  ultimately show ?thesis by (rule bspec)
qed

lemma ctz32_portable:
  assumes "w \<noteq> 0"
  shows "vlAlgoCTZ32 PORTABLE w = bit_scan_forward w"
proof -
  obtain j where j: "j < 32" "bit w j" "\<And>i. i < j \<Longrightarrow> \<not> bit w i"
    using lowest_bit_ex [OF assms] by auto
  then show ?thesis
    using assms lowest_bit_isolate [OF j(2,3)] bit_scan_forward_eq [OF j(2,3)] debruijn_table [OF j(1)]
    by (simp add: vlAlgoCTZ32_def Let_def ctz32_table_def)
qed

section \<open>Properties\<close>

lemma popcount8_eq: "vlAlgoPopCount8 cc w = intrinsic_popcount w"
  by (cases cc) (simp_all add: vlAlgoPopCount8_def intrinsic_nbits unat_ucast_up popcount8_loop_nbits)

lemma popcount16_eq: "vlAlgoPopCount16 cc w = intrinsic_popcount w"
  by (cases cc) (simp_all add: vlAlgoPopCount16_def intrinsic_nbits unat_ucast_up popcount16_loop_nbits)

lemma popcount32_eq: "vlAlgoPopCount32 cc w = intrinsic_popcount w"
proof (cases cc)
  case PORTABLE
  then show ?thesis by (simp only: popcount32_nbits intrinsic_nbits)
qed (simp_all add: vlAlgoPopCount32_def)

lemma popcount64_eq: "vlAlgoPopCount64 cc w = intrinsic_popcount w"
proof (cases cc)
  case PORTABLE
  then show ?thesis by (simp only: popcount64_nbits intrinsic_nbits)
qed (simp_all add: vlAlgoPopCount64_def)

lemma clz8_cases:
  assumes "w \<noteq> 0"
  shows "vlAlgoCLZ8 cc w = builtin_clz w"
proof -
  obtain j where j: "j < 8" "bit_scan_reverse w = Some j"
    using top_bit_ex [OF assms] bit_scan_reverse_eq [of _ w] by auto
  moreover have "bit_scan_reverse (ucast w :: u32) = Some j"
    using j assms by (simp add: bit_scan_reverse_ucast)
  moreover have "vlAlgoCLZ8 PORTABLE w = Some (7 - j)"
    using clz_state_done [OF clz8_state [OF assms]] j assms by (simp add: vlAlgoCLZ8_def)
  ultimately show ?thesis
    using assms by (cases cc) (simp_all add: vlAlgoCLZ8_def builtin_clz_def)
qed

lemma clz32_cases:
  assumes "w \<noteq> 0"
  shows "vlAlgoCLZ32 cc w = builtin_clz w"
proof -
  obtain j where j: "j < 32" "bit_scan_reverse w = Some j"
    using top_bit_ex [OF assms] bit_scan_reverse_eq [of _ w] by auto
  moreover have "vlAlgoCLZ32 PORTABLE w = Some (31 - j)"
    using clz_state_done [OF clz32_state [OF assms]] j assms by (simp add: vlAlgoCLZ32_def)
  ultimately show ?thesis
    using assms by (cases cc) (simp_all add: vlAlgoCLZ32_def builtin_clz_def)
qed

lemma clz64_cases:
  assumes "w \<noteq> 0"
  shows "vlAlgoCLZ64 cc w = builtin_clz w"
proof -
  let ?hi = "ucast (drop_bit 32 w) :: u32" and ?lo = "ucast w :: u32"
  obtain j where j: "j < 64" "2 ^ j \<le> unat w" "unat w < 2 ^ Suc j"
    using top_bit_ex [OF assms] by auto
  note top = bit_scan_reverse_eq [OF j(2,3)]
  have "vlAlgoCLZ64 PORTABLE w = Some (63 - j)"
  proof (cases "?hi = 0")
    case True
    then have "unat w div 2 ^ 32 = 0" using split64(2) [of w] by simp
    then have "unat ?lo = unat w" using split64(1) [of w] by (simp add: div_eq_0_iff)
    then have lo: "bit_scan_reverse ?lo = Some j" using j by (intro bit_scan_reverse_eq) simp_all
    have "?lo \<noteq> 0" using \<open>unat ?lo = unat w\<close> assms by (metis unat_eq_zero)
    moreover from this obtain k where "k < 32" "bit_scan_reverse ?lo = Some k"
      using top_bit_ex [of ?lo] bit_scan_reverse_eq [of _ ?lo] by auto
    ultimately show ?thesis
      using True assms lo by (simp add: vlAlgoCLZ64_def clz32_cases builtin_clz_def)
  next
    case False
    then obtain k where k: "k < 32" "2 ^ k \<le> unat ?hi" "unat ?hi < 2 ^ Suc k"
      using top_bit_ex [of ?hi] by auto
    have "2 ^ (32 + k) \<le> unat w" and "unat w < 2 ^ Suc (32 + k)"
      using k(2,3) unfolding split64(2) [of w] by (simp_all add: power_add less_eq_div_iff_mult_less_eq div_less_iff_less_mult)
    then have "j = 32 + k" using j pow2_bracket_unique by blast
    then show ?thesis
      using False assms k bit_scan_reverse_eq [OF k(2,3)]
      by (simp add: vlAlgoCLZ64_def clz32_cases builtin_clz_def)
  qed
  then show ?thesis using assms top by (cases cc) (simp_all add: vlAlgoCLZ64_def builtin_clz_def)
qed

lemma ctz32_cases:
  assumes "w \<noteq> 0"
  shows "vlAlgoCTZ32 cc w = builtin_ctz w"
proof (cases cc)
  case PORTABLE
  then show ?thesis using ctz32_portable [OF assms] by (simp add: builtin_ctz_def)
qed (use assms in \<open>simp_all add: vlAlgoCTZ32_def builtin_ctz_def\<close>)

lemma ctz64_cases:
  assumes "w \<noteq> 0"
  shows "vlAlgoCTZ64 cc w = builtin_ctz w"
proof -
  let ?hi = "ucast (drop_bit 32 w) :: u32" and ?lo = "ucast w :: u32"
  obtain j where j: "j < 64" "bit w j" "\<And>i. i < j \<Longrightarrow> \<not> bit w i"
    using lowest_bit_ex [OF assms] by auto
  have lo: "bit ?lo i \<longleftrightarrow> i < 32 \<and> bit w i" and hi: "bit ?hi i \<longleftrightarrow> i < 32 \<and> bit w (32 + i)" for i
    by (auto simp: bit_simps)
  have "vlAlgoCTZ64 PORTABLE w = Some j"
  proof (cases "?lo = 0")
    case True
    then have "\<not> (j < 32 \<and> bit w j)" using lo [of j] by simp
    then have "32 \<le> j" using j(2) by simp
    have b: "bit ?hi (j - 32)" using j \<open>32 \<le> j\<close> by (simp add: hi)
    moreover have "\<not> bit ?hi i" if "i < j - 32" for i
      using j that by (simp add: hi)
    ultimately have f: "bit_scan_forward ?hi = Some (j - 32)" by (rule bit_scan_forward_eq)
    have "?hi \<noteq> 0" using b by (intro notI) simp
    then show ?thesis
      using True assms \<open>32 \<le> j\<close> f by (simp add: vlAlgoCTZ64_def ctz32_cases builtin_ctz_def)
  next
    case False
    then obtain k where k: "k < 32" "bit ?lo k" "\<And>i. i < k \<Longrightarrow> \<not> bit ?lo i"
      using lowest_bit_ex [of ?lo] by auto
    have "\<not> j < k" and "\<not> k < j" using j k lo by auto
    then have "k = j" by simp
    then show ?thesis
      using False assms bit_scan_forward_eq [OF k(2,3)] by (simp add: vlAlgoCTZ64_def ctz32_cases builtin_ctz_def)
  qed
  then show ?thesis
    using assms bit_scan_forward_eq [OF j(2,3)] by (cases cc) (simp_all add: vlAlgoCTZ64_def builtin_ctz_def)
qed

text \<open>
  C19. The bit counts are the same on every compiler. The population counts (a loop that shifts, a
  loop that clears the lowest bit, the parallel sum of bytes, two halves), the leading zeros of
  8, 32 and 64 bits (a binary search) and the trailing zeros of 32 and 64 bits (a de Bruijn
  sequence, whose table is never left) return in every branch what the intrinsic returns, or
  the width for the zeros of zero.
\<close>

theorem bit_counts_agree:
  "vlAlgoPopCount8 cc a = intrinsic_popcount a \<and> vlAlgoPopCount16 cc d = intrinsic_popcount d \<and>
   vlAlgoPopCount32 cc b = intrinsic_popcount b \<and> vlAlgoPopCount64 cc c = intrinsic_popcount c \<and>
   vlAlgoCLZ8 cc a = (if a = 0 then Some 8 else builtin_clz a) \<and>
   vlAlgoCLZ32 cc b = (if b = 0 then Some 32 else builtin_clz b) \<and>
   vlAlgoCLZ64 cc c = (if c = 0 then Some 64 else builtin_clz c) \<and>
   vlAlgoCTZ32 cc b = (if b = 0 then Some 32 else builtin_ctz b) \<and>
   vlAlgoCTZ64 cc c = (if c = 0 then Some 64 else builtin_ctz c)"
proof (intro conjI popcount8_eq popcount16_eq popcount32_eq popcount64_eq)
  show "vlAlgoCLZ8 cc a = (if a = 0 then Some 8 else builtin_clz a)"
    using clz8_cases by (simp add: vlAlgoCLZ8_def)
  show "vlAlgoCLZ32 cc b = (if b = 0 then Some 32 else builtin_clz b)"
    using clz32_cases by (simp add: vlAlgoCLZ32_def)
  show "vlAlgoCLZ64 cc c = (if c = 0 then Some 64 else builtin_clz c)"
    using clz64_cases by (simp add: vlAlgoCLZ64_def)
  show "vlAlgoCTZ32 cc b = (if b = 0 then Some 32 else builtin_ctz b)"
    using ctz32_cases by (simp add: vlAlgoCTZ32_def)
  show "vlAlgoCTZ64 cc c = (if c = 0 then Some 64 else builtin_ctz c)"
    using ctz64_cases by (simp add: vlAlgoCTZ64_def)
qed

lemma ctz8_portable: "vlAlgoCTZ8 PORTABLE w = Some (if w = 0 then 8 else 0)"
proof (cases "w = 0")
  case False
  then obtain j where j: "j < 8" "bit w j" "\<And>i. i < j \<Longrightarrow> \<not> bit w i"
    using lowest_bit_ex [OF False] by auto
  then have "ucast w AND - ucast w = (push_bit j 1 :: u32)"
    by (intro lowest_bit_isolate) (auto simp: bit_simps)
  moreover have "unat (drop_bit 29 (push_bit j 1 * 0x17 :: u32)) = 0"
  proof -
    have "j = 0 \<or> j = 1 \<or> j = 2 \<or> j = 3 \<or> j = 4 \<or> j = 5 \<or> j = 6 \<or> j = 7" using j(1) by linarith
    then show ?thesis by (elim disjE) simp_all
  qed
  ultimately show ?thesis using False by (simp add: vlAlgoCTZ8_def Let_def)
qed (simp add: vlAlgoCTZ8_def)

lemma ctz16_portable:
  "vlAlgoCTZ16 PORTABLE w = Some (if w = 0 then 16 else if w AND 0xFF \<noteq> 0 then 0 else 8)"
proof (cases "w = 0")
  case False
  have ucast: "ucast x = (0 :: u8) \<longleftrightarrow> unat x mod 256 = 0" for x :: u16
    using unat_eq_zero [of "ucast x :: u8"] by (simp add: unsigned_ucast_eq take_bit_eq_mod)
  have "w AND 0xFF = take_bit 8 w" by (simp add: take_bit_eq_mask mask_eq_exp_minus_1)
  moreover have "unat (take_bit 8 w) = unat w mod 2 ^ 8"
    by (rule trans [OF unsigned_take_bit_eq take_bit_eq_mod])
  ultimately have low: "unat (w AND 0xFF) = unat w mod 256" by simp
  have "unat (drop_bit 8 w) = unat w div 256" using unat_drop_bit [of 8 w] by simp
  moreover have "unat w div 256 < 256" using unsigned_less [of w] by (intro less_mult_imp_div_less) simp
  ultimately have high: "ucast (drop_bit 8 w) = (0 :: u8) \<longleftrightarrow> unat w div 256 = 0"
    by (simp only: ucast mod_less)
  have pos: "unat w \<noteq> 0" using False by (simp add: unat_eq_zero)
  then have "unat w mod 256 = 0 \<Longrightarrow> unat w div 256 \<noteq> 0" using div_mult_mod_eq [of "unat w" 256] by auto
  moreover have "w AND 0xFF = 0 \<longleftrightarrow> unat w mod 256 = 0" using low unat_eq_zero [of "w AND 0xFF"] by simp
  moreover have "ucast (w AND 0xFF) = (0 :: u8) \<longleftrightarrow> unat w mod 256 = 0" by (simp only: ucast low mod_mod_trivial)
  ultimately show ?thesis using False high pos by (simp only: vlAlgoCTZ16_def ctz8_portable) simp
qed (simp add: vlAlgoCTZ16_def)

text \<open>
  Three portable branches are wrong. For 8 bits the product is shifted as a 32-bit number,
  so that the index is always 0 and so is the result; 16 bits inherit this: the result is 0 or 8.
  The leading zeros of 16 bits add 8 to those of the upper byte, the wrong way round.
\<close>

theorem portable_fallbacks_wrong:
  "vlAlgoCTZ8 PORTABLE a = Some (if a = 0 then 8 else 0) \<and>
   vlAlgoCTZ16 PORTABLE b = Some (if b = 0 then 16 else if b AND 0xFF \<noteq> 0 then 0 else 8) \<and>
   vlAlgoCTZ8 GCC_LIKE 0x80 = Some 7 \<and>
   vlAlgoCLZ16 PORTABLE 0x0100 = Some 15 \<and> vlAlgoCLZ16 GCC_LIKE 0x0100 = Some 7"
proof (intro conjI)
  show "vlAlgoCTZ8 GCC_LIKE 0x80 = Some 7" by code_simp
  show "vlAlgoCLZ16 PORTABLE 0x0100 = Some 15" by code_simp
  show "vlAlgoCLZ16 GCC_LIKE 0x0100 = Some 7" by code_simp
qed (rule ctz8_portable ctz16_portable)+

end
