(* ===== verification/VL_AlgoArith.thy ===== *)
theory VL_AlgoArith
  imports VL_AlgoBits
begin

text \<open>
  The arithmetic of \<^verbatim>\<open>src/core/vl_algo.c\<close>: the binary greatest common divisor ends and is the
  greatest common divisor, the least common multiple detects its overflow, the powers of two,
  and the overflow predicates on every compiler.
\<close>

section \<open>Factors of two\<close>

lemma and_one_zero:
  fixes w :: u64
  shows "w AND 1 = 0 \<longleftrightarrow> even (unat w)"
  using unat_eq_zero [of "w AND 1"] by (simp add: and_one_eq unat_mod even_iff_mod_2_eq_zero)

lemma halve:
  "even (unat w) \<Longrightarrow> unat w = 2 * unat (drop_bit 1 w)"
  using unat_drop_bit [of 1 w] by simp

lemma odd_pos: "odd (unat w) \<Longrightarrow> w \<noteq> 0"
  by (intro notI) simp

lemma gcd_strip_ok:
  "a \<noteq> 0 \<Longrightarrow> \<exists>a' k. gcd_strip a = Some a' \<and> odd (unat a') \<and> unat a = 2 ^ k * unat a'"
proof (induction "unat a" arbitrary: a rule: less_induct)
  case less
  show ?case
  proof (cases "even (unat a)")
    case True
    note h = halve [OF True]
    have "0 < unat a" using less.prems by (simp add: unat_gt_0)
    then have "drop_bit 1 a \<noteq> 0" "unat (drop_bit 1 a) < unat a" using h by auto
    then obtain a' k where "gcd_strip (drop_bit 1 a) = Some a'" "odd (unat a')"
      "unat (drop_bit 1 a) = 2 ^ k * unat a'"
      using less.hyps by blast
    moreover have "gcd_strip a = gcd_strip (drop_bit 1 a)"
      using True by (subst gcd_strip.simps) (simp only: and_one_zero if_True)
    ultimately have "gcd_strip a = Some a' \<and> odd (unat a') \<and> unat a = 2 ^ Suc k * unat a'"
      using h by simp
    then show ?thesis by blast
  next
    case False
    then have "gcd_strip a = Some a \<and> odd (unat a) \<and> unat a = 2 ^ 0 * unat a"
      by (subst gcd_strip.simps) (simp add: and_one_zero)
    then show ?thesis by blast
  qed
qed

lemma gcd_common_ok:
  "a \<noteq> 0 \<Longrightarrow> b \<noteq> 0 \<Longrightarrow> \<exists>a' b' k. gcd_common a b s = Some (a', b', s + k) \<and>
     unat a = 2 ^ k * unat a' \<and> unat b = 2 ^ k * unat b' \<and> (odd (unat a') \<or> odd (unat b'))"
proof (induction "unat a" arbitrary: a b s rule: less_induct)
  case less
  have both: "(a OR b) AND 1 = 0 \<longleftrightarrow> even (unat a) \<and> even (unat b)"
    by (simp add: bit.conj_disj_distrib2 or_eq_0_iff and_one_zero)
  show ?case
  proof (cases "even (unat a) \<and> even (unat b)")
    case True
    let ?a = "drop_bit 1 a" and ?b = "drop_bit 1 b"
    have h: "unat a = 2 * unat ?a" "unat b = 2 * unat ?b" using True halve by blast+
    have "0 < unat a" "0 < unat b" using less.prems by (simp_all add: unat_gt_0)
    then have "?a \<noteq> 0" "?b \<noteq> 0" "unat ?a < unat a" using h by auto
    then obtain a' b' k where ih: "gcd_common ?a ?b (s + 1) = Some (a', b', s + 1 + k)"
      "unat ?a = 2 ^ k * unat a'" "unat ?b = 2 ^ k * unat b'" "odd (unat a') \<or> odd (unat b')"
      using less.hyps [of ?a ?b "s + 1"] by blast
    have "gcd_common a b s = gcd_common ?a ?b (s + 1)"
      using True both by (subst gcd_common.simps) (simp only: if_True simp_thms)
    with ih h have "gcd_common a b s = Some (a', b', s + Suc k) \<and> unat a = 2 ^ Suc k * unat a' \<and>
      unat b = 2 ^ Suc k * unat b' \<and> (odd (unat a') \<or> odd (unat b'))" by simp
    then show ?thesis by blast
  next
    case False
    then have "gcd_common a b s = Some (a, b, s + 0) \<and> unat a = 2 ^ 0 * unat a \<and>
      unat b = 2 ^ 0 * unat b \<and> (odd (unat a) \<or> odd (unat b))"
      using both by (subst gcd_common.simps) auto
    then show ?thesis by blast
  qed
qed

lemma gcd_pow2_odd: "odd (n::nat) \<Longrightarrow> gcd (2 ^ k * m) n = gcd m n"
  by (rule gcd_mult_left_left_cancel) (simp add: coprime_power_left_iff coprime_left_2_iff_odd)

lemma gcd_diff: "(m::nat) \<le> n \<Longrightarrow> gcd m (n - m) = gcd m n"
  by (metis gcd.commute gcd_diff1_nat)

section \<open>The greatest common divisor\<close>

lemma gcd_loop_ok:
  "odd (unat a) \<Longrightarrow> b \<noteq> 0 \<Longrightarrow> \<exists>r. gcd_loop a b = Some r \<and> unat r = gcd (unat a) (unat b)"
proof (induction "unat a + unat b" arbitrary: a b rule: less_induct)
  case less
  obtain b' k where b': "gcd_strip b = Some b'" "odd (unat b')" "unat b = 2 ^ k * unat b'"
    using gcd_strip_ok [OF less.prems(2)] by blast
  have le: "unat b' \<le> unat b" unfolding b'(3) by simp
  have g: "gcd (unat a) (unat b) = gcd (unat a) (unat b')"
    unfolding b'(3) using gcd_pow2_odd [OF less.prems(1)] by (metis gcd.commute)
  define x y where "x = (if a > b' then b' else a)" and "y = (if a > b' then a else b')"
  then have xy: "x \<le> y" "odd (unat x)" "unat x + unat y = unat a + unat b'"
    "gcd (unat x) (unat y) = gcd (unat a) (unat b')"
    using less.prems(1) b'(2) by (auto simp: gcd.commute)
  then have sub: "unat (y - x) = unat y - unat x" and le_xy: "unat x \<le> unat y"
    by (simp_all add: unat_sub word_le_nat_alt)
  have step: "gcd_loop a b = (if y - x \<noteq> 0 then gcd_loop x (y - x) else Some x)"
    by (subst gcd_loop.simps) (simp add: b'(1) Let_def x_def y_def)
  show ?case
  proof (cases "y - x = 0")
    case True
    then have "unat y = unat x" by simp
    then show ?thesis using True step xy(4) g by simp
  next
    case False
    have "0 < unat x" using odd_pos [OF xy(2)] by (simp add: unat_gt_0)
    then have "unat x + unat (y - x) < unat a + unat b" using sub le_xy xy(3) le by linarith
    then obtain r where "gcd_loop x (y - x) = Some r" "unat r = gcd (unat x) (unat (y - x))"
      using less.hyps xy(2) False by blast
    then show ?thesis using False step sub gcd_diff [OF le_xy] xy(4) g by simp
  qed
qed

lemma vlAlgoGCD_ok: "vlAlgoGCD a b = Some (of_nat (gcd (unat a) (unat b)))"
proof (cases "a = 0 \<or> b = 0")
  case True
  then show ?thesis by (auto simp: vlAlgoGCD_def)
next
  case False
  then have "a \<noteq> 0" "b \<noteq> 0" by auto
  then obtain a' b' k where c: "gcd_common a b 0 = Some (a', b', 0 + k)"
    "unat a = 2 ^ k * unat a'" "unat b = 2 ^ k * unat b'" "odd (unat a') \<or> odd (unat b')"
    using gcd_common_ok [of a b 0] by blast
  have "a' \<noteq> 0" "b' \<noteq> 0" using c(2,3) \<open>a \<noteq> 0\<close> \<open>b \<noteq> 0\<close> by (auto simp: unat_eq_zero)
  then obtain a'' l where s: "gcd_strip a' = Some a''" "odd (unat a'')" "unat a' = 2 ^ l * unat a''"
    using gcd_strip_ok by blast
  obtain r where r: "gcd_loop a'' b' = Some r" "unat r = gcd (unat a'') (unat b')"
    using gcd_loop_ok [OF s(2) \<open>b' \<noteq> 0\<close>] by blast
  have "gcd (unat a'') (unat b') = gcd (unat a') (unat b')"
  proof (cases "odd (unat b')")
    case True
    then show ?thesis unfolding s(3) by (rule gcd_pow2_odd [symmetric])
  next
    case False
    with c(4) have "l = 0" using s(3) by (cases l) auto
    then show ?thesis using s(3) by simp
  qed
  then have "2 ^ k * unat r = gcd (unat a) (unat b)"
    unfolding c(2,3) r(2) by (simp add: gcd_mult_distrib_nat)
  then have "of_nat (gcd (unat a) (unat b)) = (of_nat (2 ^ k * unat r) :: u64)" by simp
  also have "\<dots> = push_bit k r" by (simp add: push_bit_eq_mult mult.commute)
  finally have "push_bit k r = of_nat (gcd (unat a) (unat b))" by (rule sym)
  then show ?thesis using \<open>a \<noteq> 0\<close> \<open>b \<noteq> 0\<close> c(1) s(1) r(1) by (simp add: vlAlgoGCD_def)
qed

section \<open>The least common multiple\<close>

lemma div_less_iff: "0 < b \<Longrightarrow> (m div b < q) \<longleftrightarrow> m < q * (b::nat)"
  by (simp add: div_less_iff_less_mult)

lemma quotient_overflow:
  fixes q b :: u64
  assumes "b \<noteq> 0"
  shows "- 1 div b < q \<longleftrightarrow> 2 ^ 64 \<le> unat q * unat b"
proof -
  have max: "unat (- 1 :: u64) = 2 ^ 64 - 1"
    by (simp add: unsigned_minus_1_eq_mask mask_eq_exp_minus_1)
  have "- 1 div b < q \<longleftrightarrow> (2 ^ 64 - 1) div unat b < unat q"
    by (simp only: word_less_nat_alt unat_div max)
  also have "\<dots> \<longleftrightarrow> 2 ^ 64 - 1 < unat q * unat b"
    using assms by (intro div_less_iff) (simp add: unat_gt_0)
  also have "\<dots> \<longleftrightarrow> 2 ^ 64 \<le> unat q * unat b" using Suc_le_eq [of "2 ^ 64 - 1"] by simp
  finally show ?thesis .
qed

lemma lcm_via_quotient: "(a::nat) div gcd a b * b = lcm a b"
  by (simp add: lcm_nat_def dvd_div_mult)

lemma vlAlgoLCM_ok:
  "vlAlgoLCM a b = Some (if lcm (unat a) (unat b) < 2 ^ 64 then of_nat (lcm (unat a) (unat b)) else 0)"
proof (cases "a = 0 \<or> b = 0")
  case True
  then show ?thesis by (auto simp: vlAlgoLCM_def)
next
  case False
  let ?g = "gcd (unat a) (unat b)"
  have pos: "0 < unat a" "0 < unat b" using False by (simp_all add: unat_gt_0)
  have "?g \<le> unat a" using pos by (intro gcd_le1_nat) simp
  also have "unat a < 2 ^ LENGTH(64)" by (rule unsigned_less)
  finally have g: "unat (of_nat ?g :: u64) = ?g" by (intro unat_of_nat_u64) simp
  then have "unat (a div of_nat ?g) = unat a div ?g" by (simp add: unat_div)
  then have q: "unat (a div of_nat ?g) * unat b = lcm (unat a) (unat b)"
    by (simp only: lcm_via_quotient)
  have "a div of_nat ?g * b = of_nat (unat (a div of_nat ?g) * unat b)" by simp
  then have prod: "a div of_nat ?g * b = of_nat (lcm (unat a) (unat b))" unfolding q .
  have "- 1 div b < a div of_nat ?g \<longleftrightarrow> \<not> lcm (unat a) (unat b) < 2 ^ 64"
    using quotient_overflow [of b "a div of_nat ?g"] False unfolding q by auto
  then show ?thesis
    using False prod by (simp only: vlAlgoLCM_def vlAlgoGCD_ok Option.bind.bind_lunit Let_def) simp
qed

section \<open>Signed operands\<close>

lemma sint_min: "sint (LLONG_MIN) = - (2 ^ 63)"
  by (simp add: LLONG_MIN_def)

lemma signed_abs_ok:
  "signed_abs a = (if a = LLONG_MIN then None else Some (of_int \<bar>sint a\<bar>))"
  by (simp add: signed_abs_def sint_min)

lemma abs_bound:
  assumes "a \<noteq> LLONG_MIN"
  shows "\<bar>sint a\<bar> < 2 ^ 63" and "unat (of_int \<bar>sint a\<bar> :: u64) = nat \<bar>sint a\<bar>"
proof -
  have "- (2 ^ 63) \<le> sint a" "sint a < 2 ^ 63" using sint_range_size [of a] by (simp_all add: word_size)
  moreover have "sint a \<noteq> - (2 ^ 63)" using assms sint_min by (metis signed_word_eqI)
  ultimately show *: "\<bar>sint a\<bar> < 2 ^ 63" by linarith
  then show "unat (of_int \<bar>sint a\<bar> :: u64) = nat \<bar>sint a\<bar>"
    by (simp add: unat_eq_nat_uint uint_word_of_int)
qed

lemma vlAlgoGCDSigned_ok:
  "vlAlgoGCDSigned a b =
     (if a = LLONG_MIN \<or> b = LLONG_MIN then None else Some (of_int (gcd (sint a) (sint b))))"
proof (cases "a = LLONG_MIN \<or> b = LLONG_MIN")
  case False
  then have "vlAlgoGCDSigned a b = Some (of_nat (gcd (nat \<bar>sint a\<bar>) (nat \<bar>sint b\<bar>)))"
    by (simp only: vlAlgoGCDSigned_def signed_abs_ok abs_bound if_False de_Morgan_disj
        Option.bind.bind_lunit vlAlgoGCD_ok simp_thms)
  also have "of_nat (gcd (nat \<bar>sint a\<bar>) (nat \<bar>sint b\<bar>)) = (of_int (gcd (sint a) (sint b)) :: u64)"
    by (metis gcd_int_def of_int_of_nat_eq)
  finally show ?thesis using False by simp
qed (auto simp: vlAlgoGCDSigned_def signed_abs_ok)

lemma signed_cut:
  "(let r = (if n < 2 ^ 64 then of_nat n else 0 :: u64)
    in if r > 0x7FFFFFFFFFFFFFFF then Some 0 else Some r) = Some (if n < 2 ^ 63 then of_nat n else 0)"
proof (cases "n < 2 ^ 64")
  case True
  then have "unat (of_nat n :: u64) = n" by (rule unat_of_nat_u64)
  then show ?thesis using True by (simp add: Let_def word_less_nat_alt)
qed simp

lemma vlAlgoLCMSigned_ok:
  "vlAlgoLCMSigned a b =
     (if a = 0 \<or> b = 0 then Some 0
      else if a = LLONG_MIN \<or> b = LLONG_MIN then None
      else Some (if lcm (sint a) (sint b) < 2 ^ 63 then of_int (lcm (sint a) (sint b)) else 0))"
proof (cases "a = 0 \<or> b = 0")
  case True
  then show ?thesis by (simp add: vlAlgoLCMSigned_def)
next
  case nz: False
  show ?thesis
  proof (cases "a = LLONG_MIN \<or> b = LLONG_MIN")
    case True
    then have "signed_abs a = None \<or> signed_abs b = None" by (auto simp: signed_abs_ok)
    then have "vlAlgoLCMSigned a b = None"
      using nz by (cases "signed_abs a") (simp_all only: vlAlgoLCMSigned_def if_False bind.simps
          option.distinct simp_thms)
    then show ?thesis using nz True by (simp only: if_False if_True)
  next
    case False
    let ?l = "lcm (nat \<bar>sint a\<bar>) (nat \<bar>sint b\<bar>)"
    have l: "lcm (sint a) (sint b) = int ?l" by (rule lcm_int_def)
    have "vlAlgoLCMSigned a b = do {
        result \<leftarrow> vlAlgoLCM (of_int \<bar>sint a\<bar>) (of_int \<bar>sint b\<bar>);
        if result > 0x7FFFFFFFFFFFFFFF then Some 0 else Some result }"
      using nz False
      by (simp only: vlAlgoLCMSigned_def signed_abs_ok if_False de_Morgan_disj simp_thms
          Option.bind.bind_lunit Let_def)
    also have "\<dots> = (let r = (if ?l < 2 ^ 64 then of_nat ?l else 0 :: u64)
        in if r > 0x7FFFFFFFFFFFFFFF then Some 0 else Some r)"
      using False by (simp only: vlAlgoLCM_ok abs_bound(2) [of a] abs_bound(2) [of b] de_Morgan_disj
          not_False_eq_True Option.bind.bind_lunit Let_def)
    also have "\<dots> = Some (if ?l < 2 ^ 63 then of_nat ?l else 0)" by (rule signed_cut)
    finally show ?thesis
      using nz False of_nat_less_iff [of ?l "2 ^ 63", where ?'a = int] unfolding l
      by (simp only: if_False of_int_of_nat_eq of_nat_power of_nat_numeral)
  qed
qed

section \<open>Properties\<close>

text \<open>
  C18. The binary algorithm for the greatest common divisor ends for all operands and returns
  the greatest common divisor; the least common multiple is exact whenever it fits in 64 bits
  and 0 otherwise. The signed variants do the same on absolute values, except that both
  negate \<^verbatim>\<open>LLONG_MIN\<close>, which is undefined in C.
\<close>

theorem gcd_lcm_exact:
  "vlAlgoGCD a b = Some (of_nat (gcd (unat a) (unat b))) \<and>
   vlAlgoLCM a b = Some (if lcm (unat a) (unat b) < 2 ^ 64 then of_nat (lcm (unat a) (unat b)) else 0) \<and>
   vlAlgoGCDSigned a b =
     (if a = LLONG_MIN \<or> b = LLONG_MIN then None else Some (of_int (gcd (sint a) (sint b)))) \<and>
   vlAlgoLCMSigned a b =
     (if a = 0 \<or> b = 0 then Some 0
      else if a = LLONG_MIN \<or> b = LLONG_MIN then None
      else Some (if lcm (sint a) (sint b) < 2 ^ 63 then of_int (lcm (sint a) (sint b)) else 0))"
  by (intro conjI vlAlgoGCD_ok vlAlgoLCM_ok vlAlgoGCDSigned_ok vlAlgoLCMSigned_ok)

section \<open>Powers of two and overflow\<close>

lemma nbits_0_iff: "nbits n = 0 \<longleftrightarrow> n = 0"
proof (induction n rule: less_induct)
  case (less n)
  show ?case
  proof (cases "n = 0")
    case False
    then have "nbits (n div 2) = 0 \<longleftrightarrow> n div 2 = 0" by (intro less.IH) simp
    moreover have "nbits n = n mod 2 + nbits (n div 2)" by (rule nbits_step)
    moreover have "n mod 2 = 0 \<Longrightarrow> n div 2 \<noteq> 0" using False div_mult_mod_eq [of n 2] by auto
    ultimately show ?thesis using False by auto
  qed simp
qed

lemma nbits_pow2: "nbits (2 ^ k) = 1"
  by (induction k) (simp_all add: nbits_step [of "Suc 0"])

lemma nbits_1_iff: "nbits n = 1 \<longleftrightarrow> (\<exists>k. n = 2 ^ k)"
proof (induction n rule: less_induct)
  case (less n)
  show ?case
  proof
    assume one: "nbits n = 1"
    then have "n \<noteq> 0" by (intro notI) simp
    show "\<exists>k. n = 2 ^ k"
    proof (cases "even n")
      case True
      then have "nbits (n div 2) = 1" using one nbits_step [of n] by (simp add: even_iff_mod_2_eq_zero)
      moreover have "n div 2 < n" using \<open>n \<noteq> 0\<close> by simp
      ultimately obtain k where "n div 2 = 2 ^ k" using less.IH by blast
      then have "n = 2 ^ Suc k" using True by auto
      then show ?thesis by blast
    next
      case False
      then have "nbits (n div 2) = 0" using one nbits_step [of n] by (simp add: odd_iff_mod_2_eq_one)
      then have "n = 2 ^ 0" using False by (auto simp: nbits_0_iff elim: oddE)
      then show ?thesis by blast
    qed
  qed (auto simp: nbits_pow2)
qed

lemma vlAlgoIsPO2_ok: "vlAlgoIsPO2 v \<longleftrightarrow> (\<exists>k. unat v = 2 ^ k)"
proof (cases "v = 0")
  case False
  then have "nbits (unat v AND (unat v - 1)) + 1 = nbits (unat v)"
    by (intro nbits_clear_lowest) (simp add: unat_gt_0)
  moreover have "unat (v AND (v - 1)) = unat v AND (unat v - 1)"
    using False by (simp add: unsigned_and_eq unat_minus_one)
  ultimately have "v AND (v - 1) = 0 \<longleftrightarrow> nbits (unat v) = 1"
    using unat_eq_zero [of "v AND (v - 1)"] nbits_0_iff [of "unat (v AND (v - 1))"] by auto
  then show ?thesis using False unfolding nbits_1_iff by (simp add: vlAlgoIsPO2_def)
qed (simp add: vlAlgoIsPO2_def)

lemma max_word64: "unat (- 1 :: u64) = 2 ^ 64 - 1"
  by (simp add: unsigned_minus_1_eq_mask mask_eq_exp_minus_1)

lemma add_overflow_manual: "- 1 - a < b \<longleftrightarrow> 2 ^ 64 \<le> unat a + unat (b :: u64)"
proof -
  have le: "unat a < 2 ^ LENGTH(64)" by (rule unsigned_less)
  have "unat (- 1 - a) = 2 ^ 64 - 1 - unat a"
    using unat_sub [of a "- 1"] by (simp add: max_word64 [simplified])
  then show ?thesis using le by (simp add: word_less_nat_alt) linarith
qed

lemma mul_overflow_manual:
  "b \<noteq> 0 \<Longrightarrow> a > - 1 div b \<longleftrightarrow> 2 ^ 64 \<le> unat a * unat (b :: u64)"
  by (rule quotient_overflow)

text \<open>
  C20. The overflow predicates say on every compiler exactly whether the sum, the difference or
  the product of two 64-bit numbers is out of range, and \<^verbatim>\<open>vlAlgoIsPO2\<close> whether a number is a
  power of two.
\<close>

theorem overflow_exact:
  "(vlAlgoAddOverflow cc a b \<longleftrightarrow> 2 ^ 64 \<le> unat a + unat b) \<and>
   (vlAlgoSubUnderflow cc a b \<longleftrightarrow> unat a < unat b) \<and>
   (vlAlgoMulOverflow cc a b \<longleftrightarrow> 2 ^ 64 \<le> unat a * unat b) \<and>
   (vlAlgoIsPO2 v \<longleftrightarrow> (\<exists>k. unat v = 2 ^ k))"
proof (intro conjI vlAlgoIsPO2_ok)
  have int: "uint x = int (unat x)" for x :: u64 by simp
  have sum: "int (unat a) + int (unat b) < 2 ^ 64 \<longleftrightarrow> \<not> 2 ^ 64 \<le> unat a + unat b"
    using of_nat_less_iff [of "unat a + unat b" "2 ^ 64", where ?'a = int] by auto
  show "vlAlgoAddOverflow cc a b \<longleftrightarrow> 2 ^ 64 \<le> unat a + unat b"
    unfolding vlAlgoAddOverflow_def add_overflow_manual int sum by (cases cc) simp_all
  have diff: "int (unat a) - int (unat b) < 0 \<longleftrightarrow> unat a < unat b" by (simp only: diff_less_0_iff_less of_nat_less_iff)
  show "vlAlgoSubUnderflow cc a b \<longleftrightarrow> unat a < unat b"
    unfolding vlAlgoSubUnderflow_def int diff by (cases cc) (simp_all add: word_less_nat_alt)
  have prod: "int (unat a) * int (unat b) < 2 ^ 64 \<longleftrightarrow> \<not> 2 ^ 64 \<le> unat a * unat b"
    using of_nat_less_iff [of "unat a * unat b" "2 ^ 64", where ?'a = int] by auto
  have "drop_bit 64 (int n) \<noteq> 0 \<longleftrightarrow> 2 ^ 64 \<le> n" for n
    by (simp only: drop_bit_of_nat of_nat_eq_0_iff drop_bit_eq_div div_eq_0_iff) auto
  from this [of "unat a * unat b"]
  have high: "drop_bit 64 (int (unat a) * int (unat b)) \<noteq> 0 \<longleftrightarrow> 2 ^ 64 \<le> unat a * unat b"
    by (simp only: of_nat_mult)
  show "vlAlgoMulOverflow cc a b \<longleftrightarrow> 2 ^ 64 \<le> unat a * unat b"
  proof (cases cc)
    case PORTABLE
    then show ?thesis using quotient_overflow [of b a] by (auto simp: vlAlgoMulOverflow_def)
  qed (simp_all only: vlAlgoMulOverflow_def int prod high vl_compiler.case simp_thms)
qed

section \<open>The next power of two\<close>

text \<open>\<^term>\<open>smeared n v x\<close>: a bit of \<^term>\<open>x\<close> is set if one of the \<^term>\<open>n\<close> bits of \<^term>\<open>v\<close> from there on is.\<close>

definition smeared :: "nat \<Rightarrow> u64 \<Rightarrow> u64 \<Rightarrow> bool" where
  "smeared n v x \<longleftrightarrow> (\<forall>i < 64. bit x i \<longleftrightarrow> (\<exists>j < n. bit v (i + j)))"

lemma smeared_step:
  assumes "smeared n v x" and "0 < n"
  shows "smeared (2 * n) v (x OR drop_bit n x)"
  unfolding smeared_def
proof (intro allI impI)
  fix i :: nat
  assume i: "i < 64"
  have b: "bit x i \<longleftrightarrow> (\<exists>j < n. bit v (i + j))" if "i < 64" for i
    using assms(1) that by (simp add: smeared_def)
  have hi: "bit x (n + i) \<longleftrightarrow> (\<exists>j < n. bit v (n + i + j))"
  proof (cases "n + i < 64")
    case False
    then have "\<not> bit x (n + i)" "\<not> bit v (n + i + j)" for j by (auto dest: bit_imp_le_length)
    then show ?thesis by simp
  qed (rule b)
  have "bit (x OR drop_bit n x) i \<longleftrightarrow> (\<exists>j < n. bit v (i + j)) \<or> (\<exists>j < n. bit v (n + i + j))"
    using i b [OF i] hi by (simp add: bit_simps)
  also have "\<dots> \<longleftrightarrow> (\<exists>j < 2 * n. bit v (i + j))"
  proof
    assume "(\<exists>j < n. bit v (i + j)) \<or> (\<exists>j < n. bit v (n + i + j))"
    then show "\<exists>j < 2 * n. bit v (i + j)"
    proof
      assume "\<exists>j < n. bit v (n + i + j)"
      then obtain j where "j < n" "bit v (i + (n + j))" by (auto simp: ac_simps)
      then show ?thesis by (intro exI [of _ "n + j"]) simp
    next
      assume "\<exists>j < n. bit v (i + j)"
      then obtain j where "j < n" "bit v (i + j)" by blast
      moreover from this have "j < 2 * n" by simp
      ultimately show ?thesis by blast
    qed
  next
    assume "\<exists>j < 2 * n. bit v (i + j)"
    then obtain j where j: "j < 2 * n" "bit v (i + j)" by blast
    show "(\<exists>j < n. bit v (i + j)) \<or> (\<exists>j < n. bit v (n + i + j))"
    proof (cases "j < n")
      case False
      then have "bit v (n + i + (j - n))" "j - n < n" using j by (simp_all add: ac_simps)
      then show ?thesis by blast
    qed (use j in blast)
  qed
  finally show "bit (x OR drop_bit n x) i \<longleftrightarrow> (\<exists>j < 2 * n. bit v (i + j))" .
qed

lemma smeared_mask:
  assumes "smeared 64 v x" and "unat v < 2 ^ k" and "k = 0 \<or> 2 ^ (k - 1) \<le> unat v" and "k \<le> 64"
  shows "x = mask k"
proof (rule bit_word_eqI)
  fix i :: nat
  assume "i < LENGTH(64)"
  then have i: "i < 64" by simp
  have bv: "bit v = bit (unat v)" by (rule bit_unat [symmetric])
  have "(\<exists>j < 64. bit v (i + j)) \<longleftrightarrow> i < k"
  proof
    assume "\<exists>j < 64. bit v (i + j)"
    then obtain j where "bit (unat v) (i + j)" unfolding bv by blast
    then have "2 ^ (i + j) \<le> unat v" by (simp add: bit_iff_odd div_eq_0_iff not_less) (metis div_less even_zero not_le)
    then have "(2::nat) ^ (i + j) < 2 ^ k" using assms(2) by (rule le_less_trans)
    then show "i < k" by simp
  next
    assume ik: "i < k"
    then have "bit v (k - 1)" using assms(2,3) bit_top [of "unat v" "k - 1"] unfolding bv by simp
    then have "bit v (i + (k - 1 - i))" using ik by simp
    moreover have "k - 1 - i < 64" using assms(4) ik by simp
    ultimately show "\<exists>j < 64. bit v (i + j)" by blast
  qed
  then show "bit x i \<longleftrightarrow> bit (mask k :: u64) i"
    using assms(1) i by (simp add: smeared_def bit_mask_iff)
qed

text \<open>
  \<^verbatim>\<open>vlAlgoNextPO2\<close> finds the least power of two that is not below its argument as long as
  this power has fewer than 32 bits. Its argument has 64 bits and its result 32: above
  \<^term>\<open>2 ^ 31 :: nat\<close> the result is 0, the value that the code has for an overflow.
\<close>

theorem next_po2:
  assumes "unat v \<le> 2 ^ k" and "2 ^ k < 2 * unat v"
  shows "vlAlgoNextPO2 v = (if k < 32 then 2 ^ k else 0)"
proof -
  have "v \<noteq> 0" using assms(2) by (intro notI) simp
  have less: "unat v < 2 ^ LENGTH(64)" by (rule unsigned_less)
  then have "(2::nat) ^ k < 2 ^ 65" using assms(2) by simp
  then have "k < 65" by (rule power_less_imp_less_exp [rotated]) simp
  show ?thesis
  proof (cases "v > drop_bit 1 (- 1)")
    case True
    then have "2 ^ 63 \<le> unat v" using unat_drop_bit [of 1 "- 1 :: u64"] by (simp add: word_less_nat_alt max_word64 [simplified])
    then have "(2::nat) ^ 62 < 2 ^ k" using assms(1) by simp
    then have "62 < k" by (rule power_less_imp_less_exp [rotated]) simp
    then show ?thesis using True \<open>v \<noteq> 0\<close> by (simp add: vlAlgoNextPO2_def)
  next
    case False
    let ?w = "v - 1"
    have w: "unat ?w = unat v - 1" using \<open>v \<noteq> 0\<close> by (rule unat_minus_one)
    let ?x1 = "?w OR drop_bit 1 ?w"
    let ?x2 = "?x1 OR drop_bit 2 ?x1"
    let ?x3 = "?x2 OR drop_bit 4 ?x2"
    let ?x4 = "?x3 OR drop_bit 8 ?x3"
    let ?x5 = "?x4 OR drop_bit 16 ?x4"
    let ?x6 = "?x5 OR drop_bit 32 ?x5"
    have "smeared 1 ?w ?w" by (simp add: smeared_def)
    then have "smeared 2 ?w ?x1" using smeared_step [of 1 ?w ?w] by simp
    then have "smeared 4 ?w ?x2" using smeared_step [of 2 ?w ?x1] by simp
    then have "smeared 8 ?w ?x3" using smeared_step [of 4 ?w ?x2] by simp
    then have "smeared 16 ?w ?x4" using smeared_step [of 8 ?w ?x3] by simp
    then have "smeared 32 ?w ?x5" using smeared_step [of 16 ?w ?x4] by simp
    then have "smeared 64 ?w ?x6" using smeared_step [of 32 ?w ?x5] by simp
    moreover have "unat ?w < 2 ^ k"
    proof -
      have "0 < unat v" using \<open>v \<noteq> 0\<close> by (simp add: unat_gt_0)
      then show ?thesis using w assms(1) by linarith
    qed
    moreover have "k = 0 \<or> 2 ^ (k - 1) \<le> unat ?w" using w assms(2) by (cases k) auto
    moreover have "k \<le> 64" using \<open>k < 65\<close> by simp
    ultimately have "?x6 = mask k" by (rule smeared_mask)
    then have "vlAlgoNextPO2 v = ucast (mask k + 1 :: u64)"
      using False \<open>v \<noteq> 0\<close> by (simp only: vlAlgoNextPO2_def Let_def if_False)
    also have "mask k + 1 = (2 ^ k :: u64)" by (simp add: mask_eq_exp_minus_1)
    also have "ucast (2 ^ k :: u64) = (if k < 32 then 2 ^ k else 0 :: u32)"
      by (rule bit_word_eqI) (auto simp: bit_simps)
    finally show ?thesis .
  qed
qed

theorem next_po2_witness: "vlAlgoNextPO2 1000 = 1024 \<and> vlAlgoNextPO2 0x10000000000 = 0"
  using next_po2 [of 1000 10] next_po2 [of "0x10000000000" 40] by simp

end
