(* ===== verification/VL_NumTypes.thy ===== *)
theory VL_NumTypes
  imports VL_Prelude
begin

text \<open>
  \<^verbatim>\<open>vl_numtypes.h\<close> and \<^verbatim>\<open>src/core/vl_numtypes.c\<close>: the run-time descriptions of the
  numeric types of the library and the table of converters between them, in the configuration
  that has all of them. A value in memory is a number with the C type it was stored with; to
  read it through a pointer of another type is outside the model (\<^const>\<open>None\<close>).
  Floating-point numbers are those of IEEE 754, rounding to nearest, ties to even; payloads of
  NaNs are not distinguished. Conversions of an integer to a narrower signed type, left to the
  implementation by C, wrap around as all the supported compilers do; a conversion of a floating
  number to an integer type that cannot represent its integral part is undefined in C.
\<close>

section \<open>Floating-point numbers\<close>

text \<open>\<open>Fin neg m e\<close> is \<open>m * 2 powi e\<close> with the sign \<open>neg\<close>.\<close>

datatype c_float = Fin bool nat int | Infinite bool | NaN

record fp_format =
  precision :: nat
  min_exp :: int
  max_exp :: int

definition binary32 :: fp_format where
  "binary32 = \<lparr>precision = 24, min_exp = - 149, max_exp = 127\<rparr>"

definition binary64 :: fp_format where
  "binary64 = \<lparr>precision = 53, min_exp = - 1074, max_exp = 1023\<rparr>"

fun bitlen :: "nat \<Rightarrow> nat" where
  "bitlen n = (if n = 0 then 0 else Suc (bitlen (n div 2)))"

declare bitlen.simps [simp del]

text \<open>\<^term>\<open>n\<close> without its last \<^term>\<open>s\<close> bits, rounded to nearest, ties to even.\<close>

definition round_even :: "nat \<Rightarrow> nat \<Rightarrow> nat" where
  "round_even s n =
     (let q = n div 2 ^ s; r = n mod 2 ^ s
      in if 2 * r > 2 ^ s \<or> 2 * r = 2 ^ s \<and> odd q then q + 1 else q)"

definition fp_round :: "fp_format \<Rightarrow> bool \<Rightarrow> nat \<Rightarrow> int \<Rightarrow> c_float" where
  "fp_round f neg m e =
     (let s = nat (max (int (bitlen m) - int (precision f)) (min_exp f - e));
          q = round_even s m
      in if int (bitlen q) + e + int s > max_exp f + 1 then Infinite neg else Fin neg q (e + int s))"

text \<open>The integral part.\<close>

fun fp_trunc :: "c_float \<Rightarrow> int option" where
  "fp_trunc (Fin neg m e) =
     (let n = (if 0 \<le> e then m * 2 ^ nat e else m div 2 ^ nat (- e))
      in Some (if neg then - int n else int n))"
| "fp_trunc (Infinite _) = None"
| "fp_trunc NaN = None"

section \<open>Types and values\<close>

datatype vl_numtype =
    VL_NUMTYPE_DSOFFS
  | VL_NUMTYPE_DSIDX
  | VL_NUMTYPE_UINT8
  | VL_NUMTYPE_UINT16
  | VL_NUMTYPE_UINT32
  | VL_NUMTYPE_UINT64
  | VL_NUMTYPE_INT8
  | VL_NUMTYPE_INT16
  | VL_NUMTYPE_INT32
  | VL_NUMTYPE_INT64
  | VL_NUMTYPE_FLOAT32
  | VL_NUMTYPE_FLOAT64

datatype vl_number =
    N_DSOFFS u64
  | N_DSIDX u32
  | N_U8 u8
  | N_U16 u16
  | N_U32 u32
  | N_U64 u64
  | N_I8 u8
  | N_I16 u16
  | N_I32 u32
  | N_I64 u64
  | N_F32 c_float
  | N_F64 c_float

fun number_type :: "vl_number \<Rightarrow> vl_numtype" where
  "number_type (N_DSOFFS _) = VL_NUMTYPE_DSOFFS"
| "number_type (N_DSIDX _) = VL_NUMTYPE_DSIDX"
| "number_type (N_U8 _) = VL_NUMTYPE_UINT8"
| "number_type (N_U16 _) = VL_NUMTYPE_UINT16"
| "number_type (N_U32 _) = VL_NUMTYPE_UINT32"
| "number_type (N_U64 _) = VL_NUMTYPE_UINT64"
| "number_type (N_I8 _) = VL_NUMTYPE_INT8"
| "number_type (N_I16 _) = VL_NUMTYPE_INT16"
| "number_type (N_I32 _) = VL_NUMTYPE_INT32"
| "number_type (N_I64 _) = VL_NUMTYPE_INT64"
| "number_type (N_F32 _) = VL_NUMTYPE_FLOAT32"
| "number_type (N_F64 _) = VL_NUMTYPE_FLOAT64"

text \<open>A C expression of arithmetic type: an integer with its value, or a floating number.\<close>

datatype c_value = CInt int | CFloat c_float

fun c_read :: "vl_number \<Rightarrow> c_value" where
  "c_read (N_DSOFFS x) = CInt (uint x)"
| "c_read (N_DSIDX x) = CInt (uint x)"
| "c_read (N_U8 x) = CInt (uint x)"
| "c_read (N_U16 x) = CInt (uint x)"
| "c_read (N_U32 x) = CInt (uint x)"
| "c_read (N_U64 x) = CInt (uint x)"
| "c_read (N_I8 x) = CInt (sint x)"
| "c_read (N_I16 x) = CInt (sint x)"
| "c_read (N_I32 x) = CInt (sint x)"
| "c_read (N_I64 x) = CInt (sint x)"
| "c_read (N_F32 x) = CFloat x"
| "c_read (N_F64 x) = CFloat x"

text \<open>The conversions of C, as a cast writes them.\<close>

fun c_cast_int :: "vl_numtype \<Rightarrow> int \<Rightarrow> vl_number" where
  "c_cast_int VL_NUMTYPE_DSOFFS n = N_DSOFFS (word_of_int n)"
| "c_cast_int VL_NUMTYPE_DSIDX n = N_DSIDX (word_of_int n)"
| "c_cast_int VL_NUMTYPE_UINT8 n = N_U8 (word_of_int n)"
| "c_cast_int VL_NUMTYPE_UINT16 n = N_U16 (word_of_int n)"
| "c_cast_int VL_NUMTYPE_UINT32 n = N_U32 (word_of_int n)"
| "c_cast_int VL_NUMTYPE_UINT64 n = N_U64 (word_of_int n)"
| "c_cast_int VL_NUMTYPE_INT8 n = N_I8 (word_of_int n)"
| "c_cast_int VL_NUMTYPE_INT16 n = N_I16 (word_of_int n)"
| "c_cast_int VL_NUMTYPE_INT32 n = N_I32 (word_of_int n)"
| "c_cast_int VL_NUMTYPE_INT64 n = N_I64 (word_of_int n)"
| "c_cast_int VL_NUMTYPE_FLOAT32 n = N_F32 (fp_round binary32 (n < 0) (nat \<bar>n\<bar>) 0)"
| "c_cast_int VL_NUMTYPE_FLOAT64 n = N_F64 (fp_round binary64 (n < 0) (nat \<bar>n\<bar>) 0)"

text \<open>The range of an integer type.\<close>

fun int_range :: "vl_numtype \<Rightarrow> (int \<times> int) option" where
  "int_range VL_NUMTYPE_DSOFFS = Some (0, 2 ^ 64 - 1)"
| "int_range VL_NUMTYPE_DSIDX = Some (0, 2 ^ 32 - 1)"
| "int_range VL_NUMTYPE_UINT8 = Some (0, 2 ^ 8 - 1)"
| "int_range VL_NUMTYPE_UINT16 = Some (0, 2 ^ 16 - 1)"
| "int_range VL_NUMTYPE_UINT32 = Some (0, 2 ^ 32 - 1)"
| "int_range VL_NUMTYPE_UINT64 = Some (0, 2 ^ 64 - 1)"
| "int_range VL_NUMTYPE_INT8 = Some (- (2 ^ 7), 2 ^ 7 - 1)"
| "int_range VL_NUMTYPE_INT16 = Some (- (2 ^ 15), 2 ^ 15 - 1)"
| "int_range VL_NUMTYPE_INT32 = Some (- (2 ^ 31), 2 ^ 31 - 1)"
| "int_range VL_NUMTYPE_INT64 = Some (- (2 ^ 63), 2 ^ 63 - 1)"
| "int_range VL_NUMTYPE_FLOAT32 = None"
| "int_range VL_NUMTYPE_FLOAT64 = None"

fun fp_convert :: "fp_format \<Rightarrow> c_float \<Rightarrow> c_float" where
  "fp_convert f (Fin neg m e) = fp_round f neg m e"
| "fp_convert f x = x"

fun c_cast :: "vl_numtype \<Rightarrow> c_value \<Rightarrow> vl_number option" where
  "c_cast dst (CInt n) = Some (c_cast_int dst n)"
| "c_cast dst (CFloat x) =
     (case int_range dst of
        Some (lo, hi) \<Rightarrow>
          do { n \<leftarrow> fp_trunc x; if lo \<le> n \<and> n \<le> hi then Some (c_cast_int dst n) else None }
      | None \<Rightarrow> Some (if dst = VL_NUMTYPE_FLOAT32 then N_F32 (fp_convert binary32 x)
          else N_F64 (fp_convert binary64 x)))"

section \<open>Converters\<close>

text \<open>
  A converter reads through a pointer to its source type and writes the value cast to its
  destination type.
\<close>

type_synonym vl_numtype_converter = "vl_number \<Rightarrow> vl_number option"

definition GEN_CONVERTER :: "vl_numtype \<Rightarrow> vl_numtype \<Rightarrow> vl_numtype_converter" where
  "GEN_CONVERTER src_type dst_type src =
     (if number_type src = src_type then c_cast dst_type (c_read src) else None)"

text \<open>
  The converters that the file generates, by source type; there is none from a type to itself.
\<close>

fun vlConv_DSOFFS :: "vl_numtype \<Rightarrow> vl_numtype_converter option" where
  "vlConv_DSOFFS VL_NUMTYPE_DSOFFS = None"
| "vlConv_DSOFFS VL_NUMTYPE_DSIDX = Some (GEN_CONVERTER VL_NUMTYPE_DSOFFS VL_NUMTYPE_DSIDX)"
| "vlConv_DSOFFS VL_NUMTYPE_UINT8 = Some (GEN_CONVERTER VL_NUMTYPE_DSOFFS VL_NUMTYPE_UINT8)"
| "vlConv_DSOFFS VL_NUMTYPE_UINT16 = Some (GEN_CONVERTER VL_NUMTYPE_DSOFFS VL_NUMTYPE_UINT16)"
| "vlConv_DSOFFS VL_NUMTYPE_UINT32 = Some (GEN_CONVERTER VL_NUMTYPE_DSOFFS VL_NUMTYPE_UINT32)"
| "vlConv_DSOFFS VL_NUMTYPE_UINT64 = Some (GEN_CONVERTER VL_NUMTYPE_DSOFFS VL_NUMTYPE_UINT64)"
| "vlConv_DSOFFS VL_NUMTYPE_INT8 = Some (GEN_CONVERTER VL_NUMTYPE_DSOFFS VL_NUMTYPE_INT8)"
| "vlConv_DSOFFS VL_NUMTYPE_INT16 = Some (GEN_CONVERTER VL_NUMTYPE_DSOFFS VL_NUMTYPE_INT16)"
| "vlConv_DSOFFS VL_NUMTYPE_INT32 = Some (GEN_CONVERTER VL_NUMTYPE_DSOFFS VL_NUMTYPE_INT32)"
| "vlConv_DSOFFS VL_NUMTYPE_INT64 = Some (GEN_CONVERTER VL_NUMTYPE_DSOFFS VL_NUMTYPE_INT64)"
| "vlConv_DSOFFS VL_NUMTYPE_FLOAT32 = Some (GEN_CONVERTER VL_NUMTYPE_DSOFFS VL_NUMTYPE_FLOAT32)"
| "vlConv_DSOFFS VL_NUMTYPE_FLOAT64 = Some (GEN_CONVERTER VL_NUMTYPE_DSOFFS VL_NUMTYPE_FLOAT64)"

fun vlConv_DSIDX :: "vl_numtype \<Rightarrow> vl_numtype_converter option" where
  "vlConv_DSIDX VL_NUMTYPE_DSOFFS = Some (GEN_CONVERTER VL_NUMTYPE_DSIDX VL_NUMTYPE_DSOFFS)"
| "vlConv_DSIDX VL_NUMTYPE_DSIDX = None"
| "vlConv_DSIDX VL_NUMTYPE_UINT8 = Some (GEN_CONVERTER VL_NUMTYPE_DSIDX VL_NUMTYPE_UINT8)"
| "vlConv_DSIDX VL_NUMTYPE_UINT16 = Some (GEN_CONVERTER VL_NUMTYPE_DSIDX VL_NUMTYPE_UINT16)"
| "vlConv_DSIDX VL_NUMTYPE_UINT32 = Some (GEN_CONVERTER VL_NUMTYPE_DSIDX VL_NUMTYPE_UINT32)"
| "vlConv_DSIDX VL_NUMTYPE_UINT64 = Some (GEN_CONVERTER VL_NUMTYPE_DSIDX VL_NUMTYPE_UINT64)"
| "vlConv_DSIDX VL_NUMTYPE_INT8 = Some (GEN_CONVERTER VL_NUMTYPE_DSIDX VL_NUMTYPE_INT8)"
| "vlConv_DSIDX VL_NUMTYPE_INT16 = Some (GEN_CONVERTER VL_NUMTYPE_DSIDX VL_NUMTYPE_INT16)"
| "vlConv_DSIDX VL_NUMTYPE_INT32 = Some (GEN_CONVERTER VL_NUMTYPE_DSIDX VL_NUMTYPE_INT32)"
| "vlConv_DSIDX VL_NUMTYPE_INT64 = Some (GEN_CONVERTER VL_NUMTYPE_DSIDX VL_NUMTYPE_INT64)"
| "vlConv_DSIDX VL_NUMTYPE_FLOAT32 = Some (GEN_CONVERTER VL_NUMTYPE_DSIDX VL_NUMTYPE_FLOAT32)"
| "vlConv_DSIDX VL_NUMTYPE_FLOAT64 = Some (GEN_CONVERTER VL_NUMTYPE_DSIDX VL_NUMTYPE_FLOAT64)"

fun vlConv_U8 :: "vl_numtype \<Rightarrow> vl_numtype_converter option" where
  "vlConv_U8 VL_NUMTYPE_DSOFFS = Some (GEN_CONVERTER VL_NUMTYPE_UINT8 VL_NUMTYPE_DSOFFS)"
| "vlConv_U8 VL_NUMTYPE_DSIDX = Some (GEN_CONVERTER VL_NUMTYPE_UINT8 VL_NUMTYPE_DSIDX)"
| "vlConv_U8 VL_NUMTYPE_UINT8 = None"
| "vlConv_U8 VL_NUMTYPE_UINT16 = Some (GEN_CONVERTER VL_NUMTYPE_UINT8 VL_NUMTYPE_UINT16)"
| "vlConv_U8 VL_NUMTYPE_UINT32 = Some (GEN_CONVERTER VL_NUMTYPE_UINT8 VL_NUMTYPE_UINT32)"
| "vlConv_U8 VL_NUMTYPE_UINT64 = Some (GEN_CONVERTER VL_NUMTYPE_UINT8 VL_NUMTYPE_UINT64)"
| "vlConv_U8 VL_NUMTYPE_INT8 = Some (GEN_CONVERTER VL_NUMTYPE_UINT8 VL_NUMTYPE_INT8)"
| "vlConv_U8 VL_NUMTYPE_INT16 = Some (GEN_CONVERTER VL_NUMTYPE_UINT8 VL_NUMTYPE_INT16)"
| "vlConv_U8 VL_NUMTYPE_INT32 = Some (GEN_CONVERTER VL_NUMTYPE_UINT8 VL_NUMTYPE_INT32)"
| "vlConv_U8 VL_NUMTYPE_INT64 = Some (GEN_CONVERTER VL_NUMTYPE_UINT8 VL_NUMTYPE_INT64)"
| "vlConv_U8 VL_NUMTYPE_FLOAT32 = Some (GEN_CONVERTER VL_NUMTYPE_UINT8 VL_NUMTYPE_FLOAT32)"
| "vlConv_U8 VL_NUMTYPE_FLOAT64 = Some (GEN_CONVERTER VL_NUMTYPE_UINT8 VL_NUMTYPE_FLOAT64)"

fun vlConv_U16 :: "vl_numtype \<Rightarrow> vl_numtype_converter option" where
  "vlConv_U16 VL_NUMTYPE_DSOFFS = Some (GEN_CONVERTER VL_NUMTYPE_UINT16 VL_NUMTYPE_DSOFFS)"
| "vlConv_U16 VL_NUMTYPE_DSIDX = Some (GEN_CONVERTER VL_NUMTYPE_UINT16 VL_NUMTYPE_DSIDX)"
| "vlConv_U16 VL_NUMTYPE_UINT8 = Some (GEN_CONVERTER VL_NUMTYPE_UINT16 VL_NUMTYPE_UINT8)"
| "vlConv_U16 VL_NUMTYPE_UINT16 = None"
| "vlConv_U16 VL_NUMTYPE_UINT32 = Some (GEN_CONVERTER VL_NUMTYPE_UINT16 VL_NUMTYPE_UINT32)"
| "vlConv_U16 VL_NUMTYPE_UINT64 = Some (GEN_CONVERTER VL_NUMTYPE_UINT16 VL_NUMTYPE_UINT64)"
| "vlConv_U16 VL_NUMTYPE_INT8 = Some (GEN_CONVERTER VL_NUMTYPE_UINT16 VL_NUMTYPE_INT8)"
| "vlConv_U16 VL_NUMTYPE_INT16 = Some (GEN_CONVERTER VL_NUMTYPE_UINT16 VL_NUMTYPE_INT16)"
| "vlConv_U16 VL_NUMTYPE_INT32 = Some (GEN_CONVERTER VL_NUMTYPE_UINT16 VL_NUMTYPE_INT32)"
| "vlConv_U16 VL_NUMTYPE_INT64 = Some (GEN_CONVERTER VL_NUMTYPE_UINT16 VL_NUMTYPE_INT64)"
| "vlConv_U16 VL_NUMTYPE_FLOAT32 = Some (GEN_CONVERTER VL_NUMTYPE_UINT16 VL_NUMTYPE_FLOAT32)"
| "vlConv_U16 VL_NUMTYPE_FLOAT64 = Some (GEN_CONVERTER VL_NUMTYPE_UINT16 VL_NUMTYPE_FLOAT64)"

fun vlConv_U32 :: "vl_numtype \<Rightarrow> vl_numtype_converter option" where
  "vlConv_U32 VL_NUMTYPE_DSOFFS = Some (GEN_CONVERTER VL_NUMTYPE_UINT32 VL_NUMTYPE_DSOFFS)"
| "vlConv_U32 VL_NUMTYPE_DSIDX = Some (GEN_CONVERTER VL_NUMTYPE_UINT32 VL_NUMTYPE_DSIDX)"
| "vlConv_U32 VL_NUMTYPE_UINT8 = Some (GEN_CONVERTER VL_NUMTYPE_UINT32 VL_NUMTYPE_UINT8)"
| "vlConv_U32 VL_NUMTYPE_UINT16 = Some (GEN_CONVERTER VL_NUMTYPE_UINT32 VL_NUMTYPE_UINT16)"
| "vlConv_U32 VL_NUMTYPE_UINT32 = None"
| "vlConv_U32 VL_NUMTYPE_UINT64 = Some (GEN_CONVERTER VL_NUMTYPE_UINT32 VL_NUMTYPE_UINT64)"
| "vlConv_U32 VL_NUMTYPE_INT8 = Some (GEN_CONVERTER VL_NUMTYPE_UINT32 VL_NUMTYPE_INT8)"
| "vlConv_U32 VL_NUMTYPE_INT16 = Some (GEN_CONVERTER VL_NUMTYPE_UINT32 VL_NUMTYPE_INT16)"
| "vlConv_U32 VL_NUMTYPE_INT32 = Some (GEN_CONVERTER VL_NUMTYPE_UINT32 VL_NUMTYPE_INT32)"
| "vlConv_U32 VL_NUMTYPE_INT64 = Some (GEN_CONVERTER VL_NUMTYPE_UINT32 VL_NUMTYPE_INT64)"
| "vlConv_U32 VL_NUMTYPE_FLOAT32 = Some (GEN_CONVERTER VL_NUMTYPE_UINT32 VL_NUMTYPE_FLOAT32)"
| "vlConv_U32 VL_NUMTYPE_FLOAT64 = Some (GEN_CONVERTER VL_NUMTYPE_UINT32 VL_NUMTYPE_FLOAT64)"

fun vlConv_U64 :: "vl_numtype \<Rightarrow> vl_numtype_converter option" where
  "vlConv_U64 VL_NUMTYPE_DSOFFS = Some (GEN_CONVERTER VL_NUMTYPE_UINT64 VL_NUMTYPE_DSOFFS)"
| "vlConv_U64 VL_NUMTYPE_DSIDX = Some (GEN_CONVERTER VL_NUMTYPE_UINT64 VL_NUMTYPE_DSIDX)"
| "vlConv_U64 VL_NUMTYPE_UINT8 = Some (GEN_CONVERTER VL_NUMTYPE_UINT64 VL_NUMTYPE_UINT8)"
| "vlConv_U64 VL_NUMTYPE_UINT16 = Some (GEN_CONVERTER VL_NUMTYPE_UINT64 VL_NUMTYPE_UINT16)"
| "vlConv_U64 VL_NUMTYPE_UINT32 = Some (GEN_CONVERTER VL_NUMTYPE_UINT64 VL_NUMTYPE_UINT32)"
| "vlConv_U64 VL_NUMTYPE_UINT64 = None"
| "vlConv_U64 VL_NUMTYPE_INT8 = Some (GEN_CONVERTER VL_NUMTYPE_UINT64 VL_NUMTYPE_INT8)"
| "vlConv_U64 VL_NUMTYPE_INT16 = Some (GEN_CONVERTER VL_NUMTYPE_UINT64 VL_NUMTYPE_INT16)"
| "vlConv_U64 VL_NUMTYPE_INT32 = Some (GEN_CONVERTER VL_NUMTYPE_UINT64 VL_NUMTYPE_INT32)"
| "vlConv_U64 VL_NUMTYPE_INT64 = Some (GEN_CONVERTER VL_NUMTYPE_UINT64 VL_NUMTYPE_INT64)"
| "vlConv_U64 VL_NUMTYPE_FLOAT32 = Some (GEN_CONVERTER VL_NUMTYPE_UINT64 VL_NUMTYPE_FLOAT32)"
| "vlConv_U64 VL_NUMTYPE_FLOAT64 = Some (GEN_CONVERTER VL_NUMTYPE_UINT64 VL_NUMTYPE_FLOAT64)"

fun vlConv_I8 :: "vl_numtype \<Rightarrow> vl_numtype_converter option" where
  "vlConv_I8 VL_NUMTYPE_DSOFFS = Some (GEN_CONVERTER VL_NUMTYPE_INT8 VL_NUMTYPE_DSOFFS)"
| "vlConv_I8 VL_NUMTYPE_DSIDX = Some (GEN_CONVERTER VL_NUMTYPE_INT8 VL_NUMTYPE_DSIDX)"
| "vlConv_I8 VL_NUMTYPE_UINT8 = Some (GEN_CONVERTER VL_NUMTYPE_INT8 VL_NUMTYPE_UINT8)"
| "vlConv_I8 VL_NUMTYPE_UINT16 = Some (GEN_CONVERTER VL_NUMTYPE_INT8 VL_NUMTYPE_UINT16)"
| "vlConv_I8 VL_NUMTYPE_UINT32 = Some (GEN_CONVERTER VL_NUMTYPE_INT8 VL_NUMTYPE_UINT32)"
| "vlConv_I8 VL_NUMTYPE_UINT64 = Some (GEN_CONVERTER VL_NUMTYPE_INT8 VL_NUMTYPE_UINT64)"
| "vlConv_I8 VL_NUMTYPE_INT8 = None"
| "vlConv_I8 VL_NUMTYPE_INT16 = Some (GEN_CONVERTER VL_NUMTYPE_INT8 VL_NUMTYPE_INT16)"
| "vlConv_I8 VL_NUMTYPE_INT32 = Some (GEN_CONVERTER VL_NUMTYPE_INT8 VL_NUMTYPE_INT32)"
| "vlConv_I8 VL_NUMTYPE_INT64 = Some (GEN_CONVERTER VL_NUMTYPE_INT8 VL_NUMTYPE_INT64)"
| "vlConv_I8 VL_NUMTYPE_FLOAT32 = Some (GEN_CONVERTER VL_NUMTYPE_INT8 VL_NUMTYPE_FLOAT32)"
| "vlConv_I8 VL_NUMTYPE_FLOAT64 = Some (GEN_CONVERTER VL_NUMTYPE_INT8 VL_NUMTYPE_FLOAT64)"

fun vlConv_I16 :: "vl_numtype \<Rightarrow> vl_numtype_converter option" where
  "vlConv_I16 VL_NUMTYPE_DSOFFS = Some (GEN_CONVERTER VL_NUMTYPE_INT16 VL_NUMTYPE_DSOFFS)"
| "vlConv_I16 VL_NUMTYPE_DSIDX = Some (GEN_CONVERTER VL_NUMTYPE_INT16 VL_NUMTYPE_DSIDX)"
| "vlConv_I16 VL_NUMTYPE_UINT8 = Some (GEN_CONVERTER VL_NUMTYPE_INT16 VL_NUMTYPE_UINT8)"
| "vlConv_I16 VL_NUMTYPE_UINT16 = Some (GEN_CONVERTER VL_NUMTYPE_INT16 VL_NUMTYPE_UINT16)"
| "vlConv_I16 VL_NUMTYPE_UINT32 = Some (GEN_CONVERTER VL_NUMTYPE_INT16 VL_NUMTYPE_UINT32)"
| "vlConv_I16 VL_NUMTYPE_UINT64 = Some (GEN_CONVERTER VL_NUMTYPE_INT16 VL_NUMTYPE_UINT64)"
| "vlConv_I16 VL_NUMTYPE_INT8 = Some (GEN_CONVERTER VL_NUMTYPE_INT16 VL_NUMTYPE_INT8)"
| "vlConv_I16 VL_NUMTYPE_INT16 = None"
| "vlConv_I16 VL_NUMTYPE_INT32 = Some (GEN_CONVERTER VL_NUMTYPE_INT16 VL_NUMTYPE_INT32)"
| "vlConv_I16 VL_NUMTYPE_INT64 = Some (GEN_CONVERTER VL_NUMTYPE_INT16 VL_NUMTYPE_INT64)"
| "vlConv_I16 VL_NUMTYPE_FLOAT32 = Some (GEN_CONVERTER VL_NUMTYPE_INT16 VL_NUMTYPE_FLOAT32)"
| "vlConv_I16 VL_NUMTYPE_FLOAT64 = Some (GEN_CONVERTER VL_NUMTYPE_INT16 VL_NUMTYPE_FLOAT64)"

fun vlConv_I32 :: "vl_numtype \<Rightarrow> vl_numtype_converter option" where
  "vlConv_I32 VL_NUMTYPE_DSOFFS = Some (GEN_CONVERTER VL_NUMTYPE_INT32 VL_NUMTYPE_DSOFFS)"
| "vlConv_I32 VL_NUMTYPE_DSIDX = Some (GEN_CONVERTER VL_NUMTYPE_INT32 VL_NUMTYPE_DSIDX)"
| "vlConv_I32 VL_NUMTYPE_UINT8 = Some (GEN_CONVERTER VL_NUMTYPE_INT32 VL_NUMTYPE_UINT8)"
| "vlConv_I32 VL_NUMTYPE_UINT16 = Some (GEN_CONVERTER VL_NUMTYPE_INT32 VL_NUMTYPE_UINT16)"
| "vlConv_I32 VL_NUMTYPE_UINT32 = Some (GEN_CONVERTER VL_NUMTYPE_INT32 VL_NUMTYPE_UINT32)"
| "vlConv_I32 VL_NUMTYPE_UINT64 = Some (GEN_CONVERTER VL_NUMTYPE_INT32 VL_NUMTYPE_UINT64)"
| "vlConv_I32 VL_NUMTYPE_INT8 = Some (GEN_CONVERTER VL_NUMTYPE_INT32 VL_NUMTYPE_INT8)"
| "vlConv_I32 VL_NUMTYPE_INT16 = Some (GEN_CONVERTER VL_NUMTYPE_INT32 VL_NUMTYPE_INT16)"
| "vlConv_I32 VL_NUMTYPE_INT32 = None"
| "vlConv_I32 VL_NUMTYPE_INT64 = Some (GEN_CONVERTER VL_NUMTYPE_INT32 VL_NUMTYPE_INT64)"
| "vlConv_I32 VL_NUMTYPE_FLOAT32 = Some (GEN_CONVERTER VL_NUMTYPE_INT32 VL_NUMTYPE_FLOAT32)"
| "vlConv_I32 VL_NUMTYPE_FLOAT64 = Some (GEN_CONVERTER VL_NUMTYPE_INT32 VL_NUMTYPE_FLOAT64)"

fun vlConv_I64 :: "vl_numtype \<Rightarrow> vl_numtype_converter option" where
  "vlConv_I64 VL_NUMTYPE_DSOFFS = Some (GEN_CONVERTER VL_NUMTYPE_INT64 VL_NUMTYPE_DSOFFS)"
| "vlConv_I64 VL_NUMTYPE_DSIDX = Some (GEN_CONVERTER VL_NUMTYPE_INT64 VL_NUMTYPE_DSIDX)"
| "vlConv_I64 VL_NUMTYPE_UINT8 = Some (GEN_CONVERTER VL_NUMTYPE_INT64 VL_NUMTYPE_UINT8)"
| "vlConv_I64 VL_NUMTYPE_UINT16 = Some (GEN_CONVERTER VL_NUMTYPE_INT64 VL_NUMTYPE_UINT16)"
| "vlConv_I64 VL_NUMTYPE_UINT32 = Some (GEN_CONVERTER VL_NUMTYPE_INT64 VL_NUMTYPE_UINT32)"
| "vlConv_I64 VL_NUMTYPE_UINT64 = Some (GEN_CONVERTER VL_NUMTYPE_INT64 VL_NUMTYPE_UINT64)"
| "vlConv_I64 VL_NUMTYPE_INT8 = Some (GEN_CONVERTER VL_NUMTYPE_INT64 VL_NUMTYPE_INT8)"
| "vlConv_I64 VL_NUMTYPE_INT16 = Some (GEN_CONVERTER VL_NUMTYPE_INT64 VL_NUMTYPE_INT16)"
| "vlConv_I64 VL_NUMTYPE_INT32 = Some (GEN_CONVERTER VL_NUMTYPE_INT64 VL_NUMTYPE_INT32)"
| "vlConv_I64 VL_NUMTYPE_INT64 = None"
| "vlConv_I64 VL_NUMTYPE_FLOAT32 = Some (GEN_CONVERTER VL_NUMTYPE_INT64 VL_NUMTYPE_FLOAT32)"
| "vlConv_I64 VL_NUMTYPE_FLOAT64 = Some (GEN_CONVERTER VL_NUMTYPE_INT64 VL_NUMTYPE_FLOAT64)"

fun vlConv_F32 :: "vl_numtype \<Rightarrow> vl_numtype_converter option" where
  "vlConv_F32 VL_NUMTYPE_DSOFFS = Some (GEN_CONVERTER VL_NUMTYPE_FLOAT32 VL_NUMTYPE_DSOFFS)"
| "vlConv_F32 VL_NUMTYPE_DSIDX = Some (GEN_CONVERTER VL_NUMTYPE_FLOAT32 VL_NUMTYPE_DSIDX)"
| "vlConv_F32 VL_NUMTYPE_UINT8 = Some (GEN_CONVERTER VL_NUMTYPE_FLOAT32 VL_NUMTYPE_UINT8)"
| "vlConv_F32 VL_NUMTYPE_UINT16 = Some (GEN_CONVERTER VL_NUMTYPE_FLOAT32 VL_NUMTYPE_UINT16)"
| "vlConv_F32 VL_NUMTYPE_UINT32 = Some (GEN_CONVERTER VL_NUMTYPE_FLOAT32 VL_NUMTYPE_UINT32)"
| "vlConv_F32 VL_NUMTYPE_UINT64 = Some (GEN_CONVERTER VL_NUMTYPE_FLOAT32 VL_NUMTYPE_UINT64)"
| "vlConv_F32 VL_NUMTYPE_INT8 = Some (GEN_CONVERTER VL_NUMTYPE_FLOAT32 VL_NUMTYPE_INT8)"
| "vlConv_F32 VL_NUMTYPE_INT16 = Some (GEN_CONVERTER VL_NUMTYPE_FLOAT32 VL_NUMTYPE_INT16)"
| "vlConv_F32 VL_NUMTYPE_INT32 = Some (GEN_CONVERTER VL_NUMTYPE_FLOAT32 VL_NUMTYPE_INT32)"
| "vlConv_F32 VL_NUMTYPE_INT64 = Some (GEN_CONVERTER VL_NUMTYPE_FLOAT32 VL_NUMTYPE_INT64)"
| "vlConv_F32 VL_NUMTYPE_FLOAT32 = None"
| "vlConv_F32 VL_NUMTYPE_FLOAT64 = Some (GEN_CONVERTER VL_NUMTYPE_FLOAT32 VL_NUMTYPE_FLOAT64)"

fun vlConv_F64 :: "vl_numtype \<Rightarrow> vl_numtype_converter option" where
  "vlConv_F64 VL_NUMTYPE_DSOFFS = Some (GEN_CONVERTER VL_NUMTYPE_FLOAT64 VL_NUMTYPE_DSOFFS)"
| "vlConv_F64 VL_NUMTYPE_DSIDX = Some (GEN_CONVERTER VL_NUMTYPE_FLOAT64 VL_NUMTYPE_DSIDX)"
| "vlConv_F64 VL_NUMTYPE_UINT8 = Some (GEN_CONVERTER VL_NUMTYPE_FLOAT64 VL_NUMTYPE_UINT8)"
| "vlConv_F64 VL_NUMTYPE_UINT16 = Some (GEN_CONVERTER VL_NUMTYPE_FLOAT64 VL_NUMTYPE_UINT16)"
| "vlConv_F64 VL_NUMTYPE_UINT32 = Some (GEN_CONVERTER VL_NUMTYPE_FLOAT64 VL_NUMTYPE_UINT32)"
| "vlConv_F64 VL_NUMTYPE_UINT64 = Some (GEN_CONVERTER VL_NUMTYPE_FLOAT64 VL_NUMTYPE_UINT64)"
| "vlConv_F64 VL_NUMTYPE_INT8 = Some (GEN_CONVERTER VL_NUMTYPE_FLOAT64 VL_NUMTYPE_INT8)"
| "vlConv_F64 VL_NUMTYPE_INT16 = Some (GEN_CONVERTER VL_NUMTYPE_FLOAT64 VL_NUMTYPE_INT16)"
| "vlConv_F64 VL_NUMTYPE_INT32 = Some (GEN_CONVERTER VL_NUMTYPE_FLOAT64 VL_NUMTYPE_INT32)"
| "vlConv_F64 VL_NUMTYPE_INT64 = Some (GEN_CONVERTER VL_NUMTYPE_FLOAT64 VL_NUMTYPE_INT64)"
| "vlConv_F64 VL_NUMTYPE_FLOAT32 = Some (GEN_CONVERTER VL_NUMTYPE_FLOAT64 VL_NUMTYPE_FLOAT32)"
| "vlConv_F64 VL_NUMTYPE_FLOAT64 = None"

section \<open>The table\<close>

record vl_numtype_info =
  info_type :: vl_numtype
  info_size :: nat
  info_alignment :: nat
  isSigned :: bool
  isInteger :: bool
  isFloating :: bool
  typeConverters :: "vl_numtype \<Rightarrow> vl_numtype_converter option"

text \<open>An initialiser with designators: what is not named is \<^verbatim>\<open>NULL\<close>.\<close>

definition designated :: "(vl_numtype \<times> vl_numtype_converter option) list \<Rightarrow>
    vl_numtype \<Rightarrow> vl_numtype_converter option" where
  "designated inits t = (case map_of inits t of None \<Rightarrow> None | Some c \<Rightarrow> c)"

definition VL_NUMTYPE_INFO_DSOFFS :: vl_numtype_info where
  "VL_NUMTYPE_INFO_DSOFFS =
     \<lparr>info_type = VL_NUMTYPE_DSOFFS, info_size = 8, info_alignment = 8,
      isSigned = False, isInteger = True, isFloating = False,
      typeConverters = designated
        [(VL_NUMTYPE_DSOFFS, None),
         (VL_NUMTYPE_DSIDX, vlConv_DSOFFS VL_NUMTYPE_DSIDX),
         (VL_NUMTYPE_UINT8, vlConv_DSOFFS VL_NUMTYPE_UINT8),
         (VL_NUMTYPE_UINT16, vlConv_DSOFFS VL_NUMTYPE_UINT16),
         (VL_NUMTYPE_UINT32, vlConv_DSOFFS VL_NUMTYPE_UINT32),
         (VL_NUMTYPE_UINT64, vlConv_DSOFFS VL_NUMTYPE_UINT64),
         (VL_NUMTYPE_INT8, vlConv_DSOFFS VL_NUMTYPE_INT8),
         (VL_NUMTYPE_INT16, vlConv_DSOFFS VL_NUMTYPE_INT16),
         (VL_NUMTYPE_INT32, vlConv_DSOFFS VL_NUMTYPE_INT32),
         (VL_NUMTYPE_INT64, vlConv_DSOFFS VL_NUMTYPE_INT64),
         (VL_NUMTYPE_FLOAT32, vlConv_DSOFFS VL_NUMTYPE_FLOAT32),
         (VL_NUMTYPE_FLOAT64, vlConv_DSOFFS VL_NUMTYPE_FLOAT64)]\<rparr>"

definition VL_NUMTYPE_INFO_DSIDX :: vl_numtype_info where
  "VL_NUMTYPE_INFO_DSIDX =
     \<lparr>info_type = VL_NUMTYPE_DSIDX, info_size = 4, info_alignment = 4,
      isSigned = False, isInteger = True, isFloating = False,
      typeConverters = designated
        [(VL_NUMTYPE_DSOFFS, vlConv_DSIDX VL_NUMTYPE_DSOFFS),
         (VL_NUMTYPE_DSIDX, None),
         (VL_NUMTYPE_UINT8, vlConv_DSIDX VL_NUMTYPE_UINT8),
         (VL_NUMTYPE_UINT16, vlConv_DSIDX VL_NUMTYPE_UINT16),
         (VL_NUMTYPE_UINT32, vlConv_DSIDX VL_NUMTYPE_UINT32),
         (VL_NUMTYPE_UINT64, vlConv_DSIDX VL_NUMTYPE_UINT64),
         (VL_NUMTYPE_INT8, vlConv_DSIDX VL_NUMTYPE_INT8),
         (VL_NUMTYPE_INT16, vlConv_DSIDX VL_NUMTYPE_INT16),
         (VL_NUMTYPE_INT32, vlConv_DSIDX VL_NUMTYPE_INT32),
         (VL_NUMTYPE_INT64, vlConv_DSIDX VL_NUMTYPE_INT64),
         (VL_NUMTYPE_FLOAT32, vlConv_DSIDX VL_NUMTYPE_FLOAT32),
         (VL_NUMTYPE_FLOAT64, vlConv_DSIDX VL_NUMTYPE_FLOAT64)]\<rparr>"

definition VL_NUMTYPE_INFO_U8 :: vl_numtype_info where
  "VL_NUMTYPE_INFO_U8 =
     \<lparr>info_type = VL_NUMTYPE_UINT8, info_size = 1, info_alignment = 1,
      isSigned = False, isInteger = True, isFloating = False,
      typeConverters = designated
        [(VL_NUMTYPE_DSOFFS, vlConv_U8 VL_NUMTYPE_DSOFFS),
         (VL_NUMTYPE_DSIDX, vlConv_U8 VL_NUMTYPE_DSIDX),
         (VL_NUMTYPE_UINT8, None),
         (VL_NUMTYPE_UINT16, vlConv_U8 VL_NUMTYPE_UINT16),
         (VL_NUMTYPE_UINT32, vlConv_U8 VL_NUMTYPE_UINT32),
         (VL_NUMTYPE_UINT64, vlConv_U8 VL_NUMTYPE_UINT64),
         (VL_NUMTYPE_INT8, vlConv_U8 VL_NUMTYPE_INT8),
         (VL_NUMTYPE_INT16, vlConv_U8 VL_NUMTYPE_INT16),
         (VL_NUMTYPE_INT32, vlConv_U8 VL_NUMTYPE_INT32),
         (VL_NUMTYPE_INT64, vlConv_U8 VL_NUMTYPE_INT64),
         (VL_NUMTYPE_FLOAT32, vlConv_U8 VL_NUMTYPE_FLOAT32),
         (VL_NUMTYPE_FLOAT64, vlConv_U8 VL_NUMTYPE_FLOAT64)]\<rparr>"

definition VL_NUMTYPE_INFO_U16 :: vl_numtype_info where
  "VL_NUMTYPE_INFO_U16 =
     \<lparr>info_type = VL_NUMTYPE_UINT16, info_size = 2, info_alignment = 2,
      isSigned = False, isInteger = True, isFloating = False,
      typeConverters = designated
        [(VL_NUMTYPE_DSOFFS, vlConv_U16 VL_NUMTYPE_DSOFFS),
         (VL_NUMTYPE_DSIDX, vlConv_U16 VL_NUMTYPE_DSIDX),
         (VL_NUMTYPE_UINT8, vlConv_U16 VL_NUMTYPE_UINT8),
         (VL_NUMTYPE_UINT16, None),
         (VL_NUMTYPE_UINT32, vlConv_U16 VL_NUMTYPE_UINT32),
         (VL_NUMTYPE_UINT64, vlConv_U16 VL_NUMTYPE_UINT64),
         (VL_NUMTYPE_INT8, vlConv_U16 VL_NUMTYPE_INT8),
         (VL_NUMTYPE_INT16, vlConv_U16 VL_NUMTYPE_INT16),
         (VL_NUMTYPE_INT32, vlConv_U16 VL_NUMTYPE_INT32),
         (VL_NUMTYPE_INT64, vlConv_U16 VL_NUMTYPE_INT64),
         (VL_NUMTYPE_FLOAT32, vlConv_U16 VL_NUMTYPE_FLOAT32),
         (VL_NUMTYPE_FLOAT64, vlConv_U16 VL_NUMTYPE_FLOAT64)]\<rparr>"

definition VL_NUMTYPE_INFO_U32 :: vl_numtype_info where
  "VL_NUMTYPE_INFO_U32 =
     \<lparr>info_type = VL_NUMTYPE_UINT32, info_size = 4, info_alignment = 4,
      isSigned = False, isInteger = True, isFloating = False,
      typeConverters = designated
        [(VL_NUMTYPE_DSOFFS, vlConv_U32 VL_NUMTYPE_DSOFFS),
         (VL_NUMTYPE_DSIDX, vlConv_U32 VL_NUMTYPE_DSIDX),
         (VL_NUMTYPE_UINT8, vlConv_U32 VL_NUMTYPE_UINT8),
         (VL_NUMTYPE_UINT16, vlConv_U32 VL_NUMTYPE_UINT16),
         (VL_NUMTYPE_UINT32, None),
         (VL_NUMTYPE_UINT64, vlConv_U32 VL_NUMTYPE_UINT64),
         (VL_NUMTYPE_INT8, vlConv_U32 VL_NUMTYPE_INT8),
         (VL_NUMTYPE_INT16, vlConv_U32 VL_NUMTYPE_INT16),
         (VL_NUMTYPE_INT32, vlConv_U32 VL_NUMTYPE_INT32),
         (VL_NUMTYPE_INT64, vlConv_U32 VL_NUMTYPE_INT64),
         (VL_NUMTYPE_FLOAT32, vlConv_U32 VL_NUMTYPE_FLOAT32),
         (VL_NUMTYPE_FLOAT64, vlConv_U32 VL_NUMTYPE_FLOAT64)]\<rparr>"

definition VL_NUMTYPE_INFO_U64 :: vl_numtype_info where
  "VL_NUMTYPE_INFO_U64 =
     \<lparr>info_type = VL_NUMTYPE_UINT64, info_size = 8, info_alignment = 8,
      isSigned = False, isInteger = True, isFloating = False,
      typeConverters = designated
        [(VL_NUMTYPE_DSOFFS, vlConv_U64 VL_NUMTYPE_DSOFFS),
         (VL_NUMTYPE_DSIDX, vlConv_U64 VL_NUMTYPE_DSIDX),
         (VL_NUMTYPE_UINT8, vlConv_U64 VL_NUMTYPE_UINT8),
         (VL_NUMTYPE_UINT16, vlConv_U64 VL_NUMTYPE_UINT16),
         (VL_NUMTYPE_UINT32, vlConv_U64 VL_NUMTYPE_UINT32),
         (VL_NUMTYPE_UINT64, None),
         (VL_NUMTYPE_INT8, vlConv_U64 VL_NUMTYPE_INT8),
         (VL_NUMTYPE_INT16, vlConv_U64 VL_NUMTYPE_INT16),
         (VL_NUMTYPE_INT32, vlConv_U64 VL_NUMTYPE_INT32),
         (VL_NUMTYPE_INT64, vlConv_U64 VL_NUMTYPE_INT64),
         (VL_NUMTYPE_FLOAT32, vlConv_U64 VL_NUMTYPE_FLOAT32),
         (VL_NUMTYPE_FLOAT64, vlConv_U64 VL_NUMTYPE_FLOAT64)]\<rparr>"

definition VL_NUMTYPE_INFO_I8 :: vl_numtype_info where
  "VL_NUMTYPE_INFO_I8 =
     \<lparr>info_type = VL_NUMTYPE_INT8, info_size = 1, info_alignment = 1,
      isSigned = True, isInteger = True, isFloating = False,
      typeConverters = designated
        [(VL_NUMTYPE_DSOFFS, vlConv_I8 VL_NUMTYPE_DSOFFS),
         (VL_NUMTYPE_DSIDX, vlConv_I8 VL_NUMTYPE_DSIDX),
         (VL_NUMTYPE_UINT8, vlConv_I8 VL_NUMTYPE_UINT8),
         (VL_NUMTYPE_UINT16, vlConv_I8 VL_NUMTYPE_UINT16),
         (VL_NUMTYPE_UINT32, vlConv_I8 VL_NUMTYPE_UINT32),
         (VL_NUMTYPE_UINT64, vlConv_I8 VL_NUMTYPE_UINT64),
         (VL_NUMTYPE_INT8, None),
         (VL_NUMTYPE_INT16, vlConv_I8 VL_NUMTYPE_INT16),
         (VL_NUMTYPE_INT32, vlConv_I8 VL_NUMTYPE_INT32),
         (VL_NUMTYPE_INT64, vlConv_I8 VL_NUMTYPE_INT64),
         (VL_NUMTYPE_FLOAT32, vlConv_I8 VL_NUMTYPE_FLOAT32),
         (VL_NUMTYPE_FLOAT64, vlConv_I8 VL_NUMTYPE_FLOAT64)]\<rparr>"

definition VL_NUMTYPE_INFO_I16 :: vl_numtype_info where
  "VL_NUMTYPE_INFO_I16 =
     \<lparr>info_type = VL_NUMTYPE_INT16, info_size = 2, info_alignment = 2,
      isSigned = True, isInteger = True, isFloating = False,
      typeConverters = designated
        [(VL_NUMTYPE_DSOFFS, vlConv_I16 VL_NUMTYPE_DSOFFS),
         (VL_NUMTYPE_DSIDX, vlConv_I16 VL_NUMTYPE_DSIDX),
         (VL_NUMTYPE_UINT8, vlConv_I16 VL_NUMTYPE_UINT8),
         (VL_NUMTYPE_UINT16, vlConv_I16 VL_NUMTYPE_UINT16),
         (VL_NUMTYPE_UINT32, vlConv_I16 VL_NUMTYPE_UINT32),
         (VL_NUMTYPE_UINT64, vlConv_I16 VL_NUMTYPE_UINT64),
         (VL_NUMTYPE_INT8, vlConv_I16 VL_NUMTYPE_INT8),
         (VL_NUMTYPE_INT16, None),
         (VL_NUMTYPE_INT32, vlConv_I16 VL_NUMTYPE_INT32),
         (VL_NUMTYPE_INT64, vlConv_I16 VL_NUMTYPE_INT64),
         (VL_NUMTYPE_FLOAT32, vlConv_I16 VL_NUMTYPE_FLOAT32),
         (VL_NUMTYPE_FLOAT64, vlConv_I16 VL_NUMTYPE_FLOAT64)]\<rparr>"

definition VL_NUMTYPE_INFO_I32 :: vl_numtype_info where
  "VL_NUMTYPE_INFO_I32 =
     \<lparr>info_type = VL_NUMTYPE_INT32, info_size = 4, info_alignment = 4,
      isSigned = True, isInteger = True, isFloating = False,
      typeConverters = designated
        [(VL_NUMTYPE_DSOFFS, vlConv_I32 VL_NUMTYPE_DSOFFS),
         (VL_NUMTYPE_DSIDX, vlConv_I32 VL_NUMTYPE_DSIDX),
         (VL_NUMTYPE_UINT8, vlConv_I32 VL_NUMTYPE_UINT8),
         (VL_NUMTYPE_UINT16, vlConv_I32 VL_NUMTYPE_UINT16),
         (VL_NUMTYPE_UINT32, vlConv_I32 VL_NUMTYPE_UINT32),
         (VL_NUMTYPE_UINT64, vlConv_I32 VL_NUMTYPE_UINT64),
         (VL_NUMTYPE_INT8, vlConv_I32 VL_NUMTYPE_INT8),
         (VL_NUMTYPE_INT16, vlConv_I32 VL_NUMTYPE_INT16),
         (VL_NUMTYPE_INT32, None),
         (VL_NUMTYPE_INT64, vlConv_I32 VL_NUMTYPE_INT64),
         (VL_NUMTYPE_FLOAT32, vlConv_I32 VL_NUMTYPE_FLOAT32),
         (VL_NUMTYPE_FLOAT64, vlConv_I32 VL_NUMTYPE_FLOAT64)]\<rparr>"

definition VL_NUMTYPE_INFO_I64 :: vl_numtype_info where
  "VL_NUMTYPE_INFO_I64 =
     \<lparr>info_type = VL_NUMTYPE_INT64, info_size = 8, info_alignment = 8,
      isSigned = True, isInteger = True, isFloating = False,
      typeConverters = designated
        [(VL_NUMTYPE_DSOFFS, vlConv_I64 VL_NUMTYPE_DSOFFS),
         (VL_NUMTYPE_DSIDX, vlConv_I64 VL_NUMTYPE_DSIDX),
         (VL_NUMTYPE_UINT8, vlConv_I64 VL_NUMTYPE_UINT8),
         (VL_NUMTYPE_UINT16, vlConv_I64 VL_NUMTYPE_UINT16),
         (VL_NUMTYPE_UINT32, vlConv_I64 VL_NUMTYPE_UINT32),
         (VL_NUMTYPE_UINT64, vlConv_I64 VL_NUMTYPE_UINT64),
         (VL_NUMTYPE_INT8, vlConv_I64 VL_NUMTYPE_INT8),
         (VL_NUMTYPE_INT16, vlConv_I64 VL_NUMTYPE_INT16),
         (VL_NUMTYPE_INT32, vlConv_I64 VL_NUMTYPE_INT32),
         (VL_NUMTYPE_INT64, None),
         (VL_NUMTYPE_FLOAT32, vlConv_I64 VL_NUMTYPE_FLOAT32),
         (VL_NUMTYPE_FLOAT64, vlConv_I64 VL_NUMTYPE_FLOAT64)]\<rparr>"

definition VL_NUMTYPE_INFO_F32 :: vl_numtype_info where
  "VL_NUMTYPE_INFO_F32 =
     \<lparr>info_type = VL_NUMTYPE_FLOAT32, info_size = 4, info_alignment = 4,
      isSigned = True, isInteger = False, isFloating = True,
      typeConverters = designated
        [(VL_NUMTYPE_DSOFFS, vlConv_F32 VL_NUMTYPE_DSOFFS),
         (VL_NUMTYPE_DSIDX, vlConv_F32 VL_NUMTYPE_DSIDX),
         (VL_NUMTYPE_UINT8, vlConv_F32 VL_NUMTYPE_UINT8),
         (VL_NUMTYPE_UINT16, vlConv_F32 VL_NUMTYPE_UINT16),
         (VL_NUMTYPE_UINT32, vlConv_F32 VL_NUMTYPE_UINT32),
         (VL_NUMTYPE_UINT64, vlConv_F32 VL_NUMTYPE_UINT64),
         (VL_NUMTYPE_INT8, vlConv_F32 VL_NUMTYPE_INT8),
         (VL_NUMTYPE_INT16, vlConv_F32 VL_NUMTYPE_INT16),
         (VL_NUMTYPE_INT32, vlConv_F32 VL_NUMTYPE_INT32),
         (VL_NUMTYPE_INT64, vlConv_F32 VL_NUMTYPE_INT64),
         (VL_NUMTYPE_FLOAT32, None),
         (VL_NUMTYPE_FLOAT64, vlConv_F32 VL_NUMTYPE_FLOAT64)]\<rparr>"

definition VL_NUMTYPE_INFO_F64 :: vl_numtype_info where
  "VL_NUMTYPE_INFO_F64 =
     \<lparr>info_type = VL_NUMTYPE_FLOAT64, info_size = 8, info_alignment = 8,
      isSigned = True, isInteger = False, isFloating = True,
      typeConverters = designated
        [(VL_NUMTYPE_DSOFFS, vlConv_F64 VL_NUMTYPE_DSOFFS),
         (VL_NUMTYPE_DSIDX, vlConv_F64 VL_NUMTYPE_DSIDX),
         (VL_NUMTYPE_UINT8, vlConv_F64 VL_NUMTYPE_UINT8),
         (VL_NUMTYPE_UINT16, vlConv_F64 VL_NUMTYPE_UINT16),
         (VL_NUMTYPE_UINT32, vlConv_F64 VL_NUMTYPE_UINT32),
         (VL_NUMTYPE_UINT64, vlConv_F64 VL_NUMTYPE_UINT64),
         (VL_NUMTYPE_INT8, vlConv_F64 VL_NUMTYPE_INT8),
         (VL_NUMTYPE_INT16, vlConv_F64 VL_NUMTYPE_INT16),
         (VL_NUMTYPE_INT32, vlConv_F64 VL_NUMTYPE_INT32),
         (VL_NUMTYPE_INT64, vlConv_F64 VL_NUMTYPE_INT64),
         (VL_NUMTYPE_FLOAT32, vlConv_F64 VL_NUMTYPE_FLOAT32),
         (VL_NUMTYPE_FLOAT64, None)]\<rparr>"

definition VL_NUMTYPE_INFO :: "vl_numtype_info list" where
  "VL_NUMTYPE_INFO =
     [VL_NUMTYPE_INFO_DSOFFS,
      VL_NUMTYPE_INFO_DSIDX,
      VL_NUMTYPE_INFO_U8,
      VL_NUMTYPE_INFO_U16,
      VL_NUMTYPE_INFO_U32,
      VL_NUMTYPE_INFO_U64,
      VL_NUMTYPE_INFO_I8,
      VL_NUMTYPE_INFO_I16,
      VL_NUMTYPE_INFO_I32,
      VL_NUMTYPE_INFO_I64,
      VL_NUMTYPE_INFO_F32,
      VL_NUMTYPE_INFO_F64]"

text \<open>The value of the enumeration constant.\<close>

fun numtype_index :: "vl_numtype \<Rightarrow> nat" where
  "numtype_index VL_NUMTYPE_DSOFFS = 0"
| "numtype_index VL_NUMTYPE_DSIDX = 1"
| "numtype_index VL_NUMTYPE_UINT8 = 2"
| "numtype_index VL_NUMTYPE_UINT16 = 3"
| "numtype_index VL_NUMTYPE_UINT32 = 4"
| "numtype_index VL_NUMTYPE_UINT64 = 5"
| "numtype_index VL_NUMTYPE_INT8 = 6"
| "numtype_index VL_NUMTYPE_INT16 = 7"
| "numtype_index VL_NUMTYPE_INT32 = 8"
| "numtype_index VL_NUMTYPE_INT64 = 9"
| "numtype_index VL_NUMTYPE_FLOAT32 = 10"
| "numtype_index VL_NUMTYPE_FLOAT64 = 11"

text \<open>A call through a null function pointer is undefined.\<close>

definition vlNumTypeCast :: "vl_number \<Rightarrow> vl_numtype \<Rightarrow> vl_numtype \<Rightarrow> vl_number option" where
  "vlNumTypeCast src srcType dstType =
     (case typeConverters (VL_NUMTYPE_INFO ! numtype_index srcType) dstType of
        None \<Rightarrow> None
      | Some converter \<Rightarrow> converter src)"

definition vlNumTypeSizeof :: "vl_numtype \<Rightarrow> nat" where
  "vlNumTypeSizeof t = info_size (VL_NUMTYPE_INFO ! numtype_index t)"

end
