(* ===== verification/VL_NumTypesSpec.thy ===== *)
theory VL_NumTypesSpec
  imports VL_NumTypes
begin

text \<open>
  What the table of numeric types promises: its rows describe their types, every cast between
  two different types is the cast of C, and a number survives the way through a type that can
  represent it.
\<close>

section \<open>The table row by row\<close>

lemma designated_Cons:
  "designated ((k, c) # inits) t = (if t = k then c else designated inits t)"
  by (simp add: designated_def)

lemma converters:
  "vlConv_DSOFFS d = (if d = VL_NUMTYPE_DSOFFS then None else Some (GEN_CONVERTER VL_NUMTYPE_DSOFFS d))"
  "vlConv_DSIDX d = (if d = VL_NUMTYPE_DSIDX then None else Some (GEN_CONVERTER VL_NUMTYPE_DSIDX d))"
  "vlConv_U8 d = (if d = VL_NUMTYPE_UINT8 then None else Some (GEN_CONVERTER VL_NUMTYPE_UINT8 d))"
  "vlConv_U16 d = (if d = VL_NUMTYPE_UINT16 then None else Some (GEN_CONVERTER VL_NUMTYPE_UINT16 d))"
  "vlConv_U32 d = (if d = VL_NUMTYPE_UINT32 then None else Some (GEN_CONVERTER VL_NUMTYPE_UINT32 d))"
  "vlConv_U64 d = (if d = VL_NUMTYPE_UINT64 then None else Some (GEN_CONVERTER VL_NUMTYPE_UINT64 d))"
  "vlConv_I8 d = (if d = VL_NUMTYPE_INT8 then None else Some (GEN_CONVERTER VL_NUMTYPE_INT8 d))"
  "vlConv_I16 d = (if d = VL_NUMTYPE_INT16 then None else Some (GEN_CONVERTER VL_NUMTYPE_INT16 d))"
  "vlConv_I32 d = (if d = VL_NUMTYPE_INT32 then None else Some (GEN_CONVERTER VL_NUMTYPE_INT32 d))"
  "vlConv_I64 d = (if d = VL_NUMTYPE_INT64 then None else Some (GEN_CONVERTER VL_NUMTYPE_INT64 d))"
  "vlConv_F32 d = (if d = VL_NUMTYPE_FLOAT32 then None else Some (GEN_CONVERTER VL_NUMTYPE_FLOAT32 d))"
  "vlConv_F64 d = (if d = VL_NUMTYPE_FLOAT64 then None else Some (GEN_CONVERTER VL_NUMTYPE_FLOAT64 d))"
  by (cases d; simp)+

lemma row_DSOFFS: "typeConverters VL_NUMTYPE_INFO_DSOFFS d = vlConv_DSOFFS d"
  unfolding VL_NUMTYPE_INFO_DSOFFS_def
  by (cases d) (simp_all only: vl_numtype_info.simps designated_Cons vl_numtype.distinct if_True if_False vlConv_DSOFFS.simps simp_thms)

lemma row_DSIDX: "typeConverters VL_NUMTYPE_INFO_DSIDX d = vlConv_DSIDX d"
  unfolding VL_NUMTYPE_INFO_DSIDX_def
  by (cases d) (simp_all only: vl_numtype_info.simps designated_Cons vl_numtype.distinct if_True if_False vlConv_DSIDX.simps simp_thms)

lemma row_U8: "typeConverters VL_NUMTYPE_INFO_U8 d = vlConv_U8 d"
  unfolding VL_NUMTYPE_INFO_U8_def
  by (cases d) (simp_all only: vl_numtype_info.simps designated_Cons vl_numtype.distinct if_True if_False vlConv_U8.simps simp_thms)

lemma row_U16: "typeConverters VL_NUMTYPE_INFO_U16 d = vlConv_U16 d"
  unfolding VL_NUMTYPE_INFO_U16_def
  by (cases d) (simp_all only: vl_numtype_info.simps designated_Cons vl_numtype.distinct if_True if_False vlConv_U16.simps simp_thms)

lemma row_U32: "typeConverters VL_NUMTYPE_INFO_U32 d = vlConv_U32 d"
  unfolding VL_NUMTYPE_INFO_U32_def
  by (cases d) (simp_all only: vl_numtype_info.simps designated_Cons vl_numtype.distinct if_True if_False vlConv_U32.simps simp_thms)

lemma row_U64: "typeConverters VL_NUMTYPE_INFO_U64 d = vlConv_U64 d"
  unfolding VL_NUMTYPE_INFO_U64_def
  by (cases d) (simp_all only: vl_numtype_info.simps designated_Cons vl_numtype.distinct if_True if_False vlConv_U64.simps simp_thms)

lemma row_I8: "typeConverters VL_NUMTYPE_INFO_I8 d = vlConv_I8 d"
  unfolding VL_NUMTYPE_INFO_I8_def
  by (cases d) (simp_all only: vl_numtype_info.simps designated_Cons vl_numtype.distinct if_True if_False vlConv_I8.simps simp_thms)

lemma row_I16: "typeConverters VL_NUMTYPE_INFO_I16 d = vlConv_I16 d"
  unfolding VL_NUMTYPE_INFO_I16_def
  by (cases d) (simp_all only: vl_numtype_info.simps designated_Cons vl_numtype.distinct if_True if_False vlConv_I16.simps simp_thms)

lemma row_I32: "typeConverters VL_NUMTYPE_INFO_I32 d = vlConv_I32 d"
  unfolding VL_NUMTYPE_INFO_I32_def
  by (cases d) (simp_all only: vl_numtype_info.simps designated_Cons vl_numtype.distinct if_True if_False vlConv_I32.simps simp_thms)

lemma row_I64: "typeConverters VL_NUMTYPE_INFO_I64 d = vlConv_I64 d"
  unfolding VL_NUMTYPE_INFO_I64_def
  by (cases d) (simp_all only: vl_numtype_info.simps designated_Cons vl_numtype.distinct if_True if_False vlConv_I64.simps simp_thms)

lemma row_F32: "typeConverters VL_NUMTYPE_INFO_F32 d = vlConv_F32 d"
  unfolding VL_NUMTYPE_INFO_F32_def
  by (cases d) (simp_all only: vl_numtype_info.simps designated_Cons vl_numtype.distinct if_True if_False vlConv_F32.simps simp_thms)

lemma row_F64: "typeConverters VL_NUMTYPE_INFO_F64 d = vlConv_F64 d"
  unfolding VL_NUMTYPE_INFO_F64_def
  by (cases d) (simp_all only: vl_numtype_info.simps designated_Cons vl_numtype.distinct if_True if_False vlConv_F64.simps simp_thms)

lemmas info_defs =
  VL_NUMTYPE_INFO_DSOFFS_def
  VL_NUMTYPE_INFO_DSIDX_def
  VL_NUMTYPE_INFO_U8_def
  VL_NUMTYPE_INFO_U16_def
  VL_NUMTYPE_INFO_U32_def
  VL_NUMTYPE_INFO_U64_def
  VL_NUMTYPE_INFO_I8_def
  VL_NUMTYPE_INFO_I16_def
  VL_NUMTYPE_INFO_I32_def
  VL_NUMTYPE_INFO_I64_def
  VL_NUMTYPE_INFO_F32_def
  VL_NUMTYPE_INFO_F64_def

lemmas rows =
  row_DSOFFS
  row_DSIDX
  row_U8
  row_U16
  row_U32
  row_U64
  row_I8
  row_I16
  row_I32
  row_I64
  row_F32
  row_F64

lemma table_converters:
  "typeConverters (VL_NUMTYPE_INFO ! numtype_index s) d = (if d = s then None else Some (GEN_CONVERTER s d))"
  by (cases s) (simp_all add: VL_NUMTYPE_INFO_def rows converters del: vlConv_DSOFFS.simps vlConv_DSIDX.simps vlConv_U8.simps vlConv_U16.simps vlConv_U32.simps vlConv_U64.simps vlConv_I8.simps vlConv_I16.simps vlConv_I32.simps vlConv_I64.simps vlConv_F32.simps vlConv_F64.simps)

lemma table_cast:
  "number_type v = s \<Longrightarrow> vlNumTypeCast v s d = (if d = s then None else c_cast d (c_read v))"
  by (simp add: vlNumTypeCast_def table_converters GEN_CONVERTER_def)

lemma table_size:
  "vlNumTypeSizeof t = (case t of
     VL_NUMTYPE_UINT8 \<Rightarrow> 1 | VL_NUMTYPE_INT8 \<Rightarrow> 1 | VL_NUMTYPE_UINT16 \<Rightarrow> 2 | VL_NUMTYPE_INT16 \<Rightarrow> 2
   | VL_NUMTYPE_DSIDX \<Rightarrow> 4 | VL_NUMTYPE_UINT32 \<Rightarrow> 4 | VL_NUMTYPE_INT32 \<Rightarrow> 4 | VL_NUMTYPE_FLOAT32 \<Rightarrow> 4
   | _ \<Rightarrow> 8)"
  by (cases t) (simp_all add: vlNumTypeSizeof_def VL_NUMTYPE_INFO_def info_defs)

section \<open>Conversions between integers\<close>

lemma unsigned_cast:
  fixes n :: int
  shows "0 \<le> uint (word_of_int n :: 'a::len word)" "uint (word_of_int n :: 'a word) \<le> 2 ^ LENGTH('a) - 1"
    "2 ^ LENGTH('a) dvd uint (word_of_int n :: 'a word) - n"
    "0 \<le> n \<Longrightarrow> n \<le> 2 ^ LENGTH('a) - 1 \<Longrightarrow> uint (word_of_int n :: 'a word) = n"
proof -
  have eq: "uint (word_of_int n :: 'a word) = n mod 2 ^ LENGTH('a)" by (simp add: uint_word_of_int)
  show "0 \<le> uint (word_of_int n :: 'a word)" by simp
  show "uint (word_of_int n :: 'a word) \<le> 2 ^ LENGTH('a) - 1" unfolding eq by simp
  show "2 ^ LENGTH('a) dvd uint (word_of_int n :: 'a word) - n"
    unfolding eq by (simp add: mod_eq_dvd_iff [symmetric])
  show "0 \<le> n \<Longrightarrow> n \<le> 2 ^ LENGTH('a) - 1 \<Longrightarrow> uint (word_of_int n :: 'a word) = n" unfolding eq by simp
qed

lemma signed_cast:
  fixes n :: int
  shows "- (2 ^ (LENGTH('a) - 1)) \<le> sint (word_of_int n :: 'a::len word)"
    "sint (word_of_int n :: 'a word) \<le> 2 ^ (LENGTH('a) - 1) - 1"
    "2 ^ LENGTH('a) dvd sint (word_of_int n :: 'a word) - n"
    "- (2 ^ (LENGTH('a) - 1)) \<le> n \<Longrightarrow> n \<le> 2 ^ (LENGTH('a) - 1) - 1 \<Longrightarrow> sint (word_of_int n :: 'a word) = n"
proof -
  let ?w = "word_of_int n :: 'a word"
  show "- (2 ^ (LENGTH('a) - 1)) \<le> sint ?w" and "sint ?w \<le> 2 ^ (LENGTH('a) - 1) - 1"
    using sint_range_size [of ?w] by (simp_all add: word_size)
  have w: "word_of_int (sint ?w) = ?w" by simp
  have "uint (word_of_int (sint ?w) :: 'a word) = sint ?w mod 2 ^ LENGTH('a)" by (rule uint_word_of_int)
  moreover have "uint ?w = n mod 2 ^ LENGTH('a)" by (rule uint_word_of_int)
  ultimately have "sint ?w mod 2 ^ LENGTH('a) = n mod 2 ^ LENGTH('a)" unfolding w by simp
  then show "2 ^ LENGTH('a) dvd sint ?w - n" by (simp add: mod_eq_dvd_iff)
  show "- (2 ^ (LENGTH('a) - 1)) \<le> n \<Longrightarrow> n \<le> 2 ^ (LENGTH('a) - 1) - 1 \<Longrightarrow> sint ?w = n"
    by (simp add: sint_sbintrunc' signed_take_bit_int_eq_self)
qed

lemma cast_int_read:
  assumes "int_range d = Some (lo, hi)"
  shows "number_type (c_cast_int d n) = d \<and> (\<exists>n'. c_read (c_cast_int d n) = CInt n' \<and> lo \<le> n' \<and> n' \<le> hi \<and>
    2 ^ (8 * vlNumTypeSizeof d) dvd n' - n \<and> (lo \<le> n \<longrightarrow> n \<le> hi \<longrightarrow> n' = n))"
  using assms
    unsigned_cast [of n, where ?'a = 8] unsigned_cast [of n, where ?'a = 16]
    unsigned_cast [of n, where ?'a = 32] unsigned_cast [of n, where ?'a = 64]
    signed_cast [of n, where ?'a = 8] signed_cast [of n, where ?'a = 16]
    signed_cast [of n, where ?'a = 32] signed_cast [of n, where ?'a = 64]
  by (cases d) (simp_all add: table_size)

lemma cast_back: "c_read v = CInt n \<Longrightarrow> number_type v = s \<Longrightarrow> c_cast_int s n = v"
  by (cases v) auto

lemma read_int:
  assumes "c_read v = CInt n" and "number_type v = s"
  shows "\<exists>lo hi. int_range s = Some (lo, hi) \<and> lo \<le> n \<and> n \<le> hi"
proof -
  obtain lo hi where r: "int_range s = Some (lo, hi)" using assms by (cases v) auto
  then show ?thesis using cast_int_read [OF r, of n] cast_back [OF assms] assms(1) by auto
qed

lemma read_float:
  "c_read v = CFloat x \<Longrightarrow> number_type v = s \<Longrightarrow> int_range s = None"
  by (cases v) auto

section \<open>Floating-point numbers\<close>

lemma bitlen_0 [simp]: "bitlen 0 = 0"
  by (simp add: bitlen.simps)

lemma bitlen_pos: "0 < n \<Longrightarrow> bitlen n = Suc (bitlen (n div 2))"
  by (simp add: bitlen.simps [of n])

lemma bitlen_le_iff: "bitlen n \<le> k \<longleftrightarrow> n < 2 ^ k"
proof (induction k arbitrary: n)
  case 0
  then show ?case by (cases "n = 0") (simp_all add: bitlen_pos)
next
  case (Suc k)
  show ?case
  proof (cases "n = 0")
    case False
    then have "bitlen n \<le> Suc k \<longleftrightarrow> bitlen (n div 2) \<le> k" by (simp add: bitlen_pos)
    also have "\<dots> \<longleftrightarrow> n div 2 < 2 ^ k" by (rule Suc.IH)
    also have "\<dots> \<longleftrightarrow> n < 2 ^ Suc k" by (simp add: div_less_iff_less_mult mult.commute)
    finally show ?thesis .
  qed simp
qed

lemma round_even_0 [simp]: "round_even 0 n = n"
  by (simp add: round_even_def Let_def)

lemma round_even_near:
  "\<bar>2 * (int (round_even s n) * 2 ^ s - int n)\<bar> \<le> 2 ^ s"
proof -
  define q r where "q = n div 2 ^ s" and "r = n mod 2 ^ s"
  have "n = q * 2 ^ s + r" unfolding q_def r_def by (rule div_mult_mod_eq [symmetric])
  then have "int n = int (q * 2 ^ s + r)" by (rule arg_cong)
  then have n: "int n = int q * 2 ^ s + int r" by simp
  have "int r < int (2 ^ s)" unfolding of_nat_less_iff r_def by simp
  then have r: "int r < 2 ^ s" by simp
  have "(2 * r > 2 ^ s) = (int (2 * r) > int (2 ^ s))" "(2 * r = 2 ^ s) = (int (2 * r) = int (2 ^ s))"
    by (simp_all only: of_nat_less_iff of_nat_eq_iff)
  then have p: "(2 * r > 2 ^ s) = (2 * int r > 2 ^ s)" "(2 * r = 2 ^ s) = (2 * int r = 2 ^ s)" by simp_all
  show ?thesis
  proof (cases "2 * r > 2 ^ s \<or> 2 * r = 2 ^ s \<and> odd q")
    case True
    then have "int (round_even s n) * 2 ^ s - int n = 2 ^ s - int r"
      by (simp add: round_even_def Let_def n algebra_simps flip: q_def r_def)
    moreover have "2 * int r \<ge> 2 ^ s" using True unfolding p by auto
    ultimately show ?thesis using r by (simp add: abs_if)
  next
    case False
    then have "int (round_even s n) * 2 ^ s - int n = - int r"
      by (simp add: round_even_def Let_def n flip: q_def r_def)
    moreover have "2 * int r \<le> 2 ^ s" using False unfolding p by auto
    ultimately show ?thesis by simp
  qed
qed

lemma fp_round_exact:
  assumes "m < 2 ^ precision f" and "min_exp f \<le> 0" and "int (precision f) \<le> max_exp f + 1"
  shows "fp_round f neg m 0 = Fin neg m 0"
proof -
  have "bitlen m \<le> precision f" using assms(1) by (simp add: bitlen_le_iff)
  then show ?thesis using assms(2,3) by (simp add: fp_round_def Let_def)
qed

lemma fp_trunc_int: "fp_trunc (Fin (n < 0) (nat \<bar>n\<bar>) 0) = Some n"
  by (simp add: Let_def)

section \<open>Properties\<close>

text \<open>
  A cast between two types through the table is undefined in exactly these cases: the types
  are the same, where the table has a null pointer and the cast calls it, or a floating
  number is cast to an integer type whose range does not have its integral part, infinities
  and NaNs among them.
\<close>

theorem numtype_cast_undefined:
  assumes "number_type v = s"
  shows "vlNumTypeCast v s d = None \<longleftrightarrow>
    d = s \<or>
    (\<exists>x lo hi. c_read v = CFloat x \<and> int_range d = Some (lo, hi) \<and>
       (\<forall>n. fp_trunc x = Some n \<longrightarrow> n < lo \<or> hi < n))"
proof (cases "c_read v")
  case (CInt n)
  then show ?thesis by (simp add: table_cast [OF assms])
next
  case (CFloat x)
  show ?thesis
  proof (cases "int_range d")
    case None
    then show ?thesis by (simp add: table_cast [OF assms] CFloat)
  next
    case (Some r)
    then show ?thesis
      by (cases r; cases "fp_trunc x") (auto simp: table_cast [OF assms] CFloat)
  qed
qed

theorem numtype_cast_undefined_witness:
  "(vlNumTypeCast (N_F64 (Fin False 300 0)) VL_NUMTYPE_FLOAT64 VL_NUMTYPE_UINT8 = None) \<longleftrightarrow>
    VL_NUMTYPE_UINT8 = VL_NUMTYPE_FLOAT64 \<or>
    (\<exists>x lo hi. c_read (N_F64 (Fin False 300 0)) = CFloat x \<and> int_range VL_NUMTYPE_UINT8 = Some (lo, hi) \<and>
       (\<forall>n. fp_trunc x = Some n \<longrightarrow> n < lo \<or> hi < n))"
  by (rule numtype_cast_undefined) simp

text \<open>
  An integer cast to another integer type has the value that the destination can represent
  and that is congruent to it modulo the number of its values: the same value if there is room.
\<close>

theorem numtype_int_cast:
  assumes "number_type v = s" and "c_read v = CInt n" and "int_range d = Some (lo, hi)" and "d \<noteq> s"
  shows "\<exists>v' n'. vlNumTypeCast v s d = Some v' \<and> number_type v' = d \<and> c_read v' = CInt n' \<and>
    lo \<le> n' \<and> n' \<le> hi \<and> 2 ^ (8 * vlNumTypeSizeof d) dvd n' - n \<and> (lo \<le> n \<longrightarrow> n \<le> hi \<longrightarrow> n' = n)"
  using cast_int_read [OF assms(3), of n] assms by (auto simp: table_cast)

theorem numtype_int_cast_witness:
  "\<exists>v' n'. vlNumTypeCast (N_I32 (- 7)) VL_NUMTYPE_INT32 VL_NUMTYPE_UINT8 = Some v' \<and>
     number_type v' = VL_NUMTYPE_UINT8 \<and> c_read v' = CInt n' \<and> 0 \<le> n' \<and> n' \<le> 2 ^ 8 - 1 \<and>
     2 ^ (8 * vlNumTypeSizeof VL_NUMTYPE_UINT8) dvd n' - (- 7) \<and> ((0::int) \<le> - 7 \<longrightarrow> - 7 \<le> (2 ^ 8 - 1 :: int) \<longrightarrow> n' = - 7)"
  by (rule numtype_int_cast) simp_all

text \<open>
  A type can represent all integers of a range; a format of floating numbers those below two
  to its precision.
\<close>

definition represents :: "vl_numtype \<Rightarrow> int \<Rightarrow> bool" where
  "represents t n =
     (case int_range t of
        Some (lo, hi) \<Rightarrow> lo \<le> n \<and> n \<le> hi
      | None \<Rightarrow> \<bar>n\<bar> < 2 ^ (if t = VL_NUMTYPE_FLOAT32 then 24 else 53))"

lemma float_roundtrip:
  assumes "int_range d = None" and "represents d n"
  shows "\<exists>x. c_read (c_cast_int d n) = CFloat x \<and> number_type (c_cast_int d n) = d \<and> fp_trunc x = Some n"
proof -
  have d: "d = VL_NUMTYPE_FLOAT32 \<or> d = VL_NUMTYPE_FLOAT64" using assms(1) by (cases d) simp_all
  then have "nat \<bar>n\<bar> < 2 ^ (if d = VL_NUMTYPE_FLOAT32 then 24 else 53)"
    using assms by (auto simp: represents_def nat_less_iff)
  then show ?thesis
    using d fp_round_exact [of "nat \<bar>n\<bar>" binary32 "n < 0"] fp_round_exact [of "nat \<bar>n\<bar>" binary64 "n < 0"]
      fp_trunc_int [of n]
    by (auto simp: binary32_def binary64_def simp del: fp_trunc.simps)
qed

text \<open>
  C21. An integer that is cast to a type which represents it, floating-point types included, and
  back again is unchanged; every 32-bit integer, for one, on its way through a 64-bit float.
\<close>

theorem numtype_cast_roundtrip:
  assumes "number_type v = s" and "c_read v = CInt n" and "d \<noteq> s" and "represents d n"
  shows "\<exists>v'. vlNumTypeCast v s d = Some v' \<and> vlNumTypeCast v' d s = Some v"
proof -
  obtain lo hi where s: "int_range s = Some (lo, hi)" "lo \<le> n" "n \<le> hi"
    using read_int assms(1,2) by blast
  have cast_s: "c_cast_int s n = v" using cast_back assms(1,2) by blast
  show ?thesis
  proof (cases "int_range d")
    case None
    then show ?thesis
      using float_roundtrip [OF None assms(4)] assms s cast_s by (auto simp: table_cast)
  next
    case (Some r)
    then obtain lo' hi' where r: "int_range d = Some (lo', hi')" by (cases r) simp
    then show ?thesis
      using cast_int_read [OF r, of n] assms s cast_s by (auto simp: table_cast represents_def)
  qed
qed

theorem numtype_cast_roundtrip_witness:
  "\<exists>v'. vlNumTypeCast (N_I32 (- 7)) VL_NUMTYPE_INT32 VL_NUMTYPE_FLOAT64 = Some v' \<and>
     vlNumTypeCast v' VL_NUMTYPE_FLOAT64 VL_NUMTYPE_INT32 = Some (N_I32 (- 7))"
  by (rule numtype_cast_roundtrip [of _ _ "- 7"]) (simp_all add: represents_def)

end
