(* ===== verification/VL_Memory.thy ===== *)
theory VL_Memory
  imports VL_Prelude
begin

text \<open>
  \<^verbatim>\<open>src/core/vl_memory.c\<close>: allocations with a hidden header in front of the pointer that the
  user gets, optionally aligned, and the algorithms on raw memory. The C allocator is a
  parameter: \<open>malloc_at al n\<close> is the address that \<^verbatim>\<open>malloc(n)\<close> returns, \<open>realloc_at al p n\<close>
  the one of \<^verbatim>\<open>realloc(p, n)\<close>, \<^const>\<open>None\<close> for \<^verbatim>\<open>NULL\<close>. A byte that was never written is
  \<^const>\<open>None\<close>. An access outside a block is undefined: the operation is then \<^const>\<open>None\<close>.
\<close>

record allocator =
  malloc_at :: "nat \<Rightarrow> nat option"
  realloc_at :: "nat \<Rightarrow> nat \<Rightarrow> nat option"

type_synonym byte = "u8 option"

section \<open>Ranges of bytes\<close>

definition read_range :: "'a list \<Rightarrow> nat \<Rightarrow> nat \<Rightarrow> 'a list option" where
  "read_range bs off n = (if off + n \<le> length bs then Some (take n (drop off bs)) else None)"

definition write_range :: "'a list \<Rightarrow> nat \<Rightarrow> 'a list \<Rightarrow> 'a list option" where
  "write_range bs off xs =
     (if off + length xs \<le> length bs then Some (take off bs @ xs @ drop (off + length xs) bs) else None)"

definition grow_to :: "nat \<Rightarrow> byte list \<Rightarrow> byte list" where
  "grow_to n bs = take n bs @ replicate (n - length bs) None"

section \<open>Blocks\<close>

record vl_memory_header =
  mh_length :: nat
  mh_headOffset :: nat
  mh_alignment :: nat

definition MEMORY_HEADER_SIZE :: nat where
  "MEMORY_HEADER_SIZE = 16"

definition VL_DEFAULT_ALIGN :: nat where
  "VL_DEFAULT_ALIGN = 8"

text \<open>
  A pointer into an allocation: the block it points into, with the address that the C
  allocator gave it, the offset of the pointer, and the header that lies right in front of it.
\<close>

record vl_memory =
  mem_origin :: nat
  mem_bytes :: "byte list"
  mem_user :: nat
  mem_header :: vl_memory_header

definition mem_address :: "vl_memory \<Rightarrow> nat" where
  "mem_address m = mem_origin m + mem_user m"

definition VL_MEMORY_HEADER_INLINE :: "vl_memory \<Rightarrow> nat" where
  "VL_MEMORY_HEADER_INLINE m = mem_address m - MEMORY_HEADER_SIZE"

definition VL_MEMORY_ORIGIN_INLINE :: "vl_memory \<Rightarrow> nat" where
  "VL_MEMORY_ORIGIN_INLINE m = VL_MEMORY_HEADER_INLINE m - mh_headOffset (mem_header m)"

text \<open>The header is written in front of the pointer: it has to lie in the block.\<close>

definition place_header :: "nat \<Rightarrow> byte list \<Rightarrow> nat \<Rightarrow> vl_memory_header \<Rightarrow> vl_memory option" where
  "place_header origin bytes user header =
     (if MEMORY_HEADER_SIZE \<le> user \<and> user \<le> length bytes
      then Some \<lparr>mem_origin = origin, mem_bytes = bytes, mem_user = user, mem_header = header\<rparr>
      else None)"

section \<open>Allocation\<close>

text \<open>The inner option is the pointer that is returned, \<^const>\<open>None\<close> for \<^verbatim>\<open>NULL\<close>.\<close>

definition vlMemAlloc :: "allocator \<Rightarrow> nat \<Rightarrow> vl_memory option option" where
  "vlMemAlloc al allocSize =
     (let n = u64_of (allocSize + MEMORY_HEADER_SIZE)
      in case malloc_at al n of
           None \<Rightarrow> Some None
         | Some a \<Rightarrow> do {
             m \<leftarrow> place_header a (replicate n None) MEMORY_HEADER_SIZE
               \<lparr>mh_length = allocSize, mh_headOffset = 0, mh_alignment = VL_DEFAULT_ALIGN\<rparr>;
             Some (Some m)
           })"

definition aligned_user :: "nat \<Rightarrow> nat \<Rightarrow> nat" where
  "aligned_user origin align =
     (let userOffset = u64_of (origin + align + MEMORY_HEADER_SIZE)
      in userOffset - userOffset mod align)"

definition vlMemAllocAligned :: "allocator \<Rightarrow> nat \<Rightarrow> nat \<Rightarrow> vl_memory option option" where
  "vlMemAllocAligned al memSize align =
     (if align \<le> VL_DEFAULT_ALIGN then vlMemAlloc al memSize
      else
        let n = u64_of (memSize + align + MEMORY_HEADER_SIZE)
        in case malloc_at al n of
             None \<Rightarrow> Some None
           | Some origin \<Rightarrow> do {
               let user = aligned_user origin align;
               m \<leftarrow> place_header origin (replicate n None) (user - origin)
                 \<lparr>mh_length = memSize, mh_headOffset = u32_of (user - MEMORY_HEADER_SIZE - origin),
                   mh_alignment = align\<rparr>;
               Some (Some m)
             })"

definition vlMemAlignment :: "vl_memory option \<Rightarrow> nat" where
  "vlMemAlignment mem = (case mem of None \<Rightarrow> VL_DEFAULT_ALIGN | Some m \<Rightarrow> mh_alignment (mem_header m))"

definition vlMemSize :: "vl_memory option \<Rightarrow> nat" where
  "vlMemSize mem = (case mem of None \<Rightarrow> 0 | Some m \<Rightarrow> mh_length (mem_header m))"

text \<open>To free anything else than the origin of a block is undefined.\<close>

definition vlMemFree :: "vl_memory option \<Rightarrow> unit option" where
  "vlMemFree mem =
     (case mem of
        None \<Rightarrow> Some ()
      | Some m \<Rightarrow> if VL_MEMORY_ORIGIN_INLINE m = mem_origin m then Some () else None)"

text \<open>
  \<^verbatim>\<open>vlMemRealloc\<close> keeps the alignment in 16 bits. Without an alignment the result of
  \<^verbatim>\<open>realloc\<close> is used unchecked; with one the old contents move to the new place of the user
  pointer. \<^verbatim>\<open>realloc\<close> of anything but the origin is undefined.
\<close>

definition vlMemRealloc :: "allocator \<Rightarrow> vl_memory option \<Rightarrow> nat \<Rightarrow> vl_memory option option" where
  "vlMemRealloc al mem allocSize =
     (case mem of
        None \<Rightarrow> vlMemAlloc al allocSize
      | Some m \<Rightarrow>
          let oldHeader = mem_header m;
              align = u16_of (mh_alignment oldHeader)
          in if align \<le> VL_DEFAULT_ALIGN then
               let n = u64_of (allocSize + MEMORY_HEADER_SIZE)
               in if mem_address m - MEMORY_HEADER_SIZE \<noteq> mem_origin m then None
                  else case realloc_at al (mem_origin m) n of
                    None \<Rightarrow> None
                  | Some a \<Rightarrow> do {
                      m \<leftarrow> place_header a (grow_to n (mem_bytes m)) MEMORY_HEADER_SIZE
                        (oldHeader\<lparr>mh_length := allocSize\<rparr>);
                      Some (Some m)
                    }
             else
               let oldSize = u64_of (mh_length oldHeader + MEMORY_HEADER_SIZE);
                   newSize = u64_of (allocSize + MEMORY_HEADER_SIZE);
                   n = u64_of (newSize + mh_alignment oldHeader)
               in if VL_MEMORY_ORIGIN_INLINE m \<noteq> mem_origin m then None
                  else case realloc_at al (mem_origin m) n of
                    None \<Rightarrow> Some None
                  | Some origin \<Rightarrow> do {
                      let bytes = grow_to n (mem_bytes m);
                      let user = aligned_user origin align;
                      let headOffset = u32_of (user - MEMORY_HEADER_SIZE - origin);
                      bytes \<leftarrow>
                        (if headOffset \<noteq> mh_headOffset oldHeader then do {
                           moved \<leftarrow> read_range bytes (mh_headOffset oldHeader)
                             (if oldSize > newSize then newSize else oldSize);
                           write_range bytes headOffset moved
                         } else Some bytes);
                      m \<leftarrow> place_header origin bytes (user - origin)
                        \<lparr>mh_length = allocSize, mh_headOffset = headOffset,
                          mh_alignment = mh_alignment oldHeader\<rparr>;
                      Some (Some m)
                    })"

text \<open>The bytes that the user sees.\<close>

definition mem_data :: "vl_memory \<Rightarrow> byte list" where
  "mem_data m = take (mh_length (mem_header m)) (drop (mem_user m) (mem_bytes m))"

definition vlMemClone :: "allocator \<Rightarrow> vl_memory option \<Rightarrow> vl_memory option option" where
  "vlMemClone al mem =
     (case mem of
        None \<Rightarrow> Some None
      | Some m \<Rightarrow> do {
          let memSize = vlMemSize mem;
          let align = mh_alignment (mem_header m);
          alloc \<leftarrow> (if align \<le> VL_DEFAULT_ALIGN then vlMemAlloc al memSize else vlMemAllocAligned al memSize align);
          case alloc of
            None \<Rightarrow> Some None
          | Some c \<Rightarrow> do {
              xs \<leftarrow> read_range (mem_bytes m) (mem_user m) memSize;
              bytes \<leftarrow> write_range (mem_bytes c) (mem_user c) xs;
              Some (Some (c\<lparr>mem_bytes := bytes\<rparr>))
            }
        })"

section \<open>Sorting\<close>

text \<open>
  The array of elements is a list of values of the element type. The stack of \<^verbatim>\<open>vlMemSort\<close> has
  one \<^verbatim>\<open>vl_int_t\<close> for each element; its slots above \<open>top\<close> are not read, so that the list has
  the pushed ones only.
\<close>

definition elem_at :: "'a list \<Rightarrow> int \<Rightarrow> 'a option" where
  "elem_at xs i = (if 0 \<le> i \<and> i < int (length xs) then Some (xs ! nat i) else None)"

definition vl_MemSortSwap :: "'a list \<Rightarrow> int \<Rightarrow> int \<Rightarrow> 'a list option" where
  "vl_MemSortSwap xs i j =
     do { a \<leftarrow> elem_at xs i; b \<leftarrow> elem_at xs j; Some ((xs[nat i := b])[nat j := a]) }"

text \<open>
  Indices are signed 32-bit integers, whose overflow is undefined; a number that has 32 bits without a sign
  wraps when it is converted.
\<close>

definition vl_int_of :: "int \<Rightarrow> int option" where
  "vl_int_of x = (if - (2 ^ 31) \<le> x \<and> x < 2 ^ 31 then Some x else None)"

definition int_of_dsidx :: "nat \<Rightarrow> int" where
  "int_of_dsidx n = (if n < 2 ^ 31 then int n else int n - 2 ^ 32)"

text \<open>The loop of \<^verbatim>\<open>vl_MemSortPartition\<close> over \<open>k\<close> remaining elements from \<open>j\<close> on.\<close>

primrec partition_loop ::
  "('a \<Rightarrow> 'a \<Rightarrow> int) \<Rightarrow> 'a \<Rightarrow> nat \<Rightarrow> int \<Rightarrow> int \<Rightarrow> 'a list \<Rightarrow> (int \<times> 'a list) option" where
  "partition_loop comparator pivot 0 j i xs = Some (i, xs)"
| "partition_loop comparator pivot (Suc k) j i xs =
     do {
       x \<leftarrow> elem_at xs j;
       next_j \<leftarrow> vl_int_of (j + 1);
       if comparator x pivot \<le> 0 then do {
         i \<leftarrow> vl_int_of (i + 1);
         xs \<leftarrow> vl_MemSortSwap xs i j;
         partition_loop comparator pivot k next_j i xs
       } else partition_loop comparator pivot k next_j i xs
     }"

definition vl_MemSortPartition ::
  "('a \<Rightarrow> 'a \<Rightarrow> int) \<Rightarrow> 'a list \<Rightarrow> int \<Rightarrow> int \<Rightarrow> (int \<times> 'a list) option" where
  "vl_MemSortPartition comparator xs low high =
     do {
       pivot \<leftarrow> elem_at xs high;
       i \<leftarrow> vl_int_of (low - 1);
       _ \<leftarrow> vl_int_of (high - 1);
       (i, xs) \<leftarrow> partition_loop comparator pivot (nat (high - low)) low i xs;
       p \<leftarrow> vl_int_of (i + 1);
       xs \<leftarrow> vl_MemSortSwap xs p high;
       Some (p, xs)
     }"

definition stack_push :: "nat \<Rightarrow> int list \<Rightarrow> int \<Rightarrow> int list option" where
  "stack_push cap st x = (if length st < cap then Some (x # st) else None)"

partial_function (option) quicksort_loop ::
  "('a \<Rightarrow> 'a \<Rightarrow> int) \<Rightarrow> nat \<Rightarrow> int list \<Rightarrow> 'a list \<Rightarrow> 'a list option" where
  [code]: "quicksort_loop comparator cap st xs =
     (case st of
        high # low # st \<Rightarrow> do {
          (p, xs) \<leftarrow> vl_MemSortPartition comparator xs low high;
          left \<leftarrow> vl_int_of (p - 1);
          st \<leftarrow> (if left > low then do { st \<leftarrow> stack_push cap st low; stack_push cap st left } else Some st);
          right \<leftarrow> vl_int_of (p + 1);
          st \<leftarrow> (if right < high then do { st \<leftarrow> stack_push cap st right; stack_push cap st high } else Some st);
          quicksort_loop comparator cap st xs
        }
      | _ \<Rightarrow> Some xs)"

definition vl_MemSortQuicksort ::
  "('a \<Rightarrow> 'a \<Rightarrow> int) \<Rightarrow> nat \<Rightarrow> 'a list \<Rightarrow> nat \<Rightarrow> 'a list option" where
  "vl_MemSortQuicksort comparator cap xs numElements =
     do {
       st \<leftarrow> stack_push cap [] 0;
       st \<leftarrow> stack_push cap st (int_of_dsidx (dec32 numElements));
       quicksort_loop comparator cap st xs
     }"

text \<open>
  If the temporary memory cannot be allocated the array is left as it is. The stack lies behind the pivot and the
  element for swapping; a stack of indices at an address that is not a multiple of four is undefined, and so is
  one behind the end of the memory.
\<close>

definition vlMemSort ::
  "allocator \<Rightarrow> nat \<Rightarrow> nat \<Rightarrow> ('a \<Rightarrow> 'a \<Rightarrow> int) \<Rightarrow> 'a list \<Rightarrow> 'a list option" where
  "vlMemSort al elementSize numElements comparator xs =
     do {
       let sortIndexSize = u64_of (4 * numElements);
       let allocSize = u64_of (sortIndexSize + u64_of (elementSize * 2));
       tempMem \<leftarrow> vlMemAlloc al allocSize;
       (case tempMem of
          None \<Rightarrow> Some xs
        | Some temp \<Rightarrow>
            if elementSize * 2 \<le> allocSize \<and> 4 dvd mem_address temp + elementSize * 2
            then vl_MemSortQuicksort comparator ((allocSize - elementSize * 2) div 4) xs numElements
            else None)
     }"

section \<open>Strides\<close>

primrec copy_stride_loop ::
  "nat \<Rightarrow> nat \<Rightarrow> nat \<Rightarrow> nat \<Rightarrow> nat \<Rightarrow> nat \<Rightarrow> byte list \<Rightarrow> byte list \<Rightarrow> byte list option" where
  "copy_stride_loop srcStride dstStride elementSize 0 srcPtr dstPtr src dest = Some dest"
| "copy_stride_loop srcStride dstStride elementSize (Suc k) srcPtr dstPtr src dest =
     do {
       xs \<leftarrow> read_range src srcPtr elementSize;
       dest \<leftarrow> write_range dest dstPtr xs;
       copy_stride_loop srcStride dstStride elementSize k (srcPtr + srcStride) (dstPtr + dstStride) src dest
     }"

definition vlMemCopyStride ::
  "byte list \<Rightarrow> nat \<Rightarrow> byte list \<Rightarrow> nat \<Rightarrow> nat \<Rightarrow> nat \<Rightarrow> byte list option" where
  "vlMemCopyStride src srcStride dest dstStride elementSize numElements =
     (if dstStride = 0 \<and> srcStride = 0 then do {
        xs \<leftarrow> read_range src 0 (u64_of (elementSize * numElements));
        write_range dest 0 xs
      } else copy_stride_loop srcStride dstStride elementSize numElements 0 0 src dest)"

text \<open>The inner loop of \<^verbatim>\<open>vlMemReverseSubArraysStride\<close>: two pointers that approach each other.\<close>

primrec reverse_steps :: "nat \<Rightarrow> nat \<Rightarrow> nat \<Rightarrow> byte list \<Rightarrow> byte list option" where
  "reverse_steps 0 firstPtr lastPtr bs = Some bs"
| "reverse_steps (Suc k) firstPtr lastPtr bs =
     (if firstPtr < length bs \<and> lastPtr < length bs
      then reverse_steps k (firstPtr + 1) (lastPtr - 1) ((bs[lastPtr := bs ! firstPtr])[firstPtr := bs ! lastPtr])
      else None)"

primrec reverse_stride_loop :: "nat \<Rightarrow> nat \<Rightarrow> nat \<Rightarrow> nat \<Rightarrow> byte list \<Rightarrow> byte list option" where
  "reverse_stride_loop srcStride elementSize 0 srcPtr bs = Some bs"
| "reverse_stride_loop srcStride elementSize (Suc k) srcPtr bs =
     do {
       bs \<leftarrow> reverse_steps (u32_of (elementSize div 2)) srcPtr (srcPtr + (elementSize - 1)) bs;
       reverse_stride_loop srcStride elementSize k (srcPtr + srcStride) bs
     }"

definition vlMemReverseSubArraysStride :: "byte list \<Rightarrow> nat \<Rightarrow> nat \<Rightarrow> nat \<Rightarrow> byte list option" where
  "vlMemReverseSubArraysStride src srcStride elementSize numElements =
     reverse_stride_loop srcStride elementSize numElements 0 src"

end
