(* ===== verification/VL_MemSort.thy ===== *)
theory VL_MemSort
  imports VL_Memory VL_Compare
begin

text \<open>
  \<^verbatim>\<open>vlMemSort\<close> sorts: the partition splits a range around its last element, the explicit stack
  holds the ranges that are left, and one slot for each element is always enough for it, from
  two elements on.
\<close>

section \<open>Rearrangements of a range\<close>

text \<open>The positions from \<^term>\<open>l\<close> to \<^term>\<open>h\<close> exchange their elements, the others keep theirs.\<close>

definition rearranged :: "nat \<Rightarrow> nat \<Rightarrow> 'a list \<Rightarrow> 'a list \<Rightarrow> bool" where
  "rearranged l h xs ys \<longleftrightarrow>
     length ys = length xs \<and> mset ys = mset xs \<and> (\<forall>k. k < l \<or> h < k \<longrightarrow> ys ! k = xs ! k) \<and>
     (\<forall>k. l \<le> k \<longrightarrow> k \<le> h \<longrightarrow> (\<exists>k'. l \<le> k' \<and> k' \<le> h \<and> ys ! k = xs ! k'))"

lemma rearranged_refl: "rearranged l h xs xs"
  by (auto simp: rearranged_def)

lemma rearranged_trans: "rearranged l h xs ys \<Longrightarrow> rearranged l h ys zs \<Longrightarrow> rearranged l h xs zs"
  unfolding rearranged_def by (metis (no_types, lifting))

lemma rearranged_swap:
  assumes "l \<le> i" "i \<le> h" "l \<le> j" "j \<le> h" "h < length xs"
  shows "rearranged l h xs ((xs[i := xs ! j])[j := xs ! i])"
proof -
  have ij: "i < length xs" "j < length xs" using assms by simp_all
  have "mset ((xs[i := xs ! j])[j := xs ! i]) = mset xs" using ij by (metis mset_swap list_update_swap list_update_id)
  moreover have "(xs[i := xs ! j])[j := xs ! i] ! k = (if k = j then xs ! i else if k = i then xs ! j else xs ! k)"
    for k using ij by (auto simp: nth_list_update)
  ultimately show ?thesis using assms unfolding rearranged_def by auto
qed

section \<open>The partition\<close>

lemma elem_at_int: "k < length xs \<Longrightarrow> elem_at xs (int k) = Some (xs ! k)"
  by (simp add: elem_at_def)

lemma swap_int:
  "i < length xs \<Longrightarrow> j < length xs \<Longrightarrow>
   vl_MemSortSwap xs (int i) (int j) = Some ((xs[i := xs ! j])[j := xs ! i])"
  by (simp add: vl_MemSortSwap_def elem_at_int)

lemma vl_int_ok: "- 1 \<le> x \<Longrightarrow> x < 2 ^ 31 \<Longrightarrow> vl_int_of x = Some x"
  by (simp add: vl_int_of_def)

context comparator
begin

lemma partition_loop_ok:
  "length xs < 2 ^ 31 \<Longrightarrow> j + k = h \<Longrightarrow> l \<le> i \<Longrightarrow> i \<le> j \<Longrightarrow> h < length xs \<Longrightarrow> xs ! h = pivot \<Longrightarrow>
   (\<forall>a. l \<le> a \<longrightarrow> a < i \<longrightarrow> cmp (xs ! a) pivot \<le> 0) \<Longrightarrow>
   (\<forall>a. i \<le> a \<longrightarrow> a < j \<longrightarrow> \<not> cmp (xs ! a) pivot \<le> 0) \<Longrightarrow>
   \<exists>i' ys. partition_loop cmp pivot k (int j) (int i - 1) xs = Some (int i' - 1, ys) \<and>
     l \<le> i' \<and> i' \<le> h \<and> rearranged l h xs ys \<and> ys ! h = pivot \<and>
     (\<forall>a. l \<le> a \<longrightarrow> a < i' \<longrightarrow> cmp (ys ! a) pivot \<le> 0) \<and>
     (\<forall>a. i' \<le> a \<longrightarrow> a < h \<longrightarrow> \<not> cmp (ys ! a) pivot \<le> 0)"
proof (induction k arbitrary: j i xs)
  case 0
  then show ?case using rearranged_refl by auto
next
  case (Suc k)
  have j: "j < length xs" and next_j: "int j + 1 = int (Suc j)" using Suc.prems by simp_all
  have x: "elem_at xs (int j) = Some (xs ! j)" using j by (rule elem_at_int)
  have up: "vl_int_of (int j + 1) = Some (int (Suc j))" using j Suc.prems(1) by (simp add: vl_int_of_def)
  show ?case
  proof (cases "cmp (xs ! j) pivot \<le> 0")
    case True
    let ?xs = "(xs[i := xs ! j])[j := xs ! i]"
    have nth: "?xs ! a = (if a = j then xs ! i else if a = i then xs ! j else xs ! a)" for a
      using Suc.prems by (auto simp: nth_list_update)
    have "i < 2 ^ 31" using Suc.prems by simp
    then have up_i: "vl_int_of (int i - 1 + 1) = Some (int (Suc i) - 1)" by (simp add: vl_int_of_def)
    have sw: "vl_MemSortSwap xs (int (Suc i) - 1) (int j) = Some ?xs"
      using swap_int [of i xs j] Suc.prems by simp
    have step: "partition_loop cmp pivot (Suc k) (int j) (int i - 1) xs =
        partition_loop cmp pivot k (int (Suc j)) (int (Suc i) - 1) ?xs"
      using x up up_i sw True by simp
    have re: "rearranged l h xs ?xs" using Suc.prems by (intro rearranged_swap) simp_all
    have "\<exists>i' ys. partition_loop cmp pivot k (int (Suc j)) (int (Suc i) - 1) ?xs = Some (int i' - 1, ys) \<and>
        l \<le> i' \<and> i' \<le> h \<and> rearranged l h ?xs ys \<and> ys ! h = pivot \<and>
        (\<forall>a. l \<le> a \<longrightarrow> a < i' \<longrightarrow> cmp (ys ! a) pivot \<le> 0) \<and>
        (\<forall>a. i' \<le> a \<longrightarrow> a < h \<longrightarrow> \<not> cmp (ys ! a) pivot \<le> 0)"
    proof (rule Suc.IH)
      show "\<forall>a. l \<le> a \<longrightarrow> a < Suc i \<longrightarrow> cmp (?xs ! a) pivot \<le> 0"
        using Suc.prems True unfolding nth by (auto simp: less_Suc_eq)
      show "\<forall>a. Suc i \<le> a \<longrightarrow> a < Suc j \<longrightarrow> \<not> cmp (?xs ! a) pivot \<le> 0"
        using Suc.prems unfolding nth by (auto simp: less_Suc_eq)
    qed (use Suc.prems in \<open>auto simp: nth\<close>)
    then show ?thesis unfolding step using re rearranged_trans by blast
  next
    case False
    have step: "partition_loop cmp pivot (Suc k) (int j) (int i - 1) xs =
        partition_loop cmp pivot k (int (Suc j)) (int i - 1) xs"
      using x up False by simp
    show ?thesis unfolding step
    proof (rule Suc.IH)
      show "\<forall>a. i \<le> a \<longrightarrow> a < Suc j \<longrightarrow> \<not> cmp (xs ! a) pivot \<le> 0"
        using Suc.prems False by (auto simp: less_Suc_eq)
    qed (use Suc.prems in auto)
  qed
qed

lemma partition_ok:
  assumes "l \<le> h" and "h < length xs" and "length xs < 2 ^ 31"
  shows "\<exists>p ys. vl_MemSortPartition cmp xs (int l) (int h) = Some (int p, ys) \<and> l \<le> p \<and> p \<le> h \<and>
    rearranged l h xs ys \<and> (\<forall>a. l \<le> a \<longrightarrow> a < p \<longrightarrow> cmp (ys ! a) (ys ! p) \<le> 0) \<and>
    (\<forall>a. p < a \<longrightarrow> a \<le> h \<longrightarrow> cmp (ys ! p) (ys ! a) \<le> 0)"
proof -
  obtain i ys where *: "partition_loop cmp (xs ! h) (h - l) (int l) (int l - 1) xs = Some (int i - 1, ys)"
    "l \<le> i" "i \<le> h" "rearranged l h xs ys" "ys ! h = xs ! h"
    "\<forall>a. l \<le> a \<longrightarrow> a < i \<longrightarrow> cmp (ys ! a) (xs ! h) \<le> 0"
    "\<forall>a. i \<le> a \<longrightarrow> a < h \<longrightarrow> \<not> cmp (ys ! a) (xs ! h) \<le> 0"
    using partition_loop_ok [of xs l "h - l" h l l "xs ! h"] assms by auto
  have len: "length ys = length xs" using *(4) by (simp add: rearranged_def)
  let ?ys = "(ys[i := ys ! h])[h := ys ! i]"
  have nth: "?ys ! a = (if a = h then ys ! i else if a = i then ys ! h else ys ! a)" for a
    using *(3) assms len by (auto simp: nth_list_update)
  have b: "int h < 2 ^ 31" "int i < 2 ^ 31" using *(3) assms by simp_all
  have "vl_MemSortSwap ys (int i) (int h) = Some ?ys"
    using swap_int [of i ys h] *(3) assms len by simp
  then have "vl_MemSortPartition cmp xs (int l) (int h) = Some (int i, ?ys)"
    using assms *(1) b by (simp add: vl_MemSortPartition_def elem_at_int nat_diff_distrib vl_int_ok)
  moreover have "rearranged l h xs ?ys"
    using *(4) rearranged_swap [of l i h h ys] *(2,3) assms len rearranged_trans by auto
  moreover have "cmp (?ys ! a) (?ys ! i) \<le> 0" if "l \<le> a" "a < i" for a
    using that *(3,5,6) unfolding nth by auto
  moreover have "cmp (?ys ! i) (?ys ! a) \<le> 0" if "i < a" "a \<le> h" for a
    using that *(3,5,7) not_le_flip unfolding nth by auto
  ultimately show ?thesis using *(2,3) by blast
qed

end
section \<open>The stack of ranges\<close>

definition flat :: "(nat \<times> nat) list \<Rightarrow> int list" where
  "flat segs = concat (map (\<lambda>(l, h). [int h, int l]) segs)"

definition cells :: "(nat \<times> nat) list \<Rightarrow> nat" where
  "cells segs = sum_list (map (\<lambda>(l, h). h - l + 1) segs)"

text \<open>The pending ranges have two elements at least and do not overlap.\<close>

fun pending :: "nat \<Rightarrow> (nat \<times> nat) list \<Rightarrow> bool" where
  "pending n [] = True"
| "pending n ((l, h) # segs) \<longleftrightarrow>
     l < h \<and> h < n \<and> (\<forall>(l', h') \<in> set segs. h' < l \<or> h < l') \<and> pending n segs"

lemma flat_simps [simp]:
  "flat [] = []" "flat ((l, h) # segs) = int h # int l # flat segs" "flat (ss @ ts) = flat ss @ flat ts"
  by (simp_all add: flat_def)

lemma cells_simps [simp]:
  "cells [] = 0" "cells ((l, h) # segs) = h - l + 1 + cells segs" "cells (ss @ ts) = cells ss + cells ts"
  by (simp_all add: cells_def)

lemma pending_length: "pending n segs \<Longrightarrow> length (flat segs) \<le> cells segs"
  by (induction n segs rule: pending.induct) auto

lemma push_two:
  "length st + 2 \<le> cap \<Longrightarrow>
   do { st \<leftarrow> stack_push cap st a; stack_push cap st b } = Some (b # a # st)"
  by (simp add: stack_push_def)

context comparator
begin

definition sorted_but :: "(nat \<times> nat) list \<Rightarrow> 'a list \<Rightarrow> bool" where
  "sorted_but segs xs \<longleftrightarrow>
     (\<forall>i j. i < j \<longrightarrow> j < length xs \<longrightarrow> (\<exists>(l, h) \<in> set segs. l \<le> i \<and> j \<le> h) \<or> cmp (xs ! i) (xs ! j) \<le> 0)"

lemma sorted_but_step:
  assumes sorted: "sorted_but ((l, h) # segs) xs" and disj: "\<forall>(l', h') \<in> set segs. h' < l \<or> h < l'"
    and p: "l \<le> p" "p \<le> h" "h < length xs" and re: "rearranged l h xs ys"
    and low: "\<forall>a. l \<le> a \<longrightarrow> a < p \<longrightarrow> cmp (ys ! a) (ys ! p) \<le> 0"
    and high: "\<forall>a. p < a \<longrightarrow> a \<le> h \<longrightarrow> cmp (ys ! p) (ys ! a) \<le> 0"
  shows "sorted_but ((if p + 1 < h then [(p + 1, h)] else []) @ (if l < p - 1 then [(l, p - 1)] else []) @ segs) ys"
    (is "sorted_but ?segs ys")
  unfolding sorted_but_def
proof (intro allI impI)
  fix i j
  assume ij: "i < j" "j < length ys"
  have len: "length ys = length xs" using re by (simp add: rearranged_def)
  have out: "ys ! k = xs ! k" if "k < l \<or> h < k" for k using re that by (auto simp: rearranged_def)
  have mid: "\<exists>k'. l \<le> k' \<and> k' \<le> h \<and> ys ! k = xs ! k'" if "l \<le> k" "k \<le> h" for k
    using re that by (simp add: rearranged_def)
  have old: "(\<exists>(l', h') \<in> set segs. l' \<le> i' \<and> j' \<le> h') \<or> cmp (xs ! i') (xs ! j') \<le> 0"
    if "i' < j'" "j' < length xs" "\<not> (l \<le> i' \<and> j' \<le> h)" for i' j'
    using sorted that unfolding sorted_but_def by auto
  consider "l \<le> i" "j \<le> h" | "l \<le> i" "i \<le> h" "h < j" | "i < l" "l \<le> j" "j \<le> h"
    | "i < l \<or> h < i" "j < l \<or> h < j" using ij(1) by linarith
  then show "(\<exists>(l, h) \<in> set ?segs. l \<le> i \<and> j \<le> h) \<or> cmp (ys ! i) (ys ! j) \<le> 0"
  proof cases
    case 1
    consider "j < p" | "p < i" | "i \<le> p" "p \<le> j" using ij(1) by linarith
    then show ?thesis
    proof cases
      case 1
      then have "l < p - 1" "j \<le> p - 1" using \<open>l \<le> i\<close> ij(1) by linarith+
      then show ?thesis using \<open>l \<le> i\<close> by auto
    next
      case 2
      then have "p + 1 < h" "p + 1 \<le> i" using \<open>j \<le> h\<close> ij(1) by linarith+
      then show ?thesis using \<open>j \<le> h\<close> by auto
    next
      case 3
      have "cmp (ys ! i) (ys ! p) \<le> 0" using low \<open>l \<le> i\<close> \<open>i \<le> p\<close> cmp_refl by (cases "i = p") auto
      moreover have "cmp (ys ! p) (ys ! j) \<le> 0" using high \<open>j \<le> h\<close> \<open>p \<le> j\<close> cmp_refl by (cases "j = p") auto
      ultimately show ?thesis using cmp_trans by blast
    qed
  next
    case 2
    obtain i' where i': "l \<le> i'" "i' \<le> h" "ys ! i = xs ! i'" using mid 2(1,2) by blast
    have "(\<exists>(l', h') \<in> set segs. l' \<le> i' \<and> j \<le> h') \<or> cmp (xs ! i') (xs ! j) \<le> 0"
      using old [of i' j] i' 2(3) ij len by simp
    then show ?thesis using disj i' 2(3) out [of j] by fastforce
  next
    case 3
    obtain j' where j': "l \<le> j'" "j' \<le> h" "ys ! j = xs ! j'" using mid 3(2,3) by blast
    have "(\<exists>(l', h') \<in> set segs. l' \<le> i \<and> j' \<le> h') \<or> cmp (xs ! i) (xs ! j') \<le> 0"
      using old [of i j'] j' 3(1) p(3) by simp
    then show ?thesis using disj j' 3(1) out [of i] by fastforce
  next
    case 4
    have "\<not> (l \<le> i \<and> j \<le> h)" using 4 ij(1) by linarith
    then show ?thesis using old [of i j] ij len out [of i] out [of j] 4 by auto
  qed
qed

lemma quicksort_loop_ok:
  "length xs < 2 ^ 31 \<Longrightarrow> pending (length xs) segs \<Longrightarrow> cells segs \<le> length xs \<Longrightarrow> sorted_but segs xs \<Longrightarrow>
   \<exists>ys. quicksort_loop cmp (length xs) (flat segs) xs = Some ys \<and> mset ys = mset xs \<and> sorted_but [] ys"
proof (induction "cells segs" arbitrary: segs xs rule: less_induct)
  case less
  show ?case
  proof (cases segs)
    case Nil
    then show ?thesis using less.prems by (subst quicksort_loop.simps) simp
  next
    case (Cons s rest)
    then obtain l h where segs: "segs = (l, h) # rest" by (cases s) auto
    have lh: "l < h" "h < length xs" "\<forall>(l', h') \<in> set rest. h' < l \<or> h < l'" "pending (length xs) rest"
      using less.prems(2) unfolding segs by simp_all
    obtain p ys where p: "vl_MemSortPartition cmp xs (int l) (int h) = Some (int p, ys)" "l \<le> p" "p \<le> h"
      "rearranged l h xs ys" "\<forall>a. l \<le> a \<longrightarrow> a < p \<longrightarrow> cmp (ys ! a) (ys ! p) \<le> 0"
      "\<forall>a. p < a \<longrightarrow> a \<le> h \<longrightarrow> cmp (ys ! p) (ys ! a) \<le> 0"
      using partition_ok [OF less_imp_le [OF lh(1)] lh(2) less.prems(1)] by blast
    have len: "length ys = length xs" and mset: "mset ys = mset xs"
      using p(4) by (simp_all add: rearranged_def)
    have small: "int p < 2 ^ 31 - 1" "vl_int_of (int p - 1) = Some (int p - 1)" "vl_int_of (int p + 1) = Some (int p + 1)"
      using p(3) lh(2) less.prems(1) by (auto simp: vl_int_of_def)
    define mid where "mid = (if l < p - 1 then [(l, p - 1)] else []) @ rest"
    define segs' where "segs' = (if p + 1 < h then [(p + 1, h)] else []) @ mid"
    have pend_mid: "pending (length xs) mid" using lh p(2,3) by (auto simp: mid_def)
    then have pend: "pending (length ys) segs'" using lh p(2,3) unfolding len by (auto simp: segs'_def mid_def)
    have cells_mid: "cells mid + (h - p) < cells segs" using p(2,3) by (auto simp: mid_def segs)
    then have fewer: "cells segs' < cells segs" by (auto simp: segs'_def)
    have "length (flat rest) \<le> cells rest" using lh(4) by (rule pending_length)
    then have push1: "(if int p - 1 > int l then do { st \<leftarrow> stack_push (length xs) (flat rest) (int l);
        stack_push (length xs) st (int p - 1) } else Some (flat rest)) = Some (flat mid)"
      using less.prems(3) p(2,3) by (auto simp: mid_def segs push_two of_nat_diff)
    have "length (flat mid) \<le> cells mid" using pend_mid by (rule pending_length)
    then have push2: "(if int p + 1 < int h then do { st \<leftarrow> stack_push (length xs) (flat mid) (int p + 1);
        stack_push (length xs) st (int h) } else Some (flat mid)) = Some (flat segs')"
      using less.prems(3) cells_mid by (auto simp: segs'_def push_two add.commute)
    have step: "quicksort_loop cmp (length xs) (flat segs) xs = quicksort_loop cmp (length ys) (flat segs') ys"
      by (subst quicksort_loop.simps) (simp add: segs p(1) small(2,3) push1 push2 len del: if_split cong: if_cong)
    have "sorted_but segs' ys"
      unfolding segs'_def mid_def by (rule sorted_but_step) (use less.prems(4) lh p in \<open>simp_all add: segs\<close>)
    then have "\<exists>zs. quicksort_loop cmp (length ys) (flat segs') ys = Some zs \<and> mset zs = mset ys \<and> sorted_but [] zs"
      using less.hyps [OF fewer _ pend] fewer less.prems(1,3) len by simp
    then show ?thesis unfolding step using mset by simp
  qed
qed

lemma quicksort_ok:
  assumes "2 \<le> length xs" and "length xs < 2 ^ 31"
  shows "\<exists>ys. vl_MemSortQuicksort cmp (length xs) xs (length xs) = Some ys \<and> mset ys = mset xs \<and>
    sorted_wrt (\<lambda>a b. cmp a b \<le> 0) ys"
proof -
  have "pending (length xs) [(0, length xs - 1)]" using assms by simp
  moreover have "sorted_but [(0, length xs - 1)] xs" by (auto simp: sorted_but_def)
  ultimately obtain ys where "quicksort_loop cmp (length xs) (flat [(0, length xs - 1)]) xs = Some ys"
    "mset ys = mset xs" "sorted_but [] ys"
    using quicksort_loop_ok [of xs "[(0, length xs - 1)]"] assms by auto
  moreover have "xs \<noteq> []" "length xs - 1 < 2 ^ 31" using assms by auto
  then have "vl_MemSortQuicksort cmp (length xs) xs (length xs) =
      quicksort_loop cmp (length xs) (flat [(0, length xs - 1)]) xs"
    using assms by (simp add: vl_MemSortQuicksort_def stack_push_def of_nat_diff dec32_id int_of_dsidx_def)
  ultimately show ?thesis by (auto simp: sorted_wrt_iff_nth_less sorted_but_def)
qed

end

section \<open>Properties\<close>

lemma mem_sort_returns:
  assumes "comparator cmp" and "2 \<le> length xs" and "length xs < 2 ^ 31"
  shows "\<exists>ys. vl_MemSortQuicksort cmp (length xs) xs (length xs) = Some ys \<and> mset ys = mset xs \<and>
    sorted_wrt (\<lambda>a b. cmp a b \<le> 0) ys"
  using assms by (rule comparator.quicksort_ok)

lemma sort_stack_size: "4 * n + elementSize * 2 < 2 ^ 64 \<Longrightarrow>
  u64_of (u64_of (4 * n) + u64_of (elementSize * 2)) = 4 * n + elementSize * 2"
  by (simp add: u64_of_def)

text \<open>
  C24. \<^verbatim>\<open>vlMemSort\<close> of two elements or more, but fewer than \<open>2^31\<close>, when there is memory for its stack
  and the stack is aligned, ends without leaving the array or the stack and without overflow of
  an index, and sorts: the same elements, in an order that the comparator agrees with. For elements of an even
  size the stack is aligned whenever the memory is.
\<close>

theorem mem_sort_sorted:
  assumes "comparator cmp" and "2 \<le> length xs" and "length xs < 2 ^ 31"
    and "4 * length xs + elementSize * 2 < 2 ^ 64"
    and "vlMemAlloc al (4 * length xs + elementSize * 2) = Some (Some temp)" and "4 dvd mem_address temp" and "even elementSize"
  shows "\<exists>ys. vlMemSort al elementSize (length xs) cmp xs = Some ys \<and> mset ys = mset xs \<and>
    sorted_wrt (\<lambda>a b. cmp a b \<le> 0) ys"
proof -
  have "4 dvd mem_address temp + elementSize * 2" using assms(6,7) by (auto elim!: evenE intro: dvd_add)
  then show ?thesis
    using mem_sort_returns [OF assms(1-3)] assms(5)
    by (simp add: vlMemSort_def Let_def sort_stack_size [OF assms(4)])
qed

theorem mem_sort_sorted_witness:
  "\<exists>ys. vlMemSort \<lparr>malloc_at = \<lambda>_. Some 4096, realloc_at = \<lambda>_ _. None\<rparr> 4 3 vlCompareInt
       [3, - 1, 2 :: u32] = Some ys \<and> mset ys = {#3, - 1, 2#} \<and>
     sorted_wrt (\<lambda>a b. vlCompareInt a b \<le> 0) ys"
proof -
  let ?al = "\<lparr>malloc_at = \<lambda>_. Some 4096, realloc_at = \<lambda>_ _. None\<rparr>"
  obtain m where "vlMemAlloc ?al (4 * length [3, - 1, 2 :: u32] + 4 * 2) = Some (Some m)" "4 dvd mem_address m"
    by (simp add: vlMemAlloc_def place_header_def u64_of_def Let_def MEMORY_HEADER_SIZE_def mem_address_def)
  from mem_sort_sorted [OF cmp_int.comparator_axioms _ _ _ this] show ?thesis by (simp add: numeral_3_eq_3)
qed

text \<open>
  The stack of \<^verbatim>\<open>vlMemSort\<close> has one slot for each element, but its first range takes two: for
  a single element the second push is outside, and for none the first. Elements of an odd size leave the stack
  of indices misaligned.
\<close>

theorem mem_sort_undefined:
  assumes "length xs \<le> 1 \<or> odd elementSize" and "4 * length xs + elementSize * 2 < 2 ^ 64"
    and "vlMemAlloc al (4 * length xs + elementSize * 2) = Some (Some temp)" and "4 dvd mem_address temp"
  shows "vlMemSort al elementSize (length xs) cmp xs = None"
proof (cases "odd elementSize")
  case True
  then have "\<not> 4 dvd elementSize * 2" by presburger
  then have "\<not> 4 dvd mem_address temp + elementSize * 2" using assms(4) by (simp add: dvd_add_right_iff)
  then show ?thesis using assms(3) by (simp add: vlMemSort_def Let_def sort_stack_size [OF assms(2)])
next
  case False
  then have "length xs \<le> 1" using assms(1) by simp
  then show ?thesis
    using assms(3) by (auto simp: vlMemSort_def Let_def sort_stack_size [OF assms(2)] vl_MemSortQuicksort_def stack_push_def)
qed

theorem mem_sort_undefined_witness:
  "vlMemSort \<lparr>malloc_at = \<lambda>_. Some 4096, realloc_at = \<lambda>_ _. None\<rparr> 4 1 vlCompareInt [3 :: u32] = None"
proof -
  let ?al = "\<lparr>malloc_at = \<lambda>_. Some 4096, realloc_at = \<lambda>_ _. None\<rparr>"
  obtain m where "vlMemAlloc ?al (4 * length [3 :: u32] + 4 * 2) = Some (Some m)" "4 dvd mem_address m"
    by (simp add: vlMemAlloc_def place_header_def u64_of_def Let_def MEMORY_HEADER_SIZE_def mem_address_def)
  from mem_sort_undefined [OF _ _ this] show ?thesis by simp
qed

end
