(* ===== verification/VL_MemBytes.thy ===== *)
theory VL_MemBytes
  imports VL_Memory
begin

text \<open>
  \<^verbatim>\<open>vlMemReverseSubArraysStride\<close> and \<^verbatim>\<open>vlMemCopyStride\<close> on the bytes of an array: what they
  do to each position.
\<close>

section \<open>Reversal\<close>

lemma reverse_steps_ok:
  "f + 2 * k \<le> l + 1 \<Longrightarrow> l < length bs \<Longrightarrow>
   \<exists>bs'. reverse_steps k f l bs = Some bs' \<and> length bs' = length bs \<and>
     (\<forall>i. bs' ! i = (if f \<le> i \<and> i < f + k \<or> l < i + k \<and> i \<le> l then bs ! (f + l - i) else bs ! i))"
proof (induction k arbitrary: f l bs)
  case 0
  then show ?case by auto
next
  case (Suc k)
  let ?bs = "(bs[l := bs ! f])[f := bs ! l]"
  have fl: "f < length bs" "f < l" "l < length bs" using Suc.prems by simp_all
  have nth: "?bs ! i = (if i = f then bs ! l else if i = l then bs ! f else bs ! i)" for i
    using fl by (auto simp: nth_list_update)
  have ih: "f + 1 + 2 * k \<le> l - 1 + 1" "l - 1 < length ?bs" using Suc.prems by auto
  obtain bs' where bs': "reverse_steps k (f + 1) (l - 1) ?bs = Some bs'" "length bs' = length bs"
    "\<forall>i. bs' ! i = (if f + 1 \<le> i \<and> i < f + 1 + k \<or> l - 1 < i + k \<and> i \<le> l - 1
       then ?bs ! (f + 1 + (l - 1) - i) else ?bs ! i)"
    using Suc.IH [OF ih] by auto
  have "bs' ! i = (if f \<le> i \<and> i < f + Suc k \<or> l < i + Suc k \<and> i \<le> l then bs ! (f + l - i) else bs ! i)" for i
  proof -
    consider "i = f" | "i = l" | "i \<noteq> f" "i \<noteq> l" by blast
    then show ?thesis
    proof cases
      case 1
      then show ?thesis using bs'(3) nth fl Suc.prems by auto
    next
      case 2
      then show ?thesis using bs'(3) nth fl Suc.prems by auto
    next
      case 3
      have eq: "f + 1 + (l - 1) - i = f + l - i" using fl by simp
      have cond: "(f + 1 \<le> i \<and> i < f + 1 + k \<or> l - 1 < i + k \<and> i \<le> l - 1) \<longleftrightarrow>
          (f \<le> i \<and> i < f + Suc k \<or> l < i + Suc k \<and> i \<le> l)"
        using 3 fl by linarith
      have "bs' ! i = (if f \<le> i \<and> i < f + Suc k \<or> l < i + Suc k \<and> i \<le> l then ?bs ! (f + l - i) else ?bs ! i)"
        using spec [OF bs'(3), of i] unfolding cond eq .
      moreover have "?bs ! i = bs ! i" using nth [of i] 3 by simp
      moreover have "?bs ! (f + l - i) = bs ! (f + l - i)" if "f \<le> i" "i \<le> l"
        using nth [of "f + l - i"] 3 that by auto
      moreover have "f \<le> i" "i \<le> l" if "f \<le> i \<and> i < f + Suc k \<or> l < i + Suc k \<and> i \<le> l"
        using that Suc.prems by auto
      ultimately show ?thesis by (simp split: if_split) blast
    qed
  qed
  then show ?case using bs'(1,2) fl by auto
qed

text \<open>The position that the element at \<^term>\<open>i\<close> comes from.\<close>

definition mirror :: "nat \<Rightarrow> nat \<Rightarrow> nat \<Rightarrow> nat \<Rightarrow> nat \<Rightarrow> nat" where
  "mirror s m n p i =
     (if p \<le> i \<and> (i - p) div s < n \<and> (i - p) mod s < m
      then i - (i - p) mod s + (m - 1 - (i - p) mod s) else i)"

lemma mirror_Suc:
  assumes "0 < m" and "m \<le> s"
  shows "mirror s m (Suc n) p i = (if p \<le> i \<and> i < p + m then 2 * p + (m - 1) - i else mirror s m n (p + s) i)"
proof -
  consider "i < p" | "p \<le> i" "i < p + s" | "p + s \<le> i" by linarith
  then show ?thesis
  proof cases
    case 2
    then have "i - p < s" by simp
    then show ?thesis using 2 assms by (auto simp: mirror_def)
  next
    case 3
    then obtain t where t: "i = p + s + t" by (metis le_Suc_ex)
    have "i - p = t + s" "i - (p + s) = t" "\<not> i < p + m" "p \<le> i" using t assms by simp_all
    moreover have "0 < s" using assms by simp
    then have "(t + s) div s = Suc (t div s)" "(t + s) mod s = t mod s"
      using div_add_self2 [of s t] by simp_all
    ultimately show ?thesis using 3 by (simp add: mirror_def)
  qed (simp add: mirror_def)
qed

lemma mirror_ge: "p \<le> i \<Longrightarrow> p \<le> mirror s m n p i"
proof -
  assume "p \<le> i"
  moreover have "(i - p) mod s \<le> i - p" by (rule mod_less_eq_dividend)
  ultimately have "p \<le> i - (i - p) mod s" by linarith
  also have "\<dots> \<le> i - (i - p) mod s + (m - 1 - (i - p) mod s)" by simp
  finally have le: "p \<le> i - (i - p) mod s + (m - 1 - (i - p) mod s)" .
  show ?thesis
    using le \<open>p \<le> i\<close> unfolding mirror_def
    by (cases "p \<le> i \<and> (i - p) div s < n \<and> (i - p) mod s < m") (simp_all only: if_True if_False simp_thms)
qed

lemma mirror_involutive:
  assumes "m \<le> s" and "0 < s"
  shows "mirror s m n p (mirror s m n p i) = i"
proof (cases "p \<le> i \<and> (i - p) div s < n \<and> (i - p) mod s < m")
  case True
  define q r where "q = (i - p) div s" and "r = (i - p) mod s"
  have i: "i = p + q * s + r" using True by (simp add: q_def r_def)
  have r: "r < m" using True by (simp add: r_def)
  define t where "t = m - 1 - r"
  have t: "t < m" "t < s" "m - 1 - t = r" using r assms by (simp_all add: t_def)
  have "mirror s m n p i = i - r + t" using True by (simp add: mirror_def t_def r_def)
  also have "i - r = p + q * s" using i by simp
  finally have M: "mirror s m n p i = p + q * s + t" .
  have dm: "(p + q * s + t - p) div s = q" "(p + q * s + t - p) mod s = t" using t assms by simp_all
  have "q < n" using True by (simp add: q_def)
  then have c: "p \<le> p + q * s + t \<and> q < n \<and> t < m" using t(1) by simp
  have "mirror s m n p (p + q * s + t) = p + q * s + t - t + (m - 1 - t)"
    unfolding mirror_def dm using c by (rule if_P)
  also have "\<dots> = i" using i t(3) by simp
  finally show ?thesis unfolding M .
next
  case False
  then have "mirror s m n p i = i" unfolding mirror_def by (rule if_not_P)
  then show ?thesis by (simp only:)
qed

lemma reverse_stride_loop_ok:
  assumes m: "0 < m" "m \<le> s" "m div 2 < 2 ^ 32"
  shows "n = 0 \<or> p + (n - 1) * s + m \<le> length bs \<Longrightarrow>
    \<exists>bs'. reverse_stride_loop s m n p bs = Some bs' \<and> length bs' = length bs \<and>
      (\<forall>i. bs' ! i = bs ! mirror s m n p i)"
proof (induction n arbitrary: p bs)
  case 0
  then show ?case by (simp add: mirror_def)
next
  case (Suc n)
  have pre: "p + 2 * (m div 2) \<le> p + (m - 1) + 1" "p + (m - 1) < length bs" using m Suc.prems by auto
  obtain bs1 where bs1: "reverse_steps (m div 2) p (p + (m - 1)) bs = Some bs1" "length bs1 = length bs"
    "\<forall>i. bs1 ! i = (if p \<le> i \<and> i < p + m div 2 \<or> p + (m - 1) < i + m div 2 \<and> i \<le> p + (m - 1)
       then bs ! (p + (p + (m - 1)) - i) else bs ! i)"
    using reverse_steps_ok [OF pre] by blast
  have one: "bs1 ! i = bs ! (if p \<le> i \<and> i < p + m then 2 * p + (m - 1) - i else i)" for i
  proof (cases "p \<le> i \<and> i < p + m")
    case True
    show ?thesis
    proof (cases "i < p + m div 2 \<or> p + (m - 1) < i + m div 2")
      case False
      then have "2 * i = 2 * p + (m - 1)" using True by linarith
      then have "2 * p + (m - 1) - i = i" by simp
      then show ?thesis using False True bs1(3) by simp
    next
      case 2: True
      have "p + (p + (m - 1)) - i = 2 * p + (m - 1) - i" by simp
      moreover have "p \<le> i \<and> i < p + m div 2 \<or> p + (m - 1) < i + m div 2 \<and> i \<le> p + (m - 1)"
        using 2 True by linarith
      ultimately show ?thesis using True bs1(3) by simp
    qed
  next
    case False
    then show ?thesis using bs1(3) m(1) by auto
  qed
  have "n = 0 \<or> p + s + (n - 1) * s + m \<le> length bs1" using Suc.prems bs1(2) by (cases n) auto
  then obtain bs' where bs': "reverse_stride_loop s m n (p + s) bs1 = Some bs'" "length bs' = length bs1"
    "\<forall>i. bs' ! i = bs1 ! mirror s m n (p + s) i"
    using Suc.IH by blast
  have "bs' ! i = bs ! mirror s m (Suc n) p i" for i
  proof -
    let ?M = "mirror s m n (p + s) i"
    have out: "\<not> (p \<le> ?M \<and> ?M < p + m)" if "\<not> (p \<le> i \<and> i < p + m)"
    proof (cases "p + s \<le> i")
      case True
      then have "p + s \<le> ?M" by (rule mirror_ge)
      then show ?thesis using m(2) by linarith
    next
      case False
      then have "?M = i" by (simp add: mirror_def)
      then show ?thesis using that by simp
    qed
    have "mirror s m n (p + s) i = i" if "p \<le> i" "i < p + m" using that m by (simp add: mirror_def)
    then show ?thesis
      using out spec [OF bs'(3), of i] one [of ?M] mirror_Suc [OF m(1,2), of n p i]
      by (cases "p \<le> i \<and> i < p + m") (simp_all only: if_True if_False simp_thms)
  qed
  then show ?case using bs1(1,2) bs'(1,2) m(3) by (simp add: u32_of_id)
qed

section \<open>Copies with strides\<close>

lemma copy_stride_loop_ok:
  "(k = 0 \<or> sp + (k - 1) * ss + m \<le> length src) \<Longrightarrow> (k = 0 \<or> dp + (k - 1) * ds + m \<le> length dest) \<Longrightarrow> m \<le> ds \<Longrightarrow>
   \<exists>dest'. copy_stride_loop ss ds m k sp dp src dest = Some dest' \<and> length dest' = length dest \<and>
     take dp dest' = take dp dest \<and>
     (\<forall>e < k. take m (drop (dp + e * ds) dest') = take m (drop (sp + e * ss) src))"
proof (induction k arbitrary: sp dp dest)
  case 0
  then show ?case by simp
next
  case (Suc k)
  let ?xs = "take m (drop sp src)"
  let ?dest = "take dp dest @ ?xs @ drop (dp + m) dest"
  have room: "sp + m \<le> length src" "dp + m \<le> length dest"
    using Suc.prems(1,2) by simp_all
  have xs: "length ?xs = m" using room by simp
  have rd: "read_range src sp m = Some ?xs" using room by (simp add: read_range_def)
  have wr: "write_range dest dp ?xs = Some ?dest" using room xs by (simp add: write_range_def)
  have len: "length ?dest = length dest" using room xs by simp
  have c1: "k = 0 \<or> sp + ss + (k - 1) * ss + m \<le> length src" using Suc.prems(1) by (cases k) auto
  have c2: "k = 0 \<or> dp + ds + (k - 1) * ds + m \<le> length ?dest" using Suc.prems(2) unfolding len by (cases k) auto
  obtain dest' where d: "copy_stride_loop ss ds m k (sp + ss) (dp + ds) src ?dest = Some dest'"
    "length dest' = length ?dest" "take (dp + ds) dest' = take (dp + ds) ?dest"
    "\<forall>e < k. take m (drop (dp + ds + e * ds) dest') = take m (drop (sp + ss + e * ss) src)"
    using Suc.IH [OF c1 c2 Suc.prems(3)] by blast
  have step: "copy_stride_loop ss ds m (Suc k) sp dp src dest = Some dest'" using rd wr d(1) by simp
  have keep: "take dp dest' = take dp dest"
  proof -
    have "take dp dest' = take dp (take (dp + ds) dest')" by simp
    also have "\<dots> = take dp dest" unfolding d(3) using room by simp
    finally show ?thesis .
  qed
  have zero: "take m (drop dp dest') = ?xs"
  proof -
    have "take m (drop dp dest') = take m (drop dp (take (dp + ds) dest'))"
      using Suc.prems(3) by (simp add: drop_take min_def)
    also have "\<dots> = ?xs" unfolding d(3) using room xs Suc.prems(3) by (simp add: drop_take min_def)
    finally show ?thesis .
  qed
  have "take m (drop (dp + e * ds) dest') = take m (drop (sp + e * ss) src)" if "e < Suc k" for e
    using zero d(4) that by (cases e) (simp_all add: add.assoc)
  then show ?case using step keep d(2) len by auto
qed

lemma vlMemCopyStride_ok:
  assumes "n = 0 \<or> (n - 1) * ss + m \<le> length src" and "n = 0 \<or> (n - 1) * ds + m \<le> length dest"
    and "m \<le> ds"  and "0 < ds"
  shows "\<exists>dest'. vlMemCopyStride src ss dest ds m n = Some dest' \<and> length dest' = length dest \<and>
    (\<forall>e < n. take m (drop (e * ds) dest') = take m (drop (e * ss) src))"
  using copy_stride_loop_ok [of n 0 ss m src 0 ds dest] assms by (auto simp: vlMemCopyStride_def)

section \<open>Properties\<close>

lemma reverse_one: "n \<le> 1 \<Longrightarrow> reverse_stride_loop s m n p bs = reverse_stride_loop s' m n p bs"
  by (cases n) auto

lemma mem_reverse_packed:
  assumes "0 < m" "m \<le> s" "m < 2 ^ 32" and "n = 0 \<or> (n - 1) * s + m \<le> length bs"
  shows "\<exists>bs'. reverse_stride_loop s m n 0 bs = Some bs' \<and> length bs' = length bs \<and>
    (\<forall>e < n. take m (drop (e * s) bs') = rev (take m (drop (e * s) bs))) \<and>
    reverse_stride_loop s m n 0 bs' = Some bs"
proof -
  have half: "m div 2 < 2 ^ 32" using assms(3) by simp
  have pre: "n = 0 \<or> 0 + (n - 1) * s + m \<le> length bs" using assms(4) by simp
  obtain bs' where bs': "reverse_stride_loop s m n 0 bs = Some bs'" "length bs' = length bs"
    "\<forall>i. bs' ! i = bs ! mirror s m n 0 i"
    using reverse_stride_loop_ok [OF assms(1,2) half pre] by blast
  have pre': "n = 0 \<or> 0 + (n - 1) * s + m \<le> length bs'" using assms(4) bs'(2) by simp
  obtain bs2 where bs2: "reverse_stride_loop s m n 0 bs' = Some bs2" "length bs2 = length bs'"
    "\<forall>i. bs2 ! i = bs' ! mirror s m n 0 i"
    using reverse_stride_loop_ok [OF assms(1,2) half pre'] by blast
  have "0 < s" using assms by simp
  then have "bs2 ! i = bs ! i" for i using bs'(3) bs2(3) mirror_involutive [OF assms(2)] by metis
  then have twice: "bs2 = bs" using bs'(2) bs2(2) by (intro nth_equalityI) simp_all
  have "take m (drop (e * s) bs') = rev (take m (drop (e * s) bs))" if e: "e < n" for e
  proof (rule nth_equalityI)
    have "e * s \<le> (n - 1) * s" using e by (intro mult_le_mono1) simp
    then have room: "e * s + m \<le> length bs" using assms(4) e by linarith
    then show "length (take m (drop (e * s) bs')) = length (rev (take m (drop (e * s) bs)))"
      using bs'(2) by simp
    fix k
    assume "k < length (take m (drop (e * s) bs'))"
    then have k: "k < m" by simp
    then have "k < s" using assms(2) by simp
    then have dm: "(e * s + k - 0) div s = e" "(e * s + k - 0) mod s = k" by simp_all
    have "mirror s m n 0 (e * s + k) = e * s + k - k + (m - 1 - k)"
      unfolding mirror_def dm using e k by (intro if_P) simp
    also have "\<dots> = e * s + (m - 1 - k)" by simp
    finally have "bs' ! (e * s + k) = bs ! (e * s + (m - 1 - k))" using bs'(3) by simp
    then show "take m (drop (e * s) bs') ! k = rev (take m (drop (e * s) bs)) ! k"
      using k room bs'(2) by (simp add: rev_nth)
  qed
  then show ?thesis using bs'(1,2) bs2(1) twice by blast
qed

text \<open>
  \<^verbatim>\<open>vlMemReverseSubArraysStride\<close> reverses the bytes of each of the elements, in place and
  inside the array; a second call gives the array back.
\<close>

theorem mem_reverse_roundtrip:
  assumes "0 < m" and "m \<le> s \<or> n \<le> 1" and "m < 2 ^ 32" and "n = 0 \<or> (n - 1) * s + m \<le> length bs"
  shows "\<exists>bs'. vlMemReverseSubArraysStride bs s m n = Some bs' \<and> length bs' = length bs \<and>
    (\<forall>e < n. take m (drop (e * s) bs') = rev (take m (drop (e * s) bs))) \<and>
    vlMemReverseSubArraysStride bs' s m n = Some bs"
proof (cases "m \<le> s")
  case True
  then show ?thesis
    using mem_reverse_packed [OF assms(1) True assms(3,4)] by (simp add: vlMemReverseSubArraysStride_def)
next
  case False
  then have n: "n \<le> 1" using assms(2) by simp
  then have "n = 0 \<or> (n - 1) * m + m \<le> length bs" using assms(4) by auto
  then obtain bs' where bs': "reverse_stride_loop m m n 0 bs = Some bs'" "length bs' = length bs"
    "\<forall>e < n. take m (drop (e * m) bs') = rev (take m (drop (e * m) bs))"
    "reverse_stride_loop m m n 0 bs' = Some bs"
    using mem_reverse_packed [OF assms(1) order_refl assms(3), of n bs] by blast
  have "take m (drop (e * s) bs') = rev (take m (drop (e * s) bs))" if "e < n" for e
  proof -
    have "e = 0" using that n by simp
    then show ?thesis using bs'(3) that by auto
  qed
  then show ?thesis
    using bs'(1,2,4) unfolding vlMemReverseSubArraysStride_def reverse_one [OF n, of s m 0 _ m] by blast
qed

theorem mem_reverse_roundtrip_witness:
  "\<exists>bs'. vlMemReverseSubArraysStride [Some 1, Some 2, Some 3, Some 4] 2 2 2 = Some bs' \<and>
     vlMemReverseSubArraysStride bs' 2 2 2 = Some [Some 1, Some 2, Some 3, Some 4]"
  using mem_reverse_roundtrip [of 2 2 2 "[Some 1, Some 2, Some 3, Some 4]"] by auto

end
