(* ===== verification/VL_Buffer.thy ===== *)
theory VL_Buffer
  imports VL_Memory
begin

text \<open>
  \<^verbatim>\<open>src/core/vl_buffer.c\<close>: a growing buffer of bytes on an allocation of \<^verbatim>\<open>vl_memory\<close>, with an
  offset at which it is read and written and the size of what was written so far.
\<close>

record vl_buffer =
  buf_data :: "vl_memory option"
  buf_size :: nat
  buf_offset :: nat

section \<open>Access through the data pointer\<close>

definition mem_read :: "vl_memory option \<Rightarrow> nat \<Rightarrow> nat \<Rightarrow> byte list option" where
  "mem_read mem off n = do { m \<leftarrow> mem; read_range (mem_bytes m) (mem_user m + off) n }"

definition mem_write :: "vl_memory option \<Rightarrow> nat \<Rightarrow> byte list \<Rightarrow> vl_memory option" where
  "mem_write mem off xs =
     do { m \<leftarrow> mem; bs \<leftarrow> write_range (mem_bytes m) (mem_user m + off) xs; Some (m\<lparr>mem_bytes := bs\<rparr>) }"

text \<open>Numbers are stored with the least significant byte first.\<close>

primrec nat_bytes :: "nat \<Rightarrow> nat \<Rightarrow> byte list" where
  "nat_bytes 0 n = []"
| "nat_bytes (Suc k) n = Some (of_nat n) # nat_bytes k (n div 256)"

fun bytes_nat :: "byte list \<Rightarrow> nat option" where
  "bytes_nat [] = Some 0"
| "bytes_nat (b # bs) = do { w \<leftarrow> b; n \<leftarrow> bytes_nat bs; Some (unat w + 256 * n) }"

section \<open>Operations\<close>

definition VL_DEFAULT_MEMORY_SIZE :: nat where
  "VL_DEFAULT_MEMORY_SIZE = 1024"

definition vlBufferInitExt :: "allocator \<Rightarrow> nat \<Rightarrow> nat \<Rightarrow> vl_buffer option" where
  "vlBufferInitExt al initialSize align =
     do {
       dat \<leftarrow> vlMemAllocAligned al initialSize align;
       Some \<lparr>buf_data = dat, buf_size = 0, buf_offset = 0\<rparr>
     }"

definition vlBufferInit :: "allocator \<Rightarrow> vl_buffer option" where
  "vlBufferInit al = vlBufferInitExt al VL_DEFAULT_MEMORY_SIZE VL_DEFAULT_ALIGN"

text \<open>\<^verbatim>\<open>sizeof(vl_buffer)\<close> is 24.\<close>

definition vlBufferNewExt :: "allocator \<Rightarrow> nat \<Rightarrow> nat \<Rightarrow> vl_buffer option option" where
  "vlBufferNewExt al initialSize align =
     (case malloc_at al 24 of
        None \<Rightarrow> Some None
      | Some _ \<Rightarrow> do { buffer \<leftarrow> vlBufferInitExt al initialSize align; Some (Some buffer) })"

definition vlBufferNew :: "allocator \<Rightarrow> vl_buffer option option" where
  "vlBufferNew al = vlBufferNewExt al VL_DEFAULT_MEMORY_SIZE VL_DEFAULT_ALIGN"

definition vlBufferReset :: "allocator \<Rightarrow> vl_buffer \<Rightarrow> nat \<Rightarrow> vl_buffer option" where
  "vlBufferReset al buffer newCapacity =
     do {
       dat \<leftarrow> vlMemRealloc al (buf_data buffer) newCapacity;
       Some \<lparr>buf_data = dat, buf_size = 0, buf_offset = 0\<rparr>
     }"

definition vlBufferClear :: "vl_buffer \<Rightarrow> vl_buffer option" where
  "vlBufferClear buffer =
     do {
       dat \<leftarrow> mem_write (buf_data buffer) 0 (replicate (vlMemSize (buf_data buffer)) (Some 0));
       Some \<lparr>buf_data = Some dat, buf_size = 0, buf_offset = 0\<rparr>
     }"

definition vlBufferShrinkToFit :: "allocator \<Rightarrow> vl_buffer \<Rightarrow> vl_buffer option" where
  "vlBufferShrinkToFit al buffer =
     (if buf_size buffer > 0 then do {
        dat \<leftarrow> vlMemRealloc al (buf_data buffer) (buf_size buffer);
        Some (buffer\<lparr>buf_data := dat\<rparr>)
      } else Some buffer)"

text \<open>The destination of \<^verbatim>\<open>vlBufferClone\<close>, \<^const>\<open>None\<close> for \<^verbatim>\<open>NULL\<close>; a new one is used unchecked.\<close>

definition vlBufferClone :: "allocator \<Rightarrow> vl_buffer \<Rightarrow> vl_buffer option \<Rightarrow> vl_buffer option" where
  "vlBufferClone al src dest =
     do {
       let n = vlMemSize (buf_data src);
       dest \<leftarrow>
         (case dest of
            None \<Rightarrow> do {
              b \<leftarrow> vlBufferNewExt al n (u16_of (vlMemAlignment (buf_data src)));
              b
            }
          | Some d \<Rightarrow>
              if vlMemAlignment (buf_data d) \<noteq> vlMemAlignment (buf_data src) then do {
                _ \<leftarrow> vlMemFree (buf_data d);
                dat \<leftarrow> vlMemAllocAligned al n (vlMemAlignment (buf_data src));
                Some (d\<lparr>buf_data := dat\<rparr>)
              }
              else if n \<noteq> vlMemSize (buf_data d) then do {
                dat \<leftarrow> vlMemRealloc al (buf_data d) n;
                Some (d\<lparr>buf_data := dat\<rparr>)
              }
              else Some d);
       xs \<leftarrow> mem_read (buf_data src) 0 n;
       dat \<leftarrow> mem_write (buf_data dest) 0 xs;
       Some (dest\<lparr>buf_data := Some dat, buf_offset := buf_offset src, buf_size := buf_size src\<rparr>)
     }"

text \<open>The loop that doubles the capacity: it does not end for an empty allocation.\<close>

partial_function (option) grow_size :: "nat \<Rightarrow> nat \<Rightarrow> nat option" where
  [code]: "grow_size newSize needed =
     (if newSize \<le> needed then grow_size (u64_of (newSize * 2)) needed else Some newSize)"

text \<open>
  \<^verbatim>\<open>vlBufferWrite\<close> returns the offset it wrote at. The source is \<^const>\<open>None\<close> for \<^verbatim>\<open>NULL\<close>: then
  only the offset moves.
\<close>

definition vlBufferWrite :: "allocator \<Rightarrow> vl_buffer \<Rightarrow> nat \<Rightarrow> byte list option \<Rightarrow> (nat \<times> vl_buffer) option" where
  "vlBufferWrite al buffer n src =
     do {
       let initSize = vlMemSize (buf_data buffer);
       newSize \<leftarrow> grow_size initSize (u64_of (n + buf_offset buffer));
       dat \<leftarrow> (if newSize > initSize then vlMemRealloc al (buf_data buffer) newSize else Some (buf_data buffer));
       dat \<leftarrow>
         (case src of
            None \<Rightarrow> Some dat
          | Some bs \<Rightarrow> do { xs \<leftarrow> read_range bs 0 n; m \<leftarrow> mem_write dat (buf_offset buffer) xs; Some (Some m) });
       let off = u64_of (buf_offset buffer + n);
       Some (buf_offset buffer,
         \<lparr>buf_data = dat, buf_size = (if off > buf_size buffer then off else buf_size buffer), buf_offset = off\<rparr>)
     }"

text \<open>
  What is left in the source is not what \<^verbatim>\<open>vlBufferCopy\<close> copies if the length is too large: it
  is the excess.
\<close>

definition vlBufferCopy :: "allocator \<Rightarrow> vl_buffer \<Rightarrow> vl_buffer \<Rightarrow> nat \<Rightarrow> (nat \<times> vl_buffer \<times> vl_buffer) option" where
  "vlBufferCopy al src dest len =
     do {
       let ending = u64_of (buf_offset src + len);
       let len = (if ending > buf_size src then ending - buf_size src else len);
       xs \<leftarrow> mem_read (buf_data src) (buf_offset src) len;
       (_, dest) \<leftarrow> vlBufferWrite al dest len (Some xs);
       Some (len, src\<lparr>buf_offset := u64_of (buf_offset src + len)\<rparr>, dest)
     }"

text \<open>
  \<^verbatim>\<open>vlBufferRead\<close> copies as many bytes as it was asked for, also when fewer are left; its result
  is the number that was left. The bytes are those the destination gets.
\<close>

definition vlBufferRead :: "vl_buffer \<Rightarrow> nat \<Rightarrow> (nat \<times> byte list \<times> vl_buffer) option" where
  "vlBufferRead buffer n =
     do {
       let actualRead =
         (if u64_of (buf_offset buffer + n) > buf_size buffer
          then u64_of (buf_size buffer + (2 ^ 64 - buf_offset buffer)) else n);
       xs \<leftarrow> (if actualRead > 0 then mem_read (buf_data buffer) (buf_offset buffer) n else Some []);
       Some (actualRead, xs, buffer\<lparr>buf_offset := u64_of (buf_offset buffer + actualRead)\<rparr>)
     }"

definition vlBufferFree :: "vl_buffer \<Rightarrow> unit option" where
  "vlBufferFree buffer = vlMemFree (buf_data buffer)"

definition vlBufferDelete :: "vl_buffer \<Rightarrow> unit option" where
  "vlBufferDelete buffer = vlMemFree (buf_data buffer)"

definition vlBufferSeek :: "vl_buffer \<Rightarrow> nat \<Rightarrow> vl_buffer" where
  "vlBufferSeek buffer off = buffer\<lparr>buf_offset := off\<rparr>"

definition vlBufferSeekRelative :: "vl_buffer \<Rightarrow> int \<Rightarrow> vl_buffer" where
  "vlBufferSeekRelative buffer off = buffer\<lparr>buf_offset := nat ((int (buf_offset buffer) + off) mod 2 ^ 64)\<rparr>"

definition vlBufferSeekBegin :: "vl_buffer \<Rightarrow> vl_buffer" where
  "vlBufferSeekBegin buffer = buffer\<lparr>buf_offset := 0\<rparr>"

definition vlBufferSeekEnd :: "vl_buffer \<Rightarrow> vl_buffer" where
  "vlBufferSeekEnd buffer = buffer\<lparr>buf_offset := buf_size buffer\<rparr>"

end
