(* ===== verification/VL_Stack.thy ===== *)
theory VL_Stack
  imports VL_Buffer
begin

text \<open>
  \<^verbatim>\<open>src/core/vl_stack.c\<close>: a stack of elements of any size in one buffer. In front of each element
  lies a header with its size and the offset of the header below.
\<close>

section \<open>Headers in memory\<close>

record vl_stack_header =
  sh_size :: nat
  sh_previousOffset :: nat

definition STACK_HEADER_SIZE :: nat where
  "STACK_HEADER_SIZE = 16"

definition stack_header_bytes :: "vl_stack_header \<Rightarrow> byte list" where
  "stack_header_bytes h = nat_bytes 8 (sh_size h) @ nat_bytes 8 (sh_previousOffset h)"

definition read_stack_header :: "vl_memory option \<Rightarrow> nat \<Rightarrow> vl_stack_header option" where
  "read_stack_header dat off =
     do {
       xs \<leftarrow> mem_read dat off STACK_HEADER_SIZE;
       n \<leftarrow> bytes_nat (take 8 xs);
       p \<leftarrow> bytes_nat (drop 8 xs);
       Some \<lparr>sh_size = n, sh_previousOffset = p\<rparr>
     }"

section \<open>Operations\<close>

record vl_stack =
  st_depth :: nat
  st_headOffset :: nat
  st_buffer :: vl_buffer

definition vlStackInit :: "allocator \<Rightarrow> vl_stack option" where
  "vlStackInit al =
     do {
       buffer \<leftarrow> vlBufferInit al;
       dat \<leftarrow> mem_write (buf_data buffer) 0 (stack_header_bytes \<lparr>sh_size = 0, sh_previousOffset = 0\<rparr>);
       Some \<lparr>st_depth = 0, st_headOffset = 0, st_buffer = buffer\<lparr>buf_data := Some dat\<rparr>\<rparr>
     }"

definition vlStackFree :: "vl_stack \<Rightarrow> unit option" where
  "vlStackFree stack = vlBufferFree (st_buffer stack)"

text \<open>\<^verbatim>\<open>sizeof(vl_stack)\<close> is 40; the result of \<^verbatim>\<open>malloc\<close> is used unchecked.\<close>

definition vlStackNew :: "allocator \<Rightarrow> vl_stack option" where
  "vlStackNew al = do { _ \<leftarrow> malloc_at al 40; vlStackInit al }"

definition vlStackDelete :: "vl_stack \<Rightarrow> unit option" where
  "vlStackDelete stack = vlBufferFree (st_buffer stack)"

definition vlStackReset :: "vl_stack \<Rightarrow> vl_stack" where
  "vlStackReset stack =
     stack\<lparr>st_depth := 0, st_headOffset := 0, st_buffer := (st_buffer stack)\<lparr>buf_offset := 0\<rparr>\<rparr>"

definition vlStackPush :: "allocator \<Rightarrow> vl_stack \<Rightarrow> nat \<Rightarrow> (nat \<times> vl_stack) option" where
  "vlStackPush al stack n =
     do {
       let alignedSize = padUp (u64_of (n + STACK_HEADER_SIZE)) VL_DEFAULT_ALIGN;
       (hd_off, buffer) \<leftarrow> vlBufferWrite al (st_buffer stack) alignedSize None;
       dat \<leftarrow> mem_write (buf_data buffer) hd_off
         (stack_header_bytes \<lparr>sh_size = n, sh_previousOffset = st_headOffset stack\<rparr>);
       Some (hd_off + STACK_HEADER_SIZE,
         \<lparr>st_depth = inc32 (st_depth stack), st_headOffset = hd_off,
           st_buffer = buffer\<lparr>buf_data := Some dat\<rparr>\<rparr>)
     }"

definition vlStackPushValue :: "allocator \<Rightarrow> vl_stack \<Rightarrow> byte list \<Rightarrow> nat \<Rightarrow> (nat \<times> vl_stack) option" where
  "vlStackPushValue al stack dat n =
     do {
       (off, stack) \<leftarrow> vlStackPush al stack n;
       xs \<leftarrow> read_range dat 0 n;
       dat \<leftarrow> mem_write (buf_data (st_buffer stack)) off xs;
       Some (off, stack\<lparr>st_buffer := (st_buffer stack)\<lparr>buf_data := Some dat\<rparr>\<rparr>)
     }"

text \<open>The bytes at a pointer that \<^verbatim>\<open>vlStackSample\<close> returns, and the size of the element there.\<close>

definition vlStackSample :: "vl_stack \<Rightarrow> nat \<Rightarrow> nat \<Rightarrow> byte list option" where
  "vlStackSample stack off n = mem_read (buf_data (st_buffer stack)) off n"

definition vlStackSampleSize :: "vl_stack \<Rightarrow> nat \<Rightarrow> nat option" where
  "vlStackSampleSize stack off =
     (if off < STACK_HEADER_SIZE then None
      else map_option sh_size (read_stack_header (buf_data (st_buffer stack)) (off - STACK_HEADER_SIZE)))"

definition vlStackPeek :: "vl_stack \<Rightarrow> nat" where
  "vlStackPeek stack = st_headOffset stack + STACK_HEADER_SIZE"

definition vlStackPeekSize :: "vl_stack \<Rightarrow> nat option" where
  "vlStackPeekSize stack = map_option sh_size (read_stack_header (buf_data (st_buffer stack)) (st_headOffset stack))"

definition vlStackSize :: "vl_stack \<Rightarrow> nat" where
  "vlStackSize stack = st_depth stack"

definition vlStackEmpty :: "vl_stack \<Rightarrow> bool" where
  "vlStackEmpty stack \<longleftrightarrow> st_depth stack = 0"

definition vlStackPop :: "vl_stack \<Rightarrow> vl_stack option" where
  "vlStackPop stack =
     (if st_depth stack \<le> 0 then Some stack
      else do {
        header \<leftarrow> read_stack_header (buf_data (st_buffer stack)) (st_headOffset stack);
        Some \<lparr>st_depth = dec32 (st_depth stack), st_headOffset = sh_previousOffset header,
          st_buffer = (st_buffer stack)\<lparr>buf_offset := st_headOffset stack\<rparr>\<rparr>
      })"

end
