(* ===== verification/VL_MemorySpec.thy ===== *)
theory VL_MemorySpec
  imports VL_Memory
begin

text \<open>
  What the allocations of \<^verbatim>\<open>vl_memory.c\<close> promise: the pointer is aligned, its bytes and its
  header lie in the block, the header leads back to the origin of the block, and a reallocation
  keeps the contents. The C allocator is relied on for what its documentation says.
\<close>

section \<open>Ranges\<close>

lemma read_range_Some:
  "off + n \<le> length bs \<Longrightarrow> read_range bs off n = Some (take n (drop off bs))"
  by (simp add: read_range_def)

lemma write_range_Some:
  "off + length xs \<le> length bs \<Longrightarrow>
   write_range bs off xs = Some (take off bs @ xs @ drop (off + length xs) bs)"
  by (simp add: write_range_def)

lemma length_write_range: "write_range bs off xs = Some bs' \<Longrightarrow> length bs' = length bs"
  by (auto simp: write_range_def split: if_splits)

lemma length_grow_to [simp]: "length (grow_to n bs) = n"
  by (simp add: grow_to_def)

lemma take_grow_to: "k \<le> n \<Longrightarrow> k \<le> length bs \<Longrightarrow> take k (grow_to n bs) = take k bs"
  by (simp add: grow_to_def min_def)

section \<open>The C allocator\<close>

text \<open>
  \<^verbatim>\<open>malloc\<close> and \<^verbatim>\<open>realloc\<close> return memory aligned for every basic type, and a block ends below
  the top of the address space.
\<close>

definition allocator_ok :: "allocator \<Rightarrow> bool" where
  "allocator_ok al \<longleftrightarrow>
     (\<forall>n a. malloc_at al n = Some a \<longrightarrow> 8 dvd a \<and> a + n < 2 ^ 64) \<and>
     (\<forall>p n a. realloc_at al p n = Some a \<longrightarrow> 8 dvd a \<and> a + n < 2 ^ 64)"

lemma allocator_okD:
  assumes "allocator_ok al"
  shows "malloc_at al n = Some a \<Longrightarrow> 8 dvd a \<and> a + n < 2 ^ 64"
    and "realloc_at al p n = Some a \<Longrightarrow> 8 dvd a \<and> a + n < 2 ^ 64"
  using assms unfolding allocator_ok_def by blast+

section \<open>The invariant of an allocation\<close>

text \<open>
  An allocation without alignment has the header at its start; an aligned one somewhere in the
  slack of \<^verbatim>\<open>align\<close> bytes.
\<close>

definition mem_inv :: "vl_memory \<Rightarrow> bool" where
  "mem_inv m \<longleftrightarrow>
     (let h = mem_header m
      in mem_user m = mh_headOffset h + MEMORY_HEADER_SIZE \<and>
         mh_alignment h dvd mem_address m \<and>
         (if mh_alignment h \<le> VL_DEFAULT_ALIGN
          then mh_alignment h = VL_DEFAULT_ALIGN \<and> mh_headOffset h = 0 \<and>
            length (mem_bytes m) = mh_length h + MEMORY_HEADER_SIZE
          else mh_headOffset h \<le> mh_alignment h \<and> mh_alignment h < 2 ^ 32 \<and>
            length (mem_bytes m) = mh_length h + mh_alignment h + MEMORY_HEADER_SIZE) \<and>
         mem_origin m + length (mem_bytes m) < 2 ^ 64)"

lemmas mem_defs = MEMORY_HEADER_SIZE_def VL_DEFAULT_ALIGN_def mem_address_def

lemma mem_inv_bounds:
  assumes "mem_inv m"
  shows "MEMORY_HEADER_SIZE \<le> mem_user m" and "mem_user m + mh_length (mem_header m) \<le> length (mem_bytes m)"
  using assms by (auto simp: mem_inv_def Let_def mem_defs split: if_splits)

lemma mem_inv_free: "mem_inv m \<Longrightarrow> vlMemFree (Some m) = Some ()"
  by (simp add: vlMemFree_def VL_MEMORY_ORIGIN_INLINE_def VL_MEMORY_HEADER_INLINE_def mem_inv_def Let_def mem_defs)

lemma mem_inv_data: "mem_inv m \<Longrightarrow> length (mem_data m) = mh_length (mem_header m)"
  using mem_inv_bounds [of m] by (simp add: mem_data_def)

lemma aligned_user:
  assumes "0 < align" and "origin + align + MEMORY_HEADER_SIZE < 2 ^ 64"
  shows "align dvd aligned_user origin align" and "origin + MEMORY_HEADER_SIZE < aligned_user origin align"
    and "aligned_user origin align \<le> origin + align + MEMORY_HEADER_SIZE"
proof -
  let ?u = "origin + align + MEMORY_HEADER_SIZE"
  have eq: "aligned_user origin align = ?u - ?u mod align"
    using assms(2) by (simp only: aligned_user_def u64_of_id Let_def)
  show "align dvd aligned_user origin align" unfolding eq by (rule dvd_minus_mod)
  have "?u mod align < align" using assms(1) by (rule mod_less_divisor)
  then show "origin + MEMORY_HEADER_SIZE < aligned_user origin align" unfolding eq by linarith
  show "aligned_user origin align \<le> ?u" unfolding eq by simp
qed

lemma offset_ex:
  "a + 16 < (u :: nat) \<Longrightarrow> u \<le> a + n + 16 \<Longrightarrow> \<exists>d. u = a + 16 + d \<and> d \<le> n"
  by (intro exI [of _ "u - (a + 16)"]) simp

lemma mem_alloc_inv:
  assumes "allocator_ok al" and "n + MEMORY_HEADER_SIZE < 2 ^ 64" and "malloc_at al (n + MEMORY_HEADER_SIZE) = Some a"
  shows "\<exists>m. vlMemAlloc al n = Some (Some m) \<and> mem_inv m \<and> mh_length (mem_header m) = n \<and>
    mh_alignment (mem_header m) = VL_DEFAULT_ALIGN"
proof -
  have a: "8 dvd a" "a + (n + MEMORY_HEADER_SIZE) < 2 ^ 64" using allocator_okD(1) [OF assms(1,3)] by simp_all
  then have "8 dvd a + 16" by simp
  then show ?thesis
    using a assms(2,3)
    by (simp add: vlMemAlloc_def u64_of_id Let_def place_header_def mem_inv_def mem_defs)
qed

lemma mem_alloc_aligned_inv:
  assumes al: "allocator_ok al" and room: "n + align + MEMORY_HEADER_SIZE < 2 ^ 64"
    and align: "VL_DEFAULT_ALIGN < align" "align < 2 ^ 32 - MEMORY_HEADER_SIZE"
    and a: "malloc_at al (n + align + MEMORY_HEADER_SIZE) = Some a"
  shows "\<exists>m. vlMemAllocAligned al n align = Some (Some m) \<and> mem_inv m \<and> mh_length (mem_header m) = n \<and>
    mh_alignment (mem_header m) = align"
proof -
  let ?u = "aligned_user a align"
  have top: "a + (n + align + MEMORY_HEADER_SIZE) < 2 ^ 64" using allocator_okD(1) [OF al a] by simp
  have pos: "0 < align" using align(1) by simp
  have u: "align dvd ?u" "a + MEMORY_HEADER_SIZE < ?u" "?u \<le> a + align + MEMORY_HEADER_SIZE"
    using aligned_user [OF pos, of a] top by simp_all
  obtain d where d: "?u = a + 16 + d" "d \<le> align"
    using u offset_ex [of a ?u align] by (auto simp: mem_defs)
  have off: "u32_of d = d" using d(2) align by (intro u32_of_id) (simp add: mem_defs)
  have "align dvd a + (16 + d)" using u(1) by (simp add: d(1) add.assoc)
  then show ?thesis
    using d(2) align top room a
    by (simp add: vlMemAllocAligned_def u64_of_id Let_def place_header_def mem_inv_def off d(1) mem_defs)
qed

section \<open>Reallocation\<close>

lemma mem_realloc_default:
  assumes al: "allocator_ok al" and inv: "mem_inv m" and "mh_alignment (mem_header m) \<le> VL_DEFAULT_ALIGN"
    and room: "n + MEMORY_HEADER_SIZE < 2 ^ 64"
    and a: "realloc_at al (mem_origin m) (n + MEMORY_HEADER_SIZE) = Some a"
  shows "\<exists>m'. vlMemRealloc al (Some m) n = Some (Some m') \<and> mem_inv m' \<and> mh_length (mem_header m') = n \<and>
    mh_alignment (mem_header m') = mh_alignment (mem_header m) \<and>
    (\<forall>k. k \<le> n \<longrightarrow> k \<le> mh_length (mem_header m) \<longrightarrow> take k (mem_data m') = take k (mem_data m))"
proof -
  let ?h = "mem_header m"
  have h: "mh_alignment ?h = 8" "mh_headOffset ?h = 0" "mem_user m = 16"
    "length (mem_bytes m) = mh_length ?h + 16"
    using inv assms(3) by (simp_all add: mem_inv_def Let_def mem_defs split: if_splits)
  have top: "8 dvd a" "a + (n + MEMORY_HEADER_SIZE) < 2 ^ 64" using allocator_okD(2) [OF al a] by simp_all
  then have a16: "8 dvd a + 16" by simp
  let ?m = "\<lparr>mem_origin = a, mem_bytes = grow_to (n + 16) (mem_bytes m), mem_user = 16,
    mem_header = ?h\<lparr>mh_length := n\<rparr>\<rparr>"
  have r: "vlMemRealloc al (Some m) n = Some (Some ?m)"
    using h a room
    by (simp add: vlMemRealloc_def u64_of_id u16_of_id Let_def mem_defs place_header_def)
  have i: "mem_inv ?m" using h top a16 by (simp add: mem_inv_def Let_def mem_defs)
  have d: "take k (mem_data ?m) = take k (mem_data m)" if "k \<le> n" "k \<le> mh_length ?h" for k
  proof -
    have "take k (mem_data ?m) = drop 16 (take (16 + k) (grow_to (n + 16) (mem_bytes m)))"
      using that by (simp add: mem_data_def drop_take min_def)
    also have "\<dots> = drop 16 (take (16 + k) (mem_bytes m))" using that h by (simp add: take_grow_to)
    also have "\<dots> = take k (mem_data m)" using that h by (simp add: mem_data_def drop_take min_def)
    finally show ?thesis .
  qed
  show ?thesis using r i d by (intro exI [of _ ?m]) simp
qed

lemma window_write:
  assumes "d \<le> length bs" and "j + k \<le> length xs"
  shows "take k (drop (d + j) (take d bs @ xs @ rest)) = take k (drop j xs)"
  using assms by (simp add: min_def)

lemma window_grow:
  assumes "j + k \<le> n" and "j + k \<le> length bs"
  shows "take k (drop j (grow_to n bs)) = take k (drop j bs)"
proof -
  have "take k (drop j (grow_to n bs)) = drop j (take (j + k) (grow_to n bs))" by (simp add: drop_take)
  also have "\<dots> = drop j (take (j + k) bs)" using assms by (simp add: take_grow_to)
  also have "\<dots> = take k (drop j bs)" by (simp add: drop_take)
  finally show ?thesis .
qed

lemma mem_realloc_aligned:
  assumes al: "allocator_ok al" and inv: "mem_inv m"
    and align: "VL_DEFAULT_ALIGN < mh_alignment (mem_header m)" "mh_alignment (mem_header m) < 2 ^ 16"
    and room: "n + mh_alignment (mem_header m) + MEMORY_HEADER_SIZE < 2 ^ 64"
    and a: "realloc_at al (mem_origin m) (n + MEMORY_HEADER_SIZE + mh_alignment (mem_header m)) = Some a"
  shows "\<exists>m'. vlMemRealloc al (Some m) n = Some (Some m') \<and> mem_inv m' \<and> mh_length (mem_header m') = n \<and>
    mh_alignment (mem_header m') = mh_alignment (mem_header m) \<and>
    (\<forall>k. k \<le> n \<longrightarrow> k \<le> mh_length (mem_header m) \<longrightarrow> take k (mem_data m') = take k (mem_data m))"
proof -
  define A H len where "A = mh_alignment (mem_header m)" and "H = mh_headOffset (mem_header m)"
    and "len = mh_length (mem_header m)"
  note names [symmetric] = this
  let ?B = "grow_to (n + 16 + A) (mem_bytes m)"
  have h: "H \<le> A" "mem_user m = H + 16" "length (mem_bytes m) = len + A + 16"
    using inv align(1) by (simp_all add: mem_inv_def Let_def mem_defs names split: if_splits)
  have A: "8 < A" "A < 2 ^ 16" using align by (simp_all add: names mem_defs)
  have top: "a + (n + 16 + A) < 2 ^ 64" using allocator_okD(2) [OF al a] by (simp add: names mem_defs)
  have "length (mem_bytes m) < 2 ^ 64" using inv by (simp add: mem_inv_def Let_def)
  then have len: "len + 16 < 2 ^ 64" using h(3) by simp
  have pos: "0 < A" using A by simp
  have u: "A dvd aligned_user a A" "a + MEMORY_HEADER_SIZE < aligned_user a A"
    "aligned_user a A \<le> a + A + MEMORY_HEADER_SIZE"
    using aligned_user [OF pos, of a] top by (simp_all add: mem_defs)
  then obtain d where d: "aligned_user a A = a + 16 + d" "d \<le> A"
    using offset_ex [of a "aligned_user a A" A] by (auto simp: mem_defs)
  have off: "u32_of d = d" using d(2) A by (intro u32_of_id) simp
  define mn where "mn = min (len + 16) (n + 16)"
  define bytes where "bytes = (if d \<noteq> H then take d ?B @ take mn (drop H ?B) @ drop (d + mn) ?B else ?B)"
  have mn: "H + mn \<le> n + 16 + A" "d + mn \<le> n + 16 + A" "length (take mn (drop H ?B)) = mn"
    using h(1) d(2) by (auto simp: mn_def)
  have len_bytes: "length bytes = n + 16 + A" using mn by (auto simp: bytes_def)
  let ?m = "\<lparr>mem_origin = a, mem_bytes = bytes, mem_user = 16 + d,
    mem_header = \<lparr>mh_length = n, mh_headOffset = d, mh_alignment = A\<rparr>\<rparr>"
  have eqs: "u64_of (n + 16) = n + 16" "u64_of (len + 16) = len + 16" "u64_of (n + 16 + A) = n + 16 + A"
    "u16_of A = A"
    using room A len by (simp_all add: u64_of_id u16_of_id names mem_defs)
  have origin: "VL_MEMORY_ORIGIN_INLINE m = mem_origin m"
    using h by (simp add: VL_MEMORY_ORIGIN_INLINE_def VL_MEMORY_HEADER_INLINE_def mem_defs names)
  have move: "(if d \<noteq> H then do {
      moved \<leftarrow> read_range ?B H (if len + 16 > n + 16 then n + 16 else len + 16);
      write_range ?B d moved } else Some ?B) = Some bytes"
  proof -
    have "(if len + 16 > n + 16 then n + 16 else len + 16) = mn" by (simp add: mn_def)
    moreover have "read_range ?B H mn = Some (take mn (drop H ?B))"
      using mn(1) by (intro read_range_Some) simp
    moreover have "write_range ?B d (take mn (drop H ?B)) =
        Some (take d ?B @ take mn (drop H ?B) @ drop (d + mn) ?B)"
      using write_range_Some [of d "take mn (drop H ?B)" ?B] mn(2) unfolding mn(3) by simp
    ultimately show ?thesis by (simp add: bytes_def)
  qed
  have sub: "a + 16 + d - (16 + a) = d" "a + 16 + d - a = 16 + d" by simp_all
  have ph: "place_header a bytes (16 + d) \<lparr>mh_length = n, mh_headOffset = d, mh_alignment = A\<rparr> = Some ?m"
    using len_bytes d(2) by (simp add: place_header_def mem_defs)
  have r: "vlMemRealloc al (Some m) n = Some (Some ?m)"
    using A a move
    by (simp add: vlMemRealloc_def Let_def names MEMORY_HEADER_SIZE_def VL_DEFAULT_ALIGN_def eqs origin d(1) off
        sub ph del: if_split cong: if_cong)
  have "A dvd a + (16 + d)" using u(1) by (simp add: d(1) add.assoc)
  then have i: "mem_inv ?m" using A d(2) top len_bytes by (simp add: mem_inv_def Let_def mem_defs)
  have dat: "take k (mem_data ?m) = take k (mem_data m)" if "k \<le> n" "k \<le> len" for k
  proof -
    have B: "take k (drop (H + 16) ?B) = take k (drop (H + 16) (mem_bytes m))"
      using that h by (intro window_grow) simp_all
    have "take k (mem_data ?m) = take k (drop (d + 16) bytes)"
      using that by (simp add: mem_data_def min_def add.commute)
    also have "\<dots> = take k (drop (H + 16) ?B)"
    proof (cases "d = H")
      case False
      then have "take k (drop (d + 16) bytes) = take k (drop 16 (take mn (drop H ?B)))"
        unfolding bytes_def using mn that by (simp only: simp_thms if_True) (rule window_write, simp_all add: mn_def)
      also have "\<dots> = take k (drop (H + 16) ?B)"
        using that by (simp add: drop_take min_def mn_def add.commute)
      finally show ?thesis .
    qed (simp add: bytes_def)
    also have "\<dots> = take k (mem_data m)" using B that h by (simp add: mem_data_def min_def names)
    finally show ?thesis .
  qed
  show ?thesis using r i dat by (intro exI [of _ ?m]) (simp add: names)
qed

lemma mem_realloc_inv:
  assumes "allocator_ok al" and "mem_inv m" and "mh_alignment (mem_header m) < 2 ^ 16"
    and "n + mh_alignment (mem_header m) + MEMORY_HEADER_SIZE < 2 ^ 64"
    and "realloc_at al (mem_origin m) (n + MEMORY_HEADER_SIZE +
      (if mh_alignment (mem_header m) \<le> VL_DEFAULT_ALIGN then 0 else mh_alignment (mem_header m))) \<noteq> None"
  shows "\<exists>m'. vlMemRealloc al (Some m) n = Some (Some m') \<and> mem_inv m' \<and> mh_length (mem_header m') = n \<and>
    mh_alignment (mem_header m') = mh_alignment (mem_header m) \<and>
    (\<forall>k. k \<le> n \<longrightarrow> k \<le> mh_length (mem_header m) \<longrightarrow> take k (mem_data m') = take k (mem_data m))"
proof (cases "mh_alignment (mem_header m) \<le> VL_DEFAULT_ALIGN")
  case True
  then obtain a where "realloc_at al (mem_origin m) (n + MEMORY_HEADER_SIZE) = Some a" using assms(5) by auto
  from mem_realloc_default [OF assms(1,2) True _ this] assms(4) show ?thesis by simp
next
  case False
  then obtain a where
    "realloc_at al (mem_origin m) (n + MEMORY_HEADER_SIZE + mh_alignment (mem_header m)) = Some a"
    using assms(5) by auto
  from mem_realloc_aligned [OF assms(1,2) _ assms(3,4) this] False show ?thesis by simp
qed

section \<open>Properties\<close>

text \<open>
  C22. An allocation of \<^verbatim>\<open>n\<close> bytes with any alignment fails with \<^verbatim>\<open>NULL\<close> or returns a pointer
  that is aligned, with \<^verbatim>\<open>n\<close> bytes inside the block behind it and the header in front; size
  and alignment can be read back, and to free it is defined: the header leads to the origin.
\<close>

theorem mem_alloc_safe:
  assumes "allocator_ok al" and "n + align + MEMORY_HEADER_SIZE < 2 ^ 64"
    and "align < 2 ^ 32 - MEMORY_HEADER_SIZE"
  shows "vlMemAllocAligned al n align = Some None \<or>
    (\<exists>m. vlMemAllocAligned al n align = Some (Some m) \<and> mem_inv m \<and> vlMemSize (Some m) = n \<and>
       vlMemAlignment (Some m) = max VL_DEFAULT_ALIGN align \<and>
       max VL_DEFAULT_ALIGN align dvd mem_address m \<and> MEMORY_HEADER_SIZE \<le> mem_user m \<and>
       mem_user m + n \<le> length (mem_bytes m) \<and> vlMemFree (Some m) = Some ())"
proof -
  have known: ?thesis
    if "\<exists>m. vlMemAllocAligned al n align = Some (Some m) \<and> mem_inv m \<and> mh_length (mem_header m) = n \<and>
      mh_alignment (mem_header m) = max VL_DEFAULT_ALIGN align"
  proof -
    from that obtain m where m: "vlMemAllocAligned al n align = Some (Some m)" "mem_inv m"
      "mh_length (mem_header m) = n" "mh_alignment (mem_header m) = max VL_DEFAULT_ALIGN align" by blast
    moreover have "mh_alignment (mem_header m) dvd mem_address m" using m(2) by (simp add: mem_inv_def Let_def)
    ultimately show ?thesis
      using mem_inv_bounds [OF m(2)] mem_inv_free [OF m(2)] by (simp add: vlMemSize_def vlMemAlignment_def)
  qed
  show ?thesis
  proof (cases "align \<le> VL_DEFAULT_ALIGN")
    case True
    then have eq: "vlMemAllocAligned al n align = vlMemAlloc al n" by (simp add: vlMemAllocAligned_def)
    have room: "n + MEMORY_HEADER_SIZE < 2 ^ 64" using assms(2) by simp
    show ?thesis
    proof (cases "malloc_at al (n + MEMORY_HEADER_SIZE)")
      case None
      then show ?thesis using room unfolding eq by (simp add: vlMemAlloc_def u64_of_id Let_def)
    next
      case (Some a)
      from mem_alloc_inv [OF assms(1) room Some] True show ?thesis
        by (intro known) (simp add: eq max_def)
    qed
  next
    case False
    show ?thesis
    proof (cases "malloc_at al (n + align + MEMORY_HEADER_SIZE)")
      case None
      then show ?thesis using False assms(2) by (simp add: vlMemAllocAligned_def u64_of_id Let_def)
    next
      case (Some a)
      from mem_alloc_aligned_inv [OF assms(1,2) _ assms(3) Some] False show ?thesis
        by (intro known) simp
    qed
  qed
qed

text \<open>An allocator for the witnesses: one place for everything that fits.\<close>

definition some_allocator :: allocator where
  "some_allocator = \<lparr>malloc_at = (\<lambda>n. if n < 2 ^ 20 then Some 0x1008 else None),
     realloc_at = (\<lambda>p n. if n < 2 ^ 20 then Some 0x2010 else None)\<rparr>"

lemma some_allocator_ok: "allocator_ok some_allocator"
proof -
  have "(8::nat) dvd 0x1008" and "(8::nat) dvd 0x2010" by simp_all
  then show ?thesis unfolding allocator_ok_def some_allocator_def by (simp split: if_splits)
qed

theorem mem_alloc_safe_witness:
  "\<exists>m. vlMemAllocAligned some_allocator 100 64 = Some (Some m) \<and> 64 dvd mem_address m \<and>
     vlMemFree (Some m) = Some ()"
proof -
  have "vlMemAllocAligned some_allocator 100 64 \<noteq> Some None"
    by (simp add: vlMemAllocAligned_def some_allocator_def mem_defs u64_of_def Let_def aligned_user_def place_header_def)
  then show ?thesis
    using mem_alloc_safe [OF some_allocator_ok, of 100 64] by (simp add: mem_defs max_def) blast
qed

text \<open>
  C23. \<^verbatim>\<open>vlMemRealloc\<close> of an allocation with an alignment below 65536 keeps its contents up to the
  smaller of the two sizes, its alignment and its invariant, also when the pointer has another
  offset in the new block and the contents have to move.
\<close>

theorem mem_realloc_keeps:
  assumes "allocator_ok al" and "mem_inv m" and "mh_alignment (mem_header m) < 2 ^ 16"
    and "n + mh_alignment (mem_header m) + MEMORY_HEADER_SIZE < 2 ^ 64"
    and "realloc_at al (mem_origin m) (n + MEMORY_HEADER_SIZE +
      (if mh_alignment (mem_header m) \<le> VL_DEFAULT_ALIGN then 0 else mh_alignment (mem_header m))) \<noteq> None"
  shows "\<exists>m'. vlMemRealloc al (Some m) n = Some (Some m') \<and> mem_inv m' \<and> vlMemSize (Some m') = n \<and>
    vlMemAlignment (Some m') = vlMemAlignment (Some m) \<and>
    take (min n (vlMemSize (Some m))) (mem_data m') = take (min n (vlMemSize (Some m))) (mem_data m)"
  using mem_realloc_inv [OF assms] by (auto simp: vlMemSize_def vlMemAlignment_def)

text \<open>
  Two reallocations are undefined although the arguments are valid: one without an alignment
  for which the C allocator has no memory, since the result is used unchecked, and one with an
  alignment that is a multiple of 65536, which is cut to 16 bits and taken for none.
\<close>

theorem mem_realloc_undefined:
  assumes "mem_inv m"
    and "mh_alignment (mem_header m) \<le> VL_DEFAULT_ALIGN \<and>
        realloc_at al (mem_origin m) (u64_of (n + MEMORY_HEADER_SIZE)) = None \<or>
      2 ^ 16 dvd mh_alignment (mem_header m) \<and> mh_headOffset (mem_header m) \<noteq> 0"
  shows "vlMemRealloc al (Some m) n = None"
  using assms(2)
proof (elim disjE conjE)
  assume "mh_alignment (mem_header m) \<le> VL_DEFAULT_ALIGN"
    and "realloc_at al (mem_origin m) (u64_of (n + MEMORY_HEADER_SIZE)) = None"
  then show ?thesis by (simp add: vlMemRealloc_def Let_def u16_of_id mem_defs)
next
  assume dvd: "2 ^ 16 dvd mh_alignment (mem_header m)" and off: "mh_headOffset (mem_header m) \<noteq> 0"
  have "u16_of (mh_alignment (mem_header m)) = 0" using dvd by (simp add: u16_of_def)
  moreover have "mem_user m = mh_headOffset (mem_header m) + MEMORY_HEADER_SIZE"
    using assms(1) by (simp add: mem_inv_def Let_def)
  ultimately show ?thesis using off by (simp add: vlMemRealloc_def Let_def mem_defs)
qed

definition sample_memory :: vl_memory where
  "sample_memory = \<lparr>mem_origin = 4096, mem_bytes = replicate 16 None @ [Some 1, Some 2], mem_user = 16,
     mem_header = \<lparr>mh_length = 2, mh_headOffset = 0, mh_alignment = 8\<rparr>\<rparr>"

lemma sample_memory_inv: "mem_inv sample_memory"
  by (simp add: mem_inv_def sample_memory_def mem_defs Let_def)

theorem mem_realloc_keeps_witness:
  "\<exists>m'. vlMemRealloc some_allocator (Some sample_memory) 40 = Some (Some m') \<and>
     take 2 (mem_data m') = [Some 1, Some 2]"
  using mem_realloc_keeps [OF some_allocator_ok sample_memory_inv, of 40]
  by (auto simp: sample_memory_def some_allocator_def mem_defs vlMemSize_def mem_data_def)

theorem mem_realloc_undefined_witness:
  "vlMemRealloc some_allocator (Some sample_memory) 0x200000 = None"
  by (rule mem_realloc_undefined [OF sample_memory_inv])
    (simp add: sample_memory_def some_allocator_def mem_defs u64_of_def)

end
