(* ===== verification/VL_BufferSpec.thy ===== *)
theory VL_BufferSpec
  imports VL_Buffer VL_MemorySpec
begin

text \<open>
  A buffer returns what was written to it: the invariant of buffers, what a write does to each
  byte when the allocation grows and when it does not, and the round trip of a write and a read.
\<close>

section \<open>Bytes of an allocation\<close>

lemma nth_mem_data: "i < mh_length (mem_header m) \<Longrightarrow> mem_inv m \<Longrightarrow> mem_data m ! i = mem_bytes m ! (mem_user m + i)"
  using mem_inv_bounds [of m] by (simp add: mem_data_def)

lemma mem_read_Some:
  assumes "mem_inv m" and "off + n \<le> mh_length (mem_header m)"
  shows "mem_read (Some m) off n = Some (take n (drop off (mem_data m)))"
proof -
  have room: "mem_user m + mh_length (mem_header m) \<le> length (mem_bytes m)" using mem_inv_bounds assms(1) by blast
  have "take n (drop off (mem_data m)) = take n (drop (mem_user m + off) (mem_bytes m))"
    using assms(2) by (simp add: mem_data_def drop_take min_def add.commute)
  then show ?thesis using room assms(2) by (simp add: mem_read_def read_range_def)
qed

lemma mem_inv_bytes:
  "mem_inv m \<Longrightarrow> length bs = length (mem_bytes m) \<Longrightarrow> mem_inv (m\<lparr>mem_bytes := bs\<rparr>)"
  unfolding mem_inv_def Let_def mem_address_def by auto

lemma mem_write_Some:
  assumes "mem_inv m" and "off + length xs \<le> mh_length (mem_header m)"
  shows "\<exists>m'. mem_write (Some m) off xs = Some m' \<and> mem_inv m' \<and> mem_header m' = mem_header m \<and>
    (\<forall>i < mh_length (mem_header m).
       mem_data m' ! i = (if off \<le> i \<and> i < off + length xs then xs ! (i - off) else mem_data m ! i))"
proof -
  let ?u = "mem_user m"
  let ?bs = "take (?u + off) (mem_bytes m) @ xs @ drop (?u + off + length xs) (mem_bytes m)"
  let ?m = "m\<lparr>mem_bytes := ?bs\<rparr>"
  have room: "?u + mh_length (mem_header m) \<le> length (mem_bytes m)" using mem_inv_bounds assms(1) by blast
  then have len: "length ?bs = length (mem_bytes m)" using assms(2) by simp
  have w: "mem_write (Some m) off xs = Some ?m"
    using room assms(2) by (simp add: mem_write_def write_range_def)
  have inv: "mem_inv ?m" using assms(1) len by (rule mem_inv_bytes)
  have "mem_data ?m ! i = (if off \<le> i \<and> i < off + length xs then xs ! (i - off) else mem_data m ! i)"
    if i: "i < mh_length (mem_header m)" for i
  proof -
    have lens: "length (take (?u + off) (mem_bytes m)) = ?u + off" using room assms(2) by simp
    have "mem_data ?m ! i = ?bs ! (?u + i)" using nth_mem_data [of i ?m] i inv by simp
    also have "\<dots> = (if off \<le> i \<and> i < off + length xs then xs ! (i - off) else mem_bytes m ! (?u + i))"
    proof -
      consider "i < off" | "off \<le> i" "i < off + length xs" | "off + length xs \<le> i" by linarith
      then show ?thesis
      proof cases
        case 1
        then have "?u + i < ?u + off" by simp
        then show ?thesis using 1 unfolding nth_append lens by simp
      next
        case 2
        then have "\<not> ?u + i < ?u + off" "?u + i - (?u + off) = i - off" "i - off < length xs" by simp_all
        then show ?thesis using 2 unfolding nth_append lens by simp
      next
        case 3
        then have "\<not> ?u + i < ?u + off" "?u + i - (?u + off) = i - off" "\<not> i - off < length xs"
          "?u + off + length xs + (i - off - length xs) = ?u + i" by simp_all
        then show ?thesis using 3 i room unfolding nth_append lens by simp
      qed
    qed
    also have "mem_bytes m ! (?u + i) = mem_data m ! i" using nth_mem_data i assms(1) by simp
    finally show ?thesis .
  qed
  then show ?thesis using w inv by auto
qed

section \<open>Numbers in memory\<close>

lemma length_nat_bytes [simp]: "length (nat_bytes k n) = k"
  by (induction k arbitrary: n) simp_all

lemma bytes_nat_bytes: "n < 256 ^ k \<Longrightarrow> bytes_nat (nat_bytes k n) = Some n"
proof (induction k arbitrary: n)
  case 0
  then show ?case by simp
next
  case (Suc k)
  then have "n div 256 < 256 ^ k" by (simp add: less_mult_imp_div_less mult.commute)
  then have "bytes_nat (nat_bytes k (n div 256)) = Some (n div 256)" by (rule Suc.IH)
  moreover have "unat (of_nat n :: u8) = n mod 256" by (simp add: unat_of_nat)
  ultimately show ?case by simp
qed

section \<open>Growth\<close>

lemma grow_size_ok:
  "0 < c \<Longrightarrow> c < 2 ^ 64 \<Longrightarrow> 2 * t < 2 ^ 64 \<Longrightarrow>
   \<exists>c'. grow_size c t = Some c' \<and> t < c' \<and> c \<le> c' \<and> (c' = c \<or> c' \<le> 2 * t)"
proof (induction "Suc t - c" arbitrary: c rule: less_induct)
  case less
  show ?case
  proof (cases "c \<le> t")
    case True
    then have "u64_of (c * 2) = c * 2" using less.prems by (intro u64_of_id) simp
    then have step: "grow_size c t = grow_size (c * 2) t" using True by (subst grow_size.simps) simp
    have "Suc t - c * 2 < Suc t - c" using True less.prems(1) by linarith
    moreover have "0 < c * 2" "c * 2 < 2 ^ 64" using True less.prems by linarith+
    ultimately obtain c' where "grow_size (c * 2) t = Some c'" "t < c'" "c * 2 \<le> c'" "c' = c * 2 \<or> c' \<le> 2 * t"
      using less.hyps less.prems(3) by blast
    then show ?thesis using step True by auto
  next
    case False
    then show ?thesis by (subst grow_size.simps) auto
  qed
qed

lemma grow_size_zero: "grow_size 0 t = None"
proof -
  have "c \<noteq> 0" if "grow_size c s = Some c'" for c s c'
  proof (rule grow_size.raw_induct [where P = "\<lambda>c s c'. c \<noteq> 0", OF _ that])
    fix f c s c'
    assume ih: "\<And>s c c'. f s c = Some c' \<Longrightarrow> s \<noteq> (0 :: nat)"
      and step: "(if c \<le> s then f (u64_of (c * 2)) s else Some c) = Some (c' :: nat)"
    show "c \<noteq> 0"
    proof
      assume "c = 0"
      then have "f 0 s = Some c'" using step by (simp add: u64_of_def)
      then show False using ih by blast
    qed
  qed
  then show ?thesis by (cases "grow_size 0 t") auto
qed

section \<open>The invariant of buffers\<close>

text \<open>The C allocator has memory for every request below \<^term>\<open>limit\<close>.\<close>

definition alloc_upto :: "allocator \<Rightarrow> nat \<Rightarrow> bool" where
  "alloc_upto al limit \<longleftrightarrow> allocator_ok al \<and>
     (\<forall>n < limit. malloc_at al n \<noteq> None) \<and> (\<forall>p. \<forall>n < limit. realloc_at al p n \<noteq> None)"

definition buf_inv :: "vl_buffer \<Rightarrow> bool" where
  "buf_inv b \<longleftrightarrow>
     (case buf_data b of
        None \<Rightarrow> False
      | Some m \<Rightarrow> mem_inv m \<and> mh_alignment (mem_header m) < 2 ^ 16 \<and> 0 < mh_length (mem_header m) \<and>
          buf_offset b \<le> buf_size b \<and> buf_size b \<le> mh_length (mem_header m))"

text \<open>The allocation that a write of \<^term>\<open>n\<close> bytes may need, with header and alignment.\<close>

definition write_room :: "vl_buffer \<Rightarrow> nat \<Rightarrow> nat" where
  "write_room b n = 2 * (n + buf_offset b) + vlMemAlignment (buf_data b) + MEMORY_HEADER_SIZE"

definition buf_bytes :: "vl_buffer \<Rightarrow> byte list" where
  "buf_bytes b = (case buf_data b of None \<Rightarrow> [] | Some m \<Rightarrow> mem_data m)"

text \<open>
  A write within the limits of the allocator succeeds; \<^term>\<open>b'\<close> has the bytes of \<^term>\<open>b\<close>, and those
  of the source at the offset.
\<close>

lemma buffer_write_ok:
  assumes inv: "buf_inv b" and al: "alloc_upto al limit" and room: "write_room b n < limit" "limit \<le> 2 ^ 62"
    and src: "\<And>xs. src = Some xs \<Longrightarrow> length xs = n"
  shows "\<exists>b'. vlBufferWrite al b n src = Some (buf_offset b, b') \<and> buf_inv b' \<and>
    buf_offset b' = buf_offset b + n \<and> buf_size b' = max (buf_size b) (buf_offset b + n) \<and>
    vlMemAlignment (buf_data b') = vlMemAlignment (buf_data b) \<and>
    buf_offset b + n < length (buf_bytes b') \<and> length (buf_bytes b) \<le> length (buf_bytes b') \<and>
    (\<forall>i < length (buf_bytes b). src = None \<or> i < buf_offset b \<or> buf_offset b + n \<le> i \<longrightarrow>
       buf_bytes b' ! i = buf_bytes b ! i) \<and>
    (\<forall>xs i. src = Some xs \<longrightarrow> i < n \<longrightarrow> buf_bytes b' ! (buf_offset b + i) = xs ! i)"
proof -
  obtain m where m: "buf_data b = Some m" "mem_inv m" "mh_alignment (mem_header m) < 2 ^ 16"
    "0 < mh_length (mem_header m)" "buf_offset b \<le> buf_size b" "buf_size b \<le> mh_length (mem_header m)"
    using inv by (auto simp: buf_inv_def split: option.splits)
  let ?c = "mh_length (mem_header m)" and ?t = "n + buf_offset b" and ?A = "mh_alignment (mem_header m)"
  have top: "2 * ?t + ?A + MEMORY_HEADER_SIZE < limit" using room(1) by (simp add: write_room_def m(1) vlMemAlignment_def)
  then have t: "2 * ?t < 2 ^ 64" "?t < 2 ^ 63" using room(2) by simp_all
  have c: "?c < 2 ^ 64" using m(2) by (auto simp: mem_inv_def Let_def split: if_splits)
  obtain c' where c': "grow_size ?c ?t = Some c'" "?t < c'" "?c \<le> c'" "c' = ?c \<or> c' \<le> 2 * ?t"
    using grow_size_ok [OF m(4) c t(1)] by blast
  have u: "u64_of ?t = ?t" using t by (intro u64_of_id) simp
  have "\<exists>m1. (if c' > ?c then vlMemRealloc al (Some m) c' else Some (Some m)) = Some (Some m1) \<and>
      mem_inv m1 \<and> mh_length (mem_header m1) = c' \<and> mh_alignment (mem_header m1) = ?A \<and>
      (\<forall>i < ?c. mem_data m1 ! i = mem_data m ! i)"
  proof (cases "c' > ?c")
    case True
    then have le: "c' \<le> 2 * ?t" using c'(4) by simp
    have al_ok: "allocator_ok al" using al by (simp add: alloc_upto_def)
    have "c' + MEMORY_HEADER_SIZE + (if ?A \<le> VL_DEFAULT_ALIGN then 0 else ?A) < limit" using le top by simp
    then have ra: "realloc_at al (mem_origin m)
        (c' + MEMORY_HEADER_SIZE + (if ?A \<le> VL_DEFAULT_ALIGN then 0 else ?A)) \<noteq> None"
      using al by (simp add: alloc_upto_def)
    have rm: "c' + ?A + MEMORY_HEADER_SIZE < 2 ^ 64" using le top room(2) by simp
    obtain m1 where m1: "vlMemRealloc al (Some m) c' = Some (Some m1)" "mem_inv m1"
      "mh_length (mem_header m1) = c'" "mh_alignment (mem_header m1) = ?A"
      "\<forall>k. k \<le> c' \<longrightarrow> k \<le> ?c \<longrightarrow> take k (mem_data m1) = take k (mem_data m)"
      using mem_realloc_inv [OF al_ok m(2,3) rm ra] by blast
    have "take ?c (mem_data m1) = take ?c (mem_data m)" using m1(5) True by simp
    then have "mem_data m1 ! i = mem_data m ! i" if "i < ?c" for i using that by (metis nth_take)
    then show ?thesis using True m1 by simp
  next
    case False
    then show ?thesis using c'(3) m(2) by simp
  qed
  then obtain m1 where m1: "(if c' > ?c then vlMemRealloc al (Some m) c' else Some (Some m)) = Some (Some m1)"
    "mem_inv m1" "mh_length (mem_header m1) = c'" "mh_alignment (mem_header m1) = ?A"
    "\<forall>i < ?c. mem_data m1 ! i = mem_data m ! i" by blast
  obtain m2 where m2: "(case src of None \<Rightarrow> Some (Some m1)
      | Some bs \<Rightarrow> do { xs \<leftarrow> read_range bs 0 n; m \<leftarrow> mem_write (Some m1) (buf_offset b) xs; Some (Some m) })
      = Some (Some m2)" "mem_inv m2" "mem_header m2 = mem_header m1"
    "\<forall>i < c'. src = None \<or> i < buf_offset b \<or> buf_offset b + n \<le> i \<longrightarrow> mem_data m2 ! i = mem_data m1 ! i"
    "\<forall>xs i. src = Some xs \<longrightarrow> i < n \<longrightarrow> mem_data m2 ! (buf_offset b + i) = xs ! i"
  proof (cases src)
    case None
    then show thesis using that [of m1] m1(2) by simp
  next
    case (Some xs)
    then have len: "length xs = n" by (rule src)
    then have "buf_offset b + length xs \<le> mh_length (mem_header m1)" using c'(2) m1(3) by simp
    from mem_write_Some [OF m1(2) this] obtain m2 where "mem_write (Some m1) (buf_offset b) xs = Some m2"
      "mem_inv m2" "mem_header m2 = mem_header m1"
      "\<forall>i < c'. mem_data m2 ! i = (if buf_offset b \<le> i \<and> i < buf_offset b + n then xs ! (i - buf_offset b)
         else mem_data m1 ! i)"
      using m1(3) len by auto
    then show thesis using that [of m2] Some len c'(2) by (simp add: read_range_def)
  qed
  let ?b = "\<lparr>buf_data = Some m2, buf_size = (if buf_offset b + n > buf_size b then buf_offset b + n else buf_size b),
    buf_offset = buf_offset b + n\<rparr>"
  have w: "vlBufferWrite al b n src = Some (buf_offset b, ?b)"
    using c'(1) m1(1) m2(1) u
    by (simp add: vlBufferWrite_def m(1) vlMemSize_def Let_def add.commute [of "buf_offset b" n] del: if_split cong: if_cong)
  have lens: "length (mem_data m) = ?c" "length (mem_data m2) = c'"
    using mem_inv_data m(2) m2(2,3) m1(3) by simp_all
  show ?thesis
    using w m m1 m2 c' lens
    by (intro exI [of _ ?b]) (auto simp: buf_inv_def vlMemAlignment_def buf_bytes_def)
qed

section \<open>Properties\<close>

lemma buffer_read_ok:
  assumes "buf_inv b" and "buf_offset b + n \<le> buf_size b"
  shows "vlBufferRead b n =
    Some (n, take n (drop (buf_offset b) (buf_bytes b)), b\<lparr>buf_offset := buf_offset b + n\<rparr>)"
proof -
  obtain m where m: "buf_data b = Some m" "mem_inv m" "buf_size b \<le> mh_length (mem_header m)"
    using assms(1) by (auto simp: buf_inv_def split: option.splits)
  have "mh_length (mem_header m) < 2 ^ 64" using m(2) by (auto simp: mem_inv_def Let_def split: if_splits)
  then have u: "u64_of (buf_offset b + n) = buf_offset b + n" using assms(2) m(3) by (intro u64_of_id) simp
  have "mem_read (Some m) (buf_offset b) n = Some (take n (drop (buf_offset b) (mem_data m)))"
    using assms(2) m(2,3) by (intro mem_read_Some) simp_all
  then show ?thesis using assms(2) by (simp add: vlBufferRead_def u m(1) buf_bytes_def Let_def)
qed

text \<open>
  What is written at the offset of a buffer is what a read from there returns, whether the
  buffer had to grow for it or not, and the bytes in front of it stay as they were.
\<close>

theorem buffer_write_read:
  assumes "buf_inv b" and "alloc_upto al limit" and "write_room b (length xs) < limit" and "limit \<le> 2 ^ 62"
  shows "\<exists>b'. vlBufferWrite al b (length xs) (Some xs) = Some (buf_offset b, b') \<and> buf_inv b' \<and>
    vlBufferRead (vlBufferSeek b' (buf_offset b)) (length xs) = Some (length xs, xs, b') \<and>
    take (buf_offset b) (buf_bytes b') = take (buf_offset b) (buf_bytes b)"
proof -
  obtain b' where b': "vlBufferWrite al b (length xs) (Some xs) = Some (buf_offset b, b')" "buf_inv b'"
    "buf_offset b' = buf_offset b + length xs" "buf_size b' = max (buf_size b) (buf_offset b + length xs)"
    "buf_offset b + length xs < length (buf_bytes b')" "length (buf_bytes b) \<le> length (buf_bytes b')"
    "\<forall>i < length (buf_bytes b). i < buf_offset b \<or> buf_offset b + length xs \<le> i \<longrightarrow>
       buf_bytes b' ! i = buf_bytes b ! i"
    "\<forall>i < length xs. buf_bytes b' ! (buf_offset b + i) = xs ! i"
    using buffer_write_ok [OF assms, of "Some xs"] by auto
  let ?s = "vlBufferSeek b' (buf_offset b)"
  have "buf_inv ?s" using b'(2,3) by (auto simp: buf_inv_def vlBufferSeek_def split: option.splits)
  moreover have "buf_offset ?s + length xs \<le> buf_size ?s" using b'(4) by (simp add: vlBufferSeek_def)
  ultimately have "vlBufferRead ?s (length xs) = Some (length xs,
      take (length xs) (drop (buf_offset b) (buf_bytes b')), ?s\<lparr>buf_offset := buf_offset b + length xs\<rparr>)"
    by (subst buffer_read_ok) (simp_all add: vlBufferSeek_def buf_bytes_def)
  moreover have "take (length xs) (drop (buf_offset b) (buf_bytes b')) = xs"
    using b'(5,8) by (intro nth_equalityI) simp_all
  moreover have "?s\<lparr>buf_offset := buf_offset b + length xs\<rparr> = b'" using b'(3) by (simp add: vlBufferSeek_def)
  moreover have "take (buf_offset b) (buf_bytes b') = take (buf_offset b) (buf_bytes b)"
  proof (rule nth_equalityI)
    have "buf_offset b \<le> length (buf_bytes b)"
      using assms(1) mem_inv_data by (auto simp: buf_inv_def buf_bytes_def split: option.splits)
    then show "length (take (buf_offset b) (buf_bytes b')) = length (take (buf_offset b) (buf_bytes b))"
      using b'(6) by simp
    fix i
    assume "i < length (take (buf_offset b) (buf_bytes b'))"
    then show "take (buf_offset b) (buf_bytes b') ! i = take (buf_offset b) (buf_bytes b) ! i"
      using b'(7) \<open>buf_offset b \<le> length (buf_bytes b)\<close> by simp
  qed
  ultimately show ?thesis using b'(1,2) by simp
qed

definition sample_buffer :: vl_buffer where
  "sample_buffer = \<lparr>buf_data = Some sample_memory, buf_size = 1, buf_offset = 1\<rparr>"

lemma sample_buffer_inv: "buf_inv sample_buffer"
  using sample_memory_inv by (simp add: buf_inv_def sample_buffer_def) (simp add: sample_memory_def)

lemma some_allocator_upto: "alloc_upto some_allocator (2 ^ 20)"
  using some_allocator_ok by (simp add: alloc_upto_def some_allocator_def)

theorem buffer_write_read_witness:
  "\<exists>b'. vlBufferWrite some_allocator sample_buffer 3 (Some [Some 7, Some 8, Some 9]) = Some (1, b') \<and>
     vlBufferRead (vlBufferSeek b' 1) 3 = Some (3, [Some 7, Some 8, Some 9], b')"
  using buffer_write_read [OF sample_buffer_inv some_allocator_upto, of "[Some 7, Some 8, Some 9]"]
  by (auto simp: write_room_def sample_buffer_def sample_memory_def vlMemAlignment_def mem_defs numeral_3_eq_3)

text \<open>
  A write into a buffer with an empty allocation, or none, never returns: the capacity is
  doubled until it is large enough, and twice nothing is nothing.
\<close>

theorem buffer_write_empty:
  assumes "vlMemSize (buf_data b) = 0"
  shows "vlBufferWrite al b n src = None"
  using assms by (simp add: vlBufferWrite_def grow_size_zero)

theorem buffer_write_empty_witness:
  "vlBufferWrite some_allocator \<lparr>buf_data = None, buf_size = 0, buf_offset = 0\<rparr> 4 None = None"
  by (rule buffer_write_empty) (simp add: vlMemSize_def)

end
