(* ===== verification/VL_StackSpec.thy ===== *)
theory VL_StackSpec
  imports VL_Stack VL_BufferSpec VL_Interfaces
begin

text \<open>
  The stack refines a list of frames: a push adds one on top, the header chain leads down
  through the others, a pop takes the top one away. Pushes and pops of words then keep the
  contract of a last-in first-out container.
\<close>

lemma length_stack_header_bytes [simp]: "length (stack_header_bytes h) = STACK_HEADER_SIZE"
  by (simp add: stack_header_bytes_def STACK_HEADER_SIZE_def)

section \<open>Frames\<close>

text \<open>A frame: the offset of its header and its element. The list has the top one first.\<close>

type_synonym frame = "nat \<times> byte list"

definition frame_size :: "nat \<Rightarrow> nat" where
  "frame_size n = padUp (n + STACK_HEADER_SIZE) VL_DEFAULT_ALIGN"

definition top_offset :: "frame list \<Rightarrow> nat" where
  "top_offset fs = (case fs of [] \<Rightarrow> 0 | f # _ \<Rightarrow> fst f)"

fun frames_ok :: "byte list \<Rightarrow> frame list \<Rightarrow> nat \<Rightarrow> bool" where
  "frames_ok bytes [] ending \<longleftrightarrow> ending = 0"
| "frames_ok bytes ((off, xs) # fs) ending \<longleftrightarrow>
     length xs < 2 ^ 62 \<and> off < 2 ^ 62 \<and>
     ending = off + frame_size (length xs) \<and> ending \<le> length bytes \<and>
     take STACK_HEADER_SIZE (drop off bytes) =
       stack_header_bytes \<lparr>sh_size = length xs, sh_previousOffset = top_offset fs\<rparr> \<and>
     take (length xs) (drop (off + STACK_HEADER_SIZE) bytes) = xs \<and>
     frames_ok bytes fs off"

lemma frame_size_bounds:
  assumes "n < 2 ^ 62"
  shows "n + STACK_HEADER_SIZE \<le> frame_size n" and "frame_size n < n + STACK_HEADER_SIZE + 8"
proof -
  have eq: "frame_size n = padUp (n + 16) (2 ^ 3)" by (simp add: frame_size_def STACK_HEADER_SIZE_def VL_DEFAULT_ALIGN_def)
  have pre: "(3::nat) < 64" "n + 16 + 2 ^ 3 \<le> 2 ^ 64" using assms by simp_all
  show "n + STACK_HEADER_SIZE \<le> frame_size n"
    using padUp_ge [OF pre] unfolding eq by (simp add: STACK_HEADER_SIZE_def)
  show "frame_size n < n + STACK_HEADER_SIZE + 8"
    using padUp_less [OF pre] unfolding eq by (simp add: STACK_HEADER_SIZE_def)
qed

text \<open>The frames only depend on the bytes below their end.\<close>

lemma take_drop_agree:
  assumes "\<And>i. i < e \<Longrightarrow> bytes' ! i = bytes ! i" and "off + n \<le> e" "e \<le> length bytes" "e \<le> length bytes'"
  shows "take n (drop off bytes') = take n (drop off bytes)"
  using assms by (intro nth_equalityI) auto

lemma frames_ok_agree:
  "frames_ok bytes fs e \<Longrightarrow> (\<And>i. i < e \<Longrightarrow> bytes' ! i = bytes ! i) \<Longrightarrow> e \<le> length bytes' \<Longrightarrow> frames_ok bytes' fs e"
proof (induction bytes fs e rule: frames_ok.induct)
  case (1 bytes e)
  then show ?case by simp
next
  case (2 bytes off xs fs e)
  have f: "length xs < 2 ^ 62" "off < 2 ^ 62" "e = off + frame_size (length xs)" "e \<le> length bytes"
    "take STACK_HEADER_SIZE (drop off bytes) =
       stack_header_bytes \<lparr>sh_size = length xs, sh_previousOffset = top_offset fs\<rparr>"
    "take (length xs) (drop (off + STACK_HEADER_SIZE) bytes) = xs" "frames_ok bytes fs off"
    using 2(2) by simp_all
  have e: "off + STACK_HEADER_SIZE + length xs \<le> e" using frame_size_bounds(1) [OF f(1)] f(3) by simp
  have "take STACK_HEADER_SIZE (drop off bytes') = take STACK_HEADER_SIZE (drop off bytes)"
    by (rule take_drop_agree [of e]) (use 2(3,4) e f(4) in auto)
  moreover have "take (length xs) (drop (off + STACK_HEADER_SIZE) bytes') =
      take (length xs) (drop (off + STACK_HEADER_SIZE) bytes)"
    by (rule take_drop_agree [of e]) (use 2(3,4) e f(4) in auto)
  moreover have "frames_ok bytes' fs off"
    by (rule 2(1)) (use 2(3,4) e f in auto)
  ultimately show ?case using f 2(4) by simp
qed

lemma frames_ok_length:
  "frames_ok bytes fs e \<Longrightarrow> length fs * 16 \<le> e"
proof (induction bytes fs e rule: frames_ok.induct)
  case (2 bytes off xs fs e)
  have f: "length xs < 2 ^ 62" "e = off + frame_size (length xs)" "frames_ok bytes fs off" using 2(2) by simp_all
  then show ?case using 2(1) frame_size_bounds(1) [OF f(1)] by (simp add: STACK_HEADER_SIZE_def)
qed simp

section \<open>The representation of a stack\<close>

definition stack_rep :: "vl_stack \<Rightarrow> frame list \<Rightarrow> bool" where
  "stack_rep st fs \<longleftrightarrow>
     buf_inv (st_buffer st) \<and> frames_ok (buf_bytes (st_buffer st)) fs (buf_offset (st_buffer st)) \<and>
     st_headOffset st = top_offset fs \<and> st_depth st = length fs"

lemma buf_poke:
  assumes "buf_inv b" and "off + length xs \<le> length (buf_bytes b)"
  shows "\<exists>m. mem_write (buf_data b) off xs = Some m \<and> buf_inv (b\<lparr>buf_data := Some m\<rparr>) \<and>
    vlMemAlignment (Some m) = vlMemAlignment (buf_data b) \<and>
    length (buf_bytes (b\<lparr>buf_data := Some m\<rparr>)) = length (buf_bytes b) \<and>
    (\<forall>i < length (buf_bytes b). buf_bytes (b\<lparr>buf_data := Some m\<rparr>) ! i =
       (if off \<le> i \<and> i < off + length xs then xs ! (i - off) else buf_bytes b ! i))"
proof -
  obtain m where m: "buf_data b = Some m" "mem_inv m" using assms(1) by (auto simp: buf_inv_def split: option.splits)
  then have len: "length (buf_bytes b) = mh_length (mem_header m)" by (simp add: buf_bytes_def mem_inv_data)
  obtain m' where m': "mem_write (Some m) off xs = Some m'" "mem_inv m'" "mem_header m' = mem_header m"
    "\<forall>i < mh_length (mem_header m).
       mem_data m' ! i = (if off \<le> i \<and> i < off + length xs then xs ! (i - off) else mem_data m ! i)"
    using mem_write_Some [OF m(2), of off xs] assms(2) len by auto
  show ?thesis
    using m m' len assms(1) mem_inv_data [OF m'(2)]
    by (intro exI [of _ m']) (simp add: buf_inv_def buf_bytes_def vlMemAlignment_def)
qed

lemma buf_peek:
  assumes "buf_inv b" and "off + n \<le> length (buf_bytes b)"
  shows "mem_read (buf_data b) off n = Some (take n (drop off (buf_bytes b)))"
  using assms mem_read_Some mem_inv_data by (auto simp: buf_inv_def buf_bytes_def split: option.splits)

lemma read_header_ok:
  assumes "buf_inv b" and "take STACK_HEADER_SIZE (drop off (buf_bytes b)) = stack_header_bytes h"
    and "off + STACK_HEADER_SIZE \<le> length (buf_bytes b)" and "sh_size h < 2 ^ 64" "sh_previousOffset h < 2 ^ 64"
  shows "read_stack_header (buf_data b) off = Some h"
proof -
  have "mem_read (buf_data b) off STACK_HEADER_SIZE = Some (stack_header_bytes h)"
    using buf_peek [OF assms(1,3)] assms(2) by simp
  moreover have "take 8 (stack_header_bytes h) = nat_bytes 8 (sh_size h)"
    "drop 8 (stack_header_bytes h) = nat_bytes 8 (sh_previousOffset h)"
    by (simp_all add: stack_header_bytes_def)
  ultimately show ?thesis
    using assms(4,5) bytes_nat_bytes [of "sh_size h" 8] bytes_nat_bytes [of "sh_previousOffset h" 8]
    by (simp add: read_stack_header_def)
qed

lemma stack_push_ok:
  assumes rep: "stack_rep st fs" and al: "alloc_upto al limit" and limit: "limit \<le> 2 ^ 35"
    and n: "length xs = n" "n < 2 ^ 62" and room: "write_room (st_buffer st) (frame_size n) < limit"
  shows "\<exists>st'. vlStackPushValue al st xs n = Some (buf_offset (st_buffer st) + STACK_HEADER_SIZE, st') \<and>
    stack_rep st' ((buf_offset (st_buffer st), xs) # fs) \<and>
    buf_offset (st_buffer st') = buf_offset (st_buffer st) + frame_size n \<and>
    vlMemAlignment (buf_data (st_buffer st')) = vlMemAlignment (buf_data (st_buffer st))"
proof -
  define b off h where "b = st_buffer st" and "off = buf_offset b"
    and "h = stack_header_bytes \<lparr>sh_size = n, sh_previousOffset = st_headOffset st\<rparr>"
  let ?S = STACK_HEADER_SIZE
  have S: "?S = 16" by (simp add: STACK_HEADER_SIZE_def)
  have inv: "buf_inv b" and frames: "frames_ok (buf_bytes b) fs off"
    and top: "st_headOffset st = top_offset fs" and depth: "st_depth st = length fs"
    using rep by (simp_all add: stack_rep_def b_def off_def)
  have fsz: "n + ?S \<le> frame_size n" "frame_size n < n + ?S + 8" using frame_size_bounds [OF n(2)] .
  have small: "2 * (frame_size n + off) < limit" using room by (simp add: write_room_def b_def off_def)
  obtain b1 where b1: "vlBufferWrite al b (frame_size n) None = Some (off, b1)" "buf_inv b1"
    "buf_offset b1 = off + frame_size n" "vlMemAlignment (buf_data b1) = vlMemAlignment (buf_data b)"
    "off + frame_size n < length (buf_bytes b1)" "length (buf_bytes b) \<le> length (buf_bytes b1)"
    "\<forall>i < length (buf_bytes b). buf_bytes b1 ! i = buf_bytes b ! i"
    using buffer_write_ok [OF inv al, of "frame_size n" None] room limit by (auto simp: b_def off_def)
  have "off + length h \<le> length (buf_bytes b1)" using b1(5) fsz(1) by (simp add: h_def)
  then obtain m2 where m2: "mem_write (buf_data b1) off h = Some m2" "buf_inv (b1\<lparr>buf_data := Some m2\<rparr>)"
    "vlMemAlignment (Some m2) = vlMemAlignment (buf_data b1)"
    "length (buf_bytes (b1\<lparr>buf_data := Some m2\<rparr>)) = length (buf_bytes b1)"
    "\<forall>i < length (buf_bytes b1). buf_bytes (b1\<lparr>buf_data := Some m2\<rparr>) ! i =
       (if off \<le> i \<and> i < off + length h then h ! (i - off) else buf_bytes b1 ! i)"
    using buf_poke [OF b1(2), of off h] by blast
  define b2 where "b2 = b1\<lparr>buf_data := Some m2\<rparr>"
  note m2 = m2 [folded b2_def]
  have "off + ?S + length xs \<le> length (buf_bytes b2)" using b1(5) fsz(1) m2(4) n(1) by simp
  then obtain m3 where m3: "mem_write (buf_data b2) (off + ?S) xs = Some m3" "buf_inv (b2\<lparr>buf_data := Some m3\<rparr>)"
    "vlMemAlignment (Some m3) = vlMemAlignment (buf_data b2)"
    "length (buf_bytes (b2\<lparr>buf_data := Some m3\<rparr>)) = length (buf_bytes b2)"
    "\<forall>i < length (buf_bytes b2). buf_bytes (b2\<lparr>buf_data := Some m3\<rparr>) ! i =
       (if off + ?S \<le> i \<and> i < off + ?S + length xs then xs ! (i - (off + ?S)) else buf_bytes b2 ! i)"
    using buf_poke [OF m2(2), of "off + ?S" xs] by blast
  define b3 where "b3 = b2\<lparr>buf_data := Some m3\<rparr>"
  note m3 = m3 [folded b3_def]
  have len3: "length (buf_bytes b3) = length (buf_bytes b1)" using m3(4) m2(4) by simp
  have off_le: "off \<le> length (buf_bytes b)"
    using inv mem_inv_data by (auto simp: off_def buf_inv_def buf_bytes_def split: option.splits)
  have below: "buf_bytes b3 ! i = buf_bytes b ! i" if "i < off" for i
    using that m3(5) m2(4,5) b1(6,7) off_le by simp
  have hdr: "take ?S (drop off (buf_bytes b3)) = h"
  proof (rule nth_equalityI)
    show "length (take ?S (drop off (buf_bytes b3))) = length h"
      using len3 b1(5) fsz(1) by (simp add: h_def)
    fix i
    assume "i < length (take ?S (drop off (buf_bytes b3)))"
    then have "i < ?S" "off + i < length (buf_bytes b1)" using len3 by auto
    then show "take ?S (drop off (buf_bytes b3)) ! i = h ! i"
      using m3(5) m2(4,5) len3 by (simp add: h_def)
  qed
  have pay: "take (length xs) (drop (off + ?S) (buf_bytes b3)) = xs"
  proof (rule nth_equalityI)
    show "length (take (length xs) (drop (off + ?S) (buf_bytes b3))) = length xs"
      using len3 b1(5) fsz(1) n(1) by simp
    fix i
    assume "i < length (take (length xs) (drop (off + ?S) (buf_bytes b3)))"
    then have "i < length xs" "off + ?S + i < length (buf_bytes b2)" using len3 m2(4) by auto
    then show "take (length xs) (drop (off + ?S) (buf_bytes b3)) ! i = xs ! i"
      using m3(4,5) by simp
  qed
  have "frames_ok (buf_bytes b3) fs off"
    using frames below len3 b1(5) by (intro frames_ok_agree [OF frames]) simp_all
  then have frames3: "frames_ok (buf_bytes b3) ((off, xs) # fs) (off + frame_size n)"
    using n small limit hdr pay len3 b1(5) by (simp add: h_def top)
  have "length fs * 16 \<le> off" using frames by (rule frames_ok_length)
  then have "inc32 (length fs) = Suc (length fs)" using small limit by (intro inc32_id) simp
  moreover have "u64_of (n + ?S) = n + ?S" using n(2) by (intro u64_of_id) (simp add: S)
  moreover have "b3 = b1\<lparr>buf_data := Some m3\<rparr>" by (simp add: b3_def b2_def)
  moreover have "read_range xs 0 n = Some xs" using n(1) by (simp add: read_range_def)
  moreover have "buf_data b2 = Some m2" by (simp add: b2_def)
  ultimately have "vlStackPushValue al st xs n = Some (off + ?S,
      \<lparr>st_depth = Suc (length fs), st_headOffset = off, st_buffer = b3\<rparr>)"
    using b1(1) m2(1) m3(1)
    by (simp add: vlStackPushValue_def vlStackPush_def frame_size_def depth h_def Let_def flip: b_def)
  moreover have "stack_rep \<lparr>st_depth = Suc (length fs), st_headOffset = off, st_buffer = b3\<rparr> ((off, xs) # fs)"
    using m3(2) frames3 b1(3) by (simp add: stack_rep_def top_offset_def b3_def b2_def)
  moreover have "buf_offset b3 = off + frame_size n" using b1(3) by (simp add: b3_def b2_def)
  moreover have "vlMemAlignment (buf_data b3) = vlMemAlignment (buf_data b)"
    using m3(3) m2(3) b1(4) by (simp add: b3_def b2_def)
  ultimately show ?thesis by (simp flip: b_def off_def)
qed

lemma stack_pop_ok:
  assumes rep: "stack_rep st ((off, xs) # fs)" and "length fs < 2 ^ 32 - 1"
  shows "vlStackPeekSize st = Some (length xs) \<and> vlStackSample st (vlStackPeek st) (length xs) = Some xs \<and>
    vlStackPeek st = off + STACK_HEADER_SIZE \<and>
    (\<exists>st'. vlStackPop st = Some st' \<and> stack_rep st' fs \<and> buf_offset (st_buffer st') = off \<and>
       buf_data (st_buffer st') = buf_data (st_buffer st))"
proof -
  define b where "b = st_buffer st"
  let ?S = STACK_HEADER_SIZE
  have inv: "buf_inv b" and frames: "frames_ok (buf_bytes b) ((off, xs) # fs) (buf_offset b)"
    and top: "st_headOffset st = off" and depth: "st_depth st = Suc (length fs)"
    using rep by (simp_all add: stack_rep_def b_def top_offset_def)
  have f: "length xs < 2 ^ 62" "off < 2 ^ 62" "buf_offset b = off + frame_size (length xs)"
    "buf_offset b \<le> length (buf_bytes b)"
    "take ?S (drop off (buf_bytes b)) = stack_header_bytes \<lparr>sh_size = length xs, sh_previousOffset = top_offset fs\<rparr>"
    "take (length xs) (drop (off + ?S) (buf_bytes b)) = xs" "frames_ok (buf_bytes b) fs off"
    using frames by simp_all
  have fsz: "length xs + ?S \<le> frame_size (length xs)" using frame_size_bounds(1) [OF f(1)] .
  have top_less: "top_offset fs < 2 ^ 64"
    using f(7) by (cases fs) (auto simp: top_offset_def)
  have rd: "read_stack_header (buf_data b) off = Some \<lparr>sh_size = length xs, sh_previousOffset = top_offset fs\<rparr>"
    using f fsz top_less by (intro read_header_ok [OF inv]) simp_all
  have pk: "mem_read (buf_data b) (off + ?S) (length xs) = Some xs"
    using buf_peek [OF inv, of "off + ?S" "length xs"] f fsz by simp
  have "dec32 (Suc (length fs)) = length fs" using assms(2) by (subst dec32_id) simp_all
  then have "vlStackPop st = Some \<lparr>st_depth = length fs, st_headOffset = top_offset fs,
      st_buffer = b\<lparr>buf_offset := off\<rparr>\<rparr>"
    using rd by (simp add: vlStackPop_def depth top flip: b_def)
  moreover have "stack_rep \<lparr>st_depth = length fs, st_headOffset = top_offset fs, st_buffer = b\<lparr>buf_offset := off\<rparr>\<rparr> fs"
    using inv f fsz by (auto simp: stack_rep_def buf_inv_def buf_bytes_def split: option.splits)
  ultimately show ?thesis
    using rd pk by (simp add: vlStackPeekSize_def vlStackSample_def vlStackPeek_def top flip: b_def)
qed
section \<open>A new stack\<close>

lemma buffer_init_ok:
  assumes al: "alloc_upto al limit" and "VL_DEFAULT_MEMORY_SIZE + MEMORY_HEADER_SIZE < limit"
  obtains b where "vlBufferInit al = Some b" "buf_inv b" "buf_offset b = 0"
    "length (buf_bytes b) = VL_DEFAULT_MEMORY_SIZE" "vlMemAlignment (buf_data b) = VL_DEFAULT_ALIGN"
proof -
  obtain a where "malloc_at al (VL_DEFAULT_MEMORY_SIZE + MEMORY_HEADER_SIZE) = Some a"
    using al assms(2) unfolding alloc_upto_def by blast
  then obtain m where m: "vlMemAlloc al VL_DEFAULT_MEMORY_SIZE = Some (Some m)" "mem_inv m"
    "mh_length (mem_header m) = VL_DEFAULT_MEMORY_SIZE" "mh_alignment (mem_header m) = VL_DEFAULT_ALIGN"
    using mem_alloc_inv [of al VL_DEFAULT_MEMORY_SIZE a] al
    by (auto simp: alloc_upto_def VL_DEFAULT_MEMORY_SIZE_def MEMORY_HEADER_SIZE_def)
  show thesis
  proof (rule that)
    let ?b = "\<lparr>buf_data = Some m, buf_size = 0, buf_offset = 0\<rparr>"
    show "vlBufferInit al = Some ?b"
      using m(1) by (simp add: vlBufferInit_def vlBufferInitExt_def vlMemAllocAligned_def)
    show "buf_inv ?b" using m by (simp add: buf_inv_def VL_DEFAULT_MEMORY_SIZE_def VL_DEFAULT_ALIGN_def)
    show "length (buf_bytes ?b) = VL_DEFAULT_MEMORY_SIZE" using m mem_inv_data by (simp add: buf_bytes_def)
  qed (simp_all add: m(4) vlMemAlignment_def)
qed

lemma stack_init_ok:
  assumes al: "alloc_upto al limit" and "VL_DEFAULT_MEMORY_SIZE + MEMORY_HEADER_SIZE < limit"
  shows "\<exists>st. vlStackInit al = Some st \<and> stack_rep st [] \<and> vlMemAlignment (buf_data (st_buffer st)) = VL_DEFAULT_ALIGN"
proof -
  obtain b where b: "vlBufferInit al = Some b" "buf_inv b" "buf_offset b = 0"
    "length (buf_bytes b) = VL_DEFAULT_MEMORY_SIZE" "vlMemAlignment (buf_data b) = VL_DEFAULT_ALIGN"
    by (rule buffer_init_ok [OF assms])
  obtain m' where "mem_write (buf_data b) 0 (stack_header_bytes \<lparr>sh_size = 0, sh_previousOffset = 0\<rparr>) = Some m'"
    "buf_inv (b\<lparr>buf_data := Some m'\<rparr>)" "vlMemAlignment (Some m') = vlMemAlignment (buf_data b)"
    using buf_poke [OF b(2), of 0 "stack_header_bytes \<lparr>sh_size = 0, sh_previousOffset = 0\<rparr>"] b(4)
    by (auto simp: VL_DEFAULT_MEMORY_SIZE_def STACK_HEADER_SIZE_def)
  then show ?thesis
    using b by (simp add: vlStackInit_def stack_rep_def top_offset_def)
qed

section \<open>Words on a stack\<close>

text \<open>A client that keeps words of 64 bits on the stack.\<close>

definition stack_push_u64 :: "allocator \<Rightarrow> vl_stack \<Rightarrow> u64 \<Rightarrow> vl_stack option" where
  "stack_push_u64 al st w = map_option snd (vlStackPushValue al st (nat_bytes 8 (unat w)) 8)"

definition stack_pop_u64 :: "vl_stack \<Rightarrow> (u64 option \<times> vl_stack) option" where
  "stack_pop_u64 st =
     (if vlStackEmpty st then Some (None, st)
      else do {
        n \<leftarrow> vlStackPeekSize st;
        xs \<leftarrow> vlStackSample st (vlStackPeek st) n;
        v \<leftarrow> bytes_nat xs;
        st \<leftarrow> vlStackPop st;
        Some (Some (of_nat v), st)
      })"

text \<open>The elements, read off the header chain.\<close>

fun stack_walk :: "vl_memory option \<Rightarrow> nat \<Rightarrow> nat \<Rightarrow> byte list list option" where
  "stack_walk dat 0 off = Some []"
| "stack_walk dat (Suc n) off =
     do {
       h \<leftarrow> read_stack_header dat off;
       xs \<leftarrow> mem_read dat (off + STACK_HEADER_SIZE) (sh_size h);
       xss \<leftarrow> stack_walk dat n (sh_previousOffset h);
       Some (xs # xss)
     }"

definition stack_words :: "vl_stack \<Rightarrow> u64 list" where
  "stack_words st =
     (case stack_walk (buf_data (st_buffer st)) (st_depth st) (st_headOffset st) of
        None \<Rightarrow> [] | Some xss \<Rightarrow> map (\<lambda>xs. of_nat (case bytes_nat xs of None \<Rightarrow> 0 | Some v \<Rightarrow> v)) xss)"

definition word_bytes :: "u64 \<Rightarrow> byte list" where
  "word_bytes w = nat_bytes 8 (unat w)"

lemma word_bytes: "length (word_bytes w) = 8" "bytes_nat (word_bytes w) = Some (unat w)"
proof -
  have "unat w < 256 ^ 8" using unsigned_less [of w] by simp
  then show "bytes_nat (word_bytes w) = Some (unat w)" unfolding word_bytes_def by (rule bytes_nat_bytes)
qed (simp add: word_bytes_def)

definition stack_inv :: "allocator \<Rightarrow> nat \<Rightarrow> vl_stack \<Rightarrow> bool" where
  "stack_inv al limit st \<longleftrightarrow> alloc_upto al limit \<and> limit \<le> 2 ^ 35 \<and> buf_offset (st_buffer st) < 2 ^ 35 \<and>
     (\<exists>fs ws. stack_rep st fs \<and> map snd fs = map word_bytes ws)"

text \<open>A word takes 24 bytes, and a write asks the allocator for at most twice the offset.\<close>

definition stack_room :: "nat \<Rightarrow> vl_stack \<Rightarrow> nat" where
  "stack_room limit st =
     (limit - (2 * buf_offset (st_buffer st) + vlMemAlignment (buf_data (st_buffer st)) + MEMORY_HEADER_SIZE + 1)) div 48"

lemma frames_walk:
  assumes "buf_inv b"
  shows "frames_ok (buf_bytes b) fs e \<Longrightarrow> stack_walk (buf_data b) (length fs) (top_offset fs) = Some (map snd fs)"
proof (induction "buf_bytes b" fs e rule: frames_ok.induct)
  case (2 off xs fs e)
  have f: "length xs < 2 ^ 62" "off < 2 ^ 62" "e = off + frame_size (length xs)" "e \<le> length (buf_bytes b)"
    "take STACK_HEADER_SIZE (drop off (buf_bytes b)) =
       stack_header_bytes \<lparr>sh_size = length xs, sh_previousOffset = top_offset fs\<rparr>"
    "take (length xs) (drop (off + STACK_HEADER_SIZE) (buf_bytes b)) = xs" "frames_ok (buf_bytes b) fs off"
    using 2(2) by simp_all
  have fsz: "length xs + STACK_HEADER_SIZE \<le> frame_size (length xs)" using frame_size_bounds(1) [OF f(1)] .
  have "top_offset fs < 2 ^ 64" using f(7) by (cases fs) (auto simp: top_offset_def)
  then have "read_stack_header (buf_data b) off = Some \<lparr>sh_size = length xs, sh_previousOffset = top_offset fs\<rparr>"
    using f fsz by (intro read_header_ok [OF assms]) simp_all
  moreover have "mem_read (buf_data b) (off + STACK_HEADER_SIZE) (length xs) = Some xs"
    using buf_peek [OF assms, of "off + STACK_HEADER_SIZE" "length xs"] f fsz by simp
  moreover have "top_offset ((off, xs) # fs) = off" by (simp add: top_offset_def)
  ultimately show ?case using 2(1) f(7) by simp
qed simp

lemma stack_words_rep:
  assumes "stack_rep st fs" and "map snd fs = map word_bytes ws"
  shows "stack_words st = ws"
proof -
  have "stack_walk (buf_data (st_buffer st)) (st_depth st) (st_headOffset st) = Some (map word_bytes ws)"
    using assms frames_walk [of "st_buffer st" fs] by (auto simp: stack_rep_def)
  then show ?thesis by (simp add: stack_words_def word_bytes(2) comp_def)
qed
lemma stack_inv_cases:
  assumes "stack_inv al limit st"
  obtains fs ws where "stack_rep st fs" "map snd fs = map word_bytes ws" "stack_words st = ws" "length fs < 2 ^ 32 - 1"
proof -
  obtain fs ws where r: "stack_rep st fs" "map snd fs = map word_bytes ws" using assms by (auto simp: stack_inv_def)
  then have "length fs * 16 \<le> buf_offset (st_buffer st)" by (auto simp: stack_rep_def intro: frames_ok_length)
  then have "length fs < 2 ^ 32 - 1" using assms by (simp add: stack_inv_def)
  then show thesis using r stack_words_rep that by blast
qed

lemma stack_push_u64_ok:
  assumes inv: "stack_inv al limit st" and room: "0 < stack_room limit st"
  shows "\<exists>st'. stack_push_u64 al st w = Some st' \<and> stack_inv al limit st' \<and>
    stack_words st' = w # stack_words st \<and> stack_room limit st - 1 \<le> stack_room limit st'"
proof -
  obtain fs ws where r: "stack_rep st fs" "map snd fs = map word_bytes ws" "stack_words st = ws"
    using inv by (rule stack_inv_cases)
  have al: "alloc_upto al limit" "limit \<le> 2 ^ 35" using inv by (simp_all add: stack_inv_def)
  let ?o = "buf_offset (st_buffer st)" and ?A = "vlMemAlignment (buf_data (st_buffer st))"
  have fz: "frame_size 8 = 24"
    by (simp add: frame_size_def STACK_HEADER_SIZE_def VL_DEFAULT_ALIGN_def padUp_def VL_MEMORY_PAD_UP_def)
  have le: "48 + (2 * ?o + ?A + MEMORY_HEADER_SIZE + 1) \<le> limit"
  proof -
    have "48 * 1 \<le> 48 * stack_room limit st" using room by linarith
    also have "\<dots> \<le> limit - (2 * ?o + ?A + MEMORY_HEADER_SIZE + 1)" unfolding stack_room_def by (rule times_div_less_eq_dividend)
    finally show ?thesis by linarith
  qed
  have "write_room (st_buffer st) (frame_size 8) < limit" using le by (simp add: write_room_def fz)
  then obtain st' where st': "vlStackPushValue al st (word_bytes w) 8 = Some (?o + STACK_HEADER_SIZE, st')"
    "stack_rep st' ((?o, word_bytes w) # fs)" "buf_offset (st_buffer st') = ?o + frame_size 8"
    "vlMemAlignment (buf_data (st_buffer st')) = ?A"
    using stack_push_ok [OF r(1) al word_bytes(1)] by auto
  have "map snd ((?o, word_bytes w) # fs) = map word_bytes (w # ws)" using r(2) by simp
  moreover have "buf_offset (st_buffer st') < 2 ^ 35" using st'(3) fz le al(2) by simp
  ultimately have "stack_inv al limit st'" "stack_words st' = w # ws"
    using st'(2) al stack_words_rep unfolding stack_inv_def by blast+
  moreover have "stack_room limit st' = stack_room limit st - 1"
  proof -
    obtain k where k: "limit = 48 + (2 * ?o + ?A + MEMORY_HEADER_SIZE + 1) + k" using le le_Suc_ex by blast
    then have "limit - (2 * (?o + 24) + ?A + MEMORY_HEADER_SIZE + 1) = k"
      "limit - (2 * ?o + ?A + MEMORY_HEADER_SIZE + 1) = 48 + k" by simp_all
    then show ?thesis using st'(3,4) fz by (simp add: stack_room_def)
  qed
  ultimately show ?thesis using st'(1) r(3) by (simp add: stack_push_u64_def flip: word_bytes_def)
qed

lemma stack_pop_u64_empty:
  assumes "stack_inv al limit st" and "stack_words st = []"
  shows "stack_pop_u64 st = Some (None, st)"
proof -
  obtain fs ws where "stack_rep st fs" "map snd fs = map word_bytes ws" "stack_words st = ws"
    using assms(1) by (rule stack_inv_cases)
  then show ?thesis using assms(2) by (simp add: stack_pop_u64_def vlStackEmpty_def stack_rep_def)
qed

lemma stack_pop_u64_ok:
  assumes inv: "stack_inv al limit st" and w: "stack_words st = w # ws"
  shows "\<exists>st'. stack_pop_u64 st = Some (Some w, st') \<and> stack_inv al limit st' \<and> stack_words st' = ws"
proof -
  obtain fs' where r: "stack_rep st fs'" "map snd fs' = map word_bytes (w # ws)" "length fs' < 2 ^ 32 - 1"
    using inv w by (metis stack_inv_cases)
  then obtain off fs where fs: "fs' = (off, word_bytes w) # fs" "map snd fs = map word_bytes ws" by auto
  then have "length fs < 2 ^ 32 - 1" using r(3) by simp
  from stack_pop_ok [OF r(1) [unfolded fs(1)] this]
  obtain st' where st': "vlStackPeekSize st = Some (length (word_bytes w))"
    "vlStackSample st (vlStackPeek st) (length (word_bytes w)) = Some (word_bytes w)"
    "vlStackPop st = Some st'" "stack_rep st' fs" "buf_offset (st_buffer st') = off" by blast
  have "off \<le> buf_offset (st_buffer st)" using r(1) fs(1) by (simp add: stack_rep_def)
  then have "stack_inv al limit st'" using inv st'(4,5) fs(2) by (auto simp: stack_inv_def)
  moreover have "stack_words st' = ws" using st'(4) fs(2) by (rule stack_words_rep)
  moreover have "st_depth st \<noteq> 0" using r(1) fs(1) by (simp add: stack_rep_def)
  ultimately show ?thesis using st' by (simp add: stack_pop_u64_def vlStackEmpty_def word_bytes(2))
qed

interpretation stack_lifo: lifo_container "stack_push_u64 al" stack_pop_u64 stack_words "stack_inv al limit"
  "\<lambda>st. 0 < stack_room limit st" "stack_room limit" "\<lambda>_ _. True" for al limit
  by unfold_locales (use stack_push_u64_ok stack_pop_u64_empty stack_pop_u64_ok in blast)+

section \<open>Properties\<close>

text \<open>
  C25. \<^verbatim>\<open>vlStackPushValue\<close> puts an element of any size on top, where \<^verbatim>\<open>vlStackPeekSize\<close> and
  \<^verbatim>\<open>vlStackSample\<close> find it, also when the buffer had to move, and \<^verbatim>\<open>vlStackPop\<close> gives back the
  frames from before.
\<close>

theorem stack_refines:
  assumes "stack_rep st fs" and "alloc_upto al limit" and "limit \<le> 2 ^ 35"
    and "length xs < 2 ^ 62" and "write_room (st_buffer st) (frame_size (length xs)) < limit"
  shows "\<exists>st1 st2. vlStackPushValue al st xs (length xs) = Some (vlStackPeek st1, st1) \<and>
    stack_rep st1 ((buf_offset (st_buffer st), xs) # fs) \<and> vlStackSize st1 = Suc (length fs) \<and>
    vlStackPeekSize st1 = Some (length xs) \<and> vlStackSample st1 (vlStackPeek st1) (length xs) = Some xs \<and>
    vlStackPop st1 = Some st2 \<and> stack_rep st2 fs"
proof -
  obtain st1 where st1: "vlStackPushValue al st xs (length xs) =
      Some (buf_offset (st_buffer st) + STACK_HEADER_SIZE, st1)"
    "stack_rep st1 ((buf_offset (st_buffer st), xs) # fs)"
    using stack_push_ok [OF assms(1,2,3) refl assms(4,5)] by blast
  have "length fs * 16 \<le> buf_offset (st_buffer st)"
    using assms(1) by (auto simp: stack_rep_def intro: frames_ok_length)
  then have "length fs < 2 ^ 32 - 1" using assms(3,5) by (simp add: write_room_def)
  then show ?thesis
    using stack_pop_ok [OF st1(2)] st1 by (auto simp: vlStackSize_def stack_rep_def)
qed

text \<open>Every new stack of an allocator is a start.\<close>

lemma sample_stack:
  obtains st where "vlStackInit some_allocator = Some st" "stack_rep st []" "buf_offset (st_buffer st) = 0"
    "vlMemAlignment (buf_data (st_buffer st)) = VL_DEFAULT_ALIGN"
  using stack_init_ok [OF some_allocator_upto]
  by (force simp: VL_DEFAULT_MEMORY_SIZE_def MEMORY_HEADER_SIZE_def stack_rep_def)

theorem stack_refines_witness:
  "\<exists>st st1 st2. vlStackInit some_allocator = Some st \<and>
     vlStackPushValue some_allocator st [Some 1, Some 2, Some 3] 3 = Some (vlStackPeek st1, st1) \<and>
     vlStackSample st1 (vlStackPeek st1) 3 = Some [Some 1, Some 2, Some 3] \<and> vlStackPop st1 = Some st2"
proof -
  obtain st where st: "vlStackInit some_allocator = Some st" "stack_rep st []" "buf_offset (st_buffer st) = 0"
    "vlMemAlignment (buf_data (st_buffer st)) = VL_DEFAULT_ALIGN" by (rule sample_stack)
  have "frame_size 3 = 24" by (simp add: frame_size_def STACK_HEADER_SIZE_def VL_DEFAULT_ALIGN_def padUp_def VL_MEMORY_PAD_UP_def)
  then have "write_room (st_buffer st) (frame_size 3) < 2 ^ 20" using st by (simp add: write_room_def mem_defs)
  then show ?thesis
    using stack_refines [OF st(2) some_allocator_upto, of "[Some 1, Some 2, Some 3]"] st(1)
    by (simp add: numeral_3_eq_3) blast
qed

text \<open>
  Words that are pushed on a stack come back in the opposite order, with what was there
  before below them.
\<close>

theorem stack_lifo_order:
  assumes "stack_inv al limit st" and "length ws \<le> stack_room limit st"
  shows "\<exists>st1 st2. push_all (stack_push_u64 al) st ws = Some st1 \<and>
    pop_many stack_pop_u64 (length ws) st1 = Some (map Some (rev ws), st2) \<and>
    stack_inv al limit st2 \<and> stack_words st2 = stack_words st"
  using stack_lifo.push_all_pop_many [OF assms] by simp

theorem stack_lifo_order_witness:
  "\<exists>st st1 st2. vlStackInit some_allocator = Some st \<and>
     push_all (stack_push_u64 some_allocator) st [10, 20, 30] = Some st1 \<and>
     pop_many stack_pop_u64 3 st1 = Some ([Some 30, Some 20, Some 10], st2)"
proof -
  obtain st where st: "vlStackInit some_allocator = Some st" "stack_rep st []" "buf_offset (st_buffer st) = 0"
    "vlMemAlignment (buf_data (st_buffer st)) = VL_DEFAULT_ALIGN" by (rule sample_stack)
  have inv: "stack_inv some_allocator (2 ^ 20) st"
    using st(2,3) some_allocator_upto by (auto simp: stack_inv_def intro: exI [of _ "[]"])
  have "3 \<le> stack_room (2 ^ 20) st" using st(3,4) by (simp add: stack_room_def mem_defs)
  then show ?thesis
    using stack_lifo_order [OF inv, of "[10, 20, 30]"] st(1) by (simp add: numeral_3_eq_3) blast
qed

end
