(* ===== verification/VL_Arena.thy ===== *)
theory VL_Arena
  imports VL_Buffer VL_Set
begin

text \<open>
  \<^verbatim>\<open>src/core/vl_arena.c\<close>: a heap in one allocation. Each block has its size in front of it, header
  included; the free blocks are nodes of an ordered set, by their offsets. A \<^verbatim>\<open>vl_arena_ptr\<close> is the
  offset of the byte after the header. The arena is built on the models of \<^verbatim>\<open>vl_memory\<close> and
  \<^verbatim>\<open>vl_set\<close>; the C allocator serves both.
\<close>

record vl_arena_node =
  an_offset :: nat
  an_size :: nat

record vl_arena =
  ar_data :: "vl_memory option"
  ar_freeSet :: "vl_arena_node vl_set"

text \<open>The comparison reads the first eight bytes of a node only, the offset.\<close>

definition vl_ArenaNodeCompare :: "vl_arena_node \<Rightarrow> vl_arena_node \<Rightarrow> int" where
  "vl_ArenaNodeCompare a b =
     (if an_offset a > an_offset b then 1 else 0) - (if an_offset b > an_offset a then 1 else 0)"

text \<open>A search passes a pointer to an offset alone: the size after it is never read.\<close>

definition offset_key :: "nat \<Rightarrow> vl_arena_node" where
  "offset_key off = \<lparr>an_offset = off, an_size = 0\<rparr>"

definition malloc_ok :: "allocator \<Rightarrow> nat \<Rightarrow> bool" where
  "malloc_ok al n \<longleftrightarrow> malloc_at al n \<noteq> None"

section \<open>The size in front of a block\<close>

definition BLOCK_HEADER_SIZE :: nat where
  "BLOCK_HEADER_SIZE = 8"

definition load_size :: "vl_arena \<Rightarrow> nat \<Rightarrow> nat option" where
  "load_size arena off = do { xs \<leftarrow> mem_read (ar_data arena) off BLOCK_HEADER_SIZE; bytes_nat xs }"

definition store_size :: "vl_arena \<Rightarrow> nat \<Rightarrow> nat \<Rightarrow> vl_arena option" where
  "store_size arena off n =
     do { dat \<leftarrow> mem_write (ar_data arena) off (nat_bytes BLOCK_HEADER_SIZE n); Some (arena\<lparr>ar_data := Some dat\<rparr>) }"

text \<open>The bytes at a pointer that \<^verbatim>\<open>vlArenaMemSample\<close> returns: read, and written.\<close>

definition vlArenaMemSample :: "vl_arena \<Rightarrow> nat \<Rightarrow> nat \<Rightarrow> byte list option" where
  "vlArenaMemSample arena ptr n = mem_read (ar_data arena) ptr n"

definition vlArenaMemStore :: "vl_arena \<Rightarrow> nat \<Rightarrow> byte list \<Rightarrow> vl_arena option" where
  "vlArenaMemStore arena ptr xs =
     do { dat \<leftarrow> mem_write (ar_data arena) ptr xs; Some (arena\<lparr>ar_data := Some dat\<rparr>) }"

text \<open>A pointer below the header size would give an address outside the arena.\<close>

definition vlArenaMemSize :: "vl_arena \<Rightarrow> nat \<Rightarrow> nat option" where
  "vlArenaMemSize arena ptr =
     (if ptr < BLOCK_HEADER_SIZE then None
      else do {
        n \<leftarrow> load_size arena (ptr - BLOCK_HEADER_SIZE);
        Some (u64_of (n + (2 ^ 64 - BLOCK_HEADER_SIZE)))
      })"

section \<open>Initialising, clearing and cloning\<close>

text \<open>\<^verbatim>\<open>sizeof(vl_arena_node)\<close> is 16, \<^verbatim>\<open>sizeof(vl_arena)\<close> is 104.\<close>

definition vlArenaInit :: "allocator \<Rightarrow> nat \<Rightarrow> vl_arena option" where
  "vlArenaInit al initialSize =
     do {
       freeSet \<leftarrow> vlSetInit (malloc_ok al) 16 vl_ArenaNodeCompare;
       (_, freeSet) \<leftarrow> vlSetInsert freeSet \<lparr>an_offset = 0, an_size = initialSize\<rparr>;
       dat \<leftarrow> vlMemAlloc al initialSize;
       Some \<lparr>ar_data = dat, ar_freeSet = freeSet\<rparr>
     }"

definition vlArenaFree :: "vl_arena \<Rightarrow> unit option" where
  "vlArenaFree arena = do { _ \<leftarrow> vlSetFree (ar_freeSet arena); vlMemFree (ar_data arena) }"

text \<open>The result of \<^verbatim>\<open>malloc\<close> is used unchecked.\<close>

definition vlArenaNew :: "allocator \<Rightarrow> nat \<Rightarrow> vl_arena option" where
  "vlArenaNew al initialSize = do { _ \<leftarrow> malloc_at al 104; vlArenaInit al initialSize }"

definition vlArenaDelete :: "vl_arena \<Rightarrow> unit option" where
  "vlArenaDelete arena = vlArenaFree arena"

definition vlArenaClear :: "vl_arena \<Rightarrow> vl_arena option" where
  "vlArenaClear arena =
     do {
       freeSet \<leftarrow> vlSetClear (ar_freeSet arena);
       (_, freeSet) \<leftarrow> vlSetInsert freeSet \<lparr>an_offset = 0, an_size = vlMemSize (ar_data arena)\<rparr>;
       Some (arena\<lparr>ar_freeSet := freeSet\<rparr>)
     }"

definition vlArenaClone :: "allocator \<Rightarrow> vl_arena \<Rightarrow> vl_arena option \<Rightarrow> vl_arena option" where
  "vlArenaClone al src dest =
     do {
       let cloneMemSize = vlMemSize (ar_data src);
       dest \<leftarrow>
         (case dest of
            None \<Rightarrow> vlArenaNew al cloneMemSize
          | Some d \<Rightarrow> do { dat \<leftarrow> vlMemRealloc al (ar_data d) cloneMemSize; Some (d\<lparr>ar_data := dat\<rparr>) });
       freeSet \<leftarrow> vlSetClone (malloc_ok al) (ar_freeSet src) (Some (ar_freeSet dest));
       xs \<leftarrow> mem_read (ar_data src) 0 cloneMemSize;
       dat \<leftarrow> mem_write (ar_data dest) 0 xs;
       Some \<lparr>ar_data = Some dat, ar_freeSet = freeSet\<rparr>
     }"

section \<open>Merging free blocks\<close>

definition node_end :: "vl_arena_node \<Rightarrow> nat" where
  "node_end node = u64_of (an_offset node + an_size node)"

text \<open>To the right, up to the last free block of a row; the result is its iterator.\<close>

partial_function (option) coalesce_right ::
  "vl_arena_node vl_set \<Rightarrow> vl_set_iter \<Rightarrow> vl_set_iter \<Rightarrow> vl_set_iter option" where
  [code]: "coalesce_right freeSet rightIter tempIter =
     (if tempIter \<noteq> VL_SET_ITER_INVALID then do {
        node \<leftarrow> vlSetSample freeSet tempIter;
        rightNode \<leftarrow> vlSetSample freeSet rightIter;
        if node_end rightNode \<noteq> an_offset node then Some rightIter
        else do {
          nextIter \<leftarrow> vlSetNext freeSet tempIter;
          coalesce_right freeSet tempIter nextIter
        }
      } else Some rightIter)"

text \<open>To the left, merging each block into its left neighbour as long as they touch.\<close>

definition set_grow_node :: "vl_arena_node vl_set \<Rightarrow> vl_set_iter \<Rightarrow> nat \<Rightarrow> vl_arena_node vl_set option" where
  "set_grow_node freeSet iter n =
     set_modify freeSet iter (\<lambda>c. c\<lparr>sn_elem := (sn_elem c)\<lparr>an_size := u64_of (an_size (sn_elem c) + n)\<rparr>\<rparr>)"

partial_function (option) coalesce_left ::
  "vl_arena_node vl_set \<Rightarrow> vl_set_iter \<Rightarrow> vl_set_iter \<Rightarrow> vl_arena_node vl_set option" where
  [code]: "coalesce_left freeSet rightIter leftIter =
     (if leftIter \<noteq> VL_SET_ITER_INVALID then do {
        leftNode \<leftarrow> vlSetSample freeSet leftIter;
        rightNode \<leftarrow> vlSetSample freeSet rightIter;
        if node_end leftNode \<noteq> an_offset rightNode then Some freeSet
        else do {
          freeSet \<leftarrow> set_grow_node freeSet leftIter (an_size rightNode);
          nextLeftIter \<leftarrow> vlSetPrev freeSet leftIter;
          freeSet \<leftarrow> vlSetRemove freeSet rightIter;
          coalesce_left freeSet leftIter nextLeftIter
        }
      } else Some freeSet)"

definition vl_HeapCoalesce :: "vl_arena \<Rightarrow> vl_set_iter \<Rightarrow> vl_arena option" where
  "vl_HeapCoalesce arena rightIter =
     (if rightIter = VL_SET_ITER_INVALID then Some arena
      else do {
        tempIter \<leftarrow> vlSetNext (ar_freeSet arena) rightIter;
        rightIter \<leftarrow> coalesce_right (ar_freeSet arena) rightIter tempIter;
        leftIter \<leftarrow> vlSetPrev (ar_freeSet arena) rightIter;
        freeSet \<leftarrow> coalesce_left (ar_freeSet arena) rightIter leftIter;
        Some (arena\<lparr>ar_freeSet := freeSet\<rparr>)
      })"

text \<open>An insertion into the set of free blocks that is followed by the merging.\<close>

definition insert_free :: "vl_arena \<Rightarrow> nat \<Rightarrow> nat \<Rightarrow> vl_arena option" where
  "insert_free arena off n =
     do {
       (iter, freeSet) \<leftarrow> vlSetInsert (ar_freeSet arena) \<lparr>an_offset = off, an_size = n\<rparr>;
       vl_HeapCoalesce (arena\<lparr>ar_freeSet := freeSet\<rparr>) iter
     }"

section \<open>Capacity\<close>

definition vlArenaTotalCapacity :: "vl_arena \<Rightarrow> nat" where
  "vlArenaTotalCapacity arena = vlMemSize (ar_data arena)"

partial_function (option) total_free_loop ::
  "vl_arena_node vl_set \<Rightarrow> vl_set_iter \<Rightarrow> nat \<Rightarrow> nat option" where
  [code]: "total_free_loop freeSet iter acc =
     (if iter \<noteq> VL_SET_ITER_INVALID then do {
        node \<leftarrow> vlSetSample freeSet iter;
        nextIter \<leftarrow> vlSetNext freeSet iter;
        total_free_loop freeSet nextIter (u64_of (acc + an_size node))
      } else Some acc)"

definition vlArenaTotalFree :: "vl_arena \<Rightarrow> nat option" where
  "vlArenaTotalFree arena = do { iter \<leftarrow> vlSetFront (ar_freeSet arena); total_free_loop (ar_freeSet arena) iter 0 }"

text \<open>
  The growth of the allocation in \<^verbatim>\<open>vlArenaReserve\<close> and \<^verbatim>\<open>vlArenaMemAlloc\<close>: the capacity doubles
  until \<open>n\<close> more bytes fit. The result is how much it grew.
\<close>

definition grow_data :: "allocator \<Rightarrow> vl_arena \<Rightarrow> nat \<Rightarrow> (nat \<times> vl_arena) option" where
  "grow_data al arena n =
     do {
       let initSize = vlMemSize (ar_data arena);
       newSize \<leftarrow> grow_size initSize (u64_of (n + initSize));
       dat \<leftarrow> (if newSize \<noteq> initSize then vlMemRealloc al (ar_data arena) newSize else Some (ar_data arena));
       Some (u64_of (vlMemSize dat + (2 ^ 64 - initSize)), arena\<lparr>ar_data := dat\<rparr>)
     }"

definition vlArenaReserve :: "allocator \<Rightarrow> vl_arena \<Rightarrow> nat \<Rightarrow> vl_arena option" where
  "vlArenaReserve al arena numBytes =
     do {
       freeMem \<leftarrow> vlArenaTotalFree arena;
       let initSize = vlMemSize (ar_data arena);
       let numBytes = numBytes - (if numBytes \<le> freeMem then 0 else freeMem);
       (growth, arena) \<leftarrow> grow_data al arena numBytes;
       insert_free arena initSize growth
     }"

section \<open>Blocks\<close>

text \<open>
  The search for the first free block that is large enough: a block of exactly the size leaves
  the set, from a larger one the end is taken. The result is the pointer and the arena, \<^const>\<open>None\<close>
  when there is no such block.
\<close>

partial_function (option) alloc_search ::
  "vl_arena \<Rightarrow> nat \<Rightarrow> vl_set_iter \<Rightarrow> (nat \<times> vl_arena) option option" where
  [code]: "alloc_search arena n freeIter =
     (if freeIter \<noteq> VL_SET_ITER_INVALID then do {
        arenaNode \<leftarrow> vlSetSample (ar_freeSet arena) freeIter;
        if an_size arenaNode = n then do {
          let ptr = an_offset arenaNode;
          freeSet \<leftarrow> vlSetRemove (ar_freeSet arena) freeIter;
          arena \<leftarrow> store_size (arena\<lparr>ar_freeSet := freeSet\<rparr>) ptr n;
          Some (Some (ptr + BLOCK_HEADER_SIZE, arena))
        } else if an_size arenaNode > n then do {
          let rest = an_size arenaNode - n;
          freeSet \<leftarrow> set_modify (ar_freeSet arena) freeIter (\<lambda>c. c\<lparr>sn_elem := (sn_elem c)\<lparr>an_size := rest\<rparr>\<rparr>);
          let ptr = an_offset arenaNode + rest;
          arena \<leftarrow> store_size (arena\<lparr>ar_freeSet := freeSet\<rparr>) ptr n;
          Some (Some (ptr + BLOCK_HEADER_SIZE, arena))
        } else do {
          nextIter \<leftarrow> vlSetNext (ar_freeSet arena) freeIter;
          alloc_search arena n nextIter
        }
      } else Some None)"

definition vlArenaMemAlloc :: "allocator \<Rightarrow> vl_arena \<Rightarrow> nat \<Rightarrow> (nat \<times> vl_arena) option" where
  "vlArenaMemAlloc al arena n =
     (if n = 0 then Some (0, arena)
      else do {
        freeIter \<leftarrow> vlSetFront (ar_freeSet arena);
        let n = u64_of (n + BLOCK_HEADER_SIZE);
        found \<leftarrow> alloc_search arena n freeIter;
        case found of
          Some r \<Rightarrow> Some r
        | None \<Rightarrow> do {
            let initSize = vlMemSize (ar_data arena);
            (growth, arena) \<leftarrow> grow_data al arena n;
            let rest = u64_of (growth + (2 ^ 64 - n));
            arena \<leftarrow> insert_free arena initSize rest;
            let off = initSize + rest;
            arena \<leftarrow> store_size arena off n;
            Some (off + BLOCK_HEADER_SIZE, arena)
          }
      })"

definition vlArenaMemFree :: "vl_arena \<Rightarrow> nat \<Rightarrow> vl_arena option" where
  "vlArenaMemFree arena ptr =
     (if ptr < BLOCK_HEADER_SIZE then None
      else do {
        let ptr = ptr - BLOCK_HEADER_SIZE;
        n \<leftarrow> load_size arena ptr;
        if n = 0 then Some arena else insert_free arena ptr n
      })"

text \<open>
  The free block to the right of the one that grows is used if it is large enough; the inner
  result is \<^const>\<open>None\<close> if it is not, or if there is none.
\<close>

definition realloc_in_place :: "vl_arena \<Rightarrow> nat \<Rightarrow> nat \<Rightarrow> nat \<Rightarrow> (nat \<times> vl_arena) option option" where
  "realloc_in_place arena ptr origSize n =
     do {
       rightIter \<leftarrow> vlSetFind (ar_freeSet arena) (offset_key (u64_of (ptr + origSize)));
       if rightIter \<noteq> VL_SET_ITER_INVALID then do {
         rightNode \<leftarrow> vlSetSample (ar_freeSet arena) rightIter;
         if u64_of (an_size rightNode + origSize) \<ge> n then do {
           freeSet \<leftarrow> vlSetRemove (ar_freeSet arena) rightIter;
           freeSet \<leftarrow>
             (if u64_of (an_size rightNode + origSize) \<noteq> n then do {
                (_, freeSet) \<leftarrow> vlSetInsert freeSet
                  \<lparr>an_offset = ptr + n, an_size = u64_of (origSize + an_size rightNode) - n\<rparr>;
                Some freeSet
              } else Some freeSet);
           arena \<leftarrow> store_size (arena\<lparr>ar_freeSet := freeSet\<rparr>) ptr n;
           Some (Some (ptr + BLOCK_HEADER_SIZE, arena))
         } else Some None
       } else Some None
     }"

text \<open>
  \<^verbatim>\<open>vlArenaMemRealloc\<close> moves its pointer to the header first, and goes on with that: it is what
  comes back when the size does not change, and where the copy of a moved block starts.
\<close>

definition vlArenaMemRealloc :: "allocator \<Rightarrow> vl_arena \<Rightarrow> nat \<Rightarrow> nat \<Rightarrow> (nat \<times> vl_arena) option" where
  "vlArenaMemRealloc al arena ptr n =
     (if ptr < BLOCK_HEADER_SIZE then None
      else do {
        let ptr = ptr - BLOCK_HEADER_SIZE;
        let n = u64_of (n + BLOCK_HEADER_SIZE);
        origSize \<leftarrow> load_size arena ptr;
        if n = origSize then Some (ptr, arena)
        else if origSize > n then do {
          arena \<leftarrow> insert_free arena (ptr + n) (origSize - n);
          arena \<leftarrow> store_size arena ptr n;
          Some (ptr + BLOCK_HEADER_SIZE, arena)
        } else do {
          grown \<leftarrow> realloc_in_place arena ptr origSize n;
          case grown of
            Some r \<Rightarrow> Some r
          | None \<Rightarrow> do {
              (result, arena) \<leftarrow> vlArenaMemAlloc al arena n;
              xs \<leftarrow> vlArenaMemSample arena ptr origSize;
              arena \<leftarrow> vlArenaMemStore arena result xs;
              arena \<leftarrow> vlArenaMemFree arena (ptr + BLOCK_HEADER_SIZE);
              Some (result, arena)
            }
        }
      })"

section \<open>Joining\<close>

text \<open>
  The source of \<^verbatim>\<open>vlArenaMemPrepend\<close> and \<^verbatim>\<open>vlArenaMemAppend\<close> lies elsewhere, or in the arena at an
  offset that is kept over the reallocation. The offset 0 is not: the old address is used
  then, which is the right one as long as the allocation did not move.
\<close>

datatype arena_source = External "byte list" | Internal nat

definition source_bytes :: "vl_arena \<Rightarrow> vl_arena \<Rightarrow> arena_source \<Rightarrow> nat \<Rightarrow> nat \<Rightarrow> byte list option" where
  "source_bytes before arena src shift n =
     (case src of
        External xs \<Rightarrow> read_range xs 0 n
      | Internal off \<Rightarrow>
          if off + shift > 0 then vlArenaMemSample arena (off + shift) n
          else if map_option mem_address (ar_data before) = map_option mem_address (ar_data arena)
            then vlArenaMemSample arena 0 n else None)"

definition vlArenaMemPrepend ::
  "allocator \<Rightarrow> vl_arena \<Rightarrow> nat \<Rightarrow> arena_source \<Rightarrow> nat \<Rightarrow> (nat \<times> vl_arena) option" where
  "vlArenaMemPrepend al arena dstPtr src len =
     do {
       let before = arena;
       originalSize \<leftarrow> vlArenaMemSize arena dstPtr;
       (dstPtr, arena) \<leftarrow> vlArenaMemRealloc al arena dstPtr (u64_of (len + originalSize));
       xs \<leftarrow> vlArenaMemSample arena dstPtr originalSize;
       arena \<leftarrow> vlArenaMemStore arena (dstPtr + len) xs;
       xs \<leftarrow> source_bytes before arena src len len;
       arena \<leftarrow> vlArenaMemStore arena dstPtr xs;
       Some (dstPtr, arena)
     }"

definition vlArenaMemAppend ::
  "allocator \<Rightarrow> vl_arena \<Rightarrow> nat \<Rightarrow> arena_source \<Rightarrow> nat \<Rightarrow> (nat \<times> vl_arena) option" where
  "vlArenaMemAppend al arena dstPtr src len =
     do {
       let before = arena;
       originalSize \<leftarrow> vlArenaMemSize arena dstPtr;
       (dstPtr, arena) \<leftarrow> vlArenaMemRealloc al arena dstPtr (u64_of (len + originalSize));
       xs \<leftarrow> source_bytes before arena src 0 len;
       arena \<leftarrow> vlArenaMemStore arena (dstPtr + originalSize) xs;
       Some (dstPtr, arena)
     }"

end
