(* ===== verification/VL_ArenaFree.thy ===== *)
theory VL_ArenaFree
  imports VL_Arena VL_SetSpec
begin

text \<open>
  The set of free blocks of an arena: the operations of \<^verbatim>\<open>vl_set\<close> on it, as lists of nodes in
  ascending order, and the merging of neighbours.
\<close>

section \<open>The set as a list of nodes\<close>

interpretation cmp_node: ordering_comparator vl_ArenaNodeCompare
  by unfold_locales (auto simp: vl_ArenaNodeCompare_def split: if_splits)

lemma node_compare:
  "vl_ArenaNodeCompare a b < 0 \<longleftrightarrow> an_offset a < an_offset b"
  "0 < vl_ArenaNodeCompare a b \<longleftrightarrow> an_offset b < an_offset a"
  "vl_ArenaNodeCompare a b = 0 \<longleftrightarrow> an_offset a = an_offset b"
  by (auto simp: vl_ArenaNodeCompare_def)

text \<open>A well-formed free set with its iterators and their nodes.\<close>

definition fset :: "vl_arena_node vl_set \<Rightarrow> vl_set_iter list \<Rightarrow> vl_arena_node list \<Rightarrow> bool" where
  "fset s is ns \<longleftrightarrow> set_inv s \<and> set_comparator s = vl_ArenaNodeCompare \<and> set_iters s = is \<and> set_contents s = ns"

lemma fsetD:
  assumes "fset s is ns"
  shows "set_inv s" and "set_comparator s = vl_ArenaNodeCompare" and "set_iters s = is"
    and "ns = map (elt s) is" and "ordering_comparator (set_comparator s)" and "distinct is"
    and "sorted_wrt (\<lambda>a b. an_offset a < an_offset b) ns" and "SNIL \<notin> set is" and "length is = length ns"
proof -
  show inv: "set_inv s" "set_comparator s = vl_ArenaNodeCompare" "set_iters s = is"
    using assms by (simp_all add: fset_def)
  show eq: "ns = map (elt s) is" using set_inv_contents(1) [OF inv(1)] assms by (auto simp: fset_def)
  then show "length is = length ns" by simp
  show "ordering_comparator (set_comparator s)" by (simp add: inv(2) cmp_node.ordering_comparator_axioms)
  show "distinct is" using set_invD(4) [OF inv(1)] inv(3) by simp
  have "sorted_wrt (\<lambda>a b. an_offset a < an_offset b) (set_contents s)"
    using inv(1) unfolding set_inv_def inv(2) node_compare by simp
  moreover have "set_contents s = ns" using assms by (simp add: fset_def)
  ultimately show "sorted_wrt (\<lambda>a b. an_offset a < an_offset b) ns" by simp
  show "SNIL \<notin> set is" using inv SNIL_fresh [OF set_invD(5) [OF inv(1)]] by (auto simp: set_inv_def)
qed

lemma fset_sample:
  assumes "fset s (is @ i # js) (xs @ x # ys)" and "length is = length xs"
  shows "vlSetSample s i = Some x" and "elt s i = x" and "map (elt s) is = xs" and "map (elt s) js = ys"
proof -
  have "map (elt s) is @ elt s i # map (elt s) js = xs @ x # ys" using fsetD(4) [OF assms(1)] by simp
  then show e: "elt s i = x" "map (elt s) is = xs" "map (elt s) js = ys" using assms(2) by simp_all
  show "vlSetSample s i = Some x" using set_inv_contents(2) [OF fsetD(1) [OF assms(1)], of i] fsetD(3) [OF assms(1)] e(1) by simp
qed

lemma fset_next_prev:
  assumes "fset s (is @ i # js) ns"
  shows "vlSetNext s i = Some (hd_or js SNIL)" and "vlSetPrev s i = Some (last_or is SNIL)"
  using set_next_prev [OF fsetD(1,3) [OF assms]] .

lemma fset_front: "fset s is ns \<Longrightarrow> vlSetFront s = Some (hd_or is SNIL)"
  using vlSetFront_rep [OF set_invD(1), of s] fsetD(1,3) [of s "is" ns] by (simp add: set_iters_def)

lemma fset_insert:
  assumes f: "fset s ks (xs @ ys)" and ready: "pool_ready (set_nodePool s)"
    and low: "\<forall>x \<in> set xs. an_offset x < an_offset e" and high: "\<forall>y \<in> set ys. an_offset e < an_offset y"
  obtains i s' "is" js where "vlSetInsert s e = Some (i, s')" "fset s' (is @ i # js) (xs @ e # ys)"
    "ks = is @ js" "length is = length xs" "i \<noteq> SNIL"
    "pool_room (set_nodePool s) - 1 \<le> pool_room (set_nodePool s')"
    "\<And>n. pool_can_return (set_nodePool s) n \<Longrightarrow> pool_can_return (set_nodePool s') n"
proof -
  note D = fsetD [OF f]
  from D(1,5) ready show thesis
  proof (cases rule: vlSetInsert_ok [where e = e])
    case (old i)
    then have "elt s i \<in> set (xs @ ys)" using D(3,4) by auto
    then have "an_offset (elt s i) \<noteq> an_offset e" using low high by auto
    then show thesis using old(4) D(2) by (simp add: node_compare)
  next
    case (new i s' us vs)
    note p = inserts_at_inv [OF D(1,5) new(2-5)]
    have cmp': "set_comparator s' = vl_ArenaNodeCompare" using new(2) D(2) by (auto simp: inserts_at_def)
    have fl: "filter (\<lambda>x. an_offset x < an_offset e) (xs @ ys) = xs"
      "filter (\<lambda>x. an_offset e < an_offset x) (xs @ ys) = ys"
      using low high by (auto simp: filter_id_conv filter_empty_conv intro: less_imp_not_less)
    have c: "set_contents s = xs @ ys" using f by (simp add: fset_def)
    have f': "fset s' (us @ i # vs) (xs @ e # ys)"
      using p(1,2,4) cmp' fl by (simp add: fset_def D(2) node_compare c)
    have "map (elt s) (us @ vs) = xs @ ys" using D(3,4) new(3) by simp
    moreover have "\<forall>j \<in> set us. an_offset (elt s j) < an_offset e" "\<forall>j \<in> set vs. an_offset e < an_offset (elt s j)"
      using new(4,5) D(2) by (simp_all add: node_compare)
    moreover have "filter (\<lambda>x. an_offset x < an_offset e) (map (elt s) us @ map (elt s) vs) = map (elt s) us"
      using calculation(2,3) by (auto simp: filter_id_conv filter_empty_conv intro: less_imp_not_less)
    ultimately have "map (elt s) us = xs" using fl(1) by simp
    then have "length us = length xs" by auto
    moreover have "i \<noteq> SNIL" using fsetD(8) [OF f'] by auto
    moreover have "pool_room (set_nodePool s) - 1 \<le> pool_room (set_nodePool s')"
      "\<And>n. pool_can_return (set_nodePool s) n \<Longrightarrow> pool_can_return (set_nodePool s') n"
      using new(2) by (auto simp: inserts_at_def)
    ultimately show thesis using that new(1,3) f' D(3) by simp
  qed
qed

lemma fset_remove:
  assumes f: "fset s (is @ i # js) (xs @ x # ys)" and len: "length is = length xs"
    and can: "pool_can_return (set_nodePool s) (Suc n)" and few: "length is + length js < 2 ^ 32 - 1"
  obtains s' where "vlSetRemove s i = Some s'" "fset s' (is @ js) (xs @ ys)"
    "pool_room (set_nodePool s') = pool_room (set_nodePool s) + 1" "pool_can_return (set_nodePool s') n"
proof -
  note D = fsetD [OF f] and sm = fset_sample [OF f len]
  have "set_totalElements s \<noteq> 0"
    using D(1,3) few u32_of_id [of "length (set_iters s)"] by (auto simp: set_inv_def)
  moreover have "i \<in> set (set_iters s)" using D(3) by simp
  ultimately obtain us vs s' where r: "set_iters s = us @ i # vs" "vlSetRemove s i = Some s'"
    "removes_at s us i vs n s'"
    using vlSetRemove_rep [OF D(1) _ _ can] by blast
  have eq: "us = is" "vs = js" using split_unique [OF D(6) r(1) [unfolded D(3)] refl] by auto
  note p = removes_at_inv [OF D(1) r(3,1)]
  have "fset s' (is @ js) (xs @ ys)"
    using p(1,2,3) r(3) D(2) eq sm by (auto simp: fset_def removes_at_def)
  then show thesis using that r(2,3) by (auto simp: removes_at_def)
qed

text \<open>Writing a node in place, with the offset it had.\<close>

lemma fset_update:
  assumes f: "fset s (is @ i # js) (xs @ x # ys)" and len: "length is = length xs"
    and off: "an_offset y = an_offset x" and g: "\<And>c. sn_elem c = x \<Longrightarrow> g c = c\<lparr>sn_elem := y\<rparr>"
  obtains s' where "set_modify s i g = Some s'" "fset s' (is @ i # js) (xs @ y # ys)"
    "pool_room (set_nodePool s') = pool_room (set_nodePool s)"
    "pool_ready (set_nodePool s') = pool_ready (set_nodePool s)"
    "\<And>n. pool_can_return (set_nodePool s') n = pool_can_return (set_nodePool s) n"
proof -
  note D = fsetD [OF f] and sm = fset_sample [OF f len]
  let ?T = "set_shape s"
  have ok: "set_ok s" "i \<in> set_live s" using set_invD(5) [OF D(1)] D(1,3) by (auto simp: set_inv_def)
  have rep: "tree_rep s ?T" using set_invD(1) [OF D(1)] .
  have it: "inorder ?T = is @ i # js" using D(3) by (simp add: set_iters_def)
  then have "i \<in> set_tree ?T" by (simp flip: set_inorder)
  then obtain C a b where T: "?T = plug C (Node a i b)" using tree_split by blast
  obtain v where v: "cell s i = Some v" using tree_rep_node rep T by (metis tree_rep_cell)
  have "sn_elem v = x" using sm(2) v by (simp add: elt_def)
  then have gv: "g v = v\<lparr>sn_elem := y\<rparr>" by (rule g)
  let ?s = "set_put s i (g v)"
  have "\<And>t p. tree_at (cell s) p t \<Longrightarrow> tree_at (cell ?s) p t"
  proof -
    fix t p
    show "tree_at (cell s) p t \<Longrightarrow> tree_at (cell ?s) p t"
      by (induction t arbitrary: p) (use ok v gv in \<open>auto split: if_splits\<close>)
  qed
  then have rep': "tree_rep ?s ?T" using rep ok by (simp add: tree_rep_def)
  have e: "elt ?s = (elt s)(i := y)" using ok gv by (auto simp: elt_def)
  have c: "col ?s = col s" using ok v gv by (auto simp: col_def)
  have i_notin: "i \<notin> set is" "i \<notin> set js" using D(6) by simp_all
  have cont: "set_contents ?s = xs @ y # ys"
    using sm i_notin by (simp add: set_contents_rep [OF rep'] it e cong: map_cong) (auto intro: map_cong)
  have srt: "sorted_wrt (\<lambda>a b. an_offset a < an_offset b) (xs @ y # ys)"
    using D(7) off by (simp add: sorted_wrt_append)
  have "set_inv ?s"
    using D(1) cont srt ok c
    by (simp add: set_inv_def set_shape_rep [OF rep'] set_iters_rep [OF rep'] D(2) node_compare root_black_def set_iters_def)
      (simp add: rep')
  moreover have "set_iters ?s = is @ i # js" by (simp add: set_iters_rep [OF rep'] it)
  ultimately have "fset ?s (is @ i # js) (xs @ y # ys)" using cont D(2) by (simp add: fset_def)
  moreover have "set_modify s i g = Some ?s" using ok v by simp
  ultimately show thesis using that ok by simp
qed
section \<open>Merging\<close>

definition touches :: "vl_arena_node \<Rightarrow> vl_arena_node \<Rightarrow> bool" where
  "touches a b \<longleftrightarrow> an_offset a + an_size a = an_offset b"

definition join :: "vl_arena_node \<Rightarrow> vl_arena_node \<Rightarrow> vl_arena_node" where
  "join a b = a\<lparr>an_size := an_size a + an_size b\<rparr>"

text \<open>What merging makes of a node between two lists of nodes.\<close>

definition join_right :: "vl_arena_node \<Rightarrow> vl_arena_node list \<Rightarrow> vl_arena_node list" where
  "join_right x ys = (case ys of [] \<Rightarrow> [x] | y # zs \<Rightarrow> if touches x y then join x y # zs else x # ys)"

definition join_left :: "vl_arena_node list \<Rightarrow> vl_arena_node list \<Rightarrow> vl_arena_node list" where
  "join_left xs ys =
     (case ys of
        [] \<Rightarrow> xs
      | y # zs \<Rightarrow> if xs \<noteq> [] \<and> touches (last xs) y then butlast xs @ join (last xs) y # zs else xs @ ys)"

abbreviation apart :: "vl_arena_node list \<Rightarrow> bool" where
  "apart ns \<equiv> successively (\<lambda>a b. \<not> touches a b) ns"

text \<open>No end of a node wraps around.\<close>

abbreviation ends_below :: "nat \<Rightarrow> vl_arena_node list \<Rightarrow> bool" where
  "ends_below L ns \<equiv> \<forall>n \<in> set ns. an_offset n + an_size n \<le> L"

lemma touches_end: "an_offset a + an_size a \<le> L \<Longrightarrow> L < 2 ^ 64 \<Longrightarrow> node_end a = an_offset b \<longleftrightarrow> touches a b"
  by (simp add: node_end_def touches_def u64_of_id)

lemma coalesce_left_stop:
  assumes f: "fset s (is @ r # js) (xs @ x # ys)" and len: "length is = length xs"
    and b: "ends_below L (xs @ x # ys)" "L < 2 ^ 64" and no: "xs = [] \<or> \<not> touches (last xs) x"
  shows "coalesce_left s r (last_or is SNIL) = Some s"
proof (cases "is" rule: rev_cases)
  case Nil
  then show ?thesis by (simp add: last_or_def coalesce_left.simps [of s r SNIL])
next
  case (snoc ks l)
  then have "xs \<noteq> []" using len by auto
  then obtain zs z where z: "xs = zs @ [z]" by (meson rev_exhaust)
  have l: "vlSetSample s l = Some z" using fset_sample(1) [of s ks l "r # js" zs z "x # ys"] f snoc z len by simp
  have "l \<noteq> SNIL" using fsetD(8) [OF f] snoc by auto
  moreover have "node_end z \<noteq> an_offset x" using touches_end [OF _ b(2)] b(1) no z by auto
  ultimately show ?thesis
    using l fset_sample(1) [OF f len] snoc by (simp add: last_or_def coalesce_left.simps [of s r l])
qed

lemma coalesce_left_merge:
  assumes f: "fset s (ks @ l # r # js) (zs @ z # x # ys)" and len: "length ks = length zs"
    and b: "ends_below L (zs @ z # x # ys)" "L < 2 ^ 64" and t: "touches z x"
    and can: "pool_can_return (set_nodePool s) (Suc n)" and few: "length ks + length js < 2 ^ 32 - 2"
  obtains s' where "coalesce_left s r l = coalesce_left s' l (last_or ks SNIL)"
    "fset s' (ks @ l # js) (zs @ join z x # ys)"
    "pool_room (set_nodePool s') = pool_room (set_nodePool s) + 1" "pool_can_return (set_nodePool s') n"
proof -
  have sl: "vlSetSample s l = Some z" by (rule fset_sample(1) [OF f len])
  have sr: "vlSetSample s r = Some x" using fset_sample(1) [of s "ks @ [l]" r js "zs @ [z]" x ys] f len by simp
  have nn: "l \<noteq> SNIL" using fsetD(8) [OF f] by auto
  have e: "node_end z = an_offset x" using touches_end [OF _ b(2)] b(1) t by auto
  have "an_offset z + an_size z = an_offset x" "an_offset x + an_size x \<le> L" using t b(1) by (simp_all add: touches_def)
  then have u: "u64_of (an_size z + an_size x) = an_size z + an_size x" using b(2) by (intro u64_of_id) linarith
  obtain s1 where s1: "set_grow_node s l (an_size x) = Some s1"
    "fset s1 (ks @ l # r # js) (zs @ join z x # x # ys)"
    "pool_room (set_nodePool s1) = pool_room (set_nodePool s)"
    "\<And>n. pool_can_return (set_nodePool s1) n = pool_can_return (set_nodePool s) n"
    by (rule fset_update [OF f len, of "join z x" "\<lambda>c. c\<lparr>sn_elem := (sn_elem c)\<lparr>an_size := u64_of (an_size (sn_elem c) + an_size x)\<rparr>\<rparr>"])
      (auto simp: set_grow_node_def join_def u)
  have f1: "fset s1 ((ks @ [l]) @ r # js) ((zs @ [join z x]) @ x # ys)" using s1(2) by simp
  obtain s2 where s2: "vlSetRemove s1 r = Some s2" "fset s2 ((ks @ [l]) @ js) ((zs @ [join z x]) @ ys)"
    "pool_room (set_nodePool s2) = pool_room (set_nodePool s1) + 1" "pool_can_return (set_nodePool s2) n"
    by (rule fset_remove [OF f1]) (use len can s1(4) few in auto)
  have "vlSetPrev s1 l = Some (last_or ks SNIL)" using fset_next_prev(2) [OF s1(2)] .
  then have "coalesce_left s r l = coalesce_left s2 l (last_or ks SNIL)"
    using sl sr nn e s1(1) s2(1) by (subst coalesce_left.simps) simp
  then show thesis using that s2 s1(3) by simp
qed

lemma ends_below_join:
  "touches a b \<Longrightarrow> an_offset b + an_size b \<le> L \<Longrightarrow> an_offset (join a b) + an_size (join a b) \<le> L"
  by (simp add: touches_def join_def)

text \<open>Leftwards from a node: at most one merge, since the nodes to the left are apart.\<close>

lemma coalesce_left_ok:
  assumes f: "fset s (is @ r # js) (xs @ x # ys)" and len: "length is = length xs"
    and b: "ends_below L (xs @ x # ys)" "L < 2 ^ 64" and ap: "apart xs"
    and can: "pool_can_return (set_nodePool s) (Suc n)" and few: "length is + length js < 2 ^ 32 - 1"
  obtains s' ls where "coalesce_left s r (last_or is SNIL) = Some s'" "fset s' ls (join_left xs (x # ys))"
    "pool_room (set_nodePool s) \<le> pool_room (set_nodePool s')" "pool_can_return (set_nodePool s') n"
proof (cases "xs = [] \<or> \<not> touches (last xs) x")
  case True
  have "pool_can_return (set_nodePool s) n" using can by (auto simp: pool_can_return_def)
  moreover have "join_left xs (x # ys) = xs @ x # ys" using True by (auto simp: join_left_def)
  ultimately show thesis using coalesce_left_stop [OF f len b True] f that by simp
next
  case False
  then obtain zs z where z: "xs = zs @ [z]" "touches z x" by (metis append_butlast_last_id)
  then have "is \<noteq> []" using len by auto
  then obtain ks l where l: "is = ks @ [l]" by (meson rev_exhaust)
  have f': "fset s (ks @ l # r # js) (zs @ z # x # ys)" and len': "length ks = length zs"
    using f l z len by simp_all
  have b': "ends_below L (zs @ z # x # ys)" using b z by simp
  obtain s' where s': "coalesce_left s r l = coalesce_left s' l (last_or ks SNIL)"
    "fset s' (ks @ l # js) (zs @ join z x # ys)"
    "pool_room (set_nodePool s') = pool_room (set_nodePool s) + 1" "pool_can_return (set_nodePool s') n"
    by (rule coalesce_left_merge [OF f' len' b' b(2) z(2) can]) (use few l in auto)
  have "an_offset (join z x) + an_size (join z x) \<le> L" using b' z(2) by (intro ends_below_join) auto
  then have b2: "ends_below L (zs @ join z x # ys)" using b' by auto
  have no: "zs = [] \<or> \<not> touches (last zs) (join z x)"
    using ap z(1) by (cases zs rule: rev_cases) (auto simp: successively_append_iff touches_def join_def)
  have "coalesce_left s' l (last_or ks SNIL) = Some s'" by (rule coalesce_left_stop [OF s'(2) len' b2 b(2) no])
  moreover have "join_left xs (x # ys) = zs @ join z x # ys" using z by (simp add: join_left_def)
  ultimately show thesis using that [of s'] s' l by (simp add: last_or_def)
qed

lemma coalesce_right_stop:
  assumes f: "fset s (is @ r # js) (xs @ x # ys)" and len: "length is = length xs"
    and b: "ends_below L (xs @ x # ys)" "L < 2 ^ 64" and no: "ys = [] \<or> \<not> touches x (hd ys)"
  shows "coalesce_right s r (hd_or js SNIL) = Some r"
proof (cases js)
  case Nil
  then show ?thesis by (simp add: hd_or_def coalesce_right.simps [of s r SNIL])
next
  case (Cons j ks)
  then have "length ys = length (j # ks)" using fsetD(9) [OF f] len by simp
  then obtain y zs where y: "ys = y # zs" by (cases ys) auto
  have j: "vlSetSample s j = Some y" using fset_sample(1) [of s "is @ [r]" j ks "xs @ [x]" y zs] f Cons y len by simp
  have "j \<noteq> SNIL" using fsetD(8) [OF f] Cons by auto
  moreover have "node_end x \<noteq> an_offset y" using touches_end [OF _ b(2)] b(1) no y by auto
  ultimately show ?thesis
    using j fset_sample(1) [OF f len] Cons by (simp add: hd_or_def coalesce_right.simps [of s r j])
qed

lemma coalesce_right_step:
  assumes f: "fset s (is @ r # j # js) (xs @ x # y # ys)" and len: "length is = length xs"
    and b: "ends_below L (xs @ x # y # ys)" "L < 2 ^ 64" and t: "touches x y"
  shows "coalesce_right s r j = coalesce_right s j (hd_or js SNIL)"
proof -
  have "fset s ((is @ [r]) @ j # js) ((xs @ [x]) @ y # ys)" using f by simp
  note f' = this
  have "vlSetSample s j = Some y" "vlSetNext s j = Some (hd_or js SNIL)"
    using fset_sample(1) [OF f'] fset_next_prev(1) [OF f'] len by simp_all
  moreover have "vlSetSample s r = Some x" by (rule fset_sample(1) [OF f len])
  moreover have "j \<noteq> SNIL" using fsetD(8) [OF f] by auto
  moreover have "node_end x = an_offset y" using touches_end [OF _ b(2)] b(1) t by auto
  ultimately show ?thesis by (subst coalesce_right.simps) simp
qed
text \<open>The whole of \<^verbatim>\<open>vl_HeapCoalesce\<close> at a node between nodes that are apart.\<close>

lemma coalesce_ok:
  assumes f: "fset (ar_freeSet a) (is @ i # js) (xs @ x # ys)" and len: "length is = length xs"
    and b: "ends_below L (xs @ x # ys)" "L < 2 ^ 64" and ap: "apart xs" "apart ys"
    and can: "pool_can_return (set_nodePool (ar_freeSet a)) (n + 2)" and few: "length is + length js < 2 ^ 32 - 1"
  obtains s' ls where "vl_HeapCoalesce a i = Some (a\<lparr>ar_freeSet := s'\<rparr>)"
    "fset s' ls (join_left xs (join_right x ys))"
    "pool_room (set_nodePool (ar_freeSet a)) \<le> pool_room (set_nodePool s')" "pool_can_return (set_nodePool s') n"
proof -
  let ?s = "ar_freeSet a"
  have i: "i \<noteq> SNIL" using fsetD(8) [OF f] by auto
  note np = fset_next_prev [OF f]
  have lens: "length js = length ys" using fsetD(9) [OF f] len by simp
  show thesis
  proof (cases "ys = [] \<or> \<not> touches x (hd ys)")
    case True
    have can': "pool_can_return (set_nodePool ?s) (Suc n)" using can by (auto simp: pool_can_return_def)
    have r: "coalesce_right ?s i (hd_or js SNIL) = Some i" by (rule coalesce_right_stop [OF f len b True])
    have j: "join_right x ys = x # ys" using True by (auto simp: join_right_def split: list.splits)
    obtain s' ls where "coalesce_left ?s i (last_or is SNIL) = Some s'" "fset s' ls (join_left xs (x # ys))"
      "pool_room (set_nodePool ?s) \<le> pool_room (set_nodePool s')" "pool_can_return (set_nodePool s') n"
      by (rule coalesce_left_ok [OF f len b ap(1) can' few])
    then show thesis using that [of s' ls] r j i np by (simp add: vl_HeapCoalesce_def)
  next
    case False
    then obtain y zs where y: "ys = y # zs" "touches x y" by (cases ys) auto
    then obtain j ks where j: "js = j # ks" using lens by (cases js) auto
    have f1: "fset ?s (is @ i # j # ks) (xs @ x # y # zs)" using f y j by simp
    have f2: "fset ?s ((is @ [i]) @ j # ks) ((xs @ [x]) @ y # zs)" using f1 by simp
    have b1: "ends_below L (xs @ x # y # zs)" using b y by simp
    have b2: "ends_below L ((xs @ [x]) @ y # zs)" using b1 by simp
    have len2: "length (is @ [i]) = length (xs @ [x])" using len by simp
    have no: "zs = [] \<or> \<not> touches y (hd zs)" using ap(2) y by (cases zs) auto
    have "coalesce_right ?s j (hd_or ks SNIL) = Some j" by (rule coalesce_right_stop [OF f2 len2 b2 b(2) no])
    then have r: "coalesce_right ?s i (hd_or js SNIL) = Some j"
      using coalesce_right_step [OF f1 len b1 b(2) y(2)] j by simp
    have pv: "vlSetPrev ?s j = Some i" using fset_next_prev(2) [OF f2] by simp
    have can1: "pool_can_return (set_nodePool ?s) (Suc (Suc n))" using can by simp
    obtain s1 where s1: "coalesce_left ?s j i = coalesce_left s1 i (last_or is SNIL)"
      "fset s1 (is @ i # ks) (xs @ join x y # zs)"
      "pool_room (set_nodePool s1) = pool_room (set_nodePool ?s) + 1" "pool_can_return (set_nodePool s1) (Suc n)"
      by (rule coalesce_left_merge [OF f1 len b1 b(2) y(2) can1]) (use few j in auto)
    have "an_offset (join x y) + an_size (join x y) \<le> L" using b1 y(2) by (intro ends_below_join) auto
    then have b3: "ends_below L (xs @ join x y # zs)" using b1 by auto
    obtain s' ls where "coalesce_left s1 i (last_or is SNIL) = Some s'" "fset s' ls (join_left xs (join x y # zs))"
      "pool_room (set_nodePool s1) \<le> pool_room (set_nodePool s')" "pool_can_return (set_nodePool s') n"
      by (rule coalesce_left_ok [OF s1(2) len b3 b(2) ap(1) s1(4)]) (use few j in auto)
    moreover have "join_right x ys = join x y # zs" using y by (simp add: join_right_def)
    ultimately show thesis using that [of s' ls] r pv i np s1 by (simp add: vl_HeapCoalesce_def)
  qed
qed

lemma insert_free_ok:
  assumes f: "fset (ar_freeSet a) ks (xs @ ys)" and ready: "pool_ready (set_nodePool (ar_freeSet a))"
    and low: "\<forall>x \<in> set xs. an_offset x < off" and high: "\<forall>y \<in> set ys. off < an_offset y"
    and b: "ends_below L (xs @ ys)" "off + n \<le> L" "L < 2 ^ 64" and ap: "apart xs" "apart ys"
    and can: "pool_can_return (set_nodePool (ar_freeSet a)) (k + 2)" and few: "length ks < 2 ^ 32 - 1"
  obtains s' ls where "insert_free a off n = Some (a\<lparr>ar_freeSet := s'\<rparr>)"
    "fset s' ls (join_left xs (join_right \<lparr>an_offset = off, an_size = n\<rparr> ys))"
    "pool_room (set_nodePool (ar_freeSet a)) - 1 \<le> pool_room (set_nodePool s')"
    "pool_can_return (set_nodePool s') k"
proof -
  let ?e = "\<lparr>an_offset = off, an_size = n\<rparr>"
  obtain i s1 "is" js where s1: "vlSetInsert (ar_freeSet a) ?e = Some (i, s1)" "fset s1 (is @ i # js) (xs @ ?e # ys)"
    "ks = is @ js" "length is = length xs" "i \<noteq> SNIL"
    "pool_room (set_nodePool (ar_freeSet a)) - 1 \<le> pool_room (set_nodePool s1)"
    "\<And>n. pool_can_return (set_nodePool (ar_freeSet a)) n \<Longrightarrow> pool_can_return (set_nodePool s1) n"
    by (rule fset_insert [OF f ready, of ?e]) (use low high in auto)
  let ?a = "a\<lparr>ar_freeSet := s1\<rparr>"
  have f1: "fset (ar_freeSet ?a) (is @ i # js) (xs @ ?e # ys)" using s1(2) by simp
  have bs: "ends_below L (xs @ ?e # ys)" using b by auto
  have can1: "pool_can_return (set_nodePool (ar_freeSet ?a)) (k + 2)" using s1(7) can by simp
  obtain s' ls where "vl_HeapCoalesce ?a i = Some (?a\<lparr>ar_freeSet := s'\<rparr>)"
    "fset s' ls (join_left xs (join_right ?e ys))"
    "pool_room (set_nodePool (ar_freeSet ?a)) \<le> pool_room (set_nodePool s')" "pool_can_return (set_nodePool s') k"
    by (rule coalesce_ok [OF f1 s1(4) bs b(3) ap can1]) (use s1(3) few in auto)
  then show thesis using that s1 by (simp add: insert_free_def)
qed

end
