(* ===== verification/VL_ArenaSegs.thy ===== *)
theory VL_ArenaSegs
  imports VL_ArenaFree VL_BufferSpec
begin

text \<open>
  What an arena is, seen from outside: a row of segments that fills its allocation, each a gap or
  a block with its bytes. The free set has the gaps; the memory has the sizes in front of the
  blocks.
\<close>

section \<open>Segments\<close>

datatype seg = Gap nat | Block "byte list"

fun seg_size :: "seg \<Rightarrow> nat" where
  "seg_size (Gap n) = n"
| "seg_size (Block xs) = BLOCK_HEADER_SIZE + length xs"

definition segs_size :: "seg list \<Rightarrow> nat" where
  "segs_size gs = sum_list (map seg_size gs)"

fun gaps :: "nat \<Rightarrow> seg list \<Rightarrow> vl_arena_node list" where
  "gaps off [] = []"
| "gaps off (Gap n # gs) = \<lparr>an_offset = off, an_size = n\<rparr> # gaps (off + n) gs"
| "gaps off (Block xs # gs) = gaps (off + (BLOCK_HEADER_SIZE + length xs)) gs"

fun blocks :: "nat \<Rightarrow> seg list \<Rightarrow> (nat \<times> byte list) list" where
  "blocks off [] = []"
| "blocks off (Gap n # gs) = blocks (off + n) gs"
| "blocks off (Block xs # gs) = (off + BLOCK_HEADER_SIZE, xs) # blocks (off + (BLOCK_HEADER_SIZE + length xs)) gs"

text \<open>The segments lie in the memory from an offset on.\<close>

definition block_at :: "byte list \<Rightarrow> nat \<Rightarrow> byte list \<Rightarrow> bool" where
  "block_at bytes off xs \<longleftrightarrow>
     take BLOCK_HEADER_SIZE (drop off bytes) = nat_bytes BLOCK_HEADER_SIZE (BLOCK_HEADER_SIZE + length xs) \<and>
     take (length xs) (drop (off + BLOCK_HEADER_SIZE) bytes) = xs"

fun segs_at :: "byte list \<Rightarrow> nat \<Rightarrow> seg list \<Rightarrow> bool" where
  "segs_at bytes off [] \<longleftrightarrow> True"
| "segs_at bytes off (Gap n # gs) \<longleftrightarrow> segs_at bytes (off + n) gs"
| "segs_at bytes off (Block xs # gs) \<longleftrightarrow>
     block_at bytes off xs \<and> segs_at bytes (off + (BLOCK_HEADER_SIZE + length xs)) gs"

definition gaps_pos :: "seg list \<Rightarrow> bool" where
  "gaps_pos gs \<longleftrightarrow> (\<forall>n. Gap n \<in> set gs \<longrightarrow> 0 < n)"

lemma segs_size_simps [simp]:
  "segs_size [] = 0" "segs_size (g # gs) = seg_size g + segs_size gs" "segs_size (gs @ hs) = segs_size gs + segs_size hs"
  by (simp_all add: segs_size_def)

lemma gaps_pos_simps [simp]:
  "gaps_pos []" "gaps_pos (g # gs) \<longleftrightarrow> (\<forall>n. g = Gap n \<longrightarrow> 0 < n) \<and> gaps_pos gs"
  "gaps_pos (gs @ hs) \<longleftrightarrow> gaps_pos gs \<and> gaps_pos hs"
  by (auto simp: gaps_pos_def)

lemma gaps_append [simp]: "gaps off (gs @ hs) = gaps off gs @ gaps (off + segs_size gs) hs"
  by (induction off gs rule: gaps.induct) (simp_all add: add.assoc)

lemma blocks_append [simp]: "blocks off (gs @ hs) = blocks off gs @ blocks (off + segs_size gs) hs"
  by (induction off gs rule: blocks.induct) (simp_all add: add.assoc)

lemma segs_at_append [simp]:
  "segs_at bytes off (gs @ hs) \<longleftrightarrow> segs_at bytes off gs \<and> segs_at bytes (off + segs_size gs) hs"
  by (induction bytes off gs rule: segs_at.induct) (simp_all add: add.assoc)

lemma gaps_range:
  "g \<in> set (gaps off gs) \<Longrightarrow> off \<le> an_offset g \<and> an_offset g + an_size g \<le> off + segs_size gs"
  by (induction off gs rule: gaps.induct) fastforce+

lemma gaps_size_pos: "gaps_pos gs \<Longrightarrow> g \<in> set (gaps off gs) \<Longrightarrow> 0 < an_size g"
  by (induction off gs rule: gaps.induct) auto

lemma blocks_range:
  "(p, xs) \<in> set (blocks off gs) \<Longrightarrow> off + BLOCK_HEADER_SIZE \<le> p \<and> p + length xs \<le> off + segs_size gs"
  by (induction off gs rule: blocks.induct) fastforce+

lemma length_gaps: "gaps_pos gs \<Longrightarrow> length (gaps off gs) \<le> segs_size gs"
proof (induction off gs rule: gaps.induct)
  case (2 off n gs)
  then show ?case by (fastforce simp: Suc_le_eq)
qed auto

text \<open>A gap of the list is a gap of the row, and a block too.\<close>

lemma gaps_split:
  "gaps off gs = xs @ g # ys \<Longrightarrow>
   \<exists>A B. gs = A @ Gap (an_size g) # B \<and> an_offset g = off + segs_size A \<and> gaps off A = xs \<and>
     gaps (an_offset g + an_size g) B = ys"
proof (induction off gs arbitrary: xs rule: gaps.induct)
  case (2 off n gs)
  show ?case
  proof (cases xs)
    case Nil
    then show ?thesis using 2(2) by (intro exI [of _ "[]"] exI [of _ gs]) auto
  next
    case (Cons x xs')
    then have "gaps (off + n) gs = xs' @ g # ys" using 2(2) by simp
    from 2(1) [OF this] obtain A B where "gs = A @ Gap (an_size g) # B" "an_offset g = off + n + segs_size A"
      "gaps (off + n) A = xs'" "gaps (an_offset g + an_size g) B = ys" by blast
    then show ?thesis using Cons 2(2) by (intro exI [of _ "Gap n # A"] exI [of _ B]) auto
  qed
next
  case (3 off zs gs)
  then obtain A B where "gs = A @ Gap (an_size g) # B" "an_offset g = off + (BLOCK_HEADER_SIZE + length zs) + segs_size A"
    "gaps (off + (BLOCK_HEADER_SIZE + length zs)) A = xs" "gaps (an_offset g + an_size g) B = ys"
    by fastforce
  then show ?case by (intro exI [of _ "Block zs # A"] exI [of _ B]) auto
qed simp

lemma blocks_split:
  "(p, xs) \<in> set (blocks off gs) \<Longrightarrow>
   \<exists>A B. gs = A @ Block xs # B \<and> p = off + segs_size A + BLOCK_HEADER_SIZE"
proof (induction off gs rule: blocks.induct)
  case (2 off n gs)
  then obtain A B where "gs = A @ Block xs # B" "p = off + n + segs_size A + BLOCK_HEADER_SIZE" by auto
  then show ?case by (intro exI [of _ "Gap n # A"] exI [of _ B]) auto
next
  case (3 off ys gs)
  show ?case
  proof (cases "(p, xs) = (off + BLOCK_HEADER_SIZE, ys)")
    case True
    then show ?thesis by (intro exI [of _ "[]"] exI [of _ gs]) auto
  next
    case False
    then obtain A B where "gs = A @ Block xs # B"
      "p = off + (BLOCK_HEADER_SIZE + length ys) + segs_size A + BLOCK_HEADER_SIZE" using 3 by auto
    then show ?thesis by (intro exI [of _ "Block ys # A"] exI [of _ B]) auto
  qed
qed simp

section \<open>Blocks as a map\<close>

definition arena_map :: "seg list \<Rightarrow> nat \<Rightarrow> byte list option" where
  "arena_map gs = map_of (blocks 0 gs)"

lemma BLOCK_HEADER_pos [simp]: "0 < BLOCK_HEADER_SIZE" "BLOCK_HEADER_SIZE \<noteq> 0"
  by (simp_all add: BLOCK_HEADER_SIZE_def)

lemma blocks_below: "map_of (blocks 0 A) (segs_size A + BLOCK_HEADER_SIZE) = None"
  unfolding map_of_eq_None_iff by (force dest: blocks_range)

lemma map_of_insert_middle:
  "map_of xs p = None \<Longrightarrow> map_of (xs @ (p, v) # ys) = (map_of (xs @ ys))(p \<mapsto> v)"
  by (rule ext) (auto simp: map_add_def split: option.splits)

lemma arena_map_block:
  "arena_map (A @ Block xs # B) = (map_of (blocks 0 A @ blocks (segs_size A + (BLOCK_HEADER_SIZE + length xs)) B))
     (segs_size A + BLOCK_HEADER_SIZE \<mapsto> xs)"
  unfolding arena_map_def
  by (simp only: blocks_append blocks.simps add_0 map_of_insert_middle blocks_below)

lemma arena_map_fresh:
  "map_of (blocks 0 A @ blocks (segs_size A + (BLOCK_HEADER_SIZE + n)) B) (segs_size A + BLOCK_HEADER_SIZE) = None"
  unfolding map_of_eq_None_iff by (force dest: blocks_range)

section \<open>Memory\<close>

lemma block_at_agree:
  assumes "\<And>i. off \<le> i \<Longrightarrow> i < off + (BLOCK_HEADER_SIZE + length xs) \<Longrightarrow> bytes' ! i = bytes ! i"
    and "off + (BLOCK_HEADER_SIZE + length xs) \<le> length bytes" "length bytes \<le> length bytes'"
    and "block_at bytes off xs"
  shows "block_at bytes' off xs"
proof -
  have "take BLOCK_HEADER_SIZE (drop off bytes') = take BLOCK_HEADER_SIZE (drop off bytes)"
    using assms by (intro nth_equalityI) auto
  moreover have "take (length xs) (drop (off + BLOCK_HEADER_SIZE) bytes') = take (length xs) (drop (off + BLOCK_HEADER_SIZE) bytes)"
    using assms by (intro nth_equalityI) auto
  ultimately show ?thesis using assms(4) by (simp add: block_at_def)
qed

lemma segs_at_agree:
  "segs_at bytes off gs \<Longrightarrow> (\<And>i. off \<le> i \<Longrightarrow> i < off + segs_size gs \<Longrightarrow> bytes' ! i = bytes ! i) \<Longrightarrow>
   off + segs_size gs \<le> length bytes \<Longrightarrow> length bytes \<le> length bytes' \<Longrightarrow> segs_at bytes' off gs"
proof (induction bytes off gs rule: segs_at.induct)
  case (3 bytes off xs gs)
  have "block_at bytes' off xs" using 3(2-5) by (intro block_at_agree [of off xs bytes' bytes]) auto
  moreover have "segs_at bytes' (off + (BLOCK_HEADER_SIZE + length xs)) gs" using 3 by auto
  ultimately show ?case by simp
qed auto

section \<open>Joining gaps\<close>

lemma apart_join:
  assumes "apart xs" and "apart ys"
  shows "apart (join_left xs (join_right x ys))"
proof -
  have r: "apart (join_right x ys)"
    using assms(2) by (auto simp: join_right_def touches_def join_def successively_Cons split: list.splits)
  obtain y zs where y: "join_right x ys = y # zs" by (cases "join_right x ys") (auto simp: join_right_def split: list.splits if_splits)
  show ?thesis
  proof (cases "xs \<noteq> [] \<and> touches (last xs) y")
    case True
    then obtain us z where z: "xs = us @ [z]" "touches z y" by (metis append_butlast_last_id)
    have "apart (us @ join z y # zs)"
      using assms(1) r y z by (auto simp: successively_append_iff successively_Cons touches_def join_def)
    then show ?thesis using z y by (simp add: join_left_def)
  next
    case False
    then have "apart (xs @ y # zs)" using assms(1) r y by (auto simp: successively_append_iff)
    then show ?thesis using False y by (auto simp: join_left_def)
  qed
qed

definition same_blocks :: "seg list \<Rightarrow> seg list \<Rightarrow> bool" where
  "same_blocks gs hs \<longleftrightarrow> blocks 0 gs = blocks 0 hs \<and> segs_size gs = segs_size hs \<and> (gaps_pos gs \<longrightarrow> gaps_pos hs) \<and>
     (\<forall>bytes. segs_at bytes 0 gs = segs_at bytes 0 hs)"

lemma same_blocks_trans: "same_blocks gs hs \<Longrightarrow> same_blocks hs ks \<Longrightarrow> same_blocks gs ks"
  by (simp add: same_blocks_def)

lemma same_blocks_join: "same_blocks (A @ Gap m # Gap n # B) (A @ Gap (m + n) # B)"
  by (auto simp: same_blocks_def add.assoc)

lemma gap_at_end:
  assumes "gaps 0 A = xs @ [z]" and "an_offset z + an_size z = segs_size A"
  shows "\<exists>A'. A = A' @ [Gap (an_size z)] \<and> gaps 0 A' = xs \<and> an_offset z = segs_size A'"
proof (cases A rule: rev_cases)
  case Nil
  then show ?thesis using assms(1) by simp
next
  case (snoc A' g)
  show ?thesis
  proof (cases g)
    case (Gap n)
    then show ?thesis using assms snoc by auto
  next
    case (Block ys)
    then have "z \<in> set (gaps 0 A')" using assms(1) snoc by simp
    then have "an_offset z + an_size z \<le> segs_size A'" using gaps_range by fastforce
    then show ?thesis using assms(2) snoc Block by simp
  qed
qed

lemma gap_at_start:
  assumes "gaps off B = y # zs" and "an_offset y = off"
  shows "\<exists>B'. B = Gap (an_size y) # B' \<and> gaps (off + an_size y) B' = zs"
proof (cases B)
  case Nil
  then show ?thesis using assms(1) by simp
next
  case (Cons g B')
  show ?thesis
  proof (cases g)
    case (Gap n)
    then have "y = \<lparr>an_offset = off, an_size = n\<rparr>" "zs = gaps (off + n) B'" using assms(1) Cons by simp_all
    then show ?thesis using Gap Cons by simp
  next
    case (Block xs)
    then have "y \<in> set (gaps (off + (BLOCK_HEADER_SIZE + length xs)) B')" using assms(1) Cons by simp
    then have "off + (BLOCK_HEADER_SIZE + length xs) \<le> an_offset y" using gaps_range by blast
    then show ?thesis using assms(2) by simp
  qed
qed

text \<open>Merging the nodes of a new gap joins the gaps of the row.\<close>

lemma join_gap:
  obtains G where "gaps 0 G = join_left (gaps 0 A) (join_right \<lparr>an_offset = segs_size A, an_size = n\<rparr> (gaps (segs_size A + n) B))"
    "same_blocks (A @ Gap n # B) G"
proof -
  let ?x = "\<lparr>an_offset = segs_size A, an_size = n\<rparr>"
  let ?ys = "gaps (segs_size A + n) B"
  obtain n' B' where r: "join_right ?x ?ys = \<lparr>an_offset = segs_size A, an_size = n'\<rparr> # gaps (segs_size A + n') B'"
    "same_blocks (A @ Gap n # B) (A @ Gap n' # B')"
  proof (cases "\<exists>y zs. ?ys = y # zs \<and> touches ?x y")
    case True
    then obtain y zs where y: "?ys = y # zs" "an_offset y = segs_size A + n" by (auto simp: touches_def)
    then obtain B' where B': "B = Gap (an_size y) # B'" "gaps (segs_size A + n + an_size y) B' = zs"
      using gap_at_start by blast
    have "touches ?x y" using y by (simp add: touches_def)
    then have "join_right ?x ?ys = join ?x y # zs" using y(1) by (simp add: join_right_def)
    then show thesis
      using that [of "n + an_size y" B'] B' same_blocks_join [of A n "an_size y" B']
      by (simp add: join_def add.assoc)
  next
    case False
    then have "join_right ?x ?ys = ?x # ?ys" by (auto simp: join_right_def split: list.splits)
    then show thesis using that [of n B] by (simp add: same_blocks_def)
  qed
  let ?x' = "\<lparr>an_offset = segs_size A, an_size = n'\<rparr>"
  show thesis
  proof (cases "gaps 0 A \<noteq> [] \<and> touches (last (gaps 0 A)) ?x'")
    case True
    then obtain us z where z: "gaps 0 A = us @ [z]" "touches z ?x'" by (metis append_butlast_last_id)
    then obtain A' where A': "A = A' @ [Gap (an_size z)]" "gaps 0 A' = us" "an_offset z = segs_size A'"
      using gap_at_end by (fastforce simp: touches_def)
    have "same_blocks (A @ Gap n' # B') (A' @ Gap (an_size z + n') # B')"
      using A' same_blocks_join [of A' "an_size z" n' B'] by simp
    then have sb: "same_blocks (A @ Gap n # B) (A' @ Gap (an_size z + n') # B')"
      by (rule same_blocks_trans [OF r(2)])
    have "join z ?x' = \<lparr>an_offset = segs_size A', an_size = an_size z + n'\<rparr>" using A'(3) by (simp add: join_def)
    moreover have "segs_size A + n' = segs_size A' + (an_size z + n')" using A'(1) by simp
    ultimately have "gaps 0 (A' @ Gap (an_size z + n') # B') = us @ join z ?x' # gaps (segs_size A + n') B'"
      using A'(2) by (simp add: add.assoc)
    moreover have "join_left (gaps 0 A) (join_right ?x ?ys) = us @ join z ?x' # gaps (segs_size A + n') B'"
      using z unfolding r(1) by (simp add: join_left_def)
    ultimately have "gaps 0 (A' @ Gap (an_size z + n') # B') = join_left (gaps 0 A) (join_right ?x ?ys)"
      by (simp only:)
    then show thesis using that sb by blast
  next
    case False
    then show thesis using that [of "A @ Gap n' # B'"] r by (auto simp: join_left_def)
  qed
qed

end
