(* ===== verification/VL_ArenaSpec.thy ===== *)
theory VL_ArenaSpec
  imports VL_ArenaSegs
begin

text \<open>
  The arena of \<^verbatim>\<open>src/core/vl_arena.c\<close> as a map from pointers to blocks: what allocating, freeing and
  resizing do to it.
\<close>

section \<open>The representation\<close>

text \<open>
  The number of free blocks is kept in 32 bits; an arena is smaller than that.
\<close>

definition arena_rep :: "vl_arena \<Rightarrow> seg list \<Rightarrow> bool" where
  "arena_rep a gs \<longleftrightarrow>
     (\<exists>m ks. ar_data a = Some m \<and> mem_inv m \<and> mh_alignment (mem_header m) = VL_DEFAULT_ALIGN \<and>
        mh_length (mem_header m) = segs_size gs \<and> 0 < segs_size gs \<and> segs_size gs < 2 ^ 32 - 1 \<and>
        segs_at (mem_data m) 0 gs \<and> fset (ar_freeSet a) ks (gaps 0 gs)) \<and>
     gaps_pos gs \<and> apart (gaps 0 gs)"

text \<open>
  How many operations the pool under the free set has slots for; for one it suffices that the pool
  can grow. An operation inserts one free block and removes two at most.
\<close>

definition arena_spare :: "vl_arena \<Rightarrow> nat \<Rightarrow> bool" where
  "arena_spare a n \<longleftrightarrow>
     (let p = set_nodePool (ar_freeSet a)
      in (n \<le> pool_room p \<or> n \<le> 1 \<and> pool_ready p) \<and> pool_can_return p (2 * n))"

lemma pool_can_return_mono: "pool_can_return p m \<Longrightarrow> n \<le> m \<Longrightarrow> pool_can_return p n"
  by (auto simp: pool_can_return_def)

lemma arena_spareD:
  assumes "arena_spare a (Suc k)"
  shows "pool_ready (set_nodePool (ar_freeSet a))"
    and "pool_can_return (set_nodePool (ar_freeSet a)) (2 * k + 2)"
    and "pool_room (set_nodePool (ar_freeSet a)) - 1 \<le> pool_room p \<Longrightarrow> k \<le> pool_room p \<or> k \<le> 1 \<and> pool_ready p"
  using assms by (auto simp: arena_spare_def Let_def pool_ready_def)

lemma arena_spare_mono: "arena_spare a n \<Longrightarrow> m \<le> n \<Longrightarrow> arena_spare a m"
  by (auto simp: arena_spare_def Let_def elim: pool_can_return_mono)

lemma arena_repE:
  assumes "arena_rep a gs"
  obtains m ks where "ar_data a = Some m" "mem_inv m" "mh_alignment (mem_header m) = VL_DEFAULT_ALIGN"
    "mh_length (mem_header m) = segs_size gs" "0 < segs_size gs" "segs_size gs < 2 ^ 32 - 1"
    "segs_at (mem_data m) 0 gs" "fset (ar_freeSet a) ks (gaps 0 gs)" "gaps_pos gs" "apart (gaps 0 gs)"
    "length (mem_data m) = segs_size gs" "length ks < 2 ^ 32 - 1" "ends_below (segs_size gs) (gaps 0 gs)"
proof -
  obtain m ks where m: "ar_data a = Some m" "mem_inv m" "mh_alignment (mem_header m) = VL_DEFAULT_ALIGN"
    "mh_length (mem_header m) = segs_size gs" "0 < segs_size gs" "segs_size gs < 2 ^ 32 - 1"
    "segs_at (mem_data m) 0 gs" "fset (ar_freeSet a) ks (gaps 0 gs)" "gaps_pos gs" "apart (gaps 0 gs)"
    using assms by (auto simp: arena_rep_def)
  moreover have "length (mem_data m) = segs_size gs" using m(2,4) mem_inv_data by simp
  moreover have "length ks < 2 ^ 32 - 1" using fsetD(9) [OF m(8)] length_gaps [OF m(9), of 0] m(6) by linarith
  moreover have "ends_below (segs_size gs) (gaps 0 gs)" using gaps_range [of _ 0 gs] by auto
  ultimately show thesis by (rule that)
qed

lemma arena_rep_iters:
  assumes "arena_rep a gs" and "fset (ar_freeSet a) ks ns"
  shows "length ks < 2 ^ 32 - 1"
proof -
  obtain ls where "fset (ar_freeSet a) ls (gaps 0 gs)" "length ls < 2 ^ 32 - 1" by (rule arena_repE [OF assms(1)])
  then show ?thesis using fsetD(3) assms(2) by metis
qed

lemma arena_repI:
  assumes "ar_data a = Some m" "mem_inv m" "mh_alignment (mem_header m) = VL_DEFAULT_ALIGN"
    "mh_length (mem_header m) = segs_size gs" "0 < segs_size gs" "segs_size gs < 2 ^ 32 - 1"
    "segs_at (mem_data m) 0 gs" "fset (ar_freeSet a) ks (gaps 0 gs)" "gaps_pos gs" "apart (gaps 0 gs)"
  shows "arena_rep a gs"
  using assms by (auto simp: arena_rep_def)

lemma arena_rep_write:
  assumes "arena_rep a gs" and "ar_data a = Some m" and "mem_inv m'" and "mem_header m' = mem_header m"
    and "segs_size gs' = segs_size gs" and "segs_at (mem_data m') 0 gs'" and "fset s' ks (gaps 0 gs')"
    and "gaps_pos gs'" and "apart (gaps 0 gs')"
  shows "arena_rep (a\<lparr>ar_freeSet := s', ar_data := Some m'\<rparr>) gs'"
  using assms by (auto simp: arena_rep_def)

section \<open>Sizes in front of the blocks\<close>

lemma mem_poke:
  assumes "mem_inv m" and "off + length xs \<le> length (mem_data m)"
  obtains m' where "mem_write (Some m) off xs = Some m'" "mem_inv m'" "mem_header m' = mem_header m"
    "length (mem_data m') = length (mem_data m)"
    "\<And>i. i < length (mem_data m) \<Longrightarrow>
       mem_data m' ! i = (if off \<le> i \<and> i < off + length xs then xs ! (i - off) else mem_data m ! i)"
proof -
  have L: "length (mem_data m) = mh_length (mem_header m)" using mem_inv_data [OF assms(1)] .
  then obtain m' where "mem_write (Some m) off xs = Some m'" "mem_inv m'" "mem_header m' = mem_header m"
    "\<forall>i < mh_length (mem_header m).
       mem_data m' ! i = (if off \<le> i \<and> i < off + length xs then xs ! (i - off) else mem_data m ! i)"
    using mem_write_Some [OF assms(1), of off xs] assms(2) by auto
  then show thesis using that L mem_inv_data [of m'] by simp
qed

lemma load_size_block:
  assumes "ar_data a = Some m" and "mem_inv m" and "block_at (mem_data m) off xs"
    and "off + (BLOCK_HEADER_SIZE + length xs) \<le> length (mem_data m)" and "BLOCK_HEADER_SIZE + length xs < 2 ^ 64"
  shows "load_size a off = Some (BLOCK_HEADER_SIZE + length xs)"
proof -
  have "mem_read (Some m) off BLOCK_HEADER_SIZE = Some (take BLOCK_HEADER_SIZE (drop off (mem_data m)))"
    using assms(4) mem_inv_data [OF assms(2)] by (intro mem_read_Some [OF assms(2)]) simp
  moreover have "bytes_nat (nat_bytes BLOCK_HEADER_SIZE (BLOCK_HEADER_SIZE + length xs)) = Some (BLOCK_HEADER_SIZE + length xs)"
    using assms(5) by (intro bytes_nat_bytes) (simp add: BLOCK_HEADER_SIZE_def)
  ultimately show ?thesis using assms(1,3) by (simp add: load_size_def block_at_def)
qed

text \<open>Writing a size makes the bytes behind it a block.\<close>

lemma store_size_block:
  assumes "ar_data a = Some m" and "mem_inv m" and "off + n \<le> length (mem_data m)" and "BLOCK_HEADER_SIZE \<le> n"
  obtains m' xs where "store_size a off n = Some (a\<lparr>ar_data := Some m'\<rparr>)" "mem_inv m'" "mem_header m' = mem_header m"
    "length (mem_data m') = length (mem_data m)" "n = BLOCK_HEADER_SIZE + length xs" "block_at (mem_data m') off xs"
    "xs = take (n - BLOCK_HEADER_SIZE) (drop (off + BLOCK_HEADER_SIZE) (mem_data m))"
    "\<And>i. i < length (mem_data m) \<Longrightarrow> i < off \<or> off + BLOCK_HEADER_SIZE \<le> i \<Longrightarrow> mem_data m' ! i = mem_data m ! i"
proof -
  let ?h = "nat_bytes BLOCK_HEADER_SIZE n"
  have "off + length ?h \<le> length (mem_data m)" using assms(3,4) by simp
  from mem_poke [OF assms(2) this] obtain m' where m': "mem_write (Some m) off ?h = Some m'" "mem_inv m'"
    "mem_header m' = mem_header m" "length (mem_data m') = length (mem_data m)"
    "\<And>i. i < length (mem_data m) \<Longrightarrow>
       mem_data m' ! i = (if off \<le> i \<and> i < off + length ?h then ?h ! (i - off) else mem_data m ! i)" by metis
  let ?xs = "take (n - BLOCK_HEADER_SIZE) (drop (off + BLOCK_HEADER_SIZE) (mem_data m))"
  have len: "length ?xs = n - BLOCK_HEADER_SIZE" using assms(3,4) by simp
  have "take BLOCK_HEADER_SIZE (drop off (mem_data m')) = ?h"
    using assms(3,4) m'(4,5) by (intro nth_equalityI) auto
  moreover have "take (n - BLOCK_HEADER_SIZE) (drop (off + BLOCK_HEADER_SIZE) (mem_data m')) = ?xs"
    using assms(3,4) m'(4,5) by (intro nth_equalityI) auto
  ultimately have "block_at (mem_data m') off ?xs" using len assms(4) by (simp add: block_at_def)
  moreover have "n = BLOCK_HEADER_SIZE + length ?xs" using len assms(4) by simp
  moreover have "store_size a off n = Some (a\<lparr>ar_data := Some m'\<rparr>)" using m'(1) assms(1) by (simp add: store_size_def)
  moreover have "\<And>i. i < length (mem_data m) \<Longrightarrow> i < off \<or> off + BLOCK_HEADER_SIZE \<le> i \<Longrightarrow> mem_data m' ! i = mem_data m ! i"
    using m'(5) by auto
  ultimately show thesis using m'(2-4) by (intro that [of m' ?xs]) blast+
qed
section \<open>Carving a block out of a gap\<close>

lemma apart_gaps:
  assumes "apart (gaps 0 A)" and "apart (gaps off B)" and "segs_size A < off"
  shows "apart (gaps 0 A @ gaps off B)"
proof -
  have "\<not> touches (last (gaps 0 A)) (hd (gaps off B))" if "gaps 0 A \<noteq> []" "gaps off B \<noteq> []"
  proof -
    have "an_offset (last (gaps 0 A)) + an_size (last (gaps 0 A)) \<le> segs_size A"
      using gaps_range [of "last (gaps 0 A)" 0 A] that(1) by simp
    moreover have "off \<le> an_offset (hd (gaps off B))" using gaps_range [of "hd (gaps off B)" off B] that(2) by simp
    ultimately show ?thesis using assms(3) by (simp add: touches_def)
  qed
  then show ?thesis using assms(1,2) by (auto simp: successively_append_iff)
qed

lemma apart_mid:
  "apart (xs @ x # ys) \<longleftrightarrow> apart xs \<and> (xs = [] \<or> \<not> touches (last xs) x) \<and> (ys = [] \<or> \<not> touches x (hd ys)) \<and> apart ys"
  by (cases ys) (auto simp: successively_append_iff)

lemma apart_shrink:
  assumes "apart (gaps 0 (A @ Gap g # B))" and "m < g"
  shows "apart (gaps 0 A @ \<lparr>an_offset = segs_size A, an_size = m\<rparr> # gaps (segs_size A + g) B)"
proof -
  let ?x = "\<lparr>an_offset = segs_size A, an_size = m\<rparr>" and ?y = "\<lparr>an_offset = segs_size A, an_size = g\<rparr>"
  have old: "apart (gaps 0 A @ ?y # gaps (segs_size A + g) B)" using assms(1) by simp
  have "\<not> touches ?x (hd (gaps (segs_size A + g) B))" if "gaps (segs_size A + g) B \<noteq> []"
    using gaps_range [of "hd (gaps (segs_size A + g) B)" "segs_size A + g" B] that assms(2) by (simp add: touches_def)
  moreover have "touches z ?x = touches z ?y" for z by (simp add: touches_def)
  ultimately show ?thesis using old unfolding apart_mid by blast
qed

text \<open>The segments around a range whose size field alone was written.\<close>

lemma segs_at_carve:
  assumes "segs_at (mem_data m) 0 (A @ Gap g # B)" and "length (mem_data m) = segs_size (A @ Gap g # B)"
    and "length (mem_data m') = length (mem_data m)" and "g = r + (BLOCK_HEADER_SIZE + length xs)"
    and "block_at (mem_data m') (segs_size A + r) xs"
    and same: "\<And>i. i < length (mem_data m) \<Longrightarrow> i < segs_size A + r \<or> segs_size A + r + BLOCK_HEADER_SIZE \<le> i \<Longrightarrow>
      mem_data m' ! i = mem_data m ! i"
  shows "segs_at (mem_data m') 0 (A @ Gap r # Block xs # B)"
proof -
  have len: "length (mem_data m) = segs_size A + g + segs_size B" using assms(2) by simp
  have old: "segs_at (mem_data m) 0 A" "segs_at (mem_data m) (segs_size A + g) B" using assms(1) by simp_all
  have "mem_data m' ! i = mem_data m ! i" if "i < 0 + segs_size A" for i
    by (rule same) (use that len in linarith)+
  then have "segs_at (mem_data m') 0 A"
    using len assms(3) by (intro segs_at_agree [OF old(1)]) simp_all
  moreover have "mem_data m' ! i = mem_data m ! i" if "segs_size A + g \<le> i" "i < segs_size A + g + segs_size B" for i
    by (rule same) (use that len assms(4) in linarith)+
  then have "segs_at (mem_data m') (segs_size A + g) B"
    using len assms(3) by (intro segs_at_agree [OF old(2)]) simp_all
  ultimately show ?thesis using assms(4,5) by (simp add: add.assoc)
qed

lemma alloc_search_hit:
  assumes rep: "arena_rep a (A @ Gap g # B)"
    and f: "fset (ar_freeSet a) (is @ i # js) (gaps 0 (A @ Gap g # B))" and len: "length is = length (gaps 0 A)"
    and n: "BLOCK_HEADER_SIZE \<le> n" "n \<le> g" and sp: "arena_spare a (Suc k)"
  obtains a' xs G where "alloc_search a n i = Some (Some (segs_size A + (g - n) + BLOCK_HEADER_SIZE, a'))"
    "arena_rep a' G" "n = BLOCK_HEADER_SIZE + length xs" "arena_spare a' k"
    "blocks 0 G = blocks 0 (A @ Gap (g - n) # Block xs # B)" "segs_size G = segs_size (A @ Gap g # B)"
proof -
  let ?s = "ar_freeSet a" and ?r = "g - n"
  obtain m where m: "ar_data a = Some m" "mem_inv m" "mh_alignment (mem_header m) = VL_DEFAULT_ALIGN"
    "mh_length (mem_header m) = segs_size (A @ Gap g # B)" "segs_size (A @ Gap g # B) < 2 ^ 32 - 1"
    "segs_at (mem_data m) 0 (A @ Gap g # B)" "gaps_pos (A @ Gap g # B)" "apart (gaps 0 (A @ Gap g # B))"
    "length (mem_data m) = segs_size (A @ Gap g # B)"
    by (rule arena_repE [OF rep])
  have few: "length (is @ i # js) < 2 ^ 32 - 1" by (rule arena_rep_iters [OF rep f])
  have f': "fset ?s (is @ i # js) (gaps 0 A @ \<lparr>an_offset = segs_size A, an_size = g\<rparr> # gaps (segs_size A + g) B)"
    using f by simp
  have smp: "vlSetSample ?s i = Some \<lparr>an_offset = segs_size A, an_size = g\<rparr>" using fset_sample(1) [OF f' len] .
  have nn: "i \<noteq> SNIL" using fsetD(8) [OF f] by auto
  have fit: "segs_size A + ?r + n \<le> length (mem_data m)" using m(9) n by simp
  have one: "\<And>s'. ar_data (a\<lparr>ar_freeSet := s'\<rparr>) = Some m" using m(1) by simp
  note sp = arena_spareD [OF sp]
  have g: "g = ?r + n" using n by simp
  have apA: "apart (gaps 0 A)" and apB: "apart (gaps (segs_size A + g) B)"
    using m(8) by (simp_all add: apart_mid)
  show thesis
  proof (cases "g = n")
    case True
    have can: "pool_can_return (set_nodePool ?s) (Suc (2 * k))" using sp(2) by (rule pool_can_return_mono) simp
    obtain s' where s': "vlSetRemove ?s i = Some s'" "fset s' (is @ js) (gaps 0 A @ gaps (segs_size A + g) B)"
      "pool_room (set_nodePool s') = pool_room (set_nodePool ?s) + 1" "pool_can_return (set_nodePool s') (2 * k)"
      by (rule fset_remove [OF f' len can]) (use few in auto)
    obtain m' xs where m': "store_size (a\<lparr>ar_freeSet := s'\<rparr>) (segs_size A + ?r) n = Some (a\<lparr>ar_freeSet := s', ar_data := Some m'\<rparr>)"
      "mem_inv m'" "mem_header m' = mem_header m" "length (mem_data m') = length (mem_data m)"
      "n = BLOCK_HEADER_SIZE + length xs" "block_at (mem_data m') (segs_size A + ?r) xs"
      "xs = take (n - BLOCK_HEADER_SIZE) (drop (segs_size A + ?r + BLOCK_HEADER_SIZE) (mem_data m))"
      "\<And>i. i < length (mem_data m) \<Longrightarrow> i < segs_size A + ?r \<or> segs_size A + ?r + BLOCK_HEADER_SIZE \<le> i \<Longrightarrow> mem_data m' ! i = mem_data m ! i"
      by (rule store_size_block [OF one [of s'] m(2) fit n(1)]) blast
    have at: "segs_at (mem_data m') 0 (A @ Gap ?r # Block xs # B)"
      using g m'(5) by (intro segs_at_carve [OF m(6,9) m'(4) _ m'(6,8)]) simp_all
    let ?a = "a\<lparr>ar_freeSet := s', ar_data := Some m'\<rparr>"
    let ?G = "A @ Block xs # B"
    have sz: "segs_size ?G = segs_size (A @ Gap g # B)" using True m'(5) by simp
    have gp: "gaps 0 ?G = gaps 0 A @ gaps (segs_size A + g) B" using True m'(5) by simp
    have lt: "segs_size A < segs_size A + g" using n by (simp add: BLOCK_HEADER_SIZE_def)
    have "apart (gaps 0 ?G)" unfolding gp by (rule apart_gaps [OF apA apB lt])
    moreover have "fset s' (is @ js) (gaps 0 ?G)" unfolding gp by (rule s'(2))
    moreover have "segs_at (mem_data m') 0 ?G" using at True by simp
    moreover have "gaps_pos ?G" using m(7) by simp
    ultimately have "arena_rep ?a ?G" by (intro arena_rep_write [OF rep m(1) m'(2,3) sz])
    moreover have "arena_spare ?a k" using s'(3,4) sp(3) [of "set_nodePool s'"] by (simp add: arena_spare_def)
    moreover have "alloc_search a n i = Some (Some (segs_size A + ?r + BLOCK_HEADER_SIZE, ?a))"
      using smp nn True s'(1) m'(1) by (subst alloc_search.simps) simp
    ultimately show thesis using that m'(5) True sz by simp
  next
    case False
    then have lt: "n < g" using n by simp
    let ?y = "\<lparr>an_offset = segs_size A, an_size = ?r\<rparr>"
    obtain s' where s': "set_modify ?s i (\<lambda>c. c\<lparr>sn_elem := (sn_elem c)\<lparr>an_size := ?r\<rparr>\<rparr>) = Some s'"
      "fset s' (is @ i # js) (gaps 0 A @ ?y # gaps (segs_size A + g) B)"
      "pool_room (set_nodePool s') = pool_room (set_nodePool ?s)"
      "pool_ready (set_nodePool s') = pool_ready (set_nodePool ?s)"
      "\<And>n. pool_can_return (set_nodePool s') n = pool_can_return (set_nodePool ?s) n"
      by (rule fset_update [OF f' len, of ?y "\<lambda>c. c\<lparr>sn_elem := (sn_elem c)\<lparr>an_size := ?r\<rparr>\<rparr>"]) simp_all
    obtain m' xs where m': "store_size (a\<lparr>ar_freeSet := s'\<rparr>) (segs_size A + ?r) n = Some (a\<lparr>ar_freeSet := s', ar_data := Some m'\<rparr>)"
      "mem_inv m'" "mem_header m' = mem_header m" "length (mem_data m') = length (mem_data m)"
      "n = BLOCK_HEADER_SIZE + length xs" "block_at (mem_data m') (segs_size A + ?r) xs"
      "xs = take (n - BLOCK_HEADER_SIZE) (drop (segs_size A + ?r + BLOCK_HEADER_SIZE) (mem_data m))"
      "\<And>i. i < length (mem_data m) \<Longrightarrow> i < segs_size A + ?r \<or> segs_size A + ?r + BLOCK_HEADER_SIZE \<le> i \<Longrightarrow> mem_data m' ! i = mem_data m ! i"
      by (rule store_size_block [OF one [of s'] m(2) fit n(1)]) blast
    have at: "segs_at (mem_data m') 0 (A @ Gap ?r # Block xs # B)"
      using g m'(5) by (intro segs_at_carve [OF m(6,9) m'(4) _ m'(6,8)]) simp_all
    let ?a = "a\<lparr>ar_freeSet := s', ar_data := Some m'\<rparr>" and ?G = "A @ Gap ?r # Block xs # B"
    have sz: "segs_size ?G = segs_size (A @ Gap g # B)" using g m'(5) by simp
    have gp: "gaps 0 ?G = gaps 0 A @ ?y # gaps (segs_size A + g) B" using g m'(5) by (simp add: add.assoc)
    have "?r < g" using n g by (simp add: BLOCK_HEADER_SIZE_def)
    from apart_shrink [OF m(8) this] have "apart (gaps 0 ?G)" unfolding gp .
    note ap = this
    have "gaps_pos ?G" using m(7) lt by simp
    moreover have "fset s' (is @ i # js) (gaps 0 ?G)" unfolding gp by (rule s'(2))
    ultimately have "arena_rep ?a ?G" by (intro arena_rep_write [OF rep m(1) m'(2,3) sz at _ _ ap])
    moreover have "arena_spare ?a k"
    proof -
      have "pool_can_return (set_nodePool s') (2 * k)"
        unfolding s'(5) by (rule pool_can_return_mono [OF sp(2)]) simp
      then show ?thesis using s'(3) sp(3) [of "set_nodePool s'"] by (simp add: arena_spare_def)
    qed
    moreover have "alloc_search a n i = Some (Some (segs_size A + ?r + BLOCK_HEADER_SIZE, ?a))"
      using smp nn lt s'(1) m'(1) by (subst alloc_search.simps) simp
    ultimately show thesis using that m'(5) sz by blast
  qed
qed

section \<open>Allocating\<close>

lemma alloc_search_end: "alloc_search a n SNIL = Some None"
  by (simp add: alloc_search.simps [of a n SNIL])

lemma alloc_search_skip:
  assumes "fset (ar_freeSet a) (is @ i # js) (xs @ x # ys)" and "length is = length xs" and "an_size x < n"
  shows "alloc_search a n i = alloc_search a n (hd_or js SNIL)"
proof -
  have "i \<noteq> SNIL" using fsetD(8) [OF assms(1)] by auto
  then show ?thesis
    using fset_sample(1) [OF assms(1,2)] fset_next_prev(1) [OF assms(1)] assms(3)
    by (subst alloc_search.simps) simp
qed

text \<open>The search stops at the first gap that is large enough.\<close>

lemma alloc_search_find:
  "fset (ar_freeSet a) (is @ js) (xs @ ys) \<Longrightarrow> length is = length xs \<Longrightarrow>
   (\<forall>y \<in> set ys. an_size y < n) \<and> alloc_search a n (hd_or js SNIL) = Some None \<or>
   (\<exists>us x vs i ks ls. xs @ ys = us @ x # vs \<and> is @ js = ks @ i # ls \<and> length ks = length us \<and> n \<le> an_size x \<and>
      alloc_search a n (hd_or js SNIL) = alloc_search a n i)"
proof (induction ys arbitrary: xs js "is")
  case Nil
  then have "js = []" using fsetD(9) [OF Nil(1)] by simp
  then show ?case by (simp add: alloc_search_end)
next
  case (Cons y ys)
  then obtain i ks where js: "js = i # ks" using fsetD(9) [OF Cons.prems(1)] by (cases js) auto
  show ?case
  proof (cases "an_size y < n")
    case False
    then have "xs @ y # ys = xs @ y # ys \<and> is @ js = is @ i # ks \<and> length is = length xs \<and> n \<le> an_size y \<and>
      alloc_search a n (hd_or js SNIL) = alloc_search a n i" using js Cons.prems(2) by simp
    then show ?thesis by blast
  next
    case True
    have "alloc_search a n (hd_or js SNIL) = alloc_search a n (hd_or ks SNIL)"
      using alloc_search_skip [of a "is" i ks xs y ys n] Cons.prems js True by simp
    moreover have "fset (ar_freeSet a) ((is @ [i]) @ ks) ((xs @ [y]) @ ys)" "length (is @ [i]) = length (xs @ [y])"
      using Cons.prems js by simp_all
    note Cons.IH [OF this]
    ultimately show ?thesis using True js by auto
  qed
qed

text \<open>Growing the allocation keeps its contents.\<close>

lemma grow_data_ok:
  assumes rep: "arena_rep a gs" and al: "alloc_upto al limit"
    and room: "2 * (n + segs_size gs) + 2 * MEMORY_HEADER_SIZE < limit" "limit < 2 ^ 32"
  obtains m' g where "grow_data al a n = Some (g, a\<lparr>ar_data := Some m'\<rparr>)" "n < g" "mem_inv m'"
    "mh_alignment (mem_header m') = VL_DEFAULT_ALIGN" "mh_length (mem_header m') = segs_size gs + g"
    "segs_size gs + g < 2 ^ 32 - 1" "segs_size gs + g \<le> 2 * (n + segs_size gs)" "segs_at (mem_data m') 0 gs"
proof -
  obtain m where m: "ar_data a = Some m" "mem_inv m" "mh_alignment (mem_header m) = VL_DEFAULT_ALIGN"
    "mh_length (mem_header m) = segs_size gs" "0 < segs_size gs" "segs_at (mem_data m) 0 gs"
    "length (mem_data m) = segs_size gs"
    by (rule arena_repE [OF rep])
  let ?c = "segs_size gs"
  have lim: "2 * (n + ?c) + 32 < limit" using room by (simp add: MEMORY_HEADER_SIZE_def)
  have "?c < 2 ^ 64" "2 * (n + ?c) < 2 ^ 64" using lim room(2) by simp_all
  from grow_size_ok [OF m(5) this] obtain c' where c': "grow_size ?c (n + ?c) = Some c'" "n + ?c < c'" "c' \<le> 2 * (n + ?c)"
    by auto
  have u: "u64_of (n + ?c) = n + ?c" using lim room(2) by (intro u64_of_id) simp
  have al_ok: "allocator_ok al" using al by (simp add: alloc_upto_def)
  have "realloc_at al (mem_origin m) (c' + MEMORY_HEADER_SIZE) \<noteq> None"
    using al c'(3) lim by (simp add: alloc_upto_def MEMORY_HEADER_SIZE_def)
  moreover have "c' + mh_alignment (mem_header m) + MEMORY_HEADER_SIZE < 2 ^ 64"
    using c'(3) lim room(2) m(3) by (simp add: mem_defs)
  ultimately obtain m' where m': "vlMemRealloc al (Some m) c' = Some (Some m')" "mem_inv m'"
    "mh_length (mem_header m') = c'" "mh_alignment (mem_header m') = VL_DEFAULT_ALIGN"
    "\<forall>k. k \<le> c' \<longrightarrow> k \<le> ?c \<longrightarrow> take k (mem_data m') = take k (mem_data m)"
    using mem_realloc_inv [OF al_ok m(2), of c'] m(3,4) by (auto simp: VL_DEFAULT_ALIGN_def)
  have len': "length (mem_data m') = c'" using mem_inv_data [OF m'(2)] m'(3) by simp
  have "take ?c (mem_data m') = take ?c (mem_data m)" using m'(5) c'(2) by simp
  then have "mem_data m' ! i = mem_data m ! i" if "i < 0 + ?c" for i using that by (metis add_0 nth_take)
  then have at: "segs_at (mem_data m') 0 gs" using m(6,7) len' c'(2) by (intro segs_at_agree [OF m(6)]) simp_all
  obtain d where d: "c' = ?c + d" using c'(2) le_Suc_ex [of ?c c'] by auto
  have c64: "?c \<le> 2 ^ 64" "d < 2 ^ 64" using lim room(2) c'(3) d by simp_all
  then have "c' + (2 ^ 64 - ?c) = d + 2 ^ 64" using d by simp
  then have "u64_of (c' + (2 ^ 64 - ?c)) = c' - ?c" using c64(2) d by (simp only: u64_of_def) simp
  then have "grow_data al a n = Some (c' - ?c, a\<lparr>ar_data := Some m'\<rparr>)"
    using c'(1,2) m'(1,3) m(1,4) u by (simp add: grow_data_def vlMemSize_def)
  moreover have "n < c' - ?c" "mh_length (mem_header m') = ?c + (c' - ?c)" using c'(2) m'(3) by simp_all
  moreover have "?c + (c' - ?c) \<le> 2 * (n + ?c)" using c'(2,3) by linarith
  moreover have "?c + (c' - ?c) < 2 ^ 32 - 1" using c'(2,3) lim room(2) by linarith
  ultimately show thesis using that m'(2,4) at by blast
qed

lemma blocks_carve:
  assumes "blocks 0 G = blocks 0 (A @ Gap r # Block xs # B)" and "g = r + (BLOCK_HEADER_SIZE + length xs)"
  shows "arena_map G = (arena_map (A @ Gap g # B))(segs_size A + r + BLOCK_HEADER_SIZE \<mapsto> xs)"
    and "arena_map (A @ Gap g # B) (segs_size A + r + BLOCK_HEADER_SIZE) = None"
proof -
  let ?A = "A @ [Gap r]"
  have "arena_map G = arena_map (?A @ Block xs # B)" using assms(1) by (simp add: arena_map_def)
  also have "\<dots> = (map_of (blocks 0 ?A @ blocks (segs_size ?A + (BLOCK_HEADER_SIZE + length xs)) B))
      (segs_size ?A + BLOCK_HEADER_SIZE \<mapsto> xs)" by (rule arena_map_block)
  finally show "arena_map G = (arena_map (A @ Gap g # B))(segs_size A + r + BLOCK_HEADER_SIZE \<mapsto> xs)"
    using assms(2) by (simp add: arena_map_def add.assoc)
  show "arena_map (A @ Gap g # B) (segs_size A + r + BLOCK_HEADER_SIZE) = None"
    using arena_map_fresh [of ?A "length xs" B] assms(2) by (simp add: arena_map_def add.assoc)
qed

lemma same_blocks_map: "same_blocks gs hs \<Longrightarrow> arena_map hs = arena_map gs"
  by (simp add: same_blocks_def arena_map_def)

lemma alloc_found:
  assumes rep: "arena_rep a gs" and n: "BLOCK_HEADER_SIZE \<le> n" and sp: "arena_spare a (Suc k)"
    and f: "fset (ar_freeSet a) (ks @ i # ls) (us @ x # vs)" "gaps 0 gs = us @ x # vs" "length ks = length us"
    and fit: "n \<le> an_size x"
  obtains p a' xs G where "alloc_search a n i = Some (Some (p, a'))" "arena_rep a' G" "arena_spare a' k"
    "n = BLOCK_HEADER_SIZE + length xs" "arena_map gs p = None" "arena_map G = (arena_map gs)(p \<mapsto> xs)"
    "segs_size G = segs_size gs"
proof -
  obtain A B where AB: "gs = A @ Gap (an_size x) # B" "an_offset x = segs_size A" "gaps 0 A = us"
    using gaps_split [OF f(2)] by auto
  have f': "fset (ar_freeSet a) (ks @ i # ls) (gaps 0 (A @ Gap (an_size x) # B))" using f(1,2) AB(1) by simp
  have len: "length ks = length (gaps 0 A)" using f(3) AB(3) by simp
  obtain a' xs G where h: "alloc_search a n i = Some (Some (segs_size A + (an_size x - n) + BLOCK_HEADER_SIZE, a'))"
    "arena_rep a' G" "n = BLOCK_HEADER_SIZE + length xs" "arena_spare a' k"
    "blocks 0 G = blocks 0 (A @ Gap (an_size x - n) # Block xs # B)"
    "segs_size G = segs_size (A @ Gap (an_size x) # B)"
    by (rule alloc_search_hit [OF rep [unfolded AB(1)] f' len n fit sp])
  have "an_size x = (an_size x - n) + (BLOCK_HEADER_SIZE + length xs)" using h(3) fit by simp
  from blocks_carve [OF h(5) this] show thesis using that [OF h(1,2,4,3)] AB(1) h(6) by simp
qed

text \<open>Giving a range back makes it a gap, joined with its neighbours.\<close>

lemma release_ok:
  assumes f: "fset (ar_freeSet a) ks (gaps 0 A @ gaps (segs_size A + n) B)" "length ks < 2 ^ 32 - 1"
    and size: "segs_size (A @ Gap n # B) < 2 ^ 32" and pos: "gaps_pos A" "gaps_pos B" "0 < n"
    and ap: "apart (gaps 0 A)" "apart (gaps (segs_size A + n) B)" and sp: "arena_spare a (Suc k)"
  obtains s' ls G where "insert_free a (segs_size A) n = Some (a\<lparr>ar_freeSet := s'\<rparr>)" "fset s' ls (gaps 0 G)"
    "same_blocks (A @ Gap n # B) G" "gaps_pos G" "apart (gaps 0 G)"
    "\<And>d. arena_spare (a\<lparr>ar_freeSet := s', ar_data := d\<rparr>) k"
proof -
  let ?L = "segs_size (A @ Gap n # B)"
  note sp = arena_spareD [OF sp]
  have low: "\<forall>x \<in> set (gaps 0 A). an_offset x < segs_size A"
    using gaps_range [of _ 0 A] gaps_size_pos [OF pos(1)] by fastforce
  have high: "\<forall>y \<in> set (gaps (segs_size A + n) B). segs_size A < an_offset y"
    using gaps_range [of _ "segs_size A + n" B] pos(3) by fastforce
  have below: "ends_below ?L (gaps 0 A @ gaps (segs_size A + n) B)"
    using gaps_range [of _ 0 A] gaps_range [of _ "segs_size A + n" B] by fastforce
  have le: "segs_size A + n \<le> ?L" "?L < 2 ^ 64" using size by simp_all
  obtain s' ls where s': "insert_free a (segs_size A) n = Some (a\<lparr>ar_freeSet := s'\<rparr>)"
    "fset s' ls (join_left (gaps 0 A) (join_right \<lparr>an_offset = segs_size A, an_size = n\<rparr> (gaps (segs_size A + n) B)))"
    "pool_room (set_nodePool (ar_freeSet a)) - 1 \<le> pool_room (set_nodePool s')"
    "pool_can_return (set_nodePool s') (2 * k)"
    by (rule insert_free_ok [OF f(1) sp(1) low high below le ap sp(2) f(2)])
  obtain G where G: "gaps 0 G = join_left (gaps 0 A) (join_right \<lparr>an_offset = segs_size A, an_size = n\<rparr> (gaps (segs_size A + n) B))"
    "same_blocks (A @ Gap n # B) G"
    by (rule join_gap)
  have "gaps_pos G" using G(2) pos by (simp add: same_blocks_def)
  moreover have "apart (gaps 0 G)" unfolding G(1) by (rule apart_join [OF ap])
  moreover have "fset s' ls (gaps 0 G)" unfolding G(1) by (rule s'(2))
  moreover have "arena_spare (a\<lparr>ar_freeSet := s', ar_data := d\<rparr>) k" for d
    using s'(3,4) sp(3) [of "set_nodePool s'"] by (simp add: arena_spare_def)
  ultimately show thesis using that [OF s'(1)] G(2) by blast
qed

lemma alloc_grown:
  assumes rep: "arena_rep a gs" and n: "BLOCK_HEADER_SIZE \<le> n" and sp: "arena_spare a (Suc k)"
    and al: "alloc_upto al limit"
    and room: "2 * (n + segs_size gs) + 2 * MEMORY_HEADER_SIZE < limit" "limit < 2 ^ 32"
  obtains g a1 a2 xs G where "grow_data al a n = Some (g, a1)" "n \<le> g" "g < 2 ^ 32"
    "do { a \<leftarrow> insert_free a1 (segs_size gs) (g - n); store_size a (segs_size gs + (g - n)) n } = Some a2"
    "arena_rep a2 G" "arena_spare a2 k" "n = BLOCK_HEADER_SIZE + length xs"
    "arena_map gs (segs_size gs + (g - n) + BLOCK_HEADER_SIZE) = None"
    "arena_map G = (arena_map gs)(segs_size gs + (g - n) + BLOCK_HEADER_SIZE \<mapsto> xs)"
    "segs_size G \<le> 2 * (n + segs_size gs)"
proof -
  let ?c = "segs_size gs"
  obtain m' g where m': "grow_data al a n = Some (g, a\<lparr>ar_data := Some m'\<rparr>)" "n < g" "mem_inv m'"
    "mh_alignment (mem_header m') = VL_DEFAULT_ALIGN" "mh_length (mem_header m') = ?c + g"
    "?c + g < 2 ^ 32 - 1" "segs_at (mem_data m') 0 gs" "?c + g \<le> 2 * (n + ?c)"
    by (rule grow_data_ok [OF rep al room]) blast
  obtain ks where f: "fset (ar_freeSet a) ks (gaps 0 gs)" "gaps_pos gs" "apart (gaps 0 gs)" "length ks < 2 ^ 32 - 1"
    "ends_below ?c (gaps 0 gs)"
    by (rule arena_repE [OF rep])
  let ?a1 = "a\<lparr>ar_data := Some m'\<rparr>" and ?r = "g - n"
  have len: "length (mem_data m') = ?c + g" using mem_inv_data [OF m'(3)] m'(5) by simp
  define xs where "xs = take (n - BLOCK_HEADER_SIZE) (drop (?c + ?r + BLOCK_HEADER_SIZE) (mem_data m'))"
  have n_xs: "n = BLOCK_HEADER_SIZE + length xs" using len m'(2) n by (simp add: xs_def)
  let ?H = "[Block xs]"
  have f1: "fset (ar_freeSet ?a1) ks (gaps 0 gs @ gaps (segs_size gs + ?r) ?H)" using f(1) by simp
  have total: "segs_size (gs @ Gap ?r # ?H) = ?c + g" using n_xs m'(2) by simp
  then have size: "segs_size (gs @ Gap ?r # ?H) < 2 ^ 32" using m'(6) by linarith
  have sp1: "arena_spare ?a1 (Suc k)" using sp by (simp add: arena_spare_def)
  have r0: "0 < ?r" "gaps_pos ?H" "apart (gaps (segs_size gs + ?r) ?H)" using m'(2) by simp_all
  obtain s' ls G where s': "insert_free ?a1 ?c ?r = Some (?a1\<lparr>ar_freeSet := s'\<rparr>)" "fset s' ls (gaps 0 G)"
    "same_blocks (gs @ Gap ?r # ?H) G" "gaps_pos G" "apart (gaps 0 G)"
    "\<And>d. arena_spare (?a1\<lparr>ar_freeSet := s', ar_data := d\<rparr>) k"
    by (rule release_ok [OF f1 f(4) size f(2) r0(2,1) f(3) r0(3) sp1]) blast
  let ?a = "?a1\<lparr>ar_freeSet := s'\<rparr>"
  have fit: "?c + ?r + n \<le> length (mem_data m')" using len m'(2) by simp
  have one: "ar_data ?a = Some m'" by simp
  obtain m2 where m2: "store_size ?a (?c + ?r) n = Some (?a\<lparr>ar_data := Some m2\<rparr>)"
    "mem_inv m2" "mem_header m2 = mem_header m'" "length (mem_data m2) = length (mem_data m')"
    "block_at (mem_data m2) (?c + ?r) xs"
    "\<And>i. i < length (mem_data m') \<Longrightarrow> i < ?c + ?r \<or> ?c + ?r + BLOCK_HEADER_SIZE \<le> i \<Longrightarrow> mem_data m2 ! i = mem_data m' ! i"
    by (rule store_size_block [OF one m'(3) fit n, folded xs_def]) blast
  have same: "mem_data m2 ! i = mem_data m' ! i" if "i < 0 + ?c" for i
    by (rule m2(6)) (use that len in linarith)+
  have "segs_at (mem_data m2) 0 gs"
    using len m2(4) by (intro segs_at_agree [OF m'(7) same]) simp_all
  then have "segs_at (mem_data m2) 0 (gs @ Gap ?r # ?H)" using m2(5) by simp
  then have at: "segs_at (mem_data m2) 0 G" using s'(3) by (simp add: same_blocks_def)
  have size_G: "segs_size G = ?c + g" using s'(3) total by (simp add: same_blocks_def)
  let ?a2 = "?a\<lparr>ar_data := Some m2\<rparr>"
  have "fset (ar_freeSet ?a2) ls (gaps 0 G)" using s'(2) by simp
  then have "arena_rep ?a2 G"
    using m2(2) m2(3) m'(4,5,6) size_G m'(2) by (intro arena_repI [OF _ m2(2) _ _ _ _ at _ s'(4,5)]) simp_all
  moreover have "arena_spare ?a2 k" using s'(6) by simp
  moreover have "arena_map G = (arena_map gs)(?c + ?r + BLOCK_HEADER_SIZE \<mapsto> xs)"
    "arena_map gs (?c + ?r + BLOCK_HEADER_SIZE) = None"
  proof -
    have b: "blocks 0 G = blocks 0 (gs @ Gap ?r # Block xs # [])" using s'(3) by (simp add: same_blocks_def)
    have g: "g = ?r + (BLOCK_HEADER_SIZE + length xs)" using m'(2) n_xs by simp
    have "arena_map (gs @ Gap g # []) = arena_map gs" by (simp add: arena_map_def)
    then show "arena_map G = (arena_map gs)(?c + ?r + BLOCK_HEADER_SIZE \<mapsto> xs)"
      "arena_map gs (?c + ?r + BLOCK_HEADER_SIZE) = None"
      using blocks_carve [OF b g] by simp_all
  qed
  moreover have "do { a \<leftarrow> insert_free ?a1 ?c ?r; store_size a (?c + ?r) n } = Some ?a2" using s'(1) m2(1) by simp
  moreover have "n \<le> g" "g < 2 ^ 32" using m'(2,6) by simp_all
  ultimately show thesis using that m'(1,8) n_xs size_G by simp
qed

text \<open>What an allocation does to the map of blocks.\<close>

lemma arena_alloc_ok:
  assumes rep: "arena_rep a gs" and n: "0 < n" and sp: "arena_spare a (Suc k)"
    and al: "alloc_upto al limit"
    and room: "2 * (n + BLOCK_HEADER_SIZE + segs_size gs) + 2 * MEMORY_HEADER_SIZE < limit" "limit < 2 ^ 32"
  obtains p a' xs G where "vlArenaMemAlloc al a n = Some (p, a')" "arena_rep a' G" "arena_spare a' k"
    "length xs = n" "arena_map gs p = None" "arena_map G = (arena_map gs)(p \<mapsto> xs)"
    "segs_size G \<le> 2 * (n + BLOCK_HEADER_SIZE + segs_size gs)"
proof -
  let ?n = "n + BLOCK_HEADER_SIZE"
  have u: "u64_of ?n = ?n" using room by (intro u64_of_id) simp
  have n8: "BLOCK_HEADER_SIZE \<le> ?n" by simp
  obtain m ks where m: "ar_data a = Some m" "mh_length (mem_header m) = segs_size gs" "fset (ar_freeSet a) ks (gaps 0 gs)"
    by (rule arena_repE [OF rep])
  have front: "vlSetFront (ar_freeSet a) = Some (hd_or ks SNIL)" using m(3) by (rule fset_front)
  have sz: "vlMemSize (ar_data a) = segs_size gs" using m by (simp add: vlMemSize_def)
  have "fset (ar_freeSet a) ([] @ ks) ([] @ gaps 0 gs)" using m(3) by simp
  from alloc_search_find [OF this, of ?n] consider
      (no) "alloc_search a ?n (hd_or ks SNIL) = Some None"
    | (yes) us x vs i "is" ls where "gaps 0 gs = us @ x # vs" "ks = is @ i # ls" "length is = length us"
        "?n \<le> an_size x" "alloc_search a ?n (hd_or ks SNIL) = alloc_search a ?n i"
    by auto
  then show thesis
  proof cases
    case yes
    have f: "fset (ar_freeSet a) (is @ i # ls) (us @ x # vs)" using m(3) yes(1,2) by simp
    obtain p a' xs G where r: "alloc_search a ?n i = Some (Some (p, a'))" "arena_rep a' G" "arena_spare a' k"
      "?n = BLOCK_HEADER_SIZE + length xs" "arena_map gs p = None" "arena_map G = (arena_map gs)(p \<mapsto> xs)"
      "segs_size G = segs_size gs"
      by (rule alloc_found [OF rep n8 sp f yes(1,3,4)])
    have "vlArenaMemAlloc al a n = Some (p, a')"
      unfolding vlArenaMemAlloc_def Let_def u front bind.bind_lunit yes(5) r(1) option.case using n by simp
    then show thesis using that r by simp
  next
    case no
    have room': "2 * (?n + segs_size gs) + 2 * MEMORY_HEADER_SIZE < limit" using room(1) by simp
    obtain g a1 a2 xs G where r: "grow_data al a ?n = Some (g, a1)" "?n \<le> g" "g < 2 ^ 32"
      "do { a \<leftarrow> insert_free a1 (segs_size gs) (g - ?n); store_size a (segs_size gs + (g - ?n)) ?n } = Some a2"
      "arena_rep a2 G" "arena_spare a2 k" "?n = BLOCK_HEADER_SIZE + length xs"
      "arena_map gs (segs_size gs + (g - ?n) + BLOCK_HEADER_SIZE) = None"
      "arena_map G = (arena_map gs)(segs_size gs + (g - ?n) + BLOCK_HEADER_SIZE \<mapsto> xs)"
      "segs_size G \<le> 2 * (?n + segs_size gs)"
      by (rule alloc_grown [OF rep n8 sp al room' room(2)])
    obtain d where d: "g = ?n + d" using r(2) le_Suc_ex by blast
    have "g + (2 ^ 64 - ?n) = d + 2 ^ 64" using d r(3) by simp
    then have rest: "u64_of (g + (2 ^ 64 - ?n)) = g - ?n" using d r(3) by (simp only: u64_of_def) simp
    obtain a3 where a3: "insert_free a1 (segs_size gs) (g - ?n) = Some a3" "store_size a3 (segs_size gs + (g - ?n)) ?n = Some a2"
      using r(4) by (auto simp: bind_eq_Some_conv)
    have "vlArenaMemAlloc al a n = Some (segs_size gs + (g - ?n) + BLOCK_HEADER_SIZE, a2)"
      unfolding vlArenaMemAlloc_def Let_def u front bind.bind_lunit no option.case r(1) sz prod.case rest a3
      using n by simp
    then show thesis by (rule that [OF _ r(5,6) _ r(8,9)]) (use r(7,10) in simp_all)
  qed
qed

section \<open>Freeing\<close>

lemma arena_block:
  assumes rep: "arena_rep a gs" and p: "arena_map gs p = Some xs"
  obtains A B where "gs = A @ Block xs # B" "p = segs_size A + BLOCK_HEADER_SIZE"
    "load_size a (segs_size A) = Some (BLOCK_HEADER_SIZE + length xs)"
    "vlArenaMemSample a p (length xs) = Some xs" "p + length xs < 2 ^ 32"
proof -
  obtain m where m: "ar_data a = Some m" "mem_inv m" "segs_size gs < 2 ^ 32 - 1" "segs_at (mem_data m) 0 gs"
    "length (mem_data m) = segs_size gs" "mh_length (mem_header m) = segs_size gs"
    by (rule arena_repE [OF rep])
  have "(p, xs) \<in> set (blocks 0 gs)" using p by (simp add: arena_map_def map_of_SomeD)
  then obtain A B where AB: "gs = A @ Block xs # B" "p = segs_size A + BLOCK_HEADER_SIZE" using blocks_split by fastforce
  have at: "block_at (mem_data m) (segs_size A) xs" using m(4) AB(1) by simp
  have fit: "segs_size A + (BLOCK_HEADER_SIZE + length xs) \<le> length (mem_data m)" using m(5) AB(1) by simp
  have lt: "segs_size A + (BLOCK_HEADER_SIZE + length xs) < 2 ^ 32" using fit m(3,5) by linarith
  have "load_size a (segs_size A) = Some (BLOCK_HEADER_SIZE + length xs)"
    by (rule load_size_block [OF m(1,2) at fit]) (use lt in simp)
  moreover have "vlArenaMemSample a p (length xs) = Some xs"
    using mem_read_Some [OF m(2), of p "length xs"] at fit m(1,5,6) AB(2)
    by (simp add: vlArenaMemSample_def block_at_def)
  ultimately show thesis using that AB lt by simp
qed

lemma arena_map_remove:
  assumes "same_blocks (A @ Gap n # B) G" and "n = BLOCK_HEADER_SIZE + length xs"
  shows "arena_map G = (arena_map (A @ Block xs # B))(segs_size A + BLOCK_HEADER_SIZE := None)"
proof -
  have "arena_map G = map_of (blocks 0 A @ blocks (segs_size A + (BLOCK_HEADER_SIZE + length xs)) B)"
    using assms by (simp add: same_blocks_def arena_map_def)
  then show ?thesis using arena_map_fresh [of A "length xs" B] unfolding arena_map_block
    by (simp add: fun_upd_idem)
qed

text \<open>Around a block there are gaps that are apart.\<close>

lemma arena_around:
  assumes rep: "arena_rep a (A @ Block xs # B)"
  obtains ks where "fset (ar_freeSet a) ks (gaps 0 A @ gaps (segs_size A + (BLOCK_HEADER_SIZE + length xs)) B)"
    "length ks < 2 ^ 32 - 1" "apart (gaps 0 A)" "apart (gaps (segs_size A + (BLOCK_HEADER_SIZE + length xs)) B)"
    "gaps_pos A" "gaps_pos B" "segs_size (A @ Block xs # B) < 2 ^ 32"
  by (rule arena_repE [OF rep]) (auto simp: successively_append_iff)

lemma arena_free_ok:
  assumes rep: "arena_rep a gs" and p: "arena_map gs p = Some xs" and sp: "arena_spare a (Suc k)"
  obtains a' G where "vlArenaMemFree a p = Some a'" "arena_rep a' G" "arena_spare a' k"
    "arena_map G = (arena_map gs)(p := None)" "ar_data a' = ar_data a"
proof -
  obtain A B where AB: "gs = A @ Block xs # B" "p = segs_size A + BLOCK_HEADER_SIZE"
    "load_size a (segs_size A) = Some (BLOCK_HEADER_SIZE + length xs)"
    by (rule arena_block [OF rep p])
  let ?n = "BLOCK_HEADER_SIZE + length xs"
  obtain ks where f: "fset (ar_freeSet a) ks (gaps 0 A @ gaps (segs_size A + ?n) B)"
    "length ks < 2 ^ 32 - 1" "apart (gaps 0 A)" "apart (gaps (segs_size A + ?n) B)"
    "gaps_pos A" "gaps_pos B" "segs_size gs < 2 ^ 32"
    using arena_around [of a A xs B] rep AB(1) by metis
  have size: "segs_size (A @ Gap ?n # B) < 2 ^ 32" using f(7) AB(1) by simp
  obtain s' ls G where s': "insert_free a (segs_size A) ?n = Some (a\<lparr>ar_freeSet := s'\<rparr>)" "fset s' ls (gaps 0 G)"
    "same_blocks (A @ Gap ?n # B) G" "gaps_pos G" "apart (gaps 0 G)"
    "\<And>d. arena_spare (a\<lparr>ar_freeSet := s', ar_data := d\<rparr>) k"
    by (rule release_ok [OF f(1,2) size f(5,6) _ f(3,4) sp]) simp_all
  obtain m where m: "ar_data a = Some m" "mem_inv m" "segs_at (mem_data m) 0 gs"
    by (rule arena_repE [OF rep])
  have sz: "segs_size G = segs_size gs" using s'(3) AB(1) by (simp add: same_blocks_def)
  have "segs_at (mem_data m) 0 (A @ Gap ?n # B)" using m(3) AB(1) by simp
  then have at: "segs_at (mem_data m) 0 G" using s'(3) by (simp add: same_blocks_def)
  have keep: "a\<lparr>ar_freeSet := s', ar_data := Some m\<rparr> = a\<lparr>ar_freeSet := s'\<rparr>" using m(1) by simp
  have "arena_rep (a\<lparr>ar_freeSet := s'\<rparr>) G"
    using arena_rep_write [OF rep m(1,2) refl sz at s'(2,4,5)] unfolding keep .
  moreover have "vlArenaMemFree a p = Some (a\<lparr>ar_freeSet := s'\<rparr>)"
    using AB(2,3) s'(1) by (simp add: vlArenaMemFree_def)
  moreover have "arena_spare (a\<lparr>ar_freeSet := s'\<rparr>) k" using s'(6) [of "Some m"] unfolding keep .
  moreover have "arena_map G = (arena_map gs)(p := None)" using arena_map_remove [OF s'(3) refl] AB(1,2) by simp
  ultimately show thesis using that by simp
qed

section \<open>Writing to a block\<close>

text \<open>The segments after a write that keeps them, or changes the block at the offset.\<close>

lemma segs_at_block:
  assumes "segs_at (mem_data m) 0 (A @ Block xs # B)" and "length (mem_data m) = segs_size (A @ Block xs # B)"
    and "length (mem_data m') = length (mem_data m)" and "segs_size (Block ys # C) \<le> segs_size (Block xs # B)"
    and "block_at (mem_data m') (segs_size A) ys"
    and "segs_at (mem_data m) (segs_size A + (BLOCK_HEADER_SIZE + length ys)) C"
    and same: "\<And>i. i < length (mem_data m) \<Longrightarrow> i < segs_size A \<or> segs_size A + (BLOCK_HEADER_SIZE + length ys) \<le> i \<Longrightarrow>
      mem_data m' ! i = mem_data m ! i"
  shows "segs_at (mem_data m') 0 (A @ Block ys # C)"
proof -
  have len: "length (mem_data m) = segs_size A + (BLOCK_HEADER_SIZE + length xs) + segs_size B" using assms(2) by simp
  have fit: "(BLOCK_HEADER_SIZE + length ys) + segs_size C \<le> BLOCK_HEADER_SIZE + length xs + segs_size B" using assms(4) by simp
  have old: "segs_at (mem_data m) 0 A" using assms(1) by simp
  have "mem_data m' ! i = mem_data m ! i" if "i < 0 + segs_size A" for i
    by (rule same) (use that len in linarith)+
  then have "segs_at (mem_data m') 0 A"
    using len assms(3) by (intro segs_at_agree [OF old]) simp_all
  moreover have "mem_data m' ! i = mem_data m ! i"
    if "segs_size A + (BLOCK_HEADER_SIZE + length ys) \<le> i" "i < segs_size A + (BLOCK_HEADER_SIZE + length ys) + segs_size C" for i
    by (rule same) (use that len fit in linarith)+
  then have "segs_at (mem_data m') (segs_size A + (BLOCK_HEADER_SIZE + length ys)) C"
    using len fit assms(3) by (intro segs_at_agree [OF assms(6)]) simp_all
  ultimately show ?thesis using assms(5) by simp
qed

lemma arena_map_update:
  assumes "length ys = length xs"
  shows "arena_map (A @ Block ys # B) = (arena_map (A @ Block xs # B))(segs_size A + BLOCK_HEADER_SIZE \<mapsto> ys)"
  unfolding arena_map_block using assms by simp

lemma gaps_block_update: "length ys = length xs \<Longrightarrow> gaps off (A @ Block ys # B) = gaps off (A @ Block xs # B)"
  by simp

lemma arena_store_ok:
  assumes rep: "arena_rep a gs" and p: "arena_map gs p = Some xs" and fit: "length ys \<le> length xs"
  obtains a' G where "vlArenaMemStore a p ys = Some a'" "arena_rep a' G" "ar_freeSet a' = ar_freeSet a"
    "arena_map G = (arena_map gs)(p \<mapsto> ys @ drop (length ys) xs)" "segs_size G = segs_size gs"
proof -
  obtain A B where AB: "gs = A @ Block xs # B" "p = segs_size A + BLOCK_HEADER_SIZE"
    by (rule arena_block [OF rep p])
  obtain m ks where m: "ar_data a = Some m" "mem_inv m" "segs_at (mem_data m) 0 gs" "fset (ar_freeSet a) ks (gaps 0 gs)"
    "gaps_pos gs" "apart (gaps 0 gs)" "length (mem_data m) = segs_size gs"
    by (rule arena_repE [OF rep])
  let ?ys = "ys @ drop (length ys) xs"
  have len: "length ?ys = length xs" using fit by simp
  have size: "length (mem_data m) = segs_size A + BLOCK_HEADER_SIZE + length xs + segs_size B" using m(7) AB(1) by simp
  have room: "p + length ys \<le> length (mem_data m)" using size AB(2) fit by simp
  obtain m' where m': "mem_write (Some m) p ys = Some m'" "mem_inv m'" "mem_header m' = mem_header m"
    "length (mem_data m') = length (mem_data m)"
    "\<And>i. i < length (mem_data m) \<Longrightarrow>
       mem_data m' ! i = (if p \<le> i \<and> i < p + length ys then ys ! (i - p) else mem_data m ! i)"
    by (rule mem_poke [OF m(2) room]) blast
  have b: "block_at (mem_data m) (segs_size A) xs" using m(3) AB(1) by simp
  have "take BLOCK_HEADER_SIZE (drop (segs_size A) (mem_data m')) = take BLOCK_HEADER_SIZE (drop (segs_size A) (mem_data m))"
    using size AB(2) m'(4,5) by (intro nth_equalityI) auto
  moreover have "take (length xs) (drop p (mem_data m')) = ?ys"
  proof (rule nth_equalityI)
    show "length (take (length xs) (drop p (mem_data m'))) = length ?ys" using size AB(2) m'(4) len by simp
    fix i
    assume i: "i < length (take (length xs) (drop p (mem_data m')))"
    then have i: "i < length xs" "p + i < length (mem_data m)" using m'(4) by auto
    have "mem_data m ! (p + i) = xs ! i"
    proof -
      have "take (length xs) (drop p (mem_data m)) ! i = xs ! i" using b AB(2) by (simp add: block_at_def)
      then show ?thesis using i by simp
    qed
    then show "take (length xs) (drop p (mem_data m')) ! i = ?ys ! i"
      using i m'(4) m'(5) [of "p + i"] by (simp add: nth_append)
  qed
  ultimately have b': "block_at (mem_data m') (segs_size A) ?ys" using b len AB(2) by (simp add: block_at_def)
  have size': "length (mem_data m) = segs_size (A @ Block xs # B)" using m(7) AB(1) by simp
  have le: "segs_size (Block ?ys # B) \<le> segs_size (Block xs # B)" using len by simp
  have atB: "segs_at (mem_data m) (segs_size A + (BLOCK_HEADER_SIZE + length ?ys)) B" using m(3) AB(1) len by simp
  have same: "mem_data m' ! i = mem_data m ! i"
    if "i < length (mem_data m)" "i < segs_size A \<or> segs_size A + (BLOCK_HEADER_SIZE + length ?ys) \<le> i" for i
    using that m'(5) [of i] AB(2) len fit by auto
  let ?G = "A @ Block ?ys # B"
  have at: "segs_at (mem_data m') 0 ?G"
    by (rule segs_at_block [OF m(3) [unfolded AB(1)] size' m'(4) le b' atB same])
  have g: "gaps 0 ?G = gaps 0 gs" unfolding AB(1) by (rule gaps_block_update [OF len])
  have "arena_rep (a\<lparr>ar_freeSet := ar_freeSet a, ar_data := Some m'\<rparr>) ?G"
    by (rule arena_rep_write [OF rep m(1) m'(2,3) _ at, of _ ks]) (use m(4-6) g len AB(1) in auto)
  moreover have "vlArenaMemStore a p ys = Some (a\<lparr>ar_data := Some m'\<rparr>)" using m'(1) m(1) by (simp add: vlArenaMemStore_def)
  moreover have "arena_map ?G = (arena_map gs)(p \<mapsto> ?ys)" unfolding AB by (rule arena_map_update [OF len])
  moreover have "segs_size ?G = segs_size gs" using len AB(1) by simp
  ultimately show thesis using that [of "a\<lparr>ar_data := Some m'\<rparr>" ?G] by simp
qed

section \<open>Resizing in place\<close>

text \<open>A new size for a block, once the free set has the gaps that go with it.\<close>

lemma resize_block:
  assumes rep: "arena_rep a (A @ Block xs # B)" and m: "ar_data a = Some m"
    and ys: "ys = take n (drop (segs_size A + BLOCK_HEADER_SIZE) (mem_data m))" and n: "length ys = n"
    and C: "segs_size (Block ys # C) = segs_size (Block xs # B)"
      "segs_at (mem_data m) (segs_size A + (BLOCK_HEADER_SIZE + length ys)) C"
    and G: "same_blocks (A @ Block ys # C) G" "fset s' ls (gaps 0 G)" "gaps_pos G" "apart (gaps 0 G)"
  obtains m' where "store_size (a\<lparr>ar_freeSet := s'\<rparr>) (segs_size A) (n + BLOCK_HEADER_SIZE) =
      Some (a\<lparr>ar_freeSet := s', ar_data := Some m'\<rparr>)"
    "arena_rep (a\<lparr>ar_freeSet := s', ar_data := Some m'\<rparr>) G"
proof -
  obtain m0 where "ar_data a = Some m0" "mem_inv m0" "segs_at (mem_data m0) 0 (A @ Block xs # B)"
    "length (mem_data m0) = segs_size (A @ Block xs # B)"
    by (rule arena_repE [OF rep])
  with m have m_inv: "mem_inv m" "segs_at (mem_data m) 0 (A @ Block xs # B)"
    "length (mem_data m) = segs_size (A @ Block xs # B)" by simp_all
  have le: "segs_size (Block ys # C) \<le> segs_size (Block xs # B)" using C(1) by simp
  have total: "segs_size (A @ Block ys # C) = segs_size (A @ Block xs # B)" using C(1) by simp
  then have fit: "segs_size A + (n + BLOCK_HEADER_SIZE) \<le> length (mem_data m)" using m_inv(3) n by simp
  have one: "ar_data (a\<lparr>ar_freeSet := s'\<rparr>) = Some m" using m by simp
  have n8: "BLOCK_HEADER_SIZE \<le> n + BLOCK_HEADER_SIZE" by simp
  obtain m' zs where m': "store_size (a\<lparr>ar_freeSet := s'\<rparr>) (segs_size A) (n + BLOCK_HEADER_SIZE) =
      Some (a\<lparr>ar_freeSet := s', ar_data := Some m'\<rparr>)"
    "mem_inv m'" "mem_header m' = mem_header m" "length (mem_data m') = length (mem_data m)"
    "block_at (mem_data m') (segs_size A) zs"
    "zs = take (n + BLOCK_HEADER_SIZE - BLOCK_HEADER_SIZE) (drop (segs_size A + BLOCK_HEADER_SIZE) (mem_data m))"
    "\<And>i. i < length (mem_data m) \<Longrightarrow> i < segs_size A \<or> segs_size A + BLOCK_HEADER_SIZE \<le> i \<Longrightarrow> mem_data m' ! i = mem_data m ! i"
    by (rule store_size_block [OF one m_inv(1) fit n8]) blast
  have "zs = ys" using m'(6) ys by simp
  then have b: "block_at (mem_data m') (segs_size A) ys" using m'(5) by simp
  have same: "mem_data m' ! i = mem_data m ! i"
    if "i < length (mem_data m)" "i < segs_size A \<or> segs_size A + (BLOCK_HEADER_SIZE + length ys) \<le> i" for i
    by (rule m'(7)) (use that in linarith)+
  have "segs_at (mem_data m') 0 (A @ Block ys # C)"
    by (rule segs_at_block [OF m_inv(2,3) m'(4) le b C(2) same])
  then have at: "segs_at (mem_data m') 0 G" using G(1) by (simp add: same_blocks_def)
  have sz: "segs_size G = segs_size (A @ Block xs # B)" using G(1) total by (simp add: same_blocks_def)
  show thesis
    by (rule that [OF m'(1)]) (rule arena_rep_write [OF rep m m'(2,3) sz at G(2-4)])
qed

lemma take_block:
  assumes "block_at bytes off xs" and "n \<le> length xs"
  shows "take n (drop (off + BLOCK_HEADER_SIZE) bytes) = take n xs"
proof -
  have "take n (take (length xs) (drop (off + BLOCK_HEADER_SIZE) bytes)) = take n xs"
    using assms(1) by (simp add: block_at_def)
  then show ?thesis using assms(2) by (simp add: min_def)
qed

lemma arena_shrink_ok:
  assumes rep: "arena_rep a gs" and p: "arena_map gs p = Some xs" and n: "n < length xs"
    and sp: "arena_spare a (Suc k)"
  obtains a' G where "vlArenaMemRealloc al a p n = Some (p, a')" "arena_rep a' G" "arena_spare a' k"
    "arena_map G = (arena_map gs)(p \<mapsto> take n xs)"
proof -
  obtain A B where AB: "gs = A @ Block xs # B" "p = segs_size A + BLOCK_HEADER_SIZE"
    "load_size a (segs_size A) = Some (BLOCK_HEADER_SIZE + length xs)" "p + length xs < 2 ^ 32"
    by (rule arena_block [OF rep p])
  note rep' = rep [unfolded AB(1)]
  let ?A = "A @ [Block (take n xs)]" and ?d = "length xs - n"
  have size_A: "segs_size ?A = segs_size A + (n + BLOCK_HEADER_SIZE)" using n by simp
  have size_d: "segs_size ?A + ?d = segs_size A + (BLOCK_HEADER_SIZE + length xs)" using n by simp
  obtain ks where f: "fset (ar_freeSet a) ks (gaps 0 A @ gaps (segs_size A + (BLOCK_HEADER_SIZE + length xs)) B)"
    "length ks < 2 ^ 32 - 1" "apart (gaps 0 A)" "apart (gaps (segs_size A + (BLOCK_HEADER_SIZE + length xs)) B)"
    "gaps_pos A" "gaps_pos B" "segs_size (A @ Block xs # B) < 2 ^ 32"
    by (rule arena_around [OF rep'])
  have g: "gaps 0 ?A = gaps 0 A" by simp
  have f1: "fset (ar_freeSet a) ks (gaps 0 ?A @ gaps (segs_size ?A + ?d) B)" unfolding g size_d by (rule f(1))
  have size: "segs_size (?A @ Gap ?d # B) < 2 ^ 32" using f(7) n by simp
  have pos: "gaps_pos ?A" "0 < ?d" using f(5) n by simp_all
  have ap: "apart (gaps 0 ?A)" "apart (gaps (segs_size ?A + ?d) B)" unfolding g size_d by (rule f(3), rule f(4))
  obtain s' ls G where s': "insert_free a (segs_size ?A) ?d = Some (a\<lparr>ar_freeSet := s'\<rparr>)" "fset s' ls (gaps 0 G)"
    "same_blocks (?A @ Gap ?d # B) G" "gaps_pos G" "apart (gaps 0 G)"
    "\<And>d. arena_spare (a\<lparr>ar_freeSet := s', ar_data := d\<rparr>) k"
    by (rule release_ok [OF f1 f(2) size pos(1) f(6) pos(2) ap sp]) blast
  obtain m where m: "ar_data a = Some m" "segs_at (mem_data m) 0 gs"
    by (rule arena_repE [OF rep])
  have b: "block_at (mem_data m) (segs_size A) xs" using m(2) AB(1) by simp
  have ys: "take n xs = take n (drop (segs_size A + BLOCK_HEADER_SIZE) (mem_data m))"
    using take_block [OF b] n by simp
  have len: "length (take n xs) = n" using n by simp
  have C: "segs_size (Block (take n xs) # Gap ?d # B) = segs_size (Block xs # B)" using n by simp
  have at: "segs_at (mem_data m) (segs_size A + (BLOCK_HEADER_SIZE + length (take n xs))) (Gap ?d # B)"
    using m(2) AB(1) n by simp
  have sb: "same_blocks (A @ Block (take n xs) # Gap ?d # B) G" using s'(3) by simp
  obtain m' where m': "store_size (a\<lparr>ar_freeSet := s'\<rparr>) (segs_size A) (n + BLOCK_HEADER_SIZE) =
      Some (a\<lparr>ar_freeSet := s', ar_data := Some m'\<rparr>)"
    "arena_rep (a\<lparr>ar_freeSet := s', ar_data := Some m'\<rparr>) G"
    by (rule resize_block [OF rep' m(1) ys len C at sb s'(2,4,5)])
  let ?a = "a\<lparr>ar_freeSet := s', ar_data := Some m'\<rparr>"
  have u: "u64_of (n + BLOCK_HEADER_SIZE) = n + BLOCK_HEADER_SIZE"
    using n AB(2,4) by (intro u64_of_id) simp
  have sub: "BLOCK_HEADER_SIZE + length xs - (n + BLOCK_HEADER_SIZE) = ?d" by simp
  have ins: "insert_free a (segs_size A + (n + BLOCK_HEADER_SIZE)) ?d = Some (a\<lparr>ar_freeSet := s'\<rparr>)"
    using s'(1) unfolding size_A .
  have pA: "p - BLOCK_HEADER_SIZE = segs_size A" "\<not> p < BLOCK_HEADER_SIZE" using AB(2) by simp_all
  have ne: "n + BLOCK_HEADER_SIZE \<noteq> BLOCK_HEADER_SIZE + length xs" "n + BLOCK_HEADER_SIZE < BLOCK_HEADER_SIZE + length xs"
    using n by simp_all
  have "vlArenaMemRealloc al a p n = Some (p, ?a)"
    unfolding vlArenaMemRealloc_def Let_def u pA(1) AB(3) bind.bind_lunit if_not_P [OF pA(2)] if_not_P [OF ne(1)]
      if_P [OF ne(2)] sub ins m'(1) using AB(2) by simp
  moreover have "arena_map G = (arena_map gs)(p \<mapsto> take n xs)"
  proof -
    have "arena_map G = arena_map (A @ Block (take n xs) # Gap ?d # B)" using sb by (rule same_blocks_map)
    also have "\<dots> = (arena_map (A @ Block xs # B))(segs_size A + BLOCK_HEADER_SIZE \<mapsto> take n xs)"
      unfolding arena_map_block using n by simp
    finally show ?thesis using AB(1,2) by simp
  qed
  ultimately show thesis using that m'(2) s'(6) by blast
qed

text \<open>The search for the gap behind a block.\<close>

lemma fset_find:
  assumes f: "fset s ks ns"
  shows "vlSetFind s (offset_key off) = Some (hd_or (filter (\<lambda>i. an_offset (elt s i) = off) ks) SNIL)"
  using vlSetFind_rep [OF fsetD(5,1) [OF f], of "offset_key off"] fsetD(2,3) [OF f]
  by (simp add: node_compare offset_key_def)

lemma fset_find_at:
  assumes f: "fset s (is @ i # js) (xs @ x # ys)" and len: "length is = length xs" and off: "an_offset x = off"
  shows "vlSetFind s (offset_key off) = Some i"
proof -
  note sm = fset_sample [OF f len]
  have "sorted_wrt (\<lambda>a b. an_offset a < an_offset b) (xs @ x # ys)" by (rule fsetD(7) [OF f])
  then have "\<forall>y \<in> set xs. an_offset y \<noteq> off" using off by (auto simp: sorted_wrt_append)
  then have "\<forall>j \<in> set is. an_offset (elt s j) \<noteq> off" using sm(3) by auto
  then have "filter (\<lambda>i. an_offset (elt s i) = off) is = []" by (simp add: filter_empty_conv)
  then show ?thesis using fset_find [OF f] sm(2) off by simp
qed

lemma fset_find_none:
  assumes f: "fset s ks ns" and no: "\<forall>x \<in> set ns. an_offset x \<noteq> off"
  shows "vlSetFind s (offset_key off) = Some SNIL"
proof -
  have "filter (\<lambda>i. an_offset (elt s i) = off) ks = []" using no fsetD(4) [OF f] by (auto simp: filter_empty_conv)
  then show ?thesis using fset_find [OF f] by simp
qed

lemma split_at: "n < length zs \<Longrightarrow> \<exists>xs x ys. zs = xs @ x # ys \<and> length xs = n"
  using id_take_nth_drop [of n zs] by (intro exI [of _ "take n zs"] exI [of _ "zs ! n"] exI [of _ "drop (Suc n) zs"]) simp

text \<open>The gap behind a block, if there is one, and how far the block can grow.\<close>

fun gap_behind :: "seg list \<Rightarrow> nat" where
  "gap_behind (Gap g # B) = g"
| "gap_behind B = 0"

lemma realloc_in_place_fits:
  assumes rep: "arena_rep a (A @ Block xs # Gap g # B)" and n: "length xs < n" "n \<le> length xs + g"
    and sp: "arena_spare a (Suc k)"
  obtains a' ys G where "realloc_in_place a (segs_size A) (BLOCK_HEADER_SIZE + length xs) (n + BLOCK_HEADER_SIZE) =
      Some (Some (segs_size A + BLOCK_HEADER_SIZE, a'))" "arena_rep a' G" "arena_spare a' k" "length ys = n"
    "take (length xs) ys = xs" "arena_map G = (arena_map (A @ Block xs # Gap g # B))(segs_size A + BLOCK_HEADER_SIZE \<mapsto> ys)"
proof -
  let ?s = "ar_freeSet a" and ?e = "segs_size A + (BLOCK_HEADER_SIZE + length xs)" and ?r = "length xs + g - n"
  obtain m ks where m: "ar_data a = Some m" "mem_inv m" "segs_at (mem_data m) 0 (A @ Block xs # Gap g # B)"
    "fset ?s ks (gaps 0 (A @ Block xs # Gap g # B))" "gaps_pos (A @ Block xs # Gap g # B)"
    "apart (gaps 0 (A @ Block xs # Gap g # B))" "length (mem_data m) = segs_size (A @ Block xs # Gap g # B)"
    "length ks < 2 ^ 32 - 1" "segs_size (A @ Block xs # Gap g # B) < 2 ^ 32 - 1"
    by (rule arena_repE [OF rep])
  let ?x = "\<lparr>an_offset = ?e, an_size = g\<rparr>"
  have "length (gaps 0 A) < length ks" using fsetD(9) [OF m(4)] by simp
  then obtain "is" i js where ks: "ks = is @ i # js" "length is = length (gaps 0 A)"
    using split_at by blast
  have f: "fset ?s (is @ i # js) (gaps 0 A @ ?x # gaps (?e + g) B)" using m(4) ks(1) by simp
  have total: "?e + g + segs_size B < 2 ^ 32" using m(9) by simp
  have lim: "?e + g < 2 ^ 64" using total by simp
  have fnd: "vlSetFind ?s (offset_key ?e) = Some i" by (rule fset_find_at [OF f ks(2)]) simp
  have nn: "i \<noteq> SNIL" using fsetD(8) [OF f] by auto
  have smp: "vlSetSample ?s i = Some ?x" by (rule fset_sample(1) [OF f ks(2)])
  note spd = arena_spareD [OF sp]
  have can: "pool_can_return (set_nodePool ?s) (Suc (2 * k))" using spd(2) by (rule pool_can_return_mono) simp
  obtain s1 where s1: "vlSetRemove ?s i = Some s1" "fset s1 (is @ js) (gaps 0 A @ gaps (?e + g) B)"
    "pool_room (set_nodePool s1) = pool_room (set_nodePool ?s) + 1" "pool_can_return (set_nodePool s1) (2 * k)"
    by (rule fset_remove [OF f ks(2) can]) (use m(8) ks(1) in auto)
  have apA: "apart (gaps 0 A)" and apB: "apart (gaps (?e + g) B)" using m(6) by (simp_all add: apart_mid)
  have posA: "gaps_pos A" and posB: "gaps_pos B" and g0: "0 < g" using m(5) by simp_all
  define ys where "ys = take n (drop (segs_size A + BLOCK_HEADER_SIZE) (mem_data m))"
  have len: "length ys = n" using m(7) n by (simp add: ys_def)
  have b: "block_at (mem_data m) (segs_size A) xs" using m(3) by simp
  have pre: "take (length xs) ys = xs" using take_block [OF b, of "length xs"] n by (simp add: ys_def min_def)
  let ?C = "(if ?r = 0 then [] else [Gap ?r]) @ B" and ?p = "segs_size A + BLOCK_HEADER_SIZE"
  let ?G = "A @ Block ys # ?C"
  have C: "segs_size (Block ys # ?C) = segs_size (Block xs # Gap g # B)" using len n by simp
  have at: "segs_at (mem_data m) (segs_size A + (BLOCK_HEADER_SIZE + length ys)) ?C"
    using m(3) len n by (cases "?r = 0") (simp_all add: add.assoc)
  have posG: "gaps_pos ?G" using posA posB by simp
  have end_ys: "segs_size A + (BLOCK_HEADER_SIZE + length ys) = segs_size A + (n + BLOCK_HEADER_SIZE)" using len by simp
  have lt: "segs_size A < ?e + g" using g0 by simp
  obtain s' ls where s': "(if g + (BLOCK_HEADER_SIZE + length xs) \<noteq> n + BLOCK_HEADER_SIZE then
      map_option snd (vlSetInsert s1 \<lparr>an_offset = segs_size A + (n + BLOCK_HEADER_SIZE), an_size = ?r\<rparr>) else Some s1) = Some s'"
    "fset s' ls (gaps 0 ?G)" "apart (gaps 0 ?G)" "pool_room (set_nodePool ?s) \<le> pool_room (set_nodePool s')"
    "pool_can_return (set_nodePool s') (2 * k)"
  proof (cases "?r = 0")
    case True
    have "gaps 0 ?G = gaps 0 A @ gaps (?e + g) B" using True len n by (simp add: add.assoc)
    moreover have "g + (BLOCK_HEADER_SIZE + length xs) = n + BLOCK_HEADER_SIZE" using True n by simp
    ultimately show thesis using that [of s1 "is @ js"] s1(2-4) apart_gaps [OF apA apB lt] by simp
  next
    case False
    let ?y = "\<lparr>an_offset = segs_size A + (n + BLOCK_HEADER_SIZE), an_size = ?r\<rparr>"
    have e: "?e + g = segs_size A + (n + BLOCK_HEADER_SIZE) + ?r" using n by simp
    have g': "gaps 0 ?G = gaps 0 A @ ?y # gaps (?e + g) B" using False len e by (simp add: ac_simps)
    have ready: "pool_ready (set_nodePool s1)" using s1(3) by (simp add: pool_ready_def)
    have low: "\<forall>x \<in> set (gaps 0 A). an_offset x < an_offset ?y"
    proof
      fix x
      assume "x \<in> set (gaps 0 A)"
      then have "an_offset x \<le> segs_size A" using gaps_range [of x 0 A] by simp
      then show "an_offset x < an_offset ?y" using n by simp
    qed
    have high: "\<forall>y \<in> set (gaps (?e + g) B). an_offset ?y < an_offset y"
      using gaps_range [of _ "?e + g" B] e False by fastforce
    obtain j s2 us vs where s2: "vlSetInsert s1 ?y = Some (j, s2)" "fset s2 (us @ j # vs) (gaps 0 A @ ?y # gaps (?e + g) B)"
      "pool_room (set_nodePool s1) - 1 \<le> pool_room (set_nodePool s2)"
      "\<And>n. pool_can_return (set_nodePool s1) n \<Longrightarrow> pool_can_return (set_nodePool s2) n"
      by (rule fset_insert [OF s1(2) ready low high]) blast
    have "\<not> touches (last (gaps 0 A)) ?y" if "gaps 0 A \<noteq> []"
      using gaps_range [of "last (gaps 0 A)" 0 A] that n by (simp add: touches_def)
    moreover have "touches ?y z = touches ?x z" for z using e by (simp add: touches_def ac_simps)
    moreover have "apart (gaps 0 A @ ?x # gaps (?e + g) B)" using m(6) by simp
    ultimately have ap: "apart (gaps 0 ?G)" unfolding g' apart_mid by blast
    have f2: "fset s2 (us @ j # vs) (gaps 0 ?G)" unfolding g' by (rule s2(2))
    have ne: "g + (BLOCK_HEADER_SIZE + length xs) \<noteq> n + BLOCK_HEADER_SIZE" using False n by simp
    show thesis
      by (rule that [of s2, OF _ f2 ap]) (use ne s2(1,3,4) s1(3,4) in simp_all)
  qed
  have sb: "same_blocks ?G ?G" by (simp add: same_blocks_def)
  obtain m' where m': "store_size (a\<lparr>ar_freeSet := s'\<rparr>) (segs_size A) (n + BLOCK_HEADER_SIZE) =
      Some (a\<lparr>ar_freeSet := s', ar_data := Some m'\<rparr>)"
    "arena_rep (a\<lparr>ar_freeSet := s', ar_data := Some m'\<rparr>) ?G"
    by (rule resize_block [OF rep m(1) ys_def len C at sb s'(2) posG s'(3)])
  let ?a = "a\<lparr>ar_freeSet := s', ar_data := Some m'\<rparr>"
  have u: "u64_of ?e = ?e" "u64_of (g + (BLOCK_HEADER_SIZE + length xs)) = g + (BLOCK_HEADER_SIZE + length xs)"
    "u64_of (BLOCK_HEADER_SIZE + length xs + g) = BLOCK_HEADER_SIZE + length xs + g"
    using lim by (simp_all add: u64_of_id)
  have sub: "BLOCK_HEADER_SIZE + length xs + g - (n + BLOCK_HEADER_SIZE) = ?r" by simp
  have le: "n + BLOCK_HEADER_SIZE \<le> g + (BLOCK_HEADER_SIZE + length xs)" using n by simp
  have ins: "(if g + (BLOCK_HEADER_SIZE + length xs) \<noteq> n + BLOCK_HEADER_SIZE then do {
        (_, freeSet) \<leftarrow> vlSetInsert s1 \<lparr>an_offset = segs_size A + (n + BLOCK_HEADER_SIZE), an_size = ?r\<rparr>; Some freeSet }
      else Some s1) = Some s'"
    using s'(1) by (auto split: if_splits option.splits)
  have "realloc_in_place a (segs_size A) (BLOCK_HEADER_SIZE + length xs) (n + BLOCK_HEADER_SIZE) = Some (Some (?p, ?a))"
    unfolding realloc_in_place_def u fnd bind.bind_lunit if_P [OF nn] smp vl_arena_node.simps u if_P [OF le] s1(1) sub ins m'(1) ..
  moreover have "arena_spare ?a k"
    using s'(4,5) spd(3) [of "set_nodePool s'"] by (simp add: arena_spare_def)
  moreover have "arena_map ?G = (arena_map (A @ Block xs # Gap g # B))(?p \<mapsto> ys)"
  proof -
    have "blocks (segs_size A + (BLOCK_HEADER_SIZE + length ys)) ?C = blocks (?e + g) B"
    proof (cases "?r = 0")
      case True
      then have "segs_size A + (BLOCK_HEADER_SIZE + length ys) = ?e + g" using len n by simp
      moreover have "?C = B" by (simp only: True if_True append_Nil simp_thms)
      ultimately show ?thesis by (rule arg_cong2 [where f = blocks])
    next
      case False
      then have "segs_size A + (BLOCK_HEADER_SIZE + length ys) + ?r = ?e + g" using len n by simp
      then show ?thesis using False by simp
    qed
    then show ?thesis unfolding arena_map_block by simp
  qed
  ultimately show thesis using that m'(2) len pre by blast
qed

section \<open>Moving a block\<close>

text \<open>Without a gap behind the block that is large enough there is no growth in place.\<close>

lemma realloc_in_place_not:
  assumes rep: "arena_rep a (A @ Block xs # B)" and n: "length xs + gap_behind B < n"
  shows "realloc_in_place a (segs_size A) (BLOCK_HEADER_SIZE + length xs) (n + BLOCK_HEADER_SIZE) = Some None"
proof -
  let ?s = "ar_freeSet a" and ?e = "segs_size A + (BLOCK_HEADER_SIZE + length xs)"
  obtain ks where f: "fset ?s ks (gaps 0 A @ gaps ?e B)" "gaps_pos B" "segs_size (A @ Block xs # B) < 2 ^ 32"
    by (rule arena_around [OF rep])
  have u: "u64_of ?e = ?e" using f(3) by (intro u64_of_id) simp
  have notA: "an_offset x \<noteq> ?e" if "x \<in> set (gaps 0 A)" for x
    using gaps_range [OF that] BLOCK_HEADER_pos(1) by linarith
  show ?thesis
  proof (cases "\<exists>x \<in> set (gaps ?e B). an_offset x = ?e")
    case False
    then have "vlSetFind ?s (offset_key ?e) = Some SNIL" using notA by (intro fset_find_none [OF f(1)]) auto
    then show ?thesis by (simp add: realloc_in_place_def u)
  next
    case True
    then obtain x us vs where x: "gaps ?e B = us @ x # vs" "an_offset x = ?e" by (metis split_list)
    have us: "us = []"
    proof (rule ccontr)
      assume "us \<noteq> []"
      then obtain y ws where y: "us = y # ws" by (cases us) auto
      have "sorted_wrt (\<lambda>a b. an_offset a < an_offset b) (gaps 0 A @ gaps ?e B)" by (rule fsetD(7) [OF f(1)])
      then have "an_offset y < an_offset x" using x(1) y by (simp add: sorted_wrt_append)
      moreover have "?e \<le> an_offset y" using gaps_range [of y ?e B] x(1) y by simp
      ultimately show False using x(2) by simp
    qed
    then obtain B' where B': "B = Gap (an_size x) # B'" using gap_at_start [of ?e B x vs] x by auto
    have f': "fset ?s ks (gaps 0 A @ x # vs)" using f(1) x(1) us by simp
    have "length (gaps 0 A) < length ks" using fsetD(9) [OF f'] by simp
    then obtain "is" i js where ks: "ks = is @ i # js" "length is = length (gaps 0 A)" using split_at by blast
    have f2: "fset ?s (is @ i # js) (gaps 0 A @ x # vs)" using f' ks(1) by simp
    have fnd: "vlSetFind ?s (offset_key ?e) = Some i" by (rule fset_find_at [OF f2 ks(2) x(2)])
    have "i \<noteq> SNIL" using fsetD(8) [OF f2] by auto
    moreover have "vlSetSample ?s i = Some x" by (rule fset_sample(1) [OF f2 ks(2)])
    moreover have "u64_of (an_size x + (BLOCK_HEADER_SIZE + length xs)) = an_size x + (BLOCK_HEADER_SIZE + length xs)"
      using f(3) B' by (intro u64_of_id) simp
    moreover have "\<not> n + BLOCK_HEADER_SIZE \<le> an_size x + (BLOCK_HEADER_SIZE + length xs)" using n B' by simp
    ultimately show ?thesis using fnd by (simp add: realloc_in_place_def u)
  qed
qed

lemma arena_header_bytes:
  assumes rep: "arena_rep a (A @ Block xs # B)"
  shows "vlArenaMemSample a (segs_size A) (BLOCK_HEADER_SIZE + length xs) =
    Some (nat_bytes BLOCK_HEADER_SIZE (BLOCK_HEADER_SIZE + length xs) @ xs)"
proof -
  obtain m where m: "ar_data a = Some m" "mem_inv m" "mh_length (mem_header m) = segs_size (A @ Block xs # B)"
    "segs_at (mem_data m) 0 (A @ Block xs # B)"
    by (rule arena_repE [OF rep])
  have "block_at (mem_data m) (segs_size A) xs" using m(4) by simp
  moreover have "take (BLOCK_HEADER_SIZE + length xs) (drop (segs_size A) (mem_data m)) =
      take BLOCK_HEADER_SIZE (drop (segs_size A) (mem_data m)) @
      take (length xs) (drop (segs_size A + BLOCK_HEADER_SIZE) (mem_data m))"
    by (simp add: take_add add.commute)
  ultimately show ?thesis
    using mem_read_Some [OF m(2), of "segs_size A" "BLOCK_HEADER_SIZE + length xs"] m(1,3)
    by (simp add: vlArenaMemSample_def block_at_def)
qed

text \<open>
  A block that has to move: the copy starts with the old size field, so that the bytes of the
  block come eight places late.
\<close>

lemma arena_move_ok:
  assumes rep: "arena_rep a gs" and p: "arena_map gs p = Some xs" and n: "length xs < n"
    and noroom: "\<And>A B. gs = A @ Block xs # B \<Longrightarrow> p = segs_size A + BLOCK_HEADER_SIZE \<Longrightarrow> length xs + gap_behind B < n"
    and sp: "arena_spare a (k + 2)" and al: "alloc_upto al limit"
    and room: "2 * (n + 2 * BLOCK_HEADER_SIZE + segs_size gs) + 2 * MEMORY_HEADER_SIZE < limit" "limit < 2 ^ 32"
  obtains q a' G ys where "vlArenaMemRealloc al a p n = Some (q, a')" "arena_rep a' G" "arena_spare a' k"
    "arena_map gs q = None" "q \<noteq> p" "arena_map G = (arena_map gs)(p := None, q \<mapsto> ys)" "length ys = n + BLOCK_HEADER_SIZE"
    "take (BLOCK_HEADER_SIZE + length xs) ys = nat_bytes BLOCK_HEADER_SIZE (BLOCK_HEADER_SIZE + length xs) @ xs"
proof -
  obtain A B where AB: "gs = A @ Block xs # B" "p = segs_size A + BLOCK_HEADER_SIZE"
    "load_size a (segs_size A) = Some (BLOCK_HEADER_SIZE + length xs)" "p + length xs < 2 ^ 32"
    by (rule arena_block [OF rep p])
  let ?n = "n + BLOCK_HEADER_SIZE"
  have u: "u64_of ?n = ?n" using room by (intro u64_of_id) simp
  have np: "realloc_in_place a (segs_size A) (BLOCK_HEADER_SIZE + length xs) ?n = Some None"
    by (rule realloc_in_place_not [OF rep [unfolded AB(1)] noroom [OF AB(1,2)]])
  have n0: "0 < ?n" by simp
  have room': "2 * (?n + BLOCK_HEADER_SIZE + segs_size gs) + 2 * MEMORY_HEADER_SIZE < limit" using room(1) by simp
  have sp1: "arena_spare a (Suc (Suc k))" using sp by simp
  obtain q a1 zs G1 where r: "vlArenaMemAlloc al a ?n = Some (q, a1)" "arena_rep a1 G1" "arena_spare a1 (Suc k)"
    "length zs = ?n" "arena_map gs q = None" "arena_map G1 = (arena_map gs)(q \<mapsto> zs)"
    by (rule arena_alloc_ok [OF rep n0 sp1 al room' room(2)]) blast
  have qp: "q \<noteq> p" using r(5) p by auto
  have p1: "arena_map G1 p = Some xs" "arena_map G1 q = Some zs" using r(6) p qp by simp_all
  obtain A1 B1 where AB1: "G1 = A1 @ Block xs # B1" "p = segs_size A1 + BLOCK_HEADER_SIZE"
    by (rule arena_block [OF r(2) p1(1)])
  have eqA: "segs_size A1 = segs_size A" using AB(2) AB1(2) by simp
  let ?h = "nat_bytes BLOCK_HEADER_SIZE (BLOCK_HEADER_SIZE + length xs) @ xs"
  have smp: "vlArenaMemSample a1 (segs_size A) (BLOCK_HEADER_SIZE + length xs) = Some ?h"
    using arena_header_bytes [of a1 A1 xs B1] r(2) AB1(1) eqA by simp
  have fit: "length ?h \<le> length zs" using r(4) n by simp
  obtain a2 G2 where s: "vlArenaMemStore a1 q ?h = Some a2" "arena_rep a2 G2" "ar_freeSet a2 = ar_freeSet a1"
    "arena_map G2 = (arena_map G1)(q \<mapsto> ?h @ drop (length ?h) zs)"
    by (rule arena_store_ok [OF r(2) p1(2) fit])
  let ?ys = "?h @ drop (length ?h) zs"
  have p2: "arena_map G2 p = Some xs" using s(4) p1(1) qp by simp
  have sp2: "arena_spare a2 (Suc k)" using r(3) s(3) by (simp add: arena_spare_def)
  obtain a3 G3 where t: "vlArenaMemFree a2 p = Some a3" "arena_rep a3 G3" "arena_spare a3 k"
    "arena_map G3 = (arena_map G2)(p := None)"
    by (rule arena_free_ok [OF s(2) p2 sp2])
  have pA: "p - BLOCK_HEADER_SIZE = segs_size A" "\<not> p < BLOCK_HEADER_SIZE" using AB(2) by simp_all
  have ne: "?n \<noteq> BLOCK_HEADER_SIZE + length xs" "\<not> ?n < BLOCK_HEADER_SIZE + length xs" using n by simp_all
  have "vlArenaMemRealloc al a p n = Some (q, a3)"
    unfolding vlArenaMemRealloc_def Let_def u pA(1) AB(3) bind.bind_lunit if_not_P [OF pA(2)] if_not_P [OF ne(1)]
      if_not_P [OF ne(2)] np option.case r(1) prod.case smp s(1) AB(2) [symmetric] t(1) ..
  moreover have "arena_map G3 = (arena_map gs)(p := None, q \<mapsto> ?ys)"
    unfolding t(4) s(4) r(6) using qp by (simp add: fun_upd_twist)
  moreover have "length ?ys = ?n" using fit r(4) by simp
  moreover have "take (BLOCK_HEADER_SIZE + length xs) ?ys = ?h" by simp
  ultimately show thesis using that [OF _ t(2,3) r(5) qp] by blast
qed

section \<open>Capacity\<close>

lemma total_free_ok:
  "fset s (is @ js) (xs @ ys) \<Longrightarrow> length is = length xs \<Longrightarrow> acc + sum_list (map an_size ys) < 2 ^ 64 \<Longrightarrow>
   total_free_loop s (hd_or js SNIL) acc = Some (acc + sum_list (map an_size ys))"
proof (induction ys arbitrary: xs js "is" acc)
  case Nil
  then have "js = []" using fsetD(9) [OF Nil(1)] by simp
  then show ?case by (simp add: total_free_loop.simps [of s SNIL])
next
  case (Cons y ys)
  then obtain i ks where js: "js = i # ks" using fsetD(9) [OF Cons.prems(1)] by (cases js) auto
  have f: "fset s (is @ i # ks) (xs @ y # ys)" using Cons.prems(1) js by simp
  have nn: "i \<noteq> SNIL" using fsetD(8) [OF f] by auto
  have u: "u64_of (acc + an_size y) = acc + an_size y" using Cons.prems(3) by (intro u64_of_id) simp
  have "total_free_loop s i acc = total_free_loop s (hd_or ks SNIL) (acc + an_size y)"
    using nn fset_sample(1) [OF f Cons.prems(2)] fset_next_prev(1) [OF f] u by (subst total_free_loop.simps) simp
  also have "\<dots> = Some ((acc + an_size y) + sum_list (map an_size ys))"
    by (rule Cons.IH [of "is @ [i]" ks "xs @ [y]"]) (use f Cons.prems(2,3) in simp_all)
  finally show ?case using js by simp
qed

definition used_bytes :: "seg list \<Rightarrow> nat" where
  "used_bytes gs = sum_list (map (\<lambda>(p, xs). BLOCK_HEADER_SIZE + length xs) (blocks 0 gs))"

lemma gaps_and_blocks:
  "sum_list (map an_size (gaps off gs)) + sum_list (map (\<lambda>(p, xs). BLOCK_HEADER_SIZE + length xs) (blocks off gs)) = segs_size gs"
  by (induction off gs rule: gaps.induct) simp_all

lemma arena_total_free_ok:
  assumes "arena_rep a gs"
  shows "vlArenaTotalFree a = Some (sum_list (map an_size (gaps 0 gs)))"
proof -
  obtain m ks where m: "fset (ar_freeSet a) ks (gaps 0 gs)" "segs_size gs < 2 ^ 32 - 1" by (rule arena_repE [OF assms])
  have "sum_list (map an_size (gaps 0 gs)) \<le> segs_size gs" using gaps_and_blocks [of 0 gs] by linarith
  then have "sum_list (map an_size (gaps 0 gs)) < 2 ^ 64" using m(2) by simp
  then show ?thesis
    using total_free_ok [of "ar_freeSet a" "[]" ks "[]" "gaps 0 gs" 0] m(1) fset_front [OF m(1)]
    by (simp add: vlArenaTotalFree_def)
qed

section \<open>A new arena\<close>

lemma arena_init_ok:
  assumes al: "alloc_upto al limit" and lim: "2 ^ 20 \<le> limit" and n: "0 < n" "n + MEMORY_HEADER_SIZE < limit" "n < 2 ^ 32 - 1"
  obtains a where "vlArenaInit al n = Some a" "arena_rep a [Gap n]" "\<And>k. k \<le> 8 \<Longrightarrow> arena_spare a k"
proof -
  have al_ok: "allocator_ok al" using al by (simp add: alloc_upto_def)
  have mo: "\<forall>b < 2 ^ 20. malloc_ok al b" using al lim by (simp add: malloc_ok_def alloc_upto_def)
  obtain s :: "vl_arena_node vl_set" and E where s: "vlSetInit (malloc_ok al) 16 vl_ArenaNodeCompare = Some s"
    "set_inv s" "set_iters s = []" "set_comparator s = vl_ArenaNodeCompare"
    "set_nodePool s = fresh_pool (malloc_ok al) E 8" "0 < E" "E < 2 ^ 16"
    by (rule vlSetInit_ok [OF mo, of 16 vl_ArenaNodeCompare]) simp_all
  have f: "fset s [] ([] @ [])" using s(2-4) by (simp add: fset_def set_contents_def)
  have room: "pool_room (set_nodePool s) = 16" using fresh_pool_props(3) [OF s(6)] by (simp add: s(5))
  then have ready: "pool_ready (set_nodePool s)" by (simp add: pool_ready_def)
  let ?e = "\<lparr>an_offset = 0, an_size = n\<rparr>"
  obtain i s' "is" js where s': "vlSetInsert s ?e = Some (i, s')" "fset s' (is @ i # js) ([] @ ?e # [])"
    "pool_room (set_nodePool s) - 1 \<le> pool_room (set_nodePool s')"
    "\<And>n. pool_can_return (set_nodePool s) n \<Longrightarrow> pool_can_return (set_nodePool s') n"
    by (rule fset_insert [OF f ready, of ?e]) (simp, simp, blast)
  obtain q where "malloc_at al (n + MEMORY_HEADER_SIZE) = Some q" using al n(2) by (auto simp: alloc_upto_def)
  then obtain m where m: "vlMemAlloc al n = Some (Some m)" "mem_inv m" "mh_length (mem_header m) = n"
    "mh_alignment (mem_header m) = VL_DEFAULT_ALIGN"
    using mem_alloc_inv [OF al_ok, of n q] n by (auto simp: MEMORY_HEADER_SIZE_def)
  let ?a = "\<lparr>ar_data = Some m, ar_freeSet = s'\<rparr>"
  have "vlArenaInit al n = Some ?a" using s(1) s'(1) m(1) by (simp add: vlArenaInit_def)
  moreover have "arena_rep ?a [Gap n]"
    by (rule arena_repI [of _ m _ "is @ i # js"]) (use m n s'(2) in simp_all)
  moreover have "arena_spare ?a k" if "k \<le> 8" for k
  proof -
    have "pool_can_return (set_nodePool s) (2 * k)" using that by (simp add: s(5) pool_can_return_def fresh_pool_def)
    then show ?thesis using s'(3,4) room that by (simp add: arena_spare_def)
  qed
  ultimately show thesis using that by blast
qed

end
