(* ===== verification/VL_ArenaApi.thy ===== *)
theory VL_ArenaApi
  imports VL_ArenaSpec
begin

text \<open>
  The contract of the arena, as an interface: a heap of blocks that are reached by pointers. What
  follows from the contract for a client is proved in the locale; the arena keeps it, and the hash
  table relies on it.
\<close>

section \<open>The interface\<close>

text \<open>Allocating a block and filling it, the way the clients do it.\<close>

definition heap_put :: "('s \<Rightarrow> nat \<Rightarrow> (nat \<times> 's) option) \<Rightarrow> ('s \<Rightarrow> nat \<Rightarrow> byte list \<Rightarrow> 's option) \<Rightarrow>
    's \<Rightarrow> byte list \<Rightarrow> (nat \<times> 's) option" where
  "heap_put alloc store s xs = do { (p, s) \<leftarrow> alloc s (length xs); s \<leftarrow> store s p xs; Some (p, s) }"

text \<open>
  \<open>holds s M k\<close>: the state has the blocks of \<open>M\<close>, and \<open>k\<close> more operations are possible.
\<close>

locale block_heap =
  fixes holds :: "'s \<Rightarrow> (nat \<rightharpoonup> byte list) \<Rightarrow> nat \<Rightarrow> bool"
    and fits :: "'s \<Rightarrow> nat \<Rightarrow> bool"
    and alloc :: "'s \<Rightarrow> nat \<Rightarrow> (nat \<times> 's) option"
    and release :: "'s \<Rightarrow> nat \<Rightarrow> 's option"
    and store :: "'s \<Rightarrow> nat \<Rightarrow> byte list \<Rightarrow> 's option"
    and load :: "'s \<Rightarrow> nat \<Rightarrow> nat \<Rightarrow> byte list option"
  assumes alloc_law: "holds s M (Suc k) \<Longrightarrow> 0 < n \<Longrightarrow> fits s n \<Longrightarrow>
      \<exists>p s' xs. alloc s n = Some (p, s') \<and> M p = None \<and> length xs = n \<and> holds s' (M(p \<mapsto> xs)) k"
    and release_law: "holds s M (Suc k) \<Longrightarrow> M p = Some xs \<Longrightarrow>
      \<exists>s'. release s p = Some s' \<and> holds s' (M(p := None)) k"
    and store_law: "holds s M k \<Longrightarrow> M p = Some xs \<Longrightarrow> length ys \<le> length xs \<Longrightarrow>
      \<exists>s'. store s p ys = Some s' \<and> holds s' (M(p \<mapsto> ys @ drop (length ys) xs)) k"
    and load_law: "holds s M k \<Longrightarrow> M p = Some xs \<Longrightarrow> load s p (length xs) = Some xs"
begin

lemma put_ok:
  assumes "holds s M (Suc k)" and "xs \<noteq> []" and "fits s (length xs)"
  obtains p s' where "heap_put alloc store s xs = Some (p, s')" "M p = None" "holds s' (M(p \<mapsto> xs)) k"
proof -
  obtain p s1 zs where s1: "alloc s (length xs) = Some (p, s1)" "M p = None" "length zs = length xs"
    "holds s1 (M(p \<mapsto> zs)) k"
    using alloc_law [OF assms(1) _ assms(3)] assms(2) by auto
  obtain s2 where "store s1 p xs = Some s2" "holds s2 (M(p \<mapsto> xs @ drop (length xs) zs)) k"
    using store_law [OF s1(4), of p zs xs] s1(3) by auto
  then show thesis using that s1 by (simp add: heap_put_def)
qed

text \<open>What is put can be read, and so can everything that was there before.\<close>

lemma put_load:
  assumes "holds s M (Suc k)" and "xs \<noteq> []" and "fits s (length xs)"
  shows "\<exists>p s'. heap_put alloc store s xs = Some (p, s') \<and> holds s' (M(p \<mapsto> xs)) k \<and>
    load s' p (length xs) = Some xs \<and> (\<forall>q ys. M q = Some ys \<longrightarrow> load s' q (length ys) = Some ys)"
proof -
  obtain p s' where s': "heap_put alloc store s xs = Some (p, s')" "M p = None" "holds s' (M(p \<mapsto> xs)) k"
    by (rule put_ok [OF assms])
  moreover have "load s' q (length ys) = Some ys" if "M q = Some ys" for q ys
    using load_law [OF s'(3), of q ys] that s'(2) by (cases "q = p") auto
  moreover have "load s' p (length xs) = Some xs" by (rule load_law [OF s'(3)]) simp
  ultimately show ?thesis by blast
qed

text \<open>A released block does not disturb the others.\<close>

lemma release_load:
  assumes "holds s M (Suc k)" and "M p = Some xs" and "M q = Some ys" and "q \<noteq> p"
  shows "\<exists>s'. release s p = Some s' \<and> load s' q (length ys) = Some ys"
proof -
  obtain s' where s': "release s p = Some s'" "holds s' (M(p := None)) k" using release_law [OF assms(1,2)] by blast
  moreover have "load s' q (length ys) = Some ys" by (rule load_law [OF s'(2)]) (use assms(3,4) in simp)
  ultimately show ?thesis by blast
qed

end

section \<open>The arena keeps it\<close>

definition arena_holds :: "vl_arena \<Rightarrow> (nat \<rightharpoonup> byte list) \<Rightarrow> nat \<Rightarrow> bool" where
  "arena_holds a M k \<longleftrightarrow> (\<exists>gs. arena_rep a gs \<and> M = arena_map gs \<and> arena_spare a k)"

text \<open>
  The allocation that the arena may need for a block of \<open>n\<close> bytes, with the size in front of the
  block and the header of the allocation, is one that the allocator has.
\<close>

definition arena_fits :: "nat \<Rightarrow> vl_arena \<Rightarrow> nat \<Rightarrow> bool" where
  "arena_fits limit a n \<longleftrightarrow>
     2 * (n + BLOCK_HEADER_SIZE + vlArenaTotalCapacity a) + 2 * MEMORY_HEADER_SIZE < limit \<and> limit < 2 ^ 32"

lemma arena_capacity: "arena_rep a gs \<Longrightarrow> vlArenaTotalCapacity a = segs_size gs"
  by (auto simp: arena_rep_def vlArenaTotalCapacity_def vlMemSize_def)

lemma arena_holds_alloc:
  assumes h: "arena_holds a M (Suc k)" and n: "0 < n" and al: "alloc_upto al limit" and fit: "arena_fits limit a n"
  obtains p a' xs where "vlArenaMemAlloc al a n = Some (p, a')" "M p = None" "length xs = n"
    "arena_holds a' (M(p \<mapsto> xs)) k"
    "vlArenaTotalCapacity a' \<le> 2 * (n + BLOCK_HEADER_SIZE + vlArenaTotalCapacity a)"
proof -
  obtain gs where gs: "arena_rep a gs" "M = arena_map gs" "arena_spare a (Suc k)" using h by (auto simp: arena_holds_def)
  have room: "2 * (n + BLOCK_HEADER_SIZE + segs_size gs) + 2 * MEMORY_HEADER_SIZE < limit" "limit < 2 ^ 32"
    using fit arena_capacity [OF gs(1)] by (simp_all add: arena_fits_def)
  obtain p a' xs G where "vlArenaMemAlloc al a n = Some (p, a')" "arena_rep a' G" "arena_spare a' k"
    "length xs = n" "arena_map gs p = None" "arena_map G = (arena_map gs)(p \<mapsto> xs)"
    "segs_size G \<le> 2 * (n + BLOCK_HEADER_SIZE + segs_size gs)"
    by (rule arena_alloc_ok [OF gs(1) n gs(3) al room])
  moreover from this have "arena_holds a' (M(p \<mapsto> xs)) k" unfolding arena_holds_def gs(2) by metis
  ultimately show thesis
    using that [of p a' xs] gs(2) arena_capacity [OF gs(1)] arena_capacity [of a' G] by simp
qed

lemma arena_holds_free:
  assumes h: "arena_holds a M (Suc k)" and p: "M p = Some xs"
  obtains a' where "vlArenaMemFree a p = Some a'" "arena_holds a' (M(p := None)) k" "ar_data a' = ar_data a"
proof -
  obtain gs where gs: "arena_rep a gs" "M = arena_map gs" "arena_spare a (Suc k)" using h by (auto simp: arena_holds_def)
  obtain a' G where "vlArenaMemFree a p = Some a'" "arena_rep a' G" "arena_spare a' k"
    "arena_map G = (arena_map gs)(p := None)" "ar_data a' = ar_data a"
    by (rule arena_free_ok [OF gs(1) p [unfolded gs(2)] gs(3)])
  then show thesis using that gs(2) by (metis arena_holds_def)
qed

lemma arena_holds_store:
  assumes h: "arena_holds a M k" and p: "M p = Some xs" and fit: "length ys \<le> length xs"
  obtains a' where "vlArenaMemStore a p ys = Some a'" "arena_holds a' (M(p \<mapsto> ys @ drop (length ys) xs)) k"
    "vlArenaTotalCapacity a' = vlArenaTotalCapacity a"
proof -
  obtain gs where gs: "arena_rep a gs" "M = arena_map gs" "arena_spare a k" using h by (auto simp: arena_holds_def)
  obtain a' G where a': "vlArenaMemStore a p ys = Some a'" "arena_rep a' G" "ar_freeSet a' = ar_freeSet a"
    "arena_map G = (arena_map gs)(p \<mapsto> ys @ drop (length ys) xs)" "segs_size G = segs_size gs"
    by (rule arena_store_ok [OF gs(1) p [unfolded gs(2)] fit])
  moreover have "arena_spare a' k" using gs(3) a'(3) by (simp add: arena_spare_def)
  ultimately show thesis using that gs(1,2) arena_capacity by (metis arena_holds_def)
qed

lemma arena_holds_load:
  assumes h: "arena_holds a M k" and p: "M p = Some xs"
  shows "vlArenaMemSample a p (length xs) = Some xs" and "vlArenaMemSize a p = Some (length xs)"
proof -
  obtain gs where gs: "arena_rep a gs" "M = arena_map gs" using h by (auto simp: arena_holds_def)
  obtain A B where AB: "p = segs_size A + BLOCK_HEADER_SIZE" "load_size a (segs_size A) = Some (BLOCK_HEADER_SIZE + length xs)"
    "vlArenaMemSample a p (length xs) = Some xs" "p + length xs < 2 ^ 32"
    by (rule arena_block [OF gs(1) p [unfolded gs(2)]])
  have "BLOCK_HEADER_SIZE + length xs + (2 ^ 64 - BLOCK_HEADER_SIZE) = length xs + 2 ^ 64"
    by (simp add: BLOCK_HEADER_SIZE_def)
  then have "u64_of (BLOCK_HEADER_SIZE + length xs + (2 ^ 64 - BLOCK_HEADER_SIZE)) = length xs"
    using AB(4) by (simp only: u64_of_def) simp
  then show "vlArenaMemSize a p = Some (length xs)" using AB(1,2) by (simp add: vlArenaMemSize_def)
  show "vlArenaMemSample a p (length xs) = Some xs" by (rule AB(3))
qed

text \<open>For every allocator that serves all requests below a limit.\<close>

interpretation ah: block_heap arena_holds "\<lambda>a n. alloc_upto al limit \<and> arena_fits limit a n" "vlArenaMemAlloc al"
    vlArenaMemFree vlArenaMemStore vlArenaMemSample for al limit
proof (unfold_locales, goal_cases)
  case (1 a M k n)
  then show ?case by (meson arena_holds_alloc)
next
  case (2 a M k p xs)
  then show ?case by (meson arena_holds_free)
next
  case (3 a M k p xs ys)
  then show ?case by (meson arena_holds_store)
next
  case (4 a M k p xs)
  then show ?case by (rule arena_holds_load(1))
qed

section \<open>Accounting\<close>

lemma blocks_distinct: "distinct (map fst (blocks off gs))"
proof (induction off gs rule: blocks.induct)
  case (3 off xs gs)
  then show ?case using blocks_range [of _ _ "off + (BLOCK_HEADER_SIZE + length xs)" gs] by fastforce
qed simp_all

lemma sum_map_of:
  "distinct (map fst xs) \<Longrightarrow> (\<Sum>p \<in> dom (map_of xs). f (the (map_of xs p))) = sum_list (map (f \<circ> snd) xs)"
proof (induction xs)
  case (Cons x xs)
  have "fst x \<notin> dom (map_of xs)" using Cons.prems by (simp add: dom_map_of_conv_image_fst)
  then have "(\<Sum>p \<in> dom (map_of xs). f (the (map_of (x # xs) p))) = (\<Sum>p \<in> dom (map_of xs). f (the (map_of xs p)))"
    by (intro sum.cong) auto
  moreover have "dom (map_of (x # xs)) = insert (fst x) (dom (map_of xs))" by auto
  moreover have "(\<Sum>p \<in> insert (fst x) (dom (map_of xs)). f (the (map_of (x # xs) p))) =
      f (the (map_of (x # xs) (fst x))) + (\<Sum>p \<in> dom (map_of xs). f (the (map_of (x # xs) p)))"
    using \<open>fst x \<notin> dom (map_of xs)\<close> by (intro sum.insert finite_dom_map_of)
  moreover have "f (the (map_of (x # xs) (fst x))) = f (snd x)" and "distinct (map fst xs)" using Cons.prems by simp_all
  ultimately show ?case using Cons.IH by (simp del: map_of.simps)
qed simp

definition block_bytes :: "(nat \<rightharpoonup> byte list) \<Rightarrow> nat" where
  "block_bytes M = (\<Sum>p \<in> dom M. BLOCK_HEADER_SIZE + length (the (M p)))"

lemma arena_account:
  assumes "arena_rep a gs"
  shows "vlArenaTotalFree a = Some (vlArenaTotalCapacity a - block_bytes (arena_map gs))"
    and "block_bytes (arena_map gs) \<le> vlArenaTotalCapacity a" and "finite (dom (arena_map gs))"
proof -
  have "block_bytes (arena_map gs) = sum_list (map (\<lambda>(p, xs). BLOCK_HEADER_SIZE + length xs) (blocks 0 gs))"
    using sum_map_of [OF blocks_distinct [of 0 gs], of "\<lambda>xs. BLOCK_HEADER_SIZE + length xs"]
    by (simp add: block_bytes_def arena_map_def comp_def split_def)
  then have "sum_list (map an_size (gaps 0 gs)) + block_bytes (arena_map gs) = vlArenaTotalCapacity a"
    using gaps_and_blocks [of 0 gs] arena_capacity [OF assms] by simp
  then show "vlArenaTotalFree a = Some (vlArenaTotalCapacity a - block_bytes (arena_map gs))"
    and "block_bytes (arena_map gs) \<le> vlArenaTotalCapacity a"
    using arena_total_free_ok [OF assms] by auto
  show "finite (dom (arena_map gs))" by (simp add: arena_map_def finite_dom_map_of)
qed

lemma block_bytes_upd:
  assumes "finite (dom M)"
  shows "M p = None \<Longrightarrow> block_bytes (M(p \<mapsto> xs)) = block_bytes M + (BLOCK_HEADER_SIZE + length xs)"
    and "M p = Some xs \<Longrightarrow> block_bytes M = block_bytes (M(p := None)) + (BLOCK_HEADER_SIZE + length xs)"
proof -
  have add: "block_bytes (N(p \<mapsto> xs)) = block_bytes N + (BLOCK_HEADER_SIZE + length xs)"
    if "finite (dom N)" "N p = None" for N
  proof -
    have "p \<notin> dom N" using that(2) by auto
    then have "(\<Sum>q \<in> dom N. BLOCK_HEADER_SIZE + length (the ((N(p \<mapsto> xs)) q))) =
        (\<Sum>q \<in> dom N. BLOCK_HEADER_SIZE + length (the (N q)))" by (intro sum.cong) auto
    then show ?thesis using \<open>p \<notin> dom N\<close> that(1) by (simp add: block_bytes_def)
  qed
  show "M p = None \<Longrightarrow> block_bytes (M(p \<mapsto> xs)) = block_bytes M + (BLOCK_HEADER_SIZE + length xs)"
    using add assms by blast
  show "block_bytes M = block_bytes (M(p := None)) + (BLOCK_HEADER_SIZE + length xs)" if "M p = Some xs"
    using add [of "M(p := None)"] assms that by (simp add: fun_upd_idem)
qed

lemma arena_grow_ok:
  assumes rep: "arena_rep a (A @ Block xs # Gap g # B)" and n: "length xs < n" "n \<le> length xs + g"
    and sp: "arena_spare a (Suc k)"
  obtains a' ys G where "vlArenaMemRealloc al a (segs_size A + BLOCK_HEADER_SIZE) n = Some (segs_size A + BLOCK_HEADER_SIZE, a')"
    "arena_rep a' G" "arena_spare a' k" "length ys = n" "take (length xs) ys = xs"
    "arena_map G = (arena_map (A @ Block xs # Gap g # B))(segs_size A + BLOCK_HEADER_SIZE \<mapsto> ys)"
proof -
  let ?p = "segs_size A + BLOCK_HEADER_SIZE"
  have "arena_map (A @ Block xs # Gap g # B) ?p = Some xs" by (simp add: arena_map_block)
  then obtain A' B' where "A @ Block xs # Gap g # B = A' @ Block xs # B'" "?p = segs_size A' + BLOCK_HEADER_SIZE"
    and ld: "load_size a (segs_size A') = Some (BLOCK_HEADER_SIZE + length xs)" and top: "?p + length xs < 2 ^ 32"
    by (rule arena_block [OF rep])
  then have ld: "load_size a (segs_size A) = Some (BLOCK_HEADER_SIZE + length xs)" by simp
  have "segs_size (A @ Block xs # Gap g # B) < 2 ^ 32 - 1" by (rule arena_repE [OF rep])
  then have u: "u64_of (n + BLOCK_HEADER_SIZE) = n + BLOCK_HEADER_SIZE" using n by (intro u64_of_id) simp
  obtain a' ys G where r: "realloc_in_place a (segs_size A) (BLOCK_HEADER_SIZE + length xs) (n + BLOCK_HEADER_SIZE) =
      Some (Some (?p, a'))" "arena_rep a' G" "arena_spare a' k" "length ys = n"
    "take (length xs) ys = xs" "arena_map G = (arena_map (A @ Block xs # Gap g # B))(?p \<mapsto> ys)"
    by (rule realloc_in_place_fits [OF rep n sp])
  have pA: "?p - BLOCK_HEADER_SIZE = segs_size A" "\<not> ?p < BLOCK_HEADER_SIZE" by simp_all
  have ne: "n + BLOCK_HEADER_SIZE \<noteq> BLOCK_HEADER_SIZE + length xs" "\<not> n + BLOCK_HEADER_SIZE < BLOCK_HEADER_SIZE + length xs"
    using n(1) by simp_all
  have "vlArenaMemRealloc al a ?p n = Some (?p, a')"
    unfolding vlArenaMemRealloc_def Let_def u pA(1) ld bind.bind_lunit if_not_P [OF pA(2)] if_not_P [OF ne(1)]
      if_not_P [OF ne(2)] r(1) option.case ..
  then show thesis using that r(2-6) by blast
qed

text \<open>The offset of a block says which one it is.\<close>

lemma block_unique:
  assumes "A @ Block xs # B = A' @ Block xs # B'" and "segs_size A = segs_size A'"
  shows "B' = B"
proof -
  from assms(1) [unfolded append_eq_append_conv2] consider us where "A = A' @ us" "us @ Block xs # B = Block xs # B'"
    | us where "A @ us = A'" "Block xs # B = us @ Block xs # B'" by blast
  then show ?thesis using assms(2) by cases (auto simp: Cons_eq_append_conv append_eq_Cons_conv)
qed

section \<open>Properties\<close>

text \<open>
  C26. A block that is allocated and filled can be read back through its pointer, with its size; every
  block that was there before keeps its pointer and its bytes, also when the arena had to grow.
\<close>

theorem arena_put_load:
  assumes "arena_holds a M (Suc k)" and "xs \<noteq> []" and "alloc_upto al limit" and "arena_fits limit a (length xs)"
  shows "\<exists>p a'. heap_put (vlArenaMemAlloc al) vlArenaMemStore a xs = Some (p, a') \<and> M p = None \<and>
    arena_holds a' (M(p \<mapsto> xs)) k \<and> vlArenaMemSample a' p (length xs) = Some xs \<and> vlArenaMemSize a' p = Some (length xs) \<and>
    (\<forall>q ys. M q = Some ys \<longrightarrow> vlArenaMemSample a' q (length ys) = Some ys)"
proof -
  have "alloc_upto al limit \<and> arena_fits limit a (length xs)" using assms(3,4) ..
  then obtain p a' where p: "heap_put (vlArenaMemAlloc al) vlArenaMemStore a xs = Some (p, a')" "M p = None"
    "arena_holds a' (M(p \<mapsto> xs)) k"
    by (rule ah.put_ok [OF assms(1,2)])
  have q: "vlArenaMemSample a' q (length ys) = Some ys" if "M q = Some ys" for q ys
    by (rule arena_holds_load [OF p(3)]) (use p(2) that in auto)
  have "vlArenaMemSample a' p (length xs) = Some xs" "vlArenaMemSize a' p = Some (length xs)"
    by (rule arena_holds_load [OF p(3)]; simp)+
  then show ?thesis using p q by blast
qed

lemma arena_holds_init:
  assumes "alloc_upto al limit" and "2 ^ 20 \<le> limit" and "0 < n" and "n + MEMORY_HEADER_SIZE < limit" and "n < 2 ^ 32 - 1"
  obtains a where "vlArenaInit al n = Some a" "\<And>k. k \<le> 8 \<Longrightarrow> arena_holds a Map.empty k" "vlArenaTotalCapacity a = n"
    "arena_rep a [Gap n]" "\<And>k. k \<le> 8 \<Longrightarrow> arena_spare a k"
proof -
  obtain a where a: "vlArenaInit al n = Some a" "arena_rep a [Gap n]" "\<And>k. k \<le> 8 \<Longrightarrow> arena_spare a k"
    by (rule arena_init_ok [OF assms]) blast
  have "arena_map [Gap n] = Map.empty" by (simp add: arena_map_def)
  then have "\<And>k. k \<le> 8 \<Longrightarrow> arena_holds a Map.empty k" using a(2,3) unfolding arena_holds_def by metis
  then show thesis using that a arena_capacity [OF a(2)] by simp
qed

lemma small_arena:
  obtains a where "vlArenaInit some_allocator 64 = Some a" "\<And>k. k \<le> 8 \<Longrightarrow> arena_holds a Map.empty k"
    "vlArenaTotalCapacity a = 64" "arena_rep a [Gap 64]" "\<And>k. k \<le> 8 \<Longrightarrow> arena_spare a k"
    "\<And>n. n < 1000 \<Longrightarrow> arena_fits (2 ^ 20) a n"
proof -
  obtain a where a: "vlArenaInit some_allocator 64 = Some a" "\<And>k. k \<le> 8 \<Longrightarrow> arena_holds a Map.empty k"
    "vlArenaTotalCapacity a = 64" "arena_rep a [Gap 64]" "\<And>k. k \<le> 8 \<Longrightarrow> arena_spare a k"
    by (rule arena_holds_init [OF some_allocator_upto, of 64]) (simp_all add: MEMORY_HEADER_SIZE_def)
  then show thesis using that by (simp add: arena_fits_def BLOCK_HEADER_SIZE_def MEMORY_HEADER_SIZE_def)
qed

text \<open>The same arena with one block.\<close>

lemma one_block_arena:
  obtains a p a' xs where "vlArenaInit some_allocator 64 = Some a" "vlArenaMemAlloc some_allocator a 3 = Some (p, a')"
    "length xs = 3" "arena_holds a' [p \<mapsto> xs] 7" "vlArenaTotalCapacity a' \<le> 150"
proof -
  obtain a where a: "vlArenaInit some_allocator 64 = Some a" "\<And>k. k \<le> 8 \<Longrightarrow> arena_holds a Map.empty k"
    "\<And>n. n < 1000 \<Longrightarrow> arena_fits (2 ^ 20) a n" "vlArenaTotalCapacity a = 64"
    by (rule small_arena) blast
  have h: "arena_holds a Map.empty (Suc 7)" by (rule a(2)) simp
  have f: "arena_fits (2 ^ 20) a 3" by (rule a(3)) simp
  obtain p a' xs where "vlArenaMemAlloc some_allocator a 3 = Some (p, a')" "length xs = 3" "arena_holds a' [p \<mapsto> xs] 7"
    "vlArenaTotalCapacity a' \<le> 2 * (3 + BLOCK_HEADER_SIZE + vlArenaTotalCapacity a)"
    by (rule arena_holds_alloc [OF h _ some_allocator_upto f]) simp_all
  then show thesis using that a(1,4) by (simp add: BLOCK_HEADER_SIZE_def)
qed

theorem arena_put_load_witness:
  "\<exists>a p a'. vlArenaInit some_allocator 64 = Some a \<and>
     heap_put (vlArenaMemAlloc some_allocator) vlArenaMemStore a [Some 1, Some 2, Some 3] = Some (p, a') \<and>
     vlArenaMemSample a' p 3 = Some [Some 1, Some 2, Some 3] \<and> vlArenaMemSize a' p = Some 3"
proof -
  obtain a where a: "vlArenaInit some_allocator 64 = Some a" "\<And>k. k \<le> 8 \<Longrightarrow> arena_holds a Map.empty k"
    "\<And>n. n < 1000 \<Longrightarrow> arena_fits (2 ^ 20) a n"
    by (rule small_arena) blast
  have h: "arena_holds a Map.empty (Suc 7)" by (rule a(2)) simp
  let ?xs = "[Some 1, Some 2, Some 3] :: byte list"
  have "?xs \<noteq> []" "arena_fits (2 ^ 20) a (length ?xs)" using a(3) by simp_all
  from arena_put_load [OF h this(1) some_allocator_upto this(2)] show ?thesis using a(1) by (simp add: numeral_3_eq_3) blast
qed

text \<open>
  Freeing a block gives its bytes and its header back: the free memory grows by just that, the
  capacity stays, and the pointer is the only one that is lost.
\<close>

theorem arena_free_gives_back:
  assumes "arena_holds a M (Suc k)" and "M p = Some xs"
  shows "\<exists>a' f. vlArenaMemFree a p = Some a' \<and> arena_holds a' (M(p := None)) k \<and>
    vlArenaTotalFree a = Some f \<and> vlArenaTotalFree a' = Some (f + BLOCK_HEADER_SIZE + length xs) \<and>
    vlArenaTotalCapacity a' = vlArenaTotalCapacity a"
proof -
  obtain gs where gs: "arena_rep a gs" "M = arena_map gs" using assms(1) by (auto simp: arena_holds_def)
  obtain a' where a': "vlArenaMemFree a p = Some a'" "arena_holds a' (M(p := None)) k" "ar_data a' = ar_data a"
    by (rule arena_holds_free [OF assms])
  obtain G where G: "arena_rep a' G" "M(p := None) = arena_map G" using a'(2) by (auto simp: arena_holds_def)
  have cap: "vlArenaTotalCapacity a' = vlArenaTotalCapacity a" using a'(3) by (simp add: vlArenaTotalCapacity_def)
  have "finite (dom M)" using arena_account(3) [OF gs(1)] gs(2) by simp
  then have "block_bytes M = block_bytes (M(p := None)) + (BLOCK_HEADER_SIZE + length xs)"
    using block_bytes_upd(2) assms(2) by blast
  then have "vlArenaTotalFree a' = Some (vlArenaTotalCapacity a - block_bytes M + BLOCK_HEADER_SIZE + length xs)"
    using arena_account(1) [OF G(1)] arena_account(2) [OF gs(1)] gs(2) G(2) cap by simp
  then show ?thesis using a'(1,2) cap arena_account(1) [OF gs(1)] gs(2) by blast
qed

theorem arena_free_gives_back_witness:
  "\<exists>a p a' a'' f. vlArenaInit some_allocator 64 = Some a \<and> vlArenaMemAlloc some_allocator a 3 = Some (p, a') \<and>
     vlArenaMemFree a' p = Some a'' \<and> vlArenaTotalFree a' = Some f \<and> vlArenaTotalFree a'' = Some (f + 11)"
proof -
  obtain a p a' xs where a: "vlArenaInit some_allocator 64 = Some a" "vlArenaMemAlloc some_allocator a 3 = Some (p, a')"
    "length xs = 3" "arena_holds a' [p \<mapsto> xs] 7"
    by (rule one_block_arena)
  have h: "arena_holds a' [p \<mapsto> xs] (Suc 6)" using a(4) by simp
  have "[p \<mapsto> xs] p = Some xs" by simp
  from arena_free_gives_back [OF h this] obtain a'' f where "vlArenaMemFree a' p = Some a''" "vlArenaTotalFree a' = Some f"
    "vlArenaTotalFree a'' = Some (f + 11)" using a(3) by (auto simp: BLOCK_HEADER_SIZE_def)
  then show ?thesis using a(1,2) by blast
qed

text \<open>
  A reallocation that shrinks a block, or that grows it into a free block behind it, keeps the
  pointer and the bytes up to the smaller of the two lengths; no other block changes.
\<close>

theorem arena_realloc_in_place:
  assumes "arena_rep a (A @ Block xs # B)" and "arena_spare a (Suc k)"
    and "n \<noteq> length xs" and "n \<le> length xs + gap_behind B"
  defines "p \<equiv> segs_size A + BLOCK_HEADER_SIZE"
  shows "\<exists>a' ys G. vlArenaMemRealloc al a p n = Some (p, a') \<and> arena_rep a' G \<and> arena_spare a' k \<and>
    length ys = n \<and> take (min n (length xs)) ys = take (min n (length xs)) xs \<and>
    arena_map G = (arena_map (A @ Block xs # B))(p \<mapsto> ys)"
proof (cases "n < length xs")
  case True
  have "arena_map (A @ Block xs # B) p = Some xs" by (simp add: p_def arena_map_block)
  from arena_shrink_ok [OF assms(1) this True assms(2), of al]
  obtain a' G where r: "vlArenaMemRealloc al a p n = Some (p, a')" "arena_rep a' G" "arena_spare a' k"
    "arena_map G = (arena_map (A @ Block xs # B))(p \<mapsto> take n xs)" by blast
  have "length (take n xs) = n" "take (min n (length xs)) (take n xs) = take (min n (length xs)) xs"
    using True by simp_all
  then show ?thesis using r by blast
next
  case False
  then have n: "length xs < n" using assms(3) by simp
  then obtain g B' where B: "B = Gap g # B'" "n \<le> length xs + g" using assms(4) by (cases B rule: gap_behind.cases) auto
  obtain a' ys G where r: "vlArenaMemRealloc al a p n = Some (p, a')" "arena_rep a' G" "arena_spare a' k" "length ys = n"
    "take (length xs) ys = xs" "arena_map G = (arena_map (A @ Block xs # Gap g # B'))(p \<mapsto> ys)"
    unfolding p_def by (rule arena_grow_ok [OF assms(1) [unfolded B(1)] n B(2) assms(2), of al])
  have "take (min n (length xs)) ys = take (min n (length xs)) xs" using n r(5) by (simp add: min_def)
  then show ?thesis using r unfolding B(1) by blast
qed

theorem arena_realloc_in_place_witness:
  "\<exists>a p a' a''. vlArenaInit some_allocator 64 = Some a \<and> vlArenaMemAlloc some_allocator a 3 = Some (p, a') \<and>
     vlArenaMemRealloc some_allocator a' p 2 = Some (p, a'')"
proof -
  obtain a p a' xs where a: "vlArenaInit some_allocator 64 = Some a" "vlArenaMemAlloc some_allocator a 3 = Some (p, a')"
    "length xs = 3" "arena_holds a' [p \<mapsto> xs] 7"
    by (rule one_block_arena)
  obtain gs where gs: "arena_rep a' gs" "[p \<mapsto> xs] = arena_map gs" "arena_spare a' 7"
    using a(4) by (auto simp: arena_holds_def)
  have "arena_map gs p = Some xs" by (simp flip: gs(2))
  then obtain A B where AB: "gs = A @ Block xs # B" "p = segs_size A + BLOCK_HEADER_SIZE"
    by (rule arena_block [OF gs(1)])
  have sp: "arena_spare a' (Suc 6)" using gs(3) by simp
  from arena_realloc_in_place [OF gs(1) [unfolded AB(1)] sp, of 2 some_allocator]
  obtain a'' where "vlArenaMemRealloc some_allocator a' p 2 = Some (p, a'')" using a(3) AB(2) by auto
  then show ?thesis using a(1,2) by blast
qed

text \<open>
  A reallocation to the size that the block already has returns the offset of the header, not of
  the bytes: what is read there is the size field.
\<close>

theorem arena_realloc_same_size:
  assumes "arena_holds a M k" and "M p = Some xs"
  shows "BLOCK_HEADER_SIZE \<le> p \<and> vlArenaMemRealloc al a p (length xs) = Some (p - BLOCK_HEADER_SIZE, a) \<and>
    vlArenaMemSample a (p - BLOCK_HEADER_SIZE) (BLOCK_HEADER_SIZE + length xs) =
      Some (nat_bytes BLOCK_HEADER_SIZE (BLOCK_HEADER_SIZE + length xs) @ xs)"
proof -
  obtain gs where gs: "arena_rep a gs" "M = arena_map gs" using assms(1) by (auto simp: arena_holds_def)
  obtain A B where AB: "gs = A @ Block xs # B" "p = segs_size A + BLOCK_HEADER_SIZE"
    "load_size a (segs_size A) = Some (BLOCK_HEADER_SIZE + length xs)" "p + length xs < 2 ^ 32"
    by (rule arena_block [OF gs(1) assms(2) [unfolded gs(2)]])
  have "u64_of (length xs + BLOCK_HEADER_SIZE) = BLOCK_HEADER_SIZE + length xs" using AB(2,4) by (simp add: u64_of_id)
  then show ?thesis using AB(2,3) arena_header_bytes [OF gs(1) [unfolded AB(1)]] by (simp add: vlArenaMemRealloc_def)
qed

theorem arena_realloc_same_size_witness:
  "\<exists>a p a'. vlArenaInit some_allocator 64 = Some a \<and> vlArenaMemAlloc some_allocator a 3 = Some (p, a') \<and>
     vlArenaMemRealloc some_allocator a' p 3 = Some (p - 8, a') \<and> 8 \<le> p"
proof -
  obtain a p a' xs where a: "vlArenaInit some_allocator 64 = Some a" "vlArenaMemAlloc some_allocator a 3 = Some (p, a')"
    "length xs = 3" "arena_holds a' [p \<mapsto> xs] 7"
    by (rule one_block_arena)
  have "[p \<mapsto> xs] p = Some xs" by simp
  from arena_realloc_same_size [OF a(4) this, of some_allocator] show ?thesis
    using a(1,2,3) by (simp add: BLOCK_HEADER_SIZE_def)
qed

text \<open>
  A reallocation that has to move the block gets a block that is eight bytes larger than asked,
  with the old header and then the old bytes in it: the bytes come eight places too late.
\<close>

theorem arena_realloc_moves:
  assumes "arena_rep a (A @ Block xs # B)" and "arena_spare a (k + 2)" and "alloc_upto al limit"
    and "length xs + gap_behind B < n" and "arena_fits limit a (n + BLOCK_HEADER_SIZE)"
  defines "p \<equiv> segs_size A + BLOCK_HEADER_SIZE"
  shows "\<exists>q a' ys. vlArenaMemRealloc al a p n = Some (q, a') \<and> q \<noteq> p \<and>
    arena_holds a' ((arena_map (A @ Block xs # B))(p := None, q \<mapsto> ys)) k \<and> length ys = n + BLOCK_HEADER_SIZE \<and>
    take (BLOCK_HEADER_SIZE + length xs) ys = nat_bytes BLOCK_HEADER_SIZE (BLOCK_HEADER_SIZE + length xs) @ xs"
proof -
  have p: "arena_map (A @ Block xs # B) p = Some xs" by (simp add: p_def arena_map_block)
  have room: "2 * (n + 2 * BLOCK_HEADER_SIZE + segs_size (A @ Block xs # B)) + 2 * MEMORY_HEADER_SIZE < limit" "limit < 2 ^ 32"
    using assms(5) arena_capacity [OF assms(1)] by (simp_all add: arena_fits_def)
  have noroom: "length xs + gap_behind B' < n"
    if "A @ Block xs # B = A' @ Block xs # B'" "p = segs_size A' + BLOCK_HEADER_SIZE" for A' B'
    using block_unique [OF that(1)] that(2) assms(4) by (simp add: p_def)
  obtain q a' G ys where r: "vlArenaMemRealloc al a p n = Some (q, a')" "arena_rep a' G" "arena_spare a' k" "q \<noteq> p"
    "arena_map G = (arena_map (A @ Block xs # B))(p := None, q \<mapsto> ys)" "length ys = n + BLOCK_HEADER_SIZE"
    "take (BLOCK_HEADER_SIZE + length xs) ys = nat_bytes BLOCK_HEADER_SIZE (BLOCK_HEADER_SIZE + length xs) @ xs"
    by (rule arena_move_ok [OF assms(1) p _ noroom assms(2,3) room]) (use assms(4) in simp_all)
  then have "arena_holds a' ((arena_map (A @ Block xs # B))(p := None, q \<mapsto> ys)) k" unfolding arena_holds_def by metis
  then show ?thesis using r by blast
qed

lemma gap_behind_le: "gap_behind B \<le> segs_size B"
  by (cases B rule: gap_behind.cases) simp_all

theorem arena_realloc_moves_witness:
  "\<exists>a p a' q a''. vlArenaInit some_allocator 64 = Some a \<and> vlArenaMemAlloc some_allocator a 3 = Some (p, a') \<and>
     vlArenaMemRealloc some_allocator a' p 200 = Some (q, a'') \<and> q \<noteq> p \<and> vlArenaMemSize a'' q = Some 208"
proof -
  obtain a p a' xs where a: "vlArenaInit some_allocator 64 = Some a" "vlArenaMemAlloc some_allocator a 3 = Some (p, a')"
    "length xs = 3" "arena_holds a' [p \<mapsto> xs] 7" "vlArenaTotalCapacity a' \<le> 150"
    by (rule one_block_arena)
  obtain gs where gs: "arena_rep a' gs" "[p \<mapsto> xs] = arena_map gs" "arena_spare a' 7"
    using a(4) by (auto simp: arena_holds_def)
  have "arena_map gs p = Some xs" by (simp flip: gs(2))
  then obtain A B where AB: "gs = A @ Block xs # B" "p = segs_size A + BLOCK_HEADER_SIZE"
    by (rule arena_block [OF gs(1)])
  have sp: "arena_spare a' (5 + 2)" using gs(3) by simp
  have more: "length xs + gap_behind B < 200" using a(3,5) gap_behind_le [of B] arena_capacity [OF gs(1)] AB(1) by simp
  have fit: "arena_fits (2 ^ 20) a' (200 + BLOCK_HEADER_SIZE)"
    using a(5) by (simp add: arena_fits_def BLOCK_HEADER_SIZE_def MEMORY_HEADER_SIZE_def)
  from arena_realloc_moves [OF gs(1) [unfolded AB(1)] sp some_allocator_upto more fit]
  obtain q a'' ys where r: "vlArenaMemRealloc some_allocator a' p 200 = Some (q, a'')" "q \<noteq> p"
    "arena_holds a'' ((arena_map gs)(p := None, q \<mapsto> ys)) 5" "length ys = 208"
    using AB by (auto simp: BLOCK_HEADER_SIZE_def)
  have "vlArenaMemSize a'' q = Some (length ys)" by (rule arena_holds_load [OF r(3)]) simp
  then show ?thesis using a(1,2) r(1,2,4) by auto
qed

end
