(* ===== verification/VL_Hash.thy ===== *)
theory VL_Hash
  imports VL_BufferSpec
begin

text \<open>
  \<^verbatim>\<open>src/core/vl_hash.c\<close>: the hash functions of the hash table. Keys are byte strings in memory; the
  hash of a string reads each byte through a plain \<^verbatim>\<open>char\<close>, which the platform may take as signed.
\<close>

unbundle bit_operations_syntax

section \<open>Hashing strings\<close>

text \<open>The conversion of a \<^verbatim>\<open>vl_int8_t\<close> to the unsigned type of the hash.\<close>

definition char_bits :: "bool \<Rightarrow> u8 \<Rightarrow> 'w::len word" where
  "char_bits charSigned b = (if charSigned then word_of_int (sint b) else ucast b)"

text \<open>A byte that was never written has no value.\<close>

fun hash_string_loop :: "bool \<Rightarrow> u64 \<Rightarrow> byte list \<Rightarrow> u64 option" where
  "hash_string_loop charSigned hashCode [] = Some hashCode"
| "hash_string_loop charSigned hashCode (b # bs) =
     do { c \<leftarrow> b; hash_string_loop charSigned ((hashCode XOR char_bits charSigned c) * 0x100000001b3) bs }"

definition vlHashString :: "bool \<Rightarrow> byte list \<Rightarrow> nat \<Rightarrow> u64 option" where
  "vlHashString charSigned dat dataSize =
     do { xs \<leftarrow> read_range dat 0 dataSize; hash_string_loop charSigned 0xcbf29ce484222325 xs }"

text \<open>The variant for platforms without an integer type of 64 bits.\<close>

fun hash_string_loop32 :: "bool \<Rightarrow> u32 \<Rightarrow> byte list \<Rightarrow> u32 option" where
  "hash_string_loop32 charSigned hashCode [] = Some hashCode"
| "hash_string_loop32 charSigned hashCode (b # bs) =
     do { c \<leftarrow> b; hash_string_loop32 charSigned ((hashCode XOR char_bits charSigned c) * 0x1000193) bs }"

definition vlHashString32 :: "bool \<Rightarrow> byte list \<Rightarrow> nat \<Rightarrow> u32 option" where
  "vlHashString32 charSigned dat dataSize =
     do { xs \<leftarrow> read_range dat 0 dataSize; hash_string_loop32 charSigned 0x811c9dc5 xs }"

section \<open>Hashing numbers\<close>

definition hash_number :: "nat \<Rightarrow> byte list \<Rightarrow> u64 option" where
  "hash_number width dat = do { xs \<leftarrow> read_range dat 0 width; n \<leftarrow> bytes_nat xs; Some (of_nat n) }"

definition vlHash8 :: "byte list \<Rightarrow> nat \<Rightarrow> u64 option" where
  "vlHash8 dat s = hash_number 1 dat"

definition vlHash16 :: "byte list \<Rightarrow> nat \<Rightarrow> u64 option" where
  "vlHash16 dat s = hash_number 2 dat"

definition vlHash32 :: "byte list \<Rightarrow> nat \<Rightarrow> u64 option" where
  "vlHash32 dat s = hash_number 4 dat"

definition vlHash64 :: "byte list \<Rightarrow> nat \<Rightarrow> u64 option" where
  "vlHash64 dat s = hash_number 8 dat"

definition vlHashCombine :: "u64 \<Rightarrow> u64 \<Rightarrow> u64" where
  "vlHashCombine a b = (a XOR b) + 0xEF92DACB + push_bit 6 a + drop_bit 2 a"

section \<open>Steps are injective\<close>

lemma char_bits_down: "ucast (char_bits charSigned b :: u64) = b"
proof (cases charSigned)
  case True
  have "ucast (word_of_int (sint b) :: u64) = (word_of_int (sint b) :: u8)" by transfer simp
  then show ?thesis using True by (simp add: char_bits_def)
next
  case False
  then show ?thesis by (simp add: char_bits_def unsigned_ucast_eq) (transfer, simp)
qed

lemma char_bits_inj: "(char_bits charSigned b :: u64) = char_bits charSigned c \<Longrightarrow> b = c"
  by (metis char_bits_down)

lemma times_cancel:
  fixes a b p q :: "'w::len word"
  assumes "p * q = 1" and "a * p = b * p"
  shows "a = b"
  by (metis assms mult.assoc mult.right_neutral)

lemma xor_cancel: "a XOR c = b XOR c \<longleftrightarrow> a = (b :: 'w::len word)"
  by (metis xor.assoc xor.right_neutral xor_self_eq)

lemma xor_cancel_left: "c XOR a = c XOR b \<longleftrightarrow> a = (b :: 'w::len word)"
  by (metis xor.commute xor_cancel)

lemma fnv_prime_invertible: "(0x100000001b3 :: u64) * 0xce965057aff6957b = 1"
  by simp

lemma hash_step_inj:
  "(h XOR char_bits charSigned b) * 0x100000001b3 = (h' XOR char_bits charSigned b') * (0x100000001b3 :: u64) \<Longrightarrow>
   (h = h' \<longleftrightarrow> b = b')"
  by (auto dest!: times_cancel [OF fnv_prime_invertible] simp: xor_cancel xor_cancel_left dest: char_bits_inj)

section \<open>Properties\<close>

text \<open>The reference: the hash function FNV-1a on unsigned bytes.\<close>

definition fnv1a :: "u8 list \<Rightarrow> u64" where
  "fnv1a bs = foldl (\<lambda>h b. (h XOR ucast b) * 0x100000001b3) 0xcbf29ce484222325 bs"

lemma char_bits_unsigned:
  assumes "\<not> charSigned \<or> b < 0x80"
  shows "char_bits charSigned b = ucast b"
proof (cases charSigned)
  case True
  then have "uint b < 128" using assms by (simp add: word_less_def)
  then have "sint b = uint b" 
    by (simp add: sint_uint signed_take_bit_int_eq_self_iff) (rule order_trans [of _ 0], simp_all)
  then show ?thesis using True by (simp add: char_bits_def)
qed (simp add: char_bits_def)

lemma hash_string_loop_fnv:
  "(\<forall>b \<in> set bs. \<not> charSigned \<or> b < 0x80) \<Longrightarrow>
   hash_string_loop charSigned h (map Some bs) = Some (foldl (\<lambda>h b. (h XOR ucast b) * 0x100000001b3) h bs)"
  by (induction bs arbitrary: h) (auto simp: char_bits_unsigned)

lemma hash_string_all:
  "vlHashString charSigned (map Some bs) (length bs) = hash_string_loop charSigned 0xcbf29ce484222325 (map Some bs)"
  by (simp add: vlHashString_def read_range_Some)

lemma hash_string_loop_append:
  "hash_string_loop charSigned h (xs @ ys) = do { h \<leftarrow> hash_string_loop charSigned h xs; hash_string_loop charSigned h ys }"
proof (induction xs arbitrary: h)
  case (Cons x xs)
  then show ?case by (cases x) simp_all
qed simp

lemma hash_string_loop_total: "\<exists>h'. hash_string_loop charSigned h (map Some bs) = Some h'"
  by (induction bs arbitrary: h) simp_all

lemma hash_string_loop_inj:
  "hash_string_loop charSigned h (map Some bs) = hash_string_loop charSigned h' (map Some bs) \<Longrightarrow> h = h'"
proof (induction bs arbitrary: h h')
  case (Cons b bs)
  let ?step = "\<lambda>h. (h XOR char_bits charSigned b) * 0x100000001b3"
  have "hash_string_loop charSigned (?step h) (map Some bs) = hash_string_loop charSigned (?step h') (map Some bs)"
    using Cons.prems by simp
  then have "?step h = ?step h'" by (rule Cons.IH)
  then show ?case using hash_step_inj by blast
qed simp

text \<open>
  The hash of a string is FNV-1a of its bytes where characters are unsigned, and for bytes below
  0x80 everywhere; where characters are signed a byte of 0x80 already gives another hash.
\<close>

theorem hash_string_fnv1a:
  assumes "\<forall>b \<in> set bs. \<not> charSigned \<or> b < 0x80"
  shows "vlHashString charSigned (map Some bs) (length bs) = Some (fnv1a bs) \<and>
    vlHashString True [Some 0x80] 1 \<noteq> Some (fnv1a [0x80])"
proof
  show "vlHashString charSigned (map Some bs) (length bs) = Some (fnv1a bs)"
    using hash_string_loop_fnv [OF assms] by (simp add: hash_string_all fnv1a_def)
  show "vlHashString True [Some 0x80] 1 \<noteq> Some (fnv1a [0x80])"
    by (simp add: vlHashString_def read_range_def fnv1a_def char_bits_def)
qed

theorem hash_string_fnv1a_witness:
  "vlHashString True [Some 0x61, Some 0x62] 2 = Some (fnv1a [0x61, 0x62]) \<and> fnv1a [0x61, 0x62] = 0x089c4407b545986a"
proof
  have "\<forall>b \<in> set [0x61, 0x62 :: u8]. \<not> True \<or> b < 0x80" by simp
  from hash_string_fnv1a [OF this] show "vlHashString True [Some 0x61, Some 0x62] 2 = Some (fnv1a [0x61, 0x62])"
    by (simp only: list.map list.size) (simp add: numeral_2_eq_2 )
  show "fnv1a [0x61, 0x62] = 0x089c4407b545986a" by (simp add: fnv1a_def)
qed

text \<open>
  Two strings that differ in one byte only never have the same hash.
\<close>

theorem hash_string_one_byte:
  assumes "b \<noteq> b'"
  shows "\<exists>h h'. vlHashString charSigned (map Some (bs @ b # cs)) (length (bs @ b # cs)) = Some h \<and>
    vlHashString charSigned (map Some (bs @ b' # cs)) (length (bs @ b' # cs)) = Some h' \<and> h \<noteq> h'"
proof -
  let ?loop = "hash_string_loop charSigned" and ?step = "\<lambda>h b. (h XOR char_bits charSigned b) * 0x100000001b3"
  obtain h0 where h0: "?loop 0xcbf29ce484222325 (map Some bs) = Some h0" using hash_string_loop_total by blast
  obtain h h' where h: "?loop (?step h0 b) (map Some cs) = Some h" "?loop (?step h0 b') (map Some cs) = Some h'"
    using hash_string_loop_total by metis
  have "?step h0 b \<noteq> ?step h0 b'" using hash_step_inj [of h0 charSigned b h0 b'] assms by blast
  then have "h \<noteq> h'" using hash_string_loop_inj [of charSigned "?step h0 b" cs "?step h0 b'"] h by auto
  then show ?thesis using h0 h unfolding hash_string_all by (auto simp: hash_string_loop_append)
qed

theorem hash_string_one_byte_witness:
  "vlHashString True (map Some [1, 2, 3]) 3 \<noteq> vlHashString True (map Some [1, 9, 3]) 3"
  using hash_string_one_byte [of 2 9 True "[1]" "[3]"] by (auto simp: numeral_3_eq_3)

text \<open>The hash of a number is the number.\<close>

lemma hash_number_id:
  assumes "n < 256 ^ k"
  shows "hash_number k (nat_bytes k n) = Some (of_nat n)"
  using assms by (simp add: hash_number_def read_range_Some bytes_nat_bytes)

lemma hash64_id:
  fixes w :: u64
  shows "vlHash64 (nat_bytes 8 (unat w)) 8 = Some w"
  using hash_number_id [of "unat w" 8] unsigned_less [of w] by (simp add: vlHash64_def)

end
