(* ===== verification/VL_HashTable.thy ===== *)
theory VL_HashTable
  imports VL_Arena VL_Hash
begin

text \<open>
  \<^verbatim>\<open>src/core/vl_hashtable.c\<close>: a table of chains. The elements are blocks of an arena, each with a
  header, the key and the value; the table is an allocation with one iterator for each bucket, the
  head of its chain. The walk over all elements goes over the arena, from block to block.
\<close>

type_synonym vl_hash_iter = nat

definition VL_HASHTABLE_ITER_INVALID :: vl_hash_iter where
  "VL_HASHTABLE_ITER_INVALID = 0"

definition VL_HASHTABLE_DEFAULT_SIZE :: nat where
  "VL_HASHTABLE_DEFAULT_SIZE = 128"

text \<open>A hash function is a pointer: it has an address, and what it returns for so many bytes of a key.\<close>

record vl_hash_function =
  hf_address :: nat
  hf_call :: "byte list \<Rightarrow> nat \<Rightarrow> u64 option"

record vl_hashtable =
  ht_table :: "vl_memory option"
  ht_data :: vl_arena
  ht_hashFunc :: vl_hash_function
  ht_totalElements :: nat

section \<open>Headers\<close>

record vl_hashtable_header =
  hh_keySize :: nat
  hh_valSize :: nat
  hh_keyHash :: nat
  hh_next :: vl_hash_iter

text \<open>Two sizes of 16 bits, padding, two numbers of 64 bits.\<close>

definition HASHTABLE_HEADER_SIZE :: nat where
  "HASHTABLE_HEADER_SIZE = 24"

definition load_number :: "vl_arena \<Rightarrow> nat \<Rightarrow> nat \<Rightarrow> nat option" where
  "load_number arena ptr k = do { xs \<leftarrow> vlArenaMemSample arena ptr k; bytes_nat xs }"

definition node_keySize :: "vl_arena \<Rightarrow> vl_hash_iter \<Rightarrow> nat option" where
  "node_keySize arena iter = load_number arena iter 2"

definition node_valSize :: "vl_arena \<Rightarrow> vl_hash_iter \<Rightarrow> nat option" where
  "node_valSize arena iter = load_number arena (iter + 2) 2"

definition node_keyHash :: "vl_arena \<Rightarrow> vl_hash_iter \<Rightarrow> nat option" where
  "node_keyHash arena iter = load_number arena (iter + 8) 8"

definition node_nextIter :: "vl_arena \<Rightarrow> vl_hash_iter \<Rightarrow> vl_hash_iter option" where
  "node_nextIter arena iter = load_number arena (iter + 16) 8"

definition store_valSize :: "vl_arena \<Rightarrow> vl_hash_iter \<Rightarrow> nat \<Rightarrow> vl_arena option" where
  "store_valSize arena iter n = vlArenaMemStore arena (iter + 2) (nat_bytes 2 (u16_of n))"

definition store_next :: "vl_arena \<Rightarrow> vl_hash_iter \<Rightarrow> vl_hash_iter \<Rightarrow> vl_arena option" where
  "store_next arena iter nextIter = vlArenaMemStore arena (iter + 16) (nat_bytes 8 nextIter)"

text \<open>The fields of a new node; the padding is not written.\<close>

definition store_header :: "vl_arena \<Rightarrow> vl_hash_iter \<Rightarrow> vl_hashtable_header \<Rightarrow> vl_arena option" where
  "store_header arena iter header =
     do {
       arena \<leftarrow> store_next arena iter (hh_next header);
       arena \<leftarrow> vlArenaMemStore arena iter (nat_bytes 2 (hh_keySize header));
       arena \<leftarrow> store_valSize arena iter (hh_valSize header);
       vlArenaMemStore arena (iter + 8) (nat_bytes 8 (hh_keyHash header))
     }"

text \<open>The key of a node, and the comparison of two sequences; \<^verbatim>\<open>memcmp\<close> may not read indeterminate bytes.\<close>

definition vl_HashTableBinCompare :: "byte list option \<Rightarrow> nat \<Rightarrow> byte list option \<Rightarrow> nat \<Rightarrow> bool option" where
  "vl_HashTableBinCompare a aSize b bSize =
     (if aSize \<noteq> bSize then Some False
      else do { xs \<leftarrow> a; ys \<leftarrow> b; if None \<in> set xs \<union> set ys then None else Some (xs = ys) })"

definition compare_key :: "vl_arena \<Rightarrow> vl_hash_iter \<Rightarrow> byte list \<Rightarrow> nat \<Rightarrow> bool option" where
  "compare_key arena iter key keySize =
     do {
       n \<leftarrow> node_keySize arena iter;
       vl_HashTableBinCompare (vlArenaMemSample arena (iter + HASHTABLE_HEADER_SIZE) n) n (read_range key 0 keySize) keySize
     }"

section \<open>The table\<close>

definition bucket_get :: "vl_memory option \<Rightarrow> nat \<Rightarrow> vl_hash_iter option" where
  "bucket_get dat i = do { xs \<leftarrow> mem_read dat (8 * i) 8; bytes_nat xs }"

definition bucket_put :: "vl_memory option \<Rightarrow> nat \<Rightarrow> vl_hash_iter \<Rightarrow> vl_memory option" where
  "bucket_put dat i iter = mem_write dat (8 * i) (nat_bytes 8 iter)"

definition table_size :: "vl_hashtable \<Rightarrow> nat" where
  "table_size table = u32_of (vlMemSize (ht_table table) div 8)"

text \<open>The bucket of a hash; the division by an empty table is undefined.\<close>

definition bucket_index :: "nat \<Rightarrow> nat \<Rightarrow> nat option" where
  "bucket_index hash n = (if n = 0 then None else Some (u32_of (hash mod n)))"

section \<open>Walking over the elements\<close>

definition vlHashTableFront :: "vl_hashtable \<Rightarrow> vl_hash_iter option" where
  "vlHashTableFront table =
     do {
       let freeSet = ar_freeSet (ht_data table);
       firstFree \<leftarrow> vlSetFront freeSet;
       if firstFree = VL_SET_ITER_INVALID then Some 8
       else do {
         freeNode \<leftarrow> vlSetSample freeSet firstFree;
         if an_offset freeNode \<noteq> 0 then Some 8
         else do {
           let nodeEnd = node_end freeNode;
           Some (if vlMemSize (ar_data (ht_data table)) = nodeEnd then VL_HASHTABLE_ITER_INVALID else u64_of (nodeEnd + 8))
         }
       }
     }"

definition vlHashTableNext :: "vl_hashtable \<Rightarrow> vl_hash_iter \<Rightarrow> vl_hash_iter option" where
  "vlHashTableNext table iter =
     do {
       n \<leftarrow> vlArenaMemSize (ht_data table) iter;
       let nextIter = u64_of (iter + n);
       let freeSet = ar_freeSet (ht_data table);
       nextFree \<leftarrow> vlSetFind freeSet (offset_key nextIter);
       nextIter \<leftarrow>
         (if nextFree \<noteq> VL_SET_ITER_INVALID then do {
            freeNode \<leftarrow> vlSetSample freeSet nextFree;
            Some (node_end freeNode)
          } else Some nextIter);
       Some (if nextIter = vlMemSize (ar_data (ht_data table)) then 0 else u64_of (nextIter + 8))
     }"

section \<open>Building the chains anew\<close>

partial_function (option) rebuild_loop :: "nat \<Rightarrow> vl_hashtable \<Rightarrow> vl_hash_iter \<Rightarrow> vl_hashtable option" where
  [code]: "rebuild_loop buckets table curIter =
     (if curIter \<noteq> VL_HASHTABLE_ITER_INVALID then do {
        hash \<leftarrow> node_keyHash (ht_data table) curIter;
        tableIndex \<leftarrow> (if buckets = 0 then None else Some (hash mod buckets));
        mappedNext \<leftarrow> bucket_get (ht_table table) tableIndex;
        arena \<leftarrow> store_next (ht_data table) curIter (if mappedNext = VL_HASHTABLE_ITER_INVALID then 0 else mappedNext);
        dat \<leftarrow> bucket_put (ht_table table) tableIndex curIter;
        let table = table\<lparr>ht_data := arena, ht_table := Some dat\<rparr>;
        nextIter \<leftarrow> vlHashTableNext table curIter;
        rebuild_loop buckets table nextIter
      } else Some table)"

definition vl_HashTableGrow :: "allocator \<Rightarrow> vl_hashtable \<Rightarrow> (nat \<times> vl_hashtable) option" where
  "vl_HashTableGrow al table =
     do {
       let newSize = u64_of (vlMemSize (ht_table table) * 2);
       dat \<leftarrow> vlMemRealloc al (ht_table table) newSize;
       dat \<leftarrow> mem_write dat 0 (replicate newSize (Some 0));
       let newSize = newSize div 8;
       let table = table\<lparr>ht_table := Some dat\<rparr>;
       iter \<leftarrow> vlHashTableFront table;
       table \<leftarrow> rebuild_loop newSize table iter;
       Some (newSize, table)
     }"

partial_function (option) reserve_size :: "nat \<Rightarrow> nat \<Rightarrow> nat option" where
  [code]: "reserve_size newSize needed =
     (if newSize < needed then reserve_size (u64_of (newSize * 2)) needed else Some newSize)"

text \<open>The number of buckets is divided by the size of an iterator a second time for the rebuilding.\<close>

definition vlHashTableReserve :: "allocator \<Rightarrow> vl_hashtable \<Rightarrow> nat \<Rightarrow> nat \<Rightarrow> vl_hashtable option" where
  "vlHashTableReserve al table buckets heapSize =
     do {
       arena \<leftarrow> vlArenaReserve al (ht_data table) heapSize;
       let table = table\<lparr>ht_data := arena\<rparr>;
       let initSize = vlMemSize (ht_table table);
       newSize \<leftarrow> reserve_size initSize (u64_of (initSize + u64_of (buckets * 8)));
       dat \<leftarrow> vlMemRealloc al (ht_table table) newSize;
       dat \<leftarrow> mem_write dat 0 (replicate newSize (Some 0));
       let newSize = newSize div 8;
       let table = table\<lparr>ht_table := Some dat\<rparr>;
       let totalBuckets = newSize div 8;
       iter \<leftarrow> vlHashTableFront table;
       rebuild_loop totalBuckets table iter
     }"

section \<open>Initialising and deleting\<close>

definition vlHashTableInit :: "allocator \<Rightarrow> vl_hash_function \<Rightarrow> vl_hashtable option" where
  "vlHashTableInit al hashFunc =
     do {
       arena \<leftarrow> vlArenaInit al VL_HASHTABLE_DEFAULT_SIZE;
       dat \<leftarrow> vlMemAlloc al (8 * 16);
       dat \<leftarrow> mem_write dat 0 (replicate (vlMemSize dat) (Some 0));
       Some \<lparr>ht_table = Some dat, ht_data = arena, ht_hashFunc = hashFunc, ht_totalElements = 0\<rparr>
     }"

definition vlHashTableFree :: "vl_hashtable \<Rightarrow> unit option" where
  "vlHashTableFree table = do { _ \<leftarrow> vlArenaFree (ht_data table); vlMemFree (ht_table table) }"

text \<open>\<^verbatim>\<open>sizeof(vl_hashtable)\<close> is 128; the result of \<^verbatim>\<open>malloc\<close> is used unchecked.\<close>

definition vlHashTableNew :: "allocator \<Rightarrow> vl_hash_function \<Rightarrow> vl_hashtable option" where
  "vlHashTableNew al func = do { _ \<leftarrow> malloc_at al 128; vlHashTableInit al func }"

definition vlHashTableDelete :: "vl_hashtable \<Rightarrow> unit option" where
  "vlHashTableDelete table = vlHashTableFree table"

definition vlHashTableClear :: "vl_hashtable \<Rightarrow> vl_hashtable option" where
  "vlHashTableClear table =
     do {
       arena \<leftarrow> vlArenaClear (ht_data table);
       dat \<leftarrow> mem_write (ht_table table) 0 (replicate (vlMemSize (ht_table table)) (Some 0));
       Some (table\<lparr>ht_data := arena, ht_totalElements := 0, ht_table := Some dat\<rparr>)
     }"

section \<open>Inserting\<close>

text \<open>
  The resize factor 0.8: the sizes of the table are powers of two, for which the comparison of
  floating numbers is exact.
\<close>

definition must_grow :: "nat \<Rightarrow> nat \<Rightarrow> bool" where
  "must_grow n tableSize \<longleftrightarrow> 4 * tableSize \<le> 5 * n"

text \<open>The node of an equal key: it is reallocated for a value of another size.\<close>

definition replace_node ::
  "allocator \<Rightarrow> vl_hashtable \<Rightarrow> nat \<Rightarrow> vl_hash_iter \<Rightarrow> vl_hash_iter \<Rightarrow> nat \<Rightarrow> nat \<Rightarrow> (vl_hash_iter \<times> vl_hashtable) option" where
  "replace_node al table tableIndex rootIter tailIter dataSize nodeSize =
     do {
       valSize \<leftarrow> node_valSize (ht_data table) tailIter;
       if valSize \<noteq> dataSize then do {
         arena \<leftarrow> store_valSize (ht_data table) tailIter dataSize;
         (newTailIter, arena) \<leftarrow> vlArenaMemRealloc al arena tailIter nodeSize;
         arena \<leftarrow> store_valSize arena newTailIter dataSize;
         let table = table\<lparr>ht_data := arena\<rparr>;
         if tailIter = rootIter then do {
           dat \<leftarrow> bucket_put (ht_table table) tableIndex newTailIter;
           Some (newTailIter, table\<lparr>ht_table := Some dat\<rparr>)
         } else Some (newTailIter, table)
       }
       else if tailIter = rootIter then do {
         dat \<leftarrow> bucket_put (ht_table table) tableIndex tailIter;
         Some (tailIter, table\<lparr>ht_table := Some dat\<rparr>)
       }
       else Some (tailIter, table)
     }"

text \<open>
  The walk along the chain: to the node with an equal hash and key (\<^const>\<open>Inl\<close>), or to the last node
  of the chain, the invalid iterator for an empty one (\<^const>\<open>Inr\<close>).
\<close>

partial_function (option) insert_walk ::
  "vl_arena \<Rightarrow> nat \<Rightarrow> byte list \<Rightarrow> nat \<Rightarrow> vl_hash_iter \<Rightarrow> (vl_hash_iter + vl_hash_iter) option" where
  [code]: "insert_walk arena hash key keySize tailIter =
     (if tailIter \<noteq> VL_HASHTABLE_ITER_INVALID then do {
        tailHash \<leftarrow> node_keyHash arena tailIter;
        found \<leftarrow> (if hash = tailHash then compare_key arena tailIter key keySize else Some False);
        if found then Some (Inl tailIter)
        else do {
          nextIter \<leftarrow> node_nextIter arena tailIter;
          if nextIter = VL_HASHTABLE_ITER_INVALID then Some (Inr tailIter)
          else insert_walk arena hash key keySize nextIter
        }
      } else Some (Inr tailIter))"

definition make_room :: "allocator \<Rightarrow> vl_hashtable \<Rightarrow> (nat \<times> vl_hashtable) option" where
  "make_room al table =
     (if must_grow (inc32 (ht_totalElements table)) (table_size table)
      then do { (n, table) \<leftarrow> vl_HashTableGrow al table; Some (u32_of n, table) }
      else Some (table_size table, table))"

text \<open>A new node behind the last one of the chain, or at its head.\<close>

definition append_node ::
  "allocator \<Rightarrow> vl_hashtable \<Rightarrow> nat \<Rightarrow> vl_hash_iter \<Rightarrow> nat \<Rightarrow> byte list \<Rightarrow> nat \<Rightarrow> nat \<Rightarrow> nat \<Rightarrow> (vl_hash_iter \<times> vl_hashtable) option" where
  "append_node al table tableIndex tailIter hash key keySize dataSize nodeSize =
     do {
       (newNode, arena) \<leftarrow> vlArenaMemAlloc al (ht_data table) nodeSize;
       arena \<leftarrow> store_header arena newNode
         \<lparr>hh_keySize = u16_of keySize, hh_valSize = u16_of dataSize, hh_keyHash = hash, hh_next = VL_HASHTABLE_ITER_INVALID\<rparr>;
       xs \<leftarrow> read_range key 0 keySize;
       arena \<leftarrow> vlArenaMemStore arena (newNode + HASHTABLE_HEADER_SIZE) xs;
       let table = table\<lparr>ht_totalElements := inc32 (ht_totalElements table)\<rparr>;
       if tailIter \<noteq> VL_HASHTABLE_ITER_INVALID then do {
         arena \<leftarrow> store_next arena tailIter newNode;
         Some (newNode, table\<lparr>ht_data := arena\<rparr>)
       } else do {
         dat \<leftarrow> bucket_put (ht_table table) tableIndex newNode;
         Some (newNode, table\<lparr>ht_data := arena, ht_table := Some dat\<rparr>)
       }
     }"

definition vlHashTableInsert ::
  "allocator \<Rightarrow> vl_hashtable \<Rightarrow> byte list \<Rightarrow> nat \<Rightarrow> nat \<Rightarrow> (vl_hash_iter \<times> vl_hashtable) option" where
  "vlHashTableInsert al table key keySize dataSize =
     do {
       hash \<leftarrow> map_option unat (hf_call (ht_hashFunc table) key keySize);
       (tableSize, table) \<leftarrow> make_room al table;
       let nodeSize = u64_of (HASHTABLE_HEADER_SIZE + keySize + dataSize);
       tableIndex \<leftarrow> bucket_index hash tableSize;
       rootIter \<leftarrow> bucket_get (ht_table table) tableIndex;
       walk \<leftarrow> insert_walk (ht_data table) hash key keySize rootIter;
       (case walk of
          Inl tailIter \<Rightarrow> replace_node al table tableIndex rootIter tailIter dataSize nodeSize
        | Inr tailIter \<Rightarrow> append_node al table tableIndex tailIter hash key keySize dataSize nodeSize)
     }"

section \<open>Finding and sampling\<close>

partial_function (option) find_walk ::
  "vl_arena \<Rightarrow> byte list \<Rightarrow> nat \<Rightarrow> vl_hash_iter \<Rightarrow> vl_hash_iter option" where
  [code]: "find_walk arena key keySize curIter =
     (if curIter \<noteq> VL_HASHTABLE_ITER_INVALID then do {
        found \<leftarrow> compare_key arena curIter key keySize;
        if found then Some curIter
        else do { nextIter \<leftarrow> node_nextIter arena curIter; find_walk arena key keySize nextIter }
      } else Some VL_HASHTABLE_ITER_INVALID)"

definition vlHashTableFind :: "vl_hashtable \<Rightarrow> byte list \<Rightarrow> nat \<Rightarrow> vl_hash_iter option" where
  "vlHashTableFind table key keySize =
     do {
       hash \<leftarrow> map_option unat (hf_call (ht_hashFunc table) key keySize);
       tableIndex \<leftarrow> bucket_index hash (table_size table);
       curIter \<leftarrow> bucket_get (ht_table table) tableIndex;
       if curIter = 0 then Some 0 else find_walk (ht_data table) key keySize curIter
     }"

text \<open>The bytes that the two functions point at, with their number.\<close>

definition vlHashTableSampleKey :: "vl_hashtable \<Rightarrow> vl_hash_iter \<Rightarrow> byte list option" where
  "vlHashTableSampleKey table iter =
     do {
       n \<leftarrow> node_keySize (ht_data table) iter;
       vlArenaMemSample (ht_data table) (iter + HASHTABLE_HEADER_SIZE) n
     }"

definition value_offset :: "vl_hashtable \<Rightarrow> vl_hash_iter \<Rightarrow> nat option" where
  "value_offset table iter =
     do { n \<leftarrow> node_keySize (ht_data table) iter; Some (iter + HASHTABLE_HEADER_SIZE + n) }"

definition vlHashTableSampleValue :: "vl_hashtable \<Rightarrow> vl_hash_iter \<Rightarrow> byte list option" where
  "vlHashTableSampleValue table iter =
     do {
       n \<leftarrow> node_valSize (ht_data table) iter;
       off \<leftarrow> value_offset table iter;
       vlArenaMemSample (ht_data table) off n
     }"

text \<open>What a caller writes through the pointer to the value.\<close>

definition hashtable_store_value :: "vl_hashtable \<Rightarrow> vl_hash_iter \<Rightarrow> byte list \<Rightarrow> vl_hashtable option" where
  "hashtable_store_value table iter xs =
     do {
       off \<leftarrow> value_offset table iter;
       arena \<leftarrow> vlArenaMemStore (ht_data table) off xs;
       Some (table\<lparr>ht_data := arena\<rparr>)
     }"

section \<open>Removing\<close>

partial_function (option) find_before :: "vl_arena \<Rightarrow> vl_hash_iter \<Rightarrow> vl_hash_iter \<Rightarrow> vl_hash_iter option" where
  [code]: "find_before arena iter curIter =
     do {
       nextIter \<leftarrow> node_nextIter arena curIter;
       if nextIter \<noteq> iter then find_before arena iter nextIter else Some curIter
     }"

definition vlHashTableRemoveIter :: "vl_hashtable \<Rightarrow> vl_hash_iter \<Rightarrow> vl_hashtable option" where
  "vlHashTableRemoveIter table iter =
     do {
       hash \<leftarrow> node_keyHash (ht_data table) iter;
       tableIndex \<leftarrow> bucket_index hash (table_size table);
       rootIter \<leftarrow> bucket_get (ht_table table) tableIndex;
       if rootIter = VL_HASHTABLE_ITER_INVALID then Some table
       else if rootIter = iter then do {
         nextIter \<leftarrow> node_nextIter (ht_data table) iter;
         dat \<leftarrow> bucket_put (ht_table table) tableIndex nextIter;
         arena \<leftarrow> vlArenaMemFree (ht_data table) iter;
         Some (table\<lparr>ht_table := Some dat, ht_data := arena, ht_totalElements := dec32 (ht_totalElements table)\<rparr>)
       }
       else do {
         rootNext \<leftarrow> node_nextIter (ht_data table) rootIter;
         table \<leftarrow>
           (if rootNext = VL_HASHTABLE_ITER_INVALID then do {
              dat \<leftarrow> bucket_put (ht_table table) tableIndex VL_HASHTABLE_ITER_INVALID;
              Some (table\<lparr>ht_table := Some dat\<rparr>)
            } else do {
              curIter \<leftarrow> find_before (ht_data table) iter rootIter;
              nextIter \<leftarrow> node_nextIter (ht_data table) iter;
              arena \<leftarrow> store_next (ht_data table) curIter nextIter;
              Some (table\<lparr>ht_data := arena\<rparr>)
            });
         arena \<leftarrow> vlArenaMemFree (ht_data table) iter;
         Some (table\<lparr>ht_data := arena, ht_totalElements := dec32 (ht_totalElements table)\<rparr>)
       }
     }"

definition vlHashTableRemoveKey :: "vl_hashtable \<Rightarrow> byte list \<Rightarrow> nat \<Rightarrow> vl_hashtable option" where
  "vlHashTableRemoveKey table key keyLen =
     do { iter \<leftarrow> vlHashTableFind table key keyLen; vlHashTableRemoveIter table iter }"

section \<open>Copying\<close>

definition vlHashTableClone :: "allocator \<Rightarrow> vl_hashtable \<Rightarrow> vl_hashtable option \<Rightarrow> vl_hashtable option" where
  "vlHashTableClone al src dest =
     do {
       let bucketBufferSize = vlMemSize (ht_table src);
       dest \<leftarrow> (case dest of None \<Rightarrow> vlHashTableNew al (ht_hashFunc src) | Some d \<Rightarrow> Some d);
       arena \<leftarrow> vlArenaClone al (ht_data src) (Some (ht_data dest));
       dat \<leftarrow> vlMemRealloc al (ht_table dest) bucketBufferSize;
       xs \<leftarrow> mem_read (ht_table src) 0 bucketBufferSize;
       dat \<leftarrow> mem_write dat 0 xs;
       Some \<lparr>ht_table = Some dat, ht_data = arena, ht_hashFunc = ht_hashFunc src, ht_totalElements = ht_totalElements src\<rparr>
     }"

text \<open>One element into another table; the value has the size it had in the source.\<close>

definition copy_element :: "allocator \<Rightarrow> vl_hashtable \<Rightarrow> vl_hash_iter \<Rightarrow> vl_hashtable \<Rightarrow> (vl_hash_iter \<times> vl_hashtable) option" where
  "copy_element al src iter dest =
     do {
       keyBytes \<leftarrow> vlHashTableSampleKey src iter;
       dataBytes \<leftarrow> vlHashTableSampleValue src iter;
       (destIter, dest) \<leftarrow> vlHashTableInsert al dest keyBytes (length keyBytes) (length dataBytes);
       dest \<leftarrow> hashtable_store_value dest destIter dataBytes;
       Some (destIter, dest)
     }"

definition vlHashTableCopyElement ::
  "allocator \<Rightarrow> vl_hashtable \<Rightarrow> vl_hash_iter \<Rightarrow> vl_hashtable \<Rightarrow> (vl_hash_iter \<times> vl_hashtable) option" where
  "vlHashTableCopyElement al src iter dest =
     (if hf_address (ht_hashFunc src) \<noteq> hf_address (ht_hashFunc dest) then Some (VL_HASHTABLE_ITER_INVALID, dest)
      else copy_element al src iter dest)"

text \<open>The count of copied elements is a signed 32-bit integer, whose overflow is undefined.\<close>

partial_function (option) copy_loop ::
  "allocator \<Rightarrow> vl_hashtable \<Rightarrow> vl_hash_iter \<Rightarrow> vl_hashtable \<Rightarrow> nat \<Rightarrow> (nat \<times> vl_hashtable) option" where
  [code]: "copy_loop al src srcIter dest totalCopied =
     (if srcIter \<noteq> VL_HASHTABLE_ITER_INVALID then do {
        (_, dest) \<leftarrow> copy_element al src srcIter dest;
        totalCopied \<leftarrow> (if totalCopied + 1 < 2 ^ 31 then Some (totalCopied + 1) else None);
        nextIter \<leftarrow> vlHashTableNext src srcIter;
        copy_loop al src nextIter dest totalCopied
      } else Some (totalCopied, dest))"

definition vlHashTableCopy :: "allocator \<Rightarrow> vl_hashtable \<Rightarrow> vl_hashtable \<Rightarrow> (nat \<times> vl_hashtable) option" where
  "vlHashTableCopy al src dest =
     (if hf_address (ht_hashFunc src) \<noteq> hf_address (ht_hashFunc dest) then Some (0, dest)
      else do { iter \<leftarrow> vlHashTableFront src; copy_loop al src iter dest 0 })"

end
