(* ===== verification/VL_HashArena.thy ===== *)
theory VL_HashArena
  imports VL_HashTable VL_ArenaApi
begin

text \<open>
  The arena as the hash table uses it: parts of blocks are read and written, and the blocks are
  walked over in the order of their offsets.
\<close>

section \<open>Parts of blocks\<close>

lemma write_range_prefix:
  assumes "take (length ts) (drop off bs) = ts"
  shows "write_range bs (off + length ts) ys = write_range bs off (ts @ ys)"
proof -
  have "take (off + length ts) bs = take off bs @ ts" using assms by (simp add: take_add)
  then show ?thesis by (simp add: write_range_def add.assoc)
qed

lemma arena_holds_part:
  assumes h: "arena_holds a M k" and p: "M p = Some (A @ B @ C)"
  shows "vlArenaMemSample a (p + length A) (length B) = Some B"
proof -
  have "vlArenaMemSample a p (length (A @ B @ C)) = Some (A @ B @ C)" by (rule arena_holds_load(1) [OF h p])
  then obtain m where m: "ar_data a = Some m" "mem_user m + p + length (A @ B @ C) \<le> length (mem_bytes m)"
    "take (length (A @ B @ C)) (drop (mem_user m + p) (mem_bytes m)) = A @ B @ C"
    by (auto simp: vlArenaMemSample_def mem_read_def read_range_def bind_eq_Some_conv split: if_splits)
  let ?bs = "drop (mem_user m + p) (mem_bytes m)"
  have "take (length B) (drop (length A) ?bs) = take (length B) (drop (length A) (take (length (A @ B @ C)) ?bs))"
    by (simp add: drop_take min_def)
  also have "\<dots> = B" unfolding m(3) by simp
  finally show ?thesis
    using m(1,2) by (simp add: vlArenaMemSample_def mem_read_def read_range_def ac_simps)
qed

lemma arena_holds_poke:
  assumes h: "arena_holds a M k" and p: "M p = Some (A @ B @ C)" and len: "length B' = length B"
  obtains a' where "vlArenaMemStore a (p + length A) B' = Some a'" "arena_holds a' (M(p \<mapsto> A @ B' @ C)) k"
    "vlArenaTotalCapacity a' = vlArenaTotalCapacity a"
proof -
  have "length (A @ B') \<le> length (A @ B @ C)" using len by simp
  then obtain a' where a': "vlArenaMemStore a p (A @ B') = Some a'"
    "arena_holds a' (M(p \<mapsto> (A @ B') @ drop (length (A @ B')) (A @ B @ C))) k"
    "vlArenaTotalCapacity a' = vlArenaTotalCapacity a"
    by (rule arena_holds_store [OF h p])
  have "vlArenaMemSample a p (length A) = Some A"
    using arena_holds_part [OF h, of p "[]" A "B @ C"] p by simp
  then obtain m where m: "ar_data a = Some m" "take (length A) (drop (mem_user m + p) (mem_bytes m)) = A"
    by (auto simp: vlArenaMemSample_def mem_read_def read_range_def bind_eq_Some_conv split: if_splits)
  have "vlArenaMemStore a (p + length A) B' = vlArenaMemStore a p (A @ B')"
    using write_range_prefix [OF m(2), of B'] m(1) by (simp add: vlArenaMemStore_def mem_write_def add.assoc)
  then show thesis using that a' len by simp
qed

section \<open>The walk\<close>

lemma blocks_sorted: "sorted_wrt (<) (map fst (blocks off gs))"
proof (induction off gs rule: blocks.induct)
  case (3 off xs gs)
  have "off + BLOCK_HEADER_SIZE < p" if "p \<in> fst ` set (blocks (off + (BLOCK_HEADER_SIZE + length xs)) gs)" for p
    using that blocks_range by (fastforce simp: BLOCK_HEADER_SIZE_def)
  then show ?case using 3 by simp
qed simp_all

definition ptrs :: "(nat \<rightharpoonup> byte list) \<Rightarrow> nat list" where
  "ptrs M = sorted_list_of_set (dom M)"

lemma ptrs_blocks: "ptrs (arena_map gs) = map fst (blocks 0 gs)"
proof -
  have "dom (arena_map gs) = set (map fst (blocks 0 gs))" by (simp add: arena_map_def dom_map_of_conv_image_fst)
  then show ?thesis unfolding ptrs_def
    using blocks_sorted [of 0 gs] by (simp only: sorted_list_of_set.idem_if_sorted_distinct strict_sorted_iff)
qed

text \<open>The first block of a row behind an offset.\<close>

lemma arena_holdsE:
  assumes "arena_holds a M k"
  obtains gs m ks where "arena_rep a gs" "M = arena_map gs" "ar_data a = Some m" "vlMemSize (ar_data a) = segs_size gs"
    "fset (ar_freeSet a) ks (gaps 0 gs)" "segs_size gs < 2 ^ 32 - 1" "0 < segs_size gs" "gaps_pos gs" "apart (gaps 0 gs)"
proof -
  obtain gs where gs: "arena_rep a gs" "M = arena_map gs" using assms by (auto simp: arena_holds_def)
  obtain m ks where "ar_data a = Some m" "mh_length (mem_header m) = segs_size gs"
    "fset (ar_freeSet a) ks (gaps 0 gs)" "segs_size gs < 2 ^ 32 - 1" "0 < segs_size gs" "gaps_pos gs" "apart (gaps 0 gs)"
    by (rule arena_repE [OF gs(1)])
  then show thesis using that gs by (simp add: vlMemSize_def)
qed

text \<open>After a gap there is a block or the end.\<close>

lemma gap_then:
  assumes "apart (gaps off (Gap n # gs))"
  obtains "gs = []" | xs hs where "gs = Block xs # hs"
proof (cases gs)
  case (Cons g hs)
  show thesis
  proof (cases g)
    case (Gap m)
    then show thesis using assms Cons by (simp add: touches_def)
  next
    case (Block xs)
    then show thesis using that(2) Cons by simp
  qed
qed (use that(1) in simp)

text \<open>The first block of a row.\<close>

lemma front_block:
  assumes h: "arena_holds (ht_data table) M k"
  shows "vlHashTableFront table = Some (hd_or (ptrs M) 0)"
proof -
  obtain gs m ks where g: "arena_rep (ht_data table) gs" "M = arena_map gs" "vlMemSize (ar_data (ht_data table)) = segs_size gs"
    "fset (ar_freeSet (ht_data table)) ks (gaps 0 gs)" "segs_size gs < 2 ^ 32 - 1" "0 < segs_size gs" "gaps_pos gs" "apart (gaps 0 gs)"
    by (rule arena_holdsE [OF h])
  have p: "ptrs M = map fst (blocks 0 gs)" unfolding g(2) by (rule ptrs_blocks)
  note front = fset_front [OF g(4)]
  show ?thesis
  proof (cases gs)
    case Nil
    then show ?thesis using g(6) by simp
  next
    case (Cons x hs)
    show ?thesis
    proof (cases x)
      case (Gap n)
      obtain i ls where ks: "ks = i # ls" using fsetD(9) [OF g(4)] Cons Gap by (cases ks) simp_all
      have i: "i \<noteq> SNIL" using fsetD(8) [OF g(4)] ks by auto
      have smp: "vlSetSample (ar_freeSet (ht_data table)) i = Some \<lparr>an_offset = 0, an_size = n\<rparr>"
        using fset_sample(1) [of "ar_freeSet (ht_data table)" "[]" i ls "[]"] g(4) ks Cons Gap by simp
      have e: "node_end \<lparr>an_offset = 0, an_size = n\<rparr> = n" using g(5) Cons Gap by (simp add: node_end_def u64_of_id)
      show ?thesis
      proof (rule gap_then [of 0 n hs])
        show "apart (gaps 0 (Gap n # hs))" using g(8) Cons Gap by simp
      next
        assume "hs = []"
        then show ?thesis using front ks i smp e g(3) Cons Gap p
          by (simp add: vlHashTableFront_def Let_def hd_or_def VL_HASHTABLE_ITER_INVALID_def)
      next
        fix xs hs'
        assume "hs = Block xs # hs'"
        then show ?thesis using front ks i smp e g(3,5) Cons Gap p
          by (simp add: vlHashTableFront_def Let_def hd_or_def VL_HASHTABLE_ITER_INVALID_def BLOCK_HEADER_SIZE_def u64_of_id)
      qed
    next
      case (Block xs)
      show ?thesis
      proof (cases ks)
        case Nil
        then show ?thesis using front p Cons Block by (simp add: vlHashTableFront_def Let_def hd_or_def BLOCK_HEADER_SIZE_def)
      next
        case (Cons i ls)
        obtain y ys where ys: "gaps 0 gs = y # ys" using fsetD(9) [OF g(4)] Cons by (cases "gaps 0 gs") simp_all
        have smp: "vlSetSample (ar_freeSet (ht_data table)) i = Some y"
          using fset_sample(1) [of "ar_freeSet (ht_data table)" "[]" i ls "[]"] g(4) ys Cons by simp
        have "y \<in> set (gaps (BLOCK_HEADER_SIZE + length xs) hs)" using ys \<open>gs = x # hs\<close> Block by simp
        then have "an_offset y \<noteq> 0" using gaps_range by (fastforce simp: BLOCK_HEADER_SIZE_def)
        then show ?thesis using front smp Cons p \<open>gs = x # hs\<close> Block fsetD(8) [OF g(4)]
          by (simp add: vlHashTableFront_def Let_def hd_or_def BLOCK_HEADER_SIZE_def)
      qed
    qed
  qed
qed

text \<open>The block behind another one.\<close>

lemma next_block:
  assumes h: "arena_holds (ht_data table) M k" and p: "ptrs M = ps @ p # qs"
  shows "vlHashTableNext table p = Some (hd_or qs 0)"
proof -
  obtain gs m ks where g: "arena_rep (ht_data table) gs" "M = arena_map gs" "vlMemSize (ar_data (ht_data table)) = segs_size gs"
    "fset (ar_freeSet (ht_data table)) ks (gaps 0 gs)" "segs_size gs < 2 ^ 32 - 1" "0 < segs_size gs" "gaps_pos gs" "apart (gaps 0 gs)"
    by (rule arena_holdsE [OF h])
  have pb: "map fst (blocks 0 gs) = ps @ p # qs" using p unfolding g(2) ptrs_blocks .
  have "p \<in> dom M" using p unfolding ptrs_def by (metis g(2) in_set_conv_decomp ptrs_blocks ptrs_def set_sorted_list_of_set
      arena_map_def finite_dom_map_of)
  then obtain xs where xs: "M p = Some xs" by blast
  obtain A B where AB: "gs = A @ Block xs # B" "p = segs_size A + BLOCK_HEADER_SIZE"
    by (rule arena_block [OF g(1) xs [unfolded g(2)]])
  let ?n = "BLOCK_HEADER_SIZE + length xs"
  have "map fst (blocks 0 gs) = map fst (blocks 0 A) @ p # map fst (blocks (segs_size A + ?n) B)" using AB by simp
  moreover have "distinct (map fst (blocks 0 gs))" by (rule blocks_distinct)
  ultimately have qs: "qs = map fst (blocks (segs_size A + ?n) B)" using pb
    by (metis append_Cons_eq_iff distinct_append not_distinct_conv_prefix distinct.simps(2) disjoint_iff list.set_intros(1))
  let ?e = "segs_size A + ?n" and ?f = "ar_freeSet (ht_data table)"
  have size: "segs_size gs = ?e + segs_size B" using AB(1) by simp
  have ms: "vlArenaMemSize (ht_data table) p = Some (length xs)" by (rule arena_holds_load(2) [OF h xs])
  have e: "u64_of (p + length xs) = ?e" using AB(2) size g(5) by (simp add: u64_of_id ac_simps)
  have left: "an_offset y < ?e" if "y \<in> set (gaps 0 A)" for y
    using gaps_range [OF that] by (simp add: BLOCK_HEADER_SIZE_def)
  have gaps: "gaps 0 gs = gaps 0 A @ gaps ?e B" using AB(1) by simp
  show ?thesis
  proof (cases B)
    case Nil
    have "vlSetFind ?f (offset_key ?e) = Some SNIL"
      by (rule fset_find_none [OF g(4)]) (use left gaps Nil in fastforce)
    then show ?thesis using ms e size g(3) Nil qs by (simp add: vlHashTableNext_def Let_def hd_or_def)
  next
    case (Cons b C)
    show ?thesis
    proof (cases b)
      case (Block ys)
      have "an_offset y \<noteq> ?e" if "y \<in> set (gaps (?e + (BLOCK_HEADER_SIZE + length ys)) C)" for y
        using gaps_range [OF that] by (simp add: BLOCK_HEADER_SIZE_def)
      then have "vlSetFind ?f (offset_key ?e) = Some SNIL"
        by (intro fset_find_none [OF g(4)]) (use left gaps Cons Block in fastforce)
      then show ?thesis using ms e size g(3,5) Cons Block qs
        by (simp add: vlHashTableNext_def Let_def hd_or_def BLOCK_HEADER_SIZE_def u64_of_id)
    next
      case (Gap m)
      let ?x = "\<lparr>an_offset = ?e, an_size = m\<rparr>"
      have gs: "gaps 0 gs = gaps 0 A @ ?x # gaps (?e + m) C" using gaps Cons Gap by simp
      then have "length (gaps 0 A) < length ks" using fsetD(9) [OF g(4)] by simp
      then obtain "is" i js where ks: "ks = is @ i # js" "length is = length (gaps 0 A)" using split_at by blast
      note f = g(4) [unfolded ks(1) gs]
      have find: "vlSetFind ?f (offset_key ?e) = Some i" by (rule fset_find_at [OF f ks(2)]) simp
      have smp: "vlSetSample ?f i = Some ?x" by (rule fset_sample(1) [OF f ks(2)])
      have i: "i \<noteq> SNIL" using fsetD(8) [OF f] by auto
      have ne: "node_end ?x = ?e + m" using size g(5) Cons Gap by (simp add: node_end_def u64_of_id)
      have ap: "apart (gaps ?e (Gap m # C))" using g(8) gaps Cons Gap by (simp add: successively_append_iff)
      show ?thesis
      proof (rule gap_then [OF ap])
        assume "C = []"
        then show ?thesis using ms e size g(3) Cons Gap qs find smp i ne
          by (simp add: vlHashTableNext_def Let_def hd_or_def)
      next
        fix ys D assume "C = Block ys # D"
        then show ?thesis using ms e size g(3,5) Cons Gap qs find smp i ne
          by (simp add: vlHashTableNext_def Let_def hd_or_def BLOCK_HEADER_SIZE_def u64_of_id)
      qed
    qed
  qed
qed

end
