(* ===== verification/VL_HashNodes.thy ===== *)
theory VL_HashNodes
  imports VL_HashArena
begin

text \<open>
  The parts of a hash table: its buckets, the nodes in the arena, and the chains that link them.
\<close>

section \<open>Buckets\<close>

definition buckets :: "vl_memory option \<Rightarrow> nat \<Rightarrow> (nat \<Rightarrow> nat) \<Rightarrow> bool" where
  "buckets dat T bk \<longleftrightarrow>
     (\<exists>m. dat = Some m \<and> mem_inv m \<and> mh_alignment (mem_header m) = VL_DEFAULT_ALIGN \<and> mh_length (mem_header m) = 8 * T) \<and>
     0 < T \<and> 8 * T < 2 ^ 32 \<and> (\<forall>i < T. bucket_get dat i = Some (bk i))"

lemma bucketsE:
  assumes "buckets dat T bk"
  obtains m where "dat = Some m" "mem_inv m" "mh_alignment (mem_header m) = VL_DEFAULT_ALIGN"
    "mh_length (mem_header m) = 8 * T" "length (mem_data m) = 8 * T" "0 < T" "8 * T < 2 ^ 32"
    "\<And>i. i < T \<Longrightarrow> bucket_get (Some m) i = Some (bk i)"
  using assms mem_inv_data by (auto simp: buckets_def)

lemma buckets_get: "buckets dat T bk \<Longrightarrow> i < T \<Longrightarrow> bucket_get dat i = Some (bk i)"
  by (simp add: buckets_def)

lemma buckets_size: "buckets dat T bk \<Longrightarrow> vlMemSize dat = 8 * T"
  by (auto simp: buckets_def vlMemSize_def)

lemma table_size_ok: "buckets (ht_table table) T bk \<Longrightarrow> table_size table = T"
  using buckets_size [of "ht_table table" T bk] by (simp add: table_size_def buckets_def u32_of_id)

lemma bucket_index_ok: "0 < T \<Longrightarrow> 8 * T < 2 ^ 32 \<Longrightarrow> bucket_index h T = Some (h mod T)"
proof -
  assume "0 < T" "8 * T < 2 ^ 32"
  moreover from this have "h mod T < 2 ^ 32" using mod_less_divisor [of T h] by linarith
  ultimately show "bucket_index h T = Some (h mod T)" by (simp add: bucket_index_def u32_of_id)
qed

lemma buckets_put:
  assumes b: "buckets dat T bk" and i: "i < T" and v: "v < 2 ^ 64"
  obtains m' where "bucket_put dat i v = Some m'" "buckets (Some m') T (bk(i := v))"
proof -
  obtain m where m: "dat = Some m" "mem_inv m" "mh_alignment (mem_header m) = VL_DEFAULT_ALIGN"
    "mh_length (mem_header m) = 8 * T" "length (mem_data m) = 8 * T" "0 < T" "8 * T < 2 ^ 32"
    "\<And>i. i < T \<Longrightarrow> bucket_get (Some m) i = Some (bk i)"
    by (rule bucketsE [OF b]) blast
  let ?v = "nat_bytes 8 v"
  have "8 * i + length ?v \<le> length (mem_data m)" using i m(5) by simp
  then obtain m' where m': "mem_write (Some m) (8 * i) ?v = Some m'" "mem_inv m'" "mem_header m' = mem_header m"
    "length (mem_data m') = length (mem_data m)"
    "\<And>k. k < length (mem_data m) \<Longrightarrow>
       mem_data m' ! k = (if 8 * i \<le> k \<and> k < 8 * i + length ?v then ?v ! (k - 8 * i) else mem_data m ! k)"
    by (rule mem_poke [OF m(2)]) blast
  have "bucket_get (Some m') j = Some ((bk(i := v)) j)" if j: "j < T" for j
  proof -
    have rd: "mem_read (Some m') (8 * j) 8 = Some (take 8 (drop (8 * j) (mem_data m')))"
      by (rule mem_read_Some [OF m'(2)]) (use j m'(3) m(4) in simp)
    have rd0: "mem_read (Some m) (8 * j) 8 = Some (take 8 (drop (8 * j) (mem_data m)))"
      by (rule mem_read_Some [OF m(2)]) (use j m(4) in simp)
    show ?thesis
    proof (cases "j = i")
      case True
      have "take 8 (drop (8 * j) (mem_data m')) = ?v"
        using j m'(4,5) m(5) True by (intro nth_equalityI) simp_all
      moreover have "bytes_nat ?v = Some v" by (rule bytes_nat_bytes) (use v in simp)
      ultimately show ?thesis using rd True by (simp add: bucket_get_def)
    next
      case False
      have "take 8 (drop (8 * j) (mem_data m')) = take 8 (drop (8 * j) (mem_data m))"
      proof (rule nth_equalityI)
        show "length (take 8 (drop (8 * j) (mem_data m'))) = length (take 8 (drop (8 * j) (mem_data m)))" using m'(4) by simp
        fix k assume "k < length (take 8 (drop (8 * j) (mem_data m')))"
        then have k: "k < 8" "8 * j + k < length (mem_data m)" using m'(4) j m(5) by auto
        have "\<not> (8 * i \<le> 8 * j + k \<and> 8 * j + k < 8 * i + 8)" using k(1) False by auto
        then have "mem_data m' ! (8 * j + k) = mem_data m ! (8 * j + k)" using m'(5) [OF k(2)] by (auto split: if_splits)
        then show "take 8 (drop (8 * j) (mem_data m')) ! k = take 8 (drop (8 * j) (mem_data m)) ! k" using k m'(4) by simp
      qed
      then show ?thesis using rd rd0 m(8) [OF j] False by (simp add: bucket_get_def)
    qed
  qed
  then have "buckets (Some m') T (bk(i := v))" using m m' by (simp add: buckets_def)
  moreover have "bucket_put dat i v = Some m'" using m(1) m'(1) by (simp add: bucket_put_def)
  ultimately show thesis using that by blast
qed

lemma nat_bytes_zero: "nat_bytes k 0 = replicate k (Some 0)"
  by (induction k) simp_all

text \<open>A table that was cleared.\<close>

lemma buckets_clear:
  assumes "mem_inv m" and "mh_alignment (mem_header m) = VL_DEFAULT_ALIGN" and "mh_length (mem_header m) = 8 * T"
    and "0 < T" and "8 * T < 2 ^ 32"
  obtains m' where "mem_write (Some m) 0 (replicate (8 * T) (Some 0)) = Some m'" "buckets (Some m') T (\<lambda>_. 0)"
    "mem_header m' = mem_header m"
proof -
  have len: "length (mem_data m) = 8 * T" using mem_inv_data [OF assms(1)] assms(3) by simp
  then have "0 + length (replicate (8 * T) (Some 0 :: byte)) \<le> length (mem_data m)" by simp
  then obtain m' where m': "mem_write (Some m) 0 (replicate (8 * T) (Some 0)) = Some m'" "mem_inv m'" "mem_header m' = mem_header m"
    "length (mem_data m') = length (mem_data m)"
    "\<And>k. k < length (mem_data m) \<Longrightarrow> mem_data m' ! k =
       (if 0 \<le> k \<and> k < 0 + length (replicate (8 * T) (Some 0 :: byte)) then replicate (8 * T) (Some 0) ! (k - 0) else mem_data m ! k)"
    by (rule mem_poke [OF assms(1)]) blast
  have "bucket_get (Some m') j = Some 0" if j: "j < T" for j
  proof -
    have "mem_read (Some m') (8 * j) 8 = Some (take 8 (drop (8 * j) (mem_data m')))"
      by (rule mem_read_Some [OF m'(2)]) (use j m'(3) assms(3) in simp)
    moreover have "take 8 (drop (8 * j) (mem_data m')) = nat_bytes 8 0"
    proof (rule nth_equalityI)
      show "length (take 8 (drop (8 * j) (mem_data m'))) = length (nat_bytes 8 0)" using j m'(4) len by simp
      fix k assume "k < length (take 8 (drop (8 * j) (mem_data m')))"
      then have k: "k < 8" "8 * j + k < length (mem_data m)" using m'(4) j len by auto
      have "nat_bytes 8 0 = replicate 8 (Some 0)" by (rule nat_bytes_zero)
      then show "take 8 (drop (8 * j) (mem_data m')) ! k = nat_bytes 8 0 ! k" using k m'(4,5) len by simp
    qed
    moreover have "bytes_nat (nat_bytes 8 0) = Some 0" by (rule bytes_nat_bytes) simp
    ultimately show ?thesis by (simp add: bucket_get_def)
  qed
  then have "buckets (Some m') T (\<lambda>_. 0)" using assms m' by (simp add: buckets_def)
  then show thesis using that m'(1,3) by blast
qed

section \<open>Nodes\<close>

definition node_bytes :: "byte list \<Rightarrow> nat \<Rightarrow> nat \<Rightarrow> byte list \<Rightarrow> byte list \<Rightarrow> byte list" where
  "node_bytes pad h nx key vs =
     nat_bytes 2 (length key) @ nat_bytes 2 (length vs) @ pad @ nat_bytes 8 h @ nat_bytes 8 nx @ key @ vs"

definition hash_node :: "(nat \<rightharpoonup> byte list) \<Rightarrow> nat \<Rightarrow> nat \<Rightarrow> nat \<Rightarrow> byte list \<Rightarrow> byte list \<Rightarrow> bool" where
  "hash_node M it h nx key vs \<longleftrightarrow>
     (\<exists>pad. length pad = 4 \<and> M it = Some (node_bytes pad h nx key vs)) \<and>
     length key < 2 ^ 16 \<and> length vs < 2 ^ 16 \<and> None \<notin> set key \<and> h < 2 ^ 64 \<and> nx < 2 ^ 64"

lemma load_number_ok:
  assumes "arena_holds a M k" and "M it = Some (A @ nat_bytes j n @ C)" and "n < 256 ^ j" and "length A = off"
  shows "load_number a (it + off) j = Some n"
  using arena_holds_part [OF assms(1,2)] assms(3,4) by (simp add: load_number_def bytes_nat_bytes)

lemma node_fields:
  assumes h: "arena_holds a M k" and n: "hash_node M it h nx key vs"
  shows "node_keySize a it = Some (length key)" and "node_valSize a it = Some (length vs)"
    and "node_keyHash a it = Some h" and "node_nextIter a it = Some nx"
    and "vlArenaMemSample a (it + HASHTABLE_HEADER_SIZE) (length key) = Some key"
    and "vlArenaMemSample a (it + HASHTABLE_HEADER_SIZE + length key) (length vs) = Some vs"
proof -
  obtain pad where pad: "length pad = 4" "M it = Some (node_bytes pad h nx key vs)" using n by (auto simp: hash_node_def)
  have b: "length key < 256 ^ 2" "length vs < 256 ^ 2" "h < 256 ^ 8" "nx < 256 ^ 8" using n by (simp_all add: hash_node_def)
  let ?k = "nat_bytes 2 (length key)" and ?v = "nat_bytes 2 (length vs)" and ?h = "nat_bytes 8 h" and ?n = "nat_bytes 8 nx"
  show "node_keySize a it = Some (length key)"
    using load_number_ok [OF h, of it "[]" 2 "length key" "?v @ pad @ ?h @ ?n @ key @ vs" 0] pad(2) b
    by (simp add: node_bytes_def node_keySize_def)
  show "node_valSize a it = Some (length vs)"
    using load_number_ok [OF h, of it ?k 2 "length vs" "pad @ ?h @ ?n @ key @ vs" 2] pad(2) b
    by (simp add: node_bytes_def node_valSize_def)
  show "node_keyHash a it = Some h"
    using load_number_ok [OF h, of it "?k @ ?v @ pad" 8 h "?n @ key @ vs" 8] pad b
    by (simp add: node_bytes_def node_keyHash_def)
  show "node_nextIter a it = Some nx"
    using load_number_ok [OF h, of it "?k @ ?v @ pad @ ?h" 8 nx "key @ vs" 16] pad b
    by (simp add: node_bytes_def node_nextIter_def)
  show "vlArenaMemSample a (it + HASHTABLE_HEADER_SIZE) (length key) = Some key"
    using arena_holds_part [OF h, of it "?k @ ?v @ pad @ ?h @ ?n" key vs] pad by (simp add: node_bytes_def HASHTABLE_HEADER_SIZE_def)
  show "vlArenaMemSample a (it + HASHTABLE_HEADER_SIZE + length key) (length vs) = Some vs"
    using arena_holds_part [OF h, of it "?k @ ?v @ pad @ ?h @ ?n @ key" vs "[]"] pad
    by (simp add: node_bytes_def HASHTABLE_HEADER_SIZE_def add.assoc)
qed

lemma compare_key_ok:
  assumes h: "arena_holds a M k" and n: "hash_node M it h nx key vs" and q: "None \<notin> set q"
  shows "compare_key a it q (length q) = Some (q = key)"
proof -
  have "None \<notin> set key" using n by (simp add: hash_node_def)
  then show ?thesis using node_fields [OF h n] q
    by (auto simp: compare_key_def vl_HashTableBinCompare_def read_range_def)
qed

lemma store_next_ok:
  assumes h: "arena_holds a M k" and n: "hash_node M it h nx key vs" and v: "v < 2 ^ 64"
  obtains a' bs where "store_next a it v = Some a'" "arena_holds a' (M(it \<mapsto> bs)) k" "hash_node (M(it \<mapsto> bs)) it h v key vs"
    "vlArenaTotalCapacity a' = vlArenaTotalCapacity a"
proof -
  obtain pad where pad: "length pad = 4" "M it = Some (node_bytes pad h nx key vs)" using n by (auto simp: hash_node_def)
  let ?A = "nat_bytes 2 (length key) @ nat_bytes 2 (length vs) @ pad @ nat_bytes 8 h"
  have M: "M it = Some (?A @ nat_bytes 8 nx @ (key @ vs))" using pad(2) by (simp add: node_bytes_def)
  have "length (nat_bytes 8 v) = length (nat_bytes 8 nx)" by simp
  then obtain a' where a': "vlArenaMemStore a (it + length ?A) (nat_bytes 8 v) = Some a'"
    "arena_holds a' (M(it \<mapsto> ?A @ nat_bytes 8 v @ (key @ vs))) k" "vlArenaTotalCapacity a' = vlArenaTotalCapacity a"
    by (rule arena_holds_poke [OF h M])
  have eq: "?A @ nat_bytes 8 v @ (key @ vs) = node_bytes pad h v key vs" by (simp add: node_bytes_def)
  have "hash_node (M(it \<mapsto> node_bytes pad h v key vs)) it h v key vs" using n v pad(1) by (auto simp: hash_node_def)
  then show thesis using that a' pad(1) unfolding eq by (simp add: store_next_def)
qed

lemma hash_node_other: "it \<noteq> q \<Longrightarrow> hash_node (M(q := b)) it h nx key vs = hash_node M it h nx key vs"
  by (simp add: hash_node_def)

lemma arena_ptr_bounds:
  assumes "arena_holds a M k" and "M p = Some xs"
  shows "0 < p" and "p < 2 ^ 32" and "8 \<le> p"
proof -
  obtain gs where gs: "arena_rep a gs" "M = arena_map gs" using assms(1) by (auto simp: arena_holds_def)
  obtain A B where "p = segs_size A + BLOCK_HEADER_SIZE" "p + length xs < 2 ^ 32"
    by (rule arena_block [OF gs(1) assms(2) [unfolded gs(2)]])
  then show "0 < p" "p < 2 ^ 32" "8 \<le> p" by (simp_all add: BLOCK_HEADER_SIZE_def)
qed

lemma cut:
  assumes "n \<le> length xs"
  obtains ys zs where "xs = ys @ zs" "length ys = n"
  using that [of "take n xs" "drop n xs"] assms by simp

text \<open>A new node: a block whose header and key are written, and whose value is what the memory held.\<close>

lemma new_node_ok:
  assumes h: "arena_holds a M (Suc k)" and al: "alloc_upto al limit" and fit: "arena_fits limit a (HASHTABLE_HEADER_SIZE + length key + d)"
    and key: "length key < 2 ^ 16" "None \<notin> set key" and d: "d < 2 ^ 16" and hash: "hash < 2 ^ 64"
  obtains p a1 a2 a3 bs vs where
    "vlArenaMemAlloc al a (HASHTABLE_HEADER_SIZE + length key + d) = Some (p, a1)"
    "store_header a1 p \<lparr>hh_keySize = length key, hh_valSize = d, hh_keyHash = hash, hh_next = 0\<rparr> = Some a2"
    "vlArenaMemStore a2 (p + HASHTABLE_HEADER_SIZE) key = Some a3" "M p = None" "length vs = d"
    "arena_holds a3 (M(p \<mapsto> bs)) k" "hash_node (M(p \<mapsto> bs)) p hash 0 key vs"
    "vlArenaTotalCapacity a3 \<le> 2 * (HASHTABLE_HEADER_SIZE + length key + d + BLOCK_HEADER_SIZE + vlArenaTotalCapacity a)"
proof -
  let ?n = "HASHTABLE_HEADER_SIZE + length key + d"
  have "0 < ?n" by (simp add: HASHTABLE_HEADER_SIZE_def)
  from arena_holds_alloc [OF h this al fit] obtain p a1 xs where a1: "vlArenaMemAlloc al a ?n = Some (p, a1)" "M p = None"
    "length xs = ?n" "arena_holds a1 (M(p \<mapsto> xs)) k"
    "vlArenaTotalCapacity a1 \<le> 2 * (?n + BLOCK_HEADER_SIZE + vlArenaTotalCapacity a)" by metis
  have n24: "24 + length key + d = length xs" using a1(3) by (simp add: HASHTABLE_HEADER_SIZE_def)
  obtain A r1 where c1: "xs = A @ r1" "length A = 2" by (rule cut [of 2 xs]) (use n24 in auto)
  obtain B r2 where c2: "r1 = B @ r2" "length B = 2" by (rule cut [of 2 r1]) (use n24 c1 in auto)
  obtain P r3 where c3: "r2 = P @ r3" "length P = 4" by (rule cut [of 4 r2]) (use n24 c1 c2 in auto)
  obtain C r4 where c4: "r3 = C @ r4" "length C = 8" by (rule cut [of 8 r3]) (use n24 c1 c2 c3 in auto)
  obtain D r5 where c5: "r4 = D @ r5" "length D = 8" by (rule cut [of 8 r4]) (use n24 c1 c2 c3 c4 in auto)
  obtain E vs where c6: "r5 = E @ vs" "length E = length key" by (rule cut [of "length key" r5]) (use n24 c1 c2 c3 c4 c5 in auto)
  have lvs: "length vs = d" using n24 c1 c2 c3 c4 c5 c6 by simp
  let ?k = "nat_bytes 2 (length key)" and ?v = "nat_bytes 2 d" and ?h = "nat_bytes 8 hash" and ?x = "nat_bytes 8 0"
  have len: "length ?x = length D" "length ?k = length A" "length ?v = length B" "length ?h = length C" "length key = length E"
    using c1 c2 c4 c5 c6 by simp_all
  have M1: "(M(p \<mapsto> xs)) p = Some ((A @ B @ P @ C) @ D @ (E @ vs))" using c1 c2 c3 c4 c5 c6 by simp
  obtain b1 where b1: "vlArenaMemStore a1 (p + length (A @ B @ P @ C)) ?x = Some b1"
    "arena_holds b1 (M(p \<mapsto> xs, p \<mapsto> (A @ B @ P @ C) @ ?x @ (E @ vs))) k" "vlArenaTotalCapacity b1 = vlArenaTotalCapacity a1"
    by (rule arena_holds_poke [OF a1(4) M1 len(1)])
  have M2: "(M(p \<mapsto> xs, p \<mapsto> (A @ B @ P @ C) @ ?x @ (E @ vs))) p = Some ([] @ A @ (B @ P @ C @ ?x @ E @ vs))" by simp
  obtain b2 where b2: "vlArenaMemStore b1 (p + length ([] :: byte list)) ?k = Some b2"
    "arena_holds b2 (M(p \<mapsto> xs, p \<mapsto> (A @ B @ P @ C) @ ?x @ (E @ vs), p \<mapsto> [] @ ?k @ (B @ P @ C @ ?x @ E @ vs))) k"
    "vlArenaTotalCapacity b2 = vlArenaTotalCapacity b1"
    by (rule arena_holds_poke [OF b1(2) M2 len(2)])
  have h2: "arena_holds b2 (M(p \<mapsto> ?k @ B @ P @ C @ ?x @ E @ vs)) k" using b2(2) by simp
  have M3: "(M(p \<mapsto> ?k @ B @ P @ C @ ?x @ E @ vs)) p = Some (?k @ B @ (P @ C @ ?x @ E @ vs))" by simp
  obtain b3 where b3: "vlArenaMemStore b2 (p + length ?k) ?v = Some b3"
    "arena_holds b3 (M(p \<mapsto> ?k @ B @ P @ C @ ?x @ E @ vs, p \<mapsto> ?k @ ?v @ (P @ C @ ?x @ E @ vs))) k"
    "vlArenaTotalCapacity b3 = vlArenaTotalCapacity b2"
    by (rule arena_holds_poke [OF h2 M3 len(3)])
  have h3: "arena_holds b3 (M(p \<mapsto> ?k @ ?v @ P @ C @ ?x @ E @ vs)) k" using b3(2) by simp
  have M4: "(M(p \<mapsto> ?k @ ?v @ P @ C @ ?x @ E @ vs)) p = Some ((?k @ ?v @ P) @ C @ (?x @ E @ vs))" by simp
  obtain b4 where b4: "vlArenaMemStore b3 (p + length (?k @ ?v @ P)) ?h = Some b4"
    "arena_holds b4 (M(p \<mapsto> ?k @ ?v @ P @ C @ ?x @ E @ vs, p \<mapsto> (?k @ ?v @ P) @ ?h @ (?x @ E @ vs))) k"
    "vlArenaTotalCapacity b4 = vlArenaTotalCapacity b3"
    by (rule arena_holds_poke [OF h3 M4 len(4)])
  have h4: "arena_holds b4 (M(p \<mapsto> ?k @ ?v @ P @ ?h @ ?x @ E @ vs)) k" using b4(2) by simp
  have M5: "(M(p \<mapsto> ?k @ ?v @ P @ ?h @ ?x @ E @ vs)) p = Some ((?k @ ?v @ P @ ?h @ ?x) @ E @ vs)" by simp
  obtain b5 where b5: "vlArenaMemStore b4 (p + length (?k @ ?v @ P @ ?h @ ?x)) key = Some b5"
    "arena_holds b5 (M(p \<mapsto> ?k @ ?v @ P @ ?h @ ?x @ E @ vs, p \<mapsto> (?k @ ?v @ P @ ?h @ ?x) @ key @ vs)) k"
    "vlArenaTotalCapacity b5 = vlArenaTotalCapacity b4"
    by (rule arena_holds_poke [OF h4 M5 len(5)])
  let ?bs = "node_bytes P hash 0 key vs"
  have bs: "arena_holds b5 (M(p \<mapsto> ?bs)) k" using b5(2) lvs by (simp add: node_bytes_def)
  have u: "u16_of d = d" using d by (simp add: u16_of_id)
  have sh: "store_header a1 p \<lparr>hh_keySize = length key, hh_valSize = d, hh_keyHash = hash, hh_next = 0\<rparr> = Some b4"
    using b1(1) b2(1) b3(1) b4(1) c1(2) c2(2) c3(2) c4(2) u
    by (simp add: store_header_def store_next_def store_valSize_def)
  have sk: "vlArenaMemStore b4 (p + HASHTABLE_HEADER_SIZE) key = Some b5" using b5(1) c3(2) by (simp add: HASHTABLE_HEADER_SIZE_def)
  have na: "hash_node (M(p \<mapsto> ?bs)) p hash 0 key vs" using c3(2) key d hash lvs by (auto simp: hash_node_def)
  show thesis
    by (rule that [OF a1(1) sh sk a1(2) lvs bs na]) (use a1(5) b1(3) b2(3) b3(3) b4(3) b5(3) in simp)
qed

end
