(* ===== verification/VL_HashSpec.thy ===== *)
theory VL_HashSpec
  imports VL_HashNodes
begin

text \<open>
  The hash table of \<^verbatim>\<open>src/core/vl_hashtable.c\<close> as a map from iterators to keys and values: what
  finding, inserting and removing do to it.
\<close>

section \<open>The representation\<close>

type_synonym node = "nat \<times> byte list \<times> byte list"

definition nhash :: "(nat \<rightharpoonup> node) \<Rightarrow> nat \<Rightarrow> nat" where
  "nhash N it = fst (the (N it))"

definition nkey :: "(nat \<rightharpoonup> node) \<Rightarrow> nat \<Rightarrow> byte list" where
  "nkey N it = fst (snd (the (N it)))"

definition nval :: "(nat \<rightharpoonup> node) \<Rightarrow> nat \<Rightarrow> byte list" where
  "nval N it = snd (snd (the (N it)))"

lemma node_parts [simp]:
  "N it = Some (h, key, vs) \<Longrightarrow> nhash N it = h" "N it = Some (h, key, vs) \<Longrightarrow> nkey N it = key"
  "N it = Some (h, key, vs) \<Longrightarrow> nval N it = vs"
  by (simp_all add: nhash_def nkey_def nval_def)

text \<open>The nodes of a map lie in the blocks, each with its successor in its chain.\<close>

definition nodes_in :: "(nat \<rightharpoonup> byte list) \<Rightarrow> (nat \<rightharpoonup> node) \<Rightarrow> (nat \<Rightarrow> nat) \<Rightarrow> bool" where
  "nodes_in M N nx \<longleftrightarrow> dom M = dom N \<and> (\<forall>it \<in> dom N. hash_node M it (nhash N it) (nx it) (nkey N it) (nval N it))"

fun bucket_chain :: "(nat \<Rightarrow> nat) \<Rightarrow> nat \<Rightarrow> nat list \<Rightarrow> bool" where
  "bucket_chain nx i [] \<longleftrightarrow> i = 0"
| "bucket_chain nx i (x # xs) \<longleftrightarrow> i = x \<and> bucket_chain nx (nx x) xs"

definition chains :: "(nat \<rightharpoonup> node) \<Rightarrow> (nat \<Rightarrow> nat) \<Rightarrow> nat \<Rightarrow> (nat \<Rightarrow> nat) \<Rightarrow> (nat \<Rightarrow> nat list) \<Rightarrow> bool" where
  "chains N nx T bk ch \<longleftrightarrow>
     (\<forall>i < T. bucket_chain nx (bk i) (ch i) \<and> distinct (ch i) \<and> set (ch i) = {it \<in> dom N. nhash N it mod T = i})"

definition keys_ok :: "vl_hash_function \<Rightarrow> (nat \<rightharpoonup> node) \<Rightarrow> bool" where
  "keys_ok hf N \<longleftrightarrow>
     (\<forall>it \<in> dom N. hf_call hf (nkey N it) (length (nkey N it)) = Some (of_nat (nhash N it))) \<and> inj_on (nkey N) (dom N)"

text \<open>\<open>k\<close> is the number of operations that the arena has room for, \<open>T\<close> the number of buckets.\<close>

definition ht_parts :: "vl_hashtable \<Rightarrow> (nat \<rightharpoonup> byte list) \<Rightarrow> (nat \<rightharpoonup> node) \<Rightarrow> (nat \<Rightarrow> nat) \<Rightarrow> nat \<Rightarrow> (nat \<Rightarrow> nat) \<Rightarrow>
    (nat \<Rightarrow> nat list) \<Rightarrow> nat \<Rightarrow> bool" where
  "ht_parts t M N nx T bk ch k \<longleftrightarrow>
     arena_holds (ht_data t) M k \<and> nodes_in M N nx \<and> buckets (ht_table t) T bk \<and> chains N nx T bk ch \<and>
     keys_ok (ht_hashFunc t) N \<and> ht_totalElements t = card (dom N)"

definition ht_rep :: "vl_hashtable \<Rightarrow> (nat \<rightharpoonup> node) \<Rightarrow> nat \<Rightarrow> nat \<Rightarrow> bool" where
  "ht_rep t N T k \<longleftrightarrow> (\<exists>M nx bk ch. ht_parts t M N nx T bk ch k)"

lemma nodes_inD:
  assumes "nodes_in M N nx" and "it \<in> dom N"
  shows "hash_node M it (nhash N it) (nx it) (nkey N it) (nval N it)"
  using assms by (simp add: nodes_in_def)

lemma nodes_finite: "arena_holds a M k \<Longrightarrow> nodes_in M N nx \<Longrightarrow> finite (dom N)"
  unfolding nodes_in_def by (metis arena_holds_def arena_map_def finite_dom_map_of)

lemma nodes_bounds:
  assumes "arena_holds a M k" and "nodes_in M N nx" and "it \<in> dom N"
  shows "0 < it" and "it < 2 ^ 32" and "8 \<le> it"
proof -
  obtain xs where "M it = Some xs" using assms(2,3) by (auto simp: nodes_in_def)
  then show "0 < it" "it < 2 ^ 32" "8 \<le> it" using arena_ptr_bounds [OF assms(1)] by blast+
qed

section \<open>Walking along a chain\<close>

lemma find_walk_ok:
  assumes "arena_holds a M k" and "nodes_in M N nx" and "None \<notin> set q"
    and "bucket_chain nx i xs" and "set xs \<subseteq> dom N"
  shows "find_walk a q (length q) i = Some (hd_or (filter (\<lambda>it. nkey N it = q) xs) 0)"
  using assms(4,5)
proof (induction xs arbitrary: i)
  case Nil
  then show ?case by (simp add: find_walk.simps [of a q _ 0] VL_HASHTABLE_ITER_INVALID_def hd_or_def)
next
  case (Cons x xs)
  have x: "i = x" "x \<in> dom N" "bucket_chain nx (nx x) xs" using Cons.prems by simp_all
  note n = nodes_inD [OF assms(2) x(2)]
  have "0 < x" by (rule nodes_bounds(1) [OF assms(1,2) x(2)])
  then have "find_walk a q (length q) x =
    (if q = nkey N x then Some x else find_walk a q (length q) (nx x))"
    using compare_key_ok [OF assms(1) n assms(3)] node_fields(4) [OF assms(1) n]
    by (subst find_walk.simps) (simp add: VL_HASHTABLE_ITER_INVALID_def)
  then show ?case using Cons.IH [OF x(3)] Cons.prems(2) x(1) by (auto simp: hd_or_def)
qed

lemma insert_walk_ok:
  assumes "arena_holds a M k" and "nodes_in M N nx" and "None \<notin> set q"
    and "bucket_chain nx i xs" and "set xs \<subseteq> dom N"
  shows "insert_walk a h q (length q) i =
    (case filter (\<lambda>it. nhash N it = h \<and> nkey N it = q) xs of
       [] \<Rightarrow> Some (Inr (last_or xs 0)) | it # _ \<Rightarrow> Some (Inl it))"
  using assms(4,5)
proof (induction xs arbitrary: i)
  case Nil
  then show ?case by (simp add: insert_walk.simps [of a h q _ 0] VL_HASHTABLE_ITER_INVALID_def last_or_def)
next
  case (Cons x xs)
  have x: "i = x" "x \<in> dom N" "bucket_chain nx (nx x) xs" using Cons.prems by simp_all
  note n = nodes_inD [OF assms(2) x(2)]
  have x0: "0 < x" by (rule nodes_bounds(1) [OF assms(1,2) x(2)])
  have step: "insert_walk a h q (length q) x =
    (if h = nhash N x \<and> q = nkey N x then Some (Inl x)
     else if nx x = 0 then Some (Inr x) else insert_walk a h q (length q) (nx x))"
    using x0 compare_key_ok [OF assms(1) n assms(3)] node_fields(3,4) [OF assms(1) n]
    by (subst insert_walk.simps, cases "h = nhash N x"; cases "q = nkey N x") (simp_all add: VL_HASHTABLE_ITER_INVALID_def)
  show ?case
  proof (cases xs)
    case Nil
    then show ?thesis using step x by (auto simp: last_or_def)
  next
    case (Cons y ys)
    then have "nx x = y" "y \<in> dom N" using x(3) Cons.prems by simp_all
    then have "nx x \<noteq> 0" using nodes_bounds(1) [OF assms(1,2)] by blast
    have last: "last_or (x # xs) 0 = last_or xs 0" using \<open>xs = y # ys\<close> by (simp add: last_or_def)
    have IH: "insert_walk a h q (length q) (nx x) =
      (case filter (\<lambda>it. nhash N it = h \<and> nkey N it = q) xs of [] \<Rightarrow> Some (Inr (last_or xs 0)) | it # _ \<Rightarrow> Some (Inl it))"
      using Cons.IH [OF x(3)] Cons.prems(2) by simp
    show ?thesis
    proof (cases "nhash N x = h \<and> nkey N x = q")
      case True
      then show ?thesis using step x(1) by simp
    next
      case False
      then have "insert_walk a h q (length q) i = insert_walk a h q (length q) (nx x)"
        using step x(1) \<open>nx x \<noteq> 0\<close> by auto
      moreover have "filter (\<lambda>it. nhash N it = h \<and> nkey N it = q) (x # xs) = filter (\<lambda>it. nhash N it = h \<and> nkey N it = q) xs"
        using False by simp
      ultimately show ?thesis unfolding last IH by (simp only:)
    qed
  qed
qed

section \<open>Finding\<close>

lemma ht_partsD:
  assumes "ht_parts t M N nx T bk ch k"
  shows "arena_holds (ht_data t) M k" and "nodes_in M N nx" and "buckets (ht_table t) T bk" and "chains N nx T bk ch"
    and "keys_ok (ht_hashFunc t) N" and "ht_totalElements t = card (dom N)" and "0 < T" and "8 * T < 2 ^ 32"
    and "finite (dom N)"
  using assms nodes_finite by (auto simp: ht_parts_def buckets_def)

lemma chainsD:
  assumes "chains N nx T bk ch" and "i < T"
  shows "bucket_chain nx (bk i) (ch i)" and "distinct (ch i)" and "set (ch i) = {it \<in> dom N. nhash N it mod T = i}"
  using assms by (auto simp: chains_def)

text \<open>An equal key has an equal hash, so it is in the bucket of the hash.\<close>

lemma key_bucket:
  assumes "ht_parts t M N nx T bk ch k" and "hf_call (ht_hashFunc t) q (length q) = Some h"
    and "it \<in> dom N" and "nkey N it = q"
  shows "nhash N it = unat h"
proof -
  have "hf_call (ht_hashFunc t) q (length q) = Some (of_nat (nhash N it))"
    using ht_partsD(5) [OF assms(1)] assms(3,4) by (auto simp: keys_ok_def)
  then have "h = of_nat (nhash N it)" using assms(2) by simp
  moreover have "nhash N it < 2 ^ 64"
    using nodes_inD [OF ht_partsD(2) [OF assms(1)] assms(3)] by (simp add: hash_node_def)
  ultimately show ?thesis by (simp add: unat_of_nat)
qed

lemma filter_unique:
  assumes "distinct xs" and "x \<in> set xs" and "P x" and "\<And>y. y \<in> set xs \<Longrightarrow> P y \<Longrightarrow> y = x"
  shows "filter P xs = [x]"
proof -
  obtain A B where xs: "xs = A @ x # B" using split_list [OF assms(2)] by blast
  have none: "\<not> P y" if "y \<in> set A \<union> set B" for y
  proof
    assume "P y"
    moreover have "y \<in> set xs" using that xs by auto
    ultimately have "y = x" using assms(4) by blast
    then show False using that assms(1) xs by auto
  qed
  then have "filter P A = []" "filter P B = []" by (simp_all add: filter_empty_conv)
  then show ?thesis using xs assms(3) by simp
qed

lemma key_unique: "keys_ok hf N \<Longrightarrow> it \<in> dom N \<Longrightarrow> jt \<in> dom N \<Longrightarrow> nkey N it = nkey N jt \<Longrightarrow> it = jt"
  by (auto simp: keys_ok_def inj_on_def)

lemma key_filter:
  assumes rep: "ht_parts t M N nx T bk ch k" and h: "hf_call (ht_hashFunc t) q (length q) = Some h"
    and it: "it \<in> dom N" "nkey N it = q"
  shows "filter (\<lambda>it. nkey N it = q) (ch (unat h mod T)) = [it]"
    and "filter (\<lambda>it. nhash N it = unat h \<and> nkey N it = q) (ch (unat h mod T)) = [it]"
proof -
  have T: "unat h mod T < T" using ht_partsD(7) [OF rep] by simp
  note c = chainsD [OF ht_partsD(4) [OF rep] T]
  have hs: "nhash N it = unat h" by (rule key_bucket [OF rep h it])
  then have mem: "it \<in> set (ch (unat h mod T))" using c(3) it(1) by simp
  have uniq: "y = it" if "y \<in> set (ch (unat h mod T))" "nkey N y = q" for y
  proof (rule key_unique [OF ht_partsD(5) [OF rep] _ it(1)])
    show "y \<in> dom N" using that(1) c(3) by simp
    show "nkey N y = nkey N it" using that(2) it(2) by simp
  qed
  show "filter (\<lambda>it. nkey N it = q) (ch (unat h mod T)) = [it]"
    by (rule filter_unique [OF c(2) mem]) (rule it(2), rule uniq)
  show "filter (\<lambda>it. nhash N it = unat h \<and> nkey N it = q) (ch (unat h mod T)) = [it]"
    by (rule filter_unique [OF c(2) mem]) (use hs it(2) uniq in blast)+
qed

lemma find_parts:
  assumes rep: "ht_parts t M N nx T bk ch k" and q: "None \<notin> set q" and h: "hf_call (ht_hashFunc t) q (length q) = Some h"
  shows "vlHashTableFind t q (length q) = Some (hd_or (filter (\<lambda>it. nkey N it = q) (ch (unat h mod T))) 0)"
proof -
  note r = ht_partsD [OF rep]
  let ?i = "unat h mod T"
  have T: "?i < T" using r(7) by simp
  note c = chainsD [OF r(4) T]
  have "set (ch ?i) \<subseteq> dom N" using c(3) by auto
  then have walk: "find_walk (ht_data t) q (length q) (bk ?i) = Some (hd_or (filter (\<lambda>it. nkey N it = q) (ch ?i)) 0)"
    by (rule find_walk_ok [OF r(1,2) q c(1)])
  have zero: "filter (\<lambda>it. nkey N it = q) (ch ?i) = []" if "bk ?i = 0"
  proof (cases "ch ?i")
    case (Cons x xs)
    then have "x = 0" "x \<in> dom N" using c(1,3) that by auto
    then show ?thesis using nodes_bounds(1) [OF r(1,2)] by blast
  qed simp
  show ?thesis
    using h table_size_ok [OF r(3)] bucket_index_ok [OF r(7,8)] buckets_get [OF r(3) T] walk zero
    by (simp add: vlHashTableFind_def hd_or_def)
qed

lemma ht_find:
  assumes "ht_rep t N T k" and "None \<notin> set q" and "hf_call (ht_hashFunc t) q (length q) \<noteq> None"
  shows "it \<in> dom N \<Longrightarrow> nkey N it = q \<Longrightarrow> vlHashTableFind t q (length q) = Some it"
    and "q \<notin> nkey N ` dom N \<Longrightarrow> vlHashTableFind t q (length q) = Some 0"
proof -
  obtain M nx bk ch h where r: "ht_parts t M N nx T bk ch k" "hf_call (ht_hashFunc t) q (length q) = Some h"
    using assms(1,3) by (auto simp: ht_rep_def)
  show "vlHashTableFind t q (length q) = Some it" if "it \<in> dom N" "nkey N it = q"
    using find_parts [OF r(1) assms(2) r(2)] key_filter(1) [OF r that] by (simp add: hd_or_def)
  show "vlHashTableFind t q (length q) = Some 0" if "q \<notin> nkey N ` dom N"
  proof -
    have "unat h mod T < T" using ht_partsD(7) [OF r(1)] by simp
    from chainsD(3) [OF ht_partsD(4) [OF r(1)] this] have "filter (\<lambda>it. nkey N it = q) (ch (unat h mod T)) = []"
      using that by (auto simp: filter_empty_conv)
    then show ?thesis using find_parts [OF r(1) assms(2) r(2)] by (simp add: hd_or_def)
  qed
qed

section \<open>Adding a node\<close>

lemma node_upd [simp]:
  "nhash (N(p \<mapsto> x)) it = (if it = p then fst x else nhash N it)"
  "nkey (N(p \<mapsto> x)) it = (if it = p then fst (snd x) else nkey N it)"
  "nval (N(p \<mapsto> x)) it = (if it = p then snd (snd x) else nval N it)"
  by (simp_all add: nhash_def nkey_def nval_def)

lemma bucket_chain_cong: "(\<And>x. x \<in> set xs \<Longrightarrow> nx x = nx' x) \<Longrightarrow> bucket_chain nx i xs = bucket_chain nx' i xs"
  by (induction xs arbitrary: i) auto

lemma bucket_chain_upd: "p \<notin> set xs \<Longrightarrow> bucket_chain (nx(p := v)) i xs = bucket_chain nx i xs"
  by (rule bucket_chain_cong) auto

lemma bucket_chain_snoc:
  "bucket_chain nx i (xs @ [l]) \<Longrightarrow> distinct (xs @ [l]) \<Longrightarrow> p \<notin> set (xs @ [l]) \<Longrightarrow>
   bucket_chain (nx(p := 0, l := p)) i ((xs @ [l]) @ [p])"
  by (induction xs arbitrary: i) auto

lemma keys_ok_add:
  assumes "keys_ok hf N" and "hf_call hf q (length q) = Some h" and "q \<notin> nkey N ` dom N" and "p \<notin> dom N"
  shows "keys_ok hf (N(p \<mapsto> (unat h, q, vs)))"
proof -
  have "nkey (N(p \<mapsto> (unat h, q, vs))) ` (dom N) = nkey N ` dom N" using assms(4) by (intro image_cong) auto
  moreover have "inj_on (nkey (N(p \<mapsto> (unat h, q, vs)))) (dom N)"
    using assms(1,4) by (auto simp: keys_ok_def inj_on_def)
  ultimately have "inj_on (nkey (N(p \<mapsto> (unat h, q, vs)))) (insert p (dom N))"
    using assms(3,4) by simp
  then show ?thesis using assms(1,2) by (auto simp: keys_ok_def)
qed

text \<open>There is always a number for one more element: the iterators are at least 8 and below \<open>2 ^ 32\<close>.\<close>

lemma nodes_count:
  assumes "arena_holds a M k" and "nodes_in M N nx"
  shows "card (dom N) + 1 < 2 ^ 32"
proof -
  have "dom N \<subseteq> {8..<2 ^ 32}"
  proof
    fix x assume "x \<in> dom N"
    then show "x \<in> {8..<2 ^ 32}" using nodes_bounds [OF assms, of x] by simp
  qed
  from card_mono [OF _ this] show ?thesis by simp
qed

lemma nodes_in_add:
  assumes "nodes_in M N nx" and "hash_node (M(p \<mapsto> bs)) p h nx' q vs" and "p \<notin> dom N"
  shows "nodes_in (M(p \<mapsto> bs)) (N(p \<mapsto> (h, q, vs))) (nx(p := nx'))"
  using assms by (auto simp: nodes_in_def hash_node_other)

lemma nodes_in_relink:
  assumes "nodes_in M N nx" and "l \<in> dom N" and "hash_node (M(l \<mapsto> bs)) l (nhash N l) v (nkey N l) (nval N l)"
  shows "nodes_in (M(l \<mapsto> bs)) N (nx(l := v))"
  using assms by (auto simp: nodes_in_def hash_node_other)

lemma chains_add:
  assumes "chains N nx T bk ch" and "p \<notin> dom N" and "i < T" and "h mod T = i" and "p = bk' \<and> ch i = [] \<or> bk' = bk i \<and> ch i \<noteq> []"
  shows "chains (N(p \<mapsto> (h, x))) (if ch i = [] then nx(p := 0) else nx(p := 0, last (ch i) := p)) T (bk(i := bk')) (ch(i := ch i @ [p]))"
  unfolding chains_def
proof (intro allI impI)
  fix j assume j: "j < T"
  note cj = chainsD [OF assms(1) j] and ci = chainsD [OF assms(1,3)]
  let ?nx = "if ch i = [] then nx(p := 0) else nx(p := 0, last (ch i) := p)"
  let ?N = "N(p \<mapsto> (h, x))"
  have p: "p \<notin> set (ch j)" "p \<notin> set (ch i)" using cj(3) ci(3) assms(2) by auto
  show "bucket_chain ?nx ((bk(i := bk')) j) ((ch(i := ch i @ [p])) j) \<and> distinct ((ch(i := ch i @ [p])) j) \<and>
    set ((ch(i := ch i @ [p])) j) = {it \<in> dom ?N. nhash ?N it mod T = j}"
  proof (cases "j = i")
    case True
    have ch: "bucket_chain ?nx bk' (ch i @ [p])"
    proof (cases "ch i = []")
      case True
      then show ?thesis using assms(5) by simp
    next
      case False
      then obtain ys l where ys: "ch i = ys @ [l]" by (cases "ch i" rule: rev_cases) auto
      have "bucket_chain nx bk' (ys @ [l])" "distinct (ys @ [l])" "p \<notin> set (ys @ [l])" using ci(1,2) assms(5) p(2) False ys by simp_all
      from bucket_chain_snoc [OF this] show ?thesis using False ys by simp
    qed
    have "set (ch i @ [p]) = {it \<in> dom ?N. nhash ?N it mod T = i}" using ci(3) assms(2,4) by auto
    then show ?thesis using True ch ci(2) p(2) by simp
  next
    case False
    have "last (ch i) \<notin> set (ch j)" if "ch i \<noteq> []"
      using last_in_set [OF that] ci(3) cj(3) False by auto
    then have "bucket_chain ?nx (bk j) (ch j)" using cj(1) p(1) by (simp add: bucket_chain_upd)
    moreover have "set (ch j) = {it \<in> dom ?N. nhash ?N it mod T = j}" using cj(3) assms(2,4) False by auto
    ultimately show ?thesis using cj(2) False by simp
  qed
qed

lemma append_node_ok:
  assumes rep: "ht_parts t M N nx T bk ch (Suc k)" and hc: "hf_call (ht_hashFunc t) q (length q) = Some h"
    and q: "None \<notin> set q" "length q < 2 ^ 16" "q \<notin> nkey N ` dom N" and d: "d < 2 ^ 16"
    and al: "alloc_upto al limit" and fit: "arena_fits limit (ht_data t) (HASHTABLE_HEADER_SIZE + length q + d)"
    and i: "i = unat h mod T"
  obtains p t' vs where
    "append_node al t i (last_or (ch i) 0) (unat h) q (length q) d (HASHTABLE_HEADER_SIZE + length q + d) = Some (p, t')"
    "p \<notin> dom N" "length vs = d" "ht_rep t' (N(p \<mapsto> (unat h, q, vs))) T k" "ht_hashFunc t' = ht_hashFunc t"
    "vlArenaTotalCapacity (ht_data t') \<le>
       2 * (HASHTABLE_HEADER_SIZE + length q + d + BLOCK_HEADER_SIZE + vlArenaTotalCapacity (ht_data t))"
proof -
  note r = ht_partsD [OF rep]
  have hash: "unat h < 2 ^ 64" using unsigned_less [of h] by simp
  obtain p a1 a2 a3 bs vs where a: "vlArenaMemAlloc al (ht_data t) (HASHTABLE_HEADER_SIZE + length q + d) = Some (p, a1)"
    "store_header a1 p \<lparr>hh_keySize = length q, hh_valSize = d, hh_keyHash = unat h, hh_next = 0\<rparr> = Some a2"
    "vlArenaMemStore a2 (p + HASHTABLE_HEADER_SIZE) q = Some a3" "M p = None" "length vs = d"
    "arena_holds a3 (M(p \<mapsto> bs)) k" "hash_node (M(p \<mapsto> bs)) p (unat h) 0 q vs"
    "vlArenaTotalCapacity a3 \<le> 2 * (HASHTABLE_HEADER_SIZE + length q + d + BLOCK_HEADER_SIZE + vlArenaTotalCapacity (ht_data t))"
    by (rule new_node_ok [OF r(1) al fit q(2,1) d hash])
  let ?N = "N(p \<mapsto> (unat h, q, vs))"
  have dom: "dom M = dom N" using r(2) by (simp add: nodes_in_def)
  then have pN: "p \<notin> dom N" using a(4) by auto
  have iT: "i < T" using i r(7) by simp
  note ci = chainsD [OF r(4) iT]
  have n1: "nodes_in (M(p \<mapsto> bs)) ?N (nx(p := 0))" by (rule nodes_in_add [OF r(2) a(7) pN])
  have keys: "keys_ok (ht_hashFunc t) ?N" by (rule keys_ok_add [OF r(5) hc q(3) pN])
  have "card (dom N) + 1 < 2 ^ 32" by (rule nodes_count [OF r(1,2)])
  then have cnt: "inc32 (ht_totalElements t) = card (dom ?N)" using r(6,9) pN by (simp add: inc32_def u32_of_id)
  have pb: "0 < p" "p < 2 ^ 32" using arena_ptr_bounds [OF a(6), of p bs] by simp_all
  have u: "u16_of (length q) = length q" "u16_of d = d" using q(2) d by (simp_all add: u16_of_id)
  have rr: "read_range q 0 (length q) = Some q" by (simp add: read_range_def)
  show thesis
  proof (cases "ch i = []")
    case True
    have "p < 2 ^ 64" using pb by simp
    then obtain m' where m': "bucket_put (ht_table t) i p = Some m'" "buckets (Some m') T (bk(i := p))"
      by (rule buckets_put [OF r(3) iT])
    let ?t = "t\<lparr>ht_totalElements := inc32 (ht_totalElements t), ht_data := a3, ht_table := Some m'\<rparr>"
    have run: "append_node al t i (last_or (ch i) 0) (unat h) q (length q) d (HASHTABLE_HEADER_SIZE + length q + d) = Some (p, ?t)"
      using a(1-3) m'(1) True u rr by (simp add: append_node_def VL_HASHTABLE_ITER_INVALID_def)
    have "chains ?N (nx(p := 0)) T (bk(i := p)) (ch(i := ch i @ [p]))"
      using chains_add [OF r(4) pN iT i [symmetric], of p "(q, vs)"] True by simp
    then have "ht_parts ?t (M(p \<mapsto> bs)) ?N (nx(p := 0)) T (bk(i := p)) (ch(i := ch i @ [p])) k"
      using a(6) n1 m'(2) keys cnt by (simp add: ht_parts_def)
    then show thesis using that [OF run pN a(5)] a(8) unfolding ht_rep_def by auto
  next
    case False
    let ?l = "last (ch i)"
    have l: "?l \<in> dom N" using last_in_set [OF False] ci(3) by auto
    then have lp: "?l \<noteq> p" using pN by auto
    have l0: "?l \<noteq> 0" using nodes_bounds(1) [OF r(1,2) l] by simp
    have na: "hash_node (M(p \<mapsto> bs)) ?l (nhash N ?l) (nx ?l) (nkey N ?l) (nval N ?l)"
      using nodes_inD [OF r(2) l] hash_node_other [OF lp] by simp
    have "p < 2 ^ 64" using pb by simp
    then obtain a4 bs' where a4: "store_next a3 ?l p = Some a4" "arena_holds a4 (M(p \<mapsto> bs, ?l \<mapsto> bs')) k"
      "hash_node (M(p \<mapsto> bs, ?l \<mapsto> bs')) ?l (nhash N ?l) p (nkey N ?l) (nval N ?l)" "vlArenaTotalCapacity a4 = vlArenaTotalCapacity a3"
      by (rule store_next_ok [OF a(6) na])
    let ?t = "t\<lparr>ht_totalElements := inc32 (ht_totalElements t), ht_data := a4\<rparr>"
    have run: "append_node al t i (last_or (ch i) 0) (unat h) q (length q) d (HASHTABLE_HEADER_SIZE + length q + d) = Some (p, ?t)"
      using a(1-3) a4(1) False u rr l0 by (simp add: append_node_def VL_HASHTABLE_ITER_INVALID_def last_or_def)
    have n2: "nodes_in (M(p \<mapsto> bs, ?l \<mapsto> bs')) ?N (nx(p := 0, ?l := p))"
      by (rule nodes_in_relink [OF n1]) (use l lp a4(3) in simp_all)
    have "chains ?N (nx(p := 0, ?l := p)) T bk (ch(i := ch i @ [p]))"
      using chains_add [OF r(4) pN iT i [symmetric], of "bk i" "(q, vs)"] False by simp
    then have "ht_parts ?t (M(p \<mapsto> bs, ?l \<mapsto> bs')) ?N (nx(p := 0, ?l := p)) T bk (ch(i := ch i @ [p])) k"
      using a4(2) n2 r(3) keys cnt by (simp add: ht_parts_def)
    then show thesis using that [OF run pN a(5)] a(8) a4(4) unfolding ht_rep_def by auto
  qed
qed

section \<open>Growing\<close>

lemma chains_cons:
  assumes "chains (N |` S) nx T bk ch" and "v \<in> dom N" and "v \<notin> S" and "i < T" and "nhash N v mod T = i"
  shows "chains (N |` insert v S) (nx(v := bk i)) T (bk(i := v)) (ch(i := v # ch i))"
  unfolding chains_def
proof (intro allI impI)
  fix j assume j: "j < T"
  note cj = chainsD [OF assms(1) j] and ci = chainsD [OF assms(1,4)]
  have v: "v \<notin> set (ch j)" "v \<notin> set (ch i)" using cj(3) ci(3) assms(3) by auto
  have restrict: "{it \<in> dom (N |` R). nhash (N |` R) it mod T = j} = {it \<in> dom N \<inter> R. nhash N it mod T = j}" for R
    by (auto simp: nhash_def restrict_map_def split: if_splits)
  show "bucket_chain (nx(v := bk i)) ((bk(i := v)) j) ((ch(i := v # ch i)) j) \<and> distinct ((ch(i := v # ch i)) j) \<and>
    set ((ch(i := v # ch i)) j) = {it \<in> dom (N |` insert v S). nhash (N |` insert v S) it mod T = j}"
  proof (cases "j = i")
    case True
    then show ?thesis using ci(1,2) v assms(2,5) cj(3) unfolding restrict by (auto simp: bucket_chain_upd)
  next
    case False
    then show ?thesis using cj(1,2) v assms(2,5) cj(3) unfolding restrict by (auto simp: bucket_chain_upd)
  qed
qed

lemma bucket_chain_head: "bucket_chain nx i xs \<Longrightarrow> i = hd_or xs 0"
  by (cases xs) simp_all

lemma ptrs_set: "arena_holds a M k \<Longrightarrow> nodes_in M N nx \<Longrightarrow> set (ptrs M) = dom N"
  using nodes_finite [of a M k N nx] by (simp add: ptrs_def nodes_in_def)

lemma rebuild_loop_ok:
  assumes "ptrs M = us @ vs" and "arena_holds (ht_data t) M k" and "nodes_in M N nx" and "buckets (ht_table t) T bk"
    and "chains (N |` set us) nx T bk ch"
  shows "\<exists>a dat M' nx' bk' ch'. rebuild_loop T t (hd_or vs 0) = Some (t\<lparr>ht_data := a, ht_table := dat\<rparr>) \<and>
    arena_holds a M' k \<and> nodes_in M' N nx' \<and> buckets dat T bk' \<and> chains N nx' T bk' ch' \<and>
    vlArenaTotalCapacity a = vlArenaTotalCapacity (ht_data t)"
  using assms
proof (induction vs arbitrary: us t M nx bk ch)
  case Nil
  have "set us = dom N" using ptrs_set [OF Nil.prems(2,3)] Nil.prems(1) by simp
  then have "(N |` set us) x = N x" for x by (cases "N x") (auto simp: restrict_map_def)
  then have "N |` set us = N" by (rule ext)
  then have "chains N nx T bk ch" using Nil.prems(5) by simp
  moreover have "rebuild_loop T t (hd_or [] 0) = Some (t\<lparr>ht_data := ht_data t, ht_table := ht_table t\<rparr>)"
    by (simp add: rebuild_loop.simps [of T t 0] VL_HASHTABLE_ITER_INVALID_def)
  ultimately show ?case using Nil.prems(2-4) by blast
next
  case (Cons v vs)
  note holds = Cons.prems(2) and nodes = Cons.prems(3) and bks = Cons.prems(4) and chs = Cons.prems(5)
  have dom: "dom M = dom N" using nodes by (simp add: nodes_in_def)
  have set: "set (us @ v # vs) = dom N" using ptrs_set [OF holds nodes] Cons.prems(1) by simp
  have dist: "distinct (us @ v # vs)" using Cons.prems(1) by (metis ptrs_def distinct_sorted_list_of_set)
  have v: "v \<in> dom N" "v \<notin> set us" using set dist by auto
  have v0: "v \<noteq> 0" "v < 2 ^ 64" using nodes_bounds [OF holds nodes v(1)] by auto
  let ?i = "nhash N v mod T"
  have T: "0 < T" using bks by (simp add: buckets_def)
  have i: "?i < T" using T by simp
  note n = nodes_inD [OF nodes v(1)]
  have "bk ?i = hd_or (ch ?i) 0" by (rule bucket_chain_head [OF chainsD(1) [OF chs i]])
  moreover have "set (ch ?i) \<subseteq> dom N" unfolding chainsD(3) [OF chs i] by (auto simp only: dom_restrict)
  ultimately have "bk ?i = 0 \<or> bk ?i \<in> dom N" by (cases "ch ?i") (simp_all del: domIff)
  then have "bk ?i < 2 ^ 64"
  proof
    assume "bk ?i \<in> dom N"
    from nodes_bounds(2) [OF holds nodes this] show ?thesis by simp
  qed simp
  then obtain a bs where a: "store_next (ht_data t) v (bk ?i) = Some a" "arena_holds a (M(v \<mapsto> bs)) k"
    "hash_node (M(v \<mapsto> bs)) v (nhash N v) (bk ?i) (nkey N v) (nval N v)" "vlArenaTotalCapacity a = vlArenaTotalCapacity (ht_data t)"
    by (rule store_next_ok [OF holds n])
  obtain m where m: "bucket_put (ht_table t) ?i v = Some m" "buckets (Some m) T (bk(?i := v))"
    by (rule buckets_put [OF bks i v0(2)])
  let ?t = "t\<lparr>ht_data := a, ht_table := Some m\<rparr>"
  have "dom (M(v \<mapsto> bs)) = dom M" using v(1) dom by auto
  then have p: "ptrs (M(v \<mapsto> bs)) = us @ v # vs" using Cons.prems(1) unfolding ptrs_def by simp
  have a2: "arena_holds (ht_data ?t) (M(v \<mapsto> bs)) k" using a(2) by simp
  have m2: "buckets (ht_table ?t) T (bk(?i := v))" using m(2) by simp
  have nb: "vlHashTableNext ?t v = Some (hd_or vs 0)" by (rule next_block [OF a2 p])
  have step: "rebuild_loop T t v = rebuild_loop T ?t (hd_or vs 0)"
    using v0(1) node_fields(3) [OF holds n] T buckets_get [OF bks i] a(1) m(1) nb
    by (subst rebuild_loop.simps) (simp add: VL_HASHTABLE_ITER_INVALID_def)
  have n': "nodes_in (M(v \<mapsto> bs)) N (nx(v := bk ?i))" by (rule nodes_in_relink [OF nodes v(1) a(3)])
  have c': "chains (N |` set (us @ [v])) (nx(v := bk ?i)) T (bk(?i := v)) (ch(?i := v # ch ?i))"
    using chains_cons [OF chs v i refl] by simp
  have p': "ptrs (M(v \<mapsto> bs)) = (us @ [v]) @ vs" using p by simp
  obtain a' dat M' nx' bk' ch' where "rebuild_loop T ?t (hd_or vs 0) = Some (?t\<lparr>ht_data := a', ht_table := dat\<rparr>)"
    "arena_holds a' M' k" "nodes_in M' N nx'" "buckets dat T bk'" "chains N nx' T bk' ch'"
    "vlArenaTotalCapacity a' = vlArenaTotalCapacity (ht_data ?t)"
    using Cons.IH [OF p' a2 n' m2 c'] by blast
  then show ?case using step a(4) by fastforce
qed

text \<open>A table without elements in its chains, and no node visited.\<close>

lemma chains_empty: "chains (N |` {}) nx T (\<lambda>_. 0) (\<lambda>_. [])"
  by (simp add: chains_def)

lemma grow_ok:
  assumes rep: "ht_parts t M N nx T bk ch k" and al: "alloc_upto al limit" and fit: "16 * T + MEMORY_HEADER_SIZE < limit" "limit < 2 ^ 32"
  obtains t' where "vl_HashTableGrow al t = Some (2 * T, t')" "ht_rep t' N (2 * T) k" "ht_hashFunc t' = ht_hashFunc t"
    "vlArenaTotalCapacity (ht_data t') = vlArenaTotalCapacity (ht_data t)" "ht_totalElements t' = ht_totalElements t"
proof -
  note r = ht_partsD [OF rep]
  obtain m where m: "ht_table t = Some m" "mem_inv m" "mh_alignment (mem_header m) = VL_DEFAULT_ALIGN" "mh_length (mem_header m) = 8 * T"
    by (rule bucketsE [OF r(3)]) blast
  let ?n = "8 * (2 * T)"
  have n: "u64_of (vlMemSize (ht_table t) * 2) = ?n" using buckets_size [OF r(3)] r(8) by (simp add: u64_of_id)
  have realloc: "realloc_at al (mem_origin m) (?n + MEMORY_HEADER_SIZE) \<noteq> None"
    using al fit(1) by (simp add: alloc_upto_def)
  obtain m1 where m1: "vlMemRealloc al (Some m) ?n = Some (Some m1)" "mem_inv m1" "mh_length (mem_header m1) = ?n"
    "mh_alignment (mem_header m1) = mh_alignment (mem_header m)"
    using mem_realloc_inv [of al m ?n] al m realloc fit by (auto simp: alloc_upto_def VL_DEFAULT_ALIGN_def MEMORY_HEADER_SIZE_def)
  have T2: "0 < 2 * T" "8 * (2 * T) < 2 ^ 32" using r(7) fit by simp_all
  have al1: "mh_alignment (mem_header m1) = VL_DEFAULT_ALIGN" using m1(4) m(3) by simp
  obtain m2 where m2: "mem_write (Some m1) 0 (replicate (8 * (2 * T)) (Some 0)) = Some m2" "buckets (Some m2) (2 * T) (\<lambda>_. 0)"
    by (rule buckets_clear [OF m1(2) al1 m1(3) T2]) blast
  let ?t = "t\<lparr>ht_table := Some m2\<rparr>"
  have holds: "arena_holds (ht_data ?t) M k" using r(1) by simp
  have front: "vlHashTableFront ?t = Some (hd_or (ptrs M) 0)" by (rule front_block [OF holds])
  have start: "ptrs M = [] @ ptrs M" "buckets (ht_table ?t) (2 * T) (\<lambda>_. 0)" "chains (N |` set []) nx (2 * T) (\<lambda>_. 0) (\<lambda>_. [])"
    using m2(2) chains_empty by simp_all
  obtain a dat M' nx' bk' ch' where re: "rebuild_loop (2 * T) ?t (hd_or (ptrs M) 0) = Some (?t\<lparr>ht_data := a, ht_table := dat\<rparr>)"
    "arena_holds a M' k" "nodes_in M' N nx'" "buckets dat (2 * T) bk'" "chains N nx' (2 * T) bk' ch'"
    "vlArenaTotalCapacity a = vlArenaTotalCapacity (ht_data ?t)"
    using rebuild_loop_ok [OF start(1) holds r(2) start(2,3)] by blast
  let ?t' = "?t\<lparr>ht_data := a, ht_table := dat\<rparr>"
  have "vl_HashTableGrow al t = Some (2 * T, ?t')"
    using m(1) m1(1) m2(1) front re(1) n by (simp add: vl_HashTableGrow_def Let_def)
  moreover have "ht_parts ?t' M' N nx' (2 * T) bk' ch' k" using re r(5,6) by (simp add: ht_parts_def)
  ultimately show thesis using that [of ?t'] re(6) unfolding ht_rep_def by auto
qed

definition room :: "nat \<Rightarrow> nat \<Rightarrow> nat" where
  "room n T = (if 4 * T \<le> 5 * (n + 1) then 2 * T else T)"

text \<open>Room for one more element, in a table of which less than a part of 0.8 is used.\<close>

lemma make_room_ok:
  assumes rep: "ht_rep t N T k" and al: "alloc_upto al limit" and fit: "16 * T + MEMORY_HEADER_SIZE < limit" "limit < 2 ^ 32"
  obtains t' where "make_room al t = Some (room (card (dom N)) T, t')" "ht_rep t' N (room (card (dom N)) T) k"
    "ht_hashFunc t' = ht_hashFunc t" "vlArenaTotalCapacity (ht_data t') = vlArenaTotalCapacity (ht_data t)"
proof -
  obtain M nx bk ch where parts: "ht_parts t M N nx T bk ch k" using rep by (auto simp: ht_rep_def)
  note r = ht_partsD [OF parts]
  have cnt: "inc32 (ht_totalElements t) = card (dom N) + 1" using r(6) nodes_count [OF r(1,2)] by (simp add: inc32_def u32_of_id)
  have ts: "table_size t = T" by (rule table_size_ok [OF r(3)])
  obtain t' where t': "vl_HashTableGrow al t = Some (2 * T, t')" "ht_rep t' N (2 * T) k" "ht_hashFunc t' = ht_hashFunc t"
    "vlArenaTotalCapacity (ht_data t') = vlArenaTotalCapacity (ht_data t)"
    by (rule grow_ok [OF parts al fit]) blast
  have u: "u32_of (2 * T) = 2 * T" using fit by (simp add: u32_of_id)
  show thesis
  proof (cases "4 * T \<le> 5 * (card (dom N) + 1)")
    case True
    then have "make_room al t = Some (2 * T, t')" using t'(1) cnt ts u by (simp add: make_room_def must_grow_def)
    then show thesis using that [of t'] t' True by (simp add: room_def)
  next
    case False
    then have "make_room al t = Some (T, t)" using cnt ts by (simp add: make_room_def must_grow_def)
    then show thesis using that [of t] rep False by (simp add: room_def)
  qed
qed

section \<open>Inserting\<close>

lemma insert_bucket:
  assumes rep: "ht_parts t M N nx T bk ch k" and q: "None \<notin> set q" and i: "i = unat h mod T"
  shows "bucket_index (unat h) T = Some i" and "bucket_get (ht_table t) i = Some (bk i)"
    and "insert_walk (ht_data t) (unat h) q (length q) (bk i) =
      (case filter (\<lambda>it. nhash N it = unat h \<and> nkey N it = q) (ch i) of [] \<Rightarrow> Some (Inr (last_or (ch i) 0)) | it # _ \<Rightarrow> Some (Inl it))"
proof -
  note r = ht_partsD [OF rep]
  have iT: "i < T" using i r(7) by simp
  note c = chainsD [OF r(4) iT]
  show "bucket_index (unat h) T = Some i" unfolding i by (rule bucket_index_ok [OF r(7,8)])
  show "bucket_get (ht_table t) i = Some (bk i)" by (rule buckets_get [OF r(3) iT])
  show "insert_walk (ht_data t) (unat h) q (length q) (bk i) =
      (case filter (\<lambda>it. nhash N it = unat h \<and> nkey N it = q) (ch i) of [] \<Rightarrow> Some (Inr (last_or (ch i) 0)) | it # _ \<Rightarrow> Some (Inl it))"
    by (rule insert_walk_ok [OF r(1,2) q c(1)]) (use c(3) in auto)
qed

definition ht_fits :: "nat \<Rightarrow> vl_hashtable \<Rightarrow> nat \<Rightarrow> nat \<Rightarrow> bool" where
  "ht_fits limit t T n \<longleftrightarrow> arena_fits limit (ht_data t) (HASHTABLE_HEADER_SIZE + n) \<and> 16 * T + MEMORY_HEADER_SIZE < limit"

lemma ht_insert_new:
  assumes rep: "ht_rep t N T (Suc k)" and hc: "hf_call (ht_hashFunc t) q (length q) = Some h"
    and q: "None \<notin> set q" "length q < 2 ^ 16" "q \<notin> nkey N ` dom N" and d: "d < 2 ^ 16"
    and al: "alloc_upto al limit" and fit: "ht_fits limit t T (length q + d)"
  obtains p t' vs where "vlHashTableInsert al t q (length q) d = Some (p, t')" "p \<notin> dom N" "length vs = d"
    "ht_rep t' (N(p \<mapsto> (unat h, q, vs))) (room (card (dom N)) T) k" "ht_hashFunc t' = ht_hashFunc t"
    "vlArenaTotalCapacity (ht_data t') \<le>
       2 * (HASHTABLE_HEADER_SIZE + length q + d + BLOCK_HEADER_SIZE + vlArenaTotalCapacity (ht_data t))"
proof -
  let ?T = "room (card (dom N)) T"
  have fits: "arena_fits limit (ht_data t) (HASHTABLE_HEADER_SIZE + length q + d)" "16 * T + MEMORY_HEADER_SIZE < limit" "limit < 2 ^ 32"
    using fit by (simp_all add: ht_fits_def arena_fits_def add.assoc)
  obtain t1 where t1: "make_room al t = Some (?T, t1)" "ht_rep t1 N ?T (Suc k)" "ht_hashFunc t1 = ht_hashFunc t"
    "vlArenaTotalCapacity (ht_data t1) = vlArenaTotalCapacity (ht_data t)"
    by (rule make_room_ok [OF rep al fits(2,3)])
  obtain M nx bk ch where parts: "ht_parts t1 M N nx ?T bk ch (Suc k)" using t1(2) by (auto simp: ht_rep_def)
  note r = ht_partsD [OF parts]
  let ?i = "unat h mod ?T"
  note b = insert_bucket [OF parts q(1) refl, of h]
  have "?i < ?T" using r(7) by simp
  from chainsD(3) [OF r(4) this] have "filter (\<lambda>it. nhash N it = unat h \<and> nkey N it = q) (ch ?i) = []"
    using q(3) by (auto simp: filter_empty_conv)
  then have walk: "insert_walk (ht_data t1) (unat h) q (length q) (bk ?i) = Some (Inr (last_or (ch ?i) 0))" using b(3) by simp
  have hc1: "hf_call (ht_hashFunc t1) q (length q) = Some h" using hc t1(3) by simp
  have fit1: "arena_fits limit (ht_data t1) (HASHTABLE_HEADER_SIZE + length q + d)" using fits(1) t1(4) by (simp add: arena_fits_def)
  obtain p t' vs where a:
    "append_node al t1 ?i (last_or (ch ?i) 0) (unat h) q (length q) d (HASHTABLE_HEADER_SIZE + length q + d) = Some (p, t')"
    "p \<notin> dom N" "length vs = d" "ht_rep t' (N(p \<mapsto> (unat h, q, vs))) ?T k" "ht_hashFunc t' = ht_hashFunc t1"
    "vlArenaTotalCapacity (ht_data t') \<le>
       2 * (HASHTABLE_HEADER_SIZE + length q + d + BLOCK_HEADER_SIZE + vlArenaTotalCapacity (ht_data t1))"
    by (rule append_node_ok [OF parts hc1 q d al fit1 refl])
  have "u64_of (HASHTABLE_HEADER_SIZE + length q + d) = HASHTABLE_HEADER_SIZE + length q + d"
    using q(2) d by (simp add: u64_of_id HASHTABLE_HEADER_SIZE_def)
  then have "vlHashTableInsert al t q (length q) d = Some (p, t')"
    using hc t1(1) b(1,2) walk a(1) by (simp add: vlHashTableInsert_def Let_def)
  then show thesis by (rule that) (use a t1 in simp_all)
qed

text \<open>An equal key with a value of the same size: its node.\<close>

lemma ht_insert_same:
  assumes rep: "ht_rep t N T k" and hc: "hf_call (ht_hashFunc t) q (length q) = Some h"
    and it: "it \<in> dom N" "nkey N it = q" "length (nval N it) = d"
    and al: "alloc_upto al limit" and fit: "ht_fits limit t T (length q + d)"
  obtains t' where "vlHashTableInsert al t q (length q) d = Some (it, t')" "ht_rep t' N (room (card (dom N)) T) k"
    "ht_hashFunc t' = ht_hashFunc t"
proof -
  let ?T = "room (card (dom N)) T"
  have fits: "16 * T + MEMORY_HEADER_SIZE < limit" "limit < 2 ^ 32"
    using fit by (simp_all add: ht_fits_def arena_fits_def)
  obtain t1 where t1: "make_room al t = Some (?T, t1)" "ht_rep t1 N ?T k" "ht_hashFunc t1 = ht_hashFunc t"
    by (rule make_room_ok [OF rep al fits]) blast
  obtain M nx bk ch where parts: "ht_parts t1 M N nx ?T bk ch k" using t1(2) by (auto simp: ht_rep_def)
  note r = ht_partsD [OF parts]
  let ?i = "unat h mod ?T"
  have hc1: "hf_call (ht_hashFunc t1) q (length q) = Some h" using hc t1(3) by simp
  note node = nodes_inD [OF r(2) it(1)]
  have q: "None \<notin> set q" using node it(2) by (simp add: hash_node_def)
  note b = insert_bucket [OF parts q refl, of h]
  have iT: "?i < ?T" using r(7) by simp
  have walk: "insert_walk (ht_data t1) (unat h) q (length q) (bk ?i) = Some (Inl it)"
    using b(3) key_filter(2) [OF parts hc1 it(1,2)] by simp
  have vs: "node_valSize (ht_data t1) it = Some d" using node_fields(2) [OF r(1) node] it(3) by simp
  have "it < 2 ^ 64" using nodes_bounds(2) [OF r(1,2) it(1)] by simp
  then obtain m where m: "bucket_put (ht_table t1) ?i it = Some m" "buckets (Some m) ?T (bk(?i := it))"
    by (rule buckets_put [OF r(3) iT])
  let ?t' = "if it = bk ?i then t1\<lparr>ht_table := Some m\<rparr> else t1"
  have "ht_parts ?t' M N nx ?T bk ch k"
    using parts m(2) by (auto simp: ht_parts_def fun_upd_idem)
  then have rep': "ht_rep ?t' N ?T k" unfolding ht_rep_def by blast
  have "vlHashTableInsert al t q (length q) d = Some (it, ?t')"
    using hc t1(1) b(1,2) walk vs m(1)
    by (cases "it = bk ?i") (simp_all add: vlHashTableInsert_def replace_node_def Let_def)
  then show thesis by (rule that) (use rep' t1(3) in simp_all)
qed

section \<open>Values\<close>

lemma ht_sample:
  assumes "ht_rep t N T k" and "it \<in> dom N"
  shows "vlHashTableSampleKey t it = Some (nkey N it)" and "vlHashTableSampleValue t it = Some (nval N it)"
proof -
  obtain M nx bk ch where parts: "ht_parts t M N nx T bk ch k" using assms(1) by (auto simp: ht_rep_def)
  note r = ht_partsD [OF parts]
  note f = node_fields [OF r(1) nodes_inD [OF r(2) assms(2)]]
  show "vlHashTableSampleKey t it = Some (nkey N it)" using f(1,5) by (simp add: vlHashTableSampleKey_def)
  show "vlHashTableSampleValue t it = Some (nval N it)" using f(1,2,6) by (simp add: vlHashTableSampleValue_def value_offset_def)
qed

lemma ht_store_value:
  assumes rep: "ht_rep t N T k" and it: "N it = Some (h, q, vs)" and len: "length ws = length vs"
  obtains t' where "hashtable_store_value t it ws = Some t'" "ht_rep t' (N(it \<mapsto> (h, q, ws))) T k" "ht_hashFunc t' = ht_hashFunc t"
    "vlArenaTotalCapacity (ht_data t') = vlArenaTotalCapacity (ht_data t)"
proof -
  obtain M nx bk ch where parts: "ht_parts t M N nx T bk ch k" using rep by (auto simp: ht_rep_def)
  note r = ht_partsD [OF parts]
  have dom: "it \<in> dom N" using it by blast
  note node = nodes_inD [OF r(2) dom, unfolded node_parts [of N it h q vs, OF it]]
  let ?N = "N(it \<mapsto> (h, q, ws))"
  obtain pad where pad: "length pad = 4" "M it = Some (node_bytes pad h (nx it) q vs)" using node by (auto simp: hash_node_def)
  let ?A = "nat_bytes 2 (length q) @ nat_bytes 2 (length vs) @ pad @ nat_bytes 8 h @ nat_bytes 8 (nx it) @ q"
  have M: "M it = Some (?A @ vs @ [])" using pad(2) by (simp add: node_bytes_def)
  obtain a where a: "vlArenaMemStore (ht_data t) (it + length ?A) ws = Some a" "arena_holds a (M(it \<mapsto> ?A @ ws @ [])) k"
    "vlArenaTotalCapacity a = vlArenaTotalCapacity (ht_data t)"
    by (rule arena_holds_poke [OF r(1) M len])
  have eq: "?A @ ws @ [] = node_bytes pad h (nx it) q ws" using len by (simp add: node_bytes_def)
  have run: "hashtable_store_value t it ws = Some (t\<lparr>ht_data := a\<rparr>)"
    using a(1) node_fields(1) [OF r(1) node] pad(1)
    by (simp add: hashtable_store_value_def value_offset_def HASHTABLE_HEADER_SIZE_def add.assoc)
  have same: "nhash ?N x = nhash N x" "nkey ?N x = nkey N x" for x using it by simp_all
  have na: "hash_node (M(it \<mapsto> node_bytes pad h (nx it) q ws)) it h (nx it) q ws" using node pad(1) len by (auto simp: hash_node_def)
  have nodes: "nodes_in (M(it \<mapsto> node_bytes pad h (nx it) q ws)) ?N nx"
    using r(2) na dom by (auto simp: nodes_in_def hash_node_other)
  have doms: "dom ?N = dom N" using dom by auto
  have ch: "chains ?N nx T bk ch" using r(4) doms by (simp only: chains_def same)
  have keys: "keys_ok (ht_hashFunc t) ?N"
    using r(5) doms same by (simp add: keys_ok_def inj_on_def)
  have "ht_parts (t\<lparr>ht_data := a\<rparr>) (M(it \<mapsto> node_bytes pad h (nx it) q ws)) ?N nx T bk ch k"
    using a(2) eq nodes ch keys r(3,6) doms by (simp add: ht_parts_def)
  then show thesis using that [OF run] a(3) by (auto simp: ht_rep_def)
qed

end
