(* ===== verification/VL_HashApi.thy ===== *)
theory VL_HashApi
  imports VL_HashSpec
begin

text \<open>
  The hash table of \<^verbatim>\<open>src/core/vl_hashtable.c\<close> as a map: removing elements, what its functions
  promise to a client, and what they do outside of that.
\<close>

section \<open>Removing\<close>

lemma node_del [simp]:
  "it \<noteq> p \<Longrightarrow> nhash (N(p := None)) it = nhash N it" "it \<noteq> p \<Longrightarrow> nkey (N(p := None)) it = nkey N it"
  "it \<noteq> p \<Longrightarrow> nval (N(p := None)) it = nval N it"
  by (simp_all add: nhash_def nkey_def nval_def)

lemma find_before_ok:
  assumes "arena_holds a M k" and "nodes_in M N nx"
    and "bucket_chain nx x (x # xs @ it # ys)" and "it \<notin> set (x # xs)" and "set (x # xs) \<subseteq> dom N"
  shows "find_before a it x = Some (last (x # xs))"
  using assms(3-5)
proof (induction xs arbitrary: x)
  case Nil
  then have "x \<in> dom N" "nx x = it" by simp_all
  then show ?case using node_fields(4) [OF assms(1) nodes_inD [OF assms(2)]] by (subst find_before.simps) simp
next
  case (Cons z xs)
  then have x: "x \<in> dom N" "nx x = z" "z \<noteq> it" by auto
  have "find_before a it x = find_before a it z"
    using node_fields(4) [OF assms(1) nodes_inD [OF assms(2) x(1)]] x(2,3) by (subst find_before.simps) simp
  also have "\<dots> = Some (last (z # xs))" by (rule Cons.IH) (use Cons.prems in auto)
  finally show ?case by simp
qed

lemma keys_ok_del: "keys_ok hf N \<Longrightarrow> keys_ok hf (N(it := None))"
  by (auto simp: keys_ok_def inj_on_def)

lemma nodes_in_del: "nodes_in M N nx \<Longrightarrow> nodes_in (M(it := None)) (N(it := None)) nx"
  by (auto simp: nodes_in_def hash_node_other)

lemma bucket_chain_unlink:
  "bucket_chain nx i (x # xs @ it # ys) \<Longrightarrow> distinct (x # xs @ it # ys) \<Longrightarrow> bucket_chain (nx(last (x # xs) := nx it)) i (x # xs @ ys)"
proof (induction xs arbitrary: i x)
  case Nil
  then show ?case using bucket_chain_upd [of x ys nx "nx it" "nx it"] by (simp add: fun_upd_def)
next
  case (Cons z xs)
  obtain l where l: "last (z # xs) = l" "last (x # z # xs) = l" by simp
  have ih: "bucket_chain (nx(l := nx it)) z (z # xs @ ys)" unfolding l(1) [symmetric] by (rule Cons.IH) (use Cons.prems in auto)
  have "l \<in> set (z # xs)" using l(1) last_in_set [of "z # xs"] by blast
  then have "l \<noteq> x" using Cons.prems(2) by auto
  then show ?case unfolding l(2) using ih Cons.prems(1) by (auto simp: fun_upd_def)
qed

text \<open>Taking a node out of its chain.\<close>

lemma chains_del:
  assumes ch: "chains N nx T bk ch" and i: "i < T" and it: "ch i = xs @ it # ys"
  shows "chains (N(it := None)) (if xs = [] then nx else nx(last xs := nx it)) T
    (if xs = [] then bk(i := nx it) else bk) (ch(i := xs @ ys))"
  unfolding chains_def
proof (intro allI impI)
  fix j assume j: "j < T"
  let ?nx = "if xs = [] then nx else nx(last xs := nx it)" and ?bk = "if xs = [] then bk(i := nx it) else bk"
  note cj = chainsD [OF ch j] and ci = chainsD [OF ch i]
  have set: "{x \<in> dom (N(it := None)). nhash (N(it := None)) x mod T = j} = {x \<in> dom N. nhash N x mod T = j} - {it}"
    by auto
  show "bucket_chain ?nx (?bk j) ((ch(i := xs @ ys)) j) \<and> distinct ((ch(i := xs @ ys)) j) \<and>
    set ((ch(i := xs @ ys)) j) = {x \<in> dom (N(it := None)). nhash (N(it := None)) x mod T = j}"
  proof (cases "j = i")
    case True
    have "bucket_chain ?nx (?bk i) (xs @ ys)"
    proof (cases xs)
      case Nil
      then show ?thesis using ci(1) it by simp
    next
      case (Cons x zs)
      then show ?thesis using bucket_chain_unlink [of nx "bk i" x zs it ys] ci(1,2) it by simp
    qed
    moreover have "distinct (xs @ ys)" "set (xs @ ys) = set (ch i) - {it}" using ci(2) it by auto
    ultimately show ?thesis using True ci(3) unfolding set by simp
  next
    case False
    have "last xs \<notin> set (ch j)" if "xs \<noteq> []"
    proof -
      have "last xs \<in> set (ch i)" using last_in_set [OF that] it by simp
      then show ?thesis using ci(3) cj(3) False by auto
    qed
    then have "bucket_chain ?nx (?bk j) (ch j)" using cj(1) False by (simp add: bucket_chain_upd)
    moreover have "it \<notin> set (ch j)" using it ci(3) cj(3) False by auto
    ultimately show ?thesis using cj(2,3) False unfolding set by auto
  qed
qed

lemma ht_remove_parts:
  assumes parts: "ht_parts t M N nx T bk ch (Suc k)" and it: "it \<in> dom N"
  obtains t' where "vlHashTableRemoveIter t it = Some t'" "ht_rep t' (N(it := None)) T k" "ht_hashFunc t' = ht_hashFunc t"
    "vlArenaTotalCapacity (ht_data t') = vlArenaTotalCapacity (ht_data t)"
proof -
  note r = ht_partsD [OF parts]
  let ?i = "nhash N it mod T" and ?N = "N(it := None)"
  have i: "?i < T" using r(7) by simp
  note ci = chainsD [OF r(4) i]
  note node = nodes_inD [OF r(2) it]
  note f = node_fields [OF r(1) node]
  have bi: "bucket_index (nhash N it) (table_size t) = Some ?i"
    unfolding table_size_ok [OF r(3)] by (rule bucket_index_ok [OF r(7,8)])
  note bg = buckets_get [OF r(3) i]
  have "it \<in> set (ch ?i)" using ci(3) it by simp
  then obtain xs ys where split: "ch ?i = xs @ it # ys" using split_list by metis
  have it0: "it \<noteq> 0" using nodes_bounds(1) [OF r(1,2) it] by simp
  have keys: "keys_ok (ht_hashFunc t) ?N" by (rule keys_ok_del [OF r(5)])
  have pos: "0 < card (dom N)" using it r(9) card_gt_0_iff by blast
  have "card (dom N) + 1 < 2 ^ 32" by (rule nodes_count [OF r(1,2)])
  then have cnt: "dec32 (ht_totalElements t) = card (dom ?N)" using pos r(6,9) it by (simp add: dec32_id)
  obtain bs where bs: "M it = Some bs" using it r(2) by (auto simp: nodes_in_def)
  have nxit: "nx it < 2 ^ 64" using node by (simp add: hash_node_def)
  show thesis
  proof (cases xs)
    case Nil
    have "bk ?i = it" using ci(1) split Nil by simp
    obtain m where m: "bucket_put (ht_table t) ?i (nx it) = Some m" "buckets (Some m) T (bk(?i := nx it))"
      by (rule buckets_put [OF r(3) i nxit])
    obtain a where a: "vlArenaMemFree (ht_data t) it = Some a" "arena_holds a (M(it := None)) k" "ar_data a = ar_data (ht_data t)"
      by (rule arena_holds_free [OF r(1) bs])
    let ?t = "t\<lparr>ht_table := Some m, ht_data := a, ht_totalElements := dec32 (ht_totalElements t)\<rparr>"
    have run: "vlHashTableRemoveIter t it = Some ?t"
      using f(3,4) bi bg \<open>bk ?i = it\<close> it0 m(1) a(1) by (simp add: vlHashTableRemoveIter_def VL_HASHTABLE_ITER_INVALID_def)
    have "ht_parts ?t (M(it := None)) ?N nx T (bk(?i := nx it)) (ch(?i := ys)) k"
      using a(2) nodes_in_del [OF r(2)] m(2) chains_del [OF r(4) i split] Nil keys cnt by (simp add: ht_parts_def)
    then show thesis using that [OF run] a(3) unfolding ht_rep_def by (auto simp: vlArenaTotalCapacity_def)
  next
    case (Cons x zs)
    let ?l = "last (x # zs)"
    have head: "bk ?i = x" using ci(1) split Cons by simp
    have sub: "set (x # zs) \<subseteq> dom N" "it \<notin> set (x # zs)" using ci(2,3) split Cons by auto
    have x: "x \<in> dom N" "x \<noteq> 0" "x \<noteq> it" using sub nodes_bounds(1) [OF r(1,2), of x] by auto
    have nx0: "nx x \<noteq> 0"
    proof -
      have "nx x \<in> set (ch ?i)" using ci(1) split Cons by (cases zs) auto
      then show ?thesis using ci(3) nodes_bounds(1) [OF r(1,2), of "nx x"] by auto
    qed
    have fb: "find_before (ht_data t) it x = Some ?l"
      by (rule find_before_ok [OF r(1,2) _ sub(2,1)]) (use ci(1) split Cons head in simp)
    have l: "?l \<in> dom N" using sub last_in_set [of "x # zs"] by blast
    have "?l \<in> set (x # zs)" by (rule last_in_set) simp
    then have lit: "?l \<noteq> it" using sub(2) by metis
    obtain a bs' where a: "store_next (ht_data t) ?l (nx it) = Some a" "arena_holds a (M(?l \<mapsto> bs')) (Suc k)"
      "hash_node (M(?l \<mapsto> bs')) ?l (nhash N ?l) (nx it) (nkey N ?l) (nval N ?l)" "vlArenaTotalCapacity a = vlArenaTotalCapacity (ht_data t)"
      by (rule store_next_ok [OF r(1) nodes_inD [OF r(2) l] nxit])
    have bs2: "(M(?l \<mapsto> bs')) it = Some bs" using bs lit by simp
    obtain a2 where a2: "vlArenaMemFree a it = Some a2" "arena_holds a2 ((M(?l \<mapsto> bs'))(it := None)) k" "ar_data a2 = ar_data a"
      by (rule arena_holds_free [OF a(2) bs2])
    let ?t = "t\<lparr>ht_data := a2, ht_totalElements := dec32 (ht_totalElements t)\<rparr>"
    have rootn: "node_nextIter (ht_data t) x = Some (nx x)" by (rule node_fields(4) [OF r(1) nodes_inD [OF r(2) x(1)]])
    have run: "vlHashTableRemoveIter t it = Some ?t"
      using f(3,4) bi bg head x(2,3) rootn nx0 fb a(1) a2(1)
      by (simp add: vlHashTableRemoveIter_def VL_HASHTABLE_ITER_INVALID_def del: last.simps)
    have n: "nodes_in ((M(?l \<mapsto> bs'))(it := None)) ?N (nx(?l := nx it))"
      by (rule nodes_in_del [OF nodes_in_relink [OF r(2) l a(3)]])
    have "chains ?N (nx(?l := nx it)) T bk (ch(?i := xs @ ys))"
      using chains_del [OF r(4) i split] Cons by (simp del: last.simps)
    then have "ht_parts ?t ((M(?l \<mapsto> bs'))(it := None)) ?N (nx(?l := nx it)) T bk (ch(?i := xs @ ys)) k"
      using a2(2) n r(3) keys cnt by (simp add: ht_parts_def del: last.simps)
    then show thesis using that [OF run] a2(3) a(4) unfolding ht_rep_def by (auto simp: vlArenaTotalCapacity_def)
  qed
qed

lemma ht_remove:
  assumes "ht_rep t N T (Suc k)" and "it \<in> dom N"
  obtains t' where "vlHashTableRemoveIter t it = Some t'" "ht_rep t' (N(it := None)) T k" "ht_hashFunc t' = ht_hashFunc t"
    "vlArenaTotalCapacity (ht_data t') = vlArenaTotalCapacity (ht_data t)"
  using assms ht_remove_parts unfolding ht_rep_def by metis

section \<open>The interface\<close>

text \<open>
  A table of elements with a key and a value, reached by iterators. \<open>holds t m k\<close>: the table has the
  elements of \<open>m\<close>, and \<open>k\<close> more operations are possible. Putting is inserting a key and writing the
  value through the iterator, the way the clients do it.
\<close>

definition table_put :: "('t \<Rightarrow> byte list \<Rightarrow> nat \<Rightarrow> (nat \<times> 't) option) \<Rightarrow> ('t \<Rightarrow> nat \<Rightarrow> byte list \<Rightarrow> 't option) \<Rightarrow>
    't \<Rightarrow> byte list \<Rightarrow> byte list \<Rightarrow> (nat \<times> 't) option" where
  "table_put ins store t q vs = do { (p, t) \<leftarrow> ins t q (length vs); t \<leftarrow> store t p vs; Some (p, t) }"

definition keys_of :: "(nat \<rightharpoonup> byte list \<times> byte list) \<Rightarrow> byte list set" where
  "keys_of m = fst ` ran m"

lemma keys_of_iff: "q \<in> keys_of m \<longleftrightarrow> (\<exists>p vs. m p = Some (q, vs))"
  by (force simp: keys_of_def ran_def)

locale keyed_table =
  fixes holds :: "'t \<Rightarrow> (nat \<rightharpoonup> byte list \<times> byte list) \<Rightarrow> nat \<Rightarrow> bool"
    and key_ok :: "byte list \<Rightarrow> bool"
    and fits :: "'t \<Rightarrow> byte list \<Rightarrow> nat \<Rightarrow> bool"
    and ins :: "'t \<Rightarrow> byte list \<Rightarrow> nat \<Rightarrow> (nat \<times> 't) option"
    and find :: "'t \<Rightarrow> byte list \<Rightarrow> nat option"
    and sample :: "'t \<Rightarrow> nat \<Rightarrow> byte list option"
    and store :: "'t \<Rightarrow> nat \<Rightarrow> byte list \<Rightarrow> 't option"
    and remove :: "'t \<Rightarrow> nat \<Rightarrow> 't option"
  assumes ins_new: "holds t m (Suc k) \<Longrightarrow> key_ok q \<Longrightarrow> q \<notin> keys_of m \<Longrightarrow> fits t q d \<Longrightarrow>
      \<exists>p t' xs. ins t q d = Some (p, t') \<and> m p = None \<and> length xs = d \<and> holds t' (m(p \<mapsto> (q, xs))) k"
    and ins_same: "holds t m k \<Longrightarrow> m p = Some (q, vs) \<Longrightarrow> fits t q (length vs) \<Longrightarrow>
      \<exists>t'. ins t q (length vs) = Some (p, t') \<and> holds t' m k"
    and find_hit: "holds t m k \<Longrightarrow> m p = Some (q, vs) \<Longrightarrow> find t q = Some p"
    and find_miss: "holds t m k \<Longrightarrow> key_ok q \<Longrightarrow> q \<notin> keys_of m \<Longrightarrow> find t q = Some 0"
    and sample_law: "holds t m k \<Longrightarrow> m p = Some (q, vs) \<Longrightarrow> sample t p = Some vs"
    and store_law: "holds t m k \<Longrightarrow> m p = Some (q, vs) \<Longrightarrow> length ws = length vs \<Longrightarrow>
      \<exists>t'. store t p ws = Some t' \<and> holds t' (m(p \<mapsto> (q, ws))) k"
    and remove_law: "holds t m (Suc k) \<Longrightarrow> m p = Some x \<Longrightarrow> \<exists>t'. remove t p = Some t' \<and> holds t' (m(p := None)) k"
    and unique: "holds t m k \<Longrightarrow> m p = Some (q, vs) \<Longrightarrow> m p' = Some (q, vs') \<Longrightarrow> p = p'"
    and keys_ok: "holds t m k \<Longrightarrow> q \<in> keys_of m \<Longrightarrow> key_ok q"
begin

text \<open>A new key is found with its value, and every other element with the value it had.\<close>

lemma put_new:
  assumes "holds t m (Suc k)" and "key_ok q" and "q \<notin> keys_of m" and "fits t q (length vs)"
  obtains p t' where "table_put ins store t q vs = Some (p, t')" "m p = None" "holds t' (m(p \<mapsto> (q, vs))) k"
    "find t' q = Some p" "sample t' p = Some vs"
    "\<And>p2 q2 ws. m p2 = Some (q2, ws) \<Longrightarrow> find t' q2 = Some p2 \<and> sample t' p2 = Some ws"
proof -
  obtain p t1 xs where t1: "ins t q (length vs) = Some (p, t1)" "m p = None" "length xs = length vs"
    "holds t1 (m(p \<mapsto> (q, xs))) k"
    using ins_new [OF assms] by blast
  have "(m(p \<mapsto> (q, xs))) p = Some (q, xs)" by simp
  from store_law [OF t1(4) this t1(3) [symmetric]]
  obtain t' where t': "store t1 p vs = Some t'" "holds t' (m(p \<mapsto> (q, xs), p \<mapsto> (q, vs))) k"
    by blast
  have h: "holds t' (m(p \<mapsto> (q, vs))) k" using t'(2) by simp
  have e: "find t' q2 = Some p2 \<and> sample t' p2 = Some ws" if "(m(p \<mapsto> (q, vs))) p2 = Some (q2, ws)" for p2 q2 ws
    using find_hit [OF h that] sample_law [OF h that] by simp
  have "table_put ins store t q vs = Some (p, t')" using t1(1) t'(1) by (simp add: table_put_def)
  moreover have "find t' q2 = Some p2 \<and> sample t' p2 = Some ws" if "m p2 = Some (q2, ws)" for p2 q2 ws
    by (rule e) (use that t1(2) in auto)
  moreover have "find t' q = Some p \<and> sample t' p = Some vs" by (rule e) simp
  ultimately show thesis using that t1(2) h by blast
qed

text \<open>Another value of the same size for a key that is there already.\<close>

lemma put_same:
  assumes "holds t m k" and "m p = Some (q, ws)" and "length vs = length ws" and "fits t q (length vs)"
  obtains t' where "table_put ins store t q vs = Some (p, t')" "holds t' (m(p \<mapsto> (q, vs))) k"
proof -
  obtain t1 where t1: "ins t q (length vs) = Some (p, t1)" "holds t1 m k"
    using ins_same [OF assms(1,2)] assms(3,4) by auto
  obtain t' where "store t1 p vs = Some t'" "holds t' (m(p \<mapsto> (q, vs))) k"
    using store_law [OF t1(2) assms(2,3)] by blast
  then show thesis using that t1(1) by (simp add: table_put_def)
qed

text \<open>A removed element is not found; the others are.\<close>

lemma remove_find:
  assumes "holds t m (Suc k)" and "m p = Some (q, vs)"
  obtains t' where "remove t p = Some t'" "holds t' (m(p := None)) k" "find t' q = Some 0"
    "\<And>p2 q2 ws. m p2 = Some (q2, ws) \<Longrightarrow> p2 \<noteq> p \<Longrightarrow> find t' q2 = Some p2 \<and> sample t' p2 = Some ws"
proof -
  obtain t' where t': "remove t p = Some t'" "holds t' (m(p := None)) k" using remove_law [OF assms] by blast
  have ok: "key_ok q" by (rule keys_ok [OF assms(1)]) (use assms(2) in \<open>auto simp: keys_of_iff\<close>)
  have "q \<notin> keys_of (m(p := None))"
    using unique [OF assms] by (auto simp: keys_of_iff split: if_splits)
  then have "find t' q = Some 0" by (rule find_miss [OF t'(2) ok])
  moreover have "find t' q2 = Some p2 \<and> sample t' p2 = Some ws" if "m p2 = Some (q2, ws)" "p2 \<noteq> p" for p2 q2 ws
  proof -
    have "(m(p := None)) p2 = Some (q2, ws)" using that by simp
    then show ?thesis using find_hit [OF t'(2)] sample_law [OF t'(2)] by blast
  qed
  ultimately show thesis using that t' by blast
qed

end

section \<open>The hash table keeps it\<close>

definition ht_map :: "vl_hash_function \<Rightarrow> vl_hashtable \<Rightarrow> (nat \<rightharpoonup> byte list \<times> byte list) \<Rightarrow> nat \<Rightarrow> bool" where
  "ht_map hf t m k \<longleftrightarrow> ht_hashFunc t = hf \<and> (\<exists>N T. ht_rep t N T k \<and> m = (\<lambda>it. map_option snd (N it)))"

definition ht_key_ok :: "vl_hash_function \<Rightarrow> byte list \<Rightarrow> bool" where
  "ht_key_ok hf q \<longleftrightarrow> None \<notin> set q \<and> length q < 2 ^ 16 \<and> hf_call hf q (length q) \<noteq> None"

definition ht_room :: "allocator \<Rightarrow> nat \<Rightarrow> vl_hashtable \<Rightarrow> byte list \<Rightarrow> nat \<Rightarrow> bool" where
  "ht_room al limit t q d \<longleftrightarrow> alloc_upto al limit \<and> d < 2 ^ 16 \<and> ht_fits limit t (table_size t) (length q + d)"

definition ht_insert :: "allocator \<Rightarrow> vl_hashtable \<Rightarrow> byte list \<Rightarrow> nat \<Rightarrow> (vl_hash_iter \<times> vl_hashtable) option" where
  "ht_insert al t q d = vlHashTableInsert al t q (length q) d"

definition ht_find_key :: "vl_hashtable \<Rightarrow> byte list \<Rightarrow> vl_hash_iter option" where
  "ht_find_key t q = vlHashTableFind t q (length q)"

lemma ht_mapE:
  assumes "ht_map hf t m k"
  obtains N T where "ht_hashFunc t = hf" "ht_rep t N T k" "m = (\<lambda>it. map_option snd (N it))" "table_size t = T"
    "dom m = dom N" "keys_of m = nkey N ` dom N" "keys_ok hf N"
    "\<And>p q vs. m p = Some (q, vs) \<Longrightarrow> p \<in> dom N \<and> nkey N p = q \<and> nval N p = vs \<and> ht_key_ok hf q"
proof -
  obtain N T where NT: "ht_hashFunc t = hf" "ht_rep t N T k" "m = (\<lambda>it. map_option snd (N it))"
    using assms by (auto simp: ht_map_def)
  obtain M nx bk ch where parts: "ht_parts t M N nx T bk ch k" using NT(2) by (auto simp: ht_rep_def)
  note r = ht_partsD [OF parts]
  have dom: "dom m = dom N" using NT(3) by (auto simp: dom_def)
  have keys: "keys_of m = nkey N ` dom N"
  proof (intro set_eqI)
    fix q
    show "q \<in> keys_of m \<longleftrightarrow> q \<in> nkey N ` dom N"
      unfolding keys_of_iff NT(3) by (force simp: nkey_def image_iff)
  qed
  have el: "p \<in> dom N \<and> nkey N p = q \<and> nval N p = vs \<and> ht_key_ok hf q" if "m p = Some (q, vs)" for p q vs
  proof -
    have "map_option snd (N p) = Some (q, vs)" using that unfolding NT(3) .
    then obtain h where N: "N p = Some (h, q, vs)" by (cases "N p") auto
    then have p: "p \<in> dom N" by blast
    note node = nodes_inD [OF r(2) p, unfolded node_parts [of N p h q vs, OF N]]
    have "hf_call hf (nkey N p) (length (nkey N p)) = Some (of_nat (nhash N p))"
      using r(5) p NT(1) unfolding keys_ok_def by blast
    then have "hf_call hf q (length q) \<noteq> None" using N by simp
    then show ?thesis using p N node by (simp add: ht_key_ok_def hash_node_def)
  qed
  show thesis by (rule that [OF NT table_size_ok [OF r(3)] dom keys _ el]) (use r(5) NT(1) in simp)
qed

lemma ht_mapI: "ht_rep t N T k \<Longrightarrow> ht_hashFunc t = hf \<Longrightarrow> ht_map hf t (\<lambda>it. map_option snd (N it)) k"
  by (auto simp: ht_map_def)

lemma map_snd_upd: "(\<lambda>it. map_option snd ((N(p \<mapsto> (h, x))) it)) = (\<lambda>it. map_option snd (N it))(p \<mapsto> x)"
  "(\<lambda>it. map_option snd ((N(p := None)) it)) = (\<lambda>it. map_option snd (N it))(p := None)"
  by (simp_all add: fun_eq_iff)

interpretation ht: keyed_table "ht_map hf" "ht_key_ok hf" "ht_room al limit" "ht_insert al" ht_find_key
  vlHashTableSampleValue hashtable_store_value vlHashTableRemoveIter
proof (unfold_locales, goal_cases)
  case (1 t m k q d)
  obtain N T where r: "ht_hashFunc t = hf" "ht_rep t N T (Suc k)" "m = (\<lambda>it. map_option snd (N it))" "table_size t = T"
    "dom m = dom N" "keys_of m = nkey N ` dom N"
    by (rule ht_mapE [OF 1(1)]) blast
  obtain h where h: "hf_call (ht_hashFunc t) q (length q) = Some h" using 1(2) r(1) by (auto simp: ht_key_ok_def)
  have q: "None \<notin> set q" "length q < 2 ^ 16" using 1(2) by (simp_all add: ht_key_ok_def)
  have fresh: "q \<notin> nkey N ` dom N" using 1(3) r(6) by simp
  have room: "d < 2 ^ 16" "alloc_upto al limit" "ht_fits limit t T (length q + d)" using 1(4) r(4) by (simp_all add: ht_room_def)
  obtain p t' vs where t': "vlHashTableInsert al t q (length q) d = Some (p, t')" "p \<notin> dom N" "length vs = d"
    "ht_rep t' (N(p \<mapsto> (unat h, q, vs))) (VL_HashSpec.room (card (dom N)) T) k" "ht_hashFunc t' = ht_hashFunc t"
    by (rule ht_insert_new [OF r(2) h q fresh room]) blast
  have "ht_map hf t' (m(p \<mapsto> (q, vs))) k"
    using ht_mapI [OF t'(4)] t'(5) r(1) unfolding map_snd_upd r(3) by simp
  moreover have "m p = None" using t'(2) r(5) by auto
  ultimately show ?case using t'(1,3) by (auto simp: ht_insert_def)
next
  case (2 t m k p q vs)
  obtain N T where r: "ht_hashFunc t = hf" "ht_rep t N T k" "m = (\<lambda>it. map_option snd (N it))" "table_size t = T"
    "p \<in> dom N" "nkey N p = q" "nval N p = vs" "ht_key_ok hf q"
    by (rule ht_mapE [OF 2(1)]) (use 2(2) in blast)
  obtain h where h: "hf_call (ht_hashFunc t) q (length q) = Some h" using r(1,8) by (auto simp: ht_key_ok_def)
  have room: "alloc_upto al limit" "ht_fits limit t T (length q + length vs)" using 2(3) r(4) by (simp_all add: ht_room_def)
  have len: "length (nval N p) = length vs" using r(7) by simp
  obtain t' where t': "vlHashTableInsert al t q (length q) (length vs) = Some (p, t')" "ht_hashFunc t' = ht_hashFunc t"
    "ht_rep t' N (VL_HashSpec.room (card (dom N)) T) k"
    by (rule ht_insert_same [OF r(2) h r(5,6) len room]) blast
  have "ht_map hf t' m k" using ht_mapI [OF t'(3)] t'(2) r(1,3) by simp
  then show ?case using t'(1) by (auto simp: ht_insert_def)
next
  case (3 t m k p q vs)
  obtain N T where r: "ht_hashFunc t = hf" "ht_rep t N T k" "p \<in> dom N" "nkey N p = q" "ht_key_ok hf q"
    by (rule ht_mapE [OF 3(1)]) (use 3(2) in blast)
  show ?case unfolding ht_find_key_def
    by (rule ht_find(1) [OF r(2) _ _ r(3,4)]) (use r(1,5) in \<open>simp_all add: ht_key_ok_def\<close>)
next
  case (4 t m k q)
  obtain N T where r: "ht_hashFunc t = hf" "ht_rep t N T k" "keys_of m = nkey N ` dom N"
    by (rule ht_mapE [OF 4(1)]) blast
  show ?case unfolding ht_find_key_def
    by (rule ht_find(2) [OF r(2)]) (use 4(2,3) r(1,3) in \<open>simp_all add: ht_key_ok_def\<close>)
next
  case (5 t m k p q vs)
  obtain N T where r: "ht_rep t N T k" "p \<in> dom N" "nval N p = vs"
    by (rule ht_mapE [OF 5(1)]) (use 5(2) in blast)
  then show ?case using ht_sample(2) by auto
next
  case (6 t m k p q vs ws)
  obtain N T where r: "ht_hashFunc t = hf" "ht_rep t N T k" "m = (\<lambda>it. map_option snd (N it))"
    by (rule ht_mapE [OF 6(1)]) blast
  have "map_option snd (N p) = Some (q, vs)" using 6(2) unfolding r(3) .
  then obtain h where N: "N p = Some (h, q, vs)" by (cases "N p") auto
  obtain t' where t': "hashtable_store_value t p ws = Some t'" "ht_rep t' (N(p \<mapsto> (h, q, ws))) T k" "ht_hashFunc t' = ht_hashFunc t"
    by (rule ht_store_value [OF r(2) N 6(3)])
  have "ht_map hf t' (m(p \<mapsto> (q, ws))) k"
    using ht_mapI [OF t'(2)] t'(3) r(1) unfolding map_snd_upd r(3) by simp
  then show ?case using t'(1) by blast
next
  case (7 t m k p x)
  obtain N T where r: "ht_hashFunc t = hf" "ht_rep t N T (Suc k)" "m = (\<lambda>it. map_option snd (N it))" "dom m = dom N"
    by (rule ht_mapE [OF 7(1)]) blast
  have "p \<in> dom N" using 7(2) r(4) by auto
  then obtain t' where t': "vlHashTableRemoveIter t p = Some t'" "ht_rep t' (N(p := None)) T k" "ht_hashFunc t' = ht_hashFunc t"
    by (rule ht_remove [OF r(2)]) 
  have "ht_map hf t' (m(p := None)) k"
    using ht_mapI [OF t'(2)] t'(3) r(1) unfolding map_snd_upd r(3) by simp
  then show ?case using t'(1) by blast
next
  case (8 t m k p q vs p' vs')
  obtain N T where r: "keys_ok hf N" "p \<in> dom N" "p' \<in> dom N" "nkey N p = q" "nkey N p' = q"
    by (rule ht_mapE [OF 8(1)]) (use 8(2,3) in blast)
  then show ?case using key_unique by metis
next
  case (9 t m k q)
  obtain p vs where p: "m p = Some (q, vs)" using 9(2) by (auto simp: keys_of_iff)
  show ?case by (rule ht_mapE [OF 9(1)]) (use p in blast)
qed

section \<open>A new table\<close>

lemma ht_init:
  assumes al: "alloc_upto al limit" and limit: "2 ^ 20 \<le> limit"
  obtains t where "vlHashTableInit al hf = Some t" "\<And>k. k \<le> 8 \<Longrightarrow> ht_map hf t Map.empty k" "table_size t = 16"
    "vlArenaTotalCapacity (ht_data t) = 128"
proof -
  have lim: "VL_HASHTABLE_DEFAULT_SIZE + MEMORY_HEADER_SIZE < limit" "8 * 16 + MEMORY_HEADER_SIZE < limit"
    using limit by (simp_all add: VL_HASHTABLE_DEFAULT_SIZE_def MEMORY_HEADER_SIZE_def)
  obtain a where a: "vlArenaInit al VL_HASHTABLE_DEFAULT_SIZE = Some a" "\<And>k. k \<le> 8 \<Longrightarrow> arena_holds a Map.empty k"
    "vlArenaTotalCapacity a = VL_HASHTABLE_DEFAULT_SIZE"
    by (rule arena_holds_init [OF al limit _ lim(1)]) (simp_all add: VL_HASHTABLE_DEFAULT_SIZE_def)
  have ok: "allocator_ok al" using al by (simp add: alloc_upto_def)
  obtain ad where ad: "malloc_at al (8 * 16 + MEMORY_HEADER_SIZE) = Some ad"
    using al lim(2) unfolding alloc_upto_def by (meson not_None_eq)
  obtain m where m: "vlMemAlloc al (8 * 16) = Some (Some m)" "mem_inv m" "mh_length (mem_header m) = 8 * 16"
    "mh_alignment (mem_header m) = VL_DEFAULT_ALIGN"
    using mem_alloc_inv [OF ok _ ad] by (auto simp: MEMORY_HEADER_SIZE_def)
  have T: "0 < (16 :: nat)" "8 * (16 :: nat) < 2 ^ 32" by simp_all
  obtain m' where m': "mem_write (Some m) 0 (replicate (8 * 16) (Some 0)) = Some m'" "buckets (Some m') 16 (\<lambda>_. 0)"
    by (rule buckets_clear [OF m(2,4,3) T]) blast
  let ?t = "\<lparr>ht_table = Some m', ht_data = a, ht_hashFunc = hf, ht_totalElements = 0\<rparr>"
  have size: "vlMemSize (Some m) = 8 * 16" using m(3) by (simp add: vlMemSize_def)
  have init: "vlHashTableInit al hf = Some ?t"
    unfolding vlHashTableInit_def a(1) m(1) bind.bind_lunit size m'(1) ..
  have "ht_rep ?t Map.empty 16 k" if "k \<le> 8" for k
  proof -
    have "ht_parts ?t Map.empty Map.empty (\<lambda>_. 0) 16 (\<lambda>_. 0) (\<lambda>_. []) k"
      using a(2) [OF that] m'(2) by (simp add: ht_parts_def nodes_in_def chains_def keys_ok_def)
    then show ?thesis unfolding ht_rep_def by blast
  qed
  from ht_mapI [OF this] have "ht_map hf ?t Map.empty k" if "k \<le> 8" for k using that by simp
  then show thesis using that init table_size_ok [of ?t 16] m'(2) a(3) by (simp add: VL_HASHTABLE_DEFAULT_SIZE_def)
qed

section \<open>Properties\<close>

text \<open>
  C5. A new key is put with its value: the table returns an iterator that no element had, finds the key
  there and reads the value back; every other element keeps its iterator, is found by its key and has
  its value. This holds when the number of buckets is doubled and all chains are built anew, and when
  the arena grows.
\<close>

theorem hashtable_put_find:
  assumes "ht_map hf t m (Suc k)" and "ht_key_ok hf q" and "q \<notin> keys_of m" and "ht_room al limit t q (length vs)"
  shows "\<exists>p t'. table_put (ht_insert al) hashtable_store_value t q vs = Some (p, t') \<and> m p = None \<and>
    ht_map hf t' (m(p \<mapsto> (q, vs))) k \<and>
    vlHashTableFind t' q (length q) = Some p \<and> vlHashTableSampleValue t' p = Some vs \<and>
    (\<forall>p2 q2 ws. m p2 = Some (q2, ws) \<longrightarrow>
       vlHashTableFind t' q2 (length q2) = Some p2 \<and> vlHashTableSampleValue t' p2 = Some ws)"
proof -
  obtain p t' where t': "table_put (ht_insert al) hashtable_store_value t q vs = Some (p, t')" "m p = None"
    "ht_map hf t' (m(p \<mapsto> (q, vs))) k" "ht_find_key t' q = Some p" "vlHashTableSampleValue t' p = Some vs"
    "\<And>p2 q2 ws. m p2 = Some (q2, ws) \<Longrightarrow> ht_find_key t' q2 = Some p2 \<and> vlHashTableSampleValue t' p2 = Some ws"
    by (rule ht.put_new [OF assms]) blast
  then show ?thesis unfolding ht_find_key_def by blast
qed

definition string_hash :: vl_hash_function where
  "string_hash = \<lparr>hf_address = 1, hf_call = vlHashString False\<rparr>"

lemma string_hash_key:
  assumes "length bs < 2 ^ 16"
  shows "ht_key_ok string_hash (map Some bs)"
proof -
  have "hash_string_loop False h (map Some bs) \<noteq> None" for h by (induction bs arbitrary: h) simp_all
  then show ?thesis using assms by (simp add: ht_key_ok_def string_hash_def vlHashString_def read_range_def)
qed

text \<open>A new table, and one with an element.\<close>

lemma new_table:
  obtains t where "vlHashTableInit some_allocator string_hash = Some t"
    "\<And>k. k \<le> 8 \<Longrightarrow> ht_map string_hash t Map.empty k"
    "\<And>q d. length q + d < 1000 \<Longrightarrow> ht_room some_allocator (2 ^ 20) t q d" "table_size t = 16"
proof -
  obtain t where t: "vlHashTableInit some_allocator string_hash = Some t" "\<And>k. k \<le> 8 \<Longrightarrow> ht_map string_hash t Map.empty k"
    "table_size t = 16" "vlArenaTotalCapacity (ht_data t) = 128"
    by (rule ht_init [OF some_allocator_upto]) blast+
  have "ht_room some_allocator (2 ^ 20) t q d" if "length q + d < 1000" for q d
    using that t(3,4) some_allocator_upto
    by (simp add: ht_room_def ht_fits_def arena_fits_def HASHTABLE_HEADER_SIZE_def BLOCK_HEADER_SIZE_def MEMORY_HEADER_SIZE_def)
  then show thesis using that t by blast
qed

abbreviation key_a :: "byte list" where "key_a \<equiv> map Some [97]"
abbreviation value_a :: "byte list" where "value_a \<equiv> map Some [1, 2]"

lemma capacity_small:
  assumes "vlArenaTotalCapacity (ht_data t) \<le> 2000" and "table_size t = 16" and "length q + d < 1000"
  shows "ht_room some_allocator (2 ^ 20) t q d"
  using assms some_allocator_upto
  by (simp add: ht_room_def ht_fits_def arena_fits_def HASHTABLE_HEADER_SIZE_def BLOCK_HEADER_SIZE_def MEMORY_HEADER_SIZE_def)

theorem hashtable_put_find_witness:
  "\<exists>t p t'. vlHashTableInit some_allocator string_hash = Some t \<and>
     table_put (ht_insert some_allocator) hashtable_store_value t key_a value_a = Some (p, t') \<and>
     vlHashTableFind t' key_a 1 = Some p \<and> vlHashTableSampleValue t' p = Some value_a"
proof -
  obtain t where t: "vlHashTableInit some_allocator string_hash = Some t" "\<And>k. k \<le> 8 \<Longrightarrow> ht_map string_hash t Map.empty k"
    "\<And>q d. length q + d < 1000 \<Longrightarrow> ht_room some_allocator (2 ^ 20) t q d"
    by (rule new_table) blast
  have h: "ht_map string_hash t Map.empty (Suc 7)" by (rule t(2)) simp
  have k: "ht_key_ok string_hash key_a" by (rule string_hash_key) simp
  have n: "key_a \<notin> keys_of Map.empty" by (simp add: keys_of_iff)
  have r: "ht_room some_allocator (2 ^ 20) t key_a (length value_a)" by (rule t(3)) simp
  from hashtable_put_find [OF h k n r] show ?thesis using t(1) by auto
qed

text \<open>A table with one element; the bound of its arena is the one of the first insertion.\<close>

lemma one_element_table:
  obtains t p where "ht_map string_hash t [p \<mapsto> (key_a, value_a)] 7" "\<And>q d. length q + d < 900 \<Longrightarrow> ht_room some_allocator (2 ^ 20) t q d"
proof -
  obtain t0 where t0: "vlHashTableInit some_allocator string_hash = Some t0" "\<And>k. k \<le> 8 \<Longrightarrow> ht_map string_hash t0 Map.empty k"
    "table_size t0 = 16" "vlArenaTotalCapacity (ht_data t0) = 128"
    by (rule ht_init [OF some_allocator_upto]) blast+
  have h0: "ht_map string_hash t0 Map.empty (Suc 7)" by (rule t0(2)) simp
  obtain N T where NT: "ht_hashFunc t0 = string_hash" "ht_rep t0 N T (Suc 7)" "Map.empty = (\<lambda>it. map_option snd (N it))" "table_size t0 = T"
    "dom Map.empty = dom N"
    by (rule ht_mapE [OF h0]) blast
  have N: "N = Map.empty" "T = 16" using NT(4,5) t0(3) by auto
  have k: "ht_key_ok string_hash key_a" by (rule string_hash_key) simp
  then obtain h where h: "hf_call (ht_hashFunc t0) key_a (length key_a) = Some h" using NT(1) by (auto simp: ht_key_ok_def)
  have q: "None \<notin> set key_a" "length key_a < 2 ^ 16" "key_a \<notin> nkey N ` dom N" "length value_a < 2 ^ 16" using N(1) by simp_all
  have fit: "ht_fits (2 ^ 20) t0 T (length key_a + length value_a)" using t0(4) N(2)
    by (simp add: ht_fits_def arena_fits_def HASHTABLE_HEADER_SIZE_def BLOCK_HEADER_SIZE_def MEMORY_HEADER_SIZE_def)
  obtain p t1 vs where t1: "p \<notin> dom N" "length vs = length value_a"
    "ht_rep t1 (N(p \<mapsto> (unat h, key_a, vs))) (VL_HashSpec.room (card (dom N)) T) 7" "ht_hashFunc t1 = ht_hashFunc t0"
    "vlArenaTotalCapacity (ht_data t1) \<le> 2 * (HASHTABLE_HEADER_SIZE + length key_a + length value_a + BLOCK_HEADER_SIZE + vlArenaTotalCapacity (ht_data t0))"
    by (rule ht_insert_new [OF NT(2) h q some_allocator_upto fit]) blast
  have at: "(N(p \<mapsto> (unat h, key_a, vs))) p = Some (unat h, key_a, vs)" by simp
  obtain t where t: "ht_rep t (N(p \<mapsto> (unat h, key_a, vs), p \<mapsto> (unat h, key_a, value_a))) (VL_HashSpec.room (card (dom N)) T) 7"
    "ht_hashFunc t = ht_hashFunc t1" "vlArenaTotalCapacity (ht_data t) = vlArenaTotalCapacity (ht_data t1)"
    by (rule ht_store_value [OF t1(3) at t1(2) [symmetric]]) blast
  have "ht_map string_hash t [p \<mapsto> (key_a, value_a)] 7"
    using ht_mapI [OF t(1)] t(2) t1(4) NT(1) unfolding map_snd_upd N(1) by simp
  moreover have "VL_HashSpec.room (card (dom N)) T = 16" using N by (simp add: VL_HashSpec.room_def)
  then have "table_size t = 16" using t(1) ht_partsD(3) table_size_ok unfolding ht_rep_def by metis
  then have "ht_room some_allocator (2 ^ 20) t q d" if "length q + d < 900" for q d
    by (rule capacity_small [rotated]) (use that t(3) t1(5) t0(4) in \<open>simp_all add: HASHTABLE_HEADER_SIZE_def BLOCK_HEADER_SIZE_def\<close>)
  ultimately show thesis using that by blast
qed

text \<open>
  Inserting a key that the table has, with a value of the size it has: the iterator of the element
  is returned, and the table keeps all elements with their iterators, keys and values.
\<close>

theorem hashtable_insert_existing:
  assumes "ht_map hf t m k" and "m p = Some (q, vs)" and "ht_room al limit t q (length vs)"
  shows "\<exists>t'. vlHashTableInsert al t q (length q) (length vs) = Some (p, t') \<and> ht_map hf t' m k \<and>
    (\<forall>p2 q2 ws. m p2 = Some (q2, ws) \<longrightarrow>
       vlHashTableFind t' q2 (length q2) = Some p2 \<and> vlHashTableSampleValue t' p2 = Some ws)"
proof -
  obtain t' where t': "vlHashTableInsert al t q (length q) (length vs) = Some (p, t')" "ht_map hf t' m k"
    using ht.ins_same [OF assms] unfolding ht_insert_def by blast
  have "vlHashTableFind t' q2 (length q2) = Some p2" "vlHashTableSampleValue t' p2 = Some ws" if "m p2 = Some (q2, ws)" for p2 q2 ws
    using ht.find_hit [OF t'(2) that] ht.sample_law [OF t'(2) that] unfolding ht_find_key_def by simp_all
  then show ?thesis using t' by blast
qed

theorem hashtable_insert_existing_witness:
  "\<exists>t p t'. ht_map string_hash t [p \<mapsto> (key_a, value_a)] 7 \<and>
     vlHashTableInsert some_allocator t key_a (length key_a) (length value_a) = Some (p, t') \<and>
     vlHashTableSampleValue t' p = Some value_a"
proof -
  obtain t p where t: "ht_map string_hash t [p \<mapsto> (key_a, value_a)] 7"
    "\<And>q d. length q + d < 900 \<Longrightarrow> ht_room some_allocator (2 ^ 20) t q d"
    by (rule one_element_table) blast
  have at: "[p \<mapsto> (key_a, value_a)] p = Some (key_a, value_a)" by simp
  have "ht_room some_allocator (2 ^ 20) t key_a (length value_a)" by (rule t(2)) simp
  then have "\<exists>t'. vlHashTableInsert some_allocator t key_a (length key_a) (length value_a) = Some (p, t') \<and>
    ht_map string_hash t' [p \<mapsto> (key_a, value_a)] 7 \<and>
    (\<forall>p2 q2 ws. [p \<mapsto> (key_a, value_a)] p2 = Some (q2, ws) \<longrightarrow>
       vlHashTableFind t' q2 (length q2) = Some p2 \<and> vlHashTableSampleValue t' p2 = Some ws)"
    by (rule hashtable_insert_existing [OF t(1) at])
  then show ?thesis using t(1) at by blast
qed

text \<open>
  C6. Removing the element of a key takes just this one out: it is not found any more, wherever it was
  in its chain, and every other element keeps its iterator, is found and has its value.
\<close>

theorem hashtable_remove_one:
  assumes "ht_map hf t m (Suc k)" and "m p = Some (q, vs)"
  shows "\<exists>t'. vlHashTableRemoveKey t q (length q) = Some t' \<and> ht_map hf t' (m(p := None)) k \<and>
    vlHashTableFind t' q (length q) = Some VL_HASHTABLE_ITER_INVALID \<and>
    (\<forall>p2 q2 ws. m p2 = Some (q2, ws) \<and> p2 \<noteq> p \<longrightarrow>
       vlHashTableFind t' q2 (length q2) = Some p2 \<and> vlHashTableSampleValue t' p2 = Some ws)"
proof -
  obtain t' where t': "vlHashTableRemoveIter t p = Some t'" "ht_map hf t' (m(p := None)) k" "ht_find_key t' q = Some 0"
    "\<And>p2 q2 ws. m p2 = Some (q2, ws) \<Longrightarrow> p2 \<noteq> p \<Longrightarrow> ht_find_key t' q2 = Some p2 \<and> vlHashTableSampleValue t' p2 = Some ws"
    by (rule ht.remove_find [OF assms]) blast
  have "vlHashTableFind t q (length q) = Some p" using ht.find_hit [OF assms] by (simp add: ht_find_key_def)
  then have "vlHashTableRemoveKey t q (length q) = Some t'" using t'(1) by (simp add: vlHashTableRemoveKey_def)
  then show ?thesis using t'(2-4) unfolding ht_find_key_def VL_HASHTABLE_ITER_INVALID_def by blast
qed

theorem hashtable_remove_one_witness:
  "\<exists>t p t'. ht_map string_hash t [p \<mapsto> (key_a, value_a)] 7 \<and> vlHashTableRemoveKey t key_a (length key_a) = Some t' \<and>
     ht_map string_hash t' Map.empty 6 \<and> vlHashTableFind t' key_a (length key_a) = Some VL_HASHTABLE_ITER_INVALID"
proof -
  obtain t p where t: "ht_map string_hash t [p \<mapsto> (key_a, value_a)] 7" by (rule one_element_table) blast
  then have h: "ht_map string_hash t [p \<mapsto> (key_a, value_a)] (Suc 6)" by simp
  have "[p \<mapsto> (key_a, value_a)] p = Some (key_a, value_a)" by simp
  from hashtable_remove_one [OF h this] obtain t' where t': "vlHashTableRemoveKey t key_a (length key_a) = Some t'"
    "ht_map string_hash t' ([p \<mapsto> (key_a, value_a)](p := None)) 6"
    "vlHashTableFind t' key_a (length key_a) = Some VL_HASHTABLE_ITER_INVALID"
    by blast
  have "[p \<mapsto> (key_a, value_a)](p := None) = Map.empty" by auto
  then show ?thesis using t t' by metis
qed

text \<open>
  Growing doubles the number of buckets and builds all chains anew in a walk over the arena: the walk
  ends, and the table has the same elements, with the same iterators, keys and values.
\<close>

theorem hashtable_grow_keeps:
  assumes "ht_map hf t m k" and "alloc_upto al limit" and "16 * table_size t + MEMORY_HEADER_SIZE < limit" and "limit < 2 ^ 32"
  shows "\<exists>t'. vl_HashTableGrow al t = Some (2 * table_size t, t') \<and> table_size t' = 2 * table_size t \<and> ht_map hf t' m k \<and>
    ht_totalElements t' = ht_totalElements t \<and>
    (\<forall>p q vs. m p = Some (q, vs) \<longrightarrow> vlHashTableFind t' q (length q) = Some p \<and> vlHashTableSampleValue t' p = Some vs)"
proof -
  obtain N T where r: "ht_hashFunc t = hf" "ht_rep t N T k" "m = (\<lambda>it. map_option snd (N it))" "table_size t = T"
    by (rule ht_mapE [OF assms(1)]) blast
  obtain M nx bk ch where parts: "ht_parts t M N nx T bk ch k" using r(2) by (auto simp: ht_rep_def)
  obtain t' where t': "vl_HashTableGrow al t = Some (2 * T, t')" "ht_rep t' N (2 * T) k" "ht_hashFunc t' = ht_hashFunc t"
    "ht_totalElements t' = ht_totalElements t"
    by (rule grow_ok [OF parts assms(2) assms(3) [unfolded r(4)] assms(4)]) blast
  have h: "ht_map hf t' m k" using ht_mapI [OF t'(2)] t'(3) r(1,3) by simp
  have "table_size t' = 2 * T" using t'(2) ht_partsD(3) table_size_ok unfolding ht_rep_def by metis
  moreover have "vlHashTableFind t' q (length q) = Some p" "vlHashTableSampleValue t' p = Some vs" if "m p = Some (q, vs)" for p q vs
    using ht.find_hit [OF h that] ht.sample_law [OF h that] unfolding ht_find_key_def by simp_all
  ultimately show ?thesis using t'(1,4) r(4) h by blast
qed

theorem hashtable_grow_keeps_witness:
  "\<exists>t p t'. ht_map string_hash t [p \<mapsto> (key_a, value_a)] 7 \<and> vl_HashTableGrow some_allocator t = Some (2 * table_size t, t') \<and>
     vlHashTableFind t' key_a (length key_a) = Some p"
proof -
  obtain t p where t: "ht_map string_hash t [p \<mapsto> (key_a, value_a)] 7"
    "\<And>q d. length q + d < 900 \<Longrightarrow> ht_room some_allocator (2 ^ 20) t q d"
    by (rule one_element_table) blast
  have "ht_room some_allocator (2 ^ 20) t [] 0" by (rule t(2)) simp
  then have "16 * table_size t + MEMORY_HEADER_SIZE < 2 ^ 20" by (simp add: ht_room_def ht_fits_def)
  then have "\<exists>t'. vl_HashTableGrow some_allocator t = Some (2 * table_size t, t') \<and> table_size t' = 2 * table_size t \<and>
    ht_map string_hash t' [p \<mapsto> (key_a, value_a)] 7 \<and> ht_totalElements t' = ht_totalElements t \<and>
    (\<forall>p' q vs. [p \<mapsto> (key_a, value_a)] p' = Some (q, vs) \<longrightarrow>
       vlHashTableFind t' q (length q) = Some p' \<and> vlHashTableSampleValue t' p' = Some vs)"
    by (rule hashtable_grow_keeps [OF t(1) some_allocator_upto]) simp
  then obtain t' where "vl_HashTableGrow some_allocator t = Some (2 * table_size t, t')"
    "\<forall>p' q vs. [p \<mapsto> (key_a, value_a)] p' = Some (q, vs) \<longrightarrow>
       vlHashTableFind t' q (length q) = Some p' \<and> vlHashTableSampleValue t' p' = Some vs"
    by blast
  moreover have "[p \<mapsto> (key_a, value_a)] p = Some (key_a, value_a)" by simp
  ultimately show ?thesis using t(1) by blast
qed

text \<open>
  Copying an element into another table with the same hash function: the destination has the key and
  the value of the element in addition to what it had, and the source is not changed. With another hash
  function nothing is copied.
\<close>

theorem hashtable_copy_element:
  assumes "ht_map hf src ms j" and "ms it = Some (q, vs)" and "ht_map hf dest md (Suc k)" and "q \<notin> keys_of md"
    and "ht_room al limit dest q (length vs)"
  shows "(\<exists>p dest'. vlHashTableCopyElement al src it dest = Some (p, dest') \<and> ht_map hf dest' (md(p \<mapsto> (q, vs))) k \<and>
      vlHashTableFind dest' q (length q) = Some p \<and> vlHashTableSampleValue dest' p = Some vs) \<and>
    (hf_address (ht_hashFunc other) \<noteq> hf_address hf \<longrightarrow>
       vlHashTableCopyElement al src it other = Some (VL_HASHTABLE_ITER_INVALID, other))"
proof -
  obtain N T where r: "ht_hashFunc src = hf" "ht_rep src N T j" "it \<in> dom N" "nkey N it = q" "nval N it = vs" "ht_key_ok hf q"
    by (rule ht_mapE [OF assms(1)]) (use assms(2) in blast)
  have smp: "vlHashTableSampleKey src it = Some q" "vlHashTableSampleValue src it = Some vs"
    using ht_sample [OF r(2,3)] r(4,5) by simp_all
  obtain p dest' where p: "table_put (ht_insert al) hashtable_store_value dest q vs = Some (p, dest')"
    "ht_map hf dest' (md(p \<mapsto> (q, vs))) k" "ht_find_key dest' q = Some p" "vlHashTableSampleValue dest' p = Some vs"
    by (rule ht.put_new [OF assms(3) r(6) assms(4,5)]) blast
  have "ht_hashFunc dest = hf" using assms(3) by (simp add: ht_map_def)
  moreover have "copy_element al src it dest = Some (p, dest')"
    using p(1) smp by (simp add: copy_element_def table_put_def ht_insert_def)
  ultimately have "vlHashTableCopyElement al src it dest = Some (p, dest')" using r(1) by (simp add: vlHashTableCopyElement_def)
  then show ?thesis using p(2-4) r(1) unfolding ht_find_key_def by (auto simp: vlHashTableCopyElement_def)
qed

theorem hashtable_copy_element_witness:
  "\<exists>src dest p p' dest'. ht_map string_hash src [p \<mapsto> (key_a, value_a)] 7 \<and>
     vlHashTableCopyElement some_allocator src p dest = Some (p', dest') \<and>
     ht_map string_hash dest' [p' \<mapsto> (key_a, value_a)] 7"
proof -
  obtain t p where t: "ht_map string_hash t [p \<mapsto> (key_a, value_a)] 7" by (rule one_element_table) blast
  obtain d where d: "\<And>k. k \<le> 8 \<Longrightarrow> ht_map string_hash d Map.empty k"
    "\<And>q n. length q + n < 1000 \<Longrightarrow> ht_room some_allocator (2 ^ 20) d q n"
    by (rule new_table) blast
  have h: "ht_map string_hash d Map.empty (Suc 7)" by (rule d(1)) simp
  have at: "[p \<mapsto> (key_a, value_a)] p = Some (key_a, value_a)" by simp
  have n: "key_a \<notin> keys_of Map.empty" by (simp add: keys_of_iff)
  have "ht_room some_allocator (2 ^ 20) d key_a (length value_a)" by (rule d(2)) simp
  from hashtable_copy_element [OF t at h n this] show ?thesis using t by blast
qed

text \<open>
  Going through a table from its front visits every element once, in the order of their places in
  memory, and ends with the invalid iterator.
\<close>

theorem hashtable_walk:
  assumes "ht_map hf t m k"
  shows "vlHashTableFront t = Some (hd_or (sorted_list_of_set (dom m)) VL_HASHTABLE_ITER_INVALID) \<and>
    (\<forall>ps p qs. sorted_list_of_set (dom m) = ps @ p # qs \<longrightarrow>
       vlHashTableNext t p = Some (hd_or qs VL_HASHTABLE_ITER_INVALID)) \<and>
    VL_HASHTABLE_ITER_INVALID \<notin> dom m \<and> finite (dom m) \<and> ht_totalElements t = card (dom m)"
proof -
  obtain N T where r: "ht_rep t N T k" "dom m = dom N" by (rule ht_mapE [OF assms]) blast
  obtain M nx bk ch where parts: "ht_parts t M N nx T bk ch k" using r(1) by (auto simp: ht_rep_def)
  note p = ht_partsD [OF parts]
  have ptrs: "sorted_list_of_set (dom m) = ptrs M" using p(2) r(2) by (simp add: ptrs_def nodes_in_def)
  have "0 \<notin> dom N" using nodes_bounds(1) [OF p(1,2), of 0] by blast
  then show ?thesis
    using front_block [OF p(1)] next_block [OF p(1)] p(6,9) r(2) unfolding ptrs VL_HASHTABLE_ITER_INVALID_def by simp
qed

theorem hashtable_walk_witness:
  "\<exists>t p. ht_map string_hash t [p \<mapsto> (key_a, value_a)] 7 \<and> vlHashTableFront t = Some p \<and>
     vlHashTableNext t p = Some VL_HASHTABLE_ITER_INVALID"
proof -
  obtain t p where t: "ht_map string_hash t [p \<mapsto> (key_a, value_a)] 7" by (rule one_element_table) blast
  have "sorted_list_of_set (dom [p \<mapsto> (key_a, value_a)]) = [p]" by simp
  then have "vlHashTableFront t = Some p" "vlHashTableNext t p = Some VL_HASHTABLE_ITER_INVALID"
    using hashtable_walk [OF t] by (simp_all del: dom_fun_upd) (metis append_Nil hd_or_simps(1))
  then show ?thesis using t by blast
qed

end
