(* ===== verification/VL_Stream.thy ===== *)
theory VL_Stream
  imports VL_Buffer
begin

text \<open>
  \<^verbatim>\<open>src/core/vl_stream.c\<close> and the two adapters of \<^verbatim>\<open>src/core/vl_stream_memory.c\<close>. A stream is a table of
  functions with the data they work on, a lock and three counters. The functions are pointers, which
  may be \<^verbatim>\<open>NULL\<close>; the buffer that is read into is given by whether it is not \<^verbatim>\<open>NULL\<close>, and the bytes it
  gets are a result.
\<close>

datatype vl_stream_origin = VL_STREAM_SEEK_SET | VL_STREAM_SEEK_CUR | VL_STREAM_SEEK_END

type_synonym 'u stream_read = "'u \<Rightarrow> nat \<Rightarrow> (nat \<times> byte list \<times> 'u) option"
type_synonym 'u stream_write = "'u \<Rightarrow> byte list \<Rightarrow> nat \<Rightarrow> (nat \<times> 'u) option"
type_synonym 'u stream_seek = "'u \<Rightarrow> int \<Rightarrow> vl_stream_origin \<Rightarrow> (bool \<times> 'u) option"

record 'u vl_stream =
  sm_read :: "'u stream_read option"
  sm_write :: "'u stream_write option"
  sm_seek :: "'u stream_seek option"
  sm_tell :: "('u \<Rightarrow> int option) option"
  sm_flush :: "('u \<Rightarrow> 'u option) option"
  sm_close :: "('u \<Rightarrow> unit option) option"
  sm_userData :: 'u
  sm_locked :: bool
  sm_refCount :: nat
  sm_totalRead :: nat
  sm_totalWritten :: nat

section \<open>Life of a stream\<close>

text \<open>\<^verbatim>\<open>sizeof(vl_stream)\<close> is 88. The inner option is the pointer that is returned.\<close>

definition vlStreamNew :: "allocator \<Rightarrow> 'u \<Rightarrow> 'u vl_stream option option" where
  "vlStreamNew al userData =
     (case malloc_at al 88 of
        None \<Rightarrow> Some None
      | Some _ \<Rightarrow> Some (Some
          \<lparr>sm_read = None, sm_write = None, sm_seek = None, sm_tell = None, sm_flush = None, sm_close = None,
           sm_userData = userData, sm_locked = False, sm_refCount = 1, sm_totalRead = 0, sm_totalWritten = 0\<rparr>))"

definition vlStreamRetain :: "'u vl_stream option \<Rightarrow> 'u vl_stream option" where
  "vlStreamRetain stream = map_option (\<lambda>s. s\<lparr>sm_refCount := u64_of (sm_refCount s + 1)\<rparr>) stream"

text \<open>
  The loop of \<^verbatim>\<open>vlStreamDelete\<close> in a single thread: it goes on as long as the exchange succeeds, with
  the same expected number; the exchange that fails ends it.
\<close>

partial_function (option) release_loop :: "nat \<Rightarrow> nat \<Rightarrow> nat option" where
  [code]: "release_loop refCount oldRefCount =
     (if refCount = oldRefCount then release_loop (u64_of (oldRefCount + (2 ^ 64 - 1))) oldRefCount else Some refCount)"

definition vlStreamDelete :: "'u vl_stream option \<Rightarrow> 'u vl_stream option option" where
  "vlStreamDelete stream =
     (case stream of
        None \<Rightarrow> Some None
      | Some s \<Rightarrow> do {
          refCount \<leftarrow> release_loop (sm_refCount s) (sm_refCount s);
          let s = s\<lparr>sm_refCount := refCount\<rparr>;
          if refCount \<noteq> 0 then Some (Some s)
          else do {
            _ \<leftarrow> (case sm_close s of None \<Rightarrow> Some () | Some f \<Rightarrow> f (sm_userData s));
            if sm_locked s then None else Some None
          }
        })"

definition vlStreamSetRead :: "'u vl_stream option \<Rightarrow> 'u stream_read option \<Rightarrow> 'u vl_stream option" where
  "vlStreamSetRead stream func = map_option (\<lambda>s. s\<lparr>sm_read := func\<rparr>) stream"

definition vlStreamSetWrite :: "'u vl_stream option \<Rightarrow> 'u stream_write option \<Rightarrow> 'u vl_stream option" where
  "vlStreamSetWrite stream func = map_option (\<lambda>s. s\<lparr>sm_write := func\<rparr>) stream"

definition vlStreamSetSeek :: "'u vl_stream option \<Rightarrow> 'u stream_seek option \<Rightarrow> 'u vl_stream option" where
  "vlStreamSetSeek stream func = map_option (\<lambda>s. s\<lparr>sm_seek := func\<rparr>) stream"

definition vlStreamSetTell :: "'u vl_stream option \<Rightarrow> ('u \<Rightarrow> int option) option \<Rightarrow> 'u vl_stream option" where
  "vlStreamSetTell stream func = map_option (\<lambda>s. s\<lparr>sm_tell := func\<rparr>) stream"

definition vlStreamSetFlush :: "'u vl_stream option \<Rightarrow> ('u \<Rightarrow> 'u option) option \<Rightarrow> 'u vl_stream option" where
  "vlStreamSetFlush stream func = map_option (\<lambda>s. s\<lparr>sm_flush := func\<rparr>) stream"

definition vlStreamSetClose :: "'u vl_stream option \<Rightarrow> ('u \<Rightarrow> unit option) option \<Rightarrow> 'u vl_stream option" where
  "vlStreamSetClose stream func = map_option (\<lambda>s. s\<lparr>sm_close := func\<rparr>) stream"

section \<open>Operations\<close>

text \<open>A lock that is obtained twice by its thread never returns; releasing a free one is undefined.\<close>

definition stream_obtain :: "'u vl_stream \<Rightarrow> 'u vl_stream option" where
  "stream_obtain s = (if sm_locked s then None else Some (s\<lparr>sm_locked := True\<rparr>))"

definition stream_release :: "'u vl_stream \<Rightarrow> 'u vl_stream option" where
  "stream_release s = (if sm_locked s then Some (s\<lparr>sm_locked := False\<rparr>) else None)"

definition vlStreamRead :: "'u vl_stream option \<Rightarrow> bool \<Rightarrow> nat \<Rightarrow> (nat \<times> byte list \<times> 'u vl_stream option) option" where
  "vlStreamRead stream outBuffer outLength =
     (case stream of
        None \<Rightarrow> Some (0, [], stream)
      | Some s \<Rightarrow>
          (case sm_read s of
             None \<Rightarrow> Some (0, [], stream)
           | Some f \<Rightarrow>
               if \<not> outBuffer then Some (0, [], stream)
               else do {
                 s \<leftarrow> stream_obtain s;
                 (bytesRead, xs, u) \<leftarrow> f (sm_userData s) outLength;
                 let s = s\<lparr>sm_userData := u\<rparr>;
                 let s = (if bytesRead > 0 then s\<lparr>sm_totalRead := u64_of (sm_totalRead s + bytesRead)\<rparr> else s);
                 s \<leftarrow> stream_release s;
                 Some (bytesRead, xs, Some s)
               }))"

definition vlStreamWrite :: "'u vl_stream option \<Rightarrow> byte list option \<Rightarrow> nat \<Rightarrow> (nat \<times> 'u vl_stream option) option" where
  "vlStreamWrite stream inBuffer inLength =
     (case stream of
        None \<Rightarrow> Some (0, stream)
      | Some s \<Rightarrow>
          (case sm_write s of
             None \<Rightarrow> Some (0, stream)
           | Some f \<Rightarrow>
               (case inBuffer of
                  None \<Rightarrow> Some (0, stream)
                | Some bs \<Rightarrow> do {
                    s \<leftarrow> stream_obtain s;
                    (bytesWritten, u) \<leftarrow> f (sm_userData s) bs inLength;
                    let s = s\<lparr>sm_userData := u\<rparr>;
                    let s = (if bytesWritten > 0 then s\<lparr>sm_totalWritten := u64_of (sm_totalWritten s + bytesWritten)\<rparr> else s);
                    s \<leftarrow> stream_release s;
                    Some (bytesWritten, Some s)
                  })))"

definition vlStreamSeek :: "'u vl_stream option \<Rightarrow> int \<Rightarrow> vl_stream_origin \<Rightarrow> (bool \<times> 'u vl_stream option) option" where
  "vlStreamSeek stream offset origin =
     (case stream of
        None \<Rightarrow> Some (False, stream)
      | Some s \<Rightarrow> do {
          s \<leftarrow> stream_obtain s;
          (result, s) \<leftarrow>
            (case sm_seek s of
               None \<Rightarrow> Some (False, s)
             | Some f \<Rightarrow> do { (r, u) \<leftarrow> f (sm_userData s) offset origin; Some (r, s\<lparr>sm_userData := u\<rparr>) });
          s \<leftarrow> stream_release s;
          Some (result, Some s)
        })"

definition vlStreamTell :: "'u vl_stream option \<Rightarrow> (int \<times> 'u vl_stream option) option" where
  "vlStreamTell stream =
     (case stream of
        None \<Rightarrow> Some (- 1, stream)
      | Some s \<Rightarrow> do {
          s \<leftarrow> stream_obtain s;
          p \<leftarrow> (case sm_tell s of None \<Rightarrow> Some (- 1) | Some f \<Rightarrow> f (sm_userData s));
          s \<leftarrow> stream_release s;
          Some (p, Some s)
        })"

definition vlStreamFlush :: "'u vl_stream option \<Rightarrow> 'u vl_stream option option" where
  "vlStreamFlush stream =
     (case stream of
        None \<Rightarrow> Some stream
      | Some s \<Rightarrow> do {
          s \<leftarrow> stream_obtain s;
          s \<leftarrow> (case sm_flush s of
                 None \<Rightarrow> Some s
               | Some f \<Rightarrow> do { u \<leftarrow> f (sm_userData s); Some (s\<lparr>sm_userData := u\<rparr>) });
          s \<leftarrow> stream_release s;
          Some (Some s)
        })"

section \<open>A buffer as a stream\<close>

text \<open>An unsigned number of 64 bits as a signed one, and the sum of signed ones.\<close>

definition s64_of :: "nat \<Rightarrow> int" where
  "s64_of n = (if n < 2 ^ 63 then int n else int n - 2 ^ 64)"

definition add_s64 :: "int \<Rightarrow> int \<Rightarrow> int option" where
  "add_s64 a b = (if - (2 ^ 63) \<le> a + b \<and> a + b < 2 ^ 63 then Some (a + b) else None)"

record vl_stream_ctx_buffer =
  cb_buffer :: vl_buffer
  cb_ownsBuffer :: bool

definition StreamBufferRead :: "vl_stream_ctx_buffer stream_read" where
  "StreamBufferRead ctx n =
     do { (k, xs, b) \<leftarrow> vlBufferRead (cb_buffer ctx) n; Some (k, xs, ctx\<lparr>cb_buffer := b\<rparr>) }"

definition StreamBufferWrite :: "allocator \<Rightarrow> vl_stream_ctx_buffer stream_write" where
  "StreamBufferWrite al ctx bs n =
     do {
       (oldOffset, b) \<leftarrow> vlBufferWrite al (cb_buffer ctx) n (Some bs);
       Some (u64_of (buf_offset b + (2 ^ 64 - oldOffset)), ctx\<lparr>cb_buffer := b\<rparr>)
     }"

definition StreamBufferSeek :: "vl_stream_ctx_buffer stream_seek" where
  "StreamBufferSeek ctx offset origin =
     (case origin of
        VL_STREAM_SEEK_SET \<Rightarrow>
          if offset < 0 then Some (False, ctx)
          else Some (True, ctx\<lparr>cb_buffer := vlBufferSeek (cb_buffer ctx) (nat offset)\<rparr>)
      | VL_STREAM_SEEK_CUR \<Rightarrow> Some (True, ctx\<lparr>cb_buffer := vlBufferSeekRelative (cb_buffer ctx) offset\<rparr>)
      | VL_STREAM_SEEK_END \<Rightarrow> do {
          p \<leftarrow> add_s64 (s64_of (buf_size (cb_buffer ctx))) offset;
          if p < 0 then Some (False, ctx) else Some (True, ctx\<lparr>cb_buffer := vlBufferSeek (cb_buffer ctx) (nat p)\<rparr>)
        })"

definition StreamBufferTell :: "vl_stream_ctx_buffer \<Rightarrow> int option" where
  "StreamBufferTell ctx = Some (s64_of (buf_offset (cb_buffer ctx)))"

definition StreamBufferClose :: "vl_stream_ctx_buffer \<Rightarrow> unit option" where
  "StreamBufferClose ctx = (if cb_ownsBuffer ctx then vlBufferDelete (cb_buffer ctx) else Some ())"

text \<open>\<^verbatim>\<open>sizeof(vl_stream_ctx_buffer)\<close> is 16.\<close>

definition vlStreamOpenBuffer :: "allocator \<Rightarrow> vl_buffer option \<Rightarrow> bool \<Rightarrow> vl_stream_ctx_buffer vl_stream option option" where
  "vlStreamOpenBuffer al buffer takeOwnership =
     (case buffer of
        None \<Rightarrow> Some None
      | Some b \<Rightarrow> do {
          mem \<leftarrow> vlMemAlloc al 16;
          (case mem of
             None \<Rightarrow> Some None
           | Some m \<Rightarrow> do {
               s \<leftarrow> vlStreamNew al \<lparr>cb_buffer = b, cb_ownsBuffer = takeOwnership\<rparr>;
               if s = None then do { _ \<leftarrow> vlMemFree (Some m); Some None }
               else do {
                 let s = vlStreamSetRead s (Some StreamBufferRead);
                 let s = vlStreamSetWrite s (Some (StreamBufferWrite al));
                 let s = vlStreamSetSeek s (Some StreamBufferSeek);
                 let s = vlStreamSetTell s (Some StreamBufferTell);
                 Some (vlStreamSetClose s (Some StreamBufferClose))
               }
             })
        })"

section \<open>A block of memory as a stream\<close>

record vl_stream_ctx_mem =
  cm_start :: "byte list"
  cm_size :: nat
  cm_cursor :: nat
  cm_readOnly :: bool

definition mem_available :: "vl_stream_ctx_mem \<Rightarrow> nat" where
  "mem_available ctx = u64_of (cm_size ctx + (2 ^ 64 - cm_cursor ctx))"

definition StreamMemRead :: "vl_stream_ctx_mem stream_read" where
  "StreamMemRead ctx n =
     (let available = mem_available ctx
      in if available = 0 then Some (0, [], ctx)
         else do {
           let n = (if n > available then available else n);
           xs \<leftarrow> read_range (cm_start ctx) (cm_cursor ctx) n;
           Some (n, xs, ctx\<lparr>cm_cursor := u64_of (cm_cursor ctx + n)\<rparr>)
         })"

definition StreamMemWrite :: "vl_stream_ctx_mem stream_write" where
  "StreamMemWrite ctx bs n =
     (if cm_readOnly ctx then Some (0, ctx)
      else let available = mem_available ctx
           in if available = 0 then Some (0, ctx)
              else do {
                let n = (if n > available then available else n);
                xs \<leftarrow> read_range bs 0 n;
                start \<leftarrow> write_range (cm_start ctx) (cm_cursor ctx) xs;
                Some (n, ctx\<lparr>cm_start := start, cm_cursor := u64_of (cm_cursor ctx + n)\<rparr>)
              })"

definition StreamMemSeek :: "vl_stream_ctx_mem stream_seek" where
  "StreamMemSeek ctx offset origin =
     do {
       newPos \<leftarrow>
         (case origin of
            VL_STREAM_SEEK_SET \<Rightarrow> Some offset
          | VL_STREAM_SEEK_CUR \<Rightarrow> add_s64 (s64_of (cm_cursor ctx)) offset
          | VL_STREAM_SEEK_END \<Rightarrow> add_s64 (s64_of (cm_size ctx)) offset);
       if newPos < 0 then Some (False, ctx)
       else do {
         let newPos = (if newPos > s64_of (cm_size ctx) then s64_of (cm_size ctx) else newPos);
         Some (True, ctx\<lparr>cm_cursor := nat (newPos mod 2 ^ 64)\<rparr>)
       }
     }"

definition StreamMemTell :: "vl_stream_ctx_mem \<Rightarrow> int option" where
  "StreamMemTell ctx = Some (s64_of (cm_cursor ctx))"

definition StreamMemClose :: "vl_stream_ctx_mem \<Rightarrow> unit option" where
  "StreamMemClose ctx = Some ()"

text \<open>\<^verbatim>\<open>sizeof(vl_stream_ctx_mem)\<close> is 32. The memory is given by its bytes, \<^const>\<open>None\<close> for \<^verbatim>\<open>NULL\<close>.\<close>

definition InternalOpenMem :: "allocator \<Rightarrow> byte list option \<Rightarrow> nat \<Rightarrow> bool \<Rightarrow> vl_stream_ctx_mem vl_stream option option" where
  "InternalOpenMem al mem n readOnly =
     (if mem = None \<and> n > 0 then Some None
      else do {
        ctx \<leftarrow> vlMemAlloc al 32;
        (case ctx of
           None \<Rightarrow> Some None
         | Some m \<Rightarrow> do {
             s \<leftarrow> vlStreamNew al \<lparr>cm_start = case_option [] id mem, cm_size = n, cm_cursor = 0, cm_readOnly = readOnly\<rparr>;
             if s = None then do { _ \<leftarrow> vlMemFree (Some m); Some None }
             else do {
               let s = vlStreamSetRead s (Some StreamMemRead);
               let s = (if \<not> readOnly then vlStreamSetWrite s (Some StreamMemWrite) else s);
               let s = vlStreamSetSeek s (Some StreamMemSeek);
               let s = vlStreamSetTell s (Some StreamMemTell);
               Some (vlStreamSetClose s (Some StreamMemClose))
             }
           })
      })"

definition vlStreamOpenMemory :: "allocator \<Rightarrow> byte list option \<Rightarrow> nat \<Rightarrow> vl_stream_ctx_mem vl_stream option option" where
  "vlStreamOpenMemory al memory n = InternalOpenMem al memory n True"

definition vlStreamOpenMemoryMutable :: "allocator \<Rightarrow> byte list option \<Rightarrow> nat \<Rightarrow> vl_stream_ctx_mem vl_stream option option" where
  "vlStreamOpenMemoryMutable al memory n = InternalOpenMem al memory n False"

end
