(* ===== verification/VL_StreamSpec.thy ===== *)
theory VL_StreamSpec
  imports VL_Stream VL_BufferSpec
begin

text \<open>
  Streams are correct: the contract of a medium as a locale, with what a client of any stream may
  rely on, and its interpretations on buffers and on memory; a memory stream never leaves its
  block; the references of a stream, in one thread and in several.
\<close>

section \<open>What a medium promises\<close>

text \<open>
  A medium holds bytes and a position in them. \<open>room\<close> says for how many bytes there is place at
  the position, by growing or by overwriting.
\<close>

locale stream_medium =
  fixes contents :: "'u \<Rightarrow> byte list"
    and pos :: "'u \<Rightarrow> nat"
    and inv :: "'u \<Rightarrow> bool"
    and room :: "'u \<Rightarrow> nat \<Rightarrow> bool"
    and rd :: "'u stream_read"
    and wr :: "'u stream_write"
    and sk :: "'u stream_seek"
    and tell :: "'u \<Rightarrow> int option"
  assumes pos_le: "inv u \<Longrightarrow> pos u \<le> length (contents u)"
    and read_law: "inv u \<Longrightarrow> pos u + n \<le> length (contents u) \<Longrightarrow>
      \<exists>u'. rd u n = Some (n, take n (drop (pos u) (contents u)), u') \<and> inv u' \<and> contents u' = contents u \<and>
        pos u' = pos u + n"
    and write_law: "inv u \<Longrightarrow> room u (length xs) \<Longrightarrow>
      \<exists>u'. wr u xs (length xs) = Some (length xs, u') \<and> inv u' \<and> pos u' = pos u + length xs \<and>
        contents u' = take (pos u) (contents u) @ xs @ drop (pos u + length xs) (contents u)"
    and seek_law: "inv u \<Longrightarrow> p \<le> length (contents u) \<Longrightarrow>
      \<exists>u'. sk u (int p) VL_STREAM_SEEK_SET = Some (True, u') \<and> inv u' \<and> contents u' = contents u \<and> pos u' = p"
    and tell_law: "inv u \<Longrightarrow> tell u = Some (int (pos u))"
begin

definition serves :: "'u vl_stream \<Rightarrow> bool" where
  "serves s \<longleftrightarrow> sm_read s = Some rd \<and> sm_write s = Some wr \<and> sm_seek s = Some sk \<and> sm_tell s = Some tell \<and>
     inv (sm_userData s) \<and> \<not> sm_locked s \<and> sm_totalRead s < 2 ^ 64 \<and> sm_totalWritten s < 2 ^ 64"

abbreviation bytes_of :: "'u vl_stream \<Rightarrow> byte list" where
  "bytes_of s \<equiv> contents (sm_userData s)"

abbreviation pos_of :: "'u vl_stream \<Rightarrow> nat" where
  "pos_of s \<equiv> pos (sm_userData s)"

lemma read_ok:
  assumes "serves s" and "pos_of s + n \<le> length (bytes_of s)"
  shows "\<exists>s'. vlStreamRead (Some s) True n = Some (n, take n (drop (pos_of s) (bytes_of s)), Some s') \<and> serves s' \<and>
    bytes_of s' = bytes_of s \<and> pos_of s' = pos_of s + n \<and>
    sm_totalRead s' = u64_of (sm_totalRead s + n) \<and> sm_totalWritten s' = sm_totalWritten s"
proof -
  obtain u where "rd (sm_userData s) n = Some (n, take n (drop (pos_of s) (bytes_of s)), u)" "inv u"
    "contents u = bytes_of s" "pos u = pos_of s + n"
    using read_law assms by (metis serves_def)
  then show ?thesis
    using assms(1) by (simp add: serves_def vlStreamRead_def stream_obtain_def stream_release_def Let_def)
      (auto simp: u64_of_def)
qed

lemma write_ok:
  assumes "serves s" and "room (sm_userData s) (length xs)"
  shows "\<exists>s'. vlStreamWrite (Some s) (Some xs) (length xs) = Some (length xs, Some s') \<and> serves s' \<and>
    bytes_of s' = take (pos_of s) (bytes_of s) @ xs @ drop (pos_of s + length xs) (bytes_of s) \<and>
    pos_of s' = pos_of s + length xs \<and>
    sm_totalRead s' = sm_totalRead s \<and> sm_totalWritten s' = u64_of (sm_totalWritten s + length xs)"
proof -
  obtain u where "wr (sm_userData s) xs (length xs) = Some (length xs, u)" "inv u" "pos u = pos_of s + length xs"
    "contents u = take (pos_of s) (bytes_of s) @ xs @ drop (pos_of s + length xs) (bytes_of s)"
    using write_law assms by (metis serves_def)
  then show ?thesis
    using assms(1) by (simp add: serves_def vlStreamWrite_def stream_obtain_def stream_release_def Let_def)
      (auto simp: u64_of_def)
qed

lemma seek_ok:
  assumes "serves s" and "p \<le> length (bytes_of s)"
  shows "\<exists>s'. vlStreamSeek (Some s) (int p) VL_STREAM_SEEK_SET = Some (True, Some s') \<and> serves s' \<and>
    bytes_of s' = bytes_of s \<and> pos_of s' = p \<and>
    sm_totalRead s' = sm_totalRead s \<and> sm_totalWritten s' = sm_totalWritten s"
proof -
  obtain u where "sk (sm_userData s) (int p) VL_STREAM_SEEK_SET = Some (True, u)" "inv u" "contents u = bytes_of s" "pos u = p"
    using seek_law assms by (metis serves_def)
  then show ?thesis
    using assms(1) by (simp add: serves_def vlStreamSeek_def stream_obtain_def stream_release_def Let_def)
qed

lemma tell_ok: "serves s \<Longrightarrow> vlStreamTell (Some s) = Some (int (pos_of s), Some s)"
  using tell_law [of "sm_userData s"]
  by (simp add: serves_def vlStreamTell_def stream_obtain_def stream_release_def)

text \<open>Writing, seeking back and reading.\<close>

lemma write_seek_read:
  assumes s: "serves s" and room: "room (sm_userData s) (length xs)"
  shows "\<exists>s1 s2 s3. vlStreamWrite (Some s) (Some xs) (length xs) = Some (length xs, Some s1) \<and>
    vlStreamTell (Some s1) = Some (int (pos_of s + length xs), Some s1) \<and>
    vlStreamSeek (Some s1) (int (pos_of s)) VL_STREAM_SEEK_SET = Some (True, Some s2) \<and>
    vlStreamRead (Some s2) True (length xs) = Some (length xs, xs, Some s3) \<and> serves s3 \<and>
    bytes_of s3 = take (pos_of s) (bytes_of s) @ xs @ drop (pos_of s + length xs) (bytes_of s) \<and>
    sm_totalRead s3 = u64_of (sm_totalRead s + length xs) \<and>
    sm_totalWritten s3 = u64_of (sm_totalWritten s + length xs)"
proof -
  have le: "pos_of s \<le> length (bytes_of s)" using s pos_le by (simp add: serves_def)
  obtain s1 where s1: "vlStreamWrite (Some s) (Some xs) (length xs) = Some (length xs, Some s1)" "serves s1"
    "bytes_of s1 = take (pos_of s) (bytes_of s) @ xs @ drop (pos_of s + length xs) (bytes_of s)"
    "pos_of s1 = pos_of s + length xs"
    "sm_totalRead s1 = sm_totalRead s" "sm_totalWritten s1 = u64_of (sm_totalWritten s + length xs)"
    using write_ok [OF assms] by blast
  have "pos_of s + length xs \<le> length (bytes_of s1)" using le by (simp add: s1(3))
  moreover from this have "pos_of s \<le> length (bytes_of s1)" by simp
  then obtain s2 where s2: "vlStreamSeek (Some s1) (int (pos_of s)) VL_STREAM_SEEK_SET = Some (True, Some s2)"
    "serves s2" "bytes_of s2 = bytes_of s1" "pos_of s2 = pos_of s"
    "sm_totalRead s2 = sm_totalRead s" "sm_totalWritten s2 = u64_of (sm_totalWritten s + length xs)"
    using seek_ok [OF s1(2), of "pos_of s"] s1(5,6) by auto
  ultimately obtain s3 where "vlStreamRead (Some s2) True (length xs) =
      Some (length xs, take (length xs) (drop (pos_of s) (bytes_of s1)), Some s3)" "serves s3"
    "bytes_of s3 = bytes_of s1" "sm_totalRead s3 = u64_of (sm_totalRead s + length xs)"
    "sm_totalWritten s3 = u64_of (sm_totalWritten s + length xs)"
    using read_ok [OF s2(2), of "length xs"] s2(3-6) by auto
  moreover have "take (length xs) (drop (pos_of s) (bytes_of s1)) = xs" using le by (simp add: s1(3))
  ultimately show ?thesis using s1 s2 tell_ok [OF s1(2)] by (intro exI conjI) auto
qed

end

section \<open>A buffer is a medium\<close>

definition ctx_bytes :: "vl_stream_ctx_buffer \<Rightarrow> byte list" where
  "ctx_bytes c = take (buf_size (cb_buffer c)) (buf_bytes (cb_buffer c))"

definition ctx_inv :: "vl_stream_ctx_buffer \<Rightarrow> bool" where
  "ctx_inv c \<longleftrightarrow> buf_inv (cb_buffer c) \<and> buf_size (cb_buffer c) < 2 ^ 63"

text \<open>What an allocator that serves every request below \<open>k\<close> and at most \<open>2^62\<close> has place for.\<close>

definition ctx_room :: "allocator \<Rightarrow> vl_stream_ctx_buffer \<Rightarrow> nat \<Rightarrow> bool" where
  "ctx_room al c n \<longleftrightarrow> (\<exists>k \<le> 2 ^ 62. alloc_upto al k \<and> write_room (cb_buffer c) n < k)"

lemma buf_inv_length:
  assumes "buf_inv b"
  shows "buf_offset b \<le> buf_size b" and "buf_size b \<le> length (buf_bytes b)"
  using assms mem_inv_data by (auto simp: buf_inv_def buf_bytes_def split: option.splits)

lemma buf_inv_seek: "buf_inv b \<Longrightarrow> p \<le> buf_size b \<Longrightarrow> buf_inv (b\<lparr>buf_offset := p\<rparr>)"
  by (auto simp: buf_inv_def split: option.splits)

lemma buf_bytes_seek [simp]: "buf_bytes (b\<lparr>buf_offset := p\<rparr>) = buf_bytes b"
  by (simp add: buf_bytes_def)

lemma StreamBufferWrite_ok:
  assumes inv: "ctx_inv c" and room: "ctx_room al c (length xs)"
  shows "\<exists>c'. StreamBufferWrite al c xs (length xs) = Some (length xs, c') \<and> ctx_inv c' \<and>
    buf_offset (cb_buffer c') = buf_offset (cb_buffer c) + length xs \<and>
    ctx_bytes c' = take (buf_offset (cb_buffer c)) (ctx_bytes c) @ xs @
      drop (buf_offset (cb_buffer c) + length xs) (ctx_bytes c)"
proof -
  let ?b = "cb_buffer c" and ?n = "length xs"
  obtain k where k: "k \<le> 2 ^ 62" "alloc_upto al k" "write_room ?b ?n < k" using room by (auto simp: ctx_room_def)
  have b: "buf_inv ?b" "buf_size ?b < 2 ^ 63" using inv by (simp_all add: ctx_inv_def)
  obtain b' where b': "vlBufferWrite al ?b ?n (Some xs) = Some (buf_offset ?b, b')" "buf_inv b'"
    "buf_offset b' = buf_offset ?b + ?n" "buf_size b' = max (buf_size ?b) (buf_offset ?b + ?n)"
    "length (buf_bytes ?b) \<le> length (buf_bytes b')"
    "\<forall>i < length (buf_bytes ?b). i < buf_offset ?b \<or> buf_offset ?b + ?n \<le> i \<longrightarrow> buf_bytes b' ! i = buf_bytes ?b ! i"
    "\<forall>i < ?n. buf_bytes b' ! (buf_offset ?b + i) = xs ! i"
    using buffer_write_ok [OF b(1) k(2,3,1), of "Some xs"] by auto
  have small: "buf_offset ?b + ?n < 2 ^ 62" using k(1,3) by (simp add: write_room_def)
  have len: "buf_offset ?b \<le> buf_size ?b" "buf_size ?b \<le> length (buf_bytes ?b)"
    "buf_size b' \<le> length (buf_bytes b')"
    using buf_inv_length b(1) b'(2) by blast+
  have "u64_of (buf_offset b' + (2 ^ 64 - buf_offset ?b)) = ?n"
  proof -
    have "buf_offset b' + (2 ^ 64 - buf_offset ?b) = ?n + 2 ^ 64" using b'(3) small by simp
    then show ?thesis using small by (simp add: u64_of_def)
  qed
  then have w: "StreamBufferWrite al c xs ?n = Some (?n, c\<lparr>cb_buffer := b'\<rparr>)"
    using b'(1) by (simp add: StreamBufferWrite_def)
  have "take (buf_size b') (buf_bytes b') = take (buf_offset ?b) (take (buf_size ?b) (buf_bytes ?b)) @ xs @
      drop (buf_offset ?b + ?n) (take (buf_size ?b) (buf_bytes ?b))" (is "?l = ?r")
  proof (rule nth_equalityI)
    show "length ?l = length ?r" using len b'(4) by simp
    fix i assume "i < length ?l"
    then have i: "i < buf_size b'" by simp
    show "?l ! i = ?r ! i"
      using i len b'(4,6,7) b'(7) [rule_format, of "i - buf_offset ?b"]
      by (auto simp: nth_append max_def split: if_splits)
  qed
  then have "ctx_bytes (c\<lparr>cb_buffer := b'\<rparr>) = take (buf_offset ?b) (ctx_bytes c) @ xs @
      drop (buf_offset ?b + ?n) (ctx_bytes c)" by (simp add: ctx_bytes_def)
  moreover have "ctx_inv (c\<lparr>cb_buffer := b'\<rparr>)" using b b'(2,4) small by (simp add: ctx_inv_def)
  ultimately show ?thesis using w b'(3) by (intro exI [of _ "c\<lparr>cb_buffer := b'\<rparr>"]) simp
qed

interpretation on_buffer: stream_medium ctx_bytes "\<lambda>c. buf_offset (cb_buffer c)" ctx_inv "ctx_room al"
  StreamBufferRead "StreamBufferWrite al" StreamBufferSeek StreamBufferTell for al
proof unfold_locales
  fix u :: vl_stream_ctx_buffer and n p :: nat and xs :: "byte list"
  assume inv: "ctx_inv u"
  then have b: "buf_inv (cb_buffer u)" by (simp add: ctx_inv_def)
  note len = buf_inv_length [OF b]
  show "buf_offset (cb_buffer u) \<le> length (ctx_bytes u)" using len by (simp add: ctx_bytes_def)
  show "StreamBufferTell u = Some (int (buf_offset (cb_buffer u)))"
    using inv len by (simp add: StreamBufferTell_def s64_of_def ctx_inv_def)
  show "\<exists>u'. StreamBufferRead u n = Some (n, take n (drop (buf_offset (cb_buffer u)) (ctx_bytes u)), u') \<and>
      ctx_inv u' \<and> ctx_bytes u' = ctx_bytes u \<and> buf_offset (cb_buffer u') = buf_offset (cb_buffer u) + n"
    if "buf_offset (cb_buffer u) + n \<le> length (ctx_bytes u)"
  proof -
    have le: "buf_offset (cb_buffer u) + n \<le> buf_size (cb_buffer u)" using that len by (simp add: ctx_bytes_def)
    have "take n (drop (buf_offset (cb_buffer u)) (ctx_bytes u)) =
        take n (drop (buf_offset (cb_buffer u)) (buf_bytes (cb_buffer u)))"
      using le by (simp add: ctx_bytes_def drop_take min_def)
    then show ?thesis
      using inv le buffer_read_ok [OF b le] buf_inv_seek [OF b le]
      by (simp add: StreamBufferRead_def ctx_inv_def ctx_bytes_def)
  qed
  show "\<exists>u'. StreamBufferWrite al u xs (length xs) = Some (length xs, u') \<and> ctx_inv u' \<and>
      buf_offset (cb_buffer u') = buf_offset (cb_buffer u) + length xs \<and>
      ctx_bytes u' = take (buf_offset (cb_buffer u)) (ctx_bytes u) @ xs @
        drop (buf_offset (cb_buffer u) + length xs) (ctx_bytes u)"
    if "ctx_room al u (length xs)"
    using StreamBufferWrite_ok [OF inv that] .
  show "\<exists>u'. StreamBufferSeek u (int p) VL_STREAM_SEEK_SET = Some (True, u') \<and> ctx_inv u' \<and>
      ctx_bytes u' = ctx_bytes u \<and> buf_offset (cb_buffer u') = p"
    if "p \<le> length (ctx_bytes u)"
  proof -
    have "p \<le> buf_size (cb_buffer u)" using that by (simp add: ctx_bytes_def)
    then show ?thesis
      using inv buf_inv_seek [OF b, of p]
      by (simp add: StreamBufferSeek_def vlBufferSeek_def ctx_inv_def ctx_bytes_def)
  qed
qed

section \<open>A block of memory is a medium\<close>

definition cm_inv :: "vl_stream_ctx_mem \<Rightarrow> bool" where
  "cm_inv c \<longleftrightarrow> cm_cursor c \<le> cm_size c \<and> cm_size c = length (cm_start c) \<and> cm_size c < 2 ^ 63"

lemma mem_available: "cm_inv c \<Longrightarrow> mem_available c = cm_size c - cm_cursor c"
proof -
  assume c: "cm_inv c"
  then have "cm_size c + (2 ^ 64 - cm_cursor c) = (cm_size c - cm_cursor c) + 2 ^ 64" by (simp add: cm_inv_def)
  moreover have "cm_size c - cm_cursor c < 2 ^ 64" using c by (intro less_imp_diff_less) (simp add: cm_inv_def)
  ultimately show ?thesis unfolding mem_available_def u64_of_def by (simp only: mod_add_self2 mod_less)
qed

interpretation on_memory: stream_medium cm_start cm_cursor "\<lambda>c. cm_inv c \<and> \<not> cm_readOnly c"
  "\<lambda>c n. cm_cursor c + n \<le> cm_size c" StreamMemRead StreamMemWrite StreamMemSeek StreamMemTell
proof unfold_locales
  fix u :: vl_stream_ctx_mem and n p :: nat and xs :: "byte list"
  assume asm: "cm_inv u \<and> \<not> cm_readOnly u"
  then have u: "cm_inv u" "\<not> cm_readOnly u" "cm_cursor u \<le> cm_size u" "cm_size u = length (cm_start u)"
    "cm_size u < 2 ^ 63" by (simp_all add: cm_inv_def)
  note avail = mem_available [OF u(1)]
  show "cm_cursor u \<le> length (cm_start u)" using u by simp
  show "StreamMemTell u = Some (int (cm_cursor u))" using u by (simp add: StreamMemTell_def s64_of_def)
  show "\<exists>u'. StreamMemRead u n = Some (n, take n (drop (cm_cursor u) (cm_start u)), u') \<and>
      (cm_inv u' \<and> \<not> cm_readOnly u') \<and> cm_start u' = cm_start u \<and> cm_cursor u' = cm_cursor u + n"
    if "cm_cursor u + n \<le> length (cm_start u)"
  proof (cases "cm_cursor u = cm_size u")
    case True
    then show ?thesis using that u asm avail by (simp add: StreamMemRead_def)
  next
    case False
    then show ?thesis
      using that u avail
      by (simp add: StreamMemRead_def Let_def read_range_Some u64_of_id cm_inv_def)
  qed
  show "\<exists>u'. StreamMemWrite u xs (length xs) = Some (length xs, u') \<and> (cm_inv u' \<and> \<not> cm_readOnly u') \<and>
      cm_cursor u' = cm_cursor u + length xs \<and>
      cm_start u' = take (cm_cursor u) (cm_start u) @ xs @ drop (cm_cursor u + length xs) (cm_start u)"
    if "cm_cursor u + length xs \<le> cm_size u"
  proof (cases "cm_cursor u = cm_size u")
    case True
    then show ?thesis using that u asm avail by (simp add: StreamMemWrite_def)
  next
    case False
    have not_less: "\<not> length (cm_start u) - cm_cursor u < length xs" using that u by simp
    from False show ?thesis
      using that u avail write_range_Some [of "cm_cursor u" xs "cm_start u"] not_less
      by (simp add: StreamMemWrite_def Let_def read_range_Some u64_of_id cm_inv_def)
  qed
  show "\<exists>u'. StreamMemSeek u (int p) VL_STREAM_SEEK_SET = Some (True, u') \<and> (cm_inv u' \<and> \<not> cm_readOnly u') \<and>
      cm_start u' = cm_start u \<and> cm_cursor u' = p"
    if "p \<le> length (cm_start u)"
    using that u by (simp add: StreamMemSeek_def s64_of_def Let_def cm_inv_def)
qed

section \<open>Streams on buffers\<close>

lemma vlStreamNew_ok:
  "malloc_at al 88 \<noteq> None \<Longrightarrow> vlStreamNew al u = Some (Some
     \<lparr>sm_read = None, sm_write = None, sm_seek = None, sm_tell = None, sm_flush = None, sm_close = None,
      sm_userData = u, sm_locked = False, sm_refCount = 1, sm_totalRead = 0, sm_totalWritten = 0\<rparr>)"
  by (auto simp: vlStreamNew_def)

lemmas stream_setters = vlStreamSetRead_def vlStreamSetWrite_def vlStreamSetSeek_def vlStreamSetTell_def
  vlStreamSetFlush_def vlStreamSetClose_def

lemma open_buffer_ok:
  assumes al: "alloc_upto al k" "88 < k" and b: "buf_inv b" "buf_size b < 2 ^ 63"
  shows "\<exists>s. vlStreamOpenBuffer al (Some b) own = Some (Some s) \<and> on_buffer.serves al s \<and>
    sm_userData s = \<lparr>cb_buffer = b, cb_ownsBuffer = own\<rparr> \<and> sm_totalRead s = 0 \<and> sm_totalWritten s = 0 \<and>
    sm_refCount s = 1"
proof -
  have "malloc_at al 88 \<noteq> None" and "malloc_at al (16 + MEMORY_HEADER_SIZE) \<noteq> None"
    using al by (simp_all add: alloc_upto_def MEMORY_HEADER_SIZE_def)
  moreover have "allocator_ok al" using al(1) by (simp add: alloc_upto_def)
  ultimately obtain m where "vlMemAlloc al 16 = Some (Some m)"
    using mem_alloc_inv [of al 16] by (force simp: MEMORY_HEADER_SIZE_def)
  then show ?thesis
    using \<open>malloc_at al 88 \<noteq> None\<close> b
    by (simp add: vlStreamOpenBuffer_def vlStreamNew_ok stream_setters on_buffer.serves_def ctx_inv_def Let_def)
qed

text \<open>
  C27. A stream over a buffer gives back what was written to it: after \<^verbatim>\<open>vlStreamOpenBuffer\<close>, a write
  at the offset of the buffer moves the position to its end, growing the buffer as far as necessary;
  seeking back and reading returns the bytes that were written, the bytes in front of and behind
  them are unchanged, both totals are the number of bytes, and the lock is free again.
\<close>

theorem stream_buffer_roundtrip:
  assumes "buf_inv b" and "buf_size b < 2 ^ 63"
    and "alloc_upto al k" and "k \<le> 2 ^ 62" and "88 < k" and "write_room b (length xs) < k"
  shows "\<exists>s s1 s2 s3. vlStreamOpenBuffer al (Some b) own = Some (Some s) \<and>
    vlStreamWrite (Some s) (Some xs) (length xs) = Some (length xs, Some s1) \<and>
    vlStreamTell (Some s1) = Some (int (buf_offset b + length xs), Some s1) \<and>
    vlStreamSeek (Some s1) (int (buf_offset b)) VL_STREAM_SEEK_SET = Some (True, Some s2) \<and>
    vlStreamRead (Some s2) True (length xs) = Some (length xs, xs, Some s3) \<and>
    ctx_bytes (sm_userData s3) = take (buf_offset b) (take (buf_size b) (buf_bytes b)) @ xs @
      drop (buf_offset b + length xs) (take (buf_size b) (buf_bytes b)) \<and>
    sm_totalRead s3 = length xs \<and> sm_totalWritten s3 = length xs \<and> \<not> sm_locked s3"
proof -
  obtain s where s: "vlStreamOpenBuffer al (Some b) own = Some (Some s)" "on_buffer.serves al s"
    "sm_userData s = \<lparr>cb_buffer = b, cb_ownsBuffer = own\<rparr>" "sm_totalRead s = 0" "sm_totalWritten s = 0"
    using open_buffer_ok [OF assms(3,5,1,2)] by blast
  have "ctx_room al (sm_userData s) (length xs)" using s(3) assms(3,4,6) by (auto simp: ctx_room_def)
  from on_buffer.write_seek_read [OF s(2) this]
  obtain s1 s2 s3 where r: "vlStreamWrite (Some s) (Some xs) (length xs) = Some (length xs, Some s1)"
    "vlStreamTell (Some s1) = Some (int (buf_offset b + length xs), Some s1)"
    "vlStreamSeek (Some s1) (int (buf_offset b)) VL_STREAM_SEEK_SET = Some (True, Some s2)"
    "vlStreamRead (Some s2) True (length xs) = Some (length xs, xs, Some s3)" "on_buffer.serves al s3"
    "ctx_bytes (sm_userData s3) = take (buf_offset b) (take (buf_size b) (buf_bytes b)) @ xs @
      drop (buf_offset b + length xs) (take (buf_size b) (buf_bytes b))"
    "sm_totalRead s3 = u64_of (length xs)" "sm_totalWritten s3 = u64_of (length xs)"
    using s(3-5) by (auto simp: ctx_bytes_def)
  have "u64_of (length xs) = length xs"
    using assms(4,6) by (intro u64_of_id) (simp add: write_room_def)
  moreover have "\<not> sm_locked s3" using r(5) by (simp add: on_buffer.serves_def)
  ultimately show ?thesis using s(1) r by auto
qed

theorem stream_buffer_roundtrip_witness:
  "\<exists>s s1 s2 s3. vlStreamOpenBuffer some_allocator (Some sample_buffer) True = Some (Some s) \<and>
     vlStreamWrite (Some s) (Some [Some 7, Some 8, Some 9]) 3 = Some (3, Some s1) \<and>
     vlStreamSeek (Some s1) 1 VL_STREAM_SEEK_SET = Some (True, Some s2) \<and>
     vlStreamRead (Some s2) True 3 = Some (3, [Some 7, Some 8, Some 9], Some s3) \<and>
     sm_totalWritten s3 = 3"
  using stream_buffer_roundtrip [OF sample_buffer_inv _ some_allocator_upto, of "[Some 7, Some 8, Some 9]" True]
  by (auto simp: write_room_def sample_buffer_def sample_memory_def vlMemAlignment_def mem_defs numeral_3_eq_3)

section \<open>Streams on memory\<close>

text \<open>
  What a caller may do with a stream it opened on \<open>mem\<close>: any calls, with offsets of 64 bits, and
  with sources that have as many bytes as it says.
\<close>

inductive mem_session :: "byte list \<Rightarrow> bool \<Rightarrow> vl_stream_ctx_mem vl_stream option \<Rightarrow> bool" for mem ro where
  opened: "InternalOpenMem al (Some mem) (length mem) ro = Some s \<Longrightarrow> mem_session mem ro s"
| reading: "mem_session mem ro s \<Longrightarrow> vlStreamRead s out n = Some (k, xs, s') \<Longrightarrow> mem_session mem ro s'"
| writing: "mem_session mem ro s \<Longrightarrow> \<forall>bs. src = Some bs \<longrightarrow> n \<le> length bs \<Longrightarrow> vlStreamWrite s src n = Some (k, s') \<Longrightarrow> mem_session mem ro s'"
| seeking: "mem_session mem ro s \<Longrightarrow> - (2 ^ 63) \<le> off \<Longrightarrow> off < 2 ^ 63 \<Longrightarrow> vlStreamSeek s off origin = Some (r, s') \<Longrightarrow> mem_session mem ro s'"
| telling: "mem_session mem ro s \<Longrightarrow> vlStreamTell s = Some (p, s') \<Longrightarrow> mem_session mem ro s'"
| flushing: "mem_session mem ro s \<Longrightarrow> vlStreamFlush s = Some s' \<Longrightarrow> mem_session mem ro s'"

definition mem_stream :: "byte list \<Rightarrow> bool \<Rightarrow> vl_stream_ctx_mem vl_stream \<Rightarrow> bool" where
  "mem_stream mem ro s \<longleftrightarrow> sm_read s = Some StreamMemRead \<and> sm_write s = (if ro then None else Some StreamMemWrite) \<and>
     sm_seek s = Some StreamMemSeek \<and> sm_tell s = Some StreamMemTell \<and> sm_flush s = None \<and> \<not> sm_locked s \<and>
     (let c = sm_userData s
      in cm_inv c \<and> cm_size c = length mem \<and> cm_readOnly c = ro \<and> (ro \<longrightarrow> cm_start c = mem))"

lemma mem_stream_open:
  assumes "InternalOpenMem al (Some mem) (length mem) ro = Some (Some s)" and "length mem < 2 ^ 63"
  shows "mem_stream mem ro s"
  using assms
  by (auto simp: InternalOpenMem_def mem_stream_def cm_inv_def Let_def vlStreamNew_def stream_setters bind_eq_Some_conv
      split: option.splits if_splits)

text \<open>The steps of the medium, at any request.\<close>

lemma StreamMemRead_any:
  assumes "cm_inv c"
  shows "StreamMemRead c n = Some (min n (cm_size c - cm_cursor c), take n (drop (cm_cursor c) (cm_start c)),
    c\<lparr>cm_cursor := cm_cursor c + min n (cm_size c - cm_cursor c)\<rparr>)"
proof -
  have c: "cm_cursor c \<le> cm_size c" "cm_size c = length (cm_start c)" "cm_size c < 2 ^ 63"
    using assms by (simp_all add: cm_inv_def)
  have u: "u64_of k = k" if "k \<le> length (cm_start c)" for k using that c by (intro u64_of_id) simp
  show ?thesis
  proof (cases "n \<le> cm_size c - cm_cursor c")
    case True
    then show ?thesis
      using c u [of "cm_cursor c + n"] mem_available [OF assms]
      by (auto simp: StreamMemRead_def Let_def read_range_Some)
  next
    case False
    then show ?thesis
      using c u [of "length (cm_start c)"] mem_available [OF assms]
      by (simp add: StreamMemRead_def Let_def read_range_Some)
  qed
qed

lemma StreamMemWrite_any:
  assumes "cm_inv c" and "\<not> cm_readOnly c" and "n \<le> length bs"
  shows "\<exists>start. StreamMemWrite c bs n = Some (min n (cm_size c - cm_cursor c),
    c\<lparr>cm_start := start, cm_cursor := cm_cursor c + min n (cm_size c - cm_cursor c)\<rparr>) \<and> length start = length (cm_start c)"
proof -
  let ?k = "min n (cm_size c - cm_cursor c)"
  have c: "cm_cursor c \<le> cm_size c" "cm_size c = length (cm_start c)" "cm_size c < 2 ^ 63"
    using assms by (simp_all add: cm_inv_def)
  have u: "u64_of (cm_cursor c + ?k) = cm_cursor c + ?k" using c by (intro u64_of_id) simp
  have "cm_cursor c + length (take ?k bs) \<le> length (cm_start c)" using c assms(3) by simp
  note stored = write_range_Some [OF this]
  show ?thesis
  proof (cases "mem_available c = 0")
    case True
    then show ?thesis
      using assms c mem_available [OF assms(1)]
      by (intro exI [of _ "cm_start c"]) (simp add: StreamMemWrite_def)
  next
    case False
    have "(if n > mem_available c then mem_available c else n) = ?k"
      using mem_available [OF assms(1)] by simp
    moreover have "read_range bs 0 ?k = Some (take ?k bs)" using assms(3) by (simp add: read_range_Some)
    ultimately have "StreamMemWrite c bs n = Some (?k,
        c\<lparr>cm_start := take (cm_cursor c) (cm_start c) @ take ?k bs @ drop (cm_cursor c + length (take ?k bs)) (cm_start c),
          cm_cursor := cm_cursor c + ?k\<rparr>)"
      unfolding StreamMemWrite_def Let_def using False assms(2) stored u by (simp del: take_take length_take)
    moreover have "length (take (cm_cursor c) (cm_start c) @ take ?k bs @
        drop (cm_cursor c + length (take ?k bs)) (cm_start c)) = length (cm_start c)"
      using c assms(3) by simp
    ultimately show ?thesis by blast
  qed
qed

text \<open>What a caller gets for a position before it is clamped.\<close>

fun seek_base :: "vl_stream_ctx_mem \<Rightarrow> vl_stream_origin \<Rightarrow> nat" where
  "seek_base c VL_STREAM_SEEK_SET = 0"
| "seek_base c VL_STREAM_SEEK_CUR = cm_cursor c"
| "seek_base c VL_STREAM_SEEK_END = cm_size c"

lemma StreamMemSeek_any:
  assumes "cm_inv c" and "- (2 ^ 63) \<le> off" and "off < 2 ^ 63"
  shows "StreamMemSeek c off origin =
    (let p = int (seek_base c origin) + off
     in if 2 ^ 63 \<le> p then None else if p < 0 then Some (False, c)
        else Some (True, c\<lparr>cm_cursor := min (nat p) (cm_size c)\<rparr>))"
proof -
  have c: "cm_cursor c \<le> cm_size c" "cm_size c < 2 ^ 63" using assms(1) by (simp_all add: cm_inv_def)
  have b: "seek_base c origin < 2 ^ 63" using c by (cases origin) simp_all
  let ?p = "int (seek_base c origin) + off"
  have new: "(case origin of VL_STREAM_SEEK_SET \<Rightarrow> Some off
      | VL_STREAM_SEEK_CUR \<Rightarrow> add_s64 (s64_of (cm_cursor c)) off
      | VL_STREAM_SEEK_END \<Rightarrow> add_s64 (s64_of (cm_size c)) off) = (if 2 ^ 63 \<le> ?p then None else Some ?p)"
    using c assms(2,3) by (cases origin) (simp_all add: add_s64_def s64_of_def)
  have clamp: "nat ((if ?p > s64_of (cm_size c) then s64_of (cm_size c) else ?p) mod 2 ^ 64) = min (nat ?p) (cm_size c)"
    if "0 \<le> ?p" "?p < 2 ^ 63"
    using that c by (auto simp: s64_of_def min_def nat_mod_distrib nat_le_iff)
  show ?thesis
    unfolding StreamMemSeek_def new using clamp by (simp add: Let_def)
qed

text \<open>The operations of a stream on memory, in every state that a session can reach.\<close>

lemma mem_stream_read:
  assumes "mem_stream mem ro s"
  shows "\<exists>s'. vlStreamRead (Some s) True n = Some (min n (length mem - cm_cursor (sm_userData s)),
      take n (drop (cm_cursor (sm_userData s)) (cm_start (sm_userData s))), Some s') \<and> mem_stream mem ro s'"
  using assms StreamMemRead_any [of "sm_userData s" n]
  by (auto simp: mem_stream_def vlStreamRead_def stream_obtain_def stream_release_def Let_def cm_inv_def)

lemma mem_stream_write:
  assumes "mem_stream mem ro s" and "n \<le> length bs"
  shows "\<exists>s'. vlStreamWrite (Some s) (Some bs) n =
      Some (if ro then 0 else min n (length mem - cm_cursor (sm_userData s)), Some s') \<and> mem_stream mem ro s'"
proof (cases ro)
  case True
  then show ?thesis using assms(1) by (simp add: mem_stream_def vlStreamWrite_def)
next
  case False
  then obtain start where "StreamMemWrite (sm_userData s) bs n =
      Some (min n (cm_size (sm_userData s) - cm_cursor (sm_userData s)),
        sm_userData s\<lparr>cm_start := start,
          cm_cursor := cm_cursor (sm_userData s) + min n (cm_size (sm_userData s) - cm_cursor (sm_userData s))\<rparr>)"
    "length start = length (cm_start (sm_userData s))"
    using StreamMemWrite_any [of "sm_userData s" n bs] assms by (auto simp: mem_stream_def Let_def)
  then show ?thesis
    using assms(1) False
    by (auto simp: mem_stream_def vlStreamWrite_def stream_obtain_def stream_release_def Let_def cm_inv_def)
qed

lemma mem_stream_seek:
  assumes "mem_stream mem ro s" and "- (2 ^ 63) \<le> off" and "off < 2 ^ 63"
  shows "let p = int (seek_base (sm_userData s) origin) + off
    in if 2 ^ 63 \<le> p then vlStreamSeek (Some s) off origin = None
       else \<exists>s'. vlStreamSeek (Some s) off origin = Some (0 \<le> p, Some s') \<and> mem_stream mem ro s' \<and>
         cm_cursor (sm_userData s') = (if p < 0 then cm_cursor (sm_userData s) else min (nat p) (length mem))"
  using assms(1) StreamMemSeek_any [OF _ assms(2,3), of "sm_userData s" origin]
  by (auto simp: mem_stream_def vlStreamSeek_def stream_obtain_def stream_release_def Let_def cm_inv_def)

lemma mem_session_stream:
  assumes "mem_session mem ro s" and "length mem < 2 ^ 63"
  shows "\<forall>st. s = Some st \<longrightarrow> mem_stream mem ro st"
  using assms
proof (induction rule: mem_session.induct)
  case (opened al s)
  then show ?case using mem_stream_open by blast
next
  case (reading s out n k xs s')
  then show ?case
  proof (cases "out \<and> s \<noteq> None")
    case True
    then obtain st where st: "s = Some st" "mem_stream mem ro st" "out" using reading by auto
    then show ?thesis using reading.hyps(2) mem_stream_read [OF st(2), of n] by auto
  next
    case False
    then have "s' = s" using reading.hyps(2) by (auto simp: vlStreamRead_def split: option.splits)
    then show ?thesis using reading by simp
  qed
next
  case (writing s src n k s')
  then show ?case
  proof (cases "src \<noteq> None \<and> s \<noteq> None")
    case True
    then obtain st bs where st: "s = Some st" "mem_stream mem ro st" "src = Some bs" using writing by auto
    then show ?thesis using writing.hyps(2,3) mem_stream_write [OF st(2), of n bs] by auto
  next
    case False
    then have "s' = s" using writing.hyps(3) by (auto simp: vlStreamWrite_def split: option.splits)
    then show ?thesis using writing by simp
  qed
next
  case (seeking s off origin r s')
  then show ?case
  proof (cases s)
    case (Some st)
    then have "mem_stream mem ro st" using seeking by simp
    from mem_stream_seek [OF this seeking.hyps(2,3), of origin]
    show ?thesis using seeking.hyps(4) Some by (auto simp: Let_def split: if_splits)
  qed (auto simp: vlStreamSeek_def)
next
  case (telling s p s')
  then show ?case
    by (cases s)
      (auto simp: vlStreamTell_def mem_stream_def stream_obtain_def stream_release_def StreamMemTell_def Let_def)
next
  case (flushing s s')
  then show ?case
    by (cases s)
      (auto simp: vlStreamFlush_def mem_stream_def stream_obtain_def stream_release_def Let_def)
qed

text \<open>
  C28. A stream on a block of memory never leaves it: whatever calls were made since it was opened, the
  cursor is inside of the block, a read-only block is unchanged, and the next read and the next
  write return, with the bytes that are left at most; a seek past the end is clamped to the end,
  one in front of the start refused. Only a seek whose position exceeds 63 bits is undefined.
\<close>

theorem stream_memory_safe:
  assumes "mem_session mem ro (Some s)" and "length mem < 2 ^ 63"
    and "n \<le> length bs" and "- (2 ^ 63) \<le> off" and "off < 2 ^ 63"
  shows "let c = sm_userData s; left = length mem - cm_cursor c; p = int (seek_base c origin) + off
    in cm_cursor c \<le> length mem \<and> length (cm_start c) = length mem \<and> (ro \<longrightarrow> cm_start c = mem) \<and>
      (\<exists>s'. vlStreamRead (Some s) True n = Some (min n left, take n (drop (cm_cursor c) (cm_start c)), Some s')) \<and>
      (\<exists>s'. vlStreamWrite (Some s) (Some bs) n = Some (if ro then 0 else min n left, Some s')) \<and>
      (if 2 ^ 63 \<le> p then vlStreamSeek (Some s) off origin = None
       else \<exists>s'. vlStreamSeek (Some s) off origin = Some (0 \<le> p, Some s') \<and>
         cm_cursor (sm_userData s') = (if p < 0 then cm_cursor c else min (nat p) (length mem)))"
proof -
  have s: "mem_stream mem ro s" using mem_session_stream [OF assms(1,2)] by simp
  then have "cm_cursor (sm_userData s) \<le> length mem" "length (cm_start (sm_userData s)) = length mem"
    "ro \<longrightarrow> cm_start (sm_userData s) = mem"
    by (auto simp: mem_stream_def cm_inv_def Let_def)
  moreover note mem_stream_read [OF s, of n] mem_stream_write [OF s assms(3)]
    mem_stream_seek [OF s assms(4,5), of origin]
  ultimately show ?thesis unfolding Let_def by (cases "2 ^ 63 \<le> int (seek_base (sm_userData s) origin) + off") auto
qed

theorem stream_memory_safe_witness:
  "\<exists>s s'. mem_session [Some 1, Some 2] True (Some s) \<and> vlStreamSeek (Some s) 5 VL_STREAM_SEEK_SET = Some (True, Some s') \<and>
     cm_cursor (sm_userData s') = 2"
proof -
  have "malloc_at some_allocator 88 \<noteq> None" by (simp add: some_allocator_def)
  moreover obtain m where "vlMemAlloc some_allocator 32 = Some (Some m)"
    using mem_alloc_inv [OF some_allocator_ok, of 32] by (force simp: some_allocator_def mem_defs)
  ultimately obtain s where s: "InternalOpenMem some_allocator (Some [Some 1, Some 2]) (length [Some 1, Some (2::u8)]) True =
      Some (Some s)"
    by (simp add: InternalOpenMem_def vlStreamNew_ok stream_setters Let_def)
  then have "mem_session [Some 1, Some 2] True (Some s)" by (rule mem_session.opened)
  from stream_memory_safe [OF this, of 0 "[]" 5 VL_STREAM_SEEK_SET] this show ?thesis
    by (auto simp: Let_def)
qed

end
