(* ===== verification/VL_StreamRefs.thy ===== *)
theory VL_StreamRefs
  imports VL_Stream
begin

text \<open>
  The references of a stream: \<^verbatim>\<open>vlStreamRetain\<close> and \<^verbatim>\<open>vlStreamDelete\<close> in one thread, and the atomic
  steps of \<^verbatim>\<open>vlStreamDelete\<close> in any number of threads, as a step relation.
\<close>

section \<open>One thread\<close>

lemma release_loop_once: "0 < n \<Longrightarrow> n < 2 ^ 64 \<Longrightarrow> release_loop n n = Some (n - 1)"
proof -
  assume n: "0 < n" "n < 2 ^ 64"
  have "n + (2 ^ 64 - 1) = (n - 1) + 2 ^ 64" using n by simp
  moreover have "n - 1 < 2 ^ 64" using n by simp
  ultimately have "u64_of (n + (2 ^ 64 - 1)) = n - 1" unfolding u64_of_def by (simp only: mod_add_self2 mod_less)
  moreover have "n - 1 \<noteq> n" using n by simp
  ultimately show ?thesis by (subst release_loop.simps) (subst release_loop.simps, simp)
qed

definition closes :: "'u vl_stream \<Rightarrow> bool" where
  "closes s \<longleftrightarrow> (case sm_close s of None \<Rightarrow> True | Some f \<Rightarrow> f (sm_userData s) = Some ())"

lemma closes_refCount [simp]: "closes (s\<lparr>sm_refCount := k\<rparr>) = closes s"
  by (simp add: closes_def split: option.split)

lemma vlStreamDelete_ok:
  assumes "0 < sm_refCount s" and "sm_refCount s < 2 ^ 64" and "closes s" and "\<not> sm_locked s"
  shows "vlStreamDelete (Some s) =
    Some (if sm_refCount s = 1 then None else Some (s\<lparr>sm_refCount := sm_refCount s - 1\<rparr>))"
  using assms
  by (auto simp: vlStreamDelete_def release_loop_once closes_def split: option.splits)

primrec delete_many :: "nat \<Rightarrow> 'u vl_stream option \<Rightarrow> 'u vl_stream option option" where
  "delete_many 0 s = Some s"
| "delete_many (Suc n) s = do { s \<leftarrow> vlStreamDelete s; delete_many n s }"

lemma retain_many:
  "sm_refCount s + n < 2 ^ 64 \<Longrightarrow> (vlStreamRetain ^^ n) (Some s) = Some (s\<lparr>sm_refCount := sm_refCount s + n\<rparr>)"
proof (induction n)
  case (Suc n)
  then have "u64_of (sm_refCount s + n + 1) = sm_refCount s + Suc n" by (subst u64_of_id) simp_all
  then show ?case using Suc by (simp add: vlStreamRetain_def)
qed simp

lemma delete_many_ok:
  assumes "m < k" and "k < 2 ^ 64" and "closes s" and "\<not> sm_locked s"
  shows "delete_many m (Some (s\<lparr>sm_refCount := k\<rparr>)) = Some (Some (s\<lparr>sm_refCount := k - m\<rparr>))"
  using assms
proof (induction m arbitrary: k)
  case (Suc m)
  then have "vlStreamDelete (Some (s\<lparr>sm_refCount := k\<rparr>)) = Some (Some (s\<lparr>sm_refCount := k - 1\<rparr>))"
    by (subst vlStreamDelete_ok) simp_all
  then show ?case using Suc.IH [of "k - 1"] Suc.prems by simp
qed simp

lemma delete_many_all:
  assumes "k < 2 ^ 64 - 1" and "closes s" and "\<not> sm_locked s"
  shows "delete_many (Suc k) (Some (s\<lparr>sm_refCount := Suc k\<rparr>)) = Some None"
  using assms
proof (induction k)
  case 0
  then show ?case by (simp add: vlStreamDelete_ok)
next
  case (Suc k)
  then have "vlStreamDelete (Some (s\<lparr>sm_refCount := Suc (Suc k)\<rparr>)) = Some (Some (s\<lparr>sm_refCount := Suc k\<rparr>))"
    by (subst vlStreamDelete_ok) simp_all
  moreover have "delete_many (Suc (Suc k)) t = do { t \<leftarrow> vlStreamDelete t; delete_many (Suc k) t }"
    for t :: "'a vl_stream option" by simp
  ultimately show ?case using Suc by (simp del: delete_many.simps)
qed

text \<open>
  In a single thread a stream that was retained \<open>n\<close> times is still there after up to \<open>n\<close> calls of
  \<^verbatim>\<open>vlStreamDelete\<close>, and closed and freed by the next.
\<close>

theorem stream_last_reference:
  assumes "sm_refCount s = 1" and "n < 2 ^ 64 - 1" and "closes s" and "\<not> sm_locked s"
  shows "(\<forall>m \<le> n. delete_many m ((vlStreamRetain ^^ n) (Some s)) = Some (Some (s\<lparr>sm_refCount := n + 1 - m\<rparr>))) \<and>
    delete_many (Suc n) ((vlStreamRetain ^^ n) (Some s)) = Some None"
proof -
  have r: "(vlStreamRetain ^^ n) (Some s) = Some (s\<lparr>sm_refCount := Suc n\<rparr>)"
    using retain_many [of s n] assms(1,2) by simp
  have "delete_many m (Some (s\<lparr>sm_refCount := Suc n\<rparr>)) = Some (Some (s\<lparr>sm_refCount := n + 1 - m\<rparr>))" if "m \<le> n" for m
    using delete_many_ok [of m "Suc n" s] that assms by simp
  then show ?thesis unfolding r using delete_many_all [OF assms(2-4)] by blast
qed

section \<open>Several threads\<close>

text \<open>
  Where a thread is in \<^verbatim>\<open>vlStreamDelete\<close>: in front of the first load, in the loop with the number it
  expects, in front of the second load, of the call of \<^verbatim>\<open>close\<close>, of deleting the lock and freeing the stream, or
  done. A thread that goes on with a stream that was freed is at \<open>Faulted\<close>: what it does is undefined. The state
  has the number of references, how often the stream was closed, whether it was freed, and the threads.
\<close>

datatype release_pc = LoadCount | Exchange nat | Check | CloseIt | FreeIt | Released | Faulted

record release_state =
  rl_refCount :: nat
  rl_closed :: nat
  rl_freed :: bool
  rl_pcs :: "release_pc list"

definition goto :: "nat \<Rightarrow> release_pc \<Rightarrow> release_state \<Rightarrow> release_state" where
  "goto i p s = s\<lparr>rl_pcs := (rl_pcs s)[i := p]\<rparr>"

text \<open>
  The atomic step of one thread on a stream that is still there; a strong exchange that succeeds leaves the
  expected number as it is.
\<close>

fun live_step :: "nat \<Rightarrow> release_pc \<Rightarrow> release_state \<Rightarrow> release_state option" where
  "live_step i LoadCount s = Some (goto i (Exchange (rl_refCount s)) s)"
| "live_step i (Exchange old) s =
     Some (if rl_refCount s = old then s\<lparr>rl_refCount := u64_of (old + (2 ^ 64 - 1))\<rparr> else goto i Check s)"
| "live_step i Check s = Some (if rl_refCount s \<noteq> 0 then goto i Released s else goto i CloseIt s)"
| "live_step i CloseIt s = Some (goto i FreeIt (s\<lparr>rl_closed := rl_closed s + 1\<rparr>))"
| "live_step i FreeIt s = Some (goto i Released (s\<lparr>rl_freed := True\<rparr>))"
| "live_step i Released s = None"
| "live_step i Faulted s = None"

text \<open>Every step that is left accesses the stream.\<close>

definition thread_step :: "nat \<Rightarrow> release_pc \<Rightarrow> release_state \<Rightarrow> release_state option" where
  "thread_step i p s =
     (if p \<in> {Released, Faulted} then None else if rl_freed s then Some (goto i Faulted s) else live_step i p s)"

inductive release_step :: "release_state \<Rightarrow> release_state \<Rightarrow> bool" where
  step: "i < length (rl_pcs s) \<Longrightarrow> thread_step i (rl_pcs s ! i) s = Some s' \<Longrightarrow> release_step s s'"

definition release_start :: "nat \<Rightarrow> nat \<Rightarrow> release_state" where
  "release_start refs threads = \<lparr>rl_refCount = refs, rl_closed = 0, rl_freed = False, rl_pcs = replicate threads LoadCount\<rparr>"

text \<open>A schedule is the list of the threads that take the next step.\<close>

primrec run_schedule :: "nat list \<Rightarrow> release_state \<Rightarrow> release_state option" where
  "run_schedule [] s = Some s"
| "run_schedule (i # is) s =
     (if i < length (rl_pcs s) then do { s \<leftarrow> thread_step i (rl_pcs s ! i) s; run_schedule is s } else None)"

lemma run_schedule_steps: "run_schedule is s = Some s' \<Longrightarrow> (release_step ^^ length is) s s'"
proof (induction "is" arbitrary: s)
  case (Cons i "is")
  then obtain t where "release_step s t" "run_schedule is t = Some s'"
    by (auto split: if_splits bind_splits intro: release_step.step)
  then show ?case using Cons.IH [of t] relpowp_Suc_I2 [of release_step s t "length is" s'] by simp
qed simp

lemma run_schedule_star: "run_schedule is s = Some s' \<Longrightarrow> release_step\<^sup>*\<^sup>* s s'"
  by (rule relpowp_imp_rtranclp [OF run_schedule_steps])

section \<open>Every schedule ends\<close>

lemma sum_list_goto:
  fixes f :: "'a \<Rightarrow> nat"
  assumes "i < length xs"
  shows "sum_list (map f (xs[i := x])) + f (xs ! i) = sum_list (map f xs) + f x"
  using assms elem_le_sum_list [of i "map f xs"] by (simp add: map_update sum_list_update)

lemma sum_list_less:
  fixes f g :: "'a \<Rightarrow> nat"
  assumes "i < length xs" and "\<And>x. x \<in> set xs \<Longrightarrow> f x \<le> g x" and "f (xs ! i) < g (xs ! i)"
  shows "sum_list (map f xs) < sum_list (map g xs)"
  using assms
proof (induction xs arbitrary: i)
  case (Cons x xs)
  have tail: "sum_list (map f xs) \<le> sum_list (map g xs)" using Cons.prems(2) by (intro sum_list_mono) simp
  show ?case
  proof (cases i)
    case 0
    then show ?thesis using Cons.prems(3) tail by simp
  next
    case (Suc j)
    then have "sum_list (map f xs) < sum_list (map g xs)" using Cons.IH [of j] Cons.prems by simp
    then show ?thesis using Cons.prems(2) [of x] by simp
  qed
qed simp

definition not_loaded :: "release_state \<Rightarrow> nat" where
  "not_loaded s = sum_list (map (\<lambda>p. of_bool (p = LoadCount)) (rl_pcs s))"

text \<open>
  Every thread that has not loaded yet has a reference that is still counted, and so has one of
  those that expect the number as it is; \<open>d\<close> references are nobody's here. If there is one, the stream stays.
\<close>

definition release_inv :: "nat \<Rightarrow> release_state \<Rightarrow> bool" where
  "release_inv d s \<longleftrightarrow> rl_refCount s < 2 ^ 64 \<and>
     (\<forall>old. Exchange old \<in> set (rl_pcs s) \<longrightarrow> rl_refCount s \<le> old) \<and>
     d + not_loaded s + of_bool (Exchange (rl_refCount s) \<in> set (rl_pcs s)) \<le> rl_refCount s \<and>
     (0 < d \<longrightarrow> \<not> rl_freed s \<and> rl_closed s = 0 \<and> {CloseIt, FreeIt, Faulted} \<inter> set (rl_pcs s) = {})"

fun steps_left :: "nat \<Rightarrow> release_pc \<Rightarrow> nat" where
  "steps_left refs LoadCount = 6"
| "steps_left refs (Exchange old) = (if old = refs then 5 else 4)"
| "steps_left refs Check = 3"
| "steps_left refs CloseIt = 2"
| "steps_left refs FreeIt = 1"
| "steps_left refs Released = 0"
| "steps_left refs Faulted = 0"

definition all_steps_left :: "release_state \<Rightarrow> nat" where
  "all_steps_left s = sum_list (map (steps_left (rl_refCount s)) (rl_pcs s))"

lemma set_goto: "x \<in> set (xs[i := y]) \<Longrightarrow> x = y \<or> x \<in> set xs"
  using set_update_subset_insert by fastforce

lemma not_loaded_goto:
  "i < length (rl_pcs s) \<Longrightarrow>
   not_loaded (goto i p s) + of_bool (rl_pcs s ! i = LoadCount) = not_loaded s + of_bool (p = LoadCount)"
  using sum_list_goto [of i "rl_pcs s" "\<lambda>p. of_bool (p = LoadCount)" p]
  by (simp add: not_loaded_def goto_def)

lemma release_goto:
  assumes s: "release_inv d s" and i: "i < length (rl_pcs s)"
    and p: "p \<noteq> LoadCount" "\<And>old. p \<noteq> Exchange old" "p \<in> {CloseIt, FreeIt, Faulted} \<longrightarrow> d = 0"
    and less: "steps_left (rl_refCount s) p < steps_left (rl_refCount s) (rl_pcs s ! i)"
  shows "release_inv d (goto i p s) \<and> all_steps_left (goto i p s) < all_steps_left s"
proof
  have sub: "q \<in> set (rl_pcs s) \<or> q = p" if "q \<in> set ((rl_pcs s)[i := p])" for q
    using set_goto [OF that] by auto
  have "not_loaded (goto i p s) \<le> not_loaded s" using not_loaded_goto [OF i, of p] p(1) by simp
  moreover have "Exchange old \<in> set (rl_pcs s)" if "Exchange old \<in> set ((rl_pcs s)[i := p])" for old
    using sub [OF that] p(2) by auto
  moreover have "{CloseIt, FreeIt, Faulted} \<inter> set ((rl_pcs s)[i := p]) = {}" if "0 < d"
    using s sub p(3) that unfolding release_inv_def by (metis (no_types, lifting) disjoint_iff not_gr_zero)
  ultimately show "release_inv d (goto i p s)"
    using s by (auto simp: release_inv_def goto_def of_bool_def split: if_splits)
  show "all_steps_left (goto i p s) < all_steps_left s"
    using less sum_list_goto [OF i, of "steps_left (rl_refCount s)" p] by (simp add: all_steps_left_def goto_def)
qed

lemma release_first_load:
  assumes s: "release_inv d s" and i: "i < length (rl_pcs s)" and "rl_pcs s ! i = LoadCount"
  shows "release_inv d (goto i (Exchange (rl_refCount s)) s) \<and>
    all_steps_left (goto i (Exchange (rl_refCount s)) s) < all_steps_left s"
proof
  let ?e = "Exchange (rl_refCount s)"
  have sub: "q \<in> set (rl_pcs s) \<or> q = ?e" if "q \<in> set ((rl_pcs s)[i := ?e])" for q using set_goto [OF that] by auto
  have "not_loaded (goto i ?e s) + 1 = not_loaded s" using not_loaded_goto [OF i, of ?e] assms(3) by simp
  moreover have "rl_refCount s \<le> old" if "Exchange old \<in> set ((rl_pcs s)[i := ?e])" for old
    using sub [OF that] s by (auto simp: release_inv_def)
  moreover have "{CloseIt, FreeIt, Faulted} \<inter> set ((rl_pcs s)[i := ?e]) = {}" if "0 < d"
    using s sub that unfolding release_inv_def by blast
  ultimately show "release_inv d (goto i ?e s)"
    using s by (auto simp: release_inv_def goto_def of_bool_def split: if_splits)
  show "all_steps_left (goto i ?e s) < all_steps_left s"
    using sum_list_goto [OF i, of "steps_left (rl_refCount s)" ?e] assms(3) by (simp add: all_steps_left_def goto_def)
qed

lemma release_decrement:
  assumes s: "release_inv d s" and i: "i < length (rl_pcs s)" and "rl_pcs s ! i = Exchange (rl_refCount s)"
    and s': "s' = s\<lparr>rl_refCount := u64_of (rl_refCount s + (2 ^ 64 - 1))\<rparr>"
  shows "release_inv d s' \<and> all_steps_left s' < all_steps_left s"
proof
  define old where "old = rl_refCount s"
  have mem: "Exchange old \<in> set (rl_pcs s)" using assms(3) i unfolding old_def by (metis nth_mem)
  have room: "d + not_loaded s + 1 \<le> old" using s mem by (simp add: release_inv_def old_def)
  then have pos: "0 < old" "old < 2 ^ 64" using s by (simp_all add: release_inv_def old_def)
  have "old + (2 ^ 64 - 1) = (old - 1) + 2 ^ 64" "old - 1 < 2 ^ 64" using pos by simp_all
  then have "u64_of (old + (2 ^ 64 - 1)) = old - 1" unfolding u64_of_def by (simp only: mod_add_self2 mod_less)
  then have s'': "s' = s\<lparr>rl_refCount := old - 1\<rparr>" by (simp add: s' old_def)
  have ge: "old \<le> e" if "Exchange e \<in> set (rl_pcs s)" for e using that s by (auto simp: release_inv_def old_def)
  then have gone: "Exchange (old - 1) \<notin> set (rl_pcs s)" using pos by force
  have "rl_refCount s' \<le> e" if "Exchange e \<in> set (rl_pcs s')" for e using ge [of e] that by (simp add: s'')
  then show "release_inv d s'"
    using s pos room gone by (auto simp: release_inv_def s'' not_loaded_def)
  have le: "steps_left (old - 1) p \<le> steps_left old p" if "p \<in> set (rl_pcs s)" for p
    using ge that pos by (cases p) force+
  have "sum_list (map (steps_left (old - 1)) (rl_pcs s)) < sum_list (map (steps_left old) (rl_pcs s))"
    using sum_list_less [OF i le] assms(3) pos by (simp add: old_def)
  then show "all_steps_left s' < all_steps_left s" by (simp add: all_steps_left_def s'' old_def)
qed

lemma release_step_decreases:
  assumes "release_step s s'" and s: "release_inv d s"
  shows "release_inv d s' \<and> all_steps_left s' < all_steps_left s"
  using assms(1)
proof cases
  case (step i)
  note i = step(1)
  note goto = release_goto [OF s i]
  have act: "rl_pcs s ! i \<notin> {Released, Faulted}" using step(2) by (auto simp: thread_step_def)
  show ?thesis
  proof (cases "rl_freed s")
    case True
    then have "d = 0" using s by (auto simp: release_inv_def)
    have "s' = goto i Faulted s" using step(2) True act by (simp add: thread_step_def)
    moreover have "0 < steps_left (rl_refCount s) (rl_pcs s ! i)" using act by (cases "rl_pcs s ! i") simp_all
    ultimately show ?thesis using goto [of Faulted] \<open>d = 0\<close> by simp
  next
    case False
    then have live: "live_step i (rl_pcs s ! i) s = Some s'" using step(2) act by (simp add: thread_step_def)
    have tame: "rl_pcs s ! i \<in> {CloseIt, FreeIt} \<Longrightarrow> d = 0"
      using s nth_mem [OF i] by (auto simp: release_inv_def)
    show ?thesis
    proof (cases "rl_pcs s ! i")
      case LoadCount
      then show ?thesis using live release_first_load [OF s i] by simp
    next
      case (Exchange old)
      show ?thesis
      proof (cases "rl_refCount s = old")
        case True
        then show ?thesis using live Exchange release_decrement [OF s i, of s'] by simp
      next
        case False
        then show ?thesis using goto [of Check] live Exchange by simp
      qed
    next
      case Check
      have "rl_refCount s = 0 \<Longrightarrow> d = 0" using s by (simp add: release_inv_def)
      then show ?thesis using live Check goto [of Released] goto [of CloseIt] by (auto split: if_splits)
    next
      case CloseIt
      let ?t = "s\<lparr>rl_closed := rl_closed s + 1\<rparr>"
      have "d = 0" using tame CloseIt by simp
      then have "release_inv d ?t" "all_steps_left ?t = all_steps_left s"
        using s by (simp_all add: release_inv_def all_steps_left_def not_loaded_def)
      then show ?thesis using release_goto [of d ?t i FreeIt] i CloseIt live \<open>d = 0\<close> by simp
    next
      case FreeIt
      let ?t = "s\<lparr>rl_freed := True\<rparr>"
      have "d = 0" using tame FreeIt by simp
      then have "release_inv d ?t" "all_steps_left ?t = all_steps_left s"
        using s by (simp_all add: release_inv_def all_steps_left_def not_loaded_def)
      then show ?thesis using release_goto [of d ?t i Released] i FreeIt live by simp
    qed (use act in simp_all)
  qed
qed

lemma release_start_inv:
  assumes "threads \<le> refs" and "refs < 2 ^ 64"
  shows "release_inv (refs - threads) (release_start refs threads)" and "all_steps_left (release_start refs threads) = 6 * threads"
  using assms by (auto simp: release_inv_def release_start_def not_loaded_def all_steps_left_def sum_list_replicate)

lemma release_steps_bound:
  "(release_step ^^ m) s s' \<Longrightarrow> release_inv d s \<Longrightarrow>
   release_inv d s' \<and> m + all_steps_left s' \<le> all_steps_left s \<and> length (rl_pcs s') = length (rl_pcs s)"
proof (induction m arbitrary: s')
  case (Suc m)
  then obtain t where t: "(release_step ^^ m) s t" "release_step t s'" by (auto elim: relpowp_Suc_E)
  have "length (rl_pcs s') = length (rl_pcs t)"
    using t(2)
  proof cases
    case (step i)
    then show ?thesis by (cases "rl_pcs t ! i") (auto simp: thread_step_def goto_def split: if_splits)
  qed
  then show ?case using Suc.IH [OF t(1) Suc.prems(2)] release_step_decreases [OF t(2), of d] by auto
qed simp

lemma release_step_progress:
  assumes "i < length (rl_pcs s)" and "rl_pcs s ! i \<notin> {Released, Faulted}"
  shows "\<exists>s'. release_step s s'"
proof -
  have "live_step i (rl_pcs s ! i) s \<noteq> None" using assms(2) by (cases "rl_pcs s ! i") simp_all
  then have "thread_step i (rl_pcs s ! i) s \<noteq> None" using assms(2) by (auto simp: thread_step_def)
  then show ?thesis using release_step.step [OF assms(1)] by blast
qed

text \<open>
  C29. No thread stays in \<^verbatim>\<open>vlStreamDelete\<close>, whatever the schedule: when at most as many threads run it as there
  are references, no run of them takes more than six steps for each thread, and as long as one of them has
  neither returned nor gone on with a freed stream some thread can take a step. If a reference remains besides
  those of the threads, none of them finds the stream freed: they all return, and the stream is still
  referenced and neither closed nor freed. If none remains this does not hold.
\<close>

theorem stream_delete_returns:
  assumes "threads \<le> refs" and "refs < 2 ^ 64" and "(release_step ^^ m) (release_start refs threads) s"
  shows "m \<le> 6 * threads \<and> length (rl_pcs s) = threads \<and>
    (set (rl_pcs s) \<subseteq> {Released, Faulted} \<or> (\<exists>s'. release_step s s')) \<and>
    (threads < refs \<longrightarrow> Faulted \<notin> set (rl_pcs s) \<and> 0 < rl_refCount s \<and> rl_closed s = 0 \<and> \<not> rl_freed s)"
proof -
  note b = release_steps_bound [OF assms(3) release_start_inv(1) [OF assms(1,2)]]
  have "m \<le> 6 * threads" "length (rl_pcs s) = threads"
    using b release_start_inv(2) [OF assms(1,2)] by (simp_all add: release_start_def)
  moreover have "\<exists>s'. release_step s s'" if going: "\<not> set (rl_pcs s) \<subseteq> {Released, Faulted}"
  proof -
    obtain p where "p \<in> set (rl_pcs s)" "p \<notin> {Released, Faulted}" using going by blast
    then obtain i where "i < length (rl_pcs s)" "rl_pcs s ! i \<notin> {Released, Faulted}" by (metis in_set_conv_nth)
    then show ?thesis by (rule release_step_progress)
  qed
  moreover have "Faulted \<notin> set (rl_pcs s) \<and> 0 < rl_refCount s \<and> rl_closed s = 0 \<and> \<not> rl_freed s" if "threads < refs"
    using b that by (auto simp: release_inv_def)
  ultimately show ?thesis by blast
qed

lemma replicate_two: "replicate 2 x = [x, x]"
  by (simp add: numeral_2_eq_2)

lemma two_deletes:
  "run_schedule [0, 1, 0, 0, 0, 1, 1] (release_start 2 2) =
     Some \<lparr>rl_refCount = 1, rl_closed = 0, rl_freed = False, rl_pcs = [Released, Released]\<rparr>"
  "run_schedule [0, 0, 1, 1, 0, 1, 0, 1, 0, 1, 0, 1] (release_start 2 2) =
     Some \<lparr>rl_refCount = 0, rl_closed = 2, rl_freed = True, rl_pcs = [Released, Faulted]\<rparr>"
  "run_schedule [0, 0, 1, 1, 1, 1, 1, 1, 0] (release_start 2 2) =
     Some \<lparr>rl_refCount = 0, rl_closed = 1, rl_freed = True, rl_pcs = [Faulted, Released]\<rparr>"
  "run_schedule [0, 0, 0, 0, 1, 1, 1, 1, 1, 1] (release_start 2 2) =
     Some \<lparr>rl_refCount = 0, rl_closed = 1, rl_freed = True, rl_pcs = [Released, Released]\<rparr>"
  "run_schedule [0, 0, 1, 1, 0, 0, 1, 1] (release_start 3 2) =
     Some \<lparr>rl_refCount = 1, rl_closed = 0, rl_freed = False, rl_pcs = [Released, Released]\<rparr>"
  by (simp_all add: release_start_def thread_step_def goto_def u64_of_def replicate_two)

theorem stream_delete_returns_witness:
  "\<exists>s. run_schedule [0, 0, 1, 1, 0, 0, 1, 1] (release_start 3 2) = Some s \<and> (8::nat) \<le> 6 * 2 \<and>
     set (rl_pcs s) = {Released} \<and> 0 < rl_refCount s \<and> \<not> rl_freed s"
  using stream_delete_returns [OF _ _ run_schedule_steps [OF two_deletes(5)]] two_deletes(5) by simp

text \<open>
  C30. Two threads that give back the two references of a stream at the same time can leave it open
  and with one reference, so that it is never closed or freed; they can also both find the count
  at zero, so that it is closed twice and one of them frees it again after the other; and one can close and free
  it while the other is still in its loop and loads the count from freed memory. When they run one after the
  other it is closed and freed once.
\<close>

theorem stream_delete_race:
  "release_step\<^sup>*\<^sup>* (release_start 2 2) \<lparr>rl_refCount = 1, rl_closed = 0, rl_freed = False, rl_pcs = [Released, Released]\<rparr> \<and>
   release_step\<^sup>*\<^sup>* (release_start 2 2) \<lparr>rl_refCount = 0, rl_closed = 2, rl_freed = True, rl_pcs = [Released, Faulted]\<rparr> \<and>
   release_step\<^sup>*\<^sup>* (release_start 2 2) \<lparr>rl_refCount = 0, rl_closed = 1, rl_freed = True, rl_pcs = [Faulted, Released]\<rparr> \<and>
   release_step\<^sup>*\<^sup>* (release_start 2 2) \<lparr>rl_refCount = 0, rl_closed = 1, rl_freed = True, rl_pcs = [Released, Released]\<rparr>"
  using two_deletes run_schedule_star by blast

end
