(* ===== verification/VL_Half.thy ===== *)
theory VL_Half
  imports VL_Prelude
begin

text \<open>
  \<^verbatim>\<open>vl_half.h\<close>: numbers of half precision as their 16 bits. Numbers of single precision are their 32
  bits; the arithmetic on those is the one of the machine, a parameter.
\<close>

type_synonym vl_half_t = u16

definition VL_HALF_SIGN_MASK :: u16 where "VL_HALF_SIGN_MASK = 0x8000"
definition VL_HALF_EXP_MASK :: u16 where "VL_HALF_EXP_MASK = 0x7C00"
definition VL_HALF_FRAC_MASK :: u16 where "VL_HALF_FRAC_MASK = 0x03FF"
definition VL_HALF_EXP_BIAS :: int where "VL_HALF_EXP_BIAS = 15"

section \<open>Fields\<close>

definition vlHalfSign :: "vl_half_t \<Rightarrow> u16" where
  "vlHalfSign h = drop_bit 15 (h AND VL_HALF_SIGN_MASK)"

definition vlHalfExp :: "vl_half_t \<Rightarrow> u16" where
  "vlHalfExp h = drop_bit 10 (h AND VL_HALF_EXP_MASK)"

definition vlHalfFrac :: "vl_half_t \<Rightarrow> u16" where
  "vlHalfFrac h = h AND VL_HALF_FRAC_MASK"

text \<open>The complement is taken of a number of 32 bits, and the conjunction then has the 16 lower ones.\<close>

definition vlHalfIsZero :: "vl_half_t \<Rightarrow> bool" where
  "vlHalfIsZero h \<longleftrightarrow> (ucast h AND NOT 0x8000 :: u32) = 0"

definition vlHalfIsSubnormal :: "vl_half_t \<Rightarrow> bool" where
  "vlHalfIsSubnormal h \<longleftrightarrow> vlHalfExp h = 0 \<and> vlHalfFrac h \<noteq> 0"

definition vlHalfIsInf :: "vl_half_t \<Rightarrow> bool" where
  "vlHalfIsInf h \<longleftrightarrow> (ucast h AND NOT 0x8000 :: u32) = 0x7C00"

definition vlHalfIsNaN :: "vl_half_t \<Rightarrow> bool" where
  "vlHalfIsNaN h \<longleftrightarrow> vlHalfExp h = 31 \<and> vlHalfFrac h \<noteq> 0"

definition vlHalfSignBit :: "vl_half_t \<Rightarrow> bool" where
  "vlHalfSignBit h \<longleftrightarrow> h AND VL_HALF_SIGN_MASK \<noteq> 0"

definition vlHalfPack :: "u16 \<Rightarrow> u16 \<Rightarrow> u16 \<Rightarrow> vl_half_t" where
  "vlHalfPack sign e frac =
     push_bit 15 (sign AND 1) OR push_bit 10 (e AND 0x1F) OR (frac AND VL_HALF_FRAC_MASK)"

section \<open>From single precision\<close>

text \<open>A shift of a number of 32 bits by 32 places or more is undefined.\<close>

definition shift_right32 :: "u32 \<Rightarrow> nat \<Rightarrow> u32 option" where
  "shift_right32 x n = (if n < 32 then Some (drop_bit n x) else None)"

definition shift_left32 :: "u32 \<Rightarrow> nat \<Rightarrow> u32 option" where
  "shift_left32 x n = (if n < 32 then Some (push_bit n x) else None)"

text \<open>The branch for exponents below those of normal numbers.\<close>

definition half_subnormal :: "u32 \<Rightarrow> int \<Rightarrow> u32 \<Rightarrow> vl_half_t option" where
  "half_subnormal sign e frac =
     (if e < - 24 then Some (vlHalfPack (ucast sign) 0 0)
      else do {
        let mant = frac OR 0x800000;
        let rshift = nat (- e - 1) + 13;
        frac16 \<leftarrow> shift_right32 mant rshift;
        bits \<leftarrow> shift_left32 1 rshift;
        let rem = mant AND (bits - 1);
        half \<leftarrow> shift_left32 1 (rshift - 1);
        let frac16 = (if rem > half \<or> (rem = half \<and> frac16 AND 1 \<noteq> 0) then frac16 + 1 else frac16);
        Some (vlHalfPack (ucast sign) 0 (ucast frac16))
      })"

definition vlHalfFromFloat :: "u32 \<Rightarrow> vl_half_t option" where
  "vlHalfFromFloat f =
     (let sign = drop_bit 31 f AND 1;
          exp = uint (drop_bit 23 f AND 0xFF);
          frac = f AND 0x7FFFFF
      in if exp = 255 then
           (if frac = 0 then Some (vlHalfPack (ucast sign) 31 0) else Some (vlHalfPack (ucast sign) 31 1))
         else let e = exp - 127
              in if e > 15 then Some (vlHalfPack (ucast sign) 31 0)
                 else if e < - 14 then half_subnormal sign e frac
                 else let frac16 = drop_bit 13 frac;
                          rem = frac AND 0x1FFF;
                          frac16 = (if rem > 0x1000 \<or> (rem = 0x1000 \<and> frac16 AND 1 \<noteq> 0) then frac16 + 1 else frac16)
                      in if frac16 = 0x400 then
                           (if e + 1 > 15 then Some (vlHalfPack (ucast sign) 31 0)
                            else Some (vlHalfPack (ucast sign) (word_of_int (e + 1 + VL_HALF_EXP_BIAS)) 0))
                         else Some (vlHalfPack (ucast sign) (word_of_int (e + VL_HALF_EXP_BIAS)) (ucast frac16)))"

section \<open>To single precision\<close>

text \<open>A subnormal number is shifted until its leading bit is the implicit one.\<close>

partial_function (option) normalize_loop :: "u32 \<Rightarrow> int \<Rightarrow> (u32 \<times> int) option" where
  [code]: "normalize_loop frac e =
     (if frac AND 0x400 = 0 then normalize_loop (push_bit 1 frac) (e - 1) else Some (frac, e))"

definition vlHalfToFloat :: "vl_half_t \<Rightarrow> u32 option" where
  "vlHalfToFloat h =
     (let sign = ucast (vlHalfSign h); exp = ucast (vlHalfExp h) :: u32; frac = ucast (vlHalfFrac h)
      in if exp = 0 then
           (if frac = 0 then Some (push_bit 31 sign)
            else do {
              (frac, e) \<leftarrow> normalize_loop frac (- 14);
              let frac = frac AND 0x3FF;
              Some (push_bit 31 sign OR word_of_int ((e + 127) * 2 ^ 23) OR push_bit 13 frac)
            })
         else if exp = 31 then Some (push_bit 31 sign OR 0x7F800000 OR push_bit 13 frac)
         else Some (push_bit 31 sign OR push_bit 23 (exp - 15 + 127) OR push_bit 13 frac))"

section \<open>Arithmetic\<close>

text \<open>The operations on single precision are parameters.\<close>

definition half_op :: "(u32 \<Rightarrow> u32 \<Rightarrow> u32) \<Rightarrow> vl_half_t \<Rightarrow> vl_half_t \<Rightarrow> vl_half_t option" where
  "half_op fop a b = do { x \<leftarrow> vlHalfToFloat a; y \<leftarrow> vlHalfToFloat b; vlHalfFromFloat (fop x y) }"

definition vlHalfAdd :: "(u32 \<Rightarrow> u32 \<Rightarrow> u32) \<Rightarrow> vl_half_t \<Rightarrow> vl_half_t \<Rightarrow> vl_half_t option" where
  "vlHalfAdd fadd a b = half_op fadd a b"

definition vlHalfSub :: "(u32 \<Rightarrow> u32 \<Rightarrow> u32) \<Rightarrow> vl_half_t \<Rightarrow> vl_half_t \<Rightarrow> vl_half_t option" where
  "vlHalfSub fsub a b = half_op fsub a b"

definition vlHalfMul :: "(u32 \<Rightarrow> u32 \<Rightarrow> u32) \<Rightarrow> vl_half_t \<Rightarrow> vl_half_t \<Rightarrow> vl_half_t option" where
  "vlHalfMul fmul a b = half_op fmul a b"

definition vlHalfDiv :: "(u32 \<Rightarrow> u32 \<Rightarrow> u32) \<Rightarrow> vl_half_t \<Rightarrow> vl_half_t \<Rightarrow> vl_half_t option" where
  "vlHalfDiv fdiv a b = half_op fdiv a b"

section \<open>Fields as numbers\<close>

lemma unat_shift_or:
  fixes a b :: "'w::len word"
  assumes "unat b < 2 ^ n" and "unat a * 2 ^ n + unat b < 2 ^ LENGTH('w)"
  shows "unat (push_bit n a OR b) = unat a * 2 ^ n + unat b"
proof -
  have "unat (take_bit n b) = unat b" using assms(1) by (simp add: unsigned_take_bit_eq take_bit_nat_eq_self)
  then have "take_bit n b = b" by (rule unsigned_word_eqI)
  then have low: "\<not> bit b i" if "n \<le> i" for i using that by (metis bit_take_bit_iff leD)
  have "push_bit n a AND b = 0"
    by (rule bit_word_eqI) (use low in \<open>auto simp: bit_simps\<close>)
  then have "push_bit n a OR b = push_bit n a + b" using word_plus_and_or [of "push_bit n a" b] by simp
  moreover have "unat (push_bit n a) = unat a * 2 ^ n"
    unfolding unsigned_push_bit_eq using assms(2) by (simp add: push_bit_eq_mult take_bit_nat_eq_self)
  ultimately show ?thesis using assms(2) by (simp add: unat_word_ariths)
qed

lemma unat_and_mask: "unat (w AND mask n) = unat w mod 2 ^ n"
  unfolding take_bit_eq_mask [symmetric] unsigned_take_bit_eq by (simp only: take_bit_eq_mod)

lemma unat_drop: "unat (drop_bit n w) = unat w div 2 ^ n"
  unfolding unsigned_drop_bit_eq by (simp add: drop_bit_eq_div take_bit_nat_eq_self)

lemma half_masks: "(1 :: 'w::len word) = mask 1" "(0x1F :: u16) = mask 5" "(0x3FF :: u16) = mask 10" "(0x1FFF :: u32) = mask 13"
  "(0x7FFFFF :: u32) = mask 23" "(0xFF :: u32) = mask 8" "(0x3FF :: u32) = mask 10"
  by (simp_all add: mask_eq_exp_minus_1)

lemma unat_pack: "unat (vlHalfPack s e f) = unat s mod 2 * 2 ^ 15 + unat e mod 32 * 2 ^ 10 + unat f mod 1024"
proof -
  have s: "unat (s AND 1) = unat s mod 2" using unat_and_mask [of s 1] by (simp add: half_masks(1) [symmetric])
  have e: "unat (e AND 0x1F) = unat e mod 32" using unat_and_mask [of e 5] by (simp add: half_masks(2))
  have f: "unat (f AND 0x3FF) = unat f mod 1024" using unat_and_mask [of f 10] by (simp add: half_masks(3))
  have "unat e mod 32 < 32" "unat f mod 1024 < 1024" "unat s mod 2 < 2" by simp_all
  then have le: "unat e mod 32 \<le> 31" "unat f mod 1024 \<le> 1023" "unat s mod 2 \<le> 1" by linarith+
  have ef: "unat (push_bit 10 (e AND 0x1F) OR (f AND 0x3FF)) = unat e mod 32 * 2 ^ 10 + unat f mod 1024"
    by (subst unat_shift_or) (use e f le in simp_all)
  have "unat (push_bit 15 (s AND 1) OR (push_bit 10 (e AND 0x1F) OR (f AND 0x3FF))) =
    unat s mod 2 * 2 ^ 15 + (unat e mod 32 * 2 ^ 10 + unat f mod 1024)"
    by (subst unat_shift_or) (use s ef le in simp_all)
  then show ?thesis by (simp add: vlHalfPack_def VL_HALF_FRAC_MASK_def or.assoc)
qed

lemma unat_sign: "unat (vlHalfSign h) = unat h div 2 ^ 15"
proof -
  have "vlHalfSign h = drop_bit 15 h AND drop_bit 15 0x8000" by (simp add: vlHalfSign_def VL_HALF_SIGN_MASK_def)
  also have "drop_bit 15 (0x8000 :: u16) = mask 1" by (simp add: mask_eq_exp_minus_1)
  finally have "unat (vlHalfSign h) = unat h div 2 ^ 15 mod 2" by (simp only: unat_and_mask unat_drop power_one_right)
  moreover have "unat h < 2 ^ 16" using unsigned_less [of h] by simp
  ultimately show ?thesis by simp
qed

lemma unat_exp: "unat (vlHalfExp h) = unat h div 2 ^ 10 mod 32"
proof -
  have "vlHalfExp h = drop_bit 10 h AND drop_bit 10 0x7C00" by (simp add: vlHalfExp_def VL_HALF_EXP_MASK_def)
  also have "drop_bit 10 (0x7C00 :: u16) = mask 5" by (simp add: mask_eq_exp_minus_1)
  finally have "unat (vlHalfExp h) = unat h div 2 ^ 10 mod 2 ^ 5" by (simp only: unat_and_mask unat_drop)
  then show ?thesis by simp
qed

lemma unat_frac: "unat (vlHalfFrac h) = unat h mod 1024"
  using unat_and_mask [of h 10] by (simp add: vlHalfFrac_def VL_HALF_FRAC_MASK_def half_masks(3))

text \<open>The fields and the number determine each other.\<close>

lemma half_fields: "unat h = unat (vlHalfSign h) * 32768 + unat (vlHalfExp h) * 1024 + unat (vlHalfFrac h)"
proof -
  let ?n = "unat h"
  have "?n div 1024 div 32 = ?n div 32768" by (simp add: div_mult2_eq [symmetric])
  moreover have "?n div 1024 = ?n div 1024 div 32 * 32 + ?n div 1024 mod 32" by (rule div_mult_mod_eq [symmetric])
  moreover have "?n = ?n div 1024 * 1024 + ?n mod 1024" by (rule div_mult_mod_eq [symmetric])
  ultimately have "?n = ?n div 32768 * 32768 + ?n div 1024 mod 32 * 1024 + ?n mod 1024" by linarith
  then show ?thesis unfolding unat_sign unat_exp unat_frac by simp
qed

lemma half_field_bounds: "unat (vlHalfSign h) < 2" "unat (vlHalfExp h) < 32" "unat (vlHalfFrac h) < 1024"
proof -
  have "unat h < 2 ^ 16" using unsigned_less [of h] by simp
  then show "unat (vlHalfSign h) < 2" by (simp add: unat_sign)
qed (simp_all add: unat_exp unat_frac)

lemma pack_fields: "vlHalfPack (vlHalfSign h) (vlHalfExp h) (vlHalfFrac h) = h"
proof (rule unsigned_word_eqI)
  show "unat (vlHalfPack (vlHalfSign h) (vlHalfExp h) (vlHalfFrac h)) = unat h"
    unfolding unat_pack half_fields [of h] using half_field_bounds [of h] by simp
qed

text \<open>The fields of a number of single precision.\<close>

definition f32 :: "nat \<Rightarrow> nat \<Rightarrow> nat \<Rightarrow> u32" where
  "f32 s e m = of_nat (s * 2 ^ 31 + e * 2 ^ 23 + m)"

lemma f32_fields:
  assumes "s < 2" and "e < 256" and "m < 2 ^ 23"
  shows "unat (drop_bit 31 (f32 s e m) AND 1) = s" and "uint (drop_bit 23 (f32 s e m) AND 0xFF) = int e"
    and "unat (f32 s e m AND 0x7FFFFF) = m"
proof -
  have n: "unat (f32 s e m) = s * 2 ^ 31 + e * 2 ^ 23 + m"
    using assms by (simp only: f32_def unat_of_nat) simp
  have d31: "(s * 2 ^ 31 + e * 2 ^ 23 + m) div 2 ^ 31 = s" using assms by (simp add: div_nat_eqI)
  have d23: "(s * 2 ^ 31 + e * 2 ^ 23 + m) div 2 ^ 23 = s * 2 ^ 8 + e" using assms by (simp add: div_nat_eqI)
  have "s * 2 ^ 31 + e * 2 ^ 23 + m = m + 2 ^ 23 * (s * 2 ^ 8 + e)" by simp
  then have d: "(s * 2 ^ 31 + e * 2 ^ 23 + m) mod 2 ^ 23 = m" using assms(3) by (simp only: mod_mult_self2 mod_less)
  show "unat (drop_bit 31 (f32 s e m) AND 1) = s"
    using unat_and_mask [of "drop_bit 31 (f32 s e m)" 1] d31 assms(1) n
    unfolding half_masks(1) [symmetric] unat_drop by simp
  have "unat (drop_bit 23 (f32 s e m) AND 0xFF) = e"
    using unat_and_mask [of "drop_bit 23 (f32 s e m)" 8] d23 assms(2) n
    unfolding half_masks(6) [symmetric] unat_drop by simp
  then show "uint (drop_bit 23 (f32 s e m) AND 0xFF) = int e" by (simp add: uint_nat)
  show "unat (f32 s e m AND 0x7FFFFF) = m"
    using unat_and_mask [of "f32 s e m" 23] n d unfolding half_masks(5) [symmetric] by simp
qed

text \<open>A number of half precision from its sign and its other bits.\<close>

definition f16 :: "nat \<Rightarrow> nat \<Rightarrow> vl_half_t" where
  "f16 s n = of_nat (s * 2 ^ 15 + n)"

lemma pack_f16:
  assumes "unat s < 2" and "unat e < 32" and "unat f < 1024"
  shows "vlHalfPack s e f = f16 (unat s) (unat e * 1024 + unat f)"
proof (rule unsigned_word_eqI)
  have "unat (f16 (unat s) (unat e * 1024 + unat f)) = unat s * 2 ^ 15 + (unat e * 1024 + unat f)"
    using assms by (simp only: f16_def unat_of_nat) simp
  then show "unat (vlHalfPack s e f) = unat (f16 (unat s) (unat e * 1024 + unat f))"
    unfolding unat_pack using assms by simp
qed

lemma f32_or:
  assumes "unat a < 2" and "unat b < 256" and "unat c < 2 ^ 23"
  shows "push_bit 31 a OR push_bit 23 b OR c = f32 (unat a) (unat b) (unat c)"
proof (rule unsigned_word_eqI)
  have n: "unat (f32 (unat a) (unat b) (unat c)) = unat a * 2 ^ 31 + unat b * 2 ^ 23 + unat c"
    using assms by (simp only: f32_def unat_of_nat) simp
  have bc: "unat (push_bit 23 b OR c) = unat b * 2 ^ 23 + unat c" by (subst unat_shift_or) (use assms in simp_all)
  have "unat (push_bit 31 a OR (push_bit 23 b OR c)) = unat a * 2 ^ 31 + unat (push_bit 23 b OR c)"
    by (subst unat_shift_or) (use assms bc in simp_all)
  then show "unat (push_bit 31 a OR push_bit 23 b OR c) = unat (f32 (unat a) (unat b) (unat c))"
    unfolding n bc or.assoc by simp
qed

section \<open>Rounding\<close>

text \<open>The reference: division by \<open>2 ^ k\<close>, rounded to the nearest, ties to even.\<close>

definition round_half_even :: "nat \<Rightarrow> nat \<Rightarrow> nat" where
  "round_half_even n k =
     (let q = n div 2 ^ k; r = n mod 2 ^ k
      in if 2 * r > 2 ^ k \<or> (2 * r = 2 ^ k \<and> odd q) then q + 1 else q)"

lemma round_half_even_near:
  shows "2 * \<bar>int (round_half_even n k) * 2 ^ k - int n\<bar> \<le> 2 ^ k"
    and "2 * \<bar>int (round_half_even n k) * 2 ^ k - int n\<bar> = 2 ^ k \<Longrightarrow> 0 < k \<Longrightarrow> even (round_half_even n k)"
proof -
  obtain q r where qr: "n div 2 ^ k = q" "n mod 2 ^ k = r" by blast
  define m where "m = (2 :: nat) ^ k"
  have n: "n = q * m + r" using div_mult_mod_eq [of n "2 ^ k"] unfolding qr m_def by simp
  have r: "r < m" using mod_less_divisor [of "2 ^ k" n] unfolding qr m_def by simp
  have e: "round_half_even n k = (if 2 * r > m \<or> (2 * r = m \<and> odd q) then q + 1 else q)"
    by (simp add: round_half_even_def qr m_def)
  have m: "(2 :: int) ^ k = int m" by (simp add: m_def)
  have n': "int n = int q * int m + int r" using n by simp
  define x where "x = round_half_even n k"
  have "x = q + 1 \<and> (2 * r > m \<or> 2 * r = m \<and> odd q) \<or> x = q \<and> \<not> (2 * r > m \<or> 2 * r = m \<and> odd q)"
    unfolding x_def e by simp
  then have c: "int x * int m - int n = int m - int r \<and> m \<le> 2 * r \<and> (2 * r = m \<longrightarrow> even x) \<or>
    int x * int m - int n = - int r \<and> 2 * r \<le> m \<and> (2 * r = m \<longrightarrow> even x)"
    unfolding n' by (auto simp: algebra_simps)
  show "2 * \<bar>int (round_half_even n k) * 2 ^ k - int n\<bar> \<le> 2 ^ k"
    unfolding m x_def [symmetric] using c r by (elim disjE) simp_all
  show "even (round_half_even n k)" if "2 * \<bar>int (round_half_even n k) * 2 ^ k - int n\<bar> = 2 ^ k" "0 < k"
    using that(1) c r unfolding m x_def [symmetric] by (elim disjE) auto
qed

lemma odd_and_one: "x AND 1 \<noteq> 0 \<longleftrightarrow> odd (unat x)" for x :: "'w::len word"
proof -
  have "unat (x AND 1) = unat x mod 2" using unat_and_mask [of x 1] by (simp add: half_masks(1) [symmetric])
  moreover have "x AND 1 = 0 \<longleftrightarrow> unat (x AND 1) = 0" by (simp only: unsigned_eq_0_iff)
  ultimately show ?thesis by (simp add: odd_iff_mod_2_eq_one)
qed

section \<open>From single precision: what is computed\<close>

text \<open>
  \<open>from_fields s e m\<close> is what the conversion gives for the fields of a number: infinities, numbers that
  are too large, NaNs, rounding in the range of the normal numbers.
\<close>

lemma from_float_special:
  assumes "s < 2" and "m < 2 ^ 23"
  shows "vlHalfFromFloat (f32 s 255 m) = Some (f16 s (if m = 0 then 31 * 1024 else 31 * 1024 + 1))"
    and "143 \<le> e \<Longrightarrow> e < 255 \<Longrightarrow> vlHalfFromFloat (f32 s e m) = Some (f16 s (31 * 1024))"
proof -
  have sg: "unat (ucast (drop_bit 31 (f32 s e m) AND 1 :: u32) :: u16) = s" if "e < 256" for e
    using f32_fields(1) [OF assms(1) that assms(2)] assms(1) by (simp add: unsigned_ucast_eq take_bit_nat_eq_self)
  have zero: "f32 s e m AND 0x7FFFFF = 0 \<longleftrightarrow> m = 0" if "e < 256" for e
    using f32_fields(3) [OF assms(1) that assms(2)] by (metis unsigned_0 unsigned_eq_0_iff)
  have e: "uint (drop_bit 23 (f32 s e m) AND 0xFF) = int e" if "e < 256" for e
    by (rule f32_fields(2) [OF assms(1) that assms(2)])
  have pk: "vlHalfPack x 31 f = f16 s (31 * 1024 + unat f)" if "unat x = s" "unat f < 1024" for x f
    using pack_f16 [of x 31 f] that assms(1) by simp
  show "vlHalfFromFloat (f32 s 255 m) = Some (f16 s (if m = 0 then 31 * 1024 else 31 * 1024 + 1))"
    using e [of 255] zero [of 255] pk [OF sg [of 255]] by (cases "m = 0") (simp_all add: vlHalfFromFloat_def Let_def)
  show "vlHalfFromFloat (f32 s e m) = Some (f16 s (31 * 1024))" if "143 \<le> e" "e < 255"
    using e [of e] pk [OF sg [of e], of 0] that by (simp add: vlHalfFromFloat_def Let_def)
qed

lemma from_float_normal:
  assumes s: "s < 2" and m: "m < 2 ^ 23" and e: "113 \<le> e" "e \<le> 142"
  shows "vlHalfFromFloat (f32 s e m) = Some (f16 s (min (31 * 1024) ((e - 112) * 1024 + round_half_even m 13)))"
proof -
  have e256: "e < 256" using e by simp
  let ?f = "f32 s e m"
  have sg: "unat (ucast (drop_bit 31 ?f AND 1 :: u32) :: u16) = s"
    using f32_fields(1) [OF s e256 m] s by (simp add: unsigned_ucast_eq take_bit_nat_eq_self)
  have ex: "uint (drop_bit 23 ?f AND 0xFF) = int e" by (rule f32_fields(2) [OF s e256 m])
  define fr where "fr = ?f AND 0x7FFFFF"
  have fr: "unat fr = m" unfolding fr_def by (rule f32_fields(3) [OF s e256 m])
  define q where "q = drop_bit 13 fr"
  have q: "unat q = m div 2 ^ 13" unfolding q_def unat_drop fr ..
  have rem: "unat (fr AND 0x1FFF) = m mod 2 ^ 13" using unat_and_mask [of fr 13] fr by (simp add: half_masks(4))
  have cond: "(fr AND 0x1FFF > 0x1000 \<or> (fr AND 0x1FFF = 0x1000 \<and> q AND 1 \<noteq> 0)) \<longleftrightarrow>
    2 * (m mod 2 ^ 13) > 2 ^ 13 \<or> 2 * (m mod 2 ^ 13) = 2 ^ 13 \<and> odd (m div 2 ^ 13)"
    using rem q odd_and_one [of q] by (auto simp: word_less_nat_alt word_unat_eq_iff)
  have mq: "m div 2 ^ 13 < 1024" using m by simp
  define x where "x = (if fr AND 0x1FFF > 0x1000 \<or> (fr AND 0x1FFF = 0x1000 \<and> q AND 1 \<noteq> 0) then q + 1 else q)"
  have q1: "unat (q + 1) = unat q + 1" using q mq by (simp add: unat_word_ariths)
  have x: "unat x = round_half_even m 13" "unat x \<le> 1024"
    unfolding x_def cond round_half_even_def Let_def using q q1 mq by auto
  have ew: "unat (word_of_int (int e - 127 + VL_HALF_EXP_BIAS) :: u16) = e - 112"
    "unat (word_of_int (int e - 127 + 1 + VL_HALF_EXP_BIAS) :: u16) = e - 111"
  proof -
    have i: "int e - 127 + VL_HALF_EXP_BIAS = int (e - 112)" "int e - 127 + 1 + VL_HALF_EXP_BIAS = int (e - 111)"
      using e by (simp_all add: VL_HALF_EXP_BIAS_def)
    show "unat (word_of_int (int e - 127 + VL_HALF_EXP_BIAS) :: u16) = e - 112"
      "unat (word_of_int (int e - 127 + 1 + VL_HALF_EXP_BIAS) :: u16) = e - 111"
      unfolding i of_int_of_nat_eq unat_of_nat using e by simp_all
  qed
  define sb where "sb = (ucast (drop_bit 31 ?f AND 1) :: u16)"
  have run: "vlHalfFromFloat ?f =
    (if x = 0x400 then
       (if int e - 127 + 1 > 15 then Some (vlHalfPack sb 31 0)
        else Some (vlHalfPack sb (word_of_int (int e - 127 + 1 + VL_HALF_EXP_BIAS)) 0))
     else Some (vlHalfPack sb (word_of_int (int e - 127 + VL_HALF_EXP_BIAS)) (ucast x)))"
    using e unfolding vlHalfFromFloat_def Let_def ex fr_def [symmetric] q_def [symmetric] x_def [symmetric] sb_def [symmetric]
    by simp
  have sb: "unat sb < 2" "unat sb = s" using sg s by (simp_all add: sb_def)
  show ?thesis
  proof (cases "x = 0x400")
    case True
    then have r: "round_half_even m 13 = 1024" using x(1) by simp
    show ?thesis
    proof (cases "e = 142")
      case True
      then show ?thesis using run \<open>x = 0x400\<close> pack_f16 [of sb 31 0] sb r by simp
    next
      case False
      obtain j where j: "e = 113 + j" "j < 29" using e False le_Suc_ex [OF e(1)] by auto
      have "(e - 112) * 1024 + 1024 = (e - 111) * 1024" "(e - 111) * 1024 < 31 * 1024" using j by simp_all
      then show ?thesis
        using run \<open>x = 0x400\<close> pack_f16 [of sb "word_of_int (int e - 127 + 1 + VL_HALF_EXP_BIAS)" 0] sb r j ew(2)
        by simp
    qed
  next
    case False
    then have x1: "unat x < 1024" using x(2) by (simp add: word_unat_eq_iff)
    then have ux: "unat (ucast x :: u16) = unat x" by (simp add: unsigned_ucast_eq take_bit_nat_eq_self)
    have "e - 112 \<le> 30" using e by simp
    then have "(e - 112) * 1024 \<le> 30 * 1024" by (intro mult_right_mono) simp_all
    then have "(e - 112) * 1024 + round_half_even m 13 < 31 * 1024" using x(1) x1 by simp
    then show ?thesis
      using run False pack_f16 [of sb "word_of_int (int e - 127 + VL_HALF_EXP_BIAS)" "ucast x"] sb e ew(1) ux x1 x(1)
      by (simp add: min_def)
  qed
qed

text \<open>
  Below the normal numbers the shift has 13 places too many: what is left of the number is zero, and for
  the smallest ones the shift is undefined.
\<close>

lemma from_float_small:
  assumes s: "s < 2" and m: "m < 2 ^ 23" and e: "e < 113"
  shows "vlHalfFromFloat (f32 s e m) = (if 103 \<le> e \<and> e \<le> 107 then None else Some (f16 s 0))"
proof -
  have e256: "e < 256" using e by simp
  let ?f = "f32 s e m"
  define sg where "sg = drop_bit 31 ?f AND 1"
  have sb: "unat (ucast sg :: u16) = s"
    unfolding sg_def using f32_fields(1) [OF s e256 m] s by (simp add: unsigned_ucast_eq take_bit_nat_eq_self)
  then have zero: "vlHalfPack (ucast sg) 0 0 = f16 s 0" using pack_f16 [of "ucast sg" 0 0] s by simp
  have ex: "uint (drop_bit 23 ?f AND 0xFF) = int e" by (rule f32_fields(2) [OF s e256 m])
  define fr where "fr = ?f AND 0x7FFFFF"
  have fr: "unat fr = m" unfolding fr_def by (rule f32_fields(3) [OF s e256 m])
  have run: "vlHalfFromFloat ?f = half_subnormal sg (int e - 127) fr"
    using e unfolding vlHalfFromFloat_def Let_def ex fr_def [symmetric] sg_def [symmetric] by simp
  consider "e < 103" | "103 \<le> e" "e \<le> 107" | "108 \<le> e" by linarith
  then show ?thesis
  proof cases
    case 1
    then show ?thesis using zero by (simp add: run half_subnormal_def)
  next
    case 2
    then have "\<not> nat (- (int e - 127) - 1) + 13 < 32" by linarith
    then show ?thesis using 2 by (simp add: run half_subnormal_def shift_right32_def Let_def)
  next
    case 3
    define k where "k = nat (- (int e - 127) - 1) + 13"
    have k: "27 \<le> k" "k < 32" using 3 e by (simp_all add: k_def)
    define mant where "mant = fr OR 0x800000"
    have "push_bit 23 1 OR fr = mant" by (simp add: mant_def or.commute)
    moreover have "unat (push_bit 23 1 OR fr) = 1 * 2 ^ 23 + unat fr" by (subst unat_shift_or) (use fr m in simp_all)
    ultimately have mant: "unat mant = 2 ^ 23 + m" using fr by simp
    have "(2 :: nat) ^ 24 \<le> 2 ^ (k - 1)" using k by (intro power_increasing) simp_all
    then have lt: "unat mant < 2 ^ (k - 1)" using mant m by simp
    then have lt': "unat mant < 2 ^ k" using k by (meson less_le_trans one_le_numeral power_increasing diff_le_self)
    have q: "drop_bit k mant = 0" using lt' by (simp add: word_unat_eq_iff unat_drop)
    have u: "unat (push_bit n (1 :: u32)) = 2 ^ n" if "n < 32" for n
    proof -
      have "(2 :: nat) ^ n < 2 ^ 32" by (rule power_strict_increasing) (use that in simp_all)
      then show ?thesis unfolding unsigned_push_bit_eq using that by (simp add: push_bit_eq_mult take_bit_nat_eq_self)
    qed
    have "mant AND (push_bit k 1 - 1) = mant"
    proof -
      have "push_bit k 1 - 1 = mask k" by (simp add: mask_eq_exp_minus_1 push_bit_eq_mult)
      moreover have "unat (mant AND mask k) = unat mant" unfolding unat_and_mask using lt' by simp
      ultimately show ?thesis by (metis unsigned_word_eqI)
    qed
    moreover have "mant < push_bit (k - 1) 1" using lt u [of "k - 1"] k by (simp add: word_less_nat_alt)
    moreover have "shift_right32 mant k = Some 0" "shift_left32 1 k = Some (push_bit k 1)"
      "shift_left32 1 (k - 1) = Some (push_bit (k - 1) 1)"
      using k q by (simp_all add: shift_right32_def shift_left32_def)
    moreover have "\<not> int e - 127 < - 24" using 3 by simp
    ultimately have "half_subnormal sg (int e - 127) fr = Some (vlHalfPack (ucast sg) 0 0)"
      unfolding half_subnormal_def Let_def k_def [symmetric] mant_def [symmetric] by auto
    then show ?thesis using zero 3 by (simp add: run)
  qed
qed

section \<open>To single precision: what is computed\<close>

lemma normalize_loop_ok:
  assumes "d \<le> 10" and "2 ^ (10 - d) \<le> f" and "f < 2 ^ (11 - d)"
  shows "normalize_loop (of_nat f) e = Some (of_nat (f * 2 ^ d), e - int d)"
  using assms
proof (induction d arbitrary: f e)
  case 0
  have "f div 1024 = 1" using 0 by (intro div_nat_eqI) simp_all
  then have "bit f 10" by (simp add: bit_iff_odd)
  then have "bit (of_nat f :: u32) 10" by (simp add: bit_of_nat_iff)
  then have "of_nat f AND (0x400 :: u32) \<noteq> 0" using and_exp_eq_0_iff_not_bit [of "of_nat f :: u32" 10] by simp
  then show ?case by (subst normalize_loop.simps) simp
next
  case (Suc d)
  have "f < 2 ^ 10"
  proof -
    have "f < 2 ^ (10 - d)" using Suc.prems(3) by simp
    also have "\<dots> \<le> 2 ^ 10" by (rule power_increasing) simp_all
    finally show ?thesis .
  qed
  then have "\<not> bit f 10" by (simp add: bit_iff_odd)
  then have z: "of_nat f AND (0x400 :: u32) = 0" using and_exp_eq_0_iff_not_bit [of "of_nat f :: u32" 10] by (simp add: bit_of_nat_iff)
  have sh: "push_bit 1 (of_nat f :: u32) = of_nat (2 * f)" by (simp add: push_bit_eq_mult)
  have pw: "(2 :: nat) ^ (10 - d) = 2 * 2 ^ (10 - Suc d)" "(2 :: nat) ^ (11 - d) = 2 * 2 ^ (11 - Suc d)"
    using Suc.prems(1) by (simp_all flip: power_Suc add: Suc_diff_le)
  have "normalize_loop (of_nat f) e = normalize_loop (of_nat (2 * f)) (e - 1)"
    by (subst normalize_loop.simps) (simp only: z sh if_True simp_thms)
  also have "\<dots> = Some (of_nat (2 * f * 2 ^ d), e - 1 - int d)"
    by (rule Suc.IH) (use Suc.prems pw in simp_all)
  finally show ?case by (simp add: ac_simps)
qed

lemma word_of_unat: "unat w = n \<Longrightarrow> w = of_nat n"
  by auto

lemma f16_fields:
  assumes "s < 2" and "e < 32" and "m < 1024"
  shows "unat (vlHalfSign (f16 s (e * 1024 + m))) = s" and "unat (vlHalfExp (f16 s (e * 1024 + m))) = e"
    and "unat (vlHalfFrac (f16 s (e * 1024 + m))) = m"
proof -
  have n: "unat (f16 s (e * 1024 + m)) = s * 2 ^ 15 + (e * 1024 + m)"
    using assms by (simp only: f16_def unat_of_nat) simp
  have d: "(s * 2 ^ 15 + (e * 1024 + m)) div 2 ^ 15 = s" using assms by (simp add: div_nat_eqI)
  have "(s * 2 ^ 15 + (e * 1024 + m)) div 2 ^ 10 = e + 32 * s" using assms by (simp add: div_nat_eqI)
  then have d2: "(s * 2 ^ 15 + (e * 1024 + m)) div 2 ^ 10 mod 32 = e" using assms by simp
  have "s * 2 ^ 15 + (e * 1024 + m) = m + 1024 * (s * 32 + e)" by simp
  then have d3: "(s * 2 ^ 15 + (e * 1024 + m)) mod 1024 = m" using assms(3) by (simp only: mod_mult_self2 mod_less)
  show "unat (vlHalfSign (f16 s (e * 1024 + m))) = s" unfolding unat_sign n by (rule d)
  show "unat (vlHalfExp (f16 s (e * 1024 + m))) = e" unfolding unat_exp n by (rule d2)
  show "unat (vlHalfFrac (f16 s (e * 1024 + m))) = m" unfolding unat_frac n by (rule d3)
qed

lemma to_float:
  assumes s: "s < 2" and m: "m < 1024"
  shows "vlHalfToFloat (f16 s 0) = Some (f32 s 0 0)"
    and "vlHalfToFloat (f16 s (31 * 1024 + m)) = Some (f32 s 255 (m * 2 ^ 13))"
    and "0 < e \<Longrightarrow> e < 31 \<Longrightarrow> vlHalfToFloat (f16 s (e * 1024 + m)) = Some (f32 s (e + 112) (m * 2 ^ 13))"
    and "k < 10 \<Longrightarrow> m < 2 ^ k \<Longrightarrow> vlHalfToFloat (f16 s (2 ^ k + m)) = Some (f32 s (k + 103) (m * 2 ^ (23 - k)))"
proof -
  have fl: "unat (ucast (vlHalfSign (f16 s (e * 1024 + n))) :: u32) = s" "unat (ucast (vlHalfExp (f16 s (e * 1024 + n))) :: u32) = e"
    "unat (ucast (vlHalfFrac (f16 s (e * 1024 + n))) :: u32) = n" if "e < 32" "n < 1024" for e n
    using f16_fields [OF s that] s that by (simp_all add: unsigned_ucast_eq take_bit_nat_eq_self)
  have eqs: "ucast (vlHalfExp (f16 s (e * 1024 + n))) = (of_nat e :: u32)" "ucast (vlHalfFrac (f16 s (e * 1024 + n))) = (of_nat n :: u32)"
    if "e < 32" "n < 1024" for e n
    using word_of_unat [OF fl(2) [OF that]] word_of_unat [OF fl(3) [OF that]] .
  have pm: "unat (push_bit 13 (of_nat n :: u32)) = n * 2 ^ 13" if "n < 1024" for n
    unfolding unsigned_push_bit_eq unat_of_nat using that by (simp add: push_bit_eq_mult take_bit_nat_eq_self)
  show "vlHalfToFloat (f16 s 0) = Some (f32 s 0 0)"
    using eqs [of 0 0] fl [of 0 0] f32_or [of "ucast (vlHalfSign (f16 s 0))" 0 0] s by (simp add: vlHalfToFloat_def Let_def)
  show "vlHalfToFloat (f16 s (31 * 1024 + m)) = Some (f32 s 255 (m * 2 ^ 13))"
    using eqs [of 31 m] fl [of 31 m] pm [OF m] s m
      f32_or [of "ucast (vlHalfSign (f16 s (31 * 1024 + m)))" 255 "push_bit 13 (of_nat m)"]
    by (simp add: vlHalfToFloat_def Let_def)
  show "vlHalfToFloat (f16 s (e * 1024 + m)) = Some (f32 s (e + 112) (m * 2 ^ 13))" if e: "0 < e" "e < 31"
  proof -
    have "(of_nat e :: u32) \<noteq> 0" "(of_nat e :: u32) \<noteq> 31"
      using e by (simp_all add: word_unat_eq_iff unat_of_nat)
    moreover have "(of_nat e :: u32) - 15 + 127 = of_nat (e + 112)" by simp
    moreover have "unat (of_nat (e + 112) :: u32) = e + 112" unfolding unat_of_nat using e by simp
    ultimately show ?thesis
      using eqs [of e m] fl [of e m] pm [OF m] s m e
        f32_or [of "ucast (vlHalfSign (f16 s (e * 1024 + m)))" "of_nat (e + 112)" "push_bit 13 (of_nat m)"]
      unfolding vlHalfToFloat_def Let_def by (simp del: of_nat_add)
  qed
  show "vlHalfToFloat (f16 s (2 ^ k + m)) = Some (f32 s (k + 103) (m * 2 ^ (23 - k)))" if k: "k < 10" "m < 2 ^ k"
  proof -
    have "(2 :: nat) ^ Suc k \<le> 2 ^ 10" by (rule power_increasing) (use k in simp_all)
    then have n: "2 ^ k + m < 1024" using k by simp
    define d where "d = 10 - k"
    have d: "d \<le> 10" "10 - d = k" "11 - d = Suc k" "k + d = 10" using k by (simp_all add: d_def)
    have "normalize_loop (of_nat (2 ^ k + m)) (- 14) = Some (of_nat ((2 ^ k + m) * 2 ^ d), - 14 - int d)"
      by (rule normalize_loop_ok) (use d k in simp_all)
    moreover have sp: "(2 ^ k + m) * 2 ^ d = 1024 + m * 2 ^ d"
      using d(4) by (simp add: algebra_simps flip: power_add)
    ultimately have loop: "normalize_loop (of_nat (2 ^ k + m)) (- 14) = Some (of_nat (1024 + m * 2 ^ d), int k - 24)"
      using k unfolding sp by (simp add: d_def del: of_nat_add of_nat_mult)
    have md: "m * 2 ^ d < 1024"
    proof -
      have "m * 2 ^ d < 2 ^ k * 2 ^ d" using k(2) by simp
      then show ?thesis using d(4) by (simp flip: power_add)
    qed
    have "unat (of_nat (1024 + m * 2 ^ d) AND (0x3FF :: u32)) = m * 2 ^ d"
      using unat_and_mask [of "of_nat (1024 + m * 2 ^ d) :: u32" 10] md unfolding half_masks(7) [symmetric] unat_of_nat by simp
    then have low: "of_nat (1024 + m * 2 ^ d) AND (0x3FF :: u32) = of_nat (m * 2 ^ d)" by (rule word_of_unat)
    have ex: "(word_of_int ((int k - 24 + 127) * 2 ^ 23) :: u32) = push_bit 23 (of_nat (k + 103))"
    proof -
      have "(int k - 24 + 127) * 2 ^ 23 = int ((k + 103) * 2 ^ 23)" by simp
      then have "(word_of_int ((int k - 24 + 127) * 2 ^ 23) :: u32) = of_nat ((k + 103) * 2 ^ 23)" by (simp only: of_int_of_nat_eq)
      then show ?thesis by (simp add: push_bit_eq_mult)
    qed
    have "unat (of_nat (k + 103) :: u32) = k + 103" unfolding unat_of_nat using k by simp
    moreover have "23 - k = d + 13" using k by (simp add: d_def)
    then have "f32 s (k + 103) (m * 2 ^ d * 8192) = f32 s (k + 103) (m * 2 ^ (23 - k))" by (simp add: power_add mult.assoc)
    moreover have "(of_nat (2 ^ k + m) :: u32) \<noteq> 0" using n by (simp add: word_unat_eq_iff unat_of_nat del: of_nat_add)
    ultimately show ?thesis
      using eqs [of 0 "2 ^ k + m"] fl [of 0 "2 ^ k + m"] pm [OF md] s n k md loop low ex
        f32_or [of "ucast (vlHalfSign (f16 s (2 ^ k + m)))" "of_nat (k + 103)" "push_bit 13 (of_nat (m * 2 ^ d))"]
      unfolding vlHalfToFloat_def Let_def by (simp del: of_nat_add of_nat_mult push_bit_and)
  qed
qed

lemma half_f16: "h = f16 (unat (vlHalfSign h)) (unat (vlHalfExp h) * 1024 + unat (vlHalfFrac h))"
  using pack_f16 [of "vlHalfSign h" "vlHalfExp h" "vlHalfFrac h"] half_field_bounds [of h] pack_fields [of h] by simp

lemma leading_bit:
  assumes "0 < n"
  obtains k m :: nat where "n = 2 ^ k + m" "m < 2 ^ k"
  using assms
proof (induction n arbitrary: thesis rule: less_induct)
  case (less n)
  show ?case
  proof (cases "n = 1")
    case True
    then show ?thesis using less.prems(1) [of 0 0] by simp
  next
    case False
    then obtain k m where "n div 2 = 2 ^ k + m" "m < 2 ^ k" using less.IH [of "n div 2"] less.prems(2) by auto
    moreover have "n = n div 2 * 2 + n mod 2" "n mod 2 < 2" by simp_all
    ultimately have "n = 2 ^ Suc k + (2 * m + n mod 2)" "2 * m + n mod 2 < 2 ^ Suc k" unfolding power_Suc by linarith+
    then show ?thesis using less.prems(1) by blast
  qed
qed

section \<open>Properties\<close>

text \<open>
  C38. Every number of half precision is converted to single precision, and back to itself when it is
  zero, normal or infinite. A NaN comes back as the signalling NaN with payload 1. A subnormal number
  comes back as a zero of its sign, and the conversion of one below \<open>2 ^ -19\<close> shifts by 32 places or
  more, which is undefined.
\<close>

theorem half_roundtrip:
  "\<exists>x. vlHalfToFloat h = Some x \<and>
     vlHalfFromFloat x =
       (if vlHalfIsNaN h then Some (f16 (unat (vlHalfSign h)) (31 * 1024 + 1))
        else if vlHalfIsSubnormal h then (if unat (vlHalfFrac h) < 32 then None else Some (f16 (unat (vlHalfSign h)) 0))
        else Some h)"
proof -
  define s e m where "s = unat (vlHalfSign h)" and "e = unat (vlHalfExp h)" and "m = unat (vlHalfFrac h)"
  have b: "s < 2" "e < 32" "m < 1024" using half_field_bounds [of h] by (simp_all add: s_def e_def m_def)
  have h: "h = f16 s (e * 1024 + m)" unfolding s_def e_def m_def by (rule half_f16)
  have nan: "vlHalfIsNaN h \<longleftrightarrow> e = 31 \<and> m \<noteq> 0" and sub: "vlHalfIsSubnormal h \<longleftrightarrow> e = 0 \<and> m \<noteq> 0"
    by (simp_all add: vlHalfIsNaN_def vlHalfIsSubnormal_def e_def m_def word_unat_eq_iff)
  have m23: "m * 2 ^ 13 < 2 ^ 23" using b(3) by simp
  consider "e = 31" | "e = 0" "m = 0" | "e = 0" "0 < m" | "0 < e" "e < 31" using b(2) by linarith
  then have "\<exists>x. vlHalfToFloat h = Some x \<and>
     vlHalfFromFloat x =
       (if e = 31 \<and> m \<noteq> 0 then Some (f16 s (31 * 1024 + 1))
        else if e = 0 \<and> m \<noteq> 0 then (if m < 32 then None else Some (f16 s 0))
        else Some h)"
  proof cases
    case 1
    then show ?thesis using to_float(2) [OF b(1,3)] from_float_special(1) [OF b(1) m23] h by simp
  next
    case 2
    then show ?thesis using to_float(1) [OF b(1,3)] from_float_small [OF b(1), of 0 0] h by simp
  next
    case 3
    obtain k r where kr: "m = 2 ^ k + r" "r < 2 ^ k" by (rule leading_bit [OF 3(2)])
    have k10: "k < 10"
    proof (rule ccontr)
      assume "\<not> k < 10"
      then have "(2 :: nat) ^ 10 \<le> 2 ^ k" by (intro power_increasing) simp_all
      then show False using b(3) kr(1) by simp
    qed
    have r: "r < 1024" using b(3) kr(1) by simp
    have x: "vlHalfToFloat h = Some (f32 s (k + 103) (r * 2 ^ (23 - k)))"
      using to_float(4) [OF b(1) r k10 kr(2)] h 3(1) kr(1) by simp
    have "r * 2 ^ (23 - k) < 2 ^ k * 2 ^ (23 - k)" using kr(2) by simp
    then have r23: "r * 2 ^ (23 - k) < 2 ^ 23" using k10 by (simp flip: power_add)
    have "k \<le> 4 \<longleftrightarrow> m < 32"
    proof
      assume "k \<le> 4"
      then have "(2 :: nat) ^ Suc k \<le> 2 ^ 5" by (intro power_increasing) simp_all
      then show "m < 32" using kr by simp
    next
      assume "m < 32"
      show "k \<le> 4"
      proof (rule ccontr)
        assume "\<not> k \<le> 4"
        then have "(2 :: nat) ^ 5 \<le> 2 ^ k" by (intro power_increasing) simp_all
        then show False using \<open>m < 32\<close> kr(1) by simp
      qed
    qed
    then have "vlHalfFromFloat (f32 s (k + 103) (r * 2 ^ (23 - k))) = (if m < 32 then None else Some (f16 s 0))"
      using from_float_small [OF b(1) r23, of "k + 103"] k10 by simp
    then show ?thesis using x 3 by simp
  next
    case 4
    have "m * 2 ^ 13 div 2 ^ 13 = m" "m * 2 ^ 13 mod 2 ^ 13 = 0" by simp_all
    then have "round_half_even (m * 2 ^ 13) 13 = m" by (simp add: round_half_even_def Let_def)
    moreover have "(e + 112 - 112) * 1024 + m < 31 * 1024"
    proof -
      have "e * 1024 \<le> 30 * 1024" using 4(2) by (intro mult_right_mono) simp_all
      then show ?thesis using b(3) by simp
    qed
    ultimately show ?thesis
      using to_float(3) [OF b(1,3) 4] from_float_normal [OF b(1) m23, of "e + 112"] h 4 by simp
  qed
  then show ?thesis unfolding nan sub s_def [symmetric] m_def [symmetric] .
qed

text \<open>
  C39. The conversion from single precision, for the sign, exponent and fraction of a number: rounded to
  nearest with ties to even in the range of the normal numbers, a carry going into the exponent, and
  infinity beyond it; but zero below it, or undefined, where the subnormal numbers should be.
\<close>

theorem half_from_float:
  assumes "s < 2" and "e < 256" and "m < 2 ^ 23"
  shows "vlHalfFromFloat (f32 s e m) =
      (if e = 255 then Some (f16 s (if m = 0 then 31 * 1024 else 31 * 1024 + 1))
       else if 143 \<le> e then Some (f16 s (31 * 1024))
       else if 113 \<le> e then Some (f16 s (min (31 * 1024) ((e - 112) * 1024 + round_half_even m 13)))
       else if 103 \<le> e \<and> e \<le> 107 then None
       else Some (f16 s 0)) \<and>
    \<bar>int (round_half_even m 13) * 2 ^ 13 - int m\<bar> \<le> 2 ^ 12 \<and>
    (\<bar>int (round_half_even m 13) * 2 ^ 13 - int m\<bar> = 2 ^ 12 \<longrightarrow> even (round_half_even m 13))"
proof -
  have near: "\<bar>int (round_half_even m 13) * 2 ^ 13 - int m\<bar> \<le> 2 ^ 12" using round_half_even_near(1) [of m 13] by simp
  have ties: "even (round_half_even m 13)" if "\<bar>int (round_half_even m 13) * 2 ^ 13 - int m\<bar> = 2 ^ 12"
    by (rule round_half_even_near(2) [of m 13]) (use that in simp_all)
  consider "e = 255" | "143 \<le> e" "e < 255" | "113 \<le> e" "e \<le> 142" | "e < 113" using assms(2) by linarith
  then show ?thesis
  proof cases
    case 1
    then show ?thesis using from_float_special(1) [OF assms(1,3)] near ties by simp
  next
    case 2
    then show ?thesis using from_float_special(2) [OF assms(1,3)] near ties by simp
  next
    case 3
    then show ?thesis using from_float_normal [OF assms(1,3) 3] near ties by simp
  next
    case 4
    then show ?thesis using from_float_small [OF assms(1,3) 4] near ties by auto
  qed
qed

theorem half_from_float_witness:
  "vlHalfFromFloat (f32 0 127 0) = Some 0x3C00 \<and> vlHalfFromFloat (f32 1 142 0x7FF000) = Some 0xFC00 \<and>
   vlHalfFromFloat (f32 0 112 0) = Some 0 \<and> vlHalfFromFloat (f32 0 105 0) = None"
  using half_from_float [of 0 127 0] half_from_float [of 1 142 "0x7FF000"] half_from_float [of 0 112 0] half_from_float [of 0 105 0]
  by (simp add: f16_def round_half_even_def)

end
