(* ===== verification/VL_Nibble.thy ===== *)
theory VL_Nibble
  imports VL_Prelude
begin

text \<open>\<^verbatim>\<open>vl_nibble.h\<close>: numbers of 4 bits in the halves of a byte.\<close>

type_synonym vl_nibble_t = u8

definition vlNibbleLow :: "u8 \<Rightarrow> vl_nibble_t" where
  "vlNibbleLow x = x AND 0x0F"

definition vlNibbleHigh :: "u8 \<Rightarrow> vl_nibble_t" where
  "vlNibbleHigh x = drop_bit 4 x AND 0x0F"

definition vlNibblePack :: "vl_nibble_t \<Rightarrow> vl_nibble_t \<Rightarrow> u8" where
  "vlNibblePack high low = push_bit 4 high OR (low AND 0x0F)"

definition vlNibbleAdd :: "vl_nibble_t \<Rightarrow> vl_nibble_t \<Rightarrow> vl_nibble_t" where
  "vlNibbleAdd a b = (a + b) AND 0x0F"

text \<open>The sum is cut to a byte before it is compared.\<close>

definition vlNibbleAddSat :: "vl_nibble_t \<Rightarrow> vl_nibble_t \<Rightarrow> vl_nibble_t" where
  "vlNibbleAddSat a b = (let sum = a + b in if sum > 0x0F then 0x0F else sum)"

definition vlNibbleSub :: "vl_nibble_t \<Rightarrow> vl_nibble_t \<Rightarrow> vl_nibble_t" where
  "vlNibbleSub a b = (a - b) AND 0x0F"

definition vlNibbleSubSat :: "vl_nibble_t \<Rightarrow> vl_nibble_t \<Rightarrow> vl_nibble_t" where
  "vlNibbleSubSat a b = (if b > a then 0 else a - b)"

definition vlNibbleSetHigh :: "u8 \<Rightarrow> vl_nibble_t \<Rightarrow> u8" where
  "vlNibbleSetHigh dst v = (dst AND 0x0F) OR push_bit 4 v"

definition vlNibbleSetLow :: "u8 \<Rightarrow> vl_nibble_t \<Rightarrow> u8" where
  "vlNibbleSetLow dst v = (dst AND 0xF0) OR (v AND 0x0F)"

section \<open>What they compute\<close>

lemma nibble_masks: "(0x0F :: u8) = mask 4" "(0xF0 :: u8) = push_bit 4 (mask 4)"
  by (simp_all add: mask_eq_exp_minus_1)

lemma nibble_bound: "vlNibbleLow x < 16" "vlNibbleHigh x < 16"
  unfolding vlNibbleLow_def vlNibbleHigh_def nibble_masks(1) by (rule order_less_le_trans [OF and_mask_less']; simp)+

text \<open>Packing and taking apart, and writing one half of a byte.\<close>

lemma nibble_pack:
  "vlNibblePack (vlNibbleHigh x) (vlNibbleLow x) = x"
  "vlNibbleLow (vlNibblePack h l) = l AND 0x0F" "vlNibbleHigh (vlNibblePack h l) = h AND 0x0F"
  unfolding vlNibblePack_def vlNibbleHigh_def vlNibbleLow_def nibble_masks(1)
  by (rule bit_word_eqI; auto simp: bit_simps)+

lemma nibble_set:
  "vlNibbleHigh (vlNibbleSetHigh x v) = v AND 0x0F" "vlNibbleLow (vlNibbleSetHigh x v) = vlNibbleLow x"
  "vlNibbleLow (vlNibbleSetLow x v) = v AND 0x0F" "vlNibbleHigh (vlNibbleSetLow x v) = vlNibbleHigh x"
  unfolding vlNibbleSetHigh_def vlNibbleSetLow_def vlNibbleHigh_def vlNibbleLow_def nibble_masks
  by (rule bit_word_eqI; auto simp: bit_simps)+

text \<open>Adding with saturation, for arguments that are nibbles.\<close>

lemma nibble_add_sat:
  assumes "a < 16" and "b < 16"
  shows "unat (vlNibbleAddSat a b) = min 15 (unat a + unat b)"
proof -
  have "unat a < 16" "unat b < 16" using assms by (simp_all add: word_less_nat_alt)
  then have "unat (a + b) = unat a + unat b" by (simp add: unat_word_ariths)
  then show ?thesis by (simp add: vlNibbleAddSat_def Let_def word_less_nat_alt min_def)
qed

lemma nibble_sub_sat: "unat (vlNibbleSubSat a b) = unat a - unat b"
  by (simp add: vlNibbleSubSat_def word_less_nat_alt unat_sub word_le_nat_alt)

end
