(* ===== verification/VL_Rand.thy ===== *)
theory VL_Rand
  imports VL_Memory VL_Algo VL_NumTypesSpec
begin

text \<open>
  \<^verbatim>\<open>src/core/vl_rand.c\<close>: the splitmix generator, the numbers drawn from it and the filling of memory.
  A draw returns the number and the new state. Floating numbers are those of \<^verbatim>\<open>VL_NumTypes\<close>.
\<close>

unbundle bit_operations_syntax

section \<open>The generator\<close>

text \<open>\<^verbatim>\<open>vl_rand\<close> has 64 bits where the platform has such a type, 32 elsewhere.\<close>

definition vlRandNext :: "u64 \<Rightarrow> u64 \<times> u64" where
  "vlRandNext rand =
     (let rand = rand + 0x9E3779B97F4A7C15;
          z = rand;
          z = (z XOR drop_bit 30 z) * 0xBF58476D1CE4E5B9;
          z = (z XOR drop_bit 27 z) * 0x94D049BB133111EB
      in (z XOR drop_bit 31 z, rand))"

definition vlRandNext32 :: "u32 \<Rightarrow> u32 \<times> u32" where
  "vlRandNext32 rand =
     (let rand = rand + 0x9E3779B9;
          z = rand;
          z = (z XOR drop_bit 16 z) * 0x85EBCA6B;
          z = (z XOR drop_bit 13 z) * 0xC2B2AE35
      in (z XOR drop_bit 16 z, rand))"

text \<open>The seed is the time; the first number is drawn and dropped.\<close>

definition vlRandInit :: "u64 \<Rightarrow> u64" where
  "vlRandInit now = snd (vlRandNext now)"

section \<open>Filling memory\<close>

text \<open>The bytes of a number from the lowest on; a copy of the whole number gives the same.\<close>

primrec rand_bytes :: "nat \<Rightarrow> u64 \<Rightarrow> u8 list" where
  "rand_bytes 0 z = []"
| "rand_bytes (Suc n) z = ucast (z AND 0xFF) # rand_bytes n (drop_bit 8 z)"

definition vlRandSplitBytes :: "u64 \<Rightarrow> u8 list \<times> u64" where
  "vlRandSplitBytes rand = (let (tmp, rand) = vlRandNext rand in (rand_bytes 8 tmp, rand))"

primrec fill_blocks :: "nat \<Rightarrow> u64 \<Rightarrow> u8 list \<times> u64" where
  "fill_blocks 0 rand = ([], rand)"
| "fill_blocks (Suc n) rand =
     (let (z, rand) = vlRandNext rand; (bs, rand) = fill_blocks n rand in (rand_bytes 8 z @ bs, rand))"

text \<open>Up to the next multiple of eight, in blocks of eight, and what remains.\<close>

definition vlRandFill :: "u64 \<Rightarrow> nat \<Rightarrow> nat \<Rightarrow> u8 list \<times> u64" where
  "vlRandFill rand address len =
     (let misalignment = address mod 8;
          (start, rand, remaining) =
            (if misalignment \<noteq> 0 then
               let to_fill = min (8 - misalignment) len; (last, rand) = vlRandNext rand
               in (rand_bytes to_fill last, rand, len - to_fill)
             else ([], rand, len));
          blocks = remaining div 8;
          (middle, rand) = fill_blocks blocks rand;
          remaining = remaining - blocks * 8;
          (rest, rand) =
            (if remaining > 0 then let (last, rand) = vlRandNext rand in (rand_bytes remaining last, rand)
             else ([], rand))
      in (start @ middle @ rest, rand))"

section \<open>Integers\<close>

definition vlRandInt8 :: "u64 \<Rightarrow> u8 \<times> u64" where
  "vlRandInt8 rand = (let (val, rand) = vlRandNext rand in (ucast val, rand))"

definition vlRandInt16 :: "u64 \<Rightarrow> u16 \<times> u64" where
  "vlRandInt16 rand = (let (val, rand) = vlRandNext rand in (ucast val, rand))"

definition vlRandInt32 :: "u64 \<Rightarrow> u32 \<times> u64" where
  "vlRandInt32 rand = (let (val, rand) = vlRandNext rand in (ucast val, rand))"

definition vlRandInt64 :: "u64 \<Rightarrow> u64 \<times> u64" where
  "vlRandInt64 rand = vlRandNext rand"

section \<open>Floating numbers\<close>

text \<open>The number that a bit pattern stands for in the formats of IEEE 754, and the difference of two.\<close>

definition float_of_bits :: "nat \<Rightarrow> nat \<Rightarrow> nat \<Rightarrow> c_float" where
  "float_of_bits ebits fbits bits =
     (let frac = bits mod 2 ^ fbits;
          expo = bits div 2 ^ fbits mod 2 ^ ebits;
          neg = (bits div 2 ^ (fbits + ebits) mod 2 = 1);
          bias = 2 ^ (ebits - 1) - 1
      in if expo = 2 ^ ebits - 1 then (if frac = 0 then Infinite neg else NaN)
         else if expo = 0 then Fin neg frac (1 - bias - int fbits)
         else Fin neg (2 ^ fbits + frac) (int expo - bias - int fbits))"

fun fp_minus :: "fp_format \<Rightarrow> c_float \<Rightarrow> c_float \<Rightarrow> c_float" where
  "fp_minus f (Fin s m e) (Fin t n d) =
     (let k = min e d;
          x = (if s then -1 else 1) * int m * 2 ^ nat (e - k) - (if t then -1 else 1) * int n * 2 ^ nat (d - k)
      in fp_round f (x < 0) (nat \<bar>x\<bar>) k)"
| "fp_minus f (Infinite s) (Infinite t) = (if s = t then NaN else Infinite s)"
| "fp_minus f (Infinite s) (Fin _ _ _) = Infinite s"
| "fp_minus f (Fin _ _ _) (Infinite t) = Infinite (\<not> t)"
| "fp_minus f _ _ = NaN"

definition VL_IEEE754_FLOAT32_LOW23 :: u32 where
  "VL_IEEE754_FLOAT32_LOW23 = 0x007FFFFF"

definition VL_IEEE754_FLOAT32_ONE :: u32 where
  "VL_IEEE754_FLOAT32_ONE = 0x3F800000"

definition VL_IEEE754_FLOAT32_LOW23_DW :: u64 where
  "VL_IEEE754_FLOAT32_LOW23_DW = 0x007FFFFF007FFFFF"

definition VL_IEEE754_FLOAT32_ONE_DW :: u64 where
  "VL_IEEE754_FLOAT32_ONE_DW = 0x3F8000003F800000"

definition VL_IEEE754_FLOAT64_LOW52 :: u64 where
  "VL_IEEE754_FLOAT64_LOW52 = 0x000FFFFFFFFFFFFF"

definition VL_IEEE754_FLOAT64_ONE :: u64 where
  "VL_IEEE754_FLOAT64_ONE = 0x3FF0000000000000"

definition float32_minus_one :: "u32 \<Rightarrow> c_float" where
  "float32_minus_one bits = fp_minus binary32 (float_of_bits 8 23 (unat bits)) (Fin False 1 0)"

definition vlRandF :: "u64 \<Rightarrow> c_float \<times> u64" where
  "vlRandF rand =
     (let (z, rand) = vlRandNext rand;
          bits = (ucast z AND VL_IEEE754_FLOAT32_LOW23) OR VL_IEEE754_FLOAT32_ONE
      in (float32_minus_one bits, rand))"

text \<open>Two numbers of one draw, the one in the low half first.\<close>

definition vlRandFx2 :: "u64 \<Rightarrow> (c_float \<times> c_float) \<times> u64" where
  "vlRandFx2 rand =
     (let (z, rand) = vlRandNext rand;
          bits = (z AND VL_IEEE754_FLOAT32_LOW23_DW) OR VL_IEEE754_FLOAT32_ONE_DW
      in ((float32_minus_one (ucast bits), float32_minus_one (ucast (drop_bit 32 bits))), rand))"

definition vlRandD :: "u64 \<Rightarrow> c_float \<times> u64" where
  "vlRandD rand =
     (let (z, rand) = vlRandNext rand;
          bits = (z AND VL_IEEE754_FLOAT64_LOW52) OR VL_IEEE754_FLOAT64_ONE
      in (fp_minus binary64 (float_of_bits 11 52 (unat bits)) (Fin False 1 0), rand))"

section \<open>Mixing is invertible\<close>

lemma xorshift_inj:
  fixes x y :: "'w::len word"
  assumes "0 < k" and "x XOR drop_bit k x = y XOR drop_bit k y"
  shows "x = y"
proof -
  let ?d = "x XOR y"
  have "?d = drop_bit k x XOR drop_bit k y"
    using assms(2) by (metis (no_types, lifting) xor.assoc xor.commute xor.right_neutral xor_self_eq)
  then have d: "?d = drop_bit k ?d" by (rule trans) (rule drop_bit_xor [symmetric])
  have "unat ?d = unat ?d div 2 ^ k"
    by (subst d) (rule unat_drop_bit)
  moreover have "unat ?d div 2 ^ k < unat ?d" if "0 < unat ?d"
    using that assms(1) one_less_power [of "2 :: nat" k] by (intro div_less_dividend) simp_all
  ultimately have "unat ?d = 0" by linarith
  then have "?d = 0" by (simp add: unat_eq_0)
  then show ?thesis by (metis xor.assoc xor.right_neutral xor_self_eq xor.left_neutral)
qed

lemma times_inj:
  fixes a b p q :: "'w::len word"
  assumes "p * q = 1" and "a * p = b * p"
  shows "a = b"
  by (metis assms mult.assoc mult.right_neutral)

definition rand_mix :: "u64 \<Rightarrow> u64" where
  "rand_mix rand = fst (vlRandNext (rand - 0x9E3779B97F4A7C15))"

lemma vlRandNext_mix: "vlRandNext rand = (rand_mix (rand + 0x9E3779B97F4A7C15), rand + 0x9E3779B97F4A7C15)"
  by (simp add: vlRandNext_def rand_mix_def Let_def)

lemma rand_mix_inj: "rand_mix x = rand_mix y \<Longrightarrow> x = y"
proof -
  let ?f = "\<lambda>x :: u64. (x XOR drop_bit 30 x) * 0xBF58476D1CE4E5B9"
  let ?g = "\<lambda>x :: u64. (x XOR drop_bit 27 x) * 0x94D049BB133111EB"
  assume "rand_mix x = rand_mix y"
  then have "?g (?f x) XOR drop_bit 31 (?g (?f x)) = ?g (?f y) XOR drop_bit 31 (?g (?f y))"
    by (simp only: rand_mix_def vlRandNext_def Let_def fst_conv diff_add_cancel)
  then have "?g (?f x) = ?g (?f y)" by (rule xorshift_inj [rotated]) simp
  then have "?f x XOR drop_bit 27 (?f x) = ?f y XOR drop_bit 27 (?f y)"
    by (rule times_inj [of _ "0x319642b2d24d8ec3", rotated]) simp
  then have "?f x = ?f y" by (rule xorshift_inj [rotated]) simp
  then have "x XOR drop_bit 30 x = y XOR drop_bit 30 y"
    by (rule times_inj [of _ "0x96de1b173f119089", rotated]) simp
  then show "x = y" by (rule xorshift_inj [rotated]) simp
qed

section \<open>Runs of draws\<close>

primrec rand_draws :: "nat \<Rightarrow> u64 \<Rightarrow> u64 list \<times> u64" where
  "rand_draws 0 rand = ([], rand)"
| "rand_draws (Suc n) rand =
     (let (z, rand) = vlRandNext rand; (zs, rand) = rand_draws n rand in (z # zs, rand))"

lemma rand_draws_eq:
  "rand_draws n rand =
     (map (\<lambda>i. rand_mix (rand + of_nat (Suc i) * 0x9E3779B97F4A7C15)) [0..<n], rand + of_nat n * 0x9E3779B97F4A7C15)"
proof (induction n arbitrary: rand)
  case (Suc n)
  have "map (\<lambda>i. rand_mix (rand + of_nat (Suc i) * 0x9E3779B97F4A7C15)) [0..<Suc n] =
      rand_mix (rand + 0x9E3779B97F4A7C15) #
      map (\<lambda>i. rand_mix (rand + 0x9E3779B97F4A7C15 + of_nat (Suc i) * 0x9E3779B97F4A7C15)) [0..<n]"
    unfolding upt_conv_Cons [OF zero_less_Suc] map_Suc_upt [symmetric]
    by (simp add: distrib_right add.assoc)
  then show ?case
    by (simp add: vlRandNext_mix Suc.IH distrib_right add.assoc del: upt_Suc)
qed simp

lemma rand_step_inj:
  assumes "rand + of_nat (Suc i) * (0x9E3779B97F4A7C15 :: u64) = rand + of_nat (Suc j) * 0x9E3779B97F4A7C15"
    and "i < 2 ^ 64" and "j < 2 ^ 64"
  shows "i = j"
proof -
  have "of_nat (Suc i) * (0x9E3779B97F4A7C15 :: u64) = of_nat (Suc j) * 0x9E3779B97F4A7C15" using assms(1) by simp
  then have "of_nat (Suc i) = (of_nat (Suc j) :: u64)"
    by (rule times_inj [of _ "0xf1de83e19937733d", rotated]) simp
  then have "of_nat i = (of_nat j :: u64)" by simp
  then show ?thesis using assms(2,3) unat_of_nat_u64 by metis
qed

section \<open>Properties\<close>

text \<open>
  C40. Up to 2^64 numbers drawn one after the other are all different, whatever the seed; after that many
  every number has been drawn, and the state is the seed again.
\<close>

theorem rand_full_period:
  assumes "n \<le> 2 ^ 64"
  shows "distinct (fst (rand_draws n seed)) \<and>
    (n = 2 ^ 64 \<longrightarrow> set (fst (rand_draws n seed)) = UNIV \<and> snd (rand_draws n seed) = seed)"
proof
  show d: "distinct (fst (rand_draws n seed))"
    unfolding rand_draws_eq fst_conv distinct_map
    using assms by (auto intro!: inj_onI dest!: rand_mix_inj elim!: rand_step_inj simp del: of_nat_Suc)
  show "n = 2 ^ 64 \<longrightarrow> set (fst (rand_draws n seed)) = UNIV \<and> snd (rand_draws n seed) = seed"
  proof (intro impI conjI)
    assume n: "n = 2 ^ 64"
    have "card (set (fst (rand_draws n seed))) = n"
      using distinct_card [OF d] by (simp add: rand_draws_eq)
    then show "set (fst (rand_draws n seed)) = UNIV"
      using n by (intro card_subset_eq) (simp_all add: card_word)
    have "(of_nat (2 ^ 64) :: u64) = 0" by (simp add: of_nat_power)
    then show "snd (rand_draws n seed) = seed" unfolding rand_draws_eq snd_conv n by simp
  qed
qed

theorem rand_full_period_witness:
  "distinct (fst (rand_draws 3 7)) \<and> fst (rand_draws 1 0) = [0xe220a8397b1dcdaf]"
proof
  show "distinct (fst (rand_draws 3 7))" using rand_full_period [of 3 7] by simp
  show "fst (rand_draws 1 0) = [0xe220a8397b1dcdaf]" by (simp add: vlRandNext_def Let_def)
qed

subsection \<open>Filling\<close>

lemma length_rand_bytes [simp]: "length (rand_bytes n z) = n"
  by (induction n arbitrary: z) simp_all

lemma take_rand_bytes: "take n (rand_bytes m z) = rand_bytes (min n m) z"
proof (induction n arbitrary: m z)
  case (Suc n)
  then show ?case by (cases m) simp_all
qed simp

lemma fill_blocks_draws:
  "fill_blocks n rand = (concat (map (rand_bytes 8) (fst (rand_draws n rand))), snd (rand_draws n rand))"
  by (induction n arbitrary: rand) (simp_all add: split_def Let_def)

lemma rand_draws_snoc:
  "rand_draws (Suc n) rand =
     (fst (rand_draws n rand) @ [fst (vlRandNext (snd (rand_draws n rand)))], snd (vlRandNext (snd (rand_draws n rand))))"
  by (induction n arbitrary: rand) (simp_all add: split_def Let_def)

lemma length_concat_bytes: "length (concat (map (rand_bytes 8) zs)) = 8 * length zs"
  by (induction zs) simp_all

lemma length_rand_draws [simp]: "length (fst (rand_draws n rand)) = n"
  by (simp add: rand_draws_eq)

text \<open>The number of draws for \<^term>\<open>len\<close> bytes.\<close>

definition draws_for :: "nat \<Rightarrow> nat" where
  "draws_for len = (len + 7) div 8"

lemma rand_fill_aligned:
  assumes "address mod 8 = 0"
  shows "vlRandFill rand address len =
    (take len (concat (map (rand_bytes 8) (fst (rand_draws (draws_for len) rand)))), snd (rand_draws (draws_for len) rand))"
proof (cases "len mod 8 = 0")
  case True
  then obtain k where k: "len = k * 8" by (metis div_mult_mod_eq add.right_neutral)
  then have "draws_for len = k" by (simp add: draws_for_def)
  then show ?thesis
    using assms k by (simp add: vlRandFill_def Let_def split_def fill_blocks_draws length_concat_bytes)
next
  case False
  define k r where "k = len div 8" and "r = len mod 8"
  have len: "len = k * 8 + r" "0 < r" "r < 8" using False by (simp_all add: k_def r_def)
  then have "draws_for len = Suc k" by (simp add: draws_for_def)
  moreover have "len div 8 = k" by (simp add: k_def)
  ultimately show ?thesis
    using assms len
    by (simp add: vlRandFill_def Let_def split_def fill_blocks_draws length_concat_bytes rand_draws_snoc take_rand_bytes
        del: rand_draws.simps)
qed

text \<open>
  A fill of memory writes as many bytes as it is asked for, at any address; at a multiple of eight
  they are the bytes of successive draws, and no more numbers are drawn than are needed. Elsewhere one
  number goes into the bytes up to the next multiple of eight.
\<close>

theorem rand_fill_bytes:
  "vlRandFill rand address len =
    (let m = (8 - address mod 8) mod 8;
         (start, rand1) = (if m = 0 then ([], rand) else let (z, r) = vlRandNext rand in (rand_bytes (min m len) z, r));
         k = draws_for (len - m)
     in (start @ take (len - m) (concat (map (rand_bytes 8) (fst (rand_draws k rand1)))), snd (rand_draws k rand1))) \<and>
    length (fst (vlRandFill rand address len)) = len"
proof (cases "address mod 8 = 0")
  case True
  have "len \<le> 8 * draws_for len" by (simp add: draws_for_def)
  then show ?thesis using True by (simp add: rand_fill_aligned length_concat_bytes Let_def)
next
  case False
  define m where "m = 8 - address mod 8"
  have m: "(8 - address mod 8) mod 8 = m" "0 < m" using False by (simp_all add: m_def)
  obtain z r where z: "vlRandNext rand = (z, r)" by (cases "vlRandNext rand")
  have r: "len - min m len = len - m" by simp
  have "vlRandFill rand address len =
      (rand_bytes (min m len) z @ fst (vlRandFill r 0 (len - m)), snd (vlRandFill r 0 (len - m)))"
    unfolding vlRandFill_def using False by (simp add: Let_def split_def z r flip: m_def)
  then have eq: "vlRandFill rand address len =
      (rand_bytes (min m len) z @ take (len - m) (concat (map (rand_bytes 8) (fst (rand_draws (draws_for (len - m)) r)))),
       snd (rand_draws (draws_for (len - m)) r))"
    by (simp add: rand_fill_aligned)
  have "len - m \<le> 8 * draws_for (len - m)" by (simp add: draws_for_def)
  then have "length (fst (vlRandFill rand address len)) = len" unfolding eq by (simp add: length_concat_bytes)
  moreover have "min m len + (len - m) = len" by simp
  ultimately show ?thesis unfolding m(1) Let_def using eq m(2) z by simp
qed

subsection \<open>Floating numbers between 0 and 1\<close>

lemma or_disjoint_nat:
  fixes a b :: "'w::len word"
  assumes "a AND b = 0" and "unat a + unat b < 2 ^ LENGTH('w)"
  shows "unat (a OR b) = unat a + unat b"
proof -
  have "a OR b = a + b" using word_plus_and_or [of a b] assms(1) by simp
  then show ?thesis using assms(2) by (simp add: unat_word_ariths)
qed

lemma unat_mask_bits: "unat (w AND mask k) = unat (w :: 'w::len word) mod 2 ^ k"
  by (simp only: take_bit_eq_mask [symmetric] unsigned_take_bit_eq) (rule take_bit_eq_mod)

text \<open>A pattern with the exponent of 1 and the fraction \<open>m\<close>.\<close>

lemma float_between_1_2:
  "m < 2 ^ 23 \<Longrightarrow> float_of_bits 8 23 (m + 0x3F800000) = Fin False (2 ^ 23 + m) (- 23)"
  "m < 2 ^ 52 \<Longrightarrow> float_of_bits 11 52 (m + 0x3FF0000000000000) = Fin False (2 ^ 52 + m) (- 52)"
proof -
  assume m: "m < 2 ^ 23"
  have c: "m + 0x3F800000 = m + 127 * 2 ^ 23" by simp
  have "(m + 0x3F800000) div 2 ^ 23 = 127" "(m + 0x3F800000) mod 2 ^ 23 = m" "(m + 0x3F800000) div 2 ^ (23 + 8) = 0"
    using m unfolding c div_mult_self1 mod_mult_self1 by simp_all
  then show "float_of_bits 8 23 (m + 0x3F800000) = Fin False (2 ^ 23 + m) (- 23)"
    unfolding float_of_bits_def Let_def by simp
next
  assume m: "m < 2 ^ 52"
  have c: "m + 0x3FF0000000000000 = m + 1023 * 2 ^ 52" by simp
  have "(m + 0x3FF0000000000000) div 2 ^ 52 = 1023" "(m + 0x3FF0000000000000) mod 2 ^ 52 = m"
    "(m + 0x3FF0000000000000) div 2 ^ (52 + 11) = 0"
    using m unfolding c div_mult_self1 mod_mult_self1 by simp_all
  then show "float_of_bits 11 52 (m + 0x3FF0000000000000) = Fin False (2 ^ 52 + m) (- 52)"
    unfolding float_of_bits_def Let_def by simp
qed

lemma fp_minus_one:
  assumes "m < 2 ^ n" and "n \<le> precision f" and "min_exp f \<le> - int n" and "int (precision f) \<le> max_exp f + 1"
  shows "fp_minus f (Fin False (2 ^ n + m) (- int n)) (Fin False 1 0) = Fin False m (- int n)"
proof -
  have "bitlen m \<le> precision f" using assms(1,2) bitlen_le_iff [of m n] by simp
  then have "nat (max (int (bitlen m) - int (precision f)) (min_exp f - (- int n))) = 0"
    using assms(3) by simp
  moreover have "\<not> int (bitlen m) - int n > max_exp f + 1" using \<open>bitlen m \<le> precision f\<close> assms(4) by linarith
  ultimately have "fp_round f False m (- int n) = Fin False m (- int n)" by (simp add: fp_round_def Let_def)
  then show ?thesis by (simp add: Let_def min_def)
qed

lemma float32_fraction:
  fixes w :: u32
  shows "float32_minus_one ((w AND VL_IEEE754_FLOAT32_LOW23) OR VL_IEEE754_FLOAT32_ONE) = Fin False (unat w mod 2 ^ 23) (- 23)"
proof -
  have low: "VL_IEEE754_FLOAT32_LOW23 = mask 23" by (simp add: VL_IEEE754_FLOAT32_LOW23_def mask_eq_exp_minus_1)
  have one: "unat VL_IEEE754_FLOAT32_ONE = 0x3F800000" by (simp add: VL_IEEE754_FLOAT32_ONE_def)
  have m: "unat w mod 2 ^ 23 < 2 ^ 23" by simp
  have "VL_IEEE754_FLOAT32_LOW23 AND VL_IEEE754_FLOAT32_ONE = 0"
    by (simp add: VL_IEEE754_FLOAT32_LOW23_def VL_IEEE754_FLOAT32_ONE_def)
  then have "(w AND VL_IEEE754_FLOAT32_LOW23) AND VL_IEEE754_FLOAT32_ONE = 0" by (simp add: and.assoc)
  then have "unat ((w AND VL_IEEE754_FLOAT32_LOW23) OR VL_IEEE754_FLOAT32_ONE) = unat w mod 2 ^ 23 + 0x3F800000"
    using m by (subst or_disjoint_nat) (simp_all only: low unat_mask_bits one, simp)
  then show ?thesis
    unfolding float32_minus_one_def using float_between_1_2(1) [OF m] fp_minus_one [OF m, of binary32]
    by (simp add: binary32_def)
qed

lemma float64_fraction:
  fixes w :: u64
  shows "fp_minus binary64 (float_of_bits 11 52 (unat ((w AND VL_IEEE754_FLOAT64_LOW52) OR VL_IEEE754_FLOAT64_ONE)))
    (Fin False 1 0) = Fin False (unat w mod 2 ^ 52) (- 52)"
proof -
  have low: "VL_IEEE754_FLOAT64_LOW52 = mask 52" by (simp add: VL_IEEE754_FLOAT64_LOW52_def mask_eq_exp_minus_1)
  have one: "unat VL_IEEE754_FLOAT64_ONE = 0x3FF0000000000000" by (simp add: VL_IEEE754_FLOAT64_ONE_def)
  have m: "unat w mod 2 ^ 52 < 2 ^ 52" by simp
  have "VL_IEEE754_FLOAT64_LOW52 AND VL_IEEE754_FLOAT64_ONE = 0"
    by (simp add: VL_IEEE754_FLOAT64_LOW52_def VL_IEEE754_FLOAT64_ONE_def)
  then have "(w AND VL_IEEE754_FLOAT64_LOW52) AND VL_IEEE754_FLOAT64_ONE = 0" by (simp add: and.assoc)
  then have "unat ((w AND VL_IEEE754_FLOAT64_LOW52) OR VL_IEEE754_FLOAT64_ONE) = unat w mod 2 ^ 52 + 0x3FF0000000000000"
    using m by (subst or_disjoint_nat) (simp_all only: low unat_mask_bits one, simp)
  then show ?thesis using float_between_1_2(2) [OF m] fp_minus_one [OF m, of binary64] by (simp add: binary64_def)
qed

lemma float32_halves:
  fixes z :: u64
  defines "bits \<equiv> (z AND VL_IEEE754_FLOAT32_LOW23_DW) OR VL_IEEE754_FLOAT32_ONE_DW"
  shows "(ucast bits :: u32) = (ucast z AND VL_IEEE754_FLOAT32_LOW23) OR VL_IEEE754_FLOAT32_ONE"
    and "(ucast (drop_bit 32 bits) :: u32) = (ucast (drop_bit 32 z) AND VL_IEEE754_FLOAT32_LOW23) OR VL_IEEE754_FLOAT32_ONE"
proof -
  have c: "(ucast VL_IEEE754_FLOAT32_LOW23_DW :: u32) = VL_IEEE754_FLOAT32_LOW23"
    "(ucast VL_IEEE754_FLOAT32_ONE_DW :: u32) = VL_IEEE754_FLOAT32_ONE"
    "(ucast (drop_bit 32 VL_IEEE754_FLOAT32_LOW23_DW) :: u32) = VL_IEEE754_FLOAT32_LOW23"
    "(ucast (drop_bit 32 VL_IEEE754_FLOAT32_ONE_DW) :: u32) = VL_IEEE754_FLOAT32_ONE"
    by (simp_all add: VL_IEEE754_FLOAT32_LOW23_DW_def VL_IEEE754_FLOAT32_ONE_DW_def VL_IEEE754_FLOAT32_LOW23_def
        VL_IEEE754_FLOAT32_ONE_def)
  show "(ucast bits :: u32) = (ucast z AND VL_IEEE754_FLOAT32_LOW23) OR VL_IEEE754_FLOAT32_ONE"
    unfolding bits_def unsigned_or_eq unsigned_and_eq c ..
  show "(ucast (drop_bit 32 bits) :: u32) = (ucast (drop_bit 32 z) AND VL_IEEE754_FLOAT32_LOW23) OR VL_IEEE754_FLOAT32_ONE"
    unfolding bits_def drop_bit_or drop_bit_and unsigned_or_eq unsigned_and_eq c ..
qed

text \<open>
  The floating numbers are exactly the fractions \<open>m / 2^23\<close> and \<open>m / 2^52\<close> of the low bits of a draw
  (for a pair, of each half), so they lie in the interval from 0 to 1 without 1, and nothing is rounded.
\<close>

theorem rand_floats_unit:
  "vlRandF rand = (Fin False (unat (fst (vlRandNext rand)) mod 2 ^ 23) (- 23), snd (vlRandNext rand)) \<and>
   vlRandD rand = (Fin False (unat (fst (vlRandNext rand)) mod 2 ^ 52) (- 52), snd (vlRandNext rand)) \<and>
   vlRandFx2 rand = ((Fin False (unat (fst (vlRandNext rand)) mod 2 ^ 23) (- 23),
     Fin False (unat (fst (vlRandNext rand)) div 2 ^ 32 mod 2 ^ 23) (- 23)), snd (vlRandNext rand))"
proof -
  have up: "unat (ucast z :: u32) mod 2 ^ 23 = unat z mod 2 ^ 23" for z :: u64
    by (simp add: unsigned_ucast_eq take_bit_eq_mod mod_mod_cancel)
  show ?thesis
    unfolding vlRandF_def vlRandD_def vlRandFx2_def Let_def split_def float32_halves float32_fraction float64_fraction up
      unat_drop_bit by simp
qed

end
