(* ===== verification/VL_MsgPackIO.thy ===== *)
theory VL_MsgPackIO
  imports VL_Stack
begin

text \<open>
  \<^verbatim>\<open>src/core/vl_msgpack_io.c\<close>: the encoder and the decoder of the MessagePack format, on the models
  of \<^verbatim>\<open>vl_buffer\<close> and \<^verbatim>\<open>vl_stack\<close>. Integers are taken with their object representation on a
  little-endian machine, \<^verbatim>\<open>vl_int8_t\<close> is a signed character, floating numbers are passed as their
  bit patterns.
\<close>

unbundle bit_operations_syntax

section \<open>Types\<close>

datatype vl_msgpack_type =
    VL_MSGPACK_NIL
  | VL_MSGPACK_BOOL
  | VL_MSGPACK_INT
  | VL_MSGPACK_UINT
  | VL_MSGPACK_FLOAT32
  | VL_MSGPACK_FLOAT64
  | VL_MSGPACK_STRING
  | VL_MSGPACK_BINARY
  | VL_MSGPACK_ARRAY
  | VL_MSGPACK_MAP
  | VL_MSGPACK_EXT

datatype vl_msgpack_io_error =
    VL_MSGPACK_IO_ERR_NONE
  | VL_MSGPACK_IO_ERR_STACK_UNDERFLOW
  | VL_MSGPACK_IO_ERR_UNEXPECTED_TOKEN
  | VL_MSGPACK_IO_ERR_UNBALANCED_MAP
  | VL_MSGPACK_IO_ERR_UNEXPECTED_EOF

datatype vl_msgpack_io_type =
    VL_MSGPACK_IO_POS_FIXINT | VL_MSGPACK_IO_FIXMAP | VL_MSGPACK_IO_FIXARRAY | VL_MSGPACK_IO_FIXSTR
  | VL_MSGPACK_IO_NEG_FIXINT | VL_MSGPACK_IO_NIL | VL_MSGPACK_IO_FALSE | VL_MSGPACK_IO_TRUE
  | VL_MSGPACK_IO_BIN8 | VL_MSGPACK_IO_BIN16 | VL_MSGPACK_IO_BIN32 | VL_MSGPACK_IO_EXT8
  | VL_MSGPACK_IO_EXT16 | VL_MSGPACK_IO_EXT32 | VL_MSGPACK_IO_FLOAT32 | VL_MSGPACK_IO_FLOAT64
  | VL_MSGPACK_IO_UINT8 | VL_MSGPACK_IO_UINT16 | VL_MSGPACK_IO_UINT32 | VL_MSGPACK_IO_UINT64
  | VL_MSGPACK_IO_INT8 | VL_MSGPACK_IO_INT16 | VL_MSGPACK_IO_INT32 | VL_MSGPACK_IO_INT64
  | VL_MSGPACK_IO_FIXEXT1 | VL_MSGPACK_IO_FIXEXT2 | VL_MSGPACK_IO_FIXEXT4 | VL_MSGPACK_IO_FIXEXT8
  | VL_MSGPACK_IO_FIXEXT16 | VL_MSGPACK_IO_STR8 | VL_MSGPACK_IO_STR16 | VL_MSGPACK_IO_STR32
  | VL_MSGPACK_IO_ARRAY16 | VL_MSGPACK_IO_ARRAY32 | VL_MSGPACK_IO_MAP16 | VL_MSGPACK_IO_MAP32

text \<open>The first five tags are combined with a length or a value.\<close>

fun io_tag :: "vl_msgpack_io_type \<Rightarrow> u8" where
  "io_tag VL_MSGPACK_IO_POS_FIXINT = 0x00"
| "io_tag VL_MSGPACK_IO_FIXMAP = 0x80"
| "io_tag VL_MSGPACK_IO_FIXARRAY = 0x90"
| "io_tag VL_MSGPACK_IO_FIXSTR = 0xA0"
| "io_tag VL_MSGPACK_IO_NEG_FIXINT = 0xE0"
| "io_tag VL_MSGPACK_IO_NIL = 0xC0"
| "io_tag VL_MSGPACK_IO_FALSE = 0xC2"
| "io_tag VL_MSGPACK_IO_TRUE = 0xC3"
| "io_tag VL_MSGPACK_IO_BIN8 = 0xC4"
| "io_tag VL_MSGPACK_IO_BIN16 = 0xC5"
| "io_tag VL_MSGPACK_IO_BIN32 = 0xC6"
| "io_tag VL_MSGPACK_IO_EXT8 = 0xC7"
| "io_tag VL_MSGPACK_IO_EXT16 = 0xC8"
| "io_tag VL_MSGPACK_IO_EXT32 = 0xC9"
| "io_tag VL_MSGPACK_IO_FLOAT32 = 0xCA"
| "io_tag VL_MSGPACK_IO_FLOAT64 = 0xCB"
| "io_tag VL_MSGPACK_IO_UINT8 = 0xCC"
| "io_tag VL_MSGPACK_IO_UINT16 = 0xCD"
| "io_tag VL_MSGPACK_IO_UINT32 = 0xCE"
| "io_tag VL_MSGPACK_IO_UINT64 = 0xCF"
| "io_tag VL_MSGPACK_IO_INT8 = 0xD0"
| "io_tag VL_MSGPACK_IO_INT16 = 0xD1"
| "io_tag VL_MSGPACK_IO_INT32 = 0xD2"
| "io_tag VL_MSGPACK_IO_INT64 = 0xD3"
| "io_tag VL_MSGPACK_IO_FIXEXT1 = 0xD4"
| "io_tag VL_MSGPACK_IO_FIXEXT2 = 0xD5"
| "io_tag VL_MSGPACK_IO_FIXEXT4 = 0xD6"
| "io_tag VL_MSGPACK_IO_FIXEXT8 = 0xD7"
| "io_tag VL_MSGPACK_IO_FIXEXT16 = 0xD8"
| "io_tag VL_MSGPACK_IO_STR8 = 0xD9"
| "io_tag VL_MSGPACK_IO_STR16 = 0xDA"
| "io_tag VL_MSGPACK_IO_STR32 = 0xDB"
| "io_tag VL_MSGPACK_IO_ARRAY16 = 0xDC"
| "io_tag VL_MSGPACK_IO_ARRAY32 = 0xDD"
| "io_tag VL_MSGPACK_IO_MAP16 = 0xDE"
| "io_tag VL_MSGPACK_IO_MAP32 = 0xDF"

text \<open>Network byte order, by \<^verbatim>\<open>vlMemReverse\<close> on the object.\<close>

definition VL_FLIP_ENDIAN :: "byte list \<Rightarrow> byte list option" where
  "VL_FLIP_ENDIAN xs = vlMemReverseSubArraysStride xs 1 (length xs) 1"

section \<open>Frames of the encoder\<close>

record vl_msgpack_encframe =
  ef_isArray :: bool
  ef_startOffset :: nat
  ef_sizeOffset :: nat
  ef_dataOffset :: nat
  ef_totalElements :: nat

text \<open>The layout of the structure: one byte, padding, three offsets, the number of elements, padding.\<close>

definition ENCFRAME_SIZE :: nat where
  "ENCFRAME_SIZE = 40"

definition encframe_bytes :: "vl_msgpack_encframe \<Rightarrow> byte list" where
  "encframe_bytes f =
     nat_bytes 1 (if ef_isArray f then 1 else 0) @ replicate 7 None @
     nat_bytes 8 (ef_startOffset f) @ nat_bytes 8 (ef_sizeOffset f) @ nat_bytes 8 (ef_dataOffset f) @
     nat_bytes 4 (ef_totalElements f) @ replicate 4 None"

definition read_encframe :: "byte list \<Rightarrow> vl_msgpack_encframe option" where
  "read_encframe xs =
     do {
       arr \<leftarrow> bytes_nat (take 1 xs);
       start \<leftarrow> bytes_nat (take 8 (drop 8 xs));
       sz \<leftarrow> bytes_nat (take 8 (drop 16 xs));
       dat \<leftarrow> bytes_nat (take 8 (drop 24 xs));
       n \<leftarrow> bytes_nat (take 4 (drop 32 xs));
       Some \<lparr>ef_isArray = (arr \<noteq> 0), ef_startOffset = start, ef_sizeOffset = sz, ef_dataOffset = dat, ef_totalElements = n\<rparr>
     }"

text \<open>The frame that \<^verbatim>\<open>vlStackPeek\<close> points at: read, and written.\<close>

definition peek_encframe :: "vl_stack \<Rightarrow> vl_msgpack_encframe option" where
  "peek_encframe st = do { xs \<leftarrow> vlStackSample st (vlStackPeek st) ENCFRAME_SIZE; read_encframe xs }"

definition store_encframe :: "vl_stack \<Rightarrow> vl_msgpack_encframe \<Rightarrow> vl_stack option" where
  "store_encframe st f =
     do {
       dat \<leftarrow> mem_write (buf_data (st_buffer st)) (vlStackPeek st) (encframe_bytes f);
       Some (st\<lparr>st_buffer := (st_buffer st)\<lparr>buf_data := Some dat\<rparr>\<rparr>)
     }"

record vl_msgpack_encoder =
  enc_stateStack :: vl_stack
  enc_buffer :: vl_buffer
  enc_error :: vl_msgpack_io_error
  enc_errorType :: vl_msgpack_type
  enc_errorDepth :: nat

text \<open>A write to the buffer whose offset is not used.\<close>

definition enc_write :: "allocator \<Rightarrow> vl_msgpack_encoder \<Rightarrow> nat \<Rightarrow> byte list option \<Rightarrow> vl_msgpack_encoder option" where
  "enc_write al enc n src =
     do { (_, buffer) \<leftarrow> vlBufferWrite al (enc_buffer enc) n src; Some (enc\<lparr>enc_buffer := buffer\<rparr>) }"

definition enc_write_byte :: "allocator \<Rightarrow> vl_msgpack_encoder \<Rightarrow> u8 \<Rightarrow> vl_msgpack_encoder option" where
  "enc_write_byte al enc b = enc_write al enc 1 (Some [Some b])"

text \<open>A number of \<open>k\<close> bytes in network byte order.\<close>

definition enc_write_flipped :: "allocator \<Rightarrow> vl_msgpack_encoder \<Rightarrow> nat \<Rightarrow> nat \<Rightarrow> vl_msgpack_encoder option" where
  "enc_write_flipped al enc k n = do { xs \<leftarrow> VL_FLIP_ENDIAN (nat_bytes k n); enc_write al enc k (Some xs) }"

text \<open>The tag and how many of the four reserved bytes are not needed.\<close>

definition vl_MsgPackEncodeFrame :: "vl_msgpack_encframe \<Rightarrow> u8 \<times> nat \<times> vl_msgpack_encframe" where
  "vl_MsgPackEncodeFrame frame =
     (let frame = (if \<not> ef_isArray frame then frame\<lparr>ef_totalElements := ef_totalElements frame div 2\<rparr> else frame);
          n = ef_totalElements frame;
          isFixed = (n \<le> 0xF)
      in if isFixed then
           (io_tag (if ef_isArray frame then VL_MSGPACK_IO_FIXARRAY else VL_MSGPACK_IO_FIXMAP) OR (of_nat n AND 0xF), 4, frame)
         else if n \<le> 0xFFFF then
           (io_tag (if ef_isArray frame then VL_MSGPACK_IO_ARRAY16 else VL_MSGPACK_IO_MAP16), 2, frame)
         else (io_tag (if ef_isArray frame then VL_MSGPACK_IO_ARRAY32 else VL_MSGPACK_IO_MAP32), 0, frame))"

definition vl_MsgPackEncodePush :: "allocator \<Rightarrow> vl_msgpack_encoder \<Rightarrow> bool \<Rightarrow> vl_msgpack_encoder option" where
  "vl_MsgPackEncodePush al enc isArray =
     do {
       (_, stack) \<leftarrow> vlStackPush al (enc_stateStack enc) ENCFRAME_SIZE;
       (startOffset, buffer) \<leftarrow> vlBufferWrite al (enc_buffer enc) 1 None;
       (sizeOffset, buffer) \<leftarrow> vlBufferWrite al buffer 4 None;
       stack \<leftarrow> store_encframe stack
         \<lparr>ef_isArray = isArray, ef_startOffset = startOffset, ef_sizeOffset = sizeOffset,
          ef_dataOffset = buf_offset buffer, ef_totalElements = 0\<rparr>;
       Some (enc\<lparr>enc_stateStack := stack, enc_buffer := buffer\<rparr>)
     }"

text \<open>
  The tag and the size go to their place, and what was encoded since moves down over the bytes
  that the size does not need.
\<close>

definition vl_MsgPackEncodePop :: "vl_msgpack_encoder \<Rightarrow> (bool \<times> vl_msgpack_encoder) option" where
  "vl_MsgPackEncodePop enc =
     (if vlStackEmpty (enc_stateStack enc) then Some (False, enc)
      else do {
        frame \<leftarrow> peek_encframe (enc_stateStack enc);
        stack \<leftarrow> vlStackPop (enc_stateStack enc);
        let (typeTag, off, frame) = vl_MsgPackEncodeFrame frame;
        let sizeLength = 4 - off;
        let buffer = enc_buffer enc;
        dat \<leftarrow> mem_write (buf_data buffer) (ef_startOffset frame) [Some typeTag];
        dat \<leftarrow>
          (if sizeLength = 2 \<or> sizeLength = 4 then do {
             xs \<leftarrow> VL_FLIP_ENDIAN (nat_bytes sizeLength (ef_totalElements frame));
             mem_write (Some dat) (ef_sizeOffset frame) xs
           } else Some dat);
        buffer \<leftarrow>
          (if off > 0 then do {
             let blockSize = u64_of (buf_offset buffer + (2 ^ 64 - ef_dataOffset frame));
             xs \<leftarrow> mem_read (Some dat) (ef_dataOffset frame) blockSize;
             dat \<leftarrow> mem_write (Some dat) (ef_dataOffset frame - off) xs;
             Some (buffer\<lparr>buf_data := Some dat, buf_offset := u64_of (buf_offset buffer + (2 ^ 64 - off))\<rparr>)
           } else Some (buffer\<lparr>buf_data := Some dat\<rparr>));
        Some (True, enc\<lparr>enc_stateStack := stack, enc_buffer := buffer\<rparr>)
      })"

definition vl_MsgPackEncodeIncrement :: "vl_msgpack_encoder \<Rightarrow> vl_msgpack_encoder option" where
  "vl_MsgPackEncodeIncrement enc =
     (if vlStackEmpty (enc_stateStack enc) then Some enc
      else do {
        frame \<leftarrow> peek_encframe (enc_stateStack enc);
        stack \<leftarrow> store_encframe (enc_stateStack enc) (frame\<lparr>ef_totalElements := inc32 (ef_totalElements frame)\<rparr>);
        Some (enc\<lparr>enc_stateStack := stack\<rparr>)
      })"

section \<open>The encoder\<close>

definition vlMsgPackIOEncoderInit :: "allocator \<Rightarrow> vl_msgpack_encoder option" where
  "vlMsgPackIOEncoderInit al =
     do {
       stack \<leftarrow> vlStackInit al;
       buffer \<leftarrow> vlBufferInit al;
       Some \<lparr>enc_stateStack = stack, enc_buffer = buffer, enc_error = VL_MSGPACK_IO_ERR_NONE,
             enc_errorType = VL_MSGPACK_NIL, enc_errorDepth = 0\<rparr>
     }"

definition vlMsgPackIOEncoderFree :: "vl_msgpack_encoder \<Rightarrow> unit option" where
  "vlMsgPackIOEncoderFree enc = do { _ \<leftarrow> vlBufferFree (enc_buffer enc); vlStackFree (enc_stateStack enc) }"

text \<open>\<^verbatim>\<open>sizeof(vl_msgpack_encoder)\<close> is 80; the result of \<^verbatim>\<open>malloc\<close> is used unchecked.\<close>

definition vlMsgPackIOEncoderNew :: "allocator \<Rightarrow> vl_msgpack_encoder option" where
  "vlMsgPackIOEncoderNew al = do { _ \<leftarrow> malloc_at al 80; vlMsgPackIOEncoderInit al }"

definition vlMsgPackIOEncoderDelete :: "vl_msgpack_encoder \<Rightarrow> unit option" where
  "vlMsgPackIOEncoderDelete enc = vlMsgPackIOEncoderFree enc"

definition vlMsgPackIOEncoderClear :: "allocator \<Rightarrow> vl_msgpack_encoder \<Rightarrow> vl_msgpack_encoder option" where
  "vlMsgPackIOEncoderClear al enc =
     do {
       let stack = vlStackReset (enc_stateStack enc);
       buffer \<leftarrow> vlBufferReset al (enc_buffer enc) (vlMemSize (buf_data (enc_buffer enc)));
       Some \<lparr>enc_stateStack = stack, enc_buffer = buffer, enc_error = VL_MSGPACK_IO_ERR_NONE,
             enc_errorType = VL_MSGPACK_NIL, enc_errorDepth = 0\<rparr>
     }"

definition vlMsgPackIOEncodeMapBegin :: "allocator \<Rightarrow> vl_msgpack_encoder \<Rightarrow> vl_msgpack_encoder option" where
  "vlMsgPackIOEncodeMapBegin al enc =
     do { enc \<leftarrow> vl_MsgPackEncodeIncrement enc; vl_MsgPackEncodePush al enc False }"

definition vlMsgPackIOEncodeMapEnd :: "vl_msgpack_encoder \<Rightarrow> vl_msgpack_encoder option" where
  "vlMsgPackIOEncodeMapEnd enc =
     (if vlStackEmpty (enc_stateStack enc) then
        Some (enc\<lparr>enc_error := VL_MSGPACK_IO_ERR_STACK_UNDERFLOW, enc_errorDepth := 0, enc_errorType := VL_MSGPACK_MAP\<rparr>)
      else do {
        frame \<leftarrow> peek_encframe (enc_stateStack enc);
        if ef_totalElements frame mod 2 = 1 then
          Some (enc\<lparr>enc_error := VL_MSGPACK_IO_ERR_UNBALANCED_MAP, enc_errorDepth := st_depth (enc_stateStack enc),
                    enc_errorType := VL_MSGPACK_MAP\<rparr>)
        else do { (_, enc) \<leftarrow> vl_MsgPackEncodePop enc; Some enc }
      })"

definition vlMsgPackIOEncodeArrayBegin :: "allocator \<Rightarrow> vl_msgpack_encoder \<Rightarrow> vl_msgpack_encoder option" where
  "vlMsgPackIOEncodeArrayBegin al enc =
     do { enc \<leftarrow> vl_MsgPackEncodeIncrement enc; vl_MsgPackEncodePush al enc True }"

definition vlMsgPackIOEncodeArrayEnd :: "vl_msgpack_encoder \<Rightarrow> vl_msgpack_encoder option" where
  "vlMsgPackIOEncodeArrayEnd enc =
     (if vlStackEmpty (enc_stateStack enc) then
        Some (enc\<lparr>enc_error := VL_MSGPACK_IO_ERR_STACK_UNDERFLOW, enc_errorDepth := 0, enc_errorType := VL_MSGPACK_ARRAY\<rparr>)
      else do { (_, enc) \<leftarrow> vl_MsgPackEncodePop enc; Some enc })"

definition vlMsgPackIOEncodeBool :: "allocator \<Rightarrow> vl_msgpack_encoder \<Rightarrow> bool \<Rightarrow> vl_msgpack_encoder option" where
  "vlMsgPackIOEncodeBool al enc v =
     do {
       enc \<leftarrow> vl_MsgPackEncodeIncrement enc;
       enc_write_byte al enc (io_tag (if v then VL_MSGPACK_IO_TRUE else VL_MSGPACK_IO_FALSE))
     }"

text \<open>Strings and binaries are \<^const>\<open>None\<close> for \<^verbatim>\<open>NULL\<close>; the length is a number of 32 bits.\<close>

definition vlMsgPackIOEncodeStringLen ::
  "allocator \<Rightarrow> vl_msgpack_encoder \<Rightarrow> byte list option \<Rightarrow> nat \<Rightarrow> vl_msgpack_encoder option" where
  "vlMsgPackIOEncodeStringLen al enc v len =
     do {
       enc \<leftarrow> vl_MsgPackEncodeIncrement enc;
       enc \<leftarrow>
         (if len \<le> 0x1F then
            enc_write_byte al enc (io_tag VL_MSGPACK_IO_FIXSTR OR (of_nat len AND 0x1F))
          else if len \<le> 0xFF then do {
            enc \<leftarrow> enc_write_byte al enc (io_tag VL_MSGPACK_IO_STR8);
            enc_write_byte al enc (of_nat len)
          }
          else if len \<le> 0xFFFF then do {
            enc \<leftarrow> enc_write_byte al enc (io_tag VL_MSGPACK_IO_STR16);
            enc_write_flipped al enc 2 len
          }
          else do {
            enc \<leftarrow> enc_write_byte al enc (io_tag VL_MSGPACK_IO_STR32);
            enc_write_flipped al enc 4 len
          });
       enc_write al enc len v
     }"

definition vlMsgPackIOEncodeFloat32 :: "allocator \<Rightarrow> vl_msgpack_encoder \<Rightarrow> u32 \<Rightarrow> vl_msgpack_encoder option" where
  "vlMsgPackIOEncodeFloat32 al enc bits =
     do {
       enc \<leftarrow> vl_MsgPackEncodeIncrement enc;
       enc \<leftarrow> enc_write_byte al enc (io_tag VL_MSGPACK_IO_FLOAT32);
       enc_write_flipped al enc 4 (unat bits)
     }"

definition vlMsgPackIOEncodeFloat64 :: "allocator \<Rightarrow> vl_msgpack_encoder \<Rightarrow> u64 \<Rightarrow> vl_msgpack_encoder option" where
  "vlMsgPackIOEncodeFloat64 al enc bits =
     do {
       enc \<leftarrow> vl_MsgPackEncodeIncrement enc;
       enc \<leftarrow> enc_write_byte al enc (io_tag VL_MSGPACK_IO_FLOAT64);
       enc_write_flipped al enc 8 (unat bits)
     }"

definition vlMsgPackIOEncodeBinary ::
  "allocator \<Rightarrow> vl_msgpack_encoder \<Rightarrow> byte list option \<Rightarrow> nat \<Rightarrow> vl_msgpack_encoder option" where
  "vlMsgPackIOEncodeBinary al enc v len =
     do {
       enc \<leftarrow> vl_MsgPackEncodeIncrement enc;
       enc \<leftarrow>
         (if len \<le> 0xFF then do {
            enc \<leftarrow> enc_write_byte al enc (io_tag VL_MSGPACK_IO_BIN8);
            enc_write_byte al enc (of_nat len)
          }
          else if len \<le> 0xFFFF then do {
            enc \<leftarrow> enc_write_byte al enc (io_tag VL_MSGPACK_IO_BIN16);
            enc_write_flipped al enc 2 len
          }
          else do {
            enc \<leftarrow> enc_write_byte al enc (io_tag VL_MSGPACK_IO_BIN32);
            enc_write_flipped al enc 4 len
          });
       enc_write al enc len v
     }"

text \<open>
  Up to 16 bytes go into one of five sizes, filled up with zeros; that there are no bytes is
  not distinguished from one byte.
\<close>

definition fixext_size :: "nat \<Rightarrow> nat \<times> vl_msgpack_io_type" where
  "fixext_size len =
     (if len \<le> 1 then (1, VL_MSGPACK_IO_FIXEXT1)
      else if len = 2 then (2, VL_MSGPACK_IO_FIXEXT2)
      else if len \<le> 4 then (4, VL_MSGPACK_IO_FIXEXT4)
      else if len \<le> 8 then (8, VL_MSGPACK_IO_FIXEXT8)
      else (16, VL_MSGPACK_IO_FIXEXT16))"

definition vlMsgPackIOEncodeExt ::
  "allocator \<Rightarrow> vl_msgpack_encoder \<Rightarrow> u8 \<Rightarrow> byte list option \<Rightarrow> nat \<Rightarrow> vl_msgpack_encoder option" where
  "vlMsgPackIOEncodeExt al enc type v len =
     do {
       enc \<leftarrow> vl_MsgPackEncodeIncrement enc;
       if len \<le> 16 then do {
         let tempBuffer = replicate 16 (Some 0);
         tempBuffer \<leftarrow>
           (case v of
              Some bs \<Rightarrow> if len > 0 then do { xs \<leftarrow> read_range bs 0 len; write_range tempBuffer 0 xs } else Some tempBuffer
            | None \<Rightarrow> Some tempBuffer);
         let (encLen, encType) = fixext_size len;
         enc \<leftarrow> enc_write_byte al enc (io_tag encType);
         enc \<leftarrow> enc_write_byte al enc type;
         enc_write al enc encLen (Some tempBuffer)
       } else do {
         enc \<leftarrow>
           (if len \<le> 0xFF then do {
              enc \<leftarrow> enc_write_byte al enc (io_tag VL_MSGPACK_IO_EXT8);
              enc_write_byte al enc (of_nat len)
            }
            else if len \<le> 0xFFFF then do {
              enc \<leftarrow> enc_write_byte al enc (io_tag VL_MSGPACK_IO_EXT16);
              enc_write_flipped al enc 2 len
            }
            else do {
              enc \<leftarrow> enc_write_byte al enc (io_tag VL_MSGPACK_IO_EXT32);
              enc_write_flipped al enc 4 len
            });
         enc \<leftarrow> enc_write_byte al enc type;
         enc_write al enc len v
       }
     }"

definition vlMsgPackIOEncodeInt :: "allocator \<Rightarrow> vl_msgpack_encoder \<Rightarrow> u64 \<Rightarrow> vl_msgpack_encoder option" where
  "vlMsgPackIOEncodeInt al enc v =
     do {
       enc \<leftarrow> vl_MsgPackEncodeIncrement enc;
       if sint v \<le> 0x7F \<and> sint v \<ge> 0 then
         enc_write_byte al enc (io_tag VL_MSGPACK_IO_POS_FIXINT OR ucast (v AND 0xFF))
       else if sint v \<le> -1 \<and> sint v \<ge> -0x1F then
         enc_write_byte al enc (io_tag VL_MSGPACK_IO_NEG_FIXINT OR ucast (v AND 0xFF))
       else if sint v \<le> 0x7F \<and> sint v \<ge> -0x7F then do {
         enc \<leftarrow> enc_write_byte al enc (io_tag VL_MSGPACK_IO_INT8);
         enc_write_byte al enc (ucast v)
       }
       else if sint v \<le> 0x7FFF \<and> sint v \<ge> -0x7FFF then do {
         enc \<leftarrow> enc_write_byte al enc (io_tag VL_MSGPACK_IO_INT16);
         enc_write_flipped al enc 2 (unat (ucast v :: u16))
       }
       else if sint v \<le> 0x7FFFFFFF \<and> sint v \<ge> -0x7FFFFFFF then do {
         enc \<leftarrow> enc_write_byte al enc (io_tag VL_MSGPACK_IO_INT32);
         enc_write_flipped al enc 4 (unat (ucast v :: u32))
       }
       else do {
         enc \<leftarrow> enc_write_byte al enc (io_tag VL_MSGPACK_IO_INT64);
         enc_write_flipped al enc 8 (unat v)
       }
     }"

definition vlMsgPackIOEncodeUInt :: "allocator \<Rightarrow> vl_msgpack_encoder \<Rightarrow> u64 \<Rightarrow> vl_msgpack_encoder option" where
  "vlMsgPackIOEncodeUInt al enc v =
     do {
       enc \<leftarrow> vl_MsgPackEncodeIncrement enc;
       if v \<le> 0xFF then do {
         enc \<leftarrow> enc_write_byte al enc (io_tag VL_MSGPACK_IO_UINT8);
         enc_write_byte al enc (ucast v)
       }
       else if v \<le> 0xFFFF then do {
         enc \<leftarrow> enc_write_byte al enc (io_tag VL_MSGPACK_IO_UINT16);
         enc_write_flipped al enc 2 (unat (ucast v :: u16))
       }
       else if v \<le> 0xFFFFFFFF then do {
         enc \<leftarrow> enc_write_byte al enc (io_tag VL_MSGPACK_IO_UINT32);
         enc_write_flipped al enc 4 (unat (ucast v :: u32))
       }
       else do {
         enc \<leftarrow> enc_write_byte al enc (io_tag VL_MSGPACK_IO_UINT64);
         enc_write_flipped al enc 8 (unat v)
       }
     }"

definition vlMsgPackIOEncodeNil :: "allocator \<Rightarrow> vl_msgpack_encoder \<Rightarrow> vl_msgpack_encoder option" where
  "vlMsgPackIOEncodeNil al enc =
     do { enc \<leftarrow> vl_MsgPackEncodeIncrement enc; enc_write_byte al enc (io_tag VL_MSGPACK_IO_NIL) }"

section \<open>The decoder\<close>

text \<open>
  A token has a type and, once it was read, a value; pointers into the source are offsets. The value
  is meaningful only when the decoder returned true.
\<close>

datatype vl_msgpack_io_payload =
    Tk_none
  | Tk_array nat
  | Tk_map nat
  | Tk_integer u64
  | Tk_uinteger u64
  | Tk_float32 u32
  | Tk_float64 u64
  | Tk_boolean bool
  | Tk_string nat nat
  | Tk_binary nat nat
  | Tk_ext u8 nat nat

record vl_msgpack_io_token =
  tk_type :: vl_msgpack_type
  tk_value :: vl_msgpack_io_payload

record vl_msgpack_decoder =
  dec_srcMem :: "byte list"
  dec_srcLen :: nat
  dec_srcOffset :: nat
  dec_error :: vl_msgpack_io_error
  dec_errorType :: vl_msgpack_type
  dec_errorOffset :: nat

definition vlMsgPackIODecoderStart :: "byte list \<Rightarrow> nat \<Rightarrow> vl_msgpack_decoder" where
  "vlMsgPackIODecoderStart srcMem srcLen =
     \<lparr>dec_srcMem = srcMem, dec_srcLen = srcLen, dec_srcOffset = 0, dec_error = VL_MSGPACK_IO_ERR_NONE,
      dec_errorType = VL_MSGPACK_NIL, dec_errorOffset = 0\<rparr>"

type_synonym dec_result = "(bool \<times> vl_msgpack_decoder \<times> vl_msgpack_io_token) option"

text \<open>
  The check for the end of the source, with the rest of the function as its continuation. The
  sum is one of 64 bits; a negative size has been extended to it.
\<close>

definition VL_DECODE_EOFCHECK ::
  "vl_msgpack_decoder \<Rightarrow> vl_msgpack_io_token \<Rightarrow> nat \<Rightarrow> dec_result \<Rightarrow> dec_result" where
  "VL_DECODE_EOFCHECK dec tk n k =
     (if u64_of (dec_srcOffset dec + n) > dec_srcLen dec
      then Some (False, dec\<lparr>dec_error := VL_MSGPACK_IO_ERR_UNEXPECTED_EOF, dec_errorOffset := dec_srcOffset dec,
                            dec_errorType := tk_type tk\<rparr>, tk)
      else k)"

definition dec_advance :: "vl_msgpack_decoder \<Rightarrow> nat \<Rightarrow> vl_msgpack_decoder" where
  "dec_advance dec n = dec\<lparr>dec_srcOffset := u64_of (dec_srcOffset dec + n)\<rparr>"

text \<open>A number of \<open>k\<close> bytes at the offset, from network byte order if it has more than one.\<close>

definition dec_read :: "vl_msgpack_decoder \<Rightarrow> nat \<Rightarrow> (nat \<times> vl_msgpack_decoder) option" where
  "dec_read dec k =
     do {
       xs \<leftarrow> read_range (dec_srcMem dec) (dec_srcOffset dec) k;
       xs \<leftarrow> (if k = 1 then Some xs else VL_FLIP_ENDIAN xs);
       n \<leftarrow> bytes_nat xs;
       Some (n, dec_advance dec k)
     }"

definition dec_number ::
  "vl_msgpack_type \<Rightarrow> nat \<Rightarrow> (nat \<Rightarrow> vl_msgpack_io_payload) \<Rightarrow> vl_msgpack_decoder \<Rightarrow> vl_msgpack_io_token \<Rightarrow> dec_result" where
  "dec_number type k val dec tk =
     (let tk = tk\<lparr>tk_type := type\<rparr>
      in VL_DECODE_EOFCHECK dec tk k
        (do { (n, dec) \<leftarrow> dec_read dec k; Some (True, dec, tk\<lparr>tk_value := val n\<rparr>) }))"

text \<open>A length of \<open>k\<close> bytes, and as many bytes.\<close>

definition dec_bytes ::
  "vl_msgpack_type \<Rightarrow> nat \<Rightarrow> (nat \<Rightarrow> nat \<Rightarrow> vl_msgpack_io_payload) \<Rightarrow> vl_msgpack_decoder \<Rightarrow> vl_msgpack_io_token \<Rightarrow> dec_result" where
  "dec_bytes type k val dec tk =
     (let tk = tk\<lparr>tk_type := type\<rparr>
      in VL_DECODE_EOFCHECK dec tk k
        (do {
           (n, dec) \<leftarrow> dec_read dec k;
           VL_DECODE_EOFCHECK dec tk n (Some (True, dec_advance dec n, tk\<lparr>tk_value := val (dec_srcOffset dec) n\<rparr>))
         }))"

text \<open>
  The type of an extension and its bytes: \<open>need\<close> is the operand of the check, \<open>len\<close> the length.
\<close>

definition dec_ext_rest :: "nat \<Rightarrow> nat \<Rightarrow> vl_msgpack_decoder \<Rightarrow> vl_msgpack_io_token \<Rightarrow> dec_result" where
  "dec_ext_rest need len dec tk =
     VL_DECODE_EOFCHECK dec tk need
       (do {
          xs \<leftarrow> read_range (dec_srcMem dec) (dec_srcOffset dec) 1;
          t \<leftarrow> bytes_nat xs;
          let dec = dec_advance dec 1;
          Some (True, dec_advance dec len, tk\<lparr>tk_value := Tk_ext (of_nat t) (dec_srcOffset dec) len\<rparr>)
        })"

definition dec_ext ::
  "nat \<Rightarrow> (nat \<Rightarrow> (nat \<times> nat) option) \<Rightarrow> vl_msgpack_decoder \<Rightarrow> vl_msgpack_io_token \<Rightarrow> dec_result" where
  "dec_ext k lens dec tk =
     (let tk = tk\<lparr>tk_type := VL_MSGPACK_EXT\<rparr>
      in VL_DECODE_EOFCHECK dec tk k
        (do { (n, dec) \<leftarrow> dec_read dec k; (need, len) \<leftarrow> lens n; dec_ext_rest need len dec tk }))"

text \<open>
  Lengths of two and four bytes are read into signed integers, then extended to the types of the
  check and of the length. The sum with 1 may overflow.
\<close>

definition ext_lens16 :: "nat \<Rightarrow> (nat \<times> nat) option" where
  "ext_lens16 n =
     (let extLen = sint (of_nat n :: u16) in Some (nat ((extLen + 1) mod 2 ^ 64), nat (extLen mod 2 ^ 32)))"

definition ext_lens32 :: "nat \<Rightarrow> (nat \<times> nat) option" where
  "ext_lens32 n =
     (let extLen = sint (of_nat n :: u32)
      in if extLen = 0x7FFFFFFF then None else Some (nat ((extLen + 1) mod 2 ^ 64), nat (extLen mod 2 ^ 32)))"

text \<open>A tag that is none of the others, 0xC1, changes nothing in the token.\<close>

definition dec_fixed :: "u8 \<Rightarrow> vl_msgpack_decoder \<Rightarrow> vl_msgpack_io_token \<Rightarrow> dec_result" where
  "dec_fixed typeTag dec tk =
     (if typeTag \<le> 0x7F then
        Some (True, dec, \<lparr>tk_type = VL_MSGPACK_INT, tk_value = Tk_integer (ucast (typeTag AND 0x7F))\<rparr>)
      else if typeTag \<ge> 0xE0 then
        Some (True, dec, \<lparr>tk_type = VL_MSGPACK_INT, tk_value = Tk_integer (scast typeTag)\<rparr>)
      else if typeTag \<ge> 0x80 \<and> typeTag \<le> 0x8F then
        Some (True, dec, \<lparr>tk_type = VL_MSGPACK_MAP, tk_value = Tk_map (unat (typeTag AND 0xF))\<rparr>)
      else if typeTag \<ge> 0x90 \<and> typeTag \<le> 0x9F then
        Some (True, dec, \<lparr>tk_type = VL_MSGPACK_ARRAY, tk_value = Tk_array (unat (typeTag AND 0xF))\<rparr>)
      else if typeTag \<ge> 0xA0 \<and> typeTag \<le> 0xBF then
        let tk = tk\<lparr>tk_type := VL_MSGPACK_STRING\<rparr>; len = unat (typeTag AND 0x1F)
        in VL_DECODE_EOFCHECK dec tk len
             (Some (True, dec_advance dec len, tk\<lparr>tk_value := Tk_string (dec_srcOffset dec) len\<rparr>))
      else Some (True, dec, tk))"

definition vlMsgPackIODecoderNext :: "vl_msgpack_decoder \<Rightarrow> vl_msgpack_io_token \<Rightarrow> dec_result" where
  "vlMsgPackIODecoderNext dec tk =
     (if u64_of (dec_srcOffset dec + 1) > dec_srcLen dec then Some (False, dec, tk)
      else do {
        xs \<leftarrow> read_range (dec_srcMem dec) (dec_srcOffset dec) 1;
        tag \<leftarrow> bytes_nat xs;
        let typeTag = (of_nat tag :: u8);
        let dec = dec_advance dec 1;
        if typeTag = io_tag VL_MSGPACK_IO_NIL then Some (True, dec, tk\<lparr>tk_type := VL_MSGPACK_NIL\<rparr>)
        else if typeTag = io_tag VL_MSGPACK_IO_TRUE \<or> typeTag = io_tag VL_MSGPACK_IO_FALSE then
          Some (True, dec, \<lparr>tk_type = VL_MSGPACK_BOOL, tk_value = Tk_boolean (typeTag = io_tag VL_MSGPACK_IO_TRUE)\<rparr>)
        else if typeTag = io_tag VL_MSGPACK_IO_BIN8 then dec_bytes VL_MSGPACK_BINARY 1 Tk_binary dec tk
        else if typeTag = io_tag VL_MSGPACK_IO_BIN16 then dec_bytes VL_MSGPACK_BINARY 2 Tk_binary dec tk
        else if typeTag = io_tag VL_MSGPACK_IO_BIN32 then dec_bytes VL_MSGPACK_BINARY 4 Tk_binary dec tk
        else if typeTag = io_tag VL_MSGPACK_IO_EXT8 then dec_ext 1 (\<lambda>n. Some (n + 1, n)) dec tk
        else if typeTag = io_tag VL_MSGPACK_IO_EXT16 then dec_ext 2 ext_lens16 dec tk
        else if typeTag = io_tag VL_MSGPACK_IO_EXT32 then dec_ext 4 ext_lens32 dec tk
        else if typeTag = io_tag VL_MSGPACK_IO_FLOAT32 then
          dec_number VL_MSGPACK_FLOAT32 4 (\<lambda>n. Tk_float32 (of_nat n)) dec tk
        else if typeTag = io_tag VL_MSGPACK_IO_FLOAT64 then
          dec_number VL_MSGPACK_FLOAT64 8 (\<lambda>n. Tk_float64 (of_nat n)) dec tk
        else if typeTag = io_tag VL_MSGPACK_IO_UINT8 then
          dec_number VL_MSGPACK_UINT 1 (\<lambda>n. Tk_uinteger (of_nat n)) dec tk
        else if typeTag = io_tag VL_MSGPACK_IO_UINT16 then
          dec_number VL_MSGPACK_UINT 2 (\<lambda>n. Tk_uinteger (of_nat n)) dec tk
        else if typeTag = io_tag VL_MSGPACK_IO_UINT32 then
          dec_number VL_MSGPACK_UINT 4 (\<lambda>n. Tk_uinteger (of_nat n)) dec tk
        else if typeTag = io_tag VL_MSGPACK_IO_UINT64 then
          dec_number VL_MSGPACK_UINT 8 (\<lambda>n. Tk_uinteger (of_nat n)) dec tk
        else if typeTag = io_tag VL_MSGPACK_IO_INT8 then
          dec_number VL_MSGPACK_INT 1 (\<lambda>n. Tk_integer (scast (of_nat n :: u8))) dec tk
        else if typeTag = io_tag VL_MSGPACK_IO_INT16 then
          dec_number VL_MSGPACK_INT 2 (\<lambda>n. Tk_integer (scast (of_nat n :: u16))) dec tk
        else if typeTag = io_tag VL_MSGPACK_IO_INT32 then
          dec_number VL_MSGPACK_INT 4 (\<lambda>n. Tk_integer (scast (of_nat n :: u32))) dec tk
        else if typeTag = io_tag VL_MSGPACK_IO_INT64 then
          dec_number VL_MSGPACK_INT 8 (\<lambda>n. Tk_integer (of_nat n)) dec tk
        else if typeTag \<ge> io_tag VL_MSGPACK_IO_FIXEXT1 \<and> typeTag \<le> io_tag VL_MSGPACK_IO_FIXEXT16 then
          let len = 2 ^ unat (typeTag - io_tag VL_MSGPACK_IO_FIXEXT1)
          in dec_ext_rest (len + 1) len dec (tk\<lparr>tk_type := VL_MSGPACK_EXT\<rparr>)
        else if typeTag = io_tag VL_MSGPACK_IO_STR8 then dec_bytes VL_MSGPACK_STRING 1 Tk_string dec tk
        else if typeTag = io_tag VL_MSGPACK_IO_STR16 then dec_bytes VL_MSGPACK_STRING 2 Tk_string dec tk
        else if typeTag = io_tag VL_MSGPACK_IO_STR32 then dec_bytes VL_MSGPACK_STRING 4 Tk_string dec tk
        else if typeTag = io_tag VL_MSGPACK_IO_ARRAY16 then dec_number VL_MSGPACK_ARRAY 2 Tk_array dec tk
        else if typeTag = io_tag VL_MSGPACK_IO_ARRAY32 then dec_number VL_MSGPACK_ARRAY 4 Tk_array dec tk
        else if typeTag = io_tag VL_MSGPACK_IO_MAP16 then dec_number VL_MSGPACK_MAP 2 Tk_map dec tk
        else if typeTag = io_tag VL_MSGPACK_IO_MAP32 then dec_number VL_MSGPACK_MAP 4 Tk_map dec tk
        else dec_fixed typeTag dec tk
      })"

end
