(* ===== verification/VL_MsgPackEnc.thy ===== *)
theory VL_MsgPackEnc
  imports VL_MsgPackIO VL_StackSpec VL_MemBytes
begin

text \<open>
  What the encoder of \<^verbatim>\<open>src/core/vl_msgpack_io.c\<close> does to its output and its stack of containers: it
  refines a list of bytes with a list of frames.
\<close>

section \<open>Network byte order\<close>

lemma flip_endian_ok:
  assumes "0 < length xs" and "length xs < 2 ^ 32"
  shows "VL_FLIP_ENDIAN xs = Some (rev xs)"
proof -
  let ?n = "length xs"
  have one: "reverse_stride_loop 1 ?n 1 0 xs = reverse_stride_loop ?n ?n 1 0 xs" by (rule reverse_one) simp
  obtain bs where bs: "reverse_stride_loop ?n ?n 1 0 xs = Some bs" "length bs = ?n"
    "\<forall>e < 1. take ?n (drop (e * ?n) bs) = rev (take ?n (drop (e * ?n) xs))"
    using mem_reverse_packed [of ?n ?n 1 xs] assms by auto
  then have "bs = rev xs" by simp
  then show ?thesis using one bs(1) by (simp add: VL_FLIP_ENDIAN_def vlMemReverseSubArraysStride_def)
qed

definition be_bytes :: "nat \<Rightarrow> nat \<Rightarrow> byte list" where
  "be_bytes k n = rev (nat_bytes k n)"

lemma length_be_bytes [simp]: "length (be_bytes k n) = k"
  by (simp add: be_bytes_def)

section \<open>The buffer as a list of bytes\<close>

text \<open>The bytes up to the offset.\<close>

definition buf_rep :: "vl_buffer \<Rightarrow> byte list \<Rightarrow> bool" where
  "buf_rep b out \<longleftrightarrow> buf_inv b \<and> buf_offset b = length out \<and> take (length out) (buf_bytes b) = out \<and>
     vlMemAlignment (buf_data b) = VL_DEFAULT_ALIGN"

lemma buf_rep_length: "buf_rep b out \<Longrightarrow> length out \<le> length (buf_bytes b)"
  by (metis buf_rep_def length_take min.cobounded1 min.cobounded2 linorder_le_cases min.absorb2)

lemma buf_rep_write:
  assumes rep: "buf_rep b out" and al: "alloc_upto al limit" "limit \<le> 2 ^ 35"
    and room: "2 * (length out + n) + 24 < limit" and src: "\<And>xs. src = Some xs \<Longrightarrow> length xs = n"
  obtains b' ys where "vlBufferWrite al b n src = Some (length out, b')" "buf_rep b' (out @ ys)" "length ys = n"
    "\<And>xs. src = Some xs \<Longrightarrow> ys = xs"
proof -
  have wr: "write_room b n < limit" using rep room
    by (simp add: buf_rep_def write_room_def MEMORY_HEADER_SIZE_def VL_DEFAULT_ALIGN_def)
  have l: "limit \<le> 2 ^ 62" using al(2) by simp
  have off: "buf_offset b = length out" and inv: "buf_inv b" using rep by (simp_all add: buf_rep_def)
  obtain b' where b': "vlBufferWrite al b n src = Some (length out, b')" "buf_inv b'" "buf_offset b' = length out + n"
    "vlMemAlignment (buf_data b') = vlMemAlignment (buf_data b)" "length out + n < length (buf_bytes b')"
    "\<forall>i < length (buf_bytes b). src = None \<or> i < length out \<or> length out + n \<le> i \<longrightarrow> buf_bytes b' ! i = buf_bytes b ! i"
    "\<forall>xs i. src = Some xs \<longrightarrow> i < n \<longrightarrow> buf_bytes b' ! (length out + i) = xs ! i"
    using buffer_write_ok [OF inv al(1) wr l src] unfolding off by blast
  let ?ys = "take n (drop (length out) (buf_bytes b'))"
  have len: "length out \<le> length (buf_bytes b)" using rep by (rule buf_rep_length)
  have out: "out = take (length out) (buf_bytes b)" using rep by (simp add: buf_rep_def)
  have same: "take (length out) (buf_bytes b') = out"
  proof (rule nth_equalityI)
    show "length (take (length out) (buf_bytes b')) = length out" using b'(5) by simp
    fix i
    assume "i < length (take (length out) (buf_bytes b'))"
    then have "i < length out" by simp
    then show "take (length out) (buf_bytes b') ! i = out ! i" using b'(6) len by (subst out) simp
  qed
  have "take (length (out @ ?ys)) (buf_bytes b') = out @ ?ys" using b'(5) same by (simp add: take_add)
  then have "buf_rep b' (out @ ?ys)" using b' rep by (simp add: buf_rep_def)
  moreover have "?ys = xs" if "src = Some xs" for xs
    using b'(5,7) that src [OF that] by (intro nth_equalityI) simp_all
  moreover have "length ?ys = n" using b'(5) by simp
  ultimately show thesis using that b'(1) by blast
qed

lemma buf_rep_poke:
  assumes rep: "buf_rep b out" and fit: "off + length xs \<le> length out"
  obtains m where "mem_write (buf_data b) off xs = Some m"
    "buf_rep (b\<lparr>buf_data := Some m\<rparr>) (take off out @ xs @ drop (off + length xs) out)"
proof -
  have inv: "buf_inv b" using rep by (simp add: buf_rep_def)
  have len: "length out \<le> length (buf_bytes b)" using rep by (rule buf_rep_length)
  have out: "take (length out) (buf_bytes b) = out" using rep by (simp add: buf_rep_def)
  obtain m where m: "mem_write (buf_data b) off xs = Some m" "buf_inv (b\<lparr>buf_data := Some m\<rparr>)"
    "vlMemAlignment (Some m) = vlMemAlignment (buf_data b)"
    "length (buf_bytes (b\<lparr>buf_data := Some m\<rparr>)) = length (buf_bytes b)"
    "\<And>i. i < length (buf_bytes b) \<Longrightarrow> buf_bytes (b\<lparr>buf_data := Some m\<rparr>) ! i =
       (if off \<le> i \<and> i < off + length xs then xs ! (i - off) else buf_bytes b ! i)"
    using buf_poke [OF inv, of off xs] fit len by force
  let ?out = "take off out @ xs @ drop (off + length xs) out"
  have lo: "length ?out = length out" using fit by simp
  have "take (length out) (buf_bytes (b\<lparr>buf_data := Some m\<rparr>)) = ?out"
  proof (rule nth_equalityI)
    show "length (take (length out) (buf_bytes (b\<lparr>buf_data := Some m\<rparr>))) = length ?out" using m(4) len lo by simp
    fix i
    assume "i < length (take (length out) (buf_bytes (b\<lparr>buf_data := Some m\<rparr>)))"
    then have i: "i < length out" by simp
    have "out ! i = buf_bytes b ! i" using i by (subst out [symmetric]) simp
    moreover have "?out ! i = (if off \<le> i \<and> i < off + length xs then xs ! (i - off) else out ! i)"
      using i fit by (auto simp: nth_append)
    ultimately show "take (length out) (buf_bytes (b\<lparr>buf_data := Some m\<rparr>)) ! i = ?out ! i"
      using i m(5) len by simp
  qed
  then have "buf_rep (b\<lparr>buf_data := Some m\<rparr>) ?out" using rep m(2,3) lo by (simp add: buf_rep_def)
  then show thesis using that m(1) by blast
qed

lemma buf_rep_read:
  assumes "buf_rep b out" and "off + n \<le> length out"
  shows "mem_read (buf_data b) off n = Some (take n (drop off out))"
proof -
  have "mem_read (buf_data b) off n = Some (take n (drop off (buf_bytes b)))"
    using assms buf_rep_length [OF assms(1)] by (intro buf_peek) (simp_all add: buf_rep_def)
  moreover have "take n (drop off out) = take n (drop off (buf_bytes b))"
  proof -
    have "out = take (length out) (buf_bytes b)" using assms(1) by (simp add: buf_rep_def)
    then have "take n (drop off out) = take n (drop off (take (length out) (buf_bytes b)))" by simp
    also have "\<dots> = take n (drop off (buf_bytes b))" using assms(2) by (simp add: drop_take min_def)
    finally show ?thesis .
  qed
  ultimately show ?thesis by simp
qed

lemma buf_rep_seek:
  assumes "buf_rep b out" and "n \<le> length out"
  shows "buf_rep (b\<lparr>buf_offset := n\<rparr>) (take n out)"
proof -
  have "take n out = take n (take (length out) (buf_bytes b))" using assms(1) by (simp add: buf_rep_def)
  then show ?thesis
    using assms by (auto simp: buf_rep_def buf_inv_def buf_bytes_def min_def split: option.splits)
qed

section \<open>Frames on the stack\<close>

definition encframe_ok :: "vl_msgpack_encframe \<Rightarrow> bool" where
  "encframe_ok f \<longleftrightarrow> ef_startOffset f < 2 ^ 64 \<and> ef_sizeOffset f < 2 ^ 64 \<and> ef_dataOffset f < 2 ^ 64 \<and>
     ef_totalElements f < 2 ^ 32"

lemma length_encframe_bytes [simp]: "length (encframe_bytes f) = ENCFRAME_SIZE"
  by (simp add: encframe_bytes_def ENCFRAME_SIZE_def)

lemma read_encframe_bytes:
  assumes "encframe_ok f"
  shows "read_encframe (encframe_bytes f) = Some f"
proof -
  let ?a = "if ef_isArray f then 1 else 0 :: nat"
  have "take 1 (encframe_bytes f) = nat_bytes 1 ?a" "take 8 (drop 8 (encframe_bytes f)) = nat_bytes 8 (ef_startOffset f)"
    "take 8 (drop 16 (encframe_bytes f)) = nat_bytes 8 (ef_sizeOffset f)"
    "take 8 (drop 24 (encframe_bytes f)) = nat_bytes 8 (ef_dataOffset f)"
    "take 4 (drop 32 (encframe_bytes f)) = nat_bytes 4 (ef_totalElements f)"
    by (simp_all add: encframe_bytes_def)
  moreover have "bytes_nat (nat_bytes 1 ?a) = Some ?a" by (rule bytes_nat_bytes) simp
  ultimately show ?thesis using assms by (simp add: read_encframe_def bytes_nat_bytes encframe_ok_def)
qed

definition stack_frames :: "vl_stack \<Rightarrow> vl_msgpack_encframe list \<Rightarrow> bool" where
  "stack_frames st fs \<longleftrightarrow>
     (\<exists>frs. stack_rep st frs \<and> map snd frs = map encframe_bytes fs) \<and>
     buf_offset (st_buffer st) = 56 * length fs \<and> vlMemAlignment (buf_data (st_buffer st)) = VL_DEFAULT_ALIGN \<and>
     (\<forall>f \<in> set fs. encframe_ok f) \<and> length fs < 2 ^ 32 - 1"

lemma frame_size_encframe: "frame_size ENCFRAME_SIZE = 56"
  by (simp add: frame_size_def ENCFRAME_SIZE_def STACK_HEADER_SIZE_def VL_DEFAULT_ALIGN_def padUp_def VL_MEMORY_PAD_UP_def)

lemma stack_frames_empty: "stack_frames st fs \<Longrightarrow> vlStackEmpty st \<longleftrightarrow> fs = []"
  by (auto simp: stack_frames_def stack_rep_def vlStackEmpty_def dest: arg_cong [of "map _ _" _ length])

lemma stack_frames_cons:
  assumes "stack_frames st (f # fs)"
  obtains off frs where "stack_rep st ((off, encframe_bytes f) # frs)" "map snd frs = map encframe_bytes fs"
    "length frs = length fs" "off = 56 * length fs" "encframe_ok f"
proof -
  obtain frs where frs: "stack_rep st frs" "map snd frs = map encframe_bytes (f # fs)" "encframe_ok f"
    "buf_offset (st_buffer st) = 56 * length (f # fs)"
    using assms by (auto simp: stack_frames_def)
  obtain off gs where gs: "frs = (off, encframe_bytes f) # gs" "map snd gs = map encframe_bytes fs"
    using frs(2) by (cases frs) auto
  have "buf_offset (st_buffer st) = off + frame_size (length (encframe_bytes f))"
    using frs(1) unfolding gs(1) by (simp add: stack_rep_def)
  then have "off = 56 * length fs" using frs(4) by (simp add: frame_size_encframe)
  moreover have "length gs = length fs" using gs(2) by (metis length_map)
  ultimately show thesis using that frs(1,3) gs by simp
qed

lemma peek_encframe_ok:
  assumes "stack_frames st (f # fs)"
  shows "peek_encframe st = Some f"
proof -
  obtain off frs where s: "stack_rep st ((off, encframe_bytes f) # frs)" "length frs = length fs" "encframe_ok f"
    by (rule stack_frames_cons [OF assms])
  have "length frs < 2 ^ 32 - 1" using assms s(2) by (simp add: stack_frames_def)
  from stack_pop_ok [OF s(1) this]
  have "vlStackSample st (vlStackPeek st) (length (encframe_bytes f)) = Some (encframe_bytes f)" by blast
  then show ?thesis using read_encframe_bytes [OF s(3)] by (simp add: peek_encframe_def)
qed

lemma pop_encframe_ok:
  assumes "stack_frames st (f # fs)"
  obtains st' where "vlStackPop st = Some st'" "stack_frames st' fs"
proof -
  obtain off frs where s: "stack_rep st ((off, encframe_bytes f) # frs)" "map snd frs = map encframe_bytes fs"
    "length frs = length fs" "off = 56 * length fs"
    by (rule stack_frames_cons [OF assms])
  have "length frs < 2 ^ 32 - 1" using assms s(3) by (simp add: stack_frames_def)
  from stack_pop_ok [OF s(1) this] obtain st' where st': "vlStackPop st = Some st'" "stack_rep st' frs"
    "buf_offset (st_buffer st') = off" "buf_data (st_buffer st') = buf_data (st_buffer st)" by blast
  then show thesis using that assms s by (auto simp: stack_frames_def)
qed

text \<open>A store into the element on top.\<close>

lemma stack_store_top:
  assumes rep: "stack_rep st ((off, xs) # fs)" and len: "length ys = length xs"
  obtains m where "mem_write (buf_data (st_buffer st)) (vlStackPeek st) ys = Some m"
    "stack_rep (st\<lparr>st_buffer := (st_buffer st)\<lparr>buf_data := Some m\<rparr>\<rparr>) ((off, ys) # fs)"
    "vlMemAlignment (Some m) = vlMemAlignment (buf_data (st_buffer st))"
proof -
  let ?b = "st_buffer st" and ?S = STACK_HEADER_SIZE
  have inv: "buf_inv ?b" and top: "st_headOffset st = off" and depth: "st_depth st = Suc (length fs)"
    and fr: "frames_ok (buf_bytes ?b) ((off, xs) # fs) (buf_offset ?b)"
    using rep by (simp_all add: stack_rep_def top_offset_def)
  have f: "length xs < 2 ^ 62" "off < 2 ^ 62" "buf_offset ?b = off + frame_size (length xs)" "buf_offset ?b \<le> length (buf_bytes ?b)"
    "take ?S (drop off (buf_bytes ?b)) = stack_header_bytes \<lparr>sh_size = length xs, sh_previousOffset = top_offset fs\<rparr>"
    "frames_ok (buf_bytes ?b) fs off" using fr by simp_all
  have e: "off + ?S + length xs \<le> buf_offset ?b" using frame_size_bounds(1) [OF f(1)] f(3) by simp
  then have "off + ?S + length ys \<le> length (buf_bytes ?b)" using f(4) len by simp
  then obtain m where m: "mem_write (buf_data ?b) (off + ?S) ys = Some m" "buf_inv (?b\<lparr>buf_data := Some m\<rparr>)"
    "vlMemAlignment (Some m) = vlMemAlignment (buf_data ?b)"
    "length (buf_bytes (?b\<lparr>buf_data := Some m\<rparr>)) = length (buf_bytes ?b)"
    "\<forall>i < length (buf_bytes ?b). buf_bytes (?b\<lparr>buf_data := Some m\<rparr>) ! i =
       (if off + ?S \<le> i \<and> i < off + ?S + length ys then ys ! (i - (off + ?S)) else buf_bytes ?b ! i)"
    using buf_poke [OF inv, of "off + ?S" ys] by blast
  let ?b' = "?b\<lparr>buf_data := Some m\<rparr>"
  have below: "buf_bytes ?b' ! i = buf_bytes ?b ! i" if "i < off + ?S" for i
    using m(5) that e f(4) by simp
  have "take ?S (drop off (buf_bytes ?b')) = take ?S (drop off (buf_bytes ?b))"
    by (rule take_drop_agree [of "off + ?S"]) (use below e f(4) m(4) in auto)
  moreover have "frames_ok (buf_bytes ?b') fs off"
    by (rule frames_ok_agree [OF f(6)]) (use below e f(4) m(4) in auto)
  moreover have "take (length ys) (drop (off + ?S) (buf_bytes ?b')) = ys"
    using m(4,5) e f(4) len by (intro nth_equalityI) simp_all
  ultimately have "frames_ok (buf_bytes ?b') ((off, ys) # fs) (buf_offset ?b)"
    using f len m(4) by simp
  then have "stack_rep (st\<lparr>st_buffer := ?b'\<rparr>) ((off, ys) # fs)"
    using m(2) top depth by (simp add: stack_rep_def top_offset_def)
  moreover have "vlStackPeek st = off + ?S" by (simp add: vlStackPeek_def top)
  ultimately show thesis using that m(1,3) by simp
qed

lemma store_encframe_ok:
  assumes "stack_frames st (f # fs)" and "encframe_ok g"
  obtains st' where "store_encframe st g = Some st'" "stack_frames st' (g # fs)"
proof -
  obtain off frs where s: "stack_rep st ((off, encframe_bytes f) # frs)" "map snd frs = map encframe_bytes fs"
    by (rule stack_frames_cons [OF assms(1)])
  have "length (encframe_bytes g) = length (encframe_bytes f)" by simp
  then obtain m where m: "mem_write (buf_data (st_buffer st)) (vlStackPeek st) (encframe_bytes g) = Some m"
    "stack_rep (st\<lparr>st_buffer := (st_buffer st)\<lparr>buf_data := Some m\<rparr>\<rparr>) ((off, encframe_bytes g) # frs)"
    "vlMemAlignment (Some m) = vlMemAlignment (buf_data (st_buffer st))"
    by (rule stack_store_top [OF s(1)])
  let ?st = "st\<lparr>st_buffer := (st_buffer st)\<lparr>buf_data := Some m\<rparr>\<rparr>"
  have "map snd ((off, encframe_bytes g) # frs) = map encframe_bytes (g # fs)" using s(2) by simp
  then have "stack_frames ?st (g # fs)" using m(2,3) assms unfolding stack_frames_def by auto
  then show thesis using that m(1) by (simp add: store_encframe_def)
qed

text \<open>A push and the store of its frame.\<close>

lemma push_encframe_ok:
  assumes fr: "stack_frames st fs" and al: "alloc_upto al limit" "limit \<le> 2 ^ 35"
    and room: "112 * Suc (length fs) + 24 < limit" and depth: "Suc (length fs) < 2 ^ 32 - 1"
  obtains off st1 where "vlStackPush al st ENCFRAME_SIZE = Some (off, st1)"
    "\<And>f. encframe_ok f \<Longrightarrow> \<exists>st2. store_encframe st1 f = Some st2 \<and> stack_frames st2 (f # fs)"
proof -
  obtain frs where s: "stack_rep st frs" "map snd frs = map encframe_bytes fs" using fr by (auto simp: stack_frames_def)
  have off: "buf_offset (st_buffer st) = 56 * length fs" "vlMemAlignment (buf_data (st_buffer st)) = VL_DEFAULT_ALIGN"
    using fr by (simp_all add: stack_frames_def)
  have wr: "write_room (st_buffer st) (frame_size ENCFRAME_SIZE) < limit"
    using room off by (simp add: write_room_def frame_size_encframe MEMORY_HEADER_SIZE_def VL_DEFAULT_ALIGN_def)
  have n: "ENCFRAME_SIZE < 2 ^ 62" by (simp add: ENCFRAME_SIZE_def)
  have ex: "\<exists>st2. vlStackPushValue al st (encframe_bytes f) ENCFRAME_SIZE =
        Some (buf_offset (st_buffer st) + STACK_HEADER_SIZE, st2) \<and> stack_frames st2 (f # fs)" if "encframe_ok f" for f
  proof -
    obtain st2 where st2: "vlStackPushValue al st (encframe_bytes f) ENCFRAME_SIZE =
        Some (buf_offset (st_buffer st) + STACK_HEADER_SIZE, st2)"
      "stack_rep st2 ((buf_offset (st_buffer st), encframe_bytes f) # frs)"
      "buf_offset (st_buffer st2) = buf_offset (st_buffer st) + frame_size ENCFRAME_SIZE"
      "vlMemAlignment (buf_data (st_buffer st2)) = vlMemAlignment (buf_data (st_buffer st))"
      using stack_push_ok [OF s(1) al length_encframe_bytes n wr, of f] by blast
    have "map snd ((buf_offset (st_buffer st), encframe_bytes f) # frs) = map encframe_bytes (f # fs)" using s(2) by simp
    then have "stack_frames st2 (f # fs)"
      using st2(2,3,4) fr off that depth unfolding stack_frames_def frame_size_encframe by auto
    then show ?thesis using st2(1) by blast
  qed
  have "encframe_ok \<lparr>ef_isArray = False, ef_startOffset = 0, ef_sizeOffset = 0, ef_dataOffset = 0, ef_totalElements = 0\<rparr>"
    by (simp add: encframe_ok_def)
  from ex [OF this] obtain off st1 where st1: "vlStackPush al st ENCFRAME_SIZE = Some (off, st1)"
    by (auto simp: vlStackPushValue_def bind_eq_Some_conv)
  have peek: "vlStackPeek st1 = off"
    using st1 by (auto simp: vlStackPush_def vlStackPeek_def Let_def bind_eq_Some_conv)
  have "\<exists>st2. store_encframe st1 f = Some st2 \<and> stack_frames st2 (f # fs)" if "encframe_ok f" for f
    using ex [OF that] st1 peek
    by (auto simp: vlStackPushValue_def store_encframe_def read_range_def bind_eq_Some_conv)
  then show thesis using that st1 by blast
qed

section \<open>The encoder as an output and a list of containers\<close>

definition enc_rep :: "vl_msgpack_encoder \<Rightarrow> byte list \<Rightarrow> vl_msgpack_encframe list \<Rightarrow> bool" where
  "enc_rep enc out fs \<longleftrightarrow> buf_rep (enc_buffer enc) out \<and> stack_frames (enc_stateStack enc) fs"

text \<open>
  There is memory for \<open>n\<close> bytes of output and \<open>d\<close> frames; a write may double an allocation, and
  a frame takes 56 bytes.
\<close>

definition enc_fits :: "allocator \<Rightarrow> nat \<Rightarrow> nat \<Rightarrow> bool" where
  "enc_fits al n d \<longleftrightarrow>
     (\<exists>limit. alloc_upto al limit \<and> limit \<le> 2 ^ 35 \<and> 2 * n + 24 < limit \<and> 112 * d + 24 < limit)"

lemma enc_fits_mono: "enc_fits al n d \<Longrightarrow> n' \<le> n \<Longrightarrow> d' \<le> d \<Longrightarrow> enc_fits al n' d'"
  unfolding enc_fits_def by (metis add_le_mono1 le_less_trans mult_le_mono2)

definition same_error :: "vl_msgpack_encoder \<Rightarrow> vl_msgpack_encoder \<Rightarrow> bool" where
  "same_error enc enc' \<longleftrightarrow> enc_error enc' = enc_error enc \<and> enc_errorType enc' = enc_errorType enc \<and>
     enc_errorDepth enc' = enc_errorDepth enc"

lemma same_error_simps [simp]: "same_error enc enc" "same_error enc (enc\<lparr>enc_buffer := b\<rparr>)"
  "same_error enc (enc\<lparr>enc_stateStack := st\<rparr>)" "same_error enc (enc\<lparr>enc_stateStack := st, enc_buffer := b\<rparr>)"
  by (simp_all add: same_error_def)

lemma same_error_trans [trans]: "same_error a b \<Longrightarrow> same_error b c \<Longrightarrow> same_error a c"
  by (simp add: same_error_def)

text \<open>What an operation does: it appends bytes and changes the frames.\<close>

definition enc_does ::
  "(vl_msgpack_encoder \<Rightarrow> vl_msgpack_encoder option) \<Rightarrow> vl_msgpack_encoder \<Rightarrow> byte list \<Rightarrow> vl_msgpack_encframe list \<Rightarrow> bool" where
  "enc_does f enc out fs \<longleftrightarrow> (\<exists>enc'. f enc = Some enc' \<and> enc_rep enc' out fs \<and> same_error enc enc')"

lemma enc_does_bind:
  assumes "enc_does f enc out fs"
    and "\<And>enc'. enc_rep enc' out fs \<Longrightarrow> enc_does g enc' out' fs'"
  shows "enc_does (\<lambda>enc. do { enc \<leftarrow> f enc; g enc }) enc out' fs'"
proof -
  obtain e1 where e1: "f enc = Some e1" "enc_rep e1 out fs" "same_error enc e1" using assms(1) by (auto simp: enc_does_def)
  obtain e2 where "g e1 = Some e2" "enc_rep e2 out' fs'" "same_error e1 e2" using assms(2) [OF e1(2)] by (auto simp: enc_does_def)
  then show ?thesis using e1 same_error_trans by (auto simp: enc_does_def)
qed

lemma enc_write_ok:
  assumes rep: "enc_rep enc out fs" and fit: "enc_fits al (length out + n) d" and n: "n \<le> length xs"
  shows "enc_does (\<lambda>enc. enc_write al enc n (Some xs)) enc (out @ take n xs) fs"
proof -
  obtain limit where l: "alloc_upto al limit" "limit \<le> 2 ^ 35" "2 * (length out + n) + 24 < limit"
    using fit by (auto simp: enc_fits_def)
  have b: "buf_rep (enc_buffer enc) out" using rep by (simp add: enc_rep_def)
  obtain b' ys where "vlBufferWrite al (enc_buffer enc) n (Some (take n xs)) = Some (length out, b')"
    "buf_rep b' (out @ ys)" "ys = take n xs"
    by (rule buf_rep_write [OF b l(1,2,3), where src = "Some (take n xs)"]) (use n in auto)
  then have b': "vlBufferWrite al (enc_buffer enc) n (Some (take n xs)) = Some (length out, b')"
    "buf_rep b' (out @ take n xs)" by simp_all
  have "vlBufferWrite al (enc_buffer enc) n (Some xs) = vlBufferWrite al (enc_buffer enc) n (Some (take n xs))"
    using n by (simp add: vlBufferWrite_def read_range_def)
  then show ?thesis using b' rep by (auto simp: enc_does_def enc_write_def enc_rep_def)
qed

lemma enc_write_all:
  "enc_rep enc out fs \<Longrightarrow> enc_fits al (length out + length xs) d \<Longrightarrow>
   enc_does (\<lambda>enc. enc_write al enc (length xs) (Some xs)) enc (out @ xs) fs"
  using enc_write_ok [of enc out fs al "length xs" d xs] by simp

lemma enc_write_byte_ok:
  "enc_rep enc out fs \<Longrightarrow> enc_fits al (length out + 1) d \<Longrightarrow>
   enc_does (\<lambda>enc. enc_write_byte al enc b) enc (out @ [Some b]) fs"
  using enc_write_ok [of enc out fs al 1 d "[Some b]"] by (simp add: enc_write_byte_def)

lemma enc_write_flipped_ok:
  "enc_rep enc out fs \<Longrightarrow> enc_fits al (length out + k) d \<Longrightarrow> 0 < k \<Longrightarrow> k < 2 ^ 32 \<Longrightarrow>
   enc_does (\<lambda>enc. enc_write_flipped al enc k n) enc (out @ be_bytes k n) fs"
  using enc_write_ok [of enc out fs al k d "rev (nat_bytes k n)"]
  by (simp add: enc_write_flipped_def flip_endian_ok be_bytes_def)

text \<open>Counting an element in the container on top.\<close>

definition bump :: "nat \<Rightarrow> vl_msgpack_encframe list \<Rightarrow> vl_msgpack_encframe list" where
  "bump n fs = (case fs of [] \<Rightarrow> [] | f # fs \<Rightarrow> f\<lparr>ef_totalElements := u32_of (ef_totalElements f + n)\<rparr> # fs)"

lemma bump_simps [simp]:
  "bump n [] = []" "bump n (f # fs) = f\<lparr>ef_totalElements := u32_of (ef_totalElements f + n)\<rparr> # fs"
  by (simp_all add: bump_def)

lemma length_bump [simp]: "length (bump n fs) = length fs"
  by (cases fs) simp_all

lemma bump_bump: "bump m (bump n fs) = bump (n + m) fs"
  by (cases fs) (simp_all add: u32_of_def mod_simps add.assoc)

lemma bump_0: "stack_frames st fs \<Longrightarrow> bump 0 fs = fs"
  by (cases fs) (simp_all add: stack_frames_def encframe_ok_def u32_of_id)

lemma increment_ok:
  assumes "enc_rep enc out fs"
  shows "enc_does vl_MsgPackEncodeIncrement enc out (bump 1 fs)"
proof (cases fs)
  case Nil
  then show ?thesis
    using assms stack_frames_empty [of "enc_stateStack enc" fs]
    by (simp add: enc_does_def vl_MsgPackEncodeIncrement_def enc_rep_def)
next
  case (Cons f gs)
  have st: "stack_frames (enc_stateStack enc) (f # gs)" using assms Cons by (simp add: enc_rep_def)
  let ?g = "f\<lparr>ef_totalElements := u32_of (ef_totalElements f + 1)\<rparr>"
  have "encframe_ok f" using st by (simp add: stack_frames_def)
  then have "encframe_ok ?g" by (simp add: encframe_ok_def u32_of_def)
  then obtain st' where st': "store_encframe (enc_stateStack enc) ?g = Some st'" "stack_frames st' (?g # gs)"
    by (rule store_encframe_ok [OF st])
  have "inc32 (ef_totalElements f) = u32_of (ef_totalElements f + 1)" by (simp add: inc32_def u32_of_def)
  then have "vl_MsgPackEncodeIncrement enc = Some (enc\<lparr>enc_stateStack := st'\<rparr>)"
    using peek_encframe_ok [OF st] st'(1) stack_frames_empty [OF st] by (simp add: vl_MsgPackEncodeIncrement_def)
  then show ?thesis using assms Cons st'(2) by (simp add: enc_does_def enc_rep_def)
qed

section \<open>Containers\<close>

text \<open>The bytes in front of the elements: a tag, and the number of elements or of pairs.\<close>

definition container_head :: "bool \<Rightarrow> nat \<Rightarrow> byte list" where
  "container_head isArray n =
     (if n \<le> 0xF then [Some (io_tag (if isArray then VL_MSGPACK_IO_FIXARRAY else VL_MSGPACK_IO_FIXMAP) OR of_nat n)]
      else if n \<le> 0xFFFF then Some (io_tag (if isArray then VL_MSGPACK_IO_ARRAY16 else VL_MSGPACK_IO_MAP16)) # be_bytes 2 n
      else Some (io_tag (if isArray then VL_MSGPACK_IO_ARRAY32 else VL_MSGPACK_IO_MAP32)) # be_bytes 4 n)"

definition open_frame :: "bool \<Rightarrow> nat \<Rightarrow> nat \<Rightarrow> vl_msgpack_encframe" where
  "open_frame isArray start n =
     \<lparr>ef_isArray = isArray, ef_startOffset = start, ef_sizeOffset = start + 1, ef_dataOffset = start + 5, ef_totalElements = n\<rparr>"

lemma encode_push_ok:
  assumes rep: "enc_rep enc out fs" and fit: "enc_fits al (length out + 5) (Suc (length fs))"
  obtains junk where "enc_does (\<lambda>enc. vl_MsgPackEncodePush al enc isArray) enc (out @ junk) (open_frame isArray (length out) 0 # fs)"
    "length junk = 5"
proof -
  obtain limit where l: "alloc_upto al limit" "limit \<le> 2 ^ 35" "2 * (length out + 5) + 24 < limit"
    "112 * Suc (length fs) + 24 < limit"
    using fit by (auto simp: enc_fits_def)
  have b: "buf_rep (enc_buffer enc) out" and st: "stack_frames (enc_stateStack enc) fs"
    using rep by (simp_all add: enc_rep_def)
  have depth: "Suc (length fs) < 2 ^ 32 - 1" using l(2,4) by simp
  obtain off st1 where st1: "vlStackPush al (enc_stateStack enc) ENCFRAME_SIZE = Some (off, st1)"
    "\<And>f. encframe_ok f \<Longrightarrow> \<exists>st2. store_encframe st1 f = Some st2 \<and> stack_frames st2 (f # fs)"
    by (rule push_encframe_ok [OF st l(1,2,4) depth]) blast
  have r1: "2 * (length out + 1) + 24 < limit" using l(3) by simp
  obtain b1 ys where b1: "vlBufferWrite al (enc_buffer enc) 1 None = Some (length out, b1)" "buf_rep b1 (out @ ys)" "length ys = 1"
    by (rule buf_rep_write [OF b l(1,2) r1, where src = None]) auto
  have r2: "2 * (length (out @ ys) + 4) + 24 < limit" using l(3) b1(3) by simp
  obtain b2 zs where b2: "vlBufferWrite al b1 4 None = Some (length (out @ ys), b2)" "buf_rep b2 ((out @ ys) @ zs)" "length zs = 4"
    by (rule buf_rep_write [OF b1(2) l(1,2) r2, where src = None]) auto
  let ?f = "open_frame isArray (length out) 0"
  have "encframe_ok ?f" using l(2,3) by (simp add: encframe_ok_def open_frame_def)
  then obtain st2 where st2: "store_encframe st1 ?f = Some st2" "stack_frames st2 (?f # fs)" using st1(2) by blast
  have "buf_offset b2 = length out + 5" using b2(2,3) b1(3) by (simp add: buf_rep_def)
  then have "vl_MsgPackEncodePush al enc isArray = Some (enc\<lparr>enc_stateStack := st2, enc_buffer := b2\<rparr>)"
    using st1(1) b1(1,3) b2(1) st2(1) by (simp add: vl_MsgPackEncodePush_def open_frame_def)
  then have "enc_does (\<lambda>enc. vl_MsgPackEncodePush al enc isArray) enc (out @ ys @ zs) (?f # fs)"
    using b2(2) st2(2) by (simp add: enc_does_def enc_rep_def)
  then show thesis using that [of "ys @ zs"] b1(3) b2(3) by simp
qed

lemma of_nat_and_mask:
  assumes "n < 2 ^ k"
  shows "(of_nat n :: u8) AND mask k = of_nat n"
proof (rule word_unat_eq_iff [THEN iffD2])
  have "unat ((of_nat n :: u8) AND mask k) = unat (of_nat n :: u8) mod 2 ^ k"
    by (simp only: take_bit_eq_mask [symmetric] unsigned_take_bit_eq) (rule take_bit_eq_mod)
  moreover have "n mod 256 < 2 ^ k" using assms by (rule le_less_trans [OF mod_less_eq_dividend])
  ultimately show "unat ((of_nat n :: u8) AND mask k) = unat (of_nat n :: u8)" by (simp add: unat_of_nat)
qed

text \<open>
  The end of a container with \<open>n\<close> elements, or \<open>n\<close> pairs: the bytes of the elements move down to the head.
\<close>

lemma encode_frame_head:
  assumes f: "f = open_frame isArray (length pre) (if isArray then n else 2 * n)" and n: "n < 2 ^ 32"
  obtains tag off where "vl_MsgPackEncodeFrame f = (tag, off, open_frame isArray (length pre) n)" "off \<le> 4"
    "container_head isArray n = Some tag # (if 4 - off = 2 \<or> 4 - off = 4 then be_bytes (4 - off) n else [])"
    "4 - off = 2 \<or> 4 - off = 4 \<or> 4 - off = 0"
proof -
  have f': "(if \<not> ef_isArray f then f\<lparr>ef_totalElements := ef_totalElements f div 2\<rparr> else f) = open_frame isArray (length pre) n"
    by (simp add: f open_frame_def)
  have "(of_nat n :: u8) AND 0xF = of_nat n" if "n \<le> 0xF"
    using of_nat_and_mask [of n 4] that by (simp add: mask_eq_exp_minus_1)
  note low = this
  let ?g = "open_frame isArray (length pre) n"
  have g: "ef_isArray ?g = isArray" "ef_totalElements ?g = n" by (simp_all add: open_frame_def)
  consider "n \<le> 0xF" | "\<not> n \<le> 0xF" "n \<le> 0xFFFF" | "\<not> n \<le> 0xF" "\<not> n \<le> 0xFFFF" by blast
  then show thesis
  proof cases
    case 1
    have "vl_MsgPackEncodeFrame f = (io_tag (if isArray then VL_MSGPACK_IO_FIXARRAY else VL_MSGPACK_IO_FIXMAP) OR of_nat n, 4, ?g)"
      unfolding vl_MsgPackEncodeFrame_def Let_def f' g if_P [OF 1] low [OF 1] ..
    then show ?thesis by (rule that) (use 1 in \<open>simp_all add: container_head_def\<close>)
  next
    case 2
    have "vl_MsgPackEncodeFrame f = (io_tag (if isArray then VL_MSGPACK_IO_ARRAY16 else VL_MSGPACK_IO_MAP16), 2, ?g)"
      unfolding vl_MsgPackEncodeFrame_def Let_def f' g if_not_P [OF 2(1)] if_P [OF 2(2)] ..
    then show ?thesis by (rule that) (use 2 in \<open>simp_all add: container_head_def\<close>)
  next
    case 3
    have "vl_MsgPackEncodeFrame f = (io_tag (if isArray then VL_MSGPACK_IO_ARRAY32 else VL_MSGPACK_IO_MAP32), 0, ?g)"
      unfolding vl_MsgPackEncodeFrame_def Let_def f' g if_not_P [OF 3(1)] if_not_P [OF 3(2)] ..
    then show ?thesis by (rule that) (use 3 in \<open>simp_all add: container_head_def\<close>)
  qed
qed

lemma encode_pop_ok:
  assumes rep: "enc_rep enc (pre @ junk @ body) (f # fs)" and junk: "length junk = 5"
    and f: "f = open_frame isArray (length pre) (if isArray then n else 2 * n)" and n: "n < 2 ^ 32"
    and small: "length pre + 5 + length body < 2 ^ 63"
  obtains enc' where "vl_MsgPackEncodePop enc = Some (True, enc')" "enc_rep enc' (pre @ container_head isArray n @ body) fs"
    "same_error enc enc'"
proof -
  have b: "buf_rep (enc_buffer enc) (pre @ junk @ body)" and st: "stack_frames (enc_stateStack enc) (f # fs)"
    using rep by (simp_all add: enc_rep_def)
  obtain st' where st': "vlStackPop (enc_stateStack enc) = Some st'" "stack_frames st' fs" by (rule pop_encframe_ok [OF st])
  let ?g = "open_frame isArray (length pre) n"
  obtain tag off where h: "vl_MsgPackEncodeFrame f = (tag, off, ?g)" "off \<le> 4"
    "container_head isArray n = Some tag # (if 4 - off = 2 \<or> 4 - off = 4 then be_bytes (4 - off) n else [])"
    "4 - off = 2 \<or> 4 - off = 4 \<or> 4 - off = 0"
    by (rule encode_frame_head [OF f n])
  have g: "ef_startOffset ?g = length pre" "ef_sizeOffset ?g = length pre + 1" "ef_dataOffset ?g = length pre + 5"
    "ef_totalElements ?g = n" by (simp_all add: open_frame_def)
  let ?b = "enc_buffer enc"
  have "length pre + length [Some tag] \<le> length (pre @ junk @ body)" using junk by simp
  then obtain m1 where m1: "mem_write (buf_data ?b) (length pre) [Some tag] = Some m1"
    "buf_rep (?b\<lparr>buf_data := Some m1\<rparr>) (pre @ Some tag # drop 1 junk @ body)"
    by (rule buf_rep_poke [OF b]) (use junk in \<open>simp add: drop_Suc_Cons\<close>)
  let ?sz = "if 4 - off = 2 \<or> 4 - off = 4 then be_bytes (4 - off) n else []"
  have lsz: "length ?sz = 4 - off" using h(4) by auto
  have suc: "Suc (4 - off) = 5 - off" using h(2) by simp
  obtain m2 where m2: "(if 4 - off = 2 \<or> 4 - off = 4 then do {
        xs \<leftarrow> VL_FLIP_ENDIAN (nat_bytes (4 - off) n); mem_write (Some m1) (length pre + 1) xs } else Some m1) = Some m2"
    "buf_rep (?b\<lparr>buf_data := Some m2\<rparr>) (pre @ Some tag # ?sz @ drop (5 - off) junk @ body)"
  proof (cases "4 - off = 2 \<or> 4 - off = 4")
    case True
    have fl: "VL_FLIP_ENDIAN (nat_bytes (4 - off) n) = Some (be_bytes (4 - off) n)"
      using True by (subst flip_endian_ok) (auto simp: be_bytes_def)
    obtain m2 where m2: "mem_write (buf_data (?b\<lparr>buf_data := Some m1\<rparr>)) (length pre + 1) (be_bytes (4 - off) n) = Some m2"
      "buf_rep (?b\<lparr>buf_data := Some m1\<rparr>\<lparr>buf_data := Some m2\<rparr>)
        (take (length pre + 1) (pre @ Some tag # drop 1 junk @ body) @ be_bytes (4 - off) n @
         drop (length pre + 1 + length (be_bytes (4 - off) n)) (pre @ Some tag # drop 1 junk @ body))"
      by (rule buf_rep_poke [OF m1(2), of "length pre + 1" "be_bytes (4 - off) n"]) (use junk h(2) in auto)
    have "drop (length pre + 1 + length (be_bytes (4 - off) n)) (pre @ Some tag # drop 1 junk @ body) = drop (5 - off) junk @ body"
      using junk by (simp flip: suc)
    then show ?thesis using that [of m2] m2 fl True by simp
  next
    case False
    then have "off = 4" using h(2,4) by auto
    then show ?thesis using that [of m1] m1(2) False by simp
  qed
  show thesis
  proof (cases "off > 0")
    case False
    then have off: "off = 0" by simp
    let ?e = "enc\<lparr>enc_stateStack := st', enc_buffer := ?b\<lparr>buf_data := Some m2\<rparr>\<rparr>"
    have "vl_MsgPackEncodePop enc = Some (True, ?e)"
      using stack_frames_empty [OF st] peek_encframe_ok [OF st] st'(1) h(1) m1(1) m2(1)
      by (auto simp: vl_MsgPackEncodePop_def g off bind_eq_Some_conv)
    moreover have "enc_rep ?e (pre @ container_head isArray n @ body) fs"
      using m2(2) st'(2) junk h(3) off by (simp add: enc_rep_def)
    ultimately show thesis using that by simp
  next
    case True
    let ?out = "pre @ Some tag # ?sz @ drop (5 - off) junk @ body"
    have off24: "off = 2 \<or> off = 4" using True h(2,4) by auto
    have lout: "length ?out = length pre + 5 + length body" using off24 junk by (elim disjE) simp_all
    have boff: "buf_offset ?b = length pre + 5 + length body" using b junk by (simp add: buf_rep_def)
    have bs: "u64_of (buf_offset ?b + (2 ^ 64 - (length pre + 5))) = length body"
      using small by (simp add: boff u64_of_def)
    have rd: "mem_read (buf_data (?b\<lparr>buf_data := Some m2\<rparr>)) (length pre + 5) (length body) = Some (take (length body) (drop (length pre + 5) ?out))"
      by (rule buf_rep_read [OF m2(2)]) (simp only: lout order_refl)
    have body: "take (length body) (drop (length pre + 5) ?out) = body" using off24 junk by (elim disjE) simp_all
    have fitb: "length pre + 5 - off + length body \<le> length ?out" unfolding lout by simp
    obtain m3 where m3: "mem_write (buf_data (?b\<lparr>buf_data := Some m2\<rparr>)) (length pre + 5 - off) body = Some m3"
      "buf_rep (?b\<lparr>buf_data := Some m2\<rparr>\<lparr>buf_data := Some m3\<rparr>)
        (take (length pre + 5 - off) ?out @ body @ drop (length pre + 5 - off + length body) ?out)"
      by (rule buf_rep_poke [OF m2(2) fitb])
    let ?o3 = "take (length pre + 5 - off) ?out @ body @ drop (length pre + 5 - off + length body) ?out"
    have tk: "take (length pre + 5 - off) ?out = pre @ Some tag # ?sz"
      using off24 by (elim disjE) simp_all
    have l3: "length pre + 5 - off + length body \<le> length ?o3" using tk lsz h(2) by simp
    have o3: "take (length pre + 5 - off + length body) ?o3 = pre @ container_head isArray n @ body"
    proof -
      have front: "take (length xs) (xs @ ys) = xs" for xs ys :: "byte list" by simp
      have e: "length pre + 5 - off + length body = length ((pre @ Some tag # ?sz) @ body)"
        using off24 by (elim disjE) simp_all
      show ?thesis unfolding tk h(3) e using front [of "(pre @ Some tag # ?sz) @ body"] by (simp only: append_assoc append_Cons)
    qed
    have b3: "?b\<lparr>buf_data := Some m2, buf_data := Some m3\<rparr> = ?b\<lparr>buf_data := Some m3\<rparr>" by simp
    have b4: "buf_rep (?b\<lparr>buf_data := Some m3, buf_offset := length pre + 5 - off + length body\<rparr>)
        (pre @ container_head isArray n @ body)"
      using buf_rep_seek [OF m3(2) l3] unfolding o3 b3 .
    have no: "u64_of (buf_offset ?b + (2 ^ 64 - off)) = length pre + 5 - off + length body"
    proof -
      have "buf_offset ?b + (2 ^ 64 - off) = (length pre + 5 - off + length body) + 2 ^ 64" using h(2) boff by simp
      then show ?thesis using small by (simp only: u64_of_def) simp
    qed
    let ?e = "enc\<lparr>enc_stateStack := st', enc_buffer := ?b\<lparr>buf_data := Some m3, buf_offset := length pre + 5 - off + length body\<rparr>\<rparr>"
    have "vl_MsgPackEncodePop enc = Some (True, ?e)"
    proof -
      have ne: "\<not> vlStackEmpty (enc_stateStack enc)" using stack_frames_empty [OF st] by simp
      have rd': "mem_read (Some m2) (length pre + 5) (length body) = Some body" using rd unfolding body by simp
      have wr': "mem_write (Some m2) (length pre + 5 - off) body = Some m3" using m3(1) by simp
      show ?thesis
        unfolding vl_MsgPackEncodePop_def if_not_P [OF ne] peek_encframe_ok [OF st] st'(1) bind.bind_lunit Let_def
          h(1) prod.case g m1(1) m2(1) if_P [OF True] bs rd' wr' no ..
    qed
    then show thesis using that [of ?e] b4 st'(2) by (simp add: enc_rep_def)
  qed
qed

section \<open>Scalars\<close>

lemma enc_byte_byte_ok:
  assumes "enc_rep enc out fs" and "enc_fits al (length out + 2) d"
  shows "enc_does (\<lambda>enc. do { enc \<leftarrow> enc_write_byte al enc a; enc_write_byte al enc b }) enc (out @ [Some a, Some b]) fs"
proof (rule enc_does_bind [OF enc_write_byte_ok])
  show "enc_rep enc out fs" "enc_fits al (length out + 1) d" using assms by (auto intro: enc_fits_mono)
  fix enc' assume "enc_rep enc' (out @ [Some a]) fs"
  from enc_write_byte_ok [OF this, of al d b] show "enc_does (\<lambda>enc. enc_write_byte al enc b) enc' (out @ [Some a, Some b]) fs"
    using assms(2) by simp
qed

lemma enc_byte_number_ok:
  assumes "enc_rep enc out fs" and "enc_fits al (length out + Suc k) d" and "0 < k" and "k < 2 ^ 32"
  shows "enc_does (\<lambda>enc. do { enc \<leftarrow> enc_write_byte al enc a; enc_write_flipped al enc k n }) enc (out @ Some a # be_bytes k n) fs"
proof (rule enc_does_bind [OF enc_write_byte_ok])
  show "enc_rep enc out fs" "enc_fits al (length out + 1) d" using assms by (auto intro: enc_fits_mono)
  fix enc' assume "enc_rep enc' (out @ [Some a]) fs"
  from enc_write_flipped_ok [OF this, of al k d n] show "enc_does (\<lambda>enc. enc_write_flipped al enc k n) enc' (out @ Some a # be_bytes k n) fs"
    using assms by simp
qed

lemma enc_tail_ok:
  assumes "enc_does f enc (out @ h) fs" and "enc_fits al (length out + length h + length xs) d"
  shows "enc_does (\<lambda>enc. do { enc \<leftarrow> f enc; enc_write al enc (length xs) (Some xs) }) enc (out @ h @ xs) fs"
proof (rule enc_does_bind [OF assms(1)])
  fix enc' assume "enc_rep enc' (out @ h) fs"
  from enc_write_all [OF this, of al xs d] show "enc_does (\<lambda>enc. enc_write al enc (length xs) (Some xs)) enc' (out @ h @ xs) fs"
    using assms(2) by (simp add: add.assoc)
qed

definition str_head :: "nat \<Rightarrow> byte list" where
  "str_head n =
     (if n \<le> 0x1F then [Some (io_tag VL_MSGPACK_IO_FIXSTR OR of_nat n)]
      else if n \<le> 0xFF then [Some (io_tag VL_MSGPACK_IO_STR8), Some (of_nat n)]
      else if n \<le> 0xFFFF then Some (io_tag VL_MSGPACK_IO_STR16) # be_bytes 2 n
      else Some (io_tag VL_MSGPACK_IO_STR32) # be_bytes 4 n)"

definition bin_head :: "nat \<Rightarrow> byte list" where
  "bin_head n =
     (if n \<le> 0xFF then [Some (io_tag VL_MSGPACK_IO_BIN8), Some (of_nat n)]
      else if n \<le> 0xFFFF then Some (io_tag VL_MSGPACK_IO_BIN16) # be_bytes 2 n
      else Some (io_tag VL_MSGPACK_IO_BIN32) # be_bytes 4 n)"

lemma encode_bool_ok:
  assumes "enc_rep enc out fs" and "enc_fits al (length out + 1) d"
  shows "enc_does (\<lambda>enc. vlMsgPackIOEncodeBool al enc v) enc
    (out @ [Some (io_tag (if v then VL_MSGPACK_IO_TRUE else VL_MSGPACK_IO_FALSE))]) (bump 1 fs)"
  unfolding vlMsgPackIOEncodeBool_def
  by (rule enc_does_bind [OF increment_ok [OF assms(1)]]) (rule enc_write_byte_ok [OF _ assms(2)])

lemma encode_nil_ok:
  assumes "enc_rep enc out fs" and "enc_fits al (length out + 1) d"
  shows "enc_does (\<lambda>enc. vlMsgPackIOEncodeNil al enc) enc (out @ [Some (io_tag VL_MSGPACK_IO_NIL)]) (bump 1 fs)"
  unfolding vlMsgPackIOEncodeNil_def
  by (rule enc_does_bind [OF increment_ok [OF assms(1)]]) (rule enc_write_byte_ok [OF _ assms(2)])

lemma encode_float32_ok:
  assumes "enc_rep enc out fs" and "enc_fits al (length out + 5) d"
  shows "enc_does (\<lambda>enc. vlMsgPackIOEncodeFloat32 al enc x) enc
    (out @ Some (io_tag VL_MSGPACK_IO_FLOAT32) # be_bytes 4 (unat x)) (bump 1 fs)"
  unfolding vlMsgPackIOEncodeFloat32_def
  by (rule enc_does_bind [OF increment_ok [OF assms(1)]]) (rule enc_byte_number_ok [where d = d], use assms(2) in simp_all)

lemma encode_float64_ok:
  assumes "enc_rep enc out fs" and "enc_fits al (length out + 9) d"
  shows "enc_does (\<lambda>enc. vlMsgPackIOEncodeFloat64 al enc x) enc
    (out @ Some (io_tag VL_MSGPACK_IO_FLOAT64) # be_bytes 8 (unat x)) (bump 1 fs)"
  unfolding vlMsgPackIOEncodeFloat64_def
  by (rule enc_does_bind [OF increment_ok [OF assms(1)]]) (rule enc_byte_number_ok [where d = d], use assms(2) in simp_all)

lemma encode_string_ok:
  assumes "enc_rep enc out fs" and fit: "enc_fits al (length out + length (str_head (length xs)) + length xs) d"
  shows "enc_does (\<lambda>enc. vlMsgPackIOEncodeStringLen al enc (Some xs) (length xs)) enc
    (out @ str_head (length xs) @ xs) (bump 1 fs)"
  unfolding vlMsgPackIOEncodeStringLen_def
proof (rule enc_does_bind [OF increment_ok [OF assms(1)]], rule enc_tail_ok [OF _ fit])
  fix e assume e: "enc_rep e out (bump 1 fs)"
  have fit': "enc_fits al (length out + length (str_head (length xs))) d" using fit by (rule enc_fits_mono) simp_all
  have low: "(of_nat (length xs) :: u8) AND 0x1F = of_nat (length xs)" if "length xs \<le> 0x1F"
    using of_nat_and_mask [of "length xs" 5] that by (simp add: mask_eq_exp_minus_1)
  consider "length xs \<le> 0x1F" | "\<not> length xs \<le> 0x1F" "length xs \<le> 0xFF" | "\<not> length xs \<le> 0x1F" "\<not> length xs \<le> 0xFF" "length xs \<le> 0xFFFF"
    | "\<not> length xs \<le> 0x1F" "\<not> length xs \<le> 0xFF" "\<not> length xs \<le> 0xFFFF" by blast
  then show "enc_does (\<lambda>enc. if length xs \<le> 0x1F then enc_write_byte al enc (io_tag VL_MSGPACK_IO_FIXSTR OR (of_nat (length xs) AND 0x1F))
       else if length xs \<le> 0xFF then do { enc \<leftarrow> enc_write_byte al enc (io_tag VL_MSGPACK_IO_STR8); enc_write_byte al enc (of_nat (length xs)) }
       else if length xs \<le> 0xFFFF then do { enc \<leftarrow> enc_write_byte al enc (io_tag VL_MSGPACK_IO_STR16); enc_write_flipped al enc 2 (length xs) }
       else do { enc \<leftarrow> enc_write_byte al enc (io_tag VL_MSGPACK_IO_STR32); enc_write_flipped al enc 4 (length xs) })
     e (out @ str_head (length xs)) (bump 1 fs)"
  proof cases
    case 1
    then show ?thesis using enc_write_byte_ok [OF e] fit' low by (simp add: str_head_def)
  next
    case 2
    then show ?thesis using enc_byte_byte_ok [OF e] fit' by (simp add: str_head_def)
  next
    case 3
    then show ?thesis using enc_byte_number_ok [OF e, of al 2] fit' by (simp add: str_head_def)
  next
    case 4
    then show ?thesis using enc_byte_number_ok [OF e, of al 4] fit' by (simp add: str_head_def)
  qed
qed

lemma encode_binary_ok:
  assumes "enc_rep enc out fs" and fit: "enc_fits al (length out + length (bin_head (length xs)) + length xs) d"
  shows "enc_does (\<lambda>enc. vlMsgPackIOEncodeBinary al enc (Some xs) (length xs)) enc
    (out @ bin_head (length xs) @ xs) (bump 1 fs)"
  unfolding vlMsgPackIOEncodeBinary_def
proof (rule enc_does_bind [OF increment_ok [OF assms(1)]], rule enc_tail_ok [OF _ fit])
  fix e assume e: "enc_rep e out (bump 1 fs)"
  have fit': "enc_fits al (length out + length (bin_head (length xs))) d" using fit by (rule enc_fits_mono) simp_all
  consider "length xs \<le> 0xFF" | "\<not> length xs \<le> 0xFF" "length xs \<le> 0xFFFF"
    | "\<not> length xs \<le> 0xFF" "\<not> length xs \<le> 0xFFFF" by blast
  then show "enc_does (\<lambda>enc.
       if length xs \<le> 0xFF then do { enc \<leftarrow> enc_write_byte al enc (io_tag VL_MSGPACK_IO_BIN8); enc_write_byte al enc (of_nat (length xs)) }
       else if length xs \<le> 0xFFFF then do { enc \<leftarrow> enc_write_byte al enc (io_tag VL_MSGPACK_IO_BIN16); enc_write_flipped al enc 2 (length xs) }
       else do { enc \<leftarrow> enc_write_byte al enc (io_tag VL_MSGPACK_IO_BIN32); enc_write_flipped al enc 4 (length xs) })
     e (out @ bin_head (length xs)) (bump 1 fs)"
  proof cases
    case 1
    then show ?thesis using enc_byte_byte_ok [OF e] fit' by (simp add: bin_head_def)
  next
    case 2
    then show ?thesis using enc_byte_number_ok [OF e, of al 2] fit' by (simp add: bin_head_def)
  next
    case 3
    then show ?thesis using enc_byte_number_ok [OF e, of al 4] fit' by (simp add: bin_head_def)
  qed
qed

lemma enc_byte_then:
  assumes "enc_rep enc out fs" and "enc_fits al (length out + 1) d"
    and "\<And>e. enc_rep e (out @ [Some b]) fs \<Longrightarrow> enc_does g e out' fs'"
  shows "enc_does (\<lambda>enc. do { enc \<leftarrow> enc_write_byte al enc b; g enc }) enc out' fs'"
  by (rule enc_does_bind [OF enc_write_byte_ok [OF assms(1,2)] assms(3)])

text \<open>Up to 16 bytes, an extension is padded with zeros to the next power of two.\<close>

definition ext_head :: "nat \<Rightarrow> byte list" where
  "ext_head n =
     (if n \<le> 16 then [Some (io_tag (snd (fixext_size n)))]
      else if n \<le> 0xFF then [Some (io_tag VL_MSGPACK_IO_EXT8), Some (of_nat n)]
      else if n \<le> 0xFFFF then Some (io_tag VL_MSGPACK_IO_EXT16) # be_bytes 2 n
      else Some (io_tag VL_MSGPACK_IO_EXT32) # be_bytes 4 n)"

definition ext_body :: "byte list \<Rightarrow> byte list" where
  "ext_body xs = (if length xs \<le> 16 then take (fst (fixext_size (length xs))) (xs @ replicate (16 - length xs) (Some 0)) else xs)"

lemma fixext_size_bounds: "n \<le> 16 \<Longrightarrow> n \<le> fst (fixext_size n) \<and> fst (fixext_size n) \<le> 16"
  by (simp add: fixext_size_def)

lemma encode_ext_ok:
  assumes "enc_rep enc out fs" and fit: "enc_fits al (length out + length (ext_head (length xs)) + 1 + length (ext_body xs)) d"
  shows "enc_does (\<lambda>enc. vlMsgPackIOEncodeExt al enc t (Some xs) (length xs)) enc
    (out @ ext_head (length xs) @ Some t # ext_body xs) (bump 1 fs)"
  unfolding vlMsgPackIOEncodeExt_def
proof (rule enc_does_bind [OF increment_ok [OF assms(1)]])
  fix e assume e: "enc_rep e out (bump 1 fs)"
  let ?n = "length xs"
  show "enc_does (\<lambda>enc. if ?n \<le> 16 then do {
         let tempBuffer = replicate 16 (Some 0);
         tempBuffer \<leftarrow>
           (case Some xs of
              Some bs \<Rightarrow> if ?n > 0 then do { xs \<leftarrow> read_range bs 0 ?n; write_range tempBuffer 0 xs } else Some tempBuffer
            | None \<Rightarrow> Some tempBuffer);
         let (encLen, encType) = fixext_size ?n;
         enc \<leftarrow> enc_write_byte al enc (io_tag encType);
         enc \<leftarrow> enc_write_byte al enc t;
         enc_write al enc encLen (Some tempBuffer)
       } else do {
         enc \<leftarrow>
           (if ?n \<le> 0xFF then do { enc \<leftarrow> enc_write_byte al enc (io_tag VL_MSGPACK_IO_EXT8); enc_write_byte al enc (of_nat ?n) }
            else if ?n \<le> 0xFFFF then do { enc \<leftarrow> enc_write_byte al enc (io_tag VL_MSGPACK_IO_EXT16); enc_write_flipped al enc 2 ?n }
            else do { enc \<leftarrow> enc_write_byte al enc (io_tag VL_MSGPACK_IO_EXT32); enc_write_flipped al enc 4 ?n });
         enc \<leftarrow> enc_write_byte al enc t;
         enc_write al enc ?n (Some xs)
       }) e (out @ ext_head ?n @ Some t # ext_body xs) (bump 1 fs)"
  proof (cases "?n \<le> 16")
    case True
    obtain k ty where kt: "fixext_size ?n = (k, ty)" by (rule prod.exhaust)
    have k: "?n \<le> k" "k \<le> 16" using fixext_size_bounds [OF True] kt by simp_all
    let ?buf = "xs @ replicate (16 - ?n) (Some 0)"
    have temp: "(case Some xs of
              Some bs \<Rightarrow> if ?n > 0 then do { xs \<leftarrow> read_range bs 0 ?n; write_range (replicate 16 (Some 0)) 0 xs } else Some (replicate 16 (Some 0))
            | None \<Rightarrow> Some (replicate 16 (Some 0))) = Some ?buf"
      using True by (auto simp: read_range_def write_range_def)
    have lk: "length (take k ?buf) = k" using True k by simp
    have body: "ext_body xs = take k ?buf" using True kt by (simp add: ext_body_def)
    have head: "ext_head ?n = [Some (io_tag ty)]" using True kt by (simp add: ext_head_def)
    have fit': "enc_fits al (length out + 2 + k) d" using fit unfolding head body lk by simp
    have "enc_does (\<lambda>enc. do { enc \<leftarrow> enc_write_byte al enc (io_tag ty); enc \<leftarrow> enc_write_byte al enc t; enc_write al enc k (Some ?buf) })
        e (out @ ext_head ?n @ Some t # ext_body xs) (bump 1 fs)"
    proof (rule enc_byte_then [where d = d, OF e])
      show "enc_fits al (length out + 1) d" using fit' by (rule enc_fits_mono) simp_all
      fix e1 assume e1: "enc_rep e1 (out @ [Some (io_tag ty)]) (bump 1 fs)"
      show "enc_does (\<lambda>enc. do { enc \<leftarrow> enc_write_byte al enc t; enc_write al enc k (Some ?buf) })
        e1 (out @ ext_head ?n @ Some t # ext_body xs) (bump 1 fs)"
      proof (rule enc_byte_then [where d = d, OF e1])
        show "enc_fits al (length (out @ [Some (io_tag ty)]) + 1) d" using fit' by (rule enc_fits_mono) simp_all
        fix e2 assume e2: "enc_rep e2 ((out @ [Some (io_tag ty)]) @ [Some t]) (bump 1 fs)"
        show "enc_does (\<lambda>enc. enc_write al enc k (Some ?buf)) e2 (out @ ext_head ?n @ Some t # ext_body xs) (bump 1 fs)"
          using enc_write_ok [OF e2, of al k d ?buf] fit' True k unfolding head body by simp
      qed
    qed
    then show ?thesis unfolding if_P [OF True] Let_def temp kt prod.case bind.bind_lunit .
  next
    case False
    have body: "ext_body xs = xs" using False by (simp add: ext_body_def)
    have fit': "enc_fits al (length out + length (ext_head ?n)) d" using fit by (rule enc_fits_mono) simp_all
    have head: "enc_does (\<lambda>enc. if ?n \<le> 0xFF then do { enc \<leftarrow> enc_write_byte al enc (io_tag VL_MSGPACK_IO_EXT8); enc_write_byte al enc (of_nat ?n) }
            else if ?n \<le> 0xFFFF then do { enc \<leftarrow> enc_write_byte al enc (io_tag VL_MSGPACK_IO_EXT16); enc_write_flipped al enc 2 ?n }
            else do { enc \<leftarrow> enc_write_byte al enc (io_tag VL_MSGPACK_IO_EXT32); enc_write_flipped al enc 4 ?n })
         e (out @ ext_head ?n) (bump 1 fs)"
    proof -
      consider "?n \<le> 0xFF" | "\<not> ?n \<le> 0xFF" "?n \<le> 0xFFFF" | "\<not> ?n \<le> 0xFF" "\<not> ?n \<le> 0xFFFF" by blast
      then show ?thesis
      proof cases
        case 1
        then show ?thesis using enc_byte_byte_ok [OF e] fit' False by (simp add: ext_head_def)
      next
        case 2
        then show ?thesis using enc_byte_number_ok [OF e, of al 2] fit' False by (simp add: ext_head_def)
      next
        case 3
        then show ?thesis using enc_byte_number_ok [OF e, of al 4] fit' False by (simp add: ext_head_def)
      qed
    qed
    show ?thesis unfolding if_not_P [OF False]
    proof (rule enc_does_bind [OF head])
      fix e1 assume e1: "enc_rep e1 (out @ ext_head ?n) (bump 1 fs)"
      show "enc_does (\<lambda>enc. do { enc \<leftarrow> enc_write_byte al enc t; enc_write al enc ?n (Some xs) })
        e1 (out @ ext_head ?n @ Some t # ext_body xs) (bump 1 fs)"
      proof (rule enc_byte_then [where d = d, OF e1])
        show "enc_fits al (length (out @ ext_head ?n) + 1) d" using fit by (rule enc_fits_mono) simp_all
        fix e2 assume e2: "enc_rep e2 ((out @ ext_head ?n) @ [Some t]) (bump 1 fs)"
        show "enc_does (\<lambda>enc. enc_write al enc ?n (Some xs)) e2 (out @ ext_head ?n @ Some t # ext_body xs) (bump 1 fs)"
          using enc_write_all [OF e2, of al xs d] fit body by (simp add: add.assoc)
      qed
    qed
  qed
qed

text \<open>
  Integers take one byte from -31 to 127, and otherwise the least of 1, 2, 4 and 8 bytes whose range,
  taken without its least number, has the value.
\<close>

definition int_bytes :: "u64 \<Rightarrow> byte list" where
  "int_bytes v =
     (if -0x1F \<le> sint v \<and> sint v \<le> 0x7F then [Some (ucast v)]
      else if -0x7F \<le> sint v \<and> sint v \<le> 0x7F then [Some (io_tag VL_MSGPACK_IO_INT8), Some (ucast v)]
      else if -0x7FFF \<le> sint v \<and> sint v \<le> 0x7FFF then Some (io_tag VL_MSGPACK_IO_INT16) # be_bytes 2 (unat (ucast v :: u16))
      else if -0x7FFFFFFF \<le> sint v \<and> sint v \<le> 0x7FFFFFFF then Some (io_tag VL_MSGPACK_IO_INT32) # be_bytes 4 (unat (ucast v :: u32))
      else Some (io_tag VL_MSGPACK_IO_INT64) # be_bytes 8 (unat v))"

definition uint_bytes :: "u64 \<Rightarrow> byte list" where
  "uint_bytes v =
     (if v \<le> 0xFF then [Some (io_tag VL_MSGPACK_IO_UINT8), Some (ucast v)]
      else if v \<le> 0xFFFF then Some (io_tag VL_MSGPACK_IO_UINT16) # be_bytes 2 (unat (ucast v :: u16))
      else if v \<le> 0xFFFFFFFF then Some (io_tag VL_MSGPACK_IO_UINT32) # be_bytes 4 (unat (ucast v :: u32))
      else Some (io_tag VL_MSGPACK_IO_UINT64) # be_bytes 8 (unat v))"

lemma ucast_and_byte: "(ucast (v AND 0xFF :: u64) :: u8) = ucast v"
proof -
  have "(ucast (v AND mask 8 :: u64) :: u8) = ucast v"
    by (rule bit_word_eqI) (auto simp: bit_simps)
  then show ?thesis by (simp add: mask_eq_exp_minus_1)
qed

lemma neg_fixint:
  assumes "sint (v :: u64) \<le> -1" and "sint v \<ge> -0x1F"
  shows "io_tag VL_MSGPACK_IO_NEG_FIXINT OR ucast v = (ucast v :: u8)"
proof -
  have "\<forall>i \<in> set [-31..-1]. io_tag VL_MSGPACK_IO_NEG_FIXINT OR ucast (word_of_int i :: u64) = (ucast (word_of_int i :: u64) :: u8)"
    by code_simp
  moreover have "sint v \<in> set [-31..-1]" using assms by simp
  ultimately have "io_tag VL_MSGPACK_IO_NEG_FIXINT OR ucast (word_of_int (sint v) :: u64) = (ucast (word_of_int (sint v) :: u64) :: u8)"
    by blast
  then show ?thesis by simp
qed

lemma encode_uint_ok:
  assumes "enc_rep enc out fs" and fit: "enc_fits al (length out + length (uint_bytes v)) d"
  shows "enc_does (\<lambda>enc. vlMsgPackIOEncodeUInt al enc v) enc (out @ uint_bytes v) (bump 1 fs)"
  unfolding vlMsgPackIOEncodeUInt_def
proof (rule enc_does_bind [OF increment_ok [OF assms(1)]])
  fix e assume e: "enc_rep e out (bump 1 fs)"
  consider "v \<le> 0xFF" | "\<not> v \<le> 0xFF" "v \<le> 0xFFFF" | "\<not> v \<le> 0xFF" "\<not> v \<le> 0xFFFF" "v \<le> 0xFFFFFFFF"
    | "\<not> v \<le> 0xFF" "\<not> v \<le> 0xFFFF" "\<not> v \<le> 0xFFFFFFFF" by blast
  then show "enc_does (\<lambda>enc. if v \<le> 0xFF then do { enc \<leftarrow> enc_write_byte al enc (io_tag VL_MSGPACK_IO_UINT8); enc_write_byte al enc (ucast v) }
       else if v \<le> 0xFFFF then do { enc \<leftarrow> enc_write_byte al enc (io_tag VL_MSGPACK_IO_UINT16); enc_write_flipped al enc 2 (unat (ucast v :: u16)) }
       else if v \<le> 0xFFFFFFFF then do { enc \<leftarrow> enc_write_byte al enc (io_tag VL_MSGPACK_IO_UINT32); enc_write_flipped al enc 4 (unat (ucast v :: u32)) }
       else do { enc \<leftarrow> enc_write_byte al enc (io_tag VL_MSGPACK_IO_UINT64); enc_write_flipped al enc 8 (unat v) })
     e (out @ uint_bytes v) (bump 1 fs)"
  proof cases
    case 1
    then show ?thesis using enc_byte_byte_ok [OF e] fit by (simp add: uint_bytes_def)
  next
    case 2
    then show ?thesis using enc_byte_number_ok [OF e, of al 2] fit by (simp add: uint_bytes_def)
  next
    case 3
    then show ?thesis using enc_byte_number_ok [OF e, of al 4] fit by (simp add: uint_bytes_def)
  next
    case 4
    then show ?thesis using enc_byte_number_ok [OF e, of al 8] fit by (simp add: uint_bytes_def)
  qed
qed

lemma encode_int_ok:
  assumes "enc_rep enc out fs" and fit: "enc_fits al (length out + length (int_bytes v)) d"
  shows "enc_does (\<lambda>enc. vlMsgPackIOEncodeInt al enc v) enc (out @ int_bytes v) (bump 1 fs)"
  unfolding vlMsgPackIOEncodeInt_def
proof (rule enc_does_bind [OF increment_ok [OF assms(1)]])
  fix e assume e: "enc_rep e out (bump 1 fs)"
  consider "sint v \<le> 0x7F \<and> sint v \<ge> 0" | "\<not> (sint v \<le> 0x7F \<and> sint v \<ge> 0)" "sint v \<le> -1 \<and> sint v \<ge> -0x1F"
    | "\<not> (sint v \<le> 0x7F \<and> sint v \<ge> -0x1F)" "sint v \<le> 0x7F \<and> sint v \<ge> -0x7F"
    | "\<not> (sint v \<le> 0x7F \<and> sint v \<ge> -0x7F)" "sint v \<le> 0x7FFF \<and> sint v \<ge> -0x7FFF"
    | "\<not> (sint v \<le> 0x7FFF \<and> sint v \<ge> -0x7FFF)" "sint v \<le> 0x7FFFFFFF \<and> sint v \<ge> -0x7FFFFFFF"
    | "\<not> (sint v \<le> 0x7FFFFFFF \<and> sint v \<ge> -0x7FFFFFFF)" by linarith
  then show "enc_does (\<lambda>enc. if sint v \<le> 0x7F \<and> sint v \<ge> 0 then enc_write_byte al enc (io_tag VL_MSGPACK_IO_POS_FIXINT OR ucast (v AND 0xFF))
       else if sint v \<le> -1 \<and> sint v \<ge> -0x1F then enc_write_byte al enc (io_tag VL_MSGPACK_IO_NEG_FIXINT OR ucast (v AND 0xFF))
       else if sint v \<le> 0x7F \<and> sint v \<ge> -0x7F then do { enc \<leftarrow> enc_write_byte al enc (io_tag VL_MSGPACK_IO_INT8); enc_write_byte al enc (ucast v) }
       else if sint v \<le> 0x7FFF \<and> sint v \<ge> -0x7FFF then do { enc \<leftarrow> enc_write_byte al enc (io_tag VL_MSGPACK_IO_INT16); enc_write_flipped al enc 2 (unat (ucast v :: u16)) }
       else if sint v \<le> 0x7FFFFFFF \<and> sint v \<ge> -0x7FFFFFFF then do { enc \<leftarrow> enc_write_byte al enc (io_tag VL_MSGPACK_IO_INT32); enc_write_flipped al enc 4 (unat (ucast v :: u32)) }
       else do { enc \<leftarrow> enc_write_byte al enc (io_tag VL_MSGPACK_IO_INT64); enc_write_flipped al enc 8 (unat v) })
     e (out @ int_bytes v) (bump 1 fs)"
  proof cases
    case 1
    then have "int_bytes v = [Some (ucast v)]" by (simp add: int_bytes_def)
    then show ?thesis using enc_write_byte_ok [OF e] fit 1 by (simp add: ucast_and_byte)
  next
    case 2
    then have "int_bytes v = [Some (ucast v)]" by (simp add: int_bytes_def)
    then show ?thesis using enc_write_byte_ok [OF e] fit 2 neg_fixint [of v] by (simp add: ucast_and_byte)
  next
    case 3
    then have "int_bytes v = [Some (io_tag VL_MSGPACK_IO_INT8), Some (ucast v)]" by (simp add: int_bytes_def)
    moreover have "\<not> (sint v \<le> 0x7F \<and> sint v \<ge> 0)" "\<not> (sint v \<le> -1 \<and> sint v \<ge> -0x1F)" using 3 by linarith+
    ultimately show ?thesis using enc_byte_byte_ok [OF e] fit 3(2) by simp
  next
    case 4
    then have b: "int_bytes v = Some (io_tag VL_MSGPACK_IO_INT16) # be_bytes 2 (unat (ucast v :: u16))" by (auto simp: int_bytes_def)
    have "\<not> (sint v \<le> 0x7F \<and> sint v \<ge> 0)" "\<not> (sint v \<le> -1 \<and> sint v \<ge> -0x1F)" using 4 by linarith+
    note n = this [THEN if_not_P] 4(1) [THEN if_not_P] 4(2) [THEN if_P]
    show ?thesis unfolding n b by (rule enc_byte_number_ok [OF e, of al 2 d]) (use fit b in simp_all)
  next
    case 5
    then have b: "int_bytes v = Some (io_tag VL_MSGPACK_IO_INT32) # be_bytes 4 (unat (ucast v :: u32))" by (auto simp: int_bytes_def)
    have "\<not> (sint v \<le> 0x7F \<and> sint v \<ge> 0)" "\<not> (sint v \<le> -1 \<and> sint v \<ge> -0x1F)" "\<not> (sint v \<le> 0x7F \<and> sint v \<ge> -0x7F)"
      using 5 by linarith+
    note n = this [THEN if_not_P] 5(1) [THEN if_not_P] 5(2) [THEN if_P]
    show ?thesis unfolding n b by (rule enc_byte_number_ok [OF e, of al 4 d]) (use fit b in simp_all)
  next
    case 6
    then have b: "int_bytes v = Some (io_tag VL_MSGPACK_IO_INT64) # be_bytes 8 (unat v)" by (auto simp: int_bytes_def)
    have "\<not> (sint v \<le> 0x7F \<and> sint v \<ge> 0)" "\<not> (sint v \<le> -1 \<and> sint v \<ge> -0x1F)" "\<not> (sint v \<le> 0x7F \<and> sint v \<ge> -0x7F)"
      "\<not> (sint v \<le> 0x7FFF \<and> sint v \<ge> -0x7FFF)" using 6 by linarith+
    note n = this [THEN if_not_P] 6 [THEN if_not_P]
    show ?thesis unfolding n b by (rule enc_byte_number_ok [OF e, of al 8 d]) (use fit b in simp_all)
  qed
qed

section \<open>Opening and closing containers\<close>

lemma map_begin_ok:
  assumes "enc_rep enc out fs" and "enc_fits al (length out + 5) (Suc (length fs))"
  obtains junk where "enc_does (\<lambda>enc. vlMsgPackIOEncodeMapBegin al enc) enc (out @ junk) (open_frame False (length out) 0 # bump 1 fs)"
    "length junk = 5"
proof -
  obtain e1 where e1: "vl_MsgPackEncodeIncrement enc = Some e1" "enc_rep e1 out (bump 1 fs)" "same_error enc e1"
    using increment_ok [OF assms(1)] by (auto simp: enc_does_def)
  have fit: "enc_fits al (length out + 5) (Suc (length (bump 1 fs)))" using assms(2) by simp
  obtain junk where j: "enc_does (\<lambda>enc. vl_MsgPackEncodePush al enc False) e1 (out @ junk) (open_frame False (length out) 0 # bump 1 fs)"
    "length junk = 5"
    by (rule encode_push_ok [OF e1(2) fit])
  then have "enc_does (\<lambda>enc. vlMsgPackIOEncodeMapBegin al enc) enc (out @ junk) (open_frame False (length out) 0 # bump 1 fs)"
    using e1 same_error_trans by (auto simp: enc_does_def vlMsgPackIOEncodeMapBegin_def)
  then show thesis using that j(2) by blast
qed

lemma array_begin_ok:
  assumes "enc_rep enc out fs" and "enc_fits al (length out + 5) (Suc (length fs))"
  obtains junk where "enc_does (\<lambda>enc. vlMsgPackIOEncodeArrayBegin al enc) enc (out @ junk) (open_frame True (length out) 0 # bump 1 fs)"
    "length junk = 5"
proof -
  obtain e1 where e1: "vl_MsgPackEncodeIncrement enc = Some e1" "enc_rep e1 out (bump 1 fs)" "same_error enc e1"
    using increment_ok [OF assms(1)] by (auto simp: enc_does_def)
  have fit: "enc_fits al (length out + 5) (Suc (length (bump 1 fs)))" using assms(2) by simp
  obtain junk where j: "enc_does (\<lambda>enc. vl_MsgPackEncodePush al enc True) e1 (out @ junk) (open_frame True (length out) 0 # bump 1 fs)"
    "length junk = 5"
    by (rule encode_push_ok [OF e1(2) fit])
  then have "enc_does (\<lambda>enc. vlMsgPackIOEncodeArrayBegin al enc) enc (out @ junk) (open_frame True (length out) 0 # bump 1 fs)"
    using e1 same_error_trans by (auto simp: enc_does_def vlMsgPackIOEncodeArrayBegin_def)
  then show thesis using that j(2) by blast
qed

lemma array_end_ok:
  assumes rep: "enc_rep enc (pre @ junk @ body) (open_frame True (length pre) n # fs)" and junk: "length junk = 5"
    and n: "n < 2 ^ 32" and fit: "enc_fits al (length pre + 5 + length body) d"
  shows "enc_does vlMsgPackIOEncodeArrayEnd enc (pre @ container_head True n @ body) fs"
proof -
  have small: "length pre + 5 + length body < 2 ^ 63" using fit by (auto simp: enc_fits_def)
  have ne: "\<not> vlStackEmpty (enc_stateStack enc)" using rep stack_frames_empty by (auto simp: enc_rep_def)
  obtain enc' where "vl_MsgPackEncodePop enc = Some (True, enc')" "enc_rep enc' (pre @ container_head True n @ body) fs" "same_error enc enc'"
    by (rule encode_pop_ok [OF rep junk _ n small, of True]) simp_all
  then show ?thesis using ne by (simp add: enc_does_def vlMsgPackIOEncodeArrayEnd_def)
qed

lemma map_end_ok:
  assumes rep: "enc_rep enc (pre @ junk @ body) (open_frame False (length pre) (2 * n) # fs)" and junk: "length junk = 5"
    and n: "n < 2 ^ 32" and fit: "enc_fits al (length pre + 5 + length body) d"
  shows "enc_does vlMsgPackIOEncodeMapEnd enc (pre @ container_head False n @ body) fs"
proof -
  have small: "length pre + 5 + length body < 2 ^ 63" using fit by (auto simp: enc_fits_def)
  have st: "stack_frames (enc_stateStack enc) (open_frame False (length pre) (2 * n) # fs)" using rep by (simp add: enc_rep_def)
  have ne: "\<not> vlStackEmpty (enc_stateStack enc)" using stack_frames_empty [OF st] by simp
  obtain enc' where "vl_MsgPackEncodePop enc = Some (True, enc')" "enc_rep enc' (pre @ container_head False n @ body) fs" "same_error enc enc'"
    by (rule encode_pop_ok [OF rep junk _ n small, of False]) simp_all
  then show ?thesis using ne peek_encframe_ok [OF st]
    by (simp add: enc_does_def vlMsgPackIOEncodeMapEnd_def open_frame_def)
qed

section \<open>Values\<close>

datatype mp =
    MNil | MBool bool | MInt u64 | MUInt u64 | MFloat32 u32 | MFloat64 u64
  | MStr "byte list" | MBin "byte list" | MExt u8 "byte list"
  | MArr "mp list" | MMap "(byte list \<times> mp) list"

text \<open>The bytes of a value, the length that encoding needs, and the depth of its containers.\<close>

fun mp_bytes :: "mp \<Rightarrow> byte list" where
  "mp_bytes MNil = [Some (io_tag VL_MSGPACK_IO_NIL)]"
| "mp_bytes (MBool b) = [Some (io_tag (if b then VL_MSGPACK_IO_TRUE else VL_MSGPACK_IO_FALSE))]"
| "mp_bytes (MInt v) = int_bytes v"
| "mp_bytes (MUInt v) = uint_bytes v"
| "mp_bytes (MFloat32 x) = Some (io_tag VL_MSGPACK_IO_FLOAT32) # be_bytes 4 (unat x)"
| "mp_bytes (MFloat64 x) = Some (io_tag VL_MSGPACK_IO_FLOAT64) # be_bytes 8 (unat x)"
| "mp_bytes (MStr xs) = str_head (length xs) @ xs"
| "mp_bytes (MBin xs) = bin_head (length xs) @ xs"
| "mp_bytes (MExt t xs) = ext_head (length xs) @ Some t # ext_body xs"
| "mp_bytes (MArr vs) = container_head True (length vs) @ concat (map mp_bytes vs)"
| "mp_bytes (MMap kvs) = container_head False (length kvs) @ concat (map (\<lambda>(k, v). str_head (length k) @ k @ mp_bytes v) kvs)"

fun mp_room :: "mp \<Rightarrow> nat" where
  "mp_room (MArr vs) = 5 + sum_list (map mp_room vs)"
| "mp_room (MMap kvs) = 5 + sum_list (map (\<lambda>(k, v). length (str_head (length k)) + length k + mp_room v) kvs)"
| "mp_room v = length (mp_bytes v)"

fun mp_depth :: "mp \<Rightarrow> nat" where
  "mp_depth (MArr vs) = Suc (Max (insert 0 (set (map mp_depth vs))))"
| "mp_depth (MMap kvs) = Suc (Max (insert 0 (set (map (\<lambda>(k, v). mp_depth v) kvs))))"
| "mp_depth v = 0"

fun mp_ok :: "mp \<Rightarrow> bool" where
  "mp_ok (MArr vs) \<longleftrightarrow> length vs < 2 ^ 32 \<and> (\<forall>v \<in> set vs. mp_ok v)"
| "mp_ok (MMap kvs) \<longleftrightarrow> length kvs < 2 ^ 31 \<and> (\<forall>(k, v) \<in> set kvs. length k < 2 ^ 32 \<and> mp_ok v)"
| "mp_ok (MStr xs) \<longleftrightarrow> length xs < 2 ^ 32"
| "mp_ok (MBin xs) \<longleftrightarrow> length xs < 2 ^ 32"
| "mp_ok (MExt t xs) \<longleftrightarrow> length xs < 2 ^ 32"
| "mp_ok v \<longleftrightarrow> True"

text \<open>The calls that encode a value: a container is opened, its values are encoded in order, and it is closed.\<close>

fun encode_mp :: "allocator \<Rightarrow> mp \<Rightarrow> vl_msgpack_encoder \<Rightarrow> vl_msgpack_encoder option"
  and encode_all :: "allocator \<Rightarrow> mp list \<Rightarrow> vl_msgpack_encoder \<Rightarrow> vl_msgpack_encoder option"
  and encode_pairs :: "allocator \<Rightarrow> (byte list \<times> mp) list \<Rightarrow> vl_msgpack_encoder \<Rightarrow> vl_msgpack_encoder option" where
  "encode_mp al MNil enc = vlMsgPackIOEncodeNil al enc"
| "encode_mp al (MBool b) enc = vlMsgPackIOEncodeBool al enc b"
| "encode_mp al (MInt v) enc = vlMsgPackIOEncodeInt al enc v"
| "encode_mp al (MUInt v) enc = vlMsgPackIOEncodeUInt al enc v"
| "encode_mp al (MFloat32 x) enc = vlMsgPackIOEncodeFloat32 al enc x"
| "encode_mp al (MFloat64 x) enc = vlMsgPackIOEncodeFloat64 al enc x"
| "encode_mp al (MStr xs) enc = vlMsgPackIOEncodeStringLen al enc (Some xs) (length xs)"
| "encode_mp al (MBin xs) enc = vlMsgPackIOEncodeBinary al enc (Some xs) (length xs)"
| "encode_mp al (MExt t xs) enc = vlMsgPackIOEncodeExt al enc t (Some xs) (length xs)"
| "encode_mp al (MArr vs) enc =
     do { enc \<leftarrow> vlMsgPackIOEncodeArrayBegin al enc; enc \<leftarrow> encode_all al vs enc; vlMsgPackIOEncodeArrayEnd enc }"
| "encode_mp al (MMap kvs) enc =
     do { enc \<leftarrow> vlMsgPackIOEncodeMapBegin al enc; enc \<leftarrow> encode_pairs al kvs enc; vlMsgPackIOEncodeMapEnd enc }"
| "encode_all al [] enc = Some enc"
| "encode_all al (v # vs) enc = do { enc \<leftarrow> encode_mp al v enc; encode_all al vs enc }"
| "encode_pairs al [] enc = Some enc"
| "encode_pairs al ((k, v) # kvs) enc =
     do { enc \<leftarrow> vlMsgPackIOEncodeStringLen al enc (Some k) (length k); enc \<leftarrow> encode_mp al v enc; encode_pairs al kvs enc }"


lemma str_head_length: "length (str_head n) \<le> 5"
  by (simp add: str_head_def)

lemma container_head_length: "length (container_head b n) \<le> 5"
  by (simp add: container_head_def)

lemma mp_bytes_room: "length (mp_bytes v) \<le> mp_room v"
proof (induction v)
  case (MArr vs)
  then have "length (concat (map mp_bytes vs)) \<le> sum_list (map mp_room vs)"
    by (induction vs) (auto intro: add_mono)
  then show ?case using container_head_length [of True "length vs"] by simp
next
  case (MMap kvs)
  then have "length (concat (map (\<lambda>(k, v). str_head (length k) @ k @ mp_bytes v) kvs)) \<le>
    sum_list (map (\<lambda>(k, v). length (str_head (length k)) + length k + mp_room v) kvs)"
  proof (induction kvs)
    case (Cons kv kvs)
    obtain k v where "kv = (k, v)" by (rule prod.exhaust)
    moreover have "length (mp_bytes v) \<le> mp_room v" using Cons.prems calculation by (auto intro!: Cons.prems)
    moreover have "length (concat (map (\<lambda>(k, v). str_head (length k) @ k @ mp_bytes v) kvs)) \<le>
      sum_list (map (\<lambda>(k, v). length (str_head (length k)) + length k + mp_room v) kvs)"
      by (rule Cons.IH) (use Cons.prems in auto)
    ultimately show ?case by simp
  qed simp
  then show ?case using container_head_length [of False "length kvs"] by simp
qed simp_all

text \<open>What encoding a value does to the encoder.\<close>

definition encodes :: "allocator \<Rightarrow> mp \<Rightarrow> bool" where
  "encodes al v \<longleftrightarrow>
     (\<forall>enc out fs. enc_rep enc out fs \<longrightarrow> enc_fits al (length out + mp_room v) (length fs + mp_depth v) \<longrightarrow>
        enc_does (encode_mp al v) enc (out @ mp_bytes v) (bump 1 fs))"

lemma encodesD:
  "encodes al v \<Longrightarrow> enc_rep enc out fs \<Longrightarrow> enc_fits al (length out + mp_room v) (length fs + mp_depth v) \<Longrightarrow>
   enc_does (encode_mp al v) enc (out @ mp_bytes v) (bump 1 fs)"
  by (simp add: encodes_def)

lemma enc_does_return: "enc_rep enc out fs \<Longrightarrow> enc_does Some enc out fs"
  by (simp add: enc_does_def)

lemma encode_all_ok:
  assumes "\<And>v. v \<in> set vs \<Longrightarrow> encodes al v" and "\<And>v. v \<in> set vs \<Longrightarrow> mp_depth v \<le> d"
    and "enc_rep enc out fs" and "enc_fits al (length out + sum_list (map mp_room vs)) (length fs + d)"
  shows "enc_does (encode_all al vs) enc (out @ concat (map mp_bytes vs)) (bump (length vs) fs)"
  using assms
proof (induction vs arbitrary: enc out fs)
  case Nil
  then have "bump 0 fs = fs" using bump_0 by (auto simp: enc_rep_def)
  then show ?case using enc_does_return [OF Nil(3)] by (simp add: enc_does_def)
next
  case (Cons v vs)
  have "encodes al v" by (rule Cons.prems) simp
  moreover have "enc_fits al (length out + mp_room v) (length fs + mp_depth v)"
    using Cons.prems(2) [of v] by (intro enc_fits_mono [OF Cons.prems(4)]) simp_all
  ultimately have v: "enc_does (encode_mp al v) enc (out @ mp_bytes v) (bump 1 fs)"
    using Cons.prems(3) by (intro encodesD)
  have "enc_does (\<lambda>enc. do { enc \<leftarrow> encode_mp al v enc; encode_all al vs enc }) enc
    (out @ mp_bytes v @ concat (map mp_bytes vs)) (bump (Suc (length vs)) fs)"
  proof (rule enc_does_bind [OF v])
    fix e assume e: "enc_rep e (out @ mp_bytes v) (bump 1 fs)"
    have "enc_does (encode_all al vs) e ((out @ mp_bytes v) @ concat (map mp_bytes vs)) (bump (length vs) (bump 1 fs))"
    proof (rule Cons.IH [OF _ _ e])
      show "enc_fits al (length (out @ mp_bytes v) + sum_list (map mp_room vs)) (length (bump 1 fs) + d)"
        using mp_bytes_room [of v] by (intro enc_fits_mono [OF Cons.prems(4)]) simp_all
    qed (use Cons.prems in auto)
    then show "enc_does (encode_all al vs) e (out @ mp_bytes v @ concat (map mp_bytes vs)) (bump (Suc (length vs)) fs)"
      by (simp add: bump_bump)
  qed
  then show ?case by (simp add: enc_does_def)
qed

lemma encode_pairs_ok:
  assumes "\<And>k v. (k, v) \<in> set kvs \<Longrightarrow> encodes al v" and "\<And>k v. (k, v) \<in> set kvs \<Longrightarrow> mp_depth v \<le> d"
    and "enc_rep enc out fs"
    and "enc_fits al (length out + sum_list (map (\<lambda>(k, v). length (str_head (length k)) + length k + mp_room v) kvs)) (length fs + d)"
  shows "enc_does (encode_pairs al kvs) enc (out @ concat (map (\<lambda>(k, v). str_head (length k) @ k @ mp_bytes v) kvs))
    (bump (2 * length kvs) fs)"
  using assms
proof (induction kvs arbitrary: enc out fs)
  case Nil
  then have "bump 0 fs = fs" using bump_0 by (auto simp: enc_rep_def)
  then show ?case using enc_does_return [OF Nil(3)] by (simp add: enc_does_def)
next
  case (Cons kv kvs)
  obtain k v where kv: "kv = (k, v)" by (rule prod.exhaust)
  let ?h = "str_head (length k) @ k" and ?rest = "concat (map (\<lambda>(k, v). str_head (length k) @ k @ mp_bytes v) kvs)"
  let ?room = "sum_list (map (\<lambda>(k, v). length (str_head (length k)) + length k + mp_room v) kvs)"
  have k: "enc_does (\<lambda>enc. vlMsgPackIOEncodeStringLen al enc (Some k) (length k)) enc (out @ ?h) (bump 1 fs)"
    by (rule encode_string_ok [OF Cons.prems(3), of al k "length fs + d"]) (rule enc_fits_mono [OF Cons.prems(4)], simp_all add: kv)
  have "enc_does (\<lambda>enc. do { enc \<leftarrow> vlMsgPackIOEncodeStringLen al enc (Some k) (length k);
      enc \<leftarrow> encode_mp al v enc; encode_pairs al kvs enc }) enc (out @ ?h @ mp_bytes v @ ?rest) (bump (2 * Suc (length kvs)) fs)"
  proof (rule enc_does_bind [OF k])
    fix e assume e: "enc_rep e (out @ ?h) (bump 1 fs)"
    have "enc_fits al (length (out @ ?h) + mp_room v) (length (bump 1 fs) + mp_depth v)"
      using Cons.prems(2) [of k v] by (intro enc_fits_mono [OF Cons.prems(4)]) (simp_all add: kv)
    moreover have "encodes al v" by (rule Cons.prems(1) [of k]) (simp add: kv)
    ultimately have v: "enc_does (encode_mp al v) e ((out @ ?h) @ mp_bytes v) (bump 1 (bump 1 fs))"
      using e by (intro encodesD)
    show "enc_does (\<lambda>enc. do { enc \<leftarrow> encode_mp al v enc; encode_pairs al kvs enc }) e
      (out @ ?h @ mp_bytes v @ ?rest) (bump (2 * Suc (length kvs)) fs)"
    proof (rule enc_does_bind [OF v])
      fix e2 assume e2: "enc_rep e2 ((out @ ?h) @ mp_bytes v) (bump 1 (bump 1 fs))"
      have "enc_does (encode_pairs al kvs) e2 (((out @ ?h) @ mp_bytes v) @ ?rest) (bump (2 * length kvs) (bump 1 (bump 1 fs)))"
      proof (rule Cons.IH [OF _ _ e2])
        show "enc_fits al (length ((out @ ?h) @ mp_bytes v) + ?room) (length (bump 1 (bump 1 fs)) + d)"
          using mp_bytes_room [of v] by (intro enc_fits_mono [OF Cons.prems(4)]) (simp_all add: kv)
      qed (use Cons.prems in auto)
      then show "enc_does (encode_pairs al kvs) e2 (out @ ?h @ mp_bytes v @ ?rest) (bump (2 * Suc (length kvs)) fs)"
        by (simp add: bump_bump)
    qed
  qed
  then show ?case by (simp add: enc_does_def kv)
qed


lemma encode_array_ok:
  assumes vs: "\<And>v. v \<in> set vs \<Longrightarrow> encodes al v" and n: "length vs < 2 ^ 32"
  shows "encodes al (MArr vs)"
  unfolding encodes_def
proof (intro allI impI)
  fix enc out fs
  assume rep: "enc_rep enc out fs" and fit: "enc_fits al (length out + mp_room (MArr vs)) (length fs + mp_depth (MArr vs))"
  let ?d = "Max (insert 0 (set (map mp_depth vs)))" and ?body = "concat (map mp_bytes vs)"
  have "enc_fits al (length out + 5) (Suc (length fs))" by (rule enc_fits_mono [OF fit]) simp_all
  then obtain junk where j: "enc_does (\<lambda>enc. vlMsgPackIOEncodeArrayBegin al enc) enc (out @ junk)
      (open_frame True (length out) 0 # bump 1 fs)" "length junk = 5"
    by (rule array_begin_ok [OF rep])
  have "enc_does (\<lambda>enc. do { enc \<leftarrow> vlMsgPackIOEncodeArrayBegin al enc; enc \<leftarrow> encode_all al vs enc; vlMsgPackIOEncodeArrayEnd enc })
    enc (out @ container_head True (length vs) @ ?body) (bump 1 fs)"
  proof (rule enc_does_bind [OF j(1)])
    fix e assume e: "enc_rep e (out @ junk) (open_frame True (length out) 0 # bump 1 fs)"
    have "enc_does (encode_all al vs) e ((out @ junk) @ ?body) (bump (length vs) (open_frame True (length out) 0 # bump 1 fs))"
    proof (rule encode_all_ok [OF vs _ e, where d = ?d])
      show "mp_depth v \<le> ?d" if "v \<in> set vs" for v using that by (intro Max_ge) auto
      show "enc_fits al (length (out @ junk) + sum_list (map mp_room vs)) (length (open_frame True (length out) 0 # bump 1 fs) + ?d)"
        by (rule enc_fits_mono [OF fit]) (simp_all add: j(2))
    qed simp
    moreover have "bump (length vs) (open_frame True (length out) 0 # bump 1 fs) = open_frame True (length out) (length vs) # bump 1 fs"
      using n by (simp add: open_frame_def u32_of_id)
    ultimately have all: "enc_does (encode_all al vs) e (out @ junk @ ?body) (open_frame True (length out) (length vs) # bump 1 fs)"
      by simp
    show "enc_does (\<lambda>enc. do { enc \<leftarrow> encode_all al vs enc; vlMsgPackIOEncodeArrayEnd enc }) e
      (out @ container_head True (length vs) @ ?body) (bump 1 fs)"
    proof (rule enc_does_bind [OF all])
      fix e2 assume e2: "enc_rep e2 (out @ junk @ ?body) (open_frame True (length out) (length vs) # bump 1 fs)"
      have "length ?body \<le> sum_list (map mp_room vs)" using mp_bytes_room by (induction vs) (auto intro: add_mono)
      then have "enc_fits al (length out + 5 + length ?body) 0" by (intro enc_fits_mono [OF fit]) simp_all
      then show "enc_does vlMsgPackIOEncodeArrayEnd e2 (out @ container_head True (length vs) @ ?body) (bump 1 fs)"
        by (rule array_end_ok [OF e2 j(2) n])
    qed
  qed
  then show "enc_does (encode_mp al (MArr vs)) enc (out @ mp_bytes (MArr vs)) (bump 1 fs)"
    by (simp add: enc_does_def)
qed

lemma encode_map_ok:
  assumes vs: "\<And>k v. (k, v) \<in> set kvs \<Longrightarrow> encodes al v" and n: "length kvs < 2 ^ 31"
  shows "encodes al (MMap kvs)"
  unfolding encodes_def
proof (intro allI impI)
  fix enc out fs
  assume rep: "enc_rep enc out fs" and fit: "enc_fits al (length out + mp_room (MMap kvs)) (length fs + mp_depth (MMap kvs))"
  let ?d = "Max (insert 0 (set (map (\<lambda>(k, v). mp_depth v) kvs)))"
    and ?body = "concat (map (\<lambda>(k, v). str_head (length k) @ k @ mp_bytes v) kvs)"
    and ?room = "sum_list (map (\<lambda>(k, v). length (str_head (length k)) + length k + mp_room v) kvs)"
  have n': "length kvs < 2 ^ 32" using n by simp
  have "enc_fits al (length out + 5) (Suc (length fs))" by (rule enc_fits_mono [OF fit]) simp_all
  then obtain junk where j: "enc_does (\<lambda>enc. vlMsgPackIOEncodeMapBegin al enc) enc (out @ junk)
      (open_frame False (length out) 0 # bump 1 fs)" "length junk = 5"
    by (rule map_begin_ok [OF rep])
  have "enc_does (\<lambda>enc. do { enc \<leftarrow> vlMsgPackIOEncodeMapBegin al enc; enc \<leftarrow> encode_pairs al kvs enc; vlMsgPackIOEncodeMapEnd enc })
    enc (out @ container_head False (length kvs) @ ?body) (bump 1 fs)"
  proof (rule enc_does_bind [OF j(1)])
    fix e assume e: "enc_rep e (out @ junk) (open_frame False (length out) 0 # bump 1 fs)"
    have "enc_does (encode_pairs al kvs) e ((out @ junk) @ ?body) (bump (2 * length kvs) (open_frame False (length out) 0 # bump 1 fs))"
    proof (rule encode_pairs_ok [OF vs _ e, where d = ?d])
      show "mp_depth v \<le> ?d" if "(k, v) \<in> set kvs" for k v using that by (intro Max_ge) force+
      show "enc_fits al (length (out @ junk) + ?room) (length (open_frame False (length out) 0 # bump 1 fs) + ?d)"
        by (rule enc_fits_mono [OF fit]) (simp_all add: j(2))
    qed simp
    moreover have "bump (2 * length kvs) (open_frame False (length out) 0 # bump 1 fs) =
        open_frame False (length out) (2 * length kvs) # bump 1 fs"
      using n by (simp add: open_frame_def u32_of_id)
    ultimately have all: "enc_does (encode_pairs al kvs) e (out @ junk @ ?body)
        (open_frame False (length out) (2 * length kvs) # bump 1 fs)" by simp
    show "enc_does (\<lambda>enc. do { enc \<leftarrow> encode_pairs al kvs enc; vlMsgPackIOEncodeMapEnd enc }) e
      (out @ container_head False (length kvs) @ ?body) (bump 1 fs)"
    proof (rule enc_does_bind [OF all])
      fix e2 assume e2: "enc_rep e2 (out @ junk @ ?body) (open_frame False (length out) (2 * length kvs) # bump 1 fs)"
      have "length ?body \<le> ?room" using mp_bytes_room by (induction kvs) (auto intro: add_mono)
      then have "enc_fits al (length out + 5 + length ?body) 0" by (intro enc_fits_mono [OF fit]) simp_all
      then show "enc_does vlMsgPackIOEncodeMapEnd e2 (out @ container_head False (length kvs) @ ?body) (bump 1 fs)"
        by (rule map_end_ok [OF e2 j(2) n'])
    qed
  qed
  then show "enc_does (encode_mp al (MMap kvs)) enc (out @ mp_bytes (MMap kvs)) (bump 1 fs)"
    by (simp add: enc_does_def)
qed

lemma encodesI:
  "(\<And>enc out fs. enc_rep enc out fs \<Longrightarrow> enc_fits al (length out + mp_room v) (length fs + mp_depth v) \<Longrightarrow>
    enc_does (\<lambda>enc. encode_mp al v enc) enc (out @ mp_bytes v) (bump 1 fs)) \<Longrightarrow> encodes al v"
  by (simp add: encodes_def)

lemma encodes_ok: "mp_ok v \<Longrightarrow> encodes al v"
proof (induction v)
  case (MArr vs)
  show ?case by (rule encode_array_ok) (use MArr in auto)
next
  case (MMap kvs)
  show ?case
  proof (rule encode_map_ok)
    show "encodes al v" if "(k, v) \<in> set kvs" for k v using MMap.IH [OF that, of v] MMap.prems that by auto
    show "length kvs < 2 ^ 31" using MMap.prems by simp
  qed
next
  case MNil
  show ?case by (rule encodesI) (simp only: encode_mp.simps mp_bytes.simps, erule encode_nil_ok, simp add: add.assoc)
next
  case (MBool b)
  show ?case by (rule encodesI) (simp only: encode_mp.simps mp_bytes.simps, erule encode_bool_ok, simp add: add.assoc)
next
  case (MInt x)
  show ?case by (rule encodesI) (simp only: encode_mp.simps mp_bytes.simps, erule encode_int_ok, simp add: add.assoc)
next
  case (MUInt x)
  show ?case by (rule encodesI) (simp only: encode_mp.simps mp_bytes.simps, erule encode_uint_ok, simp add: add.assoc)
next
  case (MFloat32 x)
  show ?case by (rule encodesI) (simp only: encode_mp.simps mp_bytes.simps, erule encode_float32_ok, simp add: add.assoc)
next
  case (MFloat64 x)
  show ?case by (rule encodesI) (simp only: encode_mp.simps mp_bytes.simps, erule encode_float64_ok, simp add: add.assoc)
next
  case (MStr xs)
  show ?case by (rule encodesI) (simp only: encode_mp.simps mp_bytes.simps, erule encode_string_ok, simp add: add.assoc)
next
  case (MBin xs)
  show ?case by (rule encodesI) (simp only: encode_mp.simps mp_bytes.simps, erule encode_binary_ok, simp add: add.assoc)
next
  case (MExt t xs)
  show ?case by (rule encodesI) (simp only: encode_mp.simps mp_bytes.simps, erule encode_ext_ok, simp add: add.assoc)
qed

end
