(* ===== verification/VL_MsgPackDec.thy ===== *)
theory VL_MsgPackDec
  imports VL_MsgPackEnc
begin

text \<open>
  What the decoder of \<^verbatim>\<open>src/core/vl_msgpack_io.c\<close> makes of what the encoder wrote: one token for
  every head, at the offset behind the head and its bytes.
\<close>

section \<open>The decoder at an offset\<close>

definition dec_at :: "byte list \<Rightarrow> nat \<Rightarrow> vl_msgpack_decoder" where
  "dec_at src off = (vlMsgPackIODecoderStart src (length src))\<lparr>dec_srcOffset := off\<rparr>"

lemma dec_at_simps [simp]:
  "dec_srcMem (dec_at src off) = src" "dec_srcLen (dec_at src off) = length src" "dec_srcOffset (dec_at src off) = off"
  "vlMsgPackIODecoderStart src (length src) = dec_at src 0"
  by (simp_all add: dec_at_def vlMsgPackIODecoderStart_def)

text \<open>The source has \<open>xs\<close> at the offset.\<close>

definition src_has :: "byte list \<Rightarrow> nat \<Rightarrow> byte list \<Rightarrow> bool" where
  "src_has src off xs \<longleftrightarrow> length src < 2 ^ 62 \<and> off + length xs \<le> length src \<and> take (length xs) (drop off src) = xs"

lemma src_has_append: "src_has src off (xs @ ys) \<longleftrightarrow> src_has src off xs \<and> src_has src (off + length xs) ys"
proof -
  have "take (length (xs @ ys)) (drop off src) = take (length xs) (drop off src) @ take (length ys) (drop (off + length xs) src)"
    by (simp add: take_add add.commute)
  then show ?thesis by (auto simp: src_has_def append_eq_append_conv)
qed

lemma src_has_Cons: "src_has src off (x # xs) \<longleftrightarrow> src_has src off [x] \<and> src_has src (Suc off) xs"
  using src_has_append [of src off "[x]" xs] by simp

lemma src_has_head:
  assumes "src_has src off (t # be_bytes k n @ ys)"
  shows "src_has src off [t]" "src_has src (Suc off) (be_bytes k n)" "src_has src (Suc off + k) ys"
proof -
  have "src_has src (Suc off) (be_bytes k n @ ys)" using assms by (subst (asm) src_has_Cons) blast
  then show "src_has src (Suc off) (be_bytes k n)" "src_has src (Suc off + k) ys" by (simp_all add: src_has_append)
  show "src_has src off [t]" using assms by (subst (asm) src_has_Cons) blast
qed

lemma src_has_read: "src_has src off xs \<Longrightarrow> read_range src off (length xs) = Some xs"
  by (simp add: src_has_def read_range_def)

lemma src_has_self: "length xs < 2 ^ 62 \<Longrightarrow> src_has xs 0 xs"
  by (simp add: src_has_def)

lemma dec_advance_at: "off + n < 2 ^ 64 \<Longrightarrow> dec_advance (dec_at src off) n = dec_at src (off + n)"
  by (simp add: dec_advance_def dec_at_def vlMsgPackIODecoderStart_def u64_of_id)

lemma eof_check_passes:
  "off + n \<le> length src \<Longrightarrow> length src < 2 ^ 62 \<Longrightarrow> VL_DECODE_EOFCHECK (dec_at src off) tk n k = k"
  by (simp add: VL_DECODE_EOFCHECK_def u64_of_id)

lemma dec_read_ok:
  assumes src: "src_has src off (be_bytes k n)" and k: "0 < k" "k \<le> 8" and n: "n < 256 ^ k"
  shows "dec_read (dec_at src off) k = Some (n, dec_at src (off + k))"
proof -
  have "(if k = 1 then Some (be_bytes k n) else VL_FLIP_ENDIAN (be_bytes k n)) = Some (nat_bytes k n)"
  proof (cases "k = 1")
    case True
    then show ?thesis by (simp add: be_bytes_def)
  next
    case False
    have "0 < length (be_bytes k n)" "length (be_bytes k n) < 2 ^ 32" using k by simp_all
    from flip_endian_ok [OF this] show ?thesis using False by (simp add: be_bytes_def)
  qed
  moreover have "read_range src off k = Some (be_bytes k n)" using src_has_read [OF src] by simp
  moreover have "off + k < 2 ^ 64" using src by (simp add: src_has_def)
  ultimately show ?thesis using n by (simp add: dec_read_def bytes_nat_bytes dec_advance_at)
qed

lemma dec_number_ok:
  assumes "src_has src off (be_bytes k n)" and "0 < k" "k \<le> 8" and "n < 256 ^ k" and "e = off + k"
  shows "dec_number ty k val (dec_at src off) tk = Some (True, dec_at src e, \<lparr>tk_type = ty, tk_value = val n\<rparr>)"
proof -
  have "off + k \<le> length src" "length src < 2 ^ 62" using assms(1) by (simp_all add: src_has_def)
  then show ?thesis
    using dec_read_ok [OF assms(1-4)] assms(5) by (cases tk) (simp add: dec_number_def eof_check_passes)
qed

lemma dec_bytes_ok:
  assumes "src_has src off (be_bytes k n @ xs)" and "0 < k" "k \<le> 8" and "n < 256 ^ k" and "n = length xs"
    and "e = p + n" and "p = off + k"
  shows "dec_bytes ty k val (dec_at src off) tk =
    Some (True, dec_at src e, \<lparr>tk_type = ty, tk_value = val p n\<rparr>)"
proof -
  have h: "src_has src off (be_bytes k n)" "src_has src (off + k) xs" using assms(1) by (simp_all add: src_has_append)
  then have "off + k \<le> length src" "off + k + n \<le> length src" "length src < 2 ^ 62" using assms(5) by (simp_all add: src_has_def)
  then show ?thesis
    using dec_read_ok [OF h(1) assms(2-4)] assms(6,7)
    by (cases tk) (simp add: dec_bytes_def eof_check_passes dec_advance_at)
qed

lemma dec_ext_rest_ok:
  assumes "src_has src off (Some t # xs)" and "n = length xs" and "m = n + 1" and "e = p + n" and "p = off + 1"
  shows "dec_ext_rest m n (dec_at src off) (tk\<lparr>tk_type := ty\<rparr>) =
    Some (True, dec_at src e, \<lparr>tk_type = ty, tk_value = Tk_ext t p n\<rparr>)"
proof -
  have h: "src_has src off [Some t]" "src_has src (off + 1) xs" using assms(1) by (simp_all add: src_has_Cons [of _ _ _ xs])
  then have "off + (n + 1) \<le> length src" "length src < 2 ^ 62" using assms(2) by (simp_all add: src_has_def)
  moreover have "read_range src off 1 = Some [Some t]" using src_has_read [OF h(1)] by simp
  moreover have "bytes_nat [Some t] = Some (unat t)" by simp
  ultimately show ?thesis using assms(3-5)
    by (cases tk) (simp add: dec_ext_rest_def eof_check_passes dec_advance_at)
qed

section \<open>Tags\<close>

lemma next_reads_tag:
  assumes "src_has src off [Some tag]"
  shows "read_range src off 1 = Some [Some tag]" "bytes_nat [Some tag] = Some (unat tag)"
    "\<not> u64_of (off + 1) > length src" "dec_advance (dec_at src off) 1 = dec_at src (Suc off)"
proof -
  show "read_range src off 1 = Some [Some tag]" using src_has_read [OF assms] by simp
  show "bytes_nat [Some tag] = Some (unat tag)" by simp
  have "off + 1 \<le> length src" "length src < 2 ^ 62" using assms by (simp_all add: src_has_def)
  then show "\<not> u64_of (off + 1) > length src" "dec_advance (dec_at src off) 1 = dec_at src (Suc off)"
    by (simp_all add: u64_of_id dec_advance_at)
qed

lemma next_fixed:
  assumes "src_has src off [Some tag]" and "tag \<le> 0xBF \<or> tag \<ge> 0xE0"
  shows "vlMsgPackIODecoderNext (dec_at src off) tk = dec_fixed tag (dec_at src (Suc off)) tk"
proof -
  have ext: "(tag \<ge> 0xD4 \<and> tag \<le> 0xD8) = False" using assms(2) by (auto dest: order.trans)
  have ne: "tag \<noteq> c" if "0xBF < c \<and> c < 0xE0" for c using assms(2) that by auto
  have tag_eq: "(of_nat (unat tag) :: u8) = tag" by simp
  have out: "tag \<noteq> 0xC0" "tag \<noteq> 0xC2" "tag \<noteq> 0xC3" "tag \<noteq> 0xC4" "tag \<noteq> 0xC5" "tag \<noteq> 0xC6" "tag \<noteq> 0xC7" "tag \<noteq> 0xC8" "tag \<noteq> 0xC9"
    "tag \<noteq> 0xCA" "tag \<noteq> 0xCB" "tag \<noteq> 0xCC" "tag \<noteq> 0xCD" "tag \<noteq> 0xCE" "tag \<noteq> 0xCF" "tag \<noteq> 0xD0" "tag \<noteq> 0xD1" "tag \<noteq> 0xD2"
    "tag \<noteq> 0xD3" "tag \<noteq> 0xD9" "tag \<noteq> 0xDA" "tag \<noteq> 0xDB" "tag \<noteq> 0xDC" "tag \<noteq> 0xDD" "tag \<noteq> 0xDE" "tag \<noteq> 0xDF"
    by (rule ne, simp)+
  show ?thesis
    unfolding vlMsgPackIODecoderNext_def dec_at_simps if_not_P [OF next_reads_tag(3) [OF assms(1)]]
      next_reads_tag [OF assms(1)] bind.bind_lunit Let_def tag_eq io_tag.simps ext
    by (simp only: out if_False simp_thms)
qed

lemma next_tag:
  assumes "src_has src off [Some (io_tag ty)]"
  shows "vlMsgPackIODecoderNext (dec_at src off) tk =
    (case ty of
       VL_MSGPACK_IO_NIL \<Rightarrow> Some (True, dec_at src (Suc off), tk\<lparr>tk_type := VL_MSGPACK_NIL\<rparr>)
     | VL_MSGPACK_IO_TRUE \<Rightarrow> Some (True, dec_at src (Suc off), \<lparr>tk_type = VL_MSGPACK_BOOL, tk_value = Tk_boolean True\<rparr>)
     | VL_MSGPACK_IO_FALSE \<Rightarrow> Some (True, dec_at src (Suc off), \<lparr>tk_type = VL_MSGPACK_BOOL, tk_value = Tk_boolean False\<rparr>)
     | VL_MSGPACK_IO_BIN8 \<Rightarrow> dec_bytes VL_MSGPACK_BINARY 1 Tk_binary (dec_at src (Suc off)) tk
     | VL_MSGPACK_IO_BIN16 \<Rightarrow> dec_bytes VL_MSGPACK_BINARY 2 Tk_binary (dec_at src (Suc off)) tk
     | VL_MSGPACK_IO_BIN32 \<Rightarrow> dec_bytes VL_MSGPACK_BINARY 4 Tk_binary (dec_at src (Suc off)) tk
     | VL_MSGPACK_IO_EXT8 \<Rightarrow> dec_ext 1 (\<lambda>n. Some (n + 1, n)) (dec_at src (Suc off)) tk
     | VL_MSGPACK_IO_EXT16 \<Rightarrow> dec_ext 2 ext_lens16 (dec_at src (Suc off)) tk
     | VL_MSGPACK_IO_EXT32 \<Rightarrow> dec_ext 4 ext_lens32 (dec_at src (Suc off)) tk
     | VL_MSGPACK_IO_FLOAT32 \<Rightarrow> dec_number VL_MSGPACK_FLOAT32 4 (\<lambda>n. Tk_float32 (of_nat n)) (dec_at src (Suc off)) tk
     | VL_MSGPACK_IO_FLOAT64 \<Rightarrow> dec_number VL_MSGPACK_FLOAT64 8 (\<lambda>n. Tk_float64 (of_nat n)) (dec_at src (Suc off)) tk
     | VL_MSGPACK_IO_UINT8 \<Rightarrow> dec_number VL_MSGPACK_UINT 1 (\<lambda>n. Tk_uinteger (of_nat n)) (dec_at src (Suc off)) tk
     | VL_MSGPACK_IO_UINT16 \<Rightarrow> dec_number VL_MSGPACK_UINT 2 (\<lambda>n. Tk_uinteger (of_nat n)) (dec_at src (Suc off)) tk
     | VL_MSGPACK_IO_UINT32 \<Rightarrow> dec_number VL_MSGPACK_UINT 4 (\<lambda>n. Tk_uinteger (of_nat n)) (dec_at src (Suc off)) tk
     | VL_MSGPACK_IO_UINT64 \<Rightarrow> dec_number VL_MSGPACK_UINT 8 (\<lambda>n. Tk_uinteger (of_nat n)) (dec_at src (Suc off)) tk
     | VL_MSGPACK_IO_INT8 \<Rightarrow> dec_number VL_MSGPACK_INT 1 (\<lambda>n. Tk_integer (scast (of_nat n :: u8))) (dec_at src (Suc off)) tk
     | VL_MSGPACK_IO_INT16 \<Rightarrow> dec_number VL_MSGPACK_INT 2 (\<lambda>n. Tk_integer (scast (of_nat n :: u16))) (dec_at src (Suc off)) tk
     | VL_MSGPACK_IO_INT32 \<Rightarrow> dec_number VL_MSGPACK_INT 4 (\<lambda>n. Tk_integer (scast (of_nat n :: u32))) (dec_at src (Suc off)) tk
     | VL_MSGPACK_IO_INT64 \<Rightarrow> dec_number VL_MSGPACK_INT 8 (\<lambda>n. Tk_integer (of_nat n)) (dec_at src (Suc off)) tk
     | VL_MSGPACK_IO_FIXEXT1 \<Rightarrow> dec_ext_rest 2 1 (dec_at src (Suc off)) (tk\<lparr>tk_type := VL_MSGPACK_EXT\<rparr>)
     | VL_MSGPACK_IO_FIXEXT2 \<Rightarrow> dec_ext_rest 3 2 (dec_at src (Suc off)) (tk\<lparr>tk_type := VL_MSGPACK_EXT\<rparr>)
     | VL_MSGPACK_IO_FIXEXT4 \<Rightarrow> dec_ext_rest 5 4 (dec_at src (Suc off)) (tk\<lparr>tk_type := VL_MSGPACK_EXT\<rparr>)
     | VL_MSGPACK_IO_FIXEXT8 \<Rightarrow> dec_ext_rest 9 8 (dec_at src (Suc off)) (tk\<lparr>tk_type := VL_MSGPACK_EXT\<rparr>)
     | VL_MSGPACK_IO_FIXEXT16 \<Rightarrow> dec_ext_rest 17 16 (dec_at src (Suc off)) (tk\<lparr>tk_type := VL_MSGPACK_EXT\<rparr>)
     | VL_MSGPACK_IO_STR8 \<Rightarrow> dec_bytes VL_MSGPACK_STRING 1 Tk_string (dec_at src (Suc off)) tk
     | VL_MSGPACK_IO_STR16 \<Rightarrow> dec_bytes VL_MSGPACK_STRING 2 Tk_string (dec_at src (Suc off)) tk
     | VL_MSGPACK_IO_STR32 \<Rightarrow> dec_bytes VL_MSGPACK_STRING 4 Tk_string (dec_at src (Suc off)) tk
     | VL_MSGPACK_IO_ARRAY16 \<Rightarrow> dec_number VL_MSGPACK_ARRAY 2 Tk_array (dec_at src (Suc off)) tk
     | VL_MSGPACK_IO_ARRAY32 \<Rightarrow> dec_number VL_MSGPACK_ARRAY 4 Tk_array (dec_at src (Suc off)) tk
     | VL_MSGPACK_IO_MAP16 \<Rightarrow> dec_number VL_MSGPACK_MAP 2 Tk_map (dec_at src (Suc off)) tk
     | VL_MSGPACK_IO_MAP32 \<Rightarrow> dec_number VL_MSGPACK_MAP 4 Tk_map (dec_at src (Suc off)) tk
     | _ \<Rightarrow> dec_fixed (io_tag ty) (dec_at src (Suc off)) tk)"
  unfolding vlMsgPackIODecoderNext_def dec_at_simps if_not_P [OF next_reads_tag(3) [OF assms(1)]]
    next_reads_tag [OF assms(1)] bind.bind_lunit Let_def
  by (cases ty, simp_all) (simp only: numeral_2_eq_2)


section \<open>The heads that the encoder writes\<close>

lemma fixarray_tag:
  assumes "n \<le> 0xF"
  shows "dec_fixed (io_tag VL_MSGPACK_IO_FIXARRAY OR of_nat n) dec tk =
    Some (True, dec, \<lparr>tk_type = VL_MSGPACK_ARRAY, tk_value = Tk_array n\<rparr>)"
    and "(io_tag VL_MSGPACK_IO_FIXARRAY OR of_nat n) \<le> 0xBF"
proof -
  have "\<forall>n \<in> set [0..<16]. let t = (0x90 OR of_nat n :: u8) in
    \<not> t \<le> 0x7F \<and> \<not> 0xE0 \<le> t \<and> \<not> (0x80 \<le> t \<and> t \<le> 0x8F) \<and> 0x90 \<le> t \<and> t \<le> 0x9F \<and> t \<le> 0xBF \<and> unat (t AND 0xF) = n"
    by code_simp
  moreover have "n \<in> set [0..<16]" using assms by simp
  ultimately have t: "let t = (0x90 OR of_nat n :: u8) in
    \<not> t \<le> 0x7F \<and> \<not> 0xE0 \<le> t \<and> \<not> (0x80 \<le> t \<and> t \<le> 0x8F) \<and> 0x90 \<le> t \<and> t \<le> 0x9F \<and> t \<le> 0xBF \<and> unat (t AND 0xF) = n" ..
  then show "dec_fixed (io_tag VL_MSGPACK_IO_FIXARRAY OR of_nat n) dec tk =
      Some (True, dec, \<lparr>tk_type = VL_MSGPACK_ARRAY, tk_value = Tk_array n\<rparr>)"
    by (simp add: dec_fixed_def Let_def)
  show "(io_tag VL_MSGPACK_IO_FIXARRAY OR of_nat n) \<le> 0xBF" using t by (simp add: Let_def)
qed

lemma fixmap_tag:
  assumes "n \<le> 0xF"
  shows "dec_fixed (io_tag VL_MSGPACK_IO_FIXMAP OR of_nat n) dec tk =
    Some (True, dec, \<lparr>tk_type = VL_MSGPACK_MAP, tk_value = Tk_map n\<rparr>)"
    and "(io_tag VL_MSGPACK_IO_FIXMAP OR of_nat n) \<le> 0xBF"
proof -
  have "\<forall>n \<in> set [0..<16]. let t = (0x80 OR of_nat n :: u8) in
    \<not> t \<le> 0x7F \<and> \<not> 0xE0 \<le> t \<and> 0x80 \<le> t \<and> t \<le> 0x8F \<and> t \<le> 0xBF \<and> unat (t AND 0xF) = n"
    by code_simp
  moreover have "n \<in> set [0..<16]" using assms by simp
  ultimately have t: "let t = (0x80 OR of_nat n :: u8) in
    \<not> t \<le> 0x7F \<and> \<not> 0xE0 \<le> t \<and> 0x80 \<le> t \<and> t \<le> 0x8F \<and> t \<le> 0xBF \<and> unat (t AND 0xF) = n" ..
  then show "dec_fixed (io_tag VL_MSGPACK_IO_FIXMAP OR of_nat n) dec tk =
      Some (True, dec, \<lparr>tk_type = VL_MSGPACK_MAP, tk_value = Tk_map n\<rparr>)"
    by (simp add: dec_fixed_def Let_def)
  show "(io_tag VL_MSGPACK_IO_FIXMAP OR of_nat n) \<le> 0xBF" using t by (simp add: Let_def)
qed

lemma fixstr_tag:
  assumes "n \<le> 0x1F"
  shows "dec_fixed (io_tag VL_MSGPACK_IO_FIXSTR OR of_nat n) dec tk =
    (let tk = tk\<lparr>tk_type := VL_MSGPACK_STRING\<rparr>
     in VL_DECODE_EOFCHECK dec tk n (Some (True, dec_advance dec n, tk\<lparr>tk_value := Tk_string (dec_srcOffset dec) n\<rparr>)))"
    and "(io_tag VL_MSGPACK_IO_FIXSTR OR of_nat n) \<le> 0xBF"
proof -
  have "\<forall>n \<in> set [0..<32]. let t = (0xA0 OR of_nat n :: u8) in
    \<not> t \<le> 0x7F \<and> \<not> 0xE0 \<le> t \<and> \<not> (0x80 \<le> t \<and> t \<le> 0x8F) \<and> \<not> (0x90 \<le> t \<and> t \<le> 0x9F) \<and> 0xA0 \<le> t \<and> t \<le> 0xBF \<and>
    unat (t AND 0x1F) = n"
    by code_simp
  moreover have "n \<in> set [0..<32]" using assms by simp
  ultimately have t: "let t = (0xA0 OR of_nat n :: u8) in
    \<not> t \<le> 0x7F \<and> \<not> 0xE0 \<le> t \<and> \<not> (0x80 \<le> t \<and> t \<le> 0x8F) \<and> \<not> (0x90 \<le> t \<and> t \<le> 0x9F) \<and> 0xA0 \<le> t \<and> t \<le> 0xBF \<and>
    unat (t AND 0x1F) = n" ..
  then show "dec_fixed (io_tag VL_MSGPACK_IO_FIXSTR OR of_nat n) dec tk =
      (let tk = tk\<lparr>tk_type := VL_MSGPACK_STRING\<rparr>
       in VL_DECODE_EOFCHECK dec tk n (Some (True, dec_advance dec n, tk\<lparr>tk_value := Tk_string (dec_srcOffset dec) n\<rparr>)))"
    by (auto simp: dec_fixed_def Let_def)
  show "(io_tag VL_MSGPACK_IO_FIXSTR OR of_nat n) \<le> 0xBF" using t by (simp add: Let_def)
qed

lemma be_bytes_1: "be_bytes (Suc 0) n = [Some (of_nat n)]"
  by (simp add: be_bytes_def)

lemma next_array:
  assumes src: "src_has src off (container_head True n)" and n: "n < 2 ^ 32"
  shows "vlMsgPackIODecoderNext (dec_at src off) tk =
    Some (True, dec_at src (off + length (container_head True n)), \<lparr>tk_type = VL_MSGPACK_ARRAY, tk_value = Tk_array n\<rparr>)"
proof -
  consider "n \<le> 0xF" | "\<not> n \<le> 0xF" "n \<le> 0xFFFF" | "\<not> n \<le> 0xF" "\<not> n \<le> 0xFFFF" by blast
  then show ?thesis
  proof cases
    case 1
    then have h: "container_head True n = [Some (io_tag VL_MSGPACK_IO_FIXARRAY OR of_nat n)]" by (simp add: container_head_def)
    show ?thesis
      using next_fixed [OF src [unfolded h]] fixarray_tag [OF 1] unfolding h by simp
  next
    case 2
    then have h: "container_head True n = Some (io_tag VL_MSGPACK_IO_ARRAY16) # be_bytes 2 n" by (simp add: container_head_def)
    have s: "src_has src off [Some (io_tag VL_MSGPACK_IO_ARRAY16)]" "src_has src (Suc off) (be_bytes 2 n)"
      using src unfolding h by (simp_all only: src_has_Cons [of _ _ _ "be_bytes 2 n"])
    show ?thesis unfolding next_tag [OF s(1)] h vl_msgpack_io_type.case by (rule dec_number_ok [OF s(2)]) (use 2 in simp_all)
  next
    case 3
    then have h: "container_head True n = Some (io_tag VL_MSGPACK_IO_ARRAY32) # be_bytes 4 n" by (simp add: container_head_def)
    have s: "src_has src off [Some (io_tag VL_MSGPACK_IO_ARRAY32)]" "src_has src (Suc off) (be_bytes 4 n)"
      using src unfolding h by (simp_all only: src_has_Cons [of _ _ _ "be_bytes 4 n"])
    show ?thesis unfolding next_tag [OF s(1)] h vl_msgpack_io_type.case by (rule dec_number_ok [OF s(2)]) (use n in simp_all)
  qed
qed

lemma next_map:
  assumes src: "src_has src off (container_head False n)" and n: "n < 2 ^ 32"
  shows "vlMsgPackIODecoderNext (dec_at src off) tk =
    Some (True, dec_at src (off + length (container_head False n)), \<lparr>tk_type = VL_MSGPACK_MAP, tk_value = Tk_map n\<rparr>)"
proof -
  consider "n \<le> 0xF" | "\<not> n \<le> 0xF" "n \<le> 0xFFFF" | "\<not> n \<le> 0xF" "\<not> n \<le> 0xFFFF" by blast
  then show ?thesis
  proof cases
    case 1
    then have h: "container_head False n = [Some (io_tag VL_MSGPACK_IO_FIXMAP OR of_nat n)]" by (simp add: container_head_def)
    show ?thesis
      using next_fixed [OF src [unfolded h]] fixmap_tag [OF 1] unfolding h by simp
  next
    case 2
    then have h: "container_head False n = Some (io_tag VL_MSGPACK_IO_MAP16) # be_bytes 2 n" by (simp add: container_head_def)
    have s: "src_has src off [Some (io_tag VL_MSGPACK_IO_MAP16)]" "src_has src (Suc off) (be_bytes 2 n)"
      using src unfolding h by (simp_all only: src_has_Cons [of _ _ _ "be_bytes 2 n"])
    show ?thesis unfolding next_tag [OF s(1)] h vl_msgpack_io_type.case by (rule dec_number_ok [OF s(2)]) (use 2 in simp_all)
  next
    case 3
    then have h: "container_head False n = Some (io_tag VL_MSGPACK_IO_MAP32) # be_bytes 4 n" by (simp add: container_head_def)
    have s: "src_has src off [Some (io_tag VL_MSGPACK_IO_MAP32)]" "src_has src (Suc off) (be_bytes 4 n)"
      using src unfolding h by (simp_all only: src_has_Cons [of _ _ _ "be_bytes 4 n"])
    show ?thesis unfolding next_tag [OF s(1)] h vl_msgpack_io_type.case by (rule dec_number_ok [OF s(2)]) (use n in simp_all)
  qed
qed


lemma next_string:
  assumes src: "src_has src off (str_head (length xs) @ xs)" and n: "length xs < 2 ^ 32"
  shows "vlMsgPackIODecoderNext (dec_at src off) tk =
    Some (True, dec_at src (off + length (str_head (length xs)) + length xs),
      \<lparr>tk_type = VL_MSGPACK_STRING, tk_value = Tk_string (off + length (str_head (length xs))) (length xs)\<rparr>)"
proof -
  let ?n = "length xs"
  consider "?n \<le> 0x1F" | "\<not> ?n \<le> 0x1F" "?n \<le> 0xFF" | "\<not> ?n \<le> 0x1F" "\<not> ?n \<le> 0xFF" "?n \<le> 0xFFFF"
    | "\<not> ?n \<le> 0x1F" "\<not> ?n \<le> 0xFF" "\<not> ?n \<le> 0xFFFF" by blast
  then show ?thesis
  proof cases
    case 1
    then have h: "str_head ?n = [Some (io_tag VL_MSGPACK_IO_FIXSTR OR of_nat ?n)]" by (simp add: str_head_def)
    have s: "src_has src off [Some (io_tag VL_MSGPACK_IO_FIXSTR OR of_nat ?n)]" "src_has src (Suc off) xs"
      using src unfolding h src_has_append by simp_all
    then have b: "Suc off + ?n \<le> length src" "length src < 2 ^ 62" by (simp_all add: src_has_def)
    show ?thesis
      unfolding next_fixed [OF s(1) disjI1 [OF fixstr_tag(2) [OF 1]]] fixstr_tag(1) [OF 1] h
      using eof_check_passes [OF b] b by (cases tk) (simp add: dec_advance_at)
  next
    case 2
    then have h: "str_head ?n = Some (io_tag VL_MSGPACK_IO_STR8) # be_bytes 1 ?n" by (simp add: str_head_def be_bytes_1)
    have s: "src_has src off [Some (io_tag VL_MSGPACK_IO_STR8)]" "src_has src (Suc off) (be_bytes 1 ?n @ xs)"
      using src unfolding h append_Cons by (simp_all only: src_has_Cons [of _ _ _ "be_bytes 1 ?n @ xs"])
    show ?thesis unfolding next_tag [OF s(1)] h vl_msgpack_io_type.case by (rule dec_bytes_ok [OF s(2)]) (use 2 in simp_all)
  next
    case 3
    then have h: "str_head ?n = Some (io_tag VL_MSGPACK_IO_STR16) # be_bytes 2 ?n" by (simp add: str_head_def)
    have s: "src_has src off [Some (io_tag VL_MSGPACK_IO_STR16)]" "src_has src (Suc off) (be_bytes 2 ?n @ xs)"
      using src unfolding h append_Cons by (simp_all only: src_has_Cons [of _ _ _ "be_bytes 2 ?n @ xs"])
    show ?thesis unfolding next_tag [OF s(1)] h vl_msgpack_io_type.case by (rule dec_bytes_ok [OF s(2)]) (use 3 in simp_all)
  next
    case 4
    then have h: "str_head ?n = Some (io_tag VL_MSGPACK_IO_STR32) # be_bytes 4 ?n" by (simp add: str_head_def)
    have s: "src_has src off [Some (io_tag VL_MSGPACK_IO_STR32)]" "src_has src (Suc off) (be_bytes 4 ?n @ xs)"
      using src unfolding h append_Cons by (simp_all only: src_has_Cons [of _ _ _ "be_bytes 4 ?n @ xs"])
    show ?thesis unfolding next_tag [OF s(1)] h vl_msgpack_io_type.case by (rule dec_bytes_ok [OF s(2)]) (use n in simp_all)
  qed
qed

lemma next_binary:
  assumes src: "src_has src off (bin_head (length xs) @ xs)" and n: "length xs < 2 ^ 32"
  shows "vlMsgPackIODecoderNext (dec_at src off) tk =
    Some (True, dec_at src (off + length (bin_head (length xs)) + length xs),
      \<lparr>tk_type = VL_MSGPACK_BINARY, tk_value = Tk_binary (off + length (bin_head (length xs))) (length xs)\<rparr>)"
proof -
  let ?n = "length xs"
  consider "?n \<le> 0xFF" | "\<not> ?n \<le> 0xFF" "?n \<le> 0xFFFF" | "\<not> ?n \<le> 0xFF" "\<not> ?n \<le> 0xFFFF" by blast
  then show ?thesis
  proof cases
    case 1
    then have h: "bin_head ?n = Some (io_tag VL_MSGPACK_IO_BIN8) # be_bytes 1 ?n" by (simp add: bin_head_def be_bytes_1)
    have s: "src_has src off [Some (io_tag VL_MSGPACK_IO_BIN8)]" "src_has src (Suc off) (be_bytes 1 ?n @ xs)"
      using src unfolding h append_Cons by (simp_all only: src_has_Cons [of _ _ _ "be_bytes 1 ?n @ xs"])
    show ?thesis unfolding next_tag [OF s(1)] h vl_msgpack_io_type.case by (rule dec_bytes_ok [OF s(2)]) (use 1 in simp_all)
  next
    case 2
    then have h: "bin_head ?n = Some (io_tag VL_MSGPACK_IO_BIN16) # be_bytes 2 ?n" by (simp add: bin_head_def)
    have s: "src_has src off [Some (io_tag VL_MSGPACK_IO_BIN16)]" "src_has src (Suc off) (be_bytes 2 ?n @ xs)"
      using src unfolding h append_Cons by (simp_all only: src_has_Cons [of _ _ _ "be_bytes 2 ?n @ xs"])
    show ?thesis unfolding next_tag [OF s(1)] h vl_msgpack_io_type.case by (rule dec_bytes_ok [OF s(2)]) (use 2 in simp_all)
  next
    case 3
    then have h: "bin_head ?n = Some (io_tag VL_MSGPACK_IO_BIN32) # be_bytes 4 ?n" by (simp add: bin_head_def)
    have s: "src_has src off [Some (io_tag VL_MSGPACK_IO_BIN32)]" "src_has src (Suc off) (be_bytes 4 ?n @ xs)"
      using src unfolding h append_Cons by (simp_all only: src_has_Cons [of _ _ _ "be_bytes 4 ?n @ xs"])
    show ?thesis unfolding next_tag [OF s(1)] h vl_msgpack_io_type.case by (rule dec_bytes_ok [OF s(2)]) (use n in simp_all)
  qed
qed

text \<open>Extensions whose length is kept by the padding, and is not read as a negative number.\<close>

lemma next_ext:
  assumes src: "src_has src off (ext_head (length xs) @ Some t # ext_body xs)"
    and n: "length xs \<in> {1, 2, 4, 8, 16} \<or> 16 < length xs \<and> length xs < 0x8000"
  shows "vlMsgPackIODecoderNext (dec_at src off) tk =
    Some (True, dec_at src (off + length (ext_head (length xs)) + 1 + length xs),
      \<lparr>tk_type = VL_MSGPACK_EXT, tk_value = Tk_ext t (off + length (ext_head (length xs)) + 1) (length xs)\<rparr>)"
    and "ext_body xs = xs"
proof -
  let ?n = "length xs"
  show body: "ext_body xs = xs" using n by (auto simp: ext_body_def fixext_size_def)
  let ?ty = "snd (fixext_size ?n)"
  have fix_head: "ext_head ?n = [Some (io_tag ?ty)]"
    "(?ty, ?n) \<in> {(VL_MSGPACK_IO_FIXEXT1, 1), (VL_MSGPACK_IO_FIXEXT2, 2), (VL_MSGPACK_IO_FIXEXT4, 4), (VL_MSGPACK_IO_FIXEXT8, 8), (VL_MSGPACK_IO_FIXEXT16, 16)}"
    if "?n \<le> 16" using that n by (auto simp: ext_head_def fixext_size_def)
  consider (fixed) "?n \<le> 16" | (e8) "\<not> ?n \<le> 16" "?n \<le> 0xFF" | (e16) "\<not> ?n \<le> 16" "\<not> ?n \<le> 0xFF" by blast
  then show "vlMsgPackIODecoderNext (dec_at src off) tk =
    Some (True, dec_at src (off + length (ext_head ?n) + 1 + ?n),
      \<lparr>tk_type = VL_MSGPACK_EXT, tk_value = Tk_ext t (off + length (ext_head ?n) + 1) ?n\<rparr>)"
  proof cases
    case fixed
    note f = fix_head [OF fixed]
    have s: "src_has src off [Some (io_tag ?ty)]" "src_has src (Suc off) (Some t # xs)"
      using src unfolding f(1) body append_Cons append_Nil by (simp_all only: src_has_Cons [of _ _ _ "Some t # xs"])
    have "vlMsgPackIODecoderNext (dec_at src off) tk = dec_ext_rest (?n + 1) ?n (dec_at src (Suc off)) (tk\<lparr>tk_type := VL_MSGPACK_EXT\<rparr>)"
      unfolding next_tag [OF s(1)] using f(2) by (auto simp flip: numeral_2_eq_2)
    also have "\<dots> = Some (True, dec_at src (off + 1 + 1 + ?n), \<lparr>tk_type = VL_MSGPACK_EXT, tk_value = Tk_ext t (off + 1 + 1) ?n\<rparr>)"
      by (rule dec_ext_rest_ok [OF s(2)]) simp_all
    finally show ?thesis unfolding f(1) by simp
  next
    case e8
    then have h: "ext_head ?n = Some (io_tag VL_MSGPACK_IO_EXT8) # be_bytes 1 ?n" by (simp add: ext_head_def be_bytes_1)
    have s: "src_has src off [Some (io_tag VL_MSGPACK_IO_EXT8)]" "src_has src (Suc off) (be_bytes 1 ?n)" "src_has src (Suc off + 1) (Some t # xs)"
      using src_has_head [OF src [unfolded h body append_Cons]] by simp_all
    have b: "Suc off + 1 \<le> length src" "length src < 2 ^ 62" using s(2) by (simp_all add: src_has_def)
    have r: "dec_read (dec_at src (Suc off)) 1 = Some (?n, dec_at src (Suc off + 1))" by (rule dec_read_ok [OF s(2)]) (use e8 in simp_all)
    show ?thesis
      unfolding next_tag [OF s(1)] vl_msgpack_io_type.case dec_ext_def Let_def eof_check_passes [OF b] r bind.bind_lunit prod.case h
      by (rule dec_ext_rest_ok [OF s(3)]) simp_all
  next
    case e16
    then have h: "ext_head ?n = Some (io_tag VL_MSGPACK_IO_EXT16) # be_bytes 2 ?n" using n by (auto simp: ext_head_def)
    have s: "src_has src off [Some (io_tag VL_MSGPACK_IO_EXT16)]" "src_has src (Suc off) (be_bytes 2 ?n)" "src_has src (Suc off + 2) (Some t # xs)"
      using src_has_head [OF src [unfolded h body append_Cons]] by simp_all
    have b: "Suc off + 2 \<le> length src" "length src < 2 ^ 62" using s(2) by (simp_all add: src_has_def)
    have lt: "?n < 0x8000" using n by auto
    have r: "dec_read (dec_at src (Suc off)) 2 = Some (?n, dec_at src (Suc off + 2))" by (rule dec_read_ok [OF s(2)]) (use lt in simp_all)
    have "sint (of_nat ?n :: u16) = int ?n" using lt by (simp add: signed_of_nat signed_take_bit_int_eq_self)
    then have l: "ext_lens16 ?n = Some (?n + 1, ?n)" using lt by (simp add: ext_lens16_def nat_add_distrib)
    show ?thesis
      unfolding next_tag [OF s(1)] vl_msgpack_io_type.case dec_ext_def Let_def eof_check_passes [OF b] r bind.bind_lunit prod.case l h
      by (rule dec_ext_rest_ok [OF s(3)]) simp_all
  qed
qed


lemma scast_ucast_small:
  assumes "- (2 ^ (LENGTH('a) - 1)) \<le> sint v" "sint v < 2 ^ (LENGTH('a) - 1)" "LENGTH('a) \<le> 64"
  shows "scast (ucast v :: 'a::len word) = (v :: u64)"
proof -
  have "sint (ucast v :: 'a word) = signed_take_bit (LENGTH('a) - 1) (uint v)" using assms(3) by (simp add: signed_ucast_eq)
  also have "\<dots> = signed_take_bit (LENGTH('a) - 1) (sint v)"
  proof -
    have m: "min (LENGTH('a) - Suc 0) 63 = LENGTH('a) - Suc 0" using assms(3) by simp
    show ?thesis by (simp add: sint_uint m)
  qed
  also have "\<dots> = sint v" using assms(1,2) by (simp add: signed_take_bit_int_eq_self)
  finally show ?thesis by (simp add: scast_eq)
qed

lemma fixint_tag:
  assumes "-31 \<le> sint (v :: u64)" and "sint v \<le> 127"
  shows "dec_fixed (ucast v) dec tk = Some (True, dec, \<lparr>tk_type = VL_MSGPACK_INT, tk_value = Tk_integer v\<rparr>)"
    and "(ucast v :: u8) \<le> 0xBF \<or> (ucast v :: u8) \<ge> 0xE0"
proof -
  have all: "\<forall>i \<in> set [-31..127]. let v = (word_of_int i :: u64); t = (ucast v :: u8) in
    if 0 \<le> i then t \<le> 0x7F \<and> t \<le> 0xBF \<and> ucast (t AND 0x7F) = v else 0xE0 \<le> t \<and> \<not> t \<le> 0x7F \<and> scast t = v"
    by code_simp
  have mem: "sint v \<in> set [-31..127]" unfolding set_upto atLeastAtMost_iff using assms by blast
  have w: "(word_of_int (sint v) :: u64) = v" by simp
  have t: "if 0 \<le> sint v then (ucast v :: u8) \<le> 0x7F \<and> (ucast v :: u8) \<le> 0xBF \<and> ucast ((ucast v :: u8) AND 0x7F) = v
    else 0xE0 \<le> (ucast v :: u8) \<and> \<not> (ucast v :: u8) \<le> 0x7F \<and> scast (ucast v :: u8) = v"
    using bspec [OF all mem] unfolding Let_def w .
  show "dec_fixed (ucast v) dec tk = Some (True, dec, \<lparr>tk_type = VL_MSGPACK_INT, tk_value = Tk_integer v\<rparr>)"
    using t by (cases "0 \<le> sint v") (simp_all add: dec_fixed_def)
  show "(ucast v :: u8) \<le> 0xBF \<or> (ucast v :: u8) \<ge> 0xE0" using t by presburger
qed

lemma unat_lt_256_pow: "unat (x :: u8) < 256 ^ 1" "unat (y :: u16) < 256 ^ 2" "unat (z :: u32) < 256 ^ 4" "unat (w :: u64) < 256 ^ 8"
  using unsigned_less [of x, where ?'a = nat] unsigned_less [of y, where ?'a = nat]
    unsigned_less [of z, where ?'a = nat] unsigned_less [of w, where ?'a = nat] by simp_all

lemma next_int:
  assumes src: "src_has src off (int_bytes v)"
  shows "vlMsgPackIODecoderNext (dec_at src off) tk =
    Some (True, dec_at src (off + length (int_bytes v)), \<lparr>tk_type = VL_MSGPACK_INT, tk_value = Tk_integer v\<rparr>)"
proof -
  have number: "dec_number VL_MSGPACK_INT k val (dec_at src (Suc off)) tk =
      Some (True, dec_at src (off + length (int_bytes v)), \<lparr>tk_type = VL_MSGPACK_INT, tk_value = Tk_integer v\<rparr>)"
    if "int_bytes v = t # be_bytes k n" "0 < k" "k \<le> 8" "n < 256 ^ k" "val n = Tk_integer v" for t k n val
    unfolding that(5) [symmetric]
    by (rule dec_number_ok [OF src_has_head(2) [of src off t k n "[]"]]) (use src that in simp_all)
  have tag: "src_has src off [t]" if "int_bytes v = t # xs" for t xs using src unfolding that by (subst (asm) src_has_Cons) blast
  consider "-0x1F \<le> sint v \<and> sint v \<le> 0x7F"
    | "\<not> (-0x1F \<le> sint v \<and> sint v \<le> 0x7F)" "-0x7F \<le> sint v \<and> sint v \<le> 0x7F"
    | "\<not> (-0x7F \<le> sint v \<and> sint v \<le> 0x7F)" "-0x7FFF \<le> sint v \<and> sint v \<le> 0x7FFF"
    | "\<not> (-0x7FFF \<le> sint v \<and> sint v \<le> 0x7FFF)" "-0x7FFFFFFF \<le> sint v \<and> sint v \<le> 0x7FFFFFFF"
    | "\<not> (-0x7FFFFFFF \<le> sint v \<and> sint v \<le> 0x7FFFFFFF)" by blast
  then show ?thesis
  proof cases
    case 1
    then have b: "int_bytes v = [Some (ucast v)]" by (simp add: int_bytes_def)
    have r: "-31 \<le> sint v" "sint v \<le> 127" using 1 by simp_all
    show ?thesis unfolding next_fixed [OF tag [OF b] fixint_tag(2) [OF r]] fixint_tag(1) [OF r] b by simp
  next
    case 2
    then have b: "int_bytes v = Some (io_tag VL_MSGPACK_IO_INT8) # be_bytes 1 (unat (ucast v :: u8))"
      by (auto simp: int_bytes_def be_bytes_1)
    show ?thesis unfolding next_tag [OF tag [OF b]] vl_msgpack_io_type.case
      by (rule number [OF b]) (use 2 unat_lt_256_pow in \<open>simp_all add: scast_ucast_small\<close>)
  next
    case 3
    then have b: "int_bytes v = Some (io_tag VL_MSGPACK_IO_INT16) # be_bytes 2 (unat (ucast v :: u16))"
      by (auto simp: int_bytes_def)
    show ?thesis unfolding next_tag [OF tag [OF b]] vl_msgpack_io_type.case
      by (rule number [OF b]) (use 3 unat_lt_256_pow in \<open>simp_all add: scast_ucast_small\<close>)
  next
    case 4
    then have b: "int_bytes v = Some (io_tag VL_MSGPACK_IO_INT32) # be_bytes 4 (unat (ucast v :: u32))"
      by (auto simp: int_bytes_def)
    show ?thesis unfolding next_tag [OF tag [OF b]] vl_msgpack_io_type.case
      by (rule number [OF b]) (use 4 unat_lt_256_pow in \<open>simp_all add: scast_ucast_small\<close>)
  next
    case 5
    then have b: "int_bytes v = Some (io_tag VL_MSGPACK_IO_INT64) # be_bytes 8 (unat v)"
      by (auto simp: int_bytes_def)
    show ?thesis unfolding next_tag [OF tag [OF b]] vl_msgpack_io_type.case
      by (rule number [OF b]) (use unat_lt_256_pow in simp_all)
  qed
qed

lemma ucast_ucast_small:
  assumes "unat v < 2 ^ LENGTH('a)" and "LENGTH('a) \<le> 64"
  shows "ucast (ucast v :: 'a::len word) = (v :: u64)"
proof -
  have "unat (ucast (ucast v :: 'a word) :: u64) = unat v"
    using assms unsigned_less [of v, where ?'a = nat]
    by (simp add: unsigned_ucast_eq unsigned_take_bit_eq take_bit_nat_eq_self)
  then show ?thesis by (simp only: word_unat_eq_iff)
qed

lemma next_uint:
  assumes src: "src_has src off (uint_bytes v)"
  shows "vlMsgPackIODecoderNext (dec_at src off) tk =
    Some (True, dec_at src (off + length (uint_bytes v)), \<lparr>tk_type = VL_MSGPACK_UINT, tk_value = Tk_uinteger v\<rparr>)"
proof -
  have number: "dec_number VL_MSGPACK_UINT k val (dec_at src (Suc off)) tk =
      Some (True, dec_at src (off + length (uint_bytes v)), \<lparr>tk_type = VL_MSGPACK_UINT, tk_value = Tk_uinteger v\<rparr>)"
    if "uint_bytes v = t # be_bytes k n" "0 < k" "k \<le> 8" "n < 256 ^ k" "val n = Tk_uinteger v" for t k n val
    unfolding that(5) [symmetric]
    by (rule dec_number_ok [OF src_has_head(2) [of src off t k n "[]"]]) (use src that in simp_all)
  have tag: "src_has src off [t]" if "uint_bytes v = t # xs" for t xs using src unfolding that by (subst (asm) src_has_Cons) blast
  consider "v \<le> 0xFF" | "\<not> v \<le> 0xFF" "v \<le> 0xFFFF" | "\<not> v \<le> 0xFF" "\<not> v \<le> 0xFFFF" "v \<le> 0xFFFFFFFF"
    | "\<not> v \<le> 0xFF" "\<not> v \<le> 0xFFFF" "\<not> v \<le> 0xFFFFFFFF" by blast
  then show ?thesis
  proof cases
    case 1
    then have b: "uint_bytes v = Some (io_tag VL_MSGPACK_IO_UINT8) # be_bytes 1 (unat (ucast v :: u8))"
      by (simp add: uint_bytes_def be_bytes_1)
    have "(ucast (ucast v :: u8) :: u64) = v" using 1 by (intro ucast_ucast_small) (simp_all add: word_le_nat_alt)
    then show ?thesis unfolding next_tag [OF tag [OF b]] vl_msgpack_io_type.case
      by (intro number [OF b]) (use unat_lt_256_pow in simp_all)
  next
    case 2
    then have b: "uint_bytes v = Some (io_tag VL_MSGPACK_IO_UINT16) # be_bytes 2 (unat (ucast v :: u16))"
      by (simp add: uint_bytes_def)
    have "(ucast (ucast v :: u16) :: u64) = v" using 2 by (intro ucast_ucast_small) (simp_all add: word_le_nat_alt)
    then show ?thesis unfolding next_tag [OF tag [OF b]] vl_msgpack_io_type.case
      by (intro number [OF b]) (use unat_lt_256_pow in simp_all)
  next
    case 3
    then have b: "uint_bytes v = Some (io_tag VL_MSGPACK_IO_UINT32) # be_bytes 4 (unat (ucast v :: u32))"
      by (simp add: uint_bytes_def)
    have "(ucast (ucast v :: u32) :: u64) = v" using 3 by (intro ucast_ucast_small) (simp_all add: word_le_nat_alt)
    then show ?thesis unfolding next_tag [OF tag [OF b]] vl_msgpack_io_type.case
      by (intro number [OF b]) (use unat_lt_256_pow in simp_all)
  next
    case 4
    then have b: "uint_bytes v = Some (io_tag VL_MSGPACK_IO_UINT64) # be_bytes 8 (unat v)" by (simp add: uint_bytes_def)
    show ?thesis unfolding next_tag [OF tag [OF b]] vl_msgpack_io_type.case
      by (rule number [OF b]) (use unat_lt_256_pow in simp_all)
  qed
qed

lemma next_float32:
  assumes "src_has src off (Some (io_tag VL_MSGPACK_IO_FLOAT32) # be_bytes 4 (unat x))"
  shows "vlMsgPackIODecoderNext (dec_at src off) tk = Some (True, dec_at src (off + 5), \<lparr>tk_type = VL_MSGPACK_FLOAT32, tk_value = Tk_float32 x\<rparr>)"
proof -
  have "src_has src off (Some (io_tag VL_MSGPACK_IO_FLOAT32) # be_bytes 4 (unat x) @ [])" using assms by simp
  note s = src_has_head [OF this]
  have "dec_number VL_MSGPACK_FLOAT32 4 (\<lambda>n. Tk_float32 (of_nat n)) (dec_at src (Suc off)) tk =
      Some (True, dec_at src (off + 5), \<lparr>tk_type = VL_MSGPACK_FLOAT32, tk_value = Tk_float32 (of_nat (unat x))\<rparr>)"
    by (rule dec_number_ok [OF s(2)]) (use unat_lt_256_pow(3) [of x] in simp_all)
  then show ?thesis unfolding next_tag [OF s(1)] by simp
qed

lemma next_float64:
  assumes "src_has src off (Some (io_tag VL_MSGPACK_IO_FLOAT64) # be_bytes 8 (unat x))"
  shows "vlMsgPackIODecoderNext (dec_at src off) tk = Some (True, dec_at src (off + 9), \<lparr>tk_type = VL_MSGPACK_FLOAT64, tk_value = Tk_float64 x\<rparr>)"
proof -
  have "src_has src off (Some (io_tag VL_MSGPACK_IO_FLOAT64) # be_bytes 8 (unat x) @ [])" using assms by simp
  note s = src_has_head [OF this]
  have "dec_number VL_MSGPACK_FLOAT64 8 (\<lambda>n. Tk_float64 (of_nat n)) (dec_at src (Suc off)) tk =
      Some (True, dec_at src (off + 9), \<lparr>tk_type = VL_MSGPACK_FLOAT64, tk_value = Tk_float64 (of_nat (unat x))\<rparr>)"
    by (rule dec_number_ok [OF s(2)]) (use unat_lt_256_pow(4) [of x] in simp_all)
  then show ?thesis unfolding next_tag [OF s(1)] by simp
qed


section \<open>Reading a value back\<close>

text \<open>
  A client that reads a value token by token, with the order of the calls and the checks of
  \<^verbatim>\<open>vlMsgPackIODecodeToDOM\<close>; the token it passes first is \<open>tk0\<close>, \<^const>\<open>None\<close> inside the result is a failure.
\<close>

fun decode_mp :: "vl_msgpack_io_token \<Rightarrow> nat \<Rightarrow> vl_msgpack_decoder \<Rightarrow> (vl_msgpack_decoder \<times> mp option) option"
  and decode_all :: "vl_msgpack_io_token \<Rightarrow> nat \<Rightarrow> nat \<Rightarrow> vl_msgpack_decoder \<Rightarrow> (vl_msgpack_decoder \<times> mp list option) option"
  and decode_pairs :: "vl_msgpack_io_token \<Rightarrow> nat \<Rightarrow> nat \<Rightarrow> vl_msgpack_decoder \<Rightarrow>
    (vl_msgpack_decoder \<times> (byte list \<times> mp) list option) option" where
  "decode_mp tk0 0 dec = None"
| "decode_mp tk0 (Suc fuel) dec =
     do {
       (ok, dec, tk) \<leftarrow> vlMsgPackIODecoderNext dec tk0;
       if \<not> ok then Some (dec, None)
       else (case (tk_type tk, tk_value tk) of
           (VL_MSGPACK_ARRAY, Tk_array n) \<Rightarrow> do { (dec, vs) \<leftarrow> decode_all tk0 fuel n dec; Some (dec, map_option MArr vs) }
         | (VL_MSGPACK_MAP, Tk_map n) \<Rightarrow> do { (dec, kvs) \<leftarrow> decode_pairs tk0 fuel n dec; Some (dec, map_option MMap kvs) }
         | (VL_MSGPACK_NIL, _) \<Rightarrow> Some (dec, Some MNil)
         | (VL_MSGPACK_BOOL, Tk_boolean b) \<Rightarrow> Some (dec, Some (MBool b))
         | (VL_MSGPACK_INT, Tk_integer v) \<Rightarrow> Some (dec, Some (MInt v))
         | (VL_MSGPACK_UINT, Tk_uinteger v) \<Rightarrow> Some (dec, Some (MUInt v))
         | (VL_MSGPACK_FLOAT32, Tk_float32 x) \<Rightarrow> Some (dec, Some (MFloat32 x))
         | (VL_MSGPACK_FLOAT64, Tk_float64 x) \<Rightarrow> Some (dec, Some (MFloat64 x))
         | (VL_MSGPACK_STRING, Tk_string p n) \<Rightarrow> do { xs \<leftarrow> read_range (dec_srcMem dec) p n; Some (dec, Some (MStr xs)) }
         | (VL_MSGPACK_BINARY, Tk_binary p n) \<Rightarrow> do { xs \<leftarrow> read_range (dec_srcMem dec) p n; Some (dec, Some (MBin xs)) }
         | (VL_MSGPACK_EXT, Tk_ext t p n) \<Rightarrow> do { xs \<leftarrow> read_range (dec_srcMem dec) p n; Some (dec, Some (MExt t xs)) }
         | _ \<Rightarrow> None)
     }"
| "decode_all tk0 fuel 0 dec = Some (dec, Some [])"
| "decode_all tk0 fuel (Suc n) dec =
     do {
       (dec, v) \<leftarrow> decode_mp tk0 fuel dec;
       (case v of
          None \<Rightarrow> Some (dec, None)
        | Some v \<Rightarrow> do { (dec, vs) \<leftarrow> decode_all tk0 fuel n dec; Some (dec, map_option ((#) v) vs) })
     }"
| "decode_pairs tk0 fuel 0 dec = Some (dec, Some [])"
| "decode_pairs tk0 fuel (Suc n) dec =
     do {
       (ok, dec, tk) \<leftarrow> vlMsgPackIODecoderNext dec tk0;
       if \<not> ok then
         Some (dec\<lparr>dec_error := VL_MSGPACK_IO_ERR_UNEXPECTED_EOF, dec_errorOffset := dec_srcOffset dec\<rparr>, None)
       else (case (tk_type tk, tk_value tk) of
           (VL_MSGPACK_STRING, Tk_string p m) \<Rightarrow>
             do {
               k \<leftarrow> read_range (dec_srcMem dec) p m;
               (dec, v) \<leftarrow> decode_mp tk0 fuel dec;
               (case v of
                  None \<Rightarrow> Some (dec, None)
                | Some v \<Rightarrow> do { (dec, kvs) \<leftarrow> decode_pairs tk0 fuel n dec; Some (dec, map_option ((#) (k, v)) kvs) })
             }
         | _ \<Rightarrow> Some (dec\<lparr>dec_error := VL_MSGPACK_IO_ERR_UNEXPECTED_TOKEN, dec_errorOffset := dec_srcOffset dec\<rparr>, None))
     }"

text \<open>Values that the format keeps as they are: extensions of 1, 2, 4, 8 or 16 bytes, or of 17 to 32767.\<close>

fun mp_exact :: "mp \<Rightarrow> bool" where
  "mp_exact (MExt t xs) \<longleftrightarrow> length xs \<in> {1, 2, 4, 8, 16} \<or> 16 < length xs \<and> length xs < 0x8000"
| "mp_exact (MArr vs) \<longleftrightarrow> (\<forall>v \<in> set vs. mp_exact v)"
| "mp_exact (MMap kvs) \<longleftrightarrow> (\<forall>(k, v) \<in> set kvs. mp_exact v)"
| "mp_exact v \<longleftrightarrow> True"

definition reads_back :: "mp \<Rightarrow> bool" where
  "reads_back v \<longleftrightarrow>
     (\<forall>src off tk0 fuel. src_has src off (mp_bytes v) \<longrightarrow> mp_depth v < fuel \<longrightarrow>
        decode_mp tk0 fuel (dec_at src off) = Some (dec_at src (off + length (mp_bytes v)), Some v))"

lemma reads_backD:
  "reads_back v \<Longrightarrow> src_has src off (mp_bytes v) \<Longrightarrow> mp_depth v < fuel \<Longrightarrow>
   decode_mp tk0 fuel (dec_at src off) = Some (dec_at src (off + length (mp_bytes v)), Some v)"
  by (simp add: reads_back_def)

lemma decode_all_ok:
  assumes "\<And>v. v \<in> set vs \<Longrightarrow> reads_back v" and "\<And>v. v \<in> set vs \<Longrightarrow> mp_depth v < fuel"
    and "src_has src off (concat (map mp_bytes vs))"
  shows "decode_all tk0 fuel (length vs) (dec_at src off) =
    Some (dec_at src (off + length (concat (map mp_bytes vs))), Some vs)"
  using assms
proof (induction vs arbitrary: off)
  case (Cons v vs)
  have s: "src_has src off (mp_bytes v)" "src_has src (off + length (mp_bytes v)) (concat (map mp_bytes vs))"
    using Cons.prems(3) by (simp_all add: src_has_append)
  have "decode_mp tk0 fuel (dec_at src off) = Some (dec_at src (off + length (mp_bytes v)), Some v)"
    by (rule reads_backD) (use Cons.prems s in auto)
  moreover have "decode_all tk0 fuel (length vs) (dec_at src (off + length (mp_bytes v))) =
    Some (dec_at src (off + length (mp_bytes v) + length (concat (map mp_bytes vs))), Some vs)"
    by (rule Cons.IH) (use Cons.prems s in auto)
  ultimately show ?case by (simp add: add.assoc)
qed simp

lemma decode_pairs_ok:
  assumes "\<And>k v. (k, v) \<in> set kvs \<Longrightarrow> reads_back v" and "\<And>k v. (k, v) \<in> set kvs \<Longrightarrow> mp_depth v < fuel"
    and "\<And>k v. (k, v) \<in> set kvs \<Longrightarrow> length k < 2 ^ 32"
    and "src_has src off (concat (map (\<lambda>(k, v). str_head (length k) @ k @ mp_bytes v) kvs))"
  shows "decode_pairs tk0 fuel (length kvs) (dec_at src off) =
    Some (dec_at src (off + length (concat (map (\<lambda>(k, v). str_head (length k) @ k @ mp_bytes v) kvs))), Some kvs)"
  using assms
proof (induction kvs arbitrary: off)
  case (Cons kv kvs)
  obtain k v where kv: "kv = (k, v)" by (rule prod.exhaust)
  let ?h = "length (str_head (length k))"
  have s: "src_has src off (str_head (length k) @ k)" "src_has src (off + ?h) k" "src_has src (off + ?h + length k) (mp_bytes v)"
    "src_has src (off + ?h + length k + length (mp_bytes v)) (concat (map (\<lambda>(k, v). str_head (length k) @ k @ mp_bytes v) kvs))"
    using Cons.prems(4) by (simp_all add: src_has_append kv)
  have lk: "length k < 2 ^ 32" by (rule Cons.prems(3) [of k v]) (simp add: kv)
  have "decode_mp tk0 fuel (dec_at src (off + ?h + length k)) = Some (dec_at src (off + ?h + length k + length (mp_bytes v)), Some v)"
    by (rule reads_backD [OF Cons.prems(1) [of k] s(3) Cons.prems(2) [of k]]) (simp_all add: kv)
  moreover have "decode_pairs tk0 fuel (length kvs) (dec_at src (off + ?h + length k + length (mp_bytes v))) =
    Some (dec_at src (off + ?h + length k + length (mp_bytes v) +
      length (concat (map (\<lambda>(k, v). str_head (length k) @ k @ mp_bytes v) kvs))), Some kvs)"
  proof (rule Cons.IH [OF _ _ _ s(4)])
    fix k v assume "(k, v) \<in> set kvs"
    then have m: "(k, v) \<in> set (kv # kvs)" by simp
    show "reads_back v" "mp_depth v < fuel" "length k < 2 ^ 32" by (rule Cons.prems(1-3) [OF m])+
  qed
  ultimately show ?case
    using next_string [OF s(1) lk] src_has_read [OF s(2)] by (simp add: kv add.assoc)
qed simp

lemma reads_backI:
  assumes "\<And>src off tk0 fuel. src_has src off (mp_bytes v) \<Longrightarrow> mp_depth v \<le> fuel \<Longrightarrow>
    decode_mp tk0 (Suc fuel) (dec_at src off) = Some (dec_at src (off + length (mp_bytes v)), Some v)"
  shows "reads_back v"
  unfolding reads_back_def
proof (intro allI impI)
  fix src off tk0 fuel
  assume s: "src_has src off (mp_bytes v)" and d: "mp_depth v < fuel"
  obtain f where "fuel = Suc f" "mp_depth v \<le> f" using d by (cases fuel) auto
  then show "decode_mp tk0 fuel (dec_at src off) = Some (dec_at src (off + length (mp_bytes v)), Some v)" using assms s by simp
qed

lemma reads_back_array:
  assumes "\<And>v. v \<in> set vs \<Longrightarrow> reads_back v" and "length vs < 2 ^ 32"
  shows "reads_back (MArr vs)"
proof (rule reads_backI)
  fix src off tk0 fuel
  assume src: "src_has src off (mp_bytes (MArr vs))" and d: "mp_depth (MArr vs) \<le> fuel"
  let ?h = "container_head True (length vs)"
  have s: "src_has src off ?h" "src_has src (off + length ?h) (concat (map mp_bytes vs))"
    using src by (simp_all add: src_has_append)
  have "mp_depth v < fuel" if "v \<in> set vs" for v
  proof -
    have "mp_depth v \<le> Max (insert 0 (set (map mp_depth vs)))" using that by (intro Max_ge) auto
    then show ?thesis using d by simp
  qed
  from decode_all_ok [OF assms(1) this s(2)] show
    "decode_mp tk0 (Suc fuel) (dec_at src off) = Some (dec_at src (off + length (mp_bytes (MArr vs))), Some (MArr vs))"
    by (simp add: next_array [OF s(1) assms(2)] add.assoc)
qed

lemma reads_back_map:
  assumes "\<And>k v. (k, v) \<in> set kvs \<Longrightarrow> reads_back v" and "\<And>k v. (k, v) \<in> set kvs \<Longrightarrow> length k < 2 ^ 32" and "length kvs < 2 ^ 32"
  shows "reads_back (MMap kvs)"
proof (rule reads_backI)
  fix src off tk0 fuel
  assume src: "src_has src off (mp_bytes (MMap kvs))" and d: "mp_depth (MMap kvs) \<le> fuel"
  let ?h = "container_head False (length kvs)"
  have s: "src_has src off ?h" "src_has src (off + length ?h) (concat (map (\<lambda>(k, v). str_head (length k) @ k @ mp_bytes v) kvs))"
    using src by (simp_all add: src_has_append)
  have "mp_depth v < fuel" if "(k, v) \<in> set kvs" for k v
  proof -
    have "mp_depth v \<le> Max (insert 0 (set (map (\<lambda>(k, v). mp_depth v) kvs)))" using that by (intro Max_ge) force+
    then show ?thesis using d by simp
  qed
  from decode_pairs_ok [OF assms(1) this assms(2) s(2)] show
    "decode_mp tk0 (Suc fuel) (dec_at src off) = Some (dec_at src (off + length (mp_bytes (MMap kvs))), Some (MMap kvs))"
    by (simp add: next_map [OF s(1) assms(3)] add.assoc)
qed

lemma next_nil: "src_has src off [Some (io_tag VL_MSGPACK_IO_NIL)] \<Longrightarrow>
  vlMsgPackIODecoderNext (dec_at src off) tk = Some (True, dec_at src (off + 1), tk\<lparr>tk_type := VL_MSGPACK_NIL\<rparr>)"
  using next_tag [of src off VL_MSGPACK_IO_NIL] by simp

lemma next_bool: "src_has src off [Some (io_tag (if b then VL_MSGPACK_IO_TRUE else VL_MSGPACK_IO_FALSE))] \<Longrightarrow>
  vlMsgPackIODecoderNext (dec_at src off) tk = Some (True, dec_at src (off + 1), \<lparr>tk_type = VL_MSGPACK_BOOL, tk_value = Tk_boolean b\<rparr>)"
  using next_tag [of src off "if b then VL_MSGPACK_IO_TRUE else VL_MSGPACK_IO_FALSE"] by (cases b) simp_all

lemma reads_back_ok: "mp_ok v \<Longrightarrow> mp_exact v \<Longrightarrow> reads_back v"
proof (induction v)
  case (MArr vs)
  show ?case by (rule reads_back_array) (use MArr in auto)
next
  case (MMap kvs)
  show ?case
  proof (rule reads_back_map)
    show "reads_back v" if "(k, v) \<in> set kvs" for k v using MMap.IH [OF that, of v] MMap.prems that by auto
    show "length k < 2 ^ 32" if "(k, v) \<in> set kvs" for k v using MMap.prems that by auto
    show "length kvs < 2 ^ 32" using MMap.prems by simp
  qed
next
  case (MStr xs)
  then show ?case
    by (intro reads_backI) (simp add: next_string src_has_append src_has_read add.assoc)
next
  case (MBin xs)
  then show ?case
    by (intro reads_backI) (simp add: next_binary src_has_append src_has_read add.assoc)
next
  case (MExt t xs)
  show ?case
  proof (rule reads_backI)
    fix src off tk0 fuel
    assume src: "src_has src off (mp_bytes (MExt t xs))"
    note e = next_ext [OF src [unfolded mp_bytes.simps] MExt.prems(2) [unfolded mp_exact.simps]]
    have s: "src_has src (off + length (ext_head (length xs)) + 1) xs"
      using src unfolding mp_bytes.simps e(2) by (simp add: src_has_append src_has_Cons [of _ _ _ xs])
    then show "decode_mp tk0 (Suc fuel) (dec_at src off) = Some (dec_at src (off + length (mp_bytes (MExt t xs))), Some (MExt t xs))"
      using e(1) [of tk0] src_has_read [OF s] e(2) by (simp add: add.assoc)
  qed
next
  case MNil
  then show ?case by (intro reads_backI) (simp add: next_nil)
next
  case (MBool b)
  show ?case by (intro reads_backI) (simp add: next_bool del: io_tag.simps split del: if_split)
next
  case (MInt v)
  show ?case by (intro reads_backI) (simp add: next_int)
next
  case (MUInt v)
  show ?case by (intro reads_backI) (simp add: next_uint)
next
  case (MFloat32 x)
  show ?case by (intro reads_backI) (simp add: next_float32)
next
  case (MFloat64 x)
  show ?case by (intro reads_backI) (simp add: next_float64)
qed

end
