(* ===== verification/VL_MsgPackSpec.thy ===== *)
theory VL_MsgPackSpec
  imports VL_MsgPackDec
begin

text \<open>
  What a client of the encoder of \<^verbatim>\<open>src/core/vl_msgpack_io.c\<close> sees: a value encoded call by call is the
  bytes of the value, and a container that is closed at the wrong moment is reported.
\<close>

lemma encoder_init_ok:
  assumes "enc_fits al (VL_DEFAULT_MEMORY_SIZE + n) d"
  obtains enc where "vlMsgPackIOEncoderInit al = Some enc" "enc_rep enc [] []" "enc_error enc = VL_MSGPACK_IO_ERR_NONE"
proof -
  obtain limit where l: "alloc_upto al limit" "VL_DEFAULT_MEMORY_SIZE + MEMORY_HEADER_SIZE < limit"
    using assms by (auto simp: enc_fits_def MEMORY_HEADER_SIZE_def)
  obtain st where st: "vlStackInit al = Some st" "stack_rep st []" "vlMemAlignment (buf_data (st_buffer st)) = VL_DEFAULT_ALIGN"
    using stack_init_ok [OF l] by blast
  obtain b where b: "vlBufferInit al = Some b" "buf_inv b" "buf_offset b = 0" "vlMemAlignment (buf_data b) = VL_DEFAULT_ALIGN"
    by (rule buffer_init_ok [OF l])
  have "buf_offset (st_buffer st) = 0" using st(2) by (simp add: stack_rep_def)
  then have "stack_frames st []" using st(2,3) by (auto simp: stack_frames_def)
  moreover have "buf_rep b []" using b by (simp add: buf_rep_def)
  ultimately show thesis using that st(1) b(1) by (simp add: vlMsgPackIOEncoderInit_def enc_rep_def)
qed

section \<open>Encoding a value\<close>

text \<open>
  The encoder is correct: on a fresh encoder, with memory for the output, the calls for a value
  of any shape (begin, the elements in order, end, at any depth) succeed, report no error, close every
  container, and leave exactly the bytes of the value in the buffer, with the head of every container
  in its shortest form: tag and number of elements or pairs, after the unused reserved bytes were removed.
\<close>

theorem msgpack_encode_value:
  assumes "mp_ok v" and "enc_fits al (VL_DEFAULT_MEMORY_SIZE + mp_room v) (mp_depth v)"
  shows "\<exists>enc enc'. vlMsgPackIOEncoderInit al = Some enc \<and> encode_mp al v enc = Some enc' \<and>
    buf_offset (enc_buffer enc') = length (mp_bytes v) \<and>
    mem_read (buf_data (enc_buffer enc')) 0 (length (mp_bytes v)) = Some (mp_bytes v) \<and>
    vlStackEmpty (enc_stateStack enc') \<and> enc_error enc' = VL_MSGPACK_IO_ERR_NONE"
proof -
  obtain enc where enc: "vlMsgPackIOEncoderInit al = Some enc" "enc_rep enc [] []" "enc_error enc = VL_MSGPACK_IO_ERR_NONE"
    by (rule encoder_init_ok [OF assms(2)])
  have "enc_fits al (length [] + mp_room v) (length [] + mp_depth v)"
    by (rule enc_fits_mono [OF assms(2)]) simp_all
  from encodesD [OF encodes_ok [OF assms(1)] enc(2) this] obtain enc' where e: "encode_mp al v enc = Some enc'"
    "enc_rep enc' (mp_bytes v) []" "same_error enc enc'"
    by (auto simp: enc_does_def)
  then have b: "buf_rep (enc_buffer enc') (mp_bytes v)" "stack_frames (enc_stateStack enc') []" by (simp_all add: enc_rep_def)
  show ?thesis
    using enc e(1,3) buf_rep_read [OF b(1), of 0 "length (mp_bytes v)"] b(1) stack_frames_empty [OF b(2)]
    by (auto simp: buf_rep_def same_error_def)
qed

definition sample_mp :: mp where
  "sample_mp = MMap [([Some 97], MArr [MInt 1, MInt (- 2), MStr [Some 104, Some 105]]), ([Some 98], MBool True)]"

theorem msgpack_encode_value_witness:
  "\<exists>enc enc'. vlMsgPackIOEncoderInit some_allocator = Some enc \<and> encode_mp some_allocator sample_mp enc = Some enc' \<and>
    mem_read (buf_data (enc_buffer enc')) 0 12 = Some (map Some [0x82, 0xA1, 97, 0x93, 1, 0xFE, 0xA2, 104, 105, 0xA1, 98, 0xC3])"
proof -
  have v: "mp_ok sample_mp" "mp_room sample_mp \<le> 100" "mp_depth sample_mp = 2"
    by (simp_all add: sample_mp_def int_bytes_def str_head_def)
  have bytes: "mp_bytes sample_mp = map Some [0x82, 0xA1, 97, 0x93, 1, 0xFE, 0xA2, 104, 105, 0xA1, 98, 0xC3]"
    by (simp add: sample_mp_def int_bytes_def str_head_def container_head_def)
  have "enc_fits some_allocator (VL_DEFAULT_MEMORY_SIZE + mp_room sample_mp) (mp_depth sample_mp)"
    unfolding enc_fits_def using some_allocator_upto v by (auto simp: VL_DEFAULT_MEMORY_SIZE_def intro!: exI [of _ "2 ^ 20"])
  note enc = msgpack_encode_value [OF v(1) this]
  have len: "length (mp_bytes sample_mp) = 12" unfolding bytes by simp
  show ?thesis using enc unfolding len unfolding bytes by blast
qed

section \<open>Containers that are closed at the wrong moment\<close>

text \<open>
  Misuse of the encoder is an error and never damages the output: closing a map or an array when
  none is open reports a stack underflow, and closing a map with an odd number of keys and values
  reports an unbalanced map with the depth of its nesting; output and open containers are unchanged.
\<close>

theorem msgpack_end_errors:
  assumes "enc_rep enc out fs"
  shows "(fs = [] \<longrightarrow>
      vlMsgPackIOEncodeMapEnd enc = Some (enc\<lparr>enc_error := VL_MSGPACK_IO_ERR_STACK_UNDERFLOW, enc_errorDepth := 0, enc_errorType := VL_MSGPACK_MAP\<rparr>) \<and>
      vlMsgPackIOEncodeArrayEnd enc = Some (enc\<lparr>enc_error := VL_MSGPACK_IO_ERR_STACK_UNDERFLOW, enc_errorDepth := 0, enc_errorType := VL_MSGPACK_ARRAY\<rparr>)) \<and>
    (fs \<noteq> [] \<and> odd (ef_totalElements (hd fs)) \<longrightarrow>
      vlMsgPackIOEncodeMapEnd enc = Some (enc\<lparr>enc_error := VL_MSGPACK_IO_ERR_UNBALANCED_MAP, enc_errorDepth := length fs, enc_errorType := VL_MSGPACK_MAP\<rparr>))"
proof -
  have st: "stack_frames (enc_stateStack enc) fs" using assms by (simp add: enc_rep_def)
  have depth: "st_depth (enc_stateStack enc) = length fs"
    using st by (auto simp: stack_frames_def stack_rep_def dest: map_eq_imp_length_eq)
  have "fs = f # gs \<Longrightarrow> peek_encframe (enc_stateStack enc) = Some f" for f gs
    using st peek_encframe_ok by blast
  then show ?thesis using stack_frames_empty [OF st] depth
    by (cases fs) (auto simp: vlMsgPackIOEncodeMapEnd_def vlMsgPackIOEncodeArrayEnd_def odd_iff_mod_2_eq_one)
qed

text \<open>A fresh encoder, and a map with a key alone.\<close>

theorem msgpack_end_errors_witness:
  "\<exists>enc enc1 enc2 enc3 enc4. vlMsgPackIOEncoderInit some_allocator = Some enc \<and>
    vlMsgPackIOEncodeMapEnd enc = Some enc1 \<and> enc_error enc1 = VL_MSGPACK_IO_ERR_STACK_UNDERFLOW \<and>
    vlMsgPackIOEncodeMapBegin some_allocator enc = Some enc2 \<and> vlMsgPackIOEncodeNil some_allocator enc2 = Some enc3 \<and>
    vlMsgPackIOEncodeMapEnd enc3 = Some enc4 \<and> enc_error enc4 = VL_MSGPACK_IO_ERR_UNBALANCED_MAP \<and> enc_errorDepth enc4 = 1"
proof -
  have fit: "enc_fits some_allocator (VL_DEFAULT_MEMORY_SIZE + 10) 3"
    unfolding enc_fits_def using some_allocator_upto by (auto simp: VL_DEFAULT_MEMORY_SIZE_def intro!: exI [of _ "2 ^ 20"])
  obtain enc where enc: "vlMsgPackIOEncoderInit some_allocator = Some enc" "enc_rep enc [] []"
    by (rule encoder_init_ok [OF fit])
  have "enc_fits some_allocator (length [] + 5) (Suc (length []))" by (rule enc_fits_mono [OF fit]) simp_all
  then obtain junk enc2 where e2: "vlMsgPackIOEncodeMapBegin some_allocator enc = Some enc2"
    "enc_rep enc2 junk [open_frame False 0 0]" "length junk = 5"
    by (rule map_begin_ok [OF enc(2)]) (auto simp: enc_does_def)
  have "enc_fits some_allocator (length junk + 1) 3" by (rule enc_fits_mono [OF fit]) (simp_all add: e2(3))
  from encode_nil_ok [OF e2(2) this] obtain enc3 where e3: "vlMsgPackIOEncodeNil some_allocator enc2 = Some enc3"
    "enc_rep enc3 (junk @ [Some (io_tag VL_MSGPACK_IO_NIL)]) (bump 1 [open_frame False 0 0])"
    by (auto simp: enc_does_def)
  have "odd (ef_totalElements (hd (bump 1 [open_frame False 0 0])))" by (simp add: open_frame_def u32_of_def)
  then show ?thesis using enc(1) e2(1) e3(1) msgpack_end_errors [OF enc(2)] msgpack_end_errors [OF e3(2)] by simp
qed

section \<open>Round trip\<close>

text \<open>
  C3. What the encoder wrote, the decoder reads back: for every value whose extensions have a length
  that the format keeps, encoding it on a fresh encoder and decoding the bytes of the buffer token by
  token gives the same value, consumes all bytes, reports no error, and the next token is the end.
\<close>

theorem msgpack_roundtrip:
  assumes "mp_ok v" and "mp_exact v" and "enc_fits al (VL_DEFAULT_MEMORY_SIZE + mp_room v) (mp_depth v)"
  shows "\<exists>enc enc' xs dec. vlMsgPackIOEncoderInit al = Some enc \<and> encode_mp al v enc = Some enc' \<and>
    mem_read (buf_data (enc_buffer enc')) 0 (buf_offset (enc_buffer enc')) = Some xs \<and>
    decode_mp tk0 (Suc (mp_depth v)) (vlMsgPackIODecoderStart xs (length xs)) = Some (dec, Some v) \<and>
    dec_srcOffset dec = length xs \<and> dec_error dec = VL_MSGPACK_IO_ERR_NONE \<and>
    vlMsgPackIODecoderNext dec tk0 = Some (False, dec, tk0)"
proof -
  obtain enc where enc: "vlMsgPackIOEncoderInit al = Some enc" "enc_rep enc [] []"
    by (rule encoder_init_ok [OF assms(3)])
  have "enc_fits al (length [] + mp_room v) (length [] + mp_depth v)"
    by (rule enc_fits_mono [OF assms(3)]) simp_all
  from encodesD [OF encodes_ok [OF assms(1)] enc(2) this] obtain enc' where e: "encode_mp al v enc = Some enc'"
    "buf_rep (enc_buffer enc') (mp_bytes v)"
    by (auto simp: enc_does_def enc_rep_def)
  let ?xs = "mp_bytes v"
  have "length ?xs < 2 ^ 62" using assms(3) mp_bytes_room [of v] by (auto simp: enc_fits_def)
  then have src: "src_has ?xs 0 ?xs" by (rule src_has_self)
  have "decode_mp tk0 (Suc (mp_depth v)) (dec_at ?xs 0) = Some (dec_at ?xs (length ?xs), Some v)"
    using reads_backD [OF reads_back_ok [OF assms(1,2)] src, of "Suc (mp_depth v)" tk0] by simp
  moreover have "vlMsgPackIODecoderNext (dec_at ?xs (length ?xs)) tk0 = Some (False, dec_at ?xs (length ?xs), tk0)"
    using \<open>length ?xs < 2 ^ 62\<close> by (simp add: vlMsgPackIODecoderNext_def u64_of_id)
  moreover have "mem_read (buf_data (enc_buffer enc')) 0 (buf_offset (enc_buffer enc')) = Some ?xs"
    using buf_rep_read [OF e(2), of 0 "length ?xs"] e(2) by (simp add: buf_rep_def)
  moreover have "dec_error (dec_at ?xs (length ?xs)) = VL_MSGPACK_IO_ERR_NONE"
    by (simp add: dec_at_def vlMsgPackIODecoderStart_def)
  ultimately show ?thesis using enc(1) e(1) by (metis dec_at_simps(3,4))
qed

theorem msgpack_roundtrip_witness:
  "\<exists>enc enc' xs dec. vlMsgPackIOEncoderInit some_allocator = Some enc \<and> encode_mp some_allocator sample_mp enc = Some enc' \<and>
    mem_read (buf_data (enc_buffer enc')) 0 (buf_offset (enc_buffer enc')) = Some xs \<and>
    decode_mp \<lparr>tk_type = VL_MSGPACK_NIL, tk_value = Tk_none\<rparr> 3 (vlMsgPackIODecoderStart xs (length xs)) = Some (dec, Some sample_mp)"
proof -
  have v: "mp_ok sample_mp" "mp_exact sample_mp" "mp_room sample_mp \<le> 100" "mp_depth sample_mp = 2"
    by (simp_all add: sample_mp_def int_bytes_def str_head_def)
  have "enc_fits some_allocator (VL_DEFAULT_MEMORY_SIZE + mp_room sample_mp) (mp_depth sample_mp)"
    unfolding enc_fits_def using some_allocator_upto v by (auto simp: VL_DEFAULT_MEMORY_SIZE_def intro!: exI [of _ "2 ^ 20"])
  from msgpack_roundtrip [OF v(1,2) this] show ?thesis unfolding v(4) by (simp add: numeral_3_eq_3) blast
qed

section \<open>The decoder on any input\<close>

definition src_ok :: "byte list \<Rightarrow> vl_msgpack_decoder \<Rightarrow> bool" where
  "src_ok src dec \<longleftrightarrow> dec_srcMem dec = src \<and> dec_srcLen dec = length src \<and> dec_srcOffset dec \<le> length src \<and>
     length src < 2 ^ 62 \<and> None \<notin> set src"

definition tk_within :: "byte list \<Rightarrow> vl_msgpack_io_token \<Rightarrow> bool" where
  "tk_within src tk \<longleftrightarrow>
     (case tk_value tk of
        Tk_string p n \<Rightarrow> p + n \<le> length src
      | Tk_binary p n \<Rightarrow> p + n \<le> length src
      | Tk_ext t p n \<Rightarrow> p + n \<le> length src
      | _ \<Rightarrow> True)"

text \<open>A result: no access outside of the source, no pointer outside of it, and the offset is at least \<open>m\<close>.\<close>

definition dec_safe :: "byte list \<Rightarrow> nat \<Rightarrow> dec_result \<Rightarrow> bool" where
  "dec_safe src m r \<longleftrightarrow>
     (case r of
        None \<Rightarrow> False
      | Some (ok, dec, tk) \<Rightarrow> src_ok src dec \<and> m \<le> dec_srcOffset dec \<and>
          (if ok then tk_within src tk else dec_error dec = VL_MSGPACK_IO_ERR_UNEXPECTED_EOF))"

lemma dec_safe_return: "src_ok src dec \<Longrightarrow> m \<le> dec_srcOffset dec \<Longrightarrow> tk_within src tk \<Longrightarrow> dec_safe src m (Some (True, dec, tk))"
  by (simp add: dec_safe_def)

lemma dec_safe_if:
  "(c \<Longrightarrow> dec_safe src m a) \<Longrightarrow> (\<not> c \<Longrightarrow> dec_safe src m b) \<Longrightarrow> dec_safe src m (if c then a else b)"
  by simp

lemma dec_safe_eof:
  assumes "src_ok src dec" "m \<le> dec_srcOffset dec" and "n < 2 ^ 62"
    and "dec_srcOffset dec + n \<le> length src \<Longrightarrow> dec_safe src m k"
  shows "dec_safe src m (VL_DECODE_EOFCHECK dec tk n k)"
proof (cases "dec_srcOffset dec + n \<le> length src")
  case True
  then show ?thesis using assms by (simp add: VL_DECODE_EOFCHECK_def src_ok_def u64_of_id)
next
  case False
  then have "u64_of (dec_srcOffset dec + n) = dec_srcOffset dec + n" using assms(1,3) by (simp add: src_ok_def u64_of_id)
  then show ?thesis using False assms(1,2) by (simp add: VL_DECODE_EOFCHECK_def src_ok_def dec_safe_def)
qed

lemma src_ok_advance:
  "src_ok src dec \<Longrightarrow> dec_srcOffset dec + n \<le> length src \<Longrightarrow>
   src_ok src (dec_advance dec n) \<and> dec_srcOffset (dec_advance dec n) = dec_srcOffset dec + n"
  by (simp add: src_ok_def dec_advance_def u64_of_id)

lemma bytes_nat_defined: "None \<notin> set xs \<Longrightarrow> \<exists>n. bytes_nat xs = Some n \<and> n < 256 ^ length xs"
proof (induction xs)
  case (Cons x xs)
  then obtain n b where "bytes_nat xs = Some n" "n < 256 ^ length xs" "x = Some b" by (cases x) auto
  moreover have "unat b < 256" using unsigned_less [of b, where ?'a = nat] by simp
  ultimately show ?case by simp
qed simp

lemma dec_read_safe:
  assumes ok: "src_ok src dec" and fit: "dec_srcOffset dec + k \<le> length src" and k: "0 < k" "k < 2 ^ 32"
  obtains n where "dec_read dec k = Some (n, dec_advance dec k)" "n < 256 ^ k"
proof -
  let ?xs = "take k (drop (dec_srcOffset dec) src)"
  have len: "length ?xs = k" using fit by simp
  have rd: "read_range (dec_srcMem dec) (dec_srcOffset dec) k = Some ?xs" using ok fit by (simp add: read_range_def src_ok_def)
  let ?ys = "if k = 1 then ?xs else rev ?xs"
  have "(if k = 1 then Some ?xs else VL_FLIP_ENDIAN ?xs) = Some ?ys" using flip_endian_ok [of ?xs] len k by simp
  moreover have "None \<notin> set ?ys" using ok by (auto simp: src_ok_def dest!: in_set_takeD in_set_dropD)
  then obtain n where "bytes_nat ?ys = Some n" "n < 256 ^ length ?ys" using bytes_nat_defined by blast
  ultimately show thesis using that rd len by (simp add: dec_read_def split: if_splits)
qed

lemma dec_number_safe:
  assumes ok: "src_ok src dec" "m \<le> dec_srcOffset dec" and k: "0 < k" "k \<le> 8"
    and val: "\<And>n. tk_within src \<lparr>tk_type = ty, tk_value = val n\<rparr>"
  shows "dec_safe src m (dec_number ty k val dec tk)"
  unfolding dec_number_def Let_def
proof (rule dec_safe_eof [OF ok])
  show "k < 2 ^ 62" using k by simp
  assume fit: "dec_srcOffset dec + k \<le> length src"
  obtain n where n: "dec_read dec k = Some (n, dec_advance dec k)"
    by (rule dec_read_safe [OF ok(1) fit k(1)]) (use k in simp_all)
  have "tk_within src (tk\<lparr>tk_type := ty, tk_value := val n\<rparr>)" using val [of n] by (simp add: tk_within_def)
  then show "dec_safe src m (do { (n, dec) \<leftarrow> dec_read dec k; Some (True, dec, tk\<lparr>tk_type := ty\<rparr>\<lparr>tk_value := val n\<rparr>) })"
    using src_ok_advance [OF ok(1) fit] n ok(2) by (simp add: dec_safe_return)
qed

lemma dec_bytes_safe:
  assumes ok: "src_ok src dec" "m \<le> dec_srcOffset dec" and k: "0 < k" "k \<le> 4"
    and val: "\<And>p n. p + n \<le> length src \<Longrightarrow> tk_within src \<lparr>tk_type = ty, tk_value = val p n\<rparr>"
  shows "dec_safe src m (dec_bytes ty k val dec tk)"
  unfolding dec_bytes_def Let_def
proof (rule dec_safe_eof [OF ok])
  show "k < 2 ^ 62" using k by simp
  assume fit: "dec_srcOffset dec + k \<le> length src"
  obtain n where n: "dec_read dec k = Some (n, dec_advance dec k)" "n < 256 ^ k"
    by (rule dec_read_safe [OF ok(1) fit k(1)]) (use k in simp_all)
  have "n < 256 ^ 4" using n(2) power_increasing [OF k(2), of "256 :: nat"] by simp
  then have small: "n < 2 ^ 62" by simp
  let ?d = "dec_advance dec k"
  have d: "src_ok src ?d" "m \<le> dec_srcOffset ?d" using src_ok_advance [OF ok(1) fit] ok(2) by simp_all
  have "dec_safe src m (VL_DECODE_EOFCHECK ?d (tk\<lparr>tk_type := ty\<rparr>) n
    (Some (True, dec_advance ?d n, tk\<lparr>tk_type := ty\<rparr>\<lparr>tk_value := val (dec_srcOffset ?d) n\<rparr>)))"
  proof (rule dec_safe_eof [OF d small])
    assume f: "dec_srcOffset ?d + n \<le> length src"
    from val [OF this] have "tk_within src (tk\<lparr>tk_type := ty, tk_value := val (dec_srcOffset ?d) n\<rparr>)" by (simp add: tk_within_def)
    then show "dec_safe src m (Some (True, dec_advance ?d n, tk\<lparr>tk_type := ty\<rparr>\<lparr>tk_value := val (dec_srcOffset ?d) n\<rparr>))"
      using src_ok_advance [OF d(1) f] d(2) by (simp add: dec_safe_return)
  qed
  then show "dec_safe src m (do { (n, dec) \<leftarrow> dec_read dec k;
      VL_DECODE_EOFCHECK dec (tk\<lparr>tk_type := ty\<rparr>) n
        (Some (True, dec_advance dec n, tk\<lparr>tk_type := ty\<rparr>\<lparr>tk_value := val (dec_srcOffset dec) n\<rparr>)) })"
    using n(1) by simp
qed

lemma dec_ext_rest_safe:
  assumes ok: "src_ok src dec" "m \<le> dec_srcOffset dec" and n: "n < 2 ^ 32" and need: "need = n + 1"
  shows "dec_safe src m (dec_ext_rest need n dec tk)"
  unfolding dec_ext_rest_def
proof (rule dec_safe_eof [OF ok])
  show "need < 2 ^ 62" using need n by simp
  assume fit: "dec_srcOffset dec + need \<le> length src"
  then have f1: "dec_srcOffset dec + 1 \<le> length src" using need by simp
  let ?xs = "take 1 (drop (dec_srcOffset dec) src)" and ?d = "dec_advance dec 1"
  have rd: "read_range (dec_srcMem dec) (dec_srcOffset dec) 1 = Some ?xs" using ok f1 by (simp add: read_range_def src_ok_def)
  have "None \<notin> set ?xs" using ok by (auto simp: src_ok_def dest!: in_set_takeD in_set_dropD)
  then obtain t where t: "bytes_nat ?xs = Some t" using bytes_nat_defined by blast
  have d: "src_ok src ?d" "dec_srcOffset ?d = dec_srcOffset dec + 1" using src_ok_advance [OF ok(1) f1] by simp_all
  have "src_ok src (dec_advance ?d n)" using src_ok_advance [OF d(1), of n] fit d(2) need by simp
  moreover have "tk_within src (tk\<lparr>tk_value := Tk_ext (of_nat t) (dec_srcOffset ?d) n\<rparr>)" using fit d(2) need by (simp add: tk_within_def)
  ultimately show "dec_safe src m (do { xs \<leftarrow> read_range (dec_srcMem dec) (dec_srcOffset dec) 1; t \<leftarrow> bytes_nat xs; let dec = dec_advance dec 1;
      Some (True, dec_advance dec n, tk\<lparr>tk_value := Tk_ext (of_nat t) (dec_srcOffset dec) n\<rparr>) })"
    using rd t ok(2) src_ok_advance [OF d(1), of n] fit d(2) need by (simp add: dec_safe_return Let_def)
qed

lemma dec_fixed_safe:
  assumes ok: "src_ok src dec" "m \<le> dec_srcOffset dec" and tk: "tk_within src tk"
  shows "dec_safe src m (dec_fixed tag dec tk)"
proof -
  have n: "unat (tag AND 0x1F) < 2 ^ 62" using unsigned_less [of "tag AND 0x1F", where ?'a = nat] by simp
  have "dec_safe src m (VL_DECODE_EOFCHECK dec (tk\<lparr>tk_type := VL_MSGPACK_STRING\<rparr>) (unat (tag AND 0x1F))
      (Some (True, dec_advance dec (unat (tag AND 0x1F)), tk\<lparr>tk_type := VL_MSGPACK_STRING\<rparr>\<lparr>tk_value := Tk_string (dec_srcOffset dec) (unat (tag AND 0x1F))\<rparr>)))"
  proof (rule dec_safe_eof [OF ok n])
    assume f: "dec_srcOffset dec + unat (tag AND 0x1F) \<le> length src"
    then show "dec_safe src m (Some (True, dec_advance dec (unat (tag AND 0x1F)),
        tk\<lparr>tk_type := VL_MSGPACK_STRING\<rparr>\<lparr>tk_value := Tk_string (dec_srcOffset dec) (unat (tag AND 0x1F))\<rparr>))"
      using src_ok_advance [OF ok(1) f] ok(2) by (intro dec_safe_return) (simp_all add: tk_within_def)
  qed
  then show ?thesis using ok tk by (simp add: dec_fixed_def Let_def dec_safe_def tk_within_def)
qed

text \<open>
  C4. The decoder is safe on any bytes, well formed or not: unless the next tag is one of the
  two that announce an extension with a length of two or four bytes, a call never reads outside of
  the source, and returns either a token whose string, binary or extension is a part of the source, with
  the offset advanced but still inside; or the error of an unexpected end; or, exactly at the end of the
  source, false with nothing changed.
\<close>

theorem msgpack_decode_safe:
  assumes "src_ok src dec" and "tk_within src tk"
    and "dec_srcOffset dec < length src \<Longrightarrow> src ! dec_srcOffset dec \<notin> {Some 0xC8, Some 0xC9}"
  shows "(case vlMsgPackIODecoderNext dec tk of
      None \<Rightarrow> False
    | Some (ok, dec', tk') \<Rightarrow>
        src_ok src dec' \<and>
        (if ok then tk_within src tk' \<and> dec_srcOffset dec < dec_srcOffset dec'
         else dec_error dec' = VL_MSGPACK_IO_ERR_UNEXPECTED_EOF \<or> dec_srcOffset dec = length src \<and> dec' = dec \<and> tk' = tk))"
proof (cases "dec_srcOffset dec < length src")
  case False
  then show ?thesis using assms(1) by (simp add: vlMsgPackIODecoderNext_def src_ok_def u64_of_id)
next
  case True
  let ?off = "dec_srcOffset dec" and ?d = "dec_advance dec 1"
  have ok: "src_ok src ?d" "Suc ?off \<le> dec_srcOffset ?d" using src_ok_advance [OF assms(1), of 1] True by simp_all
  have d: "dec_srcMem dec = src" "dec_srcLen dec = length src" using assms(1) by (simp_all add: src_ok_def)
  obtain tag where tag: "src ! ?off = Some tag"
    using assms(1) True nth_mem [OF True] by (cases "src ! ?off") (simp_all add: src_ok_def)
  have ne: "tag \<noteq> 0xC8" "tag \<noteq> 0xC9" using assms(3) [OF True] tag by auto
  have rd: "read_range src ?off 1 = Some [Some tag]"
    using True tag by (simp add: read_range_def take_Suc_conv_app_nth hd_drop_conv_nth take_Suc)
  have bn: "bytes_nat [Some tag] = Some (unat tag)" by simp
  have tag_eq: "(of_nat (unat tag) :: u8) = tag" by simp
  have lt: "\<not> u64_of (?off + 1) > length src" using True assms(1) by (simp add: src_ok_def u64_of_id)
  have nil: "dec_safe src (Suc ?off) (Some (True, ?d, tk\<lparr>tk_type := VL_MSGPACK_NIL\<rparr>))"
    using ok assms(2) by (intro dec_safe_return) (simp_all add: tk_within_def)
  have bool: "dec_safe src (Suc ?off) (Some (True, ?d, \<lparr>tk_type = VL_MSGPACK_BOOL, tk_value = Tk_boolean b\<rparr>))" for b
    using ok by (intro dec_safe_return) (simp_all add: tk_within_def)
  have ext8: "dec_safe src (Suc ?off) (dec_ext 1 (\<lambda>n. Some (n + 1, n)) ?d tk)"
    unfolding dec_ext_def Let_def
  proof (rule dec_safe_eof [OF ok])
    assume fit: "dec_srcOffset ?d + 1 \<le> length src"
    obtain n where n: "dec_read ?d 1 = Some (n, dec_advance ?d 1)" "n < 256 ^ 1"
      by (rule dec_read_safe [OF ok(1) fit]) simp_all
    have o2: "src_ok src (dec_advance ?d 1)" "Suc ?off \<le> dec_srcOffset (dec_advance ?d 1)"
      using src_ok_advance [OF ok(1) fit] ok(2) by simp_all
    have n32: "n < 2 ^ 32" using n(2) by simp
    show "dec_safe src (Suc ?off) (do { (n, dec) \<leftarrow> dec_read ?d 1; (need, len) \<leftarrow> Some (n + 1, n);
        dec_ext_rest need len dec (tk\<lparr>tk_type := VL_MSGPACK_EXT\<rparr>) })"
      unfolding n(1) bind.bind_lunit prod.case by (rule dec_ext_rest_safe [OF o2 n32 refl])
  qed simp
  have fixext: "dec_safe src (Suc ?off)
      (let len = 2 ^ unat (tag - 0xD4) in dec_ext_rest (len + 1) len ?d (tk\<lparr>tk_type := VL_MSGPACK_EXT\<rparr>))"
    if "0xD4 \<le> tag \<and> tag \<le> 0xD8"
  proof -
    have "unat tag \<le> 216" "212 \<le> unat tag" using that by (simp_all add: word_le_nat_alt)
    moreover have "unat (tag - 0xD4) = unat tag - unat (0xD4 :: u8)" by (rule unat_sub) (use that in blast)
    ultimately have "unat (tag - 0xD4) \<le> 4" by simp
    then have "(2 :: nat) ^ unat (tag - 0xD4) \<le> 2 ^ 4" by (rule power_increasing) simp
    then have "(2 :: nat) ^ unat (tag - 0xD4) < 2 ^ 32" by simp
    then show ?thesis unfolding Let_def by (rule dec_ext_rest_safe [OF ok _ refl])
  qed
  have num: "dec_safe src (Suc ?off) (dec_number ty k val ?d tk)"
    if "0 < k" "k \<le> 8" "\<And>n. tk_within src \<lparr>tk_type = ty, tk_value = val n\<rparr>" for ty k val
    by (rule dec_number_safe [OF ok that])
  have slice: "dec_safe src (Suc ?off) (dec_bytes ty k val ?d tk)"
    if "0 < k" "k \<le> 4" "\<And>p n. p + n \<le> length src \<Longrightarrow> tk_within src \<lparr>tk_type = ty, tk_value = val p n\<rparr>" for ty k val
    by (rule dec_bytes_safe [OF ok that])
  have "dec_safe src (Suc ?off) (vlMsgPackIODecoderNext dec tk)"
    unfolding vlMsgPackIODecoderNext_def d if_not_P [OF lt] rd bn bind.bind_lunit Let_def tag_eq io_tag.simps
      if_not_P [OF ne(1)] if_not_P [OF ne(2)]
    by (intro dec_safe_if nil bool ext8 num slice dec_fixed_safe [OF ok assms(2)] fixext [unfolded Let_def])
      (simp_all add: tk_within_def)
  then show ?thesis by (auto simp: dec_safe_def split: option.splits if_splits)
qed

text \<open>A string that claims more bytes than there are: the error of an unexpected end.\<close>

theorem msgpack_decode_safe_witness:
  "\<exists>dec tk. vlMsgPackIODecoderNext (vlMsgPackIODecoderStart [Some 0xD9, Some 200, Some 97] 3)
      \<lparr>tk_type = VL_MSGPACK_NIL, tk_value = Tk_none\<rparr> = Some (False, dec, tk) \<and>
    dec_error dec = VL_MSGPACK_IO_ERR_UNEXPECTED_EOF \<and> dec_srcOffset dec \<le> 3"
proof -
  let ?dec = "vlMsgPackIODecoderStart [Some 0xD9, Some 200, Some 97] 3" and ?tk = "\<lparr>tk_type = VL_MSGPACK_NIL, tk_value = Tk_none\<rparr>"
  have "src_ok [Some 0xD9, Some 200, Some 97] ?dec" "tk_within [Some 0xD9, Some 200, Some 97] ?tk"
    by (simp_all add: src_ok_def tk_within_def vlMsgPackIODecoderStart_def)
  from msgpack_decode_safe [OF this] obtain ok dec tk where r: "vlMsgPackIODecoderNext ?dec ?tk = Some (ok, dec, tk)"
    "src_ok [Some 0xD9, Some 200, Some 97] dec"
    by (auto simp: vlMsgPackIODecoderStart_def split: option.splits)
  moreover have "ok = False \<and> dec_error dec = VL_MSGPACK_IO_ERR_UNEXPECTED_EOF"
    using r(1) by (simp add: vlMsgPackIODecoderNext_def vlMsgPackIODecoderStart_def u64_of_def read_range_def dec_advance_def
      dec_bytes_def dec_read_def VL_DECODE_EOFCHECK_def Let_def) auto
  ultimately show ?thesis by (auto simp: src_ok_def)
qed

section \<open>Long extensions\<close>

text \<open>
  The length of an extension with a length of two bytes is read into a signed integer, so the
  decoder cannot read what the encoder writes for 32768 bytes and more: up to 65531 bytes it reports
  an unexpected end whatever follows, and from 65532 bytes the check wraps around and it returns a
  token of almost 2^32 bytes, without regard to the length of the source.
\<close>

theorem msgpack_ext16_signed:
  assumes src: "src_has src 0 (Some (io_tag VL_MSGPACK_IO_EXT16) # be_bytes 2 n @ [Some t])" and n: "0x8000 \<le> n" "n < 2 ^ 16"
  shows "if n < 65532
    then \<exists>dec tk'. vlMsgPackIODecoderNext (vlMsgPackIODecoderStart src (length src)) tk = Some (False, dec, tk') \<and>
      dec_error dec = VL_MSGPACK_IO_ERR_UNEXPECTED_EOF
    else vlMsgPackIODecoderNext (vlMsgPackIODecoderStart src (length src)) tk =
      Some (True, dec_at src (2 ^ 32 - 2 ^ 16 + n + 4), \<lparr>tk_type = VL_MSGPACK_EXT, tk_value = Tk_ext t 4 (2 ^ 32 - 2 ^ 16 + n)\<rparr>)"
proof -
  note s = src_has_head [OF src]
  have len: "4 \<le> length src" "length src < 2 ^ 62" using src by (simp_all add: src_has_def)
  have b: "Suc 0 + 2 \<le> length src" using len by simp
  have r: "dec_read (dec_at src (Suc 0)) 2 = Some (n, dec_at src 3)"
    using dec_read_ok [OF s(2)] n(2) by (simp add: numeral_3_eq_3)
  have "(of_nat n :: u16) = word_of_int (int n - 0x10000)" by simp
  then have "sint (of_nat n :: u16) = int n - 0x10000"
    using n by (simp add: signed_of_int signed_take_bit_int_eq_self del: of_int_diff)
  then have l: "ext_lens16 n = Some (nat ((int n - 0x10000 + 1) mod 2 ^ 64), nat ((int n - 0x10000) mod 2 ^ 32))"
    unfolding ext_lens16_def by simp
  let ?need = "nat ((int n - 0x10000 + 1) mod 2 ^ 64)" and ?len = "nat ((int n - 0x10000) mod 2 ^ 32)"
  have step: "vlMsgPackIODecoderNext (dec_at src 0) tk =
      dec_ext_rest ?need ?len (dec_at src 3) (tk\<lparr>tk_type := VL_MSGPACK_EXT\<rparr>)"
    unfolding next_tag [OF s(1)] vl_msgpack_io_type.case dec_ext_def Let_def eof_check_passes [OF b len(2)] r
      bind.bind_lunit prod.case l ..
  show ?thesis
  proof (cases "n < 65532")
    case True
    have "(int n - 0x10000 + 1) mod 2 ^ 64 = (int n - 0xFFFF + 2 ^ 64) mod 2 ^ 64"
      unfolding mod_add_self2 by (rule arg_cong [where f = "\<lambda>x. x mod 2 ^ 64"]) simp
    also have "\<dots> = int n - 0xFFFF + 2 ^ 64" by (rule mod_pos_pos_trivial) (use True in simp_all)
    also have "\<dots> = int (2 ^ 64 + n - 0xFFFF)" by (simp add: of_nat_diff)
    finally have need: "?need = 2 ^ 64 + n - 0xFFFF" by (simp only: nat_int)
    have "3 + ?need < 2 ^ 64" "2 ^ 63 < 3 + ?need" using need True n by simp_all
    then have "u64_of (3 + ?need) > length src" using len(2) by (simp only: u64_of_def) simp
    then show ?thesis using True unfolding dec_at_simps(4) step dec_ext_rest_def VL_DECODE_EOFCHECK_def dec_at_simps by simp
  next
    case False
    then consider "n = 65532" | "n = 65533" | "n = 65534" | "n = 65535" using n by fastforce
    then have need: "u64_of (3 + ?need) = n - 65532" and l2: "?len = 2 ^ 32 - 2 ^ 16 + n"
      by (cases, simp_all add: u64_of_def)+
    have "\<not> u64_of (3 + ?need) > length src" using need n len by simp
    moreover have "read_range src 3 1 = Some [Some t]" using src_has_read [OF s(3)] by (simp add: numeral_3_eq_3)
    ultimately show ?thesis using False n
      unfolding dec_at_simps(4) step dec_ext_rest_def VL_DECODE_EOFCHECK_def dec_at_simps l2
      by (cases tk) (simp add: dec_advance_at add.commute)
  qed
qed


theorem msgpack_ext16_signed_witness:
  "vlMsgPackIODecoderNext (vlMsgPackIODecoderStart [Some 0xC8, Some 0xFF, Some 0xFF, Some 1] 4) tk =
    Some (True, dec_at [Some 0xC8, Some 0xFF, Some 0xFF, Some 1] (2 ^ 32 + 3),
      \<lparr>tk_type = VL_MSGPACK_EXT, tk_value = Tk_ext 1 4 (2 ^ 32 - 1)\<rparr>)"
proof -
  let ?src = "[Some 0xC8, Some 0xFF, Some 0xFF, Some 1] :: byte list"
  have "src_has ?src 0 (Some (io_tag VL_MSGPACK_IO_EXT16) # be_bytes 2 65535 @ [Some 1])"
  proof -
    have "nat_bytes (Suc (Suc 0)) 65535 = [Some 0xFF, Some 0xFF]" by simp
    then have "be_bytes 2 65535 = [Some 0xFF, Some 0xFF]" by (simp only: be_bytes_def numeral_2_eq_2) simp
    then show ?thesis by (simp add: src_has_def)
  qed
  note r = msgpack_ext16_signed [OF this, of tk]
  have len: "length ?src = 4" by simp
  show ?thesis using r unfolding len by simp
qed

end
