(* ===== verification/VL_Simd.thy ===== *)
theory VL_Simd
  imports VL_MemorySpec
begin

text \<open>
  \<^verbatim>\<open>src/core/vl_simd.c\<close> and \<^verbatim>\<open>src/core/platform/vl_simd_portable.c\<close>: vectors and the functions on their
  lanes, in plain C, called through a table. Vectors are the lists of their components. Numbers of single
  precision are their 32 bits; the four operations on them are a parameter, and their comparison is that of
  IEEE 754: nothing compares with a NaN, and both zeros are equal. Signed integers are their bits as well.
\<close>

section \<open>Numbers of single precision\<close>

record float_ops =
  f_add :: "u32 \<Rightarrow> u32 \<Rightarrow> u32"
  f_sub :: "u32 \<Rightarrow> u32 \<Rightarrow> u32"
  f_mul :: "u32 \<Rightarrow> u32 \<Rightarrow> u32"
  f_div :: "u32 \<Rightarrow> u32 \<Rightarrow> u32"

definition f32_nan :: "u32 \<Rightarrow> bool" where
  "f32_nan w \<longleftrightarrow> w AND 0x7FFFFFFF > 0x7F800000"

text \<open>The magnitudes are ordered like their bits.\<close>

definition f32_rank :: "u32 \<Rightarrow> int" where
  "f32_rank w = (if bit w 31 then - uint (w AND 0x7FFFFFFF) else uint (w AND 0x7FFFFFFF))"

definition f32_less :: "u32 \<Rightarrow> u32 \<Rightarrow> bool" where
  "f32_less a b \<longleftrightarrow> \<not> f32_nan a \<and> \<not> f32_nan b \<and> f32_rank a < f32_rank b"

definition f32_greater :: "u32 \<Rightarrow> u32 \<Rightarrow> bool" where
  "f32_greater a b = f32_less b a"

definition f32_equal :: "u32 \<Rightarrow> u32 \<Rightarrow> bool" where
  "f32_equal a b \<longleftrightarrow> \<not> f32_nan a \<and> \<not> f32_nan b \<and> f32_rank a = f32_rank b"

text \<open>A result of type \<^verbatim>\<open>int\<close>; overflow is undefined.\<close>

definition int_result :: "int \<Rightarrow> u32 option" where
  "int_result i = (if - (2 ^ 31) \<le> i \<and> i < 2 ^ 31 then Some (word_of_int i) else None)"

section \<open>Portable functions\<close>

definition vlSIMDLoadVec4F32Portable :: "u32 list \<Rightarrow> u32 list option" where
  "vlSIMDLoadVec4F32Portable ptr = read_range ptr 0 4"

definition vlSIMDStoreVec4F32Portable :: "u32 list \<Rightarrow> u32 list \<Rightarrow> u32 list option" where
  "vlSIMDStoreVec4F32Portable ptr v = write_range ptr 0 v"

definition vlSIMDSplatVec4F32Portable :: "u32 \<Rightarrow> u32 list" where
  "vlSIMDSplatVec4F32Portable scalar = map (\<lambda>i. scalar) [0..<4]"

definition vlSIMDAddVec4F32Portable :: "float_ops \<Rightarrow> u32 list \<Rightarrow> u32 list \<Rightarrow> u32 list" where
  "vlSIMDAddVec4F32Portable fo a b = map (\<lambda>i. f_add fo (a ! i) (b ! i)) [0..<4]"

definition vlSIMDSubVec4F32Portable :: "float_ops \<Rightarrow> u32 list \<Rightarrow> u32 list \<Rightarrow> u32 list" where
  "vlSIMDSubVec4F32Portable fo a b = map (\<lambda>i. f_sub fo (a ! i) (b ! i)) [0..<4]"

definition vlSIMDMulVec4F32Portable :: "float_ops \<Rightarrow> u32 list \<Rightarrow> u32 list \<Rightarrow> u32 list" where
  "vlSIMDMulVec4F32Portable fo a b = map (\<lambda>i. f_mul fo (a ! i) (b ! i)) [0..<4]"

definition vlSIMDDivVec4F32Portable :: "float_ops \<Rightarrow> u32 list \<Rightarrow> u32 list \<Rightarrow> u32 list" where
  "vlSIMDDivVec4F32Portable fo a b = map (\<lambda>i. f_div fo (a ! i) (b ! i)) [0..<4]"

definition vlSIMDFmaVec4F32Portable :: "float_ops \<Rightarrow> u32 list \<Rightarrow> u32 list \<Rightarrow> u32 list \<Rightarrow> u32 list" where
  "vlSIMDFmaVec4F32Portable fo a b c = map (\<lambda>i. f_add fo (f_mul fo (a ! i) (b ! i)) (c ! i)) [0..<4]"

definition vlSIMDHsumVec4F32Portable :: "float_ops \<Rightarrow> u32 list \<Rightarrow> u32" where
  "vlSIMDHsumVec4F32Portable fo v = f_add fo (f_add fo (f_add fo (v ! 0) (v ! 1)) (v ! 2)) (v ! 3)"

definition vlSIMDHprodVec4F32Portable :: "float_ops \<Rightarrow> u32 list \<Rightarrow> u32" where
  "vlSIMDHprodVec4F32Portable fo v = f_mul fo (f_mul fo (f_mul fo (v ! 0) (v ! 1)) (v ! 2)) (v ! 3)"

definition vlSIMDHmaxVec4F32Portable :: "u32 list \<Rightarrow> u32" where
  "vlSIMDHmaxVec4F32Portable v = fold (\<lambda>i max_val. if f32_greater (v ! i) max_val then v ! i else max_val) [1..<4] (v ! 0)"

definition vlSIMDHminVec4F32Portable :: "u32 list \<Rightarrow> u32" where
  "vlSIMDHminVec4F32Portable v = fold (\<lambda>i min_val. if f32_less (v ! i) min_val then v ! i else min_val) [1..<4] (v ! 0)"

definition vlSIMDExtractLaneVec4F32Portable :: "u32 list \<Rightarrow> u32 \<Rightarrow> u32" where
  "vlSIMDExtractLaneVec4F32Portable v lane = v ! unat (lane AND 3)"

definition vlSIMDBroadcastLaneVec4F32Portable :: "u32 list \<Rightarrow> u32 \<Rightarrow> u32 list" where
  "vlSIMDBroadcastLaneVec4F32Portable v lane = vlSIMDSplatVec4F32Portable (v ! unat (lane AND 3))"

definition vlSIMDCmpPortable :: "u32 list \<Rightarrow> u32 list \<Rightarrow> (u32 \<Rightarrow> u32 \<Rightarrow> bool) \<Rightarrow> u32 list" where
  "vlSIMDCmpPortable a b cmp_fn = map (\<lambda>i. if cmp_fn (a ! i) (b ! i) then 0xFFFFFFFF else 0) [0..<4]"

definition vlSIMDLtCmp :: "u32 \<Rightarrow> u32 \<Rightarrow> bool" where
  "vlSIMDLtCmp a b = f32_less a b"

definition vlSIMDLtVec4F32Portable :: "u32 list \<Rightarrow> u32 list \<Rightarrow> u32 list" where
  "vlSIMDLtVec4F32Portable a b = vlSIMDCmpPortable a b vlSIMDLtCmp"

definition vlSIMDGtCmp :: "u32 \<Rightarrow> u32 \<Rightarrow> bool" where
  "vlSIMDGtCmp a b = f32_greater a b"

definition vlSIMDGtVec4F32Portable :: "u32 list \<Rightarrow> u32 list \<Rightarrow> u32 list" where
  "vlSIMDGtVec4F32Portable a b = vlSIMDCmpPortable a b vlSIMDGtCmp"

definition vlSIMDEqCmp :: "u32 \<Rightarrow> u32 \<Rightarrow> bool" where
  "vlSIMDEqCmp a b = f32_equal a b"

definition vlSIMDEqVec4F32Portable :: "u32 list \<Rightarrow> u32 list \<Rightarrow> u32 list" where
  "vlSIMDEqVec4F32Portable a b = vlSIMDCmpPortable a b vlSIMDEqCmp"

definition vlSIMDAndVec4F32Portable :: "u32 list \<Rightarrow> u32 list \<Rightarrow> u32 list" where
  "vlSIMDAndVec4F32Portable a b = map (\<lambda>i. a ! i AND b ! i) [0..<4]"

definition vlSIMDOrVec4F32Portable :: "u32 list \<Rightarrow> u32 list \<Rightarrow> u32 list" where
  "vlSIMDOrVec4F32Portable a b = map (\<lambda>i. a ! i OR b ! i) [0..<4]"

definition vlSIMDXorVec4F32Portable :: "u32 list \<Rightarrow> u32 list \<Rightarrow> u32 list" where
  "vlSIMDXorVec4F32Portable a b = map (\<lambda>i. a ! i XOR b ! i) [0..<4]"

definition vlSIMDNotVec4F32Portable :: "u32 list \<Rightarrow> u32 list" where
  "vlSIMDNotVec4F32Portable a = map (\<lambda>i. NOT (a ! i)) [0..<4]"

definition vlSIMDLoadVec8F32Portable :: "u32 list \<Rightarrow> u32 list option" where
  "vlSIMDLoadVec8F32Portable ptr = read_range ptr 0 8"

definition vlSIMDStoreVec8F32Portable :: "u32 list \<Rightarrow> u32 list \<Rightarrow> u32 list option" where
  "vlSIMDStoreVec8F32Portable ptr v = write_range ptr 0 v"

definition vlSIMDSplatVec8F32Portable :: "u32 \<Rightarrow> u32 list" where
  "vlSIMDSplatVec8F32Portable scalar = map (\<lambda>i. scalar) [0..<8]"

definition vlSIMDAddVec8F32Portable :: "float_ops \<Rightarrow> u32 list \<Rightarrow> u32 list \<Rightarrow> u32 list" where
  "vlSIMDAddVec8F32Portable fo a b = map (\<lambda>i. f_add fo (a ! i) (b ! i)) [0..<8]"

definition vlSIMDSubVec8F32Portable :: "float_ops \<Rightarrow> u32 list \<Rightarrow> u32 list \<Rightarrow> u32 list" where
  "vlSIMDSubVec8F32Portable fo a b = map (\<lambda>i. f_sub fo (a ! i) (b ! i)) [0..<8]"

definition vlSIMDMulVec8F32Portable :: "float_ops \<Rightarrow> u32 list \<Rightarrow> u32 list \<Rightarrow> u32 list" where
  "vlSIMDMulVec8F32Portable fo a b = map (\<lambda>i. f_mul fo (a ! i) (b ! i)) [0..<8]"

definition vlSIMDFmaVec8F32Portable :: "float_ops \<Rightarrow> u32 list \<Rightarrow> u32 list \<Rightarrow> u32 list \<Rightarrow> u32 list" where
  "vlSIMDFmaVec8F32Portable fo a b c = map (\<lambda>i. f_add fo (f_mul fo (a ! i) (b ! i)) (c ! i)) [0..<8]"

definition vlSIMDLtVec8F32Portable :: "u32 list \<Rightarrow> u32 list \<Rightarrow> u32 list" where
  "vlSIMDLtVec8F32Portable a b = map (\<lambda>i. if f32_less (a ! i) (b ! i) then 0xFFFFFFFF else 0) [0..<8]"

definition vlSIMDGtVec8F32Portable :: "u32 list \<Rightarrow> u32 list \<Rightarrow> u32 list" where
  "vlSIMDGtVec8F32Portable a b = map (\<lambda>i. if f32_greater (a ! i) (b ! i) then 0xFFFFFFFF else 0) [0..<8]"

definition vlSIMDEqVec8F32Portable :: "u32 list \<Rightarrow> u32 list \<Rightarrow> u32 list" where
  "vlSIMDEqVec8F32Portable a b = map (\<lambda>i. if f32_equal (a ! i) (b ! i) then 0xFFFFFFFF else 0) [0..<8]"

definition vlSIMDAndVec8F32Portable :: "u32 list \<Rightarrow> u32 list \<Rightarrow> u32 list" where
  "vlSIMDAndVec8F32Portable a b = map (\<lambda>i. a ! i AND b ! i) [0..<8]"

definition vlSIMDOrVec8F32Portable :: "u32 list \<Rightarrow> u32 list \<Rightarrow> u32 list" where
  "vlSIMDOrVec8F32Portable a b = map (\<lambda>i. a ! i OR b ! i) [0..<8]"

definition vlSIMDXorVec8F32Portable :: "u32 list \<Rightarrow> u32 list \<Rightarrow> u32 list" where
  "vlSIMDXorVec8F32Portable a b = map (\<lambda>i. a ! i XOR b ! i) [0..<8]"

definition vlSIMDNotVec8F32Portable :: "u32 list \<Rightarrow> u32 list" where
  "vlSIMDNotVec8F32Portable a = map (\<lambda>i. NOT (a ! i)) [0..<8]"

definition vlSIMDLoadVec4I32Portable :: "u32 list \<Rightarrow> u32 list option" where
  "vlSIMDLoadVec4I32Portable ptr = read_range ptr 0 4"

definition vlSIMDStoreVec4I32Portable :: "u32 list \<Rightarrow> u32 list \<Rightarrow> u32 list option" where
  "vlSIMDStoreVec4I32Portable ptr v = write_range ptr 0 v"

definition vlSIMDAddVec4I32Portable :: "u32 list \<Rightarrow> u32 list \<Rightarrow> u32 list option" where
  "vlSIMDAddVec4I32Portable a b = those (map (\<lambda>i. int_result (sint (a ! i) + sint (b ! i))) [0..<4])"

definition vlSIMDMulVec4I32Portable :: "u32 list \<Rightarrow> u32 list \<Rightarrow> u32 list option" where
  "vlSIMDMulVec4I32Portable a b = those (map (\<lambda>i. int_result (sint (a ! i) * sint (b ! i))) [0..<4])"

definition vlSIMDLoadVec8I16Portable :: "u16 list \<Rightarrow> u16 list option" where
  "vlSIMDLoadVec8I16Portable ptr = read_range ptr 0 8"

definition vlSIMDStoreVec8I16Portable :: "u16 list \<Rightarrow> u16 list \<Rightarrow> u16 list option" where
  "vlSIMDStoreVec8I16Portable ptr v = write_range ptr 0 v"

definition vlSIMDAddVec8I16Portable :: "u16 list \<Rightarrow> u16 list \<Rightarrow> u16 list" where
  "vlSIMDAddVec8I16Portable a b = map (\<lambda>i. word_of_int (sint (a ! i) + sint (b ! i))) [0..<8]"

definition vlSIMDLoadVec32U8Portable :: "u8 list \<Rightarrow> u8 list option" where
  "vlSIMDLoadVec32U8Portable ptr = read_range ptr 0 32"

definition vlSIMDStoreVec32U8Portable :: "u8 list \<Rightarrow> u8 list \<Rightarrow> u8 list option" where
  "vlSIMDStoreVec32U8Portable ptr v = write_range ptr 0 v"

section \<open>The table of functions\<close>

text \<open>Pointers to functions, which may be \<^verbatim>\<open>NULL\<close>: before \<^verbatim>\<open>vlSIMDInit\<close> some of them are.\<close>

record vl_simd_functions_t =
  fn_load_vec4f32 :: "(u32 list \<Rightarrow> u32 list option) option"
  fn_store_vec4f32 :: "(u32 list \<Rightarrow> u32 list \<Rightarrow> u32 list option) option"
  fn_splat_vec4f32 :: "(u32 \<Rightarrow> u32 list) option"
  fn_add_vec4f32 :: "(u32 list \<Rightarrow> u32 list \<Rightarrow> u32 list) option"
  fn_sub_vec4f32 :: "(u32 list \<Rightarrow> u32 list \<Rightarrow> u32 list) option"
  fn_mul_vec4f32 :: "(u32 list \<Rightarrow> u32 list \<Rightarrow> u32 list) option"
  fn_div_vec4f32 :: "(u32 list \<Rightarrow> u32 list \<Rightarrow> u32 list) option"
  fn_fma_vec4f32 :: "(u32 list \<Rightarrow> u32 list \<Rightarrow> u32 list \<Rightarrow> u32 list) option"
  fn_hsum_vec4f32 :: "(u32 list \<Rightarrow> u32) option"
  fn_load_vec8f32 :: "(u32 list \<Rightarrow> u32 list option) option"
  fn_store_vec8f32 :: "(u32 list \<Rightarrow> u32 list \<Rightarrow> u32 list option) option"
  fn_add_vec8f32 :: "(u32 list \<Rightarrow> u32 list \<Rightarrow> u32 list) option"
  fn_mul_vec8f32 :: "(u32 list \<Rightarrow> u32 list \<Rightarrow> u32 list) option"
  fn_fma_vec8f32 :: "(u32 list \<Rightarrow> u32 list \<Rightarrow> u32 list \<Rightarrow> u32 list) option"
  fn_splat_vec8f32 :: "(u32 \<Rightarrow> u32 list) option"
  fn_sub_vec8f32 :: "(u32 list \<Rightarrow> u32 list \<Rightarrow> u32 list) option"
  fn_lt_vec8f32 :: "(u32 list \<Rightarrow> u32 list \<Rightarrow> u32 list) option"
  fn_gt_vec8f32 :: "(u32 list \<Rightarrow> u32 list \<Rightarrow> u32 list) option"
  fn_eq_vec8f32 :: "(u32 list \<Rightarrow> u32 list \<Rightarrow> u32 list) option"
  fn_and_vec8f32 :: "(u32 list \<Rightarrow> u32 list \<Rightarrow> u32 list) option"
  fn_or_vec8f32 :: "(u32 list \<Rightarrow> u32 list \<Rightarrow> u32 list) option"
  fn_xor_vec8f32 :: "(u32 list \<Rightarrow> u32 list \<Rightarrow> u32 list) option"
  fn_not_vec8f32 :: "(u32 list \<Rightarrow> u32 list) option"
  fn_lt_vec4f32 :: "(u32 list \<Rightarrow> u32 list \<Rightarrow> u32 list) option"
  fn_gt_vec4f32 :: "(u32 list \<Rightarrow> u32 list \<Rightarrow> u32 list) option"
  fn_eq_vec4f32 :: "(u32 list \<Rightarrow> u32 list \<Rightarrow> u32 list) option"
  fn_and_vec4f32 :: "(u32 list \<Rightarrow> u32 list \<Rightarrow> u32 list) option"
  fn_or_vec4f32 :: "(u32 list \<Rightarrow> u32 list \<Rightarrow> u32 list) option"
  fn_xor_vec4f32 :: "(u32 list \<Rightarrow> u32 list \<Rightarrow> u32 list) option"
  fn_not_vec4f32 :: "(u32 list \<Rightarrow> u32 list) option"
  fn_hmax_vec4f32 :: "(u32 list \<Rightarrow> u32) option"
  fn_hmin_vec4f32 :: "(u32 list \<Rightarrow> u32) option"
  fn_hprod_vec4f32 :: "(u32 list \<Rightarrow> u32) option"
  fn_extract_lane_vec4f32 :: "(u32 list \<Rightarrow> u32 \<Rightarrow> u32) option"
  fn_broadcast_lane_vec4f32 :: "(u32 list \<Rightarrow> u32 \<Rightarrow> u32 list) option"
  fn_load_vec4i32 :: "(u32 list \<Rightarrow> u32 list option) option"
  fn_store_vec4i32 :: "(u32 list \<Rightarrow> u32 list \<Rightarrow> u32 list option) option"
  fn_add_vec4i32 :: "(u32 list \<Rightarrow> u32 list \<Rightarrow> u32 list option) option"
  fn_mul_vec4i32 :: "(u32 list \<Rightarrow> u32 list \<Rightarrow> u32 list option) option"
  fn_load_vec8i16 :: "(u16 list \<Rightarrow> u16 list option) option"
  fn_store_vec8i16 :: "(u16 list \<Rightarrow> u16 list \<Rightarrow> u16 list option) option"
  fn_add_vec8i16 :: "(u16 list \<Rightarrow> u16 list \<Rightarrow> u16 list) option"
  fn_load_vec32u8 :: "(u8 list \<Rightarrow> u8 list option) option"
  fn_store_vec32u8 :: "(u8 list \<Rightarrow> u8 list \<Rightarrow> u8 list option) option"

text \<open>The table as it is when the program starts.\<close>

definition simd_static_table :: "float_ops \<Rightarrow> vl_simd_functions_t" where
  "simd_static_table fo =
     \<lparr>fn_load_vec4f32 = Some vlSIMDLoadVec4F32Portable,
      fn_store_vec4f32 = Some vlSIMDStoreVec4F32Portable,
      fn_splat_vec4f32 = Some vlSIMDSplatVec4F32Portable,
      fn_add_vec4f32 = Some (vlSIMDAddVec4F32Portable fo),
      fn_sub_vec4f32 = Some (vlSIMDSubVec4F32Portable fo),
      fn_mul_vec4f32 = Some (vlSIMDMulVec4F32Portable fo),
      fn_div_vec4f32 = Some (vlSIMDDivVec4F32Portable fo),
      fn_fma_vec4f32 = Some (vlSIMDFmaVec4F32Portable fo),
      fn_hsum_vec4f32 = Some (vlSIMDHsumVec4F32Portable fo),
      fn_load_vec8f32 = Some vlSIMDLoadVec8F32Portable,
      fn_store_vec8f32 = Some vlSIMDStoreVec8F32Portable,
      fn_add_vec8f32 = Some (vlSIMDAddVec8F32Portable fo),
      fn_mul_vec8f32 = Some (vlSIMDMulVec8F32Portable fo),
      fn_fma_vec8f32 = Some (vlSIMDFmaVec8F32Portable fo),
      fn_splat_vec8f32 = None,
      fn_sub_vec8f32 = None,
      fn_lt_vec8f32 = None,
      fn_gt_vec8f32 = None,
      fn_eq_vec8f32 = None,
      fn_and_vec8f32 = None,
      fn_or_vec8f32 = None,
      fn_xor_vec8f32 = None,
      fn_not_vec8f32 = None,
      fn_lt_vec4f32 = Some vlSIMDLtVec4F32Portable,
      fn_gt_vec4f32 = Some vlSIMDGtVec4F32Portable,
      fn_eq_vec4f32 = Some vlSIMDEqVec4F32Portable,
      fn_and_vec4f32 = Some vlSIMDAndVec4F32Portable,
      fn_or_vec4f32 = Some vlSIMDOrVec4F32Portable,
      fn_xor_vec4f32 = Some vlSIMDXorVec4F32Portable,
      fn_not_vec4f32 = Some vlSIMDNotVec4F32Portable,
      fn_hmax_vec4f32 = Some vlSIMDHmaxVec4F32Portable,
      fn_hmin_vec4f32 = Some vlSIMDHminVec4F32Portable,
      fn_hprod_vec4f32 = Some (vlSIMDHprodVec4F32Portable fo),
      fn_extract_lane_vec4f32 = Some vlSIMDExtractLaneVec4F32Portable,
      fn_broadcast_lane_vec4f32 = Some vlSIMDBroadcastLaneVec4F32Portable,
      fn_load_vec4i32 = Some vlSIMDLoadVec4I32Portable,
      fn_store_vec4i32 = Some vlSIMDStoreVec4I32Portable,
      fn_add_vec4i32 = Some vlSIMDAddVec4I32Portable,
      fn_mul_vec4i32 = Some vlSIMDMulVec4I32Portable,
      fn_load_vec8i16 = None,
      fn_store_vec8i16 = None,
      fn_add_vec8i16 = None,
      fn_load_vec32u8 = None,
      fn_store_vec32u8 = None\<rparr>"

definition vlSIMDInitPortable :: "float_ops \<Rightarrow> vl_simd_functions_t \<Rightarrow> vl_simd_functions_t" where
  "vlSIMDInitPortable fo t = t
     \<lparr>fn_load_vec4f32 := Some vlSIMDLoadVec4F32Portable,
      fn_store_vec4f32 := Some vlSIMDStoreVec4F32Portable,
      fn_splat_vec4f32 := Some vlSIMDSplatVec4F32Portable,
      fn_add_vec4f32 := Some (vlSIMDAddVec4F32Portable fo),
      fn_sub_vec4f32 := Some (vlSIMDSubVec4F32Portable fo),
      fn_mul_vec4f32 := Some (vlSIMDMulVec4F32Portable fo),
      fn_div_vec4f32 := Some (vlSIMDDivVec4F32Portable fo),
      fn_fma_vec4f32 := Some (vlSIMDFmaVec4F32Portable fo),
      fn_hsum_vec4f32 := Some (vlSIMDHsumVec4F32Portable fo),
      fn_load_vec8f32 := Some vlSIMDLoadVec8F32Portable,
      fn_store_vec8f32 := Some vlSIMDStoreVec8F32Portable,
      fn_add_vec8f32 := Some (vlSIMDAddVec8F32Portable fo),
      fn_mul_vec8f32 := Some (vlSIMDMulVec8F32Portable fo),
      fn_fma_vec8f32 := Some (vlSIMDFmaVec8F32Portable fo),
      fn_splat_vec8f32 := Some vlSIMDSplatVec8F32Portable,
      fn_sub_vec8f32 := Some (vlSIMDSubVec8F32Portable fo),
      fn_lt_vec8f32 := Some vlSIMDLtVec8F32Portable,
      fn_gt_vec8f32 := Some vlSIMDGtVec8F32Portable,
      fn_eq_vec8f32 := Some vlSIMDEqVec8F32Portable,
      fn_and_vec8f32 := Some vlSIMDAndVec8F32Portable,
      fn_or_vec8f32 := Some vlSIMDOrVec8F32Portable,
      fn_xor_vec8f32 := Some vlSIMDXorVec8F32Portable,
      fn_not_vec8f32 := Some vlSIMDNotVec8F32Portable,
      fn_lt_vec4f32 := Some vlSIMDLtVec4F32Portable,
      fn_gt_vec4f32 := Some vlSIMDGtVec4F32Portable,
      fn_eq_vec4f32 := Some vlSIMDEqVec4F32Portable,
      fn_and_vec4f32 := Some vlSIMDAndVec4F32Portable,
      fn_or_vec4f32 := Some vlSIMDOrVec4F32Portable,
      fn_xor_vec4f32 := Some vlSIMDXorVec4F32Portable,
      fn_not_vec4f32 := Some vlSIMDNotVec4F32Portable,
      fn_hmax_vec4f32 := Some vlSIMDHmaxVec4F32Portable,
      fn_hmin_vec4f32 := Some vlSIMDHminVec4F32Portable,
      fn_hprod_vec4f32 := Some (vlSIMDHprodVec4F32Portable fo),
      fn_extract_lane_vec4f32 := Some vlSIMDExtractLaneVec4F32Portable,
      fn_broadcast_lane_vec4f32 := Some vlSIMDBroadcastLaneVec4F32Portable,
      fn_load_vec4i32 := Some vlSIMDLoadVec4I32Portable,
      fn_store_vec4i32 := Some vlSIMDStoreVec4I32Portable,
      fn_add_vec4i32 := Some vlSIMDAddVec4I32Portable,
      fn_mul_vec4i32 := Some vlSIMDMulVec4I32Portable,
      fn_load_vec8i16 := Some vlSIMDLoadVec8I16Portable,
      fn_store_vec8i16 := Some vlSIMDStoreVec8I16Portable,
      fn_add_vec8i16 := Some vlSIMDAddVec8I16Portable,
      fn_load_vec32u8 := Some vlSIMDLoadVec32U8Portable,
      fn_store_vec32u8 := Some vlSIMDStoreVec32U8Portable\<rparr>"

text \<open>
  \<^verbatim>\<open>vlSIMDInit\<close> where no vector extension is compiled in. The state has whether it was called.
\<close>

record simd_state =
  si_initialized :: bool
  si_functions :: vl_simd_functions_t

definition vlSIMDInit :: "float_ops \<Rightarrow> simd_state \<Rightarrow> simd_state" where
  "vlSIMDInit fo s =
     (if si_initialized s then s
      else s\<lparr>si_initialized := True, si_functions := vlSIMDInitPortable fo (si_functions s)\<rparr>)"

section \<open>Functions of the header\<close>

text \<open>A call through a pointer that is \<^verbatim>\<open>NULL\<close> is undefined.\<close>

definition vlSIMDLoadVec4F32 :: "simd_state \<Rightarrow> u32 list \<Rightarrow> u32 list option" where
  "vlSIMDLoadVec4F32 s ptr = do { f \<leftarrow> fn_load_vec4f32 (si_functions s); f ptr }"

definition vlSIMDStoreVec4F32 :: "simd_state \<Rightarrow> u32 list \<Rightarrow> u32 list \<Rightarrow> u32 list option" where
  "vlSIMDStoreVec4F32 s ptr v = do { f \<leftarrow> fn_store_vec4f32 (si_functions s); f ptr v }"

definition vlSIMDSplatVec4F32 :: "simd_state \<Rightarrow> u32 \<Rightarrow> u32 list option" where
  "vlSIMDSplatVec4F32 s scalar = do { f \<leftarrow> fn_splat_vec4f32 (si_functions s); Some (f scalar) }"

definition vlSIMDAddVec4F32 :: "simd_state \<Rightarrow> u32 list \<Rightarrow> u32 list \<Rightarrow> u32 list option" where
  "vlSIMDAddVec4F32 s a b = do { f \<leftarrow> fn_add_vec4f32 (si_functions s); Some (f a b) }"

definition vlSIMDSubVec4F32 :: "simd_state \<Rightarrow> u32 list \<Rightarrow> u32 list \<Rightarrow> u32 list option" where
  "vlSIMDSubVec4F32 s a b = do { f \<leftarrow> fn_sub_vec4f32 (si_functions s); Some (f a b) }"

definition vlSIMDMulVec4F32 :: "simd_state \<Rightarrow> u32 list \<Rightarrow> u32 list \<Rightarrow> u32 list option" where
  "vlSIMDMulVec4F32 s a b = do { f \<leftarrow> fn_mul_vec4f32 (si_functions s); Some (f a b) }"

definition vlSIMDDivVec4F32 :: "simd_state \<Rightarrow> u32 list \<Rightarrow> u32 list \<Rightarrow> u32 list option" where
  "vlSIMDDivVec4F32 s a b = do { f \<leftarrow> fn_div_vec4f32 (si_functions s); Some (f a b) }"

definition vlSIMDFmaVec4F32 :: "simd_state \<Rightarrow> u32 list \<Rightarrow> u32 list \<Rightarrow> u32 list \<Rightarrow> u32 list option" where
  "vlSIMDFmaVec4F32 s a b c = do { f \<leftarrow> fn_fma_vec4f32 (si_functions s); Some (f a b c) }"

definition vlSIMDHsumVec4F32 :: "simd_state \<Rightarrow> u32 list \<Rightarrow> u32 option" where
  "vlSIMDHsumVec4F32 s v = do { f \<leftarrow> fn_hsum_vec4f32 (si_functions s); Some (f v) }"

definition vlSIMDLoadVec8F32 :: "simd_state \<Rightarrow> u32 list \<Rightarrow> u32 list option" where
  "vlSIMDLoadVec8F32 s ptr = do { f \<leftarrow> fn_load_vec8f32 (si_functions s); f ptr }"

definition vlSIMDStoreVec8F32 :: "simd_state \<Rightarrow> u32 list \<Rightarrow> u32 list \<Rightarrow> u32 list option" where
  "vlSIMDStoreVec8F32 s ptr v = do { f \<leftarrow> fn_store_vec8f32 (si_functions s); f ptr v }"

definition vlSIMDAddVec8F32 :: "simd_state \<Rightarrow> u32 list \<Rightarrow> u32 list \<Rightarrow> u32 list option" where
  "vlSIMDAddVec8F32 s a b = do { f \<leftarrow> fn_add_vec8f32 (si_functions s); Some (f a b) }"

definition vlSIMDMulVec8F32 :: "simd_state \<Rightarrow> u32 list \<Rightarrow> u32 list \<Rightarrow> u32 list option" where
  "vlSIMDMulVec8F32 s a b = do { f \<leftarrow> fn_mul_vec8f32 (si_functions s); Some (f a b) }"

definition vlSIMDFmaVec8F32 :: "simd_state \<Rightarrow> u32 list \<Rightarrow> u32 list \<Rightarrow> u32 list \<Rightarrow> u32 list option" where
  "vlSIMDFmaVec8F32 s a b c = do { f \<leftarrow> fn_fma_vec8f32 (si_functions s); Some (f a b c) }"

definition vlSIMDSplatVec8F32 :: "simd_state \<Rightarrow> u32 \<Rightarrow> u32 list option" where
  "vlSIMDSplatVec8F32 s scalar = do { f \<leftarrow> fn_splat_vec8f32 (si_functions s); Some (f scalar) }"

definition vlSIMDSubVec8F32 :: "simd_state \<Rightarrow> u32 list \<Rightarrow> u32 list \<Rightarrow> u32 list option" where
  "vlSIMDSubVec8F32 s a b = do { f \<leftarrow> fn_sub_vec8f32 (si_functions s); Some (f a b) }"

definition vlSIMDLtVec8F32 :: "simd_state \<Rightarrow> u32 list \<Rightarrow> u32 list \<Rightarrow> u32 list option" where
  "vlSIMDLtVec8F32 s a b = do { f \<leftarrow> fn_lt_vec8f32 (si_functions s); Some (f a b) }"

definition vlSIMDGtVec8F32 :: "simd_state \<Rightarrow> u32 list \<Rightarrow> u32 list \<Rightarrow> u32 list option" where
  "vlSIMDGtVec8F32 s a b = do { f \<leftarrow> fn_gt_vec8f32 (si_functions s); Some (f a b) }"

definition vlSIMDEqVec8F32 :: "simd_state \<Rightarrow> u32 list \<Rightarrow> u32 list \<Rightarrow> u32 list option" where
  "vlSIMDEqVec8F32 s a b = do { f \<leftarrow> fn_eq_vec8f32 (si_functions s); Some (f a b) }"

definition vlSIMDAndVec8F32 :: "simd_state \<Rightarrow> u32 list \<Rightarrow> u32 list \<Rightarrow> u32 list option" where
  "vlSIMDAndVec8F32 s a b = do { f \<leftarrow> fn_and_vec8f32 (si_functions s); Some (f a b) }"

definition vlSIMDOrVec8F32 :: "simd_state \<Rightarrow> u32 list \<Rightarrow> u32 list \<Rightarrow> u32 list option" where
  "vlSIMDOrVec8F32 s a b = do { f \<leftarrow> fn_or_vec8f32 (si_functions s); Some (f a b) }"

definition vlSIMDXorVec8F32 :: "simd_state \<Rightarrow> u32 list \<Rightarrow> u32 list \<Rightarrow> u32 list option" where
  "vlSIMDXorVec8F32 s a b = do { f \<leftarrow> fn_xor_vec8f32 (si_functions s); Some (f a b) }"

definition vlSIMDNotVec8F32 :: "simd_state \<Rightarrow> u32 list \<Rightarrow> u32 list option" where
  "vlSIMDNotVec8F32 s a = do { f \<leftarrow> fn_not_vec8f32 (si_functions s); Some (f a) }"

definition vlSIMDLtVec4F32 :: "simd_state \<Rightarrow> u32 list \<Rightarrow> u32 list \<Rightarrow> u32 list option" where
  "vlSIMDLtVec4F32 s a b = do { f \<leftarrow> fn_lt_vec4f32 (si_functions s); Some (f a b) }"

definition vlSIMDGtVec4F32 :: "simd_state \<Rightarrow> u32 list \<Rightarrow> u32 list \<Rightarrow> u32 list option" where
  "vlSIMDGtVec4F32 s a b = do { f \<leftarrow> fn_gt_vec4f32 (si_functions s); Some (f a b) }"

definition vlSIMDEqVec4F32 :: "simd_state \<Rightarrow> u32 list \<Rightarrow> u32 list \<Rightarrow> u32 list option" where
  "vlSIMDEqVec4F32 s a b = do { f \<leftarrow> fn_eq_vec4f32 (si_functions s); Some (f a b) }"

definition vlSIMDAndVec4F32 :: "simd_state \<Rightarrow> u32 list \<Rightarrow> u32 list \<Rightarrow> u32 list option" where
  "vlSIMDAndVec4F32 s a b = do { f \<leftarrow> fn_and_vec4f32 (si_functions s); Some (f a b) }"

definition vlSIMDOrVec4F32 :: "simd_state \<Rightarrow> u32 list \<Rightarrow> u32 list \<Rightarrow> u32 list option" where
  "vlSIMDOrVec4F32 s a b = do { f \<leftarrow> fn_or_vec4f32 (si_functions s); Some (f a b) }"

definition vlSIMDXorVec4F32 :: "simd_state \<Rightarrow> u32 list \<Rightarrow> u32 list \<Rightarrow> u32 list option" where
  "vlSIMDXorVec4F32 s a b = do { f \<leftarrow> fn_xor_vec4f32 (si_functions s); Some (f a b) }"

definition vlSIMDNotVec4F32 :: "simd_state \<Rightarrow> u32 list \<Rightarrow> u32 list option" where
  "vlSIMDNotVec4F32 s a = do { f \<leftarrow> fn_not_vec4f32 (si_functions s); Some (f a) }"

definition vlSIMDHmaxVec4F32 :: "simd_state \<Rightarrow> u32 list \<Rightarrow> u32 option" where
  "vlSIMDHmaxVec4F32 s v = do { f \<leftarrow> fn_hmax_vec4f32 (si_functions s); Some (f v) }"

definition vlSIMDHminVec4F32 :: "simd_state \<Rightarrow> u32 list \<Rightarrow> u32 option" where
  "vlSIMDHminVec4F32 s v = do { f \<leftarrow> fn_hmin_vec4f32 (si_functions s); Some (f v) }"

definition vlSIMDHprodVec4F32 :: "simd_state \<Rightarrow> u32 list \<Rightarrow> u32 option" where
  "vlSIMDHprodVec4F32 s v = do { f \<leftarrow> fn_hprod_vec4f32 (si_functions s); Some (f v) }"

definition vlSIMDExtractLaneVec4F32 :: "simd_state \<Rightarrow> u32 list \<Rightarrow> u32 \<Rightarrow> u32 option" where
  "vlSIMDExtractLaneVec4F32 s v lane = do { f \<leftarrow> fn_extract_lane_vec4f32 (si_functions s); Some (f v lane) }"

definition vlSIMDBroadcastLaneVec4F32 :: "simd_state \<Rightarrow> u32 list \<Rightarrow> u32 \<Rightarrow> u32 list option" where
  "vlSIMDBroadcastLaneVec4F32 s v lane = do { f \<leftarrow> fn_broadcast_lane_vec4f32 (si_functions s); Some (f v lane) }"

definition vlSIMDLoadVec4I32 :: "simd_state \<Rightarrow> u32 list \<Rightarrow> u32 list option" where
  "vlSIMDLoadVec4I32 s ptr = do { f \<leftarrow> fn_load_vec4i32 (si_functions s); f ptr }"

definition vlSIMDStoreVec4I32 :: "simd_state \<Rightarrow> u32 list \<Rightarrow> u32 list \<Rightarrow> u32 list option" where
  "vlSIMDStoreVec4I32 s ptr v = do { f \<leftarrow> fn_store_vec4i32 (si_functions s); f ptr v }"

definition vlSIMDAddVec4I32 :: "simd_state \<Rightarrow> u32 list \<Rightarrow> u32 list \<Rightarrow> u32 list option" where
  "vlSIMDAddVec4I32 s a b = do { f \<leftarrow> fn_add_vec4i32 (si_functions s); f a b }"

definition vlSIMDMulVec4I32 :: "simd_state \<Rightarrow> u32 list \<Rightarrow> u32 list \<Rightarrow> u32 list option" where
  "vlSIMDMulVec4I32 s a b = do { f \<leftarrow> fn_mul_vec4i32 (si_functions s); f a b }"

definition vlSIMDLoadVec8I16 :: "simd_state \<Rightarrow> u16 list \<Rightarrow> u16 list option" where
  "vlSIMDLoadVec8I16 s ptr = do { f \<leftarrow> fn_load_vec8i16 (si_functions s); f ptr }"

definition vlSIMDStoreVec8I16 :: "simd_state \<Rightarrow> u16 list \<Rightarrow> u16 list \<Rightarrow> u16 list option" where
  "vlSIMDStoreVec8I16 s ptr v = do { f \<leftarrow> fn_store_vec8i16 (si_functions s); f ptr v }"

definition vlSIMDAddVec8I16 :: "simd_state \<Rightarrow> u16 list \<Rightarrow> u16 list \<Rightarrow> u16 list option" where
  "vlSIMDAddVec8I16 s a b = do { f \<leftarrow> fn_add_vec8i16 (si_functions s); Some (f a b) }"

definition vlSIMDLoadVec32U8 :: "simd_state \<Rightarrow> u8 list \<Rightarrow> u8 list option" where
  "vlSIMDLoadVec32U8 s ptr = do { f \<leftarrow> fn_load_vec32u8 (si_functions s); f ptr }"

definition vlSIMDStoreVec32U8 :: "simd_state \<Rightarrow> u8 list \<Rightarrow> u8 list \<Rightarrow> u8 list option" where
  "vlSIMDStoreVec32U8 s ptr v = do { f \<leftarrow> fn_store_vec32u8 (si_functions s); f ptr v }"

end
