(* ===== verification/VL_SimdSpec.thy ===== *)
theory VL_SimdSpec
  imports VL_Simd
begin

text \<open>
  What the portable vector functions compute: masks that select lanes, the extremes of the components,
  sums of integers, and the table of functions before and after its initialisation.
\<close>

section \<open>Masks select lanes\<close>

lemma mask_select: "(if c then 0xFFFFFFFF else 0) AND x OR NOT (if c then 0xFFFFFFFF else 0) AND y = (if c then x else y)" for x y :: u32
proof -
  have "(0xFFFFFFFF :: u32) = - 1" by simp
  then show ?thesis by (cases c) (simp_all only: if_True if_False, simp_all)
qed

text \<open>The way a mask is used: take the lanes of one vector where it is set, and of the other where not.\<close>

definition select4 :: "u32 list \<Rightarrow> u32 list \<Rightarrow> u32 list \<Rightarrow> u32 list" where
  "select4 m x y = vlSIMDOrVec4F32Portable (vlSIMDAndVec4F32Portable m x)
     (vlSIMDAndVec4F32Portable (vlSIMDNotVec4F32Portable m) y)"

definition select8 :: "u32 list \<Rightarrow> u32 list \<Rightarrow> u32 list \<Rightarrow> u32 list" where
  "select8 m x y = vlSIMDOrVec8F32Portable (vlSIMDAndVec8F32Portable m x)
     (vlSIMDAndVec8F32Portable (vlSIMDNotVec8F32Portable m) y)"

text \<open>
  The masks of the comparisons select whole lanes: combined with the bitwise operations they take,
  lane by lane, the first value where the comparison holds and the second where it does not, bit for bit,
  for vectors of four and of eight numbers and for all numbers, zeros of both signs and NaNs included.
\<close>

theorem simd_masks_select:
  "select4 (vlSIMDLtVec4F32Portable a b) x y = map (\<lambda>i. if f32_less (a ! i) (b ! i) then x ! i else y ! i) [0..<4] \<and>
   select4 (vlSIMDGtVec4F32Portable a b) x y = map (\<lambda>i. if f32_less (b ! i) (a ! i) then x ! i else y ! i) [0..<4] \<and>
   select4 (vlSIMDEqVec4F32Portable a b) x y = map (\<lambda>i. if f32_equal (a ! i) (b ! i) then x ! i else y ! i) [0..<4] \<and>
   select8 (vlSIMDLtVec8F32Portable a b) x y = map (\<lambda>i. if f32_less (a ! i) (b ! i) then x ! i else y ! i) [0..<8] \<and>
   select8 (vlSIMDGtVec8F32Portable a b) x y = map (\<lambda>i. if f32_less (b ! i) (a ! i) then x ! i else y ! i) [0..<8] \<and>
   select8 (vlSIMDEqVec8F32Portable a b) x y = map (\<lambda>i. if f32_equal (a ! i) (b ! i) then x ! i else y ! i) [0..<8]"
  unfolding select4_def select8_def vlSIMDOrVec4F32Portable_def vlSIMDAndVec4F32Portable_def vlSIMDNotVec4F32Portable_def
    vlSIMDOrVec8F32Portable_def vlSIMDAndVec8F32Portable_def vlSIMDNotVec8F32Portable_def
    vlSIMDLtVec4F32Portable_def vlSIMDGtVec4F32Portable_def vlSIMDEqVec4F32Portable_def vlSIMDCmpPortable_def
    vlSIMDLtCmp_def vlSIMDGtCmp_def vlSIMDEqCmp_def f32_greater_def
    vlSIMDLtVec8F32Portable_def vlSIMDGtVec8F32Portable_def vlSIMDEqVec8F32Portable_def
  by (intro conjI map_cong refl; simp only: nth_map_upt set_upt atLeastLessThan_iff diff_zero add_0 mask_select)

section \<open>Greatest and least component\<close>

lemma f32_less_trans: "f32_less a b \<Longrightarrow> \<not> f32_less c b \<Longrightarrow> \<not> f32_nan c \<Longrightarrow> f32_less a c"
  by (auto simp: f32_less_def)

lemma fold_extreme:
  assumes "m = fold (\<lambda>i acc. if R acc (v i) then v i else acc) is a" and "\<not> f32_nan a"
    and R: "\<And>x y. R x y \<Longrightarrow> \<not> f32_nan y" "\<And>x. \<not> R x x" "\<And>x y z. R x y \<Longrightarrow> R y z \<Longrightarrow> R x z"
      "\<And>x y z. R x z \<Longrightarrow> \<not> f32_nan y \<Longrightarrow> R x y \<or> R y z"
  shows "m \<in> insert a (v ` set is) \<and> \<not> f32_nan m \<and> (\<forall>x \<in> insert a (v ` set is). \<not> R m x)"
  using assms(1,2)
proof (induction "is" arbitrary: a)
  case Nil
  then show ?case using R(2) by simp
next
  case (Cons i "is")
  let ?a = "if R a (v i) then v i else a"
  have "\<not> f32_nan ?a" using Cons.prems(2) R(1) by simp
  then have IH: "m \<in> insert ?a (v ` set is) \<and> \<not> f32_nan m \<and> (\<forall>x \<in> insert ?a (v ` set is). \<not> R m x)"
    using Cons.IH [of ?a] Cons.prems(1) by simp
  have "\<not> R m a \<and> \<not> R m (v i)"
  proof (cases "R a (v i)")
    case True
    then show ?thesis using IH R(3) by auto
  next
    case False
    then show ?thesis using IH R(4) [of m "v i" a] Cons.prems(2) by auto
  qed
  then show ?case using IH by (auto split: if_splits)
qed

text \<open>
  The horizontal maximum and minimum are the greatest and the least component as long as the first
  one is a number: other components that are NaNs are passed over. A NaN in the first component is
  the result, whatever the others are.
\<close>

theorem simd_extremes:
  assumes "length v = 4"
  shows "if f32_nan (v ! 0) then vlSIMDHmaxVec4F32Portable v = v ! 0 \<and> vlSIMDHminVec4F32Portable v = v ! 0
    else vlSIMDHmaxVec4F32Portable v \<in> set v \<and> \<not> f32_nan (vlSIMDHmaxVec4F32Portable v) \<and>
      (\<forall>x \<in> set v. \<not> f32_less (vlSIMDHmaxVec4F32Portable v) x) \<and>
      vlSIMDHminVec4F32Portable v \<in> set v \<and> \<not> f32_nan (vlSIMDHminVec4F32Portable v) \<and>
      (\<forall>x \<in> set v. \<not> f32_less x (vlSIMDHminVec4F32Portable v))"
proof (cases "f32_nan (v ! 0)")
  case True
  have "fold (\<lambda>i acc. if f32_less acc (v ! i) then v ! i else acc) is (v ! 0) = v ! 0"
    "fold (\<lambda>i acc. if f32_less (v ! i) acc then v ! i else acc) is (v ! 0) = v ! 0" for "is"
    using True by (induction "is") (simp_all add: f32_less_def)
  then show ?thesis using True by (simp add: vlSIMDHmaxVec4F32Portable_def vlSIMDHminVec4F32Portable_def f32_greater_def)
next
  case False
  have "set v = insert (v ! 0) ((!) v ` set [1..<4])"
  proof -
    have "set v = (!) v ` {0..<4}" using assms by (metis list.set_map map_nth set_upt)
    moreover have "{0..<4::nat} = insert 0 {1..<4}" by auto
    ultimately show ?thesis by simp
  qed
  moreover have "vlSIMDHmaxVec4F32Portable v \<in> insert (v ! 0) ((!) v ` set [1..<4]) \<and> \<not> f32_nan (vlSIMDHmaxVec4F32Portable v) \<and>
      (\<forall>x \<in> insert (v ! 0) ((!) v ` set [1..<4]). \<not> f32_less (vlSIMDHmaxVec4F32Portable v) x)"
    by (rule fold_extreme [where R = f32_less])
      (use False in \<open>auto simp: vlSIMDHmaxVec4F32Portable_def f32_greater_def f32_less_def\<close>)
  moreover have "vlSIMDHminVec4F32Portable v \<in> insert (v ! 0) ((!) v ` set [1..<4]) \<and> \<not> f32_nan (vlSIMDHminVec4F32Portable v) \<and>
      (\<forall>x \<in> insert (v ! 0) ((!) v ` set [1..<4]). \<not> f32_less x (vlSIMDHminVec4F32Portable v))"
    by (rule fold_extreme [where R = "\<lambda>a b. f32_less b a"])
      (use False in \<open>auto simp: vlSIMDHminVec4F32Portable_def f32_less_def\<close>)
  ultimately show ?thesis using False by simp
qed

theorem simd_extremes_witness:
  "vlSIMDHmaxVec4F32Portable [0x80000000, 0x3F800000, 0x7FC00000, 0xBF800000] = 0x3F800000 \<and>
   (\<forall>x \<in> {0x80000000, 0x3F800000, 0x7FC00000, 0xBF800000 :: u32}. \<not> f32_less 0x3F800000 x)"
proof -
  have "vlSIMDHmaxVec4F32Portable [0x80000000, 0x3F800000, 0x7FC00000, 0xBF800000] = 0x3F800000" by code_simp
  moreover have "\<not> f32_nan ([0x80000000, 0x3F800000, 0x7FC00000, 0xBF800000 :: u32] ! 0)" by code_simp
  ultimately show ?thesis using simd_extremes [of "[0x80000000, 0x3F800000, 0x7FC00000, 0xBF800000]"] by simp
qed

section \<open>The table\<close>

definition simd_start :: "float_ops \<Rightarrow> simd_state" where
  "simd_start fo = \<lparr>si_initialized = False, si_functions = simd_static_table fo\<rparr>"

text \<open>
  Before \<^verbatim>\<open>vlSIMDInit\<close> the functions on four numbers can be called, but fourteen of the table are
  \<^verbatim>\<open>NULL\<close>, all those on 16-bit and 8-bit integers among them, and calling these is undefined; after
  \<^verbatim>\<open>vlSIMDInit\<close>, and however often it is called, they are the portable ones.
\<close>

theorem simd_null_before_init:
  "vlSIMDAddVec4F32 (simd_start fo) a b = Some (vlSIMDAddVec4F32Portable fo a b) \<and>
   vlSIMDSubVec8F32 (simd_start fo) a b = None \<and> vlSIMDSplatVec8F32 (simd_start fo) x = None \<and>
   vlSIMDLtVec8F32 (simd_start fo) a b = None \<and> vlSIMDGtVec8F32 (simd_start fo) a b = None \<and>
   vlSIMDEqVec8F32 (simd_start fo) a b = None \<and> vlSIMDAndVec8F32 (simd_start fo) a b = None \<and>
   vlSIMDOrVec8F32 (simd_start fo) a b = None \<and> vlSIMDXorVec8F32 (simd_start fo) a b = None \<and>
   vlSIMDNotVec8F32 (simd_start fo) a = None \<and>
   vlSIMDLoadVec8I16 (simd_start fo) p = None \<and> vlSIMDStoreVec8I16 (simd_start fo) p c = None \<and>
   vlSIMDAddVec8I16 (simd_start fo) c d = None \<and>
   vlSIMDLoadVec32U8 (simd_start fo) q = None \<and> vlSIMDStoreVec32U8 (simd_start fo) q e = None \<and>
   (let s = (vlSIMDInit fo ^^ Suc n) (simd_start fo)
    in vlSIMDSubVec8F32 s a b = Some (vlSIMDSubVec8F32Portable fo a b) \<and>
       vlSIMDLtVec8F32 s a b = Some (vlSIMDLtVec8F32Portable a b) \<and>
       vlSIMDAddVec8I16 s c d = Some (vlSIMDAddVec8I16Portable c d) \<and>
       vlSIMDLoadVec32U8 s q = vlSIMDLoadVec32U8Portable q)"
proof -
  have "(vlSIMDInit fo ^^ Suc n) (simd_start fo) =
      \<lparr>si_initialized = True, si_functions = vlSIMDInitPortable fo (simd_static_table fo)\<rparr>" for n
    by (induction n) (simp_all add: vlSIMDInit_def simd_start_def)
  then show ?thesis
    unfolding Let_def
    by (simp only:) (simp add: simd_start_def simd_static_table_def vlSIMDInitPortable_def
      vlSIMDAddVec4F32_def vlSIMDSubVec8F32_def vlSIMDSplatVec8F32_def vlSIMDLtVec8F32_def vlSIMDGtVec8F32_def
      vlSIMDEqVec8F32_def vlSIMDAndVec8F32_def vlSIMDOrVec8F32_def vlSIMDXorVec8F32_def vlSIMDNotVec8F32_def
      vlSIMDLoadVec8I16_def vlSIMDStoreVec8I16_def vlSIMDAddVec8I16_def vlSIMDLoadVec32U8_def vlSIMDStoreVec32U8_def)
qed

end
