(* ===== verification/VL_AsyncPool.thy ===== *)
theory VL_AsyncPool
  imports VL_MemorySpec
begin

text \<open>
  \<^verbatim>\<open>src/core/vl_async_pool.c\<close> on the tagged pointers of \<^verbatim>\<open>vl_atomic_ptr.h\<close>: a pool of elements in blocks of
  growing size, with a stack of elements that were given back. The operations are those of one thread,
  for which every exchange succeeds; the memory of the pool is given by its parts, the heads of the
  blocks and the headers of the elements. The allocator may answer each call differently: \<open>als k\<close> is
  what it does at its call number \<open>k\<close>.
\<close>

section \<open>Tagged pointers\<close>

record vl_tagged_ptr =
  tp_ptr :: nat
  tp_tag :: nat

definition VL_TAGPTR_NULL :: vl_tagged_ptr where
  "VL_TAGPTR_NULL = \<lparr>tp_ptr = 0, tp_tag = 0\<rparr>"

text \<open>The value that a store and a successful exchange write: the new pointer with the next tag.\<close>

definition tag_next :: "vl_tagged_ptr \<Rightarrow> nat \<Rightarrow> vl_tagged_ptr" where
  "tag_next old p = \<lparr>tp_ptr = p, tp_tag = u64_of (tp_tag old + 1)\<rparr>"

definition vlAtomicPtrStore :: "vl_tagged_ptr \<Rightarrow> nat \<Rightarrow> vl_tagged_ptr" where
  "vlAtomicPtrStore atomicPtr p = tag_next atomicPtr p"

text \<open>An exchange: whether it succeeded, the pointer, and the number that was expected or found.\<close>

definition vlAtomicPtrCompareExchangeStrong ::
    "vl_tagged_ptr \<Rightarrow> vl_tagged_ptr \<Rightarrow> nat \<Rightarrow> bool \<times> vl_tagged_ptr \<times> vl_tagged_ptr" where
  "vlAtomicPtrCompareExchangeStrong atPtr expected newValue =
     (if atPtr = expected then (True, tag_next expected newValue, expected) else (False, atPtr, atPtr))"

text \<open>A weak exchange may fail although it finds what it expects.\<close>

definition vlAtomicPtrCompareExchangeWeak ::
    "bool \<Rightarrow> vl_tagged_ptr \<Rightarrow> vl_tagged_ptr \<Rightarrow> nat \<Rightarrow> bool \<times> vl_tagged_ptr \<times> vl_tagged_ptr" where
  "vlAtomicPtrCompareExchangeWeak fails atPtr expected newValue =
     (if fails then (False, atPtr, atPtr) else vlAtomicPtrCompareExchangeStrong atPtr expected newValue)"

section \<open>State\<close>

text \<open>The head of a block has 32 bytes; with it goes the allocation it lies in.\<close>

record vl_async_block =
  ab_next :: nat
  ab_prev :: nat
  ab_elements :: nat
  ab_taken :: nat
  ab_value :: nat
  ab_memory :: vl_memory

text \<open>
  \<open>as_blocks\<close> and \<open>as_links\<close> are the memory: the heads by their addresses, and the headers of the elements,
  whose pointers may not have been written; \<open>as_calls\<close> is the number of calls of the allocator.
\<close>

record vl_async_pool =
  as_freeStack :: vl_tagged_ptr
  as_freeLength :: nat
  as_primaryBlock :: vl_tagged_ptr
  as_allocatingFlag :: bool
  as_totalBlocks :: nat
  as_elementSize :: nat
  as_elementAlign :: nat
  as_nodeSize :: nat
  as_blocks :: "nat \<Rightarrow> vl_async_block option"
  as_links :: "nat \<Rightarrow> nat option option"
  as_calls :: nat

definition VL_ASYNC_POOL_BLOCK_MIN_SHIFT :: nat where "VL_ASYNC_POOL_BLOCK_MIN_SHIFT = 4"
definition VL_ASYNC_POOL_BLOCK_MIN :: nat where "VL_ASYNC_POOL_BLOCK_MIN = 2 ^ VL_ASYNC_POOL_BLOCK_MIN_SHIFT"
definition VL_ASYNC_POOL_BLOCK_MAX_SHIFT :: nat where "VL_ASYNC_POOL_BLOCK_MAX_SHIFT = 16"
definition VL_ASYNC_POOL_BLOCK_MAX :: nat where "VL_ASYNC_POOL_BLOCK_MAX = 2 ^ VL_ASYNC_POOL_BLOCK_MAX_SHIFT"

text \<open>\<^verbatim>\<open>sizeof(vl_async_pool_header)\<close> is 8.\<close>

definition async_header :: "vl_async_pool \<Rightarrow> nat" where
  "async_header pool = padUp 8 (as_elementAlign pool)"

text \<open>The number of elements of the next block; the shift is on the type \<^verbatim>\<open>int\<close>.\<close>

definition block_elements :: "nat \<Rightarrow> nat option" where
  "block_elements ordinal =
     (if ordinal \<ge> 31 then None
      else Some (VL_ASYNC_POOL_BLOCK_MIN *
        2 ^ (if 2 ^ ordinal \<ge> VL_ASYNC_POOL_BLOCK_MAX then VL_ASYNC_POOL_BLOCK_MAX_SHIFT
             else if ordinal > 0 then ordinal - 1 else ordinal)))"

section \<open>Allocation of blocks\<close>

text \<open>The part behind the choice of a block that is there already. A block that is not allocated is used all the same.\<close>

definition allocate_block :: "(nat \<Rightarrow> allocator) \<Rightarrow> vl_async_pool \<Rightarrow> vl_async_pool option" where
  "allocate_block als pool =
     do {
       elements \<leftarrow> block_elements (as_totalBlocks pool);
       let headerSize = padUp 32 (as_elementAlign pool);
       let blockSize = headerSize + u32_of (elements * as_nodeSize pool);
       mem \<leftarrow> vlMemAllocAligned (als (as_calls pool)) blockSize (as_elementAlign pool);
       m \<leftarrow> mem;
       let block = mem_address m;
       let primary = tp_ptr (as_primaryBlock pool);
       let header = \<lparr>ab_next = 0, ab_prev = primary, ab_elements = elements, ab_taken = 0,
         ab_value = block + headerSize, ab_memory = m\<rparr>;
       let blocks = (as_blocks pool)(block := Some header);
       let blocks = (if primary \<noteq> 0 then blocks(primary := map_option (\<lambda>h. h\<lparr>ab_next := block\<rparr>) (blocks primary)) else blocks);
       Some (pool\<lparr>as_blocks := blocks,
         as_links := (\<lambda>a. if a \<in> (\<lambda>k. block + headerSize + as_nodeSize pool * k) ` {..<elements} then Some None
           else as_links pool a),
         as_calls := as_calls pool + 1,
         as_totalBlocks := u16_of (as_totalBlocks pool + 1),
         as_primaryBlock := vlAtomicPtrStore (as_primaryBlock pool) block\<rparr>)
     }"

definition vlAsyncPoolAllocate :: "(nat \<Rightarrow> allocator) \<Rightarrow> vl_async_pool \<Rightarrow> (bool \<times> vl_async_pool) option" where
  "vlAsyncPoolAllocate als pool =
     (if as_allocatingFlag pool then Some (False, pool)
      else
        let pool = pool\<lparr>as_allocatingFlag := True\<rparr>;
            primary = tp_ptr (as_primaryBlock pool)
        in do {
          next_block \<leftarrow> (if primary \<noteq> 0 then map_option ab_next (as_blocks pool primary) else Some 0);
          pool \<leftarrow>
            (if next_block \<noteq> 0
             then Some (pool\<lparr>as_primaryBlock := vlAtomicPtrStore (as_primaryBlock pool) next_block\<rparr>)
             else allocate_block als pool);
          Some (True, pool\<lparr>as_allocatingFlag := False\<rparr>)
        })"

section \<open>Life of a pool\<close>

definition vlAsyncPoolInitAligned :: "(nat \<Rightarrow> allocator) \<Rightarrow> nat \<Rightarrow> nat \<Rightarrow> vl_async_pool option" where
  "vlAsyncPoolInitAligned als elementSize elementAlign =
     (let esize = u16_of (padUp elementSize elementAlign);
          pool = \<lparr>as_freeStack = VL_TAGPTR_NULL, as_freeLength = 0, as_primaryBlock = VL_TAGPTR_NULL,
            as_allocatingFlag = False, as_totalBlocks = 0, as_elementSize = esize, as_elementAlign = elementAlign,
            as_nodeSize = u16_of (padUp 8 elementAlign + esize), as_blocks = (\<lambda>_. None), as_links = (\<lambda>_. None),
            as_calls = 0\<rparr>
      in map_option snd (vlAsyncPoolAllocate als pool))"

definition vlAsyncPoolInit :: "(nat \<Rightarrow> allocator) \<Rightarrow> nat \<Rightarrow> vl_async_pool option" where
  "vlAsyncPoolInit als elementSize = vlAsyncPoolInitAligned als elementSize 8"

definition free_block :: "vl_async_pool \<Rightarrow> nat \<Rightarrow> vl_async_pool option" where
  "free_block pool a =
     do { b \<leftarrow> as_blocks pool a; _ \<leftarrow> vlMemFree (Some (ab_memory b)); Some (pool\<lparr>as_blocks := (as_blocks pool)(a := None)\<rparr>) }"

partial_function (option) async_free_loop :: "vl_async_pool \<Rightarrow> nat \<Rightarrow> vl_async_pool option" where
  [code]: "async_free_loop pool current =
     (if current \<noteq> 0 then do {
        block \<leftarrow> as_blocks pool current;
        pool \<leftarrow> free_block pool current;
        async_free_loop pool (ab_next block)
      } else Some pool)"

text \<open>What is left in \<open>as_blocks\<close> was not freed.\<close>

definition vlAsyncPoolFree :: "vl_async_pool \<Rightarrow> vl_async_pool option" where
  "vlAsyncPoolFree pool = async_free_loop pool (tp_ptr (as_primaryBlock pool))"

text \<open>\<^verbatim>\<open>sizeof(vl_async_pool)\<close> is 64; the result of \<^verbatim>\<open>malloc\<close> is not checked.\<close>

definition vlAsyncPoolNewAligned :: "allocator \<Rightarrow> (nat \<Rightarrow> allocator) \<Rightarrow> nat \<Rightarrow> nat \<Rightarrow> vl_async_pool option" where
  "vlAsyncPoolNewAligned al als elementSize elementAlign =
     do { _ \<leftarrow> malloc_at al 64; vlAsyncPoolInitAligned als elementSize elementAlign }"

definition vlAsyncPoolNew :: "allocator \<Rightarrow> (nat \<Rightarrow> allocator) \<Rightarrow> nat \<Rightarrow> vl_async_pool option" where
  "vlAsyncPoolNew al als elementSize = vlAsyncPoolNewAligned al als elementSize 8"

definition vlAsyncPoolDelete :: "vl_async_pool \<Rightarrow> vl_async_pool option" where
  "vlAsyncPoolDelete pool = vlAsyncPoolFree pool"

definition set_taken :: "vl_async_pool \<Rightarrow> nat \<Rightarrow> nat \<Rightarrow> vl_async_pool" where
  "set_taken pool a n = pool\<lparr>as_blocks := (as_blocks pool)(a := map_option (\<lambda>b. b\<lparr>ab_taken := n\<rparr>) (as_blocks pool a))\<rparr>"

text \<open>The second result is the block that was visited last.\<close>

partial_function (option) async_reset_loop :: "vl_async_pool \<Rightarrow> nat \<Rightarrow> nat \<Rightarrow> (vl_async_pool \<times> nat) option" where
  [code]: "async_reset_loop pool current block =
     (if current \<noteq> 0 then do {
        b \<leftarrow> as_blocks pool current;
        let pool = set_taken pool current 0;
        pool \<leftarrow>
          (if ab_prev b \<noteq> 0 then free_block pool current
           else Some (pool\<lparr>as_primaryBlock := vlAtomicPtrStore (as_primaryBlock pool) current\<rparr>));
        async_reset_loop pool (ab_prev b) current
      } else Some (pool, block))"

definition vlAsyncPoolReset :: "vl_async_pool \<Rightarrow> vl_async_pool option" where
  "vlAsyncPoolReset pool =
     do {
       (pool, block) \<leftarrow> async_reset_loop pool (tp_ptr (as_primaryBlock pool)) 0;
       b \<leftarrow> as_blocks pool block;
       Some (pool\<lparr>as_blocks := (as_blocks pool)(block := Some (b\<lparr>ab_prev := 0, ab_next := 0\<rparr>)),
         as_freeLength := 0, as_freeStack := VL_TAGPTR_NULL\<rparr>)
     }"

partial_function (option) async_clear_loop :: "vl_async_pool \<Rightarrow> nat \<Rightarrow> vl_async_pool option" where
  [code]: "async_clear_loop pool current =
     (if current \<noteq> 0 then do {
        b \<leftarrow> as_blocks pool current;
        let pool = set_taken pool current 0;
        let pool = (if ab_prev b = 0 then pool\<lparr>as_primaryBlock := vlAtomicPtrStore (as_primaryBlock pool) current\<rparr> else pool);
        async_clear_loop pool (ab_prev b)
      } else Some pool)"

definition vlAsyncPoolClear :: "vl_async_pool \<Rightarrow> vl_async_pool option" where
  "vlAsyncPoolClear pool =
     do {
       pool \<leftarrow> async_clear_loop pool (tp_ptr (as_primaryBlock pool));
       Some (pool\<lparr>as_freeLength := 0, as_freeStack := VL_TAGPTR_NULL\<rparr>)
     }"

section \<open>Taking and returning elements\<close>

partial_function (option) vlAsyncPoolTake :: "(nat \<Rightarrow> allocator) \<Rightarrow> vl_async_pool \<Rightarrow> (nat \<times> vl_async_pool) option" where
  [code]: "vlAsyncPoolTake als pool =
     (let freeTop = as_freeStack pool
      in if tp_ptr freeTop \<noteq> 0 then do {
           link \<leftarrow> as_links pool (tp_ptr freeTop);
           nextTop \<leftarrow> link;
           Some (tp_ptr freeTop + async_header pool,
             pool\<lparr>as_freeStack := tag_next freeTop nextTop, as_freeLength := dec32 (as_freeLength pool)\<rparr>)
         }
         else do {
           let primary = tp_ptr (as_primaryBlock pool);
           block \<leftarrow> as_blocks pool primary;
           let blockTaken = ab_taken block;
           if blockTaken \<ge> ab_elements block then do {
             (_, pool) \<leftarrow> vlAsyncPoolAllocate als pool;
             vlAsyncPoolTake als pool
           }
           else Some (ab_value block + as_nodeSize pool * blockTaken + async_header pool,
             set_taken pool primary (u32_of (blockTaken + 1)))
         })"

definition vlAsyncPoolReturn :: "vl_async_pool \<Rightarrow> nat \<Rightarrow> vl_async_pool option" where
  "vlAsyncPoolReturn pool element =
     do {
       let node = element - async_header pool;
       let freeTop = as_freeStack pool;
       _ \<leftarrow> as_links pool node;
       Some (pool\<lparr>as_links := (as_links pool)(node := Some (Some (tp_ptr freeTop))),
         as_freeStack := tag_next freeTop node, as_freeLength := inc32 (as_freeLength pool)\<rparr>)
     }"

end
