(* ===== verification/VL_AsyncPoolSpec.thy ===== *)
theory VL_AsyncPoolSpec
  imports VL_AsyncPool
begin

text \<open>
  The pool of \<^verbatim>\<open>vl_async_pool.c\<close> as a source of elements: an element that is taken is not in use, and one
  that is given back can be taken again, however the pool grows. The contract is a locale, on which the
  queue rests.
\<close>

section \<open>The contract\<close>

text \<open>\<open>holds s L k\<close>: the elements in \<open>L\<close> are in use, and \<open>k\<close> more can be taken.\<close>

locale element_source =
  fixes take_one :: "'s \<Rightarrow> (nat \<times> 's) option"
    and give_back :: "'s \<Rightarrow> nat \<Rightarrow> 's option"
    and holds :: "'s \<Rightarrow> nat set \<Rightarrow> nat \<Rightarrow> bool"
  assumes take_one_ok: "holds s L (Suc k) \<Longrightarrow>
      \<exists>a s'. take_one s = Some (a, s') \<and> a \<notin> L \<and> a \<noteq> 0 \<and> holds s' (insert a L) k"
    and give_back_ok: "holds s L k \<Longrightarrow> a \<in> L \<Longrightarrow> \<exists>s'. give_back s a = Some s' \<and> holds s' (L - {a}) (Suc k)"
begin

primrec take_many :: "nat \<Rightarrow> 's \<Rightarrow> (nat list \<times> 's) option" where
  "take_many 0 s = Some ([], s)"
| "take_many (Suc n) s = do { (a, s) \<leftarrow> take_one s; (as, s) \<leftarrow> take_many n s; Some (a # as, s) }"

lemma take_many_ok:
  "holds s L (n + k) \<Longrightarrow> \<exists>as s'. take_many n s = Some (as, s') \<and> length as = n \<and> distinct as \<and> set as \<inter> L = {} \<and>
     0 \<notin> set as \<and> holds s' (set as \<union> L) k"
proof (induction n arbitrary: s L)
  case 0
  then show ?case by simp
next
  case (Suc n)
  then obtain a s1 where a: "take_one s = Some (a, s1)" "a \<notin> L" "a \<noteq> 0" "holds s1 (insert a L) (n + k)"
    using take_one_ok [of s L "n + k"] by auto
  from Suc.IH [OF a(4)] obtain as s2 where "take_many n s1 = Some (as, s2)" "length as = n" "distinct as"
    "set as \<inter> insert a L = {}" "0 \<notin> set as" "holds s2 (set as \<union> insert a L) k" by blast
  then show ?case using a by (intro exI [of _ "a # as"] exI [of _ s2]) auto
qed

end

section \<open>Where blocks are\<close>

definition region :: "vl_memory \<Rightarrow> nat set" where
  "region m = {mem_origin m ..< mem_origin m + length (mem_bytes m)}"

lemma alloc_aligned_origin:
  assumes "vlMemAllocAligned al n align = Some (Some m)"
  shows "malloc_at al (length (mem_bytes m)) = Some (mem_origin m)"
  using assms
  by (auto simp: vlMemAllocAligned_def vlMemAlloc_def Let_def place_header_def split: option.splits if_splits)

text \<open>
  What the C allocator promises over its calls: the first 64 have memory for every request below a limit,
  and blocks of different calls do not overlap. A pool makes fewer calls than that.
\<close>

definition allocators_ok :: "(nat \<Rightarrow> allocator) \<Rightarrow> nat \<Rightarrow> bool" where
  "allocators_ok als limit \<longleftrightarrow>
     (\<forall>c. allocator_ok (als c)) \<and> (\<forall>c < 64. \<forall>n < limit. malloc_at (als c) n \<noteq> None) \<and>
     (\<forall>c c' n n' a a'. c \<noteq> c' \<longrightarrow> malloc_at (als c) n = Some a \<longrightarrow> malloc_at (als c') n' = Some a' \<longrightarrow>
        {a ..< a + n} \<inter> {a' ..< a' + n'} = {})"

lemma alloc_aligned_place:
  assumes als: "allocators_ok als limit" "c < 64" and room: "n + align + MEMORY_HEADER_SIZE < limit" "limit \<le> 2 ^ 32 - MEMORY_HEADER_SIZE"
  obtains m where "vlMemAllocAligned (als c) n align = Some (Some m)" "malloc_at (als c) (length (mem_bytes m)) = Some (mem_origin m)"
    "0 < mem_address m" "mem_origin m \<le> mem_address m" "mem_address m + n \<le> mem_origin m + length (mem_bytes m)" "mem_inv m"
proof -
  have al: "allocator_ok (als c)" and alloc: "\<And>n. n < limit \<Longrightarrow> malloc_at (als c) n \<noteq> None"
    using als by (simp_all add: allocators_ok_def)
  have "\<exists>m. vlMemAllocAligned (als c) n align = Some (Some m) \<and> mem_inv m \<and> mh_length (mem_header m) = n"
  proof (cases "align \<le> VL_DEFAULT_ALIGN")
    case True
    have "n + MEMORY_HEADER_SIZE < limit" using room(1) by simp
    then obtain a where "malloc_at (als c) (n + MEMORY_HEADER_SIZE) = Some a" using alloc by blast
    moreover have "n + MEMORY_HEADER_SIZE < 2 ^ 64" using room by (simp add: mem_defs)
    ultimately show ?thesis using mem_alloc_inv [OF al] True by (auto simp: vlMemAllocAligned_def)
  next
    case False
    obtain a where "malloc_at (als c) (n + align + MEMORY_HEADER_SIZE) = Some a" using alloc room(1) by blast
    moreover have "n + align + MEMORY_HEADER_SIZE < 2 ^ 64" "align < 2 ^ 32 - MEMORY_HEADER_SIZE"
      using room by (simp_all add: mem_defs)
    ultimately show ?thesis using mem_alloc_aligned_inv [OF al] False by (meson not_le_imp_less)
  qed
  then obtain m where m: "vlMemAllocAligned (als c) n align = Some (Some m)" "mem_inv m" "mh_length (mem_header m) = n" by blast
  show thesis
    using that [OF m(1) alloc_aligned_origin [OF m(1)]] m(2,3) mem_inv_bounds [OF m(2)] by (simp add: mem_defs)
qed

section \<open>The invariant\<close>

text \<open>The blocks with their addresses, from the oldest to the newest; \<open>p\<close> is the position of the primary one.\<close>

type_synonym heads = "(nat \<times> vl_async_block) list"

definition heads_ok :: "heads \<Rightarrow> nat \<Rightarrow> bool" where
  "heads_ok bl p \<longleftrightarrow> distinct (map fst bl) \<and> 0 \<notin> fst ` set bl \<and> p < length bl \<and>
     (\<forall>i < length bl. ab_next (snd (bl ! i)) = (if Suc i < length bl then fst (bl ! Suc i) else 0) \<and>
        ab_prev (snd (bl ! i)) = (if i = 0 then 0 else fst (bl ! (i - 1))) \<and>
        ab_taken (snd (bl ! i)) \<le> ab_elements (snd (bl ! i)) \<and> 0 < ab_elements (snd (bl ! i)) \<and>
        ab_elements (snd (bl ! i)) < 2 ^ 32 \<and>
        (i < p \<longrightarrow> ab_taken (snd (bl ! i)) = ab_elements (snd (bl ! i))) \<and> (p < i \<longrightarrow> ab_taken (snd (bl ! i)) = 0))"

definition block_placed :: "(nat \<Rightarrow> allocator) \<Rightarrow> nat \<Rightarrow> nat \<Rightarrow> vl_async_block \<Rightarrow> bool" where
  "block_placed als calls ns b \<longleftrightarrow>
     (\<exists>c < calls. malloc_at (als c) (length (mem_bytes (ab_memory b))) = Some (mem_origin (ab_memory b))) \<and>
     mem_origin (ab_memory b) < ab_value b \<and>
     ab_value b + ns * ab_elements b \<le> mem_origin (ab_memory b) + length (mem_bytes (ab_memory b))"

definition blocks_apart :: "heads \<Rightarrow> bool" where
  "blocks_apart bl \<longleftrightarrow>
     (\<forall>i < length bl. \<forall>j < length bl. i \<noteq> j \<longrightarrow> region (ab_memory (snd (bl ! i))) \<inter> region (ab_memory (snd (bl ! j))) = {})"

text \<open>The elements that were handed out of their blocks, and all there is place for, by their headers.\<close>

definition used_nodes :: "nat \<Rightarrow> heads \<Rightarrow> nat set" where
  "used_nodes ns bl = {ab_value (snd (bl ! i)) + ns * k |i k. i < length bl \<and> k < ab_taken (snd (bl ! i))}"

fun free_chain :: "(nat \<Rightarrow> nat option option) \<Rightarrow> nat \<Rightarrow> nat list \<Rightarrow> bool" where
  "free_chain links a [] \<longleftrightarrow> a = 0"
| "free_chain links a (f # fs) \<longleftrightarrow> a = f \<and> (\<exists>x. links f = Some (Some x) \<and> free_chain links x fs)"

definition apool_rep :: "(nat \<Rightarrow> allocator) \<Rightarrow> vl_async_pool \<Rightarrow> heads \<Rightarrow> nat \<Rightarrow> nat list \<Rightarrow> bool" where
  "apool_rep als pool bl p fs \<longleftrightarrow>
     heads_ok bl p \<and> blocks_apart bl \<and>
     (\<forall>i < length bl. as_blocks pool (fst (bl ! i)) = Some (snd (bl ! i)) \<and>
        fst (bl ! i) \<in> region (ab_memory (snd (bl ! i))) \<and>
        block_placed als (as_calls pool) (as_nodeSize pool) (snd (bl ! i)) \<and>
        (\<forall>k < ab_elements (snd (bl ! i)). as_links pool (ab_value (snd (bl ! i)) + as_nodeSize pool * k) \<noteq> None)) \<and>
     tp_ptr (as_primaryBlock pool) = fst (bl ! p) \<and> \<not> as_allocatingFlag pool \<and> 0 < as_nodeSize pool \<and>
     free_chain (as_links pool) (tp_ptr (as_freeStack pool)) fs \<and> distinct fs \<and>
     set fs \<subseteq> used_nodes (as_nodeSize pool) bl"

definition elements_left :: "heads \<Rightarrow> nat" where
  "elements_left bl = (\<Sum>(a, b) \<leftarrow> bl. ab_elements b - ab_taken b)"

text \<open>The elements that the next block adds, if it can be allocated.\<close>

definition next_elements :: "nat \<Rightarrow> vl_async_pool \<Rightarrow> nat" where
  "next_elements limit pool =
     (case block_elements (as_totalBlocks pool) of
        None \<Rightarrow> 0
      | Some e \<Rightarrow>
          if as_calls pool < 64 \<and>
            padUp 32 (as_elementAlign pool) + e * as_nodeSize pool + as_elementAlign pool + MEMORY_HEADER_SIZE < limit
          then e else 0)"

definition apool_live :: "vl_async_pool \<Rightarrow> heads \<Rightarrow> nat list \<Rightarrow> nat set" where
  "apool_live pool bl fs = (\<lambda>a. a + async_header pool) ` (used_nodes (as_nodeSize pool) bl - set fs)"

definition apool_holds :: "(nat \<Rightarrow> allocator) \<Rightarrow> nat \<Rightarrow> vl_async_pool \<Rightarrow> nat set \<Rightarrow> nat \<Rightarrow> bool" where
  "apool_holds als limit pool L k \<longleftrightarrow> allocators_ok als limit \<and> limit \<le> 2 ^ 32 - MEMORY_HEADER_SIZE \<and>
     0 < padUp 32 (as_elementAlign pool) \<and>
     (\<exists>bl p fs. apool_rep als pool bl p fs \<and> L = apool_live pool bl fs \<and>
        k \<le> length fs + elements_left bl + next_elements limit pool)"

lemma apool_repD:
  assumes "apool_rep als pool bl p fs"
  shows "heads_ok bl p" and "blocks_apart bl"
    and "\<And>i. i < length bl \<Longrightarrow> as_blocks pool (fst (bl ! i)) = Some (snd (bl ! i))"
    and "\<And>i. i < length bl \<Longrightarrow> block_placed als (as_calls pool) (as_nodeSize pool) (snd (bl ! i))"
    and "\<And>i k. i < length bl \<Longrightarrow> k < ab_elements (snd (bl ! i)) \<Longrightarrow>
      as_links pool (ab_value (snd (bl ! i)) + as_nodeSize pool * k) \<noteq> None"
    and "tp_ptr (as_primaryBlock pool) = fst (bl ! p)" and "\<not> as_allocatingFlag pool" and "0 < as_nodeSize pool"
    and "free_chain (as_links pool) (tp_ptr (as_freeStack pool)) fs" and "distinct fs"
    and "set fs \<subseteq> used_nodes (as_nodeSize pool) bl" and "p < length bl"
    and "\<And>i. i < length bl \<Longrightarrow> fst (bl ! i) \<in> region (ab_memory (snd (bl ! i)))"
  using assms by (auto simp: apool_rep_def heads_ok_def)

lemma heads_okD:
  assumes "heads_ok bl p" and "i < length bl"
  shows "ab_taken (snd (bl ! i)) \<le> ab_elements (snd (bl ! i))" and "0 < ab_elements (snd (bl ! i))"
    and "ab_elements (snd (bl ! i)) < 2 ^ 32" and "fst (bl ! i) \<noteq> 0"
    and "ab_next (snd (bl ! i)) = (if Suc i < length bl then fst (bl ! Suc i) else 0)"
    and "ab_prev (snd (bl ! i)) = (if i = 0 then 0 else fst (bl ! (i - 1)))"
    and "i < p \<Longrightarrow> ab_taken (snd (bl ! i)) = ab_elements (snd (bl ! i))" and "p < i \<Longrightarrow> ab_taken (snd (bl ! i)) = 0"
    and "j < length bl \<Longrightarrow> fst (bl ! i) = fst (bl ! j) \<longleftrightarrow> i = j"
proof -
  show "j < length bl \<Longrightarrow> fst (bl ! i) = fst (bl ! j) \<longleftrightarrow> i = j"
    using assms nth_eq_iff_index_eq [of "map fst bl" i j] by (simp add: heads_ok_def)
qed (use assms nth_mem [OF assms(2)] in \<open>auto simp: heads_ok_def image_iff\<close>)

text \<open>The elements of blocks are different addresses.\<close>

lemma node_in_region:
  assumes rep: "apool_rep als pool bl p fs" and "i < length bl" and k: "k < ab_elements (snd (bl ! i))"
  shows "ab_value (snd (bl ! i)) + as_nodeSize pool * k \<in> region (ab_memory (snd (bl ! i)))"
    and "0 < ab_value (snd (bl ! i))"
proof -
  let ?b = "snd (bl ! i)" and ?m = "ab_memory (snd (bl ! i))" and ?ns = "as_nodeSize pool"
  have pl: "mem_origin ?m < ab_value ?b" "ab_value ?b + ?ns * ab_elements ?b \<le> mem_origin ?m + length (mem_bytes ?m)"
    using apool_repD(4) [OF rep assms(2)] by (simp_all add: block_placed_def)
  have "?ns * k < ?ns * ab_elements ?b" using k apool_repD(8) [OF rep] by simp
  then have "ab_value ?b + ?ns * k < mem_origin ?m + length (mem_bytes ?m)" using pl(2) by linarith
  then show "ab_value ?b + ?ns * k \<in> region ?m" using pl(1) by (simp add: region_def)
  show "0 < ab_value ?b" using pl(1) by simp
qed

lemma node_inj:
  assumes rep: "apool_rep als pool bl p fs" and i: "i < length bl" and j: "j < length bl"
    and k: "k < ab_elements (snd (bl ! i))" and l: "l < ab_elements (snd (bl ! j))"
    and eq: "ab_value (snd (bl ! i)) + as_nodeSize pool * k = ab_value (snd (bl ! j)) + as_nodeSize pool * l"
  shows "i = j \<and> k = l"
proof -
  have "i = j"
  proof (rule ccontr)
    assume "i \<noteq> j"
    then have "region (ab_memory (snd (bl ! i))) \<inter> region (ab_memory (snd (bl ! j))) = {}"
      using apool_repD(2) [OF rep] i j by (simp add: blocks_apart_def)
    then show False using node_in_region(1) [OF rep i k] node_in_region(1) [OF rep j l] eq by auto
  qed
  then show ?thesis using eq apool_repD(8) [OF rep] by simp
qed

lemma free_chain_other: "free_chain links a fs \<Longrightarrow> (\<And>f. f \<in> set fs \<Longrightarrow> links' f = links f) \<Longrightarrow> free_chain links' a fs"
proof (induction fs arbitrary: a)
  case (Cons f fs)
  then obtain x where "a = f" "links f = Some (Some x)" "free_chain links x fs" by auto
  then show ?case using Cons.IH [of x] Cons.prems(2) by simp
qed simp

section \<open>Taking and returning\<close>

text \<open>An element of the free stack.\<close>

lemma take_free:
  assumes rep: "apool_rep als pool bl p (f # fs)"
  shows "\<exists>pool'. vlAsyncPoolTake als pool = Some (f + async_header pool, pool') \<and> apool_rep als pool' bl p fs \<and>
    as_nodeSize pool' = as_nodeSize pool \<and> as_elementAlign pool' = as_elementAlign pool \<and>
    as_totalBlocks pool' = as_totalBlocks pool \<and> as_calls pool' = as_calls pool"
proof -
  note D = apool_repD [OF rep]
  obtain x where x: "tp_ptr (as_freeStack pool) = f" "as_links pool f = Some (Some x)" "free_chain (as_links pool) x fs"
    using D(9) by auto
  have "f \<in> used_nodes (as_nodeSize pool) bl" using D(11) by simp
  then obtain i k where "i < length bl" "k < ab_taken (snd (bl ! i))" "f = ab_value (snd (bl ! i)) + as_nodeSize pool * k"
    by (auto simp: used_nodes_def)
  then have "f \<noteq> 0" using node_in_region(2) [OF rep, of i k] heads_okD(1) [OF D(1), of i] by simp
  let ?pool = "pool\<lparr>as_freeStack := tag_next (as_freeStack pool) x, as_freeLength := dec32 (as_freeLength pool)\<rparr>"
  have "vlAsyncPoolTake als pool = Some (f + async_header pool, ?pool)"
    using x \<open>f \<noteq> 0\<close> by (subst vlAsyncPoolTake.simps) (simp add: Let_def)
  moreover have "apool_rep als ?pool bl p fs"
    using rep x(3) by (simp add: apool_rep_def tag_next_def)
  ultimately show ?thesis by auto
qed

text \<open>A fresh element of the primary block.\<close>

lemma take_fresh:
  assumes rep: "apool_rep als pool bl p []" and room: "ab_taken (snd (bl ! p)) < ab_elements (snd (bl ! p))"
  shows "\<exists>pool' b. vlAsyncPoolTake als pool = Some (ab_value b + as_nodeSize pool * ab_taken b + async_header pool, pool') \<and>
    b = snd (bl ! p) \<and> apool_rep als pool' (bl[p := (fst (bl ! p), b\<lparr>ab_taken := ab_taken b + 1\<rparr>)]) p [] \<and>
    as_nodeSize pool' = as_nodeSize pool \<and> as_elementAlign pool' = as_elementAlign pool \<and>
    as_totalBlocks pool' = as_totalBlocks pool \<and> as_calls pool' = as_calls pool"
proof -
  note D = apool_repD [OF rep] and H = heads_okD [OF apool_repD(1) [OF rep]]
  define a b where "a = fst (bl ! p)" and "b = snd (bl ! p)"
  have blk: "as_blocks pool a = Some b" using D(3,12) by (simp add: a_def b_def)
  have u: "u32_of (ab_taken b + 1) = ab_taken b + 1"
    using H(3) [OF D(12)] room by (intro u32_of_id) (simp add: b_def)
  define b' where "b' = b\<lparr>ab_taken := ab_taken b + 1\<rparr>"
  define bl' where "bl' = bl[p := (a, b')]"
  define pool' where "pool' = set_taken pool a (ab_taken b + 1)"
  have "tp_ptr (as_freeStack pool) = 0" using D(9) by simp
  then have run: "vlAsyncPoolTake als pool = Some (ab_value b + as_nodeSize pool * ab_taken b + async_header pool, pool')"
    using D(6) blk room u by (subst vlAsyncPoolTake.simps) (simp add: Let_def a_def [symmetric] b_def [symmetric] pool'_def)
  have blocks: "as_blocks pool' = (as_blocks pool)(a := Some b')" using blk by (simp add: pool'_def set_taken_def b'_def)
  have same: "as_calls pool' = as_calls pool" "as_nodeSize pool' = as_nodeSize pool" "as_links pool' = as_links pool"
    "as_primaryBlock pool' = as_primaryBlock pool" "as_freeStack pool' = as_freeStack pool"
    "as_allocatingFlag pool' = as_allocatingFlag pool" "as_elementAlign pool' = as_elementAlign pool"
    "as_totalBlocks pool' = as_totalBlocks pool"
    by (simp_all add: pool'_def set_taken_def)
  have len: "length bl' = length bl" by (simp add: bl'_def)
  have fst': "fst (bl' ! i) = fst (bl ! i)" if "i < length bl" for i
    using that by (cases "i = p") (simp_all add: bl'_def a_def)
  have snd': "snd (bl' ! i) = (if i = p then b' else snd (bl ! i))" if "i < length bl" for i
    using that by (simp add: bl'_def)
  have field: "ab_value b' = ab_value b" "ab_elements b' = ab_elements b" "ab_memory b' = ab_memory b"
    "ab_next b' = ab_next b" "ab_prev b' = ab_prev b" "ab_taken b' = ab_taken b + 1" by (simp_all add: b'_def)
  have field': "ab_value (snd (bl' ! i)) = ab_value (snd (bl ! i))" "ab_elements (snd (bl' ! i)) = ab_elements (snd (bl ! i))"
    "ab_memory (snd (bl' ! i)) = ab_memory (snd (bl ! i))" "ab_next (snd (bl' ! i)) = ab_next (snd (bl ! i))"
    "ab_prev (snd (bl' ! i)) = ab_prev (snd (bl ! i))" if "i < length bl" for i
    using snd' [OF that] field by (simp_all add: b_def)
  have mf: "map fst bl' = map fst bl" using len fst' by (simp add: list_eq_iff_nth_eq)
  have "fst ` set bl' = fst ` set bl" using arg_cong [OF mf, of set] by simp
  moreover have "distinct (map fst bl)" "0 \<notin> fst ` set bl" using D(1) by (simp_all add: heads_ok_def)
  moreover have "ab_next (snd (bl' ! i)) = (if Suc i < length bl then fst (bl' ! Suc i) else 0) \<and>
      ab_prev (snd (bl' ! i)) = (if i = 0 then 0 else fst (bl' ! (i - 1))) \<and>
      ab_taken (snd (bl' ! i)) \<le> ab_elements (snd (bl' ! i)) \<and> 0 < ab_elements (snd (bl' ! i)) \<and>
      ab_elements (snd (bl' ! i)) < 2 ^ 32 \<and>
      (i < p \<longrightarrow> ab_taken (snd (bl' ! i)) = ab_elements (snd (bl' ! i))) \<and> (p < i \<longrightarrow> ab_taken (snd (bl' ! i)) = 0)"
    if i: "i < length bl" for i
  proof -
    have t: "ab_taken (snd (bl' ! i)) = (if i = p then ab_taken (snd (bl ! i)) + 1 else ab_taken (snd (bl ! i)))"
      using snd' [OF i] by (simp add: field b_def)
    show ?thesis unfolding t field' [OF i] using H(1-8) [OF i] fst' i room by auto
  qed
  ultimately have "heads_ok bl' p" unfolding heads_ok_def len using mf D(12) by simp
  moreover have "blocks_apart bl'" unfolding blocks_apart_def len using D(2) field' by (simp add: blocks_apart_def)
  moreover have "as_blocks pool' (fst (bl' ! i)) = Some (snd (bl' ! i))" if "i < length bl" for i
  proof (cases "i = p")
    case True
    then show ?thesis using fst' [OF that] snd' [OF that] by (simp add: blocks a_def)
  next
    case False
    then have "fst (bl ! i) \<noteq> a" using H(9) [OF that D(12)] by (simp add: a_def)
    then show ?thesis using fst' [OF that] snd' [OF that] False D(3) [OF that] by (simp add: blocks)
  qed
  moreover have "block_placed als (as_calls pool) (as_nodeSize pool) (snd (bl' ! i))" if "i < length bl" for i
    using D(4) [OF that] field' [OF that] by (simp add: block_placed_def)
  ultimately have "apool_rep als pool' bl' p []"
    unfolding apool_rep_def len same using D(5-9,12,13) field' fst' by simp
  then show ?thesis using run same by (auto simp: bl'_def b'_def a_def b_def)
qed

text \<open>The primary block is full: the next one, if there is one, or a new one.\<close>

lemma allocate_move:
  assumes rep: "apool_rep als pool bl p fs" and full: "ab_taken (snd (bl ! p)) = ab_elements (snd (bl ! p))"
    and more_bl: "Suc p < length bl"
  shows "\<exists>pool'. vlAsyncPoolAllocate als pool = Some (True, pool') \<and> apool_rep als pool' bl (Suc p) fs \<and>
    as_nodeSize pool' = as_nodeSize pool \<and> as_elementAlign pool' = as_elementAlign pool \<and>
    as_totalBlocks pool' = as_totalBlocks pool \<and> as_calls pool' = as_calls pool"
proof -
  note D = apool_repD [OF rep] and H = heads_okD [OF apool_repD(1) [OF rep]]
  let ?pool = "pool\<lparr>as_allocatingFlag := False,
    as_primaryBlock := vlAtomicPtrStore (as_primaryBlock pool) (fst (bl ! Suc p))\<rparr>"
  have n: "ab_next (snd (bl ! p)) = fst (bl ! Suc p)" "fst (bl ! Suc p) \<noteq> 0" "fst (bl ! p) \<noteq> 0"
    using H(5) [OF D(12)] H(4) [OF more_bl] H(4) [OF D(12)] more_bl by simp_all
  have "vlAsyncPoolAllocate als pool = Some (True, ?pool)"
    using D(3) [OF D(12)] D(6,7) n by (simp add: vlAsyncPoolAllocate_def Let_def)
  moreover have "heads_ok bl (Suc p)"
    using D(1) more_bl full unfolding heads_ok_def by (auto simp: less_Suc_eq)
  then have "apool_rep als ?pool bl (Suc p) fs"
    using rep by (simp add: apool_rep_def vlAtomicPtrStore_def tag_next_def)
  ultimately show ?thesis by auto
qed

lemma block_elements_bounds: "block_elements n = Some e \<Longrightarrow> 16 \<le> e \<and> e \<le> 2 ^ 20"
proof -
  assume e: "block_elements n = Some e"
  have "\<exists>k \<le> 16. e = 16 * 2 ^ k"
  proof (cases "2 ^ n \<ge> VL_ASYNC_POOL_BLOCK_MAX")
    case True
    then show ?thesis
      using e by (auto simp: block_elements_def VL_ASYNC_POOL_BLOCK_MIN_def VL_ASYNC_POOL_BLOCK_MIN_SHIFT_def
        VL_ASYNC_POOL_BLOCK_MAX_SHIFT_def split: if_splits)
  next
    case False
    then have "(2::nat) ^ n < 2 ^ 16"
      by (simp only: not_le VL_ASYNC_POOL_BLOCK_MAX_def VL_ASYNC_POOL_BLOCK_MAX_SHIFT_def)
    then have "n < 16" by (rule power_less_imp_less_exp [rotated]) simp
    then show ?thesis
      using e False by (auto simp: block_elements_def VL_ASYNC_POOL_BLOCK_MIN_def VL_ASYNC_POOL_BLOCK_MIN_SHIFT_def
        split: if_splits intro: exI [of _ "n - 1"] exI [of _ 0])
  qed
  then obtain k where k: "k \<le> 16" "e = 16 * 2 ^ k" by blast
  have "(2::nat) ^ k \<le> 2 ^ 16" using k(1) by (rule power_increasing) simp
  then show ?thesis using k(2) by simp
qed

lemma allocate_new:
  assumes rep: "apool_rep als pool bl p fs" and als: "allocators_ok als limit" "limit \<le> 2 ^ 32 - MEMORY_HEADER_SIZE"
    and pad: "0 < padUp 32 (as_elementAlign pool)"
    and newest: "Suc p = length bl" and full: "ab_taken (snd (bl ! p)) = ab_elements (snd (bl ! p))"
    and e: "block_elements (as_totalBlocks pool) = Some e" and calls: "as_calls pool < 64"
    and room: "padUp 32 (as_elementAlign pool) + e * as_nodeSize pool + as_elementAlign pool + MEMORY_HEADER_SIZE < limit"
  shows "\<exists>pool' bl'. vlAsyncPoolAllocate als pool = Some (True, pool') \<and> apool_rep als pool' bl' (length bl) fs \<and>
    length bl' = Suc (length bl) \<and> ab_elements (snd (bl' ! length bl)) = e \<and> ab_taken (snd (bl' ! length bl)) = 0 \<and>
    used_nodes (as_nodeSize pool) bl' = used_nodes (as_nodeSize pool) bl \<and> elements_left bl' = elements_left bl + e \<and>
    as_nodeSize pool' = as_nodeSize pool \<and> as_elementAlign pool' = as_elementAlign pool"
proof -
  note D = apool_repD [OF rep] and H = heads_okD [OF apool_repD(1) [OF rep]]
  define hs where "hs = padUp 32 (as_elementAlign pool)"
  define ns where "ns = as_nodeSize pool"
  define a b where "a = fst (bl ! p)" and "b = snd (bl ! p)"
  have eb: "16 \<le> e" "e \<le> 2 ^ 20" using block_elements_bounds [OF e] by simp_all
  have small: "e * ns < 2 ^ 32" using room als(2) by (simp add: ns_def)
  obtain m where m: "vlMemAllocAligned (als (as_calls pool)) (hs + e * ns) (as_elementAlign pool) = Some (Some m)"
    "malloc_at (als (as_calls pool)) (length (mem_bytes m)) = Some (mem_origin m)" "0 < mem_address m"
    "mem_origin m \<le> mem_address m" "mem_address m + (hs + e * ns) \<le> mem_origin m + length (mem_bytes m)"
    using alloc_aligned_place [OF als(1) calls _ als(2), of "hs + e * ns" "as_elementAlign pool"] room
    by (auto simp: hs_def ns_def)
  define x where "x = mem_address m"
  define h where "h = \<lparr>ab_next = 0, ab_prev = a, ab_elements = e, ab_taken = 0, ab_value = x + hs, ab_memory = m\<rparr>"
  define b' where "b' = b\<lparr>ab_next := x\<rparr>"
  define bl' where "bl' = bl[p := (a, b')] @ [(x, h)]"
  have xr: "x \<in> region m" using m(4,5) pad by (simp add: region_def x_def hs_def)
  have apart: "region (ab_memory (snd (bl ! i))) \<inter> region m = {}" if i: "i < length bl" for i
  proof -
    obtain c where "c < as_calls pool" "malloc_at (als c) (length (mem_bytes (ab_memory (snd (bl ! i))))) =
        Some (mem_origin (ab_memory (snd (bl ! i))))"
      using D(4) [OF i] by (auto simp: block_placed_def)
    then show ?thesis using als(1) m(2) unfolding allocators_ok_def region_def by (metis less_irrefl)
  qed
  have fresh: "fst (bl ! i) \<noteq> x" if "i < length bl" for i using D(13) [OF that] apart [OF that] xr by auto
  have a: "a \<noteq> 0" "a \<noteq> x" "as_blocks pool a = Some b" "ab_next b = 0"
    using H(4) [OF D(12)] fresh [OF D(12)] D(3) [OF D(12)] H(5) [OF D(12)] newest by (simp_all add: a_def b_def)
  define pool' where "pool' = pool\<lparr>
    as_blocks := (as_blocks pool)(x := Some h, a := Some b'),
    as_links := (\<lambda>y. if y \<in> (\<lambda>k. x + hs + ns * k) ` {..<e} then Some None else as_links pool y),
    as_calls := as_calls pool + 1, as_totalBlocks := u16_of (as_totalBlocks pool + 1),
    as_primaryBlock := vlAtomicPtrStore (as_primaryBlock pool) x, as_allocatingFlag := False\<rparr>"
  have run: "vlAsyncPoolAllocate als pool = Some (True, pool')"
    using D(6,7) a e m(1) small
    by (simp add: vlAsyncPoolAllocate_def allocate_block_def Let_def a_def [symmetric] hs_def [symmetric] ns_def [symmetric]
      u32_of_id x_def [symmetric] h_def [symmetric] pool'_def b'_def cong: if_cong)
  have len: "length bl' = Suc (length bl)" by (simp add: bl'_def)
  have old: "fst (bl' ! i) = fst (bl ! i)" "snd (bl' ! i) = (if i = p then b' else snd (bl ! i))" if "i < length bl" for i
    using that D(12) by (simp_all add: bl'_def nth_append a_def nth_list_update)
  have new: "bl' ! length bl = (x, h)" by (simp add: bl'_def nth_append)
  have field: "ab_value (snd (bl' ! i)) = ab_value (snd (bl ! i))" "ab_elements (snd (bl' ! i)) = ab_elements (snd (bl ! i))"
    "ab_memory (snd (bl' ! i)) = ab_memory (snd (bl ! i))" "ab_prev (snd (bl' ! i)) = ab_prev (snd (bl ! i))"
    "ab_taken (snd (bl' ! i)) = ab_taken (snd (bl ! i))" if "i < length bl" for i
    using old(2) [OF that] by (simp_all add: b'_def b_def)
  have heads: "heads_ok bl' (length bl)"
    unfolding heads_ok_def
  proof (intro conjI)
    have mf: "map fst bl' = map fst bl @ [x]"
      using len old(1) new by (simp add: list_eq_iff_nth_eq nth_append less_Suc_eq)
    have sf: "fst ` set bl' = insert x (fst ` set bl)" using arg_cong [OF mf, of set] by simp
    have "x \<notin> fst ` set bl" using fresh by (force simp: in_set_conv_nth)
    moreover have "distinct (map fst bl)" "0 \<notin> fst ` set bl" using D(1) by (simp_all add: heads_ok_def)
    ultimately show "distinct (map fst bl')" "0 \<notin> fst ` set bl'" using mf sf m(3) by (simp_all add: x_def)
    show "length bl < length bl'" using len by simp
    show "\<forall>i < length bl'. ab_next (snd (bl' ! i)) = (if Suc i < length bl' then fst (bl' ! Suc i) else 0) \<and>
        ab_prev (snd (bl' ! i)) = (if i = 0 then 0 else fst (bl' ! (i - 1))) \<and>
        ab_taken (snd (bl' ! i)) \<le> ab_elements (snd (bl' ! i)) \<and> 0 < ab_elements (snd (bl' ! i)) \<and>
        ab_elements (snd (bl' ! i)) < 2 ^ 32 \<and>
        (i < length bl \<longrightarrow> ab_taken (snd (bl' ! i)) = ab_elements (snd (bl' ! i))) \<and>
        (length bl < i \<longrightarrow> ab_taken (snd (bl' ! i)) = 0)"
    proof (intro allI impI)
      fix i assume "i < length bl'"
      then consider "i = length bl" | "i = p" "i < length bl" | "i < p" "i < length bl" using len newest by linarith
      then show "ab_next (snd (bl' ! i)) = (if Suc i < length bl' then fst (bl' ! Suc i) else 0) \<and>
        ab_prev (snd (bl' ! i)) = (if i = 0 then 0 else fst (bl' ! (i - 1))) \<and>
        ab_taken (snd (bl' ! i)) \<le> ab_elements (snd (bl' ! i)) \<and> 0 < ab_elements (snd (bl' ! i)) \<and>
        ab_elements (snd (bl' ! i)) < 2 ^ 32 \<and>
        (i < length bl \<longrightarrow> ab_taken (snd (bl' ! i)) = ab_elements (snd (bl' ! i))) \<and>
        (length bl < i \<longrightarrow> ab_taken (snd (bl' ! i)) = 0)"
      proof cases
        case 1
        have "length bl - 1 = p" "0 < length bl" using newest by linarith+
        then show ?thesis using 1 new len old(1) [OF D(12)] eb by (simp add: h_def a_def)
      next
        case 2
        have "fst (bl' ! (p - 1)) = fst (bl ! (p - 1))" using D(12) by (intro old) simp
        moreover have "fst (bl' ! Suc p) = x" "Suc p < length bl'" using new newest len by simp_all
        ultimately show ?thesis using 2 H(1-6) [OF 2(2)] field [OF 2(2)] full old(2) [OF 2(2)] by (simp add: b'_def)
      next
        case 3
        have "Suc i < length bl" "i - 1 < length bl" using 3 D(12) by simp_all
        then show ?thesis using 3 H(1-7) [OF 3(2)] field [OF 3(2)] old [OF 3(2)] old(1) [of "Suc i"] old(1) [of "i - 1"] len by simp
      qed
    qed
  qed
  have used: "used_nodes ns bl' = used_nodes ns bl"
  proof -
    have "(y = ab_value (snd (bl' ! i)) + ns * k \<and> i < Suc (length bl) \<and> k < ab_taken (snd (bl' ! i))) \<longleftrightarrow>
        (y = ab_value (snd (bl ! i)) + ns * k \<and> i < length bl \<and> k < ab_taken (snd (bl ! i)))" for y i k
      using new field(1,5) by (cases "i = length bl") (auto simp: h_def less_Suc_eq)
    then show ?thesis unfolding used_nodes_def len by (intro Collect_cong iff_exI)
  qed
  have left: "elements_left bl' = elements_left bl + e"
  proof -
    have "map (\<lambda>(a, b). ab_elements b - ab_taken b) (bl[p := (a, b')]) = map (\<lambda>(a, b). ab_elements b - ab_taken b) bl"
      using D(12) by (simp add: map_update list_update_same_conv case_prod_unfold b'_def b_def)
    then show ?thesis by (simp add: elements_left_def bl'_def h_def)
  qed
  have in_new: "x + hs + ns * k \<in> region m" if "k < e" for k
  proof -
    have "ns * k < e * ns" using that D(8) by (simp add: ns_def mult.commute)
    then have "x + hs + ns * k < mem_origin m + length (mem_bytes m)" using m(5) unfolding x_def by linarith
    then show ?thesis using m(4) by (simp add: region_def x_def)
  qed
  have apart': "blocks_apart bl'"
  proof -
    have "region (ab_memory (snd (bl' ! i))) \<inter> region (ab_memory (snd (bl' ! j))) = {}"
      if ij: "i < Suc (length bl)" "j < Suc (length bl)" "i \<noteq> j" for i j
    proof -
      consider "i < length bl" "j < length bl" | "i < length bl" "j = length bl" | "i = length bl" "j < length bl"
        using ij by linarith
      then show ?thesis
      proof cases
        case 1
        then show ?thesis using D(2) ij(3) field(3) by (simp add: blocks_apart_def)
      next
        case 2
        then show ?thesis using apart [OF 2(1)] field(3) [OF 2(1)] new by (simp add: h_def)
      next
        case 3
        then show ?thesis using apart [OF 3(2)] field(3) [OF 3(2)] new by (simp add: h_def Int_commute)
      qed
    qed
    then show ?thesis by (simp add: blocks_apart_def len)
  qed
  have at: "as_blocks pool' (fst (bl' ! i)) = Some (snd (bl' ! i)) \<and> fst (bl' ! i) \<in> region (ab_memory (snd (bl' ! i))) \<and>
      block_placed als (as_calls pool') ns (snd (bl' ! i)) \<and>
      (\<forall>k < ab_elements (snd (bl' ! i)). as_links pool' (ab_value (snd (bl' ! i)) + ns * k) \<noteq> None)"
    if "i < Suc (length bl)" for i
  proof (cases "i = length bl")
    case True
    have "mem_origin m < x + hs" using m(4) pad by (simp add: x_def hs_def)
    then have "block_placed als (as_calls pool') ns h"
      using m(2,5) by (auto simp: block_placed_def h_def pool'_def x_def mult.commute)
    moreover have "as_links pool' (x + hs + ns * k) = Some None" if "k < e" for k using that by (auto simp: pool'_def)
    moreover have "as_blocks pool' x = Some h" using a(2) by (simp add: pool'_def)
    ultimately show ?thesis using True new xr by (simp add: h_def)
  next
    case False
    then have i: "i < length bl" using that by simp
    have "block_placed als (as_calls pool') ns (snd (bl' ! i))"
      using D(4) [OF i] field [OF i] unfolding block_placed_def pool'_def ns_def by (auto intro: less_SucI)
    moreover have "as_blocks pool' (fst (bl' ! i)) = Some (snd (bl' ! i))"
      using old [OF i] D(3) [OF i] fresh [OF i] H(9) [OF i D(12)] by (auto simp: pool'_def a_def)
    moreover have "as_links pool' (ab_value (snd (bl' ! i)) + ns * k) \<noteq> None" if "k < ab_elements (snd (bl' ! i))" for k
      using D(5) [OF i, of k] that field [OF i] by (simp add: pool'_def ns_def)
    ultimately show ?thesis using old(1) [OF i] field(3) [OF i] D(13) [OF i] by simp
  qed
  have "as_links pool' f = as_links pool f" if "f \<in> set fs" for f
  proof -
    obtain i k where ik: "i < length bl" "k < ab_taken (snd (bl ! i))" "f = ab_value (snd (bl ! i)) + ns * k"
      using D(11) \<open>f \<in> set fs\<close> by (auto simp: used_nodes_def ns_def)
    then have "f \<in> region (ab_memory (snd (bl ! i)))"
      using node_in_region(1) [OF rep ik(1)] H(1) [OF ik(1)] by (simp add: ns_def)
    then have "f \<notin> region m" using apart [OF ik(1)] by auto
    then show ?thesis using in_new by (auto simp: pool'_def)
  qed
  then have chain: "free_chain (as_links pool') (tp_ptr (as_freeStack pool')) fs"
    using free_chain_other [OF D(9)] by (simp add: pool'_def)
  have "apool_rep als pool' bl' (length bl) fs"
    unfolding apool_rep_def len
    using heads apart' at chain new D(8,10,11) used
    by (simp add: pool'_def vlAtomicPtrStore_def tag_next_def ns_def)
  moreover have "as_nodeSize pool' = ns" "as_elementAlign pool' = as_elementAlign pool" by (simp_all add: pool'_def ns_def)
  moreover have "ab_elements h = e" "ab_taken h = 0" by (simp_all add: h_def)
  ultimately show ?thesis
    unfolding ns_def [symmetric] using run len new used left by (intro exI [of _ pool'] exI [of _ bl']) simp
qed

lemma elements_left_update:
  assumes "i < length bl"
  shows "elements_left (bl[i := x]) + (ab_elements (snd (bl ! i)) - ab_taken (snd (bl ! i))) =
    elements_left bl + (ab_elements (snd x) - ab_taken (snd x))"
  using assms elem_le_sum_list [of i "map (\<lambda>(a, b). ab_elements b - ab_taken b) bl"]
  by (simp add: elements_left_def map_update sum_list_update case_prod_unfold)

lemma elements_left_zero:
  assumes "elements_left bl = 0" and "i < length bl"
  shows "ab_elements (snd (bl ! i)) \<le> ab_taken (snd (bl ! i))"
  using assms elem_le_sum_list [of i "map (\<lambda>(a, b). ab_elements b - ab_taken b) bl"]
  by (simp add: elements_left_def case_prod_unfold)

text \<open>The address of an element that was not used, and what is used after it.\<close>

lemma used_nodes_take:
  assumes rep: "apool_rep als pool bl p fs" and room: "ab_taken (snd (bl ! p)) < ab_elements (snd (bl ! p))"
    and b: "b = snd (bl ! p)"
  shows "ab_value b + as_nodeSize pool * ab_taken b \<notin> used_nodes (as_nodeSize pool) bl"
    and "used_nodes (as_nodeSize pool) (bl[p := (fst (bl ! p), b\<lparr>ab_taken := ab_taken b + 1\<rparr>)]) =
      insert (ab_value b + as_nodeSize pool * ab_taken b) (used_nodes (as_nodeSize pool) bl)"
proof -
  note D = apool_repD [OF rep] and H = heads_okD [OF apool_repD(1) [OF rep]]
  let ?ns = "as_nodeSize pool" and ?bl = "bl[p := (fst (bl ! p), b\<lparr>ab_taken := ab_taken b + 1\<rparr>)]"
  show "ab_value b + ?ns * ab_taken b \<notin> used_nodes ?ns bl"
  proof
    assume "ab_value b + ?ns * ab_taken b \<in> used_nodes ?ns bl"
    then obtain i k where ik: "i < length bl" "k < ab_taken (snd (bl ! i))"
      "ab_value b + ?ns * ab_taken b = ab_value (snd (bl ! i)) + ?ns * k" by (auto simp: used_nodes_def)
    then have "k < ab_elements (snd (bl ! i))" using H(1) [OF ik(1)] by simp
    then show False using node_inj [OF rep D(12) ik(1) room] ik(2,3) b by auto
  qed
  have val: "ab_value (snd (?bl ! i)) = ab_value (snd (bl ! i))"
    "ab_taken (snd (?bl ! i)) = (if i = p then Suc (ab_taken b) else ab_taken (snd (bl ! i)))" if "i < length bl" for i
    using that b D(12) by (auto simp: nth_list_update)
  show "used_nodes ?ns ?bl = insert (ab_value b + ?ns * ab_taken b) (used_nodes ?ns bl)"
  proof (rule set_eqI)
    fix y
    have "y \<in> used_nodes ?ns ?bl \<longleftrightarrow>
        (\<exists>i k. y = ab_value (snd (bl ! i)) + ?ns * k \<and> i < length bl \<and>
          k < (if i = p then Suc (ab_taken b) else ab_taken (snd (bl ! i))))"
      unfolding used_nodes_def mem_Collect_eq length_list_update by (intro iff_exI) (auto simp: val b [symmetric])
    also have "\<dots> \<longleftrightarrow> y = ab_value b + ?ns * ab_taken b \<or> y \<in> used_nodes ?ns bl"
    proof
      assume "\<exists>i k. y = ab_value (snd (bl ! i)) + ?ns * k \<and> i < length bl \<and>
          k < (if i = p then Suc (ab_taken b) else ab_taken (snd (bl ! i)))"
      then obtain i k where "y = ab_value (snd (bl ! i)) + ?ns * k" "i < length bl"
        "k < (if i = p then Suc (ab_taken b) else ab_taken (snd (bl ! i)))" by blast
      moreover from this have "k < ab_taken (snd (bl ! i)) \<or> i = p \<and> k = ab_taken b" using b by (auto split: if_splits)
      ultimately show "y = ab_value b + ?ns * ab_taken b \<or> y \<in> used_nodes ?ns bl"
        using b unfolding used_nodes_def by blast
    next
      assume "y = ab_value b + ?ns * ab_taken b \<or> y \<in> used_nodes ?ns bl"
      then show "\<exists>i k. y = ab_value (snd (bl ! i)) + ?ns * k \<and> i < length bl \<and>
          k < (if i = p then Suc (ab_taken b) else ab_taken (snd (bl ! i)))"
      proof
        assume "y = ab_value b + ?ns * ab_taken b"
        then show ?thesis using D(12) b by (intro exI [of _ p] exI [of _ "ab_taken b"]) simp
      next
        assume "y \<in> used_nodes ?ns bl"
        then obtain i k where "y = ab_value (snd (bl ! i)) + ?ns * k" "i < length bl" "k < ab_taken (snd (bl ! i))"
          unfolding used_nodes_def by blast
        then show ?thesis using b by (intro exI [of _ i] exI [of _ k]) auto
      qed
    qed
    finally show "y \<in> used_nodes ?ns ?bl \<longleftrightarrow> y \<in> insert (ab_value b + ?ns * ab_taken b) (used_nodes ?ns bl)" by simp
  qed
qed

lemma live_insert:
  fixes h :: nat
  assumes "n \<notin> U" and "F \<subseteq> U"
  shows "(\<lambda>a. a + h) ` (insert n U - F) = insert (n + h) ((\<lambda>a. a + h) ` (U - F))" and "n + h \<notin> (\<lambda>a. a + h) ` (U - F)"
  using assms by auto

lemma take_loop_unfold:
  assumes "tp_ptr (as_freeStack pool) = 0" and "as_blocks pool (tp_ptr (as_primaryBlock pool)) = Some b"
    and "ab_elements b \<le> ab_taken b" and "vlAsyncPoolAllocate als pool = Some (r, pool')"
  shows "vlAsyncPoolTake als pool = vlAsyncPoolTake als pool'"
  using assms by (subst vlAsyncPoolTake.simps) (simp add: Let_def)

text \<open>Taking with room in the primary block, or with a free element.\<close>

definition pool_same :: "vl_async_pool \<Rightarrow> vl_async_pool \<Rightarrow> bool" where
  "pool_same pool pool' \<longleftrightarrow> as_nodeSize pool' = as_nodeSize pool \<and> as_elementAlign pool' = as_elementAlign pool"

lemma pool_same_header: "pool_same pool pool' \<Longrightarrow> async_header pool' = async_header pool"
  by (simp add: pool_same_def async_header_def)

lemma next_elements_cong:
  assumes "as_totalBlocks pool' = as_totalBlocks pool" and "pool_same pool pool'" and "as_calls pool' = as_calls pool"
  shows "next_elements limit pool' = next_elements limit pool"
proof -
  have n: "as_nodeSize pool' = as_nodeSize pool" "as_elementAlign pool' = as_elementAlign pool"
    using assms(2) by (simp_all add: pool_same_def)
  show ?thesis unfolding next_elements_def assms(1,3) n by (rule refl)
qed

lemma take_ready:
  assumes rep: "apool_rep als pool bl p fs" and room: "fs = [] \<Longrightarrow> ab_taken (snd (bl ! p)) < ab_elements (snd (bl ! p))"
  shows "\<exists>a pool' bl' fs'. vlAsyncPoolTake als pool = Some (a, pool') \<and> a \<notin> apool_live pool bl fs \<and> a \<noteq> 0 \<and>
    apool_rep als pool' bl' p fs' \<and> apool_live pool' bl' fs' = insert a (apool_live pool bl fs) \<and>
    Suc (length fs' + elements_left bl') = length fs + elements_left bl \<and>
    as_totalBlocks pool' = as_totalBlocks pool \<and> as_calls pool' = as_calls pool \<and> pool_same pool pool'"
proof (cases fs)
  case (Cons f fs')
  obtain pool' where t: "vlAsyncPoolTake als pool = Some (f + async_header pool, pool')" "apool_rep als pool' bl p fs'"
    "as_nodeSize pool' = as_nodeSize pool" "as_elementAlign pool' = as_elementAlign pool" "as_totalBlocks pool' = as_totalBlocks pool"
    "as_calls pool' = as_calls pool"
    using take_free [OF rep [unfolded Cons]] by blast
  let ?U = "used_nodes (as_nodeSize pool) bl"
  have f: "f \<in> ?U" "f \<notin> set fs'" "set fs' \<subseteq> ?U" using apool_repD(10,11) [OF rep] Cons by simp_all
  obtain i k where "i < length bl" "k < ab_taken (snd (bl ! i))" "f = ab_value (snd (bl ! i)) + as_nodeSize pool * k"
    using f(1) by (auto simp: used_nodes_def)
  then have "f \<noteq> 0" using node_in_region(2) [OF rep, of i k] heads_okD(1) [OF apool_repD(1) [OF rep], of i] by simp
  moreover have "?U - set fs' = insert f (?U - set fs)" "f \<notin> ?U - set fs" using f Cons by auto
  moreover have hdr: "async_header pool' = async_header pool" using t(4) by (simp add: async_header_def)
  ultimately have "apool_live pool' bl fs' = insert (f + async_header pool) (apool_live pool bl fs)"
    "f + async_header pool \<notin> apool_live pool bl fs" "f + async_header pool \<noteq> 0"
    using t(3) by (auto simp: apool_live_def)
  moreover have "pool_same pool pool'" using t(3,4) by (simp add: pool_same_def)
  ultimately show ?thesis
    using t(1,2,5,6) Cons
    by (intro exI [of _ "f + async_header pool"] exI [of _ pool'] exI [of _ bl] exI [of _ fs']) simp
next
  case Nil
  define b where "b = snd (bl ! p)"
  define n where "n = ab_value b + as_nodeSize pool * ab_taken b"
  define bl' where "bl' = bl[p := (fst (bl ! p), b\<lparr>ab_taken := ab_taken b + 1\<rparr>)]"
  have rep': "apool_rep als pool bl p []" and room': "ab_taken (snd (bl ! p)) < ab_elements (snd (bl ! p))"
    using rep room Nil by simp_all
  obtain pool' where t: "vlAsyncPoolTake als pool = Some (n + async_header pool, pool')" "apool_rep als pool' bl' p []"
    "as_nodeSize pool' = as_nodeSize pool" "as_elementAlign pool' = as_elementAlign pool" "as_totalBlocks pool' = as_totalBlocks pool"
    "as_calls pool' = as_calls pool"
    using take_fresh [OF rep' room'] by (auto simp: n_def bl'_def b_def)
  have n: "n \<notin> used_nodes (as_nodeSize pool) bl"
    "used_nodes (as_nodeSize pool) bl' = insert n (used_nodes (as_nodeSize pool) bl)"
    using used_nodes_take [OF rep' room' b_def] by (simp_all add: n_def bl'_def)
  have "0 < n" using node_in_region(2) [OF rep' apool_repD(12) [OF rep'] room'] by (simp add: n_def b_def)
  moreover have hdr: "async_header pool' = async_header pool" using t(4) by (simp add: async_header_def)
  ultimately have "apool_live pool' bl' [] = insert (n + async_header pool) (apool_live pool bl [])"
    "n + async_header pool \<notin> apool_live pool bl []" "n + async_header pool \<noteq> 0"
    using t(3) n by (auto simp: apool_live_def)
  moreover have "Suc (elements_left bl') = elements_left bl"
    using elements_left_update [OF apool_repD(12) [OF rep'], of "(fst (bl ! p), b\<lparr>ab_taken := ab_taken b + 1\<rparr>)"] room'
    by (simp add: bl'_def b_def)
  moreover have "pool_same pool pool'" using t(3,4) by (simp add: pool_same_def)
  ultimately show ?thesis
    using t(1,2,5,6) Nil
    by (intro exI [of _ "n + async_header pool"] exI [of _ pool'] exI [of _ bl'] exI [of _ "[]"]) simp
qed

text \<open>Taking an element, also when the pool has to grow for it.\<close>

lemma pool_take_ok:
  assumes "apool_holds als limit pool L (Suc k)"
  shows "\<exists>a pool'. vlAsyncPoolTake als pool = Some (a, pool') \<and> a \<notin> L \<and> a \<noteq> 0 \<and> apool_holds als limit pool' (insert a L) k"
proof -
  obtain bl p fs where als: "allocators_ok als limit" "limit \<le> 2 ^ 32 - MEMORY_HEADER_SIZE" "0 < padUp 32 (as_elementAlign pool)"
    and rep: "apool_rep als pool bl p fs" and L: "L = apool_live pool bl fs"
    and k: "Suc k \<le> length fs + elements_left bl + next_elements limit pool"
    using assms unfolding apool_holds_def by blast
  have ready: ?thesis
    if q: "vlAsyncPoolTake als pool = vlAsyncPoolTake als q" "apool_rep als q bl' p' fs'" "apool_live q bl' fs' = L" "pool_same pool q"
      "fs' = [] \<Longrightarrow> ab_taken (snd (bl' ! p')) < ab_elements (snd (bl' ! p'))"
      "Suc k \<le> length fs' + elements_left bl' + next_elements limit q" for q bl' p' fs'
  proof -
    obtain a pool' bl'' fs'' where t: "vlAsyncPoolTake als q = Some (a, pool')" "a \<notin> apool_live q bl' fs'" "a \<noteq> 0"
      "apool_rep als pool' bl'' p' fs''" "apool_live pool' bl'' fs'' = insert a (apool_live q bl' fs')"
      "Suc (length fs'' + elements_left bl'') = length fs' + elements_left bl'" "as_totalBlocks pool' = as_totalBlocks q" "pool_same q pool'"
      "as_calls pool' = as_calls q"
      using take_ready [OF q(2,5)] by blast
    have "next_elements limit pool' = next_elements limit q" by (rule next_elements_cong [OF t(7,8,9)])
    moreover have "as_elementAlign pool' = as_elementAlign pool" using t(8) q(4) by (simp add: pool_same_def)
    ultimately have "apool_holds als limit pool' (insert a L) k"
      unfolding apool_holds_def using als t(4-6) q(3,6) by (intro conjI exI [of _ bl''] exI [of _ p'] exI [of _ fs'']) auto
    then show ?thesis using t(1-3) q(1,3) by auto
  qed
  show ?thesis
  proof (cases "fs = [] \<and> ab_taken (snd (bl ! p)) = ab_elements (snd (bl ! p))")
    case False
    then have "fs = [] \<Longrightarrow> ab_taken (snd (bl ! p)) < ab_elements (snd (bl ! p))"
      using heads_okD(1) [OF apool_repD(1) [OF rep] apool_repD(12) [OF rep]] by simp
    then show ?thesis using rep L k by (intro ready [of pool bl p fs]) (auto simp: pool_same_def)
  next
    case True
    note D = apool_repD [OF rep] and H = heads_okD [OF apool_repD(1) [OF rep]]
    have full: "ab_taken (snd (bl ! p)) = ab_elements (snd (bl ! p))" and fs: "fs = []" using True by simp_all
    have top: "tp_ptr (as_freeStack pool) = 0" using D(9) fs by simp
    have prim: "as_blocks pool (tp_ptr (as_primaryBlock pool)) = Some (snd (bl ! p))" using D(3,6,12) by simp
    note unfold = take_loop_unfold [OF top prim]
    show ?thesis
    proof (cases "Suc p < length bl")
      case later: True
      obtain q where q: "vlAsyncPoolAllocate als pool = Some (True, q)" "apool_rep als q bl (Suc p) fs"
        "as_nodeSize q = as_nodeSize pool" "as_elementAlign q = as_elementAlign pool" "as_totalBlocks q = as_totalBlocks pool"
        "as_calls q = as_calls pool"
        using allocate_move [OF rep full later] by blast
      show ?thesis
      proof (rule ready [of q bl "Suc p" fs])
        show "vlAsyncPoolTake als pool = vlAsyncPoolTake als q" using unfold q(1) full by simp
        show "apool_live q bl fs = L" using q(3,4) L by (simp add: apool_live_def async_header_def)
        show "ab_taken (snd (bl ! Suc p)) < ab_elements (snd (bl ! Suc p))" using H(2,8) [OF later] by simp
        show "Suc k \<le> length fs + elements_left bl + next_elements limit q" using k q(3-6) next_elements_cong [of q pool] by (simp add: pool_same_def)
      qed (use q in \<open>simp_all add: pool_same_def\<close>)
    next
      case False
      then have newest: "Suc p = length bl" using D(12) by simp
      have "ab_elements (snd (bl ! i)) - ab_taken (snd (bl ! i)) = 0" if "i < length bl" for i
        using H(7) [OF that] full that newest by (cases "i = p") auto
      then have "\<forall>x \<in> set bl. ab_elements (snd x) - ab_taken (snd x) = 0" by (metis in_set_conv_nth)
      then have "elements_left bl = 0" by (simp add: elements_left_def case_prod_unfold)
      then have "0 < next_elements limit pool" using k fs by simp
      then obtain e where e: "block_elements (as_totalBlocks pool) = Some e"
        "padUp 32 (as_elementAlign pool) + e * as_nodeSize pool + as_elementAlign pool + MEMORY_HEADER_SIZE < limit"
        "next_elements limit pool = e" "0 < e" "as_calls pool < 64"
        by (auto simp: next_elements_def split: option.splits if_splits)
      obtain q bl' where q: "vlAsyncPoolAllocate als pool = Some (True, q)" "apool_rep als q bl' (length bl) fs"
        "ab_elements (snd (bl' ! length bl)) = e" "ab_taken (snd (bl' ! length bl)) = 0"
        "used_nodes (as_nodeSize pool) bl' = used_nodes (as_nodeSize pool) bl" "elements_left bl' = elements_left bl + e"
        "as_nodeSize q = as_nodeSize pool" "as_elementAlign q = as_elementAlign pool"
        using allocate_new [OF rep als newest full e(1,5,2)] by blast
      show ?thesis
      proof (rule ready [of q bl' "length bl" fs])
        show "vlAsyncPoolTake als pool = vlAsyncPoolTake als q" using unfold q(1) full by simp
        show "apool_live q bl' fs = L" using q(5,7,8) L by (simp add: apool_live_def async_header_def)
        show "ab_taken (snd (bl' ! length bl)) < ab_elements (snd (bl' ! length bl))" using q(3,4) e(4) by simp
        show "Suc k \<le> length fs + elements_left bl' + next_elements limit q" using k q(6) e(3) by simp
      qed (use q in \<open>simp_all add: pool_same_def\<close>)
    qed
  qed
qed

text \<open>Giving an element back.\<close>

lemma pool_return_ok:
  assumes "apool_holds als limit pool L k" and "a \<in> L"
  shows "\<exists>pool'. vlAsyncPoolReturn pool a = Some pool' \<and> apool_holds als limit pool' (L - {a}) (Suc k)"
proof -
  obtain bl p fs where als: "allocators_ok als limit" "limit \<le> 2 ^ 32 - MEMORY_HEADER_SIZE" "0 < padUp 32 (as_elementAlign pool)"
    and rep: "apool_rep als pool bl p fs" and L: "L = apool_live pool bl fs"
    and k: "k \<le> length fs + elements_left bl + next_elements limit pool"
    using assms unfolding apool_holds_def by blast
  note D = apool_repD [OF rep] and H = heads_okD [OF apool_repD(1) [OF rep]]
  obtain n where n: "a = n + async_header pool" "n \<in> used_nodes (as_nodeSize pool) bl" "n \<notin> set fs"
    using assms(2) by (auto simp: L apool_live_def)
  then obtain i j where ij: "i < length bl" "j < ab_taken (snd (bl ! i))" "n = ab_value (snd (bl ! i)) + as_nodeSize pool * j"
    by (auto simp: used_nodes_def)
  have link: "as_links pool n \<noteq> None" using D(5) [OF ij(1), of j] H(1) [OF ij(1)] ij(2,3) by simp
  let ?pool = "pool\<lparr>as_links := (as_links pool)(n := Some (Some (tp_ptr (as_freeStack pool)))),
    as_freeStack := tag_next (as_freeStack pool) n, as_freeLength := inc32 (as_freeLength pool)\<rparr>"
  have "vlAsyncPoolReturn pool a = Some ?pool" using link by (auto simp: vlAsyncPoolReturn_def n(1) Let_def)
  moreover have "apool_rep als ?pool bl p (n # fs)"
  proof -
    have "free_chain (as_links ?pool) (tp_ptr (as_freeStack pool)) fs"
      by (rule free_chain_other [OF D(9)]) (use n(3) in auto)
    then show ?thesis using rep n by (auto simp: apool_rep_def tag_next_def)
  qed
  moreover have "apool_live ?pool bl (n # fs) = L - {a}"
    using n by (auto simp: L apool_live_def async_header_def)
  moreover have "next_elements limit ?pool = next_elements limit pool"
    by (rule next_elements_cong) (simp_all add: pool_same_def)
  ultimately show ?thesis
    unfolding apool_holds_def using als k
    by (intro exI [of _ ?pool] conjI exI [of _ bl] exI [of _ p] exI [of _ "n # fs"]) auto
qed

interpretation async_elements: element_source "vlAsyncPoolTake als" vlAsyncPoolReturn "apool_holds als limit" for als limit
  by (rule element_source.intro) (rule pool_take_ok pool_return_ok; assumption)+

text \<open>A new pool: one block of sixteen elements.\<close>

lemma init_ok:
  assumes als: "allocators_ok als limit" "limit \<le> 2 ^ 32 - MEMORY_HEADER_SIZE" and align: "align = 2 ^ j" "j < 16"
    and room: "padUp 32 align + 16 * u16_of (padUp 8 align + u16_of (padUp esize align)) + align + MEMORY_HEADER_SIZE < limit"
    and pos: "0 < u16_of (padUp 8 align + u16_of (padUp esize align))"
  shows "\<exists>pool. vlAsyncPoolInitAligned als esize align = Some pool \<and> apool_holds als limit pool {} 16 \<and> as_elementAlign pool = align"
proof -
  define ns where "ns = u16_of (padUp 8 align + u16_of (padUp esize align))"
  define hs where "hs = padUp 32 align"
  have "32 + 2 ^ j < (2 :: nat) ^ 64"
  proof -
    have "(2::nat) ^ j \<le> 2 ^ 16" using align(2) by (intro power_increasing) simp_all
    then show ?thesis by simp
  qed
  then have hs: "32 \<le> hs" using padUp_ge [of j 32] align by (simp add: hs_def)
  obtain m where m: "vlMemAllocAligned (als 0) (hs + 16 * ns) align = Some (Some m)"
    "malloc_at (als 0) (length (mem_bytes m)) = Some (mem_origin m)" "0 < mem_address m" "mem_origin m \<le> mem_address m"
    "mem_address m + (hs + 16 * ns) \<le> mem_origin m + length (mem_bytes m)"
    using alloc_aligned_place [OF als(1) _ _ als(2), of 0 "hs + 16 * ns" align] room by (auto simp: hs_def ns_def)
  define x where "x = mem_address m"
  define h where "h = \<lparr>ab_next = 0, ab_prev = 0, ab_elements = 16, ab_taken = 0, ab_value = x + hs, ab_memory = m\<rparr>"
  define pool where "pool = \<lparr>as_freeStack = VL_TAGPTR_NULL, as_freeLength = 0, as_primaryBlock = vlAtomicPtrStore VL_TAGPTR_NULL x,
    as_allocatingFlag = False, as_totalBlocks = u16_of 1, as_elementSize = u16_of (padUp esize align), as_elementAlign = align,
    as_nodeSize = ns, as_blocks = [x \<mapsto> h], as_links = (\<lambda>y. if y \<in> (\<lambda>k. x + hs + ns * k) ` {..<16} then Some None else None),
    as_calls = 1\<rparr>"
  have be: "block_elements 0 = Some 16"
    by (simp add: block_elements_def VL_ASYNC_POOL_BLOCK_MIN_def VL_ASYNC_POOL_BLOCK_MIN_SHIFT_def VL_ASYNC_POOL_BLOCK_MAX_def
      VL_ASYNC_POOL_BLOCK_MAX_SHIFT_def)
  have "ns < 2 ^ 16" by (simp add: ns_def u16_of_def)
  then have small: "u32_of (16 * ns) = 16 * ns" by (intro u32_of_id) simp
  have "vlAsyncPoolInitAligned als esize align = Some pool"
    using be m(1) small
    by (simp add: vlAsyncPoolInitAligned_def vlAsyncPoolAllocate_def allocate_block_def Let_def VL_TAGPTR_NULL_def
      hs_def [symmetric] ns_def [symmetric] x_def [symmetric] h_def pool_def cong: if_cong)
  moreover have "apool_rep als pool [(x, h)] 0 []"
  proof -
    have "heads_ok [(x, h)] 0" using m(3) by (simp add: heads_ok_def h_def x_def)
    moreover have "block_placed als 1 ns h" using m(2,4,5) hs by (auto simp: block_placed_def h_def x_def mult.commute)
    moreover have "x \<in> region m" using m(4,5) hs by (simp add: region_def x_def)
    ultimately show ?thesis
      using pos
      by (auto simp: apool_rep_def pool_def blocks_apart_def vlAtomicPtrStore_def tag_next_def VL_TAGPTR_NULL_def ns_def [symmetric] h_def)
  qed
  moreover have "apool_live pool [(x, h)] [] = {}" by (simp add: apool_live_def used_nodes_def h_def)
  moreover have "elements_left [(x, h)] = 16" by (simp add: elements_left_def h_def)
  moreover have "as_elementAlign pool = align" by (simp add: pool_def)
  ultimately show ?thesis
    unfolding apool_holds_def using als hs by (intro exI [of _ pool] conjI exI [of _ "[(x, h)]"] exI [of _ 0] exI [of _ "[]"]) (auto simp: hs_def)
qed

text \<open>
  C37. The pool hands out no element twice: taking \<open>n\<close> elements from a pool that can serve them gives \<open>n\<close>
  different addresses, none of them null and none in use, through the free stack, the rest of the
  primary block and the blocks that are allocated meanwhile; what is given back can be taken again.
\<close>

theorem async_pool_take_distinct:
  assumes "apool_holds als limit pool L (n + k)"
  shows "\<exists>as pool'. async_elements.take_many als n pool = Some (as, pool') \<and> length as = n \<and> distinct as \<and>
    set as \<inter> L = {} \<and> 0 \<notin> set as \<and> apool_holds als limit pool' (set as \<union> L) k \<and>
    (\<forall>a \<in> set as \<union> L. \<exists>pool''. vlAsyncPoolReturn pool' a = Some pool'' \<and>
       apool_holds als limit pool'' (set as \<union> L - {a}) (Suc k))"
proof -
  obtain as pool' where "async_elements.take_many als n pool = Some (as, pool')" "length as = n" "distinct as"
    "set as \<inter> L = {}" "0 \<notin> set as" and h: "apool_holds als limit pool' (set as \<union> L) k"
    using async_elements.take_many_ok [OF assms] by blast
  moreover have "\<forall>a \<in> set as \<union> L. \<exists>pool''. vlAsyncPoolReturn pool' a = Some pool'' \<and>
       apool_holds als limit pool'' (set as \<union> L - {a}) (Suc k)"
    using pool_return_ok [OF h] by blast
  ultimately show ?thesis by blast
qed

text \<open>Allocators for the witnesses: each call has a range of its own.\<close>

definition some_allocators :: "nat \<Rightarrow> allocator" where
  "some_allocators c = \<lparr>malloc_at = (\<lambda>n. if n < 2 ^ 20 \<and> c < 64 then Some (2 ^ 20 * (c + 1)) else None),
     realloc_at = (\<lambda>p n. None)\<rparr>"

lemma some_allocators_ok: "allocators_ok some_allocators (2 ^ 20)"
proof -
  have "{2 ^ 20 * (c + 1) ..< 2 ^ 20 * (c + 1) + n} \<inter> {2 ^ 20 * (c' + 1) ..< 2 ^ 20 * (c' + 1) + n'} = {}"
    if "c \<noteq> c'" "n < 2 ^ 20" "n' < 2 ^ 20" for c c' n n' :: nat
    using that by (cases "c < c'") auto
  moreover have "allocator_ok (some_allocators c)" for c
    unfolding allocator_ok_def some_allocators_def by (auto split: if_splits)
  ultimately show ?thesis
    unfolding allocators_ok_def by (auto simp: some_allocators_def split: if_splits)
qed

lemma some_pool:
  obtains pool where "vlAsyncPoolInitAligned some_allocators 24 16 = Some pool"
    "apool_holds some_allocators (2 ^ 20) pool {} 16" "as_elementAlign pool = 16"
proof -
  have p: "padUp 32 16 = 32" "padUp 8 16 = 16" "padUp 24 16 = 32"
    using padUp_pow2 [of 4 32] padUp_pow2 [of 4 8] padUp_pow2 [of 4 24] by simp_all
  have "\<exists>pool. vlAsyncPoolInitAligned some_allocators 24 16 = Some pool \<and>
      apool_holds some_allocators (2 ^ 20) pool {} 16 \<and> as_elementAlign pool = 16"
    by (rule init_ok [OF some_allocators_ok, where j = 4]) (simp_all only: p, simp_all add: u16_of_def mem_defs)
  then show thesis using that by blast
qed

theorem async_pool_take_distinct_witness:
  "\<exists>pool as pool'. vlAsyncPoolInitAligned some_allocators 24 16 = Some pool \<and>
     async_elements.take_many some_allocators 16 pool = Some (as, pool') \<and> length as = 16 \<and> distinct as \<and> 0 \<notin> set as"
proof -
  obtain pool where pool: "vlAsyncPoolInitAligned some_allocators 24 16 = Some pool"
    and h: "apool_holds some_allocators (2 ^ 20) pool {} (16 + 0)" using some_pool by auto
  from async_pool_take_distinct [OF h] pool show ?thesis by blast
qed

end
