(* ===== verification/VL_AsyncQueue.thy ===== *)
theory VL_AsyncQueue
  imports VL_AsyncPoolSpec VL_Interfaces
begin

text \<open>
  \<^verbatim>\<open>src/core/vl_async_queue.c\<close>: a queue of linked nodes on the pool of \<^verbatim>\<open>vl_async_pool.c\<close>, with a dummy
  in front. Here are the operations of one thread, in which a weak exchange fails only without a reason, and
  that they are those of a queue. The memory of the nodes is given by the pointers and the values at their
  addresses.
\<close>

section \<open>State\<close>

record 'v vl_async_queue =
  aq_elements :: vl_async_pool
  aq_head :: vl_tagged_ptr
  aq_tail :: vl_tagged_ptr
  aq_size :: nat
  aq_elementSize :: nat
  aq_nexts :: "nat \<Rightarrow> vl_tagged_ptr option"
  aq_values :: "nat \<Rightarrow> 'v option"

section \<open>Operations\<close>

definition vl_AsyncQueueSetDummy :: "(nat \<Rightarrow> allocator) \<Rightarrow> 'v vl_async_queue \<Rightarrow> 'v vl_async_queue option" where
  "vl_AsyncQueueSetDummy als queue =
     do {
       (dummy, pool) \<leftarrow> vlAsyncPoolTake als (aq_elements queue);
       let init = \<lparr>tp_ptr = dummy, tp_tag = 0\<rparr>;
       Some (queue\<lparr>aq_elements := pool, aq_nexts := (aq_nexts queue)(dummy := Some VL_TAGPTR_NULL),
         aq_head := init, aq_tail := init\<rparr>)
     }"

text \<open>\<^verbatim>\<open>sizeof(vl_async_queue_node)\<close> is 16; the sum is passed as a number of 16 bits.\<close>

definition vlAsyncQueueInit :: "(nat \<Rightarrow> allocator) \<Rightarrow> nat \<Rightarrow> 'v vl_async_queue option" where
  "vlAsyncQueueInit als elementSize =
     do {
       pool \<leftarrow> vlAsyncPoolInitAligned als (u16_of (16 + elementSize)) 16;
       queue \<leftarrow> vl_AsyncQueueSetDummy als
         \<lparr>aq_elements = pool, aq_head = VL_TAGPTR_NULL, aq_tail = VL_TAGPTR_NULL, aq_size = 0, aq_elementSize = elementSize,
          aq_nexts = (\<lambda>_. None), aq_values = (\<lambda>_. None)\<rparr>;
       Some (queue\<lparr>aq_size := 0\<rparr>)
     }"

definition vlAsyncQueueFree :: "'v vl_async_queue \<Rightarrow> 'v vl_async_queue option" where
  "vlAsyncQueueFree queue = do { pool \<leftarrow> vlAsyncPoolFree (aq_elements queue); Some (queue\<lparr>aq_elements := pool\<rparr>) }"

text \<open>\<^verbatim>\<open>sizeof(vl_async_queue)\<close> is 128; the result of \<^verbatim>\<open>malloc\<close> is not checked.\<close>

definition vlAsyncQueueNew :: "allocator \<Rightarrow> (nat \<Rightarrow> allocator) \<Rightarrow> nat \<Rightarrow> 'v vl_async_queue option" where
  "vlAsyncQueueNew al als elementSize = do { _ \<leftarrow> malloc_at al 128; vlAsyncQueueInit als elementSize }"

definition vlAsyncQueueDelete :: "'v vl_async_queue \<Rightarrow> 'v vl_async_queue option" where
  "vlAsyncQueueDelete queue = vlAsyncQueueFree queue"

definition vlAsyncQueueClear :: "(nat \<Rightarrow> allocator) \<Rightarrow> 'v vl_async_queue \<Rightarrow> 'v vl_async_queue option" where
  "vlAsyncQueueClear als queue =
     do {
       pool \<leftarrow> vlAsyncPoolClear (aq_elements queue);
       queue \<leftarrow> vl_AsyncQueueSetDummy als (queue\<lparr>aq_elements := pool\<rparr>);
       Some (queue\<lparr>aq_size := 0\<rparr>)
     }"

definition vlAsyncQueueReset :: "(nat \<Rightarrow> allocator) \<Rightarrow> 'v vl_async_queue \<Rightarrow> 'v vl_async_queue option" where
  "vlAsyncQueueReset als queue =
     do {
       pool \<leftarrow> vlAsyncPoolReset (aq_elements queue);
       queue \<leftarrow> vl_AsyncQueueSetDummy als (queue\<lparr>aq_elements := pool\<rparr>);
       Some (queue\<lparr>aq_size := 0\<rparr>)
     }"

definition vlAsyncQueueSize :: "'v vl_async_queue \<Rightarrow> nat" where
  "vlAsyncQueueSize queue = aq_size queue"

text \<open>The part of \<^verbatim>\<open>vlAsyncQueuePushBack\<close> in front of its loop: a node with the value.\<close>

definition push_prepare :: "(nat \<Rightarrow> allocator) \<Rightarrow> 'v vl_async_queue \<Rightarrow> 'v \<Rightarrow> (nat \<times> 'v vl_async_queue) option" where
  "push_prepare als queue v =
     do {
       (node, pool) \<leftarrow> vlAsyncPoolTake als (aq_elements queue);
       Some (node, queue\<lparr>aq_elements := pool, aq_values := (aq_values queue)(node := Some v),
         aq_nexts := (aq_nexts queue)(node := Some VL_TAGPTR_NULL)\<rparr>)
     }"

text \<open>The loop; \<open>fails i\<close> says whether the weak exchange number \<open>i\<close> of the call fails without a reason.\<close>

partial_function (option) push_loop :: "(nat \<Rightarrow> bool) \<Rightarrow> nat \<Rightarrow> 'v vl_async_queue \<Rightarrow> nat \<Rightarrow> 'v vl_async_queue option" where
  [code]: "push_loop fails i queue node =
     do {
       let tail = aq_tail queue;
       nxt \<leftarrow> aq_nexts queue (tp_ptr tail);
       if tp_ptr nxt = 0 then do {
         let (ok, new, _) = vlAtomicPtrCompareExchangeWeak (fails i) nxt nxt node;
         let queue = queue\<lparr>aq_nexts := (aq_nexts queue)(tp_ptr tail := Some new)\<rparr>;
         if ok then do {
           let (_, tail, _) = vlAtomicPtrCompareExchangeWeak (fails (i + 1)) (aq_tail queue) tail node;
           Some (queue\<lparr>aq_tail := tail, aq_size := inc32 (aq_size queue)\<rparr>)
         } else push_loop fails (i + 1) queue node
       } else do {
         let (_, tail, _) = vlAtomicPtrCompareExchangeWeak (fails i) (aq_tail queue) tail (tp_ptr nxt);
         push_loop fails (i + 1) (queue\<lparr>aq_tail := tail\<rparr>) node
       }
     }"

definition vlAsyncQueuePushBack ::
    "(nat \<Rightarrow> allocator) \<Rightarrow> (nat \<Rightarrow> bool) \<Rightarrow> 'v vl_async_queue \<Rightarrow> 'v \<Rightarrow> 'v vl_async_queue option" where
  "vlAsyncQueuePushBack als fails queue v = do { (node, queue) \<leftarrow> push_prepare als queue v; push_loop fails 0 queue node }"

text \<open>The value that is popped, or \<^const>\<open>None\<close> if the queue is empty.\<close>

partial_function (option) pop_loop :: "(nat \<Rightarrow> bool) \<Rightarrow> nat \<Rightarrow> 'v vl_async_queue \<Rightarrow> ('v option \<times> 'v vl_async_queue) option" where
  [code]: "pop_loop fails i queue =
     do {
       let head = aq_head queue;
       let tail = aq_tail queue;
       nxt \<leftarrow> aq_nexts queue (tp_ptr head);
       if tp_ptr nxt = 0 then Some (None, queue)
       else do {
         let (i, queue) =
           (if tp_ptr head = tp_ptr tail
            then let (_, tail, _) = vlAtomicPtrCompareExchangeWeak (fails i) (aq_tail queue) tail (tp_ptr nxt)
                 in (i + 1, queue\<lparr>aq_tail := tail\<rparr>)
            else (i, queue));
         let (ok, new, _) = vlAtomicPtrCompareExchangeWeak (fails i) (aq_head queue) head (tp_ptr nxt);
         let queue = queue\<lparr>aq_head := new\<rparr>;
         if ok then do {
           v \<leftarrow> aq_values queue (tp_ptr nxt);
           pool \<leftarrow> vlAsyncPoolReturn (aq_elements queue) (tp_ptr head);
           Some (Some v, queue\<lparr>aq_elements := pool, aq_size := dec32 (aq_size queue)\<rparr>)
         } else pop_loop fails (i + 1) queue
       }
     }"

definition vlAsyncQueuePopFront :: "(nat \<Rightarrow> bool) \<Rightarrow> 'v vl_async_queue \<Rightarrow> ('v option \<times> 'v vl_async_queue) option" where
  "vlAsyncQueuePopFront fails queue = pop_loop fails 0 queue"

section \<open>The nodes of a queue\<close>

text \<open>The nodes from an address on, linked by their pointers.\<close>

fun node_chain :: "(nat \<Rightarrow> vl_tagged_ptr option) \<Rightarrow> nat \<Rightarrow> nat list \<Rightarrow> bool" where
  "node_chain nexts a [] \<longleftrightarrow> a = 0"
| "node_chain nexts a (x # xs) \<longleftrightarrow> a = x \<and> x \<noteq> 0 \<and> (\<exists>n. nexts x = Some n \<and> node_chain nexts (tp_ptr n) xs)"

lemma node_chain_other:
  "node_chain nexts a xs \<Longrightarrow> (\<And>x. x \<in> set xs \<Longrightarrow> nexts' x = nexts x) \<Longrightarrow> node_chain nexts' a xs"
proof (induction xs arbitrary: a)
  case (Cons x xs)
  then obtain n where n: "a = x" "x \<noteq> 0" "nexts x = Some n" "node_chain nexts (tp_ptr n) xs" by auto
  then have "nexts' x = Some n" using Cons.prems(2) [of x] by simp
  then show ?case using n Cons.IH [OF n(4)] Cons.prems(2) by simp
qed simp

text \<open>A node behind the last one.\<close>

lemma node_chain_append:
  assumes "node_chain nexts a (xs @ [x])" and "nexts y = Some n" and "tp_ptr n = 0" and "y \<noteq> 0" and "tp_ptr m = y"
    and "y \<notin> set (xs @ [x])" and "distinct (xs @ [x])"
  shows "node_chain (nexts(x := Some m)) a (xs @ [x, y])"
  using assms(1,6,7)
proof (induction xs arbitrary: a)
  case Nil
  then show ?case using assms(2-5) by auto
next
  case (Cons z zs)
  then obtain n' where "a = z" "z \<noteq> 0" "nexts z = Some n'" "node_chain nexts (tp_ptr n') (zs @ [x])" by auto
  then show ?case using Cons by auto
qed

lemma node_chain_last: "node_chain nexts a (xs @ [x]) \<Longrightarrow> \<exists>n. nexts x = Some n \<and> tp_ptr n = 0"
  by (induction xs arbitrary: a) auto

lemma node_chain_hd: "node_chain nexts a xs \<Longrightarrow> xs \<noteq> [] \<Longrightarrow> hd xs = a \<and> a \<noteq> 0"
  by (cases xs) auto

lemma node_chain_next: "node_chain nexts a (ys @ [u, x]) \<Longrightarrow> x \<noteq> 0 \<and> (\<exists>n. nexts u = Some n \<and> tp_ptr n = x)"
  by (induction ys arbitrary: a) auto

text \<open>
  The queue of one thread: the nodes are in use, the tail is the last of them, and all but the dummy have
  a value. \<open>k\<close> more values can be pushed. When exchanges of the tail have failed it may be the last but one.
\<close>

definition aq_rep :: "(nat \<Rightarrow> allocator) \<Rightarrow> nat \<Rightarrow> 'v vl_async_queue \<Rightarrow> 'v list \<Rightarrow> nat \<Rightarrow> nat \<Rightarrow> nat list \<Rightarrow> bool" where
  "aq_rep als limit q vs k d ns \<longleftrightarrow>
     (\<exists>L. node_chain (aq_nexts q) (tp_ptr (aq_head q)) (d # ns) \<and> distinct (d # ns) \<and>
        map (aq_values q) ns = map Some vs \<and>
        set (d # ns) \<subseteq> L \<and> apool_holds als limit (aq_elements q) L k \<and> aq_size q = u32_of (length vs))"

definition aq_holds :: "(nat \<Rightarrow> allocator) \<Rightarrow> nat \<Rightarrow> 'v vl_async_queue \<Rightarrow> 'v list \<Rightarrow> nat \<Rightarrow> bool" where
  "aq_holds als limit q vs k \<longleftrightarrow>
     (\<exists>d ns L. node_chain (aq_nexts q) (tp_ptr (aq_head q)) (d # ns) \<and> distinct (d # ns) \<and>
        tp_ptr (aq_tail q) = last (d # ns) \<and> map (aq_values q) ns = map Some vs \<and>
        set (d # ns) \<subseteq> L \<and> apool_holds als limit (aq_elements q) L k \<and> aq_size q = u32_of (length vs))"

definition near_end :: "nat list \<Rightarrow> nat \<Rightarrow> bool" where
  "near_end ns a \<longleftrightarrow> a = last ns \<or> (\<exists>ys y. ns = ys @ [a, y])"

definition aq_near :: "(nat \<Rightarrow> allocator) \<Rightarrow> nat \<Rightarrow> 'v vl_async_queue \<Rightarrow> 'v list \<Rightarrow> nat \<Rightarrow> bool" where
  "aq_near als limit q vs k \<longleftrightarrow> (\<exists>d ns. aq_rep als limit q vs k d ns \<and> near_end (d # ns) (tp_ptr (aq_tail q)))"

lemma aq_holds_rep: "aq_holds als limit q vs k \<longleftrightarrow> (\<exists>d ns. aq_rep als limit q vs k d ns \<and> tp_ptr (aq_tail q) = last (d # ns))"
  unfolding aq_holds_def aq_rep_def by blast

lemma aq_holds_near: "aq_holds als limit q vs k \<Longrightarrow> aq_near als limit q vs k"
  unfolding aq_holds_rep aq_near_def near_end_def by blast

lemma aq_near_empty: "aq_near als limit q [] k \<Longrightarrow> aq_holds als limit q [] k"
  by (fastforce simp: aq_near_def aq_holds_rep aq_rep_def near_end_def Cons_eq_append_conv)

section \<open>Loops\<close>

text \<open>Not all exchanges from some on fail.\<close>

definition fair :: "(nat \<Rightarrow> bool) \<Rightarrow> bool" where
  "fair fails \<longleftrightarrow> (\<forall>i. \<exists>j. \<not> fails (i + j))"

definition linked :: "'v vl_async_queue \<Rightarrow> nat \<Rightarrow> vl_tagged_ptr \<Rightarrow> nat \<Rightarrow> vl_tagged_ptr \<Rightarrow> 'v vl_async_queue" where
  "linked q x m node t =
     q\<lparr>aq_nexts := (aq_nexts q)(x := Some (tag_next m node)), aq_tail := t, aq_size := inc32 (aq_size q)\<rparr>"

lemmas exchange_defs = vlAtomicPtrCompareExchangeWeak_def vlAtomicPtrCompareExchangeStrong_def

lemma push_loop_done:
  assumes "aq_nexts q x = Some m" and "tp_ptr m = 0" and "tp_ptr (aq_tail q) = x" and "\<not> fails i"
  shows "push_loop fails i q node = Some (linked q x m node (if fails (i + 1) then aq_tail q else tag_next (aq_tail q) node))"
  using assms by (subst push_loop.simps) (simp add: exchange_defs linked_def Let_def)

lemma push_loop_retry:
  assumes "aq_nexts q (tp_ptr (aq_tail q)) = Some m" and "fails i"
  shows "push_loop fails i q node = push_loop fails (i + 1) q node"
proof -
  have "q\<lparr>aq_nexts := (aq_nexts q)(tp_ptr (aq_tail q) := Some m)\<rparr> = q" using assms(1) by (simp add: fun_upd_idem)
  then show ?thesis using assms by (subst push_loop.simps) (simp add: exchange_defs Let_def)
qed

lemma push_loop_help:
  assumes "aq_nexts q (tp_ptr (aq_tail q)) = Some m" and "tp_ptr m = x" and "x \<noteq> 0" and "\<not> fails i"
  shows "push_loop fails i q node = push_loop fails (i + 1) (q\<lparr>aq_tail := tag_next (aq_tail q) x\<rparr>) node"
  using assms by (subst push_loop.simps) (simp add: exchange_defs Let_def)

text \<open>The new tail is the new node, or the one in front of it if the exchange of the tail has failed.\<close>

definition new_tail :: "(nat \<Rightarrow> bool) \<Rightarrow> nat \<Rightarrow> nat \<Rightarrow> vl_tagged_ptr \<Rightarrow> bool" where
  "new_tail fails x node t \<longleftrightarrow> tp_ptr t = node \<or> tp_ptr t = x \<and> (\<exists>i. fails i)"

lemma push_loop_last:
  assumes "aq_nexts q x = Some m" and "tp_ptr m = 0" and "tp_ptr (aq_tail q) = x" and "\<not> fails (i + j)"
  shows "\<exists>t. push_loop fails i q node = Some (linked q x m node t) \<and> new_tail fails x node t"
  using assms(4)
proof (induction j arbitrary: i)
  case 0
  then show ?case
    using push_loop_done [where fails = fails and i = i, OF assms(1-3)] assms(3) by (auto simp: new_tail_def tag_next_def)
next
  case (Suc j)
  show ?case
  proof (cases "fails i")
    case True
    then show ?thesis
      using push_loop_retry [of q m fails i node] assms(1,3) Suc.IH [of "i + 1"] Suc.prems by simp
  next
    case False
    then show ?thesis
      using push_loop_done [where fails = fails and i = i, OF assms(1-3)] assms(3) by (auto simp: new_tail_def tag_next_def)
  qed
qed

lemma push_after_help:
  assumes "aq_nexts q x = Some m" and "tp_ptr m = 0" and "aq_nexts q (tp_ptr (aq_tail q)) = Some m'" and "tp_ptr m' = x" and "x \<noteq> 0"
    and "fair fails" and "\<not> fails i"
  shows "\<exists>t. push_loop fails i q node = Some (linked q x m node t) \<and> new_tail fails x node t"
proof -
  let ?q = "q\<lparr>aq_tail := tag_next (aq_tail q) x\<rparr>"
  obtain j where j: "\<not> fails (i + 1 + j)" using assms(6) unfolding fair_def by blast
  have "linked ?q x m node t = linked q x m node t" for t by (simp add: linked_def)
  then show ?thesis
    using push_loop_help [where fails = fails and i = i, OF assms(3-5,7)] push_loop_last [of ?q x m fails "i + 1" j node] j assms(1,2)
    by (simp add: tag_next_def)
qed

lemma push_loop_behind:
  assumes "aq_nexts q x = Some m" and "tp_ptr m = 0" and "aq_nexts q (tp_ptr (aq_tail q)) = Some m'" and "tp_ptr m' = x" and "x \<noteq> 0"
    and "fair fails" and "\<not> fails (i + j)"
  shows "\<exists>t. push_loop fails i q node = Some (linked q x m node t) \<and> new_tail fails x node t"
  using assms(7)
proof (induction j arbitrary: i)
  case (Suc j)
  then show ?case
  proof (cases "fails i")
    case False
    then show ?thesis using Suc.IH [of i] Suc.prems push_after_help [OF assms(1-6), of i] by simp
  qed (use push_loop_retry [where fails = fails and i = i, OF assms(3)] Suc.IH [of "i + 1"] in simp)
qed (use push_after_help [OF assms(1-6)] in simp)

section \<open>One operation\<close>

lemma async_push_ok:
  assumes "aq_near als limit q vs (Suc k)" and "fair fails"
  shows "\<exists>q'. vlAsyncQueuePushBack als fails q v = Some q' \<and> aq_near als limit q' (vs @ [v]) k \<and>
    ((\<forall>i. \<not> fails i) \<longrightarrow> aq_holds als limit q' (vs @ [v]) k)"
proof -
  obtain d ns L where c: "node_chain (aq_nexts q) (tp_ptr (aq_head q)) (d # ns)" "distinct (d # ns)"
    "near_end (d # ns) (tp_ptr (aq_tail q))" "map (aq_values q) ns = map Some vs" "set (d # ns) \<subseteq> L"
    "apool_holds als limit (aq_elements q) L (Suc k)" "aq_size q = u32_of (length vs)"
    using assms(1) unfolding aq_near_def aq_rep_def by blast
  obtain n pool where t: "vlAsyncPoolTake als (aq_elements q) = Some (n, pool)" "n \<notin> L" "n \<noteq> 0"
    "apool_holds als limit pool (insert n L) k"
    using pool_take_ok [OF c(6)] by blast
  obtain xs x where x: "d # ns = xs @ [x]" by (metis append_butlast_last_id list.distinct(1))
  have nn: "n \<notin> set (xs @ [x])" using t(2) c(5) x by auto
  define nexts where "nexts = (aq_nexts q)(n := Some VL_TAGPTR_NULL)"
  have ch: "node_chain nexts (tp_ptr (aq_head q)) (xs @ [x])"
    unfolding nexts_def using c(1) nn unfolding x by (elim node_chain_other) auto
  obtain m where m: "nexts x = Some m" "tp_ptr m = 0" using node_chain_last [OF ch] by blast
  define vals where "vals = (aq_values q)(n := Some v)"
  define q1 where "q1 = q\<lparr>aq_elements := pool, aq_values := vals, aq_nexts := nexts\<rparr>"
  have prep: "push_prepare als q v = Some (n, q1)" using t(1) by (simp add: push_prepare_def q1_def vals_def nexts_def)
  obtain j where j: "\<not> fails (0 + j)" using assms(2) unfolding fair_def by blast
  have "\<exists>t. push_loop fails 0 q1 n = Some (linked q1 x m n t) \<and> new_tail fails x n t"
  proof (cases "tp_ptr (aq_tail q) = x")
    case True
    then show ?thesis using push_loop_last [of q1 x m fails 0 j n] m j by (simp add: q1_def)
  next
    case False
    then obtain ys where ys: "xs @ [x] = ys @ [tp_ptr (aq_tail q), x]" using c(3) unfolding x near_end_def by auto
    obtain m' where "x \<noteq> 0" "nexts (tp_ptr (aq_tail q)) = Some m'" "tp_ptr m' = x"
      using node_chain_next [OF ch [unfolded ys]] by blast
    then show ?thesis using push_loop_behind [of q1 x m m' fails 0 j n] m j assms(2) by (simp add: q1_def)
  qed
  then obtain tl where tl: "push_loop fails 0 q1 n = Some (linked q1 x m n tl)" "new_tail fails x n tl" by blast
  define q' where "q' = linked q1 x m n tl"
  have run: "vlAsyncQueuePushBack als fails q v = Some q'" by (simp add: vlAsyncQueuePushBack_def prep tl(1) q'_def)
  have dist: "distinct (xs @ [x])" using c(2) x by metis
  have "node_chain (nexts(x := Some (tag_next m n))) (tp_ptr (aq_head q)) (xs @ [x, n])"
    by (rule node_chain_append [OF ch _ _ t(3) _ nn dist, where n = VL_TAGPTR_NULL])
      (simp_all add: nexts_def VL_TAGPTR_NULL_def tag_next_def)
  moreover have nd: "n \<notin> set (d # ns)" using nn unfolding x .
  moreover have e: "xs @ [x, n] = d # (ns @ [n])" using x by (metis append.assoc append_Cons append_Nil)
  moreover have "map vals (ns @ [n]) = map Some (vs @ [v])"
  proof -
    have "n \<notin> set ns" using nn x by (metis list.set_intros(2))
    then have "map vals ns = map (aq_values q) ns" by (auto simp: vals_def)
    then show ?thesis using c(4) by (simp add: vals_def)
  qed
  moreover have "inc32 (u32_of (length vs)) = u32_of (length (vs @ [v]))" by (simp add: inc32_mod)
  ultimately have rep: "aq_rep als limit q' (vs @ [v]) k d (ns @ [n])"
    unfolding aq_rep_def q'_def linked_def q1_def using t(4) c(2,5,7)
    by (intro exI [of _ "insert n L"]) (simp add: subset_insertI2)
  have tail: "aq_tail q' = tl" by (simp add: q'_def linked_def)
  have "near_end (d # ns @ [n]) (tp_ptr tl)"
    using tl(2) unfolding e [symmetric] new_tail_def near_end_def by auto
  then have "aq_near als limit q' (vs @ [v]) k" unfolding aq_near_def using rep tail by auto
  moreover have "aq_holds als limit q' (vs @ [v]) k" if "\<forall>i. \<not> fails i"
  proof -
    have "tp_ptr tl = n" using tl(2) that by (auto simp: new_tail_def)
    then show ?thesis using rep tail unfolding aq_holds_rep by (intro exI [of _ d] exI [of _ "ns @ [n]"]) simp
  qed
  ultimately show ?thesis using run by blast
qed

text \<open>The queue after a pop that finds the node \<open>x\<close> behind the dummy.\<close>

definition popped :: "'v vl_async_queue \<Rightarrow> nat \<Rightarrow> vl_async_pool \<Rightarrow> 'v vl_async_queue" where
  "popped q x pool = q\<lparr>aq_head := tag_next (aq_head q) x, aq_elements := pool, aq_size := dec32 (aq_size q)\<rparr>"

lemma pop_loop_done:
  assumes "aq_nexts q (tp_ptr (aq_head q)) = Some m" and "tp_ptr m = x" and "x \<noteq> 0" and "aq_values q x = Some v"
    and "vlAsyncPoolReturn (aq_elements q) (tp_ptr (aq_head q)) = Some pool"
    and "tp_ptr (aq_head q) \<noteq> tp_ptr (aq_tail q)" and "\<not> fails (i + j)"
  shows "pop_loop fails i q = Some (Some v, popped q x pool)"
  using assms(7)
proof (induction j arbitrary: i)
  case 0
  then show ?case using assms(1-6) by (subst pop_loop.simps) (simp add: exchange_defs Let_def popped_def)
next
  case (Suc j)
  show ?case
  proof (cases "fails i")
    case True
    then have "pop_loop fails i q = pop_loop fails (i + 1) q"
      using assms(1-6) by (subst pop_loop.simps) (simp add: exchange_defs Let_def)
    then show ?thesis using Suc.IH [of "i + 1"] Suc.prems by simp
  next
    case False
    then show ?thesis using assms(1-6) by (subst pop_loop.simps) (simp add: exchange_defs Let_def popped_def)
  qed
qed

text \<open>If the tail is the dummy it is moved first; this exchange must not fail.\<close>

lemma pop_loop_help:
  assumes "aq_nexts q (tp_ptr (aq_head q)) = Some m" and "tp_ptr m = x" and "x \<noteq> 0" and "aq_values q x = Some v"
    and "vlAsyncPoolReturn (aq_elements q) (tp_ptr (aq_head q)) = Some pool"
    and "tp_ptr (aq_head q) = tp_ptr (aq_tail q)" and "x \<noteq> tp_ptr (aq_head q)" and "\<not> fails 0" and "fair fails"
  shows "pop_loop fails 0 q = Some (Some v, popped (q\<lparr>aq_tail := tag_next (aq_tail q) x\<rparr>) x pool)"
proof -
  let ?q = "q\<lparr>aq_tail := tag_next (aq_tail q) x\<rparr>"
  show ?thesis
  proof (cases "fails 1")
    case True
    obtain j where j: "\<not> fails (2 + j)" using assms(9) unfolding fair_def by blast
    have "pop_loop fails 0 q = pop_loop fails 2 ?q"
      using assms(1-8) True by (subst pop_loop.simps) (simp add: exchange_defs Let_def numeral_2_eq_2)
    then show ?thesis using pop_loop_done [of ?q m x v pool fails 2 j] assms j by (simp add: tag_next_def)
  next
    case False
    then show ?thesis using assms(1-8) by (subst pop_loop.simps) (simp add: exchange_defs Let_def popped_def)
  qed
qed

lemma async_pop_ok:
  assumes "aq_near als limit q (v # vs) k" and "\<not> fails 0" and "fair fails"
  shows "\<exists>q'. vlAsyncQueuePopFront fails q = Some (Some v, q') \<and> aq_near als limit q' vs (Suc k)"
proof -
  obtain d ns L where c: "node_chain (aq_nexts q) (tp_ptr (aq_head q)) (d # ns)" "distinct (d # ns)"
    "near_end (d # ns) (tp_ptr (aq_tail q))" "map (aq_values q) ns = map Some (v # vs)" "set (d # ns) \<subseteq> L"
    "apool_holds als limit (aq_elements q) L k" "aq_size q = u32_of (length (v # vs))"
    using assms(1) unfolding aq_near_def aq_rep_def by blast
  obtain x ns' where ns: "ns = x # ns'" "aq_values q x = Some v" "map (aq_values q) ns' = map Some vs"
    using c(4) by (cases ns) auto
  obtain m where m: "tp_ptr (aq_head q) = d" "aq_nexts q d = Some m" "tp_ptr m = x" "x \<noteq> 0"
    "node_chain (aq_nexts q) x (x # ns')"
    using c(1) ns(1) by auto
  obtain pool where pool: "vlAsyncPoolReturn (aq_elements q) d = Some pool" "apool_holds als limit pool (L - {d}) (Suc k)"
    using pool_return_ok [OF c(6), of d] c(5) by auto
  obtain j where j: "\<not> fails (0 + j)" using assms(3) unfolding fair_def by blast
  have rep: "aq_rep als limit (popped q x pool) vs (Suc k) x ns'"
    unfolding aq_rep_def popped_def using m(5) c(2,5,7) ns pool(2)
    by (intro exI [of _ "L - {d}"]) (auto simp: tag_next_def dec32_mod)
  show ?thesis
  proof (cases "d = tp_ptr (aq_tail q)")
    case True
    then have "ns' = []" using c(2,3) ns(1) by (auto simp: near_end_def Cons_eq_append_conv split: if_splits)
    let ?q = "q\<lparr>aq_tail := tag_next (aq_tail q) x\<rparr>"
    have "x \<noteq> d" using c(2) ns(1) by auto
    then have "vlAsyncQueuePopFront fails q = Some (Some v, popped ?q x pool)"
      unfolding vlAsyncQueuePopFront_def
      using pop_loop_help [of q m x v pool fails] m ns(2) pool(1) True assms(2,3) by simp
    moreover have "aq_rep als limit (popped ?q x pool) vs (Suc k) x ns'" using rep by (simp add: aq_rep_def popped_def)
    ultimately show ?thesis unfolding aq_near_def near_end_def using \<open>ns' = []\<close> by (fastforce simp: popped_def tag_next_def)
  next
    case False
    then have "vlAsyncQueuePopFront fails q = Some (Some v, popped q x pool)"
      unfolding vlAsyncQueuePopFront_def using pop_loop_done [of q m x v pool fails 0 j] m ns(2) pool(1) j by simp
    moreover have "near_end (x # ns') (tp_ptr (aq_tail q))"
      using c(3) False ns(1) by (auto simp: near_end_def Cons_eq_append_conv)
    then have "aq_near als limit (popped q x pool) vs (Suc k)"
      unfolding aq_near_def using rep by (auto simp: popped_def)
    ultimately show ?thesis by blast
  qed
qed

lemma async_pop_nothing:
  "aq_nexts q (tp_ptr (aq_head q)) = Some m \<Longrightarrow> tp_ptr m = 0 \<Longrightarrow> vlAsyncQueuePopFront fails q = Some (None, q)"
  by (subst vlAsyncQueuePopFront_def, subst pop_loop.simps) (simp add: Let_def)

lemma async_pop_empty: "aq_holds als limit q [] k \<Longrightarrow> vlAsyncQueuePopFront fails q = Some (None, q)"
  by (auto simp: aq_holds_def async_pop_nothing)

section \<open>Runs of operations\<close>

lemma async_push_all_ok:
  "aq_near als limit q vs (length us + k) \<Longrightarrow> \<forall>u \<in> set us. fair (fst u) \<Longrightarrow>
   \<exists>q'. push_all (\<lambda>q (fails, v). vlAsyncQueuePushBack als fails q v) q us = Some q' \<and> aq_near als limit q' (vs @ map snd us) k"
proof (induction us arbitrary: q vs)
  case (Cons u us)
  obtain q1 where "vlAsyncQueuePushBack als (fst u) q (snd u) = Some q1" "aq_near als limit q1 (vs @ [snd u]) (length us + k)"
    using async_push_ok [of als limit q vs "length us + k" "fst u" "snd u"] Cons.prems by auto
  then show ?case using Cons.IH [of q1 "vs @ [snd u]"] Cons.prems(2) by (auto simp: case_prod_beta)
qed simp

lemma async_push_all_sure:
  "aq_holds als limit q vs (length us + k) \<Longrightarrow>
   \<exists>q'. push_all (vlAsyncQueuePushBack als (\<lambda>_. False)) q us = Some q' \<and> aq_holds als limit q' (vs @ us) k"
proof (induction us arbitrary: q vs)
  case (Cons u us)
  have "fair (\<lambda>_. False)" by (simp add: fair_def)
  then obtain q1 where "vlAsyncQueuePushBack als (\<lambda>_. False) q u = Some q1" "aq_holds als limit q1 (vs @ [u]) (length us + k)"
    using async_push_ok [OF aq_holds_near, of als limit q vs "length us + k" "\<lambda>_. False" u] Cons.prems by auto
  then show ?case using Cons.IH [of q1 "vs @ [u]"] by auto
qed simp

text \<open>Pops whose weak exchanges fail as the members of a list say.\<close>

primrec pop_each :: "('f \<Rightarrow> 'q \<Rightarrow> ('a option \<times> 'q) option) \<Rightarrow> 'f list \<Rightarrow> 'q \<Rightarrow> ('a option list \<times> 'q) option" where
  "pop_each pop [] q = Some ([], q)"
| "pop_each pop (f # fs) q = do { (x, q) \<leftarrow> pop f q; (xs, q) \<leftarrow> pop_each pop fs q; Some (x # xs, q) }"

lemma async_pop_all_ok:
  "aq_near als limit q vs k \<Longrightarrow> length fs = length vs \<Longrightarrow> \<forall>f \<in> set fs. \<not> f 0 \<and> fair f \<Longrightarrow>
   \<exists>q'. pop_each vlAsyncQueuePopFront fs q = Some (map Some vs, q') \<and> aq_near als limit q' [] (length vs + k)"
proof (induction vs arbitrary: q k fs)
  case (Cons v vs)
  obtain f fs' where fs: "fs = f # fs'" using Cons.prems(2) by (cases fs) auto
  obtain q1 where q1: "vlAsyncQueuePopFront f q = Some (Some v, q1)" "aq_near als limit q1 vs (Suc k)"
    using async_pop_ok [OF Cons.prems(1), of f] Cons.prems(3) fs by auto
  obtain q2 where "pop_each vlAsyncQueuePopFront fs' q1 = Some (map Some vs, q2)" "aq_near als limit q2 [] (length vs + Suc k)"
    using Cons.IH [OF q1(2), of fs'] Cons.prems(2,3) unfolding fs by auto
  then show ?case by (simp add: fs q1(1))
qed simp

text \<open>
  C32. In one thread the queue is first in, first out, although weak exchanges may fail without a reason: after
  pushing the values of a list all former values and then these come out in their order, a further pop
  reports that the queue is empty, the size counts the values, and all nodes that were taken for them are back
  in the pool. Of the exchanges of a push any may fail, also the one of the tail that is not tried again, if not
  all from some on do; of those of a pop the first must not fail, which is the one that moves a tail
  that is behind. A call of the pool is one step that does not fail.
\<close>

theorem async_queue_fifo:
  assumes "aq_near als limit q vs (length us + k)" and "\<forall>u \<in> set us. fair (fst u)"
    and "length fs = length vs + length us" and "\<forall>f \<in> set fs. \<not> f 0 \<and> fair f"
  shows "\<exists>q1 q2. push_all (\<lambda>q (fails, v). vlAsyncQueuePushBack als fails q v) q us = Some q1 \<and>
    vlAsyncQueueSize q1 = u32_of (length vs + length us) \<and>
    pop_each vlAsyncQueuePopFront fs q1 = Some (map Some (vs @ map snd us), q2) \<and>
    (\<forall>fails. vlAsyncQueuePopFront fails q2 = Some (None, q2)) \<and> vlAsyncQueueSize q2 = 0 \<and>
    aq_holds als limit q2 [] (length vs + length us + k)"
proof -
  obtain q1 where q1: "push_all (\<lambda>q (fails, v). vlAsyncQueuePushBack als fails q v) q us = Some q1"
    "aq_near als limit q1 (vs @ map snd us) k"
    using async_push_all_ok [OF assms(1,2)] by blast
  obtain q2 where q2: "pop_each vlAsyncQueuePopFront fs q1 = Some (map Some (vs @ map snd us), q2)"
    "aq_near als limit q2 [] (length vs + length us + k)"
    using async_pop_all_ok [OF q1(2) _ assms(4)] assms(3) by auto
  note empty = aq_near_empty [OF q2(2)]
  have "vlAsyncQueueSize q1 = u32_of (length vs + length us)" "vlAsyncQueueSize q2 = 0"
    using q1(2) q2(2) by (auto simp: vlAsyncQueueSize_def aq_near_def aq_rep_def u32_of_def)
  then show ?thesis using q1 q2 async_pop_empty [OF empty] empty by auto
qed

text \<open>A new queue.\<close>

lemma queue_init_ok:
  assumes pool: "vlAsyncPoolInitAligned als (u16_of (16 + elementSize)) 16 = Some pool" "apool_holds als limit pool {} (Suc k)"
  shows "\<exists>q. vlAsyncQueueInit als elementSize = Some q \<and> aq_holds als limit q [] k"
proof -
  obtain d pool' where t: "vlAsyncPoolTake als pool = Some (d, pool')" "d \<noteq> 0" "apool_holds als limit pool' {d} k"
    using pool_take_ok [OF pool(2)] by auto
  let ?q = "\<lparr>aq_elements = pool', aq_head = \<lparr>tp_ptr = d, tp_tag = 0\<rparr>, aq_tail = \<lparr>tp_ptr = d, tp_tag = 0\<rparr>, aq_size = 0,
    aq_elementSize = elementSize, aq_nexts = [d \<mapsto> VL_TAGPTR_NULL], aq_values = (\<lambda>_. None)\<rparr>"
  have "vlAsyncQueueInit als elementSize = Some ?q"
    using pool(1) t(1) by (simp add: vlAsyncQueueInit_def vl_AsyncQueueSetDummy_def Let_def)
  moreover have "aq_holds als limit ?q [] k"
    unfolding aq_holds_def using t(2,3)
    by (intro exI [of _ d] exI [of _ "[]"] exI [of _ "{d}"]) (simp add: VL_TAGPTR_NULL_def u32_of_def)
  ultimately show ?thesis by blast
qed

lemma apool_holds_less: "apool_holds als limit pool L k \<Longrightarrow> j \<le> k \<Longrightarrow> apool_holds als limit pool L j"
  unfolding apool_holds_def using le_trans by blast

lemma aq_holds_less:
  assumes "aq_holds als limit q vs k" and "j \<le> k"
  shows "aq_holds als limit q vs j"
proof -
  obtain d ns L where "node_chain (aq_nexts q) (tp_ptr (aq_head q)) (d # ns)" "distinct (d # ns)"
    "tp_ptr (aq_tail q) = last (d # ns)" "map (aq_values q) ns = map Some vs" "set (d # ns) \<subseteq> L"
    "apool_holds als limit (aq_elements q) L j" "aq_size q = u32_of (length vs)"
    using assms apool_holds_less unfolding aq_holds_def by blast
  then show ?thesis unfolding aq_holds_def by blast
qed

lemma some_queue:
  obtains q :: "'v vl_async_queue" where "vlAsyncQueueInit some_allocators 8 = Some q"
    "aq_holds some_allocators (2 ^ 20) q [] 15"
proof -
  obtain pool where "vlAsyncPoolInitAligned some_allocators 24 16 = Some pool" "apool_holds some_allocators (2 ^ 20) pool {} (Suc 15)"
    using some_pool by auto
  then show thesis using queue_init_ok [of some_allocators 8 pool "2 ^ 20" 15] that by (auto simp: u16_of_def)
qed

lemma aq_near_less: "aq_near als limit q vs k \<Longrightarrow> j \<le> k \<Longrightarrow> aq_near als limit q vs j"
  unfolding aq_near_def aq_rep_def using apool_holds_less by blast

theorem async_queue_fifo_witness:
  "\<exists>q q1 q2. vlAsyncQueueInit some_allocators 8 = Some q \<and>
     push_all (\<lambda>q (fails, v). vlAsyncQueuePushBack some_allocators fails q v) q
       [(\<lambda>i. i < 2, 7), (\<lambda>i. i = 1, 8), (\<lambda>_. False, 9 :: nat)] = Some q1 \<and>
     pop_each vlAsyncQueuePopFront [\<lambda>i. i = 1, \<lambda>_. False, \<lambda>i. i = 2] q1 = Some ([Some 7, Some 8, Some 9], q2) \<and>
     vlAsyncQueuePopFront (\<lambda>_. True) q2 = Some (None, q2)"
proof -
  let ?us = "[(\<lambda>i. i < 2, 7), (\<lambda>i. i = 1, 8), (\<lambda>_. False, 9 :: nat)] :: ((nat \<Rightarrow> bool) \<times> nat) list"
  let ?fs = "[\<lambda>i. i = 1, \<lambda>_. False, \<lambda>i. i = 2] :: (nat \<Rightarrow> bool) list"
  have fair: "fair (\<lambda>i. i < 2)" "fair (\<lambda>i. i = a)" "fair (\<lambda>_. False)" for a
    by (auto simp: fair_def intro: exI [of _ 2] exI [of _ "Suc a"])
  obtain q :: "nat vl_async_queue" where q: "vlAsyncQueueInit some_allocators 8 = Some q"
    "aq_holds some_allocators (2 ^ 20) q [] 15" using some_queue by blast
  have near: "aq_near some_allocators (2 ^ 20) q [] (length ?us + 12)" using aq_holds_near [OF q(2)] by simp
  have "\<forall>u \<in> set ?us. fair (fst u)" "\<forall>f \<in> set ?fs. \<not> f 0 \<and> fair f" using fair by simp_all
  from async_queue_fifo [OF near this(1) _ this(2)] q(1) show ?thesis by auto
qed

end
