(* ===== verification/VL_AsyncSteps.thy ===== *)
theory VL_AsyncSteps
  imports VL_AsyncQueue
begin

text \<open>
  The queue of \<^verbatim>\<open>vl_async_queue.c\<close> in several threads: its operations as atomic steps, each a load, an
  exchange, a copy or a call of the pool, in any order and number of threads. Weak exchanges may fail at
  any time.
\<close>

section \<open>Steps\<close>

text \<open>
  Where a thread is. \<open>Push v\<close> and \<open>Pop\<close> are in front of the operations, \<open>PushLoad\<close> at the start of the
  loop; the arguments are the local variables \<^verbatim>\<open>node\<close>, \<^verbatim>\<open>tail\<close>, \<^verbatim>\<open>head\<close> and \<^verbatim>\<open>next\<close>.
\<close>

datatype 'v async_pc =
    Push 'v | PushLoad nat | PushNext nat vl_tagged_ptr | PushLink nat vl_tagged_ptr vl_tagged_ptr
  | PushHelp nat vl_tagged_ptr vl_tagged_ptr | PushSwing nat vl_tagged_ptr | PushCount | Pushed
  | Pop | PopTail vl_tagged_ptr | PopNext vl_tagged_ptr vl_tagged_ptr
  | PopHelp vl_tagged_ptr vl_tagged_ptr vl_tagged_ptr | PopSwing vl_tagged_ptr vl_tagged_ptr
  | PopCopy vl_tagged_ptr vl_tagged_ptr | PopReturn vl_tagged_ptr 'v | PopCount 'v | Popped "'v option"

text \<open>One step of \<^verbatim>\<open>vlAsyncQueuePushBack\<close> and \<^verbatim>\<open>vlAsyncQueuePopFront\<close>; \<open>fails\<close> makes a weak exchange fail.\<close>

fun async_step :: "(nat \<Rightarrow> allocator) \<Rightarrow> bool \<Rightarrow> 'v async_pc \<Rightarrow> 'v vl_async_queue \<Rightarrow> ('v async_pc \<times> 'v vl_async_queue) option" where
  "async_step als fails (Push v) q = do { (node, q) \<leftarrow> push_prepare als q v; Some (PushLoad node, q) }"
| "async_step als fails (PushLoad node) q = Some (PushNext node (aq_tail q), q)"
| "async_step als fails (PushNext node tail) q =
     do {
       nxt \<leftarrow> aq_nexts q (tp_ptr tail);
       Some (if tp_ptr nxt = 0 then PushLink node tail nxt else PushHelp node tail nxt, q)
     }"
| "async_step als fails (PushLink node tail nxt) q =
     do {
       cur \<leftarrow> aq_nexts q (tp_ptr tail);
       let (ok, new, _) = vlAtomicPtrCompareExchangeWeak fails cur nxt node;
       Some (if ok then PushSwing node tail else PushLoad node, q\<lparr>aq_nexts := (aq_nexts q)(tp_ptr tail := Some new)\<rparr>)
     }"
| "async_step als fails (PushSwing node tail) q =
     (let (ok, new, _) = vlAtomicPtrCompareExchangeWeak fails (aq_tail q) tail node
      in Some (PushCount, q\<lparr>aq_tail := new\<rparr>))"
| "async_step als fails PushCount q = Some (Pushed, q\<lparr>aq_size := inc32 (aq_size q)\<rparr>)"
| "async_step als fails (PushHelp node tail nxt) q =
     (let (ok, new, _) = vlAtomicPtrCompareExchangeWeak fails (aq_tail q) tail (tp_ptr nxt)
      in Some (PushLoad node, q\<lparr>aq_tail := new\<rparr>))"
| "async_step als fails Pushed q = None"
| "async_step als fails Pop q = Some (PopTail (aq_head q), q)"
| "async_step als fails (PopTail head) q = Some (PopNext head (aq_tail q), q)"
| "async_step als fails (PopNext head tail) q =
     do {
       nxt \<leftarrow> aq_nexts q (tp_ptr head);
       Some (if tp_ptr nxt = 0 then Popped None
             else if tp_ptr head = tp_ptr tail then PopHelp head tail nxt else PopSwing head nxt, q)
     }"
| "async_step als fails (PopHelp head tail nxt) q =
     (let (ok, new, _) = vlAtomicPtrCompareExchangeWeak fails (aq_tail q) tail (tp_ptr nxt)
      in Some (PopSwing head nxt, q\<lparr>aq_tail := new\<rparr>))"
| "async_step als fails (PopSwing head nxt) q =
     (let (ok, new, _) = vlAtomicPtrCompareExchangeWeak fails (aq_head q) head (tp_ptr nxt)
      in Some (if ok then PopCopy head nxt else Pop, q\<lparr>aq_head := new\<rparr>))"
| "async_step als fails (PopCopy head nxt) q = do { v \<leftarrow> aq_values q (tp_ptr nxt); Some (PopReturn head v, q) }"
| "async_step als fails (PopReturn head v) q =
     do { pool \<leftarrow> vlAsyncPoolReturn (aq_elements q) (tp_ptr head); Some (PopCount v, q\<lparr>aq_elements := pool\<rparr>) }"
| "async_step als fails (PopCount v) q = Some (Popped (Some v), q\<lparr>aq_size := dec32 (aq_size q)\<rparr>)"
| "async_step als fails (Popped r) q = None"

type_synonym 'v async_state = "'v vl_async_queue \<times> 'v async_pc list"

inductive async_steps :: "(nat \<Rightarrow> allocator) \<Rightarrow> 'v async_state \<Rightarrow> 'v async_state \<Rightarrow> bool" for als where
  finish: "async_steps als s s"
| step: "i < length pcs \<Longrightarrow> async_step als fails (pcs ! i) q = Some (pc, q') \<Longrightarrow>
    async_steps als (q', pcs[i := pc]) s \<Longrightarrow> async_steps als (q, pcs) s"

section \<open>A value is lost\<close>

text \<open>What was given back last is taken next.\<close>

lemma take_after_return:
  assumes h: "apool_holds als limit pool L k" and a: "a \<in> L" and r: "vlAsyncPoolReturn pool a = Some pool'"
  shows "\<exists>pool''. vlAsyncPoolTake als pool' = Some (a, pool'')"
proof -
  obtain bl p fs where rep: "apool_rep als pool bl p fs" and L: "L = apool_live pool bl fs"
    using h unfolding apool_holds_def by blast
  obtain n where n: "a = n + async_header pool" "n \<in> used_nodes (as_nodeSize pool) bl" using a by (auto simp: L apool_live_def)
  then obtain i j where ij: "i < length bl" "j < ab_taken (snd (bl ! i))" "n = ab_value (snd (bl ! i)) + as_nodeSize pool * j"
    by (auto simp: used_nodes_def)
  then have "n \<noteq> 0"
    using node_in_region(2) [OF rep, of i j] heads_okD(1) [OF apool_repD(1) [OF rep], of i] by simp
  moreover obtain l where "as_links pool n = Some l" using r by (auto simp: vlAsyncPoolReturn_def n(1) Let_def bind_eq_Some_conv)
  ultimately show ?thesis
    using r by (subst vlAsyncPoolTake.simps) (auto simp: vlAsyncPoolReturn_def n(1) Let_def tag_next_def async_header_def)
qed

text \<open>A schedule names the threads that take the next steps, and whether a weak exchange fails there.\<close>

primrec async_run :: "(nat \<Rightarrow> allocator) \<Rightarrow> (nat \<times> bool) list \<Rightarrow> 'v async_state \<Rightarrow> 'v async_state option" where
  "async_run als [] s = Some s"
| "async_run als (t # ts) s =
     (if fst t < length (snd s)
      then do { (pc, q) \<leftarrow> async_step als (snd t) (snd s ! fst t) (fst s); async_run als ts (q, (snd s)[fst t := pc]) }
      else None)"

lemma async_run_steps: "async_run als ts s = Some s' \<Longrightarrow> async_steps als s s'"
proof (induction ts arbitrary: s)
  case Nil
  then show ?case by (simp add: async_steps.finish)
next
  case (Cons t ts)
  obtain q pcs where s: "s = (q, pcs)" by force
  with Cons.prems obtain pc q' where "fst t < length pcs" "async_step als (snd t) (pcs ! fst t) q = Some (pc, q')"
    "async_run als ts (q', pcs[fst t := pc]) = Some s'"
    by (auto split: if_splits bind_splits)
  then show ?case using Cons.IH s by (auto intro: async_steps.step)
qed

text \<open>A schedule in which no exchange fails without a reason.\<close>

abbreviation sure :: "nat list \<Rightarrow> (nat \<times> bool) list" where
  "sure is \<equiv> map (\<lambda>i. (i, False)) is"

text \<open>
  A thread that pops from the queue can return a value that another thread is only about to push, and
  the value it popped is lost: \<^verbatim>\<open>vlAsyncQueuePopFront\<close> moves the head first and copies the value from
  the new dummy then, and meanwhile that node can be popped, given back to the pool, taken by a
  \<^verbatim>\<open>vlAsyncQueuePushBack\<close> and overwritten. This happens from every queue with two values or more.
\<close>

theorem async_queue_pop_race:
  assumes "aq_holds als limit q (v1 # v2 # vs) k"
  shows "\<exists>q' node. async_steps als (q, [Pop, Pop, Push v3]) (q', [Popped (Some v3), Popped (Some v2), PushLoad node])"
proof -
  obtain d ns L where c: "node_chain (aq_nexts q) (tp_ptr (aq_head q)) (d # ns)" "distinct (d # ns)"
    "tp_ptr (aq_tail q) = last (d # ns)" "map (aq_values q) ns = map Some (v1 # v2 # vs)" "set (d # ns) \<subseteq> L"
    "apool_holds als limit (aq_elements q) L k"
    using assms unfolding aq_holds_def by blast
  obtain n1 n2 ns' where ns: "ns = n1 # n2 # ns'" "aq_values q n1 = Some v1" "aq_values q n2 = Some v2"
    using c(4) by (cases ns; cases "tl ns") auto
  obtain x1 x2 where x: "tp_ptr (aq_head q) = d" "aq_nexts q d = Some x1" "tp_ptr x1 = n1" "n1 \<noteq> 0"
    "aq_nexts q n1 = Some x2" "tp_ptr x2 = n2" "n2 \<noteq> 0"
    using c(1) ns(1) by auto
  have diff: "d \<noteq> n1" "d \<noteq> n2" "n1 \<noteq> n2" using c(2) ns(1) by auto
  have tail: "tp_ptr (aq_tail q) \<noteq> d" "tp_ptr (aq_tail q) \<noteq> n1" using c(2,3) ns(1) by (auto split: if_splits)
  obtain pool1 where r: "vlAsyncPoolReturn (aq_elements q) n1 = Some pool1" "apool_holds als limit pool1 (L - {n1}) (Suc k)"
    using pool_return_ok [OF c(6), of n1] c(5) ns(1) by auto
  obtain pool2 where t: "vlAsyncPoolTake als pool1 = Some (n1, pool2)"
    using take_after_return [OF c(6) _ r(1)] c(5) ns(1) by auto
  have h2: "apool_holds als limit pool2 (insert n1 (L - {n1})) k"
    using pool_take_ok [OF r(2)] t by auto
  obtain pool3 where r2: "vlAsyncPoolReturn pool2 d = Some pool3"
    using pool_return_ok [OF h2, of d] c(5) diff(1) by auto
  have "\<exists>q' node. async_run als (sure [0, 0, 0, 0, 1, 1, 1, 1, 1, 1, 1, 2, 0, 0, 0]) (q, [Pop, Pop, Push v3]) =
      Some (q', [Popped (Some v3), Popped (Some v2), PushLoad node])"
    using x ns diff tail r(1) t r2
    by (simp add: vlAtomicPtrCompareExchangeWeak_def vlAtomicPtrCompareExchangeStrong_def tag_next_def push_prepare_def Let_def)
  then show ?thesis using async_run_steps by blast
qed

theorem async_queue_pop_race_witness:
  "\<exists>q q1 q2 node. vlAsyncQueueInit some_allocators 8 = Some q \<and>
     push_all (vlAsyncQueuePushBack some_allocators (\<lambda>_. False)) q [1, 2 :: nat] = Some q1 \<and>
     async_steps some_allocators (q1, [Pop, Pop, Push 9]) (q2, [Popped (Some 9), Popped (Some 2), PushLoad node])"
proof -
  obtain q :: "nat vl_async_queue" where q: "vlAsyncQueueInit some_allocators 8 = Some q"
    "aq_holds some_allocators (2 ^ 20) q [] (length [1, 2 :: nat] + 13)" using some_queue by auto
  obtain q1 where q1: "push_all (vlAsyncQueuePushBack some_allocators (\<lambda>_. False)) q [1, 2] = Some q1"
    "aq_holds some_allocators (2 ^ 20) q1 [1, 2] 13"
    using async_push_all_sure [OF q(2)] by auto
  from async_queue_pop_race [OF q1(2), of 9] q(1) q1(1) show ?thesis by blast
qed

section \<open>Threads that push\<close>

text \<open>The node that a thread has prepared and not linked yet, and what it still has to push.\<close>

fun own_node :: "'v async_pc \<Rightarrow> nat option" where
  "own_node (PushLoad n) = Some n" | "own_node (PushNext n t) = Some n" | "own_node (PushLink n t x) = Some n"
| "own_node (PushHelp n t x) = Some n" | "own_node _ = None"

definition pending_in :: "'v vl_async_queue \<Rightarrow> 'v async_pc \<Rightarrow> 'v multiset" where
  "pending_in q pc =
     (case pc of Push v \<Rightarrow> {#v#}
      | _ \<Rightarrow> (case own_node pc of None \<Rightarrow> {#} | Some n \<Rightarrow> (case aq_values q n of None \<Rightarrow> {#} | Some v \<Rightarrow> {#v#})))"

text \<open>What a thread knows of the nodes \<open>ds\<close> of the queue.\<close>

fun knows :: "nat list \<Rightarrow> 'v async_pc \<Rightarrow> bool" where
  "knows ds (Push v) \<longleftrightarrow> True"
| "knows ds (PushLoad n) \<longleftrightarrow> True"
| "knows ds (PushNext n t) \<longleftrightarrow> tp_ptr t \<in> set ds"
| "knows ds (PushLink n t x) \<longleftrightarrow> tp_ptr t \<in> set ds \<and> tp_ptr x = 0"
| "knows ds (PushHelp n t x) \<longleftrightarrow> tp_ptr t \<in> set ds \<and> tp_ptr x \<in> set ds"
| "knows ds (PushSwing n t) \<longleftrightarrow> n \<in> set ds"
| "knows ds PushCount \<longleftrightarrow> True"
| "knows ds Pushed \<longleftrightarrow> True"
| "knows ds _ \<longleftrightarrow> False"

definition not_counted :: "'v async_pc \<Rightarrow> bool" where
  "not_counted pc \<longleftrightarrow> (case pc of PushSwing n t \<Rightarrow> True | PushCount \<Rightarrow> True | _ \<Rightarrow> False)"

definition to_take :: "'v async_pc \<Rightarrow> bool" where
  "to_take pc \<longleftrightarrow> (case pc of Push v \<Rightarrow> True | _ \<Rightarrow> False)"

definition push_inv :: "(nat \<Rightarrow> allocator) \<Rightarrow> nat \<Rightarrow> 'v list \<Rightarrow> 'v multiset \<Rightarrow> 'v vl_async_queue \<Rightarrow> 'v async_pc list \<Rightarrow>
    nat list \<Rightarrow> 'v list \<Rightarrow> nat set \<Rightarrow> bool" where
  "push_inv als limit vs M q pcs ds ws L \<longleftrightarrow>
     node_chain (aq_nexts q) (tp_ptr (aq_head q)) ds \<and> ds \<noteq> [] \<and> distinct ds \<and> tp_ptr (aq_tail q) \<in> set ds \<and>
     map (aq_values q) (tl ds) = map Some (vs @ ws) \<and> mset ws + (\<Sum>pc \<in># mset pcs. pending_in q pc) = M \<and>
     set ds \<subseteq> L \<and> apool_holds als limit (aq_elements q) L (length (filter to_take pcs)) \<and>
     (\<forall>i < length pcs. knows ds (pcs ! i)) \<and>
     (\<forall>i < length pcs. \<forall>n. own_node (pcs ! i) = Some n \<longrightarrow> n \<in> L \<and> n \<notin> set ds \<and> n \<noteq> 0 \<and>
        aq_nexts q n = Some VL_TAGPTR_NULL \<and> aq_values q n \<noteq> None) \<and>
     (\<forall>i < length pcs. \<forall>j < length pcs. \<forall>n. own_node (pcs ! i) = Some n \<longrightarrow> own_node (pcs ! j) = Some n \<longrightarrow> j = i) \<and>
     u32_of (aq_size q + length (filter not_counted pcs)) = u32_of (length (vs @ ws)) \<and> aq_size q < 2 ^ 32"

lemma push_invD:
  assumes "push_inv als limit vs M q pcs ds ws L"
  shows "node_chain (aq_nexts q) (tp_ptr (aq_head q)) ds" "ds \<noteq> []" "distinct ds" "tp_ptr (aq_tail q) \<in> set ds"
    "map (aq_values q) (tl ds) = map Some (vs @ ws)" "mset ws + (\<Sum>pc \<in># mset pcs. pending_in q pc) = M"
    "set ds \<subseteq> L" "apool_holds als limit (aq_elements q) L (length (filter to_take pcs))"
    "\<forall>i < length pcs. knows ds (pcs ! i)"
    "\<forall>i < length pcs. \<forall>n. own_node (pcs ! i) = Some n \<longrightarrow> n \<in> L \<and> n \<notin> set ds \<and> n \<noteq> 0 \<and>
        aq_nexts q n = Some VL_TAGPTR_NULL \<and> aq_values q n \<noteq> None"
    "\<forall>i < length pcs. \<forall>j < length pcs. \<forall>n. own_node (pcs ! i) = Some n \<longrightarrow> own_node (pcs ! j) = Some n \<longrightarrow> j = i"
    "u32_of (aq_size q + length (filter not_counted pcs)) = u32_of (length (vs @ ws))" "aq_size q < 2 ^ 32"
  using assms unfolding push_inv_def by - (elim conjE, assumption)+

lemma pending_cong:
  "(\<And>n. own_node p = Some n \<Longrightarrow> aq_values q' n = aq_values q n) \<Longrightarrow> pending_in q' p = pending_in q p"
  by (cases p) (simp_all add: pending_in_def)

lemma pending_tail: "pending_in (q\<lparr>aq_tail := t\<rparr>) = pending_in q"
  by (rule ext, rule pending_cong) simp

lemma mset_split:
  assumes "i < length pcs"
  obtains R where "mset pcs = add_mset (pcs ! i) R" "\<And>pc. mset (pcs[i := pc]) = add_mset pc R"
proof
  show "mset pcs = add_mset (pcs ! i) (mset pcs - {#pcs ! i#})" using assms by simp
  show "mset (pcs[i := pc]) = add_mset pc (mset pcs - {#pcs ! i#})" for pc using assms by (simp add: mset_update)
qed

lemma sum_threads:
  fixes f :: "'p \<Rightarrow> 'w multiset"
  assumes "i < length pcs"
  shows "(\<Sum>p \<in># mset (pcs[i := pc]). f p) + f (pcs ! i) = (\<Sum>p \<in># mset pcs. f p) + f pc"
proof -
  obtain R where "mset pcs = add_mset (pcs ! i) R" "mset (pcs[i := pc]) = add_mset pc R" using mset_split [OF assms] by metis
  then show ?thesis by simp
qed

lemma count_threads:
  assumes "i < length pcs"
  shows "length (filter P (pcs[i := pc])) + of_bool (P (pcs ! i)) = length (filter P pcs) + of_bool (P pc)"
proof -
  obtain R where "mset pcs = add_mset (pcs ! i) R" "mset (pcs[i := pc]) = add_mset pc R" using mset_split [OF assms] by metis
  then have "size (filter_mset P (mset (pcs[i := pc]))) + of_bool (P (pcs ! i)) = size (filter_mset P (mset pcs)) + of_bool (P pc)"
    by simp
  then show ?thesis by (simp only: mset_filter [symmetric] size_mset)
qed

text \<open>A step that changes nothing but the tail and what the thread knows.\<close>

lemma push_inv_local:
  assumes inv: "push_inv als limit vs M q pcs ds ws L" and i: "i < length pcs"
    and t: "tp_ptr t \<in> set ds" and own: "own_node pc = own_node (pcs ! i)" and know: "knows ds pc"
    and same: "pending_in q pc = pending_in q (pcs ! i)" "to_take pc = to_take (pcs ! i)" "not_counted pc = not_counted (pcs ! i)"
  shows "push_inv als limit vs M (q\<lparr>aq_tail := t\<rparr>) (pcs[i := pc]) ds ws L"
proof -
  note D = push_invD [OF inv]
  have own': "own_node (pcs[i := pc] ! j) = own_node (pcs ! j)" if "j < length pcs" for j
    using that own by (cases "j = i") simp_all
  have "(\<Sum>p \<in># mset (pcs[i := pc]). pending_in q p) = (\<Sum>p \<in># mset pcs. pending_in q p)"
    using sum_threads [OF i, where f = "pending_in q" and pc = pc] same(1) by simp
  moreover have "length (filter to_take (pcs[i := pc])) = length (filter to_take pcs)"
    "length (filter not_counted (pcs[i := pc])) = length (filter not_counted pcs)"
    using count_threads [OF i, of to_take pc] count_threads [OF i, of not_counted pc] same(2,3) by simp_all
  moreover have "knows ds (pcs[i := pc] ! j)" if "j < length pcs" for j
    using that know D(9) by (cases "j = i") simp_all
  ultimately show ?thesis
    unfolding push_inv_def using D(1-8,10-13) t own' by (simp add: pending_tail)
qed

lemma node_chain_next_in:
  "node_chain nexts a ds \<Longrightarrow> x \<in> set ds \<Longrightarrow> \<exists>n. nexts x = Some n \<and> (tp_ptr n = 0 \<or> tp_ptr n \<in> set ds)"
proof (induction ds arbitrary: a)
  case (Cons d ds)
  then obtain n where n: "a = d" "nexts d = Some n" "node_chain nexts (tp_ptr n) ds" by auto
  show ?case
  proof (cases "x = d")
    case True
    then show ?thesis using n by (cases ds) auto
  next
    case False
    then show ?thesis using Cons.IH [OF n(3)] Cons.prems(2) by auto
  qed
qed simp

lemma node_chain_end:
  "node_chain nexts a ds \<Longrightarrow> x \<in> set ds \<Longrightarrow> nexts x = Some n \<Longrightarrow> tp_ptr n = 0 \<Longrightarrow> distinct ds \<Longrightarrow> \<exists>xs. ds = xs @ [x]"
proof (induction ds arbitrary: a)
  case (Cons d ds)
  then obtain m where m: "a = d" "nexts d = Some m" "node_chain nexts (tp_ptr m) ds" by auto
  show ?case
  proof (cases "x = d")
    case True
    then have "ds = []" using m Cons.prems(3,4) by (cases ds) auto
    then show ?thesis using True by simp
  next
    case False
    then obtain xs where "ds = xs @ [x]" using Cons.IH [OF m(3)] Cons.prems by auto
    then have "d # ds = (d # xs) @ [x]" by simp
    then show ?thesis by blast
  qed
qed simp

lemma all_update:
  assumes "\<And>j. j < length xs \<Longrightarrow> j \<noteq> i \<Longrightarrow> P (xs ! j)" and "P x"
  shows "\<forall>j < length (xs[i := x]). P (xs[i := x] ! j)"
proof (intro allI impI)
  fix j assume "j < length (xs[i := x])"
  then show "P (xs[i := x] ! j)" using assms by (cases "j = i") simp_all
qed

lemma own_unique_update:
  fixes pcs :: "'v async_pc list"
  assumes "\<forall>i < length pcs. \<forall>j < length pcs. \<forall>n. own_node (pcs ! i) = Some n \<longrightarrow> own_node (pcs ! j) = Some n \<longrightarrow> j = i"
    and "i < length pcs" and "\<And>n j. own_node pc = Some n \<Longrightarrow> j < length pcs \<Longrightarrow> own_node (pcs ! j) = Some n \<Longrightarrow> j = i"
  shows "\<forall>j < length (pcs[i := pc]). \<forall>k < length (pcs[i := pc]). \<forall>n.
    own_node (pcs[i := pc] ! j) = Some n \<longrightarrow> own_node (pcs[i := pc] ! k) = Some n \<longrightarrow> k = j"
proof (intro allI impI)
  fix j k n
  assume "j < length (pcs[i := pc])" "k < length (pcs[i := pc])" "own_node (pcs[i := pc] ! j) = Some n"
    "own_node (pcs[i := pc] ! k) = Some n"
  then have *: "j < length pcs" "k < length pcs" "own_node (if j = i then pc else pcs ! j) = Some n"
    "own_node (if k = i then pc else pcs ! k) = Some n"
    using assms(2) by (simp_all add: nth_list_update split: if_splits)
  consider "j = i" "k = i" | "j = i" "k \<noteq> i" | "j \<noteq> i" "k = i" | "j \<noteq> i" "k \<noteq> i" by blast
  then show "k = j"
  proof cases
    case 2
    then show ?thesis using * assms(3) [of n k] by simp
  next
    case 3
    then show ?thesis using * assms(3) [of n j] by simp
  next
    case 4
    then show ?thesis using * assms(1) by simp
  qed simp
qed

lemma knows_more: "knows ds p \<Longrightarrow> knows (ds @ es) p"
  by (cases p) auto

lemma push_inv_take:
  assumes inv: "push_inv als limit vs M q pcs ds ws L" and i: "i < length pcs" and p: "pcs ! i = Push v"
  shows "\<exists>n q' L'. push_prepare als q v = Some (n, q') \<and> push_inv als limit vs M q' (pcs[i := PushLoad n]) ds ws L'"
proof -
  note D = push_invD [OF inv]
  have k: "length (filter to_take pcs) = Suc (length (filter to_take (pcs[i := PushLoad m])))" for m
    using count_threads [OF i, of to_take "PushLoad m"] p by (simp add: to_take_def)
  obtain n pool where t: "vlAsyncPoolTake als (aq_elements q) = Some (n, pool)" "n \<notin> L" "n \<noteq> 0"
    "apool_holds als limit pool (insert n L) (length (filter to_take (pcs[i := PushLoad 0])))"
    using pool_take_ok [OF D(8) [unfolded k [of 0]]] by blast
  have t': "apool_holds als limit pool (insert n L) (length (filter to_take (pcs[i := PushLoad n])))"
    using t(4) k [of 0] k [of n] by simp
  let ?q = "q\<lparr>aq_elements := pool, aq_values := (aq_values q)(n := Some v), aq_nexts := (aq_nexts q)(n := Some VL_TAGPTR_NULL)\<rparr>"
  let ?pcs = "pcs[i := PushLoad n]"
  have nn: "n \<notin> set ds" using t(2) D(7) by blast
  have others: "n' \<noteq> n" if "j < length pcs" "own_node (pcs ! j) = Some n'" for j n'
    using D(10) that t(2) by blast
  have "node_chain (aq_nexts ?q) (tp_ptr (aq_head ?q)) ds"
    using D(1) nn by (auto elim!: node_chain_other)
  moreover have "map (aq_values ?q) (tl ds) = map Some (vs @ ws)"
  proof -
    have "n \<notin> set (tl ds)" using nn by (meson list.set_sel(2) list.sel(2) D(2))
    then have "map (aq_values ?q) (tl ds) = map (aq_values q) (tl ds)" by (auto intro: map_cong)
    then show ?thesis using D(5) by simp
  qed
  moreover have "(\<Sum>p \<in># mset ?pcs. pending_in ?q p) = (\<Sum>p \<in># mset pcs. pending_in q p)"
  proof -
    have "pending_in ?q p = pending_in q p" if "p \<in> set pcs" for p
      using that others by (intro pending_cong) (auto simp: in_set_conv_nth)
    then have "(\<Sum>p \<in># mset pcs. pending_in ?q p) = (\<Sum>p \<in># mset pcs. pending_in q p)"
      by (intro arg_cong [where f = sum_mset] image_mset_cong) simp
    then show ?thesis
      using sum_threads [OF i, where f = "pending_in ?q" and pc = "PushLoad n"] p by (simp add: pending_in_def)
  qed
  moreover have "\<forall>j < length ?pcs. \<forall>n'. own_node (?pcs ! j) = Some n' \<longrightarrow> n' \<in> insert n L \<and> n' \<notin> set ds \<and> n' \<noteq> 0 \<and>
      aq_nexts ?q n' = Some VL_TAGPTR_NULL \<and> aq_values ?q n' \<noteq> None"
  proof (rule all_update)
    fix j assume j: "j < length pcs"
    show "\<forall>n'. own_node (pcs ! j) = Some n' \<longrightarrow> n' \<in> insert n L \<and> n' \<notin> set ds \<and> n' \<noteq> 0 \<and>
      aq_nexts ?q n' = Some VL_TAGPTR_NULL \<and> aq_values ?q n' \<noteq> None"
      using D(10) others j by simp
  qed (use nn t(3) in simp)
  moreover have "\<forall>j < length ?pcs. \<forall>k < length ?pcs. \<forall>n'. own_node (?pcs ! j) = Some n' \<longrightarrow> own_node (?pcs ! k) = Some n' \<longrightarrow> k = j"
    using own_unique_update [OF D(11) i, of "PushLoad n"] others by force
  moreover have "\<forall>j < length ?pcs. knows ds (?pcs ! j)" by (rule all_update) (use D(9) in simp_all)
  moreover have "length (filter not_counted ?pcs) = length (filter not_counted pcs)"
    using count_threads [OF i, of not_counted "PushLoad n"] p by (simp add: not_counted_def)
  ultimately have "push_inv als limit vs M ?q ?pcs ds ws (insert n L)"
    unfolding push_inv_def using D(2-4,6,7,12,13) t' by (simp add: subset_insertI2)
  then show ?thesis using t(1) by (auto simp: push_prepare_def)
qed

lemma push_inv_link:
  assumes inv: "push_inv als limit vs M q pcs ds ws L" and i: "i < length pcs" and p: "pcs ! i = PushLink n t x"
    and now: "aq_nexts q (tp_ptr t) = Some x"
  shows "\<exists>v. push_inv als limit vs M (q\<lparr>aq_nexts := (aq_nexts q)(tp_ptr t := Some (tag_next x n))\<rparr>) (pcs[i := PushSwing n t])
    (ds @ [n]) (ws @ [v]) L"
proof -
  note D = push_invD [OF inv]
  let ?q = "q\<lparr>aq_nexts := (aq_nexts q)(tp_ptr t := Some (tag_next x n))\<rparr>" and ?pcs = "pcs[i := PushSwing n t]"
  have "knows ds (pcs ! i)" using D(9) i by blast
  then have x: "tp_ptr t \<in> set ds" "tp_ptr x = 0" using p by simp_all
  have n: "n \<in> L" "n \<notin> set ds" "n \<noteq> 0" "aq_nexts q n = Some VL_TAGPTR_NULL" "aq_values q n \<noteq> None"
    using D(10) i p by force+
  obtain v where v: "aq_values q n = Some v" using n(5) by blast
  obtain xs where xs: "ds = xs @ [tp_ptr t]" using node_chain_end [OF D(1) x(1) now x(2) D(3)] by blast
  have "node_chain (aq_nexts ?q) (tp_ptr (aq_head ?q)) (xs @ [tp_ptr t, n])"
    using node_chain_append [of "aq_nexts q" _ xs "tp_ptr t" n VL_TAGPTR_NULL "tag_next x n"] D(1,3) n xs
    by (simp add: VL_TAGPTR_NULL_def tag_next_def)
  then have "node_chain (aq_nexts ?q) (tp_ptr (aq_head ?q)) (ds @ [n])" by (simp add: xs)
  moreover have "map (aq_values ?q) (tl (ds @ [n])) = map Some (vs @ ws @ [v])"
    using D(2,5) v by simp
  moreover have "mset (ws @ [v]) + (\<Sum>p \<in># mset ?pcs. pending_in ?q p) = M"
  proof -
    have "pending_in ?q = pending_in q" by (rule ext, rule pending_cong) simp
    then have *: "(\<Sum>p \<in># mset ?pcs. pending_in ?q p) + {#v#} = (\<Sum>p \<in># mset pcs. pending_in q p)"
      using sum_threads [OF i, where f = "pending_in q" and pc = "PushSwing n t"] p v by (simp add: pending_in_def)
    have "mset (ws @ [v]) + R = mset ws + (R + {#v#})" for R by simp
    then show ?thesis using D(6) * by (simp only:)
  qed
  moreover have "\<forall>j < length ?pcs. \<forall>n'. own_node (?pcs ! j) = Some n' \<longrightarrow> n' \<in> L \<and> n' \<notin> set (ds @ [n]) \<and> n' \<noteq> 0 \<and>
      aq_nexts ?q n' = Some VL_TAGPTR_NULL \<and> aq_values ?q n' \<noteq> None"
  proof (intro allI impI)
    fix j n' assume j: "j < length ?pcs" "own_node (?pcs ! j) = Some n'"
    then have "j \<noteq> i" using i by auto
    with j have own: "own_node (pcs ! j) = Some n'" "j < length pcs" by simp_all
    have "own_node (pcs ! i) = Some n" using p by simp
    then have "n' \<noteq> n" using D(11) own i \<open>j \<noteq> i\<close> by metis
    moreover have "n' \<in> L \<and> n' \<notin> set ds \<and> n' \<noteq> 0 \<and> aq_nexts q n' = Some VL_TAGPTR_NULL \<and> aq_values q n' \<noteq> None"
      using D(10) own by blast
    moreover from this have "n' \<noteq> tp_ptr t" using x(1) by metis
    ultimately show "n' \<in> L \<and> n' \<notin> set (ds @ [n]) \<and> n' \<noteq> 0 \<and>
      aq_nexts ?q n' = Some VL_TAGPTR_NULL \<and> aq_values ?q n' \<noteq> None" by simp
  qed
  moreover have "\<forall>j < length ?pcs. \<forall>k < length ?pcs. \<forall>n'. own_node (?pcs ! j) = Some n' \<longrightarrow> own_node (?pcs ! k) = Some n' \<longrightarrow> k = j"
    using own_unique_update [OF D(11) i, of "PushSwing n t"] by simp
  moreover have "\<forall>j < length ?pcs. knows (ds @ [n]) (?pcs ! j)"
    by (rule all_update) (use D(9) in \<open>simp_all add: knows_more\<close>)
  moreover have "length (filter not_counted ?pcs) = Suc (length (filter not_counted pcs))"
    "length (filter to_take ?pcs) = length (filter to_take pcs)"
    using count_threads [OF i, of not_counted "PushSwing n t"] count_threads [OF i, of to_take "PushSwing n t"] p
    by (simp_all add: not_counted_def to_take_def)
  moreover have "u32_of (aq_size q + Suc (length (filter not_counted pcs))) = u32_of (length (vs @ ws @ [v]))"
    using D(12) by (simp add: u32_of_def) (metis mod_Suc_eq)
  ultimately have "push_inv als limit vs M ?q ?pcs (ds @ [n]) (ws @ [v]) L"
    unfolding push_inv_def using D(2-4,7,8,13) n(1,2) by simp
  then show ?thesis by blast
qed

definition push_ok :: "(nat \<Rightarrow> allocator) \<Rightarrow> nat \<Rightarrow> 'v list \<Rightarrow> 'v multiset \<Rightarrow> 'v async_state \<Rightarrow> bool" where
  "push_ok als limit vs M s \<longleftrightarrow> (\<exists>ds ws L. push_inv als limit vs M (fst s) (snd s) ds ws L)"

lemma push_inv_count:
  assumes inv: "push_inv als limit vs M q pcs ds ws L" and i: "i < length pcs" and p: "pcs ! i = PushCount"
  shows "push_inv als limit vs M (q\<lparr>aq_size := inc32 (aq_size q)\<rparr>) (pcs[i := Pushed]) ds ws L"
proof -
  note D = push_invD [OF inv]
  let ?q = "q\<lparr>aq_size := inc32 (aq_size q)\<rparr>" and ?pcs = "pcs[i := Pushed]"
  have "pending_in ?q = pending_in q" by (rule ext, rule pending_cong) simp
  then have "(\<Sum>p \<in># mset ?pcs. pending_in ?q p) = (\<Sum>p \<in># mset pcs. pending_in q p)"
    using sum_threads [OF i, where f = "pending_in q" and pc = Pushed] p by (simp add: pending_in_def)
  moreover have c: "Suc (length (filter not_counted ?pcs)) = length (filter not_counted pcs)"
    "length (filter to_take ?pcs) = length (filter to_take pcs)"
    using count_threads [OF i, of not_counted Pushed] count_threads [OF i, of to_take Pushed] p
    by (simp_all add: not_counted_def to_take_def)
  moreover have "u32_of (inc32 (aq_size q) + length (filter not_counted ?pcs)) = u32_of (length (vs @ ws))"
    using D(12) c(1) by (simp add: u32_of_def inc32_def mod_add_left_eq) (metis add_Suc_right add_Suc)
  moreover have "\<forall>j < length ?pcs. knows ds (?pcs ! j)" by (rule all_update) (use D(9) in simp_all)
  moreover have "\<forall>j < length ?pcs. \<forall>n'. own_node (?pcs ! j) = Some n' \<longrightarrow> n' \<in> L \<and> n' \<notin> set ds \<and> n' \<noteq> 0 \<and>
      aq_nexts q n' = Some VL_TAGPTR_NULL \<and> aq_values q n' \<noteq> None"
    by (rule all_update) (use D(10) in simp_all)
  moreover have "\<forall>j < length ?pcs. \<forall>k < length ?pcs. \<forall>n'. own_node (?pcs ! j) = Some n' \<longrightarrow> own_node (?pcs ! k) = Some n' \<longrightarrow> k = j"
    using own_unique_update [OF D(11) i, of Pushed] by simp
  moreover have "inc32 (aq_size q) < 2 ^ 32" by (simp add: inc32_def u32_of_def)
  ultimately show ?thesis
    unfolding push_inv_def using D(1-8) by simp
qed

text \<open>Every thread that has not finished can take its step, and every step keeps the invariant.\<close>

lemma push_step_ok:
  assumes inv: "push_ok als limit vs M (q, pcs)" and i: "i < length pcs" and going: "pcs ! i \<noteq> Pushed"
  shows "\<exists>pc q'. async_step als fails (pcs ! i) q = Some (pc, q') \<and> push_ok als limit vs M (q', pcs[i := pc])"
proof -
  obtain ds ws L where ok: "push_inv als limit vs M q pcs ds ws L" using inv by (auto simp: push_ok_def)
  note D = push_invD [OF ok]
  have know: "knows ds (pcs ! i)" using D(9) i by blast
  have local: "push_ok als limit vs M (q\<lparr>aq_tail := t\<rparr>, pcs[i := pc])"
    if "tp_ptr t \<in> set ds" "own_node pc = own_node (pcs ! i)" "knows ds pc" "pending_in q pc = pending_in q (pcs ! i)"
      "to_take pc = to_take (pcs ! i)" "not_counted pc = not_counted (pcs ! i)" for t pc
    using push_inv_local [OF ok i that] by (auto simp: push_ok_def)
  have stay: "push_ok als limit vs M (q, pcs[i := pc])"
    if "own_node pc = own_node (pcs ! i)" "knows ds pc" "pending_in q pc = pending_in q (pcs ! i)"
      "to_take pc = to_take (pcs ! i)" "not_counted pc = not_counted (pcs ! i)" for pc
    using local [of "aq_tail q", OF D(4) that] by simp
  show ?thesis
  proof (cases "pcs ! i")
    case (Push v)
    then show ?thesis using push_inv_take [OF ok i] by (fastforce simp: push_ok_def)
  next
    case (PushLoad n)
    then show ?thesis using stay [of "PushNext n (aq_tail q)"] D(4)
      by (simp add: pending_in_def to_take_def not_counted_def)
  next
    case (PushNext n t)
    then obtain x where x: "aq_nexts q (tp_ptr t) = Some x" "tp_ptr x = 0 \<or> tp_ptr x \<in> set ds"
      using node_chain_next_in [OF D(1)] know by auto
    then show ?thesis
      using PushNext know stay [of "if tp_ptr x = 0 then PushLink n t x else PushHelp n t x"] D(4)
      by (auto simp: pending_in_def to_take_def not_counted_def)
  next
    case (PushLink n t x)
    then obtain c where c: "aq_nexts q (tp_ptr t) = Some c" using node_chain_next_in [OF D(1)] know by auto
    show ?thesis
    proof (cases "c = x \<and> \<not> fails")
      case True
      then show ?thesis using push_inv_link [OF ok i PushLink] c PushLink
        by (auto simp: vlAtomicPtrCompareExchangeWeak_def vlAtomicPtrCompareExchangeStrong_def push_ok_def)
    next
      case False
      then have "async_step als fails (pcs ! i) q = Some (PushLoad n, q)"
        using c PushLink by (auto simp: vlAtomicPtrCompareExchangeWeak_def vlAtomicPtrCompareExchangeStrong_def fun_upd_idem)
      then show ?thesis using stay [of "PushLoad n"] D(4) PushLink
        by (simp add: pending_in_def to_take_def not_counted_def)
    qed
  next
    case (PushHelp n t x)
    then show ?thesis
      using know D(4) local [of _ "PushLoad n"] stay [of "PushLoad n"]
      by (auto simp: vlAtomicPtrCompareExchangeWeak_def vlAtomicPtrCompareExchangeStrong_def pending_in_def to_take_def
        not_counted_def tag_next_def)
  next
    case (PushSwing n t)
    then show ?thesis
      using know D(4) local [of _ PushCount] stay [of PushCount]
      by (auto simp: vlAtomicPtrCompareExchangeWeak_def vlAtomicPtrCompareExchangeStrong_def pending_in_def to_take_def
        not_counted_def tag_next_def)
  next
    case PushCount
    then show ?thesis using push_inv_count [OF ok i] by (auto simp: push_ok_def)
  qed (use know going in simp_all)
qed

text \<open>Runs of any length keep the invariant.\<close>

lemma push_steps_ok:
  "async_steps als s s' \<Longrightarrow> push_ok als limit vs M s \<Longrightarrow> push_ok als limit vs M s' \<and> length (snd s') = length (snd s)"
proof (induction rule: async_steps.induct)
  case (step i pcs fails q pc q' s)
  have "pcs ! i \<noteq> Pushed" using step.hyps(2) by auto
  then obtain pc2 q2 where "async_step als fails (pcs ! i) q = Some (pc2, q2)" "push_ok als limit vs M (q2, pcs[i := pc2])"
    using push_step_ok [OF step.prems step.hyps(1)] by blast
  then show ?case using step by simp
qed simp

text \<open>
  C31. Any number of threads may push at the same time, in any interleaving and with any weak exchange
  failing: the former values stay in front in their order, behind them stand values of the threads and
  none of them twice; every thread that has not returned can take its next step; and when all have
  returned all their values are in the queue and the size counts them.
\<close>

theorem async_queue_pushes:
  assumes "aq_holds als limit q vs (length us)" and "async_steps als (q, map Push us) (q', pcs)"
  shows "\<exists>d ns ws. node_chain (aq_nexts q') (tp_ptr (aq_head q')) (d # ns) \<and> distinct (d # ns) \<and>
    map (aq_values q') ns = map Some (vs @ ws) \<and> mset ws \<subseteq># mset us \<and>
    (\<forall>i < length us. \<forall>fails. pcs ! i \<noteq> Pushed \<longrightarrow> async_step als fails (pcs ! i) q' \<noteq> None) \<and>
    (set pcs \<subseteq> {Pushed} \<longrightarrow> mset ws = mset us \<and> vlAsyncQueueSize q' = u32_of (length (vs @ ws)))"
proof -
  obtain d ns L where c: "node_chain (aq_nexts q) (tp_ptr (aq_head q)) (d # ns)" "distinct (d # ns)"
    "tp_ptr (aq_tail q) = last (d # ns)" "map (aq_values q) ns = map Some vs" "set (d # ns) \<subseteq> L"
    "apool_holds als limit (aq_elements q) L (length us)" "aq_size q = u32_of (length vs)"
    using assms(1) unfolding aq_holds_def by blast
  have "(\<Sum>p \<in># mset (map Push us). pending_in q p) = mset us"
    by (induction us) (simp_all add: pending_in_def)
  moreover have "filter to_take (map Push us) = map Push us" "filter not_counted (map Push us) = []"
    by (induction us) (simp_all add: to_take_def not_counted_def)
  ultimately have "push_inv als limit vs (mset us) q (map Push us) (d # ns) [] L"
    unfolding push_inv_def using c by (auto simp: u32_of_def)
  then have "push_ok als limit vs (mset us) (q, map Push us)" by (auto simp: push_ok_def)
  from push_steps_ok [OF assms(2) this] have ok: "push_ok als limit vs (mset us) (q', pcs)" and len: "length pcs = length us"
    by simp_all
  then obtain ds ws L' where inv: "push_inv als limit vs (mset us) q' pcs ds ws L'" by (auto simp: push_ok_def)
  note D = push_invD [OF inv]
  obtain e es where ds: "ds = e # es" using D(2) by (cases ds) auto
  have "mset ws = mset us \<and> vlAsyncQueueSize q' = u32_of (length (vs @ ws))" if "set pcs \<subseteq> {Pushed}"
  proof -
    have "pcs = replicate (length pcs) Pushed" using that by (metis replicate_length_same singletonD subsetD)
    then have "pending_in q' p = {#}" "\<not> not_counted p" if "p \<in> set pcs" for p
      using that \<open>set pcs \<subseteq> {Pushed}\<close> by (auto simp: pending_in_def not_counted_def)
    then have none: "(\<Sum>p \<in># mset pcs. pending_in q' p) = {#}" and "filter not_counted pcs = []" by (simp_all add: filter_empty_conv)
    then have "vlAsyncQueueSize q' = u32_of (length (vs @ ws))" using D(12,13) by (simp add: vlAsyncQueueSize_def u32_of_def)
    moreover have "mset ws = mset us" using D(6) unfolding none by simp
    ultimately show ?thesis by simp
  qed
  moreover have "\<forall>i < length us. \<forall>fails. pcs ! i \<noteq> Pushed \<longrightarrow> async_step als fails (pcs ! i) q' \<noteq> None"
    using push_step_ok [OF ok] len by fastforce
  moreover have "mset ws \<subseteq># mset us" using D(6) by (metis mset_subset_eq_add_left)
  ultimately show ?thesis
    using D(1,3,5) by (intro exI [of _ e] exI [of _ es] exI [of _ ws]) (simp add: ds)
qed

theorem async_queue_pushes_witness:
  "\<exists>q q'. vlAsyncQueueInit some_allocators 8 = Some q \<and>
     async_steps some_allocators (q, [Push 1, Push (2 :: nat)]) (q', [Pushed, Pushed]) \<and> vlAsyncQueueSize q' = 2"
proof -
  obtain q :: "nat vl_async_queue" where init: "vlAsyncQueueInit some_allocators 8 = Some q"
    and holds: "aq_holds some_allocators (2 ^ 20) q [] 15" using some_queue by blast
  have q: "aq_holds some_allocators (2 ^ 20) q [] (length [1, 2 :: nat])" by (rule aq_holds_less [OF holds]) simp
  obtain d L where c: "node_chain (aq_nexts q) (tp_ptr (aq_head q)) [d]" "tp_ptr (aq_tail q) = d" "d \<in> L"
    "apool_holds some_allocators (2 ^ 20) (aq_elements q) L (Suc 1)"
    using q unfolding aq_holds_def by auto
  obtain x where x: "aq_nexts q d = Some x" "tp_ptr x = 0" using c(1) by auto
  obtain n1 pool1 where t1: "vlAsyncPoolTake some_allocators (aq_elements q) = Some (n1, pool1)" "n1 \<notin> L" "n1 \<noteq> 0"
    "apool_holds some_allocators (2 ^ 20) pool1 (insert n1 L) (Suc 0)"
    using pool_take_ok [OF c(4)] by auto
  obtain n2 pool2 where t2: "vlAsyncPoolTake some_allocators pool1 = Some (n2, pool2)" "n2 \<notin> insert n1 L" "n2 \<noteq> 0"
    using pool_take_ok [OF t1(4)] by auto
  have diff: "n1 \<noteq> d" "n2 \<noteq> d" "n1 \<noteq> n2" "\<lparr>tp_ptr = n1, tp_tag = y\<rparr> \<noteq> x" for y
    using t1(2,3) t2(2) c(3) x(2) by auto
  have "\<exists>q'. async_run some_allocators (sure [0, 1, 0, 1, 0, 1, 0, 1, 0, 0, 1, 1, 1, 1, 1]) (q, [Push 1, Push 2]) = Some (q', [Pushed, Pushed])"
    using x c(1,2) t1(1,3) t2(1,3) diff
    by (simp add: vlAtomicPtrCompareExchangeWeak_def vlAtomicPtrCompareExchangeStrong_def tag_next_def push_prepare_def Let_def
      VL_TAGPTR_NULL_def)
  then obtain q' where "async_steps some_allocators (q, [Push 1, Push 2]) (q', [Pushed, Pushed])"
    using async_run_steps by blast
  then have run: "async_steps some_allocators (q, map Push [1, 2]) (q', [Pushed, Pushed])" by simp
  have "vlAsyncQueueSize q' = 2"
  proof -
    obtain ws where "mset ws = mset [1, 2 :: nat]" "vlAsyncQueueSize q' = u32_of (length ([] @ ws))"
      using async_queue_pushes [OF q run] by auto
    moreover from this(1) have "length ws = 2" using mset_eq_length by fastforce
    ultimately show ?thesis by (simp add: u32_of_def)
  qed
  then show ?thesis using init run by auto
qed

section \<open>A weak exchange that fails\<close>

text \<open>
  C33. If the weak exchanges of the tail fail once in \<^verbatim>\<open>vlAsyncQueuePushBack\<close> and once in
  \<^verbatim>\<open>vlAsyncQueuePopFront\<close>, which ignore it, the head passes the tail, and the next push, in the same
  thread or another, takes the node at the tail for its value and links it behind itself: the size is 1
  then, but the queue is empty for a pop, and every later push finds the node of the tail behind the
  node of the tail and goes round for ever.
\<close>

theorem async_queue_weak_failure:
  assumes "aq_holds als limit q [] (Suc k)"
  shows "\<exists>q'. async_steps als (q, [Push v1, Pop, Push v2]) (q', [Pushed, Popped (Some v1), Pushed]) \<and>
    vlAsyncQueueSize q' = 1 \<and> (\<forall>fails. vlAsyncQueuePopFront fails q' = Some (None, q')) \<and>
    (\<exists>x. aq_nexts q' (tp_ptr (aq_tail q')) = Some x \<and> tp_ptr x = tp_ptr (aq_tail q') \<and> tp_ptr x \<noteq> 0)"
proof -
  obtain d L where c: "node_chain (aq_nexts q) (tp_ptr (aq_head q)) [d]" "tp_ptr (aq_tail q) = d" "d \<in> L"
    "apool_holds als limit (aq_elements q) L (Suc k)" "aq_size q = 0"
    using assms unfolding aq_holds_def by (auto simp: u32_of_def)
  obtain x where x: "tp_ptr (aq_head q) = d" "d \<noteq> 0" "aq_nexts q d = Some x" "tp_ptr x = 0" using c(1) by auto
  obtain n1 pool1 where t1: "vlAsyncPoolTake als (aq_elements q) = Some (n1, pool1)" "n1 \<notin> L" "n1 \<noteq> 0"
    "apool_holds als limit pool1 (insert n1 L) k"
    using pool_take_ok [OF c(4)] by auto
  obtain pool2 where r: "vlAsyncPoolReturn pool1 d = Some pool2"
    using pool_return_ok [OF t1(4), of d] c(3) by auto
  obtain pool3 where t2: "vlAsyncPoolTake als pool2 = Some (d, pool3)"
    using take_after_return [OF t1(4) _ r] c(3) by auto
  have diff: "n1 \<noteq> d" using t1(2) c(3) by blast
  let ?ts = "sure [0, 0, 0, 0] @ [(0, True)] @ sure [0, 1, 1, 1] @ [(1, True)] @ sure [1, 1, 1, 1, 2, 2, 2, 2, 2, 2]"
  have "\<exists>q'. async_run als ?ts (q, [Push v1, Pop, Push v2]) = Some (q', [Pushed, Popped (Some v1), Pushed]) \<and>
    vlAsyncQueueSize q' = 1 \<and> (\<forall>fails. vlAsyncQueuePopFront fails q' = Some (None, q')) \<and>
    (\<exists>x. aq_nexts q' (tp_ptr (aq_tail q')) = Some x \<and> tp_ptr x = tp_ptr (aq_tail q') \<and> tp_ptr x \<noteq> 0)"
    using x c(2,5) t1(1,3) r t2 diff
    by (simp add: vlAtomicPtrCompareExchangeWeak_def vlAtomicPtrCompareExchangeStrong_def tag_next_def push_prepare_def Let_def
      VL_TAGPTR_NULL_def vlAsyncQueueSize_def async_pop_nothing inc32_def dec32_def u32_of_def)
  then show ?thesis using async_run_steps by blast
qed

theorem async_queue_weak_failure_witness:
  "\<exists>q q'. vlAsyncQueueInit some_allocators 8 = Some q \<and>
     async_steps some_allocators (q, [Push 1, Pop, Push (2 :: nat)]) (q', [Pushed, Popped (Some 1), Pushed]) \<and>
     vlAsyncQueueSize q' = 1 \<and> (\<forall>fails. vlAsyncQueuePopFront fails q' = Some (None, q'))"
proof -
  obtain q :: "nat vl_async_queue" where q: "vlAsyncQueueInit some_allocators 8 = Some q"
    "aq_holds some_allocators (2 ^ 20) q [] (Suc 14)" using some_queue by auto
  from async_queue_weak_failure [OF q(2), of 1 2] q(1) show ?thesis by blast
qed

end
