(* ===== verification/VL_MsgPack.thy ===== *)
theory VL_MsgPack
  imports VL_HashApi VL_MsgPackSpec
begin

text \<open>
  \<^verbatim>\<open>src/core/vl_msgpack.c\<close>: MessagePack documents. The elements of a document are values of a hash
  table, under keys made of the hash of the parent and the key within it; what terminals hold and the
  children of arrays are blocks of an arena. The functions of \<^verbatim>\<open>vl_msgpack_io.c\<close> between documents and
  bytes are here too.
\<close>

section \<open>Documents and their elements\<close>

type_synonym vl_msgpack_iter = vl_hash_iter

definition VL_MSGPACK_ITER_INVALID :: vl_msgpack_iter where
  "VL_MSGPACK_ITER_INVALID = VL_HASHTABLE_ITER_INVALID"

text \<open>-127 as a number of 8 bits.\<close>

definition VL_MSGPACK_EXT_NONE :: u8 where
  "VL_MSGPACK_EXT_NONE = 0x81"

definition VL_MSGPACK_MAX_STACK_KEY_SIZE :: nat where
  "VL_MSGPACK_MAX_STACK_KEY_SIZE = 512"

definition VL_ARENA_NULL :: nat where
  "VL_ARENA_NULL = 0"

definition ROOT_STRING :: "byte list" where
  "ROOT_STRING = map Some [0x40, 0x52, 0x4F, 0x4F, 0x54]"

record vl_msgpack =
  mp_nodes :: vl_hashtable
  mp_values :: vl_arena
  mp_root :: vl_msgpack_iter

fun type_number :: "vl_msgpack_type \<Rightarrow> nat" where
  "type_number VL_MSGPACK_NIL = 0"
| "type_number VL_MSGPACK_BOOL = 1"
| "type_number VL_MSGPACK_INT = 2"
| "type_number VL_MSGPACK_UINT = 3"
| "type_number VL_MSGPACK_FLOAT32 = 4"
| "type_number VL_MSGPACK_FLOAT64 = 5"
| "type_number VL_MSGPACK_STRING = 6"
| "type_number VL_MSGPACK_BINARY = 7"
| "type_number VL_MSGPACK_ARRAY = 8"
| "type_number VL_MSGPACK_MAP = 9"
| "type_number VL_MSGPACK_EXT = 10"

definition number_type :: "nat \<Rightarrow> vl_msgpack_type option" where
  "number_type n =
     (if n < 11 then Some ([VL_MSGPACK_NIL, VL_MSGPACK_BOOL, VL_MSGPACK_INT, VL_MSGPACK_UINT, VL_MSGPACK_FLOAT32,
        VL_MSGPACK_FLOAT64, VL_MSGPACK_STRING, VL_MSGPACK_BINARY, VL_MSGPACK_ARRAY, VL_MSGPACK_MAP, VL_MSGPACK_EXT] ! n)
      else None)"

lemma number_type_number [simp]: "number_type (type_number ty) = Some ty"
  by (cases ty) (simp_all add: number_type_def)

text \<open>
  \<^verbatim>\<open>vl_msgpack_element\<close>, 64 bytes: parent, type, siblings, extension type and a union of three. Each field
  is read and written at its offset in the value of the node.
\<close>

definition ELEMENT_SIZE :: nat where
  "ELEMENT_SIZE = 64"

definition elem_load :: "vl_msgpack \<Rightarrow> vl_msgpack_iter \<Rightarrow> nat \<Rightarrow> nat \<Rightarrow> nat option" where
  "elem_load pack iter off n =
     do { base \<leftarrow> value_offset (mp_nodes pack) iter; load_number (ht_data (mp_nodes pack)) (base + off) n }"

definition elem_store :: "vl_msgpack \<Rightarrow> vl_msgpack_iter \<Rightarrow> nat \<Rightarrow> nat \<Rightarrow> nat \<Rightarrow> vl_msgpack option" where
  "elem_store pack iter off n v =
     do {
       base \<leftarrow> value_offset (mp_nodes pack) iter;
       arena \<leftarrow> vlArenaMemStore (ht_data (mp_nodes pack)) (base + off) (nat_bytes n v);
       Some (pack\<lparr>mp_nodes := (mp_nodes pack)\<lparr>ht_data := arena\<rparr>\<rparr>)
     }"

definition elem_parent :: "vl_msgpack \<Rightarrow> vl_msgpack_iter \<Rightarrow> nat option" where "elem_parent pack iter = elem_load pack iter 0 8"
definition elem_type :: "vl_msgpack \<Rightarrow> vl_msgpack_iter \<Rightarrow> vl_msgpack_type option" where
  "elem_type pack iter = do { n \<leftarrow> elem_load pack iter 8 4; number_type n }"
definition elem_nextSibling :: "vl_msgpack \<Rightarrow> vl_msgpack_iter \<Rightarrow> nat option" where "elem_nextSibling pack iter = elem_load pack iter 16 8"
definition elem_prevSibling :: "vl_msgpack \<Rightarrow> vl_msgpack_iter \<Rightarrow> nat option" where "elem_prevSibling pack iter = elem_load pack iter 24 8"
definition elem_extType :: "vl_msgpack \<Rightarrow> vl_msgpack_iter \<Rightarrow> u8 option" where
  "elem_extType pack iter = map_option of_nat (elem_load pack iter 32 1)"

text \<open>The union: of a map, of an array, of a terminal.\<close>

definition elem_firstChild :: "vl_msgpack \<Rightarrow> vl_msgpack_iter \<Rightarrow> nat option" where "elem_firstChild pack iter = elem_load pack iter 40 8"
definition elem_lastChild :: "vl_msgpack \<Rightarrow> vl_msgpack_iter \<Rightarrow> nat option" where "elem_lastChild pack iter = elem_load pack iter 48 8"
definition elem_totalChildren :: "vl_msgpack \<Rightarrow> vl_msgpack_iter \<Rightarrow> nat option" where "elem_totalChildren pack iter = elem_load pack iter 56 4"
definition elem_array :: "vl_msgpack \<Rightarrow> vl_msgpack_iter \<Rightarrow> nat option" where "elem_array pack iter = elem_load pack iter 40 8"
definition elem_arrayLength :: "vl_msgpack \<Rightarrow> vl_msgpack_iter \<Rightarrow> nat option" where "elem_arrayLength pack iter = elem_load pack iter 48 4"
definition elem_leaf :: "vl_msgpack \<Rightarrow> vl_msgpack_iter \<Rightarrow> nat option" where "elem_leaf pack iter = elem_load pack iter 40 8"

text \<open>The children of an array, a block of iterators.\<close>

definition array_get :: "vl_msgpack \<Rightarrow> nat \<Rightarrow> nat \<Rightarrow> vl_msgpack_iter option" where
  "array_get pack array i = load_number (mp_values pack) (array + 8 * i) 8"

definition array_put :: "vl_msgpack \<Rightarrow> nat \<Rightarrow> nat \<Rightarrow> vl_msgpack_iter \<Rightarrow> vl_msgpack option" where
  "array_put pack array i iter =
     do { vals \<leftarrow> vlArenaMemStore (mp_values pack) (array + 8 * i) (nat_bytes 8 iter); Some (pack\<lparr>mp_values := vals\<rparr>) }"

definition free_value :: "vl_msgpack \<Rightarrow> nat \<Rightarrow> vl_msgpack option" where
  "free_value pack ptr = do { vals \<leftarrow> vlArenaMemFree (mp_values pack) ptr; Some (pack\<lparr>mp_values := vals\<rparr>) }"

section \<open>Keys\<close>

definition vl_HashMsgPackKey :: "bool \<Rightarrow> byte list \<Rightarrow> nat \<Rightarrow> u64 option" where
  "vl_HashMsgPackKey charSigned dat n =
     (if n < 8 then None
      else do {
        xs \<leftarrow> read_range dat 0 8;
        parentHash \<leftarrow> bytes_nat xs;
        h \<leftarrow> vlHashString charSigned (drop 8 dat) (n - 8);
        Some (vlHashCombine (of_nat parentHash) h)
      })"

definition msgpack_hash :: "bool \<Rightarrow> vl_hash_function" where
  "msgpack_hash charSigned = \<lparr>hf_address = 1, hf_call = vl_HashMsgPackKey charSigned\<rparr>"

record vl_msgpack_key_buffer =
  kb_keyData :: "byte list"
  kb_keySize :: nat
  kb_arenaAlloc :: nat

text \<open>
  The bytes of a key that does not fit the buffer on the stack, of \<open>stackSize\<close> bytes, are written to a block
  of the arena; \<open>keyPtr\<close> has the bytes that the pointer gives.
\<close>

definition vl_MsgPackKeyBegin ::
  "allocator \<Rightarrow> vl_msgpack \<Rightarrow> nat \<Rightarrow> byte list \<Rightarrow> nat \<Rightarrow> nat \<Rightarrow> (vl_msgpack_key_buffer \<times> vl_msgpack) option" where
  "vl_MsgPackKeyBegin al pack parentHash keyPtr keyLen stackSize =
     do {
       let totalKeySize = u64_of (8 + keyLen);
       key \<leftarrow> read_range keyPtr 0 keyLen;
       let dat = nat_bytes 8 parentHash @ key;
       if totalKeySize \<le> stackSize
       then Some (\<lparr>kb_keyData = dat, kb_keySize = totalKeySize, kb_arenaAlloc = VL_ARENA_NULL\<rparr>, pack)
       else do {
         (arenaAlloc, vals) \<leftarrow> vlArenaMemAlloc al (mp_values pack) totalKeySize;
         vals \<leftarrow> vlArenaMemStore vals arenaAlloc dat;
         Some (\<lparr>kb_keyData = dat, kb_keySize = totalKeySize, kb_arenaAlloc = arenaAlloc\<rparr>, pack\<lparr>mp_values := vals\<rparr>)
       }
     }"

definition vl_MsgPackKeyEnd :: "vl_msgpack \<Rightarrow> vl_msgpack_key_buffer \<Rightarrow> vl_msgpack option" where
  "vl_MsgPackKeyEnd pack keyBuffer =
     (if kb_arenaAlloc keyBuffer \<noteq> VL_ARENA_NULL then free_value pack (kb_arenaAlloc keyBuffer) else Some pack)"

section \<open>Freeing children\<close>

text \<open>
  \<^verbatim>\<open>vl_MsgPackFreeChildren\<close> and its two loops as one recursion: the function at an element, the loop over
  the array \<open>a\<close> of an element from an index on, the loop over the siblings from one on.
\<close>

datatype free_job = Free_children vl_msgpack_iter | Free_array vl_msgpack_iter nat nat | Free_map vl_msgpack_iter

partial_function (option) free_walk :: "free_job \<Rightarrow> vl_msgpack \<Rightarrow> vl_msgpack option" where
  [code]: "free_walk job pack =
     (case job of
        Free_children iter \<Rightarrow>
          do {
            ty \<leftarrow> elem_type pack iter;
            if ty = VL_MSGPACK_ARRAY then do { a \<leftarrow> elem_array pack iter; free_walk (Free_array iter a 0) pack }
            else if ty = VL_MSGPACK_MAP then do { c \<leftarrow> elem_firstChild pack iter; free_walk (Free_map c) pack }
            else if ty = VL_MSGPACK_NIL then Some pack
            else do { v \<leftarrow> elem_leaf pack iter; free_value pack v }
          }
      | Free_array iter a curIdx \<Rightarrow>
          do {
            arrayLength \<leftarrow> elem_arrayLength pack iter;
            if curIdx < arrayLength then do {
              curIter \<leftarrow> array_get pack a curIdx;
              pack \<leftarrow> free_walk (Free_children curIter) pack;
              nodes \<leftarrow> vlHashTableRemoveIter (mp_nodes pack) curIter;
              pack \<leftarrow> array_put (pack\<lparr>mp_nodes := nodes\<rparr>) a curIdx VL_HASHTABLE_ITER_INVALID;
              free_walk (Free_array iter a (curIdx + 1)) pack
            } else Some pack
          }
      | Free_map curIter \<Rightarrow>
          if curIter \<noteq> VL_MSGPACK_ITER_INVALID then do {
            pack \<leftarrow> free_walk (Free_children curIter) pack;
            nextIter \<leftarrow> elem_nextSibling pack curIter;
            nodes \<leftarrow> vlHashTableRemoveIter (mp_nodes pack) curIter;
            free_walk (Free_map nextIter) (pack\<lparr>mp_nodes := nodes\<rparr>)
          } else Some pack)"

definition vl_MsgPackFreeChildren :: "vl_msgpack \<Rightarrow> vl_msgpack_iter \<Rightarrow> vl_msgpack option" where
  "vl_MsgPackFreeChildren pack iter = free_walk (Free_children iter) pack"

section \<open>Finding\<close>

definition vlMsgPackFindChild ::
  "allocator \<Rightarrow> vl_msgpack \<Rightarrow> vl_msgpack_iter \<Rightarrow> byte list \<Rightarrow> nat \<Rightarrow> (vl_msgpack_iter \<times> vl_msgpack) option" where
  "vlMsgPackFindChild al pack parent keyPtr keyLen =
     do {
       parentHash \<leftarrow> node_keyHash (ht_data (mp_nodes pack)) parent;
       (keyBuffer, pack) \<leftarrow> vl_MsgPackKeyBegin al pack parentHash keyPtr keyLen VL_MSGPACK_MAX_STACK_KEY_SIZE;
       nodeIter \<leftarrow> vlHashTableFind (mp_nodes pack) (kb_keyData keyBuffer) (kb_keySize keyBuffer);
       pack \<leftarrow> vl_MsgPackKeyEnd pack keyBuffer;
       Some (nodeIter, pack)
     }"

definition vlMsgPackFindChildIndexed :: "vl_msgpack \<Rightarrow> vl_msgpack_iter \<Rightarrow> nat \<Rightarrow> vl_msgpack_iter option" where
  "vlMsgPackFindChildIndexed pack parent index =
     do {
       parentHash \<leftarrow> node_keyHash (ht_data (mp_nodes pack)) parent;
       vlHashTableFind (mp_nodes pack) (nat_bytes 8 parentHash @ nat_bytes 4 index) 12
     }"

section \<open>Inserting\<close>

text \<open>
  \<^verbatim>\<open>vl_MsgPackInitNode\<close> for all types but arrays. The bytes of the value are those at the data pointer, if
  it is not \<^verbatim>\<open>NULL\<close>.
\<close>

definition init_fields :: "vl_msgpack \<Rightarrow> vl_msgpack_iter \<Rightarrow> vl_msgpack_type \<Rightarrow> u8 \<Rightarrow> vl_msgpack_iter \<Rightarrow> vl_msgpack option" where
  "init_fields pack nodeIter type extType parent =
     do {
       pack \<leftarrow> elem_store pack nodeIter 8 4 (type_number type);
       pack \<leftarrow> elem_store pack nodeIter 0 8 parent;
       elem_store pack nodeIter 32 1 (unat extType)
     }"

definition init_terminal ::
  "allocator \<Rightarrow> vl_msgpack \<Rightarrow> vl_msgpack_iter \<Rightarrow> vl_msgpack_type \<Rightarrow> u8 \<Rightarrow> vl_msgpack_iter \<Rightarrow> byte list option \<Rightarrow> nat \<Rightarrow> vl_msgpack option" where
  "init_terminal al pack nodeIter type extType parent dataPtr dataLen =
     do {
       pack \<leftarrow> init_fields pack nodeIter type extType parent;
       if type = VL_MSGPACK_MAP then do {
         pack \<leftarrow> elem_store pack nodeIter 40 8 VL_MSGPACK_ITER_INVALID;
         pack \<leftarrow> elem_store pack nodeIter 48 8 VL_MSGPACK_ITER_INVALID;
         elem_store pack nodeIter 56 4 0
       }
       else if type = VL_MSGPACK_NIL then elem_store pack nodeIter 40 8 VL_ARENA_NULL
       else do {
         (valuePtr, vals) \<leftarrow> vlArenaMemAlloc al (mp_values pack) dataLen;
         vals \<leftarrow> (case dataPtr of
                    None \<Rightarrow> Some vals
                  | Some dat \<Rightarrow> do { xs \<leftarrow> read_range dat 0 dataLen; vlArenaMemStore vals valuePtr xs });
         elem_store (pack\<lparr>mp_values := vals\<rparr>) nodeIter 40 8 valuePtr
       }
     }"

text \<open>The default of the root, in place of the hash of a parent.\<close>

definition parent_hash :: "vl_msgpack \<Rightarrow> vl_msgpack_iter \<Rightarrow> nat option" where
  "parent_hash pack parent =
     (if parent \<noteq> VL_MSGPACK_ITER_INVALID then node_keyHash (ht_data (mp_nodes pack)) parent
      else Some (unat (vlHashCombine 0x00000100000001b3 0xcbf29ce484222325)))"

text \<open>What the element that is overwritten holds is freed, with its children.\<close>

definition free_old :: "vl_msgpack \<Rightarrow> vl_msgpack_iter \<Rightarrow> vl_msgpack option" where
  "free_old pack nodeIter =
     do {
       ty \<leftarrow> elem_type pack nodeIter;
       valuePtr \<leftarrow> (if ty = VL_MSGPACK_ARRAY then elem_array pack nodeIter
         else if ty = VL_MSGPACK_MAP \<or> ty = VL_MSGPACK_NIL then Some VL_ARENA_NULL else elem_leaf pack nodeIter);
       pack \<leftarrow> (if ty = VL_MSGPACK_ARRAY \<or> ty = VL_MSGPACK_MAP then vl_MsgPackFreeChildren pack nodeIter else Some pack);
       if valuePtr \<noteq> VL_ARENA_NULL then free_value pack valuePtr else Some pack
     }"

text \<open>The new element becomes a child of its parent: the entry of an array, or the last child of a map.\<close>

definition link_child :: "vl_msgpack \<Rightarrow> vl_msgpack_iter \<Rightarrow> vl_msgpack_iter \<Rightarrow> byte list \<Rightarrow> vl_msgpack option" where
  "link_child pack parent nodeIter keyPtr =
     do {
       ty \<leftarrow> elem_type pack parent;
       if ty = VL_MSGPACK_ARRAY then do {
         xs \<leftarrow> read_range keyPtr 0 4;
         ordinal \<leftarrow> bytes_nat xs;
         a \<leftarrow> elem_array pack parent;
         array_put pack a ordinal nodeIter
       }
       else if ty = VL_MSGPACK_MAP then do {
         oldTailIter \<leftarrow> elem_lastChild pack parent;
         pack \<leftarrow> elem_store pack nodeIter 24 8 oldTailIter;
         pack \<leftarrow> elem_store pack nodeIter 16 8 VL_MSGPACK_ITER_INVALID;
         pack \<leftarrow> (if oldTailIter \<noteq> VL_MSGPACK_ITER_INVALID then elem_store pack oldTailIter 16 8 nodeIter else Some pack);
         totalChildren \<leftarrow> elem_totalChildren pack parent;
         pack \<leftarrow> elem_store pack parent 56 4 (inc32 totalChildren);
         pack \<leftarrow> elem_store pack parent 48 8 nodeIter;
         oldHeadIter \<leftarrow> elem_firstChild pack parent;
         if oldHeadIter = VL_MSGPACK_ITER_INVALID then elem_store pack parent 40 8 nodeIter else Some pack
       }
       else Some pack
     }"

text \<open>
  \<^verbatim>\<open>vlMsgPackInsertExt\<close>, which calls \<open>init\<close> for \<^verbatim>\<open>vl_MsgPackInitNode\<close>. The recursion of the two functions goes
  one step deep, as an array is initialised with elements of the type \<^verbatim>\<open>VL_MSGPACK_NIL\<close>.
\<close>

definition insert_with ::
  "(vl_msgpack \<Rightarrow> vl_msgpack_iter \<Rightarrow> vl_msgpack_type \<Rightarrow> u8 \<Rightarrow> vl_msgpack_iter \<Rightarrow> byte list option \<Rightarrow> nat \<Rightarrow> vl_msgpack option) \<Rightarrow>
   allocator \<Rightarrow> vl_msgpack \<Rightarrow> vl_msgpack_type \<Rightarrow> u8 \<Rightarrow> vl_msgpack_iter \<Rightarrow> byte list \<Rightarrow> nat \<Rightarrow> byte list option \<Rightarrow> nat \<Rightarrow>
   (vl_msgpack_iter \<times> vl_msgpack) option" where
  "insert_with init al pack type extType parent keyPtr keyLen dataPtr dataLen =
     (if type = VL_MSGPACK_EXT \<and> extType = VL_MSGPACK_EXT_NONE then Some (VL_MSGPACK_ITER_INVALID, pack)
      else do {
        parentHash \<leftarrow> parent_hash pack parent;
        (keyBuffer, pack) \<leftarrow> vl_MsgPackKeyBegin al pack parentHash keyPtr keyLen VL_MSGPACK_MAX_STACK_KEY_SIZE;
        nodeIter \<leftarrow> vlHashTableFind (mp_nodes pack) (kb_keyData keyBuffer) (kb_keySize keyBuffer);
        if nodeIter \<noteq> VL_MSGPACK_ITER_INVALID then do {
          pack \<leftarrow> vl_MsgPackKeyEnd pack keyBuffer;
          pack \<leftarrow> free_old pack nodeIter;
          pack \<leftarrow> init pack nodeIter type extType parent dataPtr dataLen;
          Some (nodeIter, pack)
        } else do {
          (nodeIter, nodes) \<leftarrow> vlHashTableInsert al (mp_nodes pack) (kb_keyData keyBuffer) (kb_keySize keyBuffer) ELEMENT_SIZE;
          pack \<leftarrow> vl_MsgPackKeyEnd (pack\<lparr>mp_nodes := nodes\<rparr>) keyBuffer;
          pack \<leftarrow> init pack nodeIter type extType parent dataPtr dataLen;
          pack \<leftarrow> (if parent \<noteq> VL_MSGPACK_ITER_INVALID then link_child pack parent nodeIter keyPtr else Some pack);
          Some (nodeIter, pack)
        }
      })"

definition insert_nil :: "allocator \<Rightarrow> vl_msgpack \<Rightarrow> vl_msgpack_iter \<Rightarrow> nat \<Rightarrow> (vl_msgpack_iter \<times> vl_msgpack) option" where
  "insert_nil al pack parent curIdx =
     insert_with (init_terminal al) al pack VL_MSGPACK_NIL VL_MSGPACK_EXT_NONE parent (nat_bytes 4 curIdx) 4 None 0"

text \<open>The two passes over the elements of a new array, \<open>n\<close> of them left.\<close>

primrec nil_loop :: "allocator \<Rightarrow> vl_msgpack_iter \<Rightarrow> nat \<Rightarrow> nat \<Rightarrow> vl_msgpack \<Rightarrow> vl_msgpack option" where
  "nil_loop al nodeIter 0 curIdx pack = Some pack"
| "nil_loop al nodeIter (Suc n) curIdx pack =
     do { (_, pack) \<leftarrow> insert_nil al pack nodeIter curIdx; nil_loop al nodeIter n (curIdx + 1) pack }"

primrec sibling_loop :: "vl_msgpack_iter \<Rightarrow> nat \<Rightarrow> nat \<Rightarrow> vl_msgpack_iter option \<Rightarrow> vl_msgpack \<Rightarrow> vl_msgpack option" where
  "sibling_loop nodeIter 0 curIdx prevChild pack = Some pack"
| "sibling_loop nodeIter (Suc n) curIdx prevChild pack =
     do {
       childIter \<leftarrow> vlMsgPackFindChildIndexed pack nodeIter curIdx;
       pack \<leftarrow> (case prevChild of None \<Rightarrow> Some pack | Some prev \<Rightarrow> elem_store pack prev 16 8 childIter);
       pack \<leftarrow> elem_store pack childIter 16 8 VL_MSGPACK_ITER_INVALID;
       pack \<leftarrow> elem_store pack childIter 24 8 (case prevChild of None \<Rightarrow> VL_MSGPACK_ITER_INVALID | Some prev \<Rightarrow> prev);
       sibling_loop nodeIter n (curIdx + 1) (Some childIter) pack
     }"

definition vl_MsgPackInitNode ::
  "allocator \<Rightarrow> vl_msgpack \<Rightarrow> vl_msgpack_iter \<Rightarrow> vl_msgpack_type \<Rightarrow> u8 \<Rightarrow> vl_msgpack_iter \<Rightarrow> byte list option \<Rightarrow> nat \<Rightarrow> vl_msgpack option" where
  "vl_MsgPackInitNode al pack nodeIter type extType parent dataPtr dataLen =
     (if type = VL_MSGPACK_ARRAY then do {
        pack \<leftarrow> init_fields pack nodeIter type extType parent;
        dat \<leftarrow> dataPtr;
        xs \<leftarrow> read_range dat 0 4;
        len \<leftarrow> bytes_nat xs;
        (a, vals) \<leftarrow> vlArenaMemAlloc al (mp_values pack) (8 * len);
        pack \<leftarrow> elem_store (pack\<lparr>mp_values := vals\<rparr>) nodeIter 40 8 a;
        pack \<leftarrow> elem_store pack nodeIter 48 4 len;
        pack \<leftarrow> nil_loop al nodeIter len 0 pack;
        sibling_loop nodeIter len 0 None pack
      }
      else init_terminal al pack nodeIter type extType parent dataPtr dataLen)"

definition vlMsgPackInsertExt ::
  "allocator \<Rightarrow> vl_msgpack \<Rightarrow> vl_msgpack_type \<Rightarrow> u8 \<Rightarrow> vl_msgpack_iter \<Rightarrow> byte list \<Rightarrow> nat \<Rightarrow> byte list option \<Rightarrow> nat \<Rightarrow>
   (vl_msgpack_iter \<times> vl_msgpack) option" where
  "vlMsgPackInsertExt al = insert_with (vl_MsgPackInitNode al) al"

definition vlMsgPackInsert ::
  "allocator \<Rightarrow> vl_msgpack \<Rightarrow> vl_msgpack_type \<Rightarrow> vl_msgpack_iter \<Rightarrow> byte list \<Rightarrow> nat \<Rightarrow> byte list option \<Rightarrow> nat \<Rightarrow>
   (vl_msgpack_iter \<times> vl_msgpack) option" where
  "vlMsgPackInsert al pack type parent keyPtr keyLen dataPtr dataLen =
     vlMsgPackInsertExt al pack type VL_MSGPACK_EXT_NONE parent keyPtr keyLen dataPtr dataLen"

text \<open>Indeed the insertion in an array is the general one.\<close>

lemma insert_nil_general:
  "insert_nil al pack parent curIdx = vlMsgPackInsert al pack VL_MSGPACK_NIL parent (nat_bytes 4 curIdx) 4 None 0"
  by (simp add: insert_nil_def vlMsgPackInsert_def vlMsgPackInsertExt_def insert_with_def vl_MsgPackInitNode_def cong: if_cong)

section \<open>Life of a document\<close>

definition insert_root :: "allocator \<Rightarrow> vl_msgpack \<Rightarrow> vl_msgpack option" where
  "insert_root al pack =
     do {
       (root, pack) \<leftarrow> vlMsgPackInsert al pack VL_MSGPACK_MAP VL_HASHTABLE_ITER_INVALID ROOT_STRING (length ROOT_STRING) None 0;
       Some (pack\<lparr>mp_root := root\<rparr>)
     }"

definition vlMsgPackInit :: "bool \<Rightarrow> allocator \<Rightarrow> vl_msgpack option" where
  "vlMsgPackInit charSigned al =
     do {
       nodes \<leftarrow> vlHashTableInit al (msgpack_hash charSigned);
       vals \<leftarrow> vlArenaInit al 1024;
       insert_root al \<lparr>mp_nodes = nodes, mp_values = vals, mp_root = VL_MSGPACK_ITER_INVALID\<rparr>
     }"

definition vlMsgPackFree :: "vl_msgpack \<Rightarrow> unit option" where
  "vlMsgPackFree pack = do { _ \<leftarrow> vlArenaFree (mp_values pack); vlHashTableFree (mp_nodes pack) }"

text \<open>\<^verbatim>\<open>sizeof(vl_msgpack)\<close> is 240; the result of \<^verbatim>\<open>malloc\<close> is used unchecked.\<close>

definition vlMsgPackNew :: "bool \<Rightarrow> allocator \<Rightarrow> vl_msgpack option" where
  "vlMsgPackNew charSigned al = do { _ \<leftarrow> malloc_at al 240; vlMsgPackInit charSigned al }"

definition vlMsgPackDelete :: "vl_msgpack \<Rightarrow> unit option" where
  "vlMsgPackDelete pack = vlMsgPackFree pack"

definition vlMsgPackClear :: "allocator \<Rightarrow> vl_msgpack \<Rightarrow> vl_msgpack option" where
  "vlMsgPackClear al pack =
     do {
       nodes \<leftarrow> vlHashTableClear (mp_nodes pack);
       vals \<leftarrow> vlArenaClear (mp_values pack);
       insert_root al (pack\<lparr>mp_nodes := nodes, mp_values := vals\<rparr>)
     }"

definition vlMsgPackClone :: "bool \<Rightarrow> allocator \<Rightarrow> vl_msgpack \<Rightarrow> vl_msgpack option \<Rightarrow> vl_msgpack option" where
  "vlMsgPackClone charSigned al src dest =
     do {
       dest \<leftarrow> (case dest of None \<Rightarrow> vlMsgPackNew charSigned al | Some d \<Rightarrow> Some d);
       nodes \<leftarrow> vlHashTableClone al (mp_nodes src) (Some (mp_nodes dest));
       vals \<leftarrow> vlArenaClone al (mp_values src) (Some (mp_values dest));
       Some \<lparr>mp_nodes = nodes, mp_values = vals, mp_root = mp_root src\<rparr>
     }"

section \<open>Reading\<close>

definition vlMsgPackParent :: "vl_msgpack \<Rightarrow> vl_msgpack_iter \<Rightarrow> vl_msgpack_iter option" where
  "vlMsgPackParent pack iter = elem_parent pack iter"

definition vlMsgPackTotalChildren :: "vl_msgpack \<Rightarrow> vl_msgpack_iter \<Rightarrow> nat option" where
  "vlMsgPackTotalChildren pack iter =
     do {
       ty \<leftarrow> elem_type pack iter;
       if ty = VL_MSGPACK_MAP then elem_totalChildren pack iter
       else if ty = VL_MSGPACK_ARRAY then elem_arrayLength pack iter
       else Some 0
     }"

definition vlMsgPackFirstChild :: "vl_msgpack \<Rightarrow> vl_msgpack_iter \<Rightarrow> vl_msgpack_iter option" where
  "vlMsgPackFirstChild pack iter =
     do {
       ty \<leftarrow> elem_type pack iter;
       if ty = VL_MSGPACK_MAP then elem_firstChild pack iter
       else if ty = VL_MSGPACK_ARRAY then vlMsgPackFindChildIndexed pack iter 0
       else Some VL_MSGPACK_ITER_INVALID
     }"

definition vlMsgPackNextSibling :: "vl_msgpack \<Rightarrow> vl_msgpack_iter \<Rightarrow> vl_msgpack_iter option" where
  "vlMsgPackNextSibling pack iter = elem_nextSibling pack iter"

definition vlMsgPackPrevSibling :: "vl_msgpack \<Rightarrow> vl_msgpack_iter \<Rightarrow> vl_msgpack_iter option" where
  "vlMsgPackPrevSibling pack iter = elem_prevSibling pack iter"

definition vlMsgPackType :: "vl_msgpack \<Rightarrow> vl_msgpack_iter \<Rightarrow> vl_msgpack_type option" where
  "vlMsgPackType pack iter = elem_type pack iter"

definition vlMsgPackExtType :: "vl_msgpack \<Rightarrow> vl_msgpack_iter \<Rightarrow> u8 option" where
  "vlMsgPackExtType pack iter = elem_extType pack iter"

text \<open>The bytes that the function points at, as many as the size it gives.\<close>

definition vlMsgPackSampleKey :: "vl_msgpack \<Rightarrow> vl_msgpack_iter \<Rightarrow> byte list option" where
  "vlMsgPackSampleKey pack iter =
     do { xs \<leftarrow> vlHashTableSampleKey (mp_nodes pack) iter; if length xs < 8 then None else Some (drop 8 xs) }"

text \<open>\<^verbatim>\<open>NULL\<close>, or the bytes and so their number; in the first case the size is not written.\<close>

definition vlMsgPackSampleValue :: "vl_msgpack \<Rightarrow> vl_msgpack_iter \<Rightarrow> byte list option option" where
  "vlMsgPackSampleValue pack iter =
     do {
       ty \<leftarrow> elem_type pack iter;
       if ty = VL_MSGPACK_MAP \<or> ty = VL_MSGPACK_ARRAY \<or> ty = VL_MSGPACK_NIL then Some None
       else do {
         v \<leftarrow> elem_leaf pack iter;
         if v = VL_ARENA_NULL then Some None
         else do {
           n \<leftarrow> vlArenaMemSize (mp_values pack) v;
           xs \<leftarrow> vlArenaMemSample (mp_values pack) v n;
           Some (Some xs)
         }
       }
     }"

section \<open>Removing\<close>

text \<open>The child leaves the list of a map; the element stays in the hash table.\<close>

definition unlink_child :: "vl_msgpack \<Rightarrow> vl_msgpack_iter \<Rightarrow> vl_msgpack_iter \<Rightarrow> vl_msgpack option" where
  "unlink_child pack parentIter iter =
     do {
       totalChildren \<leftarrow> elem_totalChildren pack parentIter;
       pack \<leftarrow> elem_store pack parentIter 56 4 (dec32 totalChildren);
       if dec32 totalChildren = 0 then do {
         pack \<leftarrow> elem_store pack parentIter 40 8 VL_MSGPACK_ITER_INVALID;
         elem_store pack parentIter 48 8 VL_MSGPACK_ITER_INVALID
       } else do {
         left \<leftarrow> elem_prevSibling pack iter;
         right \<leftarrow> elem_nextSibling pack iter;
         firstChild \<leftarrow> elem_firstChild pack parentIter;
         pack \<leftarrow> (if firstChild = iter then elem_store pack parentIter 40 8 right else Some pack);
         lastChild \<leftarrow> elem_lastChild pack parentIter;
         pack \<leftarrow> (if lastChild = iter then elem_store pack parentIter 48 8 left else Some pack);
         pack \<leftarrow> (if left \<noteq> VL_MSGPACK_ITER_INVALID then elem_store pack left 16 8 right else Some pack);
         if right \<noteq> VL_MSGPACK_ITER_INVALID then elem_store pack right 24 8 left else Some pack
       }
     }"

definition vlMsgPackRemove :: "vl_msgpack \<Rightarrow> vl_msgpack_iter \<Rightarrow> vl_msgpack option" where
  "vlMsgPackRemove pack iter =
     do {
       pack \<leftarrow> vl_MsgPackFreeChildren pack iter;
       parentIter \<leftarrow> elem_parent pack iter;
       if parentIter = VL_MSGPACK_ITER_INVALID then Some pack
       else do {
         ty \<leftarrow> elem_type pack iter;
         valuePtr \<leftarrow> (if ty = VL_MSGPACK_ARRAY then elem_array pack iter
           else if ty \<noteq> VL_MSGPACK_MAP then elem_leaf pack iter else Some VL_ARENA_NULL);
         pack \<leftarrow> (if valuePtr \<noteq> VL_ARENA_NULL then free_value pack valuePtr else Some pack);
         parentType \<leftarrow> vlMsgPackType pack parentIter;
         if parentType = VL_MSGPACK_MAP then unlink_child pack parentIter iter
         else if parentType = VL_MSGPACK_ARRAY then elem_store pack iter 8 4 (type_number VL_MSGPACK_NIL)
         else Some pack
       }
     }"

section \<open>The functions of the header\<close>

text \<open>A name is the string in front of its zero byte.\<close>

definition vlMsgPackFindChildNamed ::
  "allocator \<Rightarrow> vl_msgpack \<Rightarrow> vl_msgpack_iter \<Rightarrow> byte list \<Rightarrow> (vl_msgpack_iter \<times> vl_msgpack) option" where
  "vlMsgPackFindChildNamed al pack parent name = vlMsgPackFindChild al pack parent name (length name)"

definition vlMsgPackSampleKeyIndex :: "vl_msgpack \<Rightarrow> vl_msgpack_iter \<Rightarrow> nat option" where
  "vlMsgPackSampleKeyIndex pack iter =
     do { key \<leftarrow> vlMsgPackSampleKey pack iter; xs \<leftarrow> read_range key 0 4; bytes_nat xs }"

definition vlMsgPackSetMapNamed where
  "vlMsgPackSetMapNamed al pack parent key = vlMsgPackInsert al pack VL_MSGPACK_MAP parent key (length key) None 0"
definition vlMsgPackSetMapIndexed where
  "vlMsgPackSetMapIndexed al pack parent idx = vlMsgPackInsert al pack VL_MSGPACK_MAP parent (nat_bytes 4 idx) 4 None 0"
definition vlMsgPackSetArrayNamed where
  "vlMsgPackSetArrayNamed al pack parent arrayLen key =
     vlMsgPackInsert al pack VL_MSGPACK_ARRAY parent key (length key) (Some (nat_bytes 4 arrayLen)) 4"
definition vlMsgPackSetArrayIndexed where
  "vlMsgPackSetArrayIndexed al pack parent arrayLen idx =
     vlMsgPackInsert al pack VL_MSGPACK_ARRAY parent (nat_bytes 4 idx) 4 (Some (nat_bytes 4 arrayLen)) 4"
definition vlMsgPackSetBoolNamed where
  "vlMsgPackSetBoolNamed al pack parent v key =
     vlMsgPackInsert al pack VL_MSGPACK_BOOL parent key (length key) (Some (nat_bytes 1 (of_bool v))) 1"
definition vlMsgPackSetBoolIndexed where
  "vlMsgPackSetBoolIndexed al pack parent v idx =
     vlMsgPackInsert al pack VL_MSGPACK_BOOL parent (nat_bytes 4 idx) 4 (Some (nat_bytes 1 (of_bool v))) 1"
definition vlMsgPackSetIntNamed where
  "vlMsgPackSetIntNamed al pack parent (v :: u64) key =
     vlMsgPackInsert al pack VL_MSGPACK_INT parent key (length key) (Some (nat_bytes 8 (unat v))) 8"
definition vlMsgPackSetIntIndexed where
  "vlMsgPackSetIntIndexed al pack parent (v :: u64) idx =
     vlMsgPackInsert al pack VL_MSGPACK_INT parent (nat_bytes 4 idx) 4 (Some (nat_bytes 8 (unat v))) 8"
definition vlMsgPackSetUIntNamed where
  "vlMsgPackSetUIntNamed al pack parent (v :: u64) key =
     vlMsgPackInsert al pack VL_MSGPACK_UINT parent key (length key) (Some (nat_bytes 8 (unat v))) 8"
definition vlMsgPackSetUIntIndexed where
  "vlMsgPackSetUIntIndexed al pack parent (v :: u64) idx =
     vlMsgPackInsert al pack VL_MSGPACK_UINT parent (nat_bytes 4 idx) 4 (Some (nat_bytes 8 (unat v))) 8"
definition vlMsgPackSetFloat32Named where
  "vlMsgPackSetFloat32Named al pack parent (v :: u32) key =
     vlMsgPackInsert al pack VL_MSGPACK_FLOAT32 parent key (length key) (Some (nat_bytes 4 (unat v))) 4"
definition vlMsgPackSetFloat32Indexed where
  "vlMsgPackSetFloat32Indexed al pack parent (v :: u32) idx =
     vlMsgPackInsert al pack VL_MSGPACK_FLOAT32 parent (nat_bytes 4 idx) 4 (Some (nat_bytes 4 (unat v))) 4"
definition vlMsgPackSetFloat64Named where
  "vlMsgPackSetFloat64Named al pack parent (v :: u64) key =
     vlMsgPackInsert al pack VL_MSGPACK_FLOAT64 parent key (length key) (Some (nat_bytes 8 (unat v))) 8"
definition vlMsgPackSetFloat64Indexed where
  "vlMsgPackSetFloat64Indexed al pack parent (v :: u64) idx =
     vlMsgPackInsert al pack VL_MSGPACK_FLOAT64 parent (nat_bytes 4 idx) 4 (Some (nat_bytes 8 (unat v))) 8"
definition vlMsgPackSetStringNamed where
  "vlMsgPackSetStringNamed al pack parent v key =
     vlMsgPackInsert al pack VL_MSGPACK_STRING parent key (length key) (Some v) (length v)"
definition vlMsgPackSetStringIndexed where
  "vlMsgPackSetStringIndexed al pack parent v idx =
     vlMsgPackInsert al pack VL_MSGPACK_STRING parent (nat_bytes 4 idx) 4 (Some v) (length v)"
definition vlMsgPackSetBinaryNamed where
  "vlMsgPackSetBinaryNamed al pack parent v valLen key =
     vlMsgPackInsert al pack VL_MSGPACK_BINARY parent key (length key) v valLen"
definition vlMsgPackSetBinaryIndexed where
  "vlMsgPackSetBinaryIndexed al pack parent v valLen idx =
     vlMsgPackInsert al pack VL_MSGPACK_BINARY parent (nat_bytes 4 idx) 4 v valLen"

text \<open>The getters give a default for no element and for one of another type.\<close>

definition get_number :: "vl_msgpack_type \<Rightarrow> nat \<Rightarrow> vl_msgpack \<Rightarrow> vl_msgpack_iter \<Rightarrow> nat \<Rightarrow> nat option" where
  "get_number type width pack iter defaultValue =
     (if iter = VL_MSGPACK_ITER_INVALID then Some defaultValue
      else do {
        ty \<leftarrow> vlMsgPackType pack iter;
        if ty \<noteq> type then Some defaultValue
        else do { p \<leftarrow> vlMsgPackSampleValue pack iter; dat \<leftarrow> p; xs \<leftarrow> read_range dat 0 width; bytes_nat xs }
      })"

definition vlMsgPackGetBool :: "vl_msgpack \<Rightarrow> vl_msgpack_iter \<Rightarrow> bool \<Rightarrow> bool option" where
  "vlMsgPackGetBool pack iter d = map_option (\<lambda>n. n \<noteq> 0) (get_number VL_MSGPACK_BOOL 1 pack iter (of_bool d))"
definition vlMsgPackGetInt :: "vl_msgpack \<Rightarrow> vl_msgpack_iter \<Rightarrow> u64 \<Rightarrow> u64 option" where
  "vlMsgPackGetInt pack iter d = map_option of_nat (get_number VL_MSGPACK_INT 8 pack iter (unat d))"
definition vlMsgPackGetUInt :: "vl_msgpack \<Rightarrow> vl_msgpack_iter \<Rightarrow> u64 \<Rightarrow> u64 option" where
  "vlMsgPackGetUInt pack iter d = map_option of_nat (get_number VL_MSGPACK_UINT 8 pack iter (unat d))"
definition vlMsgPackGetFloat32 :: "vl_msgpack \<Rightarrow> vl_msgpack_iter \<Rightarrow> u32 \<Rightarrow> u32 option" where
  "vlMsgPackGetFloat32 pack iter d = map_option of_nat (get_number VL_MSGPACK_FLOAT32 4 pack iter (unat d))"
definition vlMsgPackGetFloat64 :: "vl_msgpack \<Rightarrow> vl_msgpack_iter \<Rightarrow> u64 \<Rightarrow> u64 option" where
  "vlMsgPackGetFloat64 pack iter d = map_option of_nat (get_number VL_MSGPACK_FLOAT64 8 pack iter (unat d))"

section \<open>Encoding a document\<close>

text \<open>
  \<^verbatim>\<open>vlMsgPackIOEncodeFromDOM\<close> and the two loops over children as one recursion. Where the value of a
  string, of binary data or of an extension is empty, its length is read uninitialised.
\<close>

datatype encode_job = Encode_node vl_msgpack_iter | Encode_elements vl_msgpack_iter | Encode_pairs vl_msgpack_iter

definition encode_terminal ::
  "allocator \<Rightarrow> vl_msgpack_encoder \<Rightarrow> vl_msgpack \<Rightarrow> vl_msgpack_type \<Rightarrow> vl_msgpack_iter \<Rightarrow> vl_msgpack_encoder option" where
  "encode_terminal al enc src ty curIter =
     (case ty of
        VL_MSGPACK_NIL \<Rightarrow> vlMsgPackIOEncodeNil al enc
      | VL_MSGPACK_BOOL \<Rightarrow> do { v \<leftarrow> vlMsgPackGetBool src curIter False; vlMsgPackIOEncodeBool al enc v }
      | VL_MSGPACK_INT \<Rightarrow> do { v \<leftarrow> vlMsgPackGetInt src curIter 0; vlMsgPackIOEncodeInt al enc v }
      | VL_MSGPACK_UINT \<Rightarrow> do { v \<leftarrow> vlMsgPackGetUInt src curIter 0; vlMsgPackIOEncodeUInt al enc v }
      | VL_MSGPACK_FLOAT32 \<Rightarrow> do { v \<leftarrow> vlMsgPackGetFloat32 src curIter 0; vlMsgPackIOEncodeFloat32 al enc v }
      | VL_MSGPACK_FLOAT64 \<Rightarrow> do { v \<leftarrow> vlMsgPackGetFloat64 src curIter 0; vlMsgPackIOEncodeFloat64 al enc v }
      | VL_MSGPACK_STRING \<Rightarrow>
          do { p \<leftarrow> vlMsgPackSampleValue src curIter; v \<leftarrow> p; vlMsgPackIOEncodeStringLen al enc (Some v) (u32_of (length v)) }
      | VL_MSGPACK_BINARY \<Rightarrow>
          do { p \<leftarrow> vlMsgPackSampleValue src curIter; v \<leftarrow> p; vlMsgPackIOEncodeBinary al enc (Some v) (u32_of (length v)) }
      | VL_MSGPACK_EXT \<Rightarrow>
          do {
            extType \<leftarrow> vlMsgPackExtType src curIter;
            p \<leftarrow> vlMsgPackSampleValue src curIter;
            v \<leftarrow> p;
            vlMsgPackIOEncodeExt al enc extType (Some v) (u32_of (length v))
          }
      | _ \<Rightarrow> Some enc)"

partial_function (option) encode_walk ::
  "allocator \<Rightarrow> vl_msgpack \<Rightarrow> encode_job \<Rightarrow> vl_msgpack_encoder \<Rightarrow> vl_msgpack_encoder option" where
  [code]: "encode_walk al src job enc =
     (case job of
        Encode_node curIter \<Rightarrow>
          do {
            curType \<leftarrow> vlMsgPackType src curIter;
            if curType = VL_MSGPACK_ARRAY then do {
              enc \<leftarrow> vlMsgPackIOEncodeArrayBegin al enc;
              child \<leftarrow> vlMsgPackFirstChild src curIter;
              enc \<leftarrow> encode_walk al src (Encode_elements child) enc;
              vlMsgPackIOEncodeArrayEnd enc
            }
            else if curType = VL_MSGPACK_MAP then do {
              enc \<leftarrow> vlMsgPackIOEncodeMapBegin al enc;
              child \<leftarrow> vlMsgPackFirstChild src curIter;
              enc \<leftarrow> encode_walk al src (Encode_pairs child) enc;
              vlMsgPackIOEncodeMapEnd enc
            }
            else encode_terminal al enc src curType curIter
          }
      | Encode_elements childIter \<Rightarrow>
          if childIter \<noteq> VL_MSGPACK_ITER_INVALID then do {
            enc \<leftarrow> encode_walk al src (Encode_node childIter) enc;
            child \<leftarrow> vlMsgPackNextSibling src childIter;
            encode_walk al src (Encode_elements child) enc
          } else Some enc
      | Encode_pairs childIter \<Rightarrow>
          if childIter \<noteq> VL_MSGPACK_ITER_INVALID then do {
            key \<leftarrow> vlMsgPackSampleKey src childIter;
            enc \<leftarrow> vlMsgPackIOEncodeStringLen al enc (Some key) (u32_of (length key));
            enc \<leftarrow> encode_walk al src (Encode_node childIter) enc;
            child \<leftarrow> vlMsgPackNextSibling src childIter;
            encode_walk al src (Encode_pairs child) enc
          } else Some enc)"

definition vlMsgPackIOEncodeFromDOM ::
  "allocator \<Rightarrow> vl_msgpack_encoder \<Rightarrow> vl_msgpack \<Rightarrow> vl_msgpack_iter \<Rightarrow> vl_msgpack_encoder option" where
  "vlMsgPackIOEncodeFromDOM al enc src curIter = encode_walk al src (Encode_node curIter) enc"

section \<open>Decoding into a document\<close>

text \<open>The bytes of the source that a token points at.\<close>

definition source_bytes :: "vl_msgpack_decoder \<Rightarrow> nat \<Rightarrow> nat \<Rightarrow> byte list option" where
  "source_bytes dec ptr n = read_range (dec_srcMem dec) ptr n"

text \<open>The member of the union for a type of token; another member is not read.\<close>

definition token_elements :: "vl_msgpack_io_token \<Rightarrow> nat option" where
  "token_elements tk = (case tk_value tk of Tk_array n \<Rightarrow> Some n | Tk_map n \<Rightarrow> Some n | _ \<Rightarrow> None)"

definition token_number :: "vl_msgpack_io_token \<Rightarrow> nat option" where
  "token_number tk =
     (case tk_value tk of
        Tk_integer v \<Rightarrow> Some (unat v) | Tk_uinteger v \<Rightarrow> Some (unat v) | Tk_float32 v \<Rightarrow> Some (unat v)
      | Tk_float64 v \<Rightarrow> Some (unat v) | Tk_boolean v \<Rightarrow> Some (of_bool v) | _ \<Rightarrow> None)"

definition token_range :: "vl_msgpack_io_token \<Rightarrow> (nat \<times> nat) option" where
  "token_range tk =
     (case tk_value tk of
        Tk_string ptr n \<Rightarrow> Some (ptr, n) | Tk_binary ptr n \<Rightarrow> Some (ptr, n) | Tk_ext t ptr n \<Rightarrow> Some (ptr, n) | _ \<Rightarrow> None)"

definition token_ext :: "vl_msgpack_io_token \<Rightarrow> u8 option" where
  "token_ext tk = (case tk_value tk of Tk_ext t ptr n \<Rightarrow> Some t | _ \<Rightarrow> None)"

text \<open>The element of a token that is no container: of a number in so many bytes, or of bytes of the source.\<close>

definition insert_number ::
  "allocator \<Rightarrow> vl_msgpack \<Rightarrow> vl_msgpack_io_token \<Rightarrow> nat \<Rightarrow> vl_msgpack_iter \<Rightarrow> byte list \<Rightarrow> nat \<Rightarrow> (vl_msgpack_iter \<times> vl_msgpack) option" where
  "insert_number al dest tk width parent key keyLen =
     do { v \<leftarrow> token_number tk; vlMsgPackInsert al dest (tk_type tk) parent key keyLen (Some (nat_bytes width v)) width }"

definition decode_terminal ::
  "allocator \<Rightarrow> vl_msgpack_decoder \<Rightarrow> vl_msgpack \<Rightarrow> vl_msgpack_io_token \<Rightarrow> vl_msgpack_iter \<Rightarrow> byte list \<Rightarrow> nat \<Rightarrow>
   (vl_msgpack_iter \<times> vl_msgpack) option" where
  "decode_terminal al dec dest tk parent key keyLen =
     (case tk_type tk of
        VL_MSGPACK_NIL \<Rightarrow> vlMsgPackInsert al dest VL_MSGPACK_NIL parent key keyLen None 0
      | VL_MSGPACK_BOOL \<Rightarrow> insert_number al dest tk 1 parent key keyLen
      | VL_MSGPACK_INT \<Rightarrow> insert_number al dest tk 8 parent key keyLen
      | VL_MSGPACK_UINT \<Rightarrow> insert_number al dest tk 8 parent key keyLen
      | VL_MSGPACK_FLOAT32 \<Rightarrow> insert_number al dest tk 4 parent key keyLen
      | VL_MSGPACK_FLOAT64 \<Rightarrow> insert_number al dest tk 8 parent key keyLen
      | VL_MSGPACK_STRING \<Rightarrow>
          do {
            (ptr, n) \<leftarrow> token_range tk;
            xs \<leftarrow> source_bytes dec ptr n;
            vlMsgPackInsert al dest VL_MSGPACK_STRING parent key keyLen (Some xs) n
          }
      | VL_MSGPACK_BINARY \<Rightarrow>
          do {
            (ptr, n) \<leftarrow> token_range tk;
            xs \<leftarrow> source_bytes dec ptr n;
            vlMsgPackInsert al dest VL_MSGPACK_BINARY parent key keyLen (Some xs) n
          }
      | VL_MSGPACK_EXT \<Rightarrow>
          do {
            (ptr, n) \<leftarrow> token_range tk;
            t \<leftarrow> token_ext tk;
            xs \<leftarrow> source_bytes dec ptr n;
            vlMsgPackInsertExt al dest VL_MSGPACK_EXT t parent key keyLen (Some xs) n
          }
      | _ \<Rightarrow> Some (VL_MSGPACK_ITER_INVALID, dest))"

text \<open>
  \<^verbatim>\<open>vlMsgPackIODecodeToDOM\<close> and its two loops as one recursion: the function under a key of a parent, and
  the loops that fill the new element \<open>child\<close>, from an index on up to \<open>n\<close>. \<open>tk0\<close> is the uninitialised
  token.
\<close>

datatype decode_job = Decode_value vl_msgpack_iter "byte list" nat | Decode_elements vl_msgpack_iter nat nat
  | Decode_pairs vl_msgpack_iter nat nat

partial_function (option) decode_walk ::
  "allocator \<Rightarrow> vl_msgpack_io_token \<Rightarrow> decode_job \<Rightarrow> vl_msgpack_decoder \<Rightarrow> vl_msgpack \<Rightarrow>
   (vl_msgpack_iter \<times> vl_msgpack_decoder \<times> vl_msgpack) option" where
  [code]: "decode_walk al tk0 job dec dest =
     (case job of
        Decode_value parent key keyLen \<Rightarrow>
          do {
            parentType \<leftarrow> vlMsgPackType dest parent;
            if parentType \<noteq> VL_MSGPACK_ARRAY \<and> parentType \<noteq> VL_MSGPACK_MAP then Some (VL_MSGPACK_ITER_INVALID, dec, dest)
            else do {
              (ok, dec, tk) \<leftarrow> vlMsgPackIODecoderNext dec tk0;
              if \<not> ok then Some (VL_MSGPACK_ITER_INVALID, dec, dest)
              else if tk_type tk = VL_MSGPACK_ARRAY then do {
                    n \<leftarrow> token_elements tk;
                    (child, dest) \<leftarrow> vlMsgPackInsert al dest VL_MSGPACK_ARRAY parent key keyLen (Some (nat_bytes 4 n)) 4;
                    decode_walk al tk0 (Decode_elements child 0 n) dec dest
                  }
              else if tk_type tk = VL_MSGPACK_MAP then do {
                    n \<leftarrow> token_elements tk;
                    (child, dest) \<leftarrow> vlMsgPackInsert al dest VL_MSGPACK_MAP parent key keyLen None 0;
                    decode_walk al tk0 (Decode_pairs child 0 n) dec dest
                  }
              else do { (child, dest) \<leftarrow> decode_terminal al dec dest tk parent key keyLen; Some (child, dec, dest) }
            }
          }
      | Decode_elements child curIndex n \<Rightarrow>
          if curIndex < n then do {
            (iter, dec, dest) \<leftarrow> decode_walk al tk0 (Decode_value child (nat_bytes 4 curIndex) 4) dec dest;
            if iter = VL_MSGPACK_ITER_INVALID
            then do { dest \<leftarrow> vlMsgPackRemove dest child; Some (VL_MSGPACK_ITER_INVALID, dec, dest) }
            else decode_walk al tk0 (Decode_elements child (curIndex + 1) n) dec dest
          } else Some (child, dec, dest)
      | Decode_pairs child curPair n \<Rightarrow>
          if curPair < n then do {
            (ok, dec, keyToken) \<leftarrow> vlMsgPackIODecoderNext dec tk0;
            if \<not> ok then do {
              let dec = dec\<lparr>dec_error := VL_MSGPACK_IO_ERR_UNEXPECTED_EOF, dec_errorOffset := dec_srcOffset dec\<rparr>;
              dest \<leftarrow> vlMsgPackRemove dest child;
              Some (VL_MSGPACK_ITER_INVALID, dec, dest)
            }
            else if tk_type keyToken \<noteq> VL_MSGPACK_STRING then do {
                  dest \<leftarrow> vlMsgPackRemove dest child;
                  Some (VL_MSGPACK_ITER_INVALID, dec\<lparr>dec_error := VL_MSGPACK_IO_ERR_UNEXPECTED_TOKEN,
                    dec_errorOffset := dec_srcOffset dec\<rparr>, dest)
                }
            else do {
                  (ptr, len) \<leftarrow> token_range keyToken;
                  key \<leftarrow> source_bytes dec ptr len;
                  (iter, dec, dest) \<leftarrow> decode_walk al tk0 (Decode_value child key len) dec dest;
                  if iter = VL_MSGPACK_ITER_INVALID
                  then do { dest \<leftarrow> vlMsgPackRemove dest child; Some (VL_MSGPACK_ITER_INVALID, dec, dest) }
                  else decode_walk al tk0 (Decode_pairs child (curPair + 1) n) dec dest
                }
          } else Some (child, dec, dest))"

definition vlMsgPackIODecodeToDOM ::
  "allocator \<Rightarrow> vl_msgpack_io_token \<Rightarrow> vl_msgpack_decoder \<Rightarrow> vl_msgpack \<Rightarrow> vl_msgpack_iter \<Rightarrow> byte list \<Rightarrow> nat \<Rightarrow>
   (vl_msgpack_iter \<times> vl_msgpack_decoder \<times> vl_msgpack) option" where
  "vlMsgPackIODecodeToDOM al tk0 decoder dest parent key keyLen =
     decode_walk al tk0 (Decode_value parent key keyLen) decoder dest"

end
