(* ===== verification/VL_MsgPackDoc.thy ===== *)
theory VL_MsgPackDoc
  imports VL_MsgPack
begin

text \<open>
  What the operations of \<^verbatim>\<open>vl_msgpack.c\<close> do to a document: elements as fields of the hash table's
  values, the children of a map as a list, the insertion of a child, the walk over children, and the
  encoding of a document as the encoding of the value it represents.
\<close>

section \<open>Fields of elements\<close>

definition field :: "byte list \<Rightarrow> nat \<Rightarrow> nat \<Rightarrow> nat option" where
  "field vs off n = bytes_nat (take n (drop off vs))"

definition splice :: "byte list \<Rightarrow> nat \<Rightarrow> byte list \<Rightarrow> byte list" where
  "splice vs off bs = take off vs @ bs @ drop (off + length bs) vs"

lemma length_splice [simp]: "off + length bs \<le> length vs \<Longrightarrow> length (splice vs off bs) = length vs"
  by (simp add: splice_def)

lemma field_splice_same:
  assumes "off + n \<le> length vs" and "v < 256 ^ n"
  shows "field (splice vs off (nat_bytes n v)) off n = Some v"
proof -
  have "take n (drop off (splice vs off (nat_bytes n v))) = nat_bytes n v" using assms(1) by (simp add: splice_def)
  then show ?thesis using bytes_nat_bytes [OF assms(2)] by (simp add: field_def)
qed

lemma field_splice_other:
  assumes "off + length bs \<le> length vs" and "i + n \<le> off \<or> off + length bs \<le> i"
  shows "field (splice vs off bs) i n = field vs i n"
proof -
  have "take n (drop i (splice vs off bs)) = take n (drop i vs)"
    using assms(2)
  proof
    assume i: "i + n \<le> off"
    then have "drop i (splice vs off bs) = drop i (take off vs) @ bs @ drop (off + length bs) vs"
      using assms(1) by (simp add: splice_def)
    moreover have "take n (drop i (take off vs)) = take n (drop i vs)" using i by (simp add: drop_take min_def)
    moreover have "n \<le> length (drop i (take off vs))" using i assms(1) by simp
    ultimately show ?thesis by simp
  next
    assume i: "off + length bs \<le> i"
    then have "drop i (splice vs off bs) = drop (i - off - length bs) (drop (off + length bs) vs)"
      using assms(1) by (simp add: splice_def)
    then show ?thesis using i by simp
  qed
  then show ?thesis by (simp add: field_def)
qed

text \<open>A store into a part is one of the whole with the part put in.\<close>

lemma store_part:
  assumes "vlArenaMemSample a base (length vs) = Some vs" and "off + length bs \<le> length vs"
  shows "vlArenaMemStore a (base + off) bs = vlArenaMemStore a base (splice vs off bs)"
proof -
  obtain mm where mm: "ar_data a = Some mm" "mem_user mm + base + length vs \<le> length (mem_bytes mm)"
    "take (length vs) (drop (mem_user mm + base) (mem_bytes mm)) = vs"
    using assms(1) by (auto simp: vlArenaMemSample_def mem_read_def read_range_def bind_eq_Some_conv split: if_splits)
  let ?u = "mem_user mm + base" and ?bs = "mem_bytes mm"
  have "take (?u + off) ?bs = take ?u ?bs @ take off vs"
  proof -
    have "take off vs = take off (take (length vs) (drop ?u ?bs))" using mm(3) by simp
    also have "\<dots> = take off (drop ?u ?bs)" using assms(2) by (simp add: min_def)
    finally show ?thesis by (simp add: take_add)
  qed
  moreover have "drop (?u + off + length bs) ?bs = drop (off + length bs) vs @ drop (?u + length vs) ?bs"
  proof -
    have "drop ?u ?bs = vs @ drop (?u + length vs) ?bs"
      using mm(3) append_take_drop_id [of "length vs" "drop ?u ?bs"] by (simp add: add.commute)
    then have "drop (off + length bs) (drop ?u ?bs) = drop (off + length bs) vs @ drop (?u + length vs) ?bs"
      using assms(2) by simp
    then show ?thesis by (simp add: ac_simps)
  qed
  ultimately show ?thesis
    using mm(1,2) assms(2) by (simp add: vlArenaMemStore_def mem_write_def write_range_def splice_def add.assoc)
qed

text \<open>The elements of the table \<open>m\<close> with values of 64 bytes; \<open>fld\<close> reads and \<open>upd\<close> writes a field of one.\<close>

type_synonym elems = "nat \<rightharpoonup> byte list \<times> byte list"

definition fld :: "elems \<Rightarrow> nat \<Rightarrow> nat \<Rightarrow> nat \<Rightarrow> nat option" where
  "fld m p off n = (case m p of None \<Rightarrow> None | Some (q, vs) \<Rightarrow> field vs off n)"

definition upd :: "elems \<Rightarrow> nat \<Rightarrow> nat \<Rightarrow> nat \<Rightarrow> nat \<Rightarrow> elems" where
  "upd m p off n v = m(p := map_option (\<lambda>(q, vs). (q, splice vs off (nat_bytes n v))) (m p))"

definition elems_ok :: "elems \<Rightarrow> bool" where
  "elems_ok m \<longleftrightarrow> (\<forall>p q vs. m p = Some (q, vs) \<longrightarrow> length vs = ELEMENT_SIZE)"

definition elem_key :: "elems \<Rightarrow> nat \<Rightarrow> byte list" where
  "elem_key m p = fst (the (m p))"

lemma upd_dom [simp]: "dom (upd m p off n v) = dom m"
  by (auto simp: upd_def dom_def)

lemma upd_key [simp]: "elem_key (upd m p off n v) p' = elem_key m p'"
  by (cases "m p") (auto simp: elem_key_def upd_def)

lemma keys_of_elems: "keys_of m = elem_key m ` dom m"
  by (force simp: keys_of_iff elem_key_def image_iff)

lemma upd_keys [simp]: "keys_of (upd m p off n v) = keys_of m"
  by (simp add: keys_of_elems)

lemma upd_ok [simp]: "elems_ok m \<Longrightarrow> off + n \<le> ELEMENT_SIZE \<Longrightarrow> elems_ok (upd m p off n v)"
  by (auto simp: elems_ok_def upd_def split: if_splits)

lemma fld_diff [simp]: "p' \<noteq> p \<Longrightarrow> fld (upd m p off n v) p' = fld m p'"
  by (auto simp: fld_def upd_def fun_eq_iff)

lemma fld_same:
  "elems_ok m \<Longrightarrow> p \<in> dom m \<Longrightarrow> off + n \<le> ELEMENT_SIZE \<Longrightarrow> v < 256 ^ n \<Longrightarrow> fld (upd m p off n v) p off n = Some v"
  by (auto simp: fld_def upd_def elems_ok_def field_splice_same)

lemma fld_other:
  "elems_ok m \<Longrightarrow> off + n \<le> ELEMENT_SIZE \<Longrightarrow> i + k \<le> off \<or> off + n \<le> i \<Longrightarrow> fld (upd m p off n v) p' i k = fld m p' i k"
  by (cases "p' = p"; cases "m p") (auto simp: fld_def upd_def elems_ok_def field_splice_other)

section \<open>The state of a document\<close>

text \<open>\<open>m\<close> are the elements, \<open>V\<close> the blocks of values; room for \<open>k\<close> and \<open>j\<close> more operations.\<close>

definition doc_parts :: "bool \<Rightarrow> vl_msgpack \<Rightarrow> elems \<Rightarrow> (nat \<rightharpoonup> byte list) \<Rightarrow> nat \<Rightarrow> nat \<Rightarrow> bool" where
  "doc_parts cs pack m V k j \<longleftrightarrow> ht_map (msgpack_hash cs) (mp_nodes pack) m k \<and> arena_holds (mp_values pack) V j \<and> elems_ok m"

lemma doc_partsD:
  assumes "doc_parts cs pack m V k j"
  shows "ht_map (msgpack_hash cs) (mp_nodes pack) m k" "arena_holds (mp_values pack) V j" "elems_ok m"
  using assms by (simp_all add: doc_parts_def)

lemma elem_place:
  assumes "ht_map hf t m k" and "m p = Some (q, vs)"
  shows "value_offset t p = Some (p + HASHTABLE_HEADER_SIZE + length q)"
    and "vlArenaMemSample (ht_data t) (p + HASHTABLE_HEADER_SIZE + length q) (length vs) = Some vs"
    and "\<exists>h. hf_call hf q (length q) = Some h \<and> node_keyHash (ht_data t) p = Some (unat h)"
    and "vlHashTableSampleKey t p = Some q"
proof -
  obtain N T where r: "ht_hashFunc t = hf" "ht_rep t N T k" "p \<in> dom N" "nkey N p = q" "nval N p = vs" "keys_ok hf N"
    by (rule ht_mapE [OF assms(1)]) (use assms(2) in blast)
  obtain M nx bk ch where parts: "ht_parts t M N nx T bk ch k" using r(2) by (auto simp: ht_rep_def)
  note h = ht_partsD [OF parts]
  note node = nodes_inD [OF h(2) r(3), unfolded r(4,5)]
  note f = node_fields [OF h(1) node]
  show "value_offset t p = Some (p + HASHTABLE_HEADER_SIZE + length q)" using f(1) by (simp add: value_offset_def)
  show "vlArenaMemSample (ht_data t) (p + HASHTABLE_HEADER_SIZE + length q) (length vs) = Some vs" by (rule f(6))
  have "nhash N p < 2 ^ 64" using node by (simp add: hash_node_def)
  then have "unat (of_nat (nhash N p) :: u64) = nhash N p" by (simp add: unat_of_nat)
  then show "\<exists>h. hf_call hf q (length q) = Some h \<and> node_keyHash (ht_data t) p = Some (unat h)"
    using r(6) [unfolded keys_ok_def, THEN conjunct1, THEN bspec, OF r(3)] r(4) f(3) by simp
  show "vlHashTableSampleKey t p = Some q" using f(1,5) by (simp add: vlHashTableSampleKey_def)
qed

lemma elem_load_ok:
  assumes parts: "doc_parts cs pack m V k j" and p: "p \<in> dom m" and n: "off + n \<le> ELEMENT_SIZE"
  shows "elem_load pack p off n = fld m p off n"
proof -
  obtain q vs where q: "m p = Some (q, vs)" using p by auto
  note D = doc_partsD [OF parts] and P = elem_place [OF doc_partsD(1) [OF parts] q]
  have len: "length vs = ELEMENT_SIZE" using D(3) q by (simp add: elems_ok_def)
  let ?base = "p + HASHTABLE_HEADER_SIZE + length q"
  have "vlArenaMemSample (ht_data (mp_nodes pack)) (?base + off) n = Some (take n (drop off vs))"
  proof -
    obtain mm where mm: "ar_data (ht_data (mp_nodes pack)) = Some mm" "mem_user mm + ?base + length vs \<le> length (mem_bytes mm)"
      "take (length vs) (drop (mem_user mm + ?base) (mem_bytes mm)) = vs"
      using P(2) by (auto simp: vlArenaMemSample_def mem_read_def read_range_def bind_eq_Some_conv split: if_splits)
    let ?xs = "drop (mem_user mm + ?base) (mem_bytes mm)"
    have "take n (drop off vs) = take n (drop off (take (length vs) ?xs))" using mm(3) by simp
    also have "\<dots> = take n (drop off ?xs)" using n len by (simp add: drop_take min_def)
    finally show ?thesis using mm(1,2) n len by (simp add: vlArenaMemSample_def mem_read_def read_range_def ac_simps)
  qed
  then show ?thesis using P(1) q by (simp add: elem_load_def load_number_def fld_def field_def)
qed

lemma elem_store_ok:
  assumes parts: "doc_parts cs pack m V k j" and p: "p \<in> dom m" and n: "off + n \<le> ELEMENT_SIZE"
  obtains pack' where "elem_store pack p off n v = Some pack'" "doc_parts cs pack' (upd m p off n v) V k j"
    "mp_values pack' = mp_values pack"
proof -
  obtain q vs where q: "m p = Some (q, vs)" using p by auto
  note D = doc_partsD [OF parts] and P = elem_place [OF doc_partsD(1) [OF parts] q]
  have len: "length vs = ELEMENT_SIZE" using D(3) q by (simp add: elems_ok_def)
  let ?ws = "splice vs off (nat_bytes n v)"
  have "length ?ws = length vs" using n len by simp
  from ht.store_law [OF D(1) q this] obtain t' where t': "hashtable_store_value (mp_nodes pack) p ?ws = Some t'"
    "ht_map (msgpack_hash cs) t' (m(p \<mapsto> (q, ?ws))) k" by blast
  have "elem_store pack p off n v = Some (pack\<lparr>mp_nodes := t'\<rparr>)"
    using t'(1) P(1) store_part [OF P(2), of off "nat_bytes n v"] n len
    by (auto simp: elem_store_def hashtable_store_value_def bind_eq_Some_conv)
  moreover have "m(p \<mapsto> (q, ?ws)) = upd m p off n v" using q by (simp add: upd_def)
  ultimately show thesis
    using that [of "pack\<lparr>mp_nodes := t'\<rparr>"] t'(2) D(2,3) upd_ok [OF D(3) n] by (simp add: doc_parts_def)
qed

text \<open>A store under a condition.\<close>

lemma cond_store_ok:
  assumes "doc_parts cs pack m V k j" and "C \<Longrightarrow> p \<in> dom m" and "off + n \<le> ELEMENT_SIZE"
  obtains pack' where "(if C then elem_store pack p off n v else Some pack) = Some pack'"
    "doc_parts cs pack' (if C then upd m p off n v else m) V k j"
proof (cases C)
  case True
  obtain pack' where "elem_store pack p off n v = Some pack'" "doc_parts cs pack' (upd m p off n v) V k j"
    by (rule elem_store_ok [OF assms(1) assms(2) [OF True] assms(3)])
  then show thesis using that True by simp
qed (use that [of pack] assms(1) in simp)

lemma arena_spare_less: "arena_spare a k \<Longrightarrow> i \<le> k \<Longrightarrow> arena_spare a i"
  unfolding arena_spare_def Let_def by (auto elim: pool_can_return_mono)

lemma arena_holds_less: "arena_holds a M k \<Longrightarrow> i \<le> k \<Longrightarrow> arena_holds a M i"
  unfolding arena_holds_def using arena_spare_less by blast

lemma elem_bounds:
  assumes "ht_map hf t m k" and "p \<in> dom m"
  shows "0 < p" and "p < 2 ^ 32"
proof -
  obtain N T where r: "ht_rep t N T k" "p \<in> dom N"
    by (rule ht_mapE [OF assms(1)]) (use assms(2) in blast)
  obtain M nx bk ch where parts: "ht_parts t M N nx T bk ch k" using r(1) by (auto simp: ht_rep_def)
  note h = ht_partsD [OF parts]
  obtain xs where "M p = Some xs" using nodes_inD [OF h(2) r(2)] by (auto simp: hash_node_def)
  from arena_ptr_bounds [OF h(1) this] show "0 < p" "p < 2 ^ 32" by simp_all
qed

lemma doc_bounds:
  assumes "doc_parts cs pack m V k j"
  shows "p \<in> dom m \<Longrightarrow> 0 < p" and "p \<in> dom m \<Longrightarrow> p < 256 ^ 8" and "0 \<notin> dom m"
  using elem_bounds [OF doc_partsD(1) [OF assms]] by force+

section \<open>Documents\<close>

record doc_elem =
  de_key :: "byte list"
  de_parent :: nat
  de_type :: vl_msgpack_type
  de_ext :: u8
  de_value :: "byte list"
  de_kids :: "nat list"

definition has_value :: "vl_msgpack_type \<Rightarrow> bool" where
  "has_value ty \<longleftrightarrow> ty \<notin> {VL_MSGPACK_NIL, VL_MSGPACK_MAP, VL_MSGPACK_ARRAY}"

text \<open>The fields of an element, and the links between the children of one.\<close>

definition elem_is :: "elems \<Rightarrow> (nat \<rightharpoonup> byte list) \<Rightarrow> nat \<Rightarrow> doc_elem \<Rightarrow> bool" where
  "elem_is m V p e \<longleftrightarrow>
     fld m p 0 8 = Some (de_parent e) \<and> fld m p 8 4 = Some (type_number (de_type e)) \<and> fld m p 32 1 = Some (unat (de_ext e)) \<and>
     (de_type e = VL_MSGPACK_MAP \<longrightarrow> fld m p 40 8 = Some (hd_or (de_kids e) 0) \<and> fld m p 48 8 = Some (last_or (de_kids e) 0) \<and>
        fld m p 56 4 = Some (u32_of (length (de_kids e)))) \<and>
     (de_type e = VL_MSGPACK_NIL \<longrightarrow> fld m p 40 8 = Some 0) \<and>
     (has_value (de_type e) \<longrightarrow> (\<exists>v. fld m p 40 8 = Some v \<and> V v = Some (de_value e)))"

definition siblings :: "elems \<Rightarrow> nat list \<Rightarrow> bool" where
  "siblings m kids \<longleftrightarrow>
     (\<forall>xs c ys. kids = xs @ c # ys \<longrightarrow> fld m c 16 8 = Some (hd_or ys 0) \<and> fld m c 24 8 = Some (last_or xs 0))"

text \<open>The key of a child in the table: the hash of its parent, then its own key.\<close>

definition child_key :: "bool \<Rightarrow> elems \<Rightarrow> nat \<Rightarrow> byte list \<Rightarrow> byte list" where
  "child_key cs m p key =
     nat_bytes 8 (unat (the (hf_call (msgpack_hash cs) (elem_key m p) (length (elem_key m p))))) @ key"

definition kids_ok :: "bool \<Rightarrow> elems \<Rightarrow> (nat \<rightharpoonup> doc_elem) \<Rightarrow> nat \<Rightarrow> nat list \<Rightarrow> bool" where
  "kids_ok cs m D p kids \<longleftrightarrow> distinct kids \<and> siblings m kids \<and>
     (\<forall>c \<in> set kids. c \<noteq> p \<and> (\<exists>e. D c = Some e \<and> de_parent e = p \<and> elem_key m c = child_key cs m p (de_key e)))"

definition doc_rel :: "bool \<Rightarrow> elems \<Rightarrow> (nat \<rightharpoonup> byte list) \<Rightarrow> (nat \<rightharpoonup> doc_elem) \<Rightarrow> bool" where
  "doc_rel cs m V D \<longleftrightarrow> dom D = dom m \<and>
     (\<forall>p e. D p = Some e \<longrightarrow> elem_is m V p e \<and> (de_type e \<in> {VL_MSGPACK_MAP, VL_MSGPACK_ARRAY} \<longrightarrow> kids_ok cs m D p (de_kids e)))"

text \<open>The document of a state; \<open>k\<close> and \<open>j\<close> more operations fit in the table and the values.\<close>

definition doc_ok :: "bool \<Rightarrow> vl_msgpack \<Rightarrow> (nat \<rightharpoonup> doc_elem) \<Rightarrow> nat \<Rightarrow> nat \<Rightarrow> bool" where
  "doc_ok cs pack D k j \<longleftrightarrow> (\<exists>m V. doc_parts cs pack m V k j \<and> doc_rel cs m V D)"

lemma doc_relD:
  assumes "doc_rel cs m V D"
  shows "dom D = dom m" and "D p = Some e \<Longrightarrow> elem_is m V p e"
    and "D p = Some e \<Longrightarrow> de_type e \<in> {VL_MSGPACK_MAP, VL_MSGPACK_ARRAY} \<Longrightarrow> kids_ok cs m D p (de_kids e)"
  using assms unfolding doc_rel_def by blast+

lemma kids_okD:
  assumes "kids_ok cs m D p kids"
  shows "distinct kids" "siblings m kids" "p \<notin> set kids"
    and "c \<in> set kids \<Longrightarrow> \<exists>e. D c = Some e \<and> de_parent e = p \<and> elem_key m c = child_key cs m p (de_key e)"
  using assms by (auto simp: kids_ok_def)

section \<open>Reading elements\<close>

lemma read_fields:
  assumes parts: "doc_parts cs pack m V k j" and elem: "elem_is m V p e" and p: "p \<in> dom m"
  shows "elem_parent pack p = Some (de_parent e)" "elem_type pack p = Some (de_type e)" "elem_extType pack p = Some (de_ext e)"
    and "de_type e = VL_MSGPACK_MAP \<Longrightarrow> elem_firstChild pack p = Some (hd_or (de_kids e) 0)"
    and "de_type e = VL_MSGPACK_MAP \<Longrightarrow> elem_lastChild pack p = Some (last_or (de_kids e) 0)"
    and "de_type e = VL_MSGPACK_MAP \<Longrightarrow> elem_totalChildren pack p = Some (u32_of (length (de_kids e)))"
    and "has_value (de_type e) \<Longrightarrow> \<exists>v. elem_leaf pack p = Some v \<and> V v = Some (de_value e)"
    and "de_type e = VL_MSGPACK_NIL \<Longrightarrow> elem_leaf pack p = Some 0"
  using elem elem_load_ok [OF parts p]
  by (auto simp: elem_is_def elem_parent_def elem_type_def elem_extType_def elem_firstChild_def elem_lastChild_def
      elem_totalChildren_def elem_leaf_def ELEMENT_SIZE_def)

lemma read_value:
  assumes parts: "doc_parts cs pack m V k j" and elem: "elem_is m V p e" and p: "p \<in> dom m" and val: "has_value (de_type e)"
  shows "vlMsgPackSampleValue pack p = Some (Some (de_value e))"
proof -
  obtain v where v: "elem_leaf pack p = Some v" "V v = Some (de_value e)" using read_fields(7) [OF parts elem p val] by blast
  note h = doc_partsD(2) [OF parts]
  have "v \<noteq> 0" using arena_ptr_bounds(1) [OF h v(2)] by simp
  then show ?thesis
    using v(1) val read_fields(2) [OF parts elem p] arena_holds_load [OF h v(2)]
    by (auto simp: vlMsgPackSampleValue_def has_value_def VL_ARENA_NULL_def)
qed

lemma read_siblings:
  assumes parts: "doc_parts cs pack m V k j" and sib: "siblings m (xs @ c # ys)" and c: "c \<in> dom m"
  shows "elem_nextSibling pack c = Some (hd_or ys 0)" "elem_prevSibling pack c = Some (last_or xs 0)"
  using sib elem_load_ok [OF parts c] by (auto simp: siblings_def elem_nextSibling_def elem_prevSibling_def ELEMENT_SIZE_def)

section \<open>Inserting a child\<close>

lemma msgpack_key:
  assumes "None \<notin> set key" and "length key < 2 ^ 15"
  shows "ht_key_ok (msgpack_hash cs) (nat_bytes 8 h @ key)"
proof -
  obtain bs where bs: "key = map Some bs" using assms(1) by (metis ex_map_conv option.exhaust)
  have "None \<notin> set (nat_bytes k n)" for k n by (induction k arbitrary: n) auto
  then have none: "None \<notin> set (nat_bytes 8 h @ key)" using assms(1) by simp
  obtain n where n: "bytes_nat (nat_bytes 8 h) = Some n"
    using bytes_nat_defined [of "nat_bytes 8 h"] none by auto
  obtain h' where h': "hash_string_loop cs 0xcbf29ce484222325 (map Some bs) = Some h'" using hash_string_loop_total by blast
  have "vlHashString cs key (length key) = Some h'"
    using hash_string_all [of cs bs] h' by (simp add: bs)
  then have "vl_HashMsgPackKey cs (nat_bytes 8 h @ key) (length (nat_bytes 8 h @ key)) \<noteq> None"
    using n by (simp add: vl_HashMsgPackKey_def read_range_def)
  then show ?thesis using none assms(2) by (simp add: ht_key_ok_def msgpack_hash_def)
qed

lemma key_begin_short:
  assumes "8 + length key \<le> VL_MSGPACK_MAX_STACK_KEY_SIZE"
  shows "vl_MsgPackKeyBegin al pack h key (length key) VL_MSGPACK_MAX_STACK_KEY_SIZE =
    Some (\<lparr>kb_keyData = nat_bytes 8 h @ key, kb_keySize = 8 + length key, kb_arenaAlloc = VL_ARENA_NULL\<rparr>, pack)"
proof -
  have "u64_of (8 + length key) = 8 + length key"
    using assms by (intro u64_of_id) (simp add: VL_MSGPACK_MAX_STACK_KEY_SIZE_def)
  then show ?thesis using assms by (simp add: vl_MsgPackKeyBegin_def read_range_def)
qed

lemma type_number_bound: "type_number ty < 256"
  by (cases ty) simp_all

text \<open>The fields that all elements have, then the union.\<close>

definition fields_are :: "elems \<Rightarrow> nat \<Rightarrow> vl_msgpack_type \<Rightarrow> u8 \<Rightarrow> nat \<Rightarrow> bool" where
  "fields_are m p ty ext parent \<longleftrightarrow>
     fld m p 0 8 = Some parent \<and> fld m p 8 4 = Some (type_number ty) \<and> fld m p 32 1 = Some (unat ext)"

lemma init_fields_ok:
  assumes parts: "doc_parts cs pack m V k j" and it: "it \<in> dom m" and parent: "parent < 256 ^ 8"
  obtains pack' m' where "init_fields pack it ty ext parent = Some pack'" "doc_parts cs pack' m' V k j" "mp_values pack' = mp_values pack"
    "dom m' = dom m" "\<And>p. elem_key m' p = elem_key m p" "\<And>p. p \<noteq> it \<Longrightarrow> fld m' p = fld m p" "fields_are m' it ty ext parent"
proof -
  have s: "8 + 4 \<le> ELEMENT_SIZE" "0 + 8 \<le> ELEMENT_SIZE" "32 + 1 \<le> ELEMENT_SIZE" by (simp_all add: ELEMENT_SIZE_def)
  let ?t = "type_number ty"
  obtain p1 where p1: "elem_store pack it 8 4 ?t = Some p1" "doc_parts cs p1 (upd m it 8 4 ?t) V k j" "mp_values p1 = mp_values pack"
    by (rule elem_store_ok [OF parts it s(1)])
  let ?m1 = "upd m it 8 4 ?t"
  have d1: "it \<in> dom ?m1" using it by simp
  obtain p2 where p2: "elem_store p1 it 0 8 parent = Some p2" "doc_parts cs p2 (upd ?m1 it 0 8 parent) V k j" "mp_values p2 = mp_values p1"
    by (rule elem_store_ok [OF p1(2) d1 s(2)])
  let ?m2 = "upd ?m1 it 0 8 parent"
  have d2: "it \<in> dom ?m2" using it by simp
  obtain p3 where p3: "elem_store p2 it 32 1 (unat ext) = Some p3" "doc_parts cs p3 (upd ?m2 it 32 1 (unat ext)) V k j"
    "mp_values p3 = mp_values p2"
    by (rule elem_store_ok [OF p2(2) d2 s(3)])
  let ?m3 = "upd ?m2 it 32 1 (unat ext)"
  have ok: "elems_ok m" "elems_ok ?m1" "elems_ok ?m2" using doc_partsD(3) [OF parts] s by simp_all
  have eb: "unat ext < 256 ^ 1" using unsigned_less [of ext, where ?'a = nat] by simp
  have tb: "?t < 256 ^ 4" using type_number_bound [of ty] by simp
  have "fld ?m3 it 0 8 = fld ?m2 it 0 8" "fld ?m3 it 8 4 = fld ?m2 it 8 4" "fld ?m2 it 8 4 = fld ?m1 it 8 4"
    using fld_other [OF ok(3) s(3)] fld_other [OF ok(2) s(2)] by simp_all
  then have "fields_are ?m3 it ty ext parent"
    using fld_same [OF ok(2) d1 s(2) parent] fld_same [OF ok(1) it s(1) tb] fld_same [OF ok(3) d2 s(3) eb]
    by (simp add: fields_are_def)
  moreover have "init_fields pack it ty ext parent = Some p3" using p1(1) p2(1) p3(1) by (simp add: init_fields_def)
  ultimately show thesis using that p1(3) p2(3) p3(2,3) by simp
qed

text \<open>A field of the union is written; the fields in front of it stay.\<close>

lemma union_store:
  assumes parts: "doc_parts cs pack m V k j" and it: "it \<in> dom m" and off: "40 \<le> off" "off + n \<le> ELEMENT_SIZE" and v: "v < 256 ^ n"
    and f: "fields_are m it ty ext parent"
  obtains pack' where "elem_store pack it off n v = Some pack'" "doc_parts cs pack' (upd m it off n v) V k j"
    "fields_are (upd m it off n v) it ty ext parent" "fld (upd m it off n v) it off n = Some v"
    "\<And>i l. i + l \<le> off \<Longrightarrow> fld (upd m it off n v) it i l = fld m it i l"
proof -
  note ok = doc_partsD(3) [OF parts]
  have low: "fld (upd m it off n v) it i l = fld m it i l" if "i + l \<le> off" for i l
    using fld_other [OF ok off(2), of i l] that by simp
  then have "fields_are (upd m it off n v) it ty ext parent" using f off(1) by (simp add: fields_are_def)
  moreover obtain pack' where "elem_store pack it off n v = Some pack'" "doc_parts cs pack' (upd m it off n v) V k j"
    by (rule elem_store_ok [OF parts it off(2)])
  ultimately show thesis using that fld_same [OF ok it off(2) v] low by blast
qed

text \<open>The element that an insertion makes, without children.\<close>

definition new_elem :: "byte list \<Rightarrow> nat \<Rightarrow> vl_msgpack_type \<Rightarrow> u8 \<Rightarrow> byte list \<Rightarrow> doc_elem" where
  "new_elem key parent ty ext dat =
     \<lparr>de_key = key, de_parent = parent, de_type = ty, de_ext = ext, de_value = (if has_value ty then dat else []), de_kids = []\<rparr>"

lemma init_map_ok:
  assumes parts: "doc_parts cs pack m V k j" and it: "it \<in> dom m" and f: "fields_are m it VL_MSGPACK_MAP ext parent"
  obtains p1 p2 p3 m' where "elem_store pack it 40 8 0 = Some p1" "elem_store p1 it 48 8 0 = Some p2" "elem_store p2 it 56 4 0 = Some p3"
    "doc_parts cs p3 m' V k j" "dom m' = dom m" "\<And>p. elem_key m' p = elem_key m p" "\<And>p. p \<noteq> it \<Longrightarrow> fld m' p = fld m p"
    "elem_is m' V it (new_elem key parent VL_MSGPACK_MAP ext dat)"
proof -
  have s: "(40 :: nat) \<le> 40" "40 + 8 \<le> ELEMENT_SIZE" "(40 :: nat) \<le> 48" "48 + 8 \<le> ELEMENT_SIZE" "(40 :: nat) \<le> 56" "56 + 4 \<le> ELEMENT_SIZE"
    "(0 :: nat) < 256 ^ 8" "(0 :: nat) < 256 ^ 4" by (simp_all add: ELEMENT_SIZE_def)
  let ?m1 = "upd m it 40 8 0" and ?m2 = "upd (upd m it 40 8 0) it 48 8 0" and ?m3 = "upd (upd (upd m it 40 8 0) it 48 8 0) it 56 4 0"
  have d: "it \<in> dom ?m1" "it \<in> dom ?m2" using it by simp_all
  obtain p1 where p1: "elem_store pack it 40 8 0 = Some p1" "doc_parts cs p1 ?m1 V k j" "fields_are ?m1 it VL_MSGPACK_MAP ext parent"
    "fld ?m1 it 40 8 = Some 0"
    by (rule union_store [OF parts it s(1,2,7) f])
  obtain p2 where p2: "elem_store p1 it 48 8 0 = Some p2" "doc_parts cs p2 ?m2 V k j" "fields_are ?m2 it VL_MSGPACK_MAP ext parent"
    "fld ?m2 it 48 8 = Some 0" "\<And>i l. i + l \<le> 48 \<Longrightarrow> fld ?m2 it i l = fld ?m1 it i l"
    by (rule union_store [OF p1(2) d(1) s(3,4,7) p1(3)]) blast
  obtain p3 where p3: "elem_store p2 it 56 4 0 = Some p3" "doc_parts cs p3 ?m3 V k j" "fields_are ?m3 it VL_MSGPACK_MAP ext parent"
    "fld ?m3 it 56 4 = Some 0" "\<And>i l. i + l \<le> 56 \<Longrightarrow> fld ?m3 it i l = fld ?m2 it i l"
    by (rule union_store [OF p2(2) d(2) s(5,6,8) p2(3)]) blast
  have "fld ?m3 it 40 8 = Some 0" "fld ?m3 it 48 8 = Some 0" "fld ?m3 it 56 4 = Some 0"
    using p3(4,5) p2(4,5) p1(4) by simp_all
  then have "elem_is ?m3 V it (new_elem key parent VL_MSGPACK_MAP ext dat)"
    using p3(3) by (simp add: elem_is_def fields_are_def new_elem_def has_value_def u32_of_def)
  then show thesis using that p1(1) p2(1) p3(1,2) by simp
qed

lemma init_terminal_ok:
  assumes parts: "doc_parts cs pack m V k (Suc j)" and it: "it \<in> dom m" and ty: "ty \<noteq> VL_MSGPACK_ARRAY"
    and parent: "parent < 256 ^ 8" and al: "alloc_upto al limit"
    and val: "has_value ty \<Longrightarrow> dat \<noteq> [] \<and> arena_fits limit (mp_values pack) (length dat)"
  obtains pack' m' V' where "init_terminal al pack it ty ext parent (Some dat) (length dat) = Some pack'"
    "doc_parts cs pack' m' V' k j" "dom m' = dom m" "\<And>p. elem_key m' p = elem_key m p" "\<And>p. p \<noteq> it \<Longrightarrow> fld m' p = fld m p" "V \<subseteq>\<^sub>m V'"
    "elem_is m' V' it (new_elem key parent ty ext dat)"
proof -
  obtain p1 m1 where i: "init_fields pack it ty ext parent = Some p1" "doc_parts cs p1 m1 V k (Suc j)" "mp_values p1 = mp_values pack"
    "dom m1 = dom m" "\<And>p. elem_key m1 p = elem_key m p" "\<And>p. p \<noteq> it \<Longrightarrow> fld m1 p = fld m p" "fields_are m1 it ty ext parent"
    by (rule init_fields_ok [OF parts it parent]) blast
  have it1: "it \<in> dom m1" using it i(4) by simp
  have less: "doc_parts cs p m' V k j" if "doc_parts cs p m' V k (Suc j)" for p m'
    using that arena_holds_less by (auto simp: doc_parts_def)
  have s: "(40 :: nat) \<le> 40" "40 + 8 \<le> ELEMENT_SIZE" by (simp_all add: ELEMENT_SIZE_def)
  consider (map) "ty = VL_MSGPACK_MAP" | (nil) "ty = VL_MSGPACK_NIL" | (val) "has_value ty"
    using ty by (auto simp: has_value_def)
  then show thesis
  proof cases
    case map
    obtain p2 p3 p4 m4 where u: "elem_store p1 it 40 8 0 = Some p2" "elem_store p2 it 48 8 0 = Some p3" "elem_store p3 it 56 4 0 = Some p4"
      "doc_parts cs p4 m4 V k (Suc j)" "dom m4 = dom m1" "\<And>p. elem_key m4 p = elem_key m1 p" "\<And>p. p \<noteq> it \<Longrightarrow> fld m4 p = fld m1 p"
      "elem_is m4 V it (new_elem key parent ty ext dat)"
      unfolding map by (rule init_map_ok [OF i(2) it1 i(7) [unfolded map]]) blast
    have "init_terminal al pack it ty ext parent (Some dat) (length dat) = Some p4"
      using i(1) map u(1-3) by (simp add: init_terminal_def VL_MSGPACK_ITER_INVALID_def VL_HASHTABLE_ITER_INVALID_def)
    then show thesis using that [of p4 m4 V] less [OF u(4)] u(5-8) i(4-6) by simp
  next
    case nil
    have z: "(0 :: nat) < 256 ^ 8" by simp
    let ?m2 = "upd m1 it 40 8 0"
    obtain p2 where u: "elem_store p1 it 40 8 0 = Some p2" "doc_parts cs p2 ?m2 V k (Suc j)" "fields_are ?m2 it ty ext parent"
      "fld ?m2 it 40 8 = Some 0"
      by (rule union_store [OF i(2) it1 s z i(7)])
    have "elem_is ?m2 V it (new_elem key parent ty ext dat)"
      using u(3,4) nil by (simp add: elem_is_def fields_are_def new_elem_def has_value_def)
    moreover have "init_terminal al pack it ty ext parent (Some dat) (length dat) = Some p2"
      using i(1) nil u(1) by (simp add: init_terminal_def VL_ARENA_NULL_def)
    ultimately show thesis using that [of p2 ?m2 V] less [OF u(2)] i(4-6) by simp
  next
    case val
    have dat: "0 < length dat" "arena_fits limit (mp_values p1) (length dat)" using assms(6) [OF val] i(3) by simp_all
    note h = doc_partsD [OF i(2)]
    obtain v a xs where a: "vlArenaMemAlloc al (mp_values p1) (length dat) = Some (v, a)" "V v = None" "length xs = length dat"
      "arena_holds a (V(v \<mapsto> xs)) j"
      by (rule arena_holds_alloc [OF h(2) dat(1) al dat(2)])
    have at: "(V(v \<mapsto> xs)) v = Some xs" "length dat \<le> length xs" using a(3) by simp_all
    obtain a' where a': "vlArenaMemStore a v dat = Some a'" "arena_holds a' (V(v \<mapsto> xs, v \<mapsto> dat @ drop (length dat) xs)) j"
      by (rule arena_holds_store [OF a(4) at])
    let ?V = "V(v \<mapsto> dat)" and ?m2 = "upd m1 it 40 8 v"
    have a'': "arena_holds a' ?V j" using a'(2) a(3) by simp
    have parts1: "doc_parts cs (p1\<lparr>mp_values := a'\<rparr>) m1 ?V k j" using h(1,3) a'' by (simp add: doc_parts_def)
    have vb: "v < 256 ^ 8" using arena_ptr_bounds(2) [OF a'', of v dat] by simp
    obtain p2 where u: "elem_store (p1\<lparr>mp_values := a'\<rparr>) it 40 8 v = Some p2" "doc_parts cs p2 ?m2 ?V k j"
      "fields_are ?m2 it ty ext parent" "fld ?m2 it 40 8 = Some v"
      by (rule union_store [OF parts1 it1 s vb i(7)])
    have "elem_is ?m2 ?V it (new_elem key parent ty ext dat)"
      using u(3,4) val by (auto simp: elem_is_def fields_are_def new_elem_def has_value_def)
    moreover have "init_terminal al pack it ty ext parent (Some dat) (length dat) = Some p2"
      using i(1) val u(1) a(1) a'(1) by (simp add: init_terminal_def has_value_def read_range_def)
    moreover have "V \<subseteq>\<^sub>m ?V" using a(2) by (auto simp: map_le_def)
    ultimately show thesis using that [of p2 ?m2 ?V] u(2) i(4-6) by simp
  qed
qed

lemma ends_in: "last_or xs d \<in> insert d (set xs)" "hd_or xs d \<in> insert d (set xs)"
  by (cases xs; simp add: last_or_def)+

lemma ends_zero:
  assumes "0 \<notin> set xs"
  shows "last_or xs 0 = (0 :: nat) \<longleftrightarrow> xs = []" "hd_or xs 0 = (0 :: nat) \<longleftrightarrow> xs = []"
proof -
  show "last_or xs 0 = 0 \<longleftrightarrow> xs = []" using assms unfolding last_or_def by (metis last_in_set)
  show "hd_or xs 0 = 0 \<longleftrightarrow> xs = []" using assms by (cases xs) auto
qed

text \<open>The new element behind the other children of a map.\<close>

lemma linked_parent_fields:
  assumes ok: "elems_ok m" and dom: "parent \<in> dom m" "it \<in> dom m" "parent \<noteq> it" "parent \<noteq> tail" and it: "it < 256 ^ 8"
    and elem: "elem_is m V parent e" and ty: "de_type e = VL_MSGPACK_MAP" and total: "t = u32_of (Suc (length (de_kids e)))"
    and keep: "\<And>i l. fld m2 parent i l = fld m parent i l" and ok2: "elems_ok m2" "dom m2 = dom m"
    and m3: "m3 = upd (upd m2 parent 56 4 t) parent 48 8 it"
    and m4: "m4 = (if de_kids e = [] then upd m3 parent 40 8 it else m3)"
  shows "elem_is m4 V parent (e\<lparr>de_kids := de_kids e @ [it]\<rparr>)"
proof -
  have tb: "t < 256 ^ 4" by (simp add: total u32_of_def)
  have d: "parent \<in> dom m2" using dom(1) ok2(2) by simp
  note eval = fld_same fld_other ELEMENT_SIZE_def
  have low: "fld m4 parent i l = fld m parent i l" if "i + l \<le> 40" for i l
    using that ok2(1) keep by (simp add: m4 m3 eval)
  have "fld m4 parent 40 8 = Some (hd_or (de_kids e @ [it]) 0)"
  proof (cases "de_kids e = []")
    case True
    then show ?thesis using ok2(1) d it by (simp add: m4 m3 eval)
  next
    case False
    then have "fld m4 parent 40 8 = fld m parent 40 8" using ok2(1) keep by (simp add: m4 m3 eval)
    then show ?thesis using False elem ty by (cases "de_kids e") (simp_all add: elem_is_def hd_or_def)
  qed
  moreover have "fld m4 parent 48 8 = Some it" using ok2(1) d it by (simp add: m4 m3 eval)
  moreover have "fld m4 parent 56 4 = Some t" using ok2(1) d tb by (simp add: m4 m3 eval)
  ultimately show ?thesis using low elem ty by (simp add: elem_is_def has_value_def total)
qed

lemma linked_siblings:
  assumes sib: "siblings m kids" and ok: "elems_ok m" and dom: "set kids \<subseteq> dom m" "it \<in> dom m" and dist: "distinct (kids @ [it])"
    and b: "it < 256 ^ 8" "last_or kids 0 < 256 ^ 8"
    and m1: "m1 = upd (upd m it 24 8 (last_or kids 0)) it 16 8 0"
    and m2: "m2 = (if kids \<noteq> [] then upd m1 (last kids) 16 8 it else m1)"
  shows "siblings m2 (kids @ [it])"
  unfolding siblings_def
proof (intro allI impI)
  note eval = fld_same fld_other ELEMENT_SIZE_def
  fix xs c ys assume e: "kids @ [it] = xs @ c # ys"
  have nit: "it \<notin> set kids" using dist by simp
  show "fld m2 c 16 8 = Some (hd_or ys 0) \<and> fld m2 c 24 8 = Some (last_or xs 0)"
  proof (cases ys rule: rev_cases)
    case Nil
    then have c: "c = it" "xs = kids" using e by simp_all
    have "it \<noteq> last kids" if "kids \<noteq> []" using nit that by (metis last_in_set)
    then have "fld m2 it = fld m1 it" by (simp add: m2)
    moreover have "fld m1 it 16 8 = Some 0" "fld m1 it 24 8 = Some (last_or kids 0)"
      using ok dom(2) b by (simp_all add: m1 eval)
    ultimately show ?thesis using c Nil by simp
  next
    case (snoc zs z)
    then have k: "kids = xs @ c # zs" using e by simp
    then have c: "c \<in> dom m" "c \<noteq> it" using dom(1) nit by auto
    have old: "fld m c 16 8 = Some (hd_or zs 0)" "fld m c 24 8 = Some (last_or xs 0)" using sib k by (simp_all add: siblings_def)
    have one: "fld m1 c = fld m c" using c(2) by (simp add: m1)
    have ok1: "elems_ok m1" "dom m1 = dom m" using ok by (simp_all add: m1 ELEMENT_SIZE_def)
    have z: "z = it" using e snoc by simp
    show ?thesis
    proof (cases "zs = []")
      case True
      then have "last kids = c" using k by simp
      then have "fld m2 c 16 8 = Some it" "fld m2 c 24 8 = fld m1 c 24 8"
        using k ok1 c(1) b(1) by (simp_all add: m2 eval)
      then show ?thesis using True snoc z old(2) one by (simp add: hd_or_def)
    next
      case False
      then have "last kids \<in> set zs" "c \<notin> set zs" using k dist by auto
      then have "c \<noteq> last kids" by blast
      then have "fld m2 c = fld m1 c" by (simp add: m2)
      then show ?thesis using old one snoc False by (cases zs) (simp_all add: hd_or_def)
    qed
  qed
qed

lemma link_run:
  assumes parts: "doc_parts cs pack m V k j" and dom: "parent \<in> dom m" "it \<in> dom m" "parent \<noteq> it"
    and elem: "elem_is m V parent e" and ty: "de_type e = VL_MSGPACK_MAP"
    and kids: "set (de_kids e) \<subseteq> dom m" "parent \<notin> set (de_kids e)" and tail: "tail = last_or (de_kids e) 0"
    and m1: "m1 = upd (upd m it 24 8 tail) it 16 8 0" and m2: "m2 = (if tail \<noteq> 0 then upd m1 tail 16 8 it else m1)"
    and m3: "m3 = upd (upd m2 parent 56 4 (u32_of (Suc (length (de_kids e))))) parent 48 8 it"
    and m4: "m4 = (if hd_or (de_kids e) 0 = 0 then upd m3 parent 40 8 it else m3)"
  shows "\<exists>pack'. link_child pack parent it key = Some pack' \<and> doc_parts cs pack' m4 V k j"
proof -
  let ?t = "u32_of (Suc (length (de_kids e)))"
  have s: "24 + 8 \<le> ELEMENT_SIZE" "16 + 8 \<le> ELEMENT_SIZE" "56 + 4 \<le> ELEMENT_SIZE" "48 + 8 \<le> ELEMENT_SIZE" "40 + 8 \<le> ELEMENT_SIZE"
    by (simp_all add: ELEMENT_SIZE_def)
  obtain p1 where p1: "elem_store pack it 24 8 tail = Some p1" "doc_parts cs p1 (upd m it 24 8 tail) V k j"
    by (rule elem_store_ok [OF parts dom(2) s(1)])
  have d: "it \<in> dom (upd m it 24 8 tail)" "tail \<noteq> 0 \<Longrightarrow> tail \<in> dom m1" "parent \<in> dom m2" "parent \<in> dom (upd m2 parent 56 4 ?t)" "parent \<in> dom m3"
    using dom ends_in(1) [of "de_kids e" 0] kids(1) by (auto simp: m1 m2 m3 tail)
  obtain p2 where p2: "elem_store p1 it 16 8 0 = Some p2" "doc_parts cs p2 m1 V k j"
    unfolding m1 by (rule elem_store_ok [OF p1(2) d(1) s(2)])
  obtain p3 where p3: "(if tail \<noteq> 0 then elem_store p2 tail 16 8 it else Some p2) = Some p3" "doc_parts cs p3 m2 V k j"
    unfolding m2 by (rule cond_store_ok [OF p2(2) d(2) s(2)])
  have "tail \<noteq> parent" if "tail \<noteq> 0" using ends_in(1) [of "de_kids e" 0] kids(2) tail that by auto
  then have keep: "fld m2 parent = fld m parent" using dom(3) by (auto simp: m2 m1)
  then have "elem_is m2 V parent e" using elem by (simp add: elem_is_def)
  then have total: "elem_totalChildren p3 parent = Some (u32_of (length (de_kids e)))" by (rule read_fields(6) [OF p3(2) _ d(3) ty])
  obtain p4 where p4: "elem_store p3 parent 56 4 ?t = Some p4" "doc_parts cs p4 (upd m2 parent 56 4 ?t) V k j"
    by (rule elem_store_ok [OF p3(2) d(3) s(3)])
  obtain p5 where p5: "elem_store p4 parent 48 8 it = Some p5" "doc_parts cs p5 m3 V k j"
    unfolding m3 by (rule elem_store_ok [OF p4(2) d(4) s(4)])
  have "fld m3 parent 40 8 = fld m parent 40 8"
    using doc_partsD(3) [OF p3(2)] keep by (simp add: m3 fld_other ELEMENT_SIZE_def)
  then have first: "elem_firstChild p5 parent = Some (hd_or (de_kids e) 0)"
    using elem_load_ok [OF p5(2) d(5) s(5)] elem ty by (simp add: elem_firstChild_def elem_is_def)
  obtain p6 where p6: "(if hd_or (de_kids e) 0 = 0 then elem_store p5 parent 40 8 it else Some p5) = Some p6" "doc_parts cs p6 m4 V k j"
    unfolding m4 by (rule cond_store_ok [OF p5(2) d(5) s(5)])
  note rf = read_fields [OF parts elem dom(1)]
  have "link_child pack parent it key = Some p6"
    using rf(2) rf(5) [OF ty] p1(1) p2(1) p3(1) p4(1) p5(1) p6(1) first total ty
    by (simp add: link_child_def VL_MSGPACK_ITER_INVALID_def VL_HASHTABLE_ITER_INVALID_def tail [symmetric] inc32_mod)
  then show ?thesis using p6(2) by blast
qed

text \<open>Fields that none of the stores touches.\<close>

lemma linked_frame:
  assumes ok: "elems_ok m" and tail: "tail \<noteq> 0 \<Longrightarrow> tail \<in> set kids"
    and m1: "m1 = upd (upd m it 24 8 tail) it 16 8 0" and m2: "m2 = (if tail \<noteq> 0 then upd m1 tail 16 8 it else m1)"
    and i: "p \<notin> insert it (set kids) \<or> i + l \<le> 16 \<or> 32 \<le> i"
  shows "fld m2 p i l = fld m p i l"
proof (cases "p \<in> insert it (set kids)")
  case True
  then have "i + l \<le> 16 \<or> 32 \<le> i" using i by blast
  then show ?thesis using ok by (auto simp: m2 m1 fld_other ELEMENT_SIZE_def)
next
  case False
  then have "tail \<noteq> 0 \<Longrightarrow> p \<noteq> tail" "p \<noteq> it" using tail by auto
  then show ?thesis by (simp add: m2 m1)
qed

lemma link_child_ok:
  assumes parts: "doc_parts cs pack m V k j" and dom: "parent \<in> dom m" "it \<in> dom m" "parent \<noteq> it"
    and elem: "elem_is m V parent e" and ty: "de_type e = VL_MSGPACK_MAP"
    and kids: "set (de_kids e) \<subseteq> dom m" "siblings m (de_kids e)" "distinct (de_kids e @ [it])" "parent \<notin> set (de_kids e)"
  obtains pack' m' where "link_child pack parent it key = Some pack'" "doc_parts cs pack' m' V k j" "dom m' = dom m"
    "\<And>p. elem_key m' p = elem_key m p" "siblings m' (de_kids e @ [it])" "elem_is m' V parent (e\<lparr>de_kids := de_kids e @ [it]\<rparr>)"
    "\<And>p i l. p \<notin> insert it (set (de_kids e)) \<or> i + l \<le> 16 \<or> 32 \<le> i \<Longrightarrow> p \<noteq> parent \<or> i + l \<le> 40 \<Longrightarrow> fld m' p i l = fld m p i l"
proof -
  note ok = doc_partsD(3) [OF parts]
  let ?kids = "de_kids e" and ?tail = "last_or (de_kids e) 0"
  have z: "0 \<notin> set ?kids" using kids(1) doc_bounds(3) [OF parts] by blast
  have tail: "?tail \<noteq> 0 \<Longrightarrow> ?tail \<in> set ?kids" using ends_in(1) [of ?kids 0] by auto
  have ib: "it < 256 ^ 8" by (rule doc_bounds(2) [OF parts dom(2)])
  have tb: "?tail < 256 ^ 8" using tail kids(1) doc_bounds(2) [OF parts, of ?tail] by (cases "?tail = 0") auto
  have pt: "parent \<noteq> ?tail" using tail kids(4) dom(1) doc_bounds(3) [OF parts] by metis
  define m1 where "m1 = upd (upd m it 24 8 ?tail) it 16 8 0"
  define m2 where "m2 = (if ?tail \<noteq> 0 then upd m1 ?tail 16 8 it else m1)"
  define t where "t = u32_of (Suc (length ?kids))"
  define m3 where "m3 = upd (upd m2 parent 56 4 t) parent 48 8 it"
  define m4 where "m4 = (if hd_or ?kids 0 = 0 then upd m3 parent 40 8 it else m3)"
  have m2: "m2 = (if ?kids \<noteq> [] then upd m1 (last ?kids) 16 8 it else m1)"
    using ends_zero(1) [OF z] by (simp add: m2_def last_or_def)
  have m4: "m4 = (if ?kids = [] then upd m3 parent 40 8 it else m3)" using ends_zero(2) [OF z] by (simp add: m4_def)
  have ok2: "elems_ok m2" "dom m2 = dom m" using ok by (simp_all add: m2_def m1_def ELEMENT_SIZE_def)
  have keep: "fld m2 parent i l = fld m parent i l" for i l using pt dom(3) by (simp add: m2_def m1_def)
  have other: "fld m4 p = fld m2 p" if "p \<noteq> parent" for p using that by (simp add: m4_def m3_def)
  have sib2: "siblings m2 (?kids @ [it])" by (rule linked_siblings [OF kids(2) ok kids(1) dom(2) kids(3) ib tb m1_def m2])
  have sib4: "siblings m4 (?kids @ [it])"
    unfolding siblings_def
  proof (intro allI impI)
    fix xs c ys assume e: "?kids @ [it] = xs @ c # ys"
    then have "c \<in> set (?kids @ [it])" by (simp only: set_append list.set insert_iff Un_iff simp_thms)
    then have "c \<noteq> parent" using dom(3) kids(4) by auto
    then show "fld m4 c 16 8 = Some (hd_or ys 0) \<and> fld m4 c 24 8 = Some (last_or xs 0)"
      using sib2 [unfolded siblings_def, rule_format, OF e] other [of c] by simp
  qed
  have same: "fld m4 p i l = fld m p i l" if "p \<notin> insert it (set ?kids) \<or> i + l \<le> 16 \<or> 32 \<le> i" "p \<noteq> parent \<or> i + l \<le> 40" for p i l
  proof (cases "p = parent")
    case True
    then have "i + l \<le> 40" using that by blast
    then show ?thesis using True ok2 keep by (simp add: m4_def m3_def fld_other ELEMENT_SIZE_def)
  next
    case False
    then show ?thesis using other [OF False] linked_frame [OF ok tail m1_def m2_def that(1)] by simp
  qed
  have parent: "elem_is m4 V parent (e\<lparr>de_kids := ?kids @ [it]\<rparr>)"
    by (rule linked_parent_fields [OF ok dom pt ib elem ty t_def keep ok2 m3_def m4])
  have key: "elem_key m4 p = elem_key m p" for p by (simp add: m4_def m3_def m2_def m1_def)
  have dom4: "dom m4 = dom m" by (simp add: m4_def m3_def ok2(2))
  obtain pack' where "link_child pack parent it key = Some pack'" "doc_parts cs pack' m4 V k j"
    using link_run [OF parts dom elem ty kids(1,4) refl m1_def m2_def m3_def [unfolded t_def] m4_def] by blast
  then show thesis by (rule that [OF _ _ dom4 key sib4 parent same])
qed

text \<open>What stays of elements and links, and the document with the new element.\<close>

lemma elem_is_frame:
  assumes "elem_is m V p e" and "\<And>i l. i + l \<le> 16 \<or> 32 \<le> i \<Longrightarrow> fld m' p i l = fld m p i l" and "V \<subseteq>\<^sub>m V'"
  shows "elem_is m' V' p e"
proof -
  have "V' v = Some x" if "V v = Some x" for v x using assms(3) that by (force simp: map_le_def)
  moreover have "fld m' p 0 8 = fld m p 0 8" "fld m' p 8 4 = fld m p 8 4" "fld m' p 32 1 = fld m p 32 1"
    "fld m' p 40 8 = fld m p 40 8" "fld m' p 48 8 = fld m p 48 8" "fld m' p 56 4 = fld m p 56 4"
    by (simp_all add: assms(2))
  ultimately show ?thesis using assms(1) by (auto simp: elem_is_def)
qed

lemma kids_ok_frame:
  assumes "kids_ok cs m D p kids" and "siblings m' kids" and "\<And>c. c \<in> insert p (set kids) \<Longrightarrow> elem_key m' c = elem_key m c"
    and "\<And>c e. c \<in> set kids \<Longrightarrow> D c = Some e \<Longrightarrow> \<exists>e'. D' c = Some e' \<and> de_parent e' = de_parent e \<and> de_key e' = de_key e"
  shows "kids_ok cs m' D' p kids"
proof -
  note d = kids_okD [OF assms(1)]
  have p: "child_key cs m' p key = child_key cs m p key" for key using assms(3) [of p] by (simp add: child_key_def)
  have "\<exists>e'. D' c = Some e' \<and> de_parent e' = p \<and> elem_key m' c = child_key cs m' p (de_key e')" if c: "c \<in> set kids" for c
  proof -
    obtain e where e: "D c = Some e" "de_parent e = p" "elem_key m c = child_key cs m p (de_key e)" using d(4) [OF c] by blast
    obtain e' where "D' c = Some e'" "de_parent e' = de_parent e" "de_key e' = de_key e" using assms(4) [OF c e(1)] by blast
    then show ?thesis using e assms(3) [of c] c p by simp
  qed
  then show ?thesis unfolding kids_ok_def using d(1,3) assms(2) by blast
qed

text \<open>Elements other than the parent, when only its list of children changes.\<close>

lemma doc_rel_elsewhere:
  assumes rel: "doc_rel cs m V D" and e: "D parent = Some e" "de_type e = VL_MSGPACK_MAP"
    and key: "\<And>p. p \<in> dom m \<Longrightarrow> elem_key m' p = elem_key m p" and V: "V \<subseteq>\<^sub>m V'"
    and frame: "\<And>p i l. p \<in> dom m \<Longrightarrow> p \<notin> set (de_kids e) \<or> i + l \<le> 16 \<or> 32 \<le> i \<Longrightarrow> p \<noteq> parent \<or> i + l \<le> 40 \<Longrightarrow>
      fld m' p i l = fld m p i l"
    and same: "\<And>c x. D c = Some x \<Longrightarrow> \<exists>x'. D' c = Some x' \<and> de_parent x' = de_parent x \<and> de_key x' = de_key x"
    and p: "D p = Some x" "p \<noteq> parent"
  shows "elem_is m' V' p x \<and> (de_type x \<in> {VL_MSGPACK_MAP, VL_MSGPACK_ARRAY} \<longrightarrow> kids_ok cs m' D' p (de_kids x))"
proof -
  note r = doc_relD [OF rel]
  have K: "kids_ok cs m D parent (de_kids e)" by (rule r(3) [OF e(1)]) (simp add: e(2))
  have inD: "c \<in> dom m" if "kids_ok cs m D p kids" "c \<in> set kids" for p kids c using kids_okD(4) [OF that] r(1) by blast
  have pm: "p \<in> dom m" using p(1) r(1) by blast
  have "elem_is m' V' p x" by (rule elem_is_frame [OF r(2) [OF p(1)] _ V]) (rule frame [OF pm], use p(2) in simp_all)
  moreover have "kids_ok cs m' D' p (de_kids x)" if "de_type x \<in> {VL_MSGPACK_MAP, VL_MSGPACK_ARRAY}"
  proof -
    have k: "kids_ok cs m D p (de_kids x)" by (rule r(3) [OF p(1) that])
    have "siblings m' (de_kids x)"
      unfolding siblings_def
    proof (intro allI impI)
      fix xs c ys assume split: "de_kids x = xs @ c # ys"
      then have c: "c \<in> set (de_kids x)" by simp
      then have "c \<notin> set (de_kids e)" using kids_okD(4) [OF k c] kids_okD(4) [OF K, of c] p(2) by force
      then have "fld m' c i l = fld m c i l" if "i + l \<le> 40" for i l using frame [OF inD [OF k c]] that by blast
      then show "fld m' c 16 8 = Some (hd_or ys 0) \<and> fld m' c 24 8 = Some (last_or xs 0)"
        using kids_okD(2) [OF k] split by (simp add: siblings_def)
    qed
    then show ?thesis
    proof (rule kids_ok_frame [OF k])
      fix c assume "c \<in> insert p (set (de_kids x))"
      then have "c \<in> dom m" using pm inD [OF k] by blast
      then show "elem_key m' c = elem_key m c" by (rule key)
    qed (rule same)
  qed
  ultimately show ?thesis by blast
qed

lemma doc_rel_insert:
  assumes rel: "doc_rel cs m V D" and e: "D parent = Some e" "de_type e = VL_MSGPACK_MAP" and it: "it \<notin> dom m"
    and dom': "dom m' = insert it (dom m)" and key: "\<And>p. p \<in> dom m \<Longrightarrow> elem_key m' p = elem_key m p"
    and ikey: "elem_key m' it = child_key cs m parent key" and V: "V \<subseteq>\<^sub>m V'"
    and new: "elem_is m' V' it e'" "de_parent e' = parent" "de_key e' = key" "de_kids e' = []"
    and par: "elem_is m' V' parent (e\<lparr>de_kids := de_kids e @ [it]\<rparr>)" and sib: "siblings m' (de_kids e @ [it])"
    and frame: "\<And>p i l. p \<in> dom m \<Longrightarrow> p \<notin> set (de_kids e) \<or> i + l \<le> 16 \<or> 32 \<le> i \<Longrightarrow> p \<noteq> parent \<or> i + l \<le> 40 \<Longrightarrow>
      fld m' p i l = fld m p i l"
  shows "doc_rel cs m' V' (D(parent \<mapsto> e\<lparr>de_kids := de_kids e @ [it]\<rparr>, it \<mapsto> e'))"
proof -
  let ?e = "e\<lparr>de_kids := de_kids e @ [it]\<rparr>"
  let ?D = "D(parent \<mapsto> ?e, it \<mapsto> e')"
  note r = doc_relD [OF rel]
  have pd: "parent \<in> dom m" using e(1) r(1) by blast
  then have ne: "parent \<noteq> it" using it by blast
  have dom: "dom ?D = dom m'" using r(1) pd dom' by auto
  have K: "kids_ok cs m D parent (de_kids e)" by (rule r(3) [OF e(1)]) (simp add: e(2))
  have inD: "c \<in> dom m" if "kids_ok cs m D p kids" "c \<in> set kids" for p kids c using kids_okD(4) [OF that] r(1) by blast
  have same: "\<exists>x'. ?D c = Some x' \<and> de_parent x' = de_parent x \<and> de_key x' = de_key x" if "D c = Some x" for c x
  proof -
    have "c \<noteq> it" using that it r(1) by blast
    then show ?thesis using that e(1) by (cases "c = parent") auto
  qed
  have old: "elem_is m' V' p x \<and> (de_type x \<in> {VL_MSGPACK_MAP, VL_MSGPACK_ARRAY} \<longrightarrow> kids_ok cs m' ?D p (de_kids x))"
    if "D p = Some x" "p \<noteq> parent" for p x
    by (rule doc_rel_elsewhere [OF rel e _ V _ _ that]) (erule key frame same; assumption)+
  have kid: "kids_ok cs m' ?D parent (de_kids e @ [it])"
  proof -
    have a: "siblings m' (de_kids e @ [it])" "distinct (de_kids e @ [it])" using sib kids_okD(1) [OF K] inD [OF K] it by auto
    have keq: "child_key cs m' parent q = child_key cs m parent q" for q using key [OF pd] by (simp add: child_key_def)
    have b: "c \<noteq> parent \<and> (\<exists>x. ?D c = Some x \<and> de_parent x = parent \<and> elem_key m' c = child_key cs m' parent (de_key x))"
      if c: "c \<in> set (de_kids e)" for c
    proof -
      obtain x where x: "D c = Some x" "de_parent x = parent" "elem_key m c = child_key cs m parent (de_key x)"
        using kids_okD(4) [OF K c] by blast
      have cd: "c \<in> dom m" "c \<noteq> parent" "c \<noteq> it" using inD [OF K c] kids_okD(3) [OF K] c it by auto
      then show ?thesis using x key [OF cd(1)] keq by simp
    qed
    have "it \<noteq> parent \<and> (\<exists>x. ?D it = Some x \<and> de_parent x = parent \<and> elem_key m' it = child_key cs m' parent (de_key x))"
      using ne new(2,3) ikey keq by simp
    then show ?thesis unfolding kids_ok_def using a b by simp
  qed
  have "elem_is m' V' p x \<and> (de_type x \<in> {VL_MSGPACK_MAP, VL_MSGPACK_ARRAY} \<longrightarrow> kids_ok cs m' ?D p (de_kids x))"
    if "?D p = Some x" for p x
  proof -
    consider "p = it" "x = e'" | "p \<noteq> it" "p = parent" "x = ?e" | "p \<noteq> parent" "D p = Some x"
      using \<open>?D p = Some x\<close> by (cases "p = it"; cases "p = parent") auto
    then show ?thesis
    proof cases
      case 1
      have "kids_ok cs m' ?D it []" by (simp add: kids_ok_def siblings_def)
      then show ?thesis using 1 new by simp
    next
      case 2 then show ?thesis using par kid by simp
    next
      case 3 then show ?thesis using old by blast
    qed
  qed
  then show ?thesis unfolding doc_rel_def using dom by blast
qed

text \<open>Room for one more element with a key of \<open>n\<close> bytes and a value of \<open>d\<close>.\<close>

definition doc_room :: "allocator \<Rightarrow> nat \<Rightarrow> vl_msgpack \<Rightarrow> nat \<Rightarrow> nat \<Rightarrow> bool" where
  "doc_room al limit pack n d \<longleftrightarrow>
     alloc_upto al limit \<and> ht_fits limit (mp_nodes pack) (table_size (mp_nodes pack)) (8 + n + ELEMENT_SIZE) \<and>
     arena_fits limit (mp_values pack) d"

text \<open>The pointer to the value counts only for the types that have one.\<close>

definition value_arg :: "vl_msgpack_type \<Rightarrow> byte list option \<Rightarrow> nat \<Rightarrow> byte list \<Rightarrow> bool" where
  "value_arg ty dataPtr dataLen dat \<longleftrightarrow> has_value ty \<longrightarrow> dataPtr = Some dat \<and> dataLen = length dat \<and> dat \<noteq> []"

lemma init_node_value:
  assumes "value_arg ty dataPtr dataLen dat" and "ty \<noteq> VL_MSGPACK_ARRAY"
  shows "vl_MsgPackInitNode al pack it ty ext parent dataPtr dataLen = init_terminal al pack it ty ext parent (Some dat) (length dat)"
  using assms by (auto simp: vl_MsgPackInitNode_def init_terminal_def value_arg_def has_value_def cong: if_cong)

text \<open>The hash of an element, and the key of a child as the functions build it.\<close>

lemma parent_hash_key:
  assumes "doc_parts cs pack m V k j" and "parent \<in> dom m"
  obtains h where "node_keyHash (ht_data (mp_nodes pack)) parent = Some h" "nat_bytes 8 h @ key = child_key cs m parent key"
proof -
  obtain q vs where q: "m parent = Some (q, vs)" using assms(2) by auto
  obtain h where "hf_call (msgpack_hash cs) q (length q) = Some h" "node_keyHash (ht_data (mp_nodes pack)) parent = Some (unat h)"
    using elem_place(3) [OF doc_partsD(1) [OF assms(1)] q] by blast
  then show thesis using that [of "unat h"] q by (simp add: child_key_def elem_key_def)
qed

lemma child_key_length [simp]: "length (child_key cs m p key) = 8 + length key"
  by (simp add: child_key_def)

lemma find_child_parts:
  assumes parts: "doc_parts cs pack m V k j" and p: "parent \<in> dom m" and key: "8 + length key \<le> VL_MSGPACK_MAX_STACK_KEY_SIZE"
  shows "vlMsgPackFindChild al pack parent key (length key) =
    map_option (\<lambda>it. (it, pack)) (ht_find_key (mp_nodes pack) (child_key cs m parent key))"
proof -
  obtain h where h: "node_keyHash (ht_data (mp_nodes pack)) parent = Some h" "nat_bytes 8 h @ key = child_key cs m parent key"
    by (rule parent_hash_key [OF parts p])
  show ?thesis
    using h key_begin_short [OF key, of al pack h]
    by (cases "ht_find_key (mp_nodes pack) (child_key cs m parent key)")
      (simp_all add: vlMsgPackFindChild_def vl_MsgPackKeyEnd_def ht_find_key_def)
qed

lemma insert_child_parts:
  assumes parts: "doc_parts cs pack m V (Suc k) (Suc j)" and rel: "doc_rel cs m V D"
    and e: "D parent = Some e" "de_type e = VL_MSGPACK_MAP" and ty: "ty \<noteq> VL_MSGPACK_ARRAY" "ty = VL_MSGPACK_EXT \<longrightarrow> ext \<noteq> VL_MSGPACK_EXT_NONE"
    and key: "None \<notin> set key" "8 + length key \<le> VL_MSGPACK_MAX_STACK_KEY_SIZE" "child_key cs m parent key \<notin> keys_of m"
    and val: "value_arg ty dataPtr dataLen dat" and room: "doc_room al limit pack (length key) (length dat)"
  obtains it pack' m' V' where "vlMsgPackInsertExt al pack ty ext parent key (length key) dataPtr dataLen = Some (it, pack')"
    "it \<notin> dom m" "doc_parts cs pack' m' V' k j" "elem_key m' it = child_key cs m parent key"
    "\<And>p. p \<in> dom m \<Longrightarrow> elem_key m' p = elem_key m p"
    "doc_rel cs m' V' (D(parent \<mapsto> e\<lparr>de_kids := de_kids e @ [it]\<rparr>, it \<mapsto> new_elem key parent ty ext dat))"
proof -
  note P = doc_partsD [OF parts] and R = doc_relD [OF rel]
  let ?q = "child_key cs m parent key"
  have pd: "parent \<in> dom m" using e(1) R(1) by blast
  have pn: "parent \<noteq> VL_MSGPACK_ITER_INVALID"
    using doc_bounds(1) [OF parts pd] by (simp add: VL_MSGPACK_ITER_INVALID_def VL_HASHTABLE_ITER_INVALID_def)
  obtain h where h: "node_keyHash (ht_data (mp_nodes pack)) parent = Some h" "nat_bytes 8 h @ key = ?q"
    by (rule parent_hash_key [OF parts pd])
  have "length key < 2 ^ 15" using key(2) by (simp add: VL_MSGPACK_MAX_STACK_KEY_SIZE_def)
  then have qok: "ht_key_ok (msgpack_hash cs) ?q" using msgpack_key [OF key(1), of cs h] h(2) by simp
  have al: "alloc_upto al limit" using room by (simp add: doc_room_def)
  have hroom: "ht_room al limit (mp_nodes pack) ?q ELEMENT_SIZE"
    using room by (simp add: doc_room_def ht_room_def ELEMENT_SIZE_def)
  obtain it t xs where t: "ht_insert al (mp_nodes pack) ?q ELEMENT_SIZE = Some (it, t)" "m it = None" "length xs = ELEMENT_SIZE"
    "ht_map (msgpack_hash cs) t (m(it \<mapsto> (?q, xs))) k"
    using ht.ins_new [OF P(1) qok key(3) hroom] by blast
  let ?m1 = "m(it \<mapsto> (?q, xs))" and ?p1 = "pack\<lparr>mp_nodes := t\<rparr>"
  have parts1: "doc_parts cs ?p1 ?m1 V k (Suc j)" using t(3,4) P(2,3) by (auto simp: doc_parts_def elems_ok_def)
  have it: "it \<notin> dom m" "it \<in> dom ?m1" "parent \<noteq> it" using t(2) pd by auto
  have fld1: "fld ?m1 p = fld m p" if "p \<noteq> it" for p using that by (simp add: fld_def fun_eq_iff)
  have pb: "parent < 256 ^ 8" by (rule doc_bounds(2) [OF parts pd])
  have dat: "dat \<noteq> [] \<and> arena_fits limit (mp_values ?p1) (length dat)" if "has_value ty"
    using val room that by (simp add: value_arg_def doc_room_def)
  obtain p2 m2 V' where i: "init_terminal al ?p1 it ty ext parent (Some dat) (length dat) = Some p2" "doc_parts cs p2 m2 V' k j"
    "dom m2 = dom ?m1" "\<And>p. elem_key m2 p = elem_key ?m1 p" "\<And>p. p \<noteq> it \<Longrightarrow> fld m2 p = fld ?m1 p" "V \<subseteq>\<^sub>m V'"
    "elem_is m2 V' it (new_elem key parent ty ext dat)"
    by (rule init_terminal_ok [OF parts1 it(2) ty(1) pb al dat]) blast+
  have fld2: "fld m2 p = fld m p" if "p \<noteq> it" for p using i(5) [OF that] fld1 [OF that] by simp
  have K: "kids_ok cs m D parent (de_kids e)" by (rule R(3) [OF e(1)]) (simp add: e(2))
  have kd: "set (de_kids e) \<subseteq> dom m" using kids_okD(4) [OF K] R(1) by blast
  then have kit: "it \<notin> set (de_kids e)" using it(1) by blast
  have d2: "parent \<in> dom m2" "it \<in> dom m2" "set (de_kids e) \<subseteq> dom m2" using i(3) pd kd by auto
  have e2: "elem_is m2 V' parent e" by (rule elem_is_frame [OF R(2) [OF e(1)] _ i(6)]) (use fld2 [OF it(3)] in simp)
  have "siblings m2 (de_kids e)" unfolding siblings_def
  proof (intro allI impI)
    fix ys c zs assume split: "de_kids e = ys @ c # zs"
    then have "c \<noteq> it" using kit by auto
    then show "fld m2 c 16 8 = Some (hd_or zs 0) \<and> fld m2 c 24 8 = Some (last_or ys 0)"
      using kids_okD(2) [OF K] split fld2 by (simp add: siblings_def)
  qed
  moreover have "distinct (de_kids e @ [it])" using kids_okD(1) [OF K] kit by simp
  ultimately obtain p3 m3 where l: "link_child p2 parent it key = Some p3" "doc_parts cs p3 m3 V' k j" "dom m3 = dom m2"
    "\<And>p. elem_key m3 p = elem_key m2 p" "siblings m3 (de_kids e @ [it])" "elem_is m3 V' parent (e\<lparr>de_kids := de_kids e @ [it]\<rparr>)"
    "\<And>p i l. p \<notin> insert it (set (de_kids e)) \<or> i + l \<le> 16 \<or> 32 \<le> i \<Longrightarrow> p \<noteq> parent \<or> i + l \<le> 40 \<Longrightarrow> fld m3 p i l = fld m2 p i l"
    by (rule link_child_ok [OF i(2) d2(1,2) it(3) e2 e(2) d2(3) _ _ kids_okD(3) [OF K]]) blast+
  have find: "vlHashTableFind (mp_nodes pack) ?q (length ?q) = Some 0"
    using ht.find_miss [OF P(1) qok key(3)] by (simp add: ht_find_key_def)
  have ins: "vlHashTableInsert al (mp_nodes pack) ?q (length ?q) ELEMENT_SIZE = Some (it, t)" using t(1) by (simp add: ht_insert_def)
  have some: "\<not> (ty = VL_MSGPACK_EXT \<and> ext = VL_MSGPACK_EXT_NONE)" using ty(2) by blast
  have "vlMsgPackInsertExt al pack ty ext parent key (length key) dataPtr dataLen = Some (it, p3)"
    unfolding vlMsgPackInsertExt_def insert_with_def if_not_P [OF some]
    using pn h key_begin_short [OF key(2), of al pack h] find ins i(1) l(1) init_node_value [OF val ty(1)]
    by (simp add: parent_hash_def vl_MsgPackKeyEnd_def VL_MSGPACK_ITER_INVALID_def
        VL_HASHTABLE_ITER_INVALID_def)
  moreover have "elem_key m3 it = ?q" "\<And>p. p \<in> dom m \<Longrightarrow> elem_key m3 p = elem_key m p"
    using l(4) i(4) it(1) by (auto simp: elem_key_def)
  moreover have "doc_rel cs m3 V' (D(parent \<mapsto> e\<lparr>de_kids := de_kids e @ [it]\<rparr>, it \<mapsto> new_elem key parent ty ext dat))"
  proof (rule doc_rel_insert [OF rel e it(1) _ _ _ i(6)])
    show "dom m3 = insert it (dom m)" using l(3) i(3) by simp
    show "elem_is m3 V' it (new_elem key parent ty ext dat)"
      by (rule elem_is_frame [OF i(7) l(7)]) (use it(3) in \<open>simp_all add: map_le_def\<close>)
    show "elem_is m3 V' parent (e\<lparr>de_kids := de_kids e @ [it]\<rparr>)" "siblings m3 (de_kids e @ [it])" by (rule l(5,6))+
    fix p i' l' :: nat assume p: "p \<in> dom m" "p \<notin> set (de_kids e) \<or> i' + l' \<le> 16 \<or> 32 \<le> i'" "p \<noteq> parent \<or> i' + l' \<le> 40"
    then have "p \<noteq> it" using it(1) by blast
    then show "fld m3 p i' l' = fld m p i' l'" using l(7) [of p i' l'] p fld2 by simp
  qed (use calculation(2,3) in \<open>simp_all add: new_elem_def\<close>)
  ultimately show thesis using that it(1) l(2) by blast
qed

text \<open>The elements of a document, as the functions read them.\<close>

lemma doc_okE:
  assumes "doc_ok cs pack D k j"
  obtains m V where "doc_parts cs pack m V k j" "doc_rel cs m V D"
  using assms unfolding doc_ok_def by blast

lemma doc_read:
  assumes "doc_ok cs pack D k j" and "D p = Some e"
  shows "vlMsgPackType pack p = Some (de_type e)" "vlMsgPackParent pack p = Some (de_parent e)" "vlMsgPackExtType pack p = Some (de_ext e)"
    and "de_type e = VL_MSGPACK_MAP \<Longrightarrow> vlMsgPackTotalChildren pack p = Some (u32_of (length (de_kids e)))"
    and "de_type e = VL_MSGPACK_MAP \<Longrightarrow> vlMsgPackFirstChild pack p = Some (hd_or (de_kids e) 0)"
    and "has_value (de_type e) \<Longrightarrow> vlMsgPackSampleValue pack p = Some (Some (de_value e))"
    and "p \<noteq> 0"
proof -
  obtain m V where P: "doc_parts cs pack m V k j" and R: "doc_rel cs m V D" by (rule doc_okE [OF assms(1)])
  have p: "p \<in> dom m" using doc_relD(1) [OF R] assms(2) by blast
  note f = read_fields [OF P doc_relD(2) [OF R assms(2)] p]
  show "vlMsgPackType pack p = Some (de_type e)" "vlMsgPackParent pack p = Some (de_parent e)" "vlMsgPackExtType pack p = Some (de_ext e)"
    using f(1-3) by (simp_all add: vlMsgPackType_def vlMsgPackParent_def vlMsgPackExtType_def)
  show "vlMsgPackTotalChildren pack p = Some (u32_of (length (de_kids e)))" "vlMsgPackFirstChild pack p = Some (hd_or (de_kids e) 0)"
    if "de_type e = VL_MSGPACK_MAP"
    using f(2,4,6) that by (simp_all add: vlMsgPackTotalChildren_def vlMsgPackFirstChild_def)
  show "vlMsgPackSampleValue pack p = Some (Some (de_value e))" if "has_value (de_type e)"
    by (rule read_value [OF P doc_relD(2) [OF R assms(2)] p that])
  show "p \<noteq> 0" using doc_bounds(1) [OF P p] by simp
qed

lemma doc_read_child:
  assumes "doc_ok cs pack D k j" and "D p = Some e" and "de_type e \<in> {VL_MSGPACK_MAP, VL_MSGPACK_ARRAY}" and "de_kids e = xs @ c # ys"
  obtains x where "D c = Some x" "de_parent x = p" "vlMsgPackSampleKey pack c = Some (de_key x)"
    "vlMsgPackNextSibling pack c = Some (hd_or ys 0)" "vlMsgPackPrevSibling pack c = Some (last_or xs 0)"
    "8 + length (de_key x) \<le> VL_MSGPACK_MAX_STACK_KEY_SIZE \<Longrightarrow>
       vlMsgPackFindChild al pack p (de_key x) (length (de_key x)) = Some (c, pack)"
proof -
  obtain m V where P: "doc_parts cs pack m V k j" and R: "doc_rel cs m V D" by (rule doc_okE [OF assms(1)])
  note r = doc_relD [OF R]
  have K: "kids_ok cs m D p (de_kids e)" by (rule r(3) [OF assms(2,3)])
  have "c \<in> set (de_kids e)" using assms(4) by simp
  then obtain x where x: "D c = Some x" "de_parent x = p" "elem_key m c = child_key cs m p (de_key x)"
    using kids_okD(4) [OF K] by blast
  have c: "c \<in> dom m" and p: "p \<in> dom m" using x(1) assms(2) r(1) by blast+
  obtain q vs where q: "m c = Some (q, vs)" using c by auto
  have qk: "q = child_key cs m p (de_key x)" using x(3) q by (simp add: elem_key_def)
  note sib = read_siblings [OF P kids_okD(2) [OF K, unfolded assms(4)] c]
  have "vlMsgPackSampleKey pack c = Some (de_key x)"
    using elem_place(4) [OF doc_partsD(1) [OF P] q] qk by (simp add: vlMsgPackSampleKey_def child_key_def)
  moreover have "ht_find_key (mp_nodes pack) (child_key cs m p (de_key x)) = Some c"
    using ht.find_hit [OF doc_partsD(1) [OF P] q] qk by simp
  ultimately show thesis
    using that [OF x(1,2)] sib find_child_parts [OF P p, of "de_key x" al]
    by (simp add: vlMsgPackNextSibling_def vlMsgPackPrevSibling_def)
qed

text \<open>
  C7. A new key inserted into a map of a document gives an element that was not there, found under its
  parent and key with its type and its value; it is the last child of its parent, and every other element
  keeps its key, parent, type, value, children and place among its siblings.
\<close>

theorem dom_insert_child:
  assumes "doc_ok cs pack D (Suc k) (Suc j)" and "D parent = Some e" and "de_type e = VL_MSGPACK_MAP"
    and "ty \<noteq> VL_MSGPACK_ARRAY" and "ty = VL_MSGPACK_EXT \<longrightarrow> ext \<noteq> VL_MSGPACK_EXT_NONE"
    and "None \<notin> set key" and "8 + length key \<le> VL_MSGPACK_MAX_STACK_KEY_SIZE"
    and "vlMsgPackFindChild al pack parent key (length key) = Some (VL_MSGPACK_ITER_INVALID, pack)"
    and "value_arg ty dataPtr dataLen dat" and "doc_room al limit pack (length key) (length dat)"
  shows "\<exists>it pack'. vlMsgPackInsertExt al pack ty ext parent key (length key) dataPtr dataLen = Some (it, pack') \<and>
    it \<notin> dom D \<and>
    doc_ok cs pack' (D(parent \<mapsto> e\<lparr>de_kids := de_kids e @ [it]\<rparr>, it \<mapsto> new_elem key parent ty ext dat)) k j \<and>
    vlMsgPackFindChild al pack' parent key (length key) = Some (it, pack') \<and>
    vlMsgPackType pack' it = Some ty \<and> vlMsgPackParent pack' it = Some parent \<and>
    vlMsgPackTotalChildren pack' parent = Some (u32_of (Suc (length (de_kids e)))) \<and>
    (has_value ty \<longrightarrow> vlMsgPackSampleValue pack' it = Some (Some dat))"
proof -
  obtain m V where P: "doc_parts cs pack m V (Suc k) (Suc j)" and R: "doc_rel cs m V D" by (rule doc_okE [OF assms(1)])
  have p: "parent \<in> dom m" using doc_relD(1) [OF R] assms(2) by blast
  have "child_key cs m parent key \<notin> keys_of m"
  proof
    assume "child_key cs m parent key \<in> keys_of m"
    then obtain c vs where c: "m c = Some (child_key cs m parent key, vs)" by (auto simp: keys_of_iff)
    then have "c = VL_MSGPACK_ITER_INVALID"
      using assms(8) find_child_parts [OF P p assms(7), of al] ht.find_hit [OF doc_partsD(1) [OF P] c] by simp
    then show False using doc_bounds(3) [OF P] c by (auto simp: VL_MSGPACK_ITER_INVALID_def VL_HASHTABLE_ITER_INVALID_def)
  qed
  then obtain it pack' m' V' where i: "vlMsgPackInsertExt al pack ty ext parent key (length key) dataPtr dataLen = Some (it, pack')"
    "it \<notin> dom m" "doc_parts cs pack' m' V' k j" "elem_key m' it = child_key cs m parent key" "\<And>p. p \<in> dom m \<Longrightarrow> elem_key m' p = elem_key m p"
    "doc_rel cs m' V' (D(parent \<mapsto> e\<lparr>de_kids := de_kids e @ [it]\<rparr>, it \<mapsto> new_elem key parent ty ext dat))"
    by (rule insert_child_parts [OF P R assms(2-7) _ assms(9,10)]) blast+
  let ?D = "D(parent \<mapsto> e\<lparr>de_kids := de_kids e @ [it]\<rparr>, it \<mapsto> new_elem key parent ty ext dat)"
  have doc: "doc_ok cs pack' ?D k j" using i(3,6) unfolding doc_ok_def by blast
  have new: "?D it = Some (new_elem key parent ty ext dat)" by simp
  have par: "?D parent = Some (e\<lparr>de_kids := de_kids e @ [it]\<rparr>)" using i(2) p by auto
  note rn = doc_read [OF doc new] and rp = doc_read [OF doc par]
  have "vlMsgPackFindChild al pack' parent key (length key) = Some (it, pack')"
    by (rule doc_read_child [OF doc par, of "de_kids e" it "[]" al]) (use new assms(3,7) in \<open>simp_all add: new_elem_def\<close>)
  then show ?thesis
    using i(1,2) doc rn rp(4) assms(3) doc_relD(1) [OF R]
    by (intro exI [of _ it] exI [of _ pack'] conjI impI) (simp_all add: new_elem_def)
qed

section \<open>Encoding a document\<close>

text \<open>The element \<open>p\<close> with all below it represents a value.\<close>

definition terminal_is :: "(nat \<rightharpoonup> doc_elem) \<Rightarrow> nat \<Rightarrow> vl_msgpack_type \<Rightarrow> byte list \<Rightarrow> bool" where
  "terminal_is D p ty bs \<longleftrightarrow> (\<exists>e. D p = Some e \<and> de_type e = ty \<and> de_value e = bs)"

fun doc_tree :: "(nat \<rightharpoonup> doc_elem) \<Rightarrow> nat \<Rightarrow> mp \<Rightarrow> bool"
  and doc_list :: "(nat \<rightharpoonup> doc_elem) \<Rightarrow> nat list \<Rightarrow> mp list \<Rightarrow> bool"
  and doc_pairs :: "(nat \<rightharpoonup> doc_elem) \<Rightarrow> nat list \<Rightarrow> (byte list \<times> mp) list \<Rightarrow> bool" where
  "doc_tree D p MNil \<longleftrightarrow> (\<exists>e. D p = Some e \<and> de_type e = VL_MSGPACK_NIL)"
| "doc_tree D p (MBool b) \<longleftrightarrow> terminal_is D p VL_MSGPACK_BOOL (nat_bytes 1 (of_bool b))"
| "doc_tree D p (MInt v) \<longleftrightarrow> terminal_is D p VL_MSGPACK_INT (nat_bytes 8 (unat v))"
| "doc_tree D p (MUInt v) \<longleftrightarrow> terminal_is D p VL_MSGPACK_UINT (nat_bytes 8 (unat v))"
| "doc_tree D p (MFloat32 x) \<longleftrightarrow> terminal_is D p VL_MSGPACK_FLOAT32 (nat_bytes 4 (unat x))"
| "doc_tree D p (MFloat64 x) \<longleftrightarrow> terminal_is D p VL_MSGPACK_FLOAT64 (nat_bytes 8 (unat x))"
| "doc_tree D p (MStr xs) \<longleftrightarrow> terminal_is D p VL_MSGPACK_STRING xs"
| "doc_tree D p (MBin xs) \<longleftrightarrow> terminal_is D p VL_MSGPACK_BINARY xs"
| "doc_tree D p (MExt t xs) \<longleftrightarrow> (\<exists>e. D p = Some e \<and> de_type e = VL_MSGPACK_EXT \<and> de_ext e = t \<and> de_value e = xs)"
| "doc_tree D p (MArr vs) \<longleftrightarrow>
     (\<exists>e c cs x. D p = Some e \<and> de_type e = VL_MSGPACK_ARRAY \<and> de_kids e = c # cs \<and> D c = Some x \<and> de_key x = nat_bytes 4 0 \<and>
        doc_list D (de_kids e) vs)"
| "doc_tree D p (MMap kvs) \<longleftrightarrow> (\<exists>e. D p = Some e \<and> de_type e = VL_MSGPACK_MAP \<and> doc_pairs D (de_kids e) kvs)"
| "doc_list D [] vs \<longleftrightarrow> vs = []"
| "doc_list D (c # cs) [] \<longleftrightarrow> False"
| "doc_list D (c # cs) (v # vs) \<longleftrightarrow> doc_tree D c v \<and> doc_list D cs vs"
| "doc_pairs D [] kvs \<longleftrightarrow> kvs = []"
| "doc_pairs D (c # cs) [] \<longleftrightarrow> False"
| "doc_pairs D (c # cs) ((k, v) # kvs) \<longleftrightarrow> (\<exists>x. D c = Some x \<and> de_key x = k) \<and> doc_tree D c v \<and> doc_pairs D cs kvs"

text \<open>The numbers of terminals.\<close>

lemma read_number:
  assumes "doc_ok cs pack D k j" and "terminal_is D p ty (nat_bytes w n)" and "has_value ty" and "n < 256 ^ w"
  shows "vlMsgPackType pack p = Some ty" "get_number ty w pack p d = Some n"
proof -
  obtain e where e: "D p = Some e" "de_type e = ty" "de_value e = nat_bytes w n" using assms(2) by (auto simp: terminal_is_def)
  note r = doc_read [OF assms(1) e(1)]
  show t: "vlMsgPackType pack p = Some ty" using r(1) e(2) by simp
  have "read_range (nat_bytes w n) 0 w = Some (nat_bytes w n)" by (simp add: read_range_def)
  then show "get_number ty w pack p d = Some n"
    using t r(6,7) e(2,3) assms(3) bytes_nat_bytes [OF assms(4)]
    by (simp add: get_number_def VL_MSGPACK_ITER_INVALID_def VL_HASHTABLE_ITER_INVALID_def)
qed

lemma read_bytes:
  assumes "doc_ok cs pack D k j" and "terminal_is D p ty bs" and "has_value ty"
  shows "vlMsgPackType pack p = Some ty" "vlMsgPackSampleValue pack p = Some (Some bs)"
  using assms doc_read(1,6) [OF assms(1)] by (auto simp: terminal_is_def)

lemma encode_walk_node:
  assumes "vlMsgPackType src p = Some ty" and "ty \<noteq> VL_MSGPACK_ARRAY" and "ty \<noteq> VL_MSGPACK_MAP"
  shows "encode_walk al src (Encode_node p) enc = encode_terminal al enc src ty p"
  using assms by (subst encode_walk.simps) simp

lemma word_byte_bounds: "unat (v :: u64) < 256 ^ 8" "unat (w :: u32) < 256 ^ 4"
  using unsigned_less [of v, where ?'a = nat] unsigned_less [of w, where ?'a = nat] by simp_all

text \<open>The first child of an array is found by its index.\<close>

lemma first_of_array:
  assumes "doc_ok cs pack D k j" and "D p = Some e" and "de_type e = VL_MSGPACK_ARRAY" and "de_kids e = c # cs'" and "D c = Some x"
    and "de_key x = nat_bytes 4 0"
  shows "vlMsgPackFirstChild pack p = Some c"
proof -
  obtain m V where P: "doc_parts cs pack m V k j" and R: "doc_rel cs m V D" by (rule doc_okE [OF assms(1)])
  note r = doc_relD [OF R]
  have K: "kids_ok cs m D p (c # cs')" using r(3) [OF assms(2)] assms(3,4) by simp
  have key: "elem_key m c = child_key cs m p (nat_bytes 4 0)" using kids_okD(4) [OF K, of c] assms(5,6) by simp
  have c: "c \<in> dom m" and p: "p \<in> dom m" using assms(2,5) r(1) by blast+
  obtain q vs where q: "m c = Some (q, vs)" using c by auto
  obtain h where h: "node_keyHash (ht_data (mp_nodes pack)) p = Some h" "nat_bytes 8 h @ nat_bytes 4 0 = child_key cs m p (nat_bytes 4 0)"
    by (rule parent_hash_key [OF P p])
  have "ht_find_key (mp_nodes pack) (child_key cs m p (nat_bytes 4 0)) = Some c"
    using ht.find_hit [OF doc_partsD(1) [OF P] q] q key by (simp add: elem_key_def)
  then have "vlHashTableFind (mp_nodes pack) (nat_bytes 8 h @ nat_bytes 4 0) 12 = Some c"
    unfolding h(2) by (simp add: ht_find_key_def)
  moreover have "elem_type pack p = Some VL_MSGPACK_ARRAY"
    using doc_read(1) [OF assms(1,2)] assms(3) by (simp add: vlMsgPackType_def)
  ultimately show ?thesis using h(1) by (simp add: vlMsgPackFirstChild_def vlMsgPackFindChildIndexed_def)
qed

lemma encode_walk_ok:
  assumes doc: "doc_ok cs pack D k j"
  shows "doc_tree D p v \<Longrightarrow> mp_ok v \<Longrightarrow> encode_walk al pack (Encode_node p) enc = encode_mp al v enc"
    and "D q = Some e \<Longrightarrow> de_type e \<in> {VL_MSGPACK_MAP, VL_MSGPACK_ARRAY} \<Longrightarrow> de_kids e = xs @ kids \<Longrightarrow> doc_list D kids vs \<Longrightarrow>
      \<forall>v \<in> set vs. mp_ok v \<Longrightarrow> encode_walk al pack (Encode_elements (hd_or kids 0)) enc = encode_all al vs enc"
    and "D q = Some e \<Longrightarrow> de_type e \<in> {VL_MSGPACK_MAP, VL_MSGPACK_ARRAY} \<Longrightarrow> de_kids e = xs @ kids \<Longrightarrow> doc_pairs D kids kvs \<Longrightarrow>
      \<forall>(k, v) \<in> set kvs. length k < 2 ^ 32 \<and> mp_ok v \<Longrightarrow>
      encode_walk al pack (Encode_pairs (hd_or kids 0)) enc = encode_pairs al kvs enc"
proof (induction al v enc and al vs enc and al kvs enc arbitrary: p and q e xs kids and q e xs kids
    rule: encode_mp_encode_all_encode_pairs.induct)
  case (1 al enc)
  then obtain e where e: "D p = Some e" "de_type e = VL_MSGPACK_NIL" by auto
  then show ?case using encode_walk_node [of pack p VL_MSGPACK_NIL] doc_read(1) [OF doc e(1)] by (simp add: encode_terminal_def)
next
  case (2 al b enc)
  then have t: "terminal_is D p VL_MSGPACK_BOOL (nat_bytes 1 (of_bool b))" by simp
  note r = read_number [OF doc t]
  show ?case using r encode_walk_node [of pack p VL_MSGPACK_BOOL] by (simp add: encode_terminal_def has_value_def vlMsgPackGetBool_def)
next
  case (3 al v enc)
  then have t: "terminal_is D p VL_MSGPACK_INT (nat_bytes 8 (unat v))" by simp
  show ?case using read_number [OF doc t _ word_byte_bounds(1)] encode_walk_node [of pack p VL_MSGPACK_INT]
    by (simp add: encode_terminal_def has_value_def vlMsgPackGetInt_def)
next
  case (4 al v enc)
  then have t: "terminal_is D p VL_MSGPACK_UINT (nat_bytes 8 (unat v))" by simp
  show ?case using read_number [OF doc t _ word_byte_bounds(1)] encode_walk_node [of pack p VL_MSGPACK_UINT]
    by (simp add: encode_terminal_def has_value_def vlMsgPackGetUInt_def)
next
  case (5 al x enc)
  then have t: "terminal_is D p VL_MSGPACK_FLOAT32 (nat_bytes 4 (unat x))" by simp
  show ?case using read_number [OF doc t _ word_byte_bounds(2)] encode_walk_node [of pack p VL_MSGPACK_FLOAT32]
    by (simp add: encode_terminal_def has_value_def vlMsgPackGetFloat32_def)
next
  case (6 al x enc)
  then have t: "terminal_is D p VL_MSGPACK_FLOAT64 (nat_bytes 8 (unat x))" by simp
  show ?case using read_number [OF doc t _ word_byte_bounds(1)] encode_walk_node [of pack p VL_MSGPACK_FLOAT64]
    by (simp add: encode_terminal_def has_value_def vlMsgPackGetFloat64_def)
next
  case (7 al ys enc)
  then have t: "terminal_is D p VL_MSGPACK_STRING ys" by simp
  show ?case using read_bytes [OF doc t] encode_walk_node [of pack p VL_MSGPACK_STRING] 7(2)
    by (simp add: encode_terminal_def has_value_def u32_of_id)
next
  case (8 al ys enc)
  then have t: "terminal_is D p VL_MSGPACK_BINARY ys" by simp
  show ?case using read_bytes [OF doc t] encode_walk_node [of pack p VL_MSGPACK_BINARY] 8(2)
    by (simp add: encode_terminal_def has_value_def u32_of_id)
next
  case (9 al t ys enc)
  then obtain e where e: "D p = Some e" "de_type e = VL_MSGPACK_EXT" "de_ext e = t" "de_value e = ys" by auto
  show ?case using doc_read [OF doc e(1)] e encode_walk_node [of pack p VL_MSGPACK_EXT] 9(2)
    by (simp add: encode_terminal_def has_value_def u32_of_id)
next
  case (10 al vs enc)
  then obtain e c cs x where e: "D p = Some e" "de_type e = VL_MSGPACK_ARRAY" "de_kids e = c # cs" "D c = Some x" "de_key x = nat_bytes 4 0"
    "doc_list D (de_kids e) vs" by auto
  have first: "vlMsgPackFirstChild pack p = Some c" by (rule first_of_array [OF doc e(1-5)])
  have ty: "vlMsgPackType pack p = Some VL_MSGPACK_ARRAY" using doc_read(1) [OF doc e(1)] e(2) by simp
  show ?case
  proof (cases "vlMsgPackIOEncodeArrayBegin al enc")
    case None
    then show ?thesis using ty by (subst encode_walk.simps) simp
  next
    case (Some enc1)
    have "encode_walk al pack (Encode_elements c) enc1 = encode_all al vs enc1"
      using "10.IH" [OF Some, of p e "[]" "de_kids e"] e(1,2,3,6) "10.prems"(2) by (simp add: hd_or_def)
    then show ?thesis using Some ty first by (subst encode_walk.simps) simp
  qed
next
  case (11 al kvs enc)
  then obtain e where e: "D p = Some e" "de_type e = VL_MSGPACK_MAP" "doc_pairs D (de_kids e) kvs" by auto
  note r = doc_read [OF doc e(1)]
  show ?case
  proof (cases "vlMsgPackIOEncodeMapBegin al enc")
    case None
    then show ?thesis using r(1) e(2) by (subst encode_walk.simps) simp
  next
    case (Some enc1)
    have "encode_walk al pack (Encode_pairs (hd_or (de_kids e) 0)) enc1 = encode_pairs al kvs enc1"
      using "11.IH" [OF Some, of p e "[]" "de_kids e"] e "11.prems"(2) by simp
    then show ?thesis using Some r(1,5) e(2) by (subst encode_walk.simps) simp
  qed
next
  case (12 al enc)
  then have "kids = []" by (cases kids) simp_all
  then show ?case by (subst encode_walk.simps) (simp add: hd_or_def VL_MSGPACK_ITER_INVALID_def VL_HASHTABLE_ITER_INVALID_def)
next
  case (13 al v vs enc)
  then obtain c cs where k: "kids = c # cs" "doc_tree D c v" "doc_list D cs vs" by (cases kids) simp_all
  obtain x where x: "D c = Some x" "vlMsgPackNextSibling pack c = Some (hd_or cs 0)"
    by (rule doc_read_child [OF doc 13(3,4), of xs c cs]) (use 13(5) k(1) in simp_all)
  have ne: "c \<noteq> VL_MSGPACK_ITER_INVALID"
    using doc_read(7) [OF doc x(1)] by (simp add: VL_MSGPACK_ITER_INVALID_def VL_HASHTABLE_ITER_INVALID_def)
  have step: "encode_walk al pack (Encode_node c) enc = encode_mp al v enc" by (rule "13.IH"(1)) (use k(2) "13.prems"(5) in simp_all)
  have rest: "encode_walk al pack (Encode_elements (hd_or cs 0)) enc1 = encode_all al vs enc1" if "encode_mp al v enc = Some enc1" for enc1
    by (rule "13.IH"(2) [OF that 13(3,4), of "xs @ [c]" cs]) (use k(1,3) "13.prems"(3,5) in simp_all)
  show ?case using ne x(2) step rest k(1)
    by (subst encode_walk.simps) (cases "encode_mp al v enc"; simp add: hd_or_def)
next
  case (14 al enc)
  then have "kids = []" by (cases kids) simp_all
  then show ?case by (subst encode_walk.simps) (simp add: hd_or_def VL_MSGPACK_ITER_INVALID_def VL_HASHTABLE_ITER_INVALID_def)
next
  case (15 al k v kvs enc)
  then obtain c cs x where k: "kids = c # cs" "D c = Some x" "de_key x = k" "doc_tree D c v" "doc_pairs D cs kvs"
    by (cases kids) auto
  obtain y where y: "D c = Some y" "vlMsgPackSampleKey pack c = Some (de_key y)" "vlMsgPackNextSibling pack c = Some (hd_or cs 0)"
    by (rule doc_read_child [OF doc 15(3,4), of xs c cs]) (use 15(5) k(1) in simp_all)
  have sk: "vlMsgPackSampleKey pack c = Some k" using y(1,2) k(2,3) by simp
  have ne: "c \<noteq> VL_MSGPACK_ITER_INVALID"
    using doc_read(7) [OF doc k(2)] by (simp add: VL_MSGPACK_ITER_INVALID_def VL_HASHTABLE_ITER_INVALID_def)
  have len: "length k < 2 ^ 32" using "15.prems"(5) by simp
  have step: "encode_walk al pack (Encode_node c) enc1 = encode_mp al v enc1"
    if "vlMsgPackIOEncodeStringLen al enc (Some k) (length k) = Some enc1" for enc1
    by (rule "15.IH"(1) [OF that]) (use k(4) "15.prems"(5) in simp_all)
  have rest: "encode_walk al pack (Encode_pairs (hd_or cs 0)) enc2 = encode_pairs al kvs enc2"
    if "vlMsgPackIOEncodeStringLen al enc (Some k) (length k) = Some enc1" "encode_mp al v enc1 = Some enc2" for enc1 enc2
    by (rule "15.IH"(2) [OF that 15(3,4), of "xs @ [c]" cs]) (use k(1,5) "15.prems"(3,5) in simp_all)
  show ?case
  proof (cases "vlMsgPackIOEncodeStringLen al enc (Some k) (length k)")
    case None
    then show ?thesis using ne sk len k(1) by (subst encode_walk.simps) (simp add: hd_or_def u32_of_id)
  next
    case (Some enc1)
    then show ?thesis using ne sk len y(3) step [OF Some] rest [OF Some] k(1)
      by (subst encode_walk.simps) (cases "encode_mp al v enc1"; simp add: hd_or_def u32_of_id)
  qed
qed

text \<open>
  C8. Encoding an element of a document on a fresh encoder returns, whatever is below the element, and
  leaves exactly the bytes of the value it represents: the children of maps and arrays in the order of
  their links, each container closed, no error. Arrays are not empty.
\<close>

theorem dom_encode:
  assumes "doc_ok cs pack D k j" and "doc_tree D p v" and "mp_ok v"
    and "enc_fits al (VL_DEFAULT_MEMORY_SIZE + mp_room v) (mp_depth v)"
  shows "\<exists>enc enc'. vlMsgPackIOEncoderInit al = Some enc \<and> vlMsgPackIOEncodeFromDOM al enc pack p = Some enc' \<and>
    buf_offset (enc_buffer enc') = length (mp_bytes v) \<and>
    mem_read (buf_data (enc_buffer enc')) 0 (length (mp_bytes v)) = Some (mp_bytes v) \<and>
    vlStackEmpty (enc_stateStack enc') \<and> enc_error enc' = VL_MSGPACK_IO_ERR_NONE"
proof -
  obtain enc where enc: "vlMsgPackIOEncoderInit al = Some enc" "enc_rep enc [] []" "enc_error enc = VL_MSGPACK_IO_ERR_NONE"
    by (rule encoder_init_ok [OF assms(4)])
  have "enc_fits al (length [] + mp_room v) (length [] + mp_depth v)" by (rule enc_fits_mono [OF assms(4)]) simp_all
  from encodesD [OF encodes_ok [OF assms(3)] enc(2) this] obtain enc' where e: "encode_mp al v enc = Some enc'"
    "enc_rep enc' (mp_bytes v) []" "same_error enc enc'"
    by (auto simp: enc_does_def)
  then have b: "buf_rep (enc_buffer enc') (mp_bytes v)" "stack_frames (enc_stateStack enc') []" by (simp_all add: enc_rep_def)
  have "vlMsgPackIOEncodeFromDOM al enc pack p = Some enc'"
    using encode_walk_ok(1) [OF assms(1-3)] e(1) by (simp add: vlMsgPackIOEncodeFromDOM_def)
  then show ?thesis
    using enc e(3) buf_rep_read [OF b(1), of 0 "length (mp_bytes v)"] b(1) stack_frames_empty [OF b(2)]
    by (auto simp: buf_rep_def same_error_def)
qed

section \<open>A new document\<close>

lemma elem_store_sizes:
  assumes "elem_store pack p off n v = Some pack'"
  shows "mp_values pack' = mp_values pack" "table_size (mp_nodes pack') = table_size (mp_nodes pack)"
    "vlArenaTotalCapacity (ht_data (mp_nodes pack')) = vlArenaTotalCapacity (ht_data (mp_nodes pack))"
  using assms
  by (auto simp: elem_store_def vlArenaMemStore_def mem_write_def vlArenaTotalCapacity_def vlMemSize_def table_size_def
      bind_eq_Some_conv split: option.splits)

lemma init_map_sizes:
  assumes "init_terminal al pack it VL_MSGPACK_MAP ext parent dataPtr dataLen = Some pack'"
  shows "mp_values pack' = mp_values pack" "table_size (mp_nodes pack') = table_size (mp_nodes pack)"
    "vlArenaTotalCapacity (ht_data (mp_nodes pack')) = vlArenaTotalCapacity (ht_data (mp_nodes pack))"
  using assms by (auto simp: init_terminal_def init_fields_def bind_eq_Some_conv elem_store_sizes)

lemma doc_init:
  assumes al: "alloc_upto al limit" and limit: "2 ^ 20 \<le> limit" "limit < 2 ^ 32"
  obtains pack m V where "vlMsgPackInit cs al = Some pack" "doc_parts cs pack m V 7 7"
    "doc_rel cs m V [mp_root pack \<mapsto> new_elem ROOT_STRING 0 VL_MSGPACK_MAP VL_MSGPACK_EXT_NONE []]"
    "\<And>n d. n < 500 \<Longrightarrow> d < 500 \<Longrightarrow> doc_room al limit pack n d"
    "keys_of m = {nat_bytes 8 (unat (vlHashCombine 0x00000100000001b3 0xcbf29ce484222325)) @ ROOT_STRING}"
proof -
  let ?hf = "msgpack_hash cs" and ?H = "unat (vlHashCombine 0x00000100000001b3 0xcbf29ce484222325)"
  let ?q = "nat_bytes 8 ?H @ ROOT_STRING" and ?e = "new_elem ROOT_STRING 0 VL_MSGPACK_MAP VL_MSGPACK_EXT_NONE []"
  obtain t where t: "vlHashTableInit al ?hf = Some t" "\<And>k. k \<le> 8 \<Longrightarrow> ht_map ?hf t Map.empty k" "table_size t = 16"
    "vlArenaTotalCapacity (ht_data t) = 128"
    by (rule ht_init [OF al limit(1)]) blast
  obtain a where a: "vlArenaInit al 1024 = Some a" "\<And>k. k \<le> 8 \<Longrightarrow> arena_holds a Map.empty k" "vlArenaTotalCapacity a = 1024"
    by (rule arena_holds_init [OF al limit(1), of 1024]) (use limit in \<open>simp_all add: MEMORY_HEADER_SIZE_def\<close>)
  let ?p0 = "\<lparr>mp_nodes = t, mp_values = a, mp_root = VL_MSGPACK_ITER_INVALID\<rparr>"
  have h0: "ht_map ?hf t Map.empty (Suc 7)" by (rule t(2)) simp
  obtain N T where NT: "ht_hashFunc t = ?hf" "ht_rep t N T (Suc 7)" "Map.empty = (\<lambda>it. map_option snd (N it))" "table_size t = T"
    "dom Map.empty = dom N"
    by (rule ht_mapE [OF h0]) blast
  have N: "N = Map.empty" "T = 16" using NT(4,5) t(3) by auto
  have klen: "length ROOT_STRING = 5" "None \<notin> set ROOT_STRING" by (simp_all add: ROOT_STRING_def)
  have k: "ht_key_ok ?hf ?q" by (rule msgpack_key) (simp_all add: klen)
  then obtain h where h: "hf_call (ht_hashFunc t) ?q (length ?q) = Some h" using NT(1) by (auto simp: ht_key_ok_def)
  have q: "None \<notin> set ?q" "length ?q < 2 ^ 16" "?q \<notin> nkey N ` dom N" "ELEMENT_SIZE < 2 ^ 16"
    using k N(1) by (simp_all add: ht_key_ok_def ELEMENT_SIZE_def)
  have fit: "ht_fits limit t T (length ?q + ELEMENT_SIZE)" using t(4) N(2) limit
    by (simp add: ht_fits_def arena_fits_def HASHTABLE_HEADER_SIZE_def BLOCK_HEADER_SIZE_def MEMORY_HEADER_SIZE_def klen ELEMENT_SIZE_def)
  obtain it t1 xs where t1: "vlHashTableInsert al t ?q (length ?q) ELEMENT_SIZE = Some (it, t1)" "length xs = ELEMENT_SIZE"
    "ht_rep t1 (N(it \<mapsto> (unat h, ?q, xs))) (VL_HashSpec.room (card (dom N)) T) 7" "ht_hashFunc t1 = ht_hashFunc t"
    "vlArenaTotalCapacity (ht_data t1) \<le> 2 * (HASHTABLE_HEADER_SIZE + length ?q + ELEMENT_SIZE + BLOCK_HEADER_SIZE + vlArenaTotalCapacity (ht_data t))"
    by (rule ht_insert_new [OF NT(2) h q al fit]) blast
  have T1: "VL_HashSpec.room (card (dom N)) T = 16" using N by (simp add: VL_HashSpec.room_def)
  then have size1: "table_size t1 = 16" using t1(3) ht_partsD(3) table_size_ok unfolding ht_rep_def by metis
  let ?m = "[it \<mapsto> (?q, xs)] :: elems" and ?p1 = "?p0\<lparr>mp_nodes := t1\<rparr>"
  have m1: "ht_map ?hf t1 ?m 7" using ht_mapI [OF t1(3)] t1(4) NT(1) unfolding map_snd_upd N(1) by simp
  have parts: "doc_parts cs ?p1 ?m Map.empty 7 (Suc 7)" using m1 t1(2) a(2) [of "Suc 7"] by (simp add: doc_parts_def elems_ok_def)
  have side: "it \<in> dom ?m" "VL_MSGPACK_MAP \<noteq> VL_MSGPACK_ARRAY" "(0 :: nat) < 256 ^ 8" by simp_all
  have val: "has_value VL_MSGPACK_MAP \<Longrightarrow> ([] :: byte list) \<noteq> [] \<and> arena_fits limit (mp_values ?p1) (length ([] :: byte list))"
    by (simp add: has_value_def)
  obtain p2 m2 V where i: "init_terminal al ?p1 it VL_MSGPACK_MAP VL_MSGPACK_EXT_NONE 0 (Some []) (length ([] :: byte list)) = Some p2"
    "doc_parts cs p2 m2 V 7 7" "dom m2 = dom ?m" "\<And>p. elem_key m2 p = elem_key ?m p" "elem_is m2 V it ?e"
    by (rule init_terminal_ok [OF parts side al val, where ext = VL_MSGPACK_EXT_NONE and key = ROOT_STRING]) blast+
  note sz = init_map_sizes [OF i(1)]
  let ?pack = "p2\<lparr>mp_root := it\<rparr>"
  have parent: "parent_hash ?p0 VL_HASHTABLE_ITER_INVALID = Some ?H"
    by (simp add: parent_hash_def VL_MSGPACK_ITER_INVALID_def)
  have start: "vl_MsgPackKeyBegin al ?p0 ?H ROOT_STRING (length ROOT_STRING) VL_MSGPACK_MAX_STACK_KEY_SIZE =
      Some (\<lparr>kb_keyData = ?q, kb_keySize = length ?q, kb_arenaAlloc = VL_ARENA_NULL\<rparr>, ?p0)"
    using key_begin_short [of ROOT_STRING al ?p0 ?H] by (simp add: klen VL_MSGPACK_MAX_STACK_KEY_SIZE_def)
  have find: "vlHashTableFind t ?q (length ?q) = Some VL_MSGPACK_ITER_INVALID"
    using ht.find_miss [OF h0 k] by (simp add: ht_find_key_def keys_of_iff VL_MSGPACK_ITER_INVALID_def VL_HASHTABLE_ITER_INVALID_def)
  have "vl_MsgPackInitNode al ?p1 it VL_MSGPACK_MAP VL_MSGPACK_EXT_NONE VL_HASHTABLE_ITER_INVALID None 0 = Some p2"
    using init_node_value [of VL_MSGPACK_MAP None 0 "[]" al ?p1 it VL_MSGPACK_EXT_NONE 0] i(1)
    by (simp add: value_arg_def has_value_def VL_HASHTABLE_ITER_INVALID_def)
  then have "insert_root al ?p0 = Some ?pack"
    using parent start find t1(1)
    by (simp add: insert_root_def vlMsgPackInsert_def vlMsgPackInsertExt_def insert_with_def vl_MsgPackKeyEnd_def VL_MSGPACK_ITER_INVALID_def)
  then have "vlMsgPackInit cs al = Some ?pack" using t(1) a(1) by (simp add: vlMsgPackInit_def)
  moreover have "doc_parts cs ?pack m2 V 7 7" using i(2) by (simp add: doc_parts_def)
  moreover have "doc_rel cs m2 V [mp_root ?pack \<mapsto> ?e]"
    using i(3,5) by (simp add: doc_rel_def kids_ok_def siblings_def new_elem_def)
  moreover have "doc_room al limit ?pack n d" if "n < 500" "d < 500" for n d
    using that sz size1 t1(5) t(4) a(3) limit al
    by (simp add: doc_room_def ht_fits_def arena_fits_def HASHTABLE_HEADER_SIZE_def BLOCK_HEADER_SIZE_def MEMORY_HEADER_SIZE_def
        klen ELEMENT_SIZE_def)
  moreover have "keys_of m2 = {?q}" using i(3,4) by (simp add: keys_of_elems elem_key_def)
  ultimately show thesis by (rule that)
qed

text \<open>A new document, and a child of its root.\<close>

abbreviation root_elem :: doc_elem where
  "root_elem \<equiv> new_elem ROOT_STRING 0 VL_MSGPACK_MAP VL_MSGPACK_EXT_NONE []"

lemma sample_doc:
  obtains pack m V where "vlMsgPackInit False some_allocator = Some pack" "doc_parts False pack m V 7 7"
    "doc_rel False m V [mp_root pack \<mapsto> root_elem]" "doc_room some_allocator (2 ^ 20) pack 1 1"
    "child_key False m (mp_root pack) [Some 97] \<notin> keys_of m"
    "vlMsgPackFindChild some_allocator pack (mp_root pack) [Some 97] 1 = Some (VL_MSGPACK_ITER_INVALID, pack)"
proof -
  obtain pack m V where i: "vlMsgPackInit False some_allocator = Some pack" "doc_parts False pack m V 7 7"
    "doc_rel False m V [mp_root pack \<mapsto> root_elem]" "\<And>n d. n < 500 \<Longrightarrow> d < 500 \<Longrightarrow> doc_room some_allocator (2 ^ 20) pack n d"
    "keys_of m = {nat_bytes 8 (unat (vlHashCombine 0x00000100000001b3 0xcbf29ce484222325)) @ ROOT_STRING}"
    by (rule doc_init [where cs = False, OF some_allocator_upto]) (simp, simp, blast)
  let ?r = "mp_root pack"
  have r: "?r \<in> dom m" using doc_relD(1) [OF i(3)] by auto
  have new: "child_key False m ?r [Some 97] \<notin> keys_of m"
  proof
    assume "child_key False m ?r [Some 97] \<in> keys_of m"
    then have "length (child_key False m ?r [Some 97]) = 8 + length ROOT_STRING" unfolding i(5) by auto
    then show False by (simp add: ROOT_STRING_def)
  qed
  have k: "ht_key_ok (msgpack_hash False) (child_key False m ?r [Some 97])"
    unfolding child_key_def by (rule msgpack_key) simp_all
  have "vlMsgPackFindChild some_allocator pack ?r [Some 97] (length [Some (97 :: u8)]) = Some (VL_MSGPACK_ITER_INVALID, pack)"
    using find_child_parts [OF i(2) r, of "[Some 97]" some_allocator] ht.find_miss [OF doc_partsD(1) [OF i(2)] k new]
    by (simp add: VL_MSGPACK_MAX_STACK_KEY_SIZE_def VL_MSGPACK_ITER_INVALID_def VL_HASHTABLE_ITER_INVALID_def)
  then show thesis using that [OF i(1-3) i(4) new] by simp
qed

theorem dom_insert_child_witness:
  "\<exists>pack it pack'. vlMsgPackInit False some_allocator = Some pack \<and>
    vlMsgPackInsertExt some_allocator pack VL_MSGPACK_BOOL VL_MSGPACK_EXT_NONE (mp_root pack) [Some 97] 1 (Some [Some 1]) 1 = Some (it, pack') \<and>
    vlMsgPackFindChild some_allocator pack' (mp_root pack) [Some 97] 1 = Some (it, pack') \<and>
    vlMsgPackSampleValue pack' it = Some (Some [Some 1])"
proof -
  obtain pack m V where i: "vlMsgPackInit False some_allocator = Some pack" "doc_parts False pack m V 7 7"
    "doc_rel False m V [mp_root pack \<mapsto> root_elem]" "doc_room some_allocator (2 ^ 20) pack 1 1"
    "vlMsgPackFindChild some_allocator pack (mp_root pack) [Some 97] 1 = Some (VL_MSGPACK_ITER_INVALID, pack)"
    by (rule sample_doc)
  have doc: "doc_ok False pack [mp_root pack \<mapsto> root_elem] (Suc 6) (Suc 6)" using i(2,3) by (auto simp: doc_ok_def)
  have val: "value_arg VL_MSGPACK_BOOL (Some [Some 1]) 1 [Some 1]" by (simp add: value_arg_def)
  show ?thesis
    using dom_insert_child [OF doc, of "mp_root pack" root_elem VL_MSGPACK_BOOL VL_MSGPACK_EXT_NONE "[Some 97]" some_allocator
        "Some [Some 1]" 1 "[Some 1]" "2 ^ 20"] i(1,4,5) val
    by (auto simp: new_elem_def has_value_def VL_MSGPACK_MAX_STACK_KEY_SIZE_def)
qed

theorem dom_encode_witness:
  "\<exists>pack it pack' enc enc'. vlMsgPackInit False some_allocator = Some pack \<and>
    vlMsgPackInsertExt some_allocator pack VL_MSGPACK_BOOL VL_MSGPACK_EXT_NONE (mp_root pack) [Some 97] 1 (Some [Some 1]) 1 = Some (it, pack') \<and>
    vlMsgPackIOEncoderInit some_allocator = Some enc \<and> vlMsgPackIOEncodeFromDOM some_allocator enc pack' (mp_root pack) = Some enc' \<and>
    mem_read (buf_data (enc_buffer enc')) 0 4 = Some (map Some [0x81, 0xA1, 97, 0xC3])"
proof -
  obtain pack m V where i: "vlMsgPackInit False some_allocator = Some pack" "doc_parts False pack m V 7 7"
    "doc_rel False m V [mp_root pack \<mapsto> root_elem]" "doc_room some_allocator (2 ^ 20) pack 1 1"
    "child_key False m (mp_root pack) [Some 97] \<notin> keys_of m"
    by (rule sample_doc)
  let ?r = "mp_root pack" and ?v = "MMap [([Some 97], MBool True)]"
  have parts: "doc_parts False pack m V (Suc 6) (Suc 6)" using i(2) by simp
  obtain it pack' m' V' where n: "vlMsgPackInsertExt some_allocator pack VL_MSGPACK_BOOL VL_MSGPACK_EXT_NONE ?r [Some 97] (length [Some (97 :: u8)])
      (Some [Some 1]) 1 = Some (it, pack')" "it \<notin> dom m" "doc_parts False pack' m' V' 6 6"
    "doc_rel False m' V' ([?r \<mapsto> root_elem](?r \<mapsto> root_elem\<lparr>de_kids := de_kids root_elem @ [it]\<rparr>,
       it \<mapsto> new_elem [Some 97] ?r VL_MSGPACK_BOOL VL_MSGPACK_EXT_NONE [Some 1]))"
    by (rule insert_child_parts [OF parts i(3), of ?r root_elem VL_MSGPACK_BOOL VL_MSGPACK_EXT_NONE "[Some 97]" "Some [Some 1]" 1 "[Some 1]"])
      (use i(4,5) in \<open>simp_all add: new_elem_def value_arg_def VL_MSGPACK_MAX_STACK_KEY_SIZE_def\<close>)
  let ?D = "[?r \<mapsto> root_elem](?r \<mapsto> root_elem\<lparr>de_kids := de_kids root_elem @ [it]\<rparr>,
       it \<mapsto> new_elem [Some 97] ?r VL_MSGPACK_BOOL VL_MSGPACK_EXT_NONE [Some 1])"
  have "it \<noteq> ?r" using n(2) doc_relD(1) [OF i(3)] by auto
  then have tree: "doc_tree ?D ?r ?v" by (simp add: new_elem_def terminal_is_def has_value_def)
  have doc: "doc_ok False pack' ?D 6 6" using n(3,4) unfolding doc_ok_def by blast
  have ok: "mp_ok ?v" by simp
  have fit: "enc_fits some_allocator (VL_DEFAULT_MEMORY_SIZE + mp_room ?v) (mp_depth ?v)"
    unfolding enc_fits_def using some_allocator_upto
    by (auto simp: VL_DEFAULT_MEMORY_SIZE_def str_head_def intro!: exI [of _ "2 ^ 20"])
  have b: "mp_bytes ?v = map Some [0x81, 0xA1, 97, 0xC3]" by (simp add: str_head_def container_head_def)
  from dom_encode [OF doc tree ok fit] show ?thesis unfolding b using i(1) n(1) by (auto simp: eval_nat_numeral)
qed

end
