(* ===== verification/VL_MsgPackRemove.thy ===== *)
theory VL_MsgPackRemove
  imports VL_MsgPackDoc
begin

text \<open>
  What \<^verbatim>\<open>vlMsgPackRemove\<close> of \<^verbatim>\<open>vl_msgpack.c\<close> does: the list of children without the removed one, the element
  that stays in the hash table, and the value that is freed twice.
\<close>

section \<open>The list of children\<close>

lemma unlinked_siblings:
  assumes sib: "siblings m (xs @ c # ys)" and ok: "elems_ok m" and dom: "set (xs @ ys) \<subseteq> dom m" and dist: "distinct (xs @ c # ys)"
    and b: "hd_or ys 0 < 256 ^ 8" "last_or xs 0 < 256 ^ 8"
    and m1: "m1 = (if xs \<noteq> [] then upd m (last xs) 16 8 (hd_or ys 0) else m)"
    and m2: "m2 = (if ys \<noteq> [] then upd m1 (hd ys) 24 8 (last_or xs 0) else m1)"
  shows "siblings m2 (xs @ ys)"
  unfolding siblings_def
proof (intro allI impI)
  note eval = fld_same fld_other ELEMENT_SIZE_def
  have ok1: "elems_ok m1" "dom m1 = dom m" using ok by (simp_all add: m1 ELEMENT_SIZE_def)
  fix us d vs assume e: "xs @ ys = us @ d # vs"
  then have "d \<in> set (xs @ ys)" by simp
  then have d: "d \<in> dom m" "d \<in> dom m1" using dom ok1(2) by auto
  consider (left) ws where "xs = us @ d # ws" "vs = ws @ ys" | (right) ws where "us = xs @ ws" "ys = ws @ d # vs"
    using e by (auto simp: append_eq_append_conv2 Cons_eq_append_conv append_eq_Cons_conv)
  then show "fld m2 d 16 8 = Some (hd_or vs 0) \<and> fld m2 d 24 8 = Some (last_or us 0)"
  proof cases
    case left
    have "hd ys \<in> set ys" if "ys \<noteq> []" using that by simp
    then have "d \<noteq> hd ys" if "ys \<noteq> []" using dist left(1) that by auto
    then have two: "fld m2 d = fld m1 d" by (simp add: m2)
    have old: "fld m d 16 8 = Some (hd_or (ws @ c # ys) 0)" "fld m d 24 8 = Some (last_or us 0)"
      using sib left(1) by (simp_all add: siblings_def)
    show ?thesis
    proof (cases "ws = []")
      case True
      then have "last xs = d" "xs \<noteq> []" using left(1) by simp_all
      then have "fld m1 d 16 8 = Some (hd_or ys 0)" "fld m1 d 24 8 = fld m d 24 8"
        using ok d(1) b(1) by (simp_all add: m1 eval)
      then show ?thesis using two old(2) True left(2) by simp
    next
      case False
      then have "last xs \<in> set ws" "d \<notin> set ws" using left(1) dist by auto
      then have "d \<noteq> last xs" by blast
      then have "fld m1 d = fld m d" by (simp add: m1)
      then show ?thesis using two old False left(2) by (cases ws) simp_all
    qed
  next
    case right
    have "last xs \<in> set xs" if "xs \<noteq> []" using that by simp
    then have "d \<noteq> last xs" if "xs \<noteq> []" using dist right(2) that by auto
    then have one: "fld m1 d = fld m d" by (simp add: m1)
    have old: "fld m d 16 8 = Some (hd_or vs 0)" "fld m d 24 8 = Some (last_or (xs @ c # ws) 0)"
      using sib [unfolded siblings_def, rule_format, of "xs @ c # ws" d vs] right(2) by simp_all
    show ?thesis
    proof (cases "ws = []")
      case True
      then have "hd ys = d" "ys \<noteq> []" using right(2) by simp_all
      then have "fld m2 d 24 8 = Some (last_or xs 0)" "fld m2 d 16 8 = fld m1 d 16 8"
        using ok1(1) d(2) b(2) by (simp_all add: m2 eval)
      then show ?thesis using one old(1) True right(1) by simp
    next
      case False
      then have "hd ys \<in> set ws" "d \<notin> set ws" using right(2) dist by auto
      then have "d \<noteq> hd ys" by blast
      then have "fld m2 d = fld m1 d" by (simp add: m2)
      then show ?thesis using one old False right(1) by (simp add: last_or_def)
    qed
  qed
qed

text \<open>The fields of the parent after the count and the ends of its list are written.\<close>

lemma unlinked_parent_fields:
  assumes ok: "elems_ok m" and dom: "parent \<in> dom m" and elem: "elem_is m V parent e" and ty: "de_type e = VL_MSGPACK_MAP"
    and ke: "de_kids e = xs @ c # ys" and b: "last_or xs 0 < 256 ^ 8" "hd_or ys 0 < 256 ^ 8"
    and m0: "m0 = upd m parent 56 4 (u32_of (length (xs @ ys)))"
    and mA: "mA = (if xs = [] then upd m0 parent 40 8 (hd_or ys 0) else m0)"
    and mB: "mB = (if ys = [] then upd mA parent 48 8 (last_or xs 0) else mA)"
  shows "elem_is mB V parent (e\<lparr>de_kids := xs @ ys\<rparr>)" and "i + l \<le> 40 \<Longrightarrow> fld mB parent i l = fld m parent i l"
proof -
  note eval = fld_same fld_other ELEMENT_SIZE_def
  have ok0: "elems_ok m0" "dom m0 = dom m" and okA: "elems_ok mA" "dom mA = dom m"
    using ok by (simp_all add: m0 mA ELEMENT_SIZE_def)
  have tb: "u32_of (length (xs @ ys)) < 256 ^ 4" by (simp add: u32_of_def)
  have low: "fld mB parent i l = fld m parent i l" if "i + l \<le> 40" for i l
    using that ok ok0(1) okA(1) by (simp add: mB mA m0 eval)
  then show "i + l \<le> 40 \<Longrightarrow> fld mB parent i l = fld m parent i l" .
  have old: "fld m0 parent 40 8 = Some (hd_or (xs @ c # ys) 0)" "fld m0 parent 48 8 = Some (last_or (xs @ c # ys) 0)"
    using elem ty ke ok by (simp_all add: elem_is_def m0 eval)
  have "fld mB parent 40 8 = fld mA parent 40 8" using okA(1) by (simp add: mB eval)
  also have "\<dots> = Some (hd_or (xs @ ys) 0)" using old(1) ok0 dom b(2) by (cases xs) (simp_all add: mA eval)
  finally have f40: "fld mB parent 40 8 = Some (hd_or (xs @ ys) 0)" .
  have f48: "fld mB parent 48 8 = Some (last_or (xs @ ys) 0)"
  proof (cases "ys = []")
    case True
    then show ?thesis using fld_same [OF okA(1) _ _ b(1), of parent 48] dom okA(2) by (simp add: mB ELEMENT_SIZE_def)
  next
    case False
    then have "fld mB parent 48 8 = fld m0 parent 48 8" using ok0(1) by (simp add: mB mA eval)
    then show ?thesis using old(2) False by (simp add: last_or_def)
  qed
  have "fld mB parent 56 4 = Some (u32_of (length (xs @ ys)))"
    using ok ok0(1) okA(1) dom fld_same [OF ok dom _ tb, of 56] by (simp add: mB mA m0 eval)
  then show "elem_is mB V parent (e\<lparr>de_kids := xs @ ys\<rparr>)"
    using elem ty low f40 f48 by (simp add: elem_is_def has_value_def)
qed

text \<open>The run of the function through these states.\<close>

lemma unlink_run:
  assumes parts: "doc_parts cs pack m V k j" and dom: "parent \<in> dom m" "set (xs @ c # ys) \<subseteq> dom m"
    and elem: "elem_is m V parent e" and ty: "de_type e = VL_MSGPACK_MAP" and ke: "de_kids e = xs @ c # ys"
    and kids: "siblings m (xs @ c # ys)" "distinct (xs @ c # ys)" "parent \<notin> set (xs @ c # ys)" and few: "length (xs @ ys) < 2 ^ 32"
    and m0: "m0 = upd m parent 56 4 (u32_of (length (xs @ ys)))"
    and mA: "mA = (if xs = [] then upd m0 parent 40 8 (hd_or ys 0) else m0)"
    and mB: "mB = (if ys = [] then upd mA parent 48 8 (last_or xs 0) else mA)"
    and mC: "mC = (if last_or xs 0 \<noteq> 0 then upd mB (last_or xs 0) 16 8 (hd_or ys 0) else mB)"
    and mD: "mD = (if hd_or ys 0 \<noteq> 0 then upd mC (hd_or ys 0) 24 8 (last_or xs 0) else mC)"
  shows "\<exists>pack'. unlink_child pack parent c = Some pack' \<and> doc_parts cs pack' mD V k j"
proof -
  note ok = doc_partsD(3) [OF parts]
  have s: "24 + 8 \<le> ELEMENT_SIZE" "16 + 8 \<le> ELEMENT_SIZE" "56 + 4 \<le> ELEMENT_SIZE" "48 + 8 \<le> ELEMENT_SIZE" "40 + 8 \<le> ELEMENT_SIZE"
    by (simp_all add: ELEMENT_SIZE_def)
  let ?l = "last_or xs 0" and ?r = "hd_or ys 0" and ?t = "u32_of (length (xs @ ys))"
  have total: "elem_totalChildren pack parent = Some (u32_of (Suc (length (xs @ ys))))"
    using read_fields(6) [OF parts elem dom(1) ty] ke by simp
  have dec: "dec32 (u32_of (Suc (length (xs @ ys)))) = ?t" by (rule dec32_mod)
  obtain p0 where p0: "elem_store pack parent 56 4 ?t = Some p0" "doc_parts cs p0 m0 V k j"
    unfolding m0 by (rule elem_store_ok [OF parts dom(1) s(3)])
  have d: "parent \<in> dom m0" "parent \<in> dom mA" "c \<in> dom m0" "dom mB = dom m" "dom mC = dom m" using dom by (auto simp: m0 mA mB mC)
  obtain pA where pA: "(if xs = [] then elem_store p0 parent 40 8 ?r else Some p0) = Some pA" "doc_parts cs pA mA V k j"
    unfolding mA by (rule cond_store_ok [OF p0(2) d(1) s(5)])
  obtain pB where pB: "(if ys = [] then elem_store pA parent 48 8 ?l else Some pA) = Some pB" "doc_parts cs pB mB V k j"
    unfolding mB by (rule cond_store_ok [OF pA(2) d(2) s(4)])
  have near: "?l \<noteq> 0 \<Longrightarrow> ?l \<in> dom mB" "?r \<noteq> 0 \<Longrightarrow> ?r \<in> dom mC"
    using ends_in(1) [of xs 0] ends_in(2) [of ys 0] dom(2) d(4,5) by auto
  obtain pC where pC: "(if ?l \<noteq> 0 then elem_store pB ?l 16 8 ?r else Some pB) = Some pC" "doc_parts cs pC mC V k j"
    unfolding mC by (rule cond_store_ok [OF pB(2) near(1) s(2)])
  obtain pD where pD: "(if ?r \<noteq> 0 then elem_store pC ?r 24 8 ?l else Some pC) = Some pD" "doc_parts cs pD mD V k j"
    unfolding mD by (rule cond_store_ok [OF pC(2) near(2) s(1)])
  show ?thesis
  proof (cases "xs @ ys = []")
    case True
    then have "u32_of (length (xs @ ys)) = 0" by (simp add: u32_of_def)
    then show ?thesis using total dec True p0(1) pA(1) pB(1) pC(1) pD
      by (simp add: unlink_child_def VL_MSGPACK_ITER_INVALID_def VL_HASHTABLE_ITER_INVALID_def)
  next
    case False
    have "c \<noteq> parent" using kids(3) by auto
    then have "fld m0 c = fld m c" by (simp add: m0)
    then have sib: "elem_prevSibling p0 c = Some ?l" "elem_nextSibling p0 c = Some ?r"
      using elem_load_ok [OF p0(2) d(3) s(1)] elem_load_ok [OF p0(2) d(3) s(2)] kids(1)
      by (simp_all add: elem_prevSibling_def elem_nextSibling_def siblings_def)
    have ok0: "elems_ok m0" using ok s(3) by (simp add: m0)
    have same: "fld m0 parent 40 8 = fld m parent 40 8" "fld mA parent 48 8 = fld m parent 48 8"
      using ok ok0 by (simp_all add: mA m0 fld_other ELEMENT_SIZE_def)
    have first: "elem_firstChild p0 parent = Some (hd_or (xs @ [c]) 0)"
      using elem_load_ok [OF p0(2) d(1) s(5)] elem ty ke same(1) by (cases xs) (simp_all add: elem_firstChild_def elem_is_def)
    have final: "elem_lastChild pA parent = Some (last_or (c # ys) 0)"
      using elem_load_ok [OF pA(2) d(2) s(4)] elem ty ke same(2) by (simp add: elem_lastChild_def elem_is_def last_or_def)
    have at: "hd_or (xs @ [c]) 0 = c \<longleftrightarrow> xs = []" "last_or (c # ys) 0 = c \<longleftrightarrow> ys = []"
      using kids(2) last_in_set [of ys] by (cases xs; auto simp: last_or_def)+
    have "?t \<noteq> 0" using few False by (simp add: u32_of_id)
    then show ?thesis using total dec p0(1) sib first final at pA(1) pB(1) pC(1) pD
      by (simp add: unlink_child_def VL_MSGPACK_ITER_INVALID_def VL_HASHTABLE_ITER_INVALID_def)
  qed
qed

text \<open>Fields that none of the stores touches.\<close>

lemma unlinked_frame:
  assumes ok: "elems_ok m" and ends: "xs \<noteq> [] \<Longrightarrow> last xs \<in> S" "ys \<noteq> [] \<Longrightarrow> hd ys \<in> S"
    and m1: "m1 = (if xs \<noteq> [] then upd m (last xs) 16 8 v else m)" and m2: "m2 = (if ys \<noteq> [] then upd m1 (hd ys) 24 8 w else m1)"
    and i: "p \<notin> S \<or> i + l \<le> 16 \<or> 32 \<le> i"
  shows "fld m2 p i l = fld m p i l"
proof (cases "p \<in> S")
  case True
  have "elems_ok m1" using ok by (simp add: m1 ELEMENT_SIZE_def)
  then show ?thesis using True i ok by (auto simp: m2 m1 fld_other ELEMENT_SIZE_def)
next
  case False
  then have "xs \<noteq> [] \<Longrightarrow> p \<noteq> last xs" "ys \<noteq> [] \<Longrightarrow> p \<noteq> hd ys" using ends by auto
  then show ?thesis by (simp add: m2 m1)
qed

lemma unlink_child_ok:
  assumes parts: "doc_parts cs pack m V k j" and dom: "parent \<in> dom m" "set (xs @ c # ys) \<subseteq> dom m"
    and elem: "elem_is m V parent e" and ty: "de_type e = VL_MSGPACK_MAP" and ke: "de_kids e = xs @ c # ys"
    and kids: "siblings m (xs @ c # ys)" "distinct (xs @ c # ys)" "parent \<notin> set (xs @ c # ys)" and few: "length (xs @ ys) < 2 ^ 32"
  obtains pack' m' where "unlink_child pack parent c = Some pack'" "doc_parts cs pack' m' V k j" "dom m' = dom m"
    "\<And>p. elem_key m' p = elem_key m p" "siblings m' (xs @ ys)" "elem_is m' V parent (e\<lparr>de_kids := xs @ ys\<rparr>)"
    "\<And>p i l. p \<notin> set (xs @ ys) \<or> i + l \<le> 16 \<or> 32 \<le> i \<Longrightarrow> p \<noteq> parent \<or> i + l \<le> 40 \<Longrightarrow> fld m' p i l = fld m p i l"
proof -
  let ?l = "last_or xs 0" and ?r = "hd_or ys 0"
  note ok = doc_partsD(3) [OF parts]
  have z: "0 \<notin> set xs" "0 \<notin> set ys" using dom(2) doc_bounds(3) [OF parts] by auto
  have "?l \<in> insert 0 (dom m)" "?r \<in> insert 0 (dom m)" using ends_in(1) [of xs 0] ends_in(2) [of ys 0] dom(2) by auto
  then have b: "?l < 256 ^ 8" "?r < 256 ^ 8" using doc_bounds(2) [OF parts] by fastforce+
  define m0 where "m0 = upd m parent 56 4 (u32_of (length (xs @ ys)))"
  define mA where "mA = (if xs = [] then upd m0 parent 40 8 ?r else m0)"
  define mB where "mB = (if ys = [] then upd mA parent 48 8 ?l else mA)"
  define mC where "mC = (if ?l \<noteq> 0 then upd mB ?l 16 8 ?r else mB)"
  define mD where "mD = (if ?r \<noteq> 0 then upd mC ?r 24 8 ?l else mC)"
  have okB: "elems_ok mB" "dom mB = dom m" using ok by (simp_all add: mB_def mA_def m0_def ELEMENT_SIZE_def)
  have mC: "mC = (if xs \<noteq> [] then upd mB (last xs) 16 8 ?r else mB)" using ends_zero(1) [OF z(1)] by (simp add: mC_def last_or_def)
  have mD: "mD = (if ys \<noteq> [] then upd mC (hd ys) 24 8 ?l else mC)"
    using ends_zero(2) [OF z(2)] by (cases ys) (simp_all add: mD_def)
  have others: "fld mB p = fld m p" if "p \<noteq> parent" for p using that by (simp add: mB_def mA_def m0_def)
  note par = unlinked_parent_fields [OF ok dom(1) elem ty ke b m0_def mA_def mB_def]
  have frameB: "fld mD p i l = fld mB p i l" if "p \<notin> set (xs @ ys) \<or> i + l \<le> 16 \<or> 32 \<le> i" for p i l
    by (rule unlinked_frame [OF okB(1) _ _ mC mD that]) simp_all
  have "fld mD parent = fld mB parent"
    using kids(3) by (intro ext frameB) auto
  then have "elem_is mD V parent (e\<lparr>de_kids := xs @ ys\<rparr>)" using par(1) by (simp add: elem_is_def)
  moreover have "siblings mD (xs @ ys)"
  proof (rule unlinked_siblings [OF _ okB(1) _ kids(2) b(2,1) mC mD])
    show "siblings mB (xs @ c # ys)"
      unfolding siblings_def
    proof (intro allI impI)
      fix us d vs assume e: "xs @ c # ys = us @ d # vs"
      then have "d \<in> set (xs @ c # ys)" by simp
      then have "d \<noteq> parent" using kids(3) by blast
      then show "fld mB d 16 8 = Some (hd_or vs 0) \<and> fld mB d 24 8 = Some (last_or us 0)"
        using others kids(1) e by (simp add: siblings_def)
    qed
    show "set (xs @ ys) \<subseteq> dom mB" using dom(2) okB(2) by auto
  qed
  moreover have "fld mD p i l = fld m p i l"
    if "p \<notin> set (xs @ ys) \<or> i + l \<le> 16 \<or> 32 \<le> i" "p \<noteq> parent \<or> i + l \<le> 40" for p i l
    using frameB [OF that(1)] par(2) [of i l] others [of p] that(2) by (cases "p = parent") simp_all
  moreover have "dom mD = dom m" "\<And>p. elem_key mD p = elem_key m p"
    by (simp_all add: mD_def mC_def mB_def mA_def m0_def)
  ultimately show thesis
    using that unlink_run [OF parts dom elem ty ke kids few m0_def mA_def mB_def mC_def mD_def] by blast
qed

section \<open>Removing\<close>

lemma doc_rel_unlink:
  assumes rel: "doc_rel cs m V D" and e: "D parent = Some e" "de_type e = VL_MSGPACK_MAP" "de_kids e = xs @ c # ys"
    and dom': "dom m' = dom m" and key: "\<And>p. elem_key m' p = elem_key m p"
    and par: "elem_is m' V parent (e\<lparr>de_kids := xs @ ys\<rparr>)" and sib: "siblings m' (xs @ ys)"
    and frame: "\<And>p i l. p \<notin> set (xs @ ys) \<or> i + l \<le> 16 \<or> 32 \<le> i \<Longrightarrow> p \<noteq> parent \<or> i + l \<le> 40 \<Longrightarrow> fld m' p i l = fld m p i l"
  shows "doc_rel cs m' V (D(parent \<mapsto> e\<lparr>de_kids := xs @ ys\<rparr>))"
proof -
  let ?D = "D(parent \<mapsto> e\<lparr>de_kids := xs @ ys\<rparr>)"
  note r = doc_relD [OF rel]
  have K: "kids_ok cs m D parent (xs @ c # ys)" using r(3) [OF e(1)] e(2,3) by simp
  have same: "\<exists>x'. ?D p = Some x' \<and> de_parent x' = de_parent x \<and> de_key x' = de_key x" if "D p = Some x" for p x
    using that e(1) by (cases "p = parent") auto
  have old: "elem_is m' V p x \<and> (de_type x \<in> {VL_MSGPACK_MAP, VL_MSGPACK_ARRAY} \<longrightarrow> kids_ok cs m' ?D p (de_kids x))"
    if p: "D p = Some x" "p \<noteq> parent" for p x
  proof (rule doc_rel_elsewhere [OF rel e(1,2) key map_le_refl _ _ p])
    show "fld m' q i l = fld m q i l"
      if "q \<in> dom m" "q \<notin> set (de_kids e) \<or> i + l \<le> 16 \<or> 32 \<le> i" "q \<noteq> parent \<or> i + l \<le> 40" for q i l
      by (rule frame) (use that e(3) in auto)
  qed (rule same)
  have "kids_ok cs m' ?D parent (xs @ ys)"
    unfolding kids_ok_def
  proof (intro conjI ballI)
    show "distinct (xs @ ys)" using kids_okD(1) [OF K] by simp
    show "siblings m' (xs @ ys)" by (rule sib)
    fix d assume d: "d \<in> set (xs @ ys)"
    then have d': "d \<in> set (xs @ c # ys)" by auto
    then show "d \<noteq> parent" using kids_okD(3) [OF K] by blast
    obtain x where "D d = Some x" "de_parent x = parent" "elem_key m d = child_key cs m parent (de_key x)"
      using kids_okD(4) [OF K d'] by blast
    then show "\<exists>x. ?D d = Some x \<and> de_parent x = parent \<and> elem_key m' d = child_key cs m' parent (de_key x)"
      using \<open>d \<noteq> parent\<close> key by (simp add: child_key_def)
  qed
  then have "elem_is m' V p x \<and> (de_type x \<in> {VL_MSGPACK_MAP, VL_MSGPACK_ARRAY} \<longrightarrow> kids_ok cs m' ?D p (de_kids x))"
    if "?D p = Some x" for p x
    using that old par by (cases "p = parent") auto
  then show ?thesis unfolding doc_rel_def using r(1) dom' e(1) by auto
qed

lemma doc_kids_few:
  assumes parts: "doc_parts cs pack m V k j" and "set kids \<subseteq> dom m" and "distinct kids"
  shows "length kids < 2 ^ 32"
proof -
  have "0 < p \<and> p < 2 ^ 32" if "p \<in> set kids" for p
    using elem_bounds [OF doc_partsD(1) [OF parts], of p] that assms(2) by blast
  then have "set kids \<subseteq> {1..<2 ^ 32}" by force
  then have "card (set kids) \<le> card {1..<2 ^ 32 :: nat}" by (intro card_mono) simp_all
  then show ?thesis using distinct_card [OF assms(3)] by simp
qed

lemma unlink_doc:
  assumes parts: "doc_parts cs pack m V k j" and rel: "doc_rel cs m V D"
    and e: "D parent = Some e" "de_type e = VL_MSGPACK_MAP" "de_kids e = xs @ c # ys"
  obtains pack' m' where "unlink_child pack parent c = Some pack'" "doc_parts cs pack' m' V k j" "dom m' = dom m"
    "\<And>p. elem_key m' p = elem_key m p" "doc_rel cs m' V (D(parent \<mapsto> e\<lparr>de_kids := xs @ ys\<rparr>))"
proof -
  note r = doc_relD [OF rel]
  have K: "kids_ok cs m D parent (xs @ c # ys)" using r(3) [OF e(1)] e(2,3) by simp
  note kd = kids_okD [OF K]
  have dom: "parent \<in> dom m" "set (xs @ c # ys) \<subseteq> dom m" using e(1) kd(4) r(1) by blast+
  have few: "length (xs @ ys) < 2 ^ 32" using doc_kids_few [OF parts dom(2) kd(1)] by simp
  obtain pack' m' where u: "unlink_child pack parent c = Some pack'" "doc_parts cs pack' m' V k j" "dom m' = dom m"
    "\<And>p. elem_key m' p = elem_key m p" "siblings m' (xs @ ys)" "elem_is m' V parent (e\<lparr>de_kids := xs @ ys\<rparr>)"
    "\<And>p i l. p \<notin> set (xs @ ys) \<or> i + l \<le> 16 \<or> 32 \<le> i \<Longrightarrow> p \<noteq> parent \<or> i + l \<le> 40 \<Longrightarrow> fld m' p i l = fld m p i l"
    by (rule unlink_child_ok [OF parts dom r(2) [OF e(1)] e(2,3) kd(2,1,3) few]) blast
  have "doc_rel cs m' V (D(parent \<mapsto> e\<lparr>de_kids := xs @ ys\<rparr>))" by (rule doc_rel_unlink [OF rel e u(3,4,6,5,7)])
  then show thesis by (rule that [OF u(1-4)])
qed

text \<open>An element without value and children has nothing to free.\<close>

lemma free_nothing:
  assumes "elem_type pack c = Some VL_MSGPACK_NIL \<or> elem_type pack c = Some VL_MSGPACK_MAP \<and> elem_firstChild pack c = Some 0"
  shows "vl_MsgPackFreeChildren pack c = Some pack"
  using assms
  by (subst vl_MsgPackFreeChildren_def, subst free_walk.simps)
    (auto simp: free_walk.simps [of "Free_map 0"] VL_MSGPACK_ITER_INVALID_def VL_HASHTABLE_ITER_INVALID_def)

text \<open>
  C9. Removing a child of a map that holds no value takes it out of the list of children: the count, the
  ends of the list and the links of its neighbours are those without it. But the element stays in the hash
  table, so that it is still found under its parent and key.
\<close>

theorem dom_remove_child:
  assumes "doc_ok cs pack D k j" and "D parent = Some e" and "de_type e = VL_MSGPACK_MAP" and "de_kids e = xs @ c # ys"
    and "D c = Some x" and "de_type x = VL_MSGPACK_NIL \<or> de_type x = VL_MSGPACK_MAP \<and> de_kids x = []"
    and "8 + length (de_key x) \<le> VL_MSGPACK_MAX_STACK_KEY_SIZE"
  shows "\<exists>pack'. vlMsgPackRemove pack c = Some pack' \<and> doc_ok cs pack' (D(parent \<mapsto> e\<lparr>de_kids := xs @ ys\<rparr>)) k j \<and>
    vlMsgPackTotalChildren pack' parent = Some (u32_of (length (xs @ ys))) \<and>
    vlMsgPackFindChild al pack' parent (de_key x) (length (de_key x)) = Some (c, pack')"
proof -
  obtain m V where P: "doc_parts cs pack m V k j" and R: "doc_rel cs m V D" by (rule doc_okE [OF assms(1)])
  note r = doc_relD [OF R]
  have K: "kids_ok cs m D parent (xs @ c # ys)" using r(3) [OF assms(2)] assms(3,4) by simp
  have c: "c \<in> dom m" "de_parent x = parent" "c \<noteq> parent" "elem_key m c = child_key cs m parent (de_key x)"
    using kids_okD(4) [OF K, of c] kids_okD(3) [OF K] assms(5) r(1) by auto
  have p: "parent \<in> dom m" using assms(2) r(1) by blast
  then have p0: "parent \<noteq> 0" using doc_bounds(1) [OF P p] by simp
  note f = read_fields [OF P r(2) [OF assms(5)] c(1)] and g = read_fields(2) [OF P r(2) [OF assms(2)] p]
  have "vl_MsgPackFreeChildren pack c = Some pack"
    by (rule free_nothing) (use f(2,4) assms(6) in auto)
  moreover obtain pack' m' where u: "unlink_child pack parent c = Some pack'" "doc_parts cs pack' m' V k j" "dom m' = dom m"
    "\<And>p. elem_key m' p = elem_key m p" "doc_rel cs m' V (D(parent \<mapsto> e\<lparr>de_kids := xs @ ys\<rparr>))"
    by (rule unlink_doc [OF P R assms(2-4)]) blast
  ultimately have run: "vlMsgPackRemove pack c = Some pack'"
    using f(1,2,8) g assms(3,6) c(2) p0
    by (auto simp: vlMsgPackRemove_def vlMsgPackType_def VL_MSGPACK_ITER_INVALID_def VL_HASHTABLE_ITER_INVALID_def VL_ARENA_NULL_def)
  have doc: "doc_ok cs pack' (D(parent \<mapsto> e\<lparr>de_kids := xs @ ys\<rparr>)) k j" using u(2,5) unfolding doc_ok_def by blast
  have "vlMsgPackTotalChildren pack' parent = Some (u32_of (length (xs @ ys)))"
    using doc_read(4) [OF doc, of parent] assms(3) by simp
  moreover have "vlMsgPackFindChild al pack' parent (de_key x) (length (de_key x)) = Some (c, pack')"
  proof -
    have "c \<in> dom m'" using c(1) u(3) by simp
    then obtain q vs where q: "m' c = Some (q, vs)" by auto
    then have "elem_key m' c = q" by (simp add: elem_key_def)
    moreover have "elem_key m' c = child_key cs m' parent (de_key x)" using c(4) u(4) by (simp add: child_key_def)
    ultimately have "q = child_key cs m' parent (de_key x)" by simp
    then show ?thesis
      using find_child_parts [OF u(2) _ assms(7), of parent al] ht.find_hit [OF doc_partsD(1) [OF u(2)] q] p u(3) by simp
  qed
  ultimately show ?thesis using run doc by blast
qed

text \<open>A document with one child of its root.\<close>

lemma sample_child:
  assumes "ty \<in> {VL_MSGPACK_NIL, VL_MSGPACK_BOOL}"
  obtains pack0 it pack where "vlMsgPackInit False some_allocator = Some pack0"
    "vlMsgPackInsertExt some_allocator pack0 ty VL_MSGPACK_EXT_NONE (mp_root pack0) [Some 97] 1 (Some [Some 1]) 1 = Some (it, pack)"
    "doc_ok False pack [mp_root pack0 \<mapsto> root_elem\<lparr>de_kids := [it]\<rparr>, it \<mapsto> new_elem [Some 97] (mp_root pack0) ty VL_MSGPACK_EXT_NONE [Some 1]] 6 6"
    "it \<noteq> mp_root pack0"
proof -
  obtain pack m V where i: "vlMsgPackInit False some_allocator = Some pack" "doc_parts False pack m V 7 7"
    "doc_rel False m V [mp_root pack \<mapsto> root_elem]" "doc_room some_allocator (2 ^ 20) pack 1 1"
    "child_key False m (mp_root pack) [Some 97] \<notin> keys_of m"
    by (rule sample_doc)
  let ?r = "mp_root pack"
  have parts: "doc_parts False pack m V (Suc 6) (Suc 6)" using i(2) by simp
  have r: "[?r \<mapsto> root_elem] ?r = Some root_elem" "de_type root_elem = VL_MSGPACK_MAP" by (simp_all add: new_elem_def)
  have t: "ty \<noteq> VL_MSGPACK_ARRAY" "ty = VL_MSGPACK_EXT \<longrightarrow> VL_MSGPACK_EXT_NONE \<noteq> VL_MSGPACK_EXT_NONE" using assms by auto
  have q: "None \<notin> set [Some (97 :: u8)]" "8 + length [Some (97 :: u8)] \<le> VL_MSGPACK_MAX_STACK_KEY_SIZE"
    by (simp_all add: VL_MSGPACK_MAX_STACK_KEY_SIZE_def)
  have v: "value_arg ty (Some [Some 1]) 1 [Some 1]" by (simp add: value_arg_def)
  have room: "doc_room some_allocator (2 ^ 20) pack (length [Some (97 :: u8)]) (length [Some (1 :: u8)])" using i(4) by simp
  obtain it pack' m' V' where n: "vlMsgPackInsertExt some_allocator pack ty VL_MSGPACK_EXT_NONE ?r [Some 97] (length [Some (97 :: u8)])
      (Some [Some 1]) 1 = Some (it, pack')" "it \<notin> dom m" "doc_parts False pack' m' V' 6 6"
    "doc_rel False m' V' ([?r \<mapsto> root_elem](?r \<mapsto> root_elem\<lparr>de_kids := de_kids root_elem @ [it]\<rparr>,
       it \<mapsto> new_elem [Some 97] ?r ty VL_MSGPACK_EXT_NONE [Some 1]))"
    by (rule insert_child_parts [OF parts i(3) r t q i(5) v room]) blast
  have ne: "it \<noteq> ?r" using n(2) doc_relD(1) [OF i(3)] by auto
  have "de_kids root_elem @ [it] = [it]" by (simp add: new_elem_def)
  then have "doc_ok False pack' [?r \<mapsto> root_elem\<lparr>de_kids := [it]\<rparr>, it \<mapsto> new_elem [Some 97] ?r ty VL_MSGPACK_EXT_NONE [Some 1]] 6 6"
    using n(3,4) unfolding doc_ok_def by (metis fun_upd_upd)
  then show thesis using that i(1) n(1) ne by simp
qed

theorem dom_remove_child_witness:
  "\<exists>pack0 it pack pack'. vlMsgPackInit False some_allocator = Some pack0 \<and>
    vlMsgPackInsertExt some_allocator pack0 VL_MSGPACK_NIL VL_MSGPACK_EXT_NONE (mp_root pack0) [Some 97] 1 (Some [Some 1]) 1 = Some (it, pack) \<and>
    vlMsgPackRemove pack it = Some pack' \<and> vlMsgPackTotalChildren pack' (mp_root pack0) = Some 0 \<and>
    vlMsgPackFindChild some_allocator pack' (mp_root pack0) [Some 97] 1 = Some (it, pack')"
proof -
  obtain pack0 it pack where i: "vlMsgPackInit False some_allocator = Some pack0"
    "vlMsgPackInsertExt some_allocator pack0 VL_MSGPACK_NIL VL_MSGPACK_EXT_NONE (mp_root pack0) [Some 97] 1 (Some [Some 1]) 1 = Some (it, pack)"
    "doc_ok False pack [mp_root pack0 \<mapsto> root_elem\<lparr>de_kids := [it]\<rparr>, it \<mapsto> new_elem [Some 97] (mp_root pack0) VL_MSGPACK_NIL VL_MSGPACK_EXT_NONE [Some 1]] 6 6"
    "it \<noteq> mp_root pack0"
    by (rule sample_child [of VL_MSGPACK_NIL]) simp_all
  show ?thesis
    using dom_remove_child [OF i(3), of "mp_root pack0" "root_elem\<lparr>de_kids := [it]\<rparr>" "[]" it "[]"
        "new_elem [Some 97] (mp_root pack0) VL_MSGPACK_NIL VL_MSGPACK_EXT_NONE [Some 1]" some_allocator] i(1,2,4)
    by (auto simp: new_elem_def VL_MSGPACK_MAX_STACK_KEY_SIZE_def u32_of_def)
qed

text \<open>
  C10. Removing a child of a map that holds a value frees its value twice: \<^verbatim>\<open>vl_MsgPackFreeChildren\<close> gives the
  block back, and then the function calls \<^verbatim>\<open>vlArenaMemFree\<close> with the same pointer, which no longer points at
  a block.
\<close>

theorem dom_remove_frees_twice:
  assumes "doc_ok cs pack D k (Suc j)" and "D parent = Some e" and "de_type e = VL_MSGPACK_MAP" and "de_kids e = xs @ c # ys"
    and "D c = Some x" and "has_value (de_type x)"
  shows "\<exists>M v vals. arena_holds (mp_values pack) M (Suc j) \<and> M v = Some (de_value x) \<and>
    vlArenaMemFree (mp_values pack) v = Some vals \<and> arena_holds vals (M(v := None)) j \<and>
    vlMsgPackRemove pack c =
      do { vals' \<leftarrow> vlArenaMemFree vals v; unlink_child (pack\<lparr>mp_values := vals'\<rparr>) parent c }"
proof -
  obtain m V where P: "doc_parts cs pack m V k (Suc j)" and R: "doc_rel cs m V D" by (rule doc_okE [OF assms(1)])
  note r = doc_relD [OF R]
  have K: "kids_ok cs m D parent (xs @ c # ys)" using r(3) [OF assms(2)] assms(3,4) by simp
  have c: "c \<in> dom m" "de_parent x = parent" using kids_okD(4) [OF K, of c] assms(5) r(1) by auto
  have p: "parent \<in> dom m" using assms(2) r(1) by blast
  then have p0: "parent \<noteq> 0" using doc_bounds(1) [OF P p] by simp
  note f = read_fields [OF P r(2) [OF assms(5)] c(1)] and g = read_fields(2) [OF P r(2) [OF assms(2)] p]
  obtain v where v: "elem_leaf pack c = Some v" "V v = Some (de_value x)" using f(7) assms(6) by blast
  have v0: "v \<noteq> 0" using arena_ptr_bounds(1) [OF doc_partsD(2) [OF P] v(2)] by simp
  obtain vals where free: "vlArenaMemFree (mp_values pack) v = Some vals" "arena_holds vals (V(v := None)) j"
    by (rule arena_holds_free [OF doc_partsD(2) [OF P] v(2)])
  let ?p1 = "pack\<lparr>mp_values := vals\<rparr>"
  have same: "elem_parent (pack\<lparr>mp_values := w\<rparr>) q = elem_parent pack q" "elem_type (pack\<lparr>mp_values := w\<rparr>) q = elem_type pack q"
    "elem_leaf (pack\<lparr>mp_values := w\<rparr>) q = elem_leaf pack q" for w q
    by (simp_all add: elem_parent_def elem_type_def elem_leaf_def elem_load_def)
  have "vl_MsgPackFreeChildren pack c = Some ?p1"
    using f(2) v(1) assms(6) free(1)
    by (subst vl_MsgPackFreeChildren_def, subst free_walk.simps) (auto simp: has_value_def free_value_def)
  then have "vlMsgPackRemove pack c = do { vals' \<leftarrow> vlArenaMemFree vals v; unlink_child (pack\<lparr>mp_values := vals'\<rparr>) parent c }"
    using f(1,2) g v(1) c(2) p0 v0 assms(3,6)
    by (auto simp: vlMsgPackRemove_def same free_value_def vlMsgPackType_def has_value_def
        VL_MSGPACK_ITER_INVALID_def VL_HASHTABLE_ITER_INVALID_def VL_ARENA_NULL_def)
  then show ?thesis using doc_partsD(2) [OF P] v(2) free by blast
qed

theorem dom_remove_frees_twice_witness:
  "\<exists>pack0 it pack M v vals. vlMsgPackInit False some_allocator = Some pack0 \<and>
    vlMsgPackInsertExt some_allocator pack0 VL_MSGPACK_BOOL VL_MSGPACK_EXT_NONE (mp_root pack0) [Some 97] 1 (Some [Some 1]) 1 = Some (it, pack) \<and>
    vlArenaMemFree (mp_values pack) v = Some vals \<and> arena_holds vals (M(v := None)) 5 \<and>
    vlMsgPackRemove pack it =
      do { vals' \<leftarrow> vlArenaMemFree vals v; unlink_child (pack\<lparr>mp_values := vals'\<rparr>) (mp_root pack0) it }"
proof -
  obtain pack0 it pack where i: "vlMsgPackInit False some_allocator = Some pack0"
    "vlMsgPackInsertExt some_allocator pack0 VL_MSGPACK_BOOL VL_MSGPACK_EXT_NONE (mp_root pack0) [Some 97] 1 (Some [Some 1]) 1 = Some (it, pack)"
    "doc_ok False pack [mp_root pack0 \<mapsto> root_elem\<lparr>de_kids := [it]\<rparr>, it \<mapsto> new_elem [Some 97] (mp_root pack0) VL_MSGPACK_BOOL VL_MSGPACK_EXT_NONE [Some 1]] 6 6"
    "it \<noteq> mp_root pack0"
    by (rule sample_child [of VL_MSGPACK_BOOL]) simp_all
  have doc: "doc_ok False pack [mp_root pack0 \<mapsto> root_elem\<lparr>de_kids := [it]\<rparr>, it \<mapsto> new_elem [Some 97] (mp_root pack0) VL_MSGPACK_BOOL VL_MSGPACK_EXT_NONE [Some 1]] 6 (Suc 5)"
    using i(3) by simp
  obtain M v vals where "vlArenaMemFree (mp_values pack) v = Some vals" "arena_holds vals (M(v := None)) 5"
    "vlMsgPackRemove pack it = do { vals' \<leftarrow> vlArenaMemFree vals v; unlink_child (pack\<lparr>mp_values := vals'\<rparr>) (mp_root pack0) it }"
    using dom_remove_frees_twice [OF doc, of "mp_root pack0" "root_elem\<lparr>de_kids := [it]\<rparr>" "[]" it "[]"
        "new_elem [Some 97] (mp_root pack0) VL_MSGPACK_BOOL VL_MSGPACK_EXT_NONE [Some 1]"] i(4)
    by (auto simp: new_elem_def has_value_def)
  then show ?thesis using i(1,2) by blast
qed

end
