(* ===== verification/VL_ThreadPool.thy ===== *)
theory VL_ThreadPool
  imports VL_Prelude "HOL-Library.Multiset"
begin

text \<open>
  \<^verbatim>\<open>src/core/vl_thread_pool.c\<close>: workers that take tasks from three queues. The workers and the callers of
  the functions are threads that take atomic steps in any order. A queue is the list of its tasks, which
  pushing and popping change in one step; semaphores, the mutex and the condition do what the operating
  system documents.
\<close>

section \<open>State\<close>

datatype vl_thread_pool_state = VL_THREAD_POOL_RUNNING | VL_THREAD_POOL_SHUTTING_DOWN | VL_THREAD_POOL_SHUT_DOWN

definition VL_THREAD_POOL_PRIORITY_HIGH :: nat where
  "VL_THREAD_POOL_PRIORITY_HIGH = 0"

definition VL_THREAD_POOL_PRIORITY_MEDIUM :: nat where
  "VL_THREAD_POOL_PRIORITY_MEDIUM = 1"

definition VL_THREAD_POOL_PRIORITY_LOW :: nat where
  "VL_THREAD_POOL_PRIORITY_LOW = 2"

definition VL_THREAD_POOL_PRIORITY_COUNT :: nat where
  "VL_THREAD_POOL_PRIORITY_COUNT = 3"

text \<open>The two pointers of a task.\<close>

record vl_thread_pool_task =
  tk_proc :: nat
  tk_user_data :: nat

text \<open>The condition is the set of the threads that wait for it, the mutex the thread that holds it.\<close>

record vl_thread_pool =
  wp_workQueues :: "nat \<Rightarrow> vl_thread_pool_task list"
  wp_semaphores :: "nat \<Rightarrow> nat"
  wp_workerCount :: nat
  wp_state :: vl_thread_pool_state
  wp_tasksCompleted :: nat
  wp_all_idle :: "nat set"
  wp_idle_lock :: "nat option"
  wp_active_workers :: nat

section \<open>Threads\<close>

text \<open>
  Where a thread is: a worker in its loop, popping from the queue of a priority, running a task, counting
  it, loading the state, going idle, and so on; and the callers of the functions, with the tasks
  that are left, the number of posts made, or the timeout. \<open>Refused\<close> is a call of the enqueueing
  functions that returns without taking its tasks. \<open>Faulted\<close> is a thread that went on, from the place that is
  given, with a pool that was freed: what it does is undefined.
\<close>

datatype pool_pc =
    WorkPop nat | WorkRun vl_thread_pool_task | WorkCount | WorkCheck | WorkIdle | WorkObtain | WorkActive | WorkBroadcast
  | WorkRelease | WorkTry nat | WorkSleep | WorkBusy | WorkExited
  | EnqCheck nat "vl_thread_pool_task list" | EnqPush nat "vl_thread_pool_task list" nat | EnqPost nat "vl_thread_pool_task list" nat
  | Enqueued nat | Refused "vl_thread_pool_task list"
  | ShutExchange bool | ShutPost bool nat | ShutDone | DelJoin nat | Deleted
  | WaitObtain nat | WaitActive nat | WaitSize nat nat | WaitEnter nat | WaitSleep nat | WaitLate | WaitRelease bool | Waited bool
  | Faulted pool_pc

text \<open>The pool, the tasks that were called so far, and the threads.\<close>

record pool_sys =
  ps_pool :: vl_thread_pool
  ps_calls :: "vl_thread_pool_task list"
  ps_pcs :: "pool_pc list"

definition at_pc :: "nat \<Rightarrow> pool_pc \<Rightarrow> vl_thread_pool \<Rightarrow> pool_sys \<Rightarrow> pool_sys" where
  "at_pc i p pool s = s\<lparr>ps_pool := pool, ps_pcs := (ps_pcs s)[i := p]\<rparr>"

definition lock_step :: "nat \<Rightarrow> pool_pc \<Rightarrow> pool_sys \<Rightarrow> pool_sys option" where
  "lock_step i p s =
     (if wp_idle_lock (ps_pool s) = None then Some (at_pc i p ((ps_pool s)\<lparr>wp_idle_lock := Some i\<rparr>) s) else None)"

definition unlock_step :: "nat \<Rightarrow> pool_pc \<Rightarrow> pool_sys \<Rightarrow> pool_sys option" where
  "unlock_step i p s = Some (at_pc i p ((ps_pool s)\<lparr>wp_idle_lock := None\<rparr>) s)"

definition add_semaphore :: "nat \<Rightarrow> vl_thread_pool \<Rightarrow> vl_thread_pool" where
  "add_semaphore pri pool = pool\<lparr>wp_semaphores := (wp_semaphores pool)(pri := wp_semaphores pool pri + 1)\<rparr>"

definition take_semaphore :: "nat \<Rightarrow> vl_thread_pool \<Rightarrow> vl_thread_pool" where
  "take_semaphore pri pool = pool\<lparr>wp_semaphores := (wp_semaphores pool)(pri := wp_semaphores pool pri - 1)\<rparr>"

text \<open>After the exchange or a post of \<^verbatim>\<open>vlThreadPoolShutdown\<close>, which \<^verbatim>\<open>vlThreadPoolDelete\<close> calls first.\<close>

definition shut_next :: "vl_thread_pool \<Rightarrow> bool \<Rightarrow> nat \<Rightarrow> pool_pc" where
  "shut_next pool del j =
     (if j < VL_THREAD_POOL_PRIORITY_COUNT * wp_workerCount pool then ShutPost del j else if del then DelJoin 0 else ShutDone)"

text \<open>
  The steps of the thread \<open>i\<close>, none if it has to wait or has returned. Those of a worker in
  \<^verbatim>\<open>vl_thread_pool_worker_proc\<close>: \<open>blocks\<close> says what \<^verbatim>\<open>vlSemaphoreWait\<close> with the timeout 0 does, whose
  result is not read: it blocks, as on Windows, or it returns at once, as with POSIX threads.
\<close>

fun worker_step :: "bool \<Rightarrow> nat \<Rightarrow> pool_pc \<Rightarrow> pool_sys \<Rightarrow> pool_sys option" where
  "worker_step blocks i (WorkPop pri) s =
     (let pool = ps_pool s in
      case wp_workQueues pool pri of
        t # ts \<Rightarrow> Some (at_pc i (WorkRun t) (pool\<lparr>wp_workQueues := (wp_workQueues pool)(pri := ts)\<rparr>) s)
      | [] \<Rightarrow> Some (at_pc i (if pri + 1 < VL_THREAD_POOL_PRIORITY_COUNT then WorkPop (pri + 1) else WorkCheck) pool s))"
| "worker_step blocks i (WorkRun t) s = Some ((at_pc i WorkCount (ps_pool s) s)\<lparr>ps_calls := ps_calls s @ [t]\<rparr>)"
| "worker_step blocks i WorkCount s =
     Some (at_pc i (WorkPop VL_THREAD_POOL_PRIORITY_HIGH) ((ps_pool s)\<lparr>wp_tasksCompleted := u64_of (wp_tasksCompleted (ps_pool s) + 1)\<rparr>) s)"
| "worker_step blocks i WorkCheck s =
     Some (at_pc i (if wp_state (ps_pool s) \<noteq> VL_THREAD_POOL_RUNNING then WorkExited else WorkIdle) (ps_pool s) s)"
| "worker_step blocks i WorkIdle s =
     Some (at_pc i WorkObtain ((ps_pool s)\<lparr>wp_active_workers := dec32 (wp_active_workers (ps_pool s))\<rparr>) s)"
| "worker_step blocks i WorkObtain s = lock_step i WorkActive s"
| "worker_step blocks i WorkActive s =
     Some (at_pc i (if wp_active_workers (ps_pool s) = 0 then WorkBroadcast else WorkRelease) (ps_pool s) s)"
| "worker_step blocks i WorkBroadcast s = Some (at_pc i WorkRelease ((ps_pool s)\<lparr>wp_all_idle := {}\<rparr>) s)"
| "worker_step blocks i WorkRelease s = unlock_step i (WorkTry VL_THREAD_POOL_PRIORITY_HIGH) s"
| "worker_step blocks i (WorkTry pri) s =
     (if 0 < wp_semaphores (ps_pool s) pri then Some (at_pc i WorkBusy (take_semaphore pri (ps_pool s)) s)
      else Some (at_pc i (if pri + 1 < VL_THREAD_POOL_PRIORITY_COUNT then WorkTry (pri + 1) else WorkSleep) (ps_pool s) s))"
| "worker_step blocks i WorkSleep s =
     (if 0 < wp_semaphores (ps_pool s) VL_THREAD_POOL_PRIORITY_HIGH
      then Some (at_pc i WorkBusy (take_semaphore VL_THREAD_POOL_PRIORITY_HIGH (ps_pool s)) s)
      else if blocks then None else Some (at_pc i WorkBusy (ps_pool s) s))"
| "worker_step blocks i WorkBusy s =
     Some (at_pc i (WorkPop VL_THREAD_POOL_PRIORITY_HIGH)
       ((ps_pool s)\<lparr>wp_active_workers := inc32 (wp_active_workers (ps_pool s))\<rparr>) s)"
| "worker_step blocks i p s = None"

text \<open>
  Enqueueing, one task or many: a call that pushed \<open>n\<close> tasks returns \<open>n\<close>, or \<^verbatim>\<open>VL_TRUE\<close>. A priority that is out
  of range has no queue, and no step.
\<close>

fun enqueue_step :: "nat \<Rightarrow> pool_pc \<Rightarrow> pool_sys \<Rightarrow> pool_sys option" where
  "enqueue_step i (EnqCheck pri ts) s =
     Some (at_pc i (if wp_state (ps_pool s) \<noteq> VL_THREAD_POOL_RUNNING then Refused ts else EnqPush pri ts 0) (ps_pool s) s)"
| "enqueue_step i (EnqPush pri ts n) s =
     (case ts of
        [] \<Rightarrow> Some (at_pc i (Enqueued n) (ps_pool s) s)
      | t # ts \<Rightarrow>
          if pri < VL_THREAD_POOL_PRIORITY_COUNT
          then Some (at_pc i (EnqPost pri ts (n + 1))
            ((ps_pool s)\<lparr>wp_workQueues := (wp_workQueues (ps_pool s))(pri := wp_workQueues (ps_pool s) pri @ [t])\<rparr>) s)
          else None)"
| "enqueue_step i (EnqPost pri ts n) s = Some (at_pc i (EnqPush pri ts n) (add_semaphore pri (ps_pool s)) s)"
| "enqueue_step i p s = None"

text \<open>Shutting down, in a call of its own or in \<^verbatim>\<open>vlThreadPoolDelete\<close>.\<close>

fun shutdown_step :: "nat \<Rightarrow> pool_pc \<Rightarrow> pool_sys \<Rightarrow> pool_sys option" where
  "shutdown_step i (ShutExchange del) s =
     Some (at_pc i (shut_next (ps_pool s) del
        (if wp_state (ps_pool s) \<noteq> VL_THREAD_POOL_RUNNING then VL_THREAD_POOL_PRIORITY_COUNT * wp_workerCount (ps_pool s) else 0))
       ((ps_pool s)\<lparr>wp_state := VL_THREAD_POOL_SHUTTING_DOWN\<rparr>) s)"
| "shutdown_step i (ShutPost del j) s =
     Some (at_pc i (shut_next (ps_pool s) del (j + 1)) (add_semaphore (j mod VL_THREAD_POOL_PRIORITY_COUNT) (ps_pool s)) s)"
| "shutdown_step i p s = None"

text \<open>Joining the workers; what they use is freed with the last step.\<close>

fun delete_step :: "nat \<Rightarrow> pool_pc \<Rightarrow> pool_sys \<Rightarrow> pool_sys option" where
  "delete_step i (DelJoin k) s =
     (if k < wp_workerCount (ps_pool s)
      then if ps_pcs s ! k = WorkExited then Some (at_pc i (DelJoin (k + 1)) (ps_pool s) s) else None
      else Some (at_pc i Deleted (ps_pool s) s))"
| "delete_step i p s = None"

datatype waking = Asleep | Spurious | Timeout

text \<open>
  Waiting. A thread that waits for the condition may wake up for no reason, or because of its timeout if it has
  one: \<open>wake\<close> says so.
\<close>

fun wait_step :: "waking \<Rightarrow> nat \<Rightarrow> pool_pc \<Rightarrow> pool_sys \<Rightarrow> pool_sys option" where
  "wait_step wake i (WaitObtain t) s = lock_step i (WaitActive t) s"
| "wait_step wake i (WaitActive t) s =
     Some (at_pc i (if wp_active_workers (ps_pool s) = 0 then WaitSize t VL_THREAD_POOL_PRIORITY_HIGH else WaitEnter t) (ps_pool s) s)"
| "wait_step wake i (WaitSize t pri) s =
     Some (at_pc i (if 0 < length (wp_workQueues (ps_pool s) pri) then WaitEnter t
        else if pri + 1 < VL_THREAD_POOL_PRIORITY_COUNT then WaitSize t (pri + 1) else WaitRelease True) (ps_pool s) s)"
| "wait_step wake i (WaitEnter t) s =
     unlock_step i (WaitSleep t) (s\<lparr>ps_pool := (ps_pool s)\<lparr>wp_all_idle := insert i (wp_all_idle (ps_pool s))\<rparr>\<rparr>)"
| "wait_step wake i (WaitSleep t) s =
     (if i \<in> wp_all_idle (ps_pool s)
      then if wake = Spurious \<or> wake = Timeout \<and> t \<noteq> 0
        then Some (at_pc i (if wake = Timeout then WaitLate else WaitSleep t)
          ((ps_pool s)\<lparr>wp_all_idle := wp_all_idle (ps_pool s) - {i}\<rparr>) s)
        else None
      else lock_step i (WaitActive t) s)"
| "wait_step wake i WaitLate s = lock_step i (WaitRelease False) s"
| "wait_step wake i (WaitRelease r) s = unlock_step i (Waited r) s"
| "wait_step wake i p s = None"

text \<open>The step of any thread while the pool is there.\<close>

fun working :: "pool_pc \<Rightarrow> bool" where
  "working (WorkPop pri) \<longleftrightarrow> True"
| "working (WorkRun t) \<longleftrightarrow> True"
| "working (WorkTry pri) \<longleftrightarrow> True"
| "working p \<longleftrightarrow> p \<in> {WorkCount, WorkCheck, WorkIdle, WorkObtain, WorkActive, WorkBroadcast, WorkRelease, WorkSleep, WorkBusy, WorkExited}"

fun enqueueing :: "pool_pc \<Rightarrow> bool" where
  "enqueueing (EnqCheck pri ts) \<longleftrightarrow> True"
| "enqueueing (EnqPush pri ts n) \<longleftrightarrow> True"
| "enqueueing (EnqPost pri ts n) \<longleftrightarrow> True"
| "enqueueing p \<longleftrightarrow> False"

fun shutting_down :: "pool_pc \<Rightarrow> bool" where
  "shutting_down (ShutExchange del) \<longleftrightarrow> True"
| "shutting_down (ShutPost del j) \<longleftrightarrow> True"
| "shutting_down p \<longleftrightarrow> False"

fun deleting :: "pool_pc \<Rightarrow> bool" where
  "deleting (DelJoin k) \<longleftrightarrow> True"
| "deleting p \<longleftrightarrow> False"

definition live_pool_step :: "bool \<Rightarrow> waking \<Rightarrow> nat \<Rightarrow> pool_pc \<Rightarrow> pool_sys \<Rightarrow> pool_sys option" where
  "live_pool_step blocks wake i p s =
     (if working p then worker_step blocks i p s
      else if enqueueing p then enqueue_step i p s
      else if shutting_down p then shutdown_step i p s
      else if deleting p then delete_step i p s
      else wait_step wake i p s)"

lemma live_pool_step_simps [simp]:
  "live_pool_step blocks wake i (WorkPop pri) s = worker_step blocks i (WorkPop pri) s"
  "live_pool_step blocks wake i (WorkRun t) s = worker_step blocks i (WorkRun t) s"
  "live_pool_step blocks wake i WorkCount s = worker_step blocks i WorkCount s"
  "live_pool_step blocks wake i WorkCheck s = worker_step blocks i WorkCheck s"
  "live_pool_step blocks wake i WorkIdle s = worker_step blocks i WorkIdle s"
  "live_pool_step blocks wake i WorkObtain s = worker_step blocks i WorkObtain s"
  "live_pool_step blocks wake i WorkActive s = worker_step blocks i WorkActive s"
  "live_pool_step blocks wake i WorkBroadcast s = worker_step blocks i WorkBroadcast s"
  "live_pool_step blocks wake i WorkRelease s = worker_step blocks i WorkRelease s"
  "live_pool_step blocks wake i (WorkTry pri) s = worker_step blocks i (WorkTry pri) s"
  "live_pool_step blocks wake i WorkSleep s = worker_step blocks i WorkSleep s"
  "live_pool_step blocks wake i WorkBusy s = worker_step blocks i WorkBusy s"
  "live_pool_step blocks wake i WorkExited s = worker_step blocks i WorkExited s"
  "live_pool_step blocks wake i (EnqCheck pri ts) s = enqueue_step i (EnqCheck pri ts) s"
  "live_pool_step blocks wake i (EnqPush pri ts n) s = enqueue_step i (EnqPush pri ts n) s"
  "live_pool_step blocks wake i (EnqPost pri ts n) s = enqueue_step i (EnqPost pri ts n) s"
  "live_pool_step blocks wake i (Enqueued n) s = wait_step wake i (Enqueued n) s"
  "live_pool_step blocks wake i (Refused ts) s = wait_step wake i (Refused ts) s"
  "live_pool_step blocks wake i (ShutExchange del) s = shutdown_step i (ShutExchange del) s"
  "live_pool_step blocks wake i (ShutPost del j) s = shutdown_step i (ShutPost del j) s"
  "live_pool_step blocks wake i ShutDone s = wait_step wake i ShutDone s"
  "live_pool_step blocks wake i (DelJoin k) s = delete_step i (DelJoin k) s"
  "live_pool_step blocks wake i Deleted s = wait_step wake i Deleted s"
  "live_pool_step blocks wake i (WaitObtain ms) s = wait_step wake i (WaitObtain ms) s"
  "live_pool_step blocks wake i (WaitActive ms) s = wait_step wake i (WaitActive ms) s"
  "live_pool_step blocks wake i (WaitSize ms pri) s = wait_step wake i (WaitSize ms pri) s"
  "live_pool_step blocks wake i (WaitEnter ms) s = wait_step wake i (WaitEnter ms) s"
  "live_pool_step blocks wake i (WaitSleep ms) s = wait_step wake i (WaitSleep ms) s"
  "live_pool_step blocks wake i WaitLate s = wait_step wake i WaitLate s"
  "live_pool_step blocks wake i (WaitRelease r) s = wait_step wake i (WaitRelease r) s"
  "live_pool_step blocks wake i (Waited r) s = wait_step wake i (Waited r) s"
  "live_pool_step blocks wake i (Faulted p) s = wait_step wake i (Faulted p) s"
  by (simp_all add: live_pool_step_def)

text \<open>
  \<^verbatim>\<open>vlThreadPoolDelete\<close> has freed the pool when it returns. After that every step that accesses the pool is undefined;
  one that only leaves the loop of an enqueueing function does not.
\<close>

definition freed :: "pool_sys \<Rightarrow> bool" where
  "freed s \<longleftrightarrow> Deleted \<in> set (ps_pcs s)"

fun uses :: "pool_pc \<Rightarrow> bool" where
  "uses (EnqPush pri ts n) \<longleftrightarrow> ts \<noteq> []"
| "uses (Enqueued n) \<longleftrightarrow> False"
| "uses (Refused ts) \<longleftrightarrow> False"
| "uses ShutDone \<longleftrightarrow> False"
| "uses Deleted \<longleftrightarrow> False"
| "uses (Waited r) \<longleftrightarrow> False"
| "uses WorkExited \<longleftrightarrow> False"
| "uses (Faulted p) \<longleftrightarrow> False"
| "uses p \<longleftrightarrow> True"

definition pool_step :: "bool \<Rightarrow> waking \<Rightarrow> nat \<Rightarrow> pool_pc \<Rightarrow> pool_sys \<Rightarrow> pool_sys option" where
  "pool_step blocks wake i p s =
     (if freed s \<and> uses p then Some (at_pc i (Faulted p) (ps_pool s) s) else live_pool_step blocks wake i p s)"

section \<open>Calls\<close>

text \<open>
  A pool as \<^verbatim>\<open>vlThreadPoolNew\<close> returns it. \<open>available\<close> says whether every call of the allocator and of the
  system succeeds; what was created before one fails is given back, and no pool is returned.
\<close>

definition vlThreadPoolNew :: "bool \<Rightarrow> nat \<Rightarrow> vl_thread_pool option" where
  "vlThreadPoolNew available worker_count =
     (if worker_count = 0 \<or> \<not> available then None
      else Some \<lparr>wp_workQueues = (\<lambda>_. []), wp_semaphores = (\<lambda>_. 0), wp_workerCount = worker_count, wp_state = VL_THREAD_POOL_RUNNING,
        wp_tasksCompleted = 0, wp_all_idle = {}, wp_idle_lock = None, wp_active_workers = worker_count\<rparr>)"

text \<open>Where the call of a function starts.\<close>

definition vlThreadPoolEnqueuePriority :: "nat \<Rightarrow> vl_thread_pool_task option \<Rightarrow> pool_pc" where
  "vlThreadPoolEnqueuePriority priority task = (case task of None \<Rightarrow> Refused [] | Some t \<Rightarrow> EnqCheck priority [t])"

definition vlThreadPoolEnqueueBatchPriority :: "nat \<Rightarrow> vl_thread_pool_task list option \<Rightarrow> pool_pc" where
  "vlThreadPoolEnqueueBatchPriority priority tasks =
     (case tasks of None \<Rightarrow> Refused [] | Some ts \<Rightarrow> if ts = [] then Refused [] else EnqCheck priority ts)"

definition vlThreadPoolEnqueue :: "vl_thread_pool_task option \<Rightarrow> pool_pc" where
  "vlThreadPoolEnqueue = vlThreadPoolEnqueuePriority VL_THREAD_POOL_PRIORITY_MEDIUM"

definition vlThreadPoolEnqueueBatch :: "vl_thread_pool_task list option \<Rightarrow> pool_pc" where
  "vlThreadPoolEnqueueBatch = vlThreadPoolEnqueueBatchPriority VL_THREAD_POOL_PRIORITY_MEDIUM"

definition vlThreadPoolShutdown :: pool_pc where
  "vlThreadPoolShutdown = ShutExchange False"

definition vlThreadPoolDelete :: pool_pc where
  "vlThreadPoolDelete = ShutExchange True"

definition vlThreadPoolWait :: "nat \<Rightarrow> pool_pc" where
  "vlThreadPoolWait timeout_ms = WaitObtain timeout_ms"

text \<open>The loads of \<^verbatim>\<open>vlThreadPoolGetStats\<close>, in a state that does not change meanwhile.\<close>

record vl_thread_pool_stats =
  st_tasks_completed :: nat
  st_tasksPending :: "nat list"
  st_worker_count :: nat

definition vlThreadPoolGetStats :: "vl_thread_pool \<Rightarrow> vl_thread_pool_stats" where
  "vlThreadPoolGetStats pool =
     \<lparr>st_tasks_completed = wp_tasksCompleted pool,
      st_tasksPending = map (\<lambda>i. u32_of (length (wp_workQueues pool i))) [0..<VL_THREAD_POOL_PRIORITY_COUNT],
      st_worker_count = wp_workerCount pool\<rparr>"

definition vlThreadPoolQueueDepth :: "vl_thread_pool \<Rightarrow> nat" where
  "vlThreadPoolQueueDepth pool = u32_of (sum_list (st_tasksPending (vlThreadPoolGetStats pool)))"

section \<open>Runs\<close>

text \<open>Workers are the first threads; they and the callers start together.\<close>

definition pool_start :: "nat \<Rightarrow> pool_pc list \<Rightarrow> pool_sys option" where
  "pool_start n callers =
     do {
       pool \<leftarrow> vlThreadPoolNew True n;
       Some \<lparr>ps_pool = pool, ps_calls = [], ps_pcs = replicate n (WorkPop VL_THREAD_POOL_PRIORITY_HIGH) @ callers\<rparr>
     }"

inductive pool_move :: "bool \<Rightarrow> waking \<Rightarrow> pool_sys \<Rightarrow> pool_sys \<Rightarrow> bool" for blocks wake where
  move: "i < length (ps_pcs s) \<Longrightarrow> pool_step blocks wake i (ps_pcs s ! i) s = Some s' \<Longrightarrow> pool_move blocks wake s s'"

inductive pool_steps :: "bool \<Rightarrow> pool_sys \<Rightarrow> pool_sys \<Rightarrow> bool" for blocks where
  finish: "pool_steps blocks s s"
| step: "pool_steps blocks s s' \<Longrightarrow> pool_move blocks wake s' s'' \<Longrightarrow> pool_steps blocks s s''"

text \<open>A schedule is the list of the threads that take the next step.\<close>

primrec pool_run :: "bool \<Rightarrow> nat list \<Rightarrow> pool_sys \<Rightarrow> pool_sys option" where
  "pool_run blocks [] s = Some s"
| "pool_run blocks (i # is) s =
     (if i < length (ps_pcs s) then do { s \<leftarrow> pool_step blocks Asleep i (ps_pcs s ! i) s; pool_run blocks is s } else None)"

lemma pool_steps_trans: "pool_steps blocks s' s'' \<Longrightarrow> pool_steps blocks s s' \<Longrightarrow> pool_steps blocks s s''"
  by (induction rule: pool_steps.induct) (auto intro: pool_steps.step)

lemma pool_run_steps: "pool_run blocks is s = Some s' \<Longrightarrow> pool_steps blocks s s'"
proof (induction "is" arbitrary: s)
  case Nil
  then show ?case by (simp add: pool_steps.finish)
next
  case (Cons i "is")
  then obtain t where t: "pool_move blocks Asleep s t" "pool_run blocks is t = Some s'"
    by (auto split: if_splits bind_splits intro: pool_move.move)
  have "pool_steps blocks s t" by (rule pool_steps.step [OF pool_steps.finish t(1)])
  then show ?case using pool_steps_trans [OF Cons.IH [OF t(2)]] by blast
qed

end
