(* ===== verification/VL_ThreadPoolSpec.thy ===== *)
theory VL_ThreadPoolSpec
  imports VL_ThreadPool
begin

text \<open>
  What the thread pool of \<^verbatim>\<open>vl_thread_pool.c\<close> guarantees under every schedule, and where its documentation
  promises more: tasks that a shutdown or the blocking of workers leaves behind, and waiting that never
  ends.
\<close>

section \<open>Sums over threads\<close>

lemma sum_list_map_update:
  fixes f :: "'a \<Rightarrow> 'b :: comm_monoid_add"
  shows "i < length xs \<Longrightarrow> sum_list (map f (xs[i := x])) + f (xs ! i) = sum_list (map f xs) + f x"
proof (induction xs arbitrary: i)
  case (Cons a xs)
  then show ?case by (cases i) (simp_all add: ac_simps)
qed simp

definition cnt :: "(pool_pc \<Rightarrow> bool) \<Rightarrow> pool_sys \<Rightarrow> nat" where
  "cnt P s = sum_list (map (\<lambda>p. of_bool (P p)) (ps_pcs s))"

lemma cnt_at:
  assumes "i < length (ps_pcs s)"
  shows "cnt P (at_pc i p pool s) + of_bool (P (ps_pcs s ! i)) = cnt P s + of_bool (P p)"
proof -
  have "ps_pcs (at_pc i p pool s) = (ps_pcs s)[i := p]" by (simp add: at_pc_def)
  then show ?thesis using sum_list_map_update [OF assms, of "\<lambda>p. of_bool (P p)" p] unfolding cnt_def by (simp only:)
qed

lemma at_pc_simps [simp]:
  "ps_pool (at_pc i p pool s) = pool" "ps_calls (at_pc i p pool s) = ps_calls s" "ps_pcs (at_pc i p pool s) = (ps_pcs s)[i := p]"
  by (simp_all add: at_pc_def)

lemma at_pc_pool [simp]: "at_pc i p pool (s\<lparr>ps_pool := q\<rparr>) = at_pc i p pool s"
  by (simp add: at_pc_def)

lemma cnt_cong [simp]: "cnt P (s\<lparr>ps_calls := c\<rparr>) = cnt P s" "cnt P (s\<lparr>ps_pool := q\<rparr>) = cnt P s"
  by (simp_all add: cnt_def)

lemma cnt_pos: "i < length (ps_pcs s) \<Longrightarrow> P (ps_pcs s ! i) \<Longrightarrow> 0 < cnt P s"
  unfolding cnt_def using member_le_sum_list [of "of_bool (P (ps_pcs s ! i))" "map (\<lambda>p. of_bool (P p)) (ps_pcs s)"]
  by force

lemmas pool_step_defs = lock_step_def unlock_step_def add_semaphore_def take_semaphore_def shut_next_def Let_def
  VL_THREAD_POOL_PRIORITY_HIGH_def VL_THREAD_POOL_PRIORITY_COUNT_def

section \<open>Well-formed threads\<close>

text \<open>The priorities and numbers that threads carry are in range, and calls start at their first step.\<close>

fun pc_ok :: "nat \<Rightarrow> pool_pc \<Rightarrow> bool" where
  "pc_ok n (WorkPop pri) \<longleftrightarrow> pri < 3"
| "pc_ok n (WorkTry pri) \<longleftrightarrow> pri < 3"
| "pc_ok n (EnqCheck pri ts) \<longleftrightarrow> pri < 3"
| "pc_ok n (EnqPush pri ts m) \<longleftrightarrow> pri < 3"
| "pc_ok n (EnqPost pri ts m) \<longleftrightarrow> pri < 3"
| "pc_ok n (ShutPost del j) \<longleftrightarrow> j < 3 * n"
| "pc_ok n (WaitSize t pri) \<longleftrightarrow> pri < 3"
| "pc_ok n (DelJoin k) \<longleftrightarrow> k \<le> n"
| "pc_ok n p \<longleftrightarrow> True"

fun caller :: "pool_pc \<Rightarrow> bool" where
  "caller (EnqCheck pri ts) \<longleftrightarrow> pri < 3"
| "caller (Refused ts) \<longleftrightarrow> True"
| "caller (ShutExchange del) \<longleftrightarrow> True"
| "caller (WaitObtain t) \<longleftrightarrow> True"
| "caller p \<longleftrightarrow> False"

text \<open>\<^verbatim>\<open>vlThreadPoolDelete\<close> has joined the workers that it has passed, and all when it has freed the pool.\<close>

definition exited_below :: "nat \<Rightarrow> pool_sys \<Rightarrow> bool" where
  "exited_below k s \<longleftrightarrow> (\<forall>m < k. ps_pcs s ! m = WorkExited)"

definition pool_wf :: "nat \<Rightarrow> nat \<Rightarrow> pool_sys \<Rightarrow> bool" where
  "pool_wf n N s \<longleftrightarrow> wp_workerCount (ps_pool s) = n \<and> length (ps_pcs s) = N \<and> n \<le> N \<and> (\<forall>p \<in> set (ps_pcs s). pc_ok n p) \<and>
     (\<forall>i < N. working (ps_pcs s ! i) \<longleftrightarrow> i < n) \<and>
     (\<forall>k. DelJoin k \<in> set (ps_pcs s) \<longrightarrow> exited_below k s) \<and> (freed s \<longrightarrow> exited_below n s) \<and>
     (\<forall>p. Faulted p \<in> set (ps_pcs s) \<longrightarrow> freed s)"

lemma pool_wfD:
  assumes "pool_wf n N s"
  shows "wp_workerCount (ps_pool s) = n" "length (ps_pcs s) = N" "n \<le> N" "i < N \<Longrightarrow> pc_ok n (ps_pcs s ! i)"
    "i < N \<Longrightarrow> working (ps_pcs s ! i) \<longleftrightarrow> i < n"
    "DelJoin k \<in> set (ps_pcs s) \<Longrightarrow> exited_below k s" "freed s \<Longrightarrow> exited_below n s" "Faulted p \<in> set (ps_pcs s) \<Longrightarrow> freed s"
  using assms by (auto simp: pool_wf_def)

text \<open>What a step does to the threads and to the number of workers.\<close>

lemma live_step_shape:
  assumes "live_pool_step blocks wake i p s = Some s'" and "pc_ok (wp_workerCount (ps_pool s)) p"
  shows "\<exists>p'. ps_pcs s' = (ps_pcs s)[i := p'] \<and> wp_workerCount (ps_pool s') = wp_workerCount (ps_pool s) \<and>
    pc_ok (wp_workerCount (ps_pool s)) p' \<and> (working p' \<longleftrightarrow> working p)"
  using assms by (cases p) (auto simp: pool_step_defs split: if_splits list.splits)

lemma live_step_from:
  assumes "live_pool_step blocks wake i p s = Some s'"
  shows "p \<noteq> WorkExited" and "p \<noteq> Deleted"
  using assms by auto

lemma live_step_to:
  assumes "live_pool_step blocks wake i p s = Some s'" and i: "i < length (ps_pcs s)"
  shows "ps_pcs s' ! i \<noteq> Faulted q"
    and "ps_pcs s' ! i = DelJoin k \<Longrightarrow> k = 0 \<or> p = DelJoin (k - 1) \<and> ps_pcs s ! (k - 1) = WorkExited"
    and "ps_pcs s' ! i = Deleted \<Longrightarrow> \<exists>k. p = DelJoin k \<and> wp_workerCount (ps_pool s) \<le> k"
proof -
  have "ps_pcs s' ! i \<noteq> Faulted q \<and> (ps_pcs s' ! i = DelJoin k \<longrightarrow> k = 0 \<or> p = DelJoin (k - 1) \<and> ps_pcs s ! (k - 1) = WorkExited) \<and>
    (ps_pcs s' ! i = Deleted \<longrightarrow> (\<exists>k. p = DelJoin k \<and> wp_workerCount (ps_pool s) \<le> k))"
    using assms by (cases p) (auto simp: lock_step_def unlock_step_def shut_next_def Let_def split: if_splits list.splits)
  then show "ps_pcs s' ! i \<noteq> Faulted q"
    "ps_pcs s' ! i = DelJoin k \<Longrightarrow> k = 0 \<or> p = DelJoin (k - 1) \<and> ps_pcs s ! (k - 1) = WorkExited"
    "ps_pcs s' ! i = Deleted \<Longrightarrow> \<exists>k. p = DelJoin k \<and> wp_workerCount (ps_pool s) \<le> k" by blast+
qed

lemma pool_step_cases:
  assumes "pool_step blocks wake i p s = Some s'"
  obtains (live) "live_pool_step blocks wake i p s = Some s'"
  | (fault) "freed s" "uses p" "s' = at_pc i (Faulted p) (ps_pool s) s"
proof (cases "freed s \<and> uses p")
  case True
  then have "s' = at_pc i (Faulted p) (ps_pool s) s" using assms unfolding pool_step_def by simp
  then show thesis using fault True by blast
next
  case False
  show thesis using assms unfolding pool_step_def if_not_P [OF False] by (rule live)
qed

lemma exited_below_update:
  "exited_below k s \<Longrightarrow> ps_pcs s ! i \<noteq> WorkExited \<Longrightarrow> ps_pcs s' = (ps_pcs s)[i := p'] \<Longrightarrow> exited_below k s'"
  unfolding exited_below_def by (metis nth_list_update_neq)

lemma freed_update:
  assumes "freed s" and "ps_pcs s ! i \<noteq> Deleted" and "ps_pcs s' = (ps_pcs s)[i := p']"
  shows "freed s'"
proof -
  obtain m where m: "m < length (ps_pcs s)" "ps_pcs s ! m = Deleted" using assms(1) by (auto simp: freed_def in_set_conv_nth)
  then have "m \<noteq> i" using assms(2) by auto
  then have "ps_pcs s' ! m = Deleted" "m < length (ps_pcs s')" using m assms(3) by simp_all
  then show ?thesis unfolding freed_def by (metis nth_mem)
qed

lemma live_step_wf:
  assumes step: "live_pool_step blocks wake i (ps_pcs s ! i) s = Some s'" and i: "i < N" and wf: "pool_wf n N s"
  shows "pool_wf n N s'"
proof -
  note d = pool_wfD [OF wf]
  have l: "i < length (ps_pcs s)" using i d(2) by simp
  obtain p' where p0: "ps_pcs s' = (ps_pcs s)[i := p']" "wp_workerCount (ps_pool s') = n" "pc_ok n p'"
    "working p' \<longleftrightarrow> working (ps_pcs s ! i)"
    using live_step_shape [OF step] d(1) d(4) [OF i] by auto
  have p'_at: "ps_pcs s' ! i = p'" using p0(1) l by simp
  note from_i = live_step_from [OF step] and to_i = live_step_to [OF step l, unfolded p'_at d(1)]
  have del: "ps_pcs s ! i = DelJoin n" if "p' = Deleted"
    using to_i(3) [OF that] d(4) [OF i] by (auto intro: le_antisym)
  note p' = p0 from_i to_i(1,2) del
  have mem: "ps_pcs s ! i \<in> set (ps_pcs s)" using i d(2) by simp
  have sub: "q = p' \<or> q \<in> set (ps_pcs s)" if "q \<in> set (ps_pcs s')" for q
    using that p'(1) set_update_subset_insert [of "ps_pcs s" i p'] by auto
  note keep = exited_below_update [OF _ p'(5,1)] and stay = freed_update [OF _ p'(6,1)]
  have "pc_ok n q" if "q \<in> set (ps_pcs s')" for q using sub [OF that] p'(3) wf by (auto simp: pool_wf_def)
  moreover have "working (ps_pcs s' ! k) \<longleftrightarrow> k < n" if "k < N" for k
    using d(5) [OF that] d(5) [OF i] p'(1,4) that d(2) i by (cases "k = i") simp_all
  moreover have "exited_below k s'" if "DelJoin k \<in> set (ps_pcs s')" for k
  proof (cases "DelJoin k \<in> set (ps_pcs s)")
    case True
    then show ?thesis by (intro keep d(6))
  next
    case False
    then have "k = 0 \<or> ps_pcs s ! i = DelJoin (k - 1) \<and> ps_pcs s ! (k - 1) = WorkExited" using sub [OF that] p'(8) by auto
    moreover have "exited_below k s" if k: "ps_pcs s ! i = DelJoin (k - 1)" "ps_pcs s ! (k - 1) = WorkExited"
    proof -
      have "exited_below (k - 1) s" using d(6) k(1) mem by metis
      then show ?thesis unfolding exited_below_def using k(2) by (metis One_nat_def Suc_pred less_Suc_eq not_gr_zero zero_less_Suc less_nat_zero_code)
    qed
    ultimately show ?thesis using keep by (auto simp: exited_below_def)
  qed
  moreover have "exited_below n s'" if "freed s'"
  proof (cases "freed s")
    case True
    then show ?thesis by (intro keep d(7))
  next
    case False
    then have "ps_pcs s ! i = DelJoin n" using that sub p'(9) by (auto simp: freed_def)
    then show ?thesis using keep d(6) mem by metis
  qed
  moreover have "freed s'" if "Faulted q \<in> set (ps_pcs s')" for q using sub [OF that] p'(7) d(8) stay by blast
  ultimately show ?thesis using p'(1,2) d(2,3) by (simp add: pool_wf_def)
qed

text \<open>Only callers find the pool freed.\<close>

lemma fault_caller:
  assumes "pool_wf n N s" and "freed s" and "uses (ps_pcs s ! i)" and "i < N"
  shows "n \<le> i" and "\<not> working (ps_pcs s ! i)"
proof -
  note d = pool_wfD [OF assms(1)]
  show "n \<le> i" using d(7) [OF assms(2)] assms(3) by (force simp: exited_below_def not_less [symmetric])
  then show "\<not> working (ps_pcs s ! i)" using d(5) [OF assms(4)] by simp
qed

lemma fault_wf:
  assumes wf: "pool_wf n N s" and "freed s" and "uses (ps_pcs s ! i)" and i: "i < N"
  shows "pool_wf n N (at_pc i (Faulted (ps_pcs s ! i)) (ps_pool s) s)" (is "pool_wf n N ?s")
proof -
  note d = pool_wfD [OF wf]
  have pcs: "ps_pcs ?s = (ps_pcs s)[i := Faulted (ps_pcs s ! i)]" by simp
  have ne: "ps_pcs s ! i \<noteq> WorkExited" "ps_pcs s ! i \<noteq> Deleted" using assms(3) by auto
  have sub: "q = Faulted (ps_pcs s ! i) \<or> q \<in> set (ps_pcs s)" if "q \<in> set (ps_pcs ?s)" for q
    using that set_update_subset_insert [of "ps_pcs s" i] unfolding pcs by blast
  have fr: "freed ?s" by (rule freed_update [OF assms(2) ne(2) pcs])
  have ex: "exited_below n ?s" by (rule exited_below_update [OF d(7) [OF assms(2)] ne(1) pcs])
  have "pc_ok n q" if "q \<in> set (ps_pcs ?s)" for q using sub [OF that] wf by (auto simp: pool_wf_def)
  moreover have "working (ps_pcs ?s ! k) \<longleftrightarrow> k < n" if "k < N" for k
    using d(5) [OF that] fault_caller [OF assms] that d(2) i by (cases "k = i") simp_all
  moreover have "exited_below k ?s" if "DelJoin k \<in> set (ps_pcs ?s)" for k
    using sub [OF that] d(6) exited_below_update [OF _ ne(1) pcs] by blast
  ultimately show ?thesis using fr ex d(1-3) by (simp add: pool_wf_def)
qed

lemma pool_move_wf:
  assumes "pool_move blocks wake s s'" and wf: "pool_wf n N s"
  shows "pool_wf n N s'"
  using assms(1)
proof cases
  case (move i)
  have i: "i < N" using move(1) pool_wfD(2) [OF wf] by simp
  from move(2) show ?thesis
  proof (cases rule: pool_step_cases)
    case live
    then show ?thesis by (rule live_step_wf [OF _ i wf])
  next
    case fault
    then show ?thesis using fault_wf [OF wf _ _ i] by simp
  qed
qed

lemma pool_start_wf:
  assumes "pool_start n callers = Some s" and "\<forall>p \<in> set callers. caller p"
  shows "pool_wf n (n + length callers) s"
proof -
  have w: "\<not> working p \<and> pc_ok n p" if "caller p" for p using that by (cases p) auto
  have s: "0 < n" "s = \<lparr>ps_pool = ps_pool s, ps_calls = [], ps_pcs = replicate n (WorkPop 0) @ callers\<rparr>" "wp_workerCount (ps_pool s) = n"
    using assms(1) by (auto simp: pool_start_def vlThreadPoolNew_def pool_step_defs split: if_splits)
  have pcs: "ps_pcs s = replicate n (WorkPop 0) @ callers" using s(2) by (metis pool_sys.select_convs(3))
  have "working (ps_pcs s ! i) \<longleftrightarrow> i < n" if "i < n + length callers" for i
    using that w assms(2) by (auto simp: pcs nth_append)
  moreover have "\<forall>p \<in> set (ps_pcs s). pc_ok n p" using w assms(2) by (auto simp: pcs)
  moreover have "p \<notin> set (ps_pcs s)" if "p = Deleted \<or> (\<exists>k. p = DelJoin k) \<or> (\<exists>q. p = Faulted q)" for p
    using that assms(2) by (auto simp: pcs)
  ultimately show ?thesis using s(3) pcs by (auto simp: pool_wf_def freed_def)
qed

text \<open>Invariants of runs, with these facts at hand.\<close>

lemma pool_steps_inv:
  assumes run: "pool_steps blocks s s'" and "pool_wf n N s" and "I s"
    and live: "\<And>s s' wake i. pool_wf n N s \<Longrightarrow> I s \<Longrightarrow> i < N \<Longrightarrow> live_pool_step blocks wake i (ps_pcs s ! i) s = Some s' \<Longrightarrow> I s'"
    and fault: "\<And>s i. pool_wf n N s \<Longrightarrow> I s \<Longrightarrow> i < N \<Longrightarrow> \<not> working (ps_pcs s ! i) \<Longrightarrow> uses (ps_pcs s ! i) \<Longrightarrow>
      I (at_pc i (Faulted (ps_pcs s ! i)) (ps_pool s) s)"
  shows "pool_wf n N s' \<and> I s'"
  using run assms(2,3)
proof induction
  case (step s t wake u)
  then have t: "pool_wf n N t" "I t" by blast+
  from step.hyps(2) show ?case
  proof cases
    case (move i)
    have i: "i < N" using move(1) pool_wfD(2) [OF t(1)] by simp
    from move(2) have "I u"
    proof (cases rule: pool_step_cases)
      case live
      then show ?thesis by (rule assms(4) [OF t i])
    next
      case fault
      then show ?thesis using assms(5) [OF t i fault_caller(2) [OF t(1) fault(1,2) i] fault(2)] by simp
    qed
    then show ?thesis using pool_move_wf [OF step.hyps(2) t(1)] by blast
  qed
qed simp


section \<open>No task is lost or doubled\<close>

fun tasks_of :: "pool_pc \<Rightarrow> vl_thread_pool_task multiset" where
  "tasks_of (WorkRun t) = {#t#}"
| "tasks_of (EnqCheck pri ts) = mset ts"
| "tasks_of (EnqPush pri ts m) = mset ts"
| "tasks_of (EnqPost pri ts m) = mset ts"
| "tasks_of (Refused ts) = mset ts"
| "tasks_of (Faulted p) = tasks_of p"
| "tasks_of p = {#}"

definition in_hands :: "pool_sys \<Rightarrow> vl_thread_pool_task multiset" where
  "in_hands s = sum_list (map tasks_of (ps_pcs s))"





lemma in_hands_cong [simp]: "in_hands (s\<lparr>ps_calls := c\<rparr>) = in_hands s" "in_hands (s\<lparr>ps_pool := q\<rparr>) = in_hands s"
  by (simp_all add: in_hands_def)



lemma cnt_same:
  "i < length (ps_pcs s) \<Longrightarrow> P p = P (ps_pcs s ! i) \<Longrightarrow> cnt P (at_pc i p pool s) = cnt P s"
  using cnt_at [of i s P p pool] by simp




definition sample_task :: vl_thread_pool_task where
  "sample_task = \<lparr>tk_proc = 7, tk_user_data = 9\<rparr>"

text \<open>Sample run: one worker, one caller that enqueues a task and one that shuts the pool down.\<close>

definition sample_run :: "nat list \<Rightarrow> pool_sys option" where
  "sample_run is = do { s \<leftarrow> pool_start 1 [vlThreadPoolEnqueuePriority 0 (Some sample_task), vlThreadPoolShutdown]; pool_run True is s }"

lemmas sample_run_defs = pool_step_def freed_def sample_run_def pool_start_def vlThreadPoolNew_def vlThreadPoolEnqueuePriority_def vlThreadPoolShutdown_def


section \<open>Tasks left behind\<close>

lemma pool_stuck:
  "\<forall>i < length (ps_pcs s). pool_step blocks wake i (ps_pcs s ! i) s = None \<Longrightarrow> \<not> pool_move blocks wake s s'"
  by (auto elim!: pool_move.cases)

text \<open>
  A shutdown can lose a task that was accepted. A worker that has looked into the queue of high priority
  misses a task that is enqueued there, and if the pool is shut down before the worker loads the state,
  it exits; no thread can move then, the call that enqueued has returned one task, which nobody ever calls, although
  remaining work was to be completed.
\<close>

theorem thread_pool_shutdown_loses:
  "\<exists>s s'. pool_start 1 [vlThreadPoolEnqueuePriority VL_THREAD_POOL_PRIORITY_HIGH (Some t), vlThreadPoolShutdown] = Some s \<and>
     pool_run blocks [0, 1, 1, 1, 1, 2, 2, 2, 2, 0, 0, 0] s = Some s' \<and>
     ps_pcs s' = [WorkExited, Enqueued 1, ShutDone] \<and> ps_calls s' = [] \<and>
     wp_workQueues (ps_pool s') VL_THREAD_POOL_PRIORITY_HIGH = [t] \<and> (\<forall>wake s''. \<not> pool_move blocks wake s' s'')"
proof -
  obtain s where s: "pool_start 1 [vlThreadPoolEnqueuePriority VL_THREAD_POOL_PRIORITY_HIGH (Some t), vlThreadPoolShutdown] = Some s"
    by (simp add: pool_start_def vlThreadPoolNew_def)
  then obtain s' where s': "pool_run blocks [0, 1, 1, 1, 1, 2, 2, 2, 2, 0, 0, 0] s = Some s'"
    "ps_pcs s' = [WorkExited, Enqueued 1, ShutDone]" "ps_calls s' = []"
    "wp_workQueues (ps_pool s') VL_THREAD_POOL_PRIORITY_HIGH = [t]"
    by (auto simp: sample_run_defs pool_step_defs at_pc_def)
  have "\<not> pool_move blocks wake s' s''" for wake s''
    by (rule pool_stuck) (simp add: s'(2) All_less_Suc pool_step_def)
  then show ?thesis using s s' by blast
qed

text \<open>
  Where waiting for a semaphore with the timeout 0 blocks, a worker that found no work waits for the semaphore
  of high priority alone, so \<^verbatim>\<open>vlThreadPoolEnqueue\<close>, which takes the medium priority, does not wake it:
  the call returns success, its task stays in the queue, and no thread can move.
\<close>

theorem thread_pool_medium_sleeps:
  "\<exists>s s'. pool_start 1 [vlThreadPoolEnqueue (Some t)] = Some s \<and>
     pool_run True [0, 0, 0, 0, 0, 0, 0, 0, 0, 0, 0, 0, 1, 1, 1, 1] s = Some s' \<and>
     ps_pcs s' = [WorkSleep, Enqueued 1] \<and> ps_calls s' = [] \<and> wp_state (ps_pool s') = VL_THREAD_POOL_RUNNING \<and>
     wp_workQueues (ps_pool s') VL_THREAD_POOL_PRIORITY_MEDIUM = [t] \<and> (\<forall>wake s''. \<not> pool_move True wake s' s'')"
proof -
  obtain s where s: "pool_start 1 [vlThreadPoolEnqueue (Some t)] = Some s"
    by (simp add: pool_start_def vlThreadPoolNew_def)
  then obtain s' where s': "pool_run True [0, 0, 0, 0, 0, 0, 0, 0, 0, 0, 0, 0, 1, 1, 1, 1] s = Some s'"
    "ps_pcs s' = [WorkSleep, Enqueued 1]" "ps_calls s' = []" "wp_state (ps_pool s') = VL_THREAD_POOL_RUNNING"
    "wp_workQueues (ps_pool s') VL_THREAD_POOL_PRIORITY_MEDIUM = [t]" "wp_semaphores (ps_pool s') 0 = 0"
    by (auto simp: sample_run_defs vlThreadPoolEnqueue_def VL_THREAD_POOL_PRIORITY_MEDIUM_def pool_step_defs at_pc_def dec32_def u32_of_def)
  have "\<not> pool_move True wake s' s''" for wake s''
    by (rule pool_stuck) (simp add: s'(2,6) All_less_Suc pool_step_def freed_def VL_THREAD_POOL_PRIORITY_HIGH_def)
  then show ?thesis using s s' by blast
qed

section \<open>Active workers\<close>

text \<open>The workers that the counter of active workers counts: a worker that exits is not subtracted.\<close>

fun active :: "pool_pc \<Rightarrow> bool" where
  "active (WorkPop pri) \<longleftrightarrow> True"
| "active (WorkRun t) \<longleftrightarrow> True"
| "active p \<longleftrightarrow> p \<in> {WorkCount, WorkCheck, WorkIdle, WorkExited}"

definition counts_active :: "pool_sys \<Rightarrow> bool" where
  "counts_active s \<longleftrightarrow> wp_active_workers (ps_pool s) = u32_of (cnt active s)"

lemma counts_active_step:
  assumes "live_pool_step blocks wake i (ps_pcs s ! i) s = Some s'" and i: "i < length (ps_pcs s)" and "counts_active s"
  shows "counts_active s'"
proof (cases "ps_pcs s ! i")
  case WorkIdle
  have "0 < cnt active s" using cnt_pos [OF i] WorkIdle by simp
  then obtain k where k: "cnt active s = Suc k" using gr0_implies_Suc by blast
  have "cnt active (at_pc i WorkObtain pool s) = k" for pool
    using cnt_at [OF i, of active WorkObtain pool] WorkIdle k by simp
  then show ?thesis using assms WorkIdle k dec32_mod [of k] by (auto simp: counts_active_def)
next
  case WorkBusy
  have "cnt active (at_pc i (WorkPop 0) pool s) = cnt active s + 1" for pool
    using cnt_at [OF i, of active "WorkPop 0" pool] WorkBusy by simp
  then show ?thesis using assms WorkBusy inc32_mod [of "cnt active s"] by (auto simp: counts_active_def pool_step_defs)
qed (use assms cnt_same [OF i] in \<open>auto simp: counts_active_def pool_step_defs split: if_splits list.splits\<close>)

lemma cnt_le: "(\<And>p. P p \<Longrightarrow> Q p) \<Longrightarrow> cnt P s \<le> cnt Q s"
  unfolding cnt_def by (rule sum_list_mono) (auto simp: of_bool_def)

lemma cnt_worker: "pool_wf n N s \<Longrightarrow> cnt working s = n"
proof -
  assume wf: "pool_wf n N s"
  note d = pool_wfD [OF wf]
  have "cnt working s = (\<Sum>i = 0..<N. of_bool (i < n))"
    unfolding cnt_def sum_list_sum_nth using d(2,5) by simp
  also have "\<dots> = card {i. i < N \<and> i < n}" by (simp add: of_bool_def sum.If_cases Int_def)
  also have "{i. i < N \<and> i < n} = {..<n}" using d(3) by auto
  finally show ?thesis by simp
qed

lemma active_exited:
  assumes "pool_wf n N s" and "n < 2 ^ 32" and "counts_active s" and "WorkExited \<in> set (ps_pcs s)"
  shows "wp_active_workers (ps_pool s) \<noteq> 0"
proof -
  obtain k where "k < length (ps_pcs s)" "ps_pcs s ! k = WorkExited" using assms(4) by (auto simp: in_set_conv_nth)
  then have "0 < cnt active s" using cnt_pos [of k s active] by simp
  moreover have "working p" if "active p" for p using that by (cases p) auto
  then have "cnt active s \<le> n" using cnt_le [of active working] cnt_worker [OF assms(1)] by metis
  ultimately show ?thesis using assms(2,3) by (simp add: counts_active_def u32_of_def)
qed

definition waits :: "nat \<Rightarrow> pool_sys \<Rightarrow> bool" where
  "waits i s \<longleftrightarrow> (\<exists>p \<in> {WaitObtain 0, WaitActive 0, WaitEnter 0, WaitSleep 0}. ps_pcs s ! i \<in> {p, Faulted p}) \<and>
     WorkExited \<in> set (ps_pcs s)"

lemma exited_stays:
  assumes "WorkExited \<in> set (ps_pcs s)" and "ps_pcs s ! m \<noteq> WorkExited" and "ps_pcs s' = (ps_pcs s)[m := p']"
  shows "WorkExited \<in> set (ps_pcs s')"
proof -
  obtain k where k: "k < length (ps_pcs s)" "ps_pcs s ! k = WorkExited" using assms(1) by (auto simp: in_set_conv_nth)
  have "k \<noteq> m" using k(2) assms(2) by auto
  then have "ps_pcs s' ! k = WorkExited" "k < length (ps_pcs s')" using k assms(3) by simp_all
  then show ?thesis by (metis nth_mem)
qed

lemma waits_step:
  assumes step: "live_pool_step blocks wake m (ps_pcs s ! m) s = Some s'" and m: "m < length (ps_pcs s)"
    and ok: "pc_ok (wp_workerCount (ps_pool s)) (ps_pcs s ! m)"
    and w: "waits i s" and act: "wp_active_workers (ps_pool s) \<noteq> 0"
  shows "waits i s'"
proof -
  obtain p' where p': "ps_pcs s' = (ps_pcs s)[m := p']" using live_step_shape [OF step ok] by blast
  have "WorkExited \<in> set (ps_pcs s')"
    using exited_stays [OF _ live_step_from(1) [OF step] p'] w by (simp add: waits_def)
  moreover have "\<exists>p \<in> {WaitObtain 0, WaitActive 0, WaitEnter 0, WaitSleep 0}. ps_pcs s' ! i \<in> {p, Faulted p}"
  proof (cases "m = i")
    case True
    then have "ps_pcs s ! i \<in> {WaitObtain 0, WaitActive 0, WaitEnter 0, WaitSleep 0}" using w step by (auto simp: waits_def)
    then show ?thesis using step act m True by (elim insertE) (auto simp: pool_step_defs split: if_splits)
  next
    case False
    then show ?thesis using w p' by (simp add: waits_def)
  qed
  ultimately show ?thesis by (simp add: waits_def)
qed

lemma waits_fault:
  assumes "waits i s" and m: "m < length (ps_pcs s)" and "\<not> working (ps_pcs s ! m)" and "uses (ps_pcs s ! m)"
  shows "waits i (at_pc m (Faulted (ps_pcs s ! m)) (ps_pool s) s)"
proof -
  have "WorkExited \<in> set ((ps_pcs s)[m := Faulted (ps_pcs s ! m)])"
  proof -
    have "ps_pcs s ! m \<noteq> WorkExited" "WorkExited \<in> set (ps_pcs s)" using assms(1,3) by (auto simp: waits_def)
    then show ?thesis using exited_stays [of s m "at_pc m (Faulted (ps_pcs s ! m)) (ps_pool s) s"] by simp
  qed
  moreover have "\<exists>p \<in> {WaitObtain 0, WaitActive 0, WaitEnter 0, WaitSleep 0}.
      (ps_pcs s)[m := Faulted (ps_pcs s ! m)] ! i \<in> {p, Faulted p}"
    using assms(1,4) m by (cases "m = i") (auto simp: waits_def)
  ultimately show ?thesis by (simp add: waits_def)
qed

lemma active_fault:
  assumes "counts_active s" and "m < length (ps_pcs s)" and "\<not> working (ps_pcs s ! m)"
  shows "counts_active (at_pc m (Faulted (ps_pcs s ! m)) (ps_pool s) s)"
proof -
  have "\<not> active (ps_pcs s ! m)" using assms(3) by (cases "ps_pcs s ! m") auto
  then show ?thesis using assms(1) cnt_same [OF assms(2), of active "Faulted (ps_pcs s ! m)"] by (simp add: counts_active_def)
qed

text \<open>
  C36. Waiting without a timeout never returns once a worker has exited: workers that exit are not subtracted from
  the counter of active workers, so the caller keeps asking and sleeping under every schedule, though
  nothing is left to do and \<^verbatim>\<open>vl_thread_pool.h\<close> recommends to wait after a shutdown; if the pool is deleted
  meanwhile, it goes on with freed memory.
\<close>

theorem thread_pool_wait_hangs:
  assumes "pool_start n callers = Some s" and "\<forall>p \<in> set callers. caller p" and "n < 2 ^ 32"
    and "pool_steps blocks s s'" and "WorkExited \<in> set (ps_pcs s')" and "ps_pcs s' ! i = vlThreadPoolWait 0"
    and "pool_steps blocks s' s''"
  shows "(\<exists>p \<in> {WaitObtain 0, WaitActive 0, WaitEnter 0, WaitSleep 0}. ps_pcs s'' ! i \<in> {p, Faulted p}) \<and>
    wp_active_workers (ps_pool s'') \<noteq> 0"
proof -
  let ?N = "n + length callers"
  have s: "ps_pcs s = replicate n (WorkPop 0) @ callers" "wp_active_workers (ps_pool s) = n"
    using assms(1) by (auto simp: pool_start_def vlThreadPoolNew_def VL_THREAD_POOL_PRIORITY_HIGH_def split: if_splits)
  have w: "\<not> active p" if "caller p" for p using that by (cases p) simp_all
  have z: "sum_list (map (\<lambda>p. of_bool (active p)) callers) = (0 :: nat)" using assms(2) w by (simp add: sum_list_eq_0_iff)
  have start: "counts_active s" unfolding counts_active_def cnt_def s map_append sum_list_append z
    using assms(3) by (simp add: sum_list_replicate u32_of_id)
  have "pool_wf n ?N s' \<and> counts_active s'"
    by (rule pool_steps_inv [where I = counts_active, OF assms(4) pool_start_wf [OF assms(1,2)] start])
      (metis counts_active_step pool_wfD(2), metis active_fault pool_wfD(2))
  then have s': "pool_wf n ?N s'" "counts_active s'" by blast+
  let ?I = "\<lambda>s. counts_active s \<and> waits i s"
  have "?I s'" using s'(2) assms(5,6) by (simp add: waits_def vlThreadPoolWait_def)
  then have "pool_wf n ?N s'' \<and> ?I s''"
  proof (rule pool_steps_inv [OF assms(7) s'(1)])
    fix t t' wake m
    assume t: "pool_wf n ?N t" "?I t" "m < ?N" and step: "live_pool_step blocks wake m (ps_pcs t ! m) t = Some t'"
    note d = pool_wfD [OF t(1)]
    have m: "m < length (ps_pcs t)" using t(3) d(2) by simp
    have "wp_active_workers (ps_pool t) \<noteq> 0" using active_exited [OF t(1) assms(3)] t(2) by (simp add: waits_def)
    then show "?I t'"
      using counts_active_step [OF step m] waits_step [OF step m] d(1) d(4) [OF t(3)] t(2) by simp
  next
    fix t m
    assume t: "pool_wf n ?N t" "?I t" "m < ?N" "\<not> working (ps_pcs t ! m)" "uses (ps_pcs t ! m)"
    then show "?I (at_pc m (Faulted (ps_pcs t ! m)) (ps_pool t) t)"
      using active_fault [of t m] waits_fault [of i t m] pool_wfD(2) [OF t(1)] by simp
  qed
  then show ?thesis using active_exited [OF _ assms(3)] unfolding waits_def by blast
qed

lemma thread_pool_wait_hangs_witness:
  "\<exists>s s' s''. pool_start 1 [vlThreadPoolShutdown, vlThreadPoolWait 0] = Some s \<and> pool_run True [1, 1, 1, 1, 0, 0, 0, 0] s = Some s' \<and>
     pool_run True [2, 2, 2] s' = Some s'' \<and> ps_pcs s'' = [WorkExited, ShutDone, WaitSleep 0] \<and>
     (\<exists>p \<in> {WaitObtain 0, WaitActive 0, WaitEnter 0, WaitSleep 0}. ps_pcs s'' ! 2 \<in> {p, Faulted p}) \<and> wp_active_workers (ps_pool s'') \<noteq> 0"
proof -
  let ?c = "[vlThreadPoolShutdown, vlThreadPoolWait 0]"
  obtain s where s: "pool_start 1 ?c = Some s" by (simp add: pool_start_def vlThreadPoolNew_def)
  then obtain s' where s': "pool_run True [1, 1, 1, 1, 0, 0, 0, 0] s = Some s'" "ps_pcs s' = [WorkExited, ShutDone, WaitObtain 0]"
    and "\<exists>s''. pool_run True [2, 2, 2] s' = Some s'' \<and> ps_pcs s'' = [WorkExited, ShutDone, WaitSleep 0]"
    by (auto simp: sample_run_defs vlThreadPoolWait_def pool_step_defs at_pc_def)
  then obtain s'' where s'': "pool_run True [2, 2, 2] s' = Some s''" "ps_pcs s'' = [WorkExited, ShutDone, WaitSleep 0]" by blast
  have ok: "\<forall>p \<in> set ?c. caller p" by (simp add: vlThreadPoolWait_def vlThreadPoolShutdown_def)
  have "(\<exists>p \<in> {WaitObtain 0, WaitActive 0, WaitEnter 0, WaitSleep 0}. ps_pcs s'' ! 2 \<in> {p, Faulted p}) \<and> wp_active_workers (ps_pool s'') \<noteq> 0"
    by (rule thread_pool_wait_hangs [OF s ok _ pool_run_steps [OF s'(1)] _ _ pool_run_steps [OF s''(1)]])
      (simp_all add: s'(2) vlThreadPoolWait_def)
  then show ?thesis using s s'(1) s'' by blast
qed

section \<open>Shutting down\<close>





text \<open>
  The workers that may still wait for the semaphore of high priority, and the posts to it that the shutdown has
  still to make.
\<close>

fun needs :: "pool_pc \<Rightarrow> bool" where
  "needs (WorkTry pri) \<longleftrightarrow> True"
| "needs p \<longleftrightarrow> p \<in> {WorkIdle, WorkObtain, WorkActive, WorkBroadcast, WorkRelease, WorkSleep}"

fun posts :: "nat \<Rightarrow> pool_pc \<Rightarrow> nat" where
  "posts n (ShutPost del j) = n - (j + 2) div 3"
| "posts n (Faulted p) = posts n p"
| "posts n p = 0"

definition posted :: "nat \<Rightarrow> pool_sys \<Rightarrow> bool" where
  "posted n s \<longleftrightarrow> (wp_state (ps_pool s) \<noteq> VL_THREAD_POOL_RUNNING \<longrightarrow>
     cnt needs s \<le> wp_semaphores (ps_pool s) 0 + sum_list (map (posts n) (ps_pcs s)))"




lemma posted_calls [simp]: "posted n (s\<lparr>ps_calls := c\<rparr>) = posted n s"
  by (simp add: posted_def)






text \<open>What is left to do after the shutdown, as a number that every step decreases: \<open>sleeps\<close> is whether the thread waits for the condition.\<close>

fun remaining :: "nat \<Rightarrow> nat \<Rightarrow> bool \<Rightarrow> pool_pc \<Rightarrow> nat" where
  "remaining n N sleeps (WorkPop pri) = 4 - pri"
| "remaining n N sleeps (WorkRun t) = 6"
| "remaining n N sleeps WorkCount = 5"
| "remaining n N sleeps WorkCheck = 1"
| "remaining n N sleeps WorkIdle = 14 + 8 * N"
| "remaining n N sleeps WorkObtain = 13 + 8 * N"
| "remaining n N sleeps WorkActive = 12 + 8 * N"
| "remaining n N sleeps WorkBroadcast = 11 + 8 * N"
| "remaining n N sleeps WorkRelease = 10"
| "remaining n N sleeps (WorkTry pri) = 9 - pri"
| "remaining n N sleeps WorkSleep = 6"
| "remaining n N sleeps WorkBusy = 5"
| "remaining n N sleeps (EnqCheck pri ts) = 7 * length ts + 2"
| "remaining n N sleeps (EnqPush pri ts m) = 7 * length ts + 1"
| "remaining n N sleeps (EnqPost pri ts m) = 7 * length ts + 2"
| "remaining n N sleeps (ShutExchange del) = n + 2"
| "remaining n N sleeps (ShutPost del j) = 3 * n - j + n + 2"
| "remaining n N sleeps (DelJoin k) = n - k + 1"
| "remaining n N sleeps (WaitObtain t) = 8"
| "remaining n N sleeps (WaitActive t) = 7"
| "remaining n N sleeps (WaitSize t pri) = 6 - pri"
| "remaining n N sleeps (WaitEnter t) = 3"
| "remaining n N sleeps (WaitSleep t) = (if sleeps then 1 else 8)"
| "remaining n N sleeps WaitLate = 3"
| "remaining n N sleeps (WaitRelease r) = 2"
| "remaining n N sleeps p = 0"

definition left_over :: "nat \<Rightarrow> nat \<Rightarrow> pool_sys \<Rightarrow> nat" where
  "left_over n N s = (\<Sum>k<N. remaining n N (k \<in> wp_all_idle (ps_pool s)) (ps_pcs s ! k)) +
     5 * (length (wp_workQueues (ps_pool s) 0) + length (wp_workQueues (ps_pool s) 1) + length (wp_workQueues (ps_pool s) 2))"



lemma left_over_calls [simp]: "left_over n N (s\<lparr>ps_calls := c\<rparr>) = left_over n N s"
  by (simp add: left_over_def)














end
