(* ===== verification/Spec2Isabelle.thy ===== *)
theory Spec2Isabelle
  imports VL_Compare VL_Pool VL_Queue VL_Deque VL_List VL_ListSort VL_SetSpec VL_AlgoArith VL_NumTypesSpec
    VL_MemSort VL_MemBytes VL_StackSpec VL_ArenaApi VL_HashApi VL_StreamSpec VL_StreamRefs VL_Half VL_Nibble
    VL_Rand VL_MsgPackSpec VL_SimdSpec VL_AsyncSteps VL_MsgPackRemove VL_ThreadPoolSpec
begin

text \<open>
  VeritableLasagna is a C library of containers, serialization and system services. This
  development models the parts of it that compute: its containers and the memory they stand on, the
  MessagePack format, the numeric routines, hashing, random numbers and streams.

  \<^bold>\<open>How C is modelled.\<close> Every operation is a function, named as in C, from the state it works on to
  an \<^typ>\<open>'a option\<close>: \<^const>\<open>None\<close> is undefined behaviour (a null or dangling pointer, an index
  outside an allocation, a read of bytes that were never written, signed overflow, a shift that is
  too far) or a call that does not return; an inner \<^typ>\<open>'a option\<close> is a pointer that may be
  \<^verbatim>\<open>NULL\<close>. So a theorem that an operation is \<^const>\<open>Some\<close> says that it is safe and returns. What C
  mutates through a pointer is a record that is passed and returned. Integers keep their width: words
  where bits matter, otherwise natural numbers that are cut to 16, 32 or 64 bits where C does. Loops
  are \<^verbatim>\<open>partial_function (option)\<close>, without fuel: that they end is proved. Memory is a list of
  bytes, \<^const>\<open>None\<close> for a byte that was never written. The C allocator is a parameter with its
  contract (results are aligned, fit the address space, and exist below a limit). The configuration is
  the 64-bit one of \<^verbatim>\<open>cmake/PrimitiveTypes.cmake\<close>, little-endian.

  \<^bold>\<open>Memory\<close> (\<^verbatim>\<open>vl_memory.c\<close>). \<^theory_text>\<open>VL_Memory\<close> has allocations with their hidden headers, aligned or
  not, their reallocation and cloning, the quicksort over raw memory and the strided copies;
  \<^theory_text>\<open>VL_MemorySpec\<close> shows that allocations are aligned and safe to free and that a reallocation keeps
  the contents, \<^theory_text>\<open>VL_MemSort\<close> that the sort with its explicit stack sorts, \<^theory_text>\<open>VL_MemBytes\<close> what the
  strided operations do to each byte.

  \<^bold>\<open>Buffers and stacks\<close> (\<^verbatim>\<open>vl_buffer.c\<close>, \<^verbatim>\<open>vl_stack.c\<close>). \<^theory_text>\<open>VL_Buffer\<close> stands on the
  allocations, \<^theory_text>\<open>VL_Stack\<close> on the buffer; \<^theory_text>\<open>VL_BufferSpec\<close> shows that a buffer gives back what was
  written while it grows, \<^theory_text>\<open>VL_StackSpec\<close> that the stack of elements of any size refines a list.

  \<^bold>\<open>Pool, queue, deque, list\<close> (\<^verbatim>\<open>vl_pool.c\<close>, \<^verbatim>\<open>vl_queue.c\<close>, \<^verbatim>\<open>vl_deque.c\<close>,
  \<^verbatim>\<open>vl_linked_list.c\<close>). \<^theory_text>\<open>VL_Pool\<close> is the pool of slots that the linked containers allocate their
  nodes from; it hands out no slot twice and leaks none. \<^theory_text>\<open>VL_Chain\<close> has the segments of linked
  nodes that deque and list share, \<^theory_text>\<open>VL_Queue\<close>, \<^theory_text>\<open>VL_Deque\<close>, \<^theory_text>\<open>VL_List\<close> the containers as
  refinements of lists, \<^theory_text>\<open>VL_ListSort\<close> the merge sort that relinks the list, which is stable.

  \<^bold>\<open>Ordered set\<close> (\<^verbatim>\<open>vl_set.c\<close>). \<^theory_text>\<open>VL_Set\<close> is the red-black tree on a pool, \<^theory_text>\<open>VL_SetShape\<close> its
  tree as a term, \<^theory_text>\<open>VL_SetOrder\<close> rotations and order, \<^theory_text>\<open>VL_SetSpec\<close> what the operations do to the
  sorted sequence of elements, and that a removal can leave the tree unbalanced.

  \<^bold>\<open>Arena and hash table\<close> (\<^verbatim>\<open>vl_arena.c\<close>, \<^verbatim>\<open>vl_hashtable.c\<close>, \<^verbatim>\<open>vl_hash.c\<close>). \<^theory_text>\<open>VL_Arena\<close> is the heap
  of blocks whose gaps are kept in a set of \<^theory_text>\<open>VL_Set\<close>; \<^theory_text>\<open>VL_ArenaFree\<close> and \<^theory_text>\<open>VL_ArenaSegs\<close> relate the
  gaps to the bytes, \<^theory_text>\<open>VL_ArenaSpec\<close> shows that the blocks are a map from pointers to bytes, and
  \<^theory_text>\<open>VL_ArenaApi\<close> packs this into the interface \<^theory_text>\<open>block_heap\<close>. \<^theory_text>\<open>VL_HashTable\<close> is the table, whose nodes
  are blocks of an arena; \<^theory_text>\<open>VL_HashArena\<close>, \<^theory_text>\<open>VL_HashNodes\<close> and \<^theory_text>\<open>VL_HashSpec\<close> show that it is a map
  from iterators to keys and values, \<^theory_text>\<open>VL_HashApi\<close> what the API does to the map from keys to values.
  \<^theory_text>\<open>VL_Hash\<close> has the hash functions.

  \<^bold>\<open>MessagePack\<close> (\<^verbatim>\<open>vl_msgpack_io.c\<close>). \<^theory_text>\<open>VL_MsgPackIO\<close> is the encoder, with its stack of open
  containers, and the decoder of tokens; \<^theory_text>\<open>VL_MsgPackEnc\<close> and \<^theory_text>\<open>VL_MsgPackDec\<close> give what each does at
  each type, \<^theory_text>\<open>VL_MsgPackSpec\<close> the round trip of values of any shape and the safety of the decoder.
  \<^bold>\<open>MessagePack documents\<close> (\<^verbatim>\<open>vl_msgpack.c\<close>, \<^verbatim>\<open>vl_msgpack.h\<close>). \<^theory_text>\<open>VL_MsgPack\<close> has the tree of elements,
  each a value of the hash table under the hash of its parent and its own key, with the values in an
  arena, and the functions of \<^verbatim>\<open>vl_msgpack_io.c\<close> between documents and bytes. \<^theory_text>\<open>VL_MsgPackDoc\<close> relates
  the 64 bytes of an element to its fields and the links between siblings to the list of children; it shows what
  inserting into a map does and that a document is encoded as the value it represents. \<^theory_text>\<open>VL_MsgPackRemove\<close>
  has the removal of children, and what goes wrong in it. The properties cover insertion under keys that a map
  does not have, with keys that fit on the stack; overwriting, arrays and decoding into documents are modelled only.

  \<^bold>\<open>Streams\<close> (\<^verbatim>\<open>vl_stream.c\<close>, \<^verbatim>\<open>vl_stream_memory.c\<close>). \<^theory_text>\<open>VL_Stream\<close> has the stream over a table of
  functions and its two adapters; \<^theory_text>\<open>VL_StreamSpec\<close> states what a medium promises as the locale
  \<^theory_text>\<open>stream_medium\<close>, with a buffer and a block of memory as its models, and the safety of memory streams
  after any sequence of calls; \<^theory_text>\<open>VL_StreamRefs\<close> has the references, also as the atomic steps of
  several threads.
  \<^bold>\<open>Asynchronous queue\<close> (\<^verbatim>\<open>vl_async_queue.c\<close>, \<^verbatim>\<open>vl_async_pool.c\<close>, \<^verbatim>\<open>vl_atomic_ptr.h\<close>). \<^theory_text>\<open>VL_AsyncPool\<close>
  is the pool of growing blocks under a free stack, \<^theory_text>\<open>VL_AsyncPoolSpec\<close> shows that it gives out no
  element twice; \<^theory_text>\<open>VL_AsyncQueue\<close> is the queue in one thread, \<^theory_text>\<open>VL_AsyncSteps\<close> its operations as atomic
  steps of several threads: any number of them may push at once, while popping has a race and depends
  on weak exchanges of the tail that do not fail without a reason.

  \<^bold>\<open>Thread pool\<close> (\<^verbatim>\<open>vl_thread_pool.c\<close>). \<^theory_text>\<open>VL_ThreadPool\<close> has the workers and the calls as atomic steps of
  threads, with the semaphores, the lock and the condition; \<^theory_text>\<open>VL_ThreadPoolSpec\<close> shows that no task is lost or
  doubled, that a shutdown ends, and where it and the waiting fail.

  \<^bold>\<open>Numbers\<close> (\<^verbatim>\<open>vl_algo.c\<close>, \<^verbatim>\<open>vl_numtypes.c\<close>, \<^verbatim>\<open>vl_compare.c\<close>, \<^verbatim>\<open>vl_half.h\<close>, \<^verbatim>\<open>vl_nibble.h\<close>,
  \<^verbatim>\<open>vl_rand.c\<close>). \<^theory_text>\<open>VL_Algo\<close> has the bit counts, gcd and overflow predicates in all variants that the
  preprocessor selects, \<^theory_text>\<open>VL_AlgoBits\<close> and \<^theory_text>\<open>VL_AlgoArith\<close> show that the variants agree and are
  exact; \<^theory_text>\<open>VL_NumTypes\<close> and \<^theory_text>\<open>VL_NumTypesSpec\<close> the table of numeric types and casts; \<^theory_text>\<open>VL_Compare\<close> the
  comparison functions and the locale of comparators that set, arena and sorts rely on; \<^theory_text>\<open>VL_Half\<close> half
  precision, \<^theory_text>\<open>VL_Nibble\<close> packed nibbles, \<^theory_text>\<open>VL_Rand\<close> the generator and its unit intervals.
  \<^bold>\<open>Vectors\<close> (\<^verbatim>\<open>vl_simd.c\<close>, \<^verbatim>\<open>vl_simd_portable.c\<close>, \<^verbatim>\<open>vl_simd.h\<close>). \<^theory_text>\<open>VL_Simd\<close> has the portable
  functions, the table of pointers and the functions of the header that call through it; \<^theory_text>\<open>VL_SimdSpec\<close>
  what masks select, and the pointers that are null before the table is initialised.

  \<^bold>\<open>Interfaces.\<close> \<^theory_text>\<open>slot_pool\<close> (pool, for the linked containers), \<^theory_text>\<open>fifo_container\<close> and \<^theory_text>\<open>lifo_container\<close>
  (queue, both ends of the deque, stack), \<^theory_text>\<open>comparator\<close> and \<^theory_text>\<open>ordering_comparator\<close> (comparison functions, for
  set and sorts), \<^theory_text>\<open>run_order\<close> (merge sort), \<^theory_text>\<open>block_heap\<close> (arena, for the hash table), \<^theory_text>\<open>keyed_table\<close>
  (hash table), \<^theory_text>\<open>stream_medium\<close> (media of streams), \<^theory_text>\<open>element_source\<close> (the asynchronous pool) are locales; each is interpreted on the code's own
  definitions, and the properties are stated over these.

  \<^bold>\<open>Bounds.\<close> Theorems about containers assume what the C types assume: fewer than \<open>2^32\<close> slots or bytes in
  a pool or an arena, memory below a limit of the allocator of at most \<open>2^62\<close> bytes, so that the doubling of
  capacities does not wrap. Where the code fails at such a bound, or on arguments that its documentation allows,
  a theorem about the failure is stated too: the imbalance of the set after a removal, the sort of elements of an
  odd size, the race of two threads that drop a stream, the portable branches of the bit counts, the arena
  that moves a block, waiting for a thread pool that was shut down.

  \<^bold>\<open>Not modelled.\<close> The services of the operating system, whose effects are outside of the code: files and
  paths (\<^verbatim>\<open>vl_filesys.c\<close>, \<^verbatim>\<open>vl_stream_filesys.c\<close>), sockets, dynamic libraries, threads, mutexes,
  conditions and semaphores with their platform layers, logging to streams and the console. Vector
  intrinsics of the processors (\<^verbatim>\<open>vl_simd_sse2.c\<close> and its relatives) are not code that can be read here.
  Arithmetic on floating-point numbers is a parameter wherever it occurs. The asynchronous pool is modelled for one thread, and
  a call of it, whose weak exchanges do not fail, is one step of the asynchronous queue; pushing to a queue and
  popping from it are one step of the thread pool. The log is left out.
\<close>

end
